(* ===== verification/Prelude.thy ===== *)
theory Prelude
  imports Main "HOL-Library.Word"
begin

text \<open>
  Shared vocabulary of the development.

  \<^item> Errors as values: \<open>py_error\<close> names the Python exceptions (and failed assertions) the
    modelled code can raise; \<open>'a result\<close> is the sum of an error and a value, and \<open>bindR\<close>
    sequences two computations the way a raised exception does.
  \<^item> Python integers are unbounded, so they are \<open>int\<close>; \<open>shl\<close> and \<open>shr\<close> are the operators
    \<open><<\<close> and \<open>>>\<close>, and \<open>AND\<close>, \<open>OR\<close>, \<open>XOR\<close> the bitwise operators.  A byte of a \<open>bytes\<close> or
    \<open>bytearray\<close> object is an \<open>8 word\<close>.
  \<^item> Python slices \<open>xs[i:j]\<close>, with negative indices counted from the end and both bounds
    clamped to the sequence.
  \<^item> The collection \<open>bits_arith\<close> turns masks, shifts and disjoint unions of fields into
    arithmetic, which is how the packed header fields are taken apart in the proofs.
\<close>

unbundle bit_operations_syntax

named_theorems bits_arith \<open>masks, shifts and packed fields as arithmetic\<close>
named_theorems res_simps \<open>sequencing of fallible computations\<close>

section \<open>Errors as values\<close>

datatype py_error =
    StructError
  | IndexError
  | KeyError
  | TypeError
  | ValueError
  | AttributeError
  | UnboundLocalError
  | AssertionError
  | StopSimulation
  | OverflowError
  | QueueFull
  | QueueEmpty
  | OtherException
  | Diverges

type_synonym 'a result = "py_error + 'a"

definition bindR :: "'a result \<Rightarrow> ('a \<Rightarrow> 'b result) \<Rightarrow> 'b result" where
  "bindR r f = (case r of Inl e \<Rightarrow> Inl e | Inr x \<Rightarrow> f x)"

lemma bindR_Inl [simp, res_simps]: "bindR (Inl e) f = Inl e"
  by (simp add: bindR_def)

lemma bindR_Inr [simp, res_simps]: "bindR (Inr x) f = f x"
  by (simp add: bindR_def)

lemma bindR_eq_Inr [res_simps]: "bindR r f = Inr y \<longleftrightarrow> (\<exists>x. r = Inr x \<and> f x = Inr y)"
  by (cases r) auto

lemma bindR_eq_Inl [res_simps]:
  "bindR r f = Inl e \<longleftrightarrow> r = Inl e \<or> (\<exists>x. r = Inr x \<and> f x = Inl e)"
  by (cases r) auto

lemma bindR_assoc: "bindR (bindR r f) g = bindR r (\<lambda>x. bindR (f x) g)"
  by (cases r) auto

lemma bindR_eqI: "r = r' \<Longrightarrow> (\<And>x. r' = Inr x \<Longrightarrow> f x = g x) \<Longrightarrow> bindR r f = bindR r' g"
  by (cases r) auto

text \<open>An \<open>assert\<close> statement.\<close>

definition assertR :: "bool \<Rightarrow> unit result" where
  "assertR b = (if b then Inr () else Inl AssertionError)"

lemma assertR_simps [simp, res_simps]:
  "assertR True = Inr ()" "assertR False = Inl AssertionError"
  "assertR b = Inr u \<longleftrightarrow> b"
  by (simp_all add: assertR_def)

section \<open>Python integers: shifts, masks and packed fields\<close>

type_synonym byte = "8 word"
type_synonym bytes = "byte list"

abbreviation shl :: "int \<Rightarrow> nat \<Rightarrow> int" where
  "shl x n \<equiv> push_bit n x"

abbreviation shr :: "int \<Rightarrow> nat \<Rightarrow> int" where
  "shr x n \<equiv> drop_bit n x"

lemma shl_arith [bits_arith]: "shl x n = x * 2 ^ n"
  by (simp add: push_bit_eq_mult)

lemma shr_arith [bits_arith]: "shr x n = x div 2 ^ n"
  by (simp add: drop_bit_eq_div)

lemma and_mask_int: "(x :: int) AND (2 ^ n - 1) = x mod 2 ^ n"
  by (metis mask_eq_exp_minus_1 take_bit_eq_mask take_bit_eq_mod)

lemma and_masks [bits_arith]:
  fixes x :: int
  shows "x AND 1 = x mod 2" and "x AND 3 = x mod 4" and "x AND 7 = x mod 8"
    and "x AND 15 = x mod 16" and "x AND 63 = x mod 64" and "x AND 127 = x mod 128"
    and "x AND 255 = x mod 256" and "x AND 8191 = x mod 8192" and "x AND 16383 = x mod 16384"
    and "x AND 65535 = x mod 65536" and "x AND 4294967295 = x mod 4294967296"
proof -
  show "x AND 1 = x mod 2" by (rule and_mask_int [of x 1, simplified])
  show "x AND 3 = x mod 4" by (rule and_mask_int [of x 2, simplified])
  show "x AND 7 = x mod 8" by (rule and_mask_int [of x 3, simplified])
  show "x AND 15 = x mod 16" by (rule and_mask_int [of x 4, simplified])
  show "x AND 63 = x mod 64" by (rule and_mask_int [of x 6, simplified])
  show "x AND 127 = x mod 128" by (rule and_mask_int [of x 7, simplified])
  show "x AND 255 = x mod 256" by (rule and_mask_int [of x 8, simplified])
  show "x AND 8191 = x mod 8192" by (rule and_mask_int [of x 13, simplified])
  show "x AND 16383 = x mod 16384" by (rule and_mask_int [of x 14, simplified])
  show "x AND 65535 = x mod 65536" by (rule and_mask_int [of x 16, simplified])
  show "x AND 4294967295 = x mod 4294967296" by (rule and_mask_int [of x 32, simplified])
qed

text \<open>A field placed above \<open>n\<close> low bits and a field inside them do not overlap.\<close>

lemma or_field [bits_arith]:
  fixes a b :: int
  assumes "0 \<le> b" "b < 2 ^ n"
  shows "shl a n OR b = a * 2 ^ n + b"
proof -
  have tb: "take_bit n b = b"
    using assms by (simp add: take_bit_int_eq_self)
  have "shl a n AND b = 0"
  proof (rule bit_eqI)
    fix k
    have "\<not> bit b k" if "n \<le> k"
      using that by (metis tb bit_take_bit_iff not_le)
    then show "bit (shl a n AND b) k \<longleftrightarrow> bit (0 :: int) k"
      by (auto simp: bit_and_iff bit_push_bit_iff)
  qed
  then show ?thesis
    by (simp add: push_bit_eq_mult disjunctive_add_eq_or [symmetric])
qed

section \<open>Slices\<close>

text \<open>\<open>xs[i:j]\<close>: a negative index counts from the end, and both are clamped to the length.\<close>

definition slice_index :: "nat \<Rightarrow> int \<Rightarrow> nat" where
  "slice_index n i = nat (if i < 0 then max 0 (int n + i) else min (int n) i)"

definition pslice :: "'a list \<Rightarrow> int \<Rightarrow> int \<Rightarrow> 'a list" where
  "pslice xs i j =
     (let a = slice_index (length xs) i; b = slice_index (length xs) j
      in take (b - a) (drop a xs))"

definition pslice_from :: "'a list \<Rightarrow> int \<Rightarrow> 'a list" where
  "pslice_from xs i = drop (slice_index (length xs) i) xs"

definition pslice_to :: "'a list \<Rightarrow> int \<Rightarrow> 'a list" where
  "pslice_to xs j = take (slice_index (length xs) j) xs"

lemma pslice_nonneg [simp]:
  assumes "0 \<le> i" "0 \<le> j"
  shows "pslice xs i j = take (nat j - nat i) (drop (nat i) xs)"
proof -
  have "slice_index (length xs) i = min (length xs) (nat i)"
    and "slice_index (length xs) j = min (length xs) (nat j)"
    using assms by (auto simp: slice_index_def min_def)
  then show ?thesis
    by (auto simp: pslice_def Let_def min_def)
qed

lemma pslice_from_nonneg [simp]: "0 \<le> i \<Longrightarrow> pslice_from xs i = drop (nat i) xs"
  by (auto simp: pslice_from_def slice_index_def min_def)

lemma pslice_from_neg:
  assumes "0 < k" "k \<le> length xs"
  shows "pslice_from xs (- int k) = drop (length xs - k) xs"
proof -
  have "slice_index (length xs) (- int k) = length xs - k"
    using assms by (auto simp: slice_index_def max_def)
  then show ?thesis by (simp add: pslice_from_def)
qed

lemma pslice_to_neg:
  assumes "0 < k" "k \<le> length xs"
  shows "pslice_to xs (- int k) = take (length xs - k) xs"
proof -
  have "slice_index (length xs) (- int k) = length xs - k"
    using assms by (auto simp: slice_index_def max_def)
  then show ?thesis by (simp add: pslice_to_def)
qed

text \<open>\<open>xs[-0:]\<close> is the whole sequence: the minus sign is lost on zero.\<close>

lemma pslice_from_zero [simp]: "pslice_from xs (- 0) = xs"
  by simp

lemma pslice_to_zero [simp]: "pslice_to xs (- 0) = []"
  by (simp add: pslice_to_def slice_index_def)

section \<open>Indexing\<close>

text \<open>\<open>xs[i]\<close> for a non-negative index, and \<open>xs.pop(0)\<close>.\<close>

definition nthR :: "'a list \<Rightarrow> nat \<Rightarrow> 'a result" where
  "nthR xs i = (if i < length xs then Inr (xs ! i) else Inl IndexError)"

fun pop0 :: "'a list \<Rightarrow> ('a \<times> 'a list) result" where
  "pop0 [] = Inl IndexError"
| "pop0 (x # xs) = Inr (x, xs)"

lemma nthR_lt [simp]: "i < length xs \<Longrightarrow> nthR xs i = Inr (xs ! i)"
  by (simp add: nthR_def)

end
