(* ===== verification/Struct_Codec.thy ===== *)
theory Struct_Codec
  imports Prelude
begin

text \<open>
  The part of Python's \<open>struct\<close> module the scripts and endpoints use: \<open>pack\<close> and \<open>unpack\<close> of
  one unsigned integer, big-endian (\<open>>B\<close>, \<open>>H\<close>, \<open>>L\<close>, \<open>>Q\<close>) or little-endian (\<open><L\<close>).  Packing an
  integer that does not fit the field, and unpacking a buffer of the wrong length, raise
  \<open>struct.error\<close>.  The lemmas are the two round trips and the facts about truncated fields
  (a 48-bit MAC address is packed as \<open>>Q\<close> and cut to its last six bytes).
\<close>

section \<open>Byte strings of integers\<close>

fun le_bytes :: "nat \<Rightarrow> int \<Rightarrow> bytes" where
  "le_bytes 0 x = []"
| "le_bytes (Suc n) x = word_of_int x # le_bytes n (x div 256)"

fun le_val :: "bytes \<Rightarrow> int" where
  "le_val [] = 0"
| "le_val (b # bs) = uint b + 256 * le_val bs"

definition be_bytes :: "nat \<Rightarrow> int \<Rightarrow> bytes" where
  "be_bytes n x = rev (le_bytes n x)"

definition be_val :: "bytes \<Rightarrow> int" where
  "be_val bs = le_val (rev bs)"

section \<open>pack and unpack of one field\<close>

definition pack_be :: "nat \<Rightarrow> int \<Rightarrow> bytes result" where
  "pack_be n x = (if 0 \<le> x \<and> x < 256 ^ n then Inr (be_bytes n x) else Inl StructError)"

definition pack_le :: "nat \<Rightarrow> int \<Rightarrow> bytes result" where
  "pack_le n x = (if 0 \<le> x \<and> x < 256 ^ n then Inr (le_bytes n x) else Inl StructError)"

definition unpack_be :: "nat \<Rightarrow> bytes \<Rightarrow> int result" where
  "unpack_be n bs = (if length bs = n then Inr (be_val bs) else Inl StructError)"

definition unpack_le :: "nat \<Rightarrow> bytes \<Rightarrow> int result" where
  "unpack_le n bs = (if length bs = n then Inr (le_val bs) else Inl StructError)"

abbreviation pack_B :: "int \<Rightarrow> bytes result" where "pack_B \<equiv> pack_be 1"
abbreviation pack_H :: "int \<Rightarrow> bytes result" where "pack_H \<equiv> pack_be 2"
abbreviation pack_L :: "int \<Rightarrow> bytes result" where "pack_L \<equiv> pack_be 4"
abbreviation pack_Q :: "int \<Rightarrow> bytes result" where "pack_Q \<equiv> pack_be 8"
abbreviation unpack_B :: "bytes \<Rightarrow> int result" where "unpack_B \<equiv> unpack_be 1"
abbreviation unpack_H :: "bytes \<Rightarrow> int result" where "unpack_H \<equiv> unpack_be 2"
abbreviation unpack_L :: "bytes \<Rightarrow> int result" where "unpack_L \<equiv> unpack_be 4"
abbreviation unpack_Q :: "bytes \<Rightarrow> int result" where "unpack_Q \<equiv> unpack_be 8"

section \<open>Lengths and ranges\<close>

lemma length_le_bytes [simp]: "length (le_bytes n x) = n"
  by (induction n arbitrary: x) auto

lemma length_be_bytes [simp]: "length (be_bytes n x) = n"
  by (simp add: be_bytes_def)

lemma le_val_nonneg [simp]: "0 \<le> le_val bs"
  by (induction bs) auto

lemma be_val_nonneg [simp]: "0 \<le> be_val bs"
  by (simp add: be_val_def)

lemma le_val_less: "le_val bs < 256 ^ length bs"
proof (induction bs)
  case (Cons b bs)
  have "uint b < 256"
    using uint_lt2p [of b] by simp
  moreover have "le_val bs \<le> 256 ^ length bs - 1"
    using Cons by simp
  ultimately show ?case by simp
qed simp

lemma be_val_less: "be_val bs < 256 ^ length bs"
  using le_val_less [of "rev bs"] by (simp add: be_val_def)

section \<open>Round trips\<close>

lemma uint_byte_of_int [simp]: "uint (word_of_int x :: byte) = x mod 256"
  by (simp add: uint_word_of_int)

lemma le_val_le_bytes: "le_val (le_bytes n x) = x mod 256 ^ n"
proof (induction n arbitrary: x)
  case (Suc n)
  have "x mod 256 + 256 * (x div 256 mod 256 ^ n) = x mod (256 * 256 ^ n)"
    by (simp add: zmod_zmult2_eq)
  then show ?case using Suc by simp
qed simp

lemma be_val_be_bytes: "be_val (be_bytes n x) = x mod 256 ^ n"
  by (simp add: be_val_def be_bytes_def le_val_le_bytes)

lemma le_bytes_le_val: "le_bytes (length bs) (le_val bs) = bs"
proof (induction bs)
  case (Cons b bs)
  have b: "0 \<le> uint b" "uint b < 256"
    using uint_lt2p [of b] by simp_all
  have "(uint b + 256 * le_val bs) div 256 = le_val bs"
    using b by simp
  moreover have "(word_of_int (uint b + 256 * le_val bs) :: byte) = b"
  proof (rule word_uint_eqI)
    show "uint (word_of_int (uint b + 256 * le_val bs) :: byte) = uint b"
      by (subst uint_byte_of_int) (use b in simp)
  qed
  ultimately show ?case using Cons by simp
qed simp

lemma be_bytes_be_val: "be_bytes (length bs) (be_val bs) = bs"
  using le_bytes_le_val [of "rev bs"] by (simp add: be_bytes_def be_val_def)

lemma pack_unpack_be [simp]: "pack_be n x = Inr bs \<Longrightarrow> unpack_be n bs = Inr x"
  by (auto simp: pack_be_def unpack_be_def be_val_be_bytes split: if_splits)

lemma unpack_pack_be: "unpack_be n bs = Inr x \<Longrightarrow> pack_be n x = Inr bs"
  by (auto simp: pack_be_def unpack_be_def be_val_less be_bytes_be_val split: if_splits)

lemma pack_unpack_le: "pack_le n x = Inr bs \<Longrightarrow> unpack_le n bs = Inr x"
  by (auto simp: pack_le_def unpack_le_def le_val_le_bytes split: if_splits)

section \<open>The forms the proofs use\<close>

text \<open>An in-range field packs to its bytes, an out-of-range one raises; unpacking the bytes of a
  field gives the field back.\<close>

lemma pack_be_ok [simp]: "0 \<le> x \<Longrightarrow> x < 256 ^ n \<Longrightarrow> pack_be n x = Inr (be_bytes n x)"
  by (simp add: pack_be_def)

lemma pack_le_ok [simp]: "0 \<le> x \<Longrightarrow> x < 256 ^ n \<Longrightarrow> pack_le n x = Inr (le_bytes n x)"
  by (simp add: pack_le_def)

lemma pack_be_Inr: "pack_be n x = Inr bs \<longleftrightarrow> 0 \<le> x \<and> x < 256 ^ n \<and> bs = be_bytes n x"
  by (auto simp: pack_be_def)

lemma pack_be_Inl: "pack_be n x = Inl e \<longleftrightarrow> \<not> (0 \<le> x \<and> x < 256 ^ n) \<and> e = StructError"
  by (auto simp: pack_be_def)

lemma unpack_be_bytes [simp]: "unpack_be n (be_bytes n x) = Inr (x mod 256 ^ n)"
  by (simp add: unpack_be_def be_val_be_bytes)

lemma unpack_le_bytes [simp]: "unpack_le n (le_bytes n x) = Inr (x mod 256 ^ n)"
  by (simp add: unpack_le_def le_val_le_bytes)

lemma unpack_be_length: "length bs = n \<Longrightarrow> unpack_be n bs = Inr (be_val bs)"
  by (simp add: unpack_be_def)

lemma unpack_be_short: "length bs \<noteq> n \<Longrightarrow> unpack_be n bs = Inl StructError"
  by (simp add: unpack_be_def)

lemma take_le_bytes: "k \<le> n \<Longrightarrow> take k (le_bytes n x) = le_bytes k x"
proof (induction n arbitrary: k x)
  case (Suc n)
  then show ?case by (cases k) auto
qed simp

lemma drop_be_bytes: "k \<le> n \<Longrightarrow> drop k (be_bytes n x) = be_bytes (n - k) x"
  by (simp add: be_bytes_def drop_rev take_le_bytes)

lemma le_val_append: "le_val (xs @ ys) = le_val xs + 256 ^ length xs * le_val ys"
  by (induction xs) (auto simp: algebra_simps)

text \<open>Zero bytes in front of a big-endian field do not change its value.\<close>

lemma le_val_zeros [simp]: "le_val (replicate k 0) = 0"
  by (induction k) auto

lemma be_val_zeros: "be_val (replicate k 0 @ bs) = be_val bs"
  by (simp add: be_val_def le_val_append)

lemma be_val_zero_Cons [simp]: "be_val (0 # bs) = be_val bs"
  using be_val_zeros [of 1 bs] by simp

end
