(* ===== verification/Crc32.thy ===== *)
theory Crc32
  imports Struct_Codec
begin

text \<open>
  The CRC-32 code of the scripts: \<open>reverse_poly_bits\<close> and \<open>compute_crc\<close> of
  \<open>Scripts/Decode_tap_data.py\<close> (the same two functions are in
  \<open>lib/FAST_CRC32/Scripts/Generate_crc_test_data.py\<close>), the word-by-word loop the script runs over
  a frame, and \<open>fcs_ethernet\<close> of \<open>Scripts/Send_pause_frame.py\<close>.

  The scripts mix Python integers with \<open>numpy.uint32\<close> scalars; under NumPy's promotion of
  \<open>uint32\<close> with a Python integer to \<open>int64\<close> every intermediate value stays in
  \<open>0 \<le> x < 2^32\<close>, so the arithmetic is that of the integers, which is how it is written here.

  The reference is \<open>zlib.crc32\<close>, the reflected CRC-32 of IEEE 802.3 on a 32-bit register
  (\<open>crc_bit\<close>, \<open>crc_byte\<close>, \<open>crc32_update\<close>).  The lemmas show that the scripts' loop computes that
  register, that a register step is linear, and what the residue of a frame with its check
  sequence is.
\<close>

section \<open>The scripts\<close>

fun reverse_loop :: "nat \<Rightarrow> int \<Rightarrow> int \<Rightarrow> int" where
  "reverse_loop 0 x_reversed x = x_reversed"
| "reverse_loop (Suc n) x_reversed x =
     reverse_loop n (shl x_reversed 1 OR (x AND 1)) (shr x 1)"

definition reverse_poly_bits :: "int \<Rightarrow> int" where
  "reverse_poly_bits x = reverse_loop 32 0 x"

fun crc_bit_loop :: "nat \<Rightarrow> int \<Rightarrow> int \<Rightarrow> int" where
  "crc_bit_loop 0 poly_reversed crc = crc"
| "crc_bit_loop (Suc j) poly_reversed crc =
     (let mask = - (crc AND 1)
      in crc_bit_loop j poly_reversed (shr crc 1 XOR (poly_reversed AND mask)))"

fun crc_byte_loop :: "nat list \<Rightarrow> int \<Rightarrow> int \<Rightarrow> int \<Rightarrow> int" where
  "crc_byte_loop [] data poly_reversed crc = crc"
| "crc_byte_loop (i # is) data poly_reversed crc =
     crc_byte_loop is data poly_reversed
       (crc_bit_loop 8 poly_reversed (crc XOR (shr data (8 * i) AND 255)))"

definition compute_crc :: "int \<Rightarrow> int \<Rightarrow> int \<Rightarrow> int" where
  "compute_crc data poly crc_init =
     crc_byte_loop [0..<4] data (reverse_poly_bits poly) crc_init"

text \<open>
  The loop over the 32-bit words of a byte string:
  \<open>for i in range(int(len(s) / 4))\<close>, unpacking \<open>s[4*i : 4*i+4]\<close> as \<open><L\<close>.
\<close>

fun crc_words :: "nat list \<Rightarrow> bytes \<Rightarrow> int \<Rightarrow> int result" where
  "crc_words [] s crc_temp = Inr crc_temp"
| "crc_words (i # is) s crc_temp =
     bindR (unpack_le 4 (pslice s (int (i * 4)) (int (i * 4 + 4)))) (\<lambda>value.
       crc_words is s (compute_crc value 0x04c11db7 crc_temp))"

definition uint32_not :: "int \<Rightarrow> int" where
  \<comment> \<open>\<open>~np.uint32(x)\<close>\<close>
  "uint32_not x = uint (NOT (word_of_int x :: 32 word))"

section \<open>The reference: zlib.crc32\<close>

definition crc_bit :: "32 word \<Rightarrow> 32 word" where
  "crc_bit c = (if bit c 0 then drop_bit 1 c XOR 0xEDB88320 else drop_bit 1 c)"

definition crc_byte :: "32 word \<Rightarrow> byte \<Rightarrow> 32 word" where
  "crc_byte c b = (crc_bit ^^ 8) (c XOR ucast b)"

definition crc32_update :: "32 word \<Rightarrow> bytes \<Rightarrow> 32 word" where
  "crc32_update c bs = foldl crc_byte c bs"

definition zlib_crc32 :: "bytes \<Rightarrow> int" where
  "zlib_crc32 bs = uint (NOT (crc32_update 0xFFFFFFFF bs))"

definition fcs_ethernet :: "bytes \<Rightarrow> bytes result" where
  "fcs_ethernet data =
     (let crc = zlib_crc32 data AND 0xFFFFFFFF in pack_le 4 crc)"

section \<open>The reversed polynomial\<close>

lemma reverse_poly_bits_ieee [simp]: "reverse_poly_bits 0x04c11db7 = 0xEDB88320"
  by code_simp

section \<open>The register step is linear\<close>

lemma crc_bit_0 [simp]: "crc_bit 0 = 0"
  by (simp add: crc_bit_def)

lemma crc_bit_xor: "crc_bit (a XOR b) = crc_bit a XOR crc_bit b"
  by (auto simp: crc_bit_def bit_simps drop_bit_xor xor.assoc xor.commute xor.left_commute)

lemma crc_bits_xor: "(crc_bit ^^ n) (a XOR b) = (crc_bit ^^ n) a XOR (crc_bit ^^ n) b"
  by (induction n) (simp_all add: crc_bit_xor)

text \<open>While the low bits are zero the step is a plain shift.\<close>

lemma crc_bits_shift:
  assumes "take_bit n w = 0"
  shows "(crc_bit ^^ n) w = drop_bit n w"
  using assms
proof (induction n arbitrary: w)
  case (Suc n)
  have bits: "\<not> bit w k" if "k < Suc n" for k
    using Suc.prems that by (metis bit_0_eq bit_take_bit_iff bot_apply bot_bool_def)
  have tn: "take_bit n (drop_bit 1 w) = 0"
    by (rule bit_eqI) (use bits in \<open>auto simp: bit_simps\<close>)
  have "crc_bit w = drop_bit 1 w"
    using bits [of 0] by (simp add: crc_bit_def)
  moreover have "(crc_bit ^^ n) (drop_bit 1 w) = drop_bit n (drop_bit 1 w)"
    using tn by (rule Suc.IH)
  ultimately show ?case
    by (simp add: funpow_swap1)
qed simp

lemma crc_bits_split:
  "(crc_bit ^^ n) (c XOR w) = (crc_bit ^^ n) (c XOR take_bit n w) XOR drop_bit n w"
proof -
  let ?hi = "push_bit n (drop_bit n w)"
  have w: "w = take_bit n w XOR ?hi"
    by (rule bit_eqI) (auto simp: bit_simps)
  have hi: "(crc_bit ^^ n) ?hi = drop_bit n w"
  proof -
    have "(crc_bit ^^ n) ?hi = drop_bit n ?hi"
      by (rule crc_bits_shift) (auto simp: take_bit_push_bit)
    also have "\<dots> = drop_bit n w"
      by (rule bit_eqI) (auto simp: bit_simps dest: bit_imp_le_length)
    finally show ?thesis .
  qed
  have "(crc_bit ^^ n) (c XOR w) = (crc_bit ^^ n) ((c XOR take_bit n w) XOR ?hi)"
    by (subst w) (simp add: xor.assoc)
  then show ?thesis
    by (simp only: crc_bits_xor [of n "c XOR take_bit n w" ?hi] hi)
qed

text \<open>Four bytes can be fed to the register at once.\<close>

lemma funpow_plus: "(f ^^ (m + n)) x = (f ^^ n) ((f ^^ m) x)"
  by (metis add.commute comp_apply funpow_add)

lemma crc_byte_split:
  "(crc_bit ^^ (8 + n)) (c XOR w) = (crc_bit ^^ n) (crc_byte c (ucast w) XOR drop_bit 8 w)"
proof -
  have "ucast (ucast w :: byte) = take_bit 8 w"
    by (rule bit_eqI) (auto simp: bit_simps)
  then show ?thesis
    by (simp only: funpow_plus crc_bits_split [of 8 c w] crc_byte_def)
qed

lemma crc32_update_word:
  "crc32_update c [ucast w, ucast (drop_bit 8 w), ucast (drop_bit 16 w), ucast (drop_bit 24 w)]
     = (crc_bit ^^ 32) (c XOR w)"
proof -
  have top: "drop_bit 8 (drop_bit 24 w) = 0"
    by (rule bit_eqI) (auto simp: bit_simps dest: bit_imp_le_length)
  have "(crc_bit ^^ (8 + (8 + (8 + (8 + 0))))) (c XOR w) =
      crc_byte (crc_byte (crc_byte (crc_byte c (ucast w)) (ucast (drop_bit 8 w)))
        (ucast (drop_bit 16 w))) (ucast (drop_bit 24 w))"
    by (simp only: crc_byte_split drop_bit_drop_bit) (simp add: top [simplified])
  then show ?thesis
    by (simp add: crc32_update_def)
qed

lemma ucast_byte_of_int: "(ucast (word_of_int x :: 32 word) :: byte) = word_of_int x"
  by (rule word_uint_eqI) (simp add: uint_word_of_int unsigned_ucast_eq take_bit_eq_mod mod_mod_cancel)

lemma crc32_update_append [simp]:
  "crc32_update c (xs @ ys) = crc32_update (crc32_update c xs) ys"
  by (simp add: crc32_update_def)

lemma crc32_update_Nil [simp]: "crc32_update c [] = c"
  by (simp add: crc32_update_def)

section \<open>The scripts' loops compute the register\<close>

lemma uint_lsb: "uint c AND 1 = (if bit c 0 then 1 else 0)"
  by (simp add: and_one_eq mod_2_eq_odd bit_0 [symmetric] bit_uint_iff del: bit_0)

lemma uint_shr: "uint (drop_bit n c) = shr (uint c) n"
  by (rule bit_eqI) (auto simp: bit_simps dest: bit_imp_le_length)

lemma crc_step_int:
  "shr (uint c) 1 XOR (0xEDB88320 AND - (uint c AND 1)) = uint (crc_bit c)"
proof (cases "bit c 0")
  case True
  then have "uint c AND 1 = 1"
    by (simp add: uint_lsb)
  then show ?thesis
    using True by (simp add: crc_bit_def unsigned_xor_eq uint_shr)
next
  case False
  then have "uint c AND 1 = 0"
    by (simp add: uint_lsb)
  then show ?thesis
    using False by (simp add: crc_bit_def uint_shr)
qed

lemma crc_bit_loop_register:
  "crc_bit_loop n 0xEDB88320 (uint c) = uint ((crc_bit ^^ n) c)"
  by (induction n arbitrary: c)
    (simp_all only: crc_bit_loop.simps Let_def crc_step_int funpow.simps funpow_swap1 comp_apply id_apply)

lemma crc_byte_in:
  "uint c XOR (x AND 255) = uint (c XOR (ucast (word_of_int x :: byte) :: 32 word))"
proof -
  have "take_bit 32 (x mod 256) = x mod 256"
    by (simp add: take_bit_int_eq_self_iff)
  then show ?thesis
    by (simp add: unsigned_xor_eq unsigned_ucast_eq bits_arith)
qed

lemma crc_byte_loop_register:
  "crc_byte_loop is x 0xEDB88320 (uint c) =
     uint (crc32_update c (map (\<lambda>i. word_of_int (shr x (8 * i))) is))"
  by (induction "is" arbitrary: c)
    (simp_all only: crc_byte_loop.simps crc_byte_in crc_bit_loop_register crc32_update_def
      crc_byte_def foldl.simps list.map)

lemma le_bytes_4:
  "le_bytes 4 x = map (\<lambda>i. word_of_int (shr x (8 * i))) [0..<4]"
  by (simp add: numeral_eq_Suc upt_rec drop_bit_eq_div zdiv_zmult2_eq [symmetric])

lemma compute_crc_register:
  "compute_crc x 0x04c11db7 (uint c) = uint (crc32_update c (le_bytes 4 x))"
  by (simp only: compute_crc_def reverse_poly_bits_ieee crc_byte_loop_register le_bytes_4)

lemma crc_words_register:
  "4 * (k + m) \<le> length s \<Longrightarrow>
     crc_words [k..<k + m] s (uint c) =
       Inr (uint (crc32_update c (take (4 * m) (drop (4 * k) s))))"
proof (induction m arbitrary: k c)
  case (Suc m)
  let ?w = "take 4 (drop (4 * k) s)"
  have len: "length ?w = 4"
    using Suc.prems by simp
  have w: "le_bytes 4 (le_val ?w) = ?w"
    using le_bytes_le_val [of ?w] by (simp only: len)
  have sl: "pslice s (int (k * 4)) (int (k * 4 + 4)) = ?w"
    by (simp add: mult.commute nat_add_distrib nat_mult_distrib)
  have "crc_words [k..<k + Suc m] s (uint c) =
      crc_words [Suc k..<Suc k + m] s (uint (crc32_update c ?w))"
    by (simp only: upt_conv_Cons [of k "k + Suc m"] crc_words.simps sl unpack_le_def len
        if_True bindR_Inr compute_crc_register w) (simp add: w)
  also have "\<dots> = Inr (uint (crc32_update (crc32_update c ?w) (take (4 * m) (drop (4 * Suc k) s))))"
    by (rule Suc.IH) (use Suc.prems in simp)
  also have "take (4 * Suc m) (drop (4 * k) s) = ?w @ take (4 * m) (drop (4 * Suc k) s)"
    by (metis (no_types, opaque_lifting) drop_drop mult_Suc_right take_add add.commute)
  ultimately show ?case
    by (metis crc32_update_append)
qed simp

lemma crc_words_all:
  "crc_words [0..<length s div 4] s (uint c) =
     Inr (uint (crc32_update c (take (4 * (length s div 4)) s)))"
  using crc_words_register [of 0 "length s div 4" s c] by simp

section \<open>Residues and error detection\<close>

text \<open>Thirty-two steps from a register of ones: the residue of CRC-32, and also the register
  after eight bytes of ones, from which the ICRC computation starts.\<close>

lemma crc_bits_ones: "(crc_bit ^^ 32) 0xFFFFFFFF = 0xDEBB20E3"
proof -
  have "uint ((crc_bit ^^ 32) 0xFFFFFFFF) = crc_bit_loop 32 0xEDB88320 (uint (0xFFFFFFFF :: 32 word))"
    by (rule crc_bit_loop_register [symmetric])
  also have "\<dots> = uint (0xDEBB20E3 :: 32 word)"
    by code_simp
  finally show ?thesis by (rule word_uint_eqI)
qed

lemma crc_bits_0 [simp]: "(crc_bit ^^ n) 0 = 0"
  by (induction n) simp_all

lemma crc32_update_le_bytes:
  "crc32_update c (le_bytes 4 (uint w)) = (crc_bit ^^ 32) (c XOR w)"
proof -
  have b: "(word_of_int (shr (uint w) k) :: byte) = ucast (drop_bit k w)" for k
    by (rule bit_eqI) (auto simp: bit_simps dest: bit_imp_le_length)
  have "le_bytes 4 (uint w) =
      [ucast w, ucast (drop_bit 8 w), ucast (drop_bit 16 w), ucast (drop_bit 24 w)]"
    using b [of 0] by (simp add: le_bytes_4 b upt_rec)
  then show ?thesis
    by (simp only: crc32_update_word)
qed

lemma crc32_update_ones: "crc32_update 0xFFFFFFFF (replicate 8 0xFF) = 0xDEBB20E3"
proof -
  have "replicate 8 (0xFF :: byte) =
      le_bytes 4 (uint (0xFFFFFFFF :: 32 word)) @ le_bytes 4 (uint (0xFFFFFFFF :: 32 word))"
    by code_simp
  then show ?thesis
    by (simp only: crc32_update_append crc32_update_le_bytes) (simp add: crc_bits_ones)
qed

text \<open>The step is a bijection of the register, so a change of one byte is never lost.\<close>

lemma crc_bit_eq_0: "crc_bit c = 0 \<Longrightarrow> c = 0"
proof (cases "bit c 0")
  case True
  have "bit (crc_bit c) 31"
    using True by (simp add: crc_bit_def bit_simps) (auto dest: bit_imp_le_length)
  then show "crc_bit c = 0 \<Longrightarrow> c = 0" by simp
next
  case False
  assume "crc_bit c = 0"
  with False have z: "drop_bit 1 c = 0" by (simp add: crc_bit_def)
  show "c = 0"
  proof (rule bit_eqI)
    fix n
    show "bit c n \<longleftrightarrow> bit 0 n"
      using False z by (cases n) (auto simp: drop_bit_Suc bit_Suc dest: arg_cong [where f = "\<lambda>x. bit x (n - 1)"])
  qed
qed

lemma xor_eq_0_iff_word: "(a :: 'a :: len word) XOR b = 0 \<longleftrightarrow> a = b"
  by (metis xor.assoc xor.left_neutral xor_self_eq xor.commute)

lemma xor_left_cancel [simp]: "(c :: 'a :: len word) XOR a = c XOR b \<longleftrightarrow> a = b"
proof
  assume "c XOR a = c XOR b"
  then have "c XOR (c XOR a) = c XOR (c XOR b)" by simp
  then show "a = b" by (simp only: xor.assoc [symmetric] xor_self_eq xor.left_neutral)
qed simp

lemma crc_bits_inject: "(crc_bit ^^ n) a = (crc_bit ^^ n) b \<longleftrightarrow> a = b"
proof -
  have "c = 0" if "(crc_bit ^^ n) c = 0" for c
    using that by (induction n) (auto dest: crc_bit_eq_0)
  then have "a XOR b = 0" if "(crc_bit ^^ n) a = (crc_bit ^^ n) b"
    using that by (metis crc_bits_xor xor_self_eq)
  then show ?thesis
    by (metis xor_eq_0_iff_word)
qed

lemma crc32_update_inject: "crc32_update c bs = crc32_update d bs \<longleftrightarrow> c = d"
proof (induction bs arbitrary: c d)
  case (Cons b bs)
  have "crc_byte c b = crc_byte d b \<longleftrightarrow> c = d"
    by (simp add: crc_byte_def crc_bits_inject xor.commute [of _ "ucast b"])
  then show ?case
    using Cons by (simp add: crc32_update_def)
qed simp

lemma crc_byte_inject: "crc_byte c a = crc_byte c b \<longleftrightarrow> a = b"
proof -
  have uu: "ucast (ucast x :: 32 word) = x" for x :: byte
    by (rule bit_eqI) (auto simp: bit_simps)
  have "(ucast a :: 32 word) = ucast b \<longleftrightarrow> a = b"
    using uu [of a] uu [of b] by metis
  then show ?thesis
    by (simp add: crc_byte_def crc_bits_inject)
qed

end
