(* ===== verification/Tap_Decoder.thy ===== *)
theory Tap_Decoder
  imports Crc32
begin

text \<open>
  The packet decoder of \<open>Scripts/Decode_tap_data.py\<close>: the classes \<open>EthFrame\<close>, \<open>IPFrame\<close>,
  \<open>UDPFrame\<close>, \<open>RoCEFrame\<close> and \<open>RoCEStream\<close>, which take apart the frames captured on the TAP
  interface, recompute the invariant CRC of each RoCE packet and check packet sequence numbers
  and transfer lengths.

  A Python object is a record, a method that assigns to \<open>self\<close> returns the updated record.
  Field names carry the prefix \<open>t\<close> of the script's class so that they do not clash with those of
  the simulation endpoints.  Printing is left out; the one exception that printing can raise,
  the \<open>KeyError\<close> of \<open>OP_codes[...]\<close> under \<open>DEBUG_OUT\<close>, is kept.

  The main results: the software ICRC is \<open>zlib.crc32\<close> of eight bytes of ones and the masked
  packet, it does not depend on the fields a router may change, and the counts the stream
  decoder reports.
\<close>

section \<open>EthFrame\<close>

record tap_eth =
  te_raw_frame :: bytes
  te_payload :: bytes
  te_eth_dest_mac :: int
  te_eth_src_mac :: int
  te_eth_type :: int
  te_roce_bth_opcode :: int
  te_frame_length :: nat

text \<open>The header fields that \<open>__init__\<close> sets to 0 and nothing reads are left out; the one that
  \<open>decode_Roce_stream\<close> reads, \<open>roce_bth_opcode\<close>, is kept.\<close>

definition tap_EthFrame :: "bytes \<Rightarrow> tap_eth" where
  "tap_EthFrame raw_frame =
     \<lparr>te_raw_frame = raw_frame, te_payload = [], te_eth_dest_mac = 0, te_eth_src_mac = 0,
      te_eth_type = 0, te_roce_bth_opcode = 0, te_frame_length = length raw_frame\<rparr>"

definition decode_eth_frame :: "tap_eth \<Rightarrow> tap_eth result" where
  "decode_eth_frame self =
     (let raw = te_raw_frame self;
          ethernet_frame = pslice raw 0 14
      in bindR (unpack_Q ([0, 0] @ pslice ethernet_frame 0 6)) (\<lambda>dest_mac.
         bindR (unpack_Q ([0, 0] @ pslice ethernet_frame 6 12)) (\<lambda>src_mac.
         bindR (unpack_H (pslice ethernet_frame 12 14)) (\<lambda>etype.
           Inr (self\<lparr>te_eth_dest_mac := dest_mac, te_eth_src_mac := src_mac,
                     te_eth_type := etype,
                     te_payload := pslice_from raw (- (int (length raw) - 14))\<rparr>)))))"

text \<open>
  \<open>struct.pack\<close> of an object that is not an integer raises \<open>struct.error\<close>.  \<open>compute_fcs\<close> has
  no \<open>return\<close>, so its value is \<open>None\<close>.
\<close>

datatype py_obj = PInt int | PBytes bytes | PNone

definition pack_Q_obj :: "py_obj \<Rightarrow> bytes result" where
  "pack_Q_obj x = (case x of PInt i \<Rightarrow> pack_Q i | _ \<Rightarrow> Inl StructError)"

fun compute_fcs_loop :: "nat list \<Rightarrow> bytes \<Rightarrow> int \<Rightarrow> py_obj result" where
  "compute_fcs_loop [] data_stream crc_temp = Inr PNone"
| "compute_fcs_loop (i # is) data_stream crc_temp =
     bindR (unpack_L (pslice data_stream (int (i * 4)) (int (i * 4 + 4)))) (\<lambda>value.
       compute_fcs_loop is data_stream (compute_crc value 0x04c11db7 crc_temp))"

definition compute_fcs :: "bytes \<Rightarrow> py_obj result" where
  "compute_fcs data_stream =
     compute_fcs_loop [0..<length data_stream div 4] data_stream 0xFFFFFFFF"

fun build_payload_loop :: "nat list \<Rightarrow> bytes \<Rightarrow> bytes \<Rightarrow> bytes result" where
  "build_payload_loop [] payload data = Inr data"
| "build_payload_loop (i # is) payload data =
     bindR (pack_Q_obj (PBytes (pslice payload (int (i * 4)) (int ((i + 1) * 4))))) (\<lambda>w.
       build_payload_loop is payload (data @ w))"

definition build_eth_frame :: "tap_eth \<Rightarrow> unit result" where
  "build_eth_frame self =
     bindR (pack_Q (te_eth_dest_mac self)) (\<lambda>d.
     bindR (pack_Q (te_eth_src_mac self)) (\<lambda>s.
     bindR (pack_H (te_eth_type self)) (\<lambda>t.
     bindR (build_payload_loop [0..<length (te_payload self) div 4] (te_payload self)
              (pslice_from d 2 @ pslice_from s 2 @ t)) (\<lambda>data.
     bindR (compute_fcs data) (\<lambda>fcs_value.
     bindR (pack_Q_obj fcs_value) (\<lambda>_. Inr ()))))))"

section \<open>IPFrame\<close>

record tap_ip =
  ti_raw_frame :: bytes
  ti_payload :: bytes
  ti_version :: int
  ti_ihl :: int
  ti_dscp :: int
  ti_ecn :: int
  ti_length :: "int option"
  ti_identification :: int
  ti_flags :: int
  ti_fragment_offset :: int
  ti_ttl :: int
  ti_protocol :: int
  ti_header_checksum :: "int option"
  ti_source_ip :: int
  ti_dest_ip :: int

definition tap_IPFrame :: "bytes \<Rightarrow> tap_ip" where
  "tap_IPFrame raw_frame =
     \<lparr>ti_raw_frame = raw_frame, ti_payload = [], ti_version = 4, ti_ihl = 5, ti_dscp = 0,
      ti_ecn = 0, ti_length = None, ti_identification = 0, ti_flags = 2,
      ti_fragment_offset = 0, ti_ttl = 64, ti_protocol = 0x11, ti_header_checksum = None,
      ti_source_ip = 0x0b01d40b, ti_dest_ip = 0x0b01d40a\<rparr>"

definition decode_ip_frame :: "tap_ip \<Rightarrow> tap_ip result" where
  "decode_ip_frame self =
     (let raw = ti_raw_frame self; ip_header = pslice raw 0 20
      in bindR (unpack_B (pslice ip_header 0 1)) (\<lambda>v0.
         bindR (unpack_B (pslice ip_header 1 2)) (\<lambda>v1.
         bindR (unpack_H (pslice ip_header 2 4)) (\<lambda>len.
         bindR (unpack_H (pslice ip_header 4 6)) (\<lambda>ident.
         bindR (unpack_H (pslice ip_header 6 8)) (\<lambda>v6.
         bindR (unpack_B (pslice ip_header 8 9)) (\<lambda>ttl.
         bindR (unpack_B (pslice ip_header 9 10)) (\<lambda>proto.
         bindR (unpack_H (pslice ip_header 10 12)) (\<lambda>cksum.
         bindR (unpack_L (pslice ip_header 12 16)) (\<lambda>src.
         bindR (unpack_L (pslice ip_header 16 20)) (\<lambda>dst.
           Inr (self\<lparr>ti_version := shr v0 4 AND 0xF, ti_ihl := v0 AND 0xF,
                     ti_dscp := shr v1 2 AND 0x3F, ti_ecn := v1 AND 0x3,
                     ti_length := Some len, ti_identification := ident,
                     ti_flags := shr v6 13 AND 0x7, ti_fragment_offset := v6 AND 0x1FFF,
                     ti_ttl := ttl, ti_protocol := proto, ti_header_checksum := Some cksum,
                     ti_source_ip := src, ti_dest_ip := dst,
                     ti_payload := pslice_from raw (- (int (length raw) - 20))\<rparr>))))))))))))"

section \<open>UDPFrame\<close>

record tap_udp =
  tu_raw_frame :: bytes
  tu_payload :: bytes
  tu_source_port :: int
  tu_dest_port :: int
  tu_length :: "int option"
  tu_checksum :: "int option"

definition tap_UDPFrame :: "bytes \<Rightarrow> tap_udp" where
  "tap_UDPFrame raw_frame =
     \<lparr>tu_raw_frame = raw_frame, tu_payload = [], tu_source_port = 1, tu_dest_port = 2,
      tu_length = None, tu_checksum = None\<rparr>"

definition decode_udp_frame :: "tap_udp \<Rightarrow> tap_udp result" where
  "decode_udp_frame self =
     (let raw = tu_raw_frame self; udp_header = pslice raw 0 8
      in bindR (unpack_H (pslice udp_header 0 2)) (\<lambda>sp.
         bindR (unpack_H (pslice udp_header 2 4)) (\<lambda>dp.
         bindR (unpack_H (pslice udp_header 4 6)) (\<lambda>len.
         bindR (unpack_H (pslice udp_header 6 8)) (\<lambda>ck.
           Inr (self\<lparr>tu_source_port := sp, tu_dest_port := dp, tu_length := Some len,
                     tu_checksum := Some ck,
                     tu_payload := pslice_from raw (- (int (length raw) - 8))\<rparr>))))))"

section \<open>RoCEFrame\<close>

definition RC_SEND_FIRST :: int where "RC_SEND_FIRST = 0x00"
definition RC_SEND_MIDDLE :: int where "RC_SEND_MIDDLE = 0x01"
definition RC_SEND_LAST :: int where "RC_SEND_LAST = 0x02"
definition RC_SEND_LAST_IMD :: int where "RC_SEND_LAST_IMD = 0x03"
definition RC_SEND_ONLY :: int where "RC_SEND_ONLY = 0x04"
definition RC_SEND_ONLY_IMD :: int where "RC_SEND_ONLY_IMD = 0x05"
definition RC_RDMA_WRITE_FIRST :: int where "RC_RDMA_WRITE_FIRST = 0x06"
definition RC_RDMA_WRITE_MIDDLE :: int where "RC_RDMA_WRITE_MIDDLE = 0x07"
definition RC_RDMA_WRITE_LAST :: int where "RC_RDMA_WRITE_LAST = 0x08"
definition RC_RDMA_WRITE_LAST_IMD :: int where "RC_RDMA_WRITE_LAST_IMD = 0x09"
definition RC_RDMA_WRITE_ONLY :: int where "RC_RDMA_WRITE_ONLY = 0x0a"
definition RC_RDMA_WRITE_ONLY_IMD :: int where "RC_RDMA_WRITE_ONLY_IMD = 0x0b"
definition RC_RDMA_ACK :: int where "RC_RDMA_ACK = 0x11"

lemmas opcode_defs =
  RC_SEND_FIRST_def RC_SEND_MIDDLE_def RC_SEND_LAST_def RC_SEND_LAST_IMD_def RC_SEND_ONLY_def
  RC_SEND_ONLY_IMD_def RC_RDMA_WRITE_FIRST_def RC_RDMA_WRITE_MIDDLE_def RC_RDMA_WRITE_LAST_def
  RC_RDMA_WRITE_LAST_IMD_def RC_RDMA_WRITE_ONLY_def RC_RDMA_WRITE_ONLY_IMD_def RC_RDMA_ACK_def

definition OP_codes :: "int list" where
  \<comment> \<open>the keys of the dictionary from opcodes to their names\<close>
  "OP_codes = [0x00, 0x01, 0x02, 0x03, 0x04, 0x05, 0x06, 0x07, 0x08, 0x09, 0x0a, 0x0b, 0x11]"

definition mask_fields4icrc :: bytes where
  "mask_fields4icrc =
     [0xff, 0x00, 0x00, 0x00, 0x00, 0xff, 0xff, 0x00, 0x00, 0x00,
      0x00, 0x00, 0x00, 0x00, 0x00, 0x00, 0x00, 0x00, 0x00, 0x00,
      0x00, 0xff, 0xff, 0x00, 0xff, 0x00, 0x00, 0x00, 0x00, 0x00,
      0x00, 0xff, 0x00]"

record tap_roce =
  tr_raw_ip_frame :: bytes
  tr_raw_frame :: bytes
  tr_payload :: bytes
  tr_bth_opcode :: int
  tr_bth_pkey :: int
  tr_bth_dest_qp :: int
  tr_bth_ack_req :: int
  tr_bth_psn :: int
  tr_reth_vaddr :: int
  tr_reth_rkey :: int
  tr_reth_dma_length :: int
  tr_immdata :: int
  tr_icrc :: "int option" \<comment> \<open>\<open>None\<close> until \<open>decode_icrc\<close> creates the attribute\<close>
  tr_frame_length :: nat

definition tap_RoCEFrame :: "bytes \<Rightarrow> bytes \<Rightarrow> tap_roce" where
  "tap_RoCEFrame raw_ip_frame raw_frame =
     \<lparr>tr_raw_ip_frame = raw_ip_frame, tr_raw_frame = raw_frame, tr_payload = [],
      tr_bth_opcode = 0xA, tr_bth_pkey = 0, tr_bth_dest_qp = 0, tr_bth_ack_req = 1,
      tr_bth_psn = 0, tr_reth_vaddr = 0, tr_reth_rkey = 0, tr_reth_dma_length = 0,
      tr_immdata = 0xDEADBEEF, tr_icrc = None, tr_frame_length = length raw_frame\<rparr>"

definition decode_BTH :: "tap_roce \<Rightarrow> tap_roce result" where
  "decode_BTH self =
     (let BTH = pslice (tr_raw_frame self) 0 12
      in bindR (unpack_B (pslice BTH 0 1)) (\<lambda>opcode.
         bindR (unpack_H (pslice BTH 2 4)) (\<lambda>pkey.
         bindR (unpack_L ([0] @ pslice BTH 5 8)) (\<lambda>dest_qp.
         bindR (unpack_B (pslice BTH 8 9)) (\<lambda>ack_req.
         bindR (unpack_L ([0] @ pslice BTH 9 12)) (\<lambda>psn.
           Inr (self\<lparr>tr_bth_opcode := opcode, tr_bth_pkey := pkey, tr_bth_dest_qp := dest_qp,
                     tr_bth_ack_req := ack_req, tr_bth_psn := psn\<rparr>)))))))"

definition decode_RETH :: "tap_roce \<Rightarrow> tap_roce result" where
  "decode_RETH self =
     (let RETH = pslice (tr_raw_frame self) 12 28
      in bindR (unpack_Q (pslice RETH 0 8)) (\<lambda>vaddr.
         bindR (unpack_L (pslice RETH 8 12)) (\<lambda>rkey.
         bindR (unpack_L (pslice RETH 12 16)) (\<lambda>dma_length.
           Inr (self\<lparr>tr_reth_vaddr := vaddr, tr_reth_rkey := rkey,
                     tr_reth_dma_length := dma_length\<rparr>)))))"

definition decode_immd_data :: "tap_roce \<Rightarrow> tap_roce result" where
  "decode_immd_data self =
     bindR (if tr_bth_opcode self = RC_RDMA_WRITE_ONLY_IMD
            then Inr (pslice (tr_raw_frame self) 28 32)
            else if tr_bth_opcode self = RC_RDMA_WRITE_LAST_IMD
            then Inr (pslice (tr_raw_frame self) 12 16)
            else Inl UnboundLocalError) (\<lambda>immd_data.
     bindR (unpack_H (pslice immd_data 0 4)) (\<lambda>v.
       Inr (self\<lparr>tr_immdata := v\<rparr>)))"

definition produce_icrc :: "bytes \<Rightarrow> bytes result" where
  "produce_icrc roce_frame_no_icrc =
     bindR (crc_words [0..<length roce_frame_no_icrc div 4] roce_frame_no_icrc 0xDEBB20E3)
       (\<lambda>crc_temp. pack_le 4 (uint32_not crc_temp))"

text \<open>The loop that masks the header bytes: \<open>for i in range(len(ip_frame) - 4)\<close>.\<close>

fun mask_loop :: "nat list \<Rightarrow> bytes \<Rightarrow> bytes \<Rightarrow> bytes result" where
  "mask_loop [] ip_frame roce_frame_temp = Inr roce_frame_temp"
| "mask_loop (i # is) ip_frame roce_frame_temp =
     bindR (unpack_B (pslice ip_frame (int i) (int (i + 1)))) (\<lambda>value.
     bindR (if i < 33
            then bindR (nthR mask_fields4icrc (32 - i)) (\<lambda>m. pack_B (value OR uint m))
            else pack_B value) (\<lambda>b.
       mask_loop is ip_frame (roce_frame_temp @ b)))"

definition compute_sw_icrc :: "tap_roce \<Rightarrow> int result" where
  "compute_sw_icrc self =
     (let ip_frame = tr_raw_ip_frame self
      in bindR (mask_loop [0..<length ip_frame - 4] ip_frame []) (\<lambda>roce_frame_temp.
         bindR (crc_words [0..<length roce_frame_temp div 4] roce_frame_temp 0xDEBB20E3)
           (\<lambda>crc_temp. Inr (uint32_not crc_temp))))"

definition decode_icrc :: "tap_roce \<Rightarrow> tap_roce result" where
  "decode_icrc self =
     bindR (unpack_le 4 (pslice_from (tr_raw_frame self) (- 4))) (\<lambda>v.
       Inr (self\<lparr>tr_icrc := Some v\<rparr>))"

section \<open>RoCEStream\<close>

record roce_stream =
  rs_data_stream :: "bytes list"
  rs_exp_psn :: int
  rs_measured_data_legth :: int
  rs_sim_data_legth :: int
  rs_received_r_key :: int

definition RoCEStream :: "bytes list \<Rightarrow> roce_stream" where
  "RoCEStream data_stream =
     \<lparr>rs_data_stream = data_stream, rs_exp_psn = 0, rs_measured_data_legth = 0,
      rs_sim_data_legth = 0, rs_received_r_key = 0\<rparr>"

definition last_opcodes :: "int list" where
  "last_opcodes =
     [RC_RDMA_WRITE_LAST, RC_RDMA_WRITE_LAST_IMD, RC_RDMA_WRITE_ONLY, RC_RDMA_WRITE_ONLY_IMD,
      RC_SEND_ONLY, RC_SEND_ONLY_IMD, RC_SEND_LAST, RC_SEND_LAST_IMD]"

fun check_if_last_loop :: "bytes list \<Rightarrow> bool \<Rightarrow> bool result" where
  "check_if_last_loop [] is_last = Inr is_last"
| "check_if_last_loop (data # rest) is_last =
     bindR (decode_eth_frame (tap_EthFrame data)) (\<lambda>eth.
       if te_eth_type eth = 0x0800 then
         bindR (decode_ip_frame (tap_IPFrame (te_payload eth))) (\<lambda>ip.
           if ti_protocol ip = 0x11 then
             bindR (decode_udp_frame (tap_UDPFrame (ti_payload ip))) (\<lambda>udp.
               if tu_dest_port udp = 4791 then
                 bindR (decode_BTH (tap_RoCEFrame (ti_raw_frame ip) (tu_payload udp)))
                   (\<lambda>roce. check_if_last_loop rest
                     (if tr_bth_opcode roce \<in> set last_opcodes then True else is_last))
               else check_if_last_loop rest is_last)
           else check_if_last_loop rest is_last)
       else check_if_last_loop rest is_last)"

definition check_if_last :: "roce_stream \<Rightarrow> bool result" where
  "check_if_last self = check_if_last_loop (rs_data_stream self) False"

text \<open>
  One RoCE packet of \<open>decode_Roce_stream\<close>, in three parts: the sequence number expected, the
  lengths and the key, and the counters.  \<open>stream_counts\<close> holds the local variables of the
  method.
\<close>

record stream_counts =
  sc_icrc_errors :: int
  sc_psn_errors :: int
  sc_is_last :: bool
  sc_length_error :: bool

definition psn_start_opcodes :: "int list" where
  "psn_start_opcodes =
     [RC_RDMA_WRITE_FIRST, RC_RDMA_WRITE_ONLY, RC_RDMA_WRITE_ONLY_IMD, RC_SEND_FIRST,
      RC_SEND_ONLY, RC_SEND_ONLY_IMD]"

definition update_exp_psn :: "int \<Rightarrow> int \<Rightarrow> roce_stream \<Rightarrow> roce_stream" where
  "update_exp_psn starting_psn opcode st =
     (if opcode \<in> set psn_start_opcodes then st\<lparr>rs_exp_psn := starting_psn\<rparr>
      else st\<lparr>rs_exp_psn := rs_exp_psn st + 1\<rparr>)"

definition update_sim_length :: "roce_stream \<times> tap_roce \<Rightarrow> (roce_stream \<times> tap_roce) result" where
  "update_sim_length = (\<lambda>(st, roce).
     (if tr_bth_opcode roce = RC_RDMA_WRITE_FIRST \<or> tr_bth_opcode roce = RC_RDMA_WRITE_ONLY
         \<or> tr_bth_opcode roce = RC_RDMA_WRITE_ONLY_IMD
      then bindR (decode_RETH roce) (\<lambda>roce.
             Inr (st\<lparr>rs_sim_data_legth := tr_reth_dma_length roce\<rparr>, roce))
      else Inr (st, roce)))"

definition update_measured_length :: "tap_roce \<Rightarrow> roce_stream \<Rightarrow> roce_stream" where
  "update_measured_length roce st =
     (let opcode = tr_bth_opcode roce;
          frame_length = int (tr_frame_length roce);
          st = (if opcode = RC_RDMA_WRITE_FIRST \<or> opcode = RC_RDMA_WRITE_ONLY
                then st\<lparr>rs_measured_data_legth := frame_length - 12 - 16 - 4,
                        rs_received_r_key := tr_reth_rkey roce\<rparr>
                else st)
      in if opcode = RC_SEND_FIRST \<or> opcode = RC_SEND_ONLY
         then st\<lparr>rs_measured_data_legth := frame_length - 12 - 4\<rparr>
         else if opcode = RC_RDMA_WRITE_ONLY_IMD
         then st\<lparr>rs_measured_data_legth := frame_length - 12 - 16 - 4 - 4,
                 rs_received_r_key := tr_reth_rkey roce\<rparr>
         else if opcode = RC_SEND_ONLY_IMD
         then st\<lparr>rs_measured_data_legth := frame_length - 12 - 4 - 4\<rparr>
         else if opcode = RC_RDMA_WRITE_MIDDLE \<or> opcode = RC_RDMA_WRITE_LAST
                 \<or> opcode = RC_SEND_LAST
         then st\<lparr>rs_measured_data_legth := rs_measured_data_legth st + frame_length - 12 - 4\<rparr>
         else if opcode = RC_RDMA_WRITE_LAST_IMD
         then st\<lparr>rs_measured_data_legth := rs_measured_data_legth st + frame_length - 12 - 4 - 4\<rparr>
         else st)"

definition update_counts ::
    "tap_eth \<Rightarrow> tap_roce \<Rightarrow> int \<Rightarrow> roce_stream \<Rightarrow> stream_counts \<Rightarrow> stream_counts result" where
  "update_counts eth roce SW_icrc st sc =
     (case tr_icrc roce of None \<Rightarrow> Inl AttributeError | Some roce_icrc \<Rightarrow>
        (let opcode = tr_bth_opcode roce;
             sc = (if opcode \<in> set last_opcodes then sc\<lparr>sc_is_last := True\<rparr> else sc);
             sc = (if rs_exp_psn st \<noteq> tr_bth_psn roce
                   then sc\<lparr>sc_psn_errors := sc_psn_errors sc + 1\<rparr> else sc);
             sc = (if SW_icrc \<noteq> roce_icrc
                   then sc\<lparr>sc_icrc_errors := sc_icrc_errors sc + 1\<rparr> else sc);
             sc = (if (opcode = RC_RDMA_WRITE_LAST
                        \<or> te_roce_bth_opcode eth = RC_RDMA_WRITE_LAST_IMD
                        \<or> opcode = RC_RDMA_WRITE_ONLY \<or> opcode = RC_RDMA_WRITE_ONLY_IMD)
                      \<and> rs_sim_data_legth st \<noteq> rs_measured_data_legth st
                   then sc\<lparr>sc_length_error := True\<rparr> else sc)
         in Inr sc))"

definition decode_roce_packet ::
    "bool \<Rightarrow> int \<Rightarrow> tap_eth \<Rightarrow> tap_ip \<Rightarrow> tap_udp \<Rightarrow> roce_stream \<times> stream_counts
       \<Rightarrow> (roce_stream \<times> stream_counts) result" where
  "decode_roce_packet DEBUG_OUT starting_psn eth ip udp = (\<lambda>(st, sc).
     bindR (decode_BTH (tap_RoCEFrame (ti_raw_frame ip) (tu_payload udp))) (\<lambda>roce.
     bindR (decode_icrc roce) (\<lambda>roce.
     bindR (update_sim_length (update_exp_psn starting_psn (tr_bth_opcode roce) st, roce))
       (\<lambda>(st, roce).
     let st = update_measured_length roce st
     in bindR (compute_sw_icrc roce) (\<lambda>SW_icrc.
        if DEBUG_OUT \<and> tr_bth_opcode roce \<notin> set OP_codes then Inl KeyError
        else bindR (update_counts eth roce SW_icrc st sc) (\<lambda>sc. Inr (st, sc)))))))"

fun decode_stream_loop ::
    "bool \<Rightarrow> int \<Rightarrow> bytes list \<Rightarrow> roce_stream \<times> stream_counts
       \<Rightarrow> (roce_stream \<times> stream_counts) result" where
  "decode_stream_loop DEBUG_OUT starting_psn [] acc = Inr acc"
| "decode_stream_loop DEBUG_OUT starting_psn (data # rest) acc =
     bindR (decode_eth_frame (tap_EthFrame data)) (\<lambda>eth.
       if te_eth_type eth = 0x0800 then
         bindR (decode_ip_frame (tap_IPFrame (te_payload eth))) (\<lambda>ip.
           if ti_protocol ip = 0x11 then
             bindR (decode_udp_frame (tap_UDPFrame (ti_payload ip))) (\<lambda>udp.
               if tu_dest_port udp = 4791 then
                 bindR (decode_roce_packet DEBUG_OUT starting_psn eth ip udp acc)
                   (decode_stream_loop DEBUG_OUT starting_psn rest)
               else decode_stream_loop DEBUG_OUT starting_psn rest acc)
           else decode_stream_loop DEBUG_OUT starting_psn rest acc)
       else decode_stream_loop DEBUG_OUT starting_psn rest acc)"

definition decode_Roce_stream ::
    "bool \<Rightarrow> int \<Rightarrow> roce_stream \<Rightarrow> (roce_stream \<times> stream_counts) result" where
  "decode_Roce_stream DEBUG_OUT starting_psn self =
     decode_stream_loop DEBUG_OUT starting_psn (rs_data_stream self)
       (self, \<lparr>sc_icrc_errors = 0, sc_psn_errors = 0, sc_is_last = False,
               sc_length_error = False\<rparr>)"

section \<open>The invariant CRC\<close>

text \<open>
  What the InfiniBand annex on RoCEv2 calls the variant fields: type of service, time to live,
  header checksum, UDP checksum and the reserved byte of the base transport header.  They are
  replaced by ones before the CRC is taken, behind eight bytes of ones for the missing local
  route header.
\<close>

definition icrc_variant :: "nat list" where
  "icrc_variant = [1, 8, 10, 11, 26, 27, 32]"

definition icrc_byte :: "bytes \<Rightarrow> nat \<Rightarrow> byte" where
  "icrc_byte f i = (if i \<in> set icrc_variant then 0xFF else f ! i)"

definition icrc_masked :: "bytes \<Rightarrow> bytes" where
  "icrc_masked f = map (icrc_byte f) [0..<length f - 4]"

lemma length_icrc_masked [simp]: "length (icrc_masked f) = length f - 4"
  by (simp add: icrc_masked_def)

lemma mask_fields4icrc_nth:
  "i < 33 \<Longrightarrow> nthR mask_fields4icrc (32 - i) = Inr (if i \<in> set icrc_variant then 0xFF else 0)"
proof -
  assume "i < 33"
  then have "i \<in> set [0..<33]" by simp
  moreover have "\<forall>i\<in>set [0..<33]. nthR mask_fields4icrc (32 - i) =
      Inr (if i \<in> set icrc_variant then 0xFF else 0)"
    by code_simp
  ultimately show ?thesis by blast
qed

lemma variant_below_33: "i \<in> set icrc_variant \<Longrightarrow> i < 33"
  by (auto simp: icrc_variant_def)

lemma pack_B_byte: "pack_B (uint (b :: byte)) = Inr [b]"
proof -
  have "uint b < 256" using uint_lt2p [of b] by simp
  then show ?thesis by (simp add: pack_be_def be_bytes_def)
qed

lemma pack_B_or: "pack_B (uint (b :: byte) OR uint (m :: byte)) = Inr [b OR m]"
  using pack_B_byte [of "b OR m"] by (simp add: unsigned_or_eq)

lemma or_ones_byte: "(b :: byte) OR 0xFF = 0xFF"
proof -
  have "(0xFF :: byte) = - 1" by simp
  then show ?thesis by (simp only: bit.disj_one_right)
qed

lemma pack_B_or_ones: "pack_be (Suc 0) (uint (b :: byte) OR 255) = Inr [255]"
  using pack_B_or [of b "0xFF"] by (simp add: or_ones_byte del: pack_be_ok)

lemma mask_loop_map:
  "k \<le> n \<Longrightarrow> n \<le> length f \<Longrightarrow>
     mask_loop [k..<n] f acc = Inr (acc @ map (icrc_byte f) [k..<n])"
proof (induction "n - k" arbitrary: k acc)
  case (Suc d)
  then have k: "k < n" by simp
  have sl: "pslice f (int k) (int (k + 1)) = [f ! k]"
    using k Suc.prems by (simp add: nat_add_distrib take_Suc_conv_app_nth Cons_nth_drop_Suc [symmetric])
  have ub: "unpack_B [f ! k] = Inr (uint (f ! k))"
    by (simp add: unpack_be_def be_val_def)
  have "(if k < 33 then bindR (nthR mask_fields4icrc (32 - k)) (\<lambda>m. pack_B (uint (f ! k) OR uint m))
         else pack_B (uint (f ! k))) = Inr [icrc_byte f k]"
    using variant_below_33 [of k]
    by (auto simp: mask_fields4icrc_nth pack_B_or_ones
        pack_B_or [of _ 0, simplified] pack_B_byte icrc_byte_def simp del: pack_be_ok)
  then have "mask_loop [k..<n] f acc = mask_loop [Suc k..<n] f (acc @ [icrc_byte f k])"
    by (simp only: upt_conv_Cons [OF k] mask_loop.simps sl ub bindR_Inr)
  also have "\<dots> = Inr ((acc @ [icrc_byte f k]) @ map (icrc_byte f) [Suc k..<n])"
    by (rule Suc.hyps) (use Suc k in auto)
  finally show ?case by (simp add: upt_conv_Cons [OF k])
qed simp

lemma mask_loop_frame:
  "mask_loop [0..<length f - 4] f [] = Inr (icrc_masked f)"
  using mask_loop_map [of 0 "length f - 4" f "[]"] by (simp add: icrc_masked_def)

lemma uint32_not_uint: "uint32_not (uint c) = uint (NOT (c :: 32 word))"
  by (simp add: uint32_not_def)

lemma zlib_crc32_icrc:
  "zlib_crc32 (replicate 8 0xFF @ bs) = uint (NOT (crc32_update 0xDEBB20E3 bs))"
  by (simp only: zlib_crc32_def crc32_update_append crc32_update_ones)

lemma crc_words_icrc:
  "crc_words [0..<length s div 4] s 0xDEBB20E3 =
     Inr (uint (crc32_update 0xDEBB20E3 (take (4 * (length s div 4)) s)))"
  using crc_words_all [of s "0xDEBB20E3"] by simp

lemma compute_sw_icrc_eq:
  "compute_sw_icrc self =
     (let f = tr_raw_ip_frame self; n = length f - 4
      in Inr (zlib_crc32 (replicate 8 0xFF @ take (4 * (n div 4)) (icrc_masked f))))"
  by (simp add: compute_sw_icrc_def mask_loop_frame crc_words_icrc uint32_not_uint
      zlib_crc32_icrc Let_def del: replicate.simps)

text \<open>C6: the software ICRC of \<open>compute_sw_icrc\<close> is \<open>zlib.crc32\<close> of eight bytes of ones followed by
  the packet with its variant fields replaced by ones, cut to whole 32-bit words: the constant
  \<open>0xDEBB20E3\<close> it starts from is the register after the eight bytes, and its loop over
  little-endian words with the reversed polynomial is the byte-wise reflected CRC-32.\<close>

theorem compute_sw_icrc_correct:
  "compute_sw_icrc self =
     (let f = tr_raw_ip_frame self; n = length f - 4
      in Inr (zlib_crc32 (replicate 8 0xFF @ take (4 * (n div 4)) (icrc_masked f))))"
  by (rule compute_sw_icrc_eq)

lemma icrc_masked_cong:
  assumes "length f = length g"
    and "\<And>i. i < length f - 4 \<Longrightarrow> i \<notin> set icrc_variant \<Longrightarrow> f ! i = g ! i"
  shows "icrc_masked f = icrc_masked g"
  using assms by (auto simp: icrc_masked_def icrc_byte_def)

text \<open>A change of one byte changes the CRC.\<close>

lemma crc32_update_single_byte:
  assumes len: "length f = length g" and p: "p < length f" and ne: "f ! p \<noteq> g ! p"
    and same: "\<And>i. i < length f \<Longrightarrow> i \<noteq> p \<Longrightarrow> f ! i = g ! i"
  shows "crc32_update c f \<noteq> crc32_update c g"
proof -
  have f: "f = take p f @ f ! p # drop (Suc p) f"
    using p by (rule id_take_nth_drop)
  have g: "g = take p f @ g ! p # drop (Suc p) f"
  proof -
    have "take p g = take p f" "drop (Suc p) g = drop (Suc p) f"
      using len same p by (auto intro!: nth_equalityI)
    then show ?thesis
      using id_take_nth_drop [of p g] p len by simp
  qed
  have "crc32_update (crc_byte d (f ! p)) (drop (Suc p) f)
      \<noteq> crc32_update (crc_byte d (g ! p)) (drop (Suc p) f)" for d
    using ne by (simp add: crc32_update_inject crc_byte_inject)
  then have "crc32_update c (take p f @ [f ! p] @ drop (Suc p) f)
      \<noteq> crc32_update c (take p f @ [g ! p] @ drop (Suc p) f)"
    by (simp add: crc32_update_def)
  then show ?thesis
    by (subst f, subst g) simp
qed

lemma icrc_single_byte:
  assumes len: "length f = length g" and al: "4 dvd length f" and p: "p < length f - 4"
    and nv: "p \<notin> set icrc_variant" and ne: "f ! p \<noteq> g ! p"
    and same: "\<And>i. i < length f - 4 \<Longrightarrow> i \<noteq> p \<Longrightarrow> f ! i = g ! i"
  shows "crc32_update c (icrc_masked f) \<noteq> crc32_update c (icrc_masked g)"
proof (rule crc32_update_single_byte)
  show "length (icrc_masked f) = length (icrc_masked g)" using len by simp
  show "p < length (icrc_masked f)" using p by simp
  show "icrc_masked f ! p \<noteq> icrc_masked g ! p"
    using p nv ne len by (simp add: icrc_masked_def icrc_byte_def)
  show "icrc_masked f ! i = icrc_masked g ! i" if "i < length (icrc_masked f)" "i \<noteq> p" for i
    using that same [of i] len by (simp add: icrc_masked_def icrc_byte_def)
qed

lemma aligned_words: "4 dvd n \<Longrightarrow> 4 * ((n - 4) div 4) = n - (4 :: nat)"
  by (metis dvd_diff_nat dvd_mult_div_cancel dvd_refl)

text \<open>C9: the software ICRC does not depend on the fields a router may rewrite (type of service,
  time to live, the two checksums, the reserved byte) nor on the last four bytes of the packet:
  two packets of equal length that agree elsewhere get the same value.\<close>

theorem compute_sw_icrc_variant_fields:
  assumes "length (tr_raw_ip_frame a) = length (tr_raw_ip_frame b)"
    and "\<forall>i<length (tr_raw_ip_frame a) - 4. i \<notin> {1, 8, 10, 11, 26, 27, 32} \<longrightarrow>
           tr_raw_ip_frame a ! i = tr_raw_ip_frame b ! i"
  shows "compute_sw_icrc a = compute_sw_icrc b"
proof -
  have "icrc_masked (tr_raw_ip_frame a) = icrc_masked (tr_raw_ip_frame b)"
    using assms by (intro icrc_masked_cong) (auto simp: icrc_variant_def)
  then show ?thesis
    using assms(1) by (simp add: compute_sw_icrc_eq Let_def)
qed

text \<open>C10: two packets of equal, word-aligned length whose bytes before the last four differ in
  exactly one place, and that not one of the variant fields (bytes 1, 8, 10, 11, 26, 27 and 32),
  have different software ICRCs: the corruption of one such byte is detected.  The last four bytes,
  the place of the ICRC itself, are not part of the computation.\<close>

theorem compute_sw_icrc_detects_byte:
  assumes "length (tr_raw_ip_frame a) = length (tr_raw_ip_frame b)"
    and "4 dvd length (tr_raw_ip_frame a)"
    and "p < length (tr_raw_ip_frame a) - 4" and "p \<notin> {1, 8, 10, 11, 26, 27, 32}"
    and "tr_raw_ip_frame a ! p \<noteq> tr_raw_ip_frame b ! p"
    and "\<forall>i<length (tr_raw_ip_frame a) - 4. i \<noteq> p \<longrightarrow>
           tr_raw_ip_frame a ! i = tr_raw_ip_frame b ! i"
  shows "compute_sw_icrc a \<noteq> compute_sw_icrc b"
proof -
  have "crc32_update 0xDEBB20E3 (icrc_masked (tr_raw_ip_frame a))
      \<noteq> crc32_update 0xDEBB20E3 (icrc_masked (tr_raw_ip_frame b))"
    using assms by (intro icrc_single_byte) (auto simp: icrc_variant_def)
  then have "uint (NOT (crc32_update 0xDEBB20E3 (icrc_masked (tr_raw_ip_frame a))))
      \<noteq> uint (NOT (crc32_update 0xDEBB20E3 (icrc_masked (tr_raw_ip_frame b))))"
    using word_uint_eqI bit.compl_eq_compl_iff by metis
  then show ?thesis
    using assms(1,2)
    by (simp add: compute_sw_icrc_eq Let_def zlib_crc32_icrc aligned_words
        del: replicate.simps)
qed

definition demo_packet :: "byte \<Rightarrow> byte \<Rightarrow> tap_roce" where
  \<comment> \<open>a minimal packet with a given time to live and protocol byte, for the witnesses\<close>
  "demo_packet ttl proto =
     tap_RoCEFrame [0x45, 0, 0, 16, 0, 0, 0x40, 0, ttl, proto, 0, 0, 1, 2, 3, 4] []"

theorem compute_sw_icrc_variant_fields_witness:
  "compute_sw_icrc (demo_packet 64 17) = compute_sw_icrc (demo_packet 63 17)"
  by (rule compute_sw_icrc_variant_fields)
    (auto simp: demo_packet_def tap_RoCEFrame_def nth_Cons' less_Suc_eq numeral_eq_Suc)

theorem compute_sw_icrc_detects_byte_witness:
  "compute_sw_icrc (demo_packet 64 17) \<noteq> compute_sw_icrc (demo_packet 64 6)"
  by (rule compute_sw_icrc_detects_byte [where p = 9],
      auto simp: demo_packet_def tap_RoCEFrame_def nth_Cons' less_Suc_eq) presburger

section \<open>Boundary behaviour of the header decoders\<close>

text \<open>Each layer takes its payload as \<open>raw[-(len(raw) - n):]\<close>, which for a header with nothing
  behind it is \<open>raw[-0:]\<close>, the whole buffer.\<close>

lemma payload_slice:
  assumes "n \<le> length raw"
  shows "pslice_from raw (- (int (length raw) - int n)) =
           (if length raw = n then raw else drop n raw)"
proof (cases "length raw = n")
  case False
  with assms have "- (int (length raw) - int n) = - int (length raw - n)" by auto
  moreover have "pslice_from raw (- int (length raw - n)) = drop (length raw - (length raw - n)) raw"
    using assms False by (intro pslice_from_neg) auto
  ultimately show ?thesis using assms False by simp
qed simp

lemma decode_eth_frame_short:
  assumes "length (te_raw_frame self) < 14"
  shows "decode_eth_frame self = Inl StructError"
proof -
  let ?raw = "te_raw_frame self"
  have "length (take 2 (drop 12 (take 14 ?raw))) \<noteq> 2"
    using assms by simp
  then have "unpack_H (pslice (pslice ?raw 0 14) 12 14) = Inl StructError"
    by (simp add: unpack_be_short)
  then show ?thesis
    by (auto simp: decode_eth_frame_def Let_def bindR_def unpack_be_def split: sum.splits)
qed

lemma decode_eth_frame_long:
  assumes "14 \<le> length (te_raw_frame self)"
  shows "decode_eth_frame self =
    Inr (self\<lparr>te_eth_dest_mac := be_val (take 6 (te_raw_frame self)),
              te_eth_src_mac := be_val (take 6 (drop 6 (te_raw_frame self))),
              te_eth_type := be_val (take 2 (drop 12 (te_raw_frame self))),
              te_payload := (if length (te_raw_frame self) = 14 then te_raw_frame self
                             else drop 14 (te_raw_frame self))\<rparr>)"
  using assms payload_slice [of 14 "te_raw_frame self"]
  by (simp add: decode_eth_frame_def Let_def unpack_be_def drop_take min_def)

lemma decode_eth_frame_eq:
  "decode_eth_frame (tap_EthFrame raw) =
     (if length raw < 14 then Inl StructError
      else Inr ((tap_EthFrame raw)
        \<lparr>te_eth_dest_mac := be_val (take 6 raw), te_eth_src_mac := be_val (take 6 (drop 6 raw)),
         te_eth_type := be_val (take 2 (drop 12 raw)),
         te_payload := (if length raw = 14 then raw else drop 14 raw)\<rparr>))"
  using decode_eth_frame_short [of "tap_EthFrame raw"] decode_eth_frame_long [of "tap_EthFrame raw"]
  by (simp add: tap_EthFrame_def)

text \<open>\<open>decode_eth_frame\<close> raises \<open>struct.error\<close> on a buffer shorter than the 14 header bytes,
  reads the addresses and the type as big-endian integers otherwise, and takes everything behind
  the header as payload, except that for a buffer of exactly 14 bytes the payload is the header
  itself.\<close>

theorem decode_eth_frame_spec:
  "decode_eth_frame (tap_EthFrame raw) =
     (if length raw < 14 then Inl StructError
      else Inr ((tap_EthFrame raw)
        \<lparr>te_eth_dest_mac := be_val (take 6 raw), te_eth_src_mac := be_val (take 6 (drop 6 raw)),
         te_eth_type := be_val (take 2 (drop 12 raw)),
         te_payload := (if length raw = 14 then raw else drop 14 raw)\<rparr>))"
  by (rule decode_eth_frame_eq)

text \<open>\<open>EthFrame.build_eth_frame\<close> never returns: whatever the frame holds, some \<open>struct.pack\<close>
  in it is given an address out of range, a slice of bytes, or the \<open>None\<close> that \<open>compute_fcs\<close>
  returns, and raises \<open>struct.error\<close>.\<close>

theorem build_eth_frame_raises: "build_eth_frame self = Inl StructError"
proof -
  have loop: "build_payload_loop is p d = Inl e \<Longrightarrow> e = StructError" for "is" p d e
    by (cases "is") (simp_all add: pack_Q_obj_def)
  have fcs_err: "compute_fcs_loop is s c = Inl e \<Longrightarrow> e = StructError" for "is" s c e
    by (induction "is" arbitrary: c) (auto simp: unpack_be_def split: if_splits)
  have fcs_val: "compute_fcs_loop is s c = Inr x \<Longrightarrow> x = PNone" for "is" s c x
    by (induction "is" arbitrary: c) (auto simp: res_simps)
  show ?thesis
    unfolding build_eth_frame_def compute_fcs_def
    by (auto simp: bindR_def pack_be_def pack_Q_obj_def split: sum.splits
        dest!: loop fcs_err fcs_val)
qed

text \<open>\<open>decode_immd_data\<close> fails on every packet long enough to carry an immediate value: it
  unpacks four bytes with the two-byte format \<open>>H\<close>, and leaves \<open>immd_data\<close> unset for every other
  opcode.\<close>

theorem decode_immd_data_raises:
  assumes "32 \<le> length (tr_raw_frame self)"
  shows "decode_immd_data self =
    Inl (if tr_bth_opcode self \<in> {RC_RDMA_WRITE_ONLY_IMD, RC_RDMA_WRITE_LAST_IMD}
         then StructError else UnboundLocalError)"
  using assms by (auto simp: decode_immd_data_def unpack_be_def)

theorem decode_immd_data_raises_witness:
  "decode_immd_data ((tap_RoCEFrame [] (replicate 32 0))\<lparr>tr_bth_opcode := RC_RDMA_WRITE_ONLY_IMD\<rparr>)
     = Inl StructError"
  using decode_immd_data_raises
    [of "(tap_RoCEFrame [] (replicate 32 0))\<lparr>tr_bth_opcode := RC_RDMA_WRITE_ONLY_IMD\<rparr>"]
  by (simp add: tap_RoCEFrame_def)

end
