(* ===== verification/Roce_Stream.thy ===== *)
theory Roce_Stream
  imports Tap_Decoder
begin

text \<open>
  What \<open>RoCEStream.decode_Roce_stream\<close> reports about a captured stream.  A frame is abstracted to
  the fields the checks look at (\<open>packet\<close>, or \<open>None\<close> for a frame that is not RoCE), the method is
  shown to be a fold of a step on packets over these views, and the counters it returns for an
  RDMA WRITE message are computed from that.
\<close>

section \<open>The abstract view of a frame\<close>

record packet =
  p_opcode :: int
  p_psn :: int
  p_frame_length :: int
  p_dma_length :: int
  p_rkey :: int
  p_icrc_ok :: bool

definition packet_of :: "tap_roce \<Rightarrow> int \<Rightarrow> packet" where
  "packet_of roce sw =
     \<lparr>p_opcode = tr_bth_opcode roce, p_psn = tr_bth_psn roce,
      p_frame_length = int (tr_frame_length roce), p_dma_length = tr_reth_dma_length roce,
      p_rkey = tr_reth_rkey roce, p_icrc_ok = (tr_icrc roce = Some sw)\<rparr>"

definition roce_view :: "tap_ip \<Rightarrow> tap_udp \<Rightarrow> packet result" where
  "roce_view ip udp =
     bindR (decode_BTH (tap_RoCEFrame (ti_raw_frame ip) (tu_payload udp))) (\<lambda>roce.
     bindR (decode_icrc roce) (\<lambda>roce.
     bindR (if tr_bth_opcode roce \<in> {RC_RDMA_WRITE_FIRST, RC_RDMA_WRITE_ONLY, RC_RDMA_WRITE_ONLY_IMD}
            then decode_RETH roce else Inr roce) (\<lambda>roce.
     bindR (compute_sw_icrc roce) (\<lambda>sw.
       Inr (packet_of roce sw)))))"

definition frame_view :: "bytes \<Rightarrow> packet option result" where
  "frame_view data =
     bindR (decode_eth_frame (tap_EthFrame data)) (\<lambda>eth.
       if te_eth_type eth = 0x0800 then
         bindR (decode_ip_frame (tap_IPFrame (te_payload eth))) (\<lambda>ip.
           if ti_protocol ip = 0x11 then
             bindR (decode_udp_frame (tap_UDPFrame (ti_payload ip))) (\<lambda>udp.
               if tu_dest_port udp = 4791 then bindR (roce_view ip udp) (\<lambda>p. Inr (Some p))
               else Inr None)
           else Inr None)
       else Inr None)"

fun stream_packets :: "bytes list \<Rightarrow> packet list result" where
  "stream_packets [] = Inr []"
| "stream_packets (f # fs) =
     bindR (frame_view f) (\<lambda>v. bindR (stream_packets fs) (\<lambda>ps.
       Inr (case v of None \<Rightarrow> ps | Some p \<Rightarrow> p # ps)))"

section \<open>The step on packets\<close>

definition payload_length :: "packet \<Rightarrow> int" where
  "payload_length p =
     (if p_opcode p = RC_RDMA_WRITE_FIRST \<or> p_opcode p = RC_RDMA_WRITE_ONLY
      then p_frame_length p - 32
      else if p_opcode p = RC_RDMA_WRITE_ONLY_IMD then p_frame_length p - 36
      else if p_opcode p \<in> {RC_SEND_ONLY_IMD, RC_RDMA_WRITE_LAST_IMD} then p_frame_length p - 20
      else p_frame_length p - 16)"

definition packet_measured :: "packet \<Rightarrow> int \<Rightarrow> int" where
  "packet_measured p m =
     (if p_opcode p \<in> {RC_RDMA_WRITE_FIRST, RC_RDMA_WRITE_ONLY, RC_RDMA_WRITE_ONLY_IMD,
                       RC_SEND_FIRST, RC_SEND_ONLY, RC_SEND_ONLY_IMD} then payload_length p
      else if p_opcode p \<in> {RC_RDMA_WRITE_MIDDLE, RC_RDMA_WRITE_LAST, RC_SEND_LAST,
                            RC_RDMA_WRITE_LAST_IMD} then m + payload_length p
      else m)"

definition packet_step ::
    "int \<Rightarrow> packet \<Rightarrow> roce_stream \<times> stream_counts \<Rightarrow> roce_stream \<times> stream_counts" where
  "packet_step starting_psn p = (\<lambda>(st, sc).
     let op = p_opcode p;
         write_start = op \<in> {RC_RDMA_WRITE_FIRST, RC_RDMA_WRITE_ONLY, RC_RDMA_WRITE_ONLY_IMD};
         exp = (if op \<in> set psn_start_opcodes then starting_psn else rs_exp_psn st + 1);
         sim = (if write_start then p_dma_length p else rs_sim_data_legth st);
         m = packet_measured p (rs_measured_data_legth st)
     in (st\<lparr>rs_exp_psn := exp, rs_sim_data_legth := sim, rs_measured_data_legth := m,
            rs_received_r_key := (if write_start then p_rkey p else rs_received_r_key st)\<rparr>,
         \<lparr>sc_icrc_errors = sc_icrc_errors sc + (if p_icrc_ok p then 0 else 1),
          sc_psn_errors = sc_psn_errors sc + (if exp = p_psn p then 0 else 1),
          sc_is_last = (sc_is_last sc \<or> op \<in> set last_opcodes),
          sc_length_error = (sc_length_error sc \<or>
            op \<in> {RC_RDMA_WRITE_LAST, RC_RDMA_WRITE_ONLY, RC_RDMA_WRITE_ONLY_IMD} \<and> sim \<noteq> m)\<rparr>))"

section \<open>The method is a fold over the views\<close>

lemma packet_of_sel [simp]:
  "p_opcode (packet_of roce sw) = tr_bth_opcode roce"
  "p_psn (packet_of roce sw) = tr_bth_psn roce"
  "p_frame_length (packet_of roce sw) = int (tr_frame_length roce)"
  "p_dma_length (packet_of roce sw) = tr_reth_dma_length roce"
  "p_rkey (packet_of roce sw) = tr_reth_rkey roce"
  "p_icrc_ok (packet_of roce sw) = (tr_icrc roce = Some sw)"
  by (simp_all add: packet_of_def)

lemma measured_length_packet:
  "update_measured_length roce st =
     st\<lparr>rs_measured_data_legth := packet_measured (packet_of roce sw) (rs_measured_data_legth st),
        rs_received_r_key :=
          (if tr_bth_opcode roce \<in> {RC_RDMA_WRITE_FIRST, RC_RDMA_WRITE_ONLY, RC_RDMA_WRITE_ONLY_IMD}
           then tr_reth_rkey roce else rs_received_r_key st)\<rparr>"
proof -
  consider "tr_bth_opcode roce \<in> {RC_SEND_FIRST, RC_SEND_ONLY, RC_SEND_ONLY_IMD}"
    | "tr_bth_opcode roce \<in> {RC_RDMA_WRITE_FIRST, RC_RDMA_WRITE_ONLY, RC_RDMA_WRITE_ONLY_IMD}"
    | "tr_bth_opcode roce \<in> {RC_RDMA_WRITE_MIDDLE, RC_RDMA_WRITE_LAST, RC_SEND_LAST,
        RC_RDMA_WRITE_LAST_IMD}"
    | "tr_bth_opcode roce \<notin> {RC_SEND_FIRST, RC_SEND_ONLY, RC_SEND_ONLY_IMD, RC_RDMA_WRITE_FIRST,
        RC_RDMA_WRITE_ONLY, RC_RDMA_WRITE_ONLY_IMD, RC_RDMA_WRITE_MIDDLE, RC_RDMA_WRITE_LAST,
        RC_SEND_LAST, RC_RDMA_WRITE_LAST_IMD}"
    by blast
  then show ?thesis
    unfolding update_measured_length_def packet_measured_def payload_length_def opcode_defs Let_def
    by cases ((elim insertE emptyE)?; simp)+
qed

lemma update_counts_packet:
  assumes "te_roce_bth_opcode eth = 0" and "tr_icrc roce = Some icrc"
  shows "update_counts eth roce sw st sc = Inr
    \<lparr>sc_icrc_errors = sc_icrc_errors sc + (if icrc = sw then 0 else 1),
     sc_psn_errors = sc_psn_errors sc + (if rs_exp_psn st = tr_bth_psn roce then 0 else 1),
     sc_is_last = (sc_is_last sc \<or> tr_bth_opcode roce \<in> set last_opcodes),
     sc_length_error = (sc_length_error sc \<or>
       tr_bth_opcode roce \<in> {RC_RDMA_WRITE_LAST, RC_RDMA_WRITE_ONLY, RC_RDMA_WRITE_ONLY_IMD}
         \<and> rs_sim_data_legth st \<noteq> rs_measured_data_legth st)\<rparr>"
  using assms by (cases sc) (simp add: update_counts_def RC_RDMA_WRITE_LAST_IMD_def Let_def)

lemma decode_icrc_Some: "decode_icrc roce = Inr roce' \<Longrightarrow> tr_icrc roce' \<noteq> None"
  by (auto simp: decode_icrc_def res_simps)

lemma decode_RETH_keeps:
  "decode_RETH roce = Inr roce' \<Longrightarrow>
     tr_icrc roce' = tr_icrc roce \<and> tr_bth_opcode roce' = tr_bth_opcode roce"
  by (auto simp: decode_RETH_def Let_def res_simps)

lemma packet_step_of:
  assumes "te_roce_bth_opcode eth = 0" and "tr_icrc roce \<noteq> None"
    and sim: "rs_sim_data_legth st1 =
      (if tr_bth_opcode roce \<in> {RC_RDMA_WRITE_FIRST, RC_RDMA_WRITE_ONLY, RC_RDMA_WRITE_ONLY_IMD}
       then tr_reth_dma_length roce else rs_sim_data_legth st)"
    and st1: "st1 = (update_exp_psn psn (tr_bth_opcode roce) st)\<lparr>rs_sim_data_legth := rs_sim_data_legth st1\<rparr>"
  shows "bindR (update_counts eth roce sw (update_measured_length roce st1) sc)
            (\<lambda>sc. Inr (update_measured_length roce st1, sc)) =
         Inr (packet_step psn (packet_of roce sw) (st, sc))"
proof -
  obtain icrc where icrc: "tr_icrc roce = Some icrc"
    using assms(2) by blast
  have exp: "rs_exp_psn st1 =
      (if tr_bth_opcode roce \<in> set psn_start_opcodes then psn else rs_exp_psn st + 1)"
    and m: "rs_measured_data_legth st1 = rs_measured_data_legth st"
    and r: "rs_received_r_key st1 = rs_received_r_key st"
    and d: "rs_data_stream st1 = rs_data_stream st"
    by (subst st1, simp add: update_exp_psn_def)+
  show ?thesis
    unfolding measured_length_packet [of roce st1 sw] packet_step_def Let_def
    by (simp add: update_counts_packet [OF assms(1) icrc] icrc exp m r d sim)
qed

lemma decode_roce_packet_view:
  assumes "te_roce_bth_opcode eth = 0"
  shows "decode_roce_packet False psn eth ip udp (st, sc) =
           bindR (roce_view ip udp) (\<lambda>p. Inr (packet_step psn p (st, sc)))"
  unfolding decode_roce_packet_def roce_view_def prod.case bindR_assoc
proof (rule bindR_eqI [OF refl], rule bindR_eqI [OF refl])
  fix r0 roce
  assume "decode_icrc r0 = Inr roce"
  then have ic: "tr_icrc roce \<noteq> None" by (rule decode_icrc_Some)
  let ?st = "update_exp_psn psn (tr_bth_opcode roce) st"
  let ?w = "tr_bth_opcode roce \<in> {RC_RDMA_WRITE_FIRST, RC_RDMA_WRITE_ONLY, RC_RDMA_WRITE_ONLY_IMD}"
  show "bindR (update_sim_length (?st, roce))
      (\<lambda>(st, roce). let st = update_measured_length roce st
        in bindR (compute_sw_icrc roce) (\<lambda>SW_icrc.
             if False \<and> tr_bth_opcode roce \<notin> set OP_codes then Inl KeyError
             else bindR (update_counts eth roce SW_icrc st sc) (\<lambda>sc. Inr (st, sc)))) =
    bindR (if ?w then decode_RETH roce else Inr roce)
      (\<lambda>roce. bindR (compute_sw_icrc roce)
        (\<lambda>sw. bindR (Inr (packet_of roce sw)) (\<lambda>p. Inr (packet_step psn p (st, sc)))))"
  proof (cases ?w)
    case True
    then have "update_sim_length (?st, roce) = bindR (decode_RETH roce) (\<lambda>roce.
        Inr (?st\<lparr>rs_sim_data_legth := tr_reth_dma_length roce\<rparr>, roce))"
      by (auto simp: update_sim_length_def)
    then show ?thesis
      using True decode_RETH_keeps [of roce] ic assms
      by (auto simp: bindR_assoc Let_def intro!: bindR_eqI packet_step_of)
  next
    case False
    then have "update_sim_length (?st, roce) = Inr (?st, roce)"
      by (auto simp: update_sim_length_def)
    then show ?thesis
      using False ic assms
      by (auto simp: Let_def intro!: bindR_eqI packet_step_of) (simp_all add: update_exp_psn_def)
  qed
qed

lemma decode_eth_frame_opcode:
  "decode_eth_frame (tap_EthFrame data) = Inr eth \<Longrightarrow> te_roce_bth_opcode eth = 0"
  by (auto simp: decode_eth_frame_def tap_EthFrame_def Let_def res_simps)

lemma decode_stream_loop_step:
  "decode_stream_loop False psn (f # fs) acc =
     bindR (frame_view f) (\<lambda>v.
       decode_stream_loop False psn fs (case v of None \<Rightarrow> acc | Some p \<Rightarrow> packet_step psn p acc))"
  unfolding decode_stream_loop.simps frame_view_def bindR_assoc
proof (rule bindR_eqI [OF refl])
  fix eth
  assume eth: "decode_eth_frame (tap_EthFrame f) = Inr eth"
  obtain st sc where acc: "acc = (st, sc)" by (cases acc)
  have "bindR (decode_roce_packet False psn eth ip udp acc) (decode_stream_loop False psn fs) =
      bindR (roce_view ip udp) (\<lambda>p. decode_stream_loop False psn fs (packet_step psn p acc))"
    for ip udp
    by (simp add: acc decode_roce_packet_view [OF decode_eth_frame_opcode [OF eth]] bindR_assoc)
  then show "(if te_eth_type eth = 0x0800
       then bindR (decode_ip_frame (tap_IPFrame (te_payload eth))) (\<lambda>ip.
         if ti_protocol ip = 0x11
         then bindR (decode_udp_frame (tap_UDPFrame (ti_payload ip))) (\<lambda>udp.
           if tu_dest_port udp = 4791
           then bindR (decode_roce_packet False psn eth ip udp acc) (decode_stream_loop False psn fs)
           else decode_stream_loop False psn fs acc)
         else decode_stream_loop False psn fs acc)
       else decode_stream_loop False psn fs acc) =
    bindR (if te_eth_type eth = 0x0800
       then bindR (decode_ip_frame (tap_IPFrame (te_payload eth))) (\<lambda>ip.
         if ti_protocol ip = 0x11
         then bindR (decode_udp_frame (tap_UDPFrame (ti_payload ip))) (\<lambda>udp.
           if tu_dest_port udp = 4791 then bindR (roce_view ip udp) (\<lambda>p. Inr (Some p))
           else Inr None)
         else Inr None)
       else Inr None) (\<lambda>v.
       decode_stream_loop False psn fs (case v of None \<Rightarrow> acc | Some p \<Rightarrow> packet_step psn p acc))"
    by (simp add: bindR_assoc if_distrib [of "\<lambda>r. bindR r _"] cong: if_cong)
qed

lemma decode_stream_loop_views:
  "stream_packets frames = Inr ps \<Longrightarrow>
     decode_stream_loop False psn frames acc = Inr (fold (packet_step psn) ps acc)"
proof (induction frames arbitrary: ps acc)
  case (Cons f fs)
  obtain v ps' where v: "frame_view f = Inr v" and ps': "stream_packets fs = Inr ps'"
    and ps: "ps = (case v of None \<Rightarrow> ps' | Some p \<Rightarrow> p # ps')"
    using Cons.prems by (auto simp: res_simps)
  show ?case
    by (cases v) (simp_all add: decode_stream_loop_step v ps Cons.IH [OF ps'] del: decode_stream_loop.simps)
qed simp

section \<open>What is reported for an RDMA WRITE message\<close>

fun psn_mismatches :: "int \<Rightarrow> packet list \<Rightarrow> int" where
  "psn_mismatches e [] = 0"
| "psn_mismatches e (p # ps) = (if e = p_psn p then 0 else 1) + psn_mismatches (e + 1) ps"

lemma psn_mismatches_sum:
  "psn_mismatches e ps = (\<Sum>i<length ps. if p_psn (ps ! i) = e + int i then 0 else 1)"
proof (induction ps arbitrary: e)
  case (Cons p ps)
  have "(\<Sum>i<length (p # ps). if p_psn ((p # ps) ! i) = e + int i then 0 else (1 :: int)) =
      (if p_psn p = e then 0 else 1) +
      (\<Sum>i<length ps. if p_psn (ps ! i) = e + 1 + int i then 0 else 1)"
    by (simp add: sum.lessThan_Suc_shift algebra_simps del: sum.lessThan_Suc)
  then show ?case by (simp add: Cons eq_commute)
qed simp

definition icrc_bad :: "packet list \<Rightarrow> int" where
  "icrc_bad ps = int (length (filter (\<lambda>p. \<not> p_icrc_ok p) ps))"

lemma middle_step:
  assumes "p_opcode p = RC_RDMA_WRITE_MIDDLE"
  shows "packet_step psn p (st, sc) =
    (st\<lparr>rs_exp_psn := rs_exp_psn st + 1,
        rs_measured_data_legth := rs_measured_data_legth st + payload_length p\<rparr>,
     sc\<lparr>sc_icrc_errors := sc_icrc_errors sc + (if p_icrc_ok p then 0 else 1),
        sc_psn_errors := sc_psn_errors sc + (if rs_exp_psn st + 1 = p_psn p then 0 else 1)\<rparr>)"
  using assms
  by (cases sc) (simp add: packet_step_def packet_measured_def psn_start_opcodes_def
      last_opcodes_def opcode_defs Let_def)

lemma middle_fold:
  "\<forall>p\<in>set ps. p_opcode p = RC_RDMA_WRITE_MIDDLE \<Longrightarrow>
   fold (packet_step psn) ps (st, sc) =
    (st\<lparr>rs_exp_psn := rs_exp_psn st + int (length ps),
        rs_measured_data_legth := rs_measured_data_legth st + (\<Sum>p\<leftarrow>ps. payload_length p)\<rparr>,
     sc\<lparr>sc_icrc_errors := sc_icrc_errors sc + icrc_bad ps,
        sc_psn_errors := sc_psn_errors sc + psn_mismatches (rs_exp_psn st + 1) ps\<rparr>)"
  by (induction ps arbitrary: st sc) (auto simp: middle_step icrc_bad_def algebra_simps)

lemma last_step:
  assumes "p_opcode p \<in> {RC_RDMA_WRITE_LAST, RC_RDMA_WRITE_LAST_IMD}"
  shows "snd (packet_step psn p (st, sc)) =
     \<lparr>sc_icrc_errors = sc_icrc_errors sc + (if p_icrc_ok p then 0 else 1),
      sc_psn_errors = sc_psn_errors sc + (if rs_exp_psn st + 1 = p_psn p then 0 else 1),
      sc_is_last = True,
      sc_length_error = (sc_length_error sc \<or> p_opcode p = RC_RDMA_WRITE_LAST \<and>
        rs_sim_data_legth st \<noteq> rs_measured_data_legth st + payload_length p)\<rparr>"
  using assms
  by (auto simp: packet_step_def packet_measured_def psn_start_opcodes_def last_opcodes_def
      opcode_defs Let_def)

lemma first_step:
  assumes "p_opcode p = RC_RDMA_WRITE_FIRST"
  shows "packet_step psn p (st, sc) =
    (st\<lparr>rs_exp_psn := psn, rs_sim_data_legth := p_dma_length p,
        rs_measured_data_legth := payload_length p, rs_received_r_key := p_rkey p\<rparr>,
     sc\<lparr>sc_icrc_errors := sc_icrc_errors sc + (if p_icrc_ok p then 0 else 1),
        sc_psn_errors := sc_psn_errors sc + (if psn = p_psn p then 0 else 1)\<rparr>)"
  using assms
  by (cases sc) (simp add: packet_step_def packet_measured_def psn_start_opcodes_def
      last_opcodes_def opcode_defs Let_def)

lemma psn_mismatches_append:
  "psn_mismatches e (xs @ ys) = psn_mismatches e xs + psn_mismatches (e + int (length xs)) ys"
  by (induction xs arbitrary: e) (auto simp: algebra_simps)

lemma write_message_counts:
  assumes "p_opcode f = RC_RDMA_WRITE_FIRST"
    and "\<forall>m\<in>set ms. p_opcode m = RC_RDMA_WRITE_MIDDLE"
    and "p_opcode l \<in> {RC_RDMA_WRITE_LAST, RC_RDMA_WRITE_LAST_IMD}"
  shows "snd (fold (packet_step psn) (f # ms @ [l])
            (st, \<lparr>sc_icrc_errors = 0, sc_psn_errors = 0, sc_is_last = False,
                  sc_length_error = False\<rparr>)) =
     \<lparr>sc_icrc_errors = icrc_bad (f # ms @ [l]),
      sc_psn_errors = psn_mismatches psn (f # ms @ [l]),
      sc_is_last = True,
      sc_length_error = (p_opcode l = RC_RDMA_WRITE_LAST \<and>
        p_dma_length f \<noteq> (\<Sum>p\<leftarrow>f # ms @ [l]. payload_length p))\<rparr>"
  by (simp add: first_step [OF assms(1)] middle_fold [OF assms(2)] last_step [OF assms(3)]
      icrc_bad_def psn_mismatches_append algebra_simps)

lemma write_message_decoded:
  assumes "stream_packets frames = Inr (f # ms @ [l])"
    and "p_opcode f = RC_RDMA_WRITE_FIRST"
    and "\<forall>m\<in>set ms. p_opcode m = RC_RDMA_WRITE_MIDDLE"
    and "p_opcode l \<in> {RC_RDMA_WRITE_LAST, RC_RDMA_WRITE_LAST_IMD}"
  shows "\<exists>st. decode_Roce_stream False psn (RoCEStream frames) = Inr (st,
     \<lparr>sc_icrc_errors = icrc_bad (f # ms @ [l]),
      sc_psn_errors = psn_mismatches psn (f # ms @ [l]),
      sc_is_last = True,
      sc_length_error = (p_opcode l = RC_RDMA_WRITE_LAST \<and>
        p_dma_length f \<noteq> (\<Sum>p\<leftarrow>f # ms @ [l]. payload_length p))\<rparr>)"
proof -
  let ?sc = "\<lparr>sc_icrc_errors = 0, sc_psn_errors = 0, sc_is_last = False, sc_length_error = False\<rparr>"
  have "decode_Roce_stream False psn (RoCEStream frames) =
      Inr (fold (packet_step psn) (f # ms @ [l]) (RoCEStream frames, ?sc))"
    unfolding decode_Roce_stream_def
    by (simp add: RoCEStream_def decode_stream_loop_views [OF assms(1)] del: fold_simps)
  then show ?thesis
    using write_message_counts [OF assms(2-4), of psn "RoCEStream frames"]
    by (metis prod.collapse)
qed

text \<open>C5: for a captured RDMA WRITE message (a FIRST packet, MIDDLE packets, a LAST packet with or
  without immediate data; other frames may be interleaved) \<open>decode_Roce_stream\<close> reports as ICRC
  errors the packets whose ICRC differs from the software one, as PSN errors the packets whose
  sequence number is not the starting number plus their position, that the last packet was seen,
  and a length error exactly when the message ends in a LAST without immediate data and the
  lengths of the payloads do not add up to the length of the RETH.\<close>

theorem decode_Roce_stream_write_message:
  assumes "stream_packets frames = Inr (f # ms @ [l])"
    and "p_opcode f = RC_RDMA_WRITE_FIRST"
    and "\<forall>m\<in>set ms. p_opcode m = RC_RDMA_WRITE_MIDDLE"
    and "p_opcode l \<in> {RC_RDMA_WRITE_LAST, RC_RDMA_WRITE_LAST_IMD}"
  shows "\<exists>st. decode_Roce_stream False psn (RoCEStream frames) = Inr (st,
     \<lparr>sc_icrc_errors = int (length (filter (\<lambda>p. \<not> p_icrc_ok p) (f # ms @ [l]))),
      sc_psn_errors = (\<Sum>i<length (f # ms @ [l]).
        if p_psn ((f # ms @ [l]) ! i) = psn + int i then 0 else 1),
      sc_is_last = True,
      sc_length_error = (p_opcode l = RC_RDMA_WRITE_LAST \<and>
        p_dma_length f \<noteq> (\<Sum>p\<leftarrow>f # ms @ [l]. payload_length p))\<rparr>)"
  using write_message_decoded [OF assms, of psn]
  by (simp only: icrc_bad_def psn_mismatches_sum)

section \<open>The view of a frame given layer by layer\<close>

lemma decode_ip_frame_layer:
  assumes "length ip = 20" and "rest \<noteq> []"
  shows "\<exists>r. decode_ip_frame (tap_IPFrame (ip @ rest)) = Inr r \<and> ti_protocol r = uint (ip ! 9)
    \<and> ti_payload r = rest \<and> ti_raw_frame r = ip @ rest"
proof -
  have "take (Suc 0) (drop 9 ip) = [ip ! 9]"
    using assms(1) by (simp add: take_Suc_conv_app_nth Cons_nth_drop_Suc [symmetric])
  then show ?thesis
    using assms payload_slice [of 20 "ip @ rest"]
    by (simp add: decode_ip_frame_def tap_IPFrame_def Let_def unpack_be_def be_val_def)
qed

lemma decode_udp_frame_layer:
  assumes "length udp = 8" and "rest \<noteq> []"
  shows "\<exists>r. decode_udp_frame (tap_UDPFrame (udp @ rest)) = Inr r
    \<and> tu_dest_port r = be_val (take 2 (drop 2 udp)) \<and> tu_payload r = rest"
  using assms payload_slice [of 8 "udp @ rest"]
  by (simp add: decode_udp_frame_def tap_UDPFrame_def Let_def unpack_be_def)

lemma tap_RoCEFrame_sel [simp]:
  "tr_frame_length (tap_RoCEFrame ip raw) = length raw"
  "tr_reth_dma_length (tap_RoCEFrame ip raw) = 0" "tr_reth_rkey (tap_RoCEFrame ip raw) = 0"
  "tr_raw_frame (tap_RoCEFrame ip raw) = raw"
  by (simp_all add: tap_RoCEFrame_def)

lemma roce_view_layer:
  assumes "length bth = 12" and "4 \<le> length rest" and "tu_payload udp = bth @ rest"
    and "bth ! 0 \<in> {6, 10, 11} \<longrightarrow> 16 \<le> length rest"
  shows "\<exists>ok. roce_view ip udp = Inr
    \<lparr>p_opcode = uint (bth ! 0), p_psn = be_val (drop 9 bth),
     p_frame_length = int (12 + length rest),
     p_dma_length = (if bth ! 0 \<in> {6, 10, 11} then be_val (take 4 (drop 12 rest)) else 0),
     p_rkey = (if bth ! 0 \<in> {6, 10, 11} then be_val (take 4 (drop 8 rest)) else 0),
     p_icrc_ok = ok\<rparr>"
proof -
  have b0: "take (Suc 0) bth = [bth ! 0]"
    using assms(1) by (cases bth) auto
  have bth: "take 12 (bth @ rest) = bth" "drop 12 (bth @ rest) = rest"
    using assms(1) by simp_all
  let ?r = "(tap_RoCEFrame (ti_raw_frame ip) (bth @ rest))
    \<lparr>tr_bth_opcode := uint (bth ! 0), tr_bth_pkey := be_val (take 2 (drop 2 bth)),
     tr_bth_dest_qp := be_val (take 3 (drop 5 bth)), tr_bth_ack_req := be_val (take (Suc 0) (drop 8 bth)),
     tr_bth_psn := be_val (drop 9 bth)\<rparr>"
  have d1: "decode_BTH (tap_RoCEFrame (ti_raw_frame ip) (bth @ rest)) = Inr ?r"
    using assms(1) b0
    by (simp add: decode_BTH_def tap_RoCEFrame_def Let_def unpack_be_def bth)
      (simp add: be_val_def)
  have d2: "\<exists>v. decode_icrc ?r = Inr (?r\<lparr>tr_icrc := Some v\<rparr>)"
    using assms(1,2) pslice_from_neg [of 4 "bth @ rest"]
    by (simp add: decode_icrc_def tap_RoCEFrame_def unpack_le_def)
  then obtain v where d2: "decode_icrc ?r = Inr (?r\<lparr>tr_icrc := Some v\<rparr>)" ..
  let ?q = "?r\<lparr>tr_icrc := Some v\<rparr>"
  have d3: "\<exists>va. decode_RETH ?q = Inr (?q\<lparr>tr_reth_vaddr := va,
      tr_reth_rkey := be_val (take 4 (drop 8 rest)),
      tr_reth_dma_length := be_val (take 4 (drop 12 rest))\<rparr>)" if "16 \<le> length rest"
    using assms(1) that
    by (simp add: decode_RETH_def tap_RoCEFrame_def Let_def unpack_be_def drop_take)
  have op: "uint (bth ! 0) \<in> {RC_RDMA_WRITE_FIRST, RC_RDMA_WRITE_ONLY, RC_RDMA_WRITE_ONLY_IMD}
      \<longleftrightarrow> bth ! 0 \<in> {6, 10, 11}"
    by (simp add: opcode_defs word_uint_eq_iff)
  show ?thesis
  proof (cases "bth ! 0 \<in> {6, 10, 11}")
    case True
    then obtain va where "decode_RETH ?q = Inr (?q\<lparr>tr_reth_vaddr := va,
      tr_reth_rkey := be_val (take 4 (drop 8 rest)),
      tr_reth_dma_length := be_val (take 4 (drop 12 rest))\<rparr>)"
      using d3 assms(4) by blast
    then show ?thesis
      using True op assms(1)
      by (simp add: roce_view_def assms(3) d1 d2 packet_of_def compute_sw_icrc_eq Let_def)
  next
    case False
    then show ?thesis
      using op assms(1)
      by (simp add: roce_view_def assms(3) d1 d2 packet_of_def compute_sw_icrc_eq Let_def)
  qed
qed

lemma frame_view_layers:
  assumes "length macs = 12" and "length ip = 20" and "ip ! 9 = 17"
    and "length udp = 8" and "take 2 (drop 2 udp) = [18, 183]"
    and "length bth = 12" and "4 \<le> length rest"
    and "bth ! 0 \<in> {6, 10, 11} \<longrightarrow> 16 \<le> length rest"
  shows "\<exists>ok. frame_view (macs @ [8, 0] @ ip @ udp @ bth @ rest) = Inr (Some
    \<lparr>p_opcode = uint (bth ! 0), p_psn = be_val (drop 9 bth),
     p_frame_length = int (12 + length rest),
     p_dma_length = (if bth ! 0 \<in> {6, 10, 11} then be_val (take 4 (drop 12 rest)) else 0),
     p_rkey = (if bth ! 0 \<in> {6, 10, 11} then be_val (take 4 (drop 8 rest)) else 0),
     p_icrc_ok = ok\<rparr>)"
proof -
  have ne: "udp @ bth @ rest \<noteq> []" "bth @ rest \<noteq> []"
    using assms by auto
  have eth: "\<exists>r. decode_eth_frame (tap_EthFrame (macs @ [8, 0] @ ip @ udp @ bth @ rest)) = Inr r
      \<and> te_eth_type r = 0x0800 \<and> te_payload r = ip @ udp @ bth @ rest"
    using assms by (simp add: decode_eth_frame_eq be_val_def)
  obtain i where i: "decode_ip_frame (tap_IPFrame (ip @ udp @ bth @ rest)) = Inr i"
      "ti_protocol i = uint (ip ! 9)" "ti_payload i = udp @ bth @ rest"
    using decode_ip_frame_layer [OF assms(2) ne(1)] by blast
  obtain u where u: "decode_udp_frame (tap_UDPFrame (udp @ bth @ rest)) = Inr u"
      "tu_dest_port u = be_val (take 2 (drop 2 udp))" "tu_payload u = bth @ rest"
    using decode_udp_frame_layer [OF assms(4) ne(2)] by blast
  have port: "be_val [18, 183] = 4791"
    by (simp add: be_val_def)
  show ?thesis
    using eth i u port assms(3,5) roce_view_layer [OF assms(6,7) u(3) assms(8), of i]
    by (auto simp: frame_view_def)
qed

section \<open>Sequence numbers that wrap\<close>

lemma sum_indicator_above:
  fixes psn N :: int
  assumes "psn \<le> N" "N \<le> psn + int n"
  shows "(\<Sum>i<n. if psn + int i < N then 0 else (1 :: int)) = psn + int n - N"
  using assms
proof (induction n)
  case (Suc n)
  show ?case
  proof (cases "N \<le> psn + int n")
    case True
    then show ?thesis using Suc by simp
  next
    case False
    then have "(\<Sum>i<n. if psn + int i < N then 0 else (1 :: int)) = 0"
      by (intro sum.neutral) auto
    then show ?thesis using False Suc.prems by simp
  qed
qed simp

text \<open>C40: the decoder does not wrap its expected sequence number at 24 bits.  A WRITE message whose
  packets carry consecutive sequence numbers modulo \<open>2^24\<close>, as the wire format has them, is
  reported with one PSN error for every packet behind the wrap.\<close>

theorem decode_Roce_stream_psn_wrap:
  assumes "stream_packets frames = Inr (f # ms @ [l])"
    and "p_opcode f = RC_RDMA_WRITE_FIRST"
    and "\<forall>m\<in>set ms. p_opcode m = RC_RDMA_WRITE_MIDDLE"
    and "p_opcode l \<in> {RC_RDMA_WRITE_LAST, RC_RDMA_WRITE_LAST_IMD}"
    and "0 \<le> psn" and "psn < 2 ^ 24" and "length ms + 2 \<le> 2 ^ 24"
    and "2 ^ 24 \<le> psn + int (length ms + 2)"
    and "\<forall>i<length ms + 2. p_psn ((f # ms @ [l]) ! i) = (psn + int i) mod 2 ^ 24"
  shows "\<exists>st sc. decode_Roce_stream False psn (RoCEStream frames) = Inr (st, sc)
    \<and> sc_psn_errors sc = psn + int (length ms + 2) - 2 ^ 24"
proof -
  let ?ps = "f # ms @ [l]"
  have len: "length ?ps = length ms + 2" by simp
  have "(p_psn (?ps ! i) = psn + int i) = (psn + int i < 2 ^ 24)" if "i < length ?ps" for i
  proof -
    have "p_psn (?ps ! i) = (psn + int i) mod 2 ^ 24"
      using assms(9) that len by metis
    then show ?thesis
      using assms(5) pos_mod_bound [of "2 ^ 24 :: int" "psn + int i"]
      by (auto simp del: pos_mod_bound)
  qed
  then have "(\<Sum>i<length ?ps. if p_psn (?ps ! i) = psn + int i then 0 else (1 :: int)) =
      (\<Sum>i<length ?ps. if psn + int i < 2 ^ 24 then 0 else 1)"
    by (intro sum.cong) auto
  also have "\<dots> = psn + int (length ms + 2) - 2 ^ 24"
    using assms(6,8) sum_indicator_above [of psn "2 ^ 24" "length ?ps"] by (simp add: len)
  finally show ?thesis
    using write_message_decoded [OF assms(1-4), of psn]
    by (metis psn_mismatches_sum stream_counts.select_convs(2))
qed

section \<open>A captured message\<close>

text \<open>A WRITE message of eight bytes in two packets, with the sequence numbers as parameters.\<close>

definition demo_frame :: "bytes \<Rightarrow> bytes \<Rightarrow> bytes" where
  "demo_frame bth rest =
     [0x5a, 0x51, 0x52, 0x53, 0x54, 0x55, 0xda, 0xd1, 0xd2, 0xd3, 0xd4, 0xd5] @ [8, 0] @
     [0x45, 0, 0, 64, 0, 0, 0x40, 0, 64, 17, 0, 0, 22, 1, 212, 10, 22, 1, 212, 11] @
     [0xC0, 0, 18, 183, 0, 44, 0, 0] @ bth @ rest"

definition demo_message :: "bytes \<Rightarrow> bytes \<Rightarrow> bytes list" where
  "demo_message psn0 psn1 =
     [demo_frame ([6, 64, 255, 255, 0, 0, 0, 17, 0] @ psn0)
        [0, 0, 0, 0, 18, 52, 18, 66, 0, 0, 2, 52, 0, 0, 0, 8, 1, 2, 3, 4, 0, 0, 0, 0],
      demo_frame ([8, 64, 255, 255, 0, 0, 0, 17, 0] @ psn1) [5, 6, 7, 8, 0, 0, 0, 0]]"

lemma demo_frame_view:
  assumes "length bth = 12" and "4 \<le> length rest"
    and "bth ! 0 \<in> {6, 10, 11} \<longrightarrow> 16 \<le> length rest"
  shows "\<exists>ok. frame_view (demo_frame bth rest) = Inr (Some
    \<lparr>p_opcode = uint (bth ! 0), p_psn = be_val (drop 9 bth),
     p_frame_length = int (12 + length rest),
     p_dma_length = (if bth ! 0 \<in> {6, 10, 11} then be_val (take 4 (drop 12 rest)) else 0),
     p_rkey = (if bth ! 0 \<in> {6, 10, 11} then be_val (take 4 (drop 8 rest)) else 0),
     p_icrc_ok = ok\<rparr>)"
  unfolding demo_frame_def
  by (rule frame_view_layers) (use assms in simp_all)

lemma demo_message_packets:
  assumes "length psn0 = 3" "length psn1 = 3"
  shows "\<exists>ok0 ok1. stream_packets (demo_message psn0 psn1) = Inr
    [\<lparr>p_opcode = RC_RDMA_WRITE_FIRST, p_psn = be_val psn0, p_frame_length = 36,
      p_dma_length = 8, p_rkey = 0x234, p_icrc_ok = ok0\<rparr>,
     \<lparr>p_opcode = RC_RDMA_WRITE_LAST, p_psn = be_val psn1, p_frame_length = 20,
      p_dma_length = 0, p_rkey = 0, p_icrc_ok = ok1\<rparr>]"
proof -
  have 0: "\<exists>ok. frame_view (demo_frame ([6, 64, 255, 255, 0, 0, 0, 17, 0] @ psn0)
        [0, 0, 0, 0, 18, 52, 18, 66, 0, 0, 2, 52, 0, 0, 0, 8, 1, 2, 3, 4, 0, 0, 0, 0]) =
      Inr (Some \<lparr>p_opcode = RC_RDMA_WRITE_FIRST, p_psn = be_val psn0, p_frame_length = 36,
        p_dma_length = 8, p_rkey = 0x234, p_icrc_ok = ok\<rparr>)"
    using demo_frame_view [of "[6, 64, 255, 255, 0, 0, 0, 17, 0] @ psn0" "[0, 0, 0, 0, 18, 52, 18, 66, 0, 0, 2, 52, 0, 0, 0, 8, 1, 2, 3, 4, 0, 0, 0, 0]"] assms
    by (simp add: be_val_def opcode_defs)
  have 1: "\<exists>ok. frame_view (demo_frame ([8, 64, 255, 255, 0, 0, 0, 17, 0] @ psn1)
        [5, 6, 7, 8, 0, 0, 0, 0]) =
      Inr (Some \<lparr>p_opcode = RC_RDMA_WRITE_LAST, p_psn = be_val psn1, p_frame_length = 20,
        p_dma_length = 0, p_rkey = 0, p_icrc_ok = ok\<rparr>)"
    using demo_frame_view [of "[8, 64, 255, 255, 0, 0, 0, 17, 0] @ psn1" "[5, 6, 7, 8, 0, 0, 0, 0]"] assms
    by (simp add: be_val_def opcode_defs)
  show ?thesis
    using 0 1 by (auto simp: demo_message_def)
qed

theorem decode_Roce_stream_write_message_witness:
  "\<exists>st sc. decode_Roce_stream False 5 (RoCEStream (demo_message [0, 0, 5] [0, 0, 6])) = Inr (st, sc)
     \<and> sc_psn_errors sc = 0 \<and> sc_is_last sc \<and> \<not> sc_length_error sc"
proof -
  obtain ok0 ok1 where p: "stream_packets (demo_message [0, 0, 5] [0, 0, 6]) = Inr
    (\<lparr>p_opcode = RC_RDMA_WRITE_FIRST, p_psn = be_val [0, 0, 5], p_frame_length = 36,
      p_dma_length = 8, p_rkey = 0x234, p_icrc_ok = ok0\<rparr> # [] @
     [\<lparr>p_opcode = RC_RDMA_WRITE_LAST, p_psn = be_val [0, 0, 6], p_frame_length = 20,
      p_dma_length = 0, p_rkey = 0, p_icrc_ok = ok1\<rparr>])"
    using demo_message_packets [of "[0, 0, 5]" "[0, 0, 6]"] by auto
  show ?thesis
    using decode_Roce_stream_write_message [OF p, of 5]
    by (auto simp: be_val_def payload_length_def opcode_defs)
qed

theorem decode_Roce_stream_psn_wrap_witness:
  "\<exists>st sc. decode_Roce_stream False 0xFFFFFF (RoCEStream (demo_message [255, 255, 255] [0, 0, 0]))
     = Inr (st, sc) \<and> sc_psn_errors sc = 1"
proof -
  obtain ok0 ok1 where p: "stream_packets (demo_message [255, 255, 255] [0, 0, 0]) = Inr
    (\<lparr>p_opcode = RC_RDMA_WRITE_FIRST, p_psn = be_val [255, 255, 255], p_frame_length = 36,
      p_dma_length = 8, p_rkey = 0x234, p_icrc_ok = ok0\<rparr> # [] @
     [\<lparr>p_opcode = RC_RDMA_WRITE_LAST, p_psn = be_val [0, 0, 0], p_frame_length = 20,
      p_dma_length = 0, p_rkey = 0, p_icrc_ok = ok1\<rparr>])"
    using demo_message_packets [of "[255, 255, 255]" "[0, 0, 0]"] by auto
  show ?thesis
    using decode_Roce_stream_psn_wrap [OF p, of "0xFFFFFF"]
    by (simp add: be_val_def All_less_Suc)
qed

end
