(* ===== verification/Connection_Manager.thy ===== *)
theory Connection_Manager
  imports Struct_Codec
begin

text \<open>
  The connection-manager client of \<open>Scripts/send_connection_info.py\<close>: the five functions that
  build the 64-byte UDP message of the connection manager, the decoder of its replies, and the
  dispatch on the command line.

  Sockets and printing are outside the model.  A function that sends a message returns the
  datagram it sends, or the \<open>struct.error\<close> it raises; the reply it then waits for is an
  input of the caller.  IP addresses enter as the integers that \<open>int(ip_address(s))\<close> gives.
  \<open>decode_udp_packet\<close> returns the local QPN and prints the other fields; the model returns all
  of them, and keeps the \<open>KeyError\<close>s of the two code tables.
\<close>

section \<open>Constants\<close>

definition REM_UDP_PORT :: int where "REM_UDP_PORT = 0x4321"
definition LISTENING_UDP_PORT :: int where "LISTENING_UDP_PORT = 0x4322"

definition REQ_NULL :: int where "REQ_NULL = 0x0"
definition REQ_OPEN_QP :: int where "REQ_OPEN_QP = 0x1"
definition REQ_SEND_QP_INFO :: int where "REQ_SEND_QP_INFO = 0x2"
definition REQ_MODIFY_QP_RTS :: int where "REQ_MODIFY_QP_RTS = 0x3"
definition REQ_CLOSE_QP :: int where "REQ_CLOSE_QP = 0x4"
definition REQ_ERROR :: int where "REQ_ERROR = 0x7"

definition ACK_NULL :: int where "ACK_NULL = 0x0"
definition ACK_ACK :: int where "ACK_ACK = 0x1"
definition ACK_NO_QP :: int where "ACK_NO_QP = 0x2"
definition ACK_NAK :: int where "ACK_NAK = 0x3"
definition ACK_ERROR :: int where "ACK_ERROR = 0x7"

lemmas cm_consts =
  REM_UDP_PORT_def LISTENING_UDP_PORT_def REQ_NULL_def REQ_OPEN_QP_def REQ_SEND_QP_INFO_def
  REQ_MODIFY_QP_RTS_def REQ_CLOSE_QP_def REQ_ERROR_def ACK_NULL_def ACK_ACK_def ACK_NO_QP_def
  ACK_NAK_def ACK_ERROR_def

section \<open>Messages\<close>

text \<open>One side of a connection: queue pair number, first PSN, key, base address, IP address.\<close>

record qp_side =
  qpn :: int
  psn :: int
  r_key :: int
  base_addr :: int
  ip_addr :: int

record datagram =
  dg_payload :: bytes
  dg_ip :: int
  dg_port :: int

text \<open>The five \<open>struct.pack\<close> lines of one side.\<close>

definition pack_side :: "qp_side \<Rightarrow> bytes result" where
  "pack_side s =
     bindR (pack_L (qpn s)) (\<lambda>a.
     bindR (pack_L (psn s)) (\<lambda>b.
     bindR (pack_L (r_key s)) (\<lambda>c.
     bindR (pack_Q (base_addr s)) (\<lambda>d.
     bindR (pack_L (ip_addr s)) (\<lambda>e.
       Inr (a @ b @ c @ d @ e))))))"

text \<open>\<open>MESSAGE\<close>: flags, local side, remote side, listening port, transmit flags and values.\<close>

definition cm_message ::
    "int \<Rightarrow> qp_side \<Rightarrow> qp_side \<Rightarrow> int \<Rightarrow> int \<Rightarrow> int \<Rightarrow> int \<Rightarrow> int \<Rightarrow> bytes result" where
  "cm_message qpinfo_flags loc rem port txmeta_flags dma_length n_transfers rate_ctr =
     bindR (pack_B qpinfo_flags) (\<lambda>f.
     bindR (pack_side loc) (\<lambda>l.
     bindR (pack_side rem) (\<lambda>r.
     bindR (pack_H port) (\<lambda>p.
     bindR (pack_B txmeta_flags) (\<lambda>t.
     bindR (pack_L dma_length) (\<lambda>d.
     bindR (pack_L n_transfers) (\<lambda>n.
     bindR (pack_L rate_ctr) (\<lambda>m.
       Inr (f @ l @ r @ p @ t @ d @ n @ m)))))))))"

definition qp_flags :: "int \<Rightarrow> int \<Rightarrow> int \<Rightarrow> int" where
  \<comment> \<open>\<open>valid | (REQ_TYPE << 1) | (0 << 4) | (ACK_TYPE << 5)\<close>\<close>
  "qp_flags valid REQ_TYPE ACK_TYPE = valid OR shl REQ_TYPE 1 OR shl 0 4 OR shl ACK_TYPE 5"

definition request_qp_info :: "int \<Rightarrow> int \<Rightarrow> int \<Rightarrow> int \<Rightarrow> int \<Rightarrow> int \<Rightarrow> datagram result" where
  "request_qp_info rem_ip_addr loc_ip_addr loc_qpn loc_psn loc_r_key loc_base_addr =
     bindR (cm_message (qp_flags 0x1 REQ_OPEN_QP ACK_NULL)
       \<lparr>qpn = loc_qpn, psn = loc_psn, r_key = loc_r_key, base_addr = loc_base_addr,
        ip_addr = loc_ip_addr\<rparr>
       \<lparr>qpn = 0x0, psn = 0x0, r_key = 0x0, base_addr = 0x0, ip_addr = rem_ip_addr\<rparr>
       LISTENING_UDP_PORT 0x0 0x0 0x0 0x0) (\<lambda>MESSAGE.
       Inr \<lparr>dg_payload = MESSAGE, dg_ip = rem_ip_addr, dg_port = REM_UDP_PORT\<rparr>)"

definition send_qp_info :: "qp_side \<Rightarrow> qp_side \<Rightarrow> datagram result" where
  "send_qp_info rem loc =
     bindR (cm_message (qp_flags 0x1 REQ_SEND_QP_INFO ACK_NULL) loc rem
              REM_UDP_PORT 0x0 0x0 0x0 0x0) (\<lambda>MESSAGE.
       Inr \<lparr>dg_payload = MESSAGE, dg_ip = ip_addr rem, dg_port = LISTENING_UDP_PORT\<rparr>)"

definition modify_qp_rts :: "qp_side \<Rightarrow> qp_side \<Rightarrow> datagram result" where
  "modify_qp_rts rem loc =
     bindR (cm_message (qp_flags 0x1 REQ_MODIFY_QP_RTS ACK_NULL) loc rem
              LISTENING_UDP_PORT 0x0 0x0 0x0 0x0) (\<lambda>MESSAGE.
       Inr \<lparr>dg_payload = MESSAGE, dg_ip = ip_addr rem, dg_port = REM_UDP_PORT\<rparr>)"

definition close_rem_qp :: "qp_side \<Rightarrow> qp_side \<Rightarrow> datagram result" where
  "close_rem_qp rem loc =
     bindR (cm_message (qp_flags 0x1 REQ_CLOSE_QP ACK_NULL) loc rem
              LISTENING_UDP_PORT 0x0 0x0 0x0 0x0) (\<lambda>MESSAGE.
       Inr \<lparr>dg_payload = MESSAGE, dg_ip = ip_addr rem, dg_port = REM_UDP_PORT\<rparr>)"

definition send_txmeta ::
    "int \<Rightarrow> int \<Rightarrow> int \<Rightarrow> int \<Rightarrow> int \<Rightarrow> int \<Rightarrow> int \<Rightarrow> int \<Rightarrow> int \<Rightarrow> int \<Rightarrow> datagram result" where
  "send_txmeta rem_ip_addr loc_ip_addr rem_qpn loc_qpn rdma_length n_trasnfers msg_wait_ctr
       start_flag immd_flag txtype_flag =
     (let txmeta_flags = 0x1 OR shl start_flag 1 OR shl immd_flag 2 OR shl txtype_flag 3
      in bindR (cm_message (qp_flags 0x0 REQ_NULL ACK_NULL)
           \<lparr>qpn = loc_qpn, psn = 0x0, r_key = 0x0, base_addr = 0x0, ip_addr = loc_ip_addr\<rparr>
           \<lparr>qpn = rem_qpn, psn = 0x0, r_key = 0x0, base_addr = 0x0, ip_addr = rem_ip_addr\<rparr>
           0x0 txmeta_flags rdma_length n_trasnfers msg_wait_ctr) (\<lambda>MESSAGE.
           Inr \<lparr>dg_payload = MESSAGE, dg_ip = rem_ip_addr, dg_port = REM_UDP_PORT\<rparr>))"

section \<open>Replies\<close>

definition REQ_codes :: "int list" where
  "REQ_codes = [0x00, 0x01, 0x02, 0x03, 0x04, 0x07]"

definition ACK_codes :: "int list" where
  "ACK_codes = [0x00, 0x01, 0x02, 0x03, 0x07]"

record cm_info =
  ci_flags :: int
  ci_req_code :: int
  ci_ack_valid :: int
  ci_ack_code :: int
  ci_loc :: qp_side
  ci_rem :: qp_side

definition unpack_side :: "bytes \<Rightarrow> int \<Rightarrow> qp_side result" where
  \<comment> \<open>the five fields of a side, from offset \<open>k\<close> of the payload\<close>
  "unpack_side payload k =
     bindR (unpack_L (pslice payload k (k + 4))) (\<lambda>q.
     bindR (unpack_L (pslice payload (k + 4) (k + 8))) (\<lambda>p.
     bindR (unpack_L (pslice payload (k + 8) (k + 12))) (\<lambda>r.
     bindR (unpack_Q (pslice payload (k + 12) (k + 20))) (\<lambda>b.
     bindR (unpack_L (pslice payload (k + 20) (k + 24))) (\<lambda>i.
       Inr \<lparr>qpn = q, psn = p, r_key = r, base_addr = b, ip_addr = i\<rparr>)))))"

definition decode_udp_packet :: "bytes \<Rightarrow> cm_info result" where
  "decode_udp_packet pkt =
     (let payload = pslice pkt 0 64
      in bindR (unpack_B (pslice payload 0 1)) (\<lambda>qpinfo_flags.
         bindR (unpack_side payload 1) (\<lambda>loc.
         bindR (unpack_side payload 25) (\<lambda>rem.
         let req_code = shr qpinfo_flags 1 AND 0x07;
             ack_valid = shr qpinfo_flags 4 AND 0x01;
             ack_code = shr qpinfo_flags 5 AND 0x07
         in if ack_valid = 1 \<and> ack_code \<noteq> ACK_ACK \<and> ack_code \<notin> set ACK_codes then Inl KeyError
            else if req_code \<notin> set REQ_codes then Inl KeyError
            else Inr \<lparr>ci_flags = qpinfo_flags, ci_req_code = req_code, ci_ack_valid = ack_valid,
                      ci_ack_code = ack_code, ci_loc = loc, ci_rem = rem\<rparr>))))"

section \<open>The command line\<close>

record cm_args =
  rem_ip_addr :: int
  loc_ip_addr :: int
  rem_rkey :: int
  loc_rkey :: int
  rem_base_addr :: int
  loc_base_addr :: int
  rem_qpn :: int
  loc_qpn :: int
  rem_psn :: int
  loc_psn :: int
  tx_length :: int
  nTransfers :: int
  msgrate :: int
  clock :: int
  immediate :: bool
  txtype :: bool
  start :: bool
  request :: int

text \<open>
  \<open>__main__\<close>: the datagrams it sends, and the information it decodes from the reply
  (\<open>None\<close> where it waits for none).  A request it does not handle sends nothing.  The wait
  counter is \<open>np.uint32(clock / msgrate)\<close>; for a non-negative clock below \<open>2^53\<close> and a quotient
  below \<open>2^32\<close> the truncated floating-point quotient is the integer quotient.  \<open>send_txmeta\<close> is
  called without a local QPN, which then has its default \<open>0x12\<close>.
\<close>

definition send_then_decode ::
    "datagram result \<Rightarrow> bytes \<Rightarrow> datagram list \<times> cm_info option result" where
  "send_then_decode d data =
     (case d of
        Inl e \<Rightarrow> ([], Inl e)
      | Inr m \<Rightarrow> ([m], bindR (decode_udp_packet data) (\<lambda>i. Inr (Some i))))"

definition cm_main :: "cm_args \<Rightarrow> bytes \<Rightarrow> datagram list \<times> cm_info option result" where
  "cm_main args data =
     (let loc = \<lparr>qpn = loc_qpn args, psn = loc_psn args, r_key = loc_rkey args,
                 base_addr = loc_base_addr args, ip_addr = loc_ip_addr args\<rparr>;
          rem = \<lparr>qpn = rem_qpn args, psn = 0, r_key = 0, base_addr = 0,
                 ip_addr = rem_ip_addr args\<rparr>
      in if start args then
           (let message_counter_value =
                  (if msgrate args = 0 then 0 else clock args div msgrate args)
            in case send_txmeta (rem_ip_addr args) (loc_ip_addr args) (rem_qpn args) 0x12
                   (tx_length args) (nTransfers args) message_counter_value
                   (of_bool (start args)) (of_bool (immediate args)) (of_bool (txtype args)) of
                 Inl e \<Rightarrow> ([], Inl e)
               | Inr m \<Rightarrow> ([m], Inr None))
         else if request args = REQ_OPEN_QP then
           send_then_decode (request_qp_info (rem_ip_addr args) (loc_ip_addr args) (loc_qpn args)
             (loc_psn args) (loc_rkey args) (loc_base_addr args)) data
         else if request args = REQ_CLOSE_QP then send_then_decode (close_rem_qp rem loc) data
         else if request args = REQ_MODIFY_QP_RTS then
           send_then_decode (modify_qp_rts rem loc) data
         else ([], Inr None))"

text \<open>What a run sends does not depend on the reply: the datagrams alone.\<close>

definition cm_sent :: "cm_args \<Rightarrow> datagram list" where
  "cm_sent args = fst (cm_main args [])"

section \<open>Well-formed sides and the layout of a message\<close>

definition side_ok :: "qp_side \<Rightarrow> bool" where
  "side_ok s \<longleftrightarrow> 0 \<le> qpn s \<and> qpn s < 2 ^ 32 \<and> 0 \<le> psn s \<and> psn s < 2 ^ 32
     \<and> 0 \<le> r_key s \<and> r_key s < 2 ^ 32 \<and> 0 \<le> base_addr s \<and> base_addr s < 2 ^ 64
     \<and> 0 \<le> ip_addr s \<and> ip_addr s < 2 ^ 32"

definition side_bytes :: "qp_side \<Rightarrow> bytes" where
  "side_bytes s = be_bytes 4 (qpn s) @ be_bytes 4 (psn s) @ be_bytes 4 (r_key s) @
     be_bytes 8 (base_addr s) @ be_bytes 4 (ip_addr s)"

lemma length_side_bytes [simp]: "length (side_bytes s) = 24"
  by (simp add: side_bytes_def)

lemma pack_side_eq: "pack_side s = (if side_ok s then Inr (side_bytes s) else Inl StructError)"
  by (auto simp: pack_side_def side_ok_def side_bytes_def pack_be_def bindR_def)

lemma unpack_side_bytes:
  assumes "side_ok s" and "length pre = n"
  shows "unpack_side (pre @ side_bytes s @ post) (int n) = Inr s"
proof -
  have "nat (int n + k) = n + nat k" if "0 \<le> k" for k
    using that by simp
  then show ?thesis
    using assms by (simp add: unpack_side_def side_bytes_def side_ok_def)
qed

text \<open>The message as one list of fields, and exactly when \<open>struct.pack\<close> accepts them all.\<close>

definition u_ok :: "nat \<Rightarrow> int \<Rightarrow> bool" where
  "u_ok n x \<longleftrightarrow> 0 \<le> x \<and> x < 256 ^ n"

definition cm_bytes :: "int \<Rightarrow> qp_side \<Rightarrow> qp_side \<Rightarrow> int \<Rightarrow> int \<Rightarrow> int \<Rightarrow> int \<Rightarrow> int \<Rightarrow> bytes" where
  "cm_bytes f loc rem port t d n m =
     be_bytes 1 f @ side_bytes loc @ side_bytes rem @ be_bytes 2 port @ be_bytes 1 t @
     be_bytes 4 d @ be_bytes 4 n @ be_bytes 4 m"

lemma pack_be_u_ok: "pack_be n x = (if u_ok n x then Inr (be_bytes n x) else Inl StructError)"
  by (simp add: pack_be_def u_ok_def)

lemma cm_message_eq:
  "cm_message f loc rem port t d n m =
     (if u_ok 1 f \<and> side_ok loc \<and> side_ok rem \<and> u_ok 2 port \<and> u_ok 1 t \<and> u_ok 4 d \<and> u_ok 4 n
         \<and> u_ok 4 m
      then Inr (cm_bytes f loc rem port t d n m) else Inl StructError)"
  by (simp add: cm_message_def cm_bytes_def pack_be_u_ok pack_side_eq)

lemma length_cm_bytes [simp]: "length (cm_bytes f loc rem port t d n m) = 64"
  by (simp add: cm_bytes_def)

lemma decode_cm_bytes:
  assumes "u_ok 1 f" "side_ok loc" "side_ok rem"
  shows "decode_udp_packet (cm_bytes f loc rem port t d n m) =
    (if (f div 16) mod 2 = 1 \<and> f div 32 mod 8 \<notin> set ACK_codes then Inl KeyError
     else if f div 2 mod 8 \<notin> set REQ_codes then Inl KeyError
     else Inr \<lparr>ci_flags = f, ci_req_code = f div 2 mod 8, ci_ack_valid = f div 16 mod 2,
               ci_ack_code = f div 32 mod 8, ci_loc = loc, ci_rem = rem\<rparr>)"
proof -
  let ?tl = "be_bytes 2 port @ be_bytes 1 t @ be_bytes 4 d @ be_bytes 4 n @ be_bytes 4 m"
  have pay: "pslice (cm_bytes f loc rem port t d n m) 0 64 = cm_bytes f loc rem port t d n m"
    by simp
  have fl: "unpack_B (pslice (cm_bytes f loc rem port t d n m) 0 1) = Inr f"
    using assms(1) by (simp add: cm_bytes_def u_ok_def)
  have l: "unpack_side (cm_bytes f loc rem port t d n m) 1 = Inr loc"
    using unpack_side_bytes [OF assms(2), of "be_bytes 1 f" 1 "side_bytes rem @ ?tl"]
    by (simp add: cm_bytes_def)
  have r: "unpack_side (cm_bytes f loc rem port t d n m) 25 = Inr rem"
    using unpack_side_bytes [OF assms(3), of "be_bytes 1 f @ side_bytes loc" 25 ?tl]
    by (simp add: cm_bytes_def)
  show ?thesis
    unfolding decode_udp_packet_def Let_def pay fl l r bindR_Inr
    by (simp add: bits_arith ACK_ACK_def ACK_codes_def)
qed

lemma qp_flags_values:
  "qp_flags 1 REQ_OPEN_QP ACK_NULL = 3" "qp_flags 1 REQ_SEND_QP_INFO ACK_NULL = 5"
  "qp_flags 1 REQ_MODIFY_QP_RTS ACK_NULL = 7" "qp_flags 1 REQ_CLOSE_QP ACK_NULL = 9"
  "qp_flags 0 REQ_NULL ACK_NULL = 0"
  by (simp_all add: qp_flags_def cm_consts)

lemma txmeta_flags_value:
  "(1 :: int) OR shl (of_bool a) 1 OR shl (of_bool b) 2 OR shl (of_bool c) 3 =
     1 + 2 * of_bool a + 4 * of_bool b + 8 * of_bool c"
  by (cases a; cases b; cases c) simp_all

lemma txmeta_flag_bits:
  fixes st im ty :: bool
  defines "t \<equiv> word_of_int (1 + 2 * of_bool st + 4 * of_bool im + 8 * of_bool ty) :: byte"
  shows "bit t 0 \<and> bit t 1 = st \<and> bit t 2 = im \<and> bit t 3 = ty \<and> drop_bit 4 t = 0"
proof -
  have "\<forall>a b c. let t = word_of_int (1 + 2 * of_bool a + 4 * of_bool b + 8 * of_bool c) :: byte
      in bit t 0 \<and> bit t 1 = a \<and> bit t 2 = b \<and> bit t 3 = c \<and> drop_bit 4 t = 0"
    by code_simp
  then show ?thesis unfolding t_def Let_def by blast
qed

lemmas cm_request_defs =
  request_qp_info_def send_qp_info_def modify_qp_rts_def close_rem_qp_def

section \<open>Properties\<close>

text \<open>
  C23: a message with the two sides filled in decodes to those two sides: \<open>decode_udp_packet\<close>
  applied to what \<open>send_qp_info\<close>, \<open>modify_qp_rts\<close> or \<open>close_rem_qp\<close> sends gives both sides back,
  the request code of the operation, and no acknowledge; the datagram is 64 octets long and goes
  to the remote address.
\<close>

theorem cm_requests_decode:
  assumes "side_ok loc" "side_ok rem"
  shows "\<exists>a b c.
    send_qp_info rem loc = Inr a \<and> modify_qp_rts rem loc = Inr b \<and> close_rem_qp rem loc = Inr c
    \<and> map (length \<circ> dg_payload) [a, b, c] = [64, 64, 64]
    \<and> map dg_ip [a, b, c] = replicate 3 (ip_addr rem)
    \<and> map dg_port [a, b, c] = [LISTENING_UDP_PORT, REM_UDP_PORT, REM_UDP_PORT]
    \<and> map (decode_udp_packet \<circ> dg_payload) [a, b, c] =
        map (\<lambda>req. Inr \<lparr>ci_flags = 1 + 2 * req, ci_req_code = req, ci_ack_valid = 0,
                         ci_ack_code = 0, ci_loc = loc, ci_rem = rem\<rparr>)
          [REQ_SEND_QP_INFO, REQ_MODIFY_QP_RTS, REQ_CLOSE_QP]"
  using assms
  by (simp add: cm_request_defs cm_message_eq qp_flags_values u_ok_def decode_cm_bytes
      numeral_3_eq_3) (simp add: cm_consts REQ_codes_def)

theorem cm_requests_decode_witness:
  "\<exists>b. modify_qp_rts
     \<lparr>qpn = 0x11, psn = 0, r_key = 0, base_addr = 0, ip_addr = 0x1601D40B\<rparr>
     \<lparr>qpn = 0x12, psn = 5, r_key = 0x234, base_addr = 0x12341242, ip_addr = 0x1601D40A\<rparr> = Inr b
   \<and> length (dg_payload b) = 64"
  using cm_requests_decode
    [of "\<lparr>qpn = 0x12, psn = 5, r_key = 0x234, base_addr = 0x12341242, ip_addr = 0x1601D40A\<rparr>"
        "\<lparr>qpn = 0x11, psn = 0, r_key = 0, base_addr = 0, ip_addr = 0x1601D40B\<rparr>"]
  by (auto simp: side_ok_def)

text \<open>
  A four-octet field of which the message table of the hardware uses the low 24 bits: the first
  octet is its zero padding exactly when the value is below \<open>2 ^ 24\<close>, and the other three hold the
  value modulo \<open>2 ^ 24\<close>.
\<close>

definition fits_24 :: "bytes \<Rightarrow> int \<Rightarrow> bool" where
  "fits_24 bs x \<longleftrightarrow> (bs ! 0 = 0 \<longleftrightarrow> x < 2 ^ 24) \<and> be_val (drop 1 bs) = x mod 2 ^ 24"

lemma be_bytes_Suc: "be_bytes (Suc n) x = word_of_int (x div 256 ^ n) # be_bytes n x"
proof -
  have "le_bytes (Suc n) x = le_bytes n x @ [word_of_int (x div 256 ^ n)]"
    by (induction n arbitrary: x) (simp_all add: zdiv_zmult2_eq)
  then show ?thesis by (simp add: be_bytes_def)
qed

lemma be_bytes_zero: "be_bytes n 0 = replicate n 0"
proof -
  have "le_bytes n 0 = replicate n 0" by (induction n) simp_all
  then show ?thesis by (simp add: be_bytes_def)
qed

lemma be_bytes_one: "be_bytes (Suc 0) x = [word_of_int x]"
  by (simp add: be_bytes_def)

lemma be_bytes_4_fits_24:
  assumes "u_ok 4 x"
  shows "fits_24 (be_bytes 4 x) x"
proof -
  have b: "be_bytes 4 x = word_of_int (x div 2 ^ 24) # be_bytes 3 x"
    using be_bytes_Suc [of 3 x] by simp
  have rng: "0 \<le> x div 2 ^ 24" "x div 2 ^ 24 < 256" using assms by (auto simp: u_ok_def)
  have "(word_of_int (x div 2 ^ 24) :: byte) = 0 \<longleftrightarrow> x div 2 ^ 24 = 0"
    using rng by (auto simp: word_of_int_eq_0_iff take_bit_eq_mod dest: zdvd_imp_le)
  also have "\<dots> \<longleftrightarrow> x < 2 ^ 24" using assms by (auto simp: u_ok_def)
  finally show ?thesis by (simp add: fits_24_def b be_val_be_bytes)
qed

text \<open>
  C24: the transmit command, octet by octet, as the message table of the connection manager
  (\<open>udp_RoCE_connection_manager_rx.sv\<close>) has it: octet 0, without a QP operation, is zero; the local
  QPN and IP address at 1 and 21, the remote ones at 25 and 45; the fields it does not use (PSN, key
  and base address of both sides, the listening port) are zero; octet 51 has the valid, start,
  immediate and type bits and nothing else; then transfer length, number of transfers and wait
  counter; 64 octets in all.  The table has 24 bits for a QPN, behind an octet of zero padding: that
  octet is zero exactly when the QPN is below \<open>2 ^ 24\<close>, and the 24 bits hold it modulo \<open>2 ^ 24\<close>.
\<close>

theorem send_txmeta_layout:
  assumes "u_ok 4 rem_ip" "u_ok 4 loc_ip" "u_ok 4 rq" "u_ok 4 lq" "u_ok 4 len" "u_ok 4 n" "u_ok 4 w"
  shows "\<exists>m t. send_txmeta rem_ip loc_ip rq lq len n w (of_bool st) (of_bool im) (of_bool ty) =
      Inr \<lparr>dg_payload = m, dg_ip = rem_ip, dg_port = REM_UDP_PORT\<rparr>
    \<and> m = [0] @ be_bytes 4 lq @ replicate 16 0 @ be_bytes 4 loc_ip
          @ be_bytes 4 rq @ replicate 16 0 @ be_bytes 4 rem_ip
          @ [0, 0] @ [t] @ be_bytes 4 len @ be_bytes 4 n @ be_bytes 4 w
    \<and> length m = 64 \<and> m ! 0 = 0
    \<and> be_val (pslice m 1 5) = lq \<and> be_val (pslice m 21 25) = loc_ip
    \<and> be_val (pslice m 25 29) = rq \<and> be_val (pslice m 45 49) = rem_ip
    \<and> fits_24 (pslice m 1 5) lq \<and> fits_24 (pslice m 25 29) rq
    \<and> bit (m ! 51) 0 \<and> bit (m ! 51) 1 = st \<and> bit (m ! 51) 2 = im \<and> bit (m ! 51) 3 = ty
    \<and> drop_bit 4 (m ! 51) = 0
    \<and> be_val (pslice m 52 56) = len \<and> be_val (pslice m 56 60) = n \<and> be_val (pslice m 60 64) = w"
proof -
  let ?t = "1 + 2 * of_bool st + 4 * of_bool im + 8 * of_bool ty :: int"
  let ?l = "\<lparr>qpn = lq, psn = 0, r_key = 0, base_addr = 0, ip_addr = loc_ip\<rparr>"
  let ?r = "\<lparr>qpn = rq, psn = 0, r_key = 0, base_addr = 0, ip_addr = rem_ip\<rparr>"
  let ?m = "cm_bytes 0 ?l ?r 0 ?t len n w"
  have t: "u_ok 1 ?t"
    by (auto simp: u_ok_def of_bool_def)
  have "send_txmeta rem_ip loc_ip rq lq len n w (of_bool st) (of_bool im) (of_bool ty) =
      Inr \<lparr>dg_payload = ?m, dg_ip = rem_ip, dg_port = REM_UDP_PORT\<rparr>"
    using assms t
    by (simp add: send_txmeta_def cm_message_eq qp_flags_values txmeta_flags_value)
      (simp add: u_ok_def side_ok_def)
  moreover have "?m = [0] @ be_bytes 4 lq @ replicate 16 0 @ be_bytes 4 loc_ip
      @ be_bytes 4 rq @ replicate 16 0 @ be_bytes 4 rem_ip
      @ [0, 0] @ [word_of_int ?t] @ be_bytes 4 len @ be_bytes 4 n @ be_bytes 4 w"
    by (simp add: cm_bytes_def side_bytes_def be_bytes_zero be_bytes_one numeral_eq_Suc)
  moreover have "?m ! 51 = word_of_int ?t" and "?m ! 0 = 0"
    by (simp_all add: cm_bytes_def nth_append side_bytes_def be_bytes_def)
  moreover have "bit (word_of_int ?t :: byte) 0 \<and> bit (word_of_int ?t :: byte) 1 = st
      \<and> bit (word_of_int ?t :: byte) 2 = im \<and> bit (word_of_int ?t :: byte) 3 = ty
      \<and> drop_bit 4 (word_of_int ?t :: byte) = 0"
    by (rule txmeta_flag_bits)
  moreover have "be_val (pslice ?m 1 5) = lq \<and> be_val (pslice ?m 21 25) = loc_ip
      \<and> be_val (pslice ?m 25 29) = rq \<and> be_val (pslice ?m 45 49) = rem_ip
      \<and> be_val (pslice ?m 52 56) = len \<and> be_val (pslice ?m 56 60) = n
      \<and> be_val (pslice ?m 60 64) = w"
    using assms by (simp add: cm_bytes_def side_bytes_def be_val_be_bytes u_ok_def)
  moreover have "pslice ?m 1 5 = be_bytes 4 lq" "pslice ?m 25 29 = be_bytes 4 rq"
    by (simp_all add: cm_bytes_def side_bytes_def)
  then have "fits_24 (pslice ?m 1 5) lq" "fits_24 (pslice ?m 25 29) rq"
    using be_bytes_4_fits_24 assms(3,4) by simp_all
  ultimately show ?thesis
    by (intro exI [of _ ?m] exI [of _ "word_of_int ?t"]) (simp del: append.simps replicate.simps)
qed

theorem send_txmeta_layout_witness:
  "\<exists>m. send_txmeta 0x1601D40B 0x1601D40A 0x11 0x12 128 1 0 1 0 1 =
      Inr \<lparr>dg_payload = m, dg_ip = 0x1601D40B, dg_port = REM_UDP_PORT\<rparr>
    \<and> bit (m ! 51) 3 \<and> be_val (pslice m 52 56) = 128"
  using send_txmeta_layout
    [of "0x1601D40B" "0x1601D40A" "0x11" "0x12" 128 1 0 True False True]
  by (auto simp: u_ok_def)

text \<open>
  C39: an open request: \<open>request_qp_info\<close> raises \<open>struct.error\<close> exactly when a field does not fit
  its \<open>struct\<close> format (4 octets, 8 for the base address), and otherwise sends 64 octets from which
  the script's own decoder reads the local side, the remote address and the open request.  The
  hardware's message table has 24 bits for QPN and PSN, behind an octet of zero padding, and the
  script does not check that width: from \<open>2 ^ 24\<close> on the excess is sent in the padding, and the
  24-bit fields hold the value modulo \<open>2 ^ 24\<close>.
\<close>

theorem request_qp_info_checks:
  "case request_qp_info rip lip q p k b of
     Inl e \<Rightarrow> e = StructError
       \<and> \<not> (u_ok 4 rip \<and> u_ok 4 lip \<and> u_ok 4 q \<and> u_ok 4 p \<and> u_ok 4 k \<and> u_ok 8 b)
   | Inr d \<Rightarrow> u_ok 4 rip \<and> u_ok 4 lip \<and> u_ok 4 q \<and> u_ok 4 p \<and> u_ok 4 k \<and> u_ok 8 b
       \<and> dg_ip d = rip \<and> dg_port d = REM_UDP_PORT \<and> length (dg_payload d) = 64
       \<and> be_val (pslice (dg_payload d) 49 51) = LISTENING_UDP_PORT
       \<and> fits_24 (pslice (dg_payload d) 1 5) q \<and> fits_24 (pslice (dg_payload d) 5 9) p
       \<and> decode_udp_packet (dg_payload d) = Inr
           \<lparr>ci_flags = 3, ci_req_code = REQ_OPEN_QP, ci_ack_valid = 0, ci_ack_code = 0,
            ci_loc = \<lparr>qpn = q, psn = p, r_key = k, base_addr = b, ip_addr = lip\<rparr>,
            ci_rem = \<lparr>qpn = 0, psn = 0, r_key = 0, base_addr = 0, ip_addr = rip\<rparr>\<rparr>"
proof (cases "u_ok 4 rip \<and> u_ok 4 lip \<and> u_ok 4 q \<and> u_ok 4 p \<and> u_ok 4 k \<and> u_ok 8 b")
  case True
  let ?l = "\<lparr>qpn = q, psn = p, r_key = k, base_addr = b, ip_addr = lip\<rparr>"
  let ?r = "\<lparr>qpn = 0, psn = 0, r_key = 0, base_addr = 0, ip_addr = rip\<rparr>"
  let ?m = "cm_bytes 3 ?l ?r LISTENING_UDP_PORT 0 0 0 0"
  have ok: "side_ok ?l" "side_ok ?r"
    using True by (simp_all add: side_ok_def u_ok_def)
  have "request_qp_info rip lip q p k b =
      Inr \<lparr>dg_payload = ?m, dg_ip = rip, dg_port = REM_UDP_PORT\<rparr>"
    using ok by (simp add: request_qp_info_def cm_message_eq qp_flags_values)
      (simp add: u_ok_def cm_consts)
  moreover have "be_val (pslice ?m 49 51) = LISTENING_UDP_PORT"
    by (simp add: cm_bytes_def be_val_be_bytes cm_consts)
  moreover have "pslice ?m 1 5 = be_bytes 4 q" "pslice ?m 5 9 = be_bytes 4 p"
    by (simp_all add: cm_bytes_def side_bytes_def)
  then have "fits_24 (pslice ?m 1 5) q" "fits_24 (pslice ?m 5 9) p"
    using be_bytes_4_fits_24 True by simp_all
  moreover have "decode_udp_packet ?m = Inr \<lparr>ci_flags = 3, ci_req_code = REQ_OPEN_QP,
      ci_ack_valid = 0, ci_ack_code = 0, ci_loc = ?l, ci_rem = ?r\<rparr>"
    using ok by (simp add: decode_cm_bytes u_ok_def cm_consts REQ_codes_def)
  ultimately show ?thesis using True by simp
next
  case False
  then have "\<not> (side_ok \<lparr>qpn = q, psn = p, r_key = k, base_addr = b, ip_addr = lip\<rparr>
      \<and> side_ok \<lparr>qpn = 0, psn = 0, r_key = 0, base_addr = 0, ip_addr = rip\<rparr>)"
    by (simp add: side_ok_def u_ok_def) linarith
  then have "request_qp_info rip lip q p k b = Inl StructError"
    by (auto simp: request_qp_info_def cm_message_eq)
  then show ?thesis using False by simp
qed

text \<open>
  the reply decoder on every input: a packet shorter than 49 octets raises \<open>struct.error\<close>; a
  longer one raises \<open>KeyError\<close> for a request code without a name, or for an acknowledge flagged
  valid whose code has none; everything else decodes, whatever octets 49 and later hold.
\<close>

theorem decode_udp_packet_outcomes:
  "decode_udp_packet pkt =
     (if length pkt < 49 then Inl StructError
      else let f = uint (pkt ! 0); req = f div 2 mod 8; ack = f div 32
        in if req \<in> {5, 6} \<or> (f div 16 mod 2 = 1 \<and> ack \<in> {4, 5, 6}) then Inl KeyError
           else Inr \<lparr>ci_flags = f, ci_req_code = req, ci_ack_valid = f div 16 mod 2,
             ci_ack_code = ack,
             ci_loc = \<lparr>qpn = be_val (pslice pkt 1 5), psn = be_val (pslice pkt 5 9),
               r_key = be_val (pslice pkt 9 13), base_addr = be_val (pslice pkt 13 21),
               ip_addr = be_val (pslice pkt 21 25)\<rparr>,
             ci_rem = \<lparr>qpn = be_val (pslice pkt 25 29), psn = be_val (pslice pkt 29 33),
               r_key = be_val (pslice pkt 33 37), base_addr = be_val (pslice pkt 37 45),
               ip_addr = be_val (pslice pkt 45 49)\<rparr>\<rparr>)"
proof (cases "length pkt < 49")
  case True
  then show ?thesis
    by (auto simp: decode_udp_packet_def unpack_side_def unpack_be_def Let_def bindR_def
        drop_take min_def split: if_splits)
next
  case False
  let ?f = "uint (pkt ! 0)"
  have f: "unpack_B (pslice (pslice pkt 0 64) 0 1) = Inr ?f"
    using False by (cases pkt) (auto simp: unpack_be_def be_val_def)
  have rng: "0 \<le> ?f" "?f < 256"
    using uint_lt2p [of "pkt ! 0"] by simp_all
  have codes: "x \<notin> set ACK_codes \<longleftrightarrow> x \<in> {4, 5, 6}" "x \<notin> set REQ_codes \<longleftrightarrow> x \<in> {5, 6}"
    if "0 \<le> x" "x < 8" for x
    using that by (auto simp: ACK_codes_def REQ_codes_def)
  have ack: "?f div 32 mod 8 = ?f div 32" "0 \<le> ?f div 32" "?f div 32 < 8"
    using rng by (auto simp: pos_imp_zdiv_nonneg_iff intro!: mod_pos_pos_trivial)
  show ?thesis
    using False rng unfolding decode_udp_packet_def f bindR_Inr Let_def
    by (simp add: unpack_side_def unpack_be_length drop_take bits_arith codes ack ACK_ACK_def)
qed

text \<open>
  one run of the script sends at most one datagram; it is 64 octets long, goes to the
  connection-manager port of the remote address, and is a transmit command exactly when
  \<open>--start\<close> is given, and otherwise the message of the request asked for: open, modify or close.
  Nothing is sent when a field is out of range, and for the other request codes.
\<close>

theorem cm_main_sends:
  "fst (cm_main args data) = cm_sent args
   \<and> length (cm_sent args) \<le> 1
   \<and> list_all (\<lambda>d. length (dg_payload d) = 64 \<and> dg_ip d = rem_ip_addr args
         \<and> dg_port d = REM_UDP_PORT
         \<and> uint (dg_payload d ! 0) = (if start args then 0 else 1 + 2 * request args)
         \<and> bit (dg_payload d ! 51) 0 = start args) (cm_sent args)
   \<and> (cm_sent args = [] \<longleftrightarrow>
        snd (cm_main args data) = Inl StructError \<and> fst (cm_main args data) = []
        \<or> \<not> start args \<and> request args \<notin> {REQ_OPEN_QP, REQ_MODIFY_QP_RTS, REQ_CLOSE_QP})"
proof -
  have hd: "uint (cm_bytes f l r p t a b c ! 0) = f mod 256" for f l r p t a b c
    by (simp add: cm_bytes_def be_bytes_def)
  have t51: "cm_bytes f l r p t a b c ! 51 = word_of_int t" for f l r p t a b c
    by (simp add: cm_bytes_def nth_append be_bytes_def)
  note msg = cm_message_eq qp_flags_values qp_flags_values [unfolded cm_consts] hd t51
    send_then_decode_def Let_def
  consider "start args" | "\<not> start args" "request args = 1" | "\<not> start args" "request args = 3"
    | "\<not> start args" "request args = 4" | "\<not> start args" "request args \<notin> {1, 3, 4}" by blast
  then show ?thesis
  proof cases
    case 1
    then show ?thesis
      using txmeta_flag_bits [of True "immediate args" "txtype args"]
        txmeta_flags_value [of True "immediate args" "txtype args"]
      by (simp add: cm_sent_def cm_main_def Let_def send_txmeta_def msg)
  qed (simp_all add: cm_sent_def cm_main_def msg cm_request_defs REQ_OPEN_QP_def REQ_CLOSE_QP_def
      REQ_MODIFY_QP_RTS_def ACK_NULL_def)
qed

end
