(* ===== verification/Pause_Frame.thy ===== *)
theory Pause_Frame
  imports Crc32
begin

text \<open>
  The priority flow control frame of \<open>Scripts/Send_pause_frame.py\<close>.  The MAC address of the
  sending device, which the script asks the kernel for, and the two command-line values are
  arguments; the result is the byte string handed to the raw socket.  The theorems give the
  layout of the frame and show that the check sequence at its end is the one a receiver accepts:
  its own register over the whole frame ends in the CRC-32 residue.
\<close>

section \<open>Building the frame\<close>

definition BROADCAST_MAC_ADDR :: int where "BROADCAST_MAC_ADDR = 0x0180C2000001"
definition ETHER_TYPE :: int where "ETHER_TYPE = 0x8808"
definition OPCODE :: int where "OPCODE = 0x0101"

text \<open>\<open>for i in range(n): MESSAGE += struct.pack(fmt, x)\<close>\<close>

fun append_n :: "nat \<Rightarrow> bytes result \<Rightarrow> bytes \<Rightarrow> bytes result" where
  "append_n 0 field m = Inr m"
| "append_n (Suc i) field m = bindR field (\<lambda>b. append_n i field (m @ b))"

definition pause_message :: "int \<Rightarrow> int \<Rightarrow> int \<Rightarrow> bytes result" where
  "pause_message SOURCE_MAC_ADDR CEV PAUSE_TIME =
     bindR (pack_Q BROADCAST_MAC_ADDR) (\<lambda>dest.
     bindR (pack_Q SOURCE_MAC_ADDR) (\<lambda>src.
     bindR (pack_H ETHER_TYPE) (\<lambda>type.
     bindR (pack_H OPCODE) (\<lambda>opcode.
     bindR (pack_H CEV) (\<lambda>cev.
     bindR (append_n 8 (pack_H PAUSE_TIME)
              (pslice_from dest (-6) @ pslice_from src (-6) @ type @ opcode @ cev)) (\<lambda>MESSAGE.
     bindR (append_n 28 (pack_B 0) MESSAGE) (\<lambda>MESSAGE.
     bindR (fcs_ethernet MESSAGE) (\<lambda>FCS.
       Inr (MESSAGE @ FCS)))))))))"

definition pause_frame :: "int \<Rightarrow> int \<Rightarrow> int \<Rightarrow> bytes" where
  \<comment> \<open>the frame without its check sequence, as a layout\<close>
  "pause_frame mac cev quanta =
     be_bytes 6 0x0180C2000001 @ be_bytes 6 mac @ be_bytes 2 0x8808 @ be_bytes 2 0x0101 @
     be_bytes 2 cev @ concat (replicate 8 (be_bytes 2 quanta)) @ replicate 28 0"

section \<open>The check sequence\<close>

lemma append_n_Inr: "append_n n (Inr b) m = Inr (m @ concat (replicate n b))"
  by (induction n arbitrary: m) simp_all

lemma append_n_Inl: "append_n n (Inl e) m = (if n = 0 then Inr m else Inl e)"
  by (cases n) simp_all

lemma zlib_crc32_range: "0 \<le> zlib_crc32 bs" "zlib_crc32 bs < 2 ^ 32"
  using uint_lt2p [of "NOT (crc32_update 0xFFFFFFFF bs)"] by (simp_all add: zlib_crc32_def)

lemma fcs_ethernet_eq: "fcs_ethernet data = Inr (le_bytes 4 (zlib_crc32 data))"
  using zlib_crc32_range [of data] by (simp add: fcs_ethernet_def bits_arith Let_def)

lemma crc_residue:
  "crc32_update 0xFFFFFFFF (data @ le_bytes 4 (zlib_crc32 data)) = 0xDEBB20E3"
proof -
  let ?c = "crc32_update 0xFFFFFFFF data"
  have "crc32_update 0xFFFFFFFF (data @ le_bytes 4 (zlib_crc32 data)) =
      (crc_bit ^^ 32) (?c XOR NOT ?c)"
    by (simp add: zlib_crc32_def crc32_update_le_bytes)
  also have "?c XOR NOT ?c = 0xFFFFFFFF"
    by simp
  finally show ?thesis by (simp only: crc_bits_ones)
qed

lemma pause_message_eq:
  "pause_message mac cev quanta =
     (if 0 \<le> mac \<and> mac < 2 ^ 64 \<and> 0 \<le> cev \<and> cev < 2 ^ 16 \<and> 0 \<le> quanta \<and> quanta < 2 ^ 16
      then Inr (pause_frame mac cev quanta @
                le_bytes 4 (zlib_crc32 (pause_frame mac cev quanta)))
      else Inl StructError)"
proof -
  have six: "pslice_from (be_bytes 8 x) (-6) = be_bytes 6 x" for x
    using pslice_from_neg [of 6 "be_bytes 8 x"] by (simp add: drop_be_bytes)
  have zero: "be_bytes 1 0 = [0]" "be_bytes (Suc 0) 0 = [0]"
    by (simp_all add: be_bytes_def)
  have pad: "concat (replicate n [x]) = replicate n x" for n and x :: byte
    by (induction n) simp_all
  show ?thesis
    unfolding pause_message_def pause_frame_def pack_be_def
    by (simp add: six append_n_Inr append_n_Inl fcs_ethernet_eq zero pad
        BROADCAST_MAC_ADDR_def ETHER_TYPE_def OPCODE_def)
qed

section \<open>Properties\<close>

text \<open>
  the check sequence that \<open>fcs_ethernet\<close> returns is accepted by an Ethernet receiver: the
  CRC-32 register over any data followed by the check sequence of that data ends in the residue
  \<open>0xDEBB20E3\<close>, and no other four bytes at that place are accepted.
\<close>

theorem fcs_ethernet_residue:
  "\<exists>fcs. fcs_ethernet data = Inr fcs \<and> length fcs = 4
    \<and> (\<forall>w :: 32 word. crc32_update 0xFFFFFFFF (data @ le_bytes 4 (uint w)) = 0xDEBB20E3 \<longleftrightarrow>
            le_bytes 4 (uint w) = fcs)"
proof (intro exI conjI allI)
  show "fcs_ethernet data = Inr (le_bytes 4 (zlib_crc32 data))" by (rule fcs_ethernet_eq)
  fix w :: "32 word"
  have z: "zlib_crc32 data = uint (NOT (crc32_update 0xFFFFFFFF data))"
    by (simp add: zlib_crc32_def)
  have "crc32_update 0xFFFFFFFF (data @ le_bytes 4 (uint w)) = 0xDEBB20E3 \<longleftrightarrow>
      (crc_bit ^^ 32) (crc32_update 0xFFFFFFFF data XOR w) =
      (crc_bit ^^ 32) (crc32_update 0xFFFFFFFF data XOR NOT (crc32_update 0xFFFFFFFF data))"
    using crc_residue [of data] by (simp add: crc32_update_le_bytes z)
  also have "\<dots> \<longleftrightarrow> w = NOT (crc32_update 0xFFFFFFFF data)"
    by (simp only: crc_bits_inject xor_left_cancel)
  also have "\<dots> \<longleftrightarrow> le_bytes 4 (uint w) = le_bytes 4 (zlib_crc32 data)"
  proof
    assume "le_bytes 4 (uint w) = le_bytes 4 (zlib_crc32 data)"
    then have "le_val (le_bytes 4 (uint w)) = le_val (le_bytes 4 (zlib_crc32 data))" by simp
    then have "uint w = zlib_crc32 data"
      using zlib_crc32_range [of data] uint_lt2p [of w] by (simp add: le_val_le_bytes)
    then show "w = NOT (crc32_update 0xFFFFFFFF data)"
      unfolding z by (rule word_uint_eqI)
  qed (simp add: z)
  finally show "(crc32_update 0xFFFFFFFF (data @ le_bytes 4 (uint w)) = 0xDEBB20E3) =
    (le_bytes 4 (uint w) = le_bytes 4 (zlib_crc32 data))" .
qed simp

text \<open>
  C38: with a MAC address, a priority mask and a pause time that fit their fields, the script sends
  a frame of 66 bytes: the PFC multicast address, the source address, type \<open>0x8808\<close>, opcode
  \<open>0x0101\<close>, the priority mask, the same pause time for all eight priorities and 28 bytes of
  padding, with a check sequence that leaves the receiver's register at the residue.  A mask or
  time of more than 16 bits raises \<open>struct.error\<close> and nothing is sent.
\<close>

theorem pause_message_frame:
  assumes "0 \<le> mac" "mac < 2 ^ 48"
  shows "if 0 \<le> cev \<and> cev < 2 ^ 16 \<and> 0 \<le> quanta \<and> quanta < 2 ^ 16
    then \<exists>m. pause_message mac cev quanta = Inr m \<and> length m = 66
      \<and> be_val (pslice m 0 6) = 0x0180C2000001 \<and> be_val (pslice m 6 12) = mac
      \<and> be_val (pslice m 12 14) = 0x8808 \<and> be_val (pslice m 14 16) = 0x0101
      \<and> be_val (pslice m 16 18) = cev
      \<and> pslice m 18 34 = concat (replicate 8 (be_bytes 2 quanta))
      \<and> pslice m 34 62 = replicate 28 0
      \<and> crc32_update 0xFFFFFFFF m = 0xDEBB20E3
    else pause_message mac cev quanta = Inl StructError"
proof (cases "0 \<le> cev \<and> cev < 2 ^ 16 \<and> 0 \<le> quanta \<and> quanta < 2 ^ 16")
  case True
  let ?f = "pause_frame mac cev quanta"
  let ?m = "?f @ le_bytes 4 (zlib_crc32 ?f)"
  have len: "length (concat (replicate 8 (be_bytes 2 quanta))) = 16"
    by (simp add: length_concat sum_list_replicate)
  have "pause_message mac cev quanta = Inr ?m"
    using assms True by (simp add: pause_message_eq)
  moreover have "length ?m = 66"
    using len by (simp add: pause_frame_def)
  moreover have "be_val (pslice ?m 0 6) = 0x0180C2000001 \<and> be_val (pslice ?m 6 12) = mac
      \<and> be_val (pslice ?m 12 14) = 0x8808 \<and> be_val (pslice ?m 14 16) = 0x0101
      \<and> be_val (pslice ?m 16 18) = cev"
    using assms True by (simp add: pause_frame_def be_val_be_bytes)
  moreover have "pslice ?m 18 34 = concat (replicate 8 (be_bytes 2 quanta))"
    and "pslice ?m 34 62 = replicate 28 0"
    using len by (simp_all add: pause_frame_def del: replicate.simps)
  moreover have "crc32_update 0xFFFFFFFF ?m = 0xDEBB20E3"
    by (rule crc_residue)
  ultimately show ?thesis
    using True by (simp only: if_True simp_thms) (intro exI [of _ ?m] conjI; simp)
qed (use assms in \<open>auto simp: pause_message_eq\<close>)

theorem pause_message_frame_witness:
  "\<exists>m. pause_message 0x020000000001 0x02 512 = Inr m \<and> length m = 66
     \<and> crc32_update 0xFFFFFFFF m = 0xDEBB20E3"
  using pause_message_frame [of "0x020000000001" "0x02" 512] by auto

end
