(* ===== verification/Lanes.thy ===== *)
theory Lanes
  imports Prelude
begin

text \<open>
  Buses carry several lanes side by side: a bus word is the number whose digits in base
  \<open>2^w\<close> are its lanes.  This theory has the arithmetic all bus endpoints share: the value of a
  list of lanes, the lane taken back out of a word by a shift and a mask, the cutting of a frame
  into bus words, and the range check of a signal assignment.
\<close>

section \<open>Signals\<close>

text \<open>
  An \<open>intbv\<close> signal of \<open>n\<close> bits refuses a value out of range with \<open>ValueError\<close>; \<open>None\<close> is the
  unbounded \<open>intbv(0)\<close>.
\<close>

definition fits :: "nat option \<Rightarrow> int \<Rightarrow> bool" where
  "fits w x = (case w of None \<Rightarrow> True | Some n \<Rightarrow> 0 \<le> x \<and> x < 2 ^ n)"

section \<open>Octets and error attributes of media independent interface frames\<close>

text \<open>The attribute \<open>error\<close>: \<open>None\<close>, an integer or Boolean, or a list.\<close>

datatype error_flag = ErrNone | ErrInt int | ErrList "int list"

fun bytes_of :: "int list \<Rightarrow> bytes result" where
  \<comment> \<open>\<open>bytearray(d)\<close>\<close>
  "bytes_of [] = Inr []"
| "bytes_of (x # xs) =
     (if 0 \<le> x \<and> x < 256 then bindR (bytes_of xs) (\<lambda>bs. Inr (word_of_int x # bs)) else Inl ValueError)"

section \<open>Words of lanes\<close>

fun lanes_val :: "nat \<Rightarrow> int list \<Rightarrow> int" where
  "lanes_val w [] = 0"
| "lanes_val w (x # xs) = x + 2 ^ w * lanes_val w xs"

fun chunks :: "nat \<Rightarrow> 'a list \<Rightarrow> 'a list list" where
  "chunks m xs = (if xs = [] \<or> m = 0 then [] else take m xs # chunks m (drop m xs))"

declare chunks.simps [simp del]

definition in_lane :: "nat \<Rightarrow> int \<Rightarrow> bool" where
  "in_lane w x \<longleftrightarrow> 0 \<le> x \<and> x < 2 ^ w"

lemma in_lane_01 [simp]: "in_lane w 0" "in_lane (Suc 0) 1"
  by (simp_all add: in_lane_def)

lemma uint_in_lane [simp]: "in_lane 8 (uint (b :: byte))"
  using uint_lt2p [of b] by (simp add: in_lane_def)

lemma chunks_Nil [simp]: "chunks m [] = []"
  by (simp add: chunks.simps)

lemma chunks_Cons: "0 < m \<Longrightarrow> xs \<noteq> [] \<Longrightarrow> chunks m xs = take m xs # chunks m (drop m xs)"
  by (simp add: chunks.simps)

lemma concat_chunks [simp]: "0 < m \<Longrightarrow> concat (chunks m xs) = xs"
  by (induction m xs rule: chunks.induct) (simp add: chunks.simps)

lemma chunks_eq_Nil [simp]: "0 < m \<Longrightarrow> chunks m xs = [] \<longleftrightarrow> xs = []"
  by (simp add: chunks.simps)

lemma chunks_length: "0 < m \<Longrightarrow> c \<in> set (chunks m xs) \<Longrightarrow> c \<noteq> [] \<and> length c \<le> m"
  by (induction m xs rule: chunks.induct) (subst (asm) (2) chunks.simps, auto split: if_splits)

lemma chunks_full: "0 < m \<Longrightarrow> c \<in> set (butlast (chunks m xs)) \<Longrightarrow> length c = m"
proof (induction m xs rule: chunks.induct)
  case (1 m xs)
  show ?case
  proof (cases "length xs \<le> m")
    case False
    then have "chunks m (drop m xs) \<noteq> []" using 1 by simp
    then have "c = take m xs \<or> c \<in> set (butlast (chunks m (drop m xs)))"
      using 1 False by (subst (asm) (3) chunks.simps) (auto split: if_splits)
    then show ?thesis using 1 False by (cases "xs = []") auto
  qed (use 1 in \<open>auto simp: chunks.simps [of m xs] split: if_splits\<close>)
qed

lemma chunks_in: "c \<in> set (chunks m xs) \<Longrightarrow> set c \<subseteq> set xs"
  by (induction m xs rule: chunks.induct)
    (subst (asm) (2) chunks.simps, auto split: if_splits dest: in_set_takeD in_set_dropD)

lemma chunks_count: "0 < m \<Longrightarrow> length (chunks m xs) = (length xs + m - 1) div m"
proof (induction m xs rule: chunks.induct)
  case (1 m xs)
  show ?case
  proof (cases "length xs \<le> m")
    case True
    then have "(length xs + m - 1) div m = (if xs = [] then 0 else 1)"
      using 1 by (cases xs) (auto intro!: div_nat_eqI)
    then show ?thesis using True 1 by (simp add: chunks.simps [of m xs])
  next
    case False
    then have "length xs + m - 1 = (length xs - m + m - 1) + m" using 1 by simp
    then have "(length xs + m - 1) div m = Suc ((length xs - m + m - 1) div m)"
      using 1 by (metis div_add_self2 Suc_eq_plus1 less_numeral_extra(3))
    moreover have "xs \<noteq> []" using False by auto
    ultimately show ?thesis using 1 by (simp add: chunks.simps [of m xs])
  qed
qed

lemma lanes_val_nonneg: "list_all (in_lane w) xs \<Longrightarrow> 0 \<le> lanes_val w xs"
  by (induction xs) (auto simp: in_lane_def)

lemma lanes_val_digit:
  "list_all (in_lane w) xs \<Longrightarrow> j < length xs \<Longrightarrow> lanes_val w xs div 2 ^ (j * w) mod 2 ^ w = xs ! j"
proof (induction xs arbitrary: j)
  case (Cons x xs)
  then have x: "0 \<le> x" "x < 2 ^ w" by (auto simp: in_lane_def)
  show ?case
  proof (cases j)
    case (Suc i)
    have "lanes_val w (x # xs) div 2 ^ (j * w) = lanes_val w (x # xs) div 2 ^ w div 2 ^ (i * w)"
      using Suc by (simp add: power_add zdiv_zmult2_eq)
    also have "lanes_val w (x # xs) div 2 ^ w = lanes_val w xs"
      using x by simp
    finally show ?thesis using Cons Suc by simp
  qed (use x in simp)
qed simp

lemma or_lane:
  fixes d x :: int
  assumes "0 \<le> d" "d < 2 ^ n"
  shows "d OR shl x n = d + x * 2 ^ n"
  using or_field [OF assms, of x] by (simp add: or.commute add.commute)

lemma in_lane_append [simp]:
  "list_all (in_lane w) (xs @ ys) \<longleftrightarrow> list_all (in_lane w) xs \<and> list_all (in_lane w) ys"
  by simp

lemma lanes_val_append: "lanes_val w (xs @ ys) = lanes_val w xs + 2 ^ (w * length xs) * lanes_val w ys"
  by (induction xs) (simp_all add: power_add algebra_simps)

lemma lanes_val_bound: "list_all (in_lane w) xs \<Longrightarrow> lanes_val w xs < 2 ^ (w * length xs)"
proof (induction xs)
  case (Cons x xs)
  then have "x \<le> 2 ^ w - 1" "lanes_val w xs \<le> 2 ^ (w * length xs) - 1" by (auto simp: in_lane_def)
  then have "x + 2 ^ w * lanes_val w xs \<le> 2 ^ w - 1 + 2 ^ w * (2 ^ (w * length xs) - 1)"
    by (intro add_mono mult_left_mono) auto
  then show ?case by (simp add: power_add algebra_simps)
qed simp

text \<open>The next lane is put above the lanes below it by a shift and an \<open>OR\<close>.\<close>

lemma or_lanes:
  assumes "list_all (in_lane w) xs"
  shows "lanes_val w xs OR shl x (w * length xs) = lanes_val w (xs @ [x])"
  using or_lane [OF lanes_val_nonneg [OF assms] lanes_val_bound [OF assms], of x]
  by (simp add: lanes_val_append mult.commute)

lemma lane_of_word:
  assumes "list_all (in_lane w) xs" "j < length xs"
  shows "shr (lanes_val w xs) (w * j) AND (2 ^ w - 1) = xs ! j"
  using lanes_val_digit [OF assms] by (simp add: and_mask_int shr_arith mult.commute)

end
