(* ===== verification/Axis_Frame.thy ===== *)
theory Axis_Frame
  imports Struct_Codec Lanes
begin

text \<open>
  \<open>AXIStreamFrame\<close> of \<open>lib/eth/lib/axis/tb/axis_ep.py\<close>: a frame of data with its sideband fields,
  \<open>build\<close> that cuts it into bus cycles, \<open>parse\<close> that puts the cycles of a frame together, and the
  comparison the testbenches use.

  An element of the data is an integer, or a list of integers when the bus has several data
  signals (\<open>B > 0\<close>).  A sideband field is \<open>None\<close>, an integer, a Boolean or a list.  The five
  parallel lists that \<open>build\<close> returns always have one length, and are one list of records here;
  \<open>parse\<close> takes the five lists, and keeps the length check.
\<close>

section \<open>Frames\<close>

datatype cell = CInt int | CVec "int list"

datatype axis_data = DBytes bytes | DList "cell list"

datatype sideband = SNone | SInt int | SBool bool | SList "int list"

datatype py_width = WInt nat | WList "nat list"

record axis_frame =
  f_B :: nat
  f_N :: py_width
  f_M :: nat
  f_WL :: py_width
  f_data :: axis_data
  f_keep :: "int list option"
  f_id :: sideband
  f_dest :: sideband
  f_user :: sideband
  f_last_cycle_user :: "int option"

record axis_beat =
  b_data :: cell
  b_keep :: int
  b_id :: int
  b_dest :: int
  b_user :: int

datatype frame_arg = ArgBytes bytes | ArgFrame axis_frame | ArgList "cell list"

definition side_or_zero :: "sideband \<Rightarrow> sideband" where
  \<comment> \<open>the copy of \<open>id\<close> and \<open>dest\<close>: \<open>None\<close> leaves the initial value 0\<close>
  "side_or_zero x = (if x = SNone then SInt 0 else x)"

definition AXIStreamFrame ::
    "frame_arg \<Rightarrow> int list option \<Rightarrow> sideband \<Rightarrow> sideband \<Rightarrow> sideband \<Rightarrow> int option \<Rightarrow> axis_frame" where
  "AXIStreamFrame data keep tid dest user last_cycle_user =
     (case data of
        ArgBytes bs \<Rightarrow>
          \<lparr>f_B = 0, f_N = WInt 8, f_M = 1, f_WL = WInt 8, f_data = DBytes bs, f_keep = keep,
           f_id = tid, f_dest = dest, f_user = user, f_last_cycle_user = last_cycle_user\<rparr>
      | ArgFrame fr \<Rightarrow>
          \<lparr>f_B = 0, f_N = f_N fr, f_M = 1, f_WL = f_WL fr, f_data = f_data fr,
           f_keep = f_keep fr, f_id = side_or_zero (f_id fr), f_dest = side_or_zero (f_dest fr),
           f_user = f_user fr, f_last_cycle_user = f_last_cycle_user fr\<rparr>
      | ArgList xs \<Rightarrow>
          \<lparr>f_B = 0, f_N = WInt 8, f_M = 1, f_WL = WInt 8, f_data = DList xs, f_keep = keep,
           f_id = tid, f_dest = dest, f_user = user, f_last_cycle_user = last_cycle_user\<rparr>)"

text \<open>\<open>AXIStreamFrame(data)\<close> with the other arguments at their default \<open>None\<close>.\<close>

abbreviation axis_frame_of :: "frame_arg \<Rightarrow> axis_frame" where
  "axis_frame_of data \<equiv> AXIStreamFrame data None SNone SNone SNone None"

definition cells_of :: "axis_data \<Rightarrow> cell list" where
  \<comment> \<open>\<open>list(self.data)\<close>\<close>
  "cells_of d = (case d of DBytes bs \<Rightarrow> map (CInt \<circ> uint) bs | DList cs \<Rightarrow> cs)"

section \<open>build\<close>

text \<open>
  One bus cycle on a single data signal: up to \<open>M\<close> elements, \<open>WL\<close> bits each, lowest lane first.
  The first argument counts the iterations left of \<open>for j in range(self.M)\<close>.
\<close>

fun pack_cycle :: "nat \<Rightarrow> nat \<Rightarrow> py_width \<Rightarrow> int \<Rightarrow> int \<Rightarrow> cell list \<Rightarrow> (int \<times> int \<times> cell list) result"
where
  "pack_cycle 0 j WL data keep f = Inr (data, keep, f)"
| "pack_cycle (Suc k) j WL data keep [] = Inl IndexError"
| "pack_cycle (Suc k) j (WInt w) data keep (CInt x # f) =
     (let data' = data OR shl x (j * w); keep' = keep OR shl 1 j
      in if f = [] then Inr (data', keep', []) else pack_cycle k (Suc j) (WInt w) data' keep' f)"
| "pack_cycle (Suc k) j WL data keep (x # f) = Inl TypeError"

definition side_at :: "sideband \<Rightarrow> nat \<Rightarrow> int result" where
  "side_at s i =
     (case s of SNone \<Rightarrow> Inr 0 | SInt x \<Rightarrow> Inr x | SBool b \<Rightarrow> Inl TypeError | SList xs \<Rightarrow> nthR xs i)"

definition build_cycle ::
    "axis_frame \<Rightarrow> cell list \<Rightarrow> nat \<Rightarrow> (cell \<times> int \<times> cell list) result" where
  \<comment> \<open>the data and keep of cycle \<open>i\<close>, and what is left of the frame\<close>
  "build_cycle self f i =
     (if f_B self = 0 then
        bindR (pack_cycle (f_M self) 0 (f_WL self) 0 0 f) (\<lambda>(data, keep, f').
          case f_keep self of
            None \<Rightarrow> Inr (CInt data, keep, f')
          | Some ks \<Rightarrow> bindR (nthR ks i) (\<lambda>k. Inr (CInt data, k, f')))
      else bindR (pop0 f) (\<lambda>(x, f'). Inr (x, 0, f')))"

lemma pack_cycle_shrinks:
  "pack_cycle k j WL data keep f = Inr (d, kp, f') \<Longrightarrow> k = 0 \<and> f' = f \<or> length f' < length f"
proof (induction k j WL data keep f arbitrary: d kp f' rule: pack_cycle.induct)
  case (3 k j w data keep x f)
  then show ?case by (fastforce simp: Let_def split: if_splits)
qed auto

lemma build_cycle_shrinks:
  assumes "build_cycle self f i = Inr (d, kp, f')" "f_B self \<noteq> 0 \<or> f_M self \<noteq> 0" "f \<noteq> []"
  shows "length f' < length f"
  using assms
  by (cases f) (auto simp: build_cycle_def bindR_eq_Inr dest!: pack_cycle_shrinks
      split: if_splits option.splits)

text \<open>
  The loop \<open>while len(f) > 0\<close>.  With \<open>B = 0\<close> and \<open>M = 0\<close> nothing is ever taken from a non-empty
  \<open>f\<close>, and the loop does not end.
\<close>

declare bindR_eqI [fundef_cong]

function build_loop :: "axis_frame \<Rightarrow> cell list \<Rightarrow> nat \<Rightarrow> axis_beat list result" where
  "build_loop self f i =
     (if f = [] then Inr []
      else if f_B self = 0 \<and> f_M self = 0 then Inl Diverges
      else bindR (build_cycle self f i) (\<lambda>(data, keep, f').
           bindR (side_at (f_id self) i) (\<lambda>tid.
           bindR (side_at (f_dest self) i) (\<lambda>dest.
           bindR (side_at (f_user self) i) (\<lambda>user.
           bindR (build_loop self f' (Suc i)) (\<lambda>rest.
             Inr (\<lparr>b_data = data, b_keep = keep, b_id = tid, b_dest = dest, b_user = user\<rparr> # rest)))))))"
  by pat_completeness auto

termination
proof (relation "measure (\<lambda>(self, f, i). length f)")
  fix self f i x d y kp f' id dest user
  assume "f \<noteq> []" "\<not> (f_B self = 0 \<and> f_M self = 0)" "build_cycle self f i = Inr x"
    and "(d, y) = x" "(kp, f') = y"
  then show "((self, f', Suc i), self, f, i) \<in> measure (\<lambda>(self, f, i). length f)"
    by (auto dest: build_cycle_shrinks)
qed simp

declare build_loop.simps [simp del]

definition axis_build :: "axis_frame \<Rightarrow> axis_beat list result" where
  "axis_build self =
     bindR (build_loop self (cells_of (f_data self)) 0) (\<lambda>beats.
       case f_last_cycle_user self of
         None \<Rightarrow> Inr beats
       | Some u \<Rightarrow>
           if u = 0 then Inr beats
           else if beats = [] then Inl IndexError
           else Inr (butlast beats @ [last beats\<lparr>b_user := u\<rparr>]))"

section \<open>parse\<close>

fun unpack_lanes :: "nat list \<Rightarrow> nat \<Rightarrow> cell \<Rightarrow> int \<Rightarrow> cell list result" where
  "unpack_lanes [] w d keep = Inr []"
| "unpack_lanes (j # js) w d keep =
     (if keep AND shl 1 j = 0 then unpack_lanes js w d keep
      else case d of
             CVec v \<Rightarrow> Inl TypeError
           | CInt x \<Rightarrow> bindR (unpack_lanes js w d keep) (\<lambda>r.
               Inr (CInt (shr x (j * w) AND (2 ^ w - 1)) # r)))"

fun unpack_cycles :: "nat \<Rightarrow> nat \<Rightarrow> cell list \<Rightarrow> int list \<Rightarrow> cell list result" where
  "unpack_cycles M w (d # ds) (k # ks) =
     bindR (unpack_lanes [0..<M] w d k) (\<lambda>a. bindR (unpack_cycles M w ds ks) (\<lambda>b. Inr (a @ b)))"
| "unpack_cycles M w _ _ = Inr []"

fun bytearray_of :: "cell list \<Rightarrow> bytes result" where
  "bytearray_of [] = Inr []"
| "bytearray_of (CVec v # cs) = Inl TypeError"
| "bytearray_of (CInt x # cs) =
     (if 0 \<le> x \<and> x < 256 then bindR (bytearray_of cs) (\<lambda>bs. Inr (word_of_int x # bs))
      else Inl ValueError)"

definition axis_parse ::
    "axis_frame \<Rightarrow> cell list \<Rightarrow> int list \<Rightarrow> int list \<Rightarrow> int list \<Rightarrow> int list \<Rightarrow> axis_frame result" where
  "axis_parse self tdata tkeep tid tdest tuser =
     (if length tdata \<noteq> length tkeep \<or> length tdata \<noteq> length tid \<or> length tdata \<noteq> length tdest
         \<or> length tdata \<noteq> length tuser
      then Inl OtherException
      else bindR
        (if f_B self = 0 then
           (case f_WL self of
              WInt w \<Rightarrow> unpack_cycles (f_M self) w tdata tkeep
            | WList ws \<Rightarrow> Inl TypeError)
         else Inr tdata) (\<lambda>data.
      bindR (if f_WL self = WInt 8 then bindR (bytearray_of data) (\<lambda>bs. Inr (DBytes bs))
             else Inr (DList data)) (\<lambda>data.
      if tuser = [] then Inl IndexError
      else Inr (self\<lparr>f_data := data, f_keep := Some tkeep, f_id := SList tid,
                     f_dest := SList tdest, f_user := SList tuser,
                     f_last_cycle_user := Some (last tuser)\<rparr>))))"

section \<open>Comparison\<close>

fun scalar :: "sideband \<Rightarrow> int option" where
  "scalar (SInt x) = Some x"
| "scalar (SBool b) = Some (of_bool b)"
| "scalar SNone = None"
| "scalar (SList xs) = None"

text \<open>
  \<open>id\<close>, \<open>dest\<close> and \<open>user\<close>: an absent field matches everything, a number matches a list of that
  number.  The first argument tells which part of a list a number is compared with: all of it,
  or, for \<open>user\<close> with \<open>last_cycle_user\<close> on both sides, all but its last element.
\<close>

definition side_eq :: "(int list \<Rightarrow> int list) \<Rightarrow> sideband \<Rightarrow> sideband \<Rightarrow> bool" where
  "side_eq part x y =
     (if x = SNone \<or> y = SNone then True
      else case (scalar x, y, scalar y, x) of
             (Some a, SList ys, _, _) \<Rightarrow> list_all (\<lambda>k. a = k) (part ys)
           | (_, _, Some b, SList xs) \<Rightarrow> list_all (\<lambda>k. b = k) (part xs)
           | (Some a, _, Some b, _) \<Rightarrow> a = b
           | _ \<Rightarrow> x = y)"

definition axis_eq :: "axis_frame \<Rightarrow> axis_frame \<Rightarrow> bool" where
  "axis_eq self other =
     (if f_data self \<noteq> f_data other then False
      else if f_keep self \<noteq> None \<and> f_keep other \<noteq> None \<and> f_keep self \<noteq> f_keep other then False
      else if \<not> side_eq (\<lambda>xs. xs) (f_id self) (f_id other) then False
      else if \<not> side_eq (\<lambda>xs. xs) (f_dest self) (f_dest other) then False
      else if f_last_cycle_user self \<noteq> None \<and> f_last_cycle_user other \<noteq> None then
        f_last_cycle_user self = f_last_cycle_user other
        \<and> side_eq butlast (f_user self) (f_user other)
      else side_eq (\<lambda>xs. xs) (f_user self) (f_user other))"

section \<open>build on a single data signal: frames as chunks of lanes\<close>

text \<open>
  The specification of \<open>build\<close> on a single data signal: the data is cut into chunks of \<open>M\<close>
  elements, a chunk is the number whose digits in base \<open>2^WL\<close> are its elements, and its keep
  mask has one bit per element.
\<close>

lemma pack_cycle_lanes:
  assumes "list_all (in_lane w) xs" "xs \<noteq> [] \<or> k = 0"
    and "0 \<le> d" "d < 2 ^ (j * w)" "0 \<le> kp" "kp < 2 ^ j"
  shows "pack_cycle k j (WInt w) d kp (map CInt xs) =
    Inr (d + 2 ^ (j * w) * lanes_val w (take k xs),
         kp + 2 ^ j * (2 ^ length (take k xs) - 1), map CInt (drop k xs))"
  using assms
proof (induction k arbitrary: j d kp xs)
  case (Suc k)
  then obtain x ys where xs: "xs = x # ys" by (cases xs) auto
  have x: "0 \<le> x" "x < 2 ^ w" using Suc.prems xs by (auto simp: in_lane_def)
  let ?d = "d + x * 2 ^ (j * w)" and ?k = "kp + 2 ^ j"
  have step: "d OR shl x (j * w) = ?d" "kp OR 2 ^ j = ?k"
    using Suc.prems or_lane [of kp j 1] by (simp_all add: or_lane)
  have "x * 2 ^ (j * w) + 2 ^ (j * w) \<le> 2 ^ w * 2 ^ (j * w)"
    using x mult_right_mono [of "x + 1" "2 ^ w" "2 ^ (j * w)"] by (simp add: distrib_right)
  then have d: "0 \<le> ?d" "?d < 2 ^ (Suc j * w)"
    using Suc.prems x by (simp_all add: power_add)
  show ?case
  proof (cases "ys = []")
    case False
    have "pack_cycle k (Suc j) (WInt w) ?d ?k (map CInt ys) =
      Inr (?d + 2 ^ (Suc j * w) * lanes_val w (take k ys),
           ?k + 2 ^ Suc j * (2 ^ length (take k ys) - 1), map CInt (drop k ys))"
      using Suc.prems False d xs by (intro Suc.IH) auto
    then show ?thesis
      using False by (simp add: xs step algebra_simps power_add)
  qed (simp add: xs step algebra_simps)
qed simp

text \<open>The sideband value of cycle \<open>i\<close>, where the field has one.\<close>

definition side_val :: "sideband \<Rightarrow> nat \<Rightarrow> int" where
  "side_val s i = (case s of SInt x \<Rightarrow> x | SList xs \<Rightarrow> xs ! i | _ \<Rightarrow> 0)"

definition sb_ok :: "nat \<Rightarrow> sideband \<Rightarrow> bool" where
  "sb_ok n s \<longleftrightarrow> (case s of SBool b \<Rightarrow> False | SList xs \<Rightarrow> n \<le> length xs | _ \<Rightarrow> True)"

lemma side_at_ok: "sb_ok n s \<Longrightarrow> i < n \<Longrightarrow> side_at s i = Inr (side_val s i)"
  by (cases s) (auto simp: side_at_def sb_ok_def side_val_def)

definition lane_beat :: "nat \<Rightarrow> axis_frame \<Rightarrow> nat \<Rightarrow> int list \<Rightarrow> axis_beat" where
  "lane_beat w self i c =
     \<lparr>b_data = CInt (lanes_val w c), b_keep = 2 ^ length c - 1, b_id = side_val (f_id self) i,
      b_dest = side_val (f_dest self) i, b_user = side_val (f_user self) i\<rparr>"

lemma build_loop_lanes:
  assumes "f_B self = 0" "f_M self = m" "0 < m" "f_WL self = WInt w" "f_keep self = None"
    and "list_all (in_lane w) xs" "i + length (chunks m xs) \<le> n"
    and "sb_ok n (f_id self)" "sb_ok n (f_dest self)" "sb_ok n (f_user self)"
  shows "build_loop self (map CInt xs) i =
    Inr (map (\<lambda>(k, c). lane_beat w self k c) (enumerate i (chunks m xs)))"
  using assms
proof (induction m xs arbitrary: i rule: chunks.induct)
  case (1 m xs)
  show ?case
  proof (cases "xs = []")
    case False
    have ch: "chunks m xs = take m xs # chunks m (drop m xs)"
      using False 1 by (simp add: chunks_Cons)
    have cyc: "build_cycle self (map CInt xs) i =
        Inr (CInt (lanes_val w (take m xs)), 2 ^ length (take m xs) - 1, map CInt (drop m xs))"
      using 1 False by (simp add: build_cycle_def pack_cycle_lanes)
    have rest: "build_loop self (map CInt (drop m xs)) (Suc i) =
        Inr (map (\<lambda>(k, c). lane_beat w self k c) (enumerate (Suc i) (chunks m (drop m xs))))"
      using 1 False ch by (intro 1(1)) (auto simp: list_all_iff dest: in_set_dropD)
    have "i < n" using 1 ch by simp
    then show ?thesis
      using 1 False by (subst build_loop.simps) (simp add: cyc rest ch side_at_ok, simp add: lane_beat_def)
  qed (simp add: build_loop.simps)
qed

section \<open>parse undoes build\<close>

lemma keep_bit: "(2 ^ n - 1 :: int) AND shl 1 j = 0 \<longleftrightarrow> n \<le> j"
proof -
  have "bit ((2 ^ n - 1 :: int) AND shl 1 j) i \<longleftrightarrow> i = j \<and> j < n" for i
    by (auto simp: bit_and_iff bit_push_bit_iff bit_1_iff bit_exp_iff bit_mask_iff simp flip: mask_eq_exp_minus_1)
  then have "(2 ^ n - 1 :: int) AND shl 1 j = 0 \<longleftrightarrow> (\<forall>i. \<not> (i = j \<and> j < n))"
    by (simp only: bit_eq_iff bit_0_eq bot_apply) simp
  then show ?thesis by auto
qed

lemma unpack_lanes_val:
  assumes "list_all (in_lane w) c"
  shows "unpack_lanes js w (CInt (lanes_val w c)) (2 ^ length c - 1) =
    Inr (map (\<lambda>j. CInt (c ! j)) (filter (\<lambda>j. j < length c) js))"
proof (induction js)
  case (Cons j js)
  have "shr (lanes_val w c) (j * w) AND (2 ^ w - 1) = c ! j" if "j < length c"
    using lanes_val_digit [OF assms that] by (simp add: and_mask_int drop_bit_eq_div)
  then show ?case
    using Cons by (simp add: keep_bit not_less del: push_bit_of_1)
qed simp

lemma unpack_lanes_all:
  assumes "list_all (in_lane w) c" "length c \<le> m"
  shows "unpack_lanes [0..<m] w (CInt (lanes_val w c)) (2 ^ length c - 1) = Inr (map CInt c)"
proof -
  have "filter (\<lambda>j. j < length c) [0..<m] = [0..<length c]"
    using assms(2) by (induction m) (auto simp: le_Suc_eq filter_id_conv)
  then show ?thesis
    by (simp add: unpack_lanes_val [OF assms(1)]) (simp add: map_nth map_map [symmetric, unfolded comp_def] del: map_map)
qed

lemma unpack_cycles_chunks:
  "(\<forall>c \<in> set cs. list_all (in_lane w) c \<and> length c \<le> m) \<Longrightarrow>
    unpack_cycles m w (map (\<lambda>c. CInt (lanes_val w c)) cs) (map (\<lambda>c. 2 ^ length c - 1) cs) =
    Inr (map CInt (concat cs))"
  by (induction cs) (auto simp: unpack_lanes_all)

lemma bytearray_of_lanes:
  "list_all (in_lane 8) xs \<Longrightarrow> bytearray_of (map CInt xs) = Inr (map word_of_int xs)"
  by (induction xs) (auto simp: in_lane_def)

text \<open>
  The data a receiver makes of the elements \<open>xs\<close> of \<open>w\<close> bits: a \<open>bytearray\<close> for eight-bit lanes, a
  list otherwise.
\<close>

definition lane_data :: "nat \<Rightarrow> int list \<Rightarrow> axis_data" where
  "lane_data w xs = (if w = 8 then DBytes (map word_of_int xs) else DList (map CInt xs))"

lemma cells_of_lane_data:
  "list_all (in_lane w) xs \<Longrightarrow> cells_of (lane_data w xs) = map CInt xs"
  by (auto simp: lane_data_def cells_of_def in_lane_def list_all_iff)

text \<open>The frames that survive the way over the bus unchanged.\<close>

definition sb_exact :: "nat \<Rightarrow> sideband \<Rightarrow> bool" where
  "sb_exact n s \<longleftrightarrow> (case s of SBool b \<Rightarrow> False | SList xs \<Rightarrow> length xs = n | _ \<Rightarrow> True)"

definition last_user_ok :: "axis_frame \<Rightarrow> bool" where
  "last_user_ok self \<longleftrightarrow>
     (case f_last_cycle_user self of
        None \<Rightarrow> True
      | Some u \<Rightarrow> (case f_user self of SList us \<Rightarrow> last us = u | SInt x \<Rightarrow> u \<noteq> 0 \<or> x = 0 | _ \<Rightarrow> True))"

definition lane_frame :: "nat \<Rightarrow> nat \<Rightarrow> int list \<Rightarrow> axis_frame \<Rightarrow> bool" where
  "lane_frame m w xs self \<longleftrightarrow>
     f_B self = 0 \<and> f_M self = m \<and> 0 < m \<and> f_WL self = WInt w \<and> f_keep self = None
     \<and> f_data self = lane_data w xs \<and> xs \<noteq> [] \<and> list_all (in_lane w) xs
     \<and> (let n = length (chunks m xs)
        in sb_exact n (f_id self) \<and> sb_exact n (f_dest self) \<and> sb_exact n (f_user self))
     \<and> last_user_ok self"

definition user_list :: "axis_frame \<Rightarrow> nat \<Rightarrow> int list" where
  "user_list self n =
     (let us = map (side_val (f_user self)) [0..<n]
      in case f_last_cycle_user self of
           None \<Rightarrow> us
         | Some u \<Rightarrow> if u = 0 then us else butlast us @ [u])"

lemma sb_exact_ok: "sb_exact n s \<Longrightarrow> sb_ok n s"
  by (auto simp: sb_exact_def sb_ok_def split: sideband.splits)

lemma map_enumerate_fst:
  "map (\<lambda>(k, c). f k) (enumerate i cs) = map f [i..<i + length cs]"
proof (induction cs arbitrary: i)
  case (Cons c cs)
  have "[i..<i + length (c # cs)] = i # [Suc i..<Suc i + length cs]"
    by (simp add: upt_conv_Cons del: upt_Suc)
  then show ?case using Cons by simp
qed simp

lemma map_enumerate_snd: "map (\<lambda>(k, c). f c) (enumerate i cs) = map f cs"
  by (induction cs arbitrary: i) simp_all

lemma enumerate_eq_Nil [simp]: "enumerate i cs = [] \<longleftrightarrow> cs = []"
  by (cases cs) simp_all

text \<open>The five lists that \<open>build\<close> returns for such a frame.\<close>

lemma axis_build_lanes:
  assumes "lane_frame m w xs self"
  shows "\<exists>bs. axis_build self = Inr bs \<and> length bs = length (chunks m xs)
    \<and> map b_data bs = map (\<lambda>c. CInt (lanes_val w c)) (chunks m xs)
    \<and> map b_keep bs = map (\<lambda>c. 2 ^ length c - 1) (chunks m xs)
    \<and> map b_id bs = map (side_val (f_id self)) [0..<length (chunks m xs)]
    \<and> map b_dest bs = map (side_val (f_dest self)) [0..<length (chunks m xs)]
    \<and> map b_user bs = user_list self (length (chunks m xs))"
proof -
  let ?n = "length (chunks m xs)"
  let ?bs = "map (\<lambda>(k, c). lane_beat w self k c) (enumerate 0 (chunks m xs))"
  note a = assms [unfolded lane_frame_def Let_def]
  have bs: "build_loop self (cells_of (f_data self)) 0 = Inr ?bs"
    using a by (simp add: cells_of_lane_data)
      (rule build_loop_lanes [where n = ?n]; simp add: sb_exact_ok)
  have proj: "map b_data ?bs = map (\<lambda>c. CInt (lanes_val w c)) (chunks m xs)"
    "map b_keep ?bs = map (\<lambda>c. 2 ^ length c - 1) (chunks m xs)"
    "map b_id ?bs = map (side_val (f_id self)) [0..<?n]"
    "map b_dest ?bs = map (side_val (f_dest self)) [0..<?n]"
    "map b_user ?bs = map (side_val (f_user self)) [0..<?n]"
    using map_enumerate_fst [of "side_val (f_id self)" 0 "chunks m xs"]
      map_enumerate_fst [of "side_val (f_dest self)" 0 "chunks m xs"]
      map_enumerate_fst [of "side_val (f_user self)" 0 "chunks m xs"]
      map_enumerate_snd [of "\<lambda>c. CInt (lanes_val w c)" 0 "chunks m xs"]
      map_enumerate_snd [of "\<lambda>c. 2 ^ length c - 1" 0 "chunks m xs"]
    by (simp_all add: lane_beat_def comp_def split_def)
  have ne: "?bs \<noteq> []" using a by simp
  have upd: "map g (butlast bs @ [last bs\<lparr>b_user := u\<rparr>]) = map g bs"
    if "bs \<noteq> []" "\<And>b. g (b\<lparr>b_user := u\<rparr>) = g b" for g :: "axis_beat \<Rightarrow> 'c" and bs u
    using that by (metis append_butlast_last_id list.simps(8,9) map_append)
  show ?thesis
  proof (cases "f_last_cycle_user self = None \<or> f_last_cycle_user self = Some 0")
    case True
    then show ?thesis
      using proj by (intro exI [of _ ?bs]) (auto simp: axis_build_def bs user_list_def)
  next
    case False
    then obtain u where u: "f_last_cycle_user self = Some u" "u \<noteq> 0" by (cases "f_last_cycle_user self") auto
    let ?cs = "butlast ?bs @ [last ?bs\<lparr>b_user := u\<rparr>]"
    have "map b_user ?cs = user_list self ?n"
      using u by (simp only: user_list_def Let_def proj(5) [symmetric]) (simp add: map_butlast)
    then show ?thesis
      using u ne proj
      by (intro exI [of _ ?cs]) (simp add: axis_build_def bs upd del: map_append)
  qed
qed

lemma axis_parse_lanes:
  assumes "lane_frame m w xs self" "f_B fr = 0" "f_M fr = m" "f_WL fr = WInt w"
  defines "n \<equiv> length (chunks m xs)"
  shows "\<exists>bs. axis_build self = Inr bs \<and> length bs = n
    \<and> axis_parse fr (map b_data bs) (map b_keep bs) (map b_id bs) (map b_dest bs) (map b_user bs) =
        Inr (fr\<lparr>f_data := f_data self, f_keep := Some (map (\<lambda>c. 2 ^ length c - 1) (chunks m xs)),
          f_id := SList (map (side_val (f_id self)) [0..<n]),
          f_dest := SList (map (side_val (f_dest self)) [0..<n]),
          f_user := SList (user_list self n),
          f_last_cycle_user := Some (last (user_list self n))\<rparr>)"
proof -
  note a = assms(1) [unfolded lane_frame_def]
  obtain bs where bs: "axis_build self = Inr bs" "length bs = n"
    "map b_data bs = map (\<lambda>c. CInt (lanes_val w c)) (chunks m xs)"
    "map b_keep bs = map (\<lambda>c. 2 ^ length c - 1) (chunks m xs)"
    "map b_id bs = map (side_val (f_id self)) [0..<n]"
    "map b_dest bs = map (side_val (f_dest self)) [0..<n]"
    "map b_user bs = user_list self n"
    using axis_build_lanes [OF assms(1)] n_def by auto
  have len: "length (user_list self n) = n" using bs(2,7) by (metis length_map)
  have ne: "user_list self n \<noteq> []"
    using len a by (auto simp: n_def)
  have "\<forall>c \<in> set (chunks m xs). list_all (in_lane w) c \<and> length c \<le> m"
    using a by (auto simp: list_all_iff dest: chunks_in chunks_length)
  then have "unpack_cycles m w (map b_data bs) (map b_keep bs) = Inr (map CInt xs)"
    using a by (simp add: bs(3,4) unpack_cycles_chunks)
  then have "axis_parse fr (map b_data bs) (map b_keep bs) (map b_id bs) (map b_dest bs)
      (map b_user bs) =
    Inr (fr\<lparr>f_data := f_data self, f_keep := Some (map b_keep bs), f_id := SList (map b_id bs),
      f_dest := SList (map b_dest bs), f_user := SList (map b_user bs),
      f_last_cycle_user := Some (last (map b_user bs))\<rparr>)"
    using assms(2-4) a ne bs(2,7) len
    by (cases "w = 8") (simp_all add: axis_parse_def lane_data_def bytearray_of_lanes)
  then show ?thesis using bs by (intro exI [of _ bs]) simp
qed

lemma side_eq_exact:
  "sb_exact n s \<Longrightarrow> side_eq (\<lambda>xs. xs) s (SList (map (side_val s) [0..<n]))"
  by (cases s) (auto simp: side_eq_def sb_exact_def side_val_def list_all_iff intro!: nth_equalityI)

lemma user_eq_exact:
  assumes "sb_exact n (f_user self)" "last_user_ok self" "0 < n"
  shows "case f_last_cycle_user self of
      None \<Rightarrow> side_eq (\<lambda>xs. xs) (f_user self) (SList (user_list self n))
    | Some u \<Rightarrow> u = last (user_list self n) \<and> side_eq butlast (f_user self) (SList (user_list self n))"
proof (cases "f_last_cycle_user self")
  case None
  then show ?thesis using side_eq_exact [OF assms(1)] by (simp add: user_list_def)
next
  case (Some u)
  let ?us = "map (side_val (f_user self)) [0..<n]"
  have last: "last ?us = side_val (f_user self) (n - 1)"
    using assms(3) by (simp add: last_conv_nth)
  have l: "u = last (user_list self n)"
  proof (cases "u = 0")
    case True
    then have "last ?us = 0"
      using assms Some last
      by (auto simp: last_user_ok_def sb_exact_def side_val_def last_conv_nth
          split: sideband.splits)
    then show ?thesis using Some True by (simp add: user_list_def)
  qed (simp add: user_list_def Some Let_def)
  have "user_list self n = butlast ?us @ [u]"
    using l Some assms(3) append_butlast_last_id [of ?us]
    by (cases "u = 0") (auto simp: user_list_def Let_def)
  moreover have "f_user self = SList vs \<Longrightarrow> ?us = vs \<and> vs \<noteq> [] \<and> last vs = u" for vs
    using assms Some
    by (auto simp: sb_exact_def side_val_def last_user_ok_def intro!: nth_equalityI)
  ultimately have "side_eq butlast (f_user self) (SList (user_list self n))"
    using assms(1)
    by (cases "f_user self")
      (auto simp: side_eq_def sb_exact_def side_val_def list_all_iff dest: in_set_butlastD)
  then show ?thesis using l Some by simp
qed

lemma axis_lanes_roundtrip:
  assumes "lane_frame m w xs self" "f_B fr = 0" "f_M fr = m" "f_WL fr = WInt w"
  shows "\<exists>bs g. axis_build self = Inr bs \<and> length bs = (length xs + m - 1) div m
    \<and> axis_parse fr (map b_data bs) (map b_keep bs) (map b_id bs) (map b_dest bs) (map b_user bs)
        = Inr g
    \<and> f_data g = f_data self \<and> axis_eq self g"
proof -
  note a = assms(1) [unfolded lane_frame_def Let_def]
  let ?n = "length (chunks m xs)"
  have n: "0 < ?n" using a by simp
  have u: "case f_last_cycle_user self of
      None \<Rightarrow> side_eq (\<lambda>xs. xs) (f_user self) (SList (user_list self ?n))
    | Some v \<Rightarrow> v = last (user_list self ?n)
        \<and> side_eq butlast (f_user self) (SList (user_list self ?n))"
    using a n by (intro user_eq_exact) auto
  obtain bs g where bs: "axis_build self = Inr bs" "length bs = ?n"
    "axis_parse fr (map b_data bs) (map b_keep bs) (map b_id bs) (map b_dest bs) (map b_user bs) =
      Inr g"
    and g: "g = fr\<lparr>f_data := f_data self, f_keep := Some (map (\<lambda>c. 2 ^ length c - 1) (chunks m xs)),
        f_id := SList (map (side_val (f_id self)) [0..<?n]),
        f_dest := SList (map (side_val (f_dest self)) [0..<?n]),
        f_user := SList (user_list self ?n),
        f_last_cycle_user := Some (last (user_list self ?n))\<rparr>"
    using axis_parse_lanes [OF assms] by blast
  have "axis_eq self g"
    using a u by (cases "f_last_cycle_user self") (simp_all add: g axis_eq_def side_eq_exact)
  moreover have "f_data g = f_data self" by (simp add: g)
  moreover have "?n = (length xs + m - 1) div m" using a by (simp add: chunks_count)
  ultimately show ?thesis using bs by auto
qed

section \<open>Properties\<close>

text \<open>
  a frame whose elements fit their lanes takes \<open>ceil(len / M)\<close> bus cycles, and parsing the
  cycles that \<open>build\<close> makes of it, in a frame object of the same geometry, gives the data back,
  and a frame equal to the original under \<open>__eq__\<close>, sideband fields and \<open>last_cycle_user\<close> included.
\<close>

theorem axis_build_parse_roundtrip:
  assumes "lane_frame m w xs self" "f_B fr = 0" "f_M fr = m" "f_WL fr = WInt w"
  shows "\<exists>bs g. axis_build self = Inr bs \<and> length bs = (length xs + m - 1) div m
    \<and> axis_parse fr (map b_data bs) (map b_keep bs) (map b_id bs) (map b_dest bs) (map b_user bs)
        = Inr g
    \<and> f_data g = f_data self \<and> axis_eq self g"
  using assms by (rule axis_lanes_roundtrip)

theorem axis_build_parse_roundtrip_witness:
  "let f = \<lparr>f_B = 0, f_N = WInt 64, f_M = 4, f_WL = WInt 16,
       f_data = lane_data 16 [1, 2, 3, 4, 5, 0xFFFF], f_keep = None, f_id = SInt 3,
       f_dest = SList [7, 8], f_user = SNone, f_last_cycle_user = Some 1\<rparr>
   in \<exists>bs g. axis_build f = Inr bs \<and> length bs = 2
    \<and> axis_parse f (map b_data bs) (map b_keep bs) (map b_id bs) (map b_dest bs) (map b_user bs)
        = Inr g
    \<and> f_data g = lane_data 16 [1, 2, 3, 4, 5, 0xFFFF] \<and> axis_eq f g"
proof -
  let ?f = "\<lparr>f_B = 0, f_N = WInt 64, f_M = 4, f_WL = WInt 16,
       f_data = lane_data 16 [1, 2, 3, 4, 5, 0xFFFF], f_keep = None, f_id = SInt 3,
       f_dest = SList [7, 8], f_user = SNone, f_last_cycle_user = Some 1\<rparr>"
  have "lane_frame 4 16 [1, 2, 3, 4, 5, 0xFFFF] ?f"
    by (simp add: lane_frame_def in_lane_def chunks.simps sb_exact_def last_user_ok_def)
  then show ?thesis
    using axis_build_parse_roundtrip [of 4 16 "[1, 2, 3, 4, 5, 0xFFFF]" ?f ?f]
    by (simp add: Let_def)
qed

end
