(* ===== verification/Stream_Link.thy ===== *)
theory Stream_Link
  imports Prelude "HOL-Library.Sublist"
begin

text \<open>
  The valid/ready handshake all bus endpoints share, as an interface.  A source offers one beat
  at a time and keeps the rest pending; a sink says whether it is ready and absorbs the beats
  that are transferred.  The clocked processes of a testbench read the signals of the cycle and
  schedule the next ones, so on a clock edge both ends see the signals as they were before it.

  The two locales state what a source and a sink promise.  The link of the two then delivers
  what was sent, in order, without loss and without duplication, under every pattern of pauses on
  either side; and everything is delivered once enough cycles without pauses have passed.  The
  endpoints interpret the locales on their own definitions.
\<close>

section \<open>A source and a sink on one clock\<close>

text \<open>An event: a frame is handed to the source, or a clock edge with source and sink paused or not.\<close>

datatype 'f link_event = Send 'f | Tick bool bool

record ('s, 'k, 'b, 'f) link =
  l_src :: "bool \<Rightarrow> bool \<Rightarrow> 's \<Rightarrow> 's result"
  l_offered :: "'s \<Rightarrow> 'b option"
  l_send :: "'f \<Rightarrow> 's \<Rightarrow> 's"
  l_snk :: "bool \<Rightarrow> 'b option \<Rightarrow> 'k \<Rightarrow> 'k result"
  l_ready :: "bool \<Rightarrow> 'k \<Rightarrow> bool"

fun link_step :: "('s, 'k, 'b, 'f) link \<Rightarrow> 'f link_event \<Rightarrow> 's \<times> 'k \<Rightarrow> ('s \<times> 'k) result" where
  "link_step L (Send f) (s, k) = Inr (l_send L f s, k)"
| "link_step L (Tick p q) (s, k) =
     bindR (l_src L p (l_ready L q k) s) (\<lambda>s'.
     bindR (l_snk L q (l_offered L s) k) (\<lambda>k'. Inr (s', k')))"

fun link_run :: "('s, 'k, 'b, 'f) link \<Rightarrow> 'f link_event list \<Rightarrow> 's \<times> 'k \<Rightarrow> ('s \<times> 'k) result" where
  "link_run L [] x = Inr x"
| "link_run L (e # es) x = bindR (link_step L e x) (link_run L es)"

fun sent :: "'f link_event list \<Rightarrow> 'f list" where
  "sent [] = []"
| "sent (Send f # es) = f # sent es"
| "sent (Tick p q # es) = sent es"

fun free_ticks :: "'f link_event list \<Rightarrow> nat" where
  "free_ticks [] = 0"
| "free_ticks (Send f # es) = free_ticks es"
| "free_ticks (Tick p q # es) = (if p \<or> q then 0 else 1) + free_ticks es"

lemma link_run_append: "link_run L (es @ es') x = bindR (link_run L es x) (link_run L es')"
  by (induction es arbitrary: x) (auto simp: bindR_assoc intro!: bindR_eqI)

lemma sent_append [simp]: "sent (es @ es') = sent es @ sent es'"
  by (induction es rule: sent.induct) simp_all

section \<open>What a source promises\<close>

locale stream_source =
  fixes src_step :: "bool \<Rightarrow> bool \<Rightarrow> 's \<Rightarrow> 's result"
    and offered :: "'s \<Rightarrow> 'b option"
    and send :: "'f \<Rightarrow> 's \<Rightarrow> 's"
    and src_inv :: "'s \<Rightarrow> bool"
    and pending :: "'s \<Rightarrow> 'b list"
    and sendable :: "'f \<Rightarrow> bool"
    and beats :: "'f \<Rightarrow> 'b list"
  assumes send_inv: "src_inv s \<Longrightarrow> sendable f \<Longrightarrow> src_inv (send f s)"
    and send_pending: "src_inv s \<Longrightarrow> sendable f \<Longrightarrow> pending (send f s) = pending s @ beats f"
    and send_offered: "offered (send f s) = offered s"
    and step_inv: "src_inv s \<Longrightarrow> \<exists>s'. src_step p r s = Inr s' \<and> src_inv s'"
    and offered_pending: "src_inv s \<Longrightarrow> offered s = Some b \<Longrightarrow> \<exists>rest. pending s = b # rest"
    and step_pending: "src_inv s \<Longrightarrow> src_step p r s = Inr s' \<Longrightarrow>
      pending s' = (if r \<and> offered s \<noteq> None then tl (pending s) else pending s)"
    and step_stable: "src_inv s \<Longrightarrow> offered s = Some b \<Longrightarrow> src_step p False s = Inr s' \<Longrightarrow>
      offered s' = Some b"
    and step_progress: "src_inv s \<Longrightarrow> src_step False r s = Inr s' \<Longrightarrow> pending s' \<noteq> [] \<Longrightarrow>
      offered s' \<noteq> None"
begin

definition work :: "'s \<Rightarrow> nat" where
  "work s = 2 * length (pending s) - (if offered s = None then 0 else 1)"

lemma work_offered: "src_inv s \<Longrightarrow> offered s = Some b \<Longrightarrow> work s = 2 * length (pending s) - 1"
  by (simp add: work_def)

lemma work_step:
  assumes "src_inv s" "src_step p r s = Inr s'"
  shows "work s' \<le> work s"
    and "pending s \<noteq> [] \<Longrightarrow> \<not> p \<Longrightarrow> offered s \<noteq> None \<longrightarrow> r \<Longrightarrow> work s' < work s"
proof -
  have pend: "pending s' = (if r \<and> offered s \<noteq> None then tl (pending s) else pending s)"
    using assms by (rule step_pending)
  have off: "offered s \<noteq> None \<Longrightarrow> pending s \<noteq> []"
    using offered_pending [OF assms(1)] by (cases "offered s") fastforce+
  have keep: "offered s' \<noteq> None" if "offered s \<noteq> None" "\<not> r"
    using that assms step_stable [of s _ p s'] by (cases "offered s") auto
  show "work s' \<le> work s"
    using pend off keep by (cases "offered s"; cases r; cases "pending s") (auto simp: work_def)
  assume "pending s \<noteq> []" "\<not> p" "offered s \<noteq> None \<longrightarrow> r"
  then show "work s' < work s"
    using pend off step_progress [of s r s'] assms by (cases "pending s") (auto simp: work_def)
qed

end

section \<open>What a sink promises\<close>

locale stream_sink =
  fixes snk_step :: "bool \<Rightarrow> 'b option \<Rightarrow> 'k \<Rightarrow> 'k result"
    and ready :: "bool \<Rightarrow> 'k \<Rightarrow> bool"
    and absorbed :: "'k \<Rightarrow> 'b list \<Rightarrow> bool"
    and received :: "'k \<Rightarrow> 'r list"
    and sendable :: "'f \<Rightarrow> bool"
    and beats :: "'f \<Rightarrow> 'b list"
    and image :: "'f \<Rightarrow> 'r"
  assumes ready_paused: "\<not> ready True k"
    and sink_idle: "absorbed k bs \<Longrightarrow>
      \<exists>k'. snk_step q None k = Inr k' \<and> ready False k' \<and> absorbed k' bs"
    and sink_paused: "ready False k \<Longrightarrow> absorbed k bs \<Longrightarrow>
      \<exists>k'. snk_step True (Some b) k = Inr k' \<and> ready False k' \<and> absorbed k' bs"
    and sink_take: "ready False k \<Longrightarrow> absorbed k bs \<Longrightarrow> list_all sendable fs \<Longrightarrow>
      prefix (bs @ [b]) (concat (map beats fs)) \<Longrightarrow>
      \<exists>k'. snk_step False (Some b) k = Inr k' \<and> ready False k' \<and> absorbed k' (bs @ [b])"
    and sink_received: "list_all sendable fs \<Longrightarrow> absorbed k (concat (map beats fs)) \<Longrightarrow>
      received k = map image fs"

section \<open>The link of the two\<close>

locale stream_link =
  stream_source src_step offered send src_inv pending sendable beats +
  stream_sink snk_step ready absorbed received sendable beats image
  for src_step :: "bool \<Rightarrow> bool \<Rightarrow> 's \<Rightarrow> 's result"
    and offered :: "'s \<Rightarrow> 'b option"
    and send :: "'f \<Rightarrow> 's \<Rightarrow> 's"
    and src_inv :: "'s \<Rightarrow> bool"
    and pending :: "'s \<Rightarrow> 'b list"
    and sendable :: "'f \<Rightarrow> bool"
    and beats :: "'f \<Rightarrow> 'b list"
    and snk_step :: "bool \<Rightarrow> 'b option \<Rightarrow> 'k \<Rightarrow> 'k result"
    and ready :: "bool \<Rightarrow> 'k \<Rightarrow> bool"
    and absorbed :: "'k \<Rightarrow> 'b list \<Rightarrow> bool"
    and received :: "'k \<Rightarrow> 'r list"
    and image :: "'f \<Rightarrow> 'r"
begin

abbreviation L :: "('s, 'k, 'b, 'f) link" where
  "L \<equiv> \<lparr>l_src = src_step, l_offered = offered, l_send = send, l_snk = snk_step, l_ready = ready\<rparr>"

definition link_inv :: "'f list \<Rightarrow> 's \<times> 'k \<Rightarrow> bool" where
  "link_inv fs x \<longleftrightarrow> (case x of (s, k) \<Rightarrow>
     src_inv s \<and> list_all sendable fs \<and> (offered s \<noteq> None \<longrightarrow> ready False k)
     \<and> (\<exists>taken. absorbed k taken \<and> taken @ pending s = concat (map beats fs)))"

lemma link_inv_init:
  "src_inv s \<Longrightarrow> pending s = [] \<Longrightarrow> absorbed k [] \<Longrightarrow> link_inv [] (s, k)"
  using offered_pending by (fastforce simp: link_inv_def)

lemma link_send:
  "link_inv fs (s, k) \<Longrightarrow> sendable f \<Longrightarrow> link_inv (fs @ [f]) (send f s, k)"
  unfolding link_inv_def using send_inv send_pending send_offered
  by (auto simp flip: append_assoc)

text \<open>A clock edge keeps the invariant: a beat is transferred on both sides or on neither.\<close>

lemma link_tick:
  assumes "link_inv fs (s, k)"
  shows "\<exists>s' k'. src_step p (ready q k) s = Inr s' \<and> snk_step q (offered s) k = Inr k'
    \<and> link_inv fs (s', k') \<and> ready False k'"
proof -
  obtain taken where inv: "src_inv s" "list_all sendable fs"
    and rdy: "offered s \<noteq> None \<longrightarrow> ready False k"
    and taken: "absorbed k taken" "taken @ pending s = concat (map beats fs)"
    using assms by (auto simp: link_inv_def)
  obtain s' where s': "src_step p (ready q k) s = Inr s'" "src_inv s'"
    using step_inv [OF inv(1)] by blast
  note pend = step_pending [OF inv(1) s'(1)]
  have "\<exists>k' t. snk_step q (offered s) k = Inr k' \<and> ready False k' \<and> absorbed k' t
      \<and> t @ pending s' = concat (map beats fs)"
  proof (cases "offered s")
    case None
    then show ?thesis using sink_idle [OF taken(1), of q] pend taken(2) by auto
  next
    case (Some b)
    then obtain rest where rest: "pending s = b # rest" using offered_pending inv(1) by blast
    have r: "ready False k" using rdy Some by simp
    show ?thesis
    proof (cases q)
      case True
      then show ?thesis
        using Some pend taken sink_paused [OF r taken(1), of b] ready_paused [of k] by auto
    next
      case False
      have "prefix (taken @ [b]) (concat (map beats fs))"
        using taken(2) rest by (metis append.assoc append_Cons append_Nil prefixI)
      from sink_take [OF r taken(1) inv(2) this]
      show ?thesis using False Some pend taken(2) rest r by (auto intro!: exI [of _ "taken @ [b]"])
    qed
  qed
  then show ?thesis using s' inv(2) by (fastforce simp: link_inv_def)
qed

lemma link_run_inv:
  "link_inv fs x \<Longrightarrow> list_all sendable (sent es) \<Longrightarrow>
    \<exists>y. link_run L es x = Inr y \<and> link_inv (fs @ sent es) y"
proof (induction es arbitrary: fs x)
  case (Cons e es)
  obtain s k where x: "x = (s, k)" by fastforce
  show ?case
  proof (cases e)
    case (Send f)
    then show ?thesis
      using Cons.IH [OF link_send [of fs s k f]] Cons.prems x by auto
  next
    case (Tick p q)
    then obtain y where "link_step L e x = Inr y" "link_inv fs y"
      using link_tick [of fs s k p q] Cons.prems x by auto
    then show ?thesis using Cons Tick by simp
  qed
qed simp

text \<open>Without further frames, the pending work never grows, and shrinks in every free cycle.\<close>

lemma link_run_work:
  "link_inv fs (s, k) \<Longrightarrow> sent es = [] \<Longrightarrow> link_run L es (s, k) = Inr (s', k') \<Longrightarrow>
    work s' \<le> work s - free_ticks es"
proof (induction es arbitrary: s k)
  case (Cons e es)
  then obtain p q where e: "e = Tick p q" by (cases e) auto
  from link_tick [OF Cons.prems(1), of p q] obtain s1 k1
    where step: "src_step p (ready q k) s = Inr s1" "snk_step q (offered s) k = Inr k1"
      "link_inv fs (s1, k1)" by blast
  have inv: "src_inv s" "offered s \<noteq> None \<longrightarrow> ready False k"
    using Cons.prems(1) by (auto simp: link_inv_def)
  have "work s' \<le> work s1 - free_ticks es"
    using Cons.IH [OF step(3)] Cons.prems e step by simp
  moreover have "work s1 \<le> work s" by (rule work_step(1) [OF inv(1) step(1)])
  moreover have "work s1 \<le> work s - 1" if "\<not> p" "\<not> q"
  proof (cases "pending s = []")
    case True
    then have "offered s = None" using offered_pending inv(1) by fastforce
    then show ?thesis
      using True step_pending [OF inv(1) step(1)] by (simp add: work_def)
  next
    case False
    then have "work s1 < work s"
      using work_step(2) [OF inv(1) step(1)] inv(2) that by simp
    then show ?thesis by simp
  qed
  ultimately show ?case using e by (auto split: if_splits)
qed simp

lemma link_delivers:
  assumes "link_inv [] x" "list_all sendable (sent es)" "sent es' = []"
    and "2 * length (concat (map beats (sent es))) \<le> free_ticks es'"
  shows "\<exists>s k. link_run L (es @ es') x = Inr (s, k) \<and> pending s = []
    \<and> received k = map image (sent es)"
proof -
  obtain s1 k1 where run1: "link_run L es x = Inr (s1, k1)" "link_inv (sent es) (s1, k1)"
    using link_run_inv [OF assms(1,2)] by fastforce
  then obtain s k where run2: "link_run L es' (s1, k1) = Inr (s, k)" "link_inv (sent es) (s, k)"
    using link_run_inv [OF run1(2), of es'] assms(3) by fastforce
  obtain taken where "taken @ pending s1 = concat (map beats (sent es))"
    using run1(2) by (auto simp: link_inv_def)
  then have "length (pending s1) \<le> length (concat (map beats (sent es)))"
    by (metis length_append le_add2)
  then have "work s1 \<le> free_ticks es'" using assms(4) by (simp add: work_def)
  moreover have "work s \<le> work s1 - free_ticks es'"
    by (rule link_run_work [OF run1(2) assms(3) run2(1)])
  ultimately have "work s = 0" by simp
  then have "pending s = []" by (cases "pending s") (auto simp: work_def split: if_splits)
  then have "received k = map image (sent es)"
    using run2(2) sink_received by (auto simp: link_inv_def)
  then show ?thesis using run1(1) run2(1) \<open>pending s = []\<close> by (simp add: link_run_append)
qed

end

end
