(* ===== verification/Axis_Endpoint.thy ===== *)
theory Axis_Endpoint
  imports Axis_Frame Stream_Link
begin

text \<open>
  \<open>AXIStreamSource\<close> and \<open>AXIStreamSink\<close> of \<open>lib/eth/lib/axis/tb/axis_ep.py\<close>: the clocked
  processes that drive and sample the signals of an AXI stream, and the queues behind them.

  The state of a source is its queue, its local lists and the signals it drives; a clock edge
  maps the state before it, the reset and pause inputs and \<open>tready\<close> to the state after it, since
  an assignment to \<open>.next\<close> takes effect after the process has run.  A signal of \<open>n\<close> bits refuses a
  value out of range with \<open>ValueError\<close>; a width of \<open>None\<close> is the unbounded \<open>intbv(0)\<close>.
  \<open>create_logic\<close> reads its geometry from the signals: \<open>axis_cfg\<close> holds their widths.
\<close>

section \<open>Geometry\<close>

record axis_cfg =
  c_tdata :: py_width
  c_tkeep :: nat
  c_tid :: "nat option"
  c_tdest :: "nat option"
  c_tuser :: "nat option"

definition configure :: "axis_cfg \<Rightarrow> axis_frame \<Rightarrow> axis_frame" where
  \<comment> \<open>\<open>frame.B = B\<close>, \<open>frame.N = N\<close>, \<open>frame.M = M\<close>, \<open>frame.WL = WL\<close>\<close>
  "configure c f =
     (case c_tdata c of
        WInt n \<Rightarrow> f\<lparr>f_B := 0, f_N := WInt n, f_M := c_tkeep c,
                   f_WL := WInt ((n + c_tkeep c - 1) div c_tkeep c)\<rparr>
      | WList ns \<Rightarrow> f\<lparr>f_B := length ns, f_N := WList ns, f_M := 1,
                     f_WL := WList (replicate (length ns) 1)\<rparr>)"

fun drive_vec :: "nat list \<Rightarrow> int list \<Rightarrow> int list result" where
  "drive_vec [] v = Inr []"
| "drive_vec (n # ns) [] = Inl IndexError"
| "drive_vec (n # ns) (x # v) =
     (if fits (Some n) x then bindR (drive_vec ns v) (\<lambda>r. Inr (x # r)) else Inl ValueError)"

definition drive_data :: "py_width \<Rightarrow> cell \<Rightarrow> cell result" where
  "drive_data w d =
     (case (w, d) of
        (WInt n, CInt x) \<Rightarrow> if fits (Some n) x then Inr (CInt x) else Inl ValueError
      | (WList ns, CVec v) \<Rightarrow> bindR (drive_vec ns v) (\<lambda>r. Inr (CVec r))
      | _ \<Rightarrow> Inl TypeError)"

text \<open>The assignments to \<open>tdata\<close>, \<open>tkeep\<close>, \<open>tid\<close>, \<open>tdest\<close> and \<open>tuser\<close>: the values the signals take.\<close>

definition drive :: "axis_cfg \<Rightarrow> axis_beat \<Rightarrow> axis_beat result" where
  "drive c b =
     bindR (drive_data (c_tdata c) (b_data b)) (\<lambda>d.
       if fits (Some (c_tkeep c)) (b_keep b) \<and> fits (c_tid c) (b_id b)
          \<and> fits (c_tdest c) (b_dest b) \<and> fits (c_tuser c) (b_user b)
       then Inr (b\<lparr>b_data := d\<rparr>) else Inl ValueError)"

section \<open>The source\<close>

record axis_source =
  src_active :: bool
  src_queue :: "axis_frame list"
  src_data :: "axis_beat list"
  sig_beat :: axis_beat
  sig_tvalid :: bool
  sig_tlast :: bool

definition zero_beat :: "axis_cfg \<Rightarrow> axis_beat" where
  "zero_beat c =
     \<lparr>b_data = (case c_tdata c of WInt n \<Rightarrow> CInt 0 | WList ns \<Rightarrow> CVec (replicate (length ns) 0)),
      b_keep = 0, b_id = 0, b_dest = 0, b_user = 0\<rparr>"

definition axis_source0 :: "axis_cfg \<Rightarrow> axis_source" where
  "axis_source0 c =
     \<lparr>src_active = False, src_queue = [], src_data = [], sig_beat = zero_beat c,
      sig_tvalid = False, sig_tlast = False\<rparr>"

definition axis_source_send :: "frame_arg \<Rightarrow> axis_source \<Rightarrow> axis_source" where
  "axis_source_send frame self = self\<lparr>src_queue := src_queue self @ [axis_frame_of frame]\<rparr>"

definition axis_source_count :: "axis_source \<Rightarrow> nat" where
  "axis_source_count self = length (src_queue self)"

definition axis_source_empty :: "axis_source \<Rightarrow> bool" where
  "axis_source_empty self \<longleftrightarrow> src_queue self = []"

definition axis_source_idle :: "axis_source \<Rightarrow> bool" where
  "axis_source_idle self \<longleftrightarrow> src_queue self = [] \<and> \<not> src_active self"

definition put_beat :: "axis_cfg \<Rightarrow> bool \<Rightarrow> axis_beat list \<Rightarrow> axis_source \<Rightarrow> axis_source result" where
  \<comment> \<open>the pops and assignments that put the next cycle of \<open>data\<close> on the bus\<close>
  "put_beat c pause data self =
     bindR (pop0 data) (\<lambda>(b, rest).
     bindR (drive c b) (\<lambda>b'.
       Inr (self\<lparr>src_data := rest, sig_beat := b', sig_tvalid := \<not> pause,
                 sig_tlast := (rest = [])\<rparr>)))"

definition axis_source_step ::
    "axis_cfg \<Rightarrow> bool \<Rightarrow> bool \<Rightarrow> bool \<Rightarrow> axis_source \<Rightarrow> axis_source result" where
  "axis_source_step c rst pause tready self =
     (if rst then
        Inr (self\<lparr>src_data := [], src_active := False, sig_beat := zero_beat c,
                  sig_tvalid := False, sig_tlast := False\<rparr>)
      else bindR
        (if tready \<and> sig_tvalid self then
           (if src_data self \<noteq> [] then put_beat c pause (src_data self) self
            else Inr (self\<lparr>sig_tvalid := False, sig_tlast := False, src_active := False\<rparr>))
         else Inr (self\<lparr>sig_tvalid := src_active self \<and> (sig_tvalid self \<or> \<not> pause)\<rparr>)) (\<lambda>self.
      if \<not> src_active self \<and> src_queue self \<noteq> [] then
        bindR (pop0 (src_queue self)) (\<lambda>(frame, q).
        bindR (axis_build (configure c frame)) (\<lambda>data.
        bindR (put_beat c pause data (self\<lparr>src_queue := q\<rparr>)) (\<lambda>self.
          Inr (self\<lparr>src_active := True\<rparr>))))
      else Inr self))"

definition axis_offered :: "axis_source \<Rightarrow> (axis_beat \<times> bool) option" where
  "axis_offered self = (if sig_tvalid self then Some (sig_beat self, sig_tlast self) else None)"

section \<open>The sink\<close>

record axis_sink =
  snk_active :: bool
  snk_queue :: "axis_frame list"
  snk_read_queue :: "cell list"
  snk_data :: "axis_beat list"
  snk_first :: bool
  snk_tready_int :: bool

definition axis_sink0 :: axis_sink where
  "axis_sink0 =
     \<lparr>snk_active = False, snk_queue = [], snk_read_queue = [], snk_data = [], snk_first = True,
      snk_tready_int = False\<rparr>"

definition axis_tready :: "bool \<Rightarrow> axis_sink \<Rightarrow> bool" where
  "axis_tready pause self \<longleftrightarrow> snk_tready_int self \<and> \<not> pause"

text \<open>The two loops over \<open>tkeep\<close>, which the assertion before them keeps away from zero.\<close>

fun strip_zeros :: "nat \<Rightarrow> nat" where
  "strip_zeros b = (if even b \<and> b \<noteq> 0 then strip_zeros (b div 2) else b)"

function strip_ones :: "nat \<Rightarrow> nat" where
  "strip_ones b = (if odd b then strip_ones (b div 2) else b)"
  by pat_completeness auto

termination by (relation "measure (\<lambda>b. b)") (auto elim: oddE)

declare strip_zeros.simps [simp del] strip_ones.simps [simp del]

definition keep_ok :: "axis_cfg \<Rightarrow> bool \<Rightarrow> bool \<Rightarrow> int \<Rightarrow> bool" where
  "keep_ok c first tlast tkeep \<longleftrightarrow>
     tkeep \<noteq> 0
     \<and> strip_ones (strip_zeros (nat tkeep)) = 0
     \<and> (\<not> first \<longrightarrow> tkeep AND 1 \<noteq> 0)
     \<and> (\<not> tlast \<longrightarrow> tkeep AND shl 1 (c_tkeep c - 1) \<noteq> 0)"

definition axis_take :: "axis_cfg \<Rightarrow> axis_beat \<times> bool \<Rightarrow> axis_sink \<Rightarrow> axis_sink result" where
  \<comment> \<open>the body of \<open>if tvalid_int\<close>\<close>
  "axis_take c bl self =
     (case bl of (b, tlast) \<Rightarrow>
      bindR (assertR (keep_ok c (snk_first self) tlast (b_keep b))) (\<lambda>_.
      let data = snk_data self @ [b] in
      if tlast then
        bindR (axis_parse (configure c (axis_frame_of (ArgBytes []))) (map b_data data)
                 (map b_keep data) (map b_id data) (map b_dest data) (map b_user data)) (\<lambda>frame.
          Inr (self\<lparr>snk_queue := snk_queue self @ [frame], snk_active := False, snk_data := [],
                    snk_first := True\<rparr>))
      else Inr (self\<lparr>snk_data := data, snk_first := False, snk_active := True\<rparr>)))"

definition axis_sink_step ::
    "axis_cfg \<Rightarrow> bool \<Rightarrow> bool \<Rightarrow> (axis_beat \<times> bool) option \<Rightarrow> axis_sink \<Rightarrow> axis_sink result" where
  \<comment> \<open>\<open>tvalid\<close> with the signals it qualifies is the optional argument\<close>
  "axis_sink_step c rst pause bus self =
     (if rst then
        Inr (self\<lparr>snk_tready_int := False, snk_data := [], snk_first := True,
                  snk_active := False\<rparr>)
      else case bus of
        Some bl \<Rightarrow>
          if pause then Inr (self\<lparr>snk_tready_int := True\<rparr>)
          else axis_take c bl (self\<lparr>snk_tready_int := True\<rparr>)
      | None \<Rightarrow> Inr (self\<lparr>snk_tready_int := True\<rparr>))"

definition axis_sink_recv :: "axis_sink \<Rightarrow> axis_frame option \<times> axis_sink" where
  "axis_sink_recv self =
     (case snk_queue self of [] \<Rightarrow> (None, self) | f # q \<Rightarrow> (Some f, self\<lparr>snk_queue := q\<rparr>))"

fun read_loop :: "axis_frame list \<Rightarrow> cell list \<Rightarrow> cell list" where
  "read_loop [] rq = rq"
| "read_loop (f # q) rq = read_loop q (rq @ cells_of (f_data f))"

definition axis_sink_read :: "int \<Rightarrow> axis_sink \<Rightarrow> cell list \<times> axis_sink" where
  "axis_sink_read count self =
     (let rq = read_loop (snk_queue self) (snk_read_queue self);
          n = (if count < 0 then int (length rq) else count)
      in (pslice_to rq n, self\<lparr>snk_queue := [], snk_read_queue := pslice_from rq n\<rparr>))"

definition axis_sink_count :: "axis_sink \<Rightarrow> nat" where
  "axis_sink_count self = length (snk_queue self)"

definition axis_sink_empty :: "axis_sink \<Rightarrow> bool" where
  "axis_sink_empty self \<longleftrightarrow> snk_queue self = []"

definition axis_sink_idle :: "axis_sink \<Rightarrow> bool" where
  "axis_sink_idle self \<longleftrightarrow> \<not> snk_active self"

section \<open>Source and sink on one bus\<close>

definition axis_link :: "axis_cfg \<Rightarrow> (axis_source, axis_sink, axis_beat \<times> bool, frame_arg) link" where
  "axis_link c =
     \<lparr>l_src = axis_source_step c False, l_offered = axis_offered, l_send = axis_source_send,
      l_snk = axis_sink_step c False, l_ready = axis_tready\<rparr>"

section \<open>What is still to be transferred\<close>

fun with_last :: "axis_beat list \<Rightarrow> (axis_beat \<times> bool) list" where
  "with_last [] = []"
| "with_last (b # bs) = (b, bs = []) # with_last bs"

definition drives :: "axis_cfg \<Rightarrow> axis_beat list \<Rightarrow> bool" where
  "drives c bs \<longleftrightarrow> list_all (\<lambda>b. drive c b = Inr b) bs"

definition frame_cycles :: "axis_cfg \<Rightarrow> axis_frame \<Rightarrow> axis_beat list" where
  "frame_cycles c f = (case axis_build (configure c f) of Inl e \<Rightarrow> [] | Inr bs \<Rightarrow> bs)"

definition frame_beats :: "axis_cfg \<Rightarrow> axis_frame \<Rightarrow> (axis_beat \<times> bool) list" where
  "frame_beats c f = with_last (frame_cycles c f)"

definition good_frame :: "axis_cfg \<Rightarrow> axis_frame \<Rightarrow> bool" where
  "good_frame c f \<longleftrightarrow>
     axis_build (configure c f) = Inr (frame_cycles c f) \<and> frame_cycles c f \<noteq> []
     \<and> drives c (frame_cycles c f)"

definition axis_pending :: "axis_cfg \<Rightarrow> axis_source \<Rightarrow> (axis_beat \<times> bool) list" where
  "axis_pending c s =
     (if src_active s then (sig_beat s, sig_tlast s) # with_last (src_data s) else [])
     @ concat (map (frame_beats c) (src_queue s))"

definition axis_src_inv :: "axis_cfg \<Rightarrow> axis_source \<Rightarrow> bool" where
  "axis_src_inv c s \<longleftrightarrow>
     (sig_tvalid s \<longrightarrow> src_active s) \<and> (src_active s \<longrightarrow> sig_tlast s = (src_data s = []))
     \<and> drives c (src_data s) \<and> list_all (good_frame c) (src_queue s)"

text \<open>A frame a sink accepts: every cycle passes the assertions on \<open>tkeep\<close>, and the cycles parse.\<close>

fun keeps_ok :: "axis_cfg \<Rightarrow> bool \<Rightarrow> axis_beat list \<Rightarrow> bool" where
  "keeps_ok c first [] = True"
| "keeps_ok c first (b # bs) = (keep_ok c first (bs = []) (b_keep b) \<and> keeps_ok c False bs)"

definition axis_reparse :: "axis_cfg \<Rightarrow> axis_beat list \<Rightarrow> axis_frame result" where
  "axis_reparse c bs =
     axis_parse (configure c (axis_frame_of (ArgBytes []))) (map b_data bs) (map b_keep bs)
       (map b_id bs) (map b_dest bs) (map b_user bs)"

definition axis_image :: "axis_cfg \<Rightarrow> frame_arg \<Rightarrow> axis_frame" where
  "axis_image c a =
     (case axis_reparse c (frame_cycles c (axis_frame_of a)) of
        Inr g \<Rightarrow> g | Inl e \<Rightarrow> axis_frame_of a)"

definition axis_sendable :: "axis_cfg \<Rightarrow> frame_arg \<Rightarrow> bool" where
  "axis_sendable c a \<longleftrightarrow>
     (let f = axis_frame_of a
      in good_frame c f \<and> keeps_ok c True (frame_cycles c f)
         \<and> axis_reparse c (frame_cycles c f) = Inr (axis_image c a))"

fun take_all :: "axis_cfg \<Rightarrow> (axis_beat \<times> bool) list \<Rightarrow> axis_sink \<Rightarrow> axis_sink result" where
  "take_all c [] k = Inr k"
| "take_all c (x # xs) k = bindR (axis_take c x k) (take_all c xs)"

definition axis_absorbed :: "axis_cfg \<Rightarrow> axis_sink \<Rightarrow> (axis_beat \<times> bool) list \<Rightarrow> bool" where
  "axis_absorbed c k bs \<longleftrightarrow> take_all c bs axis_sink0 = Inr (k\<lparr>snk_tready_int := False\<rparr>)"

section \<open>The source keeps the contract\<close>

lemma put_beat_ok:
  "drives c (b # bs) \<Longrightarrow>
    put_beat c p (b # bs) s = Inr (s\<lparr>src_data := bs, sig_beat := b, sig_tvalid := \<not> p,
      sig_tlast := (bs = [])\<rparr>)"
  by (simp add: put_beat_def drives_def)

text \<open>The second half of a clock edge: an idle source loads the next frame.\<close>

lemma axis_source_step_cases:
  assumes "axis_src_inv c s"
  obtains (hold) "\<not> (r \<and> sig_tvalid s)" "src_active s"
      "axis_source_step c False p r s = Inr (s\<lparr>sig_tvalid := sig_tvalid s \<or> \<not> p\<rparr>)"
  | (advance) b bs where "r" "sig_tvalid s" "src_active s" "src_data s = b # bs" "drives c bs"
      "axis_source_step c False p r s = Inr (s\<lparr>src_data := bs, sig_beat := b, sig_tvalid := \<not> p,
        sig_tlast := (bs = [])\<rparr>)"
  | (idle) l where "src_active s \<longrightarrow> r \<and> sig_tvalid s \<and> src_data s = []" "src_queue s = []"
      "axis_source_step c False p r s =
         Inr (s\<lparr>src_active := False, sig_tvalid := False, sig_tlast := l\<rparr>)"
  | (load) f q b bs where "src_active s \<longrightarrow> r \<and> sig_tvalid s \<and> src_data s = []"
      "src_queue s = f # q" "frame_cycles c f = b # bs" "drives c bs" "list_all (good_frame c) q"
      "axis_source_step c False p r s = Inr (s\<lparr>src_active := True, src_queue := q, src_data := bs,
        sig_beat := b, sig_tvalid := \<not> p, sig_tlast := (bs = [])\<rparr>)"
proof -
  note inv = assms [unfolded axis_src_inv_def]
  consider "src_active s" "\<not> (r \<and> sig_tvalid s)" | "src_active s" "r" "sig_tvalid s" "src_data s \<noteq> []"
    | "src_active s \<longrightarrow> r \<and> sig_tvalid s \<and> src_data s = []" by blast
  then show thesis
  proof cases
    case 1
    then show thesis by (intro hold) (auto simp: axis_source_step_def)
  next
    case 2
    then obtain b bs where d: "src_data s = b # bs" by (cases "src_data s") auto
    then have "drives c (b # bs)" using inv by simp
    then show thesis
      using 2 d by (intro advance [of b bs]) (auto simp: axis_source_step_def put_beat_ok drives_def)
  next
    case 3
    let ?s = "s\<lparr>sig_tvalid := False, sig_tlast := \<not> src_active s \<and> sig_tlast s,
      src_active := False\<rparr>"
    have half: "axis_source_step c False p r s =
      (if src_queue s = [] then Inr ?s
       else bindR (pop0 (src_queue s)) (\<lambda>(frame, q).
            bindR (axis_build (configure c frame)) (\<lambda>data.
            bindR (put_beat c p data (?s\<lparr>src_queue := q\<rparr>)) (\<lambda>self.
              Inr (self\<lparr>src_active := True\<rparr>)))))"
    proof (cases "src_active s")
      case True
      then show ?thesis using 3 by (simp add: axis_source_step_def)
    next
      case False
      then have "\<not> sig_tvalid s" using inv by simp
      have eq: "s\<lparr>sig_tvalid := False, src_active := False, src_queue := q\<rparr> =
          s\<lparr>sig_tvalid := False, src_queue := q\<rparr>" for q
        using False by simp
      show ?thesis using False \<open>\<not> sig_tvalid s\<close> by (simp add: axis_source_step_def eq)
    qed
    show thesis
    proof (cases "src_queue s")
      case Nil
      then show thesis
        using 3 half by (intro idle [of "\<not> src_active s \<and> sig_tlast s"]) simp_all
    next
      case (Cons f q)
      then have g: "good_frame c f" "list_all (good_frame c) q" using inv by auto
      then obtain b bs where bs: "frame_cycles c f = b # bs"
        by (cases "frame_cycles c f") (auto simp: good_frame_def)
      have d: "drives c (b # bs)" "axis_build (configure c f) = Inr (b # bs)"
        using g bs by (auto simp: good_frame_def)
      have "drives c bs" using d(1) by (simp add: drives_def)
      then show thesis
        using 3 half Cons bs d g by (intro load [of f q b bs]) (simp_all add: put_beat_ok)
    qed
  qed
qed

lemma drives_Nil [simp]: "drives c []"
  by (simp add: drives_def)

interpretation axis_src: stream_source
  "axis_source_step c False" axis_offered axis_source_send "axis_src_inv c" "axis_pending c"
  "axis_sendable c" "\<lambda>a. frame_beats c (axis_frame_of a)" for c
proof unfold_locales
  fix s p r
  assume "axis_src_inv c s"
  then show "\<exists>s'. axis_source_step c False p r s = Inr s' \<and> axis_src_inv c s'"
    by (rule axis_source_step_cases [of c s r p]) (use \<open>axis_src_inv c s\<close> in \<open>auto simp: axis_src_inv_def\<close>)
next
  fix s p r s'
  assume inv: "axis_src_inv c s" and st: "axis_source_step c False p r s = Inr s'"
  show "axis_pending c s' =
      (if r \<and> axis_offered s \<noteq> None then tl (axis_pending c s) else axis_pending c s)"
    by (rule axis_source_step_cases [OF inv, of r p])
      (use inv st in \<open>auto simp: axis_src_inv_def axis_pending_def axis_offered_def frame_beats_def
        split: if_splits\<close>)
next
  fix s b p s'
  assume inv: "axis_src_inv c s" and "axis_offered s = Some b"
    and st: "axis_source_step c False p False s = Inr s'"
  then show "axis_offered s' = Some b"
    by (auto simp: axis_src_inv_def axis_offered_def axis_source_step_def split: if_splits)
next
  fix s r s'
  assume inv: "axis_src_inv c s" and st: "axis_source_step c False False r s = Inr s'"
    and pend: "axis_pending c s' \<noteq> []"
  show "axis_offered s' \<noteq> None"
    by (rule axis_source_step_cases [OF inv, of r False])
      (use inv st pend in \<open>auto simp: axis_pending_def axis_offered_def\<close>)
qed (auto simp: axis_src_inv_def axis_source_send_def axis_pending_def axis_offered_def
    axis_sendable_def Let_def split: if_splits)

section \<open>The sink keeps the contract\<close>

lemma axis_take_tready:
  "axis_take c bl (k\<lparr>snk_tready_int := t\<rparr>) =
     bindR (axis_take c bl k) (\<lambda>k. Inr (k\<lparr>snk_tready_int := t\<rparr>))"
  by (cases bl; cases "snd bl")
    (auto simp: axis_take_def assertR_def Let_def bindR_assoc intro!: bindR_eqI)

lemma axis_take_keeps_tready:
  "axis_take c bl k = Inr k' \<Longrightarrow> snk_tready_int k' = snk_tready_int k"
  by (cases bl; cases "snd bl") (auto simp: axis_take_def assertR_def Let_def bindR_eq_Inr split: if_splits)

lemma take_all_append: "take_all c (xs @ ys) k = bindR (take_all c xs k) (take_all c ys)"
  by (induction xs arbitrary: k) (auto simp: bindR_assoc intro!: bindR_eqI)

text \<open>The cycles of one frame, taken one after the other, put that frame into the queue.\<close>

lemma take_all_cycles:
  "bs \<noteq> [] \<Longrightarrow> keeps_ok c (snk_first k) bs \<Longrightarrow> axis_reparse c (snk_data k @ bs) = Inr g \<Longrightarrow>
    take_all c (with_last bs) k =
      Inr (k\<lparr>snk_queue := snk_queue k @ [g], snk_active := False, snk_data := [], snk_first := True\<rparr>)"
proof (induction bs arbitrary: k)
  case (Cons b bs)
  show ?case
  proof (cases "bs = []")
    case True
    then show ?thesis
      using Cons.prems by (simp add: axis_take_def axis_reparse_def Let_def)
  next
    case False
    then have "axis_take c (b, False) k =
        Inr (k\<lparr>snk_data := snk_data k @ [b], snk_first := False, snk_active := True\<rparr>)"
      using Cons.prems by (simp add: axis_take_def Let_def)
    then show ?thesis using Cons False by simp
  qed
qed simp

lemma take_all_frames:
  "list_all (axis_sendable c) fs \<Longrightarrow> snk_data k = [] \<Longrightarrow> snk_first k \<Longrightarrow> \<not> snk_active k \<Longrightarrow>
    take_all c (concat (map (\<lambda>a. frame_beats c (axis_frame_of a)) fs)) k =
      Inr (k\<lparr>snk_queue := snk_queue k @ map (axis_image c) fs\<rparr>)"
proof (induction fs arbitrary: k)
  case (Cons a fs)
  then have "take_all c (frame_beats c (axis_frame_of a)) k =
      Inr (k\<lparr>snk_queue := snk_queue k @ [axis_image c a], snk_active := False, snk_data := [],
        snk_first := True\<rparr>)"
    by (simp add: frame_beats_def axis_sendable_def good_frame_def Let_def take_all_cycles)
  then show ?case using Cons by (simp add: take_all_append)
qed simp

lemma take_all_sendable:
  "list_all (axis_sendable c) fs \<Longrightarrow>
    take_all c (concat (map (\<lambda>a. frame_beats c (axis_frame_of a)) fs)) axis_sink0 =
      Inr (axis_sink0\<lparr>snk_queue := map (axis_image c) fs\<rparr>)"
  by (subst take_all_frames) (simp_all add: axis_sink0_def)

interpretation axis_snk: stream_sink
  "axis_sink_step c False" axis_tready "axis_absorbed c" snk_queue "axis_sendable c"
  "\<lambda>a. frame_beats c (axis_frame_of a)" "axis_image c" for c
proof unfold_locales
  fix k bs fs b
  assume r: "axis_tready False k" and abs: "axis_absorbed c k bs"
    and fs: "list_all (axis_sendable c) fs"
    and pre: "prefix (bs @ [b]) (concat (map (\<lambda>a. frame_beats c (axis_frame_of a)) fs))"
  from pre obtain zs where "concat (map (\<lambda>a. frame_beats c (axis_frame_of a)) fs) = (bs @ [b]) @ zs"
    by (auto simp: prefix_def)
  then obtain k1 where k1: "take_all c (bs @ [b]) axis_sink0 = Inr k1"
    using take_all_sendable [OF fs] by (auto simp: take_all_append bindR_eq_Inr)
  then have st: "axis_take c b (k\<lparr>snk_tready_int := False\<rparr>) = Inr k1"
    using abs by (auto simp: axis_absorbed_def take_all_append bindR_eq_Inr)
  then have low: "\<not> snk_tready_int k1" using axis_take_keeps_tready by fastforce
  have "axis_take c b (k\<lparr>snk_tready_int := True\<rparr>) = Inr (k1\<lparr>snk_tready_int := True\<rparr>)"
    using st axis_take_tready [of c b True "k\<lparr>snk_tready_int := False\<rparr>"] by simp
  moreover have "k1\<lparr>snk_tready_int := False\<rparr> = k1" using low by simp
  ultimately show "\<exists>k'. axis_sink_step c False False (Some b) k = Inr k' \<and> axis_tready False k'
      \<and> axis_absorbed c k' (bs @ [b])"
    using k1 by (simp add: axis_sink_step_def axis_tready_def axis_absorbed_def)
next
  fix fs k
  assume "list_all (axis_sendable c) fs"
    and "axis_absorbed c k (concat (map (\<lambda>a. frame_beats c (axis_frame_of a)) fs))"
  then have "axis_sink0\<lparr>snk_queue := map (axis_image c) fs\<rparr> = k\<lparr>snk_tready_int := False\<rparr>"
    using take_all_sendable by (simp add: axis_absorbed_def)
  then have "snk_queue (axis_sink0\<lparr>snk_queue := map (axis_image c) fs\<rparr>) =
      snk_queue (k\<lparr>snk_tready_int := False\<rparr>)" by simp
  then show "snk_queue k = map (axis_image c) fs" by simp
qed (auto simp: axis_tready_def axis_sink_step_def axis_absorbed_def)

interpretation axis_bus: stream_link
  "axis_source_step c False" axis_offered axis_source_send "axis_src_inv c" "axis_pending c"
  "axis_sendable c" "\<lambda>a. frame_beats c (axis_frame_of a)"
  "axis_sink_step c False" axis_tready "axis_absorbed c" snk_queue "axis_image c" for c
  by unfold_locales

lemma axis_link_init: "axis_bus.link_inv c [] (axis_source0 c, axis_sink0)"
  by (rule axis_bus.link_inv_init)
    (simp_all add: axis_src_inv_def axis_source0_def axis_pending_def axis_absorbed_def axis_sink0_def)

section \<open>Frames that fit their bus arrive\<close>

lemma configure_fields [simp]:
  "f_data (configure c f) = f_data f" "f_keep (configure c f) = f_keep f"
  "f_id (configure c f) = f_id f" "f_dest (configure c f) = f_dest f"
  "f_user (configure c f) = f_user f" "f_last_cycle_user (configure c f) = f_last_cycle_user f"
  by (simp_all add: configure_def split: py_width.split)

lemma axis_eq_configure: "axis_eq (configure c f) g = axis_eq f g"
  by (simp only: axis_eq_def configure_fields)

definition cell_ints :: "cell list \<Rightarrow> int list" where
  "cell_ints cs = map (\<lambda>c. case c of CInt x \<Rightarrow> x | CVec v \<Rightarrow> 0) cs"

text \<open>
  A frame for a single data signal whose elements fit the lanes, with sideband values that fit
  their signals and no keep list of its own.
\<close>

definition plain_frame :: "axis_cfg \<Rightarrow> frame_arg \<Rightarrow> bool" where
  "plain_frame c a \<longleftrightarrow>
     (case c_tdata c of
        WList ns \<Rightarrow> False
      | WInt n \<Rightarrow>
          (let m = c_tkeep c; f = configure c (axis_frame_of a);
               xs = cell_ints (cells_of (f_data f)); k = length (chunks m xs)
           in m dvd n \<and> lane_frame m (n div m) xs f
              \<and> list_all (fits (c_tid c)) (map (side_val (f_id f)) [0..<k])
              \<and> list_all (fits (c_tdest c)) (map (side_val (f_dest f)) [0..<k])
              \<and> list_all (fits (c_tuser c)) (user_list f k)))"

lemma strip_ones_mask: "strip_ones (2 ^ l - 1) = 0"
proof (induction l)
  case (Suc l)
  obtain k where "(2 ^ l :: nat) = Suc k" by (cases "2 ^ l :: nat") auto
  then have "(2 ^ Suc l - 1 :: nat) = 2 * (2 ^ l - 1) + 1" by simp
  then show ?case using Suc by (subst strip_ones.simps) simp
qed (simp add: strip_ones.simps)

lemma keep_ok_mask:
  assumes "0 < l" "l \<le> c_tkeep c" "tlast \<or> l = c_tkeep c"
  shows "keep_ok c first tlast (2 ^ l - 1)"
proof -
  have odd: "odd (2 ^ l - 1 :: int)" "odd (2 ^ l - 1 :: nat)" using assms(1) by simp_all
  have "nat (2 ^ l - 1) = 2 ^ l - 1" by (simp add: nat_diff_distrib nat_power_eq)
  moreover have "strip_zeros (2 ^ l - 1) = 2 ^ l - 1"
    using odd(2) by (subst strip_zeros.simps) simp
  moreover have "(2 ^ l - 1 :: int) AND 1 \<noteq> 0"
    using odd(1) by (simp add: and_one_eq mod_2_eq_odd)
  moreover have "(2 ^ l - 1 :: int) AND shl 1 (c_tkeep c - 1) \<noteq> 0" if "\<not> tlast"
    using assms that by (simp add: keep_bit del: push_bit_of_1)
  moreover have "(2 ^ l - 1 :: int) \<noteq> 0" by (metis odd(1) even_zero)
  ultimately show ?thesis using strip_ones_mask [of l] by (simp add: keep_ok_def del: push_bit_of_1)
qed

lemma keeps_ok_masks:
  assumes "map b_keep bs = map (\<lambda>c. 2 ^ length c - 1) cs"
    and "\<forall>x \<in> set cs. x \<noteq> [] \<and> length x \<le> c_tkeep c"
    and "\<forall>x \<in> set (butlast cs). length x = c_tkeep c"
  shows "keeps_ok c first bs"
  using assms
proof (induction bs arbitrary: cs first)
  case (Cons b bs)
  then obtain x xs where cs: "cs = x # xs" by (cases cs) auto
  have "xs = [] \<longleftrightarrow> bs = []" using Cons.prems cs by (auto dest: map_eq_imp_length_eq)
  then have "keep_ok c first (bs = []) (b_keep b)"
    using Cons.prems cs by (auto intro!: keep_ok_mask)
  moreover have "keeps_ok c False bs"
    using Cons.prems cs by (intro Cons.IH [of xs]) (auto split: if_splits)
  ultimately show ?case by simp
qed simp

lemma lanes_val_less: "list_all (in_lane w) xs \<Longrightarrow> lanes_val w xs < 2 ^ (w * length xs)"
proof (induction xs)
  case (Cons x xs)
  then have "x < 2 ^ w" "lanes_val w xs \<le> 2 ^ (w * length xs) - 1" by (auto simp: in_lane_def)
  then have "x + 2 ^ w * lanes_val w xs < 2 ^ w + 2 ^ w * (2 ^ (w * length xs) - 1)"
    by (intro add_less_le_mono mult_left_mono) auto
  then show ?case by (simp add: power_add algebra_simps)
qed simp

lemma drives_alt:
  "drives c bs \<longleftrightarrow>
     list_all (\<lambda>d. drive_data (c_tdata c) d = Inr d) (map b_data bs)
     \<and> list_all (fits (Some (c_tkeep c))) (map b_keep bs) \<and> list_all (fits (c_tid c)) (map b_id bs)
     \<and> list_all (fits (c_tdest c)) (map b_dest bs) \<and> list_all (fits (c_tuser c)) (map b_user bs)"
proof -
  have "drive c b = Inr b \<longleftrightarrow> drive_data (c_tdata c) (b_data b) = Inr (b_data b)
      \<and> fits (Some (c_tkeep c)) (b_keep b) \<and> fits (c_tid c) (b_id b) \<and> fits (c_tdest c) (b_dest b)
      \<and> fits (c_tuser c) (b_user b)" for b
    by (cases b) (auto simp: drive_def bindR_eq_Inr split: if_splits)
  then show ?thesis by (auto simp: drives_def list_all_iff)
qed

lemma plain_frame_sendable:
  assumes "plain_frame c a"
  shows "axis_sendable c a" and "axis_eq (axis_frame_of a) (axis_image c a)"
proof -
  obtain n where n: "c_tdata c = WInt n"
    using assms by (cases "c_tdata c") (auto simp: plain_frame_def)
  let ?f = "configure c (axis_frame_of a)" and ?m = "c_tkeep c"
  let ?e = "configure c (axis_frame_of (ArgBytes []))"
  define xs where "xs = cell_ints (cells_of (f_data ?f))"
  define w where "w = n div ?m"
  let ?k = "length (chunks ?m xs)"
  have pf: "?m dvd n" "lane_frame ?m w xs ?f"
      "list_all (fits (c_tid c)) (map (side_val (f_id ?f)) [0..<?k])"
      "list_all (fits (c_tdest c)) (map (side_val (f_dest ?f)) [0..<?k])"
      "list_all (fits (c_tuser c)) (user_list ?f ?k)"
    using assms by (simp_all add: plain_frame_def n Let_def xs_def w_def)
  have l: "0 < ?m" "xs \<noteq> []" "list_all (in_lane w) xs" "f_WL ?f = WInt w"
    using pf(2) by (auto simp: lane_frame_def)
  obtain bs where bs: "axis_build ?f = Inr bs" "length bs = ?k"
    "map b_data bs = map (\<lambda>c. CInt (lanes_val w c)) (chunks ?m xs)"
    "map b_keep bs = map (\<lambda>c. 2 ^ length c - 1) (chunks ?m xs)"
    "map b_id bs = map (side_val (f_id ?f)) [0..<?k]"
    "map b_dest bs = map (side_val (f_dest ?f)) [0..<?k]"
    "map b_user bs = user_list ?f ?k"
    using axis_build_lanes [OF pf(2)] by auto
  have cyc: "frame_cycles c (axis_frame_of a) = bs" by (simp add: frame_cycles_def bs(1))
  have ch: "x \<noteq> [] \<and> length x \<le> ?m \<and> list_all (in_lane w) x" if "x \<in> set (chunks ?m xs)" for x
    using that l chunks_length [of ?m x xs] chunks_in [of x ?m xs] by (auto simp: list_all_iff)
  have val: "lanes_val w x < 2 ^ n" if "x \<in> set (chunks ?m xs)" for x
  proof -
    have "w * length x \<le> n"
      using ch [OF that] pf(1) by (metis w_def dvd_div_mult_self mult_le_mono2)
    then have "(2 :: int) ^ (w * length x) \<le> 2 ^ n" by simp
    then show ?thesis using lanes_val_less [of w x] ch [OF that] by linarith
  qed
  have mask: "2 ^ length x - 1 < (2 :: int) ^ ?m" if "x \<in> set (chunks ?m xs)" for x
    using ch [OF that] by (smt (verit) power_increasing)
  have "list_all (\<lambda>d. drive_data (c_tdata c) d = Inr d) (map b_data bs)"
    and "list_all (fits (Some ?m)) (map b_keep bs)"
    using ch val mask unfolding bs(3,4)
    by (auto simp: list_all_iff drive_data_def n fits_def lanes_val_nonneg)
  then have "drives c bs"
    using pf(3-5) unfolding drives_alt bs(5-7) by simp
  moreover have "bs \<noteq> []" using bs(2) l by auto
  ultimately have good: "good_frame c (axis_frame_of a)"
    by (simp add: good_frame_def cyc bs(1))
  have keeps: "keeps_ok c True bs"
    using bs(4) by (rule keeps_ok_masks) (use ch l chunks_full in auto)
  have e: "f_B ?e = 0" "f_M ?e = ?m" "f_WL ?e = WInt w"
    using l(4) by (simp_all add: configure_def n)
  obtain g where g: "axis_reparse c bs = Inr g" "axis_eq ?f g"
    using axis_lanes_roundtrip [OF pf(2) e] bs(1) by (auto simp: axis_reparse_def)
  have img: "axis_image c a = g" by (simp add: axis_image_def cyc g(1))
  show "axis_sendable c a"
    using good keeps g(1) by (simp add: axis_sendable_def cyc img Let_def)
  show "axis_eq (axis_frame_of a) (axis_image c a)"
    using g(2) img by (simp add: axis_eq_configure)
qed

section \<open>Properties\<close>

text \<open>
  C1: an AXI stream source and sink on one bus deliver every frame: whatever frames that fit the
  bus are sent, interleaved in any way with clock edges on which either end is paused, then after
  enough further edges without pauses (two per cycle of the frames; paused edges may lie between
  them) the source is idle, no assertion has failed, and the sink's queue holds exactly one frame
  for each frame sent, in order, each equal to it under \<open>__eq__\<close>.
\<close>

theorem axis_link_delivers_frames:
  assumes "list_all (plain_frame c) (sent es)" "sent es' = []"
    and "2 * length (concat (map (\<lambda>a. frame_beats c (axis_frame_of a)) (sent es))) \<le> free_ticks es'"
  shows "\<exists>s k. link_run (axis_link c) (es @ es') (axis_source0 c, axis_sink0) = Inr (s, k)
    \<and> axis_source_idle s \<and> list_all2 axis_eq (map axis_frame_of (sent es)) (snk_queue k)"
proof -
  have ok: "list_all (axis_sendable c) (sent es)"
    and eq: "list_all (\<lambda>a. axis_eq (axis_frame_of a) (axis_image c a)) (sent es)"
    using assms(1) plain_frame_sendable by (auto simp: list_all_iff)
  obtain s k where run: "link_run (axis_link c) (es @ es') (axis_source0 c, axis_sink0) = Inr (s, k)"
    and p: "axis_pending c s = []" and q: "snk_queue k = map (axis_image c) (sent es)"
    using axis_bus.link_delivers [OF axis_link_init ok assms(2,3)] by (auto simp: axis_link_def)
  have "axis_src_inv c s"
    using axis_bus.link_run_inv [OF axis_link_init, of c "es @ es'"] ok assms(2) run
    by (auto simp: axis_link_def axis_bus.link_inv_def)
  then have "axis_source_idle s"
    using p by (cases "src_queue s")
      (auto simp: axis_pending_def axis_source_idle_def axis_src_inv_def good_frame_def
        frame_beats_def split: if_splits elim: with_last.elims)
  moreover have "list_all2 axis_eq (map axis_frame_of (sent es)) (snk_queue k)"
    using eq q by (simp add: list_all2_conv_all_nth list_all_length)
  ultimately show ?thesis using run by blast
qed

theorem axis_link_delivers_frames_witness:
  "let c = \<lparr>c_tdata = WInt 16, c_tkeep = 2, c_tid = None, c_tdest = None, c_tuser = Some 1\<rparr>;
       es = [Send (ArgBytes [1, 2, 3]), Tick True False, Tick False True, Send (ArgBytes [4])];
       es' = replicate 6 (Tick False False)
   in \<exists>s k. link_run (axis_link c) (es @ es') (axis_source0 c, axis_sink0) = Inr (s, k)
    \<and> axis_source_idle s
    \<and> list_all2 axis_eq [axis_frame_of (ArgBytes [1, 2, 3]), axis_frame_of (ArgBytes [4])] (snk_queue k)"
proof -
  let ?c = "\<lparr>c_tdata = WInt 16, c_tkeep = 2, c_tid = None, c_tdest = None, c_tuser = Some 1\<rparr>"
  let ?es = "[Send (ArgBytes [1, 2, 3]), Tick True False, Tick False True, Send (ArgBytes [4])]"
  have "list_all (plain_frame ?c) (sent ?es)" by code_simp
  moreover have "sent (replicate 6 (Tick False False)) = ([] :: frame_arg list)" by code_simp
  moreover have "2 * length (concat (map (\<lambda>a. frame_beats ?c (axis_frame_of a)) (sent ?es)))
      \<le> free_ticks (replicate 6 (Tick False False) :: frame_arg link_event list)" by code_simp
  ultimately show ?thesis
    using axis_link_delivers_frames [of ?c ?es "replicate 6 (Tick False False)"]
    by (simp add: Let_def)
qed

text \<open>
  C8: nothing is lost, duplicated or reordered at any moment: after any such history, the beats
  the sink has taken, followed by those the source still holds (on the bus, in the frame it is
  sending and in its queue), are exactly the beats of the frames sent so far; and a sink that sees
  \<open>tvalid\<close> has \<open>tready_int\<close> set, so that both ends agree on which beats are transferred.
\<close>

theorem axis_link_conserves_beats:
  assumes "list_all (plain_frame c) (sent es)"
  shows "\<exists>s k taken. link_run (axis_link c) es (axis_source0 c, axis_sink0) = Inr (s, k)
    \<and> take_all c taken axis_sink0 = Inr (k\<lparr>snk_tready_int := False\<rparr>)
    \<and> taken @ axis_pending c s = concat (map (\<lambda>a. frame_beats c (axis_frame_of a)) (sent es))
    \<and> (sig_tvalid s \<longrightarrow> snk_tready_int k)"
proof -
  have ok: "list_all (axis_sendable c) (sent es)"
    using assms plain_frame_sendable by (auto simp: list_all_iff)
  show ?thesis
    using axis_bus.link_run_inv [OF axis_link_init ok]
    by (auto simp: axis_link_def axis_bus.link_inv_def axis_absorbed_def axis_offered_def
        axis_tready_def)
qed

theorem axis_link_conserves_beats_witness:
  "let c = \<lparr>c_tdata = WInt 16, c_tkeep = 2, c_tid = None, c_tdest = None, c_tuser = Some 1\<rparr>
   in \<exists>s k taken. link_run (axis_link c) [Send (ArgBytes [1, 2, 3]), Tick False True, Tick True False]
        (axis_source0 c, axis_sink0) = Inr (s, k)
    \<and> taken @ axis_pending c s = frame_beats c (axis_frame_of (ArgBytes [1, 2, 3]))"
proof -
  let ?c = "\<lparr>c_tdata = WInt 16, c_tkeep = 2, c_tid = None, c_tdest = None, c_tuser = Some 1\<rparr>"
  let ?es = "[Send (ArgBytes [1, 2, 3]), Tick False True, Tick True False]"
  have "list_all (plain_frame ?c) (sent ?es)" by code_simp
  then show ?thesis using axis_link_conserves_beats [of ?c ?es] by (auto simp: Let_def)
qed

text \<open>
  an offer stands until it is taken: in every state a source reaches, once \<open>tvalid\<close> is high
  and \<open>tready\<close> low, the next clock edge leaves \<open>tvalid\<close> high and \<open>tdata\<close>, \<open>tkeep\<close>, \<open>tid\<close>, \<open>tdest\<close>,
  \<open>tuser\<close> and \<open>tlast\<close> unchanged, even when the source is paused meanwhile.
\<close>

theorem axis_source_stable:
  assumes "list_all (plain_frame c) (sent es)"
    and "link_run (axis_link c) es (axis_source0 c, axis_sink0) = Inr (s, k)" "sig_tvalid s"
  shows "\<exists>s'. axis_source_step c False pause False s = Inr s' \<and> sig_tvalid s'
    \<and> sig_beat s' = sig_beat s \<and> sig_tlast s' = sig_tlast s"
proof -
  have "list_all (axis_sendable c) (sent es)"
    using assms(1) plain_frame_sendable by (auto simp: list_all_iff)
  then have inv: "axis_src_inv c s"
    using axis_bus.link_run_inv [OF axis_link_init] assms(2)
    by (fastforce simp: axis_link_def axis_bus.link_inv_def)
  then obtain s' where s': "axis_source_step c False pause False s = Inr s'"
    using axis_src.step_inv by blast
  have "axis_offered s = Some (sig_beat s, sig_tlast s)" using assms(3) by (simp add: axis_offered_def)
  from axis_src.step_stable [OF inv this s'] show ?thesis
    using s' by (auto simp: axis_offered_def split: if_splits)
qed

theorem axis_source_stable_witness:
  "let c = \<lparr>c_tdata = WInt 16, c_tkeep = 2, c_tid = None, c_tdest = None, c_tuser = Some 1\<rparr>
   in \<exists>s k s'. link_run (axis_link c) [Send (ArgBytes [1, 2, 3]), Tick False False]
        (axis_source0 c, axis_sink0) = Inr (s, k)
      \<and> axis_source_step c False True False s = Inr s' \<and> sig_beat s' = sig_beat s \<and> sig_tvalid s'"
proof -
  let ?c = "\<lparr>c_tdata = WInt 16, c_tkeep = 2, c_tid = None, c_tdest = None, c_tuser = Some 1\<rparr>"
  let ?es = "[Send (ArgBytes [1, 2, 3]), Tick False False]"
  have p: "list_all (plain_frame ?c) (sent ?es)" by code_simp
  have "case link_run (axis_link ?c) ?es (axis_source0 ?c, axis_sink0) of
      Inl e \<Rightarrow> False | Inr (s, k) \<Rightarrow> sig_tvalid s" by code_simp
  then obtain s k where "link_run (axis_link ?c) ?es (axis_source0 ?c, axis_sink0) = Inr (s, k)"
    "sig_tvalid s" by (auto split: sum.splits)
  then show ?thesis
    using axis_source_stable [OF p, of s k True] by (auto simp: Let_def)
qed

text \<open>
  an empty frame stops the simulation: when a source that is not sending takes a frame
  without data from its queue, \<open>build\<close> returns empty lists and \<open>data.pop(0)\<close> raises
  \<open>IndexError\<close>; with \<open>last_cycle_user\<close> set, \<open>build\<close> raises it itself.
\<close>

theorem axis_source_empty_frame:
  assumes "\<not> src_active s" "\<not> sig_tvalid s" "src_queue s = f # q" "cells_of (f_data f) = []"
  shows "axis_source_step c False pause tready s = Inl IndexError"
proof -
  have "build_loop (configure c f) [] 0 = Inr []" by (simp add: build_loop.simps)
  then have "axis_build (configure c f) \<in> {Inr [], Inl IndexError}"
    using assms(4) by (auto simp: axis_build_def split: option.splits)
  then show ?thesis
    using assms by (auto simp: axis_source_step_def put_beat_def)
qed

theorem axis_source_empty_frame_witness:
  "axis_source_step \<lparr>c_tdata = WInt 8, c_tkeep = 1, c_tid = None, c_tdest = None, c_tuser = None\<rparr>
     False False True
     (axis_source_send (ArgBytes [])
       (axis_source0 \<lparr>c_tdata = WInt 8, c_tkeep = 1, c_tid = None, c_tdest = None, c_tuser = None\<rparr>))
   = Inl IndexError"
  by (rule axis_source_empty_frame [where f = "axis_frame_of (ArgBytes [])" and q = "[]"])
    (simp_all add: axis_source_send_def axis_source0_def AXIStreamFrame_def cells_of_def)

lemma read_loop_eq: "read_loop q rq = rq @ concat (map (\<lambda>f. cells_of (f_data f)) q)"
  by (induction q arbitrary: rq) simp_all

text \<open>
  \<open>read\<close> cuts the received data anywhere without losing any: reading \<open>n\<close> elements and then the
  rest gives the elements left over by earlier reads followed by the data of the queued frames in
  order, the first part has \<open>n\<close> elements where that many are there, and the sink is empty after.
\<close>

theorem axis_sink_read_all:
  assumes "0 \<le> n"
  shows "let all = snk_read_queue k @ concat (map (\<lambda>f. cells_of (f_data f)) (snk_queue k));
      (d1, k1) = axis_sink_read n k; (d2, k2) = axis_sink_read (-1) k1
    in d1 @ d2 = all \<and> length d1 = min (nat n) (length all)
      \<and> axis_sink_empty k2 \<and> snk_read_queue k2 = []"
proof -
  have to: "pslice_to xs n = take (nat n) xs" "pslice_to xs (int (length xs)) = xs"
    for xs :: "cell list"
    using assms by (auto simp: pslice_to_def slice_index_def min_def nat_le_iff)
  define all where "all = snk_read_queue k @ concat (map (\<lambda>f. cells_of (f_data f)) (snk_queue k))"
  have rd: "axis_sink_read n k =
      (take (nat n) all, k\<lparr>snk_queue := [], snk_read_queue := drop (nat n) all\<rparr>)"
    using assms unfolding axis_sink_read_def read_loop_eq all_def [symmetric] by (simp add: to)
  have "axis_sink_read (-1) (k\<lparr>snk_queue := [], snk_read_queue := drop (nat n) all\<rparr>) =
      (drop (nat n) all, k\<lparr>snk_queue := [], snk_read_queue := []\<rparr>)"
    by (simp add: axis_sink_read_def to [of "drop (nat n) all", simplified])
  then show ?thesis
    unfolding all_def [symmetric] by (simp add: rd axis_sink_empty_def)
qed

theorem axis_sink_read_all_witness:
  "let k = axis_sink0\<lparr>snk_queue := [axis_frame_of (ArgBytes [1, 2]), axis_frame_of (ArgBytes [3])]\<rparr>;
      all = snk_read_queue k @ concat (map (\<lambda>f. cells_of (f_data f)) (snk_queue k));
      (d1, k1) = axis_sink_read 2 k; (d2, k2) = axis_sink_read (-1) k1
    in d1 @ d2 = all \<and> length d1 = min 2 (length all)
      \<and> axis_sink_empty k2 \<and> snk_read_queue k2 = []"
  using axis_sink_read_all [of 2 "axis_sink0\<lparr>snk_queue :=
      [axis_frame_of (ArgBytes [1, 2]), axis_frame_of (ArgBytes [3])]\<rparr>"] by (simp add: Let_def)

end
