(* ===== verification/Eth_Frame.thy ===== *)
theory Eth_Frame
  imports Axis_Endpoint Pause_Frame
begin

text \<open>
  \<open>EthFrame\<close> of \<open>lib/eth/tb/eth_ep.py\<close>: an Ethernet frame with its header fields, a payload that
  is an AXI stream frame and an optional frame check sequence; building it into bytes and parsing
  it back, with and without the check sequence.

  The three header fields are a record of their own, which the ARP, IP and UDP frames of the other
  endpoint files extend.  A method that assigns to \<open>self\<close> returns the updated record.
\<close>

section \<open>The frame\<close>

record eth_hdr =
  eth_dest_mac :: int
  eth_src_mac :: int
  eth_type :: int

record eth_frame = eth_hdr +
  eth_payload :: axis_frame
  eth_fcs :: "int option"

text \<open>
  The payload setter wraps its argument in a new \<open>AXIStreamFrame\<close>, and every call passes it one
  already: the payload is copied twice.
\<close>

definition payload_setter :: "axis_frame \<Rightarrow> axis_frame" where
  "payload_setter value = axis_frame_of (ArgFrame value)"

definition wrap_payload :: "frame_arg \<Rightarrow> axis_frame" where
  "wrap_payload x = payload_setter (axis_frame_of x)"

text \<open>
  The first argument of the constructor: bytes, an AXI stream frame, another \<open>EthFrame\<close>, or a
  dictionary with the payload and the fields; anything else leaves the payload empty.
\<close>

datatype eth_arg =
    EthBytes bytes
  | EthAxis axis_frame
  | EthCopy eth_frame
  | EthDict frame_arg int int int "int option"
  | EthOther

definition EthFrame :: "eth_arg \<Rightarrow> int \<Rightarrow> int \<Rightarrow> int \<Rightarrow> int option \<Rightarrow> eth_frame" where
  "EthFrame payload dest src type fcs =
     (let self = \<lparr>eth_dest_mac = dest, eth_src_mac = src, eth_type = type,
                  eth_payload = axis_frame_of (ArgBytes []), eth_fcs = fcs\<rparr>
      in case payload of
           EthDict p d s t f \<Rightarrow>
             \<lparr>eth_dest_mac = d, eth_src_mac = s, eth_type = t, eth_payload = wrap_payload p,
              eth_fcs = f\<rparr>
         | EthBytes bs \<Rightarrow> self\<lparr>eth_payload := wrap_payload (ArgBytes bs)\<rparr>
         | EthAxis a \<Rightarrow> self\<lparr>eth_payload := wrap_payload (ArgFrame a)\<rparr>
         | EthCopy e \<Rightarrow>
             \<lparr>eth_dest_mac = eth_dest_mac e, eth_src_mac = eth_src_mac e, eth_type = eth_type e,
              eth_payload = wrap_payload (ArgFrame (eth_payload e)), eth_fcs = eth_fcs e\<rparr>
         | EthOther \<Rightarrow> self)"

abbreviation EthFrame_default :: eth_frame where
  "EthFrame_default \<equiv> EthFrame (EthBytes []) 0 0 0 None"

section \<open>Building\<close>

definition plus_bytes :: "bytes \<Rightarrow> axis_data \<Rightarrow> bytes result" where
  \<comment> \<open>\<open>data += d\<close> for bytes \<open>data\<close>: adding a list raises \<open>TypeError\<close>\<close>
  "plus_bytes data d = (case d of DBytes bs \<Rightarrow> Inr (data @ bs) | DList cs \<Rightarrow> Inl TypeError)"

definition eth_build_axis :: "eth_frame \<Rightarrow> axis_frame result" where
  "eth_build_axis self =
     bindR (pack_Q (eth_dest_mac self)) (\<lambda>d.
     bindR (pack_Q (eth_src_mac self)) (\<lambda>s.
     bindR (pack_H (eth_type self)) (\<lambda>t.
     bindR (plus_bytes (pslice_from d 2 @ pslice_from s 2 @ t) (f_data (eth_payload self))) (\<lambda>data.
       Inr (axis_frame_of (ArgBytes data))))))"

definition bytes_data :: "axis_frame \<Rightarrow> bytes result" where
  \<comment> \<open>the \<open>bytearray\<close> of a frame, for the operations that need one\<close>
  "bytes_data f = plus_bytes [] (f_data f)"

definition eth_calc_fcs :: "eth_frame \<Rightarrow> int result" where
  "eth_calc_fcs self =
     bindR (eth_build_axis self) (\<lambda>frame.
     bindR (bytes_data frame) (\<lambda>data. Inr (zlib_crc32 data AND 0xffffffff)))"

definition eth_update_fcs :: "eth_frame \<Rightarrow> eth_frame result" where
  "eth_update_fcs self = bindR (eth_calc_fcs self) (\<lambda>c. Inr (self\<lparr>eth_fcs := Some c\<rparr>))"

definition eth_build_axis_fcs :: "eth_frame \<Rightarrow> (axis_frame \<times> eth_frame) result" where
  "eth_build_axis_fcs self =
     bindR (if eth_fcs self = None then eth_update_fcs self else Inr self) (\<lambda>self.
     bindR (eth_build_axis self) (\<lambda>frame.
     bindR (bytes_data frame) (\<lambda>data.
     bindR (case eth_fcs self of Some c \<Rightarrow> pack_le 4 c | None \<Rightarrow> Inl StructError) (\<lambda>fcs.
       Inr (axis_frame_of (ArgBytes (data @ fcs)), self)))))"

section \<open>Parsing\<close>

definition eth_parse_axis :: "frame_arg \<Rightarrow> eth_frame \<Rightarrow> eth_frame result" where
  "eth_parse_axis data self =
     bindR (bytes_data (axis_frame_of data)) (\<lambda>data.
     bindR (unpack_Q ([0, 0] @ pslice data 0 6)) (\<lambda>d.
     bindR (unpack_Q ([0, 0] @ pslice data 6 12)) (\<lambda>s.
     bindR (unpack_H (pslice data 12 14)) (\<lambda>t.
       Inr (self\<lparr>eth_dest_mac := d, eth_src_mac := s, eth_type := t,
                 eth_payload := wrap_payload (ArgBytes (pslice_from data 14))\<rparr>)))))"

definition eth_parse_axis_fcs :: "frame_arg \<Rightarrow> eth_frame \<Rightarrow> eth_frame result" where
  "eth_parse_axis_fcs data self =
     bindR (eth_parse_axis data self) (\<lambda>self.
     bindR (bytes_data (eth_payload self)) (\<lambda>data.
     bindR (unpack_le 4 (pslice_from data (-4))) (\<lambda>fcs.
       Inr (self\<lparr>eth_payload := wrap_payload (ArgBytes (pslice_to data (-4))),
                 eth_fcs := Some fcs\<rparr>))))"

definition eth_eq :: "eth_frame \<Rightarrow> eth_frame \<Rightarrow> bool" where
  "eth_eq self other \<longleftrightarrow>
     eth_src_mac self = eth_src_mac other \<and> eth_dest_mac self = eth_dest_mac other
     \<and> eth_type self = eth_type other \<and> axis_eq (eth_payload self) (eth_payload other)"

section \<open>Layout\<close>

definition eth_bytes :: "'a eth_hdr_scheme \<Rightarrow> bytes \<Rightarrow> bytes" where
  "eth_bytes h payload =
     be_bytes 6 (eth_dest_mac h) @ be_bytes 6 (eth_src_mac h) @ be_bytes 2 (eth_type h) @ payload"

definition eth_hdr_packs :: "'a eth_hdr_scheme \<Rightarrow> bool" where
  \<comment> \<open>what \<open>struct.pack\<close> accepts: addresses are packed in eight bytes\<close>
  "eth_hdr_packs h \<longleftrightarrow> 0 \<le> eth_dest_mac h \<and> eth_dest_mac h < 2 ^ 64 \<and> 0 \<le> eth_src_mac h
     \<and> eth_src_mac h < 2 ^ 64 \<and> 0 \<le> eth_type h \<and> eth_type h < 2 ^ 16"

definition eth_hdr_ok :: "'a eth_hdr_scheme \<Rightarrow> bool" where
  "eth_hdr_ok h \<longleftrightarrow> 0 \<le> eth_dest_mac h \<and> eth_dest_mac h < 2 ^ 48 \<and> 0 \<le> eth_src_mac h
     \<and> eth_src_mac h < 2 ^ 48 \<and> 0 \<le> eth_type h \<and> eth_type h < 2 ^ 16"

lemma eth_hdr_ok_packs: "eth_hdr_ok h \<Longrightarrow> eth_hdr_packs h"
  by (simp add: eth_hdr_ok_def eth_hdr_packs_def)

lemma wrap_payload_data [simp]:
  "f_data (wrap_payload (ArgBytes bs)) = DBytes bs"
  "f_data (wrap_payload (ArgFrame f)) = f_data f"
  "f_data (wrap_payload (ArgList cs)) = DList cs"
  by (simp_all add: wrap_payload_def payload_setter_def AXIStreamFrame_def)

lemma bytes_data_simps [simp]:
  "bytes_data (axis_frame_of (ArgBytes bs)) = Inr bs"
  "f_data f = DBytes bs \<Longrightarrow> bytes_data f = Inr bs"
  "f_data (axis_frame_of (ArgFrame f)) = f_data f"
  by (simp_all add: bytes_data_def plus_bytes_def AXIStreamFrame_def)

lemma eth_build_axis_eq:
  "eth_build_axis self =
     (if \<not> eth_hdr_packs self then Inl StructError
      else case f_data (eth_payload self) of
             DBytes bs \<Rightarrow> Inr (axis_frame_of (ArgBytes (eth_bytes self bs)))
           | DList cs \<Rightarrow> Inl TypeError)"
  by (simp add: eth_build_axis_def eth_hdr_packs_def pack_be_def plus_bytes_def eth_bytes_def
      drop_be_bytes split: axis_data.split)

lemma eth_parse_bytes:
  "eth_parse_axis (ArgBytes (eth_bytes h payload)) self =
     Inr (self\<lparr>eth_dest_mac := eth_dest_mac h mod 2 ^ 48, eth_src_mac := eth_src_mac h mod 2 ^ 48,
               eth_type := eth_type h mod 2 ^ 16, eth_payload := wrap_payload (ArgBytes payload)\<rparr>)"
  by (simp add: eth_parse_axis_def eth_bytes_def unpack_be_def be_val_be_bytes)

lemma eth_parse_frame: "f_data a = DBytes bs \<Longrightarrow> eth_parse_axis (ArgFrame a) = eth_parse_axis (ArgBytes bs)"
  by (rule ext) (simp add: eth_parse_axis_def bytes_data_def plus_bytes_def AXIStreamFrame_def)

lemma eth_parse_frame_of [simp]:
  "eth_parse_axis (ArgFrame (axis_frame_of (ArgBytes bs))) = eth_parse_axis (ArgBytes bs)"
  by (rule eth_parse_frame) (simp add: AXIStreamFrame_def)

lemma side_eq_zero: "x \<in> {SNone, SInt 0} \<Longrightarrow> side_eq part x (SInt 0)"
  by (auto simp: side_eq_def)

text \<open>A payload with plain sideband fields equals its copy rebuilt from the bytes.\<close>

definition plain_sides :: "axis_frame \<Rightarrow> bool" where
  "plain_sides f \<longleftrightarrow> f_id f \<in> {SNone, SInt 0} \<and> f_dest f \<in> {SNone, SInt 0}"

lemma axis_eq_wrap:
  assumes "plain_sides f" "f_data f = DBytes bs"
  shows "axis_eq f (wrap_payload (ArgBytes bs))"
proof -
  have "f_id (wrap_payload (ArgBytes bs)) = SInt 0" "f_dest (wrap_payload (ArgBytes bs)) = SInt 0"
    "f_user (wrap_payload (ArgBytes bs)) = SNone" "f_keep (wrap_payload (ArgBytes bs)) = None"
    "f_last_cycle_user (wrap_payload (ArgBytes bs)) = None"
    by (simp_all add: wrap_payload_def payload_setter_def AXIStreamFrame_def side_or_zero_def)
  then show ?thesis
    using assms by (simp add: axis_eq_def plain_sides_def side_eq_zero) (simp add: side_eq_def)
qed

lemma length_eth_bytes [simp]: "length (eth_bytes h bs) = 14 + length bs"
  by (simp add: eth_bytes_def)

section \<open>Properties\<close>

text \<open>
  parsing what \<open>build_axis\<close> builds gives the frame back: the 14 header bytes and the payload are
  laid out in order, the payload comes back byte for byte, and the frames are equal under
  \<open>__eq__\<close> when the addresses fit 48 bits.  An address that is larger, but fits the eight bytes it
  is packed in, is cut to its low 48 bits without an error.
\<close>

theorem eth_build_parse_roundtrip:
  assumes "eth_hdr_packs f" "f_data (eth_payload f) = DBytes bs"
  shows "\<exists>a g. eth_build_axis f = Inr a \<and> f_data a = DBytes (eth_bytes f bs)
    \<and> eth_parse_axis (ArgFrame a) x = Inr g
    \<and> eth_dest_mac g = eth_dest_mac f mod 2 ^ 48 \<and> eth_src_mac g = eth_src_mac f mod 2 ^ 48
    \<and> eth_type g = eth_type f \<and> f_data (eth_payload g) = DBytes bs
    \<and> (eth_hdr_ok f \<and> plain_sides (eth_payload f) \<longrightarrow> eth_eq f g)"
proof -
  have d: "f_data (axis_frame_of (ArgBytes (eth_bytes f bs))) = DBytes (eth_bytes f bs)"
    by (simp add: AXIStreamFrame_def)
  show ?thesis
    using assms axis_eq_wrap [of "eth_payload f" bs]
    by (intro exI [of _ "axis_frame_of (ArgBytes (eth_bytes f bs))"])
      (auto simp: eth_build_axis_eq d eth_parse_frame [OF d] eth_parse_bytes eth_eq_def
        eth_hdr_ok_def eth_hdr_packs_def)
qed

theorem eth_build_parse_roundtrip_witness:
  "\<exists>a g. eth_build_axis (EthFrame (EthBytes [1, 2, 3]) 0xDAD1D2D3D4D5 0x5A5152535455 0x8000 None)
      = Inr a \<and> eth_parse_axis (ArgFrame a) EthFrame_default = Inr g
    \<and> eth_dest_mac g = 0xDAD1D2D3D4D5 \<and> f_data (eth_payload g) = DBytes [1, 2, 3]"
  using eth_build_parse_roundtrip
    [of "EthFrame (EthBytes [1, 2, 3]) 0xDAD1D2D3D4D5 0x5A5152535455 0x8000 None" "[1, 2, 3]"
        EthFrame_default]
  by (auto simp: EthFrame_def eth_hdr_packs_def)

text \<open>
  C36: \<open>build_axis_fcs\<close> on a frame without a check sequence appends the CRC-32 of the rest: the
  receiver's register over the whole frame ends in the residue, and \<open>parse_axis_fcs\<close> splits the
  frame again into the header, the payload and the check sequence that \<open>build_axis_fcs\<close> stored.
\<close>

theorem eth_fcs_roundtrip:
  assumes "eth_hdr_ok f" "f_data (eth_payload f) = DBytes bs" "eth_fcs f = None"
  shows "\<exists>a f' m g. eth_build_axis_fcs f = Inr (a, f') \<and> f_data a = DBytes m
    \<and> length m = 18 + length bs \<and> crc32_update 0xFFFFFFFF m = 0xDEBB20E3
    \<and> eth_parse_axis_fcs (ArgFrame a) x = Inr g
    \<and> eth_dest_mac g = eth_dest_mac f \<and> eth_src_mac g = eth_src_mac f \<and> eth_type g = eth_type f
    \<and> f_data (eth_payload g) = DBytes bs \<and> eth_fcs g = eth_fcs f' \<and> eth_calc_fcs g = Inr (the (eth_fcs f'))"
proof -
  let ?c = "zlib_crc32 (eth_bytes f bs)"
  let ?f = "f\<lparr>eth_fcs := Some ?c\<rparr>" and ?m = "eth_bytes f bs @ le_bytes 4 ?c"
  note c = zlib_crc32_range [of "eth_bytes f bs"]
  have p: "eth_hdr_packs f" by (rule eth_hdr_ok_packs [OF assms(1)])
  have b: "eth_build_axis f = Inr (axis_frame_of (ArgBytes (eth_bytes f bs)))"
    using p assms(2) by (simp add: eth_build_axis_eq)
  have b': "eth_build_axis ?f = Inr (axis_frame_of (ArgBytes (eth_bytes f bs)))"
    using p assms(2) by (simp add: eth_build_axis_eq eth_hdr_packs_def eth_bytes_def)
  have bf: "eth_build_axis_fcs f = Inr (axis_frame_of (ArgBytes ?m), ?f)"
    using c assms(3)
    by (simp add: eth_build_axis_fcs_def eth_update_fcs_def eth_calc_fcs_def b b' bits_arith)
  have m: "?m = eth_bytes f (bs @ le_bytes 4 ?c)" by (simp add: eth_bytes_def)
  have d: "f_data (axis_frame_of (ArgBytes ?m)) = DBytes ?m" by (simp add: AXIStreamFrame_def)
  have ends: "pslice_from (bs @ le_bytes 4 ?c) (-4) = le_bytes 4 ?c"
    "pslice_to (bs @ le_bytes 4 ?c) (-4) = bs"
    using pslice_from_neg [of 4 "bs @ le_bytes 4 ?c"] pslice_to_neg [of 4 "bs @ le_bytes 4 ?c"]
    by simp_all
  let ?g = "x\<lparr>eth_dest_mac := eth_dest_mac f, eth_src_mac := eth_src_mac f, eth_type := eth_type f,
    eth_payload := wrap_payload (ArgBytes bs), eth_fcs := Some ?c\<rparr>"
  have pf: "eth_parse_axis_fcs (ArgFrame (axis_frame_of (ArgBytes ?m))) x = Inr ?g"
    using assms(1) c ends
    by (simp add: eth_parse_axis_fcs_def m eth_parse_bytes eth_hdr_ok_def)
  have "eth_bytes ?g bs = eth_bytes f bs" "eth_hdr_packs ?g = eth_hdr_packs f"
    by (simp_all add: eth_bytes_def eth_hdr_packs_def)
  then have "eth_calc_fcs ?g = Inr ?c"
    using p c by (simp add: eth_calc_fcs_def eth_build_axis_eq bits_arith)
  then show ?thesis
    using crc_residue [of "eth_bytes f bs"]
    by (intro exI [of _ "axis_frame_of (ArgBytes ?m)"] exI [of _ ?f] exI [of _ ?m] exI [of _ ?g])
      (simp add: bf d pf)
qed

theorem eth_fcs_roundtrip_witness:
  "\<exists>a f' g. eth_build_axis_fcs (EthFrame (EthBytes [1, 2, 3]) 0xDAD1D2D3D4D5 0x5A5152535455 0x8000
      None) = Inr (a, f') \<and> eth_parse_axis_fcs (ArgFrame a) EthFrame_default = Inr g
    \<and> eth_fcs g = eth_fcs f' \<and> f_data (eth_payload g) = DBytes [1, 2, 3]"
  using eth_fcs_roundtrip
    [of "EthFrame (EthBytes [1, 2, 3]) 0xDAD1D2D3D4D5 0x5A5152535455 0x8000 None" "[1, 2, 3]"
        EthFrame_default]
  by (auto simp: EthFrame_def eth_hdr_ok_def)

end
