(* ===== verification/Arp_Endpoint.thy ===== *)
theory Arp_Endpoint
  imports Eth_Frame
begin

text \<open>
  \<open>lib/eth/tb/arp_ep.py\<close>: ARP frames, built into and parsed from Ethernet frames, and the source
  and sink that pass them over a parallel bus with a valid/ready handshake, all fields of a frame
  in one cycle.  The field signals have the default widths of \<open>create_logic\<close>.  The source and sink
  interpret the contract of \<open>Stream_Link\<close>: one beat per frame.
\<close>

section \<open>Frames\<close>

record arp_frame = eth_hdr +
  arp_htype :: int
  arp_ptype :: int
  arp_hlen :: int
  arp_plen :: int
  arp_oper :: int
  arp_sha :: int
  arp_spa :: int
  arp_tha :: int
  arp_tpa :: int

definition ARPFrame :: arp_frame where
  \<comment> \<open>\<open>ARPFrame()\<close>\<close>
  "ARPFrame =
     \<lparr>eth_dest_mac = 0, eth_src_mac = 0, eth_type = 0, arp_htype = 1, arp_ptype = 0x0800,
      arp_hlen = 6, arp_plen = 4, arp_oper = 2, arp_sha = 0x5A5152535455, arp_spa = 0xc0a80164,
      arp_tha = 0xDAD1D2D3D4D5, arp_tpa = 0xc0a80164\<rparr>"

definition ARPFrame_copy :: "arp_frame \<Rightarrow> arp_frame" where
  \<comment> \<open>\<open>ARPFrame(frame)\<close>, for a frame or a dictionary with its fields\<close>
  "ARPFrame_copy f =
     \<lparr>eth_dest_mac = eth_dest_mac f, eth_src_mac = eth_src_mac f, eth_type = eth_type f,
      arp_htype = arp_htype f, arp_ptype = arp_ptype f, arp_hlen = arp_hlen f,
      arp_plen = arp_plen f, arp_oper = arp_oper f, arp_sha = arp_sha f, arp_spa = arp_spa f,
      arp_tha = arp_tha f, arp_tpa = arp_tpa f\<rparr>"

definition arp_build_eth :: "arp_frame \<Rightarrow> eth_frame result" where
  "arp_build_eth self =
     bindR (pack_H (arp_htype self)) (\<lambda>a.
     bindR (pack_H (arp_ptype self)) (\<lambda>b.
     bindR (pack_B (arp_hlen self)) (\<lambda>c.
     bindR (pack_B (arp_plen self)) (\<lambda>d.
     bindR (pack_H (arp_oper self)) (\<lambda>e.
     bindR (pack_Q (arp_sha self)) (\<lambda>f.
     bindR (pack_L (arp_spa self)) (\<lambda>g.
     bindR (pack_Q (arp_tha self)) (\<lambda>h.
     bindR (pack_L (arp_tpa self)) (\<lambda>i.
       Inr (EthFrame
         (EthBytes (a @ b @ c @ d @ e @ pslice_from f 2 @ g @ pslice_from h 2 @ i))
         (eth_dest_mac self) (eth_src_mac self) (eth_type self) None))))))))))"

definition arp_build_axis :: "arp_frame \<Rightarrow> axis_frame result" where
  "arp_build_axis self = bindR (arp_build_eth self) eth_build_axis"

definition arp_parse_eth :: "eth_frame \<Rightarrow> arp_frame \<Rightarrow> arp_frame result" where
  "arp_parse_eth data self =
     bindR (bytes_data (eth_payload data)) (\<lambda>p.
     bindR (unpack_H (pslice p 0 2)) (\<lambda>a.
     bindR (unpack_H (pslice p 2 4)) (\<lambda>b.
     bindR (unpack_B (pslice p 4 5)) (\<lambda>c.
     bindR (unpack_B (pslice p 5 6)) (\<lambda>d.
     bindR (unpack_H (pslice p 6 8)) (\<lambda>e.
     bindR (unpack_Q ([0, 0] @ pslice p 8 14)) (\<lambda>f.
     bindR (unpack_L (pslice p 14 18)) (\<lambda>g.
     bindR (unpack_Q ([0, 0] @ pslice p 18 24)) (\<lambda>h.
     bindR (unpack_L (pslice p 24 28)) (\<lambda>i.
       Inr (self\<lparr>eth_src_mac := eth_src_mac data, eth_dest_mac := eth_dest_mac data,
                 eth_type := eth_type data, arp_htype := a, arp_ptype := b, arp_hlen := c,
                 arp_plen := d, arp_oper := e, arp_sha := f, arp_spa := g, arp_tha := h,
                 arp_tpa := i\<rparr>)))))))))))"

definition arp_parse_axis :: "frame_arg \<Rightarrow> arp_frame \<Rightarrow> arp_frame result" where
  "arp_parse_axis data self =
     bindR (eth_parse_axis data EthFrame_default) (\<lambda>frame. arp_parse_eth frame self)"

definition arp_eq :: "arp_frame \<Rightarrow> arp_frame \<Rightarrow> bool" where
  "arp_eq self other \<longleftrightarrow>
     eth_src_mac self = eth_src_mac other \<and> eth_dest_mac self = eth_dest_mac other
     \<and> eth_type self = eth_type other \<and> arp_htype self = arp_htype other
     \<and> arp_ptype self = arp_ptype other \<and> arp_hlen self = arp_hlen other
     \<and> arp_plen self = arp_plen other \<and> arp_oper self = arp_oper other
     \<and> arp_sha self = arp_sha other \<and> arp_spa self = arp_spa other
     \<and> arp_tha self = arp_tha other \<and> arp_tpa self = arp_tpa other"

section \<open>Source and sink\<close>

definition arp_fits :: "arp_frame \<Rightarrow> bool" where
  \<comment> \<open>the fields fit the signals that carry them\<close>
  "arp_fits f \<longleftrightarrow>
     fits (Some 48) (eth_dest_mac f) \<and> fits (Some 48) (eth_src_mac f) \<and> fits (Some 16) (eth_type f)
     \<and> fits (Some 16) (arp_htype f) \<and> fits (Some 16) (arp_ptype f) \<and> fits (Some 8) (arp_hlen f)
     \<and> fits (Some 8) (arp_plen f) \<and> fits (Some 16) (arp_oper f) \<and> fits (Some 48) (arp_sha f)
     \<and> fits (Some 32) (arp_spa f) \<and> fits (Some 48) (arp_tha f) \<and> fits (Some 32) (arp_tpa f)"

record arp_source =
  as_active :: bool
  as_queue :: "arp_frame list"
  as_sig :: arp_frame
  as_valid :: bool

definition arp_source0 :: arp_source where
  "arp_source0 = \<lparr>as_active = False, as_queue = [], as_sig = ARPFrame, as_valid = False\<rparr>"

definition arp_source_send :: "arp_frame \<Rightarrow> arp_source \<Rightarrow> arp_source" where
  "arp_source_send frame self = self\<lparr>as_queue := as_queue self @ [ARPFrame_copy frame]\<rparr>"

definition arp_source_idle :: "arp_source \<Rightarrow> bool" where
  "arp_source_idle self \<longleftrightarrow> as_queue self = [] \<and> \<not> as_active self"

definition arp_source_step :: "bool \<Rightarrow> bool \<Rightarrow> bool \<Rightarrow> arp_source \<Rightarrow> arp_source result" where
  "arp_source_step rst pause ready self =
     (if rst then Inr (self\<lparr>as_valid := False, as_active := False\<rparr>)
      else
        let valid = as_valid self;
            self = self\<lparr>as_valid := as_active self \<and> (valid \<or> \<not> pause)\<rparr>;
            self = (if ready \<and> valid then self\<lparr>as_valid := False, as_active := False\<rparr> else self)
        in if \<not> as_active self \<and> as_queue self \<noteq> [] then
             bindR (pop0 (as_queue self)) (\<lambda>(frame, q).
               if arp_fits frame
               then Inr (self\<lparr>as_queue := q, as_sig := frame, as_valid := \<not> pause,
                              as_active := True\<rparr>)
               else Inl ValueError)
           else Inr self)"

definition arp_offered :: "arp_source \<Rightarrow> arp_frame option" where
  "arp_offered self = (if as_valid self then Some (as_sig self) else None)"

record arp_sink =
  ak_queue :: "arp_frame list"
  ak_ready_int :: bool

definition arp_sink0 :: arp_sink where
  "arp_sink0 = \<lparr>ak_queue = [], ak_ready_int = False\<rparr>"

definition arp_ready :: "bool \<Rightarrow> arp_sink \<Rightarrow> bool" where
  "arp_ready pause self \<longleftrightarrow> ak_ready_int self \<and> \<not> pause"

definition arp_sink_step :: "bool \<Rightarrow> bool \<Rightarrow> arp_frame option \<Rightarrow> arp_sink \<Rightarrow> arp_sink result" where
  "arp_sink_step rst pause bus self =
     (if rst then Inr (self\<lparr>ak_ready_int := False\<rparr>)
      else case bus of
        Some frame \<Rightarrow>
          if ak_ready_int self \<and> \<not> pause
          then Inr (self\<lparr>ak_ready_int := True, ak_queue := ak_queue self @ [frame]\<rparr>)
          else Inr (self\<lparr>ak_ready_int := True\<rparr>)
      | None \<Rightarrow> Inr (self\<lparr>ak_ready_int := True\<rparr>))"

definition arp_sink_recv :: "arp_sink \<Rightarrow> arp_frame option \<times> arp_sink" where
  "arp_sink_recv self =
     (case ak_queue self of [] \<Rightarrow> (None, self) | f # q \<Rightarrow> (Some f, self\<lparr>ak_queue := q\<rparr>))"

definition arp_link :: "(arp_source, arp_sink, arp_frame, arp_frame) link" where
  "arp_link =
     \<lparr>l_src = arp_source_step False, l_offered = arp_offered, l_send = arp_source_send,
      l_snk = arp_sink_step False, l_ready = arp_ready\<rparr>"

section \<open>The contract\<close>

definition arp_pending :: "arp_source \<Rightarrow> arp_frame list" where
  "arp_pending s = (if as_active s then [as_sig s] else []) @ as_queue s"

definition arp_src_inv :: "arp_source \<Rightarrow> bool" where
  "arp_src_inv s \<longleftrightarrow> (as_valid s \<longrightarrow> as_active s) \<and> list_all arp_fits (as_queue s)"

lemma ARPFrame_copy_id [simp]: "ARPFrame_copy f = f"
  by (simp add: ARPFrame_copy_def)

lemma arp_source_step_cases:
  assumes "arp_src_inv s"
  shows "arp_source_step False p r s =
    Inr (if as_active s \<and> \<not> (r \<and> as_valid s) then s\<lparr>as_valid := as_valid s \<or> \<not> p\<rparr>
         else case as_queue s of
             [] \<Rightarrow> s\<lparr>as_valid := False, as_active := False\<rparr>
           | f # q \<Rightarrow> s\<lparr>as_active := True, as_queue := q, as_sig := f, as_valid := \<not> p\<rparr>)"
  using assms
  by (cases "as_active s"; cases "as_valid s"; cases r; cases "as_queue s")
    (simp_all add: arp_source_step_def arp_src_inv_def Let_def)

interpretation arp: stream_link
  "arp_source_step False" arp_offered arp_source_send arp_src_inv arp_pending arp_fits "\<lambda>f. [f]"
  "arp_sink_step False" arp_ready "\<lambda>k bs. ak_queue k = bs" ak_queue "\<lambda>f. f"
proof unfold_locales
  fix s p r
  assume "arp_src_inv s"
  then show "\<exists>s'. arp_source_step False p r s = Inr s' \<and> arp_src_inv s'"
    by (auto simp: arp_source_step_cases arp_src_inv_def split: list.split)
next
  fix s p r s'
  assume "arp_src_inv s" "arp_source_step False p r s = Inr s'"
  then show "arp_pending s' =
      (if r \<and> arp_offered s \<noteq> None then tl (arp_pending s) else arp_pending s)"
    by (auto simp: arp_source_step_cases arp_src_inv_def arp_pending_def arp_offered_def
        split: list.splits if_splits)
next
  fix s b p s'
  assume "arp_src_inv s" "arp_offered s = Some b" "arp_source_step False p False s = Inr s'"
  then show "arp_offered s' = Some b"
    by (auto simp: arp_source_step_cases arp_src_inv_def arp_offered_def split: if_splits)
next
  fix s r s'
  assume "arp_src_inv s" "arp_source_step False False r s = Inr s'" "arp_pending s' \<noteq> []"
  then show "arp_offered s' \<noteq> None"
    by (auto simp: arp_source_step_cases arp_pending_def arp_offered_def
        split: list.splits if_splits)
next
  fix k bs fs and b :: arp_frame
  assume "arp_ready False k" "ak_queue k = bs"
  then show "\<exists>k'. arp_sink_step False False (Some b) k = Inr k' \<and> arp_ready False k'
      \<and> ak_queue k' = bs @ [b]"
    by (simp add: arp_sink_step_def arp_ready_def)
qed (auto simp: arp_src_inv_def arp_source_send_def arp_pending_def arp_offered_def arp_ready_def
    arp_sink_step_def split: if_splits)

lemma arp_link_init: "arp.link_inv [] (arp_source0, arp_sink0)"
  by (rule arp.link_inv_init)
    (simp_all add: arp_src_inv_def arp_source0_def arp_pending_def arp_sink0_def)

section \<open>Properties\<close>

text \<open>
  an ARP frame whose fields fit their sizes survives the way through an Ethernet frame: it
  builds to 14 + 28 bytes, and parsing those gives every field back.
\<close>

theorem arp_build_parse_roundtrip:
  assumes "arp_fits f"
  shows "\<exists>a m g. arp_build_axis f = Inr a \<and> f_data a = DBytes m \<and> length m = 42
    \<and> arp_parse_axis (ArgFrame a) x = Inr g \<and> g = f \<and> arp_eq f g"
proof -
  let ?p = "be_bytes 2 (arp_htype f) @ be_bytes 2 (arp_ptype f) @ be_bytes 1 (arp_hlen f) @
    be_bytes 1 (arp_plen f) @ be_bytes 2 (arp_oper f) @ be_bytes 6 (arp_sha f) @
    be_bytes 4 (arp_spa f) @ be_bytes 6 (arp_tha f) @ be_bytes 4 (arp_tpa f)"
  let ?e = "EthFrame (EthBytes ?p) (eth_dest_mac f) (eth_src_mac f) (eth_type f) None"
  have e: "arp_build_eth f = Inr ?e"
    using assms by (simp add: arp_build_eth_def arp_fits_def fits_def drop_be_bytes)
  have "eth_build_axis ?e = Inr (axis_frame_of (ArgBytes (eth_bytes f ?p)))"
    using assms
    by (simp add: eth_build_axis_eq eth_hdr_packs_def EthFrame_def arp_fits_def fits_def eth_bytes_def)
  then have b: "arp_build_axis f = Inr (axis_frame_of (ArgBytes (eth_bytes f ?p)))"
    by (simp add: arp_build_axis_def e)
  have "arp_parse_axis (ArgFrame (axis_frame_of (ArgBytes (eth_bytes f ?p)))) x = Inr f"
    using assms
    by (simp add: arp_parse_axis_def eth_parse_bytes arp_parse_eth_def arp_fits_def fits_def
        unpack_be_def be_val_be_bytes)
  then show ?thesis
    using b by (intro exI [of _ "axis_frame_of (ArgBytes (eth_bytes f ?p))"])
      (simp add: arp_eq_def, simp add: AXIStreamFrame_def)
qed

theorem arp_build_parse_roundtrip_witness:
  "\<exists>a. arp_build_axis ARPFrame = Inr a \<and> arp_parse_axis (ArgFrame a) ARPFrame = Inr ARPFrame"
  using arp_build_parse_roundtrip [of ARPFrame ARPFrame]
  by (auto simp: ARPFrame_def arp_fits_def fits_def)

text \<open>
  C37: the ARP source and sink deliver every frame that fits the signals exactly once and in order,
  whatever the pauses on either side, once two clock edges without a pause have passed for each
  frame.
\<close>

theorem arp_link_delivers_frames:
  assumes "list_all arp_fits (sent es)" "sent es' = []" "2 * length (sent es) \<le> free_ticks es'"
  shows "\<exists>s k. link_run arp_link (es @ es') (arp_source0, arp_sink0) = Inr (s, k)
    \<and> arp_source_idle s \<and> ak_queue k = sent es"
proof -
  have "length (concat (map (\<lambda>f. [f]) (sent es))) = length (sent es)"
    by (simp add: length_concat sum_list_triv comp_def)
  then show ?thesis
    using arp.link_delivers [OF arp_link_init assms(1,2)] assms(3)
    by (auto simp: arp_link_def arp_pending_def arp_source_idle_def split: if_splits)
qed

theorem arp_link_delivers_frames_witness:
  "\<exists>s k. link_run arp_link
      ([Send ARPFrame, Tick True False, Tick False True] @ [Tick False False, Tick False False])
      (arp_source0, arp_sink0) = Inr (s, k)
    \<and> arp_source_idle s \<and> ak_queue k = [ARPFrame]"
  using arp_link_delivers_frames
    [of "[Send ARPFrame, Tick True False, Tick False True]" "[Tick False False, Tick False False]"]
  by (simp add: arp_fits_def fits_def ARPFrame_def)

end
