(* ===== verification/Ip_Frame.thy ===== *)
theory Ip_Frame
  imports Eth_Frame
begin

text \<open>
  \<open>IPFrame\<close> of \<open>lib/eth/tb/ip_ep.py\<close>: an IPv4 packet, its header checksum, building it into an
  Ethernet frame and parsing it back.  Length and checksum are \<open>None\<close> until \<open>build\<close> fills them
  in.  The header fields are a record that the UDP frames extend, so \<open>calc_checksum\<close> serves both
  (the two files have the same code).

  The checksum is shown to be the Internet checksum: with it in place the 16-bit words of the
  header add up to zero in one's complement.
\<close>

section \<open>The frame\<close>

record ip_hdr = eth_hdr +
  ip_version :: int
  ip_ihl :: int
  ip_dscp :: int
  ip_ecn :: int
  ip_length :: "int option"
  ip_identification :: int
  ip_flags :: int
  ip_fragment_offset :: int
  ip_ttl :: int
  ip_protocol :: int
  ip_header_checksum :: "int option"
  ip_source_ip :: int
  ip_dest_ip :: int

record ip_frame = ip_hdr +
  ip_payload :: axis_frame

definition IPFrame :: ip_frame where
  \<comment> \<open>\<open>IPFrame()\<close>\<close>
  "IPFrame =
     \<lparr>eth_dest_mac = 0, eth_src_mac = 0, eth_type = 0, ip_version = 4, ip_ihl = 5, ip_dscp = 0,
      ip_ecn = 0, ip_length = None, ip_identification = 0, ip_flags = 2, ip_fragment_offset = 0,
      ip_ttl = 64, ip_protocol = 0x11, ip_header_checksum = None, ip_source_ip = 0xc0a80164,
      ip_dest_ip = 0xc0a80165, ip_payload = wrap_payload (ArgBytes [])\<rparr>"

definition IPFrame_of :: "frame_arg \<Rightarrow> 'a ip_hdr_scheme \<Rightarrow> ip_frame" where
  \<comment> \<open>\<open>IPFrame(payload, ...)\<close> with all header fields given\<close>
  "IPFrame_of payload h =
     \<lparr>eth_dest_mac = eth_dest_mac h, eth_src_mac = eth_src_mac h, eth_type = eth_type h,
      ip_version = ip_version h, ip_ihl = ip_ihl h, ip_dscp = ip_dscp h, ip_ecn = ip_ecn h,
      ip_length = ip_length h, ip_identification = ip_identification h, ip_flags = ip_flags h,
      ip_fragment_offset = ip_fragment_offset h, ip_ttl = ip_ttl h, ip_protocol = ip_protocol h,
      ip_header_checksum = ip_header_checksum h, ip_source_ip = ip_source_ip h,
      ip_dest_ip = ip_dest_ip h, ip_payload = wrap_payload payload\<rparr>"

definition IPFrame_copy :: "ip_frame \<Rightarrow> ip_frame" where
  \<comment> \<open>\<open>IPFrame(frame)\<close>\<close>
  "IPFrame_copy f = IPFrame_of (ArgFrame (ip_payload f)) f"

definition data_len :: "axis_frame \<Rightarrow> int" where
  "data_len f = int (length (cells_of (f_data f)))"

section \<open>Length and checksum\<close>

definition ip_update_length :: "ip_frame \<Rightarrow> ip_frame" where
  "ip_update_length self = self\<lparr>ip_length := Some (data_len (ip_payload self) + 20)\<rparr>"

definition fold_carry :: "int \<Rightarrow> int" where
  "fold_carry cksum = (cksum AND 0xffff) + shr cksum 16"

text \<open>The sum of the header words before the carries are folded in.\<close>

definition ip_sum :: "'a ip_hdr_scheme \<Rightarrow> int \<Rightarrow> int" where
  "ip_sum self len =
     (shl (ip_version self) 12 OR shl (ip_ihl self) 8 OR shl (ip_dscp self) 2 OR ip_ecn self)
     + len
     + ip_identification self
     + (shl (ip_flags self) 13 OR ip_fragment_offset self)
     + (shl (ip_ttl self) 8 OR ip_protocol self)
     + (ip_source_ip self AND 0xffff)
     + (shr (ip_source_ip self) 16 AND 0xffff)
     + (ip_dest_ip self AND 0xffff)
     + (shr (ip_dest_ip self) 16 AND 0xffff)"

definition calc_checksum :: "'a ip_hdr_scheme \<Rightarrow> int result" where
  "calc_checksum self =
     (case ip_length self of
        None \<Rightarrow> Inl TypeError
      | Some len \<Rightarrow> Inr (NOT (fold_carry (fold_carry (ip_sum self len))) AND 0xffff))"

definition update_checksum :: "'a ip_hdr_scheme \<Rightarrow> 'a ip_hdr_scheme result" where
  "update_checksum self = bindR (calc_checksum self) (\<lambda>c. Inr (self\<lparr>ip_header_checksum := Some c\<rparr>))"

definition verify_checksum :: "'a ip_hdr_scheme \<Rightarrow> bool result" where
  "verify_checksum self = bindR (calc_checksum self) (\<lambda>c. Inr (ip_header_checksum self = Some c))"

definition ip_build :: "ip_frame \<Rightarrow> ip_frame result" where
  "ip_build self =
     (let self = (if ip_length self = None then ip_update_length self else self)
      in if ip_header_checksum self = None then update_checksum self else Inr self)"

section \<open>Building and parsing\<close>

definition pack_opt :: "nat \<Rightarrow> int option \<Rightarrow> bytes result" where
  \<comment> \<open>\<open>struct.pack\<close> of a field that may still be \<open>None\<close>\<close>
  "pack_opt n x = (case x of None \<Rightarrow> Inl StructError | Some v \<Rightarrow> pack_be n v)"

definition ip_pack_header :: "'a ip_hdr_scheme \<Rightarrow> bytes result" where
  "ip_pack_header self =
     bindR (pack_B (shl (ip_version self) 4 OR ip_ihl self)) (\<lambda>a.
     bindR (pack_B (shl (ip_dscp self) 2 OR ip_ecn self)) (\<lambda>b.
     bindR (pack_opt 2 (ip_length self)) (\<lambda>c.
     bindR (pack_H (ip_identification self)) (\<lambda>d.
     bindR (pack_H (shl (ip_flags self) 13 OR ip_fragment_offset self)) (\<lambda>e.
     bindR (pack_B (ip_ttl self)) (\<lambda>f.
     bindR (pack_B (ip_protocol self)) (\<lambda>g.
     bindR (pack_opt 2 (ip_header_checksum self)) (\<lambda>h.
     bindR (pack_L (ip_source_ip self)) (\<lambda>i.
     bindR (pack_L (ip_dest_ip self)) (\<lambda>j.
       Inr (a @ b @ c @ d @ e @ f @ g @ h @ i @ j)))))))))))"

definition ip_build_eth :: "ip_frame \<Rightarrow> (eth_frame \<times> ip_frame) result" where
  "ip_build_eth self =
     bindR (ip_build self) (\<lambda>self.
     bindR (ip_pack_header self) (\<lambda>data.
     bindR (plus_bytes data (f_data (ip_payload self))) (\<lambda>data.
       Inr (EthFrame (EthBytes data) (eth_dest_mac self) (eth_src_mac self) (eth_type self) None,
            self))))"

definition ip_build_axis :: "ip_frame \<Rightarrow> (axis_frame \<times> ip_frame) result" where
  "ip_build_axis self =
     bindR (ip_build_eth self) (\<lambda>(e, self). bindR (eth_build_axis e) (\<lambda>a. Inr (a, self)))"

definition ip_parse_eth :: "eth_frame \<Rightarrow> ip_frame \<Rightarrow> ip_frame result" where
  "ip_parse_eth data self =
     bindR (bytes_data (eth_payload data)) (\<lambda>p.
     bindR (unpack_B (pslice p 0 1)) (\<lambda>v0.
     bindR (unpack_B (pslice p 1 2)) (\<lambda>v1.
     bindR (unpack_H (pslice p 2 4)) (\<lambda>len.
     bindR (unpack_H (pslice p 4 6)) (\<lambda>ident.
     bindR (unpack_H (pslice p 6 8)) (\<lambda>v6.
     bindR (unpack_B (pslice p 8 9)) (\<lambda>ttl.
     bindR (unpack_B (pslice p 9 10)) (\<lambda>proto.
     bindR (unpack_H (pslice p 10 12)) (\<lambda>ck.
     bindR (unpack_L (pslice p 12 16)) (\<lambda>src.
     bindR (unpack_L (pslice p 16 20)) (\<lambda>dst.
       Inr (self\<lparr>eth_src_mac := eth_src_mac data, eth_dest_mac := eth_dest_mac data,
                 eth_type := eth_type data, ip_version := shr v0 4 AND 0xF, ip_ihl := v0 AND 0xF,
                 ip_dscp := shr v1 2 AND 0x3F, ip_ecn := v1 AND 0x3, ip_length := Some len,
                 ip_identification := ident, ip_flags := shr v6 13 AND 0x7,
                 ip_fragment_offset := v6 AND 0x1FFF, ip_ttl := ttl, ip_protocol := proto,
                 ip_header_checksum := Some ck, ip_source_ip := src, ip_dest_ip := dst,
                 ip_payload := wrap_payload (ArgBytes (pslice p 20 len))\<rparr>))))))))))))"

definition ip_parse_axis :: "frame_arg \<Rightarrow> ip_frame \<Rightarrow> ip_frame result" where
  "ip_parse_axis data self =
     bindR (eth_parse_axis data EthFrame_default) (\<lambda>frame. ip_parse_eth frame self)"

definition ip_hdr_eq :: "'a ip_hdr_scheme \<Rightarrow> 'b ip_hdr_scheme \<Rightarrow> bool" where
  "ip_hdr_eq self other \<longleftrightarrow>
     eth_src_mac self = eth_src_mac other \<and> eth_dest_mac self = eth_dest_mac other
     \<and> eth_type self = eth_type other \<and> ip_version self = ip_version other
     \<and> ip_ihl self = ip_ihl other \<and> ip_dscp self = ip_dscp other \<and> ip_ecn self = ip_ecn other
     \<and> ip_length self = ip_length other \<and> ip_identification self = ip_identification other
     \<and> ip_flags self = ip_flags other \<and> ip_fragment_offset self = ip_fragment_offset other
     \<and> ip_ttl self = ip_ttl other \<and> ip_protocol self = ip_protocol other
     \<and> ip_header_checksum self = ip_header_checksum other
     \<and> ip_source_ip self = ip_source_ip other \<and> ip_dest_ip self = ip_dest_ip other"

definition ip_eq :: "ip_frame \<Rightarrow> ip_frame \<Rightarrow> bool" where
  "ip_eq self other \<longleftrightarrow> ip_hdr_eq self other \<and> axis_eq (ip_payload self) (ip_payload other)"

section \<open>Headers in range and their bytes\<close>

definition ip_hdr_ok :: "'a ip_hdr_scheme \<Rightarrow> bool" where
  "ip_hdr_ok h \<longleftrightarrow>
     eth_hdr_ok h \<and> in_lane 4 (ip_version h) \<and> in_lane 4 (ip_ihl h) \<and> in_lane 6 (ip_dscp h)
     \<and> in_lane 2 (ip_ecn h) \<and> in_lane 16 (ip_identification h) \<and> in_lane 3 (ip_flags h)
     \<and> in_lane 13 (ip_fragment_offset h) \<and> in_lane 8 (ip_ttl h) \<and> in_lane 8 (ip_protocol h)
     \<and> in_lane 32 (ip_source_ip h) \<and> in_lane 32 (ip_dest_ip h)"

definition ip_bytes :: "'a ip_hdr_scheme \<Rightarrow> int \<Rightarrow> int \<Rightarrow> bytes" where
  "ip_bytes h len ck =
     be_bytes 1 (ip_version h * 16 + ip_ihl h) @ be_bytes 1 (ip_dscp h * 4 + ip_ecn h) @
     be_bytes 2 len @ be_bytes 2 (ip_identification h) @
     be_bytes 2 (ip_flags h * 8192 + ip_fragment_offset h) @ be_bytes 1 (ip_ttl h) @
     be_bytes 1 (ip_protocol h) @ be_bytes 2 ck @ be_bytes 4 (ip_source_ip h) @
     be_bytes 4 (ip_dest_ip h)"

text \<open>The sum of the big-endian 16-bit words of a byte string, an odd last byte padded with zero.\<close>

fun word_sum :: "bytes \<Rightarrow> int" where
  "word_sum [] = 0"
| "word_sum [a] = uint a * 256"
| "word_sum (a # b # bs) = uint a * 256 + uint b + word_sum bs"

section \<open>The Internet checksum\<close>

lemma fold_carry_arith: "fold_carry c = c mod 65536 + c div 65536"
  by (simp add: fold_carry_def bits_arith)

lemma fold_carry_mod: "fold_carry c mod 65535 = c mod 65535"
proof -
  have "c = c div 65536 * 65536 + c mod 65536" by simp
  also have "\<dots> = fold_carry c + 65535 * (c div 65536)" by (simp add: fold_carry_arith)
  finally show ?thesis by (metis mod_mult_self2)
qed

lemma fold_twice:
  assumes "0 \<le> c" "c < 2 ^ 32"
  shows "0 \<le> fold_carry (fold_carry c)" "fold_carry (fold_carry c) \<le> 65535"
    and "fold_carry (fold_carry c) mod 65535 = c mod 65535"
    and "0 < c \<Longrightarrow> 0 < fold_carry (fold_carry c)"
proof -
  have one: "0 \<le> fold_carry c" "fold_carry c \<le> 131070"
    using assms by (auto simp: fold_carry_arith)
  show "0 \<le> fold_carry (fold_carry c)" using one by (simp add: fold_carry_arith)
  show "fold_carry (fold_carry c) \<le> 65535"
  proof (cases "fold_carry c < 65536")
    case True
    then show ?thesis using one by (simp add: fold_carry_arith [of "fold_carry c"])
  next
    case False
    then have "fold_carry c div 65536 = 1" using one by (intro int_div_pos_eq [of _ _ _ "fold_carry c - 65536"]) simp_all
    moreover from this have "fold_carry c mod 65536 = fold_carry c - 65536"
      by (simp add: minus_mult_div_eq_mod [symmetric])
    ultimately
    show ?thesis using one by (simp add: fold_carry_arith [of "fold_carry c"])
  qed
  show "fold_carry (fold_carry c) mod 65535 = c mod 65535" by (simp add: fold_carry_mod)
  have pos: "0 < fold_carry d" if "0 < d" for d
  proof -
    have "d = d div 65536 * 65536 + d mod 65536" "0 \<le> d div 65536" "0 \<le> d mod 65536"
      using that by (simp_all add: pos_imp_zdiv_nonneg_iff)
    then show ?thesis using that unfolding fold_carry_arith by linarith
  qed
  show "0 < c \<Longrightarrow> 0 < fold_carry (fold_carry c)" by (intro pos)
qed

lemma not_mask16: "0 \<le> x \<Longrightarrow> x \<le> 65535 \<Longrightarrow> NOT x AND 0xffff = 65535 - (x :: int)"
  using mod_add_self2 [of "- x - 1" 65536] by (simp add: bits_arith not_int_def)

text \<open>The complement of a folded sum makes the whole a positive multiple of \<open>65535\<close>.\<close>

lemma checksum_complement:
  assumes "0 < c" "c < 2 ^ 32"
  defines "k \<equiv> NOT (fold_carry (fold_carry c)) AND 0xffff"
  shows "0 \<le> k" "k < 65535" "(c + k) mod 65535 = 0"
proof -
  let ?f = "fold_carry (fold_carry c)"
  have f: "0 < ?f" "?f \<le> 65535" "?f mod 65535 = c mod 65535"
    using fold_twice [of c] assms(1,2) by simp_all
  have k: "k = 65535 - ?f" unfolding k_def using f by (intro not_mask16) simp_all
  show "0 \<le> k" "k < 65535" using f k by simp_all
  have "(c + k) mod 65535 = (?f + k) mod 65535" using f(3) by (metis mod_add_left_eq)
  then show "(c + k) mod 65535 = 0" using k by simp
qed

section \<open>The header sum is the sum of the header words\<close>

lemma be_bytes_1: "be_bytes 1 x = [word_of_int x]"
  by (simp add: be_bytes_def)

lemma be_bytes_2: "be_bytes 2 x = [word_of_int (x div 256), word_of_int x]"
  by (simp add: be_bytes_def numeral_2_eq_2)

lemma be_bytes_4:
  "be_bytes 4 x = [word_of_int (x div 16777216), word_of_int (x div 65536),
     word_of_int (x div 256), word_of_int x]"
  by (simp add: be_bytes_def numeral_eq_Suc zdiv_zmult2_eq [symmetric])

lemma word16_split: "0 \<le> x \<Longrightarrow> x < 65536 \<Longrightarrow> x div 256 mod 256 * 256 + x mod 256 = (x :: int)"
  by (simp add: mod_pos_pos_trivial)

lemma ip_hdr_okD:
  assumes "ip_hdr_ok h"
  shows "0 \<le> ip_version h" "ip_version h < 16" "0 \<le> ip_ihl h" "ip_ihl h < 16"
    "0 \<le> ip_dscp h" "ip_dscp h < 64" "0 \<le> ip_ecn h" "ip_ecn h < 4"
    "0 \<le> ip_identification h" "ip_identification h < 65536" "0 \<le> ip_flags h" "ip_flags h < 8"
    "0 \<le> ip_fragment_offset h" "ip_fragment_offset h < 8192" "0 \<le> ip_ttl h" "ip_ttl h < 256"
    "0 \<le> ip_protocol h" "ip_protocol h < 256" "0 \<le> ip_source_ip h" "ip_source_ip h < 2 ^ 32"
    "0 \<le> ip_dest_ip h" "ip_dest_ip h < 2 ^ 32"
  using assms by (simp_all add: ip_hdr_ok_def in_lane_def)

lemma high16:
  assumes "0 \<le> x" "x < (2 :: int) ^ 32"
  shows "0 \<le> x div 65536" "x div 65536 < 65536" "x div 65536 mod 65536 = x div 65536"
proof -
  show ge: "0 \<le> x div 65536" using assms by (simp add: pos_imp_zdiv_nonneg_iff)
  show lt: "x div 65536 < 65536" using zdiv_mono1 [of x "2 ^ 32 - 1" 65536] assms by simp
  show "x div 65536 mod 65536 = x div 65536" using ge lt by (rule mod_pos_pos_trivial)
qed

lemma ip_sum_arith:
  assumes "ip_hdr_ok h"
  shows "ip_sum h len =
    (ip_version h * 16 + ip_ihl h) * 256 + (ip_dscp h * 4 + ip_ecn h) + len + ip_identification h
    + (ip_flags h * 8192 + ip_fragment_offset h) + (ip_ttl h * 256 + ip_protocol h)
    + ip_source_ip h mod 65536 + ip_source_ip h div 65536
    + ip_dest_ip h mod 65536 + ip_dest_ip h div 65536"
proof -
  note r = assms [unfolded ip_hdr_ok_def in_lane_def]
  have tos: "shl (ip_dscp h) 2 OR ip_ecn h = ip_dscp h * 4 + ip_ecn h"
    using r by (simp add: or_field)
  have ihl: "shl (ip_ihl h) 8 OR (ip_dscp h * 4 + ip_ecn h) =
      ip_ihl h * 256 + (ip_dscp h * 4 + ip_ecn h)"
    using r by (simp add: or_field)
  have first: "shl (ip_version h) 12 OR shl (ip_ihl h) 8 OR shl (ip_dscp h) 2 OR ip_ecn h =
      ip_version h * 4096 + (ip_ihl h * 256 + (ip_dscp h * 4 + ip_ecn h))"
    unfolding or.assoc tos ihl using r by (subst or_field) auto
  have rest: "shl (ip_flags h) 13 OR ip_fragment_offset h = ip_flags h * 8192 + ip_fragment_offset h"
    "shl (ip_ttl h) 8 OR ip_protocol h = ip_ttl h * 256 + ip_protocol h"
    using r by (simp_all add: or_field)
  have hi: "ip_source_ip h div 65536 mod 65536 = ip_source_ip h div 65536"
    "ip_dest_ip h div 65536 mod 65536 = ip_dest_ip h div 65536"
    using r by (simp_all add: high16)
  show ?thesis
    unfolding ip_sum_def first rest using hi by (simp add: bits_arith algebra_simps)
qed

lemma ip_sum_bounds:
  fixes v i d e n g f t p a1 a2 b1 b2 len :: int
  assumes "0 \<le> v" "v < 16" "0 \<le> i" "i < 16" "0 \<le> d" "d < 64" "0 \<le> e" "e < 4" "0 \<le> n" "n < 65536"
    "0 \<le> g" "g < 8" "0 \<le> f" "f < 8192" "0 \<le> t" "t < 256" "0 \<le> p" "p < 256"
    "0 \<le> a1" "a1 < 65536" "0 \<le> a2" "a2 < 65536" "0 \<le> b1" "b1 < 65536" "0 \<le> b2" "b2 < 65536"
    "0 < len" "len < 65536"
  shows "0 < (v * 16 + i) * 256 + (d * 4 + e) + len + n + (g * 8192 + f) + (t * 256 + p)
      + a1 + a2 + b1 + b2"
    and "(v * 16 + i) * 256 + (d * 4 + e) + len + n + (g * 8192 + f) + (t * 256 + p)
      + a1 + a2 + b1 + b2 < 2 ^ 32"
  using assms by simp_all

lemma ip_sum_range:
  assumes "ip_hdr_ok h" "0 < len" "len < 65536"
  shows "0 < ip_sum h len" "ip_sum h len < 2 ^ 32"
  unfolding ip_sum_arith [OF assms(1)]
  by (rule ip_sum_bounds; simp only: ip_hdr_okD [OF assms(1)] high16 assms(2,3) pos_mod_bound
      pos_mod_sign zero_less_numeral)+

text \<open>The sixteen-bit words of the header bytes add up to the sum plus the checksum field.\<close>

lemma word_sum_ip_bytes:
  assumes "ip_hdr_ok h" "0 \<le> len" "len < 65536" "0 \<le> ck" "ck < 65536"
  shows "word_sum (ip_bytes h len ck) = ip_sum h len + ck"
proof -
  note r = ip_hdr_okD [OF assms(1)]
  have w16: "x div 256 mod 256 * 256 + x mod 256 = x" if "0 \<le> x" "x < 65536" for x :: int
    using that by (rule word16_split)
  have hi: "x div 16777216 mod 256 * 256 + x div 65536 mod 256 = x div 65536"
    and lo: "x div 256 mod 256 * 256 + x mod 256 = x mod 65536"
    if "0 \<le> x" "x < 2 ^ 32" for x :: int
  proof -
    have "x div (65536 * 256) = x div 65536 div 256" by (rule zdiv_zmult2_eq) simp
    then have "x div 16777216 = x div 65536 div 256" by (simp only: numeral_times_numeral num.simps semiring_norm)
    then show "x div 16777216 mod 256 * 256 + x div 65536 mod 256 = x div 65536"
      using word16_split [OF high16(1,2) [OF that]] by (simp only:)
    show "x div 256 mod 256 * 256 + x mod 256 = x mod 65536"
      using zmod_zmult2_eq [of 256 x 256] by simp
  qed
  have bytes: "(ip_version h * 16 + ip_ihl h) mod 256 = ip_version h * 16 + ip_ihl h"
    "(ip_dscp h * 4 + ip_ecn h) mod 256 = ip_dscp h * 4 + ip_ecn h"
    "ip_ttl h mod 256 = ip_ttl h" "ip_protocol h mod 256 = ip_protocol h"
    using r by (simp_all add: mod_pos_pos_trivial)
  have flags: "0 \<le> ip_flags h * 8192 + ip_fragment_offset h"
    "ip_flags h * 8192 + ip_fragment_offset h < 65536" using r by linarith+
  have "word_sum (ip_bytes h len ck) =
      (ip_version h * 16 + ip_ihl h) mod 256 * 256 + (ip_dscp h * 4 + ip_ecn h) mod 256
      + (len div 256 mod 256 * 256 + len mod 256)
      + (ip_identification h div 256 mod 256 * 256 + ip_identification h mod 256)
      + ((ip_flags h * 8192 + ip_fragment_offset h) div 256 mod 256 * 256
         + (ip_flags h * 8192 + ip_fragment_offset h) mod 256)
      + (ip_ttl h mod 256 * 256 + ip_protocol h mod 256)
      + (ck div 256 mod 256 * 256 + ck mod 256)
      + (ip_source_ip h div 16777216 mod 256 * 256 + ip_source_ip h div 65536 mod 256)
      + (ip_source_ip h div 256 mod 256 * 256 + ip_source_ip h mod 256)
      + (ip_dest_ip h div 16777216 mod 256 * 256 + ip_dest_ip h div 65536 mod 256)
      + (ip_dest_ip h div 256 mod 256 * 256 + ip_dest_ip h mod 256)"
    unfolding ip_bytes_def be_bytes_1 be_bytes_2 be_bytes_4
    by (simp only: append.simps word_sum.simps uint_byte_of_int add_0_right add.assoc)
  also have "\<dots> = ip_sum h len + ck"
    unfolding bytes ip_sum_arith [OF assms(1)] w16 [OF assms(2,3)] w16 [OF assms(4,5)]
      w16 [OF r(9,10)] w16 [OF flags] hi [OF r(19,20)] lo [OF r(19,20)] hi [OF r(21,22)]
      lo [OF r(21,22)] by simp
  finally show ?thesis .
qed

section \<open>Header bytes and fields\<close>

lemma ip_pack_header_eq:
  assumes "ip_hdr_ok h" "ip_length h = Some len" "in_lane 16 len"
    and "ip_header_checksum h = Some ck" "in_lane 16 ck"
  shows "ip_pack_header h = Inr (ip_bytes h len ck)"
proof -
  note r = ip_hdr_okD [OF assms(1)]
  have f: "shl (ip_version h) 4 OR ip_ihl h = ip_version h * 16 + ip_ihl h"
    "shl (ip_dscp h) 2 OR ip_ecn h = ip_dscp h * 4 + ip_ecn h"
    "shl (ip_flags h) 13 OR ip_fragment_offset h = ip_flags h * 8192 + ip_fragment_offset h"
    using r by (simp_all add: or_field)
  show ?thesis
    unfolding ip_pack_header_def f ip_bytes_def
    using r assms(2-5) by (simp add: pack_opt_def in_lane_def)
qed

lemma byte_fields:
  fixes a b :: int
  assumes "0 \<le> a" "0 \<le> b" "b < 2 ^ n"
  shows "shr (a * 2 ^ n + b) n = a" "(a * 2 ^ n + b) AND (2 ^ n - 1) = b"
  using assms by (simp_all add: drop_bit_eq_div and_mask_int)

lemma ip_parse_bytes:
  assumes "ip_hdr_ok h" "in_lane 16 len" "in_lane 16 ck"
    and "f_data (eth_payload e) = DBytes (ip_bytes h len ck @ rest)"
  shows "ip_parse_eth e self =
    Inr (self\<lparr>eth_src_mac := eth_src_mac e, eth_dest_mac := eth_dest_mac e, eth_type := eth_type e,
      ip_version := ip_version h, ip_ihl := ip_ihl h, ip_dscp := ip_dscp h, ip_ecn := ip_ecn h,
      ip_length := Some len, ip_identification := ip_identification h, ip_flags := ip_flags h,
      ip_fragment_offset := ip_fragment_offset h, ip_ttl := ip_ttl h,
      ip_protocol := ip_protocol h, ip_header_checksum := Some ck,
      ip_source_ip := ip_source_ip h, ip_dest_ip := ip_dest_ip h,
      ip_payload := wrap_payload (ArgBytes (pslice (ip_bytes h len ck @ rest) 20 len))\<rparr>)"
proof -
  note r = ip_hdr_okD [OF assms(1)]
  have v: "shr (ip_version h * 16 + ip_ihl h) 4 AND 0xF = ip_version h"
    "(ip_version h * 16 + ip_ihl h) AND 0xF = ip_ihl h"
    "shr (ip_dscp h * 4 + ip_ecn h) 2 AND 0x3F = ip_dscp h"
    "(ip_dscp h * 4 + ip_ecn h) AND 0x3 = ip_ecn h"
    "shr (ip_flags h * 8192 + ip_fragment_offset h) 13 AND 0x7 = ip_flags h"
    "(ip_flags h * 8192 + ip_fragment_offset h) AND 0x1FFF = ip_fragment_offset h"
    using r byte_fields [of "ip_version h" "ip_ihl h" 4] byte_fields [of "ip_dscp h" "ip_ecn h" 2]
      byte_fields [of "ip_flags h" "ip_fragment_offset h" 13]
    by (simp_all add: and_masks)
  have big: "(ip_version h * 16 + ip_ihl h) mod 256 = ip_version h * 16 + ip_ihl h"
    "(ip_dscp h * 4 + ip_ecn h) mod 256 = ip_dscp h * 4 + ip_ecn h"
    "(ip_flags h * 8192 + ip_fragment_offset h) mod 65536 = ip_flags h * 8192 + ip_fragment_offset h"
    using r by (simp_all add: mod_pos_pos_trivial)
  have sl: "pslice (ip_bytes h len ck @ rest) 20 len =
      take (nat len - 20) rest"
    using assms(2) by (simp add: ip_bytes_def in_lane_def)
  let ?p = "ip_bytes h len ck @ rest"
  have f: "unpack_B (pslice ?p 0 1) = Inr (ip_version h * 16 + ip_ihl h)"
    "unpack_B (pslice ?p 1 2) = Inr (ip_dscp h * 4 + ip_ecn h)"
    "unpack_H (pslice ?p 2 4) = Inr len" "unpack_H (pslice ?p 4 6) = Inr (ip_identification h)"
    "unpack_H (pslice ?p 6 8) = Inr (ip_flags h * 8192 + ip_fragment_offset h)"
    "unpack_B (pslice ?p 8 9) = Inr (ip_ttl h)" "unpack_B (pslice ?p 9 10) = Inr (ip_protocol h)"
    "unpack_H (pslice ?p 10 12) = Inr ck" "unpack_L (pslice ?p 12 16) = Inr (ip_source_ip h)"
    "unpack_L (pslice ?p 16 20) = Inr (ip_dest_ip h)"
    using r assms(2,3) by (simp_all add: ip_bytes_def big in_lane_def)
  show ?thesis
    unfolding ip_parse_eth_def bytes_data_simps(2) [OF assms(4)] bindR_Inr f v ..
qed

lemma length_ip_bytes [simp]: "length (ip_bytes h len ck) = 20"
  by (simp add: ip_bytes_def)

text \<open>What \<open>build\<close> leaves behind: the length of the packet and the checksum of the header.\<close>

definition ip_checksum :: "'a ip_hdr_scheme \<Rightarrow> int \<Rightarrow> int" where
  "ip_checksum h len = NOT (fold_carry (fold_carry (ip_sum h len))) AND 0xffff"

lemma ip_checksum_props:
  assumes "ip_hdr_ok h" "0 < len" "len < 65536"
  shows "in_lane 16 (ip_checksum h len)" "(ip_sum h len + ip_checksum h len) mod 65535 = 0"
  using checksum_complement [OF ip_sum_range [OF assms]]
  by (simp_all add: ip_checksum_def in_lane_def)

lemma ip_build_fresh:
  assumes "ip_length f = None" "ip_header_checksum f = None" "f_data (ip_payload f) = DBytes bs"
  shows "ip_build f = Inr (f\<lparr>ip_length := Some (int (length bs) + 20),
    ip_header_checksum := Some (ip_checksum f (int (length bs) + 20))\<rparr>)"
  using assms
  by (simp add: ip_build_def Let_def ip_update_length_def update_checksum_def calc_checksum_def
      data_len_def cells_of_def ip_checksum_def ip_sum_def)

lemma ip_build_axis_fresh:
  fixes f :: ip_frame and bs :: bytes
  defines "len \<equiv> int (length bs) + 20"
  defines "ck \<equiv> ip_checksum f len"
  assumes "ip_hdr_ok f" "f_data (ip_payload f) = DBytes bs" "len < 65536"
    and "ip_length f = None" "ip_header_checksum f = None"
  shows "ip_build_axis f = Inr (axis_frame_of (ArgBytes (eth_bytes f (ip_bytes f len ck @ bs))),
    f\<lparr>ip_length := Some len, ip_header_checksum := Some ck\<rparr>)"
proof -
  let ?f = "f\<lparr>ip_length := Some len, ip_header_checksum := Some ck\<rparr>"
  let ?e = "EthFrame (EthBytes (ip_bytes f len ck @ bs)) (eth_dest_mac f) (eth_src_mac f) (eth_type f) None"
  have ck: "in_lane 16 ck"
    unfolding ck_def using assms by (intro ip_checksum_props) simp_all
  have len: "in_lane 16 len" using assms(5) by (simp add: in_lane_def len_def)
  have b: "ip_build f = Inr ?f"
    using ip_build_fresh [OF assms(6,7,4)] by (simp add: len_def ck_def)
  have ok: "ip_hdr_ok ?f" using assms(3) by (simp add: ip_hdr_ok_def eth_hdr_ok_def)
  have same: "ip_bytes ?f len ck = ip_bytes f len ck" by (simp add: ip_bytes_def)
  have "ip_pack_header ?f = Inr (ip_bytes f len ck)"
    using ip_pack_header_eq [OF ok _ len _ ck] same by simp
  then have e: "ip_build_eth f = Inr (?e, ?f)"
    using assms(4) by (simp add: ip_build_eth_def b plus_bytes_def)
  have "eth_hdr_packs ?e" "eth_bytes ?e = eth_bytes f"
    using assms(3)
    by (auto simp: EthFrame_def eth_hdr_packs_def ip_hdr_ok_def eth_hdr_ok_def eth_bytes_def)
  then have "eth_build_axis ?e = Inr (axis_frame_of (ArgBytes (eth_bytes f (ip_bytes f len ck @ bs))))"
    by (simp add: eth_build_axis_eq) (simp add: EthFrame_def)
  then show ?thesis by (simp add: ip_build_axis_def e)
qed

lemma ip_parse_axis_bytes:
  assumes "ip_hdr_ok f" "in_lane 16 ck" "int (length bs) + 20 < 65536"
  defines "len \<equiv> int (length bs) + 20"
  shows "ip_parse_axis (ArgBytes (eth_bytes f (ip_bytes f len ck @ bs))) self =
    Inr (IPFrame_of (ArgBytes bs) (f\<lparr>ip_length := Some len, ip_header_checksum := Some ck\<rparr>))"
proof -
  let ?e = "EthFrame_default\<lparr>eth_dest_mac := eth_dest_mac f, eth_src_mac := eth_src_mac f,
    eth_type := eth_type f, eth_payload := wrap_payload (ArgBytes (ip_bytes f len ck @ bs))\<rparr>"
  have e: "eth_parse_axis (ArgBytes (eth_bytes f (ip_bytes f len ck @ bs))) EthFrame_default = Inr ?e"
    using assms(1) by (simp add: eth_parse_bytes ip_hdr_ok_def eth_hdr_ok_def)
  have len: "in_lane 16 len" using assms(3) by (simp add: in_lane_def len_def)
  have "pslice (ip_bytes f len ck @ bs) 20 len = bs" by (simp add: len_def nat_add_distrib)
  then show ?thesis
    unfolding ip_parse_axis_def e bindR_Inr
    by (subst ip_parse_bytes [OF assms(1) len assms(2)])
      (simp, cases self, simp add: IPFrame_of_def)
qed

lemma verify_checksum_iff:
  assumes "ip_hdr_ok h" "ip_length h = Some len" "0 < len" "len < 65536"
    and "ip_header_checksum h = Some ck" "0 \<le> ck" "ck < 65535"
  shows "verify_checksum h = Inr ((ip_sum h len + ck) mod 65535 = 0)"
proof -
  let ?k = "ip_checksum h len"
  note k = checksum_complement [OF ip_sum_range [OF assms(1,3,4)], folded ip_checksum_def]
  have "ck = ?k \<longleftrightarrow> (ip_sum h len + ck) mod 65535 = 0"
  proof
    assume "(ip_sum h len + ck) mod 65535 = 0"
    then have "(ip_sum h len + ck) mod 65535 = (ip_sum h len + ?k) mod 65535" using k(3) by simp
    then have "65535 dvd ck - ?k" by (simp add: mod_eq_dvd_iff)
    then show "ck = ?k" using k(1,2) assms(6,7) zdvd_imp_le [of 65535 "ck - ?k"]
        zdvd_imp_le [of 65535 "?k - ck"] by (smt (verit) dvd_diff_commute)
  qed (use k(3) in simp)
  then show ?thesis
    using assms(2,5) by (simp add: verify_checksum_def calc_checksum_def ip_checksum_def)
qed

section \<open>Properties\<close>

text \<open>
  C16: an IPv4 packet with fields in range and a payload that fits the length field, built without a given length or checksum, gets the
  right ones, every other field left as it is, and survives the way through Ethernet: the frame has
  34 bytes of headers, the 16-bit words of the IP header with the checksum in place add up to a
  multiple of \<open>0xffff\<close> (zero in one's complement), parsing gives every header field and the
  payload data back, and the parsed packet passes \<open>verify_checksum\<close>.  If the \<open>tid\<close> and \<open>tdest\<close> of
  the payload frame are \<open>None\<close> or 0 (the wire does not carry them), the parsed packet also equals
  the built one under \<open>__eq__\<close>.
\<close>

theorem ip_build_parse_roundtrip:
  assumes "ip_hdr_ok f" "f_data (ip_payload f) = DBytes bs" "length bs + 20 < 65536"
    and "ip_length f = None" "ip_header_checksum f = None"
  shows "\<exists>a f' m g ck. ip_build_axis f = Inr (a, f') \<and> f_data a = DBytes m
    \<and> f' = f\<lparr>ip_length := Some (int (length bs) + 20), ip_header_checksum := Some ck\<rparr>
    \<and> length m = 34 + length bs \<and> word_sum (take 20 (drop 14 m)) mod 0xffff = 0
    \<and> ip_parse_axis (ArgFrame a) x = Inr g \<and> ip_length g = Some (int (length bs) + 20)
    \<and> f_data (ip_payload g) = DBytes bs \<and> verify_checksum g = Inr True
    \<and> ip_hdr_eq f' g \<and> (plain_sides (ip_payload f) \<longrightarrow> ip_eq f' g)"
proof -
  let ?len = "int (length bs) + 20"
  let ?ck = "ip_checksum f ?len"
  let ?f = "f\<lparr>ip_length := Some ?len, ip_header_checksum := Some ?ck\<rparr>"
  let ?m = "eth_bytes f (ip_bytes f ?len ?ck @ bs)" and ?g = "IPFrame_of (ArgBytes bs) ?f"
  have len: "0 < ?len" "?len < 65536" using assms(3) by simp_all
  have ck: "in_lane 16 ?ck" "(ip_sum f ?len + ?ck) mod 65535 = 0"
    using ip_checksum_props [OF assms(1) len] by simp_all
  have rng: "0 \<le> ?ck" "?ck < 65536" "0 \<le> ?len" using ck(1) by (simp_all add: in_lane_def)
  have build: "ip_build_axis f = Inr (axis_frame_of (ArgBytes ?m), ?f)"
    using assms len by (intro ip_build_axis_fresh) simp_all
  have parse: "ip_parse_axis (ArgFrame (axis_frame_of (ArgBytes ?m))) x = Inr ?g"
    using ip_parse_axis_bytes [OF assms(1) ck(1) len(2), of x] by (simp add: ip_parse_axis_def)
  have "take 20 (drop 14 ?m) = ip_bytes f ?len ?ck" by (simp add: eth_bytes_def)
  then have sum: "word_sum (take 20 (drop 14 ?m)) mod 65535 = 0"
    using word_sum_ip_bytes [OF assms(1) rng(3) len(2) rng(1,2)] ck(2) by simp
  have "ip_sum ?g ?len = ip_sum f ?len" by (simp add: ip_sum_def IPFrame_of_def)
  then have "verify_checksum ?g = Inr True"
    by (simp add: verify_checksum_def calc_checksum_def ip_checksum_def) (simp add: IPFrame_of_def ip_checksum_def)
  moreover have "ip_hdr_eq ?f ?g" by (simp add: ip_hdr_eq_def IPFrame_of_def)
  moreover have "plain_sides (ip_payload f) \<longrightarrow> axis_eq (ip_payload f) (ip_payload ?g)"
    using axis_eq_wrap [of "ip_payload f" bs] assms(2) by (simp add: IPFrame_of_def)
  moreover have "ip_length ?g = Some ?len" "f_data (ip_payload ?g) = DBytes bs"
    by (simp_all add: IPFrame_of_def)
  moreover have "f_data (axis_frame_of (ArgBytes ?m)) = DBytes ?m" by (simp add: AXIStreamFrame_def)
  ultimately show ?thesis
    using build parse sum
    by (intro exI [of _ "axis_frame_of (ArgBytes ?m)"] exI [of _ ?f] exI [of _ ?m] exI [of _ ?g]
        exI [of _ ?ck])
      (simp add: ip_eq_def)
qed

theorem ip_build_parse_roundtrip_witness:
  "\<exists>a f' g. ip_build_axis (IPFrame_of (ArgBytes [1, 2, 3]) IPFrame) = Inr (a, f')
    \<and> ip_parse_axis (ArgFrame a) IPFrame = Inr g \<and> ip_length g = Some 23
    \<and> verify_checksum g = Inr True \<and> ip_hdr_eq f' g"
  using ip_build_parse_roundtrip [of "IPFrame_of (ArgBytes [1, 2, 3]) IPFrame" "[1, 2, 3]" IPFrame]
  by (auto simp: IPFrame_of_def IPFrame_def ip_hdr_ok_def eth_hdr_ok_def in_lane_def)

text \<open>
  C33: the checksum detects exactly what the Internet checksum can detect: when a packet verifies
  and another packet in range carries the same checksum field, the other one verifies if and only
  if the sums of their 16-bit header words agree modulo \<open>0xffff\<close>.
\<close>

theorem ip_checksum_detects:
  assumes "ip_hdr_ok h" "ip_length h = Some l" "0 < l" "l < 65536"
    and "ip_hdr_ok h'" "ip_length h' = Some l'" "0 < l'" "l' < 65536"
    and "ip_header_checksum h = Some ck" "ip_header_checksum h' = Some ck" "0 \<le> ck" "ck < 65535"
    and "verify_checksum h = Inr True"
  shows "verify_checksum h' =
    Inr (word_sum (ip_bytes h' l' ck) mod 0xffff = word_sum (ip_bytes h l ck) mod 0xffff)"
proof -
  have z: "(ip_sum h l + ck) mod 65535 = 0"
    using verify_checksum_iff [OF assms(1-4,9,11,12)] assms(13) by simp
  show ?thesis
    using verify_checksum_iff [OF assms(5-8,10-12)] z
      word_sum_ip_bytes [OF assms(1) _ assms(4,11)] word_sum_ip_bytes [OF assms(5) _ assms(8,11)]
      assms(3,7,12) by simp
qed

theorem ip_checksum_detects_witness:
  "let h = IPFrame\<lparr>ip_length := Some 20, ip_header_checksum := Some 0xB6BF\<rparr>
   in verify_checksum (h\<lparr>ip_ttl := 63\<rparr>) =
     Inr (word_sum (ip_bytes (h\<lparr>ip_ttl := 63\<rparr>) 20 0xB6BF) mod 0xffff =
          word_sum (ip_bytes h 20 0xB6BF) mod 0xffff)"
proof -
  let ?h = "IPFrame\<lparr>ip_length := Some 20, ip_header_checksum := Some 0xB6BF\<rparr>"
  have "verify_checksum ?h = Inr True" by code_simp
  then show ?thesis
    using ip_checksum_detects [of ?h 20 "?h\<lparr>ip_ttl := 63\<rparr>" 20 "0xB6BF"]
    by (simp add: IPFrame_def ip_hdr_ok_def eth_hdr_ok_def in_lane_def Let_def)
qed

end
