(* ===== verification/Udp_Frame.thy ===== *)
theory Udp_Frame
  imports Ip_Frame
begin

text \<open>
  \<open>UDPFrame\<close> of \<open>lib/eth/tb/udp_ep.py\<close>: a UDP datagram with its IP and Ethernet headers; lengths and
  checksums, which \<open>build\<close> fills in where they are \<open>None\<close>; building through IP and Ethernet and
  parsing back.  The UDP checksum is shown to be the Internet checksum over the pseudo header, the
  UDP header and the data.
\<close>

section \<open>The frame\<close>

record udp_hdr = ip_hdr +
  udp_source_port :: int
  udp_dest_port :: int
  udp_length :: "int option"
  udp_checksum :: "int option"

record udp_frame = udp_hdr +
  udp_payload :: axis_frame

definition UDPFrame :: udp_frame where
  \<comment> \<open>\<open>UDPFrame()\<close>\<close>
  "UDPFrame =
     \<lparr>eth_dest_mac = 0, eth_src_mac = 0, eth_type = 0, ip_version = 4, ip_ihl = 5, ip_dscp = 0,
      ip_ecn = 0, ip_length = None, ip_identification = 0, ip_flags = 2, ip_fragment_offset = 0,
      ip_ttl = 64, ip_protocol = 0x11, ip_header_checksum = None, ip_source_ip = 0xc0a80164,
      ip_dest_ip = 0xc0a80165, udp_source_port = 1, udp_dest_port = 2, udp_length = None,
      udp_checksum = None, udp_payload = wrap_payload (ArgBytes [])\<rparr>"

definition UDPFrame_copy :: "udp_frame \<Rightarrow> udp_frame" where
  \<comment> \<open>\<open>UDPFrame(frame)\<close>\<close>
  "UDPFrame_copy f =
     \<lparr>eth_dest_mac = eth_dest_mac f, eth_src_mac = eth_src_mac f, eth_type = eth_type f,
      ip_version = ip_version f, ip_ihl = ip_ihl f, ip_dscp = ip_dscp f, ip_ecn = ip_ecn f,
      ip_length = ip_length f, ip_identification = ip_identification f, ip_flags = ip_flags f,
      ip_fragment_offset = ip_fragment_offset f, ip_ttl = ip_ttl f, ip_protocol = ip_protocol f,
      ip_header_checksum = ip_header_checksum f, ip_source_ip = ip_source_ip f,
      ip_dest_ip = ip_dest_ip f, udp_source_port = udp_source_port f,
      udp_dest_port = udp_dest_port f, udp_length = udp_length f, udp_checksum = udp_checksum f,
      udp_payload = wrap_payload (ArgFrame (udp_payload f))\<rparr>"

section \<open>Lengths and checksums\<close>

definition update_ip_length :: "udp_frame \<Rightarrow> udp_frame result" where
  "update_ip_length self =
     (case udp_length self of
        None \<Rightarrow> Inl TypeError
      | Some l \<Rightarrow> Inr (self\<lparr>ip_length := Some (l + 20)\<rparr>))"

definition update_udp_length :: "udp_frame \<Rightarrow> udp_frame" where
  "update_udp_length self = self\<lparr>udp_length := Some (data_len (udp_payload self) + 8)\<rparr>"

definition update_length :: "udp_frame \<Rightarrow> udp_frame result" where
  "update_length self = update_ip_length (update_udp_length self)"

definition pseudo_sum :: "udp_frame \<Rightarrow> int \<Rightarrow> int" where
  "pseudo_sum self len =
     (ip_source_ip self AND 0xffff)
     + (shr (ip_source_ip self) 16 AND 0xffff)
     + (ip_dest_ip self AND 0xffff)
     + (shr (ip_dest_ip self) 16 AND 0xffff)
     + ip_protocol self
     + len"

definition calc_udp_pseudo_header_checksum :: "udp_frame \<Rightarrow> int result" where
  "calc_udp_pseudo_header_checksum self =
     (case udp_length self of
        None \<Rightarrow> Inl TypeError
      | Some len \<Rightarrow> Inr (fold_carry (fold_carry (pseudo_sum self len))))"

definition set_udp_pseudo_header_checksum :: "udp_frame \<Rightarrow> udp_frame result" where
  "set_udp_pseudo_header_checksum self =
     (let self = (if udp_length self = None then update_udp_length self else self)
      in bindR (calc_udp_pseudo_header_checksum self) (\<lambda>c. Inr (self\<lparr>udp_checksum := Some c\<rparr>)))"

text \<open>The loop over the data, with the flag \<open>odd\<close> and the sum so far.\<close>

fun data_sum :: "cell list \<Rightarrow> bool \<Rightarrow> int \<Rightarrow> int result" where
  "data_sum [] is_odd cksum = Inr cksum"
| "data_sum (CVec v # ds) is_odd cksum = Inl TypeError"
| "data_sum (CInt d # ds) is_odd cksum =
     data_sum ds (\<not> is_odd) (if is_odd then cksum + d else cksum + shl d 8)"

definition calc_udp_checksum :: "udp_frame \<Rightarrow> int result" where
  "calc_udp_checksum self =
     bindR (calc_udp_pseudo_header_checksum self) (\<lambda>cksum.
     case udp_length self of
       None \<Rightarrow> Inl TypeError
     | Some len \<Rightarrow>
         bindR (data_sum (cells_of (f_data (udp_payload self))) False
                  (cksum + udp_source_port self + udp_dest_port self + len)) (\<lambda>cksum.
           Inr (NOT (fold_carry (fold_carry cksum)) AND 0xffff)))"

definition update_udp_checksum :: "udp_frame \<Rightarrow> udp_frame result" where
  "update_udp_checksum self =
     (let self = (if udp_length self = None then update_udp_length self else self)
      in bindR (calc_udp_checksum self) (\<lambda>c. Inr (self\<lparr>udp_checksum := Some c\<rparr>)))"

definition verify_udp_checksum :: "udp_frame \<Rightarrow> bool result" where
  "verify_udp_checksum self = bindR (calc_udp_checksum self) (\<lambda>c. Inr (udp_checksum self = Some c))"

definition update_checksums :: "udp_frame \<Rightarrow> udp_frame result" where
  "update_checksums self = bindR (update_udp_checksum self) update_checksum"

definition verify_checksums :: "udp_frame \<Rightarrow> bool result" where
  "verify_checksums self =
     bindR (verify_checksum self) (\<lambda>a. if a then verify_udp_checksum self else Inr False)"

definition udp_build :: "udp_frame \<Rightarrow> udp_frame result" where
  "udp_build self =
     (let self = (if udp_length self = None then update_udp_length self else self)
      in bindR (if udp_checksum self = None then update_udp_checksum self else Inr self) (\<lambda>self.
         bindR (if ip_length self = None then update_ip_length self else Inr self) (\<lambda>self.
           if ip_header_checksum self = None then update_checksum self else Inr self)))"

section \<open>Building and parsing\<close>

definition udp_build_ip :: "udp_frame \<Rightarrow> (ip_frame \<times> udp_frame) result" where
  "udp_build_ip self =
     bindR (udp_build self) (\<lambda>self.
     bindR (pack_H (udp_source_port self)) (\<lambda>a.
     bindR (pack_H (udp_dest_port self)) (\<lambda>b.
     bindR (pack_opt 2 (udp_length self)) (\<lambda>c.
     bindR (pack_opt 2 (udp_checksum self)) (\<lambda>d.
     bindR (plus_bytes (a @ b @ c @ d) (f_data (udp_payload self))) (\<lambda>data.
       Inr (IPFrame_of (ArgBytes data) self, self)))))))"

definition udp_build_eth :: "udp_frame \<Rightarrow> (eth_frame \<times> udp_frame) result" where
  "udp_build_eth self =
     bindR (udp_build_ip self) (\<lambda>(i, self).
     bindR (ip_build_eth i) (\<lambda>(e, _). Inr (e, self)))"

definition udp_build_axis :: "udp_frame \<Rightarrow> (axis_frame \<times> udp_frame) result" where
  "udp_build_axis self =
     bindR (udp_build_eth self) (\<lambda>(e, self). bindR (eth_build_axis e) (\<lambda>a. Inr (a, self)))"

definition udp_parse_ip :: "ip_frame \<Rightarrow> udp_frame \<Rightarrow> udp_frame result" where
  "udp_parse_ip data self =
     bindR (bytes_data (ip_payload data)) (\<lambda>p.
     bindR (unpack_H (pslice p 0 2)) (\<lambda>sp.
     bindR (unpack_H (pslice p 2 4)) (\<lambda>dp.
     bindR (unpack_H (pslice p 4 6)) (\<lambda>len.
     bindR (unpack_H (pslice p 6 8)) (\<lambda>ck.
       Inr (self\<lparr>eth_src_mac := eth_src_mac data, eth_dest_mac := eth_dest_mac data,
                 eth_type := eth_type data, ip_version := ip_version data,
                 ip_ihl := ip_ihl data, ip_dscp := ip_dscp data, ip_ecn := ip_ecn data,
                 ip_length := ip_length data, ip_identification := ip_identification data,
                 ip_flags := ip_flags data, ip_fragment_offset := ip_fragment_offset data,
                 ip_ttl := ip_ttl data, ip_protocol := ip_protocol data,
                 ip_header_checksum := ip_header_checksum data,
                 ip_source_ip := ip_source_ip data, ip_dest_ip := ip_dest_ip data,
                 udp_source_port := sp, udp_dest_port := dp, udp_length := Some len,
                 udp_checksum := Some ck,
                 udp_payload := wrap_payload (ArgBytes (pslice p 8 len))\<rparr>))))))"

definition udp_parse_eth :: "eth_frame \<Rightarrow> udp_frame \<Rightarrow> udp_frame result" where
  "udp_parse_eth data self =
     bindR (ip_parse_eth data IPFrame) (\<lambda>frame. udp_parse_ip frame self)"

definition udp_parse_axis :: "frame_arg \<Rightarrow> udp_frame \<Rightarrow> udp_frame result" where
  "udp_parse_axis data self =
     bindR (eth_parse_axis data EthFrame_default) (\<lambda>frame. udp_parse_eth frame self)"

definition udp_eq :: "udp_frame \<Rightarrow> udp_frame \<Rightarrow> bool" where
  "udp_eq self other \<longleftrightarrow>
     ip_hdr_eq self other \<and> udp_source_port self = udp_source_port other
     \<and> udp_dest_port self = udp_dest_port other \<and> udp_length self = udp_length other
     \<and> udp_checksum self = udp_checksum other \<and> axis_eq (udp_payload self) (udp_payload other)"

section \<open>The data sum is the sum of 16-bit words\<close>

lemma data_sum_bytes:
  "data_sum (map (CInt \<circ> uint) bs) False c = Inr (c + word_sum bs)"
proof (induction bs arbitrary: c rule: word_sum.induct)
  case (3 a b bs)
  then show ?case by (simp add: bits_arith algebra_simps)
qed (simp_all add: bits_arith)

lemma word_sum_bound: "0 \<le> word_sum bs" "word_sum bs \<le> 65535 * ((int (length bs) + 1) div 2)"
proof -
  have byte: "uint b < 256" for b :: byte using uint_lt2p [of b] by simp
  have two: "uint a * 256 + uint b \<le> 65535" for a b :: byte using byte [of a] byte [of b] by simp
  show "0 \<le> word_sum bs" by (induction bs rule: word_sum.induct) simp_all
  show "word_sum bs \<le> 65535 * ((int (length bs) + 1) div 2)"
  proof (induction bs rule: word_sum.induct)
    case (2 a)
    show ?case using two [of a 0] by simp
  next
    case (3 a b bs)
    have "(int (length (a # b # bs)) + 1) div 2 = (int (length bs) + 1) div 2 + 1" by simp
    then show ?case using 3 two [of a b] by (simp only: word_sum.simps) (simp add: algebra_simps)
  qed simp
qed

lemma word_sum_append: "even (length xs) \<Longrightarrow> word_sum (xs @ ys) = word_sum xs + word_sum ys"
  by (induction xs rule: word_sum.induct) simp_all

lemma word_sum_be2: "0 \<le> x \<Longrightarrow> x < 65536 \<Longrightarrow> word_sum (be_bytes 2 x) = x"
  by (simp add: be_bytes_2 word16_split)

text \<open>The words the UDP checksum covers: pseudo header, UDP header with the checksum, data.\<close>

definition udp_bytes :: "udp_frame \<Rightarrow> int \<Rightarrow> int \<Rightarrow> bytes \<Rightarrow> bytes" where
  "udp_bytes f len ck bs =
     be_bytes 2 (udp_source_port f) @ be_bytes 2 (udp_dest_port f) @ be_bytes 2 len @
     be_bytes 2 ck @ bs"

definition pseudo_header :: "udp_frame \<Rightarrow> int \<Rightarrow> bytes" where
  "pseudo_header f len =
     be_bytes 4 (ip_source_ip f) @ be_bytes 4 (ip_dest_ip f) @ [0, word_of_int (ip_protocol f)] @
     be_bytes 2 len"

definition udp_hdr_ok :: "udp_frame \<Rightarrow> bool" where
  "udp_hdr_ok f \<longleftrightarrow> ip_hdr_ok f \<and> in_lane 16 (udp_source_port f) \<and> in_lane 16 (udp_dest_port f)"

lemma pseudo_sum_arith:
  assumes "ip_hdr_ok f"
  shows "pseudo_sum f len = ip_source_ip f mod 65536 + ip_source_ip f div 65536
    + ip_dest_ip f mod 65536 + ip_dest_ip f div 65536 + ip_protocol f + len"
  using high16(3) [OF ip_hdr_okD(19,20) [OF assms]] high16(3) [OF ip_hdr_okD(21,22) [OF assms]]
  by (simp add: pseudo_sum_def bits_arith)

lemma pseudo_sum_range:
  assumes "ip_hdr_ok f" "0 < len" "len < 65536"
  shows "0 < pseudo_sum f len" "pseudo_sum f len < 2 ^ 32"
proof -
  have "0 < a1 + a2 + b1 + b2 + p + len" "a1 + a2 + b1 + b2 + p + len < 2 ^ 32"
    if "0 \<le> a1" "a1 < 65536" "0 \<le> a2" "a2 < 65536" "0 \<le> b1" "b1 < 65536" "0 \<le> b2" "b2 < 65536"
      "0 \<le> p" "p < 256" for a1 a2 b1 b2 p :: int
    using that assms(2,3) by simp_all
  then show "0 < pseudo_sum f len" "pseudo_sum f len < 2 ^ 32"
    unfolding pseudo_sum_arith [OF assms(1)]
    by (simp_all only: ip_hdr_okD [OF assms(1)] high16 pos_mod_bound pos_mod_sign zero_less_numeral)
qed

lemma word_sum_be4:
  assumes "0 \<le> x" "x < 2 ^ 32"
  shows "word_sum (be_bytes 4 x) = x mod 65536 + x div 65536"
proof -
  have "x div (65536 * 256) = x div 65536 div 256" by (rule zdiv_zmult2_eq) simp
  then have "x div 16777216 mod 256 * 256 + x div 65536 mod 256 = x div 65536"
    using word16_split [OF high16(1,2) [OF assms]] by (simp only: numeral_times_numeral num.simps semiring_norm)
  moreover have "x div 256 mod 256 * 256 + x mod 256 = x mod 65536"
    using zmod_zmult2_eq [of 256 x 256] by simp
  ultimately show ?thesis
    by (simp only: be_bytes_4 word_sum.simps uint_byte_of_int add_0_right add.commute)
qed

lemma word_sum_udp:
  assumes "udp_hdr_ok f" "in_lane 16 len" "in_lane 16 ck"
  shows "word_sum (pseudo_header f len @ udp_bytes f len ck bs) =
    pseudo_sum f len + udp_source_port f + udp_dest_port f + len + ck + word_sum bs"
proof -
  have ok: "ip_hdr_ok f" using assms(1) by (simp add: udp_hdr_ok_def)
  note r = ip_hdr_okD [OF ok]
  have p: "word_sum [0, word_of_int (ip_protocol f)] = ip_protocol f" using r by simp
  show ?thesis
    unfolding pseudo_header_def udp_bytes_def append_assoc pseudo_sum_arith [OF ok]
    using assms r
    by (simp add: word_sum_append word_sum_be4 word_sum_be2 in_lane_def udp_hdr_ok_def p
        del: word_sum.simps append_Cons)
qed

definition udp_ck :: "udp_frame \<Rightarrow> int \<Rightarrow> bytes \<Rightarrow> int" where
  "udp_ck f len bs =
     NOT (fold_carry (fold_carry (fold_carry (fold_carry (pseudo_sum f len)) + udp_source_port f
       + udp_dest_port f + len + word_sum bs))) AND 0xffff"

lemma calc_udp_checksum_eq:
  "udp_length f = Some len \<Longrightarrow> f_data (udp_payload f) = DBytes bs \<Longrightarrow>
    calc_udp_checksum f = Inr (udp_ck f len bs)"
  by (simp add: calc_udp_checksum_def calc_udp_pseudo_header_checksum_def cells_of_def
      data_sum_bytes udp_ck_def)

text \<open>Two folds are enough for every datagram that fits an IP packet.\<close>

lemma udp_ck_props:
  assumes "udp_hdr_ok f" "0 < len" "len < 65536" "length bs < 65536"
  shows "0 \<le> udp_ck f len bs" "udp_ck f len bs < 65535"
    and "word_sum (pseudo_header f len @ udp_bytes f len (udp_ck f len bs) bs) mod 0xffff = 0"
proof -
  have ok: "ip_hdr_ok f" and ports: "0 \<le> udp_source_port f" "udp_source_port f < 65536"
    "0 \<le> udp_dest_port f" "udp_dest_port f < 65536"
    using assms(1) by (simp_all add: udp_hdr_ok_def in_lane_def)
  let ?p = "fold_carry (fold_carry (pseudo_sum f len))"
  let ?s = "udp_source_port f + udp_dest_port f + len + word_sum bs"
  let ?c = "?p + udp_source_port f + udp_dest_port f + len + word_sum bs"
  note pr = pseudo_sum_range [OF ok assms(2,3)]
  have p: "0 \<le> ?p" "?p \<le> 65535" "?p mod 65535 = pseudo_sum f len mod 65535"
    using fold_twice [of "pseudo_sum f len"] pr by simp_all
  have "(int (length bs) + 1) div 2 \<le> 32768" using assms(4) by simp
  then have w: "0 \<le> word_sum bs" "word_sum bs \<le> 65535 * 32768"
    using word_sum_bound [of bs] by linarith+
  have c: "0 < ?c" "?c < 2 ^ 32" using p(1,2) ports assms(2,3) w by simp_all
  note k = checksum_complement [OF c, folded udp_ck_def]
  show kr: "0 \<le> udp_ck f len bs" "udp_ck f len bs < 65535" using k(1,2) .
  have "(pseudo_sum f len + ?s + udp_ck f len bs) mod 65535 = (?p + ?s + udp_ck f len bs) mod 65535"
    using p(3) by (metis (no_types, lifting) add.assoc mod_add_left_eq)
  also have "\<dots> = 0" using k(3) by (simp only: add.assoc)
  finally show "word_sum (pseudo_header f len @ udp_bytes f len (udp_ck f len bs) bs) mod 0xffff = 0"
    using kr assms(2,3)
    by (subst word_sum_udp [OF assms(1)]) (simp_all add: in_lane_def add_ac)
qed

section \<open>Build and parse through all layers\<close>

definition udp_built :: "udp_frame \<Rightarrow> bytes \<Rightarrow> udp_frame" where
  "udp_built f bs =
     (let len = int (length bs) + 8
      in f\<lparr>udp_length := Some len, udp_checksum := Some (udp_ck f len bs),
           ip_length := Some (len + 20), ip_header_checksum := Some (ip_checksum f (len + 20))\<rparr>)"

definition udp_fresh :: "udp_frame \<Rightarrow> bool" where
  "udp_fresh f \<longleftrightarrow> udp_length f = None \<and> udp_checksum f = None \<and> ip_length f = None
     \<and> ip_header_checksum f = None"

lemma udp_build_fresh:
  assumes "udp_fresh f" "f_data (udp_payload f) = DBytes bs"
  shows "udp_build f = Inr (udp_built f bs)"
proof -
  let ?len = "int (length bs) + 8"
  let ?f1 = "f\<lparr>udp_length := Some ?len\<rparr>"
  let ?f2 = "?f1\<lparr>udp_checksum := Some (udp_ck f ?len bs)\<rparr>"
  let ?f3 = "?f2\<lparr>ip_length := Some (?len + 20)\<rparr>"
  have "update_udp_length f = ?f1"
    using assms(2) by (simp add: update_udp_length_def data_len_def cells_of_def)
  moreover have "calc_udp_checksum ?f1 = Inr (udp_ck f ?len bs)"
    using calc_udp_checksum_eq [of ?f1 ?len bs] assms(2) by (simp add: udp_ck_def pseudo_sum_def)
  then have "update_udp_checksum ?f1 = Inr ?f2" by (simp add: update_udp_checksum_def)
  moreover have "update_ip_length ?f2 = Inr ?f3" by (simp add: update_ip_length_def)
  moreover have "update_checksum ?f3 = Inr (udp_built f bs)"
    by (simp add: update_checksum_def calc_checksum_def ip_checksum_def ip_sum_def udp_built_def Let_def)
  ultimately show ?thesis using assms(1) by (simp add: udp_build_def udp_fresh_def Let_def)
qed

lemma udp_build_axis_fresh:
  assumes "udp_fresh f" "f_data (udp_payload f) = DBytes bs" "udp_hdr_ok f" "length bs + 28 < 65536"
  defines "len \<equiv> int (length bs) + 8"
  defines "m \<equiv> eth_bytes f (ip_bytes f (len + 20) (ip_checksum f (len + 20))
    @ udp_bytes f len (udp_ck f len bs) bs)"
  shows "udp_build_axis f = Inr (axis_frame_of (ArgBytes m), udp_built f bs)"
proof -
  let ?g = "udp_built f bs" and ?ck = "udp_ck f len bs" and ?ick = "ip_checksum f (len + 20)"
  let ?i = "IPFrame_of (ArgBytes (udp_bytes f len ?ck bs)) ?g"
  have ok: "ip_hdr_ok f" using assms(3) by (simp add: udp_hdr_ok_def)
  have len: "0 < len" "len < 65536" "0 < len + 20" "len + 20 < 65536" using assms(4) by (simp_all add: len_def)
  have ck: "0 \<le> ?ck" "?ck < 65535" using udp_ck_props [OF assms(3) len(1,2)] assms(4) by simp_all
  have ick: "in_lane 16 ?ick" using ip_checksum_props [OF ok len(3,4)] by simp
  have g: "udp_length ?g = Some len" "udp_checksum ?g = Some ?ck" "ip_length ?g = Some (len + 20)"
    "ip_header_checksum ?g = Some ?ick" "udp_source_port ?g = udp_source_port f"
    "udp_dest_port ?g = udp_dest_port f" "udp_payload ?g = udp_payload f"
    by (simp_all add: udp_built_def len_def Let_def)
  have i: "udp_build_ip f = Inr (?i, ?g)"
    using assms(2,3) len ck
    by (simp add: udp_build_ip_def udp_build_fresh [OF assms(1,2)] g pack_opt_def plus_bytes_def
        udp_hdr_ok_def in_lane_def udp_bytes_def)
  have iok: "ip_hdr_ok ?i" using ok by (simp add: ip_hdr_ok_def IPFrame_of_def udp_built_def Let_def eth_hdr_ok_def)
  have ih: "ip_length ?i = Some (len + 20)" "ip_header_checksum ?i = Some ?ick"
    by (simp_all add: IPFrame_of_def g)
  have hb: "ip_bytes ?i (len + 20) ?ick = ip_bytes f (len + 20) ?ick"
    by (simp add: ip_bytes_def IPFrame_of_def udp_built_def Let_def)
  have hdr: "ip_pack_header ?i = Inr (ip_bytes f (len + 20) ?ick)"
    using ip_pack_header_eq [OF iok ih(1) _ ih(2) ick] len(4) hb by (simp add: in_lane_def len_def)
  let ?e = "EthFrame (EthBytes (ip_bytes f (len + 20) ?ick @ udp_bytes f len ?ck bs))
    (eth_dest_mac f) (eth_src_mac f) (eth_type f) None"
  have e: "udp_build_eth f = Inr (?e, ?g)"
    by (simp add: udp_build_eth_def i ip_build_eth_def ip_build_def ih hdr)
      (simp add: IPFrame_of_def plus_bytes_def udp_built_def Let_def)
  have "eth_hdr_packs ?e" "eth_bytes ?e = eth_bytes f"
    using ok by (auto simp: EthFrame_def eth_hdr_packs_def ip_hdr_ok_def eth_hdr_ok_def eth_bytes_def)
  then have "eth_build_axis ?e = Inr (axis_frame_of (ArgBytes m))"
    by (simp add: eth_build_axis_eq) (simp add: EthFrame_def m_def)
  then show ?thesis by (simp add: udp_build_axis_def e)
qed

lemma udp_parse_bytes:
  assumes "udp_hdr_ok f" "length bs + 28 < 65536" "in_lane 16 ck" "in_lane 16 ick"
  defines "len \<equiv> int (length bs) + 8"
  shows "udp_parse_axis (ArgBytes (eth_bytes f (ip_bytes f (len + 20) ick @ udp_bytes f len ck bs))) x =
    Inr (UDPFrame_copy (f\<lparr>ip_length := Some (len + 20), ip_header_checksum := Some ick,
      udp_length := Some len, udp_checksum := Some ck,
      udp_payload := axis_frame_of (ArgBytes bs)\<rparr>))"
proof -
  have ok: "ip_hdr_ok f" using assms(1) by (simp add: udp_hdr_ok_def)
  let ?u = "udp_bytes f len ck bs"
  let ?i = "IPFrame_of (ArgBytes ?u) (f\<lparr>ip_length := Some (len + 20), ip_header_checksum := Some ick\<rparr>)"
  have ulen: "int (length ?u) + 20 = len + 20" by (simp add: udp_bytes_def len_def)
  then have pi: "ip_parse_axis (ArgBytes (eth_bytes f (ip_bytes f (len + 20) ick @ ?u))) IPFrame = Inr ?i"
    using ip_parse_axis_bytes [OF ok assms(4), of ?u IPFrame] assms(2) by (simp add: len_def)
  have dec: "udp_parse_axis a x = bindR (ip_parse_axis a IPFrame) (\<lambda>i. udp_parse_ip i x)" for a
    by (simp add: udp_parse_axis_def udp_parse_eth_def ip_parse_axis_def bindR_assoc)
  have bd: "bytes_data (ip_payload ?i) = Inr ?u" by (simp add: IPFrame_of_def)
  have flds: "unpack_H (pslice ?u 0 2) = Inr (udp_source_port f)"
    "unpack_H (pslice ?u 2 4) = Inr (udp_dest_port f)" "unpack_H (pslice ?u 4 6) = Inr len"
    "unpack_H (pslice ?u 6 8) = Inr ck" "pslice ?u 8 len = bs"
    using assms(1-3)
    by (simp_all add: udp_bytes_def udp_hdr_ok_def in_lane_def len_def nat_add_distrib)
  have w: "wrap_payload (ArgFrame (axis_frame_of (ArgBytes bs))) = wrap_payload (ArgBytes bs)"
    by (simp add: wrap_payload_def payload_setter_def AXIStreamFrame_def side_or_zero_def)
  show ?thesis
    unfolding dec pi bindR_Inr udp_parse_ip_def bd flds
    by (cases x) (simp add: UDPFrame_copy_def IPFrame_of_def w)
qed

section \<open>Properties\<close>

text \<open>The frame that parsing the built octets gives.\<close>

definition udp_received :: "udp_frame \<Rightarrow> bytes \<Rightarrow> udp_frame" where
  "udp_received f bs =
     (let len = int (length bs) + 8
      in UDPFrame_copy (f\<lparr>ip_length := Some (len + 20), ip_header_checksum := Some (ip_checksum f (len + 20)),
           udp_length := Some len, udp_checksum := Some (udp_ck f len bs),
           udp_payload := axis_frame_of (ArgBytes bs)\<rparr>))"

text \<open>The fields of all three headers agree, the payload left aside.\<close>

definition udp_hdr_eq :: "udp_frame \<Rightarrow> udp_frame \<Rightarrow> bool" where
  "udp_hdr_eq f g \<longleftrightarrow> ip_hdr_eq f g \<and> udp_source_port f = udp_source_port g
     \<and> udp_dest_port f = udp_dest_port g \<and> udp_length f = udp_length g
     \<and> udp_checksum f = udp_checksum g"

lemma udp_received_fields:
  "ip_length (udp_received f bs) = Some (int (length bs) + 8 + 20)"
  "udp_length (udp_received f bs) = Some (int (length bs) + 8)"
  "f_data (udp_payload (udp_received f bs)) = DBytes bs"
  by (simp_all add: udp_received_def UDPFrame_copy_def AXIStreamFrame_def Let_def)

lemma udp_received_verifies: "verify_checksums (udp_received f bs) = Inr True"
proof -
  let ?g = "udp_received f bs" and ?len = "int (length bs) + 8"
  have "ip_sum ?g (?len + 20) = ip_sum f (?len + 20)"
    by (simp add: ip_sum_def udp_received_def UDPFrame_copy_def Let_def)
  then have "verify_checksum ?g = Inr True"
    by (simp add: verify_checksum_def calc_checksum_def ip_checksum_def udp_received_fields)
      (simp add: udp_received_def UDPFrame_copy_def ip_checksum_def Let_def)
  moreover have "calc_udp_checksum ?g = Inr (udp_ck ?g ?len bs)"
    by (rule calc_udp_checksum_eq [OF udp_received_fields(2,3)])
  then have "verify_udp_checksum ?g = Inr True"
    by (simp add: verify_udp_checksum_def udp_ck_def pseudo_sum_def)
      (simp add: udp_received_def UDPFrame_copy_def udp_ck_def pseudo_sum_def Let_def)
  ultimately show ?thesis by (simp add: verify_checksums_def)
qed

lemma udp_received_eq:
  "f_data (udp_payload f) = DBytes bs \<Longrightarrow> plain_sides (udp_payload f) \<Longrightarrow> udp_eq (udp_built f bs) (udp_received f bs)"
  using axis_eq_wrap [of "udp_payload f" bs]
  by (simp add: udp_eq_def ip_hdr_eq_def udp_built_def udp_received_def UDPFrame_copy_def Let_def wrap_payload_def
      payload_setter_def AXIStreamFrame_def side_or_zero_def)

lemma udp_received_hdr:
  "udp_hdr_eq (udp_built f bs) (udp_received f bs)"
  by (simp add: udp_hdr_eq_def ip_hdr_eq_def udp_built_def udp_received_def UDPFrame_copy_def Let_def)

text \<open>
  C7: a UDP datagram with fields in range and data that fit the IP length, built without given lengths and checksums, survives the
  way through IP and Ethernet.  Building fills in the two lengths and the two checksums and leaves
  every other field; the frame has 42 bytes of headers; the 16-bit words of pseudo header, UDP
  header and data add up to a multiple of \<open>0xffff\<close> with the checksum in place, and so do those of
  the IP header; parsing gives back every header field of the Ethernet, IP and UDP layer, with the
  lengths and checksums that were filled in, and the data, and both checksums of the parsed frame
  verify.  If the \<open>tid\<close> and \<open>tdest\<close> of the payload frame are \<open>None\<close> or 0 (the wire does not carry
  them), the parsed frame also equals the built one under \<open>__eq__\<close>.
\<close>

theorem udp_build_parse_roundtrip:
  assumes "udp_fresh f" "f_data (udp_payload f) = DBytes bs" "udp_hdr_ok f" "length bs + 28 < 65536"
  shows "\<exists>a f' m g ck ick. udp_build_axis f = Inr (a, f') \<and> f_data a = DBytes m
    \<and> f' = f\<lparr>udp_length := Some (int (length bs) + 8), udp_checksum := Some ck,
             ip_length := Some (int (length bs) + 28), ip_header_checksum := Some ick\<rparr>
    \<and> length m = 42 + length bs
    \<and> word_sum (take 20 (drop 14 m)) mod 0xffff = 0
    \<and> word_sum (pseudo_header f (int (length bs) + 8) @ drop 34 m) mod 0xffff = 0
    \<and> udp_parse_axis (ArgFrame a) x = Inr g \<and> f_data (udp_payload g) = DBytes bs
    \<and> udp_hdr_eq f' g \<and> verify_checksums g = Inr True
    \<and> (plain_sides (udp_payload f) \<longrightarrow> udp_eq f' g)"
proof -
  let ?len = "int (length bs) + 8"
  let ?ck = "udp_ck f ?len bs" and ?ick = "ip_checksum f (?len + 20)"
  let ?m = "eth_bytes f (ip_bytes f (?len + 20) ?ick @ udp_bytes f ?len ?ck bs)"
  have ok: "ip_hdr_ok f" using assms(3) by (simp add: udp_hdr_ok_def)
  have len: "0 < ?len" "?len < 65536" "0 < ?len + 20" "?len + 20 < 65536" "length bs < 65536"
    using assms(4) by simp_all
  note ck = udp_ck_props [OF assms(3) len(1,2,5)]
  note ick = ip_checksum_props [OF ok len(3,4)]
  have ick': "0 \<le> ?ick" "?ick < 65536" using ick(1) by (simp_all add: in_lane_def)
  have build: "udp_build_axis f = Inr (axis_frame_of (ArgBytes ?m), udp_built f bs)"
    by (rule udp_build_axis_fresh [OF assms])
  have built: "udp_built f bs = f\<lparr>udp_length := Some ?len, udp_checksum := Some ?ck,
      ip_length := Some (int (length bs) + 28), ip_header_checksum := Some ?ick\<rparr>"
    by (simp add: udp_built_def Let_def)
  have parse: "udp_parse_axis (ArgFrame (axis_frame_of (ArgBytes ?m))) x = Inr (udp_received f bs)"
    using udp_parse_bytes [OF assms(3,4) _ ick(1), of ?ck x] ck(1,2)
    by (simp add: udp_parse_axis_def in_lane_def udp_received_def Let_def)
  have parts: "take 20 (drop 14 ?m) = ip_bytes f (?len + 20) ?ick"
    "drop 34 ?m = udp_bytes f ?len ?ck bs" "length ?m = 42 + length bs"
    by (simp_all add: eth_bytes_def udp_bytes_def)
  have "word_sum (take 20 (drop 14 ?m)) mod 65535 = 0"
    unfolding parts using word_sum_ip_bytes [OF ok _ len(4) ick'] ick(2) by simp
  moreover have "f_data (axis_frame_of (ArgBytes ?m)) = DBytes ?m" by (simp add: AXIStreamFrame_def)
  ultimately show ?thesis
    using build built parse ck(3) parts(2,3) udp_received_verifies [of f bs] udp_received_hdr [of f bs]
      udp_received_fields(3) [of f bs] udp_received_eq [OF assms(2)]
    by (intro exI [of _ "axis_frame_of (ArgBytes ?m)"] exI [of _ "udp_built f bs"] exI [of _ ?m]
        exI [of _ "udp_received f bs"] exI [of _ ?ck] exI [of _ ?ick]) simp
qed

theorem udp_build_parse_roundtrip_witness:
  "\<exists>a f' g. udp_build_axis (UDPFrame\<lparr>udp_payload := wrap_payload (ArgBytes [1, 2, 3])\<rparr>) = Inr (a, f')
    \<and> udp_parse_axis (ArgFrame a) UDPFrame = Inr g \<and> f_data (udp_payload g) = DBytes [1, 2, 3]
    \<and> udp_hdr_eq f' g \<and> verify_checksums g = Inr True"
  using udp_build_parse_roundtrip
    [of "UDPFrame\<lparr>udp_payload := wrap_payload (ArgBytes [1, 2, 3])\<rparr>" "[1, 2, 3]" UDPFrame]
  by (auto simp: UDPFrame_def udp_fresh_def udp_hdr_ok_def ip_hdr_ok_def eth_hdr_ok_def in_lane_def)

end
