(* ===== verification/Framed_Endpoint.thy ===== *)
theory Framed_Endpoint
  imports Udp_Frame
begin

text \<open>
  The sources and sinks of \<open>lib/eth/tb/eth_ep.py\<close>, \<open>ip_ep.py\<close> and \<open>udp_ep.py\<close>.  The three files have
  the same code up to the header fields: a frame is a header, passed in one cycle over a parallel
  bus with its own valid/ready handshake, and a payload, passed by an \<open>AXIStreamSource\<close> and
  \<open>AXIStreamSink\<close> owned by the endpoint.  The code is written once, with what differs in a record
  of operations, and instantiated for the three classes.

  The header process and the payload process of an endpoint run on the same clock edge and share
  the payload queue, in an order the simulator chooses; the order is an argument of the step, and
  nothing is assumed about it.  The header signals have the default widths of \<open>create_logic\<close>.
\<close>

section \<open>What differs between the three classes\<close>

record 'f frame_ops =
  fo_copy :: "'f \<Rightarrow> 'f" \<comment> \<open>\<open>EthFrame(frame)\<close>\<close>
  fo_payload :: "'f \<Rightarrow> axis_frame"
  fo_prepare :: "'f \<Rightarrow> 'f result" \<comment> \<open>\<open>frame.build()\<close> and the assignments to the header signals\<close>
  fo_header :: "'f \<Rightarrow> 'f" \<comment> \<open>the frame a sink makes of the header signals\<close>
  fo_set_payload :: "axis_frame \<Rightarrow> 'f \<Rightarrow> 'f"
  fo_strict :: bool \<comment> \<open>the sink asserts that no payload is left without a header\<close>

section \<open>The source\<close>

record 'f hdr_source =
  hs_active :: bool
  hs_queue :: "'f list"
  hs_header_queue :: "'f list"
  hs_sig :: "'f option"
  hs_valid :: bool
  hs_payload :: axis_source

definition hdr_source0 :: "axis_cfg \<Rightarrow> 'f hdr_source" where
  "hdr_source0 c =
     \<lparr>hs_active = False, hs_queue = [], hs_header_queue = [], hs_sig = None, hs_valid = False,
      hs_payload = axis_source0 c\<rparr>"

definition queue_frame :: "'f frame_ops \<Rightarrow> 'f \<Rightarrow> 'f hdr_source \<Rightarrow> 'f hdr_source" where
  \<comment> \<open>\<open>self.header_queue.append(frame)\<close> and \<open>self.payload_source.send(frame.payload)\<close>\<close>
  "queue_frame F frame self =
     self\<lparr>hs_header_queue := hs_header_queue self @ [frame],
          hs_payload := axis_source_send (ArgFrame (fo_payload F frame)) (hs_payload self)\<rparr>"

definition hdr_source_send :: "'f frame_ops \<Rightarrow> 'f \<Rightarrow> 'f hdr_source \<Rightarrow> 'f hdr_source" where
  "hdr_source_send F frame self =
     (let frame = fo_copy F frame
      in if hs_header_queue self = [] then queue_frame F frame self
         else self\<lparr>hs_queue := hs_queue self @ [frame]\<rparr>)"

definition hdr_source_count :: "'f hdr_source \<Rightarrow> nat" where
  "hdr_source_count self = length (hs_queue self)"

definition hdr_source_empty :: "'f hdr_source \<Rightarrow> bool" where
  "hdr_source_empty self \<longleftrightarrow> hs_queue self = []"

definition hdr_source_idle :: "'f hdr_source \<Rightarrow> bool" where
  "hdr_source_idle self \<longleftrightarrow>
     hs_queue self = [] \<and> \<not> hs_active self \<and> axis_source_idle (hs_payload self)"

definition hdr_source_logic ::
    "'f frame_ops \<Rightarrow> bool \<Rightarrow> bool \<Rightarrow> bool \<Rightarrow> 'f hdr_source \<Rightarrow> 'f hdr_source result" where
  "hdr_source_logic F rst pause ready self =
     (if rst then Inr (self\<lparr>hs_valid := False, hs_active := False\<rparr>)
      else
        let valid = hs_valid self;
            self = self\<lparr>hs_valid := hs_active self \<and> (valid \<or> \<not> pause)\<rparr>;
            self = (if ready \<and> valid then self\<lparr>hs_valid := False, hs_active := False\<rparr> else self)
        in bindR
          (if \<not> hs_active self \<and> hs_header_queue self \<noteq> [] then
             bindR (pop0 (hs_header_queue self)) (\<lambda>(frame, q).
             bindR (fo_prepare F frame) (\<lambda>sig.
               Inr (self\<lparr>hs_header_queue := q, hs_sig := Some sig, hs_valid := \<not> pause,
                         hs_active := True\<rparr>)))
           else Inr self) (\<lambda>self.
        if hs_queue self \<noteq> [] \<and> hs_header_queue self = [] then
          bindR (pop0 (hs_queue self)) (\<lambda>(frame, q).
            Inr (queue_frame F frame (self\<lparr>hs_queue := q\<rparr>)))
        else Inr self))"

definition hdr_source_payload ::
    "axis_cfg \<Rightarrow> bool \<Rightarrow> bool \<Rightarrow> bool \<Rightarrow> 'f hdr_source \<Rightarrow> 'f hdr_source result" where
  "hdr_source_payload c rst pause ready self =
     bindR (axis_source_step c rst pause ready (hs_payload self)) (\<lambda>p.
       Inr (self\<lparr>hs_payload := p\<rparr>))"

text \<open>A clock edge: the two processes, in either order.\<close>

definition hdr_source_step ::
    "'f frame_ops \<Rightarrow> axis_cfg \<Rightarrow> bool \<Rightarrow> bool \<Rightarrow> bool \<Rightarrow> bool \<Rightarrow> bool \<Rightarrow> 'f hdr_source
       \<Rightarrow> 'f hdr_source result" where
  "hdr_source_step F c payload_first rst pause hdr_ready payload_ready self =
     (if payload_first then
        bindR (hdr_source_payload c rst pause payload_ready self)
          (hdr_source_logic F rst pause hdr_ready)
      else
        bindR (hdr_source_logic F rst pause hdr_ready self)
          (hdr_source_payload c rst pause payload_ready))"

definition hdr_offered :: "'f hdr_source \<Rightarrow> 'f option" where
  "hdr_offered self = (if hs_valid self then hs_sig self else None)"

section \<open>The sink\<close>

record 'f hdr_sink =
  hk_queue :: "'f list"
  hk_header_queue :: "'f list"
  hk_ready_int :: bool
  hk_payload :: axis_sink

definition hdr_sink0 :: "'f hdr_sink" where
  "hdr_sink0 =
     \<lparr>hk_queue = [], hk_header_queue = [], hk_ready_int = False, hk_payload = axis_sink0\<rparr>"

definition hdr_ready :: "bool \<Rightarrow> 'f hdr_sink \<Rightarrow> bool" where
  "hdr_ready pause self \<longleftrightarrow> hk_ready_int self \<and> \<not> pause"

definition pair_frames :: "'f frame_ops \<Rightarrow> 'f hdr_sink \<Rightarrow> 'f hdr_sink result" where
  \<comment> \<open>\<open>if not self.payload_sink.empty() and self.header_queue\<close>\<close>
  "pair_frames F self =
     (if \<not> axis_sink_empty (hk_payload self) \<and> hk_header_queue self \<noteq> [] then
        bindR (pop0 (hk_header_queue self)) (\<lambda>(frame, hq).
        case axis_sink_recv (hk_payload self) of
          (None, _) \<Rightarrow> Inl TypeError
        | (Some p, ps) \<Rightarrow>
            bindR (assertR (fo_strict F \<and> hq = [] \<longrightarrow> axis_sink_empty ps)) (\<lambda>_.
              Inr (self\<lparr>hk_header_queue := hq, hk_payload := ps,
                        hk_queue := hk_queue self @
                          [fo_set_payload F (axis_frame_of (ArgFrame p)) frame]\<rparr>)))
      else Inr self)"

definition hdr_sink_logic ::
    "'f frame_ops \<Rightarrow> bool \<Rightarrow> bool \<Rightarrow> 'f option \<Rightarrow> 'f hdr_sink \<Rightarrow> 'f hdr_sink result" where
  "hdr_sink_logic F rst pause bus self =
     (if rst then Inr (self\<lparr>hk_ready_int := False\<rparr>)
      else pair_frames F
        (case bus of
           Some sig \<Rightarrow>
             if hk_ready_int self \<and> \<not> pause
             then self\<lparr>hk_ready_int := True,
                       hk_header_queue := hk_header_queue self @ [fo_header F sig]\<rparr>
             else self\<lparr>hk_ready_int := True\<rparr>
         | None \<Rightarrow> self\<lparr>hk_ready_int := True\<rparr>))"

definition hdr_sink_payload ::
    "axis_cfg \<Rightarrow> bool \<Rightarrow> bool \<Rightarrow> (axis_beat \<times> bool) option \<Rightarrow> 'f hdr_sink \<Rightarrow> 'f hdr_sink result" where
  "hdr_sink_payload c rst pause bus self =
     bindR (axis_sink_step c rst pause bus (hk_payload self)) (\<lambda>p. Inr (self\<lparr>hk_payload := p\<rparr>))"

definition hdr_sink_step ::
    "'f frame_ops \<Rightarrow> axis_cfg \<Rightarrow> bool \<Rightarrow> bool \<Rightarrow> bool \<Rightarrow> 'f option \<Rightarrow> (axis_beat \<times> bool) option
       \<Rightarrow> 'f hdr_sink \<Rightarrow> 'f hdr_sink result" where
  "hdr_sink_step F c payload_first rst pause hdr_bus payload_bus self =
     (if payload_first then
        bindR (hdr_sink_payload c rst pause payload_bus self) (hdr_sink_logic F rst pause hdr_bus)
      else
        bindR (hdr_sink_logic F rst pause hdr_bus self) (hdr_sink_payload c rst pause payload_bus))"

definition hdr_sink_recv :: "'f hdr_sink \<Rightarrow> 'f option \<times> 'f hdr_sink" where
  "hdr_sink_recv self =
     (case hk_queue self of [] \<Rightarrow> (None, self) | f # q \<Rightarrow> (Some f, self\<lparr>hk_queue := q\<rparr>))"

definition hdr_sink_count :: "'f hdr_sink \<Rightarrow> nat" where
  "hdr_sink_count self = length (hk_queue self)"

definition hdr_sink_empty :: "'f hdr_sink \<Rightarrow> bool" where
  "hdr_sink_empty self \<longleftrightarrow> hk_queue self = []"

section \<open>Ethernet\<close>

definition eth_fits :: "'a eth_hdr_scheme \<Rightarrow> bool" where
  "eth_fits f \<longleftrightarrow>
     fits (Some 48) (eth_dest_mac f) \<and> fits (Some 48) (eth_src_mac f) \<and> fits (Some 16) (eth_type f)"

definition eth_ops :: "eth_frame frame_ops" where
  "eth_ops =
     \<lparr>fo_copy = (\<lambda>f. EthFrame (EthCopy f) 0 0 0 None),
      fo_payload = eth_payload,
      fo_prepare = (\<lambda>f. if eth_fits f then Inr f else Inl ValueError),
      fo_header = (\<lambda>f. EthFrame_default\<lparr>eth_dest_mac := eth_dest_mac f,
         eth_src_mac := eth_src_mac f, eth_type := eth_type f\<rparr>),
      fo_set_payload = (\<lambda>p f. f\<lparr>eth_payload := p\<rparr>),
      fo_strict = False\<rparr>"

definition eth_source_send :: "eth_frame \<Rightarrow> eth_frame hdr_source \<Rightarrow> eth_frame hdr_source" where
  "eth_source_send = hdr_source_send eth_ops"

definition eth_source_step ::
    "axis_cfg \<Rightarrow> bool \<Rightarrow> bool \<Rightarrow> bool \<Rightarrow> bool \<Rightarrow> bool \<Rightarrow> eth_frame hdr_source
       \<Rightarrow> eth_frame hdr_source result" where
  "eth_source_step = hdr_source_step eth_ops"

definition eth_sink_step ::
    "axis_cfg \<Rightarrow> bool \<Rightarrow> bool \<Rightarrow> bool \<Rightarrow> eth_frame option \<Rightarrow> (axis_beat \<times> bool) option
       \<Rightarrow> eth_frame hdr_sink \<Rightarrow> eth_frame hdr_sink result" where
  "eth_sink_step = hdr_sink_step eth_ops"

section \<open>IP\<close>

definition ip_fits :: "'a ip_hdr_scheme \<Rightarrow> bool" where
  "ip_fits f \<longleftrightarrow>
     eth_fits f \<and> fits (Some 4) (ip_version f) \<and> fits (Some 4) (ip_ihl f)
     \<and> fits (Some 6) (ip_dscp f) \<and> fits (Some 2) (ip_ecn f)
     \<and> (case ip_length f of None \<Rightarrow> False | Some l \<Rightarrow> fits (Some 16) l)
     \<and> fits (Some 16) (ip_identification f) \<and> fits (Some 3) (ip_flags f)
     \<and> fits (Some 13) (ip_fragment_offset f) \<and> fits (Some 8) (ip_ttl f)
     \<and> fits (Some 8) (ip_protocol f)
     \<and> (case ip_header_checksum f of None \<Rightarrow> False | Some l \<Rightarrow> fits (Some 16) l)
     \<and> fits (Some 32) (ip_source_ip f) \<and> fits (Some 32) (ip_dest_ip f)"

definition ip_ops :: "ip_frame frame_ops" where
  "ip_ops =
     \<lparr>fo_copy = IPFrame_copy,
      fo_payload = ip_payload,
      fo_prepare = (\<lambda>f. bindR (ip_build f) (\<lambda>f. if ip_fits f then Inr f else Inl ValueError)),
      fo_header = (\<lambda>f. IPFrame_of (ArgBytes []) f),
      fo_set_payload = (\<lambda>p f. f\<lparr>ip_payload := p\<rparr>),
      fo_strict = True\<rparr>"

definition ip_source_send :: "ip_frame \<Rightarrow> ip_frame hdr_source \<Rightarrow> ip_frame hdr_source" where
  "ip_source_send = hdr_source_send ip_ops"

definition ip_source_step ::
    "axis_cfg \<Rightarrow> bool \<Rightarrow> bool \<Rightarrow> bool \<Rightarrow> bool \<Rightarrow> bool \<Rightarrow> ip_frame hdr_source
       \<Rightarrow> ip_frame hdr_source result" where
  "ip_source_step = hdr_source_step ip_ops"

definition ip_sink_step ::
    "axis_cfg \<Rightarrow> bool \<Rightarrow> bool \<Rightarrow> bool \<Rightarrow> ip_frame option \<Rightarrow> (axis_beat \<times> bool) option
       \<Rightarrow> ip_frame hdr_sink \<Rightarrow> ip_frame hdr_sink result" where
  "ip_sink_step = hdr_sink_step ip_ops"

section \<open>UDP\<close>

definition udp_fits :: "udp_frame \<Rightarrow> bool" where
  "udp_fits f \<longleftrightarrow>
     ip_fits f \<and> fits (Some 16) (udp_source_port f) \<and> fits (Some 16) (udp_dest_port f)
     \<and> (case udp_length f of None \<Rightarrow> False | Some l \<Rightarrow> fits (Some 16) l)
     \<and> (case udp_checksum f of None \<Rightarrow> False | Some l \<Rightarrow> fits (Some 16) l)"

definition udp_ops :: "udp_frame frame_ops" where
  "udp_ops =
     \<lparr>fo_copy = UDPFrame_copy,
      fo_payload = udp_payload,
      fo_prepare = (\<lambda>f. bindR (udp_build f) (\<lambda>f. if udp_fits f then Inr f else Inl ValueError)),
      fo_header = (\<lambda>f. UDPFrame_copy (f\<lparr>udp_payload := axis_frame_of (ArgBytes [])\<rparr>)),
      fo_set_payload = (\<lambda>p f. f\<lparr>udp_payload := p\<rparr>),
      fo_strict = True\<rparr>"

definition udp_source_send :: "udp_frame \<Rightarrow> udp_frame hdr_source \<Rightarrow> udp_frame hdr_source" where
  "udp_source_send = hdr_source_send udp_ops"

definition udp_source_step ::
    "axis_cfg \<Rightarrow> bool \<Rightarrow> bool \<Rightarrow> bool \<Rightarrow> bool \<Rightarrow> bool \<Rightarrow> udp_frame hdr_source
       \<Rightarrow> udp_frame hdr_source result" where
  "udp_source_step = hdr_source_step udp_ops"

definition udp_sink_step ::
    "axis_cfg \<Rightarrow> bool \<Rightarrow> bool \<Rightarrow> bool \<Rightarrow> udp_frame option \<Rightarrow> (axis_beat \<times> bool) option
       \<Rightarrow> udp_frame hdr_sink \<Rightarrow> udp_frame hdr_sink result" where
  "udp_sink_step = hdr_sink_step udp_ops"

end
