(* ===== verification/Wire_Link.thy ===== *)
theory Wire_Link
  imports Prelude
begin

text \<open>
  The free-running links below the MAC, as an interface.  An MII-style source drives one word on
  the wire in every clock cycle, with no handshake: idle words between frames and, for every
  frame, one of the word sequences that encode it.  A sink ignores idle words between frames and
  turns every encoding back into a frame.

  The locale \<open>wire_source\<close> states what a source promises about the words it drives,
  \<open>wire_sink\<close> what a sink promises about the words it is given, and \<open>wire_link\<close> proves once
  that the two together deliver every frame in order, whatever the clock enable does, and that
  all of them are delivered after a computable number of enabled cycles.
\<close>

section \<open>A source and a sink on one clock\<close>

text \<open>An event: a frame is queued, or a clock edge with the clock enable high or low.\<close>

datatype 'f wire_event = Put 'f | Clk bool

record ('s, 'k, 'w, 'f) wire =
  w_src :: "bool \<Rightarrow> 's \<Rightarrow> 's result"
  w_out :: "'s \<Rightarrow> 'w"
  w_send :: "'f \<Rightarrow> 's \<Rightarrow> 's"
  w_snk :: "bool \<Rightarrow> 'w \<Rightarrow> 'k \<Rightarrow> 'k result"

fun wire_step :: "('s, 'k, 'w, 'f) wire \<Rightarrow> 'f wire_event \<Rightarrow> 's \<times> 'k \<Rightarrow> ('s \<times> 'k) result" where
  "wire_step W (Put f) (s, k) = Inr (w_send W f s, k)"
| "wire_step W (Clk en) (s, k) =
     bindR (w_src W en s) (\<lambda>s'. bindR (w_snk W en (w_out W s) k) (\<lambda>k'. Inr (s', k')))"

fun wire_run :: "('s, 'k, 'w, 'f) wire \<Rightarrow> 'f wire_event list \<Rightarrow> 's \<times> 'k \<Rightarrow> ('s \<times> 'k) result" where
  "wire_run W [] x = Inr x"
| "wire_run W (e # es) x = bindR (wire_step W e x) (wire_run W es)"

fun put :: "'f wire_event list \<Rightarrow> 'f list" where
  "put [] = []"
| "put (Put f # es) = f # put es"
| "put (Clk en # es) = put es"

fun ticks :: "'f wire_event list \<Rightarrow> nat" where
  "ticks [] = 0"
| "ticks (Put f # es) = ticks es"
| "ticks (Clk en # es) = (if en then 1 else 0) + ticks es"

lemma put_append [simp]: "put (es @ es') = put es @ put es'"
  by (induction es rule: put.induct) simp_all

lemma put_map_Put [simp]: "put (map Put fs) = fs"
  by (induction fs) simp_all

lemma put_Clk [simp]: "put (replicate n (Clk en)) = []" "ticks (replicate n (Clk True)) = n"
  by (induction n) simp_all

lemma wire_run_append: "wire_run W (es @ es') x = bindR (wire_run W es x) (wire_run W es')"
  by (induction es arbitrary: x) (auto simp: bindR_assoc intro!: bindR_eqI)

text \<open>The words a sink sees, one after the other.\<close>

fun take_words :: "('w \<Rightarrow> 'k \<Rightarrow> 'k result) \<Rightarrow> 'w list \<Rightarrow> 'k \<Rightarrow> 'k result" where
  "take_words g [] k = Inr k"
| "take_words g (w # ws) k = bindR (g w k) (take_words g ws)"

lemma take_words_append:
  "take_words g (ws @ ws') k = bindR (take_words g ws k) (take_words g ws')"
  by (induction ws arbitrary: k) (auto simp: bindR_assoc intro!: bindR_eqI)

section \<open>What a source and a sink promise\<close>

locale wire_source =
  fixes src_step :: "'s \<Rightarrow> 's result"
    and out :: "'s \<Rightarrow> 'w"
    and send :: "'f \<Rightarrow> 's \<Rightarrow> 's"
    and src_inv :: "'s \<Rightarrow> bool"
    and queued :: "'s \<Rightarrow> 'f list"
    and coming :: "'s \<Rightarrow> 'w list" \<comment> \<open>what is left of the current frame, the word on the wire included\<close>
    and gap :: "'s \<Rightarrow> nat" \<comment> \<open>bound on the idle words before the next frame can start\<close>
    and sendable :: "'f \<Rightarrow> bool"
    and idle :: "'w \<Rightarrow> bool"
    and code :: "'f \<Rightarrow> 'w list \<Rightarrow> bool"
    and span :: "'f \<Rightarrow> nat"
    and max_gap :: nat
  assumes send_inv: "src_inv s \<Longrightarrow> sendable f \<Longrightarrow> src_inv (send f s)"
    and send_queued: "queued (send f s) = queued s @ [f]"
    and send_coming: "coming (send f s) = coming s"
    and send_gap: "gap (send f s) = gap s"
    and out_idle: "src_inv s \<Longrightarrow> coming s = [] \<Longrightarrow> idle (out s)"
    and out_coming: "src_inv s \<Longrightarrow> coming s = w # ws \<Longrightarrow> out s = w"
    and step_coming: "src_inv s \<Longrightarrow> coming s = w # v # ws \<Longrightarrow>
      \<exists>s'. src_step s = Inr s' \<and> src_inv s' \<and> coming s' = v # ws \<and> queued s' = queued s"
    and step_idle: "src_inv s \<Longrightarrow> coming s = [] \<or> coming s = [w] \<Longrightarrow>
      queued s = [] \<or> gap s \<noteq> 0 \<Longrightarrow>
      \<exists>s'. src_step s = Inr s' \<and> src_inv s' \<and> coming s' = [] \<and> queued s' = queued s
        \<and> gap s' \<le> gap s - 1"
    and step_start: "src_inv s \<Longrightarrow> coming s = [] \<or> coming s = [w] \<Longrightarrow>
      queued s = f # fs \<Longrightarrow> gap s = 0 \<Longrightarrow> sendable f \<Longrightarrow>
      \<exists>s'. src_step s = Inr s' \<and> src_inv s' \<and> code f (coming s') \<and> queued s' = fs"
    and gap_bound: "src_inv s \<Longrightarrow> gap s \<le> max_gap"
    and code_nonempty: "code f ws \<Longrightarrow> ws \<noteq> []"
    and code_span: "code f ws \<Longrightarrow> length ws \<le> span f"

locale wire_sink =
  fixes snk_step :: "'w \<Rightarrow> 'k \<Rightarrow> 'k result"
    and quiet :: "'k \<Rightarrow> bool"
    and received :: "'k \<Rightarrow> 'r list"
    and sendable :: "'f \<Rightarrow> bool"
    and idle :: "'w \<Rightarrow> bool"
    and code :: "'f \<Rightarrow> 'w list \<Rightarrow> bool"
    and image :: "'f \<Rightarrow> 'r"
  assumes take_idle: "quiet k \<Longrightarrow> idle w \<Longrightarrow>
      \<exists>k'. snk_step w k = Inr k' \<and> quiet k' \<and> received k' = received k"
    and take_code: "quiet k \<Longrightarrow> sendable f \<Longrightarrow> code f ws \<Longrightarrow>
      \<exists>k'. take_words snk_step ws k = Inr k' \<and> quiet k' \<and> received k' = received k @ [image f]"

section \<open>The link of the two\<close>

locale wire_link =
  wire_source src_step out send src_inv queued coming gap sendable idle code span max_gap +
  wire_sink snk_step quiet received sendable idle code image
  for src_step :: "'s \<Rightarrow> 's result"
    and out :: "'s \<Rightarrow> 'w"
    and send :: "'f \<Rightarrow> 's \<Rightarrow> 's"
    and src_inv :: "'s \<Rightarrow> bool"
    and queued :: "'s \<Rightarrow> 'f list"
    and coming :: "'s \<Rightarrow> 'w list"
    and gap :: "'s \<Rightarrow> nat"
    and sendable :: "'f \<Rightarrow> bool"
    and idle :: "'w \<Rightarrow> bool"
    and code :: "'f \<Rightarrow> 'w list \<Rightarrow> bool"
    and span :: "'f \<Rightarrow> nat"
    and max_gap :: nat
    and snk_step :: "'w \<Rightarrow> 'k \<Rightarrow> 'k result"
    and quiet :: "'k \<Rightarrow> bool"
    and received :: "'k \<Rightarrow> 'r list"
    and image :: "'f \<Rightarrow> 'r"
begin

abbreviation W :: "('s, 'k, 'w, 'f) wire" where
  "W \<equiv> \<lparr>w_src = (\<lambda>en s. if en then src_step s else Inr s), w_out = out, w_send = send,
        w_snk = (\<lambda>en w k. if en then snk_step w k else Inr k)\<rparr>"

text \<open>
  Between frames the sink is quiet; within a frame it is where the words before the one on the
  wire have taken it from a quiet state.
\<close>

definition on_wire :: "'s \<Rightarrow> 'k \<Rightarrow> 'r list \<Rightarrow> 'f list \<Rightarrow> bool" where
  "on_wire s k past cur \<longleftrightarrow>
     (case cur of
        [] \<Rightarrow> coming s = [] \<and> quiet k \<and> received k = past
      | [f] \<Rightarrow> coming s \<noteq> [] \<and> sendable f \<and> (\<exists>pre k0. code f (pre @ coming s) \<and> quiet k0
           \<and> received k0 = past \<and> take_words snk_step pre k0 = Inr k)
      | _ \<Rightarrow> False)"

definition link_inv :: "'f list \<Rightarrow> 's \<times> 'k \<Rightarrow> bool" where
  "link_inv fs x \<longleftrightarrow> (case x of (s, k) \<Rightarrow>
     src_inv s \<and> list_all sendable (queued s)
     \<and> (\<exists>past cur. fs = past @ cur @ queued s \<and> on_wire s k (map image past) cur))"

lemma on_wire_cases:
  assumes "on_wire s k past cur"
  obtains (idle) "cur = []" "coming s = []" "quiet k" "received k = past"
    | (busy) f pre k0 where "cur = [f]" "coming s \<noteq> []" "sendable f" "code f (pre @ coming s)"
        "quiet k0" "received k0 = past" "take_words snk_step pre k0 = Inr k"
  using assms by (auto simp: on_wire_def split: list.splits)

lemma on_wire_idle: "coming s = [] \<Longrightarrow> quiet k \<Longrightarrow> received k = past \<Longrightarrow> on_wire s k past []"
  by (simp add: on_wire_def)

lemma on_wire_busy:
  "coming s \<noteq> [] \<Longrightarrow> sendable f \<Longrightarrow> code f (pre @ coming s) \<Longrightarrow> quiet k0 \<Longrightarrow> received k0 = past \<Longrightarrow>
    take_words snk_step pre k0 = Inr k \<Longrightarrow> on_wire s k past [f]"
  by (auto simp: on_wire_def)

lemma link_invI:
  "src_inv s \<Longrightarrow> list_all sendable (queued s) \<Longrightarrow> on_wire s k (map image past) cur \<Longrightarrow>
    fs = past @ cur @ queued s \<Longrightarrow> link_inv fs (s, k)"
  by (auto simp: link_inv_def)

lemma link_inv_init:
  "src_inv s \<Longrightarrow> coming s = [] \<Longrightarrow> queued s = [] \<Longrightarrow> quiet k \<Longrightarrow> received k = [] \<Longrightarrow>
    link_inv [] (s, k)"
  by (simp add: link_inv_def on_wire_def)

lemma on_wire_cong: "coming s' = coming s \<Longrightarrow> on_wire s' k past cur = on_wire s k past cur"
  unfolding on_wire_def by (erule ssubst) (rule refl)

lemma link_put:
  assumes "link_inv fs (s, k)" "sendable f"
  shows "link_inv (fs @ [f]) (send f s, k)"
proof -
  obtain past cur where "src_inv s" "list_all sendable (queued s)"
      "on_wire s k (map image past) cur" "fs = past @ cur @ queued s"
    using assms(1) by (auto simp: link_inv_def)
  then show ?thesis
    using assms(2) on_wire_cong [OF send_coming]
    by (intro link_invI [of _ _ past cur]) (simp_all add: send_inv send_queued)
qed

text \<open>What one word does to the sink, and where that leaves it when the source moves on.\<close>

lemma take_word:
  assumes "on_wire s k past cur" "src_inv s"
  shows "\<exists>k'. snk_step (out s) k = Inr k'
    \<and> (length (coming s) \<le> 1 \<longrightarrow> quiet k' \<and> received k' = past @ map image cur)
    \<and> (\<forall>s'. coming s' = tl (coming s) \<longrightarrow> 1 < length (coming s) \<longrightarrow> on_wire s' k' past cur)"
  using assms(1)
proof (cases rule: on_wire_cases)
  case idle
  then show ?thesis using take_idle [OF idle(3) out_idle [OF assms(2)]] by auto
next
  case (busy f pre k0)
  obtain w ws where w: "coming s = w # ws" using busy(2) by (cases "coming s") auto
  have out: "out s = w" by (rule out_coming [OF assms(2) w])
  obtain k1 where all: "take_words snk_step (pre @ w # ws) k0 = Inr k1" "quiet k1"
      "received k1 = past @ [image f]"
    using take_code [OF busy(5,3,4)] w busy(6) by auto
  then obtain k' where k': "snk_step w k = Inr k'" "take_words snk_step ws k' = Inr k1"
    using busy(7) by (auto simp: take_words_append bindR_eq_Inr)
  have "on_wire s' k' past cur" if "coming s' = ws" "ws \<noteq> []" for s'
    unfolding busy(1)
  proof (rule on_wire_busy [OF _ busy(3) _ busy(5,6)])
    show "code f ((pre @ [w]) @ coming s')" using that busy(4) w by simp
    show "take_words snk_step (pre @ [w]) k0 = Inr k'"
      using busy(7) k' by (simp add: take_words_append)
  qed (use that in simp)
  then show ?thesis using k' all w out busy(1) by (cases ws) auto
qed

text \<open>The work left: the words of the frames queued and in flight, and the gaps between them.\<close>

definition work :: "'s \<Rightarrow> nat" where
  "work s = length (coming s)
     + (if queued s = [] then 0 else if length (coming s) \<le> 1 then gap s else max_gap)
     + (\<Sum>f\<leftarrow>queued s. span f + max_gap + 1)"

lemma work_zero: "work s = 0 \<Longrightarrow> coming s = [] \<and> queued s = []"
  by (cases "queued s") (auto simp: work_def)

lemma link_tick:
  assumes "link_inv fs (s, k)"
  shows "\<exists>s' k'. src_step s = Inr s' \<and> snk_step (out s) k = Inr k' \<and> link_inv fs (s', k')
    \<and> work s' \<le> work s - 1"
proof -
  obtain past cur where inv: "src_inv s" "list_all sendable (queued s)"
      "fs = past @ cur @ queued s" "on_wire s k (map image past) cur"
    using assms by (auto simp: link_inv_def)
  obtain k' where k': "snk_step (out s) k = Inr k'"
      "length (coming s) \<le> 1 \<Longrightarrow> quiet k' \<and> received k' = map image (past @ cur)"
      "\<And>s'. coming s' = tl (coming s) \<Longrightarrow> 1 < length (coming s) \<Longrightarrow>
         on_wire s' k' (map image past) cur"
    using take_word [OF inv(4,1)] by auto
  consider (mid) w v ws where "coming s = w # v # ws"
    | (idle) w where "coming s = [] \<or> coming s = [w]" "queued s = [] \<or> gap s \<noteq> 0"
    | (start) w f q where "coming s = [] \<or> coming s = [w]" "queued s = f # q" "gap s = 0"
    by (cases "coming s"; cases "tl (coming s)"; cases "queued s") auto
  then show ?thesis
  proof cases
    case mid
    obtain s' where s': "src_step s = Inr s'" "src_inv s'" "coming s' = v # ws" "queued s' = queued s"
      using step_coming [OF inv(1) mid] by blast
    have "on_wire s' k' (map image past) cur" using k'(3) s'(3) mid by simp
    moreover have "work s' \<le> work s - 1"
      using mid s'(3,4) gap_bound [OF s'(2)] by (simp add: work_def)
    ultimately show ?thesis using s' k'(1) inv link_invI [of s' k' past cur fs] by auto
  next
    case idle
    obtain s' where s': "src_step s = Inr s'" "src_inv s'" "coming s' = []" "queued s' = queued s"
        "gap s' \<le> gap s - 1"
      using step_idle [OF inv(1) idle] by blast
    have "on_wire s' k' (map image (past @ cur)) []"
      using k'(2) s'(3) idle by (intro on_wire_idle) auto
    moreover have "work s' \<le> work s - 1"
      using idle s'(3-5) by (auto simp: work_def)
    ultimately show ?thesis
      using s' k'(1) inv link_invI [of s' k' "past @ cur" "[]" fs] by auto
  next
    case start
    obtain s' where s': "src_step s = Inr s'" "src_inv s'" "code f (coming s')" "queued s' = q"
      using step_start [OF inv(1) start] inv(2) start(2) by auto
    have "on_wire s' k' (map image (past @ cur)) [f]"
      using k'(2) start s'(3) inv(2) code_nonempty [OF s'(3)]
      by (intro on_wire_busy [of s' f "[]" k']) auto
    moreover have "work s' \<le> work s - 1"
      using code_span [OF s'(3)] gap_bound [OF s'(2)] s'(4) start by (auto simp: work_def)
    ultimately show ?thesis
      using s' k'(1) inv start link_invI [of s' k' "past @ cur" "[f]" fs] by auto
  qed
qed

lemma link_run_inv:
  "link_inv fs x \<Longrightarrow> list_all sendable (put es) \<Longrightarrow>
    \<exists>y. wire_run W es x = Inr y \<and> link_inv (fs @ put es) y"
proof (induction es arbitrary: fs x)
  case (Cons e es)
  obtain s k where x: "x = (s, k)" by fastforce
  show ?case
  proof (cases e)
    case (Put f)
    then show ?thesis using Cons.IH [OF link_put [of fs s k f]] Cons.prems x by auto
  next
    case (Clk en)
    then obtain y where "wire_step W e x = Inr y" "link_inv fs y"
      using link_tick [of fs s k] Cons.prems x by (cases en) auto
    then show ?thesis using Cons Clk by simp
  qed
qed simp

lemma link_run_work:
  "link_inv fs (s, k) \<Longrightarrow> put es = [] \<Longrightarrow> wire_run W es (s, k) = Inr (s', k') \<Longrightarrow>
    work s' \<le> work s - ticks es"
proof (induction es arbitrary: s k)
  case (Cons e es)
  then obtain en where e: "e = Clk en" by (cases e) auto
  obtain s1 k1 where "src_step s = Inr s1" "snk_step (out s) k = Inr k1" "link_inv fs (s1, k1)"
      "work s1 \<le> work s - 1"
    using link_tick [OF Cons.prems(1)] by blast
  then show ?case
    using Cons.IH [of s1 k1] Cons.IH [of s k] Cons.prems e by (cases en) fastforce+
qed simp

text \<open>The source holds at most one frame's words besides its queue, so the work is bounded.\<close>

lemma work_bound:
  assumes "link_inv fs (s, k)"
  shows "work s \<le> (\<Sum>f\<leftarrow>fs. span f + max_gap + 1) + max_gap"
proof -
  obtain past cur where inv: "src_inv s" "fs = past @ cur @ queued s"
      "on_wire s k (map image past) cur"
    using assms by (auto simp: link_inv_def)
  have "length (coming s) \<le> (\<Sum>f\<leftarrow>cur. span f)"
    using inv(3)
  proof (cases rule: on_wire_cases)
    case (busy f pre k0)
    then show ?thesis using code_span [OF busy(4)] by simp
  qed simp
  also have "\<dots> \<le> (\<Sum>f\<leftarrow>cur. span f + max_gap + 1)" by (rule sum_list_mono) simp
  finally show ?thesis using inv(2) gap_bound [OF inv(1)] by (auto simp: work_def)
qed

theorem link_delivers:
  assumes "link_inv [] x" "list_all sendable (put es)" "put es' = []"
    and "(\<Sum>f\<leftarrow>put es. span f + max_gap + 1) + max_gap \<le> ticks es'"
  shows "\<exists>s k. wire_run W (es @ es') x = Inr (s, k) \<and> queued s = [] \<and> coming s = []
    \<and> received k = map image (put es)"
proof -
  obtain s1 k1 where run1: "wire_run W es x = Inr (s1, k1)" "link_inv (put es) (s1, k1)"
    using link_run_inv [OF assms(1,2)] by fastforce
  then obtain s k where run2: "wire_run W es' (s1, k1) = Inr (s, k)" "link_inv (put es) (s, k)"
    using link_run_inv [OF run1(2), of es'] assms(3) by fastforce
  have "work s \<le> work s1 - ticks es'" by (rule link_run_work [OF run1(2) assms(3) run2(1)])
  then have "work s = 0" using work_bound [OF run1(2)] assms(4) by simp
  then have "coming s = []" "queued s = []" using work_zero by blast+
  moreover from this obtain past cur where "put es = past @ cur @ queued s"
      "on_wire s k (map image past) cur"
    using run2(2) assms(3) by (auto simp: link_inv_def)
  ultimately have "received k = map image (put es)"
    by (auto elim: on_wire_cases)
  then show ?thesis
    using run1(1) run2(1) \<open>coming s = []\<close> \<open>queued s = []\<close> by (auto simp: wire_run_append)
qed

end

end
