(* ===== verification/Gmii_Endpoint.thy ===== *)
theory Gmii_Endpoint
  imports Lanes Wire_Link
begin

text \<open>
  \<open>lib/eth/tb/gmii_ep.py\<close>, \<open>mii_ep.py\<close> and \<open>rgmii_ep.py\<close>: one octet, or one nibble, per clock
  cycle with an enable and an error bit.

  The frame classes of GMII and MII hold octets and error flags; on a nibble-wide bus every octet
  is sent low nibble first, and the receiver finds the octet boundary at the start frame
  delimiter.  The clocked processes of the two modules are the same but for the way a frame is
  cut into symbols, so they are one source and one sink over a \<open>build\<close> and a \<open>parse\<close> function.
  RGMII puts a double data rate stage between a GMII source and sink.  A symbol is a pair of
  data and error flag; the parallel lists \<open>d\<close> and \<open>er\<close> are one list of symbols.
\<close>

type_synonym symbol = "int \<times> int"

section \<open>Frames\<close>

record gmii_frame =
  gf_data :: bytes
  gf_error :: error_flag

datatype gmii_arg = GBytes bytes | GFrame gmii_frame

text \<open>The constructor does not read its parameter \<open>error\<close>.\<close>

definition GMIIFrame :: "gmii_arg \<Rightarrow> error_flag \<Rightarrow> gmii_frame" where
  "GMIIFrame data error =
     (case data of
        GFrame f \<Rightarrow> \<lparr>gf_data = gf_data f, gf_error = gf_error f\<rparr>
      | GBytes bs \<Rightarrow> \<lparr>gf_data = bs, gf_error = ErrNone\<rparr>)"

fun error_at :: "error_flag \<Rightarrow> nat \<Rightarrow> int result" where
  "error_at ErrNone i = Inr 0"
| "error_at (ErrInt x) i = Inl TypeError"
| "error_at (ErrList es) i = nthR es i"

fun gmii_build_loop :: "error_flag \<Rightarrow> int list \<Rightarrow> nat \<Rightarrow> symbol list result" where
  \<comment> \<open>\<open>while len(f) > 0\<close>\<close>
  "gmii_build_loop err [] i = Inr []"
| "gmii_build_loop err (x # f) i =
     bindR (error_at err i) (\<lambda>e. bindR (gmii_build_loop err f (i + 1)) (\<lambda>r. Inr ((x, e) # r)))"

definition set_last_error :: "symbol list \<Rightarrow> symbol list result" where
  \<comment> \<open>\<open>er[-1] = 1\<close>\<close>
  "set_last_error r =
     (if r = [] then Inl IndexError else Inr (butlast r @ [(fst (List.last r), 1)]))"

definition gmii_build :: "gmii_frame \<Rightarrow> symbol list result" where
  "gmii_build self =
     (case gf_error self of
        ErrInt x \<Rightarrow>
          if x \<noteq> 0 then bindR (gmii_build_loop ErrNone (map uint (gf_data self)) 0) set_last_error
          else gmii_build_loop (gf_error self) (map uint (gf_data self)) 0
      | _ \<Rightarrow> gmii_build_loop (gf_error self) (map uint (gf_data self)) 0)"

definition gmii_parse :: "symbol list \<Rightarrow> gmii_frame result" where
  "gmii_parse r =
     bindR (bytes_of (map fst r)) (\<lambda>data. Inr \<lparr>gf_data = data, gf_error = ErrList (map snd r)\<rparr>)"

definition gmii_eq :: "gmii_frame \<Rightarrow> gmii_frame \<Rightarrow> bool" where
  "gmii_eq self other \<longleftrightarrow> gf_data self = gf_data other"

section \<open>Nibbles\<close>

fun nibbles :: "symbol list \<Rightarrow> symbol list" where
  \<comment> \<open>the lists \<open>d2\<close> and \<open>er2\<close> a source with \<open>mii_select\<close> makes of \<open>d\<close> and \<open>er\<close>\<close>
  "nibbles [] = []"
| "nibbles ((b, e) # r) = (b AND 0x0F, e) # (shr b 4, e) # nibbles r"

fun repack :: "symbol list \<Rightarrow> bool \<Rightarrow> bool \<Rightarrow> int \<Rightarrow> int \<Rightarrow> symbol list" where
  \<comment> \<open>\<open>for n, e in zip(d, er)\<close> with the variables \<open>odd\<close>, \<open>sync\<close>, \<open>b\<close> and \<open>be\<close>\<close>
  "repack [] od sync b be = []"
| "repack ((n, e) # r) od sync b be =
     (let od = (\<not> od);
          b = shl (n AND 0x0F) 4 OR shr b 4;
          be = be OR e;
          found = (\<not> sync \<and> b = 0xD5);
          od = (found \<or> od); sync = (found \<or> sync)
      in if od then (b, be) # repack r od sync b 0 else repack r od sync b be)"

definition gmii_symbols :: "bool \<Rightarrow> gmii_frame \<Rightarrow> symbol list result" where
  \<comment> \<open>what the GMII source makes of \<open>frame.build()\<close>\<close>
  "gmii_symbols mii_select frame =
     bindR (gmii_build frame) (\<lambda>r. Inr (if mii_select then nibbles r else r))"

definition gmii_receive :: "bool \<Rightarrow> symbol list \<Rightarrow> gmii_frame result" where
  "gmii_receive mii_select r = gmii_parse (if mii_select then repack r True False 0 0 else r)"

text \<open>\<open>MIIFrame\<close> does the same in its own \<open>build\<close> and \<open>parse\<close>.\<close>

fun mii_build_loop :: "error_flag \<Rightarrow> int list \<Rightarrow> nat \<Rightarrow> symbol list result" where
  "mii_build_loop err [] i = Inr []"
| "mii_build_loop err (x # f) i =
     bindR (error_at err i) (\<lambda>e.
     bindR (mii_build_loop err f (i + 1)) (\<lambda>r. Inr ((x AND 0x0F, e) # (shr x 4, e) # r)))"

definition mii_build :: "gmii_frame \<Rightarrow> symbol list result" where
  "mii_build self =
     (case gf_error self of
        ErrInt x \<Rightarrow>
          if x \<noteq> 0 then bindR (mii_build_loop ErrNone (map uint (gf_data self)) 0) set_last_error
          else mii_build_loop (gf_error self) (map uint (gf_data self)) 0
      | _ \<Rightarrow> mii_build_loop (gf_error self) (map uint (gf_data self)) 0)"

definition mii_parse :: "symbol list \<Rightarrow> gmii_frame result" where
  "mii_parse r = gmii_parse (repack r True False 0 0)"

section \<open>The source\<close>

record gmii_source =
  gs_queue :: "gmii_frame list"
  gs_d :: "symbol list"
  gs_ifg_cnt :: nat
  gs_txd :: int
  gs_tx_en :: bool
  gs_tx_er :: int

definition gmii_source0 :: gmii_source where
  "gmii_source0 =
     \<lparr>gs_queue = [], gs_d = [], gs_ifg_cnt = 0, gs_txd = 0, gs_tx_en = False, gs_tx_er = 0\<rparr>"

definition gmii_send :: "gmii_arg \<Rightarrow> gmii_source \<Rightarrow> gmii_source" where
  "gmii_send frame self = self\<lparr>gs_queue := gs_queue self @ [GMIIFrame frame ErrNone]\<rparr>"

definition gmii_source_count :: "gmii_source \<Rightarrow> nat" where
  "gmii_source_count self = length (gs_queue self)"

definition gmii_source_empty :: "gmii_source \<Rightarrow> bool" where
  "gmii_source_empty self \<longleftrightarrow> gs_queue self = []"

definition no_symbol :: "gmii_source \<Rightarrow> gmii_source" where
  "no_symbol self = self\<lparr>gs_txd := 0, gs_tx_er := 0, gs_tx_en := False\<rparr>"

definition put_symbol :: "nat \<Rightarrow> symbol list \<Rightarrow> gmii_source \<Rightarrow> gmii_source result" where
  \<comment> \<open>\<open>txd.next = d.pop(0)\<close>, \<open>tx_er.next = er.pop(0)\<close>, \<open>tx_en.next = 1\<close>; \<open>txd\<close> has \<open>width\<close> bits\<close>
  "put_symbol width d self =
     bindR (pop0 d) (\<lambda>((x, e), rest).
       if fits (Some width) x \<and> fits (Some 1) e
       then Inr (self\<lparr>gs_d := rest, gs_txd := x, gs_tx_er := e, gs_tx_en := True\<rparr>)
       else Inl ValueError)"

definition mii_source_logic ::
    "(gmii_frame \<Rightarrow> symbol list result) \<Rightarrow> nat \<Rightarrow> nat \<Rightarrow> bool \<Rightarrow> bool \<Rightarrow> gmii_source \<Rightarrow> gmii_source result"
where
  "mii_source_logic build ifg width rst clk_enable self =
     (if rst then Inr (no_symbol (self\<lparr>gs_d := [], gs_ifg_cnt := 0\<rparr>))
      else if \<not> clk_enable then Inr self
      else if gs_ifg_cnt self > 0 then Inr (no_symbol (self\<lparr>gs_ifg_cnt := gs_ifg_cnt self - 1\<rparr>))
      else if gs_d self \<noteq> [] then
        bindR (put_symbol width (gs_d self) self) (\<lambda>self.
          Inr (if gs_d self = [] then self\<lparr>gs_ifg_cnt := ifg\<rparr> else self))
      else if gs_queue self \<noteq> [] then
        bindR (pop0 (gs_queue self)) (\<lambda>(frame, q).
        bindR (build (GMIIFrame (GFrame frame) ErrNone)) (\<lambda>d.
          put_symbol width d (self\<lparr>gs_queue := q\<rparr>)))
      else Inr (no_symbol self))"

definition gmii_source_step :: "bool \<Rightarrow> bool \<Rightarrow> bool \<Rightarrow> gmii_source \<Rightarrow> gmii_source result" where
  "gmii_source_step mii_select =
     mii_source_logic (gmii_symbols mii_select) (if mii_select then 12 * 2 else 12) 8"

definition mii_source_step :: "bool \<Rightarrow> bool \<Rightarrow> gmii_source \<Rightarrow> gmii_source result" where
  "mii_source_step = mii_source_logic mii_build (12 * 2) 4"

section \<open>The sink\<close>

text \<open>\<open>gk_frame\<close> is \<open>None\<close> between frames, else the symbols collected so far.\<close>

record gmii_sink =
  gk_queue :: "gmii_frame list"
  gk_frame :: "symbol list option"

definition gmii_sink0 :: gmii_sink where
  "gmii_sink0 = \<lparr>gk_queue = [], gk_frame = None\<rparr>"

type_synonym gmii_word = "bool \<times> int \<times> int" \<comment> \<open>enable, data, error\<close>

definition mii_sink_logic ::
    "(symbol list \<Rightarrow> gmii_frame result) \<Rightarrow> bool \<Rightarrow> bool \<Rightarrow> gmii_word \<Rightarrow> gmii_sink \<Rightarrow> gmii_sink result"
where
  "mii_sink_logic parse rst clk_enable bus self =
     (case bus of (rx_dv, rxd, rx_er) \<Rightarrow>
      if rst then Inr (self\<lparr>gk_frame := None\<rparr>)
      else if \<not> clk_enable then Inr self
      else if rx_dv then
        Inr (self\<lparr>gk_frame :=
          Some ((case gk_frame self of None \<Rightarrow> [] | Some d \<Rightarrow> d) @ [(rxd, rx_er)])\<rparr>)
      else case gk_frame self of
        None \<Rightarrow> Inr self
      | Some d \<Rightarrow>
          if d \<noteq> [] then
            bindR (parse d) (\<lambda>frame.
              Inr (self\<lparr>gk_queue := gk_queue self @ [frame], gk_frame := None\<rparr>))
          else Inr (self\<lparr>gk_frame := None\<rparr>))"

definition gmii_sink_step :: "bool \<Rightarrow> bool \<Rightarrow> bool \<Rightarrow> gmii_word \<Rightarrow> gmii_sink \<Rightarrow> gmii_sink result" where
  "gmii_sink_step mii_select = mii_sink_logic (gmii_receive mii_select)"

definition mii_sink_step :: "bool \<Rightarrow> bool \<Rightarrow> gmii_word \<Rightarrow> gmii_sink \<Rightarrow> gmii_sink result" where
  "mii_sink_step = mii_sink_logic mii_parse"

definition gmii_sink_recv :: "gmii_sink \<Rightarrow> gmii_frame option \<times> gmii_sink" where
  "gmii_sink_recv self =
     (case gk_queue self of [] \<Rightarrow> (None, self) | f # q \<Rightarrow> (Some f, self\<lparr>gk_queue := q\<rparr>))"

definition gmii_sink_count :: "gmii_sink \<Rightarrow> nat" where
  "gmii_sink_count self = length (gk_queue self)"

definition gmii_sink_empty :: "gmii_sink \<Rightarrow> bool" where
  "gmii_sink_empty self \<longleftrightarrow> gk_queue self = []"

section \<open>RGMII\<close>

text \<open>
  The source keeps the GMII signals in registers and drives the low nibble and the enable bit
  after the falling edge, the high nibble and enable exclusive-or error after the rising edge; with
  \<open>mii_select\<close> the low nibble stays.  The sink takes the two halves together.
\<close>

record rgmii_stage =
  rg_reg :: gmii_word \<comment> \<open>\<open>gmii_tx_en_reg\<close>, \<open>gmii_txd_reg\<close>, \<open>gmii_tx_er_reg\<close>\<close>
  rg_txd :: int
  rg_ctl :: bool
  rg_dat :: int
  rg_ctl1 :: bool
  rg_ctl2 :: bool
  rg_rx :: gmii_word \<comment> \<open>\<open>gmii_rx_dv\<close>, \<open>gmii_rxd\<close>, \<open>gmii_rx_er\<close>\<close>

definition rgmii_stage0 :: rgmii_stage where
  "rgmii_stage0 =
     \<lparr>rg_reg = (False, 0, 0), rg_txd = 0, rg_ctl = False, rg_dat = 0, rg_ctl1 = False,
      rg_ctl2 = False, rg_rx = (False, 0, 0)\<rparr>"

definition rgmii_source_neg :: "rgmii_stage \<Rightarrow> rgmii_stage" where
  "rgmii_source_neg st =
     (case rg_reg st of (en, d, er) \<Rightarrow> st\<lparr>rg_txd := d AND 0x0F, rg_ctl := en\<rparr>)"

definition rgmii_source_pos :: "bool \<Rightarrow> gmii_word \<Rightarrow> rgmii_stage \<Rightarrow> rgmii_stage" where
  "rgmii_source_pos mii_select gmii_tx st =
     (case rg_reg st of (en, d, er) \<Rightarrow>
        st\<lparr>rg_reg := gmii_tx,
           rg_txd := (if mii_select then rg_txd st else shr d 4 AND 0x0F),
           rg_ctl := (en \<noteq> (er \<noteq> 0))\<rparr>)"

text \<open>The sink reads \<open>rxd\<close> and \<open>rx_ctl\<close> as they were before the edge.\<close>

definition rgmii_sink_pos :: "int \<Rightarrow> bool \<Rightarrow> rgmii_stage \<Rightarrow> rgmii_stage" where
  "rgmii_sink_pos rxd rx_ctl st =
     st\<lparr>rg_dat := rxd, rg_ctl1 := rx_ctl,
        rg_rx := (rg_ctl1 st, rg_dat st, of_bool (rg_ctl1 st \<noteq> rg_ctl2 st))\<rparr>"

definition rgmii_sink_neg :: "int \<Rightarrow> bool \<Rightarrow> rgmii_stage \<Rightarrow> rgmii_stage" where
  "rgmii_sink_neg rxd rx_ctl st = st\<lparr>rg_dat := rg_dat st OR shl rxd 4, rg_ctl2 := rx_ctl\<rparr>"

definition rgmii_cycle :: "bool \<Rightarrow> gmii_word \<Rightarrow> rgmii_stage \<Rightarrow> rgmii_stage" where
  \<comment> \<open>a rising and a falling edge of source and sink on the same wires\<close>
  "rgmii_cycle mii_select gmii_tx st =
     (let pos = rgmii_sink_pos (rg_txd st) (rg_ctl st) (rgmii_source_pos mii_select gmii_tx st)
      in rgmii_sink_neg (rg_txd pos) (rg_ctl pos) (rgmii_source_neg pos))"

section \<open>The source as a wire source\<close>

text \<open>
  A frame on the wire is its symbols followed by \<open>n\<close> idle words, of which the gap has more than
  enough.  One idle word ends the frame at the sink; the delay of the RGMII stage needs more.
\<close>

definition sym_word :: "symbol \<Rightarrow> gmii_word" where
  "sym_word s = (True, fst s, snd s)"

definition idle_sym :: gmii_word where
  "idle_sym = (False, 0, 0)"

definition sym_fits :: "nat \<Rightarrow> symbol \<Rightarrow> bool" where
  "sym_fits width s \<longleftrightarrow> fits (Some width) (fst s) \<and> fits (Some 1) (snd s)"

definition gmii_out :: "gmii_source \<Rightarrow> gmii_word" where
  "gmii_out s = (gs_tx_en s, gs_txd s, gs_tx_er s)"

type_synonym build_fn = "gmii_frame \<Rightarrow> symbol list result"
type_synonym parse_fn = "symbol list \<Rightarrow> gmii_frame result"

definition mii_sendable :: "build_fn \<Rightarrow> parse_fn \<Rightarrow> nat \<Rightarrow> gmii_frame \<Rightarrow> bool" where
  "mii_sendable build parse width f \<longleftrightarrow>
     (case build f of
        Inl e \<Rightarrow> False
      | Inr r \<Rightarrow> 2 \<le> length r \<and> list_all (sym_fits width) r
          \<and> (case parse r of Inl e \<Rightarrow> False | Inr g \<Rightarrow> True))"

definition mii_code :: "build_fn \<Rightarrow> parse_fn \<Rightarrow> nat \<Rightarrow> nat \<Rightarrow> gmii_frame \<Rightarrow> gmii_word list \<Rightarrow> bool" where
  "mii_code build parse width n f ws \<longleftrightarrow> 1 \<le> n \<and> mii_sendable build parse width f
     \<and> (\<exists>r. build f = Inr r \<and> ws = map sym_word r @ replicate n idle_sym)"

definition mii_coming :: "nat \<Rightarrow> nat \<Rightarrow> gmii_source \<Rightarrow> gmii_word list" where
  "mii_coming ifg n s =
     (if gs_tx_en s then gmii_out s # map sym_word (gs_d s) @ replicate n idle_sym
      else replicate (gs_ifg_cnt s + n + 1 - ifg) idle_sym)"

definition mii_inv :: "nat \<Rightarrow> nat \<Rightarrow> nat \<Rightarrow> gmii_source \<Rightarrow> bool" where
  "mii_inv ifg n width s \<longleftrightarrow>
     1 \<le> n \<and> n < ifg \<and> list_all (sym_fits width) (gs_d s)
     \<and> (if gs_tx_en s then (if gs_d s = [] then gs_ifg_cnt s = ifg else gs_ifg_cnt s = 0)
        else gs_d s = [] \<and> gmii_out s = idle_sym \<and> gs_ifg_cnt s < ifg)"

definition mii_span :: "build_fn \<Rightarrow> nat \<Rightarrow> gmii_frame \<Rightarrow> nat" where
  "mii_span build n f = (case build f of Inl e \<Rightarrow> 0 | Inr r \<Rightarrow> length r + n)"

lemma GMIIFrame_copy [simp]: "GMIIFrame (GFrame f) e = f"
  by (simp add: GMIIFrame_def)

lemma put_symbol_ok:
  "sym_fits width x \<Longrightarrow> put_symbol width (x # d) s =
    Inr (s\<lparr>gs_d := d, gs_txd := fst x, gs_tx_er := snd x, gs_tx_en := True\<rparr>)"
  by (cases x) (simp add: put_symbol_def sym_fits_def)

lemma replicate_Cons: "replicate k x = w # ws \<longleftrightarrow> k \<noteq> 0 \<and> w = x \<and> ws = replicate (k - 1) x"
  by (cases k) auto

lemma mii_send_laws:
  "mii_inv ifg n width s \<Longrightarrow> mii_inv ifg n width (gmii_send (GFrame f) s)"
  "gs_queue (gmii_send (GFrame f) s) = gs_queue s @ [f]"
  "mii_coming ifg n (gmii_send (GFrame f) s) = mii_coming ifg n s"
  "gs_ifg_cnt (gmii_send (GFrame f) s) = gs_ifg_cnt s"
  by (auto simp: gmii_send_def mii_inv_def mii_coming_def gmii_out_def)

lemma mii_out_laws:
  "mii_inv ifg n width s \<Longrightarrow> mii_coming ifg n s = [] \<Longrightarrow> gmii_out s = idle_sym"
  "mii_inv ifg n width s \<Longrightarrow> mii_coming ifg n s = w # ws \<Longrightarrow> gmii_out s = w"
  by (auto simp: mii_inv_def mii_coming_def replicate_Cons split: if_splits)

lemma mii_gap_bound: "mii_inv ifg n width s \<Longrightarrow> gs_ifg_cnt s \<le> ifg"
  by (auto simp: mii_inv_def split: if_splits)

lemma mii_gap_step:
  assumes "0 < gs_ifg_cnt s" "gs_d s = []"
  shows "mii_source_logic build ifg width False True s =
      Inr (no_symbol (s\<lparr>gs_ifg_cnt := gs_ifg_cnt s - 1\<rparr>))"
    and "mii_inv ifg n width s \<Longrightarrow> mii_inv ifg n width (no_symbol (s\<lparr>gs_ifg_cnt := gs_ifg_cnt s - 1\<rparr>))"
    and "mii_coming ifg n (no_symbol (s\<lparr>gs_ifg_cnt := gs_ifg_cnt s - 1\<rparr>)) =
      replicate (gs_ifg_cnt s + n - ifg) idle_sym"
  using assms
  by (auto simp: mii_source_logic_def mii_inv_def no_symbol_def gmii_out_def idle_sym_def
      mii_coming_def split: if_splits)

lemma mii_step_coming:
  assumes "mii_inv ifg n width s" "mii_coming ifg n s = w # v # ws"
  shows "\<exists>s'. mii_source_logic build ifg width False True s = Inr s' \<and> mii_inv ifg n width s'
    \<and> mii_coming ifg n s' = v # ws \<and> gs_queue s' = gs_queue s"
proof (cases "gs_d s")
  case (Cons x d)
  define s' where "s' = s\<lparr>gs_d := d, gs_txd := fst x, gs_tx_er := snd x, gs_tx_en := True,
      gs_ifg_cnt := (if d = [] then ifg else 0)\<rparr>"
  have st: "gs_tx_en s" "gs_ifg_cnt s = 0" "sym_fits width x" "list_all (sym_fits width) d" "n < ifg" "1 \<le> n"
    using assms(1) Cons by (auto simp: mii_inv_def split: if_splits)
  have "mii_source_logic build ifg width False True s = Inr s'"
    using st Cons by (simp add: mii_source_logic_def put_symbol_ok s'_def)
  moreover have "mii_inv ifg n width s'" using st by (simp add: mii_inv_def s'_def)
  moreover have "mii_coming ifg n s' = v # ws"
    using assms(2) st(1) Cons by (simp add: mii_coming_def s'_def gmii_out_def sym_word_def)
  ultimately show ?thesis by (auto simp: s'_def)
next
  case Nil
  have pos: "0 < gs_ifg_cnt s"
    using assms Nil by (auto simp: mii_inv_def mii_coming_def replicate_Cons split: if_splits)
  have "mii_coming ifg n s = w # replicate (gs_ifg_cnt s + n - ifg) idle_sym"
    using assms Nil pos by (cases "gs_tx_en s")
      (auto simp: mii_inv_def mii_coming_def Suc_diff_le replicate_Cons)
  then show ?thesis
    using mii_gap_step [OF pos Nil] assms by (auto simp: no_symbol_def)
qed

lemma mii_step_idle:
  assumes "mii_inv ifg n width s" "mii_coming ifg n s = [] \<or> mii_coming ifg n s = [w]"
    "gs_queue s = [] \<or> gs_ifg_cnt s \<noteq> 0"
  shows "\<exists>s'. mii_source_logic build ifg width False True s = Inr s' \<and> mii_inv ifg n width s'
    \<and> mii_coming ifg n s' = [] \<and> gs_queue s' = gs_queue s \<and> gs_ifg_cnt s' \<le> gs_ifg_cnt s - 1"
proof -
  have st: "\<not> gs_tx_en s" "gs_d s = []" "gs_ifg_cnt s + n \<le> ifg"
    using assms(1,2) by (auto simp: mii_inv_def mii_coming_def replicate_Cons split: if_splits)
  show ?thesis
  proof (cases "gs_ifg_cnt s = 0")
    case True
    then have "mii_source_logic build ifg width False True s = Inr (no_symbol s)"
      using assms(3) st by (simp add: mii_source_logic_def)
    moreover have "mii_inv ifg n width (no_symbol s)" "mii_coming ifg n (no_symbol s) = []"
      using assms(1) st True by (auto simp: mii_inv_def mii_coming_def no_symbol_def gmii_out_def idle_sym_def)
    ultimately show ?thesis using True by (auto simp: no_symbol_def)
  next
    case False
    then show ?thesis
      using mii_gap_step [of s] assms(1) st by (auto simp: no_symbol_def)
  qed
qed

lemma mii_step_start:
  assumes "mii_inv ifg n width s" "mii_coming ifg n s = [] \<or> mii_coming ifg n s = [w]"
    "gs_queue s = f # fs" "gs_ifg_cnt s = 0" "mii_sendable build parse width f"
  shows "\<exists>s'. mii_source_logic build ifg width False True s = Inr s' \<and> mii_inv ifg n width s'
    \<and> mii_code build parse width n f (mii_coming ifg n s') \<and> gs_queue s' = fs"
proof -
  obtain x y r where r: "build f = Inr (x # y # r)" "list_all (sym_fits width) (x # y # r)"
    using assms(5) by (auto simp: mii_sendable_def numeral_2_eq_2 Suc_le_length_iff split: sum.splits)
  have d: "gs_d s = []" "1 \<le> n" "n < ifg"
    using assms(1,2) by (auto simp: mii_inv_def mii_coming_def split: if_splits)
  define s' where "s' = s\<lparr>gs_queue := fs, gs_d := y # r, gs_txd := fst x, gs_tx_er := snd x,
      gs_tx_en := True\<rparr>"
  have "mii_source_logic build ifg width False True s = Inr s'"
    using assms(3,4) d r by (simp add: mii_source_logic_def put_symbol_ok s'_def)
  moreover have "mii_inv ifg n width s'" using d r assms(4) by (simp add: mii_inv_def s'_def)
  moreover have "mii_code build parse width n f (mii_coming ifg n s')"
    using assms(5) r(1) d(2) by (simp add: mii_code_def mii_coming_def s'_def gmii_out_def sym_word_def)
  ultimately show ?thesis by (auto simp: s'_def)
qed

interpretation mii_src: wire_source
  "mii_source_logic build ifg width False True" gmii_out "\<lambda>f. gmii_send (GFrame f)"
  "mii_inv ifg n width" gs_queue "mii_coming ifg n" gs_ifg_cnt "mii_sendable build parse width"
  "\<lambda>w. w = idle_sym" "mii_code build parse width n" "mii_span build n" ifg
  for build ifg width n parse
proof
  fix s w assume "mii_inv ifg n width s" "mii_coming ifg n s = [] \<or> mii_coming ifg n s = [w]"
    "gs_queue s = [] \<or> gs_ifg_cnt s \<noteq> 0"
  then show "\<exists>s'. mii_source_logic build ifg width False True s = Inr s' \<and> mii_inv ifg n width s'
    \<and> mii_coming ifg n s' = [] \<and> gs_queue s' = gs_queue s \<and> gs_ifg_cnt s' \<le> gs_ifg_cnt s - 1"
    by (rule mii_step_idle)
next
  fix s w f fs assume "mii_inv ifg n width s" "mii_coming ifg n s = [] \<or> mii_coming ifg n s = [w]"
    "gs_queue s = f # fs" "gs_ifg_cnt s = 0" "mii_sendable build parse width f"
  then show "\<exists>s'. mii_source_logic build ifg width False True s = Inr s' \<and> mii_inv ifg n width s'
    \<and> mii_code build parse width n f (mii_coming ifg n s') \<and> gs_queue s' = fs"
    by (rule mii_step_start)
next
  fix s assume "mii_inv ifg n width s"
  then show "gs_ifg_cnt s \<le> ifg" by (rule mii_gap_bound)
next
  fix f ws assume "mii_code build parse width n f ws"
  then show "ws \<noteq> []" "length ws \<le> mii_span build n f"
    by (auto simp: mii_code_def mii_span_def)
qed (simp_all add: mii_send_laws mii_out_laws mii_step_coming)

section \<open>The sink as a wire sink\<close>

definition gmii_quiet :: "gmii_sink \<Rightarrow> bool" where
  "gmii_quiet k \<longleftrightarrow> gk_frame k = None"

definition mii_image :: "build_fn \<Rightarrow> parse_fn \<Rightarrow> gmii_frame \<Rightarrow> gmii_frame" where
  "mii_image build parse f =
     (case build f of Inl e \<Rightarrow> f | Inr r \<Rightarrow> (case parse r of Inl e \<Rightarrow> f | Inr g \<Rightarrow> g))"

lemma sink_collects:
  "take_words (mii_sink_logic parse False True) (map sym_word r) (k\<lparr>gk_frame := Some d\<rparr>) =
    Inr (k\<lparr>gk_frame := Some (d @ r)\<rparr>)"
proof (induction r arbitrary: d)
  case (Cons x r)
  then show ?case using Cons.IH [of "d @ [x]"] by (simp add: mii_sink_logic_def sym_word_def)
qed simp

lemma sink_idle: "gmii_quiet k \<Longrightarrow> mii_sink_logic parse False True idle_sym k = Inr k"
  by (simp add: mii_sink_logic_def gmii_quiet_def idle_sym_def)

lemma sink_idles:
  "gmii_quiet k \<Longrightarrow> take_words (mii_sink_logic parse False True) (replicate n idle_sym) k = Inr k"
  by (induction n) (simp_all add: sink_idle)

lemma sink_takes_symbols:
  assumes "gmii_quiet k" "r \<noteq> []" "parse r = Inr g" "1 \<le> n"
  shows "take_words (mii_sink_logic parse False True) (map sym_word r @ replicate n idle_sym) k =
    Inr (k\<lparr>gk_queue := gk_queue k @ [g]\<rparr>)"
proof -
  obtain x r' where r: "r = x # r'" using assms(2) by (cases r) auto
  obtain m where n: "n = Suc m" using assms(4) by (cases n) auto
  have "take_words (mii_sink_logic parse False True) (map sym_word r) k =
      take_words (mii_sink_logic parse False True) (map sym_word r') (k\<lparr>gk_frame := Some [x]\<rparr>)"
    using assms(1) r by (simp add: mii_sink_logic_def sym_word_def gmii_quiet_def)
  also have "\<dots> = Inr (k\<lparr>gk_frame := Some r\<rparr>)" using r by (simp add: sink_collects)
  finally have "take_words (mii_sink_logic parse False True) (map sym_word r) k =
      Inr (k\<lparr>gk_frame := Some r\<rparr>)" .
  moreover have "mii_sink_logic parse False True idle_sym (k\<lparr>gk_frame := Some r\<rparr>) =
      Inr (k\<lparr>gk_queue := gk_queue k @ [g]\<rparr>)"
    using assms(1-3) by (cases k) (simp add: mii_sink_logic_def idle_sym_def gmii_quiet_def)
  ultimately show ?thesis
    using sink_idles [of "k\<lparr>gk_queue := gk_queue k @ [g]\<rparr>" parse m] assms(1)
    by (simp add: take_words_append n gmii_quiet_def)
qed

interpretation mii_snk: wire_sink
  "mii_sink_logic parse False True" gmii_quiet gk_queue "mii_sendable build parse width"
  "\<lambda>w. w = idle_sym" "mii_code build parse width n" "mii_image build parse"
  for parse build width n
proof
  fix k w assume "gmii_quiet k" "w = idle_sym"
  then show "\<exists>k'. mii_sink_logic parse False True w k = Inr k' \<and> gmii_quiet k' \<and> gk_queue k' = gk_queue k"
    by (simp add: sink_idle)
next
  fix k f ws assume k: "gmii_quiet k" and "mii_sendable build parse width f" "mii_code build parse width n f ws"
  then obtain r g where "build f = Inr r" "r \<noteq> []" "parse r = Inr g" "1 \<le> n"
      "ws = map sym_word r @ replicate n idle_sym"
    by (fastforce simp: mii_code_def mii_sendable_def split: sum.splits)
  then show "\<exists>k'. take_words (mii_sink_logic parse False True) ws k = Inr k' \<and> gmii_quiet k'
      \<and> gk_queue k' = gk_queue k @ [mii_image build parse f]"
    using sink_takes_symbols [OF k] k by (auto simp: gmii_quiet_def mii_image_def)
qed

interpretation mii: wire_link
  "mii_source_logic build ifg width False True" gmii_out "\<lambda>f. gmii_send (GFrame f)"
  "mii_inv ifg n width" gs_queue "mii_coming ifg n" gs_ifg_cnt "mii_sendable build parse width"
  "\<lambda>w. w = idle_sym" "mii_code build parse width n" "mii_span build n" ifg
  "mii_sink_logic parse False True" gmii_quiet gk_queue "mii_image build parse"
  for build ifg width n parse ..

lemma mii_init:
  "n < ifg \<Longrightarrow> 1 \<le> n \<Longrightarrow>
    mii.link_inv ifg n width build parse [] (gmii_source0, gmii_sink0)"
  by (rule mii.link_inv_init)
    (simp_all add: gmii_source0_def gmii_sink0_def mii_inv_def gmii_out_def idle_sym_def
      mii_coming_def gmii_quiet_def)

section \<open>Octet frames\<close>

lemma build_loop_none: "gmii_build_loop ErrNone f i = Inr (map (\<lambda>x. (x, 0)) f)"
  by (induction f arbitrary: i) auto

lemma gmii_build_octets:
  "gmii_build (GMIIFrame (GBytes bs) e) = Inr (map (\<lambda>b. (uint b, 0)) bs)"
  by (simp add: gmii_build_def GMIIFrame_def build_loop_none comp_def)

lemma bytes_of_uint [simp]: "bytes_of (map uint bs) = Inr bs"
  by (induction bs) (auto simp: uint_lt2p [of "_ :: byte", simplified])

lemma gmii_parse_octets:
  "gmii_parse (map (\<lambda>b. (uint b, 0)) bs) =
    Inr \<lparr>gf_data = bs, gf_error = ErrList (replicate (length bs) 0)\<rparr>"
  by (simp add: gmii_parse_def comp_def map_replicate_const)

text \<open>
  Once the delimiter is found, the repacking takes nibbles two by two; before it, a preamble of
  \<open>0x55\<close> octets does not look like a delimiter at any nibble position.
\<close>

definition octet_nibbles :: "bytes \<Rightarrow> symbol list" where
  "octet_nibbles bs = nibbles (map (\<lambda>b. (uint b, 0)) bs)"

lemma octet_nibbles_Cons [simp]:
  "octet_nibbles (x # bs) = (uint x AND 0x0F, 0) # (shr (uint x) 4, 0) # octet_nibbles bs"
  by (simp add: octet_nibbles_def)

lemma octet_nibbles_Nil [simp]: "octet_nibbles [] = []"
  by (simp add: octet_nibbles_def)

lemma byte_range: "0 \<le> uint (x :: byte)" "uint x < 256"
  using uint_lt2p [of x] by simp_all

definition next_octet :: "int \<Rightarrow> int \<Rightarrow> int" where
  "next_octet n b = shl (n AND 15) 4 OR shr b 4"

lemma next_octet_arith:
  assumes "0 \<le> b" "b < 256"
  shows "next_octet n b = n mod 16 * 16 + b div 16" "0 \<le> next_octet n b" "next_octet n b < 256"
proof -
  show eq: "next_octet n b = n mod 16 * 16 + b div 16"
    using assms or_field [of "b div 16" 4 "n mod 16"]
    by (simp add: next_octet_def and_masks shr_arith)
  have "0 \<le> n mod 16" "n mod 16 \<le> 15" "0 \<le> b div 16" "b div 16 < 16" using assms by auto
  then show "0 \<le> next_octet n b" "next_octet n b < 256" unfolding eq by linarith+
qed

lemma next_octet_pair:
  assumes "0 \<le> x" "x < 256" "0 \<le> b" "b < 256"
  shows "next_octet (shr x 4) (next_octet (x AND 15) b) = x"
proof -
  have "next_octet (x AND 15) b = x mod 16 * 16 + b div 16"
    using assms(3,4) by (simp add: next_octet_arith(1) and_masks)
  then have "next_octet (x AND 15) b div 16 = x mod 16"
    using assms(3,4) by simp
  moreover have "x div 16 mod 16 = x div 16" using assms(1,2) by (simp add: mod_pos_pos_trivial)
  ultimately show ?thesis
    using next_octet_arith [OF assms(3,4)] by (simp add: next_octet_arith(1) shr_arith)
qed

lemma repack_step:
  "repack ((n, e) # r) od sync b be =
    (let b = next_octet n b; found = (\<not> sync \<and> b = 0xD5)
     in if found \<or> \<not> od then (b, be OR e) # repack r True (found \<or> sync) b 0
        else repack r False sync b (be OR e))"
  by (auto simp: Let_def next_octet_def)

declare repack.simps(2) [simp del]

lemma repack_synced:
  assumes "0 \<le> b" "b < 256"
  shows "repack (octet_nibbles bs) True True b 0 = map (\<lambda>x. (uint x, 0)) bs"
  using assms
proof (induction bs arbitrary: b)
  case (Cons x bs)
  then show ?case
    using next_octet_pair [OF byte_range [of x] Cons.prems] byte_range [of x] Cons.IH [of "uint x"]
    by (simp add: repack_step)
qed (simp add: octet_nibbles_def)

text \<open>A preamble octet before the delimiter is taken without synchronising.\<close>

lemma repack_octet:
  assumes "0 \<le> b" "b < 256" "next_octet (uint x AND 15) b \<noteq> 0xD5"
  shows "repack (octet_nibbles (x # bs)) True False b 0 =
    (uint x, 0) # repack (octet_nibbles bs) True (uint x = 0xD5) (uint x) 0"
  using next_octet_pair [OF byte_range [of x] assms(1,2)] assms(3)
  by (simp add: repack_step Let_def)

lemma repack_preamble:
  assumes "b = 0 \<or> b = 0x55"
  shows "repack (octet_nibbles (replicate k 0x55 @ 0xD5 # bs)) True False b 0 =
    map (\<lambda>x. (uint x, 0)) (replicate k 0x55 @ 0xD5 # bs)"
  using assms
proof (induction k arbitrary: b)
  case 0
  have "next_octet (uint (0xD5 :: byte) AND 15) b \<noteq> 0xD5"
    using 0 by (auto simp: next_octet_def)
  then show ?case
    using repack_octet [of b "0xD5" bs] repack_synced [of "0xD5" bs] 0 by auto
next
  case (Suc k)
  have "next_octet (uint (0x55 :: byte) AND 15) b \<noteq> 0xD5"
    using Suc.prems by (auto simp: next_octet_def)
  then show ?case
    using repack_octet [of b "0x55" "replicate k 0x55 @ 0xD5 # bs"] Suc.IH [of "0x55"] Suc.prems by auto
qed

text \<open>
  The frames of octets that get through: at least two octets, since no gap is kept after a frame of
  a single symbol; over nibbles a preamble and the start frame delimiter.
\<close>

definition gmii_plain :: "bool \<Rightarrow> bytes \<Rightarrow> bool" where
  "gmii_plain mii_select bs \<longleftrightarrow>
     (if mii_select then \<exists>k rest. bs = replicate k 0x55 @ 0xD5 # rest else 2 \<le> length bs)"

definition octet_frame :: "bytes \<Rightarrow> gmii_frame" where
  "octet_frame bs = GMIIFrame (GBytes bs) ErrNone"

definition clean_frame :: "bytes \<Rightarrow> gmii_frame" where
  "clean_frame bs = \<lparr>gf_data = bs, gf_error = ErrList (replicate (length bs) 0)\<rparr>"

lemma octet_fits:
  "sym_fits 8 (uint (x :: byte), 0)" "sym_fits 4 (uint x AND 15, 0)" "sym_fits 4 (shr (uint x) 4, 0)"
proof -
  have "0 \<le> uint x div 16 \<and> uint x div 16 < 16" using byte_range [of x] by presburger
  then show "sym_fits 8 (uint x, 0)" "sym_fits 4 (uint x AND 15, 0)" "sym_fits 4 (shr (uint x) 4, 0)"
    using byte_range [of x] by (simp_all add: sym_fits_def fits_def and_masks shr_arith)
qed

lemma nibbles_length: "length (octet_nibbles bs) = 2 * length bs"
  by (induction bs) simp_all

lemma octet_nibbles_fit: "list_all (sym_fits 4) (octet_nibbles bs)"
  by (induction bs) (simp_all add: octet_fits)

lemma sym_fits_wider: "sym_fits 4 s \<Longrightarrow> sym_fits 8 s"
  by (auto simp: sym_fits_def fits_def)

lemma gmii_octets:
  assumes "gmii_plain sel bs"
  shows "\<exists>r. gmii_symbols sel (octet_frame bs) = Inr r \<and> 2 \<le> length r \<and> list_all (sym_fits 8) r
    \<and> length r = (if sel then 2 else 1) * length bs
    \<and> gmii_receive sel r = Inr (clean_frame bs)"
proof (cases sel)
  case True
  then obtain k rest where bs: "bs = replicate k 0x55 @ 0xD5 # rest"
    using assms by (auto simp: gmii_plain_def)
  have "gmii_symbols sel (octet_frame bs) = Inr (octet_nibbles bs)"
    using True by (simp add: gmii_symbols_def octet_frame_def gmii_build_octets octet_nibbles_def)
  moreover have "gmii_receive sel (octet_nibbles bs) = Inr (clean_frame bs)"
    using True repack_preamble [of 0 k rest] gmii_parse_octets [of bs]
    by (simp add: gmii_receive_def clean_frame_def bs)
  moreover have "list_all (sym_fits 8) (octet_nibbles bs)"
    using octet_nibbles_fit [of bs] sym_fits_wider by (auto simp: list_all_iff)
  moreover have "2 \<le> length (octet_nibbles bs)" by (simp add: nibbles_length bs)
  ultimately show ?thesis using True by (auto simp: nibbles_length)
next
  case False
  then show ?thesis
    using assms gmii_parse_octets [of bs]
    by (auto simp: gmii_symbols_def octet_frame_def gmii_build_octets gmii_receive_def gmii_plain_def
        clean_frame_def list_all_iff octet_fits)
qed

section \<open>The GMII and MII links\<close>

definition gmii_wire :: "bool \<Rightarrow> (gmii_source, gmii_sink, gmii_word, gmii_frame) wire" where
  "gmii_wire mii_select =
     \<lparr>w_src = gmii_source_step mii_select False, w_out = gmii_out,
      w_send = (\<lambda>f. gmii_send (GFrame f)), w_snk = gmii_sink_step mii_select False\<rparr>"

definition mii_wire :: "(gmii_source, gmii_sink, gmii_word, gmii_frame) wire" where
  "mii_wire =
     \<lparr>w_src = mii_source_step False, w_out = gmii_out, w_send = (\<lambda>f. gmii_send (GFrame f)),
      w_snk = mii_sink_step False\<rparr>"

lemma mii_wire_generic:
  "\<lparr>w_src = mii_source_logic build ifg width False, w_out = gmii_out,
    w_send = (\<lambda>f. gmii_send (GFrame f)), w_snk = mii_sink_logic parse False\<rparr> =
    mii.W build ifg width parse"
  by (auto simp: fun_eq_iff mii_source_logic_def mii_sink_logic_def split: prod.splits)

abbreviation gmii_ifg :: "bool \<Rightarrow> nat" where
  "gmii_ifg mii_select \<equiv> (if mii_select then 12 * 2 else 12)"

text \<open>Both links, and the RGMII link below, come from one statement about octet frames.\<close>

lemma mii_link_octets:
  assumes "put es = map octet_frame frames" "put es' = []" "1 \<le> n" "n < ifg"
    and sym: "\<And>bs. bs \<in> set frames \<Longrightarrow> \<exists>r. build (octet_frame bs) = Inr r \<and> 2 \<le> length r
      \<and> list_all (sym_fits width) r \<and> length r = c * length bs \<and> parse r = Inr (clean_frame bs)"
    and "(\<Sum>bs\<leftarrow>frames. c * length bs + n + ifg + 1) + ifg \<le> ticks es'"
  shows "list_all (mii_sendable build parse width) (put es)"
    and "(\<Sum>f\<leftarrow>put es. mii_span build n f + ifg + 1) + ifg \<le> ticks es'"
    and "map (mii_image build parse) (put es) = map clean_frame frames"
proof -
  have span: "mii_span build n (octet_frame bs) = c * length bs + n"
    and img: "mii_image build parse (octet_frame bs) = clean_frame bs"
    and ok: "mii_sendable build parse width (octet_frame bs)" if "bs \<in> set frames" for bs
    using sym [OF that] by (auto simp: mii_span_def mii_image_def mii_sendable_def)
  show "list_all (mii_sendable build parse width) (put es)"
    using ok by (simp add: assms(1) list_all_iff)
  show "(\<Sum>f\<leftarrow>put es. mii_span build n f + ifg + 1) + ifg \<le> ticks es'"
    using assms(6) span by (simp add: assms(1) comp_def cong: map_cong)
  show "map (mii_image build parse) (put es) = map clean_frame frames"
    using img by (simp add: assms(1))
qed

text \<open>
  C25: a GMII source and sink deliver every frame of at least two octets exactly once and in order,
  with its octets unchanged and no error flag set; with \<open>mii_select\<close> on both sides, every
  frame that starts with preamble octets and the start frame delimiter, which travels as nibbles and
  is put together again at the delimiter.  This holds whenever frames are queued and however the
  clock enable is driven, and all frames have arrived after enough enabled cycles.
\<close>
theorem gmii_link_delivers_frames:
  assumes "put es = map octet_frame frames" "list_all (gmii_plain sel) frames" "put es' = []"
    and "(\<Sum>bs\<leftarrow>frames. (if sel then 2 else 1) * length bs + 1 + gmii_ifg sel + 1) + gmii_ifg sel
      \<le> ticks es'"
  shows "\<exists>s k. wire_run (gmii_wire sel) (es @ es') (gmii_source0, gmii_sink0) = Inr (s, k)
    \<and> gs_queue s = [] \<and> map gf_data (gk_queue k) = frames
    \<and> list_all (\<lambda>f. gf_error f = ErrList (replicate (length (gf_data f)) 0)) (gk_queue k)"
proof -
  have sym: "\<exists>r. gmii_symbols sel (octet_frame bs) = Inr r \<and> 2 \<le> length r \<and> list_all (sym_fits 8) r
      \<and> length r = (if sel then 2 else 1) * length bs \<and> gmii_receive sel r = Inr (clean_frame bs)"
    if "bs \<in> set frames" for bs
    using gmii_octets assms(2) that by (simp add: list_all_iff)
  have n: "1 < gmii_ifg sel" by simp
  note octets = mii_link_octets [OF assms(1,3) le_refl n sym assms(4)]
  obtain s k where "wire_run (mii.W (gmii_symbols sel) (gmii_ifg sel) 8 (gmii_receive sel)) (es @ es')
        (gmii_source0, gmii_sink0) = Inr (s, k)" "gs_queue s = []"
      "gk_queue k = map clean_frame frames"
    using mii.link_delivers [OF mii_init [OF n le_refl] octets(1) assms(3) octets(2)] octets(3) by auto
  then show ?thesis
    using mii_wire_generic [of "gmii_symbols sel" "gmii_ifg sel" 8 "gmii_receive sel"]
    by (auto simp: gmii_wire_def gmii_source_step_def gmii_sink_step_def comp_def clean_frame_def
        list_all_iff)
qed

theorem gmii_link_delivers_frames_witness:
  "\<exists>s k. wire_run (gmii_wire True)
      (map Put (map octet_frame [[0x55, 0xD5, 1, 2], [0xD5, 0x5D, 0x5D]]) @ replicate 100 (Clk True))
      (gmii_source0, gmii_sink0) = Inr (s, k)
    \<and> map gf_data (gk_queue k) = [[0x55, 0xD5, 1, 2], [0xD5, 0x5D, 0x5D]]"
proof -
  have "list_all (gmii_plain True) [[0x55, 0xD5, 1, 2], [0xD5, 0x5D, 0x5D]]"
    by (auto simp: gmii_plain_def intro: exI [of _ 0] exI [of _ "Suc 0"])
  then show ?thesis
    using gmii_link_delivers_frames
      [of "map Put (map octet_frame [[0x55, 0xD5, 1, 2], [0xD5, 0x5D, 0x5D]])"
          "[[0x55, 0xD5, 1, 2], [0xD5, 0x5D, 0x5D]]" True "replicate 100 (Clk True)"]
    by (auto simp del: wire_run.simps replicate.simps)
qed

text \<open>The MII module builds and parses the symbols of the GMII module with \<open>mii_select\<close>.\<close>

lemma mii_build_loop_nibbles:
  "mii_build_loop err f i = bindR (gmii_build_loop err f i) (\<lambda>r. Inr (nibbles r))"
  by (induction f arbitrary: i) (auto simp: bindR_assoc intro!: bindR_eqI)

text \<open>
  the MII module is the GMII module with \<open>mii_select\<close>: for a frame without error, or with a
  list of error flags, both make the same symbols, or fail with the same exception, and both make
  the same frame of the symbols received.
\<close>
theorem mii_gmii_equivalent:
  assumes "gf_error f \<in> {ErrNone, ErrList es}"
  shows "mii_build f = gmii_symbols True f \<and> mii_parse r = gmii_receive True r"
  using assms
  by (auto simp: mii_build_def gmii_build_def gmii_symbols_def mii_build_loop_nibbles
      mii_parse_def gmii_receive_def)

theorem mii_gmii_equivalent_witness:
  "mii_build \<lparr>gf_data = [0x5A, 1], gf_error = ErrList [0, 1]\<rparr> = Inr [(10, 0), (5, 0), (1, 1), (0, 1)]
    \<and> mii_parse [(5, 0), (13, 0), (10, 0), (5, 1)] =
        Inr \<lparr>gf_data = [0xD5, 0x5A], gf_error = ErrList [0, 1]\<rparr>"
proof -
  have "gmii_symbols True \<lparr>gf_data = [0x5A, 1], gf_error = ErrList [0, 1]\<rparr> =
      Inr [(10, 0), (5, 0), (1, 1), (0, 1)]" by code_simp
  moreover have "gmii_receive True [(5, 0), (13, 0), (10, 0), (5, 1)] =
      Inr \<lparr>gf_data = [0xD5, 0x5A], gf_error = ErrList [0, 1]\<rparr>" by code_simp
  ultimately show ?thesis
    using mii_gmii_equivalent [of "\<lparr>gf_data = [0x5A, 1], gf_error = ErrList [0, 1]\<rparr>"
        "[0, 1]" "[(5, 0), (13, 0), (10, 0), (5, 1)]"] by simp
qed

lemma mii_octets:
  assumes "gmii_plain True bs"
  shows "\<exists>r. mii_build (octet_frame bs) = Inr r \<and> 2 \<le> length r \<and> list_all (sym_fits 4) r
    \<and> length r = 2 * length bs \<and> mii_parse r = Inr (clean_frame bs)"
proof -
  have "mii_build (octet_frame bs) = Inr (octet_nibbles bs)"
    by (simp add: mii_build_def octet_frame_def GMIIFrame_def mii_build_loop_nibbles build_loop_none
        octet_nibbles_def comp_def)
  moreover obtain k rest where "bs = replicate k 0x55 @ 0xD5 # rest"
    using assms by (auto simp: gmii_plain_def)
  then have "mii_parse (octet_nibbles bs) = Inr (clean_frame bs)" "2 \<le> length (octet_nibbles bs)"
    using repack_preamble [of 0 k rest] gmii_parse_octets [of bs]
    by (simp_all add: mii_parse_def clean_frame_def nibbles_length)
  ultimately show ?thesis using octet_nibbles_fit [of bs] by (simp add: nibbles_length)
qed

lemma mii_link_delivers_frames:
  assumes "put es = map octet_frame frames" "list_all (gmii_plain True) frames" "put es' = []"
    and "(\<Sum>bs\<leftarrow>frames. 2 * length bs + 1 + 24 + 1) + 24 \<le> ticks es'"
  shows "\<exists>s k. wire_run mii_wire (es @ es') (gmii_source0, gmii_sink0) = Inr (s, k)
    \<and> gs_queue s = [] \<and> gk_queue k = map clean_frame frames"
proof -
  have n: "1 < (24 :: nat)" by simp
  have sym: "\<exists>r. mii_build (octet_frame bs) = Inr r \<and> 2 \<le> length r \<and> list_all (sym_fits 4) r
      \<and> length r = 2 * length bs \<and> mii_parse r = Inr (clean_frame bs)" if "bs \<in> set frames" for bs
    using mii_octets assms(2) that by (simp add: list_all_iff)
  note octets = mii_link_octets [OF assms(1,3) le_refl n sym assms(4)]
  show ?thesis
    using mii.link_delivers [OF mii_init [OF n le_refl] octets(1) assms(3) octets(2)] octets(3)
      mii_wire_generic [of mii_build 24 4 mii_parse]
    by (auto simp: mii_wire_def mii_source_step_def mii_sink_step_def)
qed

section \<open>The RGMII link\<close>

text \<open>
  The stage between edges, as a delay line of three words.  On a nibble bus the octet taken at the
  end is the low nibble twice, which the repacking does not see.
\<close>

definition word_ok :: "bool \<Rightarrow> gmii_word \<Rightarrow> bool" where
  "word_ok sel w \<longleftrightarrow> (case w of (en, d, er) \<Rightarrow>
     0 \<le> d \<and> d < (if sel then 16 else 256) \<and> (er = 0 \<or> er = 1))"

definition ddr_word :: "bool \<Rightarrow> gmii_word \<Rightarrow> gmii_word" where
  "ddr_word sel w = (case w of (en, d, er) \<Rightarrow> (en, if sel then 17 * d else d, er))"

definition rgmii_pipe :: "bool \<Rightarrow> gmii_word \<Rightarrow> gmii_word \<Rightarrow> gmii_word \<Rightarrow> rgmii_stage" where
  "rgmii_pipe sel w1 w2 w3 =
     (case (w1, ddr_word sel w2) of ((en1, d1, er1), (en2, d2, er2)) \<Rightarrow>
       \<lparr>rg_reg = w1, rg_txd = d1 AND 0x0F, rg_ctl = en1, rg_dat = d2, rg_ctl1 = en2,
        rg_ctl2 = (en2 \<noteq> (er2 \<noteq> 0)), rg_rx = ddr_word sel w3\<rparr>)"

lemma nibble_halves:
  fixes d :: int
  assumes "0 \<le> d" "d < 256"
  shows "(d AND 15) OR shl (shr d 4 AND 15) 4 = d"
proof -
  have "shr d 4 AND 15 = d div 16"
    using assms by (simp add: and_masks shr_arith mod_pos_pos_trivial)
  then have "(d AND 15) OR shl (shr d 4 AND 15) 4 = d div 16 * 16 + d mod 16"
    using or_field [of "d mod 16" 4 "d div 16"] by (simp add: and_masks or.commute)
  then show ?thesis by simp
qed

lemma nibble_twice:
  fixes d :: int
  assumes "0 \<le> d" "d < 16"
  shows "(d AND 15) OR shl (d AND 15) 4 = 17 * d"
  using or_field [of d 4 d] assms by (simp add: and_masks or.commute)

lemma rgmii_cycle_pipe:
  assumes "word_ok sel w1" "word_ok sel w2"
  shows "rgmii_cycle sel w (rgmii_pipe sel w1 w2 w3) = rgmii_pipe sel w w1 w2"
  using assms nibble_halves nibble_twice
  by (cases w; cases w1; cases w2; cases w3)
    (auto simp: rgmii_cycle_def rgmii_pipe_def ddr_word_def word_ok_def rgmii_sink_neg_def
      rgmii_sink_pos_def rgmii_source_neg_def rgmii_source_pos_def Let_def split: if_splits)

text \<open>One clock cycle of the stage with the GMII sink behind it, which samples before the edge.\<close>

definition rgmii_receive ::
    "bool \<Rightarrow> gmii_word \<Rightarrow> rgmii_stage \<times> gmii_sink \<Rightarrow> (rgmii_stage \<times> gmii_sink) result" where
  "rgmii_receive mii_select gmii_tx self =
     (case self of (st, sink) \<Rightarrow>
       bindR (gmii_sink_step mii_select False True (rg_rx st) sink) (\<lambda>sink.
         Inr (rgmii_cycle mii_select gmii_tx st, sink)))"

definition rgmii_wire :: "bool \<Rightarrow> (gmii_source, rgmii_stage \<times> gmii_sink, gmii_word, gmii_frame) wire"
where
  \<comment> \<open>source, stage and sink on a clock that is always enabled\<close>
  "rgmii_wire mii_select =
     \<lparr>w_src = (\<lambda>en. gmii_source_step mii_select False True), w_out = gmii_out,
      w_send = (\<lambda>f. gmii_send (GFrame f)), w_snk = (\<lambda>en. rgmii_receive mii_select)\<rparr>"

definition rgmii_quiet :: "bool \<Rightarrow> rgmii_stage \<times> gmii_sink \<Rightarrow> bool" where
  "rgmii_quiet sel x \<longleftrightarrow>
     fst x = rgmii_pipe sel idle_sym idle_sym idle_sym \<and> gmii_quiet (snd x)"

lemma word_ok_idle [simp]: "word_ok sel idle_sym"
  by (simp add: word_ok_def idle_sym_def)

lemma ddr_word_idle [simp]: "ddr_word sel idle_sym = idle_sym"
  by (simp add: ddr_word_def idle_sym_def)

text \<open>The sink behind the stage sees the words three cycles later.\<close>

lemma rgmii_delays:
  assumes "list_all (word_ok sel) ws" "word_ok sel w1" "word_ok sel w2" "word_ok sel w3"
    and "rev (take 3 (rev ([w3, w2, w1] @ ws))) = [v3, v2, v1]"
  shows "take_words (rgmii_receive sel) ws (rgmii_pipe sel w1 w2 w3, k) =
    bindR (take_words (gmii_sink_step sel False True)
        (map (ddr_word sel) (take (length ws) ([w3, w2, w1] @ ws))) k) (\<lambda>k'.
      Inr (rgmii_pipe sel v1 v2 v3, k'))"
  using assms
proof (induction ws arbitrary: w1 w2 w3 k)
  case (Cons w ws)
  have rx: "rg_rx (rgmii_pipe sel w1 w2 w3) = ddr_word sel w3"
    by (cases w1; cases w2; cases w3) (simp add: rgmii_pipe_def ddr_word_def)
  have last: "rev (take 3 (rev ([w2, w1, w] @ ws))) = [v3, v2, v1]"
    using Cons.prems(5) by (cases ws rule: rev_cases) (auto simp: take_Cons' split: if_splits)
  show ?case
    using Cons.IH [OF _ _ _ _ last] Cons.prems(1-4) rx
    by (simp add: rgmii_receive_def rgmii_cycle_pipe bindR_assoc)
qed simp

lemma repack_doubled:
  "list_all (sym_fits 4) r \<Longrightarrow> repack (map (\<lambda>(d, e). (17 * d, e)) r) od sync b be = repack r od sync b be"
proof (induction r arbitrary: od sync b be)
  case (Cons x r)
  obtain d e where x: "x = (d, e)" by fastforce
  have "17 * d mod 16 = d mod 16"
    using mod_mult_self1 [of d d 16] by (simp add: algebra_simps)
  then have "next_octet (17 * d) b = next_octet d b" for b by (simp only: next_octet_def and_masks)
  then show ?case using Cons x by (simp add: repack_step Let_def)
qed simp

definition rgmii_sendable :: "bool \<Rightarrow> gmii_frame \<Rightarrow> bool" where
  "rgmii_sendable sel f \<longleftrightarrow> mii_sendable (gmii_symbols sel) (gmii_receive sel) 8 f
     \<and> (case gmii_symbols sel f of Inl e \<Rightarrow> False | Inr r \<Rightarrow> list_all (sym_fits (if sel then 4 else 8)) r)"

definition rgmii_code :: "bool \<Rightarrow> gmii_frame \<Rightarrow> gmii_word list \<Rightarrow> bool" where
  "rgmii_code sel f ws \<longleftrightarrow>
     rgmii_sendable sel f \<and> mii_code (gmii_symbols sel) (gmii_receive sel) 8 4 f ws"

abbreviation "rgmii_image sel \<equiv> mii_image (gmii_symbols sel) (gmii_receive sel)"

interpretation rgmii_src: wire_source
  "gmii_source_step sel False True" gmii_out "\<lambda>f. gmii_send (GFrame f)"
  "mii_inv (gmii_ifg sel) 4 8" gs_queue "mii_coming (gmii_ifg sel) 4" gs_ifg_cnt "rgmii_sendable sel"
  "\<lambda>w. w = idle_sym" "rgmii_code sel" "mii_span (gmii_symbols sel) 4" "gmii_ifg sel"
  for sel
  unfolding gmii_source_step_def
proof
  fix s w assume "mii_inv (gmii_ifg sel) 4 8 s"
    "mii_coming (gmii_ifg sel) 4 s = [] \<or> mii_coming (gmii_ifg sel) 4 s = [w]"
    "gs_queue s = [] \<or> gs_ifg_cnt s \<noteq> 0"
  then show "\<exists>s'. mii_source_logic (gmii_symbols sel) (gmii_ifg sel) 8 False True s = Inr s'
    \<and> mii_inv (gmii_ifg sel) 4 8 s' \<and> mii_coming (gmii_ifg sel) 4 s' = []
    \<and> gs_queue s' = gs_queue s \<and> gs_ifg_cnt s' \<le> gs_ifg_cnt s - 1"
    by (rule mii_step_idle)
next
  fix s w f fs assume "mii_inv (gmii_ifg sel) 4 8 s"
    "mii_coming (gmii_ifg sel) 4 s = [] \<or> mii_coming (gmii_ifg sel) 4 s = [w]"
    "gs_queue s = f # fs" "gs_ifg_cnt s = 0" and f: "rgmii_sendable sel f"
  then show "\<exists>s'. mii_source_logic (gmii_symbols sel) (gmii_ifg sel) 8 False True s = Inr s'
    \<and> mii_inv (gmii_ifg sel) 4 8 s' \<and> rgmii_code sel f (mii_coming (gmii_ifg sel) 4 s')
    \<and> gs_queue s' = fs"
    using mii_step_start [of "gmii_ifg sel" 4 8 s w f fs "gmii_symbols sel" "gmii_receive sel"]
    by (auto simp: rgmii_sendable_def rgmii_code_def)
next
  fix s assume "mii_inv (gmii_ifg sel) 4 8 s"
  then show "gs_ifg_cnt s \<le> gmii_ifg sel" by (rule mii_gap_bound)
next
  fix f ws assume "rgmii_code sel f ws"
  then show "ws \<noteq> []" "length ws \<le> mii_span (gmii_symbols sel) 4 f"
    by (auto simp: rgmii_code_def mii_code_def mii_span_def)
qed (simp_all only: mii_send_laws mii_out_laws mii_step_coming)

text \<open>A frame behind the stage: three idle words come first, and the last three of its idles stay.\<close>

lemma rgmii_takes_frame:
  assumes "gmii_quiet k" "rgmii_sendable sel f" "gmii_symbols sel f = Inr r"
    and "gmii_receive sel r = Inr g"
  shows "take_words (rgmii_receive sel) (map sym_word r @ replicate 4 idle_sym)
      (rgmii_pipe sel idle_sym idle_sym idle_sym, k) =
    Inr (rgmii_pipe sel idle_sym idle_sym idle_sym, k\<lparr>gk_queue := gk_queue k @ [g]\<rparr>)"
proof -
  let ?dup = "\<lambda>(d, e). (if sel then 17 * d else d, e :: int) :: symbol"
  let ?step = "gmii_sink_step sel False True"
  have fit: "list_all (sym_fits (if sel then 4 else 8)) r" and ne: "r \<noteq> []"
    using assms(2,3) by (auto simp: rgmii_sendable_def mii_sendable_def)
  have "word_ok sel (sym_word x)" if "x \<in> set r" for x
  proof -
    have "sym_fits (if sel then 4 else 8) x" using fit that by (simp add: list_all_iff)
    then show ?thesis by (cases x) (auto simp: word_ok_def sym_word_def sym_fits_def fits_def)
  qed
  then have ok: "list_all (word_ok sel) (map sym_word r @ replicate 4 idle_sym)"
    by (auto simp: list_all_iff)
  have line: "take (length (map sym_word r @ replicate 4 idle_sym))
      ([idle_sym, idle_sym, idle_sym] @ map sym_word r @ replicate 4 idle_sym) =
      replicate 3 idle_sym @ map sym_word r @ replicate 1 idle_sym"
    by (simp add: numeral_eq_Suc)
  have dup: "map (ddr_word sel) (map sym_word r) = map sym_word (map ?dup r)"
    by (auto simp: ddr_word_def sym_word_def)
  have "gmii_receive sel (map ?dup r) = Inr g"
    using assms(4) repack_doubled [of r] fit by (cases sel) (simp_all add: gmii_receive_def)
  then have "take_words ?step (map sym_word (map ?dup r) @ replicate 1 idle_sym) k =
      Inr (k\<lparr>gk_queue := gk_queue k @ [g]\<rparr>)"
    unfolding gmii_sink_step_def using assms(1) ne by (intro sink_takes_symbols) auto
  then have "take_words ?step (replicate 3 idle_sym @ map sym_word (map ?dup r) @ replicate 1 idle_sym) k =
      Inr (k\<lparr>gk_queue := gk_queue k @ [g]\<rparr>)"
    using sink_idles [OF assms(1), of "gmii_receive sel" 3]
    by (simp only: take_words_append gmii_sink_step_def bindR_Inr)
  then show ?thesis
    using rgmii_delays [OF ok word_ok_idle word_ok_idle word_ok_idle, of idle_sym idle_sym idle_sym k]
    unfolding line map_append dup by (simp add: numeral_eq_Suc)
qed

interpretation rgmii_snk: wire_sink
  "rgmii_receive sel" "rgmii_quiet sel" "\<lambda>x. gk_queue (snd x)" "rgmii_sendable sel"
  "\<lambda>w. w = idle_sym" "rgmii_code sel" "rgmii_image sel"
  for sel
proof
  fix x w assume x: "rgmii_quiet sel x" and w: "w = idle_sym"
  have "rg_rx (fst x) = idle_sym"
    using x by (simp add: rgmii_quiet_def rgmii_pipe_def split: prod.splits)
  then have "rgmii_receive sel w x = Inr x"
    using x w sink_idle [of "snd x" "gmii_receive sel"] rgmii_cycle_pipe [OF word_ok_idle word_ok_idle]
    by (cases x) (simp add: rgmii_receive_def rgmii_quiet_def gmii_sink_step_def)
  then show "\<exists>x'. rgmii_receive sel w x = Inr x' \<and> rgmii_quiet sel x'
      \<and> gk_queue (snd x') = gk_queue (snd x)"
    using x by auto
next
  fix x f ws assume x: "rgmii_quiet sel x" and f: "rgmii_sendable sel f" and ws: "rgmii_code sel f ws"
  obtain r g where rg: "gmii_symbols sel f = Inr r" "gmii_receive sel r = Inr g"
      "ws = map sym_word r @ replicate 4 idle_sym"
    using ws by (auto simp: rgmii_code_def mii_code_def mii_sendable_def split: sum.splits)
  have "gmii_quiet (snd x)" "fst x = rgmii_pipe sel idle_sym idle_sym idle_sym"
    using x by (simp_all add: rgmii_quiet_def)
  then show "\<exists>x'. take_words (rgmii_receive sel) ws x = Inr x' \<and> rgmii_quiet sel x'
      \<and> gk_queue (snd x') = gk_queue (snd x) @ [rgmii_image sel f]"
    using rgmii_takes_frame [OF _ f rg(1,2), of "snd x"] rg
    by (cases x) (auto simp: rgmii_quiet_def gmii_quiet_def mii_image_def)
qed

interpretation rgmii: wire_link
  "gmii_source_step sel False True" gmii_out "\<lambda>f. gmii_send (GFrame f)"
  "mii_inv (gmii_ifg sel) 4 8" gs_queue "mii_coming (gmii_ifg sel) 4" gs_ifg_cnt "rgmii_sendable sel"
  "\<lambda>w. w = idle_sym" "rgmii_code sel" "mii_span (gmii_symbols sel) 4" "gmii_ifg sel"
  "rgmii_receive sel" "rgmii_quiet sel" "\<lambda>x. gk_queue (snd x)" "rgmii_image sel"
  for sel ..

lemma rgmii_run:
  "Clk False \<notin> set es \<Longrightarrow> wire_run (rgmii_wire sel) es x = wire_run (rgmii.W sel) es x"
proof (induction es arbitrary: x)
  case (Cons e es)
  obtain s k where x: "x = (s, k)" by (rule prod.exhaust)
  have "wire_step (rgmii_wire sel) e x = wire_step (rgmii.W sel) e x"
    using Cons.prems x by (cases e) (auto simp: rgmii_wire_def)
  then show ?case using Cons by (auto intro!: bindR_eqI)
qed simp

lemma rgmii_init: "rgmii.link_inv sel [] (gmii_source0, rgmii_stage0, gmii_sink0)"
proof (rule rgmii.link_inv_init)
  have "rgmii_stage0 = rgmii_pipe sel idle_sym idle_sym idle_sym"
    by (simp add: rgmii_stage0_def rgmii_pipe_def ddr_word_def idle_sym_def)
  then show "rgmii_quiet sel (rgmii_stage0, gmii_sink0)"
    by (simp add: rgmii_quiet_def gmii_quiet_def gmii_sink0_def)
qed (simp_all add: gmii_source0_def gmii_sink0_def mii_inv_def gmii_out_def idle_sym_def mii_coming_def)

text \<open>The third cycle of the stage gives the word of the first, from any state of its registers.\<close>

lemma rgmii_cycle_fields:
  "rg_reg (rgmii_cycle sel w st) = w"
  "rg_txd (rgmii_cycle sel w st) = fst (snd w) AND 0x0F" "rg_ctl (rgmii_cycle sel w st) = fst w"
  "rg_dat (rgmii_cycle sel w st) =
    rg_txd st OR shl (if sel then rg_txd st else shr (fst (snd (rg_reg st))) 4 AND 0x0F) 4"
  "rg_ctl1 (rgmii_cycle sel w st) = rg_ctl st"
  "rg_ctl2 (rgmii_cycle sel w st) = (fst (rg_reg st) \<noteq> (snd (snd (rg_reg st)) \<noteq> 0))"
  "rg_rx (rgmii_cycle sel w st) = (rg_ctl1 st, rg_dat st, of_bool (rg_ctl1 st \<noteq> rg_ctl2 st))"
  by (simp_all add: rgmii_cycle_def rgmii_sink_neg_def rgmii_sink_pos_def rgmii_source_neg_def
      rgmii_source_pos_def split_def Let_def)

lemma rgmii_three_cycles:
  assumes "word_ok sel a"
  shows "rg_rx (rgmii_cycle sel c (rgmii_cycle sel b (rgmii_cycle sel a x))) = ddr_word sel a"
  using assms nibble_halves [of "fst (snd a)"] nibble_twice [of "fst (snd a)"]
  by (auto simp: rgmii_cycle_fields ddr_word_def word_ok_def split: prod.splits if_splits)

text \<open>
  C26: RGMII with the clock enable always high (the double data rate registers have no enable).  The two
  nibbles of a word, and the enable and error bits encoded on the control line, come back as the
  word three cycles later, from any state of the registers between the two ends; with \<open>mii_select\<close>
  the octet that comes back is the nibble twice.  A GMII source, the double data rate stage and a
  GMII sink deliver every frame of at least two octets, with \<open>mii_select\<close> every frame that starts
  with preamble octets and the start frame delimiter, exactly once and in order, unchanged and without
  an error flag, whenever the frames are queued; all have arrived after enough cycles.
\<close>
theorem rgmii_link_delivers_frames:
  assumes "put es = map octet_frame frames" "list_all (gmii_plain sel) frames" "put es' = []"
    and "Clk False \<notin> set (es @ es')"
    and "(\<Sum>bs\<leftarrow>frames. (if sel then 2 else 1) * length bs + 4 + gmii_ifg sel + 1) + gmii_ifg sel
      \<le> ticks es'"
  shows "(\<exists>s st k. wire_run (rgmii_wire sel) (es @ es') (gmii_source0, rgmii_stage0, gmii_sink0) =
      Inr (s, st, k)
    \<and> gs_queue s = [] \<and> map gf_data (gk_queue k) = frames
    \<and> list_all (\<lambda>f. gf_error f = ErrList (replicate (length (gf_data f)) 0)) (gk_queue k))
    \<and> (\<forall>a b c x. word_ok sel a \<longrightarrow>
        rg_rx (rgmii_cycle sel c (rgmii_cycle sel b (rgmii_cycle sel a x))) = ddr_word sel a)"
proof -
  have sym: "\<exists>r. gmii_symbols sel (octet_frame bs) = Inr r \<and> 2 \<le> length r \<and> list_all (sym_fits 8) r
      \<and> length r = (if sel then 2 else 1) * length bs \<and> gmii_receive sel r = Inr (clean_frame bs)"
    if "bs \<in> set frames" for bs
    using gmii_octets assms(2) that by (simp add: list_all_iff)
  have n: "1 \<le> (4 :: nat)" "4 < gmii_ifg sel" by simp_all
  note octets = mii_link_octets [OF assms(1,3) n sym assms(5)]
  have "rgmii_sendable sel (octet_frame bs)" if "bs \<in> set frames" for bs
  proof -
    have "mii_sendable (gmii_symbols sel) (gmii_receive sel) 8 (octet_frame bs)"
      using octets(1) assms(1) that by (simp add: list_all_iff)
    then show ?thesis
      using octet_nibbles_fit [of bs]
      by (auto simp: rgmii_sendable_def gmii_symbols_def octet_frame_def gmii_build_octets
          octet_nibbles_def list_all_iff octet_fits)
  qed
  then have "list_all (rgmii_sendable sel) (put es)" by (simp add: assms(1) list_all_iff)
  from rgmii.link_delivers [OF rgmii_init this assms(3) octets(2)] octets(3)
  obtain s st k where "wire_run (rgmii.W sel) (es @ es') (gmii_source0, rgmii_stage0, gmii_sink0) =
      Inr (s, st, k)" "gs_queue s = []" "gk_queue k = map clean_frame frames"
    by auto
  then show ?thesis
    using rgmii_run [OF assms(4), of sel] rgmii_three_cycles
    by (auto simp: comp_def clean_frame_def list_all_iff)
qed

theorem rgmii_link_delivers_frames_witness:
  "\<exists>s st k. wire_run (rgmii_wire False)
      (map Put (map octet_frame [[0x55, 0xD5, 1], [0xA5, 0x5A]]) @ replicate 60 (Clk True))
      (gmii_source0, rgmii_stage0, gmii_sink0) = Inr (s, st, k)
    \<and> map gf_data (gk_queue k) = [[0x55, 0xD5, 1], [0xA5, 0x5A]]"
proof -
  have "list_all (gmii_plain False) [[0x55, 0xD5, 1], [0xA5, 0x5A]]"
    by (simp add: gmii_plain_def)
  then show ?thesis
    using rgmii_link_delivers_frames
      [of "map Put (map octet_frame [[0x55, 0xD5, 1], [0xA5, 0x5A]])"
          "[[0x55, 0xD5, 1], [0xA5, 0x5A]]" False "replicate 60 (Clk True)"]
    by (auto simp del: wire_run.simps replicate.simps)
qed

end
