(* ===== verification/Xgmii_Endpoint.thy ===== *)
theory Xgmii_Endpoint
  imports Lanes Wire_Link
begin

text \<open>
  \<open>lib/eth/tb/xgmii_ep.py\<close>: Ethernet frames on the 10 Gb/s media independent interface, four or
  eight octet lanes per clock cycle with a control bit each.

  \<open>XGMIIFrame\<close> turns a frame and its error markers into lanes and back.  The source replaces the
  first preamble octet by a start character, appends a terminate character, pads the last word
  with idles and keeps the inter-frame gap, with the deficit idle count that lets a frame start
  early by up to three octets; the sink looks for a start character in lane 0 or 4 and collects
  octets up to the next control character.  A lane is a pair of an octet and its control bit; the
  two lists \<open>dl\<close> and \<open>cl\<close> of the source, and \<open>d\<close> and \<open>c\<close> of the sink, always have one length and are one list
  of lanes here.
\<close>

section \<open>Constants\<close>

definition ETH_PRE :: int where "ETH_PRE = 0x55"
definition ETH_SFD :: int where "ETH_SFD = 0xD5"
definition XGMII_IDLE :: int where "XGMII_IDLE = 0x07"
definition XGMII_LPI :: int where "XGMII_LPI = 0x06"
definition XGMII_START :: int where "XGMII_START = 0xfb"
definition XGMII_TERM :: int where "XGMII_TERM = 0xfd"
definition XGMII_ERROR :: int where "XGMII_ERROR = 0xfe"
definition XGMII_SEQ_OS :: int where "XGMII_SEQ_OS = 0x9c"
definition XGMII_RES0 :: int where "XGMII_RES0 = 0x1c"
definition XGMII_RES1 :: int where "XGMII_RES1 = 0x3c"
definition XGMII_RES2 :: int where "XGMII_RES2 = 0x7c"
definition XGMII_RES3 :: int where "XGMII_RES3 = 0xbc"
definition XGMII_RES4 :: int where "XGMII_RES4 = 0xdc"
definition XGMII_RES5 :: int where "XGMII_RES5 = 0xf7"
definition XGMII_SIG_OS :: int where "XGMII_SIG_OS = 0x5c"

lemmas xgmii_chars =
  ETH_PRE_def ETH_SFD_def XGMII_IDLE_def XGMII_LPI_def XGMII_START_def XGMII_TERM_def
  XGMII_ERROR_def XGMII_SEQ_OS_def XGMII_RES0_def XGMII_RES1_def XGMII_RES2_def XGMII_RES3_def
  XGMII_RES4_def XGMII_RES5_def XGMII_SIG_OS_def

section \<open>XGMIIFrame\<close>

type_synonym lane = "int \<times> int" \<comment> \<open>octet and control bit\<close>

record xgmii_frame =
  xf_data :: bytes
  xf_error :: error_flag
  xf_ctrl :: "int list option"

datatype xgmii_arg = XBytes bytes | XFrame xgmii_frame

text \<open>The constructor has parameters \<open>error\<close> and \<open>ctrl\<close>, which it does not read.\<close>

definition XGMIIFrame :: "xgmii_arg \<Rightarrow> error_flag \<Rightarrow> int list option \<Rightarrow> xgmii_frame" where
  "XGMIIFrame data error ctrl =
     (case data of
        XFrame f \<Rightarrow> \<lparr>xf_data = xf_data f, xf_error = xf_error f, xf_ctrl = xf_ctrl f\<rparr>
      | XBytes bs \<Rightarrow> \<lparr>xf_data = bs, xf_error = ErrNone, xf_ctrl = None\<rparr>)"

definition error_list :: "error_flag \<Rightarrow> nat \<Rightarrow> int list result" where
  \<comment> \<open>a truthy scalar marks the last octet; \<open>list(0)\<close> is a \<open>TypeError\<close>\<close>
  "error_list err n =
     (case err of
        ErrInt x \<Rightarrow> if x \<noteq> 0 then (if n = 0 then Inl IndexError else Inr (replicate (n - 1) 0 @ [1]))
                   else Inl TypeError
      | ErrNone \<Rightarrow> Inr (replicate n 0)
      | ErrList es \<Rightarrow> Inr es)"

fun mark_errors :: "lane list \<Rightarrow> int list \<Rightarrow> lane list result" where
  \<comment> \<open>\<open>for i in range(len(f))\<close>\<close>
  "mark_errors [] es = Inr []"
| "mark_errors ((x, c) # ls) [] = Inl IndexError"
| "mark_errors ((x, c) # ls) (e # es) =
     bindR (mark_errors ls es) (\<lambda>r. Inr ((if e \<noteq> 0 then (XGMII_ERROR, 1) else (x, c)) # r))"

definition xgmii_build :: "xgmii_frame \<Rightarrow> lane list result" where
  "xgmii_build self =
     bindR (error_list (xf_error self) (length (xf_data self))) (\<lambda>error.
     let f = map uint (xf_data self);
         ctrl = (case xf_ctrl self of None \<Rightarrow> replicate (length f) 0 | Some c \<Rightarrow> c)
     in bindR (assertR (length ctrl = length f)) (\<lambda>_. mark_errors (zip f ctrl) error))"

definition xgmii_parse :: "lane list \<Rightarrow> xgmii_frame result" where
  "xgmii_parse ls =
     bindR (bytes_of (map fst ls)) (\<lambda>data.
       Inr \<lparr>xf_data = data,
            xf_error = ErrList (map (\<lambda>(x, c). if c \<noteq> 0 \<and> x = XGMII_ERROR then 1 else 0) ls),
            xf_ctrl = Some (map snd ls)\<rparr>)"

definition xgmii_eq :: "xgmii_frame \<Rightarrow> xgmii_frame \<Rightarrow> bool" where
  "xgmii_eq self other \<longleftrightarrow> xf_data self = xf_data other"

section \<open>XGMIISource\<close>

text \<open>The width of the bus in octets, and the attributes of the source that a test sets.\<close>

record xgmii_cfg =
  xg_bw :: nat
  xg_ifg :: int
  xg_enable_dic :: bool
  xg_force_offset_start :: bool

definition xgmii_width :: "nat \<Rightarrow> nat \<Rightarrow> nat result" where
  \<comment> \<open>\<open>assert len(txd) in [32, 64]\<close>, \<open>assert len(txd) == len(txc)*8\<close>\<close>
  "xgmii_width txd txc =
     bindR (assertR (txd \<in> {32, 64})) (\<lambda>_. bindR (assertR (txd = txc * 8)) (\<lambda>_. Inr (txd div 8)))"

record xgmii_source =
  xs_queue :: "xgmii_frame list"
  xs_dl :: "lane list"
  xs_ifg_cnt :: int
  xs_deficit :: int
  xs_txd :: int
  xs_txc :: int

definition idle_d :: "nat \<Rightarrow> int" where
  "idle_d bw = (if bw = 8 then 0x0707070707070707 else 0x07070707)"

definition idle_c :: "nat \<Rightarrow> int" where
  "idle_c bw = (if bw = 8 then 0xff else 0xf)"

definition xgmii_source0 :: "xgmii_cfg \<Rightarrow> xgmii_source" where
  \<comment> \<open>the state a reset leads to\<close>
  "xgmii_source0 cfg =
     \<lparr>xs_queue = [], xs_dl = [], xs_ifg_cnt = 0, xs_deficit = 0,
      xs_txd = idle_d (xg_bw cfg), xs_txc = idle_c (xg_bw cfg)\<rparr>"

definition xgmii_send :: "xgmii_arg \<Rightarrow> xgmii_source \<Rightarrow> xgmii_source" where
  "xgmii_send frame self = self\<lparr>xs_queue := xs_queue self @ [XGMIIFrame frame ErrNone None]\<rparr>"

definition xgmii_source_count :: "xgmii_source \<Rightarrow> nat" where
  "xgmii_source_count self = length (xs_queue self)"

definition xgmii_source_empty :: "xgmii_source \<Rightarrow> bool" where
  "xgmii_source_empty self \<longleftrightarrow> xs_queue self = []"

fun fill_lanes :: "xgmii_cfg \<Rightarrow> nat \<Rightarrow> lane list \<Rightarrow> int \<Rightarrow> int \<Rightarrow> int \<Rightarrow> int \<Rightarrow> int \<times> int \<times> lane list \<times> int"
where
  \<comment> \<open>\<open>for i in range(bw)\<close>, with \<open>n\<close> lanes to go: \<open>i = bw - n\<close>\<close>
  "fill_lanes cfg 0 dl d c ifg_cnt deficit = (d, c, dl, ifg_cnt)"
| "fill_lanes cfg (Suc n) dl d c ifg_cnt deficit =
     (let i = xg_bw cfg - Suc n
      in case dl of
           (x, k) # dl \<Rightarrow>
             fill_lanes cfg n dl (d OR shl x (8 * i)) (c OR shl k i)
               (if dl = [] then xg_ifg cfg - int (xg_bw cfg - i) + deficit else ifg_cnt) deficit
         | [] \<Rightarrow>
             fill_lanes cfg n [] (d OR shl XGMII_IDLE (8 * i)) (c OR shl 1 i) ifg_cnt deficit)"

definition put_word :: "xgmii_cfg \<Rightarrow> xgmii_source \<Rightarrow> xgmii_source result" where
  \<comment> \<open>the lane loop and the assignments to \<open>txd\<close> and \<open>txc\<close>, signals of \<open>8 bw\<close> and \<open>bw\<close> bits\<close>
  "put_word cfg self =
     (case fill_lanes cfg (xg_bw cfg) (xs_dl self) 0 0 (xs_ifg_cnt self) (xs_deficit self) of
        (d, c, dl, ifg_cnt) \<Rightarrow>
          if fits (Some (8 * xg_bw cfg)) d \<and> fits (Some (xg_bw cfg)) c
          then Inr (self\<lparr>xs_dl := dl, xs_ifg_cnt := ifg_cnt, xs_txd := d, xs_txc := c\<rparr>)
          else Inl ValueError)"

definition start_lanes :: "lane list \<Rightarrow> lane list result" where
  \<comment> \<open>the assertions on the preamble, the start and the terminate character\<close>
  "start_lanes dl =
     (case dl of
        [] \<Rightarrow> Inl AssertionError
      | (x, c) # ls \<Rightarrow>
          bindR (assertR (x = ETH_PRE)) (\<lambda>_. Inr ((XGMII_START, 1) # ls @ [(XGMII_TERM, 1)])))"

definition offset_start :: "xgmii_cfg \<Rightarrow> int \<Rightarrow> bool" where
  "offset_start cfg ifg_cnt \<longleftrightarrow> (xg_bw cfg = 8 \<and> ifg_cnt \<ge> 4) \<or> xg_force_offset_start cfg"

definition put_idle :: "xgmii_cfg \<Rightarrow> xgmii_source \<Rightarrow> xgmii_source" where
  "put_idle cfg self = self\<lparr>xs_txd := idle_d (xg_bw cfg), xs_txc := idle_c (xg_bw cfg)\<rparr>"

definition in_gap :: "xgmii_cfg \<Rightarrow> int \<Rightarrow> bool" where
  "in_gap cfg ifg_cnt \<longleftrightarrow> ifg_cnt > int (xg_bw cfg) - 1 \<or> (\<not> xg_enable_dic cfg \<and> ifg_cnt > 0)"

definition xgmii_source_step ::
    "xgmii_cfg \<Rightarrow> bool \<Rightarrow> bool \<Rightarrow> xgmii_source \<Rightarrow> xgmii_source result" where
  "xgmii_source_step cfg rst enable self =
     (if rst then
        Inr (put_idle cfg (self\<lparr>xs_dl := [], xs_ifg_cnt := 0, xs_deficit := 0\<rparr>))
      else if \<not> enable then Inr self
      else if in_gap cfg (xs_ifg_cnt self) then
        Inr (put_idle cfg (self\<lparr>xs_ifg_cnt := max (xs_ifg_cnt self - int (xg_bw cfg)) 0\<rparr>))
      else if xs_dl self \<noteq> [] then put_word cfg self
      else if xs_queue self \<noteq> [] then
        bindR (pop0 (xs_queue self)) (\<lambda>(frame, q).
        bindR (xgmii_build frame) (\<lambda>dl.
        bindR (start_lanes dl) (\<lambda>dl.
          let off = offset_start cfg (xs_ifg_cnt self);
              ifg_cnt = (if off then max (xs_ifg_cnt self - 4) 0 else xs_ifg_cnt self);
              dl = (if off then replicate 4 (XGMII_IDLE, 1) @ dl else dl)
          in put_word cfg (self\<lparr>xs_queue := q, xs_dl := dl, xs_ifg_cnt := 0,
                                xs_deficit := max ifg_cnt 0\<rparr>))))
      else Inr (put_idle cfg (self\<lparr>xs_ifg_cnt := 0, xs_deficit := 0\<rparr>)))"

section \<open>XGMIISink\<close>

text \<open>\<open>xk_frame\<close> is \<open>None\<close> between frames, else the lanes collected so far.\<close>

record xgmii_sink =
  xk_queue :: "xgmii_frame list"
  xk_frame :: "lane list option"

definition xgmii_sink0 :: xgmii_sink where
  "xgmii_sink0 = \<lparr>xk_queue = [], xk_frame = None\<rparr>"

definition lane_at :: "int \<Rightarrow> int \<Rightarrow> nat \<Rightarrow> lane" where
  "lane_at rxd rxc i = (shr rxd (8 * i) AND 0xff, shr rxc i AND 1)"

fun collect_lanes :: "lane list \<Rightarrow> lane list \<Rightarrow> xgmii_sink \<Rightarrow> xgmii_sink result" where
  \<comment> \<open>\<open>for i in range(bw)\<close> over the lanes of the word, with the lanes \<open>ds\<close> collected before\<close>
  "collect_lanes [] ds self = Inr (self\<lparr>xk_frame := Some ds\<rparr>)"
| "collect_lanes ((x, c) # ls) ds self =
     (if c \<noteq> 0 then
        bindR (xgmii_parse (if x \<noteq> XGMII_TERM then ds @ [(x, c)] else ds)) (\<lambda>frame.
          Inr (self\<lparr>xk_queue := xk_queue self @ [frame], xk_frame := None\<rparr>))
      else collect_lanes ls (ds @ [(x, c)]) self)"

definition xgmii_sink_step ::
    "nat \<Rightarrow> bool \<Rightarrow> bool \<Rightarrow> int \<times> int \<Rightarrow> xgmii_sink \<Rightarrow> xgmii_sink result" where
  "xgmii_sink_step bw rst enable bus self =
     (case bus of (rxd, rxc) \<Rightarrow>
      if rst then Inr (self\<lparr>xk_frame := None\<rparr>)
      else if \<not> enable then Inr self
      else case xk_frame self of
        None \<Rightarrow>
          if rxc AND 1 \<noteq> 0 \<and> rxd AND 0xff = XGMII_START then
            Inr (self\<lparr>xk_frame := Some ((ETH_PRE, 0) # map (lane_at rxd rxc) [1..<bw])\<rparr>)
          else if bw = 8 \<and> shr rxc 4 AND 1 \<noteq> 0 \<and> shr rxd 32 AND 0xff = XGMII_START then
            Inr (self\<lparr>xk_frame := Some ((ETH_PRE, 0) # map (lane_at rxd rxc) [5..<bw])\<rparr>)
          else Inr self
      | Some ds \<Rightarrow> collect_lanes (map (lane_at rxd rxc) [0..<bw]) ds self)"

definition xgmii_sink_recv :: "xgmii_sink \<Rightarrow> xgmii_frame option \<times> xgmii_sink" where
  "xgmii_sink_recv self =
     (case xk_queue self of [] \<Rightarrow> (None, self) | f # q \<Rightarrow> (Some f, self\<lparr>xk_queue := q\<rparr>))"

definition xgmii_sink_count :: "xgmii_sink \<Rightarrow> nat" where
  "xgmii_sink_count self = length (xk_queue self)"

definition xgmii_sink_empty :: "xgmii_sink \<Rightarrow> bool" where
  "xgmii_sink_empty self \<longleftrightarrow> xk_queue self = []"

section \<open>Words of lanes\<close>

definition lane_ok :: "lane \<Rightarrow> bool" where
  "lane_ok l \<longleftrightarrow> in_lane 8 (fst l) \<and> in_lane 1 (snd l)"

definition idle_lane :: lane where
  "idle_lane = (XGMII_IDLE, 1)"

definition pad :: "nat \<Rightarrow> lane list \<Rightarrow> lane list" where
  "pad n ls = ls @ replicate (n - length ls) idle_lane"

definition lane_word :: "lane list \<Rightarrow> int \<times> int" where
  "lane_word ls = (lanes_val 8 (map fst ls), lanes_val 1 (map snd ls))"

definition words :: "nat \<Rightarrow> lane list \<Rightarrow> (int \<times> int) list" where
  "words bw ls = map (\<lambda>c. lane_word (pad bw c)) (chunks bw ls)"

lemma lane_ok_lanes:
  assumes "list_all lane_ok ls"
  shows "list_all (in_lane 8) (map fst ls)" "list_all (in_lane 1) (map snd ls)"
  using assms by (induction ls) (auto simp: lane_ok_def)

lemma lane_ok_idle [simp]: "lane_ok idle_lane"
  by (simp add: idle_lane_def lane_ok_def in_lane_def XGMII_IDLE_def)

lemma lane_ok_pad: "list_all lane_ok ls \<Longrightarrow> list_all lane_ok (pad n ls)"
  by (auto simp: pad_def list_all_iff)

lemma length_pad: "length ls \<le> n \<Longrightarrow> length (pad n ls) = n"
  by (simp add: pad_def)

lemma pad_full: "length ls = n \<Longrightarrow> pad n ls = ls"
  by (simp add: pad_def)

lemma lane_at_word:
  assumes "list_all lane_ok ls" "i < length ls"
  shows "lane_at (fst (lane_word ls)) (snd (lane_word ls)) i = ls ! i"
  using lane_of_word [of 8 "map fst ls" i] lane_of_word [of 1 "map snd ls" i]
    lane_ok_lanes [OF assms(1)] assms(2)
  by (simp add: lane_at_def lane_word_def prod_eq_iff)

lemma lanes_of_word:
  assumes "list_all lane_ok ls" "length ls = n"
  shows "map (lane_at (fst (lane_word ls)) (snd (lane_word ls))) [j..<n] = drop j ls"
  using assms by (intro nth_equalityI) (auto simp: lane_at_word)

lemma or_idle_lane:
  assumes "list_all lane_ok ls" "lane_ok (x, k)"
  shows "lanes_val 8 (map fst ls) OR shl x (8 * length ls) = lanes_val 8 (map fst (ls @ [(x, k)]))"
    and "lanes_val 1 (map snd ls) OR shl k (length ls) = lanes_val 1 (map snd (ls @ [(x, k)]))"
  using or_lanes [OF lane_ok_lanes(1) [OF assms(1)], of x]
    or_lanes [OF lane_ok_lanes(2) [OF assms(1)], of k] by simp_all

lemma fill_lanes_eq:
  assumes "list_all lane_ok ps" "list_all lane_ok dl" "length ps + n = xg_bw cfg"
  shows "fill_lanes cfg n dl (lanes_val 8 (map fst ps)) (lanes_val 1 (map snd ps)) cnt def =
    (lanes_val 8 (map fst (ps @ pad n (take n dl))), lanes_val 1 (map snd (ps @ pad n (take n dl))),
     drop n dl,
     if dl \<noteq> [] \<and> length dl \<le> n then xg_ifg cfg - int (n + 1 - length dl) + def else cnt)"
  using assms
proof (induction n arbitrary: ps dl cnt)
  case (Suc n)
  have i: "xg_bw cfg - Suc n = length ps" using Suc.prems(3) by simp
  show ?case
  proof (cases dl)
    case Nil
    have "fill_lanes cfg (Suc n) dl (lanes_val 8 (map fst ps)) (lanes_val 1 (map snd ps)) cnt def =
      fill_lanes cfg n [] (lanes_val 8 (map fst (ps @ [idle_lane])))
        (lanes_val 1 (map snd (ps @ [idle_lane]))) cnt def"
      using or_idle_lane [OF Suc.prems(1) lane_ok_idle [unfolded idle_lane_def]] i Nil
      by (simp add: idle_lane_def)
    also have "\<dots> = (lanes_val 8 (map fst (ps @ pad (Suc n) (take (Suc n) dl))),
        lanes_val 1 (map snd (ps @ pad (Suc n) (take (Suc n) dl))), drop (Suc n) dl, cnt)"
      using Suc.IH [of "ps @ [idle_lane]" "[]"] Suc.prems Nil by (simp add: pad_def)
    finally show ?thesis using Nil by simp
  next
    case (Cons l dl')
    obtain x k where l: "l = (x, k)" by fastforce
    have ok: "lane_ok (x, k)" "list_all lane_ok dl'" using Suc.prems(2) Cons l by auto
    show ?thesis
      using or_idle_lane [OF Suc.prems(1) ok(1)] i Cons l Suc.prems
        Suc.IH [of "ps @ [(x, k)]" dl'] ok
      by (auto simp: pad_def Suc_diff_le)
  qed
qed (simp add: pad_def)

lemma put_word_eq:
  assumes "list_all lane_ok (xs_dl s)" "xs_dl s \<noteq> []"
    and "bw = xg_bw cfg" "n = length (xs_dl s)"
  shows "put_word cfg s = Inr (s\<lparr>xs_dl := drop bw (xs_dl s),
    xs_ifg_cnt := (if n \<le> bw then xg_ifg cfg - int (bw + 1 - n) + xs_deficit s else xs_ifg_cnt s),
    xs_txd := fst (lane_word (pad bw (take bw (xs_dl s)))),
    xs_txc := snd (lane_word (pad bw (take bw (xs_dl s))))\<rparr>)"
proof -
  let ?ls = "pad bw (take bw (xs_dl s))"
  have ok: "list_all lane_ok ?ls"
    using assms(1) by (intro lane_ok_pad) (auto simp: list_all_iff dest: in_set_takeD)
  have len: "length ?ls = bw" by (rule length_pad) simp
  have "fits (Some (8 * bw)) (lanes_val 8 (map fst ?ls))" "fits (Some bw) (lanes_val 1 (map snd ?ls))"
    using lanes_val_bound [OF lane_ok_lanes(1) [OF ok]] lanes_val_bound [OF lane_ok_lanes(2) [OF ok]]
      lanes_val_nonneg [OF lane_ok_lanes(1) [OF ok]] lanes_val_nonneg [OF lane_ok_lanes(2) [OF ok]] len
    by (auto simp: fits_def)
  then show ?thesis
    using fill_lanes_eq [of "[]" "xs_dl s" bw cfg] assms
    by (simp add: put_word_def lane_word_def)
qed

section \<open>The source as a wire source\<close>

text \<open>
  A frame that can be sent starts with a preamble octet, fills the first word, and has no control
  character in it; error markers are allowed after that.
\<close>

definition xgmii_sendable :: "nat \<Rightarrow> xgmii_frame \<Rightarrow> bool" where
  "xgmii_sendable bw f \<longleftrightarrow>
     (case xgmii_build f of
        Inl e \<Rightarrow> False
      | Inr ls \<Rightarrow> bw \<le> length ls \<and> fst (hd ls) = ETH_PRE \<and> list_all lane_ok ls
          \<and> list_all (\<lambda>l. snd l = 0) (take bw ls)
          \<and> list_all (\<lambda>l. snd l \<noteq> 0 \<longrightarrow> fst l \<noteq> XGMII_START \<and> fst l \<noteq> XGMII_TERM) ls)"

definition frame_lanes :: "lane list \<Rightarrow> lane list" where
  "frame_lanes ls = (XGMII_START, 1) # tl ls @ [(XGMII_TERM, 1)]"

definition xgmii_code :: "nat \<Rightarrow> xgmii_frame \<Rightarrow> (int \<times> int) list \<Rightarrow> bool" where
  "xgmii_code bw f ws \<longleftrightarrow> bw \<in> {4, 8} \<and> xgmii_sendable bw f
     \<and> (\<exists>ls. xgmii_build f = Inr ls
        \<and> (ws = words bw (frame_lanes ls) \<or> ws = words bw (replicate 4 idle_lane @ frame_lanes ls)))"

definition xgmii_out :: "xgmii_source \<Rightarrow> int \<times> int" where
  "xgmii_out s = (xs_txd s, xs_txc s)"

definition idle_word :: "nat \<Rightarrow> int \<times> int" where
  "idle_word bw = (idle_d bw, idle_c bw)"

definition xgmii_coming :: "nat \<Rightarrow> xgmii_source \<Rightarrow> (int \<times> int) list" where
  "xgmii_coming bw s =
     (if xs_dl s = [] \<and> xgmii_out s = idle_word bw then [] else xgmii_out s # words bw (xs_dl s))"

definition xgmii_gap :: "xgmii_cfg \<Rightarrow> xgmii_source \<Rightarrow> nat" where
  "xgmii_gap cfg s = (if in_gap cfg (xs_ifg_cnt s) then nat (xs_ifg_cnt s) else 0)"

definition ends_frame :: "lane list \<Rightarrow> bool" where
  "ends_frame ls \<longleftrightarrow> list_all lane_ok ls \<and> (ls \<noteq> [] \<longrightarrow> List.last ls = (XGMII_TERM, 1))"

definition xgmii_inv :: "xgmii_cfg \<Rightarrow> xgmii_source \<Rightarrow> bool" where
  "xgmii_inv cfg s \<longleftrightarrow>
     xg_bw cfg \<in> {4, 8} \<and> ends_frame (xs_dl s)
     \<and> (xs_dl s \<noteq> [] \<longrightarrow> xs_ifg_cnt s = 0)
     \<and> 0 \<le> xs_deficit s \<and> xs_deficit s \<le> 3 \<and> xs_ifg_cnt s \<le> max 0 (xg_ifg cfg) + 3
     \<and> (\<not> xg_enable_dic cfg \<longrightarrow> xs_deficit s = 0)"

lemma idle_word_lanes: "bw \<in> {4, 8} \<Longrightarrow> idle_word bw = lane_word (replicate bw idle_lane)"
  by (auto simp: idle_word_def idle_d_def idle_c_def lane_word_def idle_lane_def XGMII_IDLE_def
      eval_nat_numeral)

lemma words_Cons: "0 < bw \<Longrightarrow> ls \<noteq> [] \<Longrightarrow> words bw ls = lane_word (pad bw (take bw ls)) # words bw (drop bw ls)"
  by (simp add: words_def chunks_Cons)

lemma words_eq_Nil [simp]: "0 < bw \<Longrightarrow> words bw ls = [] \<longleftrightarrow> ls = []"
  by (simp add: words_def)

text \<open>A word with a terminate character in it is not an idle word.\<close>

lemma lane_word_inj:
  assumes "list_all lane_ok ls" "list_all lane_ok ls'" "length ls = length ls'"
    "lane_word ls = lane_word ls'"
  shows "ls = ls'"
proof (rule nth_equalityI [OF assms(3)])
  fix i assume "i < length ls"
  then show "ls ! i = ls' ! i"
    using lane_at_word [OF assms(1), of i] lane_at_word [OF assms(2), of i] assms(3,4) by simp
qed

lemma term_not_idle:
  assumes "bw \<in> {4, 8}" "list_all lane_ok ls" "(XGMII_TERM, 1) \<in> set ls" "length ls \<le> bw"
  shows "lane_word (pad bw ls) \<noteq> idle_word bw"
proof
  assume "lane_word (pad bw ls) = idle_word bw"
  then have "pad bw ls = replicate bw idle_lane"
    using assms lane_word_inj [OF lane_ok_pad, of ls "replicate bw idle_lane"]
    by (simp add: idle_word_lanes length_pad list_all_iff)
  moreover have "(XGMII_TERM, 1) \<in> set (pad bw ls)" using assms(3) by (simp add: pad_def)
  ultimately show False by (auto simp: idle_lane_def xgmii_chars)
qed

text \<open>One lane loop: the first word of what is left, and where that leaves the source.\<close>

lemma put_word_coming:
  assumes "xg_bw cfg = bw" "bw \<in> {4, 8}" "ends_frame (xs_dl s)" "xs_dl s \<noteq> []"
    and "0 \<le> xs_deficit s" "xs_deficit s \<le> 3" "xs_ifg_cnt s = 0"
    and "\<not> xg_enable_dic cfg \<longrightarrow> xs_deficit s = 0"
  shows "\<exists>s'. put_word cfg s = Inr s' \<and> xgmii_inv cfg s' \<and> xs_queue s' = xs_queue s
    \<and> xgmii_coming bw s' = words bw (xs_dl s)"
proof -
  have ok: "list_all lane_ok (xs_dl s)" "List.last (xs_dl s) = (XGMII_TERM, 1)"
    using assms(3,4) by (auto simp: ends_frame_def)
  let ?ls = "pad bw (take bw (xs_dl s))"
  define s' where "s' = s\<lparr>xs_dl := drop bw (xs_dl s),
    xs_ifg_cnt := (if length (xs_dl s) \<le> bw
       then xg_ifg cfg - int (bw + 1 - length (xs_dl s)) + xs_deficit s else xs_ifg_cnt s),
    xs_txd := fst (lane_word ?ls), xs_txc := snd (lane_word ?ls)\<rparr>"
  have s': "put_word cfg s = Inr s'"
    unfolding s'_def by (rule put_word_eq [OF ok(1) assms(4) assms(1) [symmetric] refl])
  have eq: "xs_dl s' = drop bw (xs_dl s)"
      "xs_ifg_cnt s' = (if length (xs_dl s) \<le> bw
         then xg_ifg cfg - int (bw + 1 - length (xs_dl s)) + xs_deficit s else 0)"
      "xgmii_out s' = lane_word ?ls" "xs_queue s' = xs_queue s" "xs_deficit s' = xs_deficit s"
    using assms(7) by (simp_all add: s'_def xgmii_out_def)
  have "xgmii_out s' \<noteq> idle_word bw" if d: "drop bw (xs_dl s) = []"
  proof -
    have "(XGMII_TERM, 1) \<in> set (xs_dl s)"
      using ok(2) assms(4) last_in_set [of "xs_dl s"] by simp
    from term_not_idle [OF assms(2) ok(1) this] d eq(3) show ?thesis by simp
  qed
  then have coming: "xgmii_coming bw s' = words bw (xs_dl s)"
    using words_Cons [of bw "xs_dl s"] eq(1,3) assms(2,4)
    by (cases "drop bw (xs_dl s) = []") (auto simp: xgmii_coming_def words_def)
  have "ends_frame (xs_dl s')"
    using eq(1) ok by (auto simp: ends_frame_def last_drop list_all_iff dest: in_set_dropD)
  then have "xgmii_inv cfg s'"
    using eq assms by (auto simp: xgmii_inv_def)
  then show ?thesis using s' coming eq by blast
qed

lemma put_idle_coming:
  "xs_dl s = [] \<Longrightarrow> xgmii_coming (xg_bw cfg) (put_idle cfg s) = []"
  by (simp add: xgmii_coming_def put_idle_def xgmii_out_def idle_word_def)

lemma start_code:
  assumes "xgmii_sendable (xg_bw cfg) f" "xg_bw cfg \<in> {4, 8}"
  obtains ls where "xgmii_build f = Inr ls" "start_lanes ls = Inr (frame_lanes ls)"
    "ends_frame (frame_lanes ls)"
proof -
  obtain ls where ls: "xgmii_build f = Inr ls" "xg_bw cfg \<le> length ls" "fst (hd ls) = ETH_PRE"
      "list_all lane_ok ls"
    using assms(1) by (auto simp: xgmii_sendable_def split: sum.splits)
  obtain x c rest where "ls = (x, c) # rest" using ls(2) assms(2) by (cases ls) auto
  then show ?thesis
    using ls by (intro that [of ls])
      (auto simp: start_lanes_def frame_lanes_def ends_frame_def lane_ok_def in_lane_def xgmii_chars)
qed

lemma mark_errors_length: "mark_errors ls es = Inr r \<Longrightarrow> length r = length ls"
  by (induction ls es arbitrary: r rule: mark_errors.induct) (auto simp: bindR_eq_Inr)

lemma xgmii_build_length: "xgmii_build f = Inr ls \<Longrightarrow> length ls = length (xf_data f)"
  by (auto simp: xgmii_build_def Let_def bindR_eq_Inr dest!: mark_errors_length)

text \<open>The number of words of a frame, with a start in lane 4 at worst.\<close>

definition xgmii_span :: "nat \<Rightarrow> xgmii_frame \<Rightarrow> nat" where
  "xgmii_span bw f = (length (xf_data f) + 4 + bw) div bw"

lemma xgmii_code_span:
  assumes "xgmii_code bw f ws"
  shows "ws \<noteq> []" "length ws \<le> xgmii_span bw f"
proof -
  obtain ls where ls: "xgmii_build f = Inr ls" "bw \<le> length ls"
      "ws = words bw (frame_lanes ls) \<or> ws = words bw (replicate 4 idle_lane @ frame_lanes ls)"
    using assms(1) by (auto simp: xgmii_code_def xgmii_sendable_def)
  have bw: "0 < bw" using assms(1) by (auto simp: xgmii_code_def)
  have len: "length (frame_lanes ls) = length (xf_data f) + 1"
    using ls(2) bw xgmii_build_length [OF ls(1)] by (cases ls) (auto simp: frame_lanes_def)
  show "ws \<noteq> []" using ls(3) bw by (auto simp: frame_lanes_def words_def)
  show "length ws \<le> xgmii_span bw f"
    using ls(3) len by (auto simp: words_def xgmii_span_def chunks_count [OF bw] intro!: div_le_mono)
qed

lemma not_in_gap:
  "xg_bw cfg \<in> {4, 8} \<Longrightarrow> xgmii_gap cfg s = 0 \<Longrightarrow> \<not> in_gap cfg (xs_ifg_cnt s)"
  by (auto simp: xgmii_gap_def in_gap_def split: if_splits)

lemma xgmii_step_start:
  assumes "xgmii_inv cfg s" "xs_dl s = []" "xs_queue s = f # fs" "xgmii_gap cfg s = 0"
    "xgmii_sendable (xg_bw cfg) f"
  shows "\<exists>s'. xgmii_source_step cfg False True s = Inr s' \<and> xgmii_inv cfg s'
    \<and> xgmii_code (xg_bw cfg) f (xgmii_coming (xg_bw cfg) s') \<and> xs_queue s' = fs"
proof -
  have bw: "xg_bw cfg \<in> {4, 8}" using assms(1) by (simp add: xgmii_inv_def)
  have ng: "\<not> in_gap cfg (xs_ifg_cnt s)" using not_in_gap [OF bw assms(4)] .
  obtain ls where ls: "xgmii_build f = Inr ls" "start_lanes ls = Inr (frame_lanes ls)"
      "ends_frame (frame_lanes ls)"
    using start_code [OF assms(5) bw] by blast
  define off where "off = offset_start cfg (xs_ifg_cnt s)"
  define s1 where "s1 = s\<lparr>xs_queue := fs,
    xs_dl := (if off then replicate 4 idle_lane @ frame_lanes ls else frame_lanes ls),
    xs_ifg_cnt := 0,
    xs_deficit := max (if off then max (xs_ifg_cnt s - 4) 0 else xs_ifg_cnt s) 0\<rparr>"
  have "xgmii_source_step cfg False True s = put_word cfg s1"
    using assms(2,3) ng ls by (simp add: xgmii_source_step_def s1_def off_def idle_lane_def Let_def)
  moreover have "0 \<le> xs_deficit s1" "xs_deficit s1 \<le> 3" "\<not> xg_enable_dic cfg \<longrightarrow> xs_deficit s1 = 0"
    using ng bw by (auto simp: s1_def off_def offset_start_def in_gap_def)
  moreover have "ends_frame (xs_dl s1)" "xs_dl s1 \<noteq> []"
    using ls(3) by (auto simp: s1_def ends_frame_def list_all_iff frame_lanes_def)
  moreover have "xs_ifg_cnt s1 = 0" "xs_queue s1 = fs" by (simp_all add: s1_def)
  moreover have "xgmii_code (xg_bw cfg) f (words (xg_bw cfg) (xs_dl s1))"
    using assms(5) ls(1) bw by (auto simp: xgmii_code_def s1_def)
  ultimately show ?thesis using put_word_coming [OF refl bw, of s1] by fastforce
qed

lemma coming_short:
  assumes "xgmii_inv cfg s" "xgmii_coming (xg_bw cfg) s = [] \<or> xgmii_coming (xg_bw cfg) s = [w]"
  shows "xs_dl s = []"
  using assms by (auto simp: xgmii_coming_def xgmii_inv_def split: if_splits)

lemma xgmii_step_idle:
  assumes "xgmii_inv cfg s" "xs_dl s = []" "xs_queue s = [] \<or> xgmii_gap cfg s \<noteq> 0"
  shows "\<exists>s'. xgmii_source_step cfg False True s = Inr s' \<and> xgmii_inv cfg s'
    \<and> xgmii_coming (xg_bw cfg) s' = [] \<and> xs_queue s' = xs_queue s
    \<and> xgmii_gap cfg s' \<le> xgmii_gap cfg s - 1"
proof (cases "in_gap cfg (xs_ifg_cnt s)")
  case True
  define s' where "s' = put_idle cfg (s\<lparr>xs_ifg_cnt := max (xs_ifg_cnt s - int (xg_bw cfg)) 0\<rparr>)"
  have "xgmii_gap cfg s' \<le> nat (xs_ifg_cnt s) - 1"
    using assms(1) by (auto simp: s'_def put_idle_def xgmii_gap_def xgmii_inv_def)
  moreover have "xgmii_inv cfg s'"
    using assms(1,2) by (auto simp: s'_def put_idle_def xgmii_inv_def)
  moreover have "xgmii_coming (xg_bw cfg) s' = []"
    using assms(2) by (simp add: s'_def put_idle_coming)
  ultimately show ?thesis
    using True by (auto simp: xgmii_source_step_def s'_def xgmii_gap_def put_idle_def)
next
  case False
  define s' where "s' = put_idle cfg (s\<lparr>xs_ifg_cnt := 0, xs_deficit := 0\<rparr>)"
  have q: "xs_queue s = []" using assms(3) False by (auto simp: xgmii_gap_def)
  have "xgmii_gap cfg s' = 0" by (simp add: s'_def put_idle_def xgmii_gap_def)
  moreover have "xgmii_inv cfg s'"
    using assms(1,2) by (auto simp: s'_def put_idle_def xgmii_inv_def)
  moreover have "xgmii_coming (xg_bw cfg) s' = []"
    using assms(2) by (simp add: s'_def put_idle_coming)
  ultimately show ?thesis
    using False q assms(2) by (auto simp: xgmii_source_step_def s'_def put_idle_def)
qed

lemma xgmii_step_coming:
  assumes "xgmii_inv cfg s" "xgmii_coming (xg_bw cfg) s = w # v # ws"
  shows "\<exists>s'. xgmii_source_step cfg False True s = Inr s' \<and> xgmii_inv cfg s'
    \<and> xgmii_coming (xg_bw cfg) s' = v # ws \<and> xs_queue s' = xs_queue s"
proof -
  have bw: "xg_bw cfg \<in> {4, 8}" using assms(1) by (simp add: xgmii_inv_def)
  have dl: "xs_dl s \<noteq> []" "words (xg_bw cfg) (xs_dl s) = v # ws"
    using assms(2) by (auto simp: xgmii_coming_def words_def split: if_splits)
  have "xgmii_source_step cfg False True s = put_word cfg s"
    using assms(1) dl(1) bw by (auto simp: xgmii_source_step_def xgmii_inv_def in_gap_def)
  then show ?thesis
    using put_word_coming [OF refl bw, of s] assms(1) dl by (auto simp: xgmii_inv_def)
qed

section \<open>The sink as a wire sink\<close>

definition xgmii_quiet :: "xgmii_sink \<Rightarrow> bool" where
  "xgmii_quiet k \<longleftrightarrow> xk_frame k = None"

text \<open>What the sink keeps of a frame: everything up to and including the first control character.\<close>

fun upto_ctrl :: "lane list \<Rightarrow> lane list" where
  "upto_ctrl [] = []"
| "upto_ctrl ((x, c) # ls) = (if c \<noteq> 0 then [(x, c)] else (x, c) # upto_ctrl ls)"

definition received_as :: "lane list \<Rightarrow> xgmii_frame" where
  "received_as ls =
     \<lparr>xf_data = map (word_of_int \<circ> fst) ls,
      xf_error = ErrList (map (\<lambda>(x, c). if c \<noteq> 0 \<and> x = XGMII_ERROR then 1 else 0) ls),
      xf_ctrl = Some (map snd ls)\<rparr>"

definition xgmii_image :: "xgmii_frame \<Rightarrow> xgmii_frame" where
  "xgmii_image f = (case xgmii_build f of Inl e \<Rightarrow> f | Inr ls \<Rightarrow> received_as (upto_ctrl ls))"

definition got :: "lane list \<Rightarrow> xgmii_sink \<Rightarrow> xgmii_sink" where
  "got ls k = k\<lparr>xk_queue := xk_queue k @ [received_as ls], xk_frame := None\<rparr>"

lemma bytes_of_ok: "list_all lane_ok ls \<Longrightarrow> bytes_of (map fst ls) = Inr (map (word_of_int \<circ> fst) ls)"
  by (induction ls) (auto simp: lane_ok_def in_lane_def)

lemma xgmii_parse_ok: "list_all lane_ok ls \<Longrightarrow> xgmii_parse ls = Inr (received_as ls)"
  by (simp add: xgmii_parse_def received_as_def bytes_of_ok)

lemma upto_ctrl_ok: "list_all lane_ok ls \<Longrightarrow> list_all lane_ok (upto_ctrl ls)"
  by (induction ls rule: upto_ctrl.induct) auto

lemma upto_ctrl_append:
  "upto_ctrl (ls @ ls') = (if list_all (\<lambda>l. snd l = 0) ls then ls @ upto_ctrl ls' else upto_ctrl ls)"
  by (induction ls rule: upto_ctrl.induct) auto

lemma collect_lanes_data:
  "list_all (\<lambda>l. snd l = 0) ls \<Longrightarrow> collect_lanes ls ds k = Inr (k\<lparr>xk_frame := Some (ds @ ls)\<rparr>)"
  by (induction ls arbitrary: ds) auto

text \<open>A control character other than the terminate character, or a terminate character, ends the frame.\<close>

lemma collect_lanes_ctrl:
  assumes "list_all lane_ok (ds @ ls)" "\<not> list_all (\<lambda>l. snd l = 0) ls"
    "\<forall>l \<in> set ls. snd l \<noteq> 0 \<longrightarrow> fst l \<noteq> XGMII_TERM"
  shows "collect_lanes (ls @ rest) ds k = Inr (got (ds @ upto_ctrl ls) k)"
  using assms
proof (induction ls arbitrary: ds rule: upto_ctrl.induct)
  case (2 x c ls)
  show ?case
  proof (cases "c = 0")
    case True
    then show ?thesis using 2(1) [of "ds @ [(x, c)]"] 2(2-) by simp
  next
    case False
    then show ?thesis using 2(2-) xgmii_parse_ok [of "ds @ [(x, c)]"] by (simp add: got_def)
  qed
qed simp

lemma collect_lanes_term:
  assumes "list_all lane_ok (ds @ ls)" "list_all (\<lambda>l. snd l = 0) ls"
  shows "collect_lanes (ls @ (XGMII_TERM, 1) # rest) ds k = Inr (got (ds @ ls) k)"
  using assms
proof (induction ls arbitrary: ds)
  case Nil
  then show ?case using xgmii_parse_ok [of ds] by (simp add: got_def)
next
  case (Cons l ls)
  then show ?case using Cons.IH [of "ds @ [l]"] by (cases l) simp
qed

lemma sink_step_word:
  assumes "list_all lane_ok ls" "length ls = bw"
  shows "xgmii_sink_step bw False True (lane_word ls) (k\<lparr>xk_frame := Some ds\<rparr>) =
    collect_lanes ls ds (k\<lparr>xk_frame := Some ds\<rparr>)"
  using lanes_of_word [OF assms, of 0] by (simp add: xgmii_sink_step_def lane_word_def)

lemma lane0:
  assumes "list_all lane_ok ls" "0 < length ls"
  shows "fst (lane_word ls) AND 0xff = fst (ls ! 0)" "snd (lane_word ls) AND 1 = snd (ls ! 0)"
  using lane_at_word [OF assms(1), of 0] assms(2) by (auto simp: lane_at_def prod_eq_iff)

lemma lane4:
  assumes "list_all lane_ok ls" "4 < length ls"
  shows "shr (fst (lane_word ls)) 32 AND 0xff = fst (ls ! 4)" "shr (snd (lane_word ls)) 4 AND 1 = snd (ls ! 4)"
  using lane_at_word [OF assms(1), of 4] assms(2) by (auto simp: lane_at_def prod_eq_iff)

text \<open>Between frames, words without a start character are skipped.\<close>

definition no_start :: "lane list \<Rightarrow> bool" where
  "no_start ls \<longleftrightarrow> list_all (\<lambda>l. snd l \<noteq> 0 \<longrightarrow> fst l \<noteq> XGMII_START) ls"

lemma sink_skips_word:
  assumes "list_all lane_ok ls" "length ls = bw" "bw \<in> {4, 8}" "no_start ls" "xgmii_quiet k"
  shows "xgmii_sink_step bw False True (lane_word ls) k = Inr k"
proof -
  have all: "snd (ls ! i) \<noteq> 0 \<longrightarrow> fst (ls ! i) \<noteq> XGMII_START" if "i < bw" for i
    using assms(2,4) that by (auto simp: no_start_def list_all_length)
  have "snd (ls ! 0) \<noteq> 0 \<longrightarrow> fst (ls ! 0) \<noteq> XGMII_START" using all [of 0] assms(3) by auto
  moreover have "bw = 8 \<longrightarrow> snd (ls ! 4) \<noteq> 0 \<longrightarrow> fst (ls ! 4) \<noteq> XGMII_START"
    using all [of 4] by auto
  ultimately show ?thesis
    using lane0 [OF assms(1)] lane4 [OF assms(1)] assms(2,3,5)
    by (auto simp: xgmii_sink_step_def xgmii_quiet_def split: prod.splits)
qed

lemma no_start_pad: "no_start ls \<Longrightarrow> no_start (pad n ls)"
  by (auto simp: no_start_def pad_def idle_lane_def xgmii_chars list_all_iff)

lemma sink_skips:
  assumes "list_all lane_ok ls" "no_start ls" "bw \<in> {4, 8}" "xgmii_quiet k"
  shows "take_words (xgmii_sink_step bw False True) (words bw ls) k = Inr k"
proof -
  have bw: "0 < bw" using assms(3) by auto
  have all: "list_all lane_ok c \<and> no_start c \<and> length c \<le> bw" if "c \<in> set (chunks bw ls)" for c
    using chunks_length [OF bw that] chunks_in [OF that] assms(1,2)
    by (auto simp: list_all_iff no_start_def)
  have "take_words (xgmii_sink_step bw False True) (map (\<lambda>c. lane_word (pad bw c)) cs) k = Inr k"
    if "set cs \<subseteq> set (chunks bw ls)" for cs
    using that
  proof (induction cs)
    case (Cons c cs)
    then have c: "list_all lane_ok c" "no_start c" "length c \<le> bw" using all by auto
    then show ?case
      using Cons sink_skips_word [OF lane_ok_pad length_pad assms(3) no_start_pad assms(4), of c] by simp
  qed simp
  then show ?thesis by (simp add: words_def)
qed

text \<open>Within a frame: the words up to the terminate character complete it.\<close>

lemma sink_takes_rest:
  assumes "bw \<in> {4, 8}" "list_all lane_ok (ds @ ls)"
    "\<forall>l \<in> set ls. snd l \<noteq> 0 \<longrightarrow> fst l \<noteq> XGMII_TERM \<and> fst l \<noteq> XGMII_START"
    and "k' = k\<lparr>xk_frame := Some ds\<rparr>"
  shows "take_words (xgmii_sink_step bw False True) (words bw (ls @ [(XGMII_TERM, 1)])) k' =
    Inr (got (ds @ upto_ctrl ls) k')"
  using assms(2-)
proof (induction "length ls" arbitrary: ls ds k' rule: less_induct)
  case less
  have bw: "0 < bw" using assms(1) by auto
  let ?T = "(XGMII_TERM, 1) :: lane"
  have T: "lane_ok ?T" by (simp add: lane_ok_def in_lane_def XGMII_TERM_def)
  show ?case
  proof (cases "length ls < bw")
    case True
    have "words bw (ls @ [?T]) = [lane_word (ls @ ?T # replicate (bw - Suc (length ls)) idle_lane)]"
      using True bw words_Cons [of bw "ls @ [?T]"] by (simp add: pad_def words_def)
    moreover have "list_all lane_ok (ls @ ?T # replicate (bw - Suc (length ls)) idle_lane)"
      using less.prems(1) T by (auto simp: list_all_iff set_replicate_conv_if)
    moreover have "collect_lanes (ls @ ?T # rest) ds k' = Inr (got (ds @ upto_ctrl ls) k')" for rest
    proof (cases "list_all (\<lambda>l. snd l = 0) ls")
      case all: True
      then have "upto_ctrl ls = ls" using upto_ctrl_append [of ls "[]"] by simp
      then show ?thesis using collect_lanes_term [OF less.prems(1) all] by simp
    next
      case False
      then show ?thesis using collect_lanes_ctrl [OF less.prems(1) False] less.prems(2) by auto
    qed
    ultimately show ?thesis
      using True less.prems(3) sink_step_word [of "ls @ ?T # replicate (bw - Suc (length ls)) idle_lane" bw ds k']
      by simp
  next
    case False
    let ?h = "take bw ls" and ?t = "drop bw ls"
    have parts: "list_all lane_ok ?h" "list_all lane_ok ?t" "length ?h = bw"
      using less.prems(1) False by (auto simp: list_all_iff dest: in_set_takeD in_set_dropD)
    have w: "words bw (ls @ [?T]) = lane_word ?h # words bw (?t @ [?T])"
      using False bw words_Cons [of bw "ls @ [?T]"] by (simp add: pad_full)
    have step: "xgmii_sink_step bw False True (lane_word ?h) k' = collect_lanes ?h ds k'"
      using less.prems(3) sink_step_word [OF parts(1,3)] by simp
    have okd: "list_all lane_ok (ds @ ?h)" using less.prems(1) parts(1) by simp
    show ?thesis
    proof (cases "list_all (\<lambda>l. snd l = 0) ?h")
      case True
      have "take_words (xgmii_sink_step bw False True) (words bw (?t @ [?T]))
          (k\<lparr>xk_frame := Some (ds @ ?h)\<rparr>) = Inr (got ((ds @ ?h) @ upto_ctrl ?t) (k\<lparr>xk_frame := Some (ds @ ?h)\<rparr>))"
        using False bw parts less.prems by (intro less.hyps) (auto dest: in_set_dropD)
      moreover have "upto_ctrl ls = ?h @ upto_ctrl ?t"
        using True upto_ctrl_append [of ?h ?t] by simp
      ultimately show ?thesis
        using w step collect_lanes_data [OF True, of ds k'] less.prems(3) by (simp add: got_def)
    next
      case ctrl: False
      have "collect_lanes (?h @ []) ds k' = Inr (got (ds @ upto_ctrl ?h) k')"
        by (rule collect_lanes_ctrl [OF okd ctrl]) (use less.prems(2) in \<open>auto dest: in_set_takeD\<close>)
      moreover have "upto_ctrl ls = upto_ctrl ?h"
        using ctrl upto_ctrl_append [of ?h ?t] by simp
      moreover have "no_start (?t @ [?T])"
        using less.prems(2) by (auto simp: no_start_def list_all_iff xgmii_chars dest: in_set_dropD)
      ultimately show ?thesis
        using w step sink_skips [of "?t @ [?T]" bw "got (ds @ upto_ctrl ls) k'"] parts(2) T assms(1)
        by (simp add: xgmii_quiet_def got_def)
    qed
  qed
qed

lemma sink_starts:
  assumes "list_all lane_ok ls" "length ls = bw" "bw \<in> {4, 8}" "xgmii_quiet k"
  shows "fst (ls ! 0) = XGMII_START \<Longrightarrow> snd (ls ! 0) \<noteq> 0 \<Longrightarrow>
      xgmii_sink_step bw False True (lane_word ls) k = Inr (k\<lparr>xk_frame := Some ((ETH_PRE, 0) # drop 1 ls)\<rparr>)"
    and "bw = 8 \<Longrightarrow> ls ! 0 = idle_lane \<Longrightarrow> fst (ls ! 4) = XGMII_START \<Longrightarrow> snd (ls ! 4) \<noteq> 0 \<Longrightarrow>
      xgmii_sink_step bw False True (lane_word ls) k = Inr (k\<lparr>xk_frame := Some ((ETH_PRE, 0) # drop 5 ls)\<rparr>)"
proof -
  have len: "0 < length ls" using assms(2,3) by auto
  note l0 = lane0 [OF assms(1) len] and l4 = lane4 [OF assms(1)]
    and lw = lanes_of_word [OF assms(1,2)]
  show "xgmii_sink_step bw False True (lane_word ls) k = Inr (k\<lparr>xk_frame := Some ((ETH_PRE, 0) # drop 1 ls)\<rparr>)"
    if "fst (ls ! 0) = XGMII_START" "snd (ls ! 0) \<noteq> 0"
    using that l0 lw [of 1] assms(4)
    by (simp add: xgmii_sink_step_def xgmii_quiet_def split_beta)
  show "xgmii_sink_step bw False True (lane_word ls) k = Inr (k\<lparr>xk_frame := Some ((ETH_PRE, 0) # drop 5 ls)\<rparr>)"
    if "bw = 8" "ls ! 0 = idle_lane" "fst (ls ! 4) = XGMII_START" "snd (ls ! 4) \<noteq> 0"
    using that l0 l4 lw [of 5] assms(2,4)
    by (simp add: xgmii_sink_step_def xgmii_quiet_def split_beta idle_lane_def xgmii_chars)
qed

text \<open>A start in lane 0: the rest of the first word is taken as data without a look at its control bits.\<close>

lemma sink_takes_frame:
  assumes "bw \<in> {4, 8}" "xgmii_sendable bw f" "xgmii_build f = Inr ls" "xgmii_quiet k"
  shows "take_words (xgmii_sink_step bw False True) (words bw (frame_lanes ls)) k =
      Inr (got (upto_ctrl ls) k)"
    and "take_words (xgmii_sink_step bw False True) (words bw (replicate 4 idle_lane @ frame_lanes ls)) k =
      Inr (got (upto_ctrl ls) k)"
proof -
  let ?step = "xgmii_sink_step bw False True" and ?T = "(XGMII_TERM, 1) :: lane"
  let ?S = "(XGMII_START, 1) :: lane"
  have bw: "0 < bw" using assms(1) by auto
  have s: "bw \<le> length ls" "fst (hd ls) = ETH_PRE" "list_all lane_ok ls"
      "list_all (\<lambda>l. snd l = 0) (take bw ls)"
      "\<forall>l \<in> set ls. snd l \<noteq> 0 \<longrightarrow> fst l \<noteq> XGMII_TERM \<and> fst l \<noteq> XGMII_START"
    using assms(2,3) by (auto simp: xgmii_sendable_def list_all_iff)
  obtain rest where ls: "ls = (ETH_PRE, 0) # rest"
    using s(1,2,4) bw by (cases ls; cases bw) (auto simp: prod_eq_iff)
  have S: "lane_ok ?S" by (simp add: lane_ok_def in_lane_def xgmii_chars)
  have ok: "list_all lane_ok rest" using s(3) ls by simp
  have after: "take_words ?step (words bw (drop n ls @ [?T])) (k\<lparr>xk_frame := Some (take n ls)\<rparr>) =
      Inr (got (upto_ctrl ls) k)" if "n \<le> bw" for n k
  proof -
    have "list_all (\<lambda>l. snd l = 0) (take n ls)"
      using s(4) that by (metis list_all_append append_take_drop_id min.absorb1 take_take)
    then have "upto_ctrl ls = take n ls @ upto_ctrl (drop n ls)"
      using upto_ctrl_append [of "take n ls" "drop n ls"] by simp
    then show ?thesis
      using sink_takes_rest [OF assms(1), of "take n ls" "drop n ls" "k\<lparr>xk_frame := Some (take n ls)\<rparr>" k] s(3,5)
      by (auto simp: got_def dest: in_set_dropD)
  qed
  have first: "take_words ?step (words bw (frame_lanes ls)) k = Inr (got (upto_ctrl ls) k)"
    if q: "xgmii_quiet k" for k
  proof -
    have w: "words bw (frame_lanes ls) = lane_word (?S # take (bw - 1) rest) # words bw (drop bw ls @ [?T])"
      using words_Cons [OF bw, of "frame_lanes ls"] s(1) ls bw
      by (cases bw) (simp_all add: frame_lanes_def pad_full)
    have "?step (lane_word (?S # take (bw - 1) rest)) k = Inr (k\<lparr>xk_frame := Some (take bw ls)\<rparr>)"
      using sink_starts(1) [of "?S # take (bw - 1) rest" bw k] S ok s(1) ls bw assms(1) q
      by (cases bw) (auto simp: list_all_iff dest: in_set_takeD)
    then show ?thesis using w after [of bw k] by simp
  qed
  show "take_words ?step (words bw (frame_lanes ls)) k = Inr (got (upto_ctrl ls) k)"
    by (rule first [OF assms(4)])
  show "take_words ?step (words bw (replicate 4 idle_lane @ frame_lanes ls)) k = Inr (got (upto_ctrl ls) k)"
  proof (cases "bw = 4")
    case True
    have "?step (lane_word (replicate 4 idle_lane)) k = Inr k"
      using sink_skips_word [of "replicate 4 idle_lane" bw k] True assms(4)
      by (simp add: no_start_def idle_lane_def xgmii_chars lane_ok_def in_lane_def eval_nat_numeral)
    then show ?thesis
      using True first [OF assms(4)] words_Cons [OF bw, of "replicate 4 idle_lane @ frame_lanes ls"]
      by (simp add: pad_full)
  next
    case False
    then have b8: "bw = 8" using assms(1) by simp
    let ?w = "replicate 4 idle_lane @ ?S # take 3 rest"
    have len: "length ?w = bw" using s(1) ls b8 by simp
    have w: "words bw (replicate 4 idle_lane @ frame_lanes ls) = lane_word ?w # words bw (drop 4 ls @ [?T])"
      using words_Cons [OF bw, of "replicate 4 idle_lane @ frame_lanes ls"] s(1) ls b8
      by (simp add: frame_lanes_def pad_full)
    have "?step (lane_word ?w) k = Inr (k\<lparr>xk_frame := Some ((ETH_PRE, 0) # drop 5 ?w)\<rparr>)"
    proof (rule sink_starts(2) [OF _ len assms(1,4) b8])
      show "list_all lane_ok ?w"
        using S ok by (auto simp: list_all_iff set_replicate_conv_if dest: in_set_takeD)
    qed (simp_all add: nth_append nth_Cons eval_nat_numeral)
    then have "?step (lane_word ?w) k = Inr (k\<lparr>xk_frame := Some (take 4 ls)\<rparr>)"
      using ls by (simp add: eval_nat_numeral)
    then show ?thesis using w after [of 4 k] b8 by simp
  qed
qed

section \<open>The link\<close>

definition xgmii_wire :: "xgmii_cfg \<Rightarrow> (xgmii_source, xgmii_sink, int \<times> int, xgmii_frame) wire" where
  "xgmii_wire cfg =
     \<lparr>w_src = (\<lambda>en. xgmii_source_step cfg False en), w_out = xgmii_out,
      w_send = (\<lambda>f. xgmii_send (XFrame f)), w_snk = (\<lambda>en. xgmii_sink_step (xg_bw cfg) False en)\<rparr>"

lemma XGMIIFrame_copy [simp]: "XGMIIFrame (XFrame f) e c = f"
  by (simp add: XGMIIFrame_def)

lemma xgmii_max_gap: "xgmii_inv cfg s \<Longrightarrow> xgmii_gap cfg s \<le> nat (max 0 (xg_ifg cfg) + 3)"
  by (auto simp: xgmii_gap_def xgmii_inv_def)

lemma xgmii_send_laws:
  "xgmii_inv cfg s \<Longrightarrow> xgmii_inv cfg (xgmii_send (XFrame f) s)"
  "xs_queue (xgmii_send (XFrame f) s) = xs_queue s @ [f]"
  "xgmii_coming bw (xgmii_send (XFrame f) s) = xgmii_coming bw s"
  "xgmii_gap cfg (xgmii_send (XFrame f) s) = xgmii_gap cfg s"
  by (simp_all add: xgmii_send_def xgmii_inv_def xgmii_coming_def xgmii_gap_def xgmii_out_def)

interpretation xgmii_src: wire_source
  "xgmii_source_step cfg False True" xgmii_out "\<lambda>f. xgmii_send (XFrame f)" "xgmii_inv cfg" xs_queue
  "xgmii_coming (xg_bw cfg)" "xgmii_gap cfg" "xgmii_sendable (xg_bw cfg)"
  "\<lambda>w. xg_bw cfg \<in> {4, 8} \<and> w = idle_word (xg_bw cfg)" "xgmii_code (xg_bw cfg)"
  "xgmii_span (xg_bw cfg)" "nat (max 0 (xg_ifg cfg) + 3)"
  for cfg
proof
  fix s w ws assume "xgmii_inv cfg s" "xgmii_coming (xg_bw cfg) s = w # ws"
  then show "xgmii_out s = w" by (auto simp: xgmii_coming_def split: if_splits)
next
  fix s assume "xgmii_inv cfg s" "xgmii_coming (xg_bw cfg) s = []"
  then show "xg_bw cfg \<in> {4, 8} \<and> xgmii_out s = idle_word (xg_bw cfg)"
    by (auto simp: xgmii_coming_def xgmii_inv_def split: if_splits)
next
  fix s w assume "xgmii_inv cfg s" "xgmii_coming (xg_bw cfg) s = [] \<or> xgmii_coming (xg_bw cfg) s = [w]"
    "xs_queue s = [] \<or> xgmii_gap cfg s \<noteq> 0"
  then show "\<exists>s'. xgmii_source_step cfg False True s = Inr s' \<and> xgmii_inv cfg s'
      \<and> xgmii_coming (xg_bw cfg) s' = [] \<and> xs_queue s' = xs_queue s
      \<and> xgmii_gap cfg s' \<le> xgmii_gap cfg s - 1"
    using coming_short xgmii_step_idle by blast
next
  fix s w f fs assume "xgmii_inv cfg s" "xgmii_coming (xg_bw cfg) s = [] \<or> xgmii_coming (xg_bw cfg) s = [w]"
    "xs_queue s = f # fs" "xgmii_gap cfg s = 0" "xgmii_sendable (xg_bw cfg) f"
  then show "\<exists>s'. xgmii_source_step cfg False True s = Inr s' \<and> xgmii_inv cfg s'
      \<and> xgmii_code (xg_bw cfg) f (xgmii_coming (xg_bw cfg) s') \<and> xs_queue s' = fs"
    using coming_short xgmii_step_start by blast
qed (simp_all add: xgmii_send_laws xgmii_max_gap xgmii_step_coming xgmii_code_span)

interpretation xgmii_snk: wire_sink
  "xgmii_sink_step bw False True" xgmii_quiet xk_queue "xgmii_sendable bw"
  "\<lambda>w. bw \<in> {4, 8} \<and> w = idle_word bw" "xgmii_code bw" xgmii_image
  for bw
proof
  fix k w assume "xgmii_quiet k" "bw \<in> {4, 8} \<and> w = idle_word bw"
  then show "\<exists>k'. xgmii_sink_step bw False True w k = Inr k' \<and> xgmii_quiet k' \<and> xk_queue k' = xk_queue k"
    using sink_skips_word [of "replicate bw idle_lane" bw k] idle_word_lanes [of bw]
    by (auto simp: no_start_def list_all_iff idle_lane_def xgmii_chars lane_ok_def in_lane_def)
next
  fix k f ws assume "xgmii_quiet k" "xgmii_sendable bw f" "xgmii_code bw f ws"
  then obtain ls where "bw \<in> {4, 8}" "xgmii_build f = Inr ls"
      "take_words (xgmii_sink_step bw False True) ws k = Inr (got (upto_ctrl ls) k)"
    using sink_takes_frame by (auto simp: xgmii_code_def)
  then show "\<exists>k'. take_words (xgmii_sink_step bw False True) ws k = Inr k' \<and> xgmii_quiet k'
      \<and> xk_queue k' = xk_queue k @ [xgmii_image f]"
    by (auto simp: got_def xgmii_quiet_def xgmii_image_def)
qed

interpretation xgmii: wire_link
  "xgmii_source_step cfg False True" xgmii_out "\<lambda>f. xgmii_send (XFrame f)" "xgmii_inv cfg" xs_queue
  "xgmii_coming (xg_bw cfg)" "xgmii_gap cfg" "xgmii_sendable (xg_bw cfg)"
  "\<lambda>w. xg_bw cfg \<in> {4, 8} \<and> w = idle_word (xg_bw cfg)" "xgmii_code (xg_bw cfg)"
  "xgmii_span (xg_bw cfg)" "nat (max 0 (xg_ifg cfg) + 3)"
  "xgmii_sink_step (xg_bw cfg) False True" xgmii_quiet xk_queue xgmii_image
  for cfg ..

lemma xgmii_wire_eq: "xgmii_wire cfg = xgmii.W cfg"
  by (auto simp: xgmii_wire_def fun_eq_iff xgmii_source_step_def xgmii_sink_step_def split: prod.splits)

lemma xgmii_init: "xg_bw cfg \<in> {4, 8} \<Longrightarrow> xgmii.link_inv cfg [] (xgmii_source0 cfg, xgmii_sink0)"
  by (rule xgmii.link_inv_init)
    (auto simp: xgmii_source0_def xgmii_sink0_def xgmii_inv_def ends_frame_def xgmii_coming_def
      xgmii_out_def idle_word_def xgmii_quiet_def)

text \<open>Frames made of octets: all data lanes.\<close>

definition xgmii_plain :: "nat \<Rightarrow> bytes \<Rightarrow> bool" where
  "xgmii_plain bw bs \<longleftrightarrow> bw \<le> length bs \<and> bs \<noteq> [] \<and> hd bs = 0x55"

lemma mark_errors_none: "length ls \<le> n \<Longrightarrow> mark_errors ls (replicate n 0) = Inr ls"
proof (induction ls arbitrary: n)
  case (Cons l ls)
  then show ?case by (cases n; cases l) auto
qed simp

lemma xgmii_build_plain:
  "xgmii_build (XGMIIFrame (XBytes bs) e c) = Inr (map (\<lambda>b. (uint b, 0)) bs)"
proof -
  have "zip (map uint bs) (replicate (length bs) 0) = map (\<lambda>b. (uint b, 0)) bs"
    by (induction bs) auto
  then show ?thesis
    by (simp add: xgmii_build_def XGMIIFrame_def error_list_def mark_errors_none)
qed

lemma plain_sendable:
  assumes "xgmii_plain bw bs"
  shows "xgmii_sendable bw (XGMIIFrame (XBytes bs) ErrNone None)"
proof -
  have "uint (hd bs) = ETH_PRE" using assms by (simp add: xgmii_plain_def ETH_PRE_def)
  then have "fst (hd (map (\<lambda>b. (uint b, 0 :: int)) bs)) = ETH_PRE"
    using assms by (cases bs) (simp_all add: xgmii_plain_def)
  then show ?thesis using assms
    by (auto simp: xgmii_sendable_def xgmii_build_plain list_all_iff lane_ok_def xgmii_plain_def dest: in_set_takeD)
qed

lemma plain_image:
  "xgmii_image (XGMIIFrame (XBytes bs) ErrNone None) =
    \<lparr>xf_data = bs, xf_error = ErrList (replicate (length bs) 0),
     xf_ctrl = Some (replicate (length bs) 0)\<rparr>"
proof -
  have "upto_ctrl (map (\<lambda>b. (uint b, 0)) bs) = map (\<lambda>b. (uint b, 0)) bs"
    using upto_ctrl_append [of "map (\<lambda>b. (uint b, 0)) bs" "[]"] by (simp add: list_all_iff)
  then show ?thesis
    by (simp add: xgmii_image_def xgmii_build_plain received_as_def comp_def map_replicate_const)
qed

text \<open>
  C3: an XGMII source and sink deliver every frame of octets that starts with a preamble octet and
  fills the first word, exactly once and in order, with its octets unchanged and no error marked,
  on the 32-bit and the 64-bit bus, with and without the deficit idle count and the forced offset
  start, whenever frames are queued and however the clock enable is driven.  All frames have
  arrived after a number of enabled cycles that is bounded by their length and the gap.
\<close>
theorem xgmii_link_delivers_frames:
  assumes "xg_bw cfg \<in> {4, 8}"
    and "put es = map (\<lambda>bs. XGMIIFrame (XBytes bs) ErrNone None) frames"
    and "list_all (xgmii_plain (xg_bw cfg)) frames" "put es' = []"
    and "(\<Sum>bs\<leftarrow>frames. (length bs + 4 + xg_bw cfg) div xg_bw cfg + nat (max 0 (xg_ifg cfg) + 3) + 1)
      + nat (max 0 (xg_ifg cfg) + 3) \<le> ticks es'"
  shows "\<exists>s k. wire_run (xgmii_wire cfg) (es @ es') (xgmii_source0 cfg, xgmii_sink0) = Inr (s, k)
    \<and> xs_queue s = [] \<and> xs_dl s = [] \<and> map xf_data (xk_queue k) = frames
    \<and> list_all (\<lambda>f. xf_error f = ErrList (replicate (length (xf_data f)) 0)) (xk_queue k)"
proof -
  have "list_all (xgmii_sendable (xg_bw cfg)) (put es)"
    using assms(2,3) plain_sendable by (auto simp: list_all_iff)
  moreover have "xgmii_span (xg_bw cfg) (XGMIIFrame (XBytes bs) ErrNone None) =
      (length bs + 4 + xg_bw cfg) div xg_bw cfg" for bs
    by (simp add: xgmii_span_def XGMIIFrame_def)
  ultimately obtain s k where run: "wire_run (xgmii.W cfg) (es @ es') (xgmii_source0 cfg, xgmii_sink0) = Inr (s, k)"
      "xs_queue s = []" "xgmii_coming (xg_bw cfg) s = []" "xk_queue k = map xgmii_image (put es)"
    using xgmii.link_delivers [OF xgmii_init [OF assms(1)], of es es'] assms(2,4,5)
    by (auto simp: comp_def)
  then show ?thesis
    by (auto simp: xgmii_wire_eq assms(2) comp_def plain_image list_all_iff xgmii_coming_def
        split: if_splits)
qed

theorem xgmii_link_delivers_frames_witness:
  "let cfg = \<lparr>xg_bw = 8, xg_ifg = 12, xg_enable_dic = True, xg_force_offset_start = False\<rparr>;
       frames = [replicate 7 0x55 @ [0xD5, 1, 2, 3], replicate 7 0x55 @ [0xD5, 4]];
       es = map (\<lambda>bs. Put (XGMIIFrame (XBytes bs) ErrNone None)) frames
   in \<exists>s k. wire_run (xgmii_wire cfg) (es @ replicate 60 (Clk True)) (xgmii_source0 cfg, xgmii_sink0)
        = Inr (s, k) \<and> map xf_data (xk_queue k) = frames"
  using xgmii_link_delivers_frames
    [of "\<lparr>xg_bw = 8, xg_ifg = 12, xg_enable_dic = True, xg_force_offset_start = False\<rparr>"
        "map (\<lambda>bs. Put (XGMIIFrame (XBytes bs) ErrNone None))
           [replicate 7 0x55 @ [0xD5, 1, 2, 3], replicate 7 0x55 @ [0xD5, 4]]"
        "[replicate 7 0x55 @ [0xD5, 1, 2, 3], replicate 7 0x55 @ [0xD5, 4]]"
        "replicate 60 (Clk True)"]
  by (auto simp: xgmii_plain_def Let_def comp_def simp del: wire_run.simps replicate.simps)

section \<open>Error markers\<close>

lemma mark_errors_prefix:
  "length es = length ls \<Longrightarrow> n < length ls \<Longrightarrow> \<forall>i < n. es ! i = 0 \<Longrightarrow> es ! n \<noteq> 0 \<Longrightarrow>
    \<exists>rest. mark_errors ls es = Inr (take n ls @ (XGMII_ERROR, 1) # rest)
      \<and> length rest = length ls - n - 1
      \<and> set rest \<subseteq> insert (XGMII_ERROR, 1) (set ls)"
proof (induction ls es arbitrary: n rule: mark_errors.induct)
  case (3 x c ls e es)
  have rest: "\<exists>r. mark_errors ls es = Inr r \<and> length r = length ls \<and> set r \<subseteq> insert (XGMII_ERROR, 1) (set ls)"
    if "length es = length ls" for ls :: "lane list" and es
    using that by (induction ls es rule: mark_errors.induct) auto
  show ?case
  proof (cases n)
    case 0
    then show ?thesis using 3(2-) rest [of es ls] by auto
  next
    case (Suc m)
    have "\<forall>i < m. es ! i = 0" "es ! m \<noteq> 0" "e = 0"
      using 3(4,5) Suc by (auto simp: All_less_Suc2)
    then show ?thesis using 3(1) [of m] 3(2,3) Suc by fastforce
  qed
qed auto

text \<open>What a frame with an error marker is built as, and received as.\<close>

lemma error_frame:
  fixes bs err
  assumes "length err = length bs" "n < length bs" "\<forall>i < n. err ! i = 0" "err ! n \<noteq> 0"
  defines "f \<equiv> \<lparr>xf_data = bs, xf_error = ErrList err, xf_ctrl = None\<rparr>"
    and "ls \<equiv> map (\<lambda>b. (uint b, 0)) bs :: lane list"
  obtains rest where "xgmii_build f = Inr (take n ls @ (XGMII_ERROR, 1) # rest)"
    "set rest \<subseteq> insert (XGMII_ERROR, 1) (set ls)"
    "xgmii_image f = \<lparr>xf_data = take n bs @ [0xFE], xf_error = ErrList (replicate n 0 @ [1]),
      xf_ctrl = Some (replicate n 0 @ [1])\<rparr>"
proof -
  have "zip (map uint bs) (replicate (length bs) 0) = ls"
    unfolding ls_def by (induction bs) auto
  then obtain rest where build: "xgmii_build f = Inr (take n ls @ (XGMII_ERROR, 1) # rest)"
      "set rest \<subseteq> insert (XGMII_ERROR, 1) (set ls)"
    using mark_errors_prefix [of err ls n] assms(1-4)
    by (auto simp: xgmii_build_def error_list_def f_def ls_def)
  have "list_all (\<lambda>l. snd l = 0) (take n ls)" by (auto simp: ls_def list_all_iff dest: in_set_takeD)
  then have "upto_ctrl (take n ls @ (XGMII_ERROR, 1) # rest) = take n ls @ [(XGMII_ERROR, 1)]"
    by (simp add: upto_ctrl_append)
  then have "xgmii_image f = received_as (take n ls @ [(XGMII_ERROR, 1)])"
    using build(1) by (simp add: xgmii_image_def)
  then have "xgmii_image f = \<lparr>xf_data = take n bs @ [0xFE], xf_error = ErrList (replicate n 0 @ [1]),
      xf_ctrl = Some (replicate n 0 @ [1])\<rparr>"
    using assms(2) by (simp add: received_as_def ls_def take_map comp_def map_replicate_const XGMII_ERROR_def)
  then show ?thesis using that build by blast
qed

lemma error_frame_sendable:
  assumes "bw \<in> {4, 8}" "xgmii_plain bw bs" "bw \<le> n" "n < length bs"
    and "xgmii_build f = Inr (take n ls @ (XGMII_ERROR, 1) # rest)"
    and "set rest \<subseteq> insert (XGMII_ERROR, 1) (set ls)" "ls = map (\<lambda>b. (uint b, 0)) bs"
  shows "xgmii_sendable bw f"
proof -
  let ?E = "(XGMII_ERROR, 1) :: lane"
  have "fst (hd (take n ls @ ?E # rest)) = ETH_PRE"
    using assms(1-3,7) by (cases bs; cases n) (auto simp: xgmii_plain_def ETH_PRE_def)
  moreover have all: "lane_ok l \<and> (snd l \<noteq> 0 \<longrightarrow> fst l \<noteq> XGMII_START \<and> fst l \<noteq> XGMII_TERM)"
    if "l \<in> insert ?E (set ls)" for l
    using that assms(7) by (auto simp: lane_ok_def in_lane_def [of 8 254] xgmii_chars)
  moreover have "set (take n ls @ ?E # rest) \<subseteq> insert ?E (set ls)"
    using assms(6) set_take_subset [of n ls] by auto
  moreover have "take bw (take n ls @ ?E # rest) = take bw ls"
    using assms(3,4,7) by (simp add: min_absorb1)
  moreover have "list_all (\<lambda>l. snd l = 0) (take bw ls)"
    using assms(7) by (auto simp: list_all_iff dest: in_set_takeD)
  moreover have "bw \<le> length (take n ls @ ?E # rest)"
    using assms(3,4,7) by simp
  ultimately show ?thesis
    unfolding xgmii_sendable_def assms(5) sum.case list_all_iff [of _ "take n ls @ ?E # rest"]
    by (metis (no_types, lifting) subsetD)
qed

text \<open>
  C34: an error marker ends the reception.  A frame whose first marked octet is at index
  \<open>n\<close>, after the first word, is delivered cut off after that octet: the octets before it unchanged,
  \<open>XGMII_ERROR\<close> in its place, and only this last octet flagged; the rest of the frame, sent as
  well, does not start a second frame.
\<close>
theorem xgmii_error_truncates:
  assumes "xg_bw cfg \<in> {4, 8}" "xgmii_plain (xg_bw cfg) bs"
    and "length err = length bs" "xg_bw cfg \<le> n" "n < length bs" "\<forall>i < n. err ! i = 0" "err ! n \<noteq> 0"
    and "(length bs + 4 + xg_bw cfg) div xg_bw cfg + 2 * nat (max 0 (xg_ifg cfg) + 3) + 1 \<le> ticks es"
    and "put es = []"
  shows "\<exists>s k. wire_run (xgmii_wire cfg)
      (Put \<lparr>xf_data = bs, xf_error = ErrList err, xf_ctrl = None\<rparr> # es)
      (xgmii_source0 cfg, xgmii_sink0) = Inr (s, k)
    \<and> xk_queue k = [\<lparr>xf_data = take n bs @ [0xFE], xf_error = ErrList (replicate n 0 @ [1]),
                      xf_ctrl = Some (replicate n 0 @ [1])\<rparr>]"
proof -
  let ?f = "\<lparr>xf_data = bs, xf_error = ErrList err, xf_ctrl = None\<rparr>"
  obtain rest where r: "xgmii_build ?f = Inr (take n (map (\<lambda>b. (uint b, 0)) bs) @ (XGMII_ERROR, 1) # rest)"
      "set rest \<subseteq> insert (XGMII_ERROR, 1) (set (map (\<lambda>b. (uint b, 0)) bs))"
      "xgmii_image ?f = \<lparr>xf_data = take n bs @ [0xFE], xf_error = ErrList (replicate n 0 @ [1]),
        xf_ctrl = Some (replicate n 0 @ [1])\<rparr>"
    using error_frame [OF assms(3,5-7)] by metis
  have "xgmii_sendable (xg_bw cfg) ?f"
    by (rule error_frame_sendable [OF assms(1,2,4,5) r(1,2) refl])
  then show ?thesis
    using xgmii.link_delivers [OF xgmii_init [OF assms(1)], of "[Put ?f]" es] assms(8,9) r(3)
    by (auto simp: xgmii_wire_eq xgmii_span_def simp del: wire_run.simps)
qed

theorem xgmii_error_truncates_witness:
  "\<exists>s k. wire_run (xgmii_wire \<lparr>xg_bw = 4, xg_ifg = 12, xg_enable_dic = True, xg_force_offset_start = False\<rparr>)
      (Put \<lparr>xf_data = [0x55, 0x55, 0x55, 0xD5, 1, 2, 3], xf_error = ErrList [0, 0, 0, 0, 0, 1, 0], xf_ctrl = None\<rparr>
        # replicate 60 (Clk True))
      (xgmii_source0 \<lparr>xg_bw = 4, xg_ifg = 12, xg_enable_dic = True, xg_force_offset_start = False\<rparr>, xgmii_sink0)
      = Inr (s, k)
    \<and> xk_queue k = [\<lparr>xf_data = [0x55, 0x55, 0x55, 0xD5, 1, 0xFE],
        xf_error = ErrList [0, 0, 0, 0, 0, 1], xf_ctrl = Some [0, 0, 0, 0, 0, 1]\<rparr>]"
proof -
  let ?cfg = "\<lparr>xg_bw = 4, xg_ifg = 12, xg_enable_dic = True, xg_force_offset_start = False\<rparr>"
  let ?bs = "[0x55, 0x55, 0x55, 0xD5, 1, 2, 3] :: bytes" and ?err = "[0, 0, 0, 0, 0, 1, 0] :: int list"
  have zeros: "\<forall>i < 5. ?err ! i = 0" by (simp add: All_less_Suc eval_nat_numeral)
  have one: "?err ! 5 = 1" by simp
  have cut: "take 5 ?bs @ [0xFE] = [0x55, 0x55, 0x55, 0xD5, 1, 0xFE]"
      "replicate 5 0 @ [1] = [0, 0, 0, 0, 0, 1 :: int]" by (simp_all add: eval_nat_numeral)
  have "xgmii_plain (xg_bw ?cfg) ?bs" by (simp add: xgmii_plain_def)
  from xgmii_error_truncates [of ?cfg ?bs ?err 5 "replicate 60 (Clk True)", OF _ this _ _ _ zeros] one
  show ?thesis unfolding cut by simp
qed

section \<open>The inter-frame gap\<close>

fun src_words ::
    "xgmii_cfg \<Rightarrow> nat \<Rightarrow> xgmii_source \<Rightarrow> ((int \<times> int) list \<times> xgmii_source) result" where
  "src_words cfg 0 s = Inr ([], s)"
| "src_words cfg (Suc n) s =
     bindR (xgmii_source_step cfg False True s) (\<lambda>s.
     bindR (src_words cfg n s) (\<lambda>(ws, s'). Inr (xgmii_out s # ws, s')))"

lemma src_words_add:
  "src_words cfg m s = Inr (ws, s1) \<Longrightarrow> src_words cfg n s1 = Inr (ws', s2) \<Longrightarrow>
    src_words cfg (m + n) s = Inr (ws @ ws', s2)"
  by (induction m arbitrary: s ws) (auto simp: bindR_eq_Inr)

lemma words_append: "0 < bw \<Longrightarrow> length xs = bw * m \<Longrightarrow> words bw (xs @ ys) = words bw xs @ words bw ys"
proof (induction m arbitrary: xs)
  case (Suc m)
  then have "xs \<noteq> []" "length (drop bw xs) = bw * m" by auto
  then show ?case
    using Suc words_Cons [of bw "xs @ ys"] words_Cons [of bw xs] by (simp add: Suc.IH)
qed (simp add: words_def)

lemma words_idle:
  "bw \<in> {4, 8} \<Longrightarrow> words bw (replicate (bw * n) idle_lane) = replicate n (idle_word bw)"
proof (induction n)
  case (Suc n)
  have "words bw (replicate bw idle_lane @ replicate (bw * n) idle_lane) =
      words bw (replicate bw idle_lane) @ words bw (replicate (bw * n) idle_lane)"
    using Suc.prems by (intro words_append [of _ _ 1]) auto
  then show ?case
    using Suc words_Cons [of bw "replicate bw idle_lane"]
    by (auto simp: replicate_add [symmetric] pad_full idle_word_lanes words_def)
qed (simp add: words_def)

text \<open>The idle cycles: the gap counter goes down by the width of the bus.\<close>

lemma idle_words:
  assumes "xg_bw cfg = bw" "bw \<in> {4, 8}" "xs_ifg_cnt s = int r + int (bw * n)" "r < bw"
  shows "\<exists>s'. src_words cfg n s = Inr (replicate n (idle_word bw), s')
    \<and> xs_ifg_cnt s' = int r \<and> xs_dl s' = xs_dl s \<and> xs_queue s' = xs_queue s
    \<and> xs_deficit s' = xs_deficit s"
  using assms(3)
proof (induction n arbitrary: s)
  case (Suc n)
  define s1 where "s1 = put_idle cfg (s\<lparr>xs_ifg_cnt := max (xs_ifg_cnt s - int bw) 0\<rparr>)"
  have "xgmii_source_step cfg False True s = Inr s1"
    using Suc.prems assms(1,2) by (auto simp: xgmii_source_step_def in_gap_def s1_def)
  moreover have "xs_ifg_cnt s1 = int r + int (bw * n)" "xgmii_out s1 = idle_word bw"
      "xs_dl s1 = xs_dl s" "xs_queue s1 = xs_queue s" "xs_deficit s1 = xs_deficit s"
    using Suc.prems assms(1) by (simp_all add: s1_def put_idle_def xgmii_out_def idle_word_def)
  ultimately show ?case using Suc.IH [of s1] by auto
qed simp

text \<open>The word that starts a frame, after an inter-frame gap counted down to less than a word.\<close>

lemma start_word:
  assumes "xg_bw cfg = bw" "bw \<in> {4, 8}" "xg_enable_dic cfg" "\<not> xg_force_offset_start cfg"
    and "xs_ifg_cnt s = int r" "r < bw" "xs_dl s = []" "xs_queue s = f # fs"
    and "xgmii_sendable bw f" "xgmii_build f = Inr ls"
  defines "off \<equiv> (if bw = 8 \<and> 4 \<le> r then 4 else 0)"
  shows "\<exists>s'. src_words cfg 1 s =
      Inr ([hd (words bw (replicate off idle_lane @ frame_lanes ls))], s')
    \<and> xs_queue s' = fs \<and> xs_deficit s' = int r - int off"
proof -
  obtain ls' where "xgmii_build f = Inr ls'" "start_lanes ls' = Inr (frame_lanes ls')"
      "ends_frame (frame_lanes ls')"
    using start_code [of cfg f] assms(1,2,9) by auto
  then have ls: "start_lanes ls = Inr (frame_lanes ls)" "ends_frame (frame_lanes ls)"
    using assms(10) by auto
  define dl where "dl = replicate off idle_lane @ frame_lanes ls"
  define s1 where "s1 = s\<lparr>xs_queue := fs, xs_dl := dl, xs_ifg_cnt := 0, xs_deficit := int r - int off\<rparr>"
  have "offset_start cfg (int r) \<longleftrightarrow> off = 4"
    using assms(1,4) by (auto simp: offset_start_def off_def)
  then have "xgmii_source_step cfg False True s = put_word cfg s1"
    using assms(1-8,10) ls(1)
    by (auto simp: xgmii_source_step_def in_gap_def s1_def dl_def off_def idle_lane_def Let_def)
  moreover have "list_all lane_ok (xs_dl s1)" "xs_dl s1 \<noteq> []"
    using ls(2) by (auto simp: s1_def dl_def ends_frame_def list_all_iff frame_lanes_def set_replicate_conv_if)
  ultimately obtain s' where "xgmii_source_step cfg False True s = Inr s'"
      "xgmii_out s' = lane_word (pad bw (take bw dl))" "xs_queue s' = fs"
      "xs_deficit s' = int r - int off"
    using put_word_eq [of s1 bw cfg "length (xs_dl s1)"] assms(1)
    by (auto simp: s1_def xgmii_out_def)
  moreover have "hd (words bw dl) = lane_word (pad bw (take bw dl))"
    using words_Cons [of bw dl] assms(2) by (auto simp: dl_def frame_lanes_def)
  ultimately show ?thesis by (auto simp: dl_def)
qed

text \<open>The last word of a frame, the idle words after it and the first word of the next frame.\<close>

lemma gap_words:
  assumes "bw \<in> {4, 8}" "dl \<noteq> []" "length dl \<le> bw" "rest \<noteq> []" "N = bw - length dl + bw * n + off"
  shows "take (1 + n + 1) (words bw (dl @ replicate N idle_lane @ rest)) =
    ([lane_word (pad bw dl)] @ replicate n (idle_word bw)) @ [hd (words bw (replicate off idle_lane @ rest))]"
proof -
  have cut: "dl @ replicate N idle_lane @ rest =
      pad bw dl @ replicate (bw * n) idle_lane @ replicate off idle_lane @ rest"
    by (simp add: assms(5) pad_def replicate_add)
  have first: "words bw (pad bw dl @ ys) = lane_word (pad bw dl) # words bw ys" for ys
    using words_Cons [of bw "pad bw dl @ ys"] length_pad [of dl bw] assms(1-3)
    by (auto simp: pad_full) (auto simp: pad_def)
  have mid: "words bw (replicate (bw * n) idle_lane @ ys) = replicate n (idle_word bw) @ words bw ys" for ys
    using words_append [of bw "replicate (bw * n) idle_lane" n ys] words_idle [OF assms(1)] assms(1) by auto
  have "words bw (replicate off idle_lane @ rest) \<noteq> []" using assms(1,4) by (auto simp: words_def)
  then show ?thesis
    unfolding cut first mid by (cases "words bw (replicate off idle_lane @ rest)") simp_all
qed

text \<open>
  the deficit idle count.  From the last word of a frame to the start of the next one
  that is already queued, the source sends \<open>N\<close> idle lanes after the terminate character, where
  \<open>N + 1\<close>, the gap with the terminate character counted in, is the configured gap plus the deficit
  carried over less the deficit left, and the deficit is never more than three octets: the gap is
  never shorter than the configured one by more than three octets, and what one gap loses the
  next ones make up.
\<close>
theorem xgmii_gap_deficit:
  assumes "xg_bw cfg \<in> {4, 8}" "xg_enable_dic cfg" "\<not> xg_force_offset_start cfg"
    and "int (xg_bw cfg) \<le> xg_ifg cfg" "xgmii_inv cfg s"
    and "xs_dl s \<noteq> []" "length (xs_dl s) \<le> xg_bw cfg"
    and "xs_queue s = f # fs" "xgmii_sendable (xg_bw cfg) f"
  shows "\<exists>m N ls s'. xgmii_build f = Inr ls
    \<and> src_words cfg m s =
        Inr (take m (words (xg_bw cfg) (xs_dl s @ replicate N idle_lane @ frame_lanes ls)), s')
    \<and> length (xs_dl s) + N < xg_bw cfg * m \<and> xs_queue s' = fs
    \<and> int N + 1 = xg_ifg cfg + xs_deficit s - xs_deficit s'
    \<and> 0 \<le> xs_deficit s' \<and> xs_deficit s' \<le> 3"
proof -
  define bw where "bw = xg_bw cfg"
  note bw = bw_def [symmetric]
  have b: "bw \<in> {4, 8}" using assms(1) by (simp add: bw)
  obtain ls where ls: "xgmii_build f = Inr ls"
    using assms(9) by (auto simp: xgmii_sendable_def split: sum.splits)
  have inv: "list_all lane_ok (xs_dl s)" "xs_ifg_cnt s = 0" "0 \<le> xs_deficit s" "xs_deficit s \<le> 3"
    using assms(5,6) by (auto simp: xgmii_inv_def ends_frame_def)
  define g where "g = nat (xg_ifg cfg - int (bw + 1 - length (xs_dl s)) + xs_deficit s)"
  have g: "int g = xg_ifg cfg - int (bw + 1 - length (xs_dl s)) + xs_deficit s"
    using assms(4,6,7) inv(3) by (cases "xs_dl s") (auto simp: g_def bw)
  define n r where "n = g div bw" and "r = g mod bw"
  have nr: "int g = int r + int (bw * n)" "r < bw"
    using b by (auto simp: n_def r_def simp flip: of_nat_add of_nat_mult)
  obtain s1 where s1: "src_words cfg 1 s = Inr ([lane_word (pad bw (xs_dl s))], s1)"
      "xs_dl s1 = []" "xs_ifg_cnt s1 = int g" "xs_queue s1 = f # fs"
    using put_word_eq [OF inv(1) assms(6) refl refl, of cfg] assms(6-8) inv(2) g b
    by (auto simp: xgmii_source_step_def in_gap_def xgmii_out_def bw)
  obtain s2 where s2: "src_words cfg n s1 = Inr (replicate n (idle_word bw), s2)"
      "xs_ifg_cnt s2 = int r" "xs_dl s2 = []" "xs_queue s2 = f # fs"
    using idle_words [OF bw b _ nr(2), of s1 n] s1 nr(1) by auto
  define off where "off = (if bw = 8 \<and> 4 \<le> r then 4 else 0 :: nat)"
  have "xgmii_sendable bw f" using assms(9) by (simp add: bw)
  from start_word [OF bw b assms(2,3) s2(2) nr(2) s2(3,4) this ls]
  obtain s3 where s3: "src_words cfg 1 s2 = Inr ([hd (words bw (replicate off idle_lane @ frame_lanes ls))], s3)"
      "xs_queue s3 = fs" "xs_deficit s3 = int r - int off"
    by (auto simp: off_def)
  have run: "src_words cfg (1 + n + 1) s = Inr (([lane_word (pad bw (xs_dl s))] @ replicate n (idle_word bw))
      @ [hd (words bw (replicate off idle_lane @ frame_lanes ls))], s3)"
    by (rule src_words_add [OF src_words_add [OF s1(1) s2(1)] s3(1)])
  define N where "N = bw - length (xs_dl s) + bw * n + off"
  have out: "take (1 + n + 1) (words bw (xs_dl s @ replicate N idle_lane @ frame_lanes ls)) =
      ([lane_word (pad bw (xs_dl s))] @ replicate n (idle_word bw))
        @ [hd (words bw (replicate off idle_lane @ frame_lanes ls))]"
    using assms(6,7) by (intro gap_words [OF b]) (simp_all add: bw N_def frame_lanes_def)
  have len: "length (xs_dl s) + N < bw * (1 + n + 1)"
    using assms(7) b by (auto simp: N_def off_def bw)
  have gap: "int N + 1 = xg_ifg cfg + xs_deficit s - xs_deficit s3"
    using g nr(1) s3(3) assms(7) by (simp add: N_def bw of_nat_diff)
  have small: "0 \<le> xs_deficit s3" "xs_deficit s3 \<le> 3"
    using s3(3) nr(2) b by (auto simp: off_def)
  show ?thesis
    unfolding bw using ls run [folded out] len s3(2) gap small by blast
qed

theorem xgmii_gap_deficit_witness:
  "let cfg = \<lparr>xg_bw = 8, xg_ifg = 12, xg_enable_dic = True, xg_force_offset_start = False\<rparr>;
       f = XGMIIFrame (XBytes (replicate 8 0x55)) ErrNone None;
       s = \<lparr>xs_queue = [f], xs_dl = [(0x11, 0), (XGMII_TERM, 1)], xs_ifg_cnt = 0, xs_deficit = 2,
            xs_txd = 0, xs_txc = 0\<rparr>
   in \<exists>m N ls s'. xgmii_build f = Inr ls
     \<and> src_words cfg m s = Inr (take m (words 8 (xs_dl s @ replicate N idle_lane @ frame_lanes ls)), s')
     \<and> 2 + N < 8 * m \<and> int N + 1 = 14 - xs_deficit s' \<and> 0 \<le> xs_deficit s' \<and> xs_deficit s' \<le> 3"
proof -
  let ?cfg = "\<lparr>xg_bw = 8, xg_ifg = 12, xg_enable_dic = True, xg_force_offset_start = False\<rparr>"
  let ?f = "XGMIIFrame (XBytes (replicate 8 0x55)) ErrNone None"
  let ?s = "\<lparr>xs_queue = [?f], xs_dl = [(0x11, 0), (XGMII_TERM, 1)], xs_ifg_cnt = 0, xs_deficit = 2,
            xs_txd = 0, xs_txc = 0\<rparr>"
  have "xgmii_sendable 8 ?f" by (rule plain_sendable) (simp add: xgmii_plain_def)
  moreover have "xgmii_inv ?cfg ?s"
    by (simp add: xgmii_inv_def ends_frame_def lane_ok_def in_lane_def XGMII_TERM_def)
  ultimately show ?thesis
    using xgmii_gap_deficit [of ?cfg ?s ?f "[]"] by (auto simp: Let_def simp del: replicate.simps)
qed

end
