(* ===== verification/Baser_Codec.thy ===== *)
theory Baser_Codec
  imports Xgmii_Endpoint
begin

text \<open>
  The 64b/66b layer of \<open>lib/eth/tb/baser_serdes_ep.py\<close>: the block encoder and decoder of
  10GBASE-R, the self-synchronising scrambler with the polynomial \<open>1 + x^39 + x^58\<close>, and
  the bit reversal.  A block is eight XGMII lanes, encoded as a two-bit sync header and 64 bits
  of data; the first octet of a control block is its type, and control characters travel
  as seven-bit codes.
\<close>

section \<open>Constants\<close>

text \<open>The XGMII characters repeated in this module are those of \<open>xgmii_ep.py\<close>.\<close>

definition CTRL_IDLE :: int where "CTRL_IDLE = 0x00"
definition CTRL_LPI :: int where "CTRL_LPI = 0x06"
definition CTRL_ERROR :: int where "CTRL_ERROR = 0x1e"
definition CTRL_RES_0 :: int where "CTRL_RES_0 = 0x2d"
definition CTRL_RES_1 :: int where "CTRL_RES_1 = 0x33"
definition CTRL_RES_2 :: int where "CTRL_RES_2 = 0x4b"
definition CTRL_RES_3 :: int where "CTRL_RES_3 = 0x55"
definition CTRL_RES_4 :: int where "CTRL_RES_4 = 0x66"
definition CTRL_RES_5 :: int where "CTRL_RES_5 = 0x78"
definition O_SEQ_OS :: int where "O_SEQ_OS = 0x0"
definition O_SIG_OS :: int where "O_SIG_OS = 0xf"
definition SYNC_DATA :: int where "SYNC_DATA = 2"
definition SYNC_CTRL :: int where "SYNC_CTRL = 1"
definition BLOCK_TYPE_CTRL :: int where "BLOCK_TYPE_CTRL = 0x1e"
definition BLOCK_TYPE_OS_4 :: int where "BLOCK_TYPE_OS_4 = 0x2d"
definition BLOCK_TYPE_START_4 :: int where "BLOCK_TYPE_START_4 = 0x33"
definition BLOCK_TYPE_OS_START :: int where "BLOCK_TYPE_OS_START = 0x66"
definition BLOCK_TYPE_OS_04 :: int where "BLOCK_TYPE_OS_04 = 0x55"
definition BLOCK_TYPE_START_0 :: int where "BLOCK_TYPE_START_0 = 0x78"
definition BLOCK_TYPE_OS_0 :: int where "BLOCK_TYPE_OS_0 = 0x4b"
definition BLOCK_TYPE_TERM_0 :: int where "BLOCK_TYPE_TERM_0 = 0x87"
definition BLOCK_TYPE_TERM_1 :: int where "BLOCK_TYPE_TERM_1 = 0x99"
definition BLOCK_TYPE_TERM_2 :: int where "BLOCK_TYPE_TERM_2 = 0xaa"
definition BLOCK_TYPE_TERM_3 :: int where "BLOCK_TYPE_TERM_3 = 0xb4"
definition BLOCK_TYPE_TERM_4 :: int where "BLOCK_TYPE_TERM_4 = 0xcc"
definition BLOCK_TYPE_TERM_5 :: int where "BLOCK_TYPE_TERM_5 = 0xd2"
definition BLOCK_TYPE_TERM_6 :: int where "BLOCK_TYPE_TERM_6 = 0xe1"
definition BLOCK_TYPE_TERM_7 :: int where "BLOCK_TYPE_TERM_7 = 0xff"

lemmas ctrl_codes =
  CTRL_IDLE_def CTRL_LPI_def CTRL_ERROR_def CTRL_RES_0_def CTRL_RES_1_def CTRL_RES_2_def
  CTRL_RES_3_def CTRL_RES_4_def CTRL_RES_5_def O_SEQ_OS_def O_SIG_OS_def

lemmas block_types =
  SYNC_DATA_def SYNC_CTRL_def
  BLOCK_TYPE_CTRL_def BLOCK_TYPE_OS_4_def BLOCK_TYPE_START_4_def BLOCK_TYPE_OS_START_def
  BLOCK_TYPE_OS_04_def BLOCK_TYPE_START_0_def BLOCK_TYPE_OS_0_def BLOCK_TYPE_TERM_0_def
  BLOCK_TYPE_TERM_1_def BLOCK_TYPE_TERM_2_def BLOCK_TYPE_TERM_3_def BLOCK_TYPE_TERM_4_def
  BLOCK_TYPE_TERM_5_def BLOCK_TYPE_TERM_6_def BLOCK_TYPE_TERM_7_def

definition block_type_term_lane :: "int \<Rightarrow> nat option" where
  "block_type_term_lane bt =
     (if bt = BLOCK_TYPE_TERM_0 then Some 0
      else if bt = BLOCK_TYPE_TERM_1 then Some 1
      else if bt = BLOCK_TYPE_TERM_2 then Some 2
      else if bt = BLOCK_TYPE_TERM_3 then Some 3
      else if bt = BLOCK_TYPE_TERM_4 then Some 4
      else if bt = BLOCK_TYPE_TERM_5 then Some 5
      else if bt = BLOCK_TYPE_TERM_6 then Some 6
      else if bt = BLOCK_TYPE_TERM_7 then Some 7
      else None)"

section \<open>Encoding\<close>

definition ctrl_code :: "lane \<Rightarrow> int" where
  "ctrl_code l =
     (case l of (x, c) \<Rightarrow>
      if c = 0 then CTRL_ERROR
      else if x = XGMII_IDLE then CTRL_IDLE
      else if x = XGMII_LPI then CTRL_LPI
      else if x = XGMII_ERROR then CTRL_ERROR
      else if x = XGMII_RES0 then CTRL_RES_0
      else if x = XGMII_RES1 then CTRL_RES_1
      else if x = XGMII_RES2 then CTRL_RES_2
      else if x = XGMII_RES3 then CTRL_RES_3
      else if x = XGMII_RES4 then CTRL_RES_4
      else if x = XGMII_RES5 then CTRL_RES_5
      else CTRL_ERROR)"

fun ctrl_loop :: "lane list \<Rightarrow> nat \<Rightarrow> int \<Rightarrow> int" where
  "ctrl_loop [] i ctrl = ctrl"
| "ctrl_loop (l # ls) i ctrl = ctrl_loop ls (i + 1) (ctrl OR shl (ctrl_code l) (i * 7))"

fun octet_loop :: "lane list \<Rightarrow> nat \<Rightarrow> int \<Rightarrow> int" where
  \<comment> \<open>\<open>d |= di[i] << i*8\<close> for the octets of the lanes, the first one at octet \<open>i\<close>\<close>
  "octet_loop [] i d = d"
| "octet_loop (l # ls) i d = octet_loop ls (i + 1) (d OR shl (fst l) (i * 8))"

definition any_ctrl :: "lane list \<Rightarrow> bool" where
  "any_ctrl ls \<longleftrightarrow> list_ex (\<lambda>l. snd l \<noteq> 0) ls"

definition ordered_set :: "lane \<Rightarrow> bool" where
  "ordered_set l \<longleftrightarrow> snd l \<noteq> 0 \<and> (fst l = XGMII_SEQ_OS \<or> fst l = XGMII_SIG_OS)"

definition term_at :: "nat \<Rightarrow> lane list \<Rightarrow> bool" where
  \<comment> \<open>\<open>ci[k] and di[k] == XGMII_TERM and not any(ci[0:k])\<close>\<close>
  "term_at k ls \<longleftrightarrow> snd (ls ! k) \<noteq> 0 \<and> fst (ls ! k) = XGMII_TERM \<and> \<not> any_ctrl (take k ls)"

definition baser_encode :: "lane list \<Rightarrow> int \<times> int" where
  "baser_encode ls =
     (let ctrl = ctrl_loop ls 0 0;
          sig = (\<lambda>k n d. if fst (ls ! k) = XGMII_SIG_OS then d OR shl O_SIG_OS n else d)
      in
      if \<not> any_ctrl ls then (SYNC_DATA, octet_loop ls 0 0)
      else (SYNC_CTRL,
        if snd (ls ! 0) \<noteq> 0 \<and> fst (ls ! 0) = XGMII_START \<and> \<not> any_ctrl (drop 1 ls) then
          octet_loop (drop 1 ls) 1 BLOCK_TYPE_START_0
        else if snd (ls ! 4) \<noteq> 0 \<and> fst (ls ! 4) = XGMII_START \<and> \<not> any_ctrl (drop 5 ls) then
          octet_loop (drop 5 ls) 5
            (if ordered_set (ls ! 0) \<and> \<not> any_ctrl (take 3 (drop 1 ls)) then
               sig 0 32 (octet_loop (take 3 (drop 1 ls)) 1 BLOCK_TYPE_OS_START)
             else BLOCK_TYPE_START_4 OR shl (ctrl AND 0xfffffff) 8)
        else if ordered_set (ls ! 0) \<and> \<not> any_ctrl (take 3 (drop 1 ls)) then
          sig 0 32 (octet_loop (take 3 (drop 1 ls)) 1
            (if ordered_set (ls ! 4) \<and> \<not> any_ctrl (drop 5 ls) then
               sig 4 36 (octet_loop (drop 5 ls) 5 BLOCK_TYPE_OS_04)
             else BLOCK_TYPE_OS_0 OR shl (ctrl AND 0xfffffff) 40))
        else if ordered_set (ls ! 4) \<and> \<not> any_ctrl (drop 5 ls) then
          sig 4 36 (octet_loop (drop 5 ls) 5 (BLOCK_TYPE_OS_4 OR shl (ctrl AND 0xfffffff) 8))
        else if term_at 0 ls then BLOCK_TYPE_TERM_0 OR shl (ctrl AND 0xffffffffffff80) 8
        else if term_at 1 ls then
          BLOCK_TYPE_TERM_1 OR shl (ctrl AND 0xffffffffffc000) 8 OR shl (fst (ls ! 0)) 8
        else if term_at 2 ls then
          octet_loop (take 2 ls) 1 (BLOCK_TYPE_TERM_2 OR shl (ctrl AND 0xffffffffe00000) 8)
        else if term_at 3 ls then
          octet_loop (take 3 ls) 1 (BLOCK_TYPE_TERM_3 OR shl (ctrl AND 0xfffffff0000000) 8)
        else if term_at 4 ls then
          octet_loop (take 4 ls) 1 (BLOCK_TYPE_TERM_4 OR shl (ctrl AND 0xfffff800000000) 8)
        else if term_at 5 ls then
          octet_loop (take 5 ls) 1 (BLOCK_TYPE_TERM_5 OR shl (ctrl AND 0xfffc0000000000) 8)
        else if term_at 6 ls then
          octet_loop (take 6 ls) 1 (BLOCK_TYPE_TERM_6 OR shl (ctrl AND 0xfe000000000000) 8)
        else if term_at 7 ls then octet_loop (take 7 ls) 1 BLOCK_TYPE_TERM_7
        else BLOCK_TYPE_CTRL OR shl ctrl 8))"

section \<open>Decoding\<close>

definition ctrl_char :: "int \<Rightarrow> int" where
  "ctrl_char code =
     (if code = CTRL_IDLE then XGMII_IDLE
      else if code = CTRL_LPI then XGMII_LPI
      else if code = CTRL_ERROR then XGMII_ERROR
      else if code = CTRL_RES_0 then XGMII_RES0
      else if code = CTRL_RES_1 then XGMII_RES1
      else if code = CTRL_RES_2 then XGMII_RES2
      else if code = CTRL_RES_3 then XGMII_RES3
      else if code = CTRL_RES_4 then XGMII_RES4
      else if code = CTRL_RES_5 then XGMII_RES5
      else XGMII_ERROR)"

definition ctrl_lanes :: "int \<Rightarrow> nat \<Rightarrow> nat \<Rightarrow> lane list" where
  \<comment> \<open>\<open>ctrl[a:b]\<close>, with control bits\<close>
  "ctrl_lanes data a b = map (\<lambda>i. (ctrl_char (shr data (i * 7 + 8) AND 0x7f), 1)) [a..<b]"

definition octet_lanes :: "int \<Rightarrow> nat \<Rightarrow> nat \<Rightarrow> lane list" where
  \<comment> \<open>\<open>for k in range(a, b): dl.append((data >> (k+1)*8) & 0xff)\<close>\<close>
  "octet_lanes data a b = map (\<lambda>k. (shr data ((k + 1) * 8) AND 0xff, 0)) [a..<b]"

definition os_lane :: "int \<Rightarrow> lane" where
  "os_lane code =
     (if code = O_SEQ_OS then XGMII_SEQ_OS
      else if code = O_SIG_OS then XGMII_SIG_OS
      else XGMII_ERROR, 1)"

definition os_lane_0 :: "int \<Rightarrow> lane" where
  \<comment> \<open>the same in the branch of \<open>BLOCK_TYPE_OS_0\<close>, where both codes give \<open>XGMII_SEQ_OS\<close>\<close>
  "os_lane_0 code =
     (if code = O_SEQ_OS then XGMII_SEQ_OS
      else if code = O_SIG_OS then XGMII_SEQ_OS
      else XGMII_ERROR, 1)"

definition baser_decode :: "int \<times> int \<Rightarrow> lane list" where
  "baser_decode w =
     (case w of (header, data) \<Rightarrow>
      let bt = data AND 0xff; start = (XGMII_START, 1)
      in
      if header = SYNC_DATA then map (\<lambda>k. (shr data (k * 8) AND 0xff, 0)) [0..<8]
      else if header = SYNC_CTRL then
        (if bt = BLOCK_TYPE_CTRL then ctrl_lanes data 0 8
         else if bt = BLOCK_TYPE_OS_4 then
           ctrl_lanes data 0 4 @ os_lane (shr data 36 AND 0xf) # octet_lanes data 4 7
         else if bt = BLOCK_TYPE_START_4 then
           ctrl_lanes data 0 4 @ start # octet_lanes data 4 7
         else if bt = BLOCK_TYPE_OS_START then
           os_lane (shr data 32 AND 0xf) # octet_lanes data 0 3 @ start # octet_lanes data 4 7
         else if bt = BLOCK_TYPE_OS_04 then
           os_lane (shr data 32 AND 0xf) # octet_lanes data 0 3
             @ os_lane (shr data 36 AND 0xf) # octet_lanes data 4 7
         else if bt = BLOCK_TYPE_START_0 then start # octet_lanes data 0 7
         else if bt = BLOCK_TYPE_OS_0 then
           os_lane_0 (shr data 32 AND 0xf) # octet_lanes data 0 3 @ ctrl_lanes data 4 8
         else case block_type_term_lane bt of
             Some k \<Rightarrow> octet_lanes data 0 k @ (XGMII_TERM, 1) # ctrl_lanes data (k + 1) 8
           | None \<Rightarrow> replicate 8 (XGMII_ERROR, 1))
      else replicate 8 (XGMII_ERROR, 1))"

section \<open>Scrambler\<close>

fun scramble_loop :: "nat \<Rightarrow> nat \<Rightarrow> int \<Rightarrow> int \<Rightarrow> int \<Rightarrow> int \<times> int" where
  \<comment> \<open>\<open>n\<close> bits to go from bit \<open>i\<close> on: the scrambler state and \<open>b\<close>\<close>
  "scramble_loop 0 i data state b = (state, b)"
| "scramble_loop (Suc n) i data state b =
     (if (state AND shl 1 38 \<noteq> 0) \<noteq> ((state AND shl 1 57 \<noteq> 0) \<noteq> (data AND shl 1 i \<noteq> 0))
      then scramble_loop n (i + 1) data (shl (state AND 0x1ffffffffffffff) 1 OR 1) (b OR shl 1 i)
      else scramble_loop n (i + 1) data (shl (state AND 0x1ffffffffffffff) 1) b)"

definition baser_scramble :: "int \<Rightarrow> int \<Rightarrow> int \<times> int" where
  "baser_scramble state data = scramble_loop 64 0 data state 0"

fun descramble_loop :: "nat \<Rightarrow> nat \<Rightarrow> int \<Rightarrow> int \<Rightarrow> int \<Rightarrow> int \<times> int" where
  "descramble_loop 0 i data state b = (state, b)"
| "descramble_loop (Suc n) i data state b =
     descramble_loop n (i + 1) data
       (shl (state AND 0x1ffffffffffffff) 1 OR of_bool (data AND shl 1 i \<noteq> 0))
       (if (state AND shl 1 38 \<noteq> 0) \<noteq> ((state AND shl 1 57 \<noteq> 0) \<noteq> (data AND shl 1 i \<noteq> 0))
        then b OR shl 1 i else b)"

definition baser_descramble :: "int \<Rightarrow> int \<Rightarrow> int \<times> int" where
  "baser_descramble state data = descramble_loop 64 0 data state 0"

definition reverse_bits :: "nat \<Rightarrow> int \<Rightarrow> int" where
  \<comment> \<open>\<open>sum(1 << (n-1-i) for i in range(n) if (data >> i) & 1)\<close>\<close>
  "reverse_bits n data =
     sum_list (map (\<lambda>i. shl 1 (n - 1 - i)) (filter (\<lambda>i. shr data i AND 1 \<noteq> 0) [0..<n]))"

section \<open>The scrambler on bits\<close>

text \<open>
  Both loops shift one bit per step into a register of 58 bits; the register of the scrambler
  holds its output, that of the descrambler its input, so the two agree as soon as they have
  seen the same 58 bits.
\<close>

definition tap :: "int \<Rightarrow> bool \<Rightarrow> bool" where
  "tap s x \<longleftrightarrow> (bit s 38 \<noteq> (bit s 57 \<noteq> x))"

definition shift_in :: "int \<Rightarrow> bool \<Rightarrow> int" where
  "shift_in s x = of_bool x + 2 * take_bit 57 s"

fun scr :: "int \<Rightarrow> bool list \<Rightarrow> int \<times> bool list" where
  "scr s [] = (s, [])"
| "scr s (x # xs) = (case scr (shift_in s (tap s x)) xs of (s', r) \<Rightarrow> (s', tap s x # r))"

fun descr :: "int \<Rightarrow> bool list \<Rightarrow> int \<times> bool list" where
  "descr s [] = (s, [])"
| "descr s (x # xs) = (case descr (shift_in s x) xs of (s', r) \<Rightarrow> (s', tap s x # r))"

lemma tap_tap [simp]: "tap s (tap s x) = x"
  by (auto simp: tap_def)

lemma descr_scr: "descr s (snd (scr s xs)) = (fst (scr s xs), xs)"
  by (induction s xs rule: scr.induct) (auto split: prod.splits)

lemma length_scr [simp]: "length (snd (scr s xs)) = length xs"
  by (induction s xs rule: scr.induct) (auto split: prod.splits)

lemma length_descr [simp]: "length (snd (descr s xs)) = length xs"
  by (induction s xs rule: descr.induct) (auto split: prod.splits)

lemma take_bit_shift_in: "k \<le> 57 \<Longrightarrow> take_bit (Suc k) (shift_in s x) = of_bool x + 2 * take_bit k s"
proof -
  assume "k \<le> 57"
  have "take_bit (Suc k) (shift_in s x) = shift_in s x mod 2 + 2 * take_bit k (shift_in s x div 2)"
    by (simp add: take_bit_Suc)
  moreover have "shift_in s x div 2 = take_bit 57 s" "shift_in s x mod 2 = of_bool x"
    by (simp_all add: shift_in_def)
  ultimately show ?thesis using \<open>k \<le> 57\<close> by (simp add: min_def)
qed

lemma descr_synchronises:
  "take_bit k s = take_bit k t \<Longrightarrow> k \<le> 58 \<Longrightarrow>
    take_bit (min 58 (k + length xs)) (fst (descr s xs)) = take_bit (min 58 (k + length xs)) (fst (descr t xs))"
proof (induction xs arbitrary: s t k)
  case (Cons x xs)
  have "take_bit (min 58 (Suc k)) (shift_in s x) = take_bit (min 58 (Suc k)) (shift_in t x)"
  proof (cases "k \<le> 57")
    case True
    then have "take_bit (Suc k) (shift_in s x) = take_bit (Suc k) (shift_in t x)"
      using Cons.prems by (simp add: take_bit_shift_in)
    moreover have "min 58 (Suc k) = Suc k" using True by simp
    ultimately show ?thesis by simp
  next
    case False
    then have "take_bit 57 s = take_bit 57 t"
      using Cons.prems by (metis le_less_linear less_imp_le min.absorb1 nat_le_linear take_bit_take_bit)
    then show ?thesis by (simp add: shift_in_def)
  qed
  then have "take_bit (min 58 (min 58 (Suc k) + length xs)) (fst (descr (shift_in s x) xs)) =
      take_bit (min 58 (min 58 (Suc k) + length xs)) (fst (descr (shift_in t x) xs))"
    by (intro Cons.IH) simp_all
  moreover have "min 58 (min 58 (Suc k) + length xs) = min 58 (k + length (x # xs))" by simp
  ultimately show ?case by (simp add: split_beta)
qed simp

lemma shift_in_range: "take_bit 58 (shift_in s x) = shift_in s x"
  using take_bit_shift_in [of 57 s x] by (simp add: shift_in_def)

lemma descr_range: "xs \<noteq> [] \<Longrightarrow> take_bit 58 (fst (descr s xs)) = fst (descr s xs)"
proof (induction s xs rule: descr.induct)
  case (2 s x xs)
  then show ?case using shift_in_range [of s x] by (cases xs) (simp_all add: split_beta)
qed simp

lemma descr_forgets:
  assumes "58 \<le> length xs"
  shows "fst (descr s xs) = fst (descr t xs)"
proof -
  have "take_bit 58 (fst (descr s xs)) = take_bit 58 (fst (descr t xs))"
    using descr_synchronises [of 0 s t xs] assms by simp
  moreover have "xs \<noteq> []" using assms by auto
  ultimately show ?thesis by (simp add: descr_range)
qed

section \<open>The loops compute it\<close>

abbreviation bits_int :: "bool list \<Rightarrow> int" where
  "bits_int \<equiv> horner_sum of_bool 2"

definition word_bits :: "nat \<Rightarrow> int \<Rightarrow> bool list" where
  "word_bits n x = map (bit x) [0..<n]"

lemma test_bit: "(x :: int) AND shl 1 n \<noteq> 0 \<longleftrightarrow> bit x n"
proof
  assume "x AND shl 1 n \<noteq> 0"
  then show "bit x n"
    by (metis and_exp_eq_0_iff_not_bit push_bit_of_1)
next
  assume "bit x n"
  then show "x AND shl 1 n \<noteq> 0"
    by (metis and_exp_eq_0_iff_not_bit push_bit_of_1)
qed

lemma shift_in_code:
  "shl (s AND 0x1ffffffffffffff) 1 OR of_bool x = shift_in s x"
proof -
  have "s AND 0x1ffffffffffffff = take_bit 57 s"
    using and_mask_int [of s 57] by (simp add: take_bit_eq_mod)
  moreover have "shl (take_bit 57 s) 1 OR of_bool x = take_bit 57 s * 2 ^ 1 + of_bool x"
    by (rule or_field) auto
  ultimately show ?thesis by (simp add: shift_in_def mult.commute)
qed

lemma bits_int_bound: "0 \<le> bits_int bs" "bits_int bs < 2 ^ length bs"
proof -
  have "bits_int bs = take_bit (length bs) (bits_int bs)"
    by (intro bit_eqI) (auto simp: bit_take_bit_iff bit_horner_sum_bit_iff)
  then show "0 \<le> bits_int bs" "bits_int bs < 2 ^ length bs"
    by (metis take_bit_nonnegative, metis take_bit_int_less_exp)
qed

lemma or_next_bit:
  "bits_int bs OR shl (of_bool x) (length bs) = bits_int (bs @ [x])"
  using or_lane [OF bits_int_bound, of bs "of_bool x"] by (simp add: horner_sum_append mult.commute)

lemma scramble_loop_bits:
  "scramble_loop n i data s (bits_int bs) =
    (fst (scr s (map (bit data) [i..<i + n])), bits_int (bs @ snd (scr s (map (bit data) [i..<i + n]))))"
  if "length bs = i"
  using that
proof (induction n arbitrary: i s bs)
  case (Suc n)
  have upt: "[i..<i + Suc n] = i # [Suc i..<Suc i + n]" by (simp add: upt_rec)
  let ?x = "tap s (bit data i)"
  have "scramble_loop (Suc n) i data s (bits_int bs) =
      scramble_loop n (i + 1) data (shift_in s ?x) (bits_int (bs @ [?x]))"
  proof (cases ?x)
    case True
    then have "(bit s 38 \<noteq> (bit s 57 \<noteq> bit data i))" by (simp add: tap_def)
    moreover have "shl (s AND 0x1ffffffffffffff) 1 OR 1 = shift_in s True"
      using shift_in_code [of s True] by (simp only: of_bool_eq)
    moreover have "bits_int bs OR shl 1 i = bits_int (bs @ [True])"
      using or_next_bit [of bs True] Suc.prems by (simp only: of_bool_eq)
    ultimately show ?thesis using True by (simp only: scramble_loop.simps test_bit if_True not_False_eq_True)
  next
    case False
    then have "\<not> (bit s 38 \<noteq> (bit s 57 \<noteq> bit data i))" by (simp add: tap_def)
    moreover have "shl (s AND 0x1ffffffffffffff) 1 = shift_in s False"
      using shift_in_code [of s False] by (simp only: of_bool_eq or.right_neutral)
    moreover have "bits_int bs = bits_int (bs @ [False])"
      by (simp add: horner_sum_append)
    ultimately show ?thesis using False by (simp only: scramble_loop.simps test_bit if_False not_True_eq_False)
  qed
  also have "\<dots> = (fst (scr s (map (bit data) [i..<i + Suc n])),
      bits_int (bs @ snd (scr s (map (bit data) [i..<i + Suc n]))))"
    using Suc.IH [of "bs @ [?x]" "i + 1" "shift_in s ?x"] Suc.prems unfolding upt
    by (simp add: split_beta)
  finally show ?case .
qed simp

lemma descramble_loop_bits:
  "descramble_loop n i data s (bits_int bs) =
    (fst (descr s (map (bit data) [i..<i + n])), bits_int (bs @ snd (descr s (map (bit data) [i..<i + n]))))"
  if "length bs = i"
  using that
proof (induction n arbitrary: i s bs)
  case (Suc n)
  have upt: "[i..<i + Suc n] = i # [Suc i..<Suc i + n]" by (simp add: upt_rec)
  let ?x = "tap s (bit data i)"
  have out: "(if bit s 38 \<noteq> (bit s 57 \<noteq> bit data i) then bits_int bs OR shl 1 i else bits_int bs) =
      bits_int (bs @ [?x])"
    using or_next_bit [of bs True] or_next_bit [of bs False] Suc.prems
    by (auto simp: tap_def horner_sum_append)
  have "descramble_loop (Suc n) i data s (bits_int bs) =
      descramble_loop n (i + 1) data (shift_in s (bit data i)) (bits_int (bs @ [?x]))"
    by (simp only: descramble_loop.simps test_bit shift_in_code out)
  also have "\<dots> = (fst (descr s (map (bit data) [i..<i + Suc n])),
      bits_int (bs @ snd (descr s (map (bit data) [i..<i + Suc n]))))"
    using Suc.IH [of "bs @ [?x]" "i + 1" "shift_in s (bit data i)"] Suc.prems unfolding upt
    by (simp add: split_beta)
  finally show ?case .
qed simp

lemma baser_scramble_bits:
  "baser_scramble s d = (fst (scr s (word_bits 64 d)), bits_int (snd (scr s (word_bits 64 d))))"
  using scramble_loop_bits [of "[]" 0 64 d s] by (simp add: baser_scramble_def word_bits_def)

lemma baser_descramble_bits:
  "baser_descramble s d = (fst (descr s (word_bits 64 d)), bits_int (snd (descr s (word_bits 64 d))))"
  using descramble_loop_bits [of "[]" 0 64 d s] by (simp add: baser_descramble_def word_bits_def)

lemma word_bits_int: "length bs = n \<Longrightarrow> word_bits n (bits_int bs) = bs"
  by (intro nth_equalityI) (auto simp: word_bits_def bit_horner_sum_bit_iff)

lemma bits_int_word: "0 \<le> d \<Longrightarrow> d < 2 ^ n \<Longrightarrow> bits_int (word_bits n d) = d"
  unfolding word_bits_def by (simp add: horner_sum_bit_eq_take_bit take_bit_int_eq_self)

lemma length_word_bits [simp]: "length (word_bits n d) = n"
  by (simp add: word_bits_def)

text \<open>With equal registers, descrambling inverts scrambling and the registers stay equal.\<close>

lemma descramble_scramble:
  assumes "0 \<le> d" "d < 2 ^ 64"
  shows "baser_descramble s (snd (baser_scramble s d)) = (fst (baser_scramble s d), d)"
  using descr_scr [of s "word_bits 64 d"] assms
  by (simp add: baser_scramble_bits baser_descramble_bits word_bits_int bits_int_word)

lemma scramble_range: "0 \<le> snd (baser_scramble s d)" "snd (baser_scramble s d) < 2 ^ 64"
  using bits_int_bound [of "snd (scr s (word_bits 64 d))"] by (simp_all add: baser_scramble_bits)

text \<open>Whatever the register of the descrambler, one block brings it to that of the scrambler.\<close>

lemma descramble_locks:
  "fst (baser_descramble t (snd (baser_scramble s d))) = fst (baser_scramble s d)"
proof -
  let ?r = "snd (scr s (word_bits 64 d))"
  have "fst (descr t ?r) = fst (descr s ?r)" by (rule descr_forgets) simp
  then show ?thesis
    using descr_scr [of s "word_bits 64 d"]
    by (simp add: baser_scramble_bits baser_descramble_bits word_bits_int)
qed

fun scramble_blocks :: "int \<Rightarrow> int list \<Rightarrow> int list" where
  "scramble_blocks s [] = []"
| "scramble_blocks s (d # ds) = (case baser_scramble s d of (s, w) \<Rightarrow> w # scramble_blocks s ds)"

fun descramble_blocks :: "int \<Rightarrow> int list \<Rightarrow> int list" where
  "descramble_blocks s [] = []"
| "descramble_blocks s (w # ws) = (case baser_descramble s w of (s, d) \<Rightarrow> d # descramble_blocks s ws)"

lemma descramble_scramble_blocks:
  "\<forall>d \<in> set ds. 0 \<le> d \<and> d < 2 ^ 64 \<Longrightarrow> descramble_blocks s (scramble_blocks s ds) = ds"
proof (induction ds arbitrary: s)
  case (Cons d ds)
  then show ?case
    using descramble_scramble [of d s] by (simp add: split_beta del: one_add_one)
qed simp

text \<open>
  C28: the scrambler is self-synchronising.  The descrambler recovers every block of a
  scrambled stream but the first, whatever its own register held when the stream started; when the
  registers agree at the start it recovers the first block as well.
\<close>
theorem scrambler_self_synchronises:
  assumes "\<forall>x \<in> set (d # ds). 0 \<le> x \<and> x < 2 ^ 64"
  shows "tl (descramble_blocks t (scramble_blocks s (d # ds))) = ds
    \<and> descramble_blocks s (scramble_blocks s (d # ds)) = d # ds"
proof
  have "tl (descramble_blocks t (scramble_blocks s (d # ds))) =
      descramble_blocks (fst (baser_scramble s d)) (scramble_blocks (fst (baser_scramble s d)) ds)"
    using descramble_locks [of t s d] by (simp add: split_beta)
  also have "\<dots> = ds" using assms by (intro descramble_scramble_blocks) simp
  finally show "tl (descramble_blocks t (scramble_blocks s (d # ds))) = ds" .
  show "descramble_blocks s (scramble_blocks s (d # ds)) = d # ds"
    by (rule descramble_scramble_blocks [OF assms])
qed

theorem scrambler_self_synchronises_witness:
  "tl (descramble_blocks 0x2a5 (scramble_blocks 1 [0x1e, 0x0123456789abcdef, 0x5555555555555578])) =
    [0x0123456789abcdef, 0x5555555555555578]"
  using scrambler_self_synchronises [of "0x1e" "[0x0123456789abcdef, 0x5555555555555578]" "0x2a5" 1]
  by simp

section \<open>Bit reversal\<close>

lemma reverse_bits_eq: "reverse_bits n x = bits_int (rev (word_bits n x))"
proof -
  have b: "shr x i AND 1 \<noteq> 0 \<longleftrightarrow> bit x i" for i
    by (simp add: bit_iff_odd_drop_bit and_one_eq odd_iff_mod_2_eq_one)
  have "reverse_bits n x = (\<Sum>i\<leftarrow>[0..<n]. of_bool (bit x i) * 2 ^ (n - 1 - i))"
    unfolding reverse_bits_def b
    by (induction "[0..<n]") (auto simp: sum_list_map_filter' intro!: arg_cong [of _ _ sum_list] map_cong)
  also have "\<dots> = (\<Sum>i<n. of_bool (bit x i) * 2 ^ (n - 1 - i))"
    by (simp add: interv_sum_list_conv_sum_set_nat atLeast0LessThan)
  also have "\<dots> = (\<Sum>i<n. of_bool (bit x (n - 1 - i)) * 2 ^ i)"
    by (subst sum.nat_diff_reindex [symmetric]) (auto intro!: sum.cong)
  also have "\<dots> = bits_int (rev (word_bits n x))"
    by (auto simp: horner_sum_eq_sum rev_nth word_bits_def intro!: sum.cong)
  finally show ?thesis .
qed

lemma reverse_reverse_bits: "0 \<le> x \<Longrightarrow> x < 2 ^ n \<Longrightarrow> reverse_bits n (reverse_bits n x) = x"
  by (simp add: reverse_bits_eq word_bits_int bits_int_word)

lemma reverse_bits_range: "0 \<le> reverse_bits n x" "reverse_bits n x < 2 ^ n"
  using bits_int_bound [of "rev (word_bits n x)"] by (simp_all add: reverse_bits_eq)

section \<open>Fields of a block\<close>

definition field :: "nat \<Rightarrow> nat \<Rightarrow> int \<Rightarrow> int" where
  "field w i x = x div 2 ^ i mod 2 ^ w"

lemma field_masks:
  "shr x i AND 0xff = field 8 i x" "shr x i AND 0x7f = field 7 i x" "shr x i AND 0xf = field 4 i x"
  by (simp_all add: field_def and_masks shr_arith)

lemma field_type: "x AND 0xff = field 8 0 x"
  by (simp add: field_def and_masks)

lemma field_high:
  assumes "0 \<le> a" "a < 2 ^ n" "n \<le> i"
  shows "field w i (a + 2 ^ n * h) = field w (i - n) h"
proof -
  have "(2 :: int) ^ i = 2 ^ n * 2 ^ (i - n)" using assms(3) by (simp flip: power_add)
  then have "(a + 2 ^ n * h) div 2 ^ i = (a + 2 ^ n * h) div (2 ^ n * 2 ^ (i - n))" by (simp only:)
  also have "\<dots> = (a + 2 ^ n * h) div 2 ^ n div 2 ^ (i - n)" by (rule zdiv_zmult2_eq) simp
  also have "(a + 2 ^ n * h) div 2 ^ n = h" using assms(1,2) by simp
  finally show ?thesis by (simp add: field_def)
qed

lemma field_low:
  assumes "i + w \<le> n"
  shows "field w i (a + 2 ^ n * h) = field w i a"
proof -
  obtain m where n: "n = i + (w + m)" using assms by (metis add.assoc le_Suc_ex)
  have "(a + 2 ^ n * h) div 2 ^ i = a div 2 ^ i + 2 ^ w * (2 ^ m * h)"
    by (simp add: n power_add mult.assoc)
  then show ?thesis by (simp add: field_def)
qed

lemma field_id: "0 \<le> x \<Longrightarrow> x < 2 ^ w \<Longrightarrow> field w 0 x = x"
  by (simp add: field_def)

lemma field_lanes:
  assumes "list_all (in_lane w) xs" "j < length xs"
  shows "field w (j * w) (lanes_val w xs + 2 ^ (w * length xs) * h) = xs ! j"
proof -
  have "Suc j * w \<le> length xs * w" using assms(2) by (intro mult_le_mono1) simp
  then have "j * w + w \<le> w * length xs" by (simp add: mult.commute add.commute)
  then show ?thesis using lanes_val_digit [OF assms] by (simp only: field_low) (simp add: field_def)
qed

text \<open>Octets and control codes read back from where they were put.\<close>

definition data_lane :: "lane \<Rightarrow> bool" where
  "data_lane l \<longleftrightarrow> in_lane 8 (fst l) \<and> snd l = 0"

definition code_lane :: "lane \<Rightarrow> bool" where
  "code_lane l \<longleftrightarrow> snd l = 1 \<and> fst l \<in> {XGMII_IDLE, XGMII_LPI, XGMII_ERROR, XGMII_RES0, XGMII_RES1,
     XGMII_RES2, XGMII_RES3, XGMII_RES4, XGMII_RES5}"

definition octets_val :: "lane list \<Rightarrow> int" where
  "octets_val ls = lanes_val 8 (map fst ls)"

definition codes_val :: "lane list \<Rightarrow> int" where
  "codes_val ls = lanes_val 7 (map ctrl_code ls)"

lemma ctrl_code_range [simp]: "in_lane 7 (ctrl_code l)"
proof -
  have "in_lane 7 CTRL_IDLE" "in_lane 7 CTRL_LPI" "in_lane 7 CTRL_ERROR" "in_lane 7 CTRL_RES_0"
    "in_lane 7 CTRL_RES_1" "in_lane 7 CTRL_RES_2" "in_lane 7 CTRL_RES_3" "in_lane 7 CTRL_RES_4"
    "in_lane 7 CTRL_RES_5"
    by (simp_all add: in_lane_def ctrl_codes)
  then show ?thesis by (cases l) (simp add: ctrl_code_def if_distrib [of "in_lane 7"])
qed

lemma ctrl_code_char: "code_lane l \<Longrightarrow> (ctrl_char (ctrl_code l), 1) = l"
  by (cases l) (auto simp: code_lane_def ctrl_code_def ctrl_char_def xgmii_chars ctrl_codes)

lemma data_lanes_fst: "list_all data_lane ls \<Longrightarrow> list_all (in_lane 8) (map fst ls)"
  by (induction ls) (auto simp: data_lane_def)

lemma octets_val_range: "list_all data_lane ls \<Longrightarrow> 0 \<le> octets_val ls \<and> octets_val ls < 2 ^ (8 * length ls)"
  using lanes_val_bound [OF data_lanes_fst, of ls] lanes_val_nonneg [OF data_lanes_fst, of ls]
  by (simp add: octets_val_def)

lemma codes_in_lane: "list_all (in_lane 7) (map ctrl_code ls)"
  by (induction ls) simp_all

lemma codes_val_range: "0 \<le> codes_val ls \<and> codes_val ls < 2 ^ (7 * length ls)"
  using lanes_val_bound [OF codes_in_lane, of ls] lanes_val_nonneg [OF codes_in_lane, of ls]
  by (simp add: codes_val_def)

lemma octet_lanes_back:
  assumes "list_all data_lane ds" "0 \<le> a" "a < 2 ^ (8 * (i + 1))"
  shows "octet_lanes (a + 2 ^ (8 * (i + 1)) * (octets_val ds + 2 ^ (8 * length ds) * h)) i (i + length ds) = ds"
proof (rule nth_equalityI)
  fix j assume "j < length (octet_lanes (a + 2 ^ (8 * (i + 1)) * (octets_val ds + 2 ^ (8 * length ds) * h)) i (i + length ds))"
  then have j: "j < length ds" by (simp add: octet_lanes_def)
  have "field 8 ((i + j + 1) * 8) (a + 2 ^ (8 * (i + 1)) * (octets_val ds + 2 ^ (8 * length ds) * h)) =
      field 8 (j * 8) (octets_val ds + 2 ^ (8 * length ds) * h)"
    using field_high [OF assms(2,3), of "(i + j + 1) * 8" 8] by simp
  also have "\<dots> = fst (ds ! j)"
    using field_lanes [OF data_lanes_fst [OF assms(1)], of j h] j by (simp add: octets_val_def)
  finally show "octet_lanes (a + 2 ^ (8 * (i + 1)) * (octets_val ds + 2 ^ (8 * length ds) * h)) i (i + length ds) ! j = ds ! j"
    using j assms(1) by (simp add: octet_lanes_def field_masks list_all_length data_lane_def prod_eq_iff add.commute)
qed (simp add: octet_lanes_def)

lemma ctrl_lanes_back:
  assumes "list_all code_lane cs" "0 \<le> a" "a < 2 ^ (7 * i + 8)"
  shows "ctrl_lanes (a + 2 ^ (7 * i + 8) * (codes_val cs + 2 ^ (7 * length cs) * h)) i (i + length cs) = cs"
proof (rule nth_equalityI)
  fix j assume "j < length (ctrl_lanes (a + 2 ^ (7 * i + 8) * (codes_val cs + 2 ^ (7 * length cs) * h)) i (i + length cs))"
  then have j: "j < length cs" by (simp add: ctrl_lanes_def)
  have "field 7 ((i + j) * 7 + 8) (a + 2 ^ (7 * i + 8) * (codes_val cs + 2 ^ (7 * length cs) * h)) =
      field 7 (j * 7) (codes_val cs + 2 ^ (7 * length cs) * h)"
    using field_high [OF assms(2,3), of "(i + j) * 7 + 8" 7] by simp
  also have "\<dots> = ctrl_code (cs ! j)"
    using field_lanes [OF codes_in_lane, of j cs h] j by (simp add: codes_val_def)
  finally show "ctrl_lanes (a + 2 ^ (7 * i + 8) * (codes_val cs + 2 ^ (7 * length cs) * h)) i (i + length cs) ! j = cs ! j"
    using j assms(1) ctrl_code_char [of "cs ! j"]
    by (simp add: ctrl_lanes_def field_masks list_all_length)
qed (simp add: ctrl_lanes_def)

text \<open>The loops of the encoder as shifted fields.\<close>

lemma octet_loop_or: "octet_loop ls i (d OR e) = d OR octet_loop ls i e"
  by (induction ls arbitrary: i e) (simp_all add: or.assoc)

lemma octet_loop_shift: "list_all data_lane ls \<Longrightarrow> octet_loop ls i d = d OR shl (octets_val ls) (8 * i)"
proof (induction ls arbitrary: i d)
  case (Cons l ls)
  have l: "0 \<le> fst l" "fst l < 2 ^ 8" using Cons.prems by (simp_all add: data_lane_def in_lane_def)
  have "shl (octets_val (l # ls)) (8 * i) = shl (fst l) (i * 8) OR shl (octets_val ls) (8 * (i + 1))"
  proof -
    have "octets_val (l # ls) = fst l OR shl (octets_val ls) 8"
      using or_lane [OF l] by (simp add: octets_val_def mult.commute)
    then show ?thesis by (simp add: push_bit_or mult.commute add.commute)
  qed
  then show ?case using Cons by (simp add: or.assoc)
qed (simp add: octets_val_def)

lemma ctrl_loop_shift: "ctrl_loop ls i c = c OR shl (codes_val ls) (7 * i)"
proof (induction ls arbitrary: i c)
  case (Cons l ls)
  have l: "0 \<le> ctrl_code l" "ctrl_code l < 2 ^ 7"
    using ctrl_code_range [of l] by (simp_all only: in_lane_def)
  have "shl (codes_val (l # ls)) (7 * i) = shl (ctrl_code l) (i * 7) OR shl (codes_val ls) (7 * (i + 1))"
  proof -
    have "codes_val (l # ls) = ctrl_code l OR shl (codes_val ls) 7"
      using or_lane [OF l] by (simp add: codes_val_def mult.commute)
    then show ?thesis by (simp add: push_bit_or mult.commute add.commute)
  qed
  then show ?case using Cons by (simp add: or.assoc)
qed (simp add: codes_val_def)

lemma ctrl_loop_all [simp]: "ctrl_loop ls 0 0 = codes_val ls"
  by (simp add: ctrl_loop_shift)

lemma codes_val_append: "codes_val (cs @ ds) = codes_val cs + 2 ^ (7 * length cs) * codes_val ds"
  by (simp add: codes_val_def lanes_val_append)

lemma codes_low: "codes_val (cs @ ds) AND (2 ^ (7 * length cs) - 1) = codes_val cs"
  using codes_val_range [of cs] by (simp add: and_mask_int codes_val_append)

lemma codes_high:
  "codes_val (cs @ ds) AND shl (2 ^ (7 * length ds) - 1) (7 * length cs) = shl (codes_val ds) (7 * length cs)"
proof -
  let ?n = "7 * length cs" and ?m = "2 ^ (7 * length ds) - 1 :: int"
  have c: "codes_val (cs @ ds) = codes_val cs OR shl (codes_val ds) ?n"
    using or_lane [of "codes_val cs" ?n "codes_val ds"] codes_val_range [of cs]
    by (simp add: codes_val_append mult.commute)
  have low: "take_bit ?n (codes_val cs) = codes_val cs"
    using codes_val_range [of cs] by (simp add: take_bit_int_eq_self)
  have "codes_val cs AND shl ?m ?n = 0"
  proof (rule bit_eqI)
    fix k
    have "\<not> bit (codes_val cs) k" if "?n \<le> k" using that by (metis low bit_take_bit_iff not_le)
    then show "bit (codes_val cs AND shl ?m ?n) k \<longleftrightarrow> bit (0 :: int) k"
      by (auto simp: bit_and_iff bit_push_bit_iff)
  qed
  moreover have "shl (codes_val ds) ?n AND shl ?m ?n = shl (codes_val ds AND ?m) ?n"
    by (simp only: push_bit_and)
  moreover have "codes_val ds AND ?m = codes_val ds"
    using codes_val_range [of ds] by (simp add: and_mask_int)
  ultimately show ?thesis by (simp add: c bit.conj_disj_distrib2)
qed

section \<open>Encoding and decoding a block\<close>

definition term_type :: "nat \<Rightarrow> int" where
  "term_type k = [BLOCK_TYPE_TERM_0, BLOCK_TYPE_TERM_1, BLOCK_TYPE_TERM_2, BLOCK_TYPE_TERM_3,
     BLOCK_TYPE_TERM_4, BLOCK_TYPE_TERM_5, BLOCK_TYPE_TERM_6, BLOCK_TYPE_TERM_7] ! k"

definition term_mask :: "nat \<Rightarrow> int" where
  "term_mask k = shl (2 ^ (7 * (7 - k)) - 1) (7 * (k + 1))"

lemma term_type_simps:
  "term_type 0 = BLOCK_TYPE_TERM_0" "term_type (Suc 0) = BLOCK_TYPE_TERM_1"
  "term_type 2 = BLOCK_TYPE_TERM_2" "term_type 3 = BLOCK_TYPE_TERM_3"
  "term_type 4 = BLOCK_TYPE_TERM_4" "term_type 5 = BLOCK_TYPE_TERM_5"
  "term_type 6 = BLOCK_TYPE_TERM_6" "term_type 7 = BLOCK_TYPE_TERM_7"
  by (simp_all add: term_type_def)

lemma term_mask_simps:
  "term_mask 0 = 0xffffffffffff80" "term_mask (Suc 0) = 0xffffffffffc000"
  "term_mask 2 = 0xffffffffe00000" "term_mask 3 = 0xfffffff0000000"
  "term_mask 4 = 0xfffff800000000" "term_mask 5 = 0xfffc0000000000"
  "term_mask 6 = 0xfe000000000000" "term_mask 7 = 0"
  by (simp_all add: term_mask_def)

lemma data_laneD: "data_lane l \<Longrightarrow> snd l = 0"
  by (simp add: data_lane_def)

lemma code_laneD:
  "code_lane l \<Longrightarrow> snd l = 1"
  "code_lane l \<Longrightarrow> fst l \<noteq> XGMII_START \<and> fst l \<noteq> XGMII_TERM \<and> fst l \<noteq> XGMII_SEQ_OS
    \<and> fst l \<noteq> XGMII_SIG_OS"
  by (auto simp: code_lane_def xgmii_chars)

lemma list8:
  assumes "length ls = 8"
  obtains a b c d e f g h where "ls = [a, b, c, d, e, f, g, h]"
  using assms by (auto simp: numeral_eq_Suc length_Suc_conv)

lemma char_neq:
  "XGMII_TERM \<noteq> XGMII_START" "XGMII_TERM \<noteq> XGMII_SEQ_OS" "XGMII_TERM \<noteq> XGMII_SIG_OS"
  "XGMII_START \<noteq> XGMII_SEQ_OS" "XGMII_START \<noteq> XGMII_SIG_OS" "XGMII_SEQ_OS \<noteq> XGMII_SIG_OS"
  "XGMII_START \<noteq> XGMII_TERM" "XGMII_SEQ_OS \<noteq> XGMII_START" "XGMII_SIG_OS \<noteq> XGMII_START"
  "XGMII_SEQ_OS \<noteq> XGMII_TERM" "XGMII_SIG_OS \<noteq> XGMII_TERM"
  by (simp_all add: xgmii_chars)

lemmas encode_simps =
  baser_encode_def any_ctrl_def ordered_set_def term_at_def data_laneD code_laneD char_neq

lemma encode_term_select:
  assumes "length ls = 8" "k < 8" "ls ! k = (XGMII_TERM, 1)"
    and "list_all data_lane (take k ls)" "list_all code_lane (drop (k + 1) ls)"
  shows "baser_encode ls = (SYNC_CTRL,
    octet_loop (take k ls) 1 (term_type k OR shl (codes_val ls AND term_mask k) 8))"
proof -
  obtain a b c d e f g h where ls: "ls = [a, b, c, d, e, f, g, h]" by (rule list8 [OF assms(1)])
  have "k = 0 \<or> k = 1 \<or> k = 2 \<or> k = 3 \<or> k = 4 \<or> k = 5 \<or> k = 6 \<or> k = 7" using assms(2) by auto
  then show ?thesis
    using assms(3-5)
    by (elim disjE) (simp_all add: ls encode_simps term_type_simps term_mask_simps Let_def or.assoc)
qed

text \<open>A terminate block: its type, the octets before and the control codes after the character.\<close>

lemma term_type_range: "k < 8 \<Longrightarrow> 0 \<le> term_type k \<and> term_type k < 2 ^ 8"
  by (auto simp: term_type_def block_types less_Suc_eq numeral_eq_Suc)

lemma term_room: "k < 8 \<Longrightarrow> (2 :: int) ^ 8 * 2 ^ (8 * k) \<le> 2 ^ (7 * (k + 1) + 8)"
proof -
  assume "k < 8"
  then have "(2 :: int) ^ (8 + 8 * k) \<le> 2 ^ (7 * (k + 1) + 8)" by (intro power_increasing) auto
  then show ?thesis by (simp only: power_add)
qed

lemma encode_term:
  assumes "length ds = k" "length cs = 7 - k" "k < 8" "list_all data_lane ds" "list_all code_lane cs"
  shows "baser_encode (ds @ (XGMII_TERM, 1) # cs) =
    (SYNC_CTRL, term_type k + 2 ^ 8 * octets_val ds + 2 ^ (7 * (k + 1) + 8) * codes_val cs)"
proof -
  let ?ls = "ds @ (XGMII_TERM, 1) # cs"
  have "codes_val ?ls AND term_mask k = shl (codes_val cs) (7 * (k + 1))"
    using codes_high [of "ds @ [(XGMII_TERM, 1)]" cs] assms(1,2) by (simp add: term_mask_def)
  then have "baser_encode ?ls =
      (SYNC_CTRL, (term_type k OR shl (octets_val ds) 8) OR shl (codes_val cs) (7 * (k + 1) + 8))"
    using encode_term_select [of ?ls k] assms
    by (simp add: octet_loop_shift nth_append ac_simps)
  also have "term_type k OR shl (octets_val ds) 8 = term_type k + octets_val ds * 2 ^ 8"
    using term_type_range [OF assms(3)] by (intro or_lane) auto
  also have "(term_type k + octets_val ds * 2 ^ 8) OR shl (codes_val cs) (7 * (k + 1) + 8) =
      term_type k + octets_val ds * 2 ^ 8 + codes_val cs * 2 ^ (7 * (k + 1) + 8)"
  proof (rule or_lane)
    have "term_type k + octets_val ds * 2 ^ 8 < 2 ^ 8 * 2 ^ (8 * k)"
      using term_type_range [OF assms(3)] octets_val_range [OF assms(4)] assms(1) by simp
    also have "\<dots> \<le> 2 ^ (7 * (k + 1) + 8)"
      by (rule term_room [OF assms(3)])
    finally show "term_type k + octets_val ds * 2 ^ 8 < 2 ^ (7 * (k + 1) + 8)" .
    show "0 \<le> term_type k + octets_val ds * 2 ^ 8"
      using term_type_range [OF assms(3)] octets_val_range [OF assms(4)] by simp
  qed
  finally show ?thesis by (simp add: mult.commute)
qed

lemma decode_term:
  assumes "length ds = k" "length cs = 7 - k" "k < 8" "list_all data_lane ds" "list_all code_lane cs"
  shows "baser_decode (SYNC_CTRL, term_type k + 2 ^ 8 * octets_val ds + 2 ^ (7 * (k + 1) + 8) * codes_val cs) =
    ds @ (XGMII_TERM, 1) # cs"
proof -
  define a where "a = term_type k + 2 ^ 8 * octets_val ds"
  define x where "x = a + 2 ^ (7 * (k + 1) + 8) * codes_val cs"
  note tt = term_type_range [OF assms(3)] and od = octets_val_range [OF assms(4)]
  have pow: "7 * (k + 1) + 8 = 8 + (8 * k + (7 - k))" using assms(3) by simp
  have x: "x = term_type k + 2 ^ (8 * (0 + 1)) * (octets_val ds + 2 ^ (8 * length ds) * (2 ^ (7 - k) * codes_val cs))"
    unfolding x_def a_def pow power_add assms(1) by (simp add: algebra_simps)
  have "0 \<le> a" "a < 2 ^ (7 * (k + 1) + 8)"
  proof -
    have "a < 2 ^ 8 * 2 ^ (8 * k)" using tt od assms(1) by (simp add: a_def)
    also have "\<dots> \<le> 2 ^ (7 * (k + 1) + 8)" by (rule term_room [OF assms(3)])
    finally show "a < 2 ^ (7 * (k + 1) + 8)" .
    show "0 \<le> a" using tt od by (simp add: a_def)
  qed
  then have ctrl: "ctrl_lanes x (k + 1) 8 = cs"
    using ctrl_lanes_back [OF assms(5), of a "k + 1" 0] assms(2,3) by (simp add: x_def)
  have oct: "octet_lanes x 0 k = ds"
    using octet_lanes_back [OF assms(4), of "term_type k" 0 "2 ^ (7 - k) * codes_val cs"] tt
    unfolding x by (simp add: assms(1))
  have "field 8 0 x = field 8 0 (term_type k)" unfolding x by (rule field_low) simp
  then have bt: "x AND 0xff = term_type k" using tt by (simp add: field_type field_id)
  have "k = 0 \<or> k = 1 \<or> k = 2 \<or> k = 3 \<or> k = 4 \<or> k = 5 \<or> k = 6 \<or> k = 7" using assms(3) by auto
  then have "baser_decode (SYNC_CTRL, x) = octet_lanes x 0 k @ (XGMII_TERM, 1) # ctrl_lanes x (k + 1) 8"
    using bt
    by (elim disjE) (simp_all add: baser_decode_def term_type_simps Let_def block_type_term_lane_def block_types)
  then show ?thesis using ctrl oct by (simp add: x_def a_def)
qed

text \<open>Blocks of eight octets, of eight control characters, and with a start in lane 0.\<close>

lemma block_data:
  assumes "length ls = 8" "list_all data_lane ls"
  shows "baser_decode (baser_encode ls) = ls" "snd (baser_encode ls) < 2 ^ 64" "0 \<le> snd (baser_encode ls)"
    "fst (baser_encode ls) = SYNC_DATA"
proof -
  have "\<not> any_ctrl ls" using assms(2) by (auto simp: any_ctrl_def list_all_iff list_ex_iff data_lane_def)
  then have e: "baser_encode ls = (SYNC_DATA, octets_val ls)"
    using assms(2) by (simp add: baser_encode_def octet_loop_shift)
  have "shr (octets_val ls) (k * 8) AND 0xff = fst (ls ! k)" if "k < 8" for k
    using field_lanes [OF data_lanes_fst [OF assms(2)], of k 0] that assms(1)
    by (simp add: field_masks octets_val_def)
  then have "baser_decode (SYNC_DATA, octets_val ls) = ls"
    using assms by (intro nth_equalityI)
      (simp_all add: baser_decode_def list_all_length data_lane_def prod_eq_iff Let_def)
  then show "baser_decode (baser_encode ls) = ls" by (simp add: e)
  show "snd (baser_encode ls) < 2 ^ 64" "0 \<le> snd (baser_encode ls)" "fst (baser_encode ls) = SYNC_DATA"
    using octets_val_range [OF assms(2)] assms(1) by (simp_all add: e)
qed

lemma type_and_rest:
  assumes "0 \<le> bt" "bt < 2 ^ 8"
  shows "bt OR shl x 8 = bt + 2 ^ 8 * x" "(bt + 2 ^ 8 * x) AND 0xff = bt"
proof -
  show "bt OR shl x 8 = bt + 2 ^ 8 * x" using or_lane [OF assms, of x] by (simp add: mult.commute)
  have "field 8 0 (bt + 2 ^ 8 * x) = field 8 0 bt" by (rule field_low) simp
  then show "(bt + 2 ^ 8 * x) AND 0xff = bt" using assms by (simp only: field_type field_id)
qed

lemma block_ctrl:
  assumes "length ls = 8" "list_all code_lane ls"
  shows "baser_encode ls = (SYNC_CTRL, BLOCK_TYPE_CTRL + 2 ^ 8 * codes_val ls)"
    and "baser_decode (SYNC_CTRL, BLOCK_TYPE_CTRL + 2 ^ 8 * codes_val ls) = ls"
proof -
  have bt: "0 \<le> BLOCK_TYPE_CTRL" "BLOCK_TYPE_CTRL < 2 ^ 8" by (simp_all add: block_types)
  obtain a b c d e f g h where ls: "ls = [a, b, c, d, e, f, g, h]" by (rule list8 [OF assms(1)])
  have "baser_encode ls = (SYNC_CTRL, BLOCK_TYPE_CTRL OR shl (codes_val ls) 8)"
    using assms(2) by (simp add: ls encode_simps Let_def)
  then show "baser_encode ls = (SYNC_CTRL, BLOCK_TYPE_CTRL + 2 ^ 8 * codes_val ls)"
    by (simp only: type_and_rest [OF bt])
  have "ctrl_lanes (BLOCK_TYPE_CTRL + 2 ^ 8 * codes_val ls) 0 8 = ls"
    using ctrl_lanes_back [OF assms(2), of BLOCK_TYPE_CTRL 0 0] bt assms(1) by simp
  then show "baser_decode (SYNC_CTRL, BLOCK_TYPE_CTRL + 2 ^ 8 * codes_val ls) = ls"
    unfolding baser_decode_def Let_def prod.case type_and_rest [OF bt]
    by (simp add: block_types)
qed

lemma block_start_0:
  assumes "length ds = 7" "list_all data_lane ds"
  shows "baser_encode ((XGMII_START, 1) # ds) = (SYNC_CTRL, BLOCK_TYPE_START_0 + 2 ^ 8 * octets_val ds)"
    and "baser_decode (SYNC_CTRL, BLOCK_TYPE_START_0 + 2 ^ 8 * octets_val ds) = (XGMII_START, 1) # ds"
proof -
  have bt: "0 \<le> BLOCK_TYPE_START_0" "BLOCK_TYPE_START_0 < 2 ^ 8" by (simp_all add: block_types)
  have "\<not> any_ctrl ds" using assms(2) by (auto simp: any_ctrl_def list_all_iff list_ex_iff data_lane_def)
  then have "baser_encode ((XGMII_START, 1) # ds) = (SYNC_CTRL, BLOCK_TYPE_START_0 OR shl (octets_val ds) 8)"
    using assms(2) by (simp add: baser_encode_def octet_loop_shift Let_def) (simp add: any_ctrl_def)
  then show "baser_encode ((XGMII_START, 1) # ds) = (SYNC_CTRL, BLOCK_TYPE_START_0 + 2 ^ 8 * octets_val ds)"
    by (simp only: type_and_rest [OF bt])
  have "octet_lanes (BLOCK_TYPE_START_0 + 2 ^ 8 * octets_val ds) 0 7 = ds"
    using octet_lanes_back [OF assms(2), of BLOCK_TYPE_START_0 0 0] bt assms(1) by simp
  then show "baser_decode (SYNC_CTRL, BLOCK_TYPE_START_0 + 2 ^ 8 * octets_val ds) = (XGMII_START, 1) # ds"
    unfolding baser_decode_def Let_def prod.case type_and_rest [OF bt]
    by (simp add: block_types)
qed

text \<open>
  Blocks of two halves: four control characters, or an ordered set, then a start or an
  ordered set in lane 4.
\<close>

definition os_ok :: "lane \<Rightarrow> bool" where
  "os_ok l \<longleftrightarrow> snd l = 1 \<and> fst l \<in> {XGMII_SEQ_OS, XGMII_SIG_OS}"

definition os_code :: "lane \<Rightarrow> int" where
  "os_code l = (if fst l = XGMII_SIG_OS then O_SIG_OS else 0)"

lemma os_lane_code: "os_ok l \<Longrightarrow> os_lane (os_code l) = l"
  by (cases l) (auto simp: os_ok_def os_code_def os_lane_def xgmii_chars ctrl_codes)

lemma os_code_range: "0 \<le> os_code l \<and> os_code l < 2 ^ 4"
  by (simp add: os_code_def ctrl_codes)

lemma os_okD: "os_ok l \<Longrightarrow> ordered_set l" "os_ok l \<Longrightarrow> snd l = 1" "os_ok l \<Longrightarrow> fst l \<noteq> XGMII_START"
  by (auto simp: os_ok_def ordered_set_def xgmii_chars)

lemma two_halves:
  assumes "0 \<le> bt" "bt < 2 ^ 8" "0 \<le> m" "m < 2 ^ 28" "0 \<le> o4" "o4 < 2 ^ 4" "list_all data_lane es" "length es = 3"
  defines "x \<equiv> bt OR shl m 8 OR shl o4 36 OR shl (octets_val es) 40"
  shows "x AND 0xff = bt" "shr x 36 AND 0xf = o4" "octet_lanes x 4 7 = es"
    and "shr x 32 AND 0xf = field 4 24 m"
    and "list_all data_lane ds \<Longrightarrow> length ds = 3 \<Longrightarrow> m = octets_val ds + 2 ^ 24 * h \<Longrightarrow> octet_lanes x 0 3 = ds"
    and "list_all code_lane cs \<Longrightarrow> length cs = 4 \<Longrightarrow> m = codes_val cs \<Longrightarrow> ctrl_lanes x 0 4 = cs"
    and "0 \<le> x" "x < 2 ^ 64"
proof -
  note er = octets_val_range [OF assms(7), unfolded assms(8)]
  have y: "bt OR shl m 8 = bt + 2 ^ 8 * m" by (rule type_and_rest [OF assms(1,2)])
  have r36: "0 \<le> bt + 2 ^ 8 * m" "bt + 2 ^ 8 * m < 2 ^ 36" using assms(1-4) by simp_all
  have r40: "0 \<le> bt + 2 ^ 8 * m + o4 * 2 ^ 36" "bt + 2 ^ 8 * m + o4 * 2 ^ 36 < 2 ^ 40"
    using assms(5,6) r36 by simp_all
  have x: "x = bt + 2 ^ 8 * m + o4 * 2 ^ 36 + octets_val es * 2 ^ 40"
    unfolding x_def or.assoc [symmetric] y or_lane [OF r36] or_lane [OF r40] by (rule refl)
  have x8: "x = bt + 2 ^ 8 * (m + 2 ^ 28 * (o4 + 2 ^ 4 * octets_val es))" by (simp add: x)
  show "x AND 0xff = bt" unfolding x8 by (rule type_and_rest [OF assms(1,2)])
  have x36: "x = (bt + 2 ^ 8 * m) + 2 ^ 36 * (o4 + 2 ^ 4 * octets_val es)" by (simp add: x)
  have "field 4 36 x = field 4 0 (o4 + 2 ^ 4 * octets_val es)"
    unfolding x36 by (subst field_high [OF r36]) simp_all
  also have "\<dots> = o4" using field_low [of 0 4 4 o4] field_id [OF assms(5,6)] by simp
  finally show "shr x 36 AND 0xf = o4" by (simp add: field_masks)
  have "octet_lanes ((bt + 2 ^ 8 * m + o4 * 2 ^ 36) + 2 ^ (8 * (4 + 1)) * (octets_val es + 2 ^ (8 * length es) * 0)) 4 (4 + length es) = es"
    using r40 by (intro octet_lanes_back [OF assms(7)]) simp_all
  then show "octet_lanes x 4 7 = es" by (simp add: x assms(8) mult.commute)
  have x8': "x = bt + 2 ^ 8 * (m + 2 ^ 28 * (o4 + 2 ^ 4 * octets_val es))" by (rule x8)
  have "field 4 32 x = field 4 24 (m + 2 ^ 28 * (o4 + 2 ^ 4 * octets_val es))"
    unfolding x8' by (subst field_high [OF assms(1,2)]) simp_all
  also have "\<dots> = field 4 24 m" by (rule field_low) simp
  finally show "shr x 32 AND 0xf = field 4 24 m" by (simp add: field_masks)
  show "octet_lanes x 0 3 = ds" if "list_all data_lane ds" "length ds = 3" "m = octets_val ds + 2 ^ 24 * h"
  proof -
    have "x = bt + 2 ^ (8 * (0 + 1)) * (octets_val ds + 2 ^ (8 * length ds) * (h + 2 ^ 4 * (o4 + 2 ^ 4 * octets_val es)))"
      unfolding x8 that(3) by (simp add: that(2))
    then show ?thesis
      using octet_lanes_back [OF that(1), of bt 0 "h + 2 ^ 4 * (o4 + 2 ^ 4 * octets_val es)"] assms(1,2) that(2)
      by simp
  qed
  show "ctrl_lanes x 0 4 = cs" if "list_all code_lane cs" "length cs = 4" "m = codes_val cs"
    using ctrl_lanes_back [OF that(1), of bt 0 "o4 + 2 ^ 4 * octets_val es"] assms(1,2) that(2)
    unfolding x8 that(3) by simp
  show "0 \<le> x" "x < 2 ^ 64" using r40 er by (simp_all add: x)
qed

text \<open>Blocks of two halves: control codes or an ordered set, then an ordered set or a start.\<close>

lemma len4: "length xs = 4 \<Longrightarrow> (\<And>a b c d. xs = [a, b, c, d] \<Longrightarrow> P) \<Longrightarrow> P"
  by (auto simp: numeral_eq_Suc length_Suc_conv)

lemma len3: "length xs = 3 \<Longrightarrow> (\<And>a b c. xs = [a, b, c] \<Longrightarrow> P) \<Longrightarrow> P"
  by (auto simp: numeral_eq_Suc length_Suc_conv)

lemma sig_code: "(if fst l = XGMII_SIG_OS then d OR shl O_SIG_OS n else d) = d OR shl (os_code l) n"
  by (simp add: os_code_def)

lemma codes_low4: "length cs = 4 \<Longrightarrow> codes_val (cs @ ls) AND 0xfffffff = codes_val cs"
  using codes_low [of cs ls] by simp

definition two_half_block :: "int \<Rightarrow> int \<Rightarrow> int \<Rightarrow> lane list \<Rightarrow> int" where
  "two_half_block bt m o4 es = bt OR shl m 8 OR shl o4 36 OR shl (octets_val es) 40"

definition os_half :: "lane \<Rightarrow> lane list \<Rightarrow> int" where
  "os_half l ds = octets_val ds + 2 ^ 24 * os_code l"

lemma os_half_or:
  assumes "list_all data_lane ds" "length ds = 3"
  shows "shl (octets_val ds) 8 OR shl (os_code l) 32 = shl (os_half l ds) 8"
proof -
  have "octets_val ds OR shl (os_code l) 24 = os_half l ds"
    using or_lane [of "octets_val ds" 24 "os_code l"] octets_val_range [OF assms(1)] assms(2)
    by (simp add: os_half_def)
  then have "shl (octets_val ds OR shl (os_code l) 24) 8 = shl (os_half l ds) 8" by simp
  then show ?thesis by (simp add: push_bit_or)
qed

lemma encode_START_4:
  assumes "length cs = 4" "list_all code_lane cs" "length es = 3" "list_all data_lane es"
  shows "baser_encode (cs @ (XGMII_START, 1) # es) =
    (SYNC_CTRL, two_half_block BLOCK_TYPE_START_4 (codes_val cs) 0 es)"
proof -
  have c: "shl (codes_val (cs @ (XGMII_START, 1) # es) AND 0xfffffff) 8 = shl (codes_val cs) 8"
    by (simp only: codes_low4 [OF assms(1)])
  show ?thesis
    using assms(2,4) c octet_loop_shift [OF assms(4), of 5]
    by (rule_tac len4 [OF assms(1)], rule_tac len3 [OF assms(3)])
       (simp add: encode_simps Let_def two_half_block_def or.assoc del: octet_loop.simps)
qed

lemma encode_OS_4:
  assumes "length cs = 4" "list_all code_lane cs" "os_ok l" "length es = 3" "list_all data_lane es"
  shows "baser_encode (cs @ l # es) =
    (SYNC_CTRL, two_half_block BLOCK_TYPE_OS_4 (codes_val cs) (os_code l) es)"
proof -
  have c: "shl (codes_val (cs @ l # es) AND 0xfffffff) 8 = shl (codes_val cs) 8"
    by (simp only: codes_low4 [OF assms(1)])
  show ?thesis
    using assms(2,5) os_okD [OF assms(3)] c octet_loop_shift [OF assms(5), of 5]
    by (rule_tac len4 [OF assms(1)], rule_tac len3 [OF assms(4)])
       (simp add: encode_simps Let_def two_half_block_def sig_code ac_simps del: octet_loop.simps)
qed

lemma encode_OS_START:
  assumes "os_ok l" "length ds = 3" "list_all data_lane ds" "length es = 3" "list_all data_lane es"
  shows "baser_encode (l # ds @ (XGMII_START, 1) # es) =
    (SYNC_CTRL, two_half_block BLOCK_TYPE_OS_START (os_half l ds) 0 es)"
  using assms(3,5) os_okD [OF assms(1)] octet_loop_shift [OF assms(5), of 5]
    octet_loop_shift [OF assms(3), of 1] os_half_or [OF assms(3,2), of l]
  by (rule_tac len3 [OF assms(2)], rule_tac len3 [OF assms(4)])
     (simp add: encode_simps Let_def two_half_block_def sig_code or.assoc del: octet_loop.simps)

lemma encode_OS_04:
  assumes "os_ok l" "length ds = 3" "list_all data_lane ds" "os_ok l'" "length es = 3" "list_all data_lane es"
  shows "baser_encode (l # ds @ l' # es) =
    (SYNC_CTRL, two_half_block BLOCK_TYPE_OS_04 (os_half l ds) (os_code l') es)"
  using assms(3,6) os_okD [OF assms(1)] os_okD [OF assms(4)] octet_loop_shift [OF assms(6), of 5]
    octet_loop_shift [OF assms(3), of 1] os_half_or [OF assms(3,2), of l, symmetric]
  by (rule_tac len3 [OF assms(2)], rule_tac len3 [OF assms(5)])
     (simp add: encode_simps Let_def two_half_block_def sig_code ac_simps del: octet_loop.simps)

definition os_lanes :: "lane list \<Rightarrow> bool" where
  "os_lanes h \<longleftrightarrow> os_ok (hd h) \<and> list_all data_lane (tl h)"

definition start_lanes8 :: "lane list \<Rightarrow> bool" where
  "start_lanes8 h \<longleftrightarrow> hd h = (XGMII_START, 1) \<and> list_all data_lane (tl h)"

definition term_lanes :: "lane list \<Rightarrow> nat \<Rightarrow> bool" where
  "term_lanes ls k \<longleftrightarrow> ls ! k = (XGMII_TERM, 1) \<and> list_all data_lane (take k ls)
     \<and> list_all code_lane (drop (k + 1) ls)"

definition baser_block :: "lane list \<Rightarrow> bool" where
  "baser_block ls \<longleftrightarrow> length ls = 8 \<and>
     (list_all data_lane ls \<or> list_all code_lane ls \<or> start_lanes8 ls
      \<or> (list_all code_lane (take 4 ls) \<or> os_lanes (take 4 ls))
         \<and> (start_lanes8 (drop 4 ls) \<or> os_lanes (drop 4 ls))
      \<or> list_ex (term_lanes ls) [0..<8])"

lemma two_half_types:
  "bt \<in> {BLOCK_TYPE_OS_4, BLOCK_TYPE_START_4, BLOCK_TYPE_OS_START, BLOCK_TYPE_OS_04} \<Longrightarrow> 0 \<le> bt \<and> bt < 2 ^ 8"
  by (auto simp: block_types)

lemma os_half_range:
  assumes "list_all data_lane ds" "length ds = 3"
  shows "0 \<le> os_half l ds" "os_half l ds < 2 ^ 28"
  using octets_val_range [OF assms(1)] assms(2) by (auto simp: os_half_def os_code_def ctrl_codes)

lemma os_half_code:
  assumes "list_all data_lane ds" "length ds = 3"
  shows "field 4 24 (os_half l ds) = os_code l"
proof -
  have r: "0 \<le> octets_val ds" "octets_val ds < 2 ^ 24"
    using octets_val_range [OF assms(1)] assms(2) by simp_all
  show ?thesis unfolding os_half_def
    using os_code_range [of l] by (subst field_high [OF r]) (simp_all add: field_id)
qed

lemma codes_half_range: "length cs = 4 \<Longrightarrow> 0 \<le> codes_val cs \<and> codes_val cs < 2 ^ 28"
  using codes_val_range [of cs] by simp

lemma decode_START_4:
  assumes "length cs = 4" "list_all code_lane cs" "length es = 3" "list_all data_lane es"
  defines "x \<equiv> two_half_block BLOCK_TYPE_START_4 (codes_val cs) 0 es"
  shows "baser_decode (SYNC_CTRL, x) = cs @ (XGMII_START, 1) # es" "0 \<le> x" "x < 2 ^ 64"
proof -
  have bt: "0 \<le> BLOCK_TYPE_START_4" "BLOCK_TYPE_START_4 < 2 ^ 8" by (simp_all add: block_types)
  note t = two_halves [OF bt _ _ _ _ assms(4,3), of "codes_val cs" 0, folded two_half_block_def x_def]
  show "0 \<le> x" "x < 2 ^ 64" using t(7,8) codes_half_range [OF assms(1)] by simp_all
  have "x AND 0xff = BLOCK_TYPE_START_4" "octet_lanes x 4 7 = es" "ctrl_lanes x 0 4 = cs"
    using t(1,3,6) codes_half_range [OF assms(1)] assms(1,2) by simp_all
  then show "baser_decode (SYNC_CTRL, x) = cs @ (XGMII_START, 1) # es"
    by (simp add: baser_decode_def block_types)
qed

lemma decode_OS_4:
  assumes "length cs = 4" "list_all code_lane cs" "os_ok l" "length es = 3" "list_all data_lane es"
  defines "x \<equiv> two_half_block BLOCK_TYPE_OS_4 (codes_val cs) (os_code l) es"
  shows "baser_decode (SYNC_CTRL, x) = cs @ l # es" "0 \<le> x" "x < 2 ^ 64"
proof -
  have bt: "0 \<le> BLOCK_TYPE_OS_4" "BLOCK_TYPE_OS_4 < 2 ^ 8" by (simp_all add: block_types)
  note t = two_halves [OF bt _ _ _ _ assms(5,4), of "codes_val cs" "os_code l", folded two_half_block_def x_def]
  show "0 \<le> x" "x < 2 ^ 64" using t(7,8) codes_half_range [OF assms(1)] os_code_range [of l] by simp_all
  have "x AND 0xff = BLOCK_TYPE_OS_4" "octet_lanes x 4 7 = es" "ctrl_lanes x 0 4 = cs" "shr x 36 AND 0xf = os_code l"
    using t(1,2,3,6) codes_half_range [OF assms(1)] os_code_range [of l] assms(1,2) by simp_all
  then show "baser_decode (SYNC_CTRL, x) = cs @ l # es"
    using os_lane_code [OF assms(3)] by (simp add: baser_decode_def block_types)
qed

lemma decode_OS_START:
  assumes "os_ok l" "length ds = 3" "list_all data_lane ds" "length es = 3" "list_all data_lane es"
  defines "x \<equiv> two_half_block BLOCK_TYPE_OS_START (os_half l ds) 0 es"
  shows "baser_decode (SYNC_CTRL, x) = l # ds @ (XGMII_START, 1) # es" "0 \<le> x" "x < 2 ^ 64"
proof -
  have bt: "0 \<le> BLOCK_TYPE_OS_START" "BLOCK_TYPE_OS_START < 2 ^ 8" by (simp_all add: block_types)
  note r = os_half_range [OF assms(3,2), of l]
  note t = two_halves [OF bt r _ _ assms(5,4), of 0, folded two_half_block_def x_def]
  show "0 \<le> x" "x < 2 ^ 64" using t(7,8) by simp_all
  have "octet_lanes x 0 3 = ds" using t(5) [OF _ _ assms(3,2)] by (simp add: os_half_def)
  moreover have "x AND 0xff = BLOCK_TYPE_OS_START" "octet_lanes x 4 7 = es" "shr x 32 AND 0xf = os_code l"
    using t(1,3,4) os_half_code [OF assms(3,2), of l] by simp_all
  ultimately show "baser_decode (SYNC_CTRL, x) = l # ds @ (XGMII_START, 1) # es"
    using os_lane_code [OF assms(1)] by (simp add: baser_decode_def block_types)
qed

lemma decode_OS_04:
  assumes "os_ok l" "length ds = 3" "list_all data_lane ds" "os_ok l'" "length es = 3" "list_all data_lane es"
  defines "x \<equiv> two_half_block BLOCK_TYPE_OS_04 (os_half l ds) (os_code l') es"
  shows "baser_decode (SYNC_CTRL, x) = l # ds @ l' # es" "0 \<le> x" "x < 2 ^ 64"
proof -
  have bt: "0 \<le> BLOCK_TYPE_OS_04" "BLOCK_TYPE_OS_04 < 2 ^ 8" by (simp_all add: block_types)
  note r = os_half_range [OF assms(3,2), of l] and c = os_code_range [of l']
  note t = two_halves [OF bt r conjunct1 [OF c] conjunct2 [OF c] assms(6,5), folded two_half_block_def x_def]
  show "0 \<le> x" "x < 2 ^ 64" using t(7,8) by simp_all
  have "octet_lanes x 0 3 = ds" using t(5) [OF assms(3,2)] by (simp add: os_half_def)
  moreover have "x AND 0xff = BLOCK_TYPE_OS_04" "octet_lanes x 4 7 = es" "shr x 32 AND 0xf = os_code l"
      "shr x 36 AND 0xf = os_code l'"
    using t(1,2,3,4) os_half_code [OF assms(3,2), of l] by simp_all
  ultimately show "baser_decode (SYNC_CTRL, x) = l # ds @ l' # es"
    using os_lane_code [OF assms(1)] os_lane_code [OF assms(4)] by (simp add: baser_decode_def block_types)
qed

text \<open>Every block the encoder is meant for falls into one of the shapes above.\<close>

lemma cut4:
  assumes "length ls = 8"
  shows "take 4 ls @ drop 4 ls = ls" "length (take 4 ls) = 4" "length (drop 4 ls) = 4"
  using assms by simp_all

lemma half_cons:
  assumes "length h = 4"
  shows "h = hd h # tl h" "length (tl h) = 3"
  using assms by (cases h; simp)+

lemma cut_term:
  assumes "length ls = 8" "k < 8" "term_lanes ls k"
  shows "take k ls @ (XGMII_TERM, 1) # drop (k + 1) ls = ls"
  using assms id_take_nth_drop [of k ls] by (simp add: term_lanes_def)

definition block_back :: "lane list \<Rightarrow> bool" where
  "block_back ls \<longleftrightarrow> baser_decode (baser_encode ls) = ls \<and> fst (baser_encode ls) \<in> {SYNC_DATA, SYNC_CTRL}
     \<and> 0 \<le> snd (baser_encode ls) \<and> snd (baser_encode ls) < 2 ^ 64"

lemma block_backI:
  "baser_encode ls = (SYNC_CTRL, x) \<Longrightarrow> baser_decode (SYNC_CTRL, x) = ls \<Longrightarrow> 0 \<le> x \<Longrightarrow> x < 2 ^ 64 \<Longrightarrow> block_back ls"
  by (simp add: block_back_def)

lemma block_back_halves:
  assumes "length ls = 8" "list_all code_lane (take 4 ls) \<or> os_lanes (take 4 ls)"
    "start_lanes8 (drop 4 ls) \<or> os_lanes (drop 4 ls)"
  shows "block_back ls"
proof -
  let ?a = "take 4 ls" and ?b = "drop 4 ls"
  note c = cut4 [OF assms(1)]
  note b = half_cons [OF c(3)] and a = half_cons [OF c(2)]
  consider (start) "hd ?b = (XGMII_START, 1)" "list_all data_lane (tl ?b)"
    | (os) "os_ok (hd ?b)" "list_all data_lane (tl ?b)"
    using assms(3) by (auto simp: start_lanes8_def os_lanes_def)
  note second = this
  consider (code) "list_all code_lane ?a" | (os0) "os_ok (hd ?a)" "list_all data_lane (tl ?a)"
    using assms(2) by (auto simp: os_lanes_def)
  then show ?thesis
  proof cases
    case code
    have ls: "ls = ?a @ hd ?b # tl ?b" using c(1) b(1) by metis
    from second show ?thesis
    proof cases
      case start
      then have ls': "?a @ (XGMII_START, 1) # tl ?b = ls" using ls by metis
      show ?thesis
        using block_backI [OF encode_START_4 decode_START_4, OF c(2) code b(2) start(2) c(2) code b(2) start(2)
          c(2) code b(2) start(2) c(2) code b(2) start(2)] unfolding ls' .
    next
      case os
      show ?thesis
        using block_backI [OF encode_OS_4 decode_OS_4, OF c(2) code os(1) b(2) os(2) c(2) code os(1) b(2) os(2)
          c(2) code os(1) b(2) os(2) c(2) code os(1) b(2) os(2)] unfolding ls [symmetric] .
    qed
  next
    case os0
    have ls: "ls = hd ?a # tl ?a @ hd ?b # tl ?b" using c(1) a(1) b(1) by (metis append_Cons)
    from second show ?thesis
    proof cases
      case start
      then have ls': "hd ?a # tl ?a @ (XGMII_START, 1) # tl ?b = ls" using ls by metis
      show ?thesis
        using block_backI [OF encode_OS_START decode_OS_START, OF os0(1) a(2) os0(2) b(2) start(2) os0(1) a(2) os0(2)
          b(2) start(2) os0(1) a(2) os0(2) b(2) start(2) os0(1) a(2) os0(2) b(2) start(2)] unfolding ls' .
    next
      case os
      show ?thesis
        using block_backI [OF encode_OS_04 decode_OS_04, OF os0(1) a(2) os0(2) os(1) b(2) os(2) os0(1) a(2) os0(2)
          os(1) b(2) os(2) os0(1) a(2) os0(2) os(1) b(2) os(2) os0(1) a(2) os0(2) os(1) b(2) os(2)]
        unfolding ls [symmetric] .
    qed
  qed
qed

lemma block_back_term:
  assumes "length ls = 8" "k < 8" "term_lanes ls k"
  shows "block_back ls"
proof -
  have h: "length (take k ls) = k" "length (drop (k + 1) ls) = 7 - k"
      "list_all data_lane (take k ls)" "list_all code_lane (drop (k + 1) ls)"
    using assms by (simp_all add: term_lanes_def)
  let ?x = "term_type k + 2 ^ 8 * octets_val (take k ls) + 2 ^ (7 * (k + 1) + 8) * codes_val (drop (k + 1) ls)"
  note tt = term_type_range [OF assms(2)] and od = octets_val_range [OF h(3), unfolded h(1)]
    and cr = codes_val_range [of "drop (k + 1) ls", unfolded h(2)]
  have "0 \<le> ?x" using tt od cr by simp
  moreover have "?x < 2 ^ 64"
  proof -
    let ?n = "7 * (k + 1) + 8"
    have "term_type k + 2 ^ 8 * octets_val (take k ls) < 2 ^ 8 * 2 ^ (8 * k)" using tt od by simp
    also note term_room [OF assms(2)]
    finally have "?x < 2 ^ ?n * (1 + codes_val (drop (k + 1) ls))" by (simp add: algebra_simps)
    also have "\<dots> \<le> 2 ^ ?n * 2 ^ (7 * (7 - k))" using cr by (intro mult_left_mono) simp_all
    also have "\<dots> = 2 ^ 64"
    proof -
      have "?n + 7 * (7 - k) = 64" using assms(2) by simp
      then show ?thesis by (simp only: power_add [symmetric])
    qed
    finally show ?thesis .
  qed
  ultimately show ?thesis
    using block_backI [OF encode_term decode_term, OF h(1,2) assms(2) h(3,4) h(1,2) assms(2) h(3,4)]
    unfolding cut_term [OF assms] by blast
qed

lemma baser_block_back:
  assumes "baser_block ls"
  shows "block_back ls"
proof -
  have n: "length ls = 8" using assms by (simp add: baser_block_def)
  consider "list_all data_lane ls" | "list_all code_lane ls" | "start_lanes8 ls"
    | "list_all code_lane (take 4 ls) \<or> os_lanes (take 4 ls)" "start_lanes8 (drop 4 ls) \<or> os_lanes (drop 4 ls)"
    | k where "k < 8" "term_lanes ls k"
    using assms by (auto simp: baser_block_def list_ex_iff)
  then show ?thesis
  proof cases
    case 1
    show ?thesis using block_data [OF n 1] by (simp add: block_back_def)
  next
    case 2
    have "0 \<le> BLOCK_TYPE_CTRL + 2 ^ 8 * codes_val ls" "BLOCK_TYPE_CTRL + 2 ^ 8 * codes_val ls < 2 ^ 64"
      using codes_val_range [of ls] n by (simp_all add: block_types)
    then show ?thesis by (rule block_backI [OF block_ctrl [OF n 2]])
  next
    case 3
    have t: "length (tl ls) = 7" "list_all data_lane (tl ls)" "(XGMII_START, 1) # tl ls = ls"
      using 3 n by (cases ls; simp add: start_lanes8_def)+
    have "0 \<le> BLOCK_TYPE_START_0 + 2 ^ 8 * octets_val (tl ls)"
        "BLOCK_TYPE_START_0 + 2 ^ 8 * octets_val (tl ls) < 2 ^ 64"
      using octets_val_range [OF t(2)] t(1) by (simp_all add: block_types)
    then show ?thesis using block_backI [OF block_start_0, OF t(1,2) t(1,2)] unfolding t(3) by blast
  qed (auto intro: block_back_halves [OF n] block_back_term [OF n])
qed

text \<open>
C18: Every block of eight XGMII lanes that the 64b/66b code has a block type for - eight octets,
eight control characters, a start in lane 0, control characters or an ordered set followed by
a start or an ordered set in lane 4, a terminate in any lane - is encoded as a valid sync
header and 64 bits, and the decoder of the sink returns the eight lanes from them.
\<close>
theorem baser_block_roundtrip:
  assumes "baser_block ls"
  shows "baser_decode (baser_encode ls) = ls \<and> fst (baser_encode ls) \<in> {SYNC_DATA, SYNC_CTRL} \<and>
    0 \<le> snd (baser_encode ls) \<and> snd (baser_encode ls) < 2 ^ 64"
  using baser_block_back [OF assms] by (simp only: block_back_def)

theorem baser_block_roundtrip_witness:
  "baser_decode (baser_encode [(1, 0), (2, 0), (3, 0), (XGMII_TERM, 1), (XGMII_IDLE, 1), (XGMII_LPI, 1),
     (XGMII_IDLE, 1), (XGMII_ERROR, 1)]) =
   [(1, 0), (2, 0), (3, 0), (XGMII_TERM, 1), (XGMII_IDLE, 1), (XGMII_LPI, 1), (XGMII_IDLE, 1), (XGMII_ERROR, 1)]"
  by (rule conjunct1 [OF baser_block_roundtrip])
     (simp add: baser_block_def term_lanes_def data_lane_def code_lane_def in_lane_def numeral_eq_Suc)

text \<open>
C35: An ordered set in lane 0 followed by control characters in the second half has no encoding: the
branch of \<open>BLOCK_TYPE_OS_0\<close> shifts the codes of lanes 0 to 3 by 40 instead of those of lanes
4 to 7 by 36, and for every such block the result exceeds the 64 bits of the word.
\<close>
theorem baser_encode_OS_0_overflows:
  assumes "os_ok l" "length ds = 3" "list_all data_lane ds" "length cs = 4" "list_all code_lane cs"
  shows "fst (baser_encode (l # ds @ cs)) = SYNC_CTRL \<and> 2 ^ 64 \<le> snd (baser_encode (l # ds @ cs))"
proof -
  have err: "ctrl_code l = 0x1e" "data_lane d \<Longrightarrow> ctrl_code d = 0x1e" for d
    using assms(1) by (cases l; cases d; auto simp: ctrl_code_def ctrl_codes os_ok_def data_lane_def xgmii_chars)+
  have c: "codes_val (l # ds @ cs) AND 0xfffffff = codes_val (l # ds)"
    using codes_low4 [of "l # ds" cs] assms(2) by simp
  have v: "codes_val (l # ds) = 0x3c78f1e"
    using assms(3) err by (rule_tac len3 [OF assms(2)]) (simp add: codes_val_def)
  have c40: "shl (codes_val (l # ds @ cs) AND 0xfffffff) 40 = shl 0x3c78f1e 40"
    by (simp only: c v)
  have e: "baser_encode (l # ds @ cs) = (SYNC_CTRL,
      BLOCK_TYPE_OS_0 OR shl 0x3c78f1e 40 OR shl (octets_val ds) 8 OR shl (os_code l) 32)"
    using c40 assms(3,5) os_okD [OF assms(1)] octet_loop_shift [OF assms(3), of 1]
    by (rule_tac len3 [OF assms(2)], rule_tac len4 [OF assms(4)])
       (simp add: encode_simps Let_def sig_code or.assoc del: octet_loop.simps)
  have "(2 :: int) ^ 64 \<le> shl 0x3c78f1e 40" by simp
  also have "\<dots> \<le> snd (baser_encode (l # ds @ cs))"
  proof -
    have nn: "0 \<le> shl (octets_val ds) 8 OR shl (os_code l) 32 OR BLOCK_TYPE_OS_0"
      using octets_val_range [OF assms(3)] os_code_range [of l] by (simp add: block_types)
    show ?thesis using or_greater_eq [OF nn, of "shl 0x3c78f1e 40"]
      unfolding e snd_conv by (simp only: ac_simps)
  qed
  finally show ?thesis by (simp add: e)
qed

theorem baser_encode_OS_0_overflows_witness:
  "2 ^ 64 \<le> snd (baser_encode ((XGMII_SEQ_OS, 1) # [(0, 0), (0, 0), (1, 0)] @ replicate 4 (XGMII_IDLE, 1)))"
  by (rule conjunct2 [OF baser_encode_OS_0_overflows])
     (simp_all add: os_ok_def data_lane_def code_lane_def in_lane_def numeral_eq_Suc)

end
