(* ===== verification/Baser_Endpoint.thy ===== *)
theory Baser_Endpoint
  imports Baser_Codec
begin

text \<open>
  \<open>BaseRSerdesSource\<close> and \<open>BaseRSerdesSink\<close> of \<open>lib/eth/tb/baser_serdes_ep.py\<close>: Ethernet frames
  as 64b/66b blocks on the interface of a serialiser, one block per clock cycle.

  The source builds the lanes of a frame as the XGMII source does, encodes them eight at a time and
  keeps the blocks in a queue of its own; every block it drives, idle blocks included, passes the
  scrambler and the bit reversal when these are on.  The sink undoes the two, decodes the block and
  collects the lanes as the XGMII sink does.

  The properties are proved in two layers.  With both transformations off the two ends are an instance of
  the locale \<open>wire_link\<close>; with any setting, a run refines the run without them, by the
  abstraction that descrambles the block on the wire with the register of the sink.
\<close>

section \<open>BaseRSerdesSource\<close>

text \<open>
  The attributes that a test sets are those of the XGMII source, with the width of the bus, eight
  octets, as \<open>xg_bw\<close>; the arguments \<open>scramble\<close> and \<open>reverse\<close> of \<open>create_logic\<close> are a record.
\<close>

record baser_line =
  bl_scramble :: bool
  bl_reverse :: bool

definition baser_width :: "nat \<Rightarrow> nat \<Rightarrow> nat result" where
  \<comment> \<open>\<open>assert len(tx_data) in [64]\<close>, \<open>assert len(tx_data) == len(tx_header)*32\<close>\<close>
  "baser_width tx_data tx_header =
     bindR (assertR (tx_data = 64)) (\<lambda>_. bindR (assertR (tx_data = tx_header * 32)) (\<lambda>_. Inr (tx_data div 8)))"

record baser_source =
  bs_queue :: "xgmii_frame list"
  bs_ccl :: "(int \<times> int) list" \<comment> \<open>header and data of the blocks left of the frame\<close>
  bs_ifg_cnt :: int
  bs_deficit :: int
  bs_scrambler :: int
  bs_tx_data :: int
  bs_tx_header :: int

definition baser_source0 :: baser_source where
  \<comment> \<open>the signals start at 0\<close>
  "baser_source0 =
     \<lparr>bs_queue = [], bs_ccl = [], bs_ifg_cnt = 0, bs_deficit = 0, bs_scrambler = 0,
      bs_tx_data = 0, bs_tx_header = 0\<rparr>"

definition baser_send :: "xgmii_arg \<Rightarrow> baser_source \<Rightarrow> baser_source" where
  "baser_send frame self = self\<lparr>bs_queue := bs_queue self @ [XGMIIFrame frame ErrNone None]\<rparr>"

definition baser_source_count :: "baser_source \<Rightarrow> nat" where
  "baser_source_count self = length (bs_queue self)"

definition baser_source_empty :: "baser_source \<Rightarrow> bool" where
  "baser_source_empty self \<longleftrightarrow> bs_queue self = []"

definition pad_block :: "lane list \<Rightarrow> lane list" where
  "pad_block dl =
     (if length dl mod 8 \<noteq> 0 then dl @ replicate (8 - length dl mod 8) (XGMII_IDLE, 1) else dl)"

definition encode_blocks :: "lane list \<Rightarrow> (int \<times> int) list" where
  \<comment> \<open>\<open>for k in range(0, len(dl), 8)\<close>\<close>
  "encode_blocks dl = map baser_encode (chunks 8 dl)"

definition pop_block :: "xgmii_cfg \<Rightarrow> baser_source \<Rightarrow> ((int \<times> int) \<times> baser_source) result" where
  "pop_block cfg self =
     bindR (pop0 (bs_ccl self)) (\<lambda>((header, data), ccl).
       Inr ((header, data), self\<lparr>bs_ccl := ccl,
         bs_ifg_cnt :=
           (if ccl = [] then
              (case block_type_term_lane (data AND 0xff) of
                 Some l \<Rightarrow> xg_ifg cfg - (int (xg_bw cfg) - int l) + bs_deficit self
               | None \<Rightarrow> xg_ifg cfg + bs_deficit self)
            else bs_ifg_cnt self)\<rparr>))"

definition idle_block :: "int \<times> int" where
  "idle_block = (1, 0x1e)"

definition next_block :: "xgmii_cfg \<Rightarrow> baser_source \<Rightarrow> ((int \<times> int) \<times> baser_source) result" where
  "next_block cfg self =
     (if in_gap cfg (bs_ifg_cnt self) then
        Inr (idle_block, self\<lparr>bs_ifg_cnt := max (bs_ifg_cnt self - int (xg_bw cfg)) 0\<rparr>)
      else if bs_ccl self \<noteq> [] then pop_block cfg self
      else if bs_queue self \<noteq> [] then
        bindR (pop0 (bs_queue self)) (\<lambda>(frame, q).
        bindR (xgmii_build frame) (\<lambda>dl.
        bindR (start_lanes dl) (\<lambda>dl.
          let off = offset_start cfg (bs_ifg_cnt self);
              ifg_cnt = (if off then max (bs_ifg_cnt self - 4) 0 else bs_ifg_cnt self);
              dl = (if off then replicate 4 (XGMII_IDLE, 1) @ dl else dl)
          in pop_block cfg (self\<lparr>bs_queue := q, bs_ccl := bs_ccl self @ encode_blocks (pad_block dl),
                                 bs_ifg_cnt := 0, bs_deficit := max ifg_cnt 0\<rparr>))))
      else Inr (idle_block, self\<lparr>bs_ifg_cnt := 0, bs_deficit := 0\<rparr>))"

definition put_block :: "baser_line \<Rightarrow> int \<times> int \<Rightarrow> baser_source \<Rightarrow> baser_source result" where
  \<comment> \<open>scrambler, bit reversal and the assignments to \<open>tx_data\<close> and \<open>tx_header\<close>\<close>
  "put_block line w self =
     (case w of (header, data) \<Rightarrow>
      let (st, data) = (if bl_scramble line then baser_scramble (bs_scrambler self) data
                        else (bs_scrambler self, data));
          header = (if bl_reverse line then reverse_bits 2 header else header);
          data = (if bl_reverse line then reverse_bits 64 data else data)
      in if fits (Some 64) data \<and> fits (Some 2) header
         then Inr (self\<lparr>bs_scrambler := st, bs_tx_data := data, bs_tx_header := header\<rparr>)
         else Inl ValueError)"

definition baser_source_step :: "xgmii_cfg \<Rightarrow> baser_line \<Rightarrow> bool \<Rightarrow> baser_source \<Rightarrow> baser_source result" where
  "baser_source_step cfg line enable self =
     (if \<not> enable then Inr self
      else bindR (next_block cfg self) (\<lambda>(w, self). put_block line w self))"

section \<open>BaseRSerdesSink\<close>

text \<open>The queue and the frame under construction are those of the XGMII sink.\<close>

record baser_sink =
  bk_rx :: xgmii_sink
  bk_scrambler :: int

definition baser_sink0 :: baser_sink where
  "baser_sink0 = \<lparr>bk_rx = xgmii_sink0, bk_scrambler = 0\<rparr>"

definition line_in :: "baser_line \<Rightarrow> int \<Rightarrow> int \<times> int \<Rightarrow> int \<times> (int \<times> int)" where
  \<comment> \<open>bit reversal and descrambler: the new register, and the block\<close>
  "line_in line st w =
     (case w of (header, data) \<Rightarrow>
      let data = (if bl_reverse line then reverse_bits 64 data else data);
          header = (if bl_reverse line then reverse_bits 2 header else header);
          (st, data) = (if bl_scramble line then baser_descramble st data else (st, data))
      in (st, header, data))"

definition take_lanes :: "lane list \<Rightarrow> xgmii_sink \<Rightarrow> xgmii_sink result" where
  "take_lanes ls self =
     (case xk_frame self of
        None \<Rightarrow>
          if snd (ls ! 0) \<noteq> 0 \<and> fst (ls ! 0) = XGMII_START then
            Inr (self\<lparr>xk_frame := Some ((ETH_PRE, 0) # map (\<lambda>i. ls ! i) [1..<8])\<rparr>)
          else if snd (ls ! 4) \<noteq> 0 \<and> fst (ls ! 4) = XGMII_START then
            Inr (self\<lparr>xk_frame := Some ((ETH_PRE, 0) # map (\<lambda>i. ls ! i) [5..<8])\<rparr>)
          else Inr self
      | Some ds \<Rightarrow> collect_lanes ls ds self)"

definition baser_sink_step :: "baser_line \<Rightarrow> bool \<Rightarrow> int \<times> int \<Rightarrow> baser_sink \<Rightarrow> baser_sink result" where
  "baser_sink_step line enable w self =
     (if \<not> enable then Inr self
      else case line_in line (bk_scrambler self) w of (st, b) \<Rightarrow>
        bindR (take_lanes (baser_decode b) (bk_rx self)) (\<lambda>rx.
          Inr (self\<lparr>bk_rx := rx, bk_scrambler := st\<rparr>)))"

definition baser_sink_recv :: "baser_sink \<Rightarrow> xgmii_frame option \<times> baser_sink" where
  "baser_sink_recv self =
     (case xk_queue (bk_rx self) of
        [] \<Rightarrow> (None, self)
      | f # q \<Rightarrow> (Some f, self\<lparr>bk_rx := (bk_rx self)\<lparr>xk_queue := q\<rparr>\<rparr>))"

definition baser_sink_count :: "baser_sink \<Rightarrow> nat" where
  "baser_sink_count self = length (xk_queue (bk_rx self))"

definition baser_sink_empty :: "baser_sink \<Rightarrow> bool" where
  "baser_sink_empty self \<longleftrightarrow> xk_queue (bk_rx self) = []"

section \<open>The two ends on one line\<close>

definition baser_out :: "baser_source \<Rightarrow> int \<times> int" where
  "baser_out s = (bs_tx_header s, bs_tx_data s)"

definition baser_wire :: "xgmii_cfg \<Rightarrow> baser_line \<Rightarrow> (baser_source, baser_sink, int \<times> int, xgmii_frame) wire" where
  "baser_wire cfg line =
     \<lparr>w_src = baser_source_step cfg line, w_out = baser_out,
      w_send = (\<lambda>f. baser_send (XFrame f)), w_snk = baser_sink_step line\<rparr>"

section \<open>The blocks of a frame\<close>

lemma data_lane_ok: "data_lane l \<Longrightarrow> lane_ok l"
  by (cases l) (simp add: data_lane_def lane_ok_def in_lane_def)

lemma idle_code: "code_lane idle_lane"
  by (simp add: idle_lane_def code_lane_def)

lemma list_all_replicate: "P x \<Longrightarrow> list_all P (replicate n x)"
  by (induction n) simp_all

lemma chunks_pad_block: "chunks 8 (pad_block ls) = map (pad 8) (chunks 8 ls)"
proof (induction ls rule: length_induct)
  case (1 ls)
  show ?case
  proof (cases "8 \<le> length ls")
    case True
    have "length ls mod 8 = length (drop 8 ls) mod 8" using True by (simp add: le_mod_geq)
    then have p: "pad_block ls = take 8 ls @ pad_block (drop 8 ls)" by (simp add: pad_block_def)
    have "chunks 8 (pad_block ls) = take 8 ls # chunks 8 (pad_block (drop 8 ls))"
      using True by (subst chunks_Cons) (auto simp: p)
    also have "chunks 8 (pad_block (drop 8 ls)) = map (pad 8) (chunks 8 (drop 8 ls))"
      using 1 True by simp
    also have "take 8 ls # map (pad 8) (chunks 8 (drop 8 ls)) = map (pad 8) (chunks 8 ls)"
      using True by (subst (2) chunks_Cons) (auto simp: pad_full)
    finally show ?thesis .
  next
    case False
    then show ?thesis
    proof (cases ls)
      case (Cons l ls')
      then have "pad_block ls = pad 8 ls" "length (pad 8 ls) = 8"
        using False by (auto simp: pad_block_def pad_def idle_lane_def)
      moreover from this(2) have "pad 8 ls \<noteq> []" by auto
      then have "chunks 8 (pad 8 ls) = [pad 8 ls]"
        using chunks_Cons [of 8 "pad 8 ls"] \<open>length (pad 8 ls) = 8\<close> by simp
      ultimately show ?thesis using Cons False by (simp add: chunks_Cons)
    qed (simp add: pad_block_def)
  qed
qed

definition term_block :: "int \<times> int \<Rightarrow> bool" where
  "term_block b \<longleftrightarrow> block_type_term_lane (snd b AND 0xff) \<noteq> None"

lemma encode_term_block:
  assumes "list_all data_lane ds" "length ds < 8"
  shows "baser_block (pad 8 (ds @ [(XGMII_TERM, 1)]))"
    "term_block (baser_encode (pad 8 (ds @ [(XGMII_TERM, 1)])))"
proof -
  define cs where "cs = replicate (7 - length ds) idle_lane"
  have p: "pad 8 (ds @ [(XGMII_TERM, 1)]) = ds @ (XGMII_TERM, 1) # cs" by (simp add: pad_def cs_def)
  have cs: "length cs = 7 - length ds" "list_all code_lane cs"
    by (simp_all add: cs_def list_all_replicate idle_code)
  have "term_lanes (ds @ (XGMII_TERM, 1) # cs) (length ds)"
    using assms(1) cs(2) by (simp add: term_lanes_def)
  then show "baser_block (pad 8 (ds @ [(XGMII_TERM, 1)]))"
    using assms(2) cs(1) unfolding p by (auto simp: baser_block_def list_ex_iff)
  let ?k = "length ds"
  have pow: "7 * (?k + 1) + 8 = 8 + (8 * ?k + (7 - ?k))" using assms(2) by simp
  have e: "baser_encode (ds @ (XGMII_TERM, 1) # cs) =
      (SYNC_CTRL, term_type ?k + 2 ^ 8 * (octets_val ds + 2 ^ (8 * ?k + (7 - ?k)) * codes_val cs))"
    using encode_term [OF refl cs(1) assms(2,1) cs(2)]
    unfolding pow power_add by (simp add: algebra_simps)
  have "snd (baser_encode (ds @ (XGMII_TERM, 1) # cs)) AND 0xff = term_type ?k"
    unfolding e snd_conv using term_type_range [OF assms(2)] by (intro type_and_rest(2)) auto
  moreover have "block_type_term_lane (term_type ?k) \<noteq> None"
    using assms(2)
    by (auto simp: term_type_def block_type_term_lane_def less_Suc_eq numeral_eq_Suc)
  ultimately show "term_block (baser_encode (pad 8 (ds @ [(XGMII_TERM, 1)])))"
    unfolding p by (simp add: term_block_def)
qed

lemma data_blocks:
  "list_all data_lane ds \<Longrightarrow>
    list_all baser_block (map (pad 8) (chunks 8 (ds @ [(XGMII_TERM, 1)])))
    \<and> term_block (List.last (map (baser_encode \<circ> pad 8) (chunks 8 (ds @ [(XGMII_TERM, 1)]))))"
proof (induction ds rule: length_induct)
  case (1 ds)
  let ?T = "[(XGMII_TERM, 1)] :: lane list"
  {
    assume len: "8 \<le> length ds"
    then have c: "chunks 8 (ds @ ?T) = take 8 ds # chunks 8 (drop 8 ds @ ?T)"
      by (subst chunks_Cons) auto
    have "list_all data_lane (take 8 ds)" "list_all data_lane (drop 8 ds)" "length (take 8 ds) = 8"
      using 1(2) len by (auto simp: list_all_iff dest: in_set_takeD in_set_dropD)
    moreover have "chunks 8 (drop 8 ds @ ?T) \<noteq> []" by simp
    moreover have "length (drop 8 ds) < length ds" using len by auto
    ultimately have ?case using 1(1) c by (simp add: baser_block_def pad_full)
  }
  moreover {
    assume len: "\<not> 8 \<le> length ds"
    then have "chunks 8 (ds @ ?T) = [ds @ ?T]" by (subst chunks_Cons) auto
    then have ?case using encode_term_block [OF 1(2)] len by simp
  }
  ultimately show ?case by blast
qed

lemma first_block:
  assumes "length h = 8" "baser_block h" "list_all data_lane ds"
  defines "ls \<equiv> h @ ds @ [(XGMII_TERM, 1)]"
  shows "list_all baser_block (map (pad 8) (chunks 8 ls))"
    "term_block (List.last (map (baser_encode \<circ> pad 8) (chunks 8 ls)))"
proof -
  have "chunks 8 ls = h # chunks 8 (ds @ [(XGMII_TERM, 1)])"
    using assms(1) by (subst chunks_Cons) (auto simp: ls_def)
  moreover have "chunks 8 (ds @ [(XGMII_TERM, 1)]) \<noteq> []" by simp
  ultimately show "list_all baser_block (map (pad 8) (chunks 8 ls))"
      "term_block (List.last (map (baser_encode \<circ> pad 8) (chunks 8 ls)))"
    using data_blocks [OF assms(3)] assms(1,2) by (simp_all add: pad_full)
qed

lemma frame_blocks:
  assumes "list_all data_lane ls" "8 \<le> length ls"
    "fl = frame_lanes ls \<or> fl = replicate 4 idle_lane @ frame_lanes ls"
  shows "list_all baser_block (map (pad 8) (chunks 8 fl))"
    "term_block (List.last (map (baser_encode \<circ> pad 8) (chunks 8 fl)))"
proof -
  obtain l rest where ls: "ls = l # rest" using assms(2) by (cases ls) auto
  have rest: "list_all data_lane (take n rest)" "list_all data_lane (drop n rest)" for n
    using assms(1) ls by (auto simp: list_all_iff dest: in_set_takeD in_set_dropD)
  define off where "off = (if fl = frame_lanes ls then 0 else 4 :: nat)"
  define h where "h = replicate off idle_lane @ (XGMII_START, 1) # take (7 - off) rest"
  have off: "off \<in> {0, 4}" by (simp add: off_def)
  have len: "length h = 8" using off assms(2) ls by (auto simp: h_def)
  have fl: "fl = h @ drop (7 - off) rest @ [(XGMII_TERM, 1)]"
    using assms(3) off by (auto simp: h_def off_def frame_lanes_def ls split: if_splits)
  have "start_lanes8 (drop off h)" using rest(1) by (simp add: h_def start_lanes8_def)
  moreover have "off = 4 \<Longrightarrow> list_all code_lane (take 4 h)"
    by (simp add: h_def list_all_replicate idle_code)
  ultimately have "baser_block h" using off len by (auto simp: baser_block_def)
  from first_block [OF len this rest(2)]
  show "list_all baser_block (map (pad 8) (chunks 8 fl))"
    "term_block (List.last (map (baser_encode \<circ> pad 8) (chunks 8 fl)))"
    unfolding fl by blast+
qed

section \<open>The source without scrambler and reversal as a wire source\<close>

definition plain_line :: baser_line where
  "plain_line = \<lparr>bl_scramble = False, bl_reverse = False\<rparr>"

definition baser_sendable :: "xgmii_frame \<Rightarrow> bool" where
  "baser_sendable f \<longleftrightarrow> f = XGMIIFrame (XBytes (xf_data f)) ErrNone None \<and> xgmii_plain 8 (xf_data f)"

definition octets :: "xgmii_frame \<Rightarrow> lane list" where
  "octets f = map (\<lambda>b. (uint b, 0)) (xf_data f)"

definition frame_code :: "lane list \<Rightarrow> (int \<times> int) list" where
  "frame_code fl = map (baser_encode \<circ> pad 8) (chunks 8 fl)"

definition baser_code :: "xgmii_frame \<Rightarrow> (int \<times> int) list \<Rightarrow> bool" where
  "baser_code f ws \<longleftrightarrow> baser_sendable f
     \<and> ws \<in> {frame_code (frame_lanes (octets f)), frame_code (replicate 4 idle_lane @ frame_lanes (octets f))}"

definition baser_idle :: "int \<times> int \<Rightarrow> bool" where
  \<comment> \<open>the idle block and the initial value of the signals\<close>
  "baser_idle w \<longleftrightarrow> w = idle_block \<or> w = (0, 0)"

definition baser_coming :: "baser_source \<Rightarrow> (int \<times> int) list" where
  "baser_coming s = (if bs_ccl s = [] \<and> baser_idle (baser_out s) then [] else baser_out s # bs_ccl s)"

definition baser_gap :: "xgmii_cfg \<Rightarrow> baser_source \<Rightarrow> nat" where
  "baser_gap cfg s = (if in_gap cfg (bs_ifg_cnt s) then nat (bs_ifg_cnt s) else 0)"

definition block_fits :: "int \<times> int \<Rightarrow> bool" where
  "block_fits b \<longleftrightarrow> fits (Some 2) (fst b) \<and> fits (Some 64) (snd b)"

definition baser_inv :: "xgmii_cfg \<Rightarrow> baser_source \<Rightarrow> bool" where
  "baser_inv cfg s \<longleftrightarrow>
     xg_bw cfg = 8 \<and> list_all block_fits (bs_ccl s)
     \<and> (bs_ccl s \<noteq> [] \<longrightarrow> bs_ifg_cnt s = 0 \<and> term_block (List.last (bs_ccl s)))
     \<and> 0 \<le> bs_deficit s \<and> bs_deficit s \<le> 3 \<and> bs_ifg_cnt s \<le> max 0 (xg_ifg cfg) + 3"

lemma term_not_idle_block: "term_block b \<Longrightarrow> \<not> baser_idle b"
  by (auto simp: term_block_def baser_idle_def idle_block_def block_type_term_lane_def block_types)

lemma encode_fits: "baser_block ls \<Longrightarrow> block_fits (baser_encode ls)"
  using baser_block_back [of ls] by (auto simp: block_fits_def block_back_def fits_def block_types)

lemma octets_data: "list_all data_lane (octets f)"
  by (auto simp: octets_def list_all_iff data_lane_def in_lane_def uint_lt2p [where 'a = 8, simplified])

lemma term_lane_bound: "block_type_term_lane bt = Some l \<Longrightarrow> l < 8"
  by (auto simp: block_type_term_lane_def split: if_splits)

lemma frame_code_ok:
  assumes "baser_sendable f"
    "fl = frame_lanes (octets f) \<or> fl = replicate 4 idle_lane @ frame_lanes (octets f)"
  shows "frame_code fl \<noteq> []" "list_all block_fits (frame_code fl)" "term_block (List.last (frame_code fl))"
    "length (frame_code fl) \<le> (length (xf_data f) + 12) div 8"
proof -
  have len: "8 \<le> length (octets f)"
    using assms(1) by (simp add: baser_sendable_def xgmii_plain_def octets_def)
  note fb = frame_blocks [OF octets_data len assms(2)]
  show "list_all block_fits (frame_code fl)"
    using fb(1) by (auto simp: frame_code_def list_all_iff intro: encode_fits)
  show "term_block (List.last (frame_code fl))" using fb(2) by (simp add: frame_code_def)
  have "fl \<noteq> []" using assms(2) by (auto simp: frame_lanes_def)
  then show "frame_code fl \<noteq> []" by (simp add: frame_code_def)
  have "length fl \<le> length (xf_data f) + 5"
    using assms(2) len by (auto simp: frame_lanes_def octets_def)
  then show "length (frame_code fl) \<le> (length (xf_data f) + 12) div 8"
    by (auto simp: frame_code_def chunks_count intro!: div_le_mono)
qed

lemma put_plain:
  "block_fits w \<Longrightarrow> put_block plain_line w s = Inr (s\<lparr>bs_tx_data := snd w, bs_tx_header := fst w\<rparr>)"
  by (cases w) (simp add: put_block_def plain_line_def block_fits_def)

lemma pop_put:
  assumes "xg_bw cfg = 8" "bs_ccl s = b # bs" "list_all block_fits (b # bs)" "term_block (List.last (b # bs))"
    "bs_ifg_cnt s = 0" "0 \<le> bs_deficit s" "bs_deficit s \<le> 3"
  shows "\<exists>s'. bindR (pop_block cfg s) (\<lambda>(w, self). put_block plain_line w self) = Inr s'
    \<and> baser_inv cfg s' \<and> baser_coming s' = b # bs \<and> bs_queue s' = bs_queue s"
proof -
  obtain h d where b: "b = (h, d)" by (cases b)
  define cnt where "cnt = (if bs = [] then
      (case block_type_term_lane (d AND 0xff) of Some l \<Rightarrow> xg_ifg cfg - (8 - int l) + bs_deficit s
        | None \<Rightarrow> xg_ifg cfg + bs_deficit s) else 0)"
  define s' where "s' = s\<lparr>bs_ccl := bs, bs_ifg_cnt := cnt, bs_tx_data := d, bs_tx_header := h\<rparr>"
  have "cnt \<le> max 0 (xg_ifg cfg) + 3"
    using assms(7) by (auto simp: cnt_def split: option.split dest!: term_lane_bound)
  moreover have "cnt = 0" if "bs \<noteq> []" using that by (simp add: cnt_def)
  moreover have "term_block (List.last bs)" if "bs \<noteq> []" using that assms(4) by simp
  ultimately have "baser_inv cfg s'" using assms by (simp add: baser_inv_def s'_def)
  moreover have "baser_coming s' = b # bs"
    using assms(4) term_not_idle_block by (auto simp: baser_coming_def s'_def baser_out_def b)
  moreover have "pop_block cfg s = Inr ((h, d), s\<lparr>bs_ccl := bs, bs_ifg_cnt := cnt\<rparr>)"
    using assms(1,2,5) b by (simp add: pop_block_def cnt_def split: option.split)
  moreover have "put_block plain_line (h, d) (s\<lparr>bs_ccl := bs, bs_ifg_cnt := cnt\<rparr>) = Inr s'"
    using put_plain [of "(h, d)"] assms(3) b by (simp add: s'_def)
  ultimately show ?thesis by (auto simp: s'_def)
qed

lemma coming_no_ccl:
  assumes "baser_inv cfg s" "baser_coming s = [] \<or> baser_coming s = [w]"
  shows "bs_ccl s = []"
  using assms by (auto simp: baser_coming_def split: if_splits)

lemma baser_not_in_gap: "baser_inv cfg s \<Longrightarrow> baser_gap cfg s = 0 \<Longrightarrow> \<not> in_gap cfg (bs_ifg_cnt s)"
  by (auto simp: baser_gap_def baser_inv_def in_gap_def split: if_splits)

lemma baser_build:
  assumes "baser_sendable f"
  shows "xgmii_build f = Inr (octets f)" "start_lanes (octets f) = Inr (frame_lanes (octets f))"
proof -
  have f: "f = XGMIIFrame (XBytes (xf_data f)) ErrNone None" and p: "xgmii_plain 8 (xf_data f)"
    using assms by (simp_all add: baser_sendable_def)
  show "xgmii_build f = Inr (octets f)" by (subst f) (simp add: xgmii_build_plain octets_def)
  show "start_lanes (octets f) = Inr (frame_lanes (octets f))"
    using p by (cases "xf_data f")
      (auto simp: start_lanes_def octets_def frame_lanes_def xgmii_plain_def xgmii_chars)
qed

lemma baser_step_start:
  assumes "baser_inv cfg s" "bs_ccl s = []" "bs_queue s = f # fs" "baser_gap cfg s = 0" "baser_sendable f"
  shows "\<exists>s'. baser_source_step cfg plain_line True s = Inr s' \<and> baser_inv cfg s'
    \<and> baser_code f (baser_coming s') \<and> bs_queue s' = fs"
proof -
  have bw: "xg_bw cfg = 8" using assms(1) by (simp add: baser_inv_def)
  have ng: "\<not> in_gap cfg (bs_ifg_cnt s)" by (rule baser_not_in_gap [OF assms(1,4)])
  define off where "off = offset_start cfg (bs_ifg_cnt s)"
  define fl where "fl = (if off then replicate 4 idle_lane @ frame_lanes (octets f) else frame_lanes (octets f))"
  have fl: "fl = frame_lanes (octets f) \<or> fl = replicate 4 idle_lane @ frame_lanes (octets f)"
    by (simp add: fl_def)
  define s1 where "s1 = s\<lparr>bs_queue := fs, bs_ccl := frame_code fl, bs_ifg_cnt := 0,
    bs_deficit := max (if off then max (bs_ifg_cnt s - 4) 0 else bs_ifg_cnt s) 0\<rparr>"
  have enc: "encode_blocks (pad_block ls) = frame_code ls" for ls
    by (simp add: encode_blocks_def chunks_pad_block frame_code_def)
  have step: "baser_source_step cfg plain_line True s =
      bindR (pop_block cfg s1) (\<lambda>(w, self). put_block plain_line w self)"
  proof -
    have "next_block cfg s = pop_block cfg s1"
      using assms(2,3) ng baser_build [OF assms(5)] enc
      by (simp add: next_block_def s1_def off_def fl_def idle_lane_def Let_def)
    then show ?thesis by (simp add: baser_source_step_def)
  qed
  note fc = frame_code_ok [OF assms(5) fl]
  obtain b bs where b: "frame_code fl = b # bs" using fc(1) by (cases "frame_code fl") auto
  have "0 \<le> bs_deficit s1" "bs_deficit s1 \<le> 3"
    using ng bw by (auto simp: s1_def off_def offset_start_def in_gap_def)
  then have "\<exists>s'. bindR (pop_block cfg s1) (\<lambda>(w, self). put_block plain_line w self) = Inr s'
      \<and> baser_inv cfg s' \<and> baser_coming s' = b # bs \<and> bs_queue s' = bs_queue s1"
    using fc(2,3) b by (intro pop_put [OF bw]) (simp_all add: s1_def)
  moreover have "baser_code f (b # bs)" using fl assms(5) unfolding b [symmetric] by (auto simp: baser_code_def)
  ultimately show ?thesis using step by (auto simp: s1_def)
qed

lemma baser_step_idle:
  assumes "baser_inv cfg s" "bs_ccl s = []" "bs_queue s = [] \<or> baser_gap cfg s \<noteq> 0"
  shows "\<exists>s'. baser_source_step cfg plain_line True s = Inr s' \<and> baser_inv cfg s'
    \<and> baser_coming s' = [] \<and> bs_queue s' = bs_queue s \<and> baser_gap cfg s' \<le> baser_gap cfg s - 1"
proof -
  define cnt where "cnt = (if in_gap cfg (bs_ifg_cnt s) then max (bs_ifg_cnt s - int (xg_bw cfg)) 0 else 0)"
  define df where "df = (if in_gap cfg (bs_ifg_cnt s) then bs_deficit s else 0)"
  define s' where "s' = s\<lparr>bs_ifg_cnt := cnt, bs_deficit := df, bs_tx_data := 0x1e, bs_tx_header := 1\<rparr>"
  have ib: "block_fits idle_block" by (simp add: block_fits_def idle_block_def fits_def)
  have "bs_queue s = []" if "\<not> in_gap cfg (bs_ifg_cnt s)"
    using that assms(3) by (auto simp: baser_gap_def)
  then have "next_block cfg s = Inr (idle_block, s\<lparr>bs_ifg_cnt := cnt, bs_deficit := df\<rparr>)"
    using assms(2) by (simp add: next_block_def cnt_def df_def)
  then have "baser_source_step cfg plain_line True s = Inr s'"
    using put_plain [OF ib] by (simp add: baser_source_step_def s'_def idle_block_def)
  moreover have "baser_inv cfg s'"
    using assms(1,2) by (auto simp: s'_def baser_inv_def cnt_def df_def)
  moreover have "baser_coming s' = []"
    using assms(2) by (simp add: s'_def baser_coming_def baser_idle_def baser_out_def idle_block_def)
  moreover have "baser_gap cfg s' \<le> baser_gap cfg s - 1"
    using assms(1) by (auto simp: s'_def baser_gap_def cnt_def baser_inv_def in_gap_def)
  moreover have "bs_queue s' = bs_queue s" by (simp add: s'_def)
  ultimately show ?thesis by blast
qed

lemma baser_step_coming:
  assumes "baser_inv cfg s" "baser_coming s = w # v # ws"
  shows "\<exists>s'. baser_source_step cfg plain_line True s = Inr s' \<and> baser_inv cfg s'
    \<and> baser_coming s' = v # ws \<and> bs_queue s' = bs_queue s"
proof -
  have ccl: "bs_ccl s = v # ws" using assms(2) by (auto simp: baser_coming_def split: if_splits)
  have "next_block cfg s = pop_block cfg s"
    using assms(1) ccl by (auto simp: next_block_def baser_inv_def in_gap_def)
  then show ?thesis
    using assms(1) ccl pop_put [of cfg s v ws] by (simp add: baser_source_step_def baser_inv_def)
qed

lemma baser_send_laws:
  "baser_inv cfg s \<Longrightarrow> baser_inv cfg (baser_send (XFrame f) s)"
  "bs_queue (baser_send (XFrame f) s) = bs_queue s @ [f]"
  "baser_coming (baser_send (XFrame f) s) = baser_coming s"
  "baser_gap cfg (baser_send (XFrame f) s) = baser_gap cfg s"
  by (simp_all add: baser_send_def baser_inv_def baser_coming_def baser_gap_def baser_out_def)

definition baser_span :: "xgmii_frame \<Rightarrow> nat" where
  "baser_span f = (length (xf_data f) + 12) div 8"

lemma baser_code_laws:
  assumes "baser_code f ws"
  shows "ws \<noteq> []" "length ws \<le> baser_span f"
proof -
  obtain fl where "baser_sendable f" "ws = frame_code fl"
      "fl = frame_lanes (octets f) \<or> fl = replicate 4 idle_lane @ frame_lanes (octets f)"
    using assms unfolding baser_code_def by blast
  then show "ws \<noteq> []" "length ws \<le> baser_span f"
    using frame_code_ok(1,4) [of f fl] by (simp_all add: baser_span_def)
qed

lemma baser_max_gap: "baser_inv cfg s \<Longrightarrow> baser_gap cfg s \<le> nat (max 0 (xg_ifg cfg) + 3)"
  by (auto simp: baser_gap_def baser_inv_def)

interpretation baser_src: wire_source
  "baser_source_step cfg plain_line True" baser_out "\<lambda>f. baser_send (XFrame f)" "baser_inv cfg" bs_queue
  baser_coming "baser_gap cfg" baser_sendable baser_idle baser_code baser_span
  "nat (max 0 (xg_ifg cfg) + 3)"
  for cfg
proof
  fix s w ws assume "baser_inv cfg s" "baser_coming s = w # ws"
  then show "baser_out s = w" by (auto simp: baser_coming_def split: if_splits)
next
  fix s assume "baser_inv cfg s" "baser_coming s = []"
  then show "baser_idle (baser_out s)" by (auto simp: baser_coming_def split: if_splits)
next
  fix s w assume a: "baser_inv cfg s" "baser_coming s = [] \<or> baser_coming s = [w]"
    and q: "bs_queue s = [] \<or> baser_gap cfg s \<noteq> 0"
  show "\<exists>s'. baser_source_step cfg plain_line True s = Inr s' \<and> baser_inv cfg s'
      \<and> baser_coming s' = [] \<and> bs_queue s' = bs_queue s \<and> baser_gap cfg s' \<le> baser_gap cfg s - 1"
    by (intro baser_step_idle [OF a(1) coming_no_ccl [OF a] q])
next
  fix s w f fs assume a: "baser_inv cfg s" "baser_coming s = [] \<or> baser_coming s = [w]"
    and q: "bs_queue s = f # fs" "baser_gap cfg s = 0" "baser_sendable f"
  show "\<exists>s'. baser_source_step cfg plain_line True s = Inr s' \<and> baser_inv cfg s'
      \<and> baser_code f (baser_coming s') \<and> bs_queue s' = fs"
    by (intro baser_step_start [OF a(1) coming_no_ccl [OF a] q])
qed (simp_all add: baser_send_laws baser_max_gap baser_step_coming baser_code_laws)

section \<open>The sink without scrambler and reversal as a wire sink\<close>

lemma take_lanes_xgmii:
  assumes "list_all lane_ok ls" "length ls = 8"
  shows "take_lanes ls k = xgmii_sink_step 8 False True (lane_word ls) k"
proof (cases "xk_frame k")
  case None
  have "map ((!) ls) [j..<8] = drop j ls" for j
    using assms(2) by (intro nth_equalityI) auto
  from this [of 1] this [of 5] show ?thesis
    using None lane0 [OF assms(1)] lane4 [OF assms(1)] lanes_of_word [OF assms, of 1] lanes_of_word [OF assms, of 5] assms(2)
    by (simp add: take_lanes_def xgmii_sink_step_def split_beta)
next
  case (Some ds)
  then show ?thesis
    using lanes_of_word [OF assms, of 0] by (simp add: take_lanes_def xgmii_sink_step_def split_beta)
qed

lemma sink_step_plain:
  "baser_sink_step plain_line True w k =
    bindR (take_lanes (baser_decode w) (bk_rx k)) (\<lambda>rx. Inr (k\<lparr>bk_rx := rx\<rparr>))"
  by (cases w) (auto simp: baser_sink_step_def line_in_def plain_line_def intro!: bindR_eqI)

lemma take_words_rx:
  "list_all baser_block bs \<Longrightarrow> list_all (list_all lane_ok) bs \<Longrightarrow>
    take_words (baser_sink_step plain_line True) (map baser_encode bs) k =
    bindR (take_words (xgmii_sink_step 8 False True) (map lane_word bs) (bk_rx k)) (\<lambda>rx. Inr (k\<lparr>bk_rx := rx\<rparr>))"
proof (induction bs arbitrary: k)
  case (Cons b bs)
  have b: "length b = 8" "baser_decode (baser_encode b) = b"
    using Cons.prems(1) baser_block_back [of b] by (auto simp: block_back_def baser_block_def)
  have IH: "take_words (baser_sink_step plain_line True) (map baser_encode bs) k =
      bindR (take_words (xgmii_sink_step 8 False True) (map lane_word bs) (bk_rx k)) (\<lambda>rx. Inr (k\<lparr>bk_rx := rx\<rparr>))" for k
    using Cons by simp
  have "take_words (baser_sink_step plain_line True) (map baser_encode (b # bs)) k =
      bindR (xgmii_sink_step 8 False True (lane_word b) (bk_rx k))
        (\<lambda>rx. take_words (baser_sink_step plain_line True) (map baser_encode bs) (k\<lparr>bk_rx := rx\<rparr>))"
    using take_lanes_xgmii [OF _ b(1)] Cons.prems(2) b(2) by (simp add: sink_step_plain bindR_assoc)
  also have "\<dots> = bindR (xgmii_sink_step 8 False True (lane_word b) (bk_rx k))
      (\<lambda>rx. bindR (take_words (xgmii_sink_step 8 False True) (map lane_word bs) rx) (\<lambda>rx. Inr (k\<lparr>bk_rx := rx\<rparr>)))"
    using IH by simp
  finally show ?case by (simp add: bindR_assoc)
qed simp

lemma frame_code_received:
  assumes "baser_sendable f" "xgmii_quiet (bk_rx k)"
    "fl = frame_lanes (octets f) \<or> fl = replicate 4 idle_lane @ frame_lanes (octets f)"
  shows "take_words (baser_sink_step plain_line True) (frame_code fl) k =
    Inr (k\<lparr>bk_rx := got (upto_ctrl (octets f)) (bk_rx k)\<rparr>)"
proof -
  have len: "8 \<le> length (octets f)"
    using assms(1) by (simp add: baser_sendable_def xgmii_plain_def octets_def)
  note fb = frame_blocks [OF octets_data len assms(3)]
  have f: "f = XGMIIFrame (XBytes (xf_data f)) ErrNone None" "xgmii_plain 8 (xf_data f)"
    using assms(1) by (simp_all add: baser_sendable_def)
  have sendable: "xgmii_sendable 8 f" by (subst f(1)) (rule plain_sendable [OF f(2)])
  have "list_all lane_ok (octets f)"
    using octets_data [of f] by (auto simp: list_all_iff intro: data_lane_ok)
  moreover have "lane_ok (XGMII_START, 1)" "lane_ok (XGMII_TERM, 1)"
    by (simp_all add: lane_ok_def in_lane_def xgmii_chars)
  ultimately have "list_all lane_ok fl"
    using assms(3) len by (cases "octets f") (auto simp: frame_lanes_def list_all_replicate)
  then have "list_all lane_ok c" if "c \<in> set (chunks 8 fl)" for c
    using chunks_in [OF that] by (auto simp: list_all_iff)
  then have ok: "list_all (list_all lane_ok) (map (pad 8) (chunks 8 fl))"
    by (simp add: list_all_iff [of "list_all lane_ok"] lane_ok_pad)
  have "take_words (xgmii_sink_step 8 False True) (words 8 fl) (bk_rx k) = Inr (got (upto_ctrl (octets f)) (bk_rx k))"
    using sink_takes_frame [of 8, OF _ sendable baser_build(1) [OF assms(1)] assms(2)] assms(3) by auto
  then show ?thesis
    using take_words_rx [OF fb(1) ok, of k] by (simp add: frame_code_def words_def comp_def)
qed

lemma idle_block_lanes: "baser_decode idle_block = replicate 8 idle_lane"
  by (simp add: baser_decode_def idle_block_def block_types ctrl_lanes_def ctrl_char_def ctrl_codes
      idle_lane_def upt_conv_Cons numeral_eq_Suc)

lemma start_block_lanes: "baser_decode (0, 0) = replicate 8 (XGMII_ERROR, 1)"
  by (simp add: baser_decode_def block_types)

lemma baser_take_idle:
  assumes "xgmii_quiet (bk_rx k)" "baser_idle w"
  shows "baser_sink_step plain_line True w k = Inr k"
  using assms
  by (auto simp: baser_idle_def sink_step_plain idle_block_lanes start_block_lanes take_lanes_def
      xgmii_quiet_def idle_lane_def xgmii_chars)

interpretation baser_snk: wire_sink
  "baser_sink_step plain_line True" "\<lambda>k. xgmii_quiet (bk_rx k)" "\<lambda>k. xk_queue (bk_rx k)" baser_sendable baser_idle
  baser_code xgmii_image
proof
  fix k :: baser_sink and w assume "xgmii_quiet (bk_rx k)" "baser_idle w"
  then show "\<exists>k'. baser_sink_step plain_line True w k = Inr k' \<and> xgmii_quiet (bk_rx k')
      \<and> xk_queue (bk_rx k') = xk_queue (bk_rx k)"
    using baser_take_idle [of k w] by simp
next
  fix k :: baser_sink and f ws assume q: "xgmii_quiet (bk_rx k)" and s: "baser_sendable f" and c: "baser_code f ws"
  obtain fl where "ws = frame_code fl"
      "fl = frame_lanes (octets f) \<or> fl = replicate 4 idle_lane @ frame_lanes (octets f)"
    using c unfolding baser_code_def by blast
  then have "take_words (baser_sink_step plain_line True) ws k = Inr (k\<lparr>bk_rx := got (upto_ctrl (octets f)) (bk_rx k)\<rparr>)"
    using frame_code_received [OF s, of k fl] q by simp
  then show "\<exists>k'. take_words (baser_sink_step plain_line True) ws k = Inr k' \<and> xgmii_quiet (bk_rx k')
      \<and> xk_queue (bk_rx k') = xk_queue (bk_rx k) @ [xgmii_image f]"
    using baser_build(1) [OF s] by (simp add: got_def xgmii_quiet_def xgmii_image_def)
qed

interpretation baser: wire_link
  "baser_source_step cfg plain_line True" baser_out "\<lambda>f. baser_send (XFrame f)" "baser_inv cfg" bs_queue
  baser_coming "baser_gap cfg" baser_sendable baser_idle baser_code baser_span
  "nat (max 0 (xg_ifg cfg) + 3)"
  "baser_sink_step plain_line True" "\<lambda>k. xgmii_quiet (bk_rx k)" "\<lambda>k. xk_queue (bk_rx k)" xgmii_image
  for cfg ..

lemma baser_wire_eq: "baser_wire cfg plain_line = baser.W cfg"
  by (auto simp: baser_wire_def fun_eq_iff baser_source_step_def baser_sink_step_def split: prod.splits)

lemma baser_init: "xg_bw cfg = 8 \<Longrightarrow> baser.link_inv cfg [] (baser_source0, baser_sink0)"
  by (rule baser.link_inv_init)
    (auto simp: baser_source0_def baser_sink0_def xgmii_sink0_def baser_inv_def baser_coming_def
      baser_out_def baser_idle_def xgmii_quiet_def)

section \<open>Scrambler and reversal refine the plain line\<close>

text \<open>
  The block on the wire is read with the register of the sink; the registers agree when it gives
  the register of the source.
\<close>

definition wire_block :: "baser_line \<Rightarrow> baser_source \<times> baser_sink \<Rightarrow> int \<times> (int \<times> int)" where
  "wire_block line x = line_in line (bk_scrambler (snd x)) (baser_out (fst x))"

definition in_sync :: "baser_line \<Rightarrow> baser_source \<times> baser_sink \<Rightarrow> bool" where
  "in_sync line x \<longleftrightarrow> fst (wire_block line x) = bs_scrambler (fst x)"

definition unscrambled :: "int \<times> int \<Rightarrow> baser_source \<Rightarrow> baser_source" where
  "unscrambled w s = s\<lparr>bs_scrambler := 0, bs_tx_data := snd w, bs_tx_header := fst w\<rparr>"

definition descrambled :: "baser_line \<Rightarrow> baser_source \<times> baser_sink \<Rightarrow> baser_source \<times> baser_sink" where
  "descrambled line x =
     (unscrambled (snd (wire_block line x)) (fst x), (snd x)\<lparr>bk_scrambler := 0\<rparr>)"

lemma unscrambled_fields [simp]:
  "bs_queue (unscrambled w s) = bs_queue s" "bs_ccl (unscrambled w s) = bs_ccl s" "bs_ifg_cnt (unscrambled w s) = bs_ifg_cnt s"
  "bs_deficit (unscrambled w s) = bs_deficit s" "baser_out (unscrambled w s) = w"
  "baser_send f (unscrambled w s) = unscrambled w (baser_send f s)"
  by (simp_all add: unscrambled_def baser_out_def baser_send_def)

lemma pop_block_unscrambled:
  "pop_block cfg (unscrambled w s) = bindR (pop_block cfg s) (\<lambda>(b, s'). Inr (b, unscrambled w s'))"
  by (auto simp: pop_block_def bindR_assoc split_beta unscrambled_def intro!: bindR_eqI split: option.split)

lemma next_block_unscrambled:
  "next_block cfg (unscrambled w s) = bindR (next_block cfg s) (\<lambda>(b, s'). Inr (b, unscrambled w s'))"
proof -
  have d: "unscrambled w s\<lparr>bs_ifg_cnt := a\<rparr> = unscrambled w (s\<lparr>bs_ifg_cnt := a\<rparr>)"
    "unscrambled w s\<lparr>bs_deficit := b\<rparr> = unscrambled w (s\<lparr>bs_deficit := b\<rparr>)"
    "unscrambled w s\<lparr>bs_queue := q\<rparr> = unscrambled w (s\<lparr>bs_queue := q\<rparr>)"
    "unscrambled w s\<lparr>bs_ccl := c\<rparr> = unscrambled w (s\<lparr>bs_ccl := c\<rparr>)" for a b c q s
    by (simp_all add: unscrambled_def)
  show ?thesis
    by (auto simp: next_block_def d pop_block_unscrambled bindR_assoc split_beta Let_def intro!: bindR_eqI)
qed

lemma pop_block_scrambler: "pop_block cfg s = Inr (w, s') \<Longrightarrow> bs_scrambler s' = bs_scrambler s"
  by (auto simp: pop_block_def bindR_eq_Inr split: prod.splits)

lemma next_block_scrambler: "next_block cfg s = Inr (w, s') \<Longrightarrow> bs_scrambler s' = bs_scrambler s"
  by (auto simp: next_block_def bindR_eq_Inr Let_def split: prod.splits if_splits dest!: pop_block_scrambler)

lemma put_block_unscrambled:
  assumes "block_fits w"
  shows "put_block plain_line w (unscrambled v s) = Inr (unscrambled w s)"
  using put_plain [OF assms] by (simp add: unscrambled_def)

lemma put_block_fits: "put_block plain_line w s = Inr s' \<Longrightarrow> block_fits w"
  by (cases w) (auto simp: put_block_def plain_line_def block_fits_def split: if_splits)

text \<open>What the source puts on the line, the sink reads with the register the source had before.\<close>

lemma put_block_line:
  assumes "block_fits w"
  shows "\<exists>s'. put_block line w s = Inr s' \<and> line_in line (bs_scrambler s) (baser_out s') = (bs_scrambler s', w)
    \<and> unscrambled v s' = unscrambled v s"
proof -
  obtain h d where w: "w = (h, d)" by (cases w)
  have r: "0 \<le> d" "d < 2 ^ 64" "0 \<le> h" "h < 2 ^ 2" using assms w by (simp_all add: block_fits_def fits_def)
  define st x where "st = (if bl_scramble line then fst (baser_scramble (bs_scrambler s) d) else bs_scrambler s)"
    and "x = (if bl_scramble line then snd (baser_scramble (bs_scrambler s) d) else d)"
  have x: "0 \<le> x" "x < 2 ^ 64" using r scramble_range by (auto simp: x_def)
  define dd hh where "dd = (if bl_reverse line then reverse_bits 64 x else x)"
    and "hh = (if bl_reverse line then reverse_bits 2 h else h)"
  have "fits (Some 64) dd" "fits (Some 2) hh"
    using x r reverse_bits_range [of 64 x] reverse_bits_range [of 2 h] by (auto simp: fits_def dd_def hh_def)
  then have "put_block line w s = Inr (s\<lparr>bs_scrambler := st, bs_tx_data := dd, bs_tx_header := hh\<rparr>)"
    unfolding st_def x_def dd_def hh_def
    by (cases "bl_scramble line"; cases "bl_reverse line"; simp add: put_block_def w split_beta Let_def)
  moreover have "(if bl_reverse line then reverse_bits 64 dd else dd) = x"
      "(if bl_reverse line then reverse_bits 2 hh else hh) = h"
    using reverse_reverse_bits [of x 64] reverse_reverse_bits [of h 2] x r by (auto simp: dd_def hh_def)
  then have "line_in line (bs_scrambler s) (hh, dd) = (st, w)"
    using descramble_scramble [OF r(1,2), of "bs_scrambler s"]
    by (simp only: line_in_def prod.case Let_def) (simp add: w st_def x_def)
  ultimately show ?thesis by (simp add: baser_out_def unscrambled_def)
qed

lemma refine_tick:
  assumes "in_sync line (s, k)"
    "baser_source_step cfg plain_line True (fst (descrambled line (s, k))) = Inr s1"
    "baser_sink_step plain_line True (baser_out (fst (descrambled line (s, k)))) (snd (descrambled line (s, k))) = Inr k1"
  shows "\<exists>s' k'. baser_source_step cfg line True s = Inr s' \<and> baser_sink_step line True (baser_out s) k = Inr k'
    \<and> descrambled line (s', k') = (s1, k1) \<and> in_sync line (s', k')"
proof -
  obtain b where b: "line_in line (bk_scrambler k) (baser_out s) = (bs_scrambler s, b)"
    using assms(1) by (cases "line_in line (bk_scrambler k) (baser_out s)") (auto simp: in_sync_def wire_block_def)
  have src: "baser_source_step cfg plain_line True (unscrambled b s) = Inr s1"
    and snk: "baser_sink_step plain_line True b (k\<lparr>bk_scrambler := 0\<rparr>) = Inr k1"
    using assms(2,3) by (simp_all add: descrambled_def wire_block_def b)
  obtain w s2 where nb: "next_block cfg s = Inr (w, s2)" "put_block plain_line w (unscrambled b s2) = Inr s1"
    using src by (auto simp: baser_source_step_def next_block_unscrambled bindR_eq_Inr)
  have fit: "block_fits w" by (rule put_block_fits [OF nb(2)])
  obtain s' where s': "put_block line w s2 = Inr s'"
      "line_in line (bs_scrambler s2) (baser_out s') = (bs_scrambler s', w)" "unscrambled w s' = unscrambled w s2"
    using put_block_line [OF fit, of line s2 w] by blast
  obtain rx where rx: "take_lanes (baser_decode b) (bk_rx k) = Inr rx" "k1 = k\<lparr>bk_rx := rx, bk_scrambler := 0\<rparr>"
    using snk by (auto simp: sink_step_plain bindR_eq_Inr)
  define k' where "k' = k\<lparr>bk_rx := rx, bk_scrambler := bs_scrambler s\<rparr>"
  have "baser_source_step cfg line True s = Inr s'"
    using nb(1) s'(1) by (simp add: baser_source_step_def)
  moreover have "baser_sink_step line True (baser_out s) k = Inr k'"
    using b rx(1) by (simp add: baser_sink_step_def k'_def)
  moreover have wb: "wire_block line (s', k') = (bs_scrambler s', w)"
    using s'(2) next_block_scrambler [OF nb(1)] by (simp add: wire_block_def k'_def)
  moreover have "unscrambled w s2 = s1" using put_block_unscrambled [OF fit] nb(2) by simp
  ultimately show ?thesis
    using s'(3) rx(2) by (auto simp: descrambled_def in_sync_def k'_def)
qed

lemma refine_step:
  assumes "in_sync line x" "wire_step (baser_wire cfg plain_line) e (descrambled line x) = Inr y1"
  shows "\<exists>y. wire_step (baser_wire cfg line) e x = Inr y \<and> descrambled line y = y1 \<and> in_sync line y"
proof -
  obtain s k where x: "x = (s, k)" by (cases x)
  consider (put) f where "e = Put f" | (off) "e = Clk False" | (tick) "e = Clk True"
    by (metis wire_event.exhaust)
  then show ?thesis
  proof cases
    case put
    have "wire_block line (baser_send (XFrame f) s, k) = wire_block line (s, k)"
        "bs_scrambler (baser_send (XFrame f) s) = bs_scrambler s"
      by (simp_all add: wire_block_def baser_send_def baser_out_def)
    then show ?thesis using assms put x by (auto simp: baser_wire_def descrambled_def in_sync_def)
  next
    case off
    then show ?thesis using assms x
      by (auto simp: baser_wire_def descrambled_def baser_source_step_def baser_sink_step_def)
  next
    case tick
    obtain s1 k1 where d: "baser_source_step cfg plain_line True (fst (descrambled line (s, k))) = Inr s1"
        "baser_sink_step plain_line True (baser_out (fst (descrambled line (s, k)))) (snd (descrambled line (s, k))) = Inr k1"
        "y1 = (s1, k1)"
      using assms(2) tick x by (cases "descrambled line x") (auto simp: baser_wire_def bindR_eq_Inr)
    show ?thesis
      using refine_tick [OF _ d(1,2)] assms(1) tick x d(3) by (fastforce simp: baser_wire_def)
  qed
qed

lemma refine_run:
  "in_sync line x \<Longrightarrow> wire_run (baser_wire cfg plain_line) es (descrambled line x) = Inr y1 \<Longrightarrow>
    \<exists>y. wire_run (baser_wire cfg line) es x = Inr y \<and> descrambled line y = y1 \<and> in_sync line y"
proof (induction es arbitrary: x)
  case (Cons e es)
  obtain z where z: "wire_step (baser_wire cfg plain_line) e (descrambled line x) = Inr z"
      "wire_run (baser_wire cfg plain_line) es z = Inr y1"
    using Cons.prems(2) by (auto simp: bindR_eq_Inr)
  obtain x' where x': "wire_step (baser_wire cfg line) e x = Inr x'" "descrambled line x' = z" "in_sync line x'"
    using refine_step [OF Cons.prems(1) z(1)] by blast
  then show ?case using Cons.IH [OF x'(3)] z(2) by simp
qed simp

lemma refine_init:
  "in_sync line (baser_source0, baser_sink0)"
  "descrambled line (baser_source0, baser_sink0) = (baser_source0, baser_sink0)"
proof -
  have "reverse_bits 64 0 = 0" "reverse_bits 2 0 = 0" by (simp_all add: reverse_bits_def)
  moreover have "baser_descramble 0 0 = (0, 0)"
    by (simp add: baser_descramble_def numeral_eq_Suc)
  ultimately have "wire_block line (baser_source0, baser_sink0) = (0, 0, 0)"
    by (simp add: wire_block_def line_in_def baser_source0_def baser_sink0_def baser_out_def)
  then show "in_sync line (baser_source0, baser_sink0)"
    "descrambled line (baser_source0, baser_sink0) = (baser_source0, baser_sink0)"
    by (simp_all add: in_sync_def descrambled_def unscrambled_def baser_source0_def baser_sink0_def)
qed

section \<open>The link\<close>

lemma plain_baser_sendable: "xgmii_plain 8 bs \<Longrightarrow> baser_sendable (XGMIIFrame (XBytes bs) ErrNone None)"
  by (simp add: baser_sendable_def XGMIIFrame_def)

lemma baser_link_run:
  assumes "xg_bw cfg = 8" "put es = map (\<lambda>bs. XGMIIFrame (XBytes bs) ErrNone None) frames"
    and "list_all (xgmii_plain 8) frames" "put es' = []"
    and "(\<Sum>bs\<leftarrow>frames. (length bs + 12) div 8 + nat (max 0 (xg_ifg cfg) + 3) + 1)
      + nat (max 0 (xg_ifg cfg) + 3) \<le> ticks es'"
  shows "\<exists>s k. wire_run (baser_wire cfg plain_line) (es @ es') (baser_source0, baser_sink0) = Inr (s, k)
    \<and> bs_queue s = [] \<and> bs_ccl s = [] \<and> xk_queue (bk_rx k) = map xgmii_image (put es)"
proof -
  have "list_all baser_sendable (put es)"
    using assms(2,3) plain_baser_sendable by (auto simp: list_all_iff)
  moreover have "baser_span (XGMIIFrame (XBytes bs) ErrNone None) = (length bs + 12) div 8" for bs
    by (simp add: baser_span_def XGMIIFrame_def)
  ultimately obtain s k where "wire_run (baser.W cfg) (es @ es') (baser_source0, baser_sink0) = Inr (s, k)"
      "bs_queue s = []" "baser_coming s = []" "xk_queue (bk_rx k) = map xgmii_image (put es)"
    using baser.link_delivers [OF baser_init [OF assms(1)], of es es'] assms(2,4,5)
    by (auto simp: comp_def)
  then show ?thesis by (auto simp: baser_wire_eq baser_coming_def split: if_splits)
qed

lemma refine_from_start:
  assumes "wire_run (baser_wire cfg plain_line) es (baser_source0, baser_sink0) = Inr (s1, k1)"
  shows "\<exists>s k. wire_run (baser_wire cfg line) es (baser_source0, baser_sink0) = Inr (s, k)
    \<and> bs_queue s = bs_queue s1 \<and> bs_ccl s = bs_ccl s1 \<and> bk_rx k = bk_rx k1
    \<and> line_in line (bk_scrambler k) (baser_out s) = (bs_scrambler s, baser_out s1)"
proof -
  obtain s k where y: "wire_run (baser_wire cfg line) es (baser_source0, baser_sink0) = Inr (s, k)"
      "descrambled line (s, k) = (s1, k1)" "in_sync line (s, k)"
    using refine_run [OF refine_init(1) [of line], of cfg es "(s1, k1)"] refine_init(2) [of line] assms by auto
  then show ?thesis
    by (cases "wire_block line (s, k)") (auto simp: descrambled_def in_sync_def wire_block_def)
qed

text \<open>
C27: The scrambled and bit-reversed link refines the plain one.  Whatever is sent and however the clock
enable is driven, a link with any setting of \<open>scramble\<close> and \<open>reverse\<close> runs without an error
wherever the link without the two does, with the same frames waiting, the same blocks left
to send, the same frames received and under construction; and the block on the wire, reversed and
descrambled with the register of the sink, is the block of the plain link and takes
the register of the sink to that of the source.
\<close>
theorem baser_line_refines:
  assumes "wire_run (baser_wire cfg \<lparr>bl_scramble = False, bl_reverse = False\<rparr>) es (baser_source0, baser_sink0) =
    Inr (s1, k1)"
  shows "\<exists>s k. wire_run (baser_wire cfg line) es (baser_source0, baser_sink0) = Inr (s, k)
    \<and> bs_queue s = bs_queue s1 \<and> bs_ccl s = bs_ccl s1 \<and> bk_rx k = bk_rx k1
    \<and> line_in line (bk_scrambler k) (baser_out s) = (bs_scrambler s, baser_out s1)"
  by (rule refine_from_start) (use assms in \<open>simp only: plain_line_def\<close>)

theorem baser_line_refines_witness:
  "\<exists>s k. wire_run (baser_wire \<lparr>xg_bw = 8, xg_ifg = 12, xg_enable_dic = True, xg_force_offset_start = False\<rparr>
        \<lparr>bl_scramble = True, bl_reverse = True\<rparr>)
      (Put (XGMIIFrame (XBytes (replicate 7 0x55 @ [0xD5, 1, 2])) ErrNone None) # replicate 60 (Clk True))
      (baser_source0, baser_sink0) = Inr (s, k)
    \<and> map xf_data (xk_queue (bk_rx k)) = [replicate 7 0x55 @ [0xD5, 1, 2]]"
proof -
  let ?cfg = "\<lparr>xg_bw = 8, xg_ifg = 12, xg_enable_dic = True, xg_force_offset_start = False\<rparr>"
  let ?bs = "replicate 7 0x55 @ [0xD5, 1, 2] :: bytes"
  let ?es = "[Put (XGMIIFrame (XBytes ?bs) ErrNone None)]"
  have plain: "xgmii_plain 8 ?bs" by (simp add: xgmii_plain_def)
  obtain s1 k1 where run: "wire_run (baser_wire ?cfg plain_line) (?es @ replicate 60 (Clk True))
      (baser_source0, baser_sink0) = Inr (s1, k1)"
      "xk_queue (bk_rx k1) = [xgmii_image (XGMIIFrame (XBytes ?bs) ErrNone None)]"
    using baser_link_run [of ?cfg ?es "[?bs]" "replicate 60 (Clk True)"] plain
    by (auto simp del: wire_run.simps replicate.simps)
  show ?thesis
    using baser_line_refines [OF run(1) [unfolded plain_line_def], of "\<lparr>bl_scramble = True, bl_reverse = True\<rparr>"] run(2)
    by (auto simp: plain_image simp del: wire_run.simps replicate.simps)
qed

text \<open>
C17: A BASE-R source and sink deliver every frame of octets that starts with a preamble octet and
fills the first block, exactly once and in order, with its octets unchanged and no error marked,
with and without the scrambler and the bit reversal, the deficit idle count and the forced offset
start, whenever frames are queued and however the clock enable is driven.  All frames have arrived
after a number of enabled cycles that is bounded by their length and the gap.
\<close>
theorem baser_link_delivers_frames:
  assumes "xg_bw cfg = 8" "put es = map (\<lambda>bs. XGMIIFrame (XBytes bs) ErrNone None) frames"
    and "list_all (xgmii_plain 8) frames" "put es' = []"
    and "(\<Sum>bs\<leftarrow>frames. (length bs + 12) div 8 + nat (max 0 (xg_ifg cfg) + 3) + 1)
      + nat (max 0 (xg_ifg cfg) + 3) \<le> ticks es'"
  shows "\<exists>s k. wire_run (baser_wire cfg line) (es @ es') (baser_source0, baser_sink0) = Inr (s, k)
    \<and> bs_queue s = [] \<and> bs_ccl s = [] \<and> map xf_data (xk_queue (bk_rx k)) = frames
    \<and> list_all (\<lambda>f. xf_error f = ErrList (replicate (length (xf_data f)) 0)) (xk_queue (bk_rx k))"
proof -
  obtain s1 k1 where run: "wire_run (baser_wire cfg plain_line) (es @ es') (baser_source0, baser_sink0) = Inr (s1, k1)"
      "bs_queue s1 = []" "bs_ccl s1 = []" "xk_queue (bk_rx k1) = map xgmii_image (put es)"
    using baser_link_run [OF assms] by blast
  obtain s k where y: "wire_run (baser_wire cfg line) (es @ es') (baser_source0, baser_sink0) = Inr (s, k)"
      "bs_queue s = []" "bs_ccl s = []" "bk_rx k = bk_rx k1"
    using refine_from_start [OF run(1), of line] run(2,3) by auto
  have "xk_queue (bk_rx k) = map (\<lambda>bs. xgmii_image (XGMIIFrame (XBytes bs) ErrNone None)) frames"
    using run(4) y(4) assms(2) by (simp add: comp_def)
  then show ?thesis using y(1-3) by (auto simp: plain_image comp_def list_all_iff)
qed

theorem baser_link_delivers_frames_witness:
  "let frames = [replicate 7 0x55 @ [0xD5, 1, 2, 3], replicate 7 0x55 @ [0xD5, 4]];
       es = map (\<lambda>bs. Put (XGMIIFrame (XBytes bs) ErrNone None)) frames
   in \<exists>s k. wire_run (baser_wire \<lparr>xg_bw = 8, xg_ifg = 12, xg_enable_dic = True, xg_force_offset_start = False\<rparr>
          \<lparr>bl_scramble = True, bl_reverse = False\<rparr>) (es @ replicate 60 (Clk True)) (baser_source0, baser_sink0)
        = Inr (s, k) \<and> map xf_data (xk_queue (bk_rx k)) = frames"
  using baser_link_delivers_frames
    [of "\<lparr>xg_bw = 8, xg_ifg = 12, xg_enable_dic = True, xg_force_offset_start = False\<rparr>"
        "map (\<lambda>bs. Put (XGMIIFrame (XBytes bs) ErrNone None))
           [replicate 7 0x55 @ [0xD5, 1, 2, 3], replicate 7 0x55 @ [0xD5, 4]]"
        "[replicate 7 0x55 @ [0xD5, 1, 2, 3], replicate 7 0x55 @ [0xD5, 4]]"
        "replicate 60 (Clk True)" "\<lparr>bl_scramble = True, bl_reverse = False\<rparr>"]
  by (auto simp: xgmii_plain_def Let_def comp_def simp del: wire_run.simps replicate.simps)

end
