(* ===== verification/Axil_Endpoint.thy ===== *)
theory Axil_Endpoint
  imports Lanes
begin

text \<open>
  \<open>lib/eth/lib/axi/tb/axil.py\<close>: a master that turns reads and writes of any length into
  AXI-Lite cycles, and a memory behind an AXI-Lite port.

  Each of the processes of the two classes is a step function.  \<open>write_logic\<close> and \<open>read_logic\<close> wait for a
  command and cut it into cycles without waiting for the clock; the two processes of the responses
  run until they need a response that has not arrived; the processes of the five channels and the
  two of the memory make one step per rising edge of the clock.
\<close>

section \<open>Constants\<close>

definition PROT_PRIVILEGED :: int where "PROT_PRIVILEGED = 1"
definition PROT_NONSECURE :: int where "PROT_NONSECURE = 2"
definition PROT_INSTRUCTION :: int where "PROT_INSTRUCTION = 4"
definition RESP_OKAY :: int where "RESP_OKAY = 0"
definition RESP_EXOKAY :: int where "RESP_EXOKAY = 1"
definition RESP_SLVERR :: int where "RESP_SLVERR = 2"
definition RESP_DECERR :: int where "RESP_DECERR = 3"

section \<open>Division of integers as floats\<close>

text \<open>
  The code computes word addresses and cycle counts as \<open>int(a / b)\<close>, a division of floats.  The
  quotient of two integers is the exact one rounded to 53 binary digits, half to even; here \<open>b\<close> is a
  power of two, so the rounding is that of \<open>a\<close>.
\<close>

fun nat_bits :: "nat \<Rightarrow> nat" where
  "nat_bits n = (if n = 0 then 0 else nat_bits (n div 2) + 1)"

declare nat_bits.simps [simp del]

definition round53 :: "nat \<Rightarrow> nat" where
  "round53 a =
     (let e = nat_bits a - 53; q = a div 2 ^ e; r = a mod 2 ^ e
      in if e = 0 then a
         else (if 2 * r > 2 ^ e \<or> (2 * r = 2 ^ e \<and> q mod 2 = 1) then q + 1 else q) * 2 ^ e)"

definition int_div :: "nat \<Rightarrow> nat \<Rightarrow> nat" where
  "int_div a b = round53 a div b"

section \<open>AXILiteMaster\<close>

text \<open>
  The configuration of a port: octets per word, address bits, and the latency of the memory.  Addresses
  and lengths are natural numbers.
\<close>

record axil_cfg =
  al_bw :: nat
  al_addr_bits :: nat
  al_latency :: nat

definition axil_width :: "nat \<Rightarrow> nat \<Rightarrow> nat \<Rightarrow> nat \<Rightarrow> nat \<Rightarrow> nat result" where
  \<comment> \<open>the assertions on the widths of both data buses, the strobe and the addresses, and \<open>bw\<close>\<close>
  "axil_width wdata wstrb rdata awaddr araddr =
     bindR (assertR (wdata mod 8 = 0 \<and> wdata div 8 = wstrb)) (\<lambda>_.
     bindR (assertR (rdata mod 8 = 0)) (\<lambda>_.
     bindR (assertR (wdata = rdata \<and> awaddr = araddr)) (\<lambda>_.
     bindR (assertR (rdata div 8 \<in> {1, 2, 4, 8, 16, 32, 64, 128})) (\<lambda>_. Inr (rdata div 8)))))"

text \<open>
  A channel that the master drives: its process is \<open>busy\<close> from the edge it puts a word on the bus to the edge
  the word is taken, else it polls its queue.
\<close>

record 'a chan =
  ch_busy :: bool
  ch_word :: 'a
  ch_valid :: bool

definition chan_take ::
    "bool \<Rightarrow> ('a \<Rightarrow> bool) \<Rightarrow> 'a list \<Rightarrow> 'a chan \<Rightarrow> ('a list \<times> 'a chan) result" where
  \<comment> \<open>\<open>while not queue\<close>, \<open>queue.pop(0)\<close> and the assignments to the signals\<close>
  "chan_take pause fit q c =
     (case q of
        [] \<Rightarrow> Inr ([], c)
      | w # q \<Rightarrow> if fit w then Inr (q, \<lparr>ch_busy = True, ch_word = w, ch_valid = \<not> pause\<rparr>)
                 else Inl ValueError)"

definition chan_step ::
    "bool \<Rightarrow> bool \<Rightarrow> ('a \<Rightarrow> bool) \<Rightarrow> 'a list \<Rightarrow> 'a chan \<Rightarrow> ('a list \<times> 'a chan) result" where
  "chan_step pause ready fit q c =
     (if ch_busy c then
        (if \<not> ch_valid c \<or> \<not> ready then Inr (q, c\<lparr>ch_valid := ch_valid c \<or> \<not> pause\<rparr>)
         else chan_take pause fit q (c\<lparr>ch_busy := False, ch_valid := False\<rparr>))
      else chan_take pause fit q c)"

record write_resp_frame =
  wf_command :: "nat \<times> nat \<times> int" \<comment> \<open>\<open>addr, length, prot\<close>\<close>
  wf_left :: nat \<comment> \<open>cycles to go\<close>
  wf_resp :: int

record read_resp_frame =
  rf_command :: "nat \<times> nat \<times> int"
  rf_cycles :: nat
  rf_k :: nat
  rf_data :: bytes
  rf_resp :: int

record axil_master =
  am_write_command_queue :: "(nat \<times> bytes \<times> int) list"
  am_write_resp_queue :: "(nat \<times> nat \<times> int \<times> int) list"
  am_read_command_queue :: "(nat \<times> nat \<times> int) list"
  am_read_data_queue :: "(nat \<times> bytes \<times> int \<times> int) list"
  am_int_write_addr_queue :: "(nat \<times> int) list"
  am_int_write_data_queue :: "(int \<times> int) list"
  am_int_write_resp_command_queue :: "(nat \<times> nat \<times> nat \<times> int) list"
  am_int_write_resp_queue :: "int list"
  am_int_read_addr_queue :: "(nat \<times> int) list"
  am_int_read_resp_command_queue :: "(nat \<times> nat \<times> nat \<times> int) list"
  am_int_read_resp_queue :: "(int \<times> int) list"
  am_in_flight :: int
  am_write_resp :: "write_resp_frame option"
  am_read_resp :: "read_resp_frame option"
  am_aw :: "(nat \<times> int) chan"
  am_w :: "(int \<times> int) chan"
  am_ar :: "(nat \<times> int) chan"
  am_bready :: bool
  am_rready :: bool

definition axil_master0 :: axil_master where
  \<comment> \<open>after every process has run up to its first \<open>yield\<close>\<close>
  "axil_master0 =
     \<lparr>am_write_command_queue = [], am_write_resp_queue = [], am_read_command_queue = [],
      am_read_data_queue = [], am_int_write_addr_queue = [], am_int_write_data_queue = [],
      am_int_write_resp_command_queue = [], am_int_write_resp_queue = [],
      am_int_read_addr_queue = [], am_int_read_resp_command_queue = [], am_int_read_resp_queue = [],
      am_in_flight = 0, am_write_resp = None, am_read_resp = None,
      am_aw = \<lparr>ch_busy = False, ch_word = (0, 0), ch_valid = False\<rparr>,
      am_w = \<lparr>ch_busy = False, ch_word = (0, 0), ch_valid = False\<rparr>,
      am_ar = \<lparr>ch_busy = False, ch_word = (0, 0), ch_valid = False\<rparr>,
      am_bready = True, am_rready = True\<rparr>"

definition axil_init_write :: "nat \<Rightarrow> bytes \<Rightarrow> int \<Rightarrow> axil_master \<Rightarrow> axil_master" where
  "axil_init_write address data prot self =
     self\<lparr>am_write_command_queue := am_write_command_queue self @ [(address, data, prot)]\<rparr>"

definition axil_init_read :: "nat \<Rightarrow> nat \<Rightarrow> int \<Rightarrow> axil_master \<Rightarrow> axil_master" where
  "axil_init_read address len prot self =
     self\<lparr>am_read_command_queue := am_read_command_queue self @ [(address, len, prot)]\<rparr>"

definition axil_master_idle :: "axil_master \<Rightarrow> bool" where
  "axil_master_idle self \<longleftrightarrow>
     am_write_command_queue self = [] \<and> am_read_command_queue self = [] \<and> am_in_flight self = 0"

definition axil_read_data_ready :: "axil_master \<Rightarrow> bool" where
  "axil_read_data_ready self \<longleftrightarrow> am_read_data_queue self \<noteq> []"

definition axil_get_read_data ::
    "axil_master \<Rightarrow> (nat \<times> bytes \<times> int \<times> int) option \<times> axil_master" where
  "axil_get_read_data self =
     (case am_read_data_queue self of
        [] \<Rightarrow> (None, self)
      | d # q \<Rightarrow> (Some d, self\<lparr>am_read_data_queue := q\<rparr>))"

section \<open>Cutting a command into cycles\<close>

fun pack_octets :: "bytes \<Rightarrow> nat list \<Rightarrow> nat \<Rightarrow> int \<Rightarrow> (nat \<times> int) result" where
  \<comment> \<open>\<open>for j in range(start, stop)\<close>: the offset and \<open>val\<close>\<close>
  "pack_octets data [] offset val = Inr (offset, val)"
| "pack_octets data (j # js) offset val =
     (if offset < length data
      then pack_octets data js (offset + 1) (val OR shl (uint (data ! offset)) (j * 8))
      else Inl IndexError)"

definition cycle_start :: "nat \<Rightarrow> nat \<Rightarrow> nat" where
  \<comment> \<open>the first octet of cycle \<open>k\<close>\<close>
  "cycle_start start_offset k = (if k = 0 then start_offset else 0)"

definition cycle_stop :: "nat \<Rightarrow> nat \<Rightarrow> nat \<Rightarrow> nat \<Rightarrow> nat" where
  \<comment> \<open>one past the last octet of cycle \<open>k\<close>\<close>
  "cycle_stop bw end_offset cycles k = (if k + 1 = cycles then end_offset else bw)"

definition cycle_strb :: "nat \<Rightarrow> nat \<Rightarrow> nat \<Rightarrow> nat \<Rightarrow> nat \<Rightarrow> int" where
  "cycle_strb bw start_offset end_offset cycles k =
     (let strb_start = shl (2 ^ bw - 1) start_offset AND (2 ^ bw - 1);
          strb_end = shr (2 ^ bw - 1) (bw - end_offset);
          strb = 2 ^ bw - 1;
          strb = (if k = 0 then strb AND strb_start else strb)
      in if k + 1 = cycles then strb AND strb_end else strb)"

fun write_cycles ::
    "nat \<Rightarrow> nat \<Rightarrow> nat \<Rightarrow> nat \<Rightarrow> bytes \<Rightarrow> int \<Rightarrow> nat \<Rightarrow> nat \<Rightarrow> nat \<Rightarrow>
     ((nat \<times> int) list \<times> (int \<times> int) list) result" where
  \<comment> \<open>\<open>for k in range(cycles)\<close>, with \<open>n\<close> cycles to go from cycle \<open>k\<close> on\<close>
  "write_cycles bw word_addr start_offset end_offset data prot 0 k offset = Inr ([], [])"
| "write_cycles bw word_addr start_offset end_offset data prot (Suc n) k offset =
     (let cycles = k + Suc n; start = cycle_start start_offset k; stop = cycle_stop bw end_offset cycles k
      in bindR (pack_octets data [start..<stop] offset 0) (\<lambda>(offset, val).
         bindR (write_cycles bw word_addr start_offset end_offset data prot n (k + 1) offset) (\<lambda>(as, ds).
           Inr ((word_addr + start + k * bw, prot) # as,
                (val, cycle_strb bw start_offset end_offset cycles k) # ds))))"

definition command_cycles :: "nat \<Rightarrow> nat \<Rightarrow> nat \<Rightarrow> nat" where
  "command_cycles bw addr len = int_div (len + bw - 1 + addr mod bw) bw"

definition end_offset_of :: "nat \<Rightarrow> nat \<Rightarrow> nat \<Rightarrow> nat" where
  \<comment> \<open>\<open>((addr + len - 1) % bw) + 1\<close>, also for \<open>addr + len = 0\<close>\<close>
  "end_offset_of bw addr len = nat ((int addr + int len - 1) mod int bw) + 1"

definition write_command ::
    "nat \<Rightarrow> nat \<times> bytes \<times> int \<Rightarrow> axil_master \<Rightarrow> axil_master result" where
  \<comment> \<open>one round of \<open>write_logic\<close>\<close>
  "write_command bw cmd self =
     (case cmd of (addr, data, prot) \<Rightarrow>
      let word_addr = int_div addr bw * bw; start_offset = addr mod bw;
          end_offset = end_offset_of bw addr (length data);
          cycles = command_cycles bw addr (length data)
      in bindR (write_cycles bw word_addr start_offset end_offset data prot cycles 0 0) (\<lambda>(as, ds).
         Inr (self\<lparr>am_in_flight := am_in_flight self + 1,
           am_int_write_resp_command_queue :=
             am_int_write_resp_command_queue self @ [(addr, length data, cycles, prot)],
           am_int_write_addr_queue := am_int_write_addr_queue self @ as,
           am_int_write_data_queue := am_int_write_data_queue self @ ds\<rparr>)))"

fun write_commands ::
    "nat \<Rightarrow> (nat \<times> bytes \<times> int) list \<Rightarrow> axil_master \<Rightarrow> axil_master result" where
  "write_commands bw [] self = Inr (self\<lparr>am_write_command_queue := []\<rparr>)"
| "write_commands bw (cmd # cmds) self = bindR (write_command bw cmd self) (write_commands bw cmds)"

definition read_command :: "nat \<Rightarrow> nat \<times> nat \<times> int \<Rightarrow> axil_master \<Rightarrow> axil_master" where
  \<comment> \<open>one round of \<open>read_logic\<close>: the first cycle is asked for whatever the length\<close>
  "read_command bw cmd self =
     (case cmd of (addr, len, prot) \<Rightarrow>
      let word_addr = int_div addr bw * bw; start_offset = addr mod bw;
          cycles = command_cycles bw addr len
      in self\<lparr>am_in_flight := am_in_flight self + 1,
           am_int_read_resp_command_queue :=
             am_int_read_resp_command_queue self @ [(addr, len, cycles, prot)],
           am_int_read_addr_queue := am_int_read_addr_queue self
             @ (word_addr + start_offset, prot) # map (\<lambda>k. (word_addr + k * bw, prot)) [1..<cycles]\<rparr>)"

fun read_commands :: "nat \<Rightarrow> (nat \<times> nat \<times> int) list \<Rightarrow> axil_master \<Rightarrow> axil_master" where
  "read_commands bw [] self = self\<lparr>am_read_command_queue := []\<rparr>"
| "read_commands bw (cmd # cmds) self = read_commands bw cmds (read_command bw cmd self)"

section \<open>Collecting the responses\<close>

function write_resp_logic :: "axil_master \<Rightarrow> axil_master" where
  "write_resp_logic self =
     (case am_write_resp self of
        None \<Rightarrow>
          (case am_int_write_resp_command_queue self of
             [] \<Rightarrow> self
           | (addr, len, cycles, prot) # q \<Rightarrow>
               write_resp_logic (self\<lparr>am_int_write_resp_command_queue := q,
                 am_write_resp := Some \<lparr>wf_command = (addr, len, prot), wf_left = cycles, wf_resp = 0\<rparr>\<rparr>))
      | Some f \<Rightarrow>
          if wf_left f = 0 then
            (case wf_command f of (addr, len, prot) \<Rightarrow>
               write_resp_logic (self\<lparr>
                 am_write_resp_queue := am_write_resp_queue self @ [(addr, len, prot, wf_resp f)],
                 am_in_flight := am_in_flight self - 1, am_write_resp := None\<rparr>))
          else
            (case am_int_write_resp_queue self of
               [] \<Rightarrow> self
             | r # q \<Rightarrow>
                 write_resp_logic (self\<lparr>am_int_write_resp_queue := q,
                   am_write_resp := Some (f\<lparr>wf_left := wf_left f - 1,
                     wf_resp := (if r \<noteq> 0 then r else wf_resp f)\<rparr>)\<rparr>)))"
  by pat_completeness auto
termination
  by (relation "measure (\<lambda>self. 2 * length (am_int_write_resp_command_queue self)
       + length (am_int_write_resp_queue self) + (if am_write_resp self = None then 0 else 1))") auto

declare write_resp_logic.simps [simp del]

definition unpack_octets :: "int \<Rightarrow> nat \<Rightarrow> nat \<Rightarrow> bytes" where
  \<comment> \<open>\<open>for j in range(start, stop): data += bytearray([(cycle_data >> j*8) & 0xff])\<close>\<close>
  "unpack_octets w start stop = map (\<lambda>j. word_of_int (shr w (j * 8) AND 0xff)) [start..<stop]"

function read_resp_logic :: "nat \<Rightarrow> axil_master \<Rightarrow> axil_master" where
  "read_resp_logic bw self =
     (case am_read_resp self of
        None \<Rightarrow>
          (case am_int_read_resp_command_queue self of
             [] \<Rightarrow> self
           | (addr, len, cycles, prot) # q \<Rightarrow>
               read_resp_logic bw (self\<lparr>am_int_read_resp_command_queue := q,
                 am_read_resp := Some \<lparr>rf_command = (addr, len, prot), rf_cycles = cycles, rf_k = 0,
                   rf_data = [], rf_resp = 0\<rparr>\<rparr>))
      | Some f \<Rightarrow>
          (case rf_command f of (addr, len, prot) \<Rightarrow>
           if rf_cycles f \<le> rf_k f then
             read_resp_logic bw (self\<lparr>
               am_read_data_queue := am_read_data_queue self @ [(addr, rf_data f, prot, rf_resp f)],
               am_in_flight := am_in_flight self - 1, am_read_resp := None\<rparr>)
           else
             (case am_int_read_resp_queue self of
                [] \<Rightarrow> self
              | (d, r) # q \<Rightarrow>
                  read_resp_logic bw (self\<lparr>am_int_read_resp_queue := q,
                    am_read_resp := Some (f\<lparr>rf_k := rf_k f + 1,
                      rf_data := rf_data f @ unpack_octets d (cycle_start (addr mod bw) (rf_k f))
                        (cycle_stop bw (end_offset_of bw addr len) (rf_cycles f) (rf_k f)),
                      rf_resp := (if r \<noteq> 0 then r else rf_resp f)\<rparr>)\<rparr>))))"
  by pat_completeness auto
termination
  by (relation "measure (\<lambda>(bw, self). 2 * length (am_int_read_resp_command_queue self)
       + length (am_int_read_resp_queue self) + (if am_read_resp self = None then 0 else 1))") auto

declare read_resp_logic.simps [simp del]

text \<open>The two processes of a command run when it is given: the cutting, then the responses.\<close>

definition axil_write_logic :: "nat \<Rightarrow> axil_master \<Rightarrow> axil_master result" where
  "axil_write_logic bw self =
     bindR (write_commands bw (am_write_command_queue self) self) (\<lambda>self. Inr (write_resp_logic self))"

definition axil_read_logic :: "nat \<Rightarrow> axil_master \<Rightarrow> axil_master" where
  "axil_read_logic bw self = read_resp_logic bw (read_commands bw (am_read_command_queue self) self)"

section \<open>The channels of the master\<close>

text \<open>
  The signals as the other end sees them at a clock edge.  For each channel \<open>x\<close>, \<open>p_x\<close> is
  \<open>pause or xpause\<close>; a paused end shows the other one, and itself, no transfer.
\<close>

record axil_pause =
  p_aw :: bool
  p_w :: bool
  p_b :: bool
  p_ar :: bool
  p_r :: bool

record axil_to_master =
  tm_awready :: bool
  tm_wready :: bool
  tm_bvalid :: bool
  tm_bresp :: int
  tm_arready :: bool
  tm_rvalid :: bool
  tm_rdata :: int
  tm_rresp :: int

definition addr_fits :: "axil_cfg \<Rightarrow> nat \<times> int \<Rightarrow> bool" where
  \<comment> \<open>the address and protection signals\<close>
  "addr_fits cfg w \<longleftrightarrow> fst w < 2 ^ al_addr_bits cfg \<and> fits (Some 3) (snd w)"

definition data_fits :: "axil_cfg \<Rightarrow> int \<times> int \<Rightarrow> bool" where
  "data_fits cfg w \<longleftrightarrow> fits (Some (8 * al_bw cfg)) (fst w) \<and> fits (Some (al_bw cfg)) (snd w)"

definition axil_aw_step :: "axil_cfg \<Rightarrow> bool \<Rightarrow> bool \<Rightarrow> axil_master \<Rightarrow> axil_master result" where
  "axil_aw_step cfg pause ready self =
     bindR (chan_step pause ready (addr_fits cfg) (am_int_write_addr_queue self) (am_aw self)) (\<lambda>(q, c).
       Inr (self\<lparr>am_int_write_addr_queue := q, am_aw := c\<rparr>))"

definition axil_w_step :: "axil_cfg \<Rightarrow> bool \<Rightarrow> bool \<Rightarrow> axil_master \<Rightarrow> axil_master result" where
  "axil_w_step cfg pause ready self =
     bindR (chan_step pause ready (data_fits cfg) (am_int_write_data_queue self) (am_w self)) (\<lambda>(q, c).
       Inr (self\<lparr>am_int_write_data_queue := q, am_w := c\<rparr>))"

definition axil_b_step :: "bool \<Rightarrow> bool \<Rightarrow> int \<Rightarrow> axil_master \<Rightarrow> axil_master" where
  "axil_b_step pause valid resp self =
     (if (am_bready self \<and> \<not> pause) \<and> (valid \<and> \<not> pause)
      then self\<lparr>am_bready := True, am_int_write_resp_queue := am_int_write_resp_queue self @ [resp]\<rparr>
      else self\<lparr>am_bready := True\<rparr>)"

definition axil_ar_step :: "axil_cfg \<Rightarrow> bool \<Rightarrow> bool \<Rightarrow> axil_master \<Rightarrow> axil_master result" where
  "axil_ar_step cfg pause ready self =
     bindR (chan_step pause ready (addr_fits cfg) (am_int_read_addr_queue self) (am_ar self)) (\<lambda>(q, c).
       Inr (self\<lparr>am_int_read_addr_queue := q, am_ar := c\<rparr>))"

definition axil_r_step :: "bool \<Rightarrow> bool \<Rightarrow> int \<Rightarrow> int \<Rightarrow> axil_master \<Rightarrow> axil_master" where
  "axil_r_step pause valid data resp self =
     (if (am_rready self \<and> \<not> pause) \<and> (valid \<and> \<not> pause)
      then self\<lparr>am_rready := True, am_int_read_resp_queue := am_int_read_resp_queue self @ [(data, resp)]\<rparr>
      else self\<lparr>am_rready := True\<rparr>)"

definition axil_master_step ::
    "axil_cfg \<Rightarrow> axil_pause \<Rightarrow> axil_to_master \<Rightarrow> axil_master \<Rightarrow> axil_master result" where
  \<comment> \<open>the processes of the master at a clock edge, in the order of the source\<close>
  "axil_master_step cfg p i self =
     bindR (axil_aw_step cfg (p_aw p) (tm_awready i) (write_resp_logic self)) (\<lambda>self.
     bindR (axil_w_step cfg (p_w p) (tm_wready i) self) (\<lambda>self.
     bindR (axil_ar_step cfg (p_ar p) (tm_arready i)
              (read_resp_logic (al_bw cfg) (axil_b_step (p_b p) (tm_bvalid i) (tm_bresp i) self))) (\<lambda>self.
     Inr (axil_r_step (p_r p) (tm_rvalid i) (tm_rdata i) (tm_rresp i) self))))"

section \<open>AXILiteRam\<close>

text \<open>
  \<open>mmap\<close> is a sequence of octets with a position.  Both processes of a port, and the methods
  \<open>read_mem\<close> and \<open>write_mem\<close>, use the same object, so they share the position.
\<close>

record mmap_file =
  mm_mem :: bytes
  mm_pos :: nat

definition mm_seek :: "nat \<Rightarrow> mmap_file \<Rightarrow> mmap_file result" where
  "mm_seek p f = (if p \<le> length (mm_mem f) then Inr (f\<lparr>mm_pos := p\<rparr>) else Inl ValueError)"

definition mm_write :: "bytes \<Rightarrow> mmap_file \<Rightarrow> mmap_file result" where
  "mm_write bs f =
     (if mm_pos f + length bs \<le> length (mm_mem f)
      then Inr (f\<lparr>mm_mem := take (mm_pos f) (mm_mem f) @ bs @ drop (mm_pos f + length bs) (mm_mem f),
                 mm_pos := mm_pos f + length bs\<rparr>)
      else Inl ValueError)"

definition mm_read :: "nat \<Rightarrow> mmap_file \<Rightarrow> bytes \<times> mmap_file" where
  "mm_read n f =
     (let bs = take n (drop (mm_pos f) (mm_mem f)) in (bs, f\<lparr>mm_pos := mm_pos f + length bs\<rparr>))"

datatype ram_write_pc =
    WAddr \<comment> \<open>waiting for an address\<close>
  | WLatency nat nat \<comment> \<open>edges to go, address\<close>
  | WData \<comment> \<open>waiting for data\<close>
  | WResp \<comment> \<open>waiting for the response to be taken\<close>

datatype ram_read_pc =
    RAddr
  | RLatency nat nat
  | RResp

record axil_ram =
  ar_size :: nat
  ar_file :: mmap_file
  ar_write :: ram_write_pc
  ar_read :: ram_read_pc
  ar_awready :: bool
  ar_wready :: bool
  ar_bvalid :: bool
  ar_bresp :: int
  ar_arready :: bool
  ar_rvalid :: bool
  ar_rdata :: int
  ar_rresp :: int

definition axil_ram0 :: "nat \<Rightarrow> axil_ram" where
  \<comment> \<open>after both processes of the port have run up to their first \<open>yield\<close>\<close>
  "axil_ram0 sz =
     \<lparr>ar_size = sz, ar_file = \<lparr>mm_mem = replicate sz 0, mm_pos = 0\<rparr>, ar_write = WAddr, ar_read = RAddr,
      ar_awready = True, ar_wready = False, ar_bvalid = False, ar_bresp = 0,
      ar_arready = True, ar_rvalid = False, ar_rdata = 0, ar_rresp = 0\<rparr>"

definition axil_read_mem :: "nat \<Rightarrow> nat \<Rightarrow> axil_ram \<Rightarrow> (bytes \<times> axil_ram) result" where
  "axil_read_mem address len self =
     bindR (mm_seek address (ar_file self)) (\<lambda>f.
       case mm_read len f of (bs, f) \<Rightarrow> Inr (bs, self\<lparr>ar_file := f\<rparr>))"

definition axil_write_mem :: "nat \<Rightarrow> bytes \<Rightarrow> axil_ram \<Rightarrow> axil_ram result" where
  "axil_write_mem address data self =
     bindR (mm_seek address (ar_file self)) (\<lambda>f.
     bindR (mm_write data f) (\<lambda>f. Inr (self\<lparr>ar_file := f\<rparr>)))"

fun write_lanes :: "int \<Rightarrow> int \<Rightarrow> nat list \<Rightarrow> mmap_file \<Rightarrow> mmap_file result" where
  \<comment> \<open>\<open>for i in range(bw)\<close>: write the octet or skip it\<close>
  "write_lanes val wstrb [] f = Inr f"
| "write_lanes val wstrb (i # is) f =
     bindR (if wstrb AND shl 1 i \<noteq> 0
            then mm_write [word_of_int (shr val (8 * i) AND 0xff)] f
            else mm_seek (mm_pos f + 1) f) (write_lanes val wstrb is)"

fun join_octets :: "bytes \<Rightarrow> nat list \<Rightarrow> int \<Rightarrow> int result" where
  \<comment> \<open>\<open>for i in range(bw-1,-1,-1)\<close>: \<open>val <<= 8; val += data[i]\<close>\<close>
  "join_octets data [] val = Inr val"
| "join_octets data (i # is) val =
     (if i < length data then join_octets data is (shl val 8 + uint (data ! i)) else Inl IndexError)"

record axil_to_ram =
  tr_awaddr :: nat
  tr_awvalid :: bool
  tr_wdata :: int
  tr_wstrb :: int
  tr_wvalid :: bool
  tr_bready :: bool
  tr_araddr :: nat
  tr_arvalid :: bool
  tr_rready :: bool

definition ram_data_phase :: "nat \<Rightarrow> axil_ram \<Rightarrow> axil_ram result" where
  \<comment> \<open>after the latency: seek, and get ready for the data\<close>
  "ram_data_phase addr self =
     bindR (mm_seek (addr mod ar_size self) (ar_file self)) (\<lambda>f.
       Inr (self\<lparr>ar_file := f, ar_wready := True, ar_write := WData\<rparr>))"

definition axil_ram_write_step ::
    "axil_cfg \<Rightarrow> axil_pause \<Rightarrow> axil_to_ram \<Rightarrow> axil_ram \<Rightarrow> axil_ram result" where
  "axil_ram_write_step cfg p i self =
     (case ar_write self of
        WAddr \<Rightarrow>
          if (ar_awready self \<and> \<not> p_aw p) \<and> (tr_awvalid i \<and> \<not> p_aw p) then
            (let addr = int_div (tr_awaddr i) (al_bw cfg) * al_bw cfg; self = self\<lparr>ar_awready := False\<rparr>
             in if al_latency cfg = 0 then ram_data_phase addr self
                else Inr (self\<lparr>ar_write := WLatency (al_latency cfg) addr\<rparr>))
          else Inr (self\<lparr>ar_awready := True\<rparr>)
      | WLatency n addr \<Rightarrow>
          if n \<le> 1 then ram_data_phase addr self else Inr (self\<lparr>ar_write := WLatency (n - 1) addr\<rparr>)
      | WData \<Rightarrow>
          if \<not> (tr_wvalid i \<and> \<not> p_w p) then Inr self
          else
            bindR (write_lanes (tr_wdata i) (tr_wstrb i) [0..<al_bw cfg] (ar_file self)) (\<lambda>f.
              Inr (self\<lparr>ar_file := f, ar_wready := False, ar_bresp := 0, ar_bvalid := \<not> p_b p,
                        ar_write := WResp\<rparr>))
      | WResp \<Rightarrow>
          if \<not> ar_bvalid self \<or> \<not> tr_bready i then Inr (self\<lparr>ar_bvalid := ar_bvalid self \<or> \<not> p_b p\<rparr>)
          else Inr (self\<lparr>ar_bvalid := False, ar_awready := True, ar_write := WAddr\<rparr>))"

definition ram_fetch :: "axil_cfg \<Rightarrow> axil_pause \<Rightarrow> nat \<Rightarrow> axil_ram \<Rightarrow> axil_ram result" where
  \<comment> \<open>after the latency: seek, read, and offer the word\<close>
  "ram_fetch cfg p addr self =
     bindR (mm_seek (addr mod ar_size self) (ar_file self)) (\<lambda>f.
     case mm_read (al_bw cfg) f of (data, f) \<Rightarrow>
     bindR (join_octets data (rev [0..<al_bw cfg]) 0) (\<lambda>val.
     if fits (Some (8 * al_bw cfg)) val then
       Inr (self\<lparr>ar_file := f, ar_rdata := val, ar_rresp := 0, ar_rvalid := \<not> p_r p, ar_read := RResp\<rparr>)
     else Inl ValueError))"

definition axil_ram_read_step ::
    "axil_cfg \<Rightarrow> axil_pause \<Rightarrow> axil_to_ram \<Rightarrow> axil_ram \<Rightarrow> axil_ram result" where
  "axil_ram_read_step cfg p i self =
     (case ar_read self of
        RAddr \<Rightarrow>
          if (ar_arready self \<and> \<not> p_ar p) \<and> (tr_arvalid i \<and> \<not> p_ar p) then
            (let addr = int_div (tr_araddr i) (al_bw cfg) * al_bw cfg; self = self\<lparr>ar_arready := False\<rparr>
             in if al_latency cfg = 0 then ram_fetch cfg p addr self
                else Inr (self\<lparr>ar_read := RLatency (al_latency cfg) addr\<rparr>))
          else Inr (self\<lparr>ar_arready := True\<rparr>)
      | RLatency n addr \<Rightarrow>
          if n \<le> 1 then ram_fetch cfg p addr self else Inr (self\<lparr>ar_read := RLatency (n - 1) addr\<rparr>)
      | RResp \<Rightarrow>
          if \<not> ar_rvalid self \<or> \<not> tr_rready i then Inr (self\<lparr>ar_rvalid := ar_rvalid self \<or> \<not> p_r p\<rparr>)
          else Inr (self\<lparr>ar_rvalid := False, ar_arready := True, ar_read := RAddr\<rparr>))"

definition axil_ram_step ::
    "axil_cfg \<Rightarrow> axil_pause \<Rightarrow> axil_to_ram \<Rightarrow> axil_ram \<Rightarrow> axil_ram result" where
  "axil_ram_step cfg p i self =
     bindR (axil_ram_write_step cfg p i self) (axil_ram_read_step cfg p i)"

section \<open>A master and a memory on one bus\<close>

definition to_master :: "axil_pause \<Rightarrow> axil_ram \<Rightarrow> axil_to_master" where
  "to_master p r =
     \<lparr>tm_awready = (ar_awready r \<and> \<not> p_aw p), tm_wready = (ar_wready r \<and> \<not> p_w p),
      tm_bvalid = ar_bvalid r, tm_bresp = ar_bresp r,
      tm_arready = (ar_arready r \<and> \<not> p_ar p),
      tm_rvalid = ar_rvalid r, tm_rdata = ar_rdata r, tm_rresp = ar_rresp r\<rparr>"

definition to_ram :: "axil_pause \<Rightarrow> axil_master \<Rightarrow> axil_to_ram" where
  "to_ram p m =
     \<lparr>tr_awaddr = fst (ch_word (am_aw m)), tr_awvalid = ch_valid (am_aw m),
      tr_wdata = fst (ch_word (am_w m)), tr_wstrb = snd (ch_word (am_w m)), tr_wvalid = ch_valid (am_w m),
      tr_bready = (am_bready m \<and> \<not> p_b p),
      tr_araddr = fst (ch_word (am_ar m)), tr_arvalid = ch_valid (am_ar m),
      tr_rready = (am_rready m \<and> \<not> p_r p)\<rparr>"

text \<open>An event: a command of the test, or a clock edge with the pauses of the two ends.\<close>

datatype axil_event =
    Write nat bytes int
  | Read nat nat int
  | Edge axil_pause axil_pause

fun axil_step :: "axil_cfg \<Rightarrow> axil_event \<Rightarrow> axil_master \<times> axil_ram \<Rightarrow> (axil_master \<times> axil_ram) result" where
  "axil_step cfg (Write addr data prot) (m, r) =
     bindR (axil_write_logic (al_bw cfg) (axil_init_write addr data prot m)) (\<lambda>m. Inr (m, r))"
| "axil_step cfg (Read addr len prot) (m, r) =
     Inr (axil_read_logic (al_bw cfg) (axil_init_read addr len prot m), r)"
| "axil_step cfg (Edge pm pr) (m, r) =
     bindR (axil_master_step cfg pm (to_master pr r) m) (\<lambda>m'.
     bindR (axil_ram_step cfg pr (to_ram pm m) r) (\<lambda>r'. Inr (m', r')))"

fun axil_run :: "axil_cfg \<Rightarrow> axil_event list \<Rightarrow> axil_master \<times> axil_ram \<Rightarrow> (axil_master \<times> axil_ram) result" where
  "axil_run cfg [] x = Inr x"
| "axil_run cfg (e # es) x = bindR (axil_step cfg e x) (axil_run cfg es)"

text \<open>
  \<open>wait\<close>: the test suspends itself at every clock edge until the master is idle.  \<open>sched\<close> gives the pauses of both
  ends at each edge; a wait that never ends is \<open>None\<close>.
\<close>

partial_function (option) axil_wait ::
    "axil_cfg \<Rightarrow> (nat \<Rightarrow> axil_pause \<times> axil_pause) \<Rightarrow> nat \<Rightarrow> axil_master \<times> axil_ram \<Rightarrow>
     (axil_master \<times> axil_ram) result option" where
  "axil_wait cfg sched t x =
     (if axil_master_idle (fst x) then Some (Inr x)
      else (case axil_step cfg (Edge (fst (sched t)) (snd (sched t))) x of
              Inl e \<Rightarrow> Some (Inl e)
            | Inr x' \<Rightarrow> axil_wait cfg sched (t + 1) x'))"

end
