(* ===== verification/Process_Loop.thy ===== *)
theory Process_Loop
  imports Prelude
begin

text \<open>
  Two interfaces of test benches.  A process that works off its queues without waiting for the clock makes
  rounds until one needs an item that has not arrived; all that matters is what a round does and that rounds come
  to an end.  A test that waits makes edges until the end-points are idle; it returns if edges never raise the work that
  is left and infinitely many of them lower it.
\<close>

locale process_loop =
  fixes round :: "'s \<Rightarrow> 's result option"
    and loop :: "'s \<Rightarrow> 's result"
    and rounds_left :: "'s \<Rightarrow> nat"
  assumes loop_unfold: "loop s = (case round s of None \<Rightarrow> Inr s | Some r \<Rightarrow> (case r of Inl e \<Rightarrow> Inl e | Inr s' \<Rightarrow> loop s'))"
    and round_decreases: "round s = Some (Inr s') \<Longrightarrow> rounds_left s' < rounds_left s"
begin

lemma loop_stop: "round s = None \<Longrightarrow> loop s = Inr s"
  by (simp add: loop_unfold [of s])

lemma loop_round: "round s = Some (Inr s') \<Longrightarrow> loop s = loop s'"
  by (simp add: loop_unfold [of s])

lemma loop_raise: "round s = Some (Inl e) \<Longrightarrow> loop s = Inl e"
  by (simp add: loop_unfold [of s])

lemma loop_induct [case_names round]:
  assumes "\<And>s. (\<And>s'. round s = Some (Inr s') \<Longrightarrow> P s') \<Longrightarrow> P s"
  shows "P s"
  by (induction s rule: measure_induct_rule [of rounds_left]) (blast intro: assms round_decreases)

text \<open>An invariant of the rounds, under which none raises, holds when the process stops, and it does stop.\<close>

lemma loop_rule:
  assumes "I s" and step: "\<And>s r. I s \<Longrightarrow> round s = Some r \<Longrightarrow> \<exists>s'. r = Inr s' \<and> I s'"
  shows "\<exists>s'. loop s = Inr s' \<and> I s' \<and> round s' = None"
  using assms(1)
proof (induction s rule: loop_induct)
  case (round s)
  show ?case
  proof (cases "round s")
    case None
    then show ?thesis using round.prems loop_stop by blast
  next
    case (Some r)
    then obtain s' where "r = Inr s'" "I s'" using step round.prems by blast
    then show ?thesis using round.IH Some loop_round by simp
  qed
qed

lemma loop_stops: "loop s = Inr s' \<Longrightarrow> round s' = None"
proof (induction s rule: loop_induct)
  case (round s)
  show ?case
  proof (cases "round s")
    case None
    then show ?thesis using round.prems loop_stop by simp
  next
    case (Some r)
    then show ?thesis using round by (cases r) (simp_all add: loop_raise loop_round)
  qed
qed

end

locale edge_wait =
  fixes edge :: "nat \<Rightarrow> 's \<Rightarrow> 's result"
    and idle :: "'s \<Rightarrow> bool"
    and wait :: "nat \<Rightarrow> 's \<Rightarrow> 's result option"
    and calm :: "nat \<Rightarrow> bool"
  assumes wait_unfold: "wait t x = (if idle x then Some (Inr x)
      else (case edge t x of Inl e \<Rightarrow> Some (Inl e) | Inr x' \<Rightarrow> wait (t + 1) x'))"
begin

lemma wait_idle: "idle x \<Longrightarrow> wait t x = Some (Inr x)"
  by (simp add: wait_unfold [of t x])

lemma wait_edge: "\<not> idle x \<Longrightarrow> edge t x = Inr x' \<Longrightarrow> wait t x = wait (t + 1) x'"
  by (simp add: wait_unfold [of t x])

lemma wait_rule:
  fixes work :: "'s \<Rightarrow> nat"
  assumes step: "\<And>t x. I x \<Longrightarrow> \<exists>x'. edge t x = Inr x' \<and> I x' \<and> work x' \<le> work x \<and> (calm t \<longrightarrow> work x' \<le> work x - 1)"
    and still: "\<And>x. I x \<Longrightarrow> work x = 0 \<Longrightarrow> idle x"
    and fair: "\<And>t. \<exists>t' \<ge> t. calm t'"
    and "I x"
  shows "\<exists>x'. wait t x = Some (Inr x') \<and> I x' \<and> idle x'"
  using assms(4)
proof (induction "work x" arbitrary: x t rule: less_induct)
  case less
  obtain d where d: "calm (t + d)" using fair by (metis le_iff_add)
  have "\<exists>x'. wait t y = Some (Inr x') \<and> I x' \<and> idle x'" if "I y" "work y \<le> work x" "calm (t + d)" for y t
    using that
  proof (induction d arbitrary: y t)
    case 0
    show ?case
    proof (cases "idle y")
      case False
      obtain y' where y': "edge t y = Inr y'" "I y'" "work y' \<le> work y - 1" using step 0 by fastforce
      moreover have "work y \<noteq> 0" using still 0(1) False by blast
      ultimately have "work y' < work x" using 0(2) by simp
      from less(1) [OF this y'(2)] show ?thesis using wait_edge [OF False y'(1)] by simp
    qed (use 0(1) wait_idle in blast)
  next
    case (Suc d)
    show ?case
    proof (cases "idle y")
      case False
      obtain y' where y': "edge t y = Inr y'" "I y'" "work y' \<le> work y" using step Suc(2) by blast
      from Suc(1) [OF y'(2), of "t + 1"] show ?thesis using y' Suc(3,4) wait_edge [OF False y'(1)] by simp
    qed (use Suc(2) wait_idle in blast)
  qed
  from this [OF less(2) order_refl d] show ?case .
qed

end

end
