(* ===== verification/Axi_Endpoint.thy ===== *)
theory Axi_Endpoint
  imports Axil_Endpoint Process_Loop
begin

text \<open>
  \<open>lib/eth/lib/axi/tb/axi.py\<close>: a master that cuts reads and writes of any length into AXI bursts, and a
  memory behind an AXI port.  The channels, the memory map and the division of floats are those of
  \<open>Axil_Endpoint\<close>: the code has them in both files.

  The processes that wait for a signal other than the clock run whenever their queue has an item: the cutting
  of the commands and the collection of the read data in the master, the two processes of the memory.  The
  others make one step per rising edge.  The identifier ports are connected, the user ports are not.
\<close>

section \<open>Constants\<close>

definition BURST_FIXED :: int where "BURST_FIXED = 0"
definition BURST_INCR :: int where "BURST_INCR = 1"
definition BURST_WRAP :: int where "BURST_WRAP = 2"

section \<open>AXIMaster\<close>

record axi_cfg =
  ax_bw :: nat
  ax_addr_bits :: nat
  ax_id_bits :: nat

text \<open>The attributes that a command hands on to every burst.\<close>

record axi_attr =
  at_burst :: int
  at_lock :: int
  at_cache :: int
  at_prot :: int
  at_qos :: int
  at_region :: int
  at_user :: "int option"

text \<open>An entry of the address queues: the first address, identifier, length less one and size of a burst.\<close>

record axi_addr =
  ad_addr :: nat
  ad_id :: nat
  ad_len :: nat
  ad_size :: nat
  ad_attr :: axi_attr

type_synonym axi_data = "int \<times> int \<times> bool" \<comment> \<open>data, strobe, last\<close>

type_synonym axi_rword = "nat \<times> int \<times> int \<times> bool" \<comment> \<open>identifier, data, response, last\<close>

text \<open>
  The write side and the read side of the master share the count of the operations in flight and
  \<open>max_burst_len\<close>, nothing else.
\<close>

record axi_master_write =
  xw_command_queue :: "(nat \<times> bytes \<times> nat option \<times> axi_attr) list"
  xw_resp_queue :: "(nat \<times> nat \<times> int \<times> int) list"
  xw_cur_id :: nat
  xw_addr_queue :: "axi_addr list"
  xw_data_queue :: "axi_data list"
  xw_resp_command_queue :: "(nat \<times> nat \<times> nat \<times> int) list"
  xw_int_resp_queue :: "(nat \<times> int) list"
  xw_resp :: "write_resp_frame option"
  xw_aw :: "axi_addr chan"
  xw_w :: "axi_data chan"
  xw_bready :: bool

text \<open>The local variables of \<open>read_resp_logic\<close>; the burst at hand has an identifier, a length and the beats so far.\<close>

record axi_read_frame =
  xf_command :: "nat \<times> nat \<times> nat \<times> int" \<comment> \<open>\<open>addr, length, size, prot\<close>\<close>
  xf_bursts :: "(nat \<times> nat) list"
  xf_burst :: "(nat \<times> nat \<times> nat) option"
  xf_offset :: nat
  xf_data :: bytes
  xf_resp :: int
  xf_first :: bool

record axi_master_read =
  xr_command_queue :: "(nat \<times> nat \<times> nat option \<times> axi_attr) list"
  xr_data_queue :: "(nat \<times> bytes \<times> int \<times> int) list"
  xr_cur_id :: nat
  xr_addr_queue :: "axi_addr list"
  xr_resp_command_queue :: "(nat \<times> nat \<times> nat \<times> nat \<times> int \<times> (nat \<times> nat) list) list"
  xr_resp_queue_list :: "nat \<Rightarrow> axi_rword list"
  xr_resp :: "axi_read_frame option"
  xr_ar :: "axi_addr chan"
  xr_rready :: bool

record axi_master =
  xm_write :: axi_master_write
  xm_read :: axi_master_read
  xm_in_flight :: int
  xm_max_burst_len :: int

definition axi_width :: "nat \<Rightarrow> nat \<Rightarrow> nat \<Rightarrow> nat \<Rightarrow> nat \<Rightarrow> nat \<Rightarrow> nat \<Rightarrow> nat \<Rightarrow> nat \<Rightarrow> nat result" where
  \<comment> \<open>the assertions on the widths of identifiers, data buses, strobe and addresses, and \<open>bw\<close>\<close>
  "axi_width awid bid wdata wstrb arid rid rdata awaddr araddr =
     bindR (assertR (awid = bid)) (\<lambda>_.
     bindR (assertR (wdata mod 8 = 0 \<and> wdata div 8 = wstrb)) (\<lambda>_.
     bindR (assertR (arid = rid)) (\<lambda>_.
     bindR (assertR (rdata mod 8 = 0)) (\<lambda>_.
     bindR (assertR (awaddr = araddr \<and> wdata = rdata)) (\<lambda>_.
     bindR (assertR (rdata div 8 \<in> {1, 2, 4, 8, 16, 32, 64, 128})) (\<lambda>_. Inr (rdata div 8)))))))"

definition axi_attr0 :: axi_attr where
  \<comment> \<open>the defaults of \<open>init_read\<close> and \<open>init_write\<close>\<close>
  "axi_attr0 = \<lparr>at_burst = BURST_INCR, at_lock = 0, at_cache = 3, at_prot = 2, at_qos = 0, at_region = 0, at_user = None\<rparr>"

definition axi_addr0 :: axi_addr where
  \<comment> \<open>the address signals before the first burst\<close>
  "axi_addr0 = \<lparr>ad_addr = 0, ad_id = 0, ad_len = 0, ad_size = 0,
     ad_attr = \<lparr>at_burst = 0, at_lock = 0, at_cache = 0, at_prot = 0, at_qos = 0, at_region = 0, at_user = None\<rparr>\<rparr>"

definition axi_master0 :: axi_master where
  \<comment> \<open>after every process has run up to its first \<open>yield\<close>\<close>
  "axi_master0 =
     \<lparr>xm_write = \<lparr>xw_command_queue = [], xw_resp_queue = [], xw_cur_id = 0, xw_addr_queue = [], xw_data_queue = [],
        xw_resp_command_queue = [], xw_int_resp_queue = [], xw_resp = None,
        xw_aw = \<lparr>ch_busy = False, ch_word = axi_addr0, ch_valid = False\<rparr>,
        xw_w = \<lparr>ch_busy = False, ch_word = (0, 1, True), ch_valid = False\<rparr>, xw_bready = True\<rparr>,
      xm_read = \<lparr>xr_command_queue = [], xr_data_queue = [], xr_cur_id = 0, xr_addr_queue = [],
        xr_resp_command_queue = [], xr_resp_queue_list = (\<lambda>_. []), xr_resp = None,
        xr_ar = \<lparr>ch_busy = False, ch_word = axi_addr0, ch_valid = False\<rparr>, xr_rready = True\<rparr>,
      xm_in_flight = 0, xm_max_burst_len = 256\<rparr>"

definition axi_init_write :: "nat \<Rightarrow> bytes \<Rightarrow> nat option \<Rightarrow> axi_attr \<Rightarrow> axi_master \<Rightarrow> axi_master" where
  "axi_init_write address data sz attr self =
     self\<lparr>xm_write := (xm_write self)\<lparr>xw_command_queue := xw_command_queue (xm_write self) @ [(address, data, sz, attr)]\<rparr>\<rparr>"

definition axi_init_read :: "nat \<Rightarrow> nat \<Rightarrow> nat option \<Rightarrow> axi_attr \<Rightarrow> axi_master \<Rightarrow> axi_master" where
  "axi_init_read address len sz attr self =
     self\<lparr>xm_read := (xm_read self)\<lparr>xr_command_queue := xr_command_queue (xm_read self) @ [(address, len, sz, attr)]\<rparr>\<rparr>"

definition axi_master_idle :: "axi_master \<Rightarrow> bool" where
  "axi_master_idle self \<longleftrightarrow> xw_command_queue (xm_write self) = [] \<and> xr_command_queue (xm_read self) = [] \<and> xm_in_flight self = 0"

definition axi_read_data_ready :: "axi_master \<Rightarrow> bool" where
  "axi_read_data_ready self \<longleftrightarrow> xr_data_queue (xm_read self) \<noteq> []"

definition axi_get_read_data :: "axi_master \<Rightarrow> (nat \<times> bytes \<times> int \<times> int) option \<times> axi_master" where
  "axi_get_read_data self =
     (case xr_data_queue (xm_read self) of
        [] \<Rightarrow> (None, self)
      | d # q \<Rightarrow> (Some d, self\<lparr>xm_read := (xm_read self)\<lparr>xr_data_queue := q\<rparr>\<rparr>))"

section \<open>Cutting a command into bursts\<close>

definition log2 :: "nat \<Rightarrow> nat" where
  \<comment> \<open>\<open>int(math.log(bw, 2))\<close>, for the powers of two that \<open>bw\<close> can be\<close>
  "log2 bw = nat_bits bw - 1"

definition axi_size :: "nat \<Rightarrow> nat option \<Rightarrow> (nat \<times> nat) result" where
  \<comment> \<open>\<open>size\<close> and \<open>num_bytes\<close>\<close>
  "axi_size bw sz =
     (case sz of
        None \<Rightarrow> Inr (log2 bw, bw)
      | Some s \<Rightarrow> bindR (assertR (2 ^ s \<le> bw)) (\<lambda>_. Inr (s, 2 ^ s)))"

definition axi_burst_length :: "int \<Rightarrow> nat \<Rightarrow> nat \<Rightarrow> nat \<Rightarrow> nat" where
  \<comment> \<open>at most \<open>max_burst_len\<close> and 256 beats, and not over a boundary of 4 KiB\<close>
  "axi_burst_length max_burst_len left num_bytes cur_addr =
     (let burst_length = min left (nat (min (max max_burst_len 1) 256))
      in int_div (min (burst_length * num_bytes) (0x1000 - cur_addr mod 0x1000) + num_bytes - 1) num_bytes)"

definition axi_cycles :: "nat \<Rightarrow> nat \<Rightarrow> nat \<Rightarrow> nat" where
  "axi_cycles num_bytes addr len = int_div (len + num_bytes - 1 + addr mod num_bytes) num_bytes"

text \<open>The variables of the loop of \<open>write_logic\<close>, and \<open>cur_write_id\<close>.\<close>

record axi_cut =
  cu_addr :: nat
  cu_offset :: nat
  cu_cycle_offset :: nat
  cu_n :: nat
  cu_transfers :: nat
  cu_burst_length :: nat
  cu_id :: nat

definition axi_strb :: "nat \<Rightarrow> nat \<Rightarrow> nat \<Rightarrow> int" where
  "axi_strb bw start stop = (shl (2 ^ bw - 1) start AND (2 ^ bw - 1)) AND shr (2 ^ bw - 1) (bw - stop)"

definition axi_start :: "nat \<Rightarrow> nat \<Rightarrow> nat \<Rightarrow> nat" where
  \<comment> \<open>the first octet of cycle \<open>k\<close>\<close>
  "axi_start start_offset cycle_offset k = (if k = 0 then start_offset else cycle_offset)"

definition axi_stop :: "nat \<Rightarrow> nat \<Rightarrow> nat \<Rightarrow> nat \<Rightarrow> nat" where
  \<comment> \<open>one past its last octet, with \<open>left\<close> cycles to go\<close>
  "axi_stop num_bytes end_offset cycle_offset left = (if left = 1 then end_offset else cycle_offset + num_bytes)"

definition axi_write_cycle ::
    "axi_cfg \<Rightarrow> int \<Rightarrow> nat \<Rightarrow> nat \<Rightarrow> axi_attr \<Rightarrow> bytes \<Rightarrow> nat \<Rightarrow> nat \<Rightarrow> nat \<Rightarrow> nat \<Rightarrow> axi_cut \<Rightarrow>
     (axi_addr list \<times> axi_data \<times> axi_cut) result" where
  \<comment> \<open>cycle \<open>k\<close>, with \<open>left = cycles - k\<close>\<close>
  "axi_write_cycle cfg max_burst_len sz num_bytes attr data start_offset end_offset left k c =
     (let bw = ax_bw cfg;
          start = axi_start start_offset (cu_cycle_offset c) k;
          stop = axi_stop num_bytes end_offset (cu_cycle_offset c) left
      in bindR (pack_octets data [start..<stop] (cu_offset c) 0) (\<lambda>(offset, val).
         let new = cu_burst_length c \<le> cu_n c;
             burst_length = (if new then axi_burst_length max_burst_len left num_bytes (cu_addr c) else cu_burst_length c);
             as = (if new then [\<lparr>ad_addr = cu_addr c, ad_id = cu_id c, ad_len = burst_length - 1, ad_size = sz, ad_attr = attr\<rparr>]
                   else []);
             n = (if new then 0 else cu_n c) + 1
         in Inr (as, (val, axi_strb bw start stop, burst_length \<le> n),
                 \<lparr>cu_addr = cu_addr c + num_bytes, cu_offset = offset, cu_cycle_offset = (cu_cycle_offset c + num_bytes) mod bw,
                  cu_n = n, cu_transfers = (if new then cu_transfers c + 1 else cu_transfers c), cu_burst_length = burst_length,
                  cu_id = (if new then (cu_id c + 1) mod 2 ^ ax_id_bits cfg else cu_id c)\<rparr>)))"

fun axi_write_cycles ::
    "axi_cfg \<Rightarrow> int \<Rightarrow> nat \<Rightarrow> nat \<Rightarrow> axi_attr \<Rightarrow> bytes \<Rightarrow> nat \<Rightarrow> nat \<Rightarrow> nat \<Rightarrow> nat \<Rightarrow> axi_cut \<Rightarrow>
     (axi_addr list \<times> axi_data list \<times> axi_cut) result" where
  "axi_write_cycles cfg max_burst_len sz num_bytes attr data start_offset end_offset 0 k c = Inr ([], [], c)"
| "axi_write_cycles cfg max_burst_len sz num_bytes attr data start_offset end_offset (Suc left) k c =
     bindR (axi_write_cycle cfg max_burst_len sz num_bytes attr data start_offset end_offset (Suc left) k c) (\<lambda>(as, d, c).
     bindR (axi_write_cycles cfg max_burst_len sz num_bytes attr data start_offset end_offset left (k + 1) c) (\<lambda>(as', ds, c).
       Inr (as @ as', d # ds, c)))"

definition axi_write_command ::
    "axi_cfg \<Rightarrow> nat \<times> bytes \<times> nat option \<times> axi_attr \<Rightarrow> axi_master \<Rightarrow> axi_master result" where
  \<comment> \<open>one round of \<open>write_logic\<close>\<close>
  "axi_write_command cfg cmd self =
     (case cmd of (addr, data, sz, attr) \<Rightarrow>
      bindR (axi_size (ax_bw cfg) sz) (\<lambda>(sz, num_bytes).
      let bw = ax_bw cfg; aligned_addr = int_div addr num_bytes * num_bytes; word_addr = int_div addr bw * bw;
          start_offset = addr mod bw; end_offset = end_offset_of bw addr (length data);
          cycles = axi_cycles num_bytes addr (length data); w = xm_write self
      in bindR (axi_write_cycles cfg (xm_max_burst_len self) sz num_bytes attr data start_offset end_offset cycles 0
                  \<lparr>cu_addr = aligned_addr, cu_offset = 0, cu_cycle_offset = aligned_addr - word_addr, cu_n = 0,
                   cu_transfers = 0, cu_burst_length = 0, cu_id = xw_cur_id w\<rparr>) (\<lambda>(as, ds, c).
         Inr (self\<lparr>xm_in_flight := xm_in_flight self + 1,
           xm_write := w\<lparr>xw_cur_id := cu_id c,
             xw_addr_queue := xw_addr_queue w @ as, xw_data_queue := xw_data_queue w @ ds,
             xw_resp_command_queue := xw_resp_command_queue w
               @ [(addr, length data, cu_transfers c, at_prot attr)]\<rparr>\<rparr>))))"

fun axi_write_commands ::
    "axi_cfg \<Rightarrow> (nat \<times> bytes \<times> nat option \<times> axi_attr) list \<Rightarrow> axi_master \<Rightarrow> axi_master result" where
  "axi_write_commands cfg [] self = Inr (self\<lparr>xm_write := (xm_write self)\<lparr>xw_command_queue := []\<rparr>\<rparr>)"
| "axi_write_commands cfg (cmd # cmds) self = bindR (axi_write_command cfg cmd self) (axi_write_commands cfg cmds)"

text \<open>
  \<open>read_logic\<close> counts the beats before it looks at them, and keeps a list of the bursts for the process of the
  responses, which sees it when it is complete.
\<close>

fun axi_read_cycles ::
    "axi_cfg \<Rightarrow> int \<Rightarrow> nat \<Rightarrow> nat \<Rightarrow> axi_attr \<Rightarrow> nat \<Rightarrow> nat \<Rightarrow> nat \<Rightarrow> nat \<Rightarrow> nat \<Rightarrow>
     axi_addr list \<times> (nat \<times> nat) list \<times> nat" where
  \<comment> \<open>\<open>left\<close> cycles to go, \<open>cur_addr\<close>, \<open>n\<close>, \<open>burst_length\<close> and \<open>cur_read_id\<close>\<close>
  "axi_read_cycles cfg max_burst_len sz num_bytes attr 0 cur_addr n burst_length cur_id = ([], [], cur_id)"
| "axi_read_cycles cfg max_burst_len sz num_bytes attr (Suc left) cur_addr n burst_length cur_id =
     (if burst_length \<le> n + 1 then
        (let len = axi_burst_length max_burst_len (Suc left) num_bytes cur_addr
         in case axi_read_cycles cfg max_burst_len sz num_bytes attr left (cur_addr + num_bytes) 0 len
                   ((cur_id + 1) mod 2 ^ ax_id_bits cfg) of (as, bs, cur_id') \<Rightarrow>
            (\<lparr>ad_addr = cur_addr, ad_id = cur_id, ad_len = len - 1, ad_size = sz, ad_attr = attr\<rparr> # as,
             (cur_id, len) # bs, cur_id'))
      else axi_read_cycles cfg max_burst_len sz num_bytes attr left (cur_addr + num_bytes) (n + 1) burst_length cur_id)"

definition axi_read_command ::
    "axi_cfg \<Rightarrow> nat \<times> nat \<times> nat option \<times> axi_attr \<Rightarrow> axi_master \<Rightarrow> axi_master result" where
  \<comment> \<open>one round of \<open>read_logic\<close>\<close>
  "axi_read_command cfg cmd self =
     (case cmd of (addr, len, sz, attr) \<Rightarrow>
      bindR (axi_size (ax_bw cfg) sz) (\<lambda>(sz, num_bytes).
      let cycles = axi_cycles num_bytes addr len; r = xm_read self
      in case axi_read_cycles cfg (xm_max_burst_len self) sz num_bytes attr cycles (int_div addr num_bytes * num_bytes) 0 0
                (xr_cur_id r) of (as, bs, cur_id) \<Rightarrow>
         Inr (self\<lparr>xm_in_flight := xm_in_flight self + 1,
           xm_read := r\<lparr>xr_cur_id := cur_id, xr_addr_queue := xr_addr_queue r @ as,
             xr_resp_command_queue := xr_resp_command_queue r @ [(addr, len, sz, cycles, at_prot attr, bs)]\<rparr>\<rparr>)))"

fun axi_read_commands ::
    "axi_cfg \<Rightarrow> (nat \<times> nat \<times> nat option \<times> axi_attr) list \<Rightarrow> axi_master \<Rightarrow> axi_master result" where
  "axi_read_commands cfg [] self = Inr (self\<lparr>xm_read := (xm_read self)\<lparr>xr_command_queue := []\<rparr>\<rparr>)"
| "axi_read_commands cfg (cmd # cmds) self = bindR (axi_read_command cfg cmd self) (axi_read_commands cfg cmds)"

section \<open>Collecting the responses\<close>

text \<open>
  The processes of the responses as rounds, on their side of the master and the count of operations in
  flight.  \<open>None\<close> is a process that waits.
\<close>

definition axi_write_resp_round ::
    "int \<times> axi_master_write \<Rightarrow> (int \<times> axi_master_write) result option" where
  "axi_write_resp_round s =
     (case s of (in_flight, w) \<Rightarrow>
      case xw_resp w of
        None \<Rightarrow>
          (case xw_resp_command_queue w of
             [] \<Rightarrow> None
           | (addr, len, transfers, prot) # q \<Rightarrow>
               Some (Inr (in_flight, w\<lparr>xw_resp_command_queue := q,
                 xw_resp := Some \<lparr>wf_command = (addr, len, prot), wf_left = transfers, wf_resp = 0\<rparr>\<rparr>)))
      | Some f \<Rightarrow>
          if wf_left f = 0 then
            (case wf_command f of (addr, len, prot) \<Rightarrow>
               Some (Inr (in_flight - 1, w\<lparr>xw_resp_queue := xw_resp_queue w @ [(addr, len, prot, wf_resp f)],
                 xw_resp := None\<rparr>)))
          else
            (case xw_int_resp_queue w of
               [] \<Rightarrow> None
             | (i, r) # q \<Rightarrow>
                 Some (Inr (in_flight, w\<lparr>xw_int_resp_queue := q,
                   xw_resp := Some (f\<lparr>wf_left := wf_left f - 1, wf_resp := (if r \<noteq> 0 then r else wf_resp f)\<rparr>)\<rparr>))))"

definition write_resp_rounds :: "int \<times> axi_master_write \<Rightarrow> nat" where
  "write_resp_rounds s = (case s of (in_flight, w) \<Rightarrow>
     2 * length (xw_resp_command_queue w) + length (xw_int_resp_queue w) + (if xw_resp w = None then 0 else 1))"

lemma write_resp_round_decreases:
  "axi_write_resp_round s = Some (Inr s') \<Longrightarrow> write_resp_rounds s' < write_resp_rounds s"
  by (auto simp: axi_write_resp_round_def write_resp_rounds_def split: prod.splits option.splits list.splits if_splits)

function axi_write_resp_logic :: "int \<times> axi_master_write \<Rightarrow> (int \<times> axi_master_write) result" where
  "axi_write_resp_logic s =
     (case axi_write_resp_round s of
        None \<Rightarrow> Inr s
      | Some r \<Rightarrow> (case r of Inl e \<Rightarrow> Inl e | Inr s' \<Rightarrow> axi_write_resp_logic s'))"
  by pat_completeness auto
termination
  by (relation "measure write_resp_rounds") (auto dest: write_resp_round_decreases)

declare axi_write_resp_logic.simps [simp del]

definition take_beat :: "nat \<Rightarrow> axi_rword \<Rightarrow> nat \<times> nat \<times> nat \<Rightarrow> axi_read_frame \<Rightarrow> axi_read_frame result" where
  \<comment> \<open>the body of \<open>for k in range(burst_length)\<close>\<close>
  "take_beat bw word burst f =
     (case xf_command f of (addr, len, sz, prot) \<Rightarrow> case word of (cycle_id, cycle_data, cycle_resp, cycle_last) \<Rightarrow>
      case burst of (rid, burst_length, k) \<Rightarrow>
      let num_bytes = 2 ^ sz; start = (if xf_first f then addr mod bw else xf_offset f); stop = xf_offset f + num_bytes
      in bindR (assertR (cycle_last = (k + 1 = burst_length))) (\<lambda>_.
         Inr (f\<lparr>xf_burst := Some (rid, burst_length, k + 1),
           xf_resp := (if cycle_resp \<noteq> 0 then cycle_resp else xf_resp f),
           xf_data := xf_data f @ unpack_octets cycle_data start stop,
           xf_offset := (xf_offset f + num_bytes) mod bw, xf_first := False\<rparr>)))"

definition axi_read_resp_round ::
    "nat \<Rightarrow> int \<times> axi_master_read \<Rightarrow> (int \<times> axi_master_read) result option" where
  "axi_read_resp_round bw s =
     (case s of (in_flight, r) \<Rightarrow>
      case xr_resp r of
        None \<Rightarrow>
          (case xr_resp_command_queue r of
             [] \<Rightarrow> None
           | (addr, len, sz, cycles, prot, burst_list) # q \<Rightarrow>
               Some (bindR (assertR (sz \<le> log2 bw)) (\<lambda>_.
                 Inr (in_flight, r\<lparr>xr_resp_command_queue := q,
                   xr_resp := Some \<lparr>xf_command = (addr, len, sz, prot), xf_bursts = burst_list, xf_burst = None,
                     xf_offset = int_div addr (2 ^ sz) * 2 ^ sz - int_div addr bw * bw,
                     xf_data = [], xf_resp = 0, xf_first = True\<rparr>\<rparr>))))
      | Some f \<Rightarrow>
          (case xf_burst f of
             None \<Rightarrow>
               (case xf_bursts f of
                  [] \<Rightarrow>
                    (case xf_command f of (addr, len, sz, prot) \<Rightarrow>
                     Some (Inr (in_flight - 1, r\<lparr>xr_data_queue := xr_data_queue r @ [(addr, take len (xf_data f), prot, xf_resp f)],
                       xr_resp := None\<rparr>)))
                | (rid, burst_length) # bs \<Rightarrow>
                    Some (Inr (in_flight, r\<lparr>xr_resp := Some (f\<lparr>xf_bursts := bs, xf_burst := Some (rid, burst_length, 0)\<rparr>)\<rparr>)))
           | Some (rid, burst_length, k) \<Rightarrow>
               if burst_length \<le> k then
                 Some (Inr (in_flight, r\<lparr>xr_resp := Some (f\<lparr>xf_burst := None\<rparr>)\<rparr>))
               else
                 (case xr_resp_queue_list r rid of
                    [] \<Rightarrow> None
                  | word # q \<Rightarrow>
                      Some (bindR (take_beat bw word (rid, burst_length, k) f) (\<lambda>f.
                        Inr (in_flight, r\<lparr>xr_resp_queue_list := (xr_resp_queue_list r)(rid := q), xr_resp := Some f\<rparr>))))))"

definition burst_rounds :: "(nat \<times> nat) list \<Rightarrow> nat" where
  "burst_rounds bs = (\<Sum>(rid, burst_length) \<leftarrow> bs. burst_length + 2)"

definition read_resp_rounds :: "int \<times> axi_master_read \<Rightarrow> nat" where
  "read_resp_rounds s = (case s of (in_flight, r) \<Rightarrow>
     (\<Sum>(addr, len, sz, cycles, prot, bs) \<leftarrow> xr_resp_command_queue r. burst_rounds bs + 3)
     + (case xr_resp r of
          None \<Rightarrow> 0
        | Some f \<Rightarrow> 1 + burst_rounds (xf_bursts f)
            + (case xf_burst f of None \<Rightarrow> 0 | Some (rid, burst_length, k) \<Rightarrow> 1 + (burst_length - k))))"

lemma read_resp_round_decreases:
  "axi_read_resp_round bw s = Some (Inr s') \<Longrightarrow> read_resp_rounds s' < read_resp_rounds s"
  by (auto simp: axi_read_resp_round_def read_resp_rounds_def burst_rounds_def take_beat_def bindR_eq_Inr Let_def
      split: prod.splits option.splits list.splits if_splits)

function axi_read_resp_logic :: "nat \<Rightarrow> int \<times> axi_master_read \<Rightarrow> (int \<times> axi_master_read) result" where
  "axi_read_resp_logic bw s =
     (case axi_read_resp_round bw s of
        None \<Rightarrow> Inr s
      | Some r \<Rightarrow> (case r of Inl e \<Rightarrow> Inl e | Inr s' \<Rightarrow> axi_read_resp_logic bw s'))"
  by pat_completeness auto
termination
  by (relation "measure (\<lambda>(bw, s). read_resp_rounds s)") (auto dest: read_resp_round_decreases)

declare axi_read_resp_logic.simps [simp del]

definition axi_write_logic :: "axi_cfg \<Rightarrow> axi_master \<Rightarrow> axi_master result" where
  \<comment> \<open>a command: the cutting, then the responses as far as they go\<close>
  "axi_write_logic cfg self =
     bindR (axi_write_commands cfg (xw_command_queue (xm_write self)) self) (\<lambda>self.
     bindR (axi_write_resp_logic (xm_in_flight self, xm_write self)) (\<lambda>(n, w).
       Inr (self\<lparr>xm_in_flight := n, xm_write := w\<rparr>)))"

definition axi_read_logic :: "axi_cfg \<Rightarrow> axi_master \<Rightarrow> axi_master result" where
  "axi_read_logic cfg self =
     bindR (axi_read_commands cfg (xr_command_queue (xm_read self)) self) (\<lambda>self.
     bindR (axi_read_resp_logic (ax_bw cfg) (xm_in_flight self, xm_read self)) (\<lambda>(n, r).
       Inr (self\<lparr>xm_in_flight := n, xm_read := r\<rparr>)))"

section \<open>The channels of the master\<close>

record axi_to_master =
  im_awready :: bool
  im_wready :: bool
  im_bvalid :: bool
  im_b :: "nat \<times> int"
  im_arready :: bool
  im_rvalid :: bool
  im_r :: axi_rword

definition axi_addr_fits :: "axi_cfg \<Rightarrow> axi_addr \<Rightarrow> bool" where
  "axi_addr_fits cfg w \<longleftrightarrow>
     ad_addr w < 2 ^ ax_addr_bits cfg \<and> ad_id w < 2 ^ ax_id_bits cfg \<and> ad_len w < 2 ^ 8 \<and> ad_size w < 2 ^ 3
     \<and> fits (Some 2) (at_burst (ad_attr w)) \<and> fits (Some 1) (at_lock (ad_attr w)) \<and> fits (Some 4) (at_cache (ad_attr w))
     \<and> fits (Some 3) (at_prot (ad_attr w)) \<and> fits (Some 4) (at_qos (ad_attr w)) \<and> fits (Some 4) (at_region (ad_attr w))"

definition axi_data_fits :: "axi_cfg \<Rightarrow> axi_data \<Rightarrow> bool" where
  "axi_data_fits cfg w \<longleftrightarrow> (case w of (val, strb, l) \<Rightarrow> fits (Some (8 * ax_bw cfg)) val \<and> fits (Some (ax_bw cfg)) strb)"

definition axi_b_step :: "bool \<Rightarrow> bool \<Rightarrow> nat \<times> int \<Rightarrow> axi_master_write \<Rightarrow> axi_master_write" where
  "axi_b_step pause valid b w =
     (if (xw_bready w \<and> \<not> pause) \<and> (valid \<and> \<not> pause)
      then w\<lparr>xw_bready := True, xw_int_resp_queue := xw_int_resp_queue w @ [b]\<rparr>
      else w\<lparr>xw_bready := True\<rparr>)"

definition axi_r_step :: "bool \<Rightarrow> bool \<Rightarrow> axi_rword \<Rightarrow> axi_master_read \<Rightarrow> axi_master_read" where
  "axi_r_step pause valid word r =
     (if (xr_rready r \<and> \<not> pause) \<and> (valid \<and> \<not> pause)
      then r\<lparr>xr_rready := True,
             xr_resp_queue_list := (xr_resp_queue_list r)(fst word := xr_resp_queue_list r (fst word) @ [word])\<rparr>
      else r\<lparr>xr_rready := True\<rparr>)"

definition axi_master_write_step ::
    "axi_cfg \<Rightarrow> axil_pause \<Rightarrow> axi_to_master \<Rightarrow> int \<times> axi_master_write \<Rightarrow> (int \<times> axi_master_write) result" where
  \<comment> \<open>\<open>write_resp_logic\<close> and the three channels of the writes\<close>
  "axi_master_write_step cfg p i s =
     bindR (axi_write_resp_logic s) (\<lambda>(n, w).
     bindR (chan_step (p_aw p) (im_awready i) (axi_addr_fits cfg) (xw_addr_queue w) (xw_aw w)) (\<lambda>(aq, aw).
     bindR (chan_step (p_w p) (im_wready i) (axi_data_fits cfg) (xw_data_queue w) (xw_w w)) (\<lambda>(wq, wc).
       Inr (n, axi_b_step (p_b p) (im_bvalid i) (im_b i)
                 (w\<lparr>xw_addr_queue := aq, xw_aw := aw, xw_data_queue := wq, xw_w := wc\<rparr>)))))"

definition axi_master_read_step ::
    "axi_cfg \<Rightarrow> axil_pause \<Rightarrow> axi_to_master \<Rightarrow> int \<times> axi_master_read \<Rightarrow> (int \<times> axi_master_read) result" where
  \<comment> \<open>the two channels of the reads; then \<open>read_resp_logic\<close>, which waits for the arrival of a word\<close>
  "axi_master_read_step cfg p i s =
     (case s of (n, r) \<Rightarrow>
      bindR (chan_step (p_ar p) (im_arready i) (axi_addr_fits cfg) (xr_addr_queue r) (xr_ar r)) (\<lambda>(aq, ar).
        axi_read_resp_logic (ax_bw cfg) (n, axi_r_step (p_r p) (im_rvalid i) (im_r i) (r\<lparr>xr_addr_queue := aq, xr_ar := ar\<rparr>))))"

definition axi_master_step :: "axi_cfg \<Rightarrow> axil_pause \<Rightarrow> axi_to_master \<Rightarrow> axi_master \<Rightarrow> axi_master result" where
  "axi_master_step cfg p i self =
     bindR (axi_master_write_step cfg p i (xm_in_flight self, xm_write self)) (\<lambda>(n, w).
     bindR (axi_master_read_step cfg p i (n, xm_read self)) (\<lambda>(n, r).
       Inr (self\<lparr>xm_in_flight := n, xm_write := w, xm_read := r\<rparr>)))"

section \<open>AXIRam\<close>

record axi_burst =
  bu_addr :: nat
  bu_id :: nat
  bu_len :: nat
  bu_size :: nat
  bu_burst :: int
  bu_lock :: int
  bu_cache :: int
  bu_prot :: int

record axi_ram_write =
  rw_addr_queue :: "axi_burst list"
  rw_burst :: "(axi_burst \<times> nat \<times> nat) option" \<comment> \<open>the burst at hand, \<open>n\<close> and \<open>cur_addr\<close>\<close>
  rw_data_queue :: "axi_data list"
  rw_resp_queue :: "(nat \<times> int) list"
  rw_awready :: bool
  rw_wready :: bool
  rw_b :: "(nat \<times> int) chan"

record axi_ram_read =
  rr_addr_queue :: "axi_burst list"
  rr_resp_queue :: "axi_rword list"
  rr_arready :: bool
  rr_r :: "axi_rword chan"

record axi_ram =
  xa_size :: nat
  xa_file :: mmap_file
  xa_write :: axi_ram_write
  xa_read :: axi_ram_read

definition axi_ram0 :: "nat \<Rightarrow> axi_ram" where
  "axi_ram0 sz =
     \<lparr>xa_size = sz, xa_file = \<lparr>mm_mem = replicate sz 0, mm_pos = 0\<rparr>,
      xa_write = \<lparr>rw_addr_queue = [], rw_burst = None, rw_data_queue = [], rw_resp_queue = [],
        rw_awready = True, rw_wready = True, rw_b = \<lparr>ch_busy = False, ch_word = (0, 0), ch_valid = False\<rparr>\<rparr>,
      xa_read = \<lparr>rr_addr_queue = [], rr_resp_queue = [], rr_arready = True,
        rr_r = \<lparr>ch_busy = False, ch_word = (0, 0, 0, True), ch_valid = False\<rparr>\<rparr>\<rparr>"

definition axi_read_mem :: "nat \<Rightarrow> nat \<Rightarrow> axi_ram \<Rightarrow> (bytes \<times> axi_ram) result" where
  "axi_read_mem address len self =
     bindR (mm_seek (address mod xa_size self) (xa_file self)) (\<lambda>f.
       case mm_read len f of (bs, f) \<Rightarrow> Inr (bs, self\<lparr>xa_file := f\<rparr>))"

definition axi_write_mem :: "nat \<Rightarrow> bytes \<Rightarrow> axi_ram \<Rightarrow> axi_ram result" where
  "axi_write_mem address data self =
     bindR (mm_seek (address mod xa_size self) (xa_file self)) (\<lambda>f.
     bindR (mm_write data f) (\<lambda>f. Inr (self\<lparr>xa_file := f\<rparr>)))"

definition burst_start :: "nat \<Rightarrow> axi_burst \<Rightarrow> nat result" where
  \<comment> \<open>the assertions of both processes on a burst, and \<open>aligned_addr\<close>\<close>
  "burst_start bw b =
     (let num_bytes = 2 ^ bu_size b; aligned_addr = int_div (bu_addr b) num_bytes * num_bytes;
          transfer_size = num_bytes * (bu_len b + 1)
      in bindR (assertR (num_bytes \<le> bw)) (\<lambda>_.
         bindR (assertR (bu_burst b \<noteq> BURST_INCR \<or> transfer_size \<le> 0x1000 - aligned_addr mod 0x1000)) (\<lambda>_.
           Inr aligned_addr)))"

definition burst_next :: "axi_burst \<Rightarrow> nat \<Rightarrow> nat" where
  \<comment> \<open>\<open>cur_addr\<close> after a beat\<close>
  "burst_next b cur_addr =
     (let num_bytes = 2 ^ bu_size b; transfer_size = num_bytes * (bu_len b + 1);
          lower_wrap_boundary = int_div (bu_addr b) transfer_size * transfer_size;
          upper_wrap_boundary = lower_wrap_boundary + transfer_size
      in if bu_burst b = BURST_FIXED then cur_addr
         else if bu_burst b = BURST_WRAP \<and> cur_addr + num_bytes = upper_wrap_boundary then lower_wrap_boundary
         else cur_addr + num_bytes)"

definition ram_beat ::
    "nat \<Rightarrow> nat \<Rightarrow> axi_burst \<Rightarrow> nat \<Rightarrow> nat \<Rightarrow> axi_data \<Rightarrow> mmap_file \<times> axi_ram_write \<Rightarrow>
     (mmap_file \<times> axi_ram_write) result" where
  \<comment> \<open>the body of \<open>for n in range(length)\<close> of \<open>write_logic\<close>\<close>
  "ram_beat bw sz b n cur_addr d s =
     (case d of (wdata, strb, l) \<Rightarrow> case s of (f, w) \<Rightarrow>
      bindR (mm_seek (int_div cur_addr bw * bw mod sz) f) (\<lambda>f.
      bindR (write_lanes wdata strb [0..<bw] f) (\<lambda>f.
      let w = (if n = bu_len b then w\<lparr>rw_resp_queue := rw_resp_queue w @ [(bu_id b, 0)]\<rparr> else w)
      in if l \<noteq> (n = bu_len b) then Inl StopSimulation
         else Inr (f, w\<lparr>rw_burst := Some (b, n + 1, burst_next b cur_addr)\<rparr>))))"

definition axi_ram_write_round ::
    "nat \<Rightarrow> nat \<Rightarrow> mmap_file \<times> axi_ram_write \<Rightarrow> (mmap_file \<times> axi_ram_write) result option" where
  "axi_ram_write_round bw sz s =
     (case s of (f, w) \<Rightarrow>
      case rw_burst w of
        None \<Rightarrow>
          (case rw_addr_queue w of
             [] \<Rightarrow> None
           | b # q \<Rightarrow>
               Some (bindR (burst_start bw b) (\<lambda>cur_addr.
                 Inr (f, w\<lparr>rw_addr_queue := q, rw_burst := Some (b, 0, cur_addr)\<rparr>))))
      | Some (b, n, cur_addr) \<Rightarrow>
          if bu_len b + 1 \<le> n then Some (Inr (f, w\<lparr>rw_burst := None\<rparr>))
          else
            (case rw_data_queue w of
               [] \<Rightarrow> None
             | d # q \<Rightarrow> Some (ram_beat bw sz b n cur_addr d (f, w\<lparr>rw_data_queue := q\<rparr>))))"

definition ram_write_rounds :: "mmap_file \<times> axi_ram_write \<Rightarrow> nat" where
  "ram_write_rounds s = (case s of (f, w) \<Rightarrow>
     2 * length (rw_addr_queue w) + length (rw_data_queue w) + (if rw_burst w = None then 0 else 1))"

lemma ram_write_round_decreases:
  "axi_ram_write_round bw sz s = Some (Inr s') \<Longrightarrow> ram_write_rounds s' < ram_write_rounds s"
  by (auto simp: axi_ram_write_round_def ram_write_rounds_def ram_beat_def bindR_eq_Inr Let_def
      split: prod.splits option.splits list.splits if_splits)

function axi_ram_write_logic ::
    "nat \<Rightarrow> nat \<Rightarrow> mmap_file \<times> axi_ram_write \<Rightarrow> (mmap_file \<times> axi_ram_write) result" where
  "axi_ram_write_logic bw sz s =
     (case axi_ram_write_round bw sz s of
        None \<Rightarrow> Inr s
      | Some r \<Rightarrow> (case r of Inl e \<Rightarrow> Inl e | Inr s' \<Rightarrow> axi_ram_write_logic bw sz s'))"
  by pat_completeness auto
termination
  by (relation "measure (\<lambda>(bw, sz, s). ram_write_rounds s)") (auto dest: ram_write_round_decreases)

declare axi_ram_write_logic.simps [simp del]

fun axi_read_beats ::
    "nat \<Rightarrow> nat \<Rightarrow> axi_burst \<Rightarrow> nat \<Rightarrow> nat \<Rightarrow> nat \<Rightarrow> mmap_file \<Rightarrow> (axi_rword list \<times> mmap_file) result" where
  \<comment> \<open>\<open>for n in range(length)\<close> of \<open>read_logic\<close>, with \<open>left\<close> beats to go\<close>
  "axi_read_beats bw sz b 0 n cur_addr f = Inr ([], f)"
| "axi_read_beats bw sz b (Suc left) n cur_addr f =
     bindR (mm_seek (int_div cur_addr bw * bw mod sz) f) (\<lambda>f.
     case mm_read bw f of (data, f) \<Rightarrow>
     bindR (join_octets data (rev [0..<bw]) 0) (\<lambda>val.
     bindR (axi_read_beats bw sz b left (n + 1) (burst_next b cur_addr) f) (\<lambda>(ws, f).
       Inr ((bu_id b, val, 0, n = bu_len b) # ws, f))))"

fun axi_ram_read_logic ::
    "nat \<Rightarrow> nat \<Rightarrow> axi_burst list \<Rightarrow> mmap_file \<Rightarrow> (axi_rword list \<times> mmap_file) result" where
  \<comment> \<open>every address in the queue: the process never waits inside a burst\<close>
  "axi_ram_read_logic bw sz [] f = Inr ([], f)"
| "axi_ram_read_logic bw sz (b # bs) f =
     bindR (burst_start bw b) (\<lambda>cur_addr.
     bindR (axi_read_beats bw sz b (bu_len b + 1) 0 cur_addr f) (\<lambda>(ws, f).
     bindR (axi_ram_read_logic bw sz bs f) (\<lambda>(ws', f). Inr (ws @ ws', f))))"

record axi_to_ram =
  ir_awvalid :: bool
  ir_aw :: axi_burst
  ir_wvalid :: bool
  ir_w :: axi_data
  ir_bready :: bool
  ir_arvalid :: bool
  ir_ar :: axi_burst
  ir_rready :: bool

definition axi_aw_if :: "bool \<Rightarrow> bool \<Rightarrow> axi_burst \<Rightarrow> axi_ram_write \<Rightarrow> axi_ram_write" where
  "axi_aw_if pause valid b w =
     (if (rw_awready w \<and> \<not> pause) \<and> (valid \<and> \<not> pause)
      then w\<lparr>rw_awready := True, rw_addr_queue := rw_addr_queue w @ [b]\<rparr> else w\<lparr>rw_awready := True\<rparr>)"

definition axi_w_if :: "bool \<Rightarrow> bool \<Rightarrow> axi_data \<Rightarrow> axi_ram_write \<Rightarrow> axi_ram_write" where
  "axi_w_if pause valid d w =
     (if (rw_wready w \<and> \<not> pause) \<and> (valid \<and> \<not> pause)
      then w\<lparr>rw_wready := True, rw_data_queue := rw_data_queue w @ [d]\<rparr> else w\<lparr>rw_wready := True\<rparr>)"

definition axi_ar_if :: "bool \<Rightarrow> bool \<Rightarrow> axi_burst \<Rightarrow> axi_ram_read \<Rightarrow> axi_ram_read" where
  "axi_ar_if pause valid b r =
     (if (rr_arready r \<and> \<not> pause) \<and> (valid \<and> \<not> pause)
      then r\<lparr>rr_arready := True, rr_addr_queue := rr_addr_queue r @ [b]\<rparr> else r\<lparr>rr_arready := True\<rparr>)"

definition axi_b_fits :: "axi_cfg \<Rightarrow> nat \<times> int \<Rightarrow> bool" where
  "axi_b_fits cfg b \<longleftrightarrow> fst b < 2 ^ ax_id_bits cfg \<and> fits (Some 2) (snd b)"

definition axi_r_fits :: "axi_cfg \<Rightarrow> axi_rword \<Rightarrow> bool" where
  "axi_r_fits cfg word \<longleftrightarrow> (case word of (i, d, s, l) \<Rightarrow>
     i < 2 ^ ax_id_bits cfg \<and> fits (Some (8 * ax_bw cfg)) d \<and> fits (Some 2) s)"

definition axi_ram_write_step ::
    "axi_cfg \<Rightarrow> axil_pause \<Rightarrow> axi_to_ram \<Rightarrow> nat \<Rightarrow> mmap_file \<times> axi_ram_write \<Rightarrow> (mmap_file \<times> axi_ram_write) result" where
  \<comment> \<open>the three channels of the writes at a clock edge; then \<open>write_logic\<close>, which waits for its queues\<close>
  "axi_ram_write_step cfg p i sz s =
     (case s of (f, w) \<Rightarrow>
      bindR (chan_step (p_b p) (ir_bready i) (axi_b_fits cfg) (rw_resp_queue w) (rw_b w)) (\<lambda>(bq, b).
        axi_ram_write_logic (ax_bw cfg) sz
          (f, axi_w_if (p_w p) (ir_wvalid i) (ir_w i)
                (axi_aw_if (p_aw p) (ir_awvalid i) (ir_aw i) (w\<lparr>rw_resp_queue := bq, rw_b := b\<rparr>)))))"

definition axi_ram_read_step ::
    "axi_cfg \<Rightarrow> axil_pause \<Rightarrow> axi_to_ram \<Rightarrow> nat \<Rightarrow> mmap_file \<times> axi_ram_read \<Rightarrow> (mmap_file \<times> axi_ram_read) result" where
  "axi_ram_read_step cfg p i sz s =
     (case s of (f, r) \<Rightarrow>
      bindR (chan_step (p_r p) (ir_rready i) (axi_r_fits cfg) (rr_resp_queue r) (rr_r r)) (\<lambda>(rq, rc).
      let r = axi_ar_if (p_ar p) (ir_arvalid i) (ir_ar i) (r\<lparr>rr_resp_queue := rq, rr_r := rc\<rparr>)
      in bindR (axi_ram_read_logic (ax_bw cfg) sz (rr_addr_queue r) f) (\<lambda>(ws, f).
           Inr (f, r\<lparr>rr_addr_queue := [], rr_resp_queue := rr_resp_queue r @ ws\<rparr>))))"

definition axi_ram_step :: "axi_cfg \<Rightarrow> axil_pause \<Rightarrow> axi_to_ram \<Rightarrow> axi_ram \<Rightarrow> axi_ram result" where
  "axi_ram_step cfg p i self =
     bindR (axi_ram_write_step cfg p i (xa_size self) (xa_file self, xa_write self)) (\<lambda>(f, w).
     bindR (axi_ram_read_step cfg p i (xa_size self) (f, xa_read self)) (\<lambda>(f, r).
       Inr (self\<lparr>xa_file := f, xa_write := w, xa_read := r\<rparr>)))"

section \<open>A master and a memory on one bus\<close>

definition to_axi_master :: "axil_pause \<Rightarrow> axi_ram \<Rightarrow> axi_to_master" where
  "to_axi_master p r =
     \<lparr>im_awready = (rw_awready (xa_write r) \<and> \<not> p_aw p), im_wready = (rw_wready (xa_write r) \<and> \<not> p_w p),
      im_bvalid = ch_valid (rw_b (xa_write r)), im_b = ch_word (rw_b (xa_write r)),
      im_arready = (rr_arready (xa_read r) \<and> \<not> p_ar p),
      im_rvalid = ch_valid (rr_r (xa_read r)), im_r = ch_word (rr_r (xa_read r))\<rparr>"

definition burst_of :: "axi_addr \<Rightarrow> axi_burst" where
  \<comment> \<open>the signals of the address channels that the memory has\<close>
  "burst_of a = \<lparr>bu_addr = ad_addr a, bu_id = ad_id a, bu_len = ad_len a, bu_size = ad_size a,
     bu_burst = at_burst (ad_attr a), bu_lock = at_lock (ad_attr a), bu_cache = at_cache (ad_attr a),
     bu_prot = at_prot (ad_attr a)\<rparr>"

definition to_axi_ram :: "axil_pause \<Rightarrow> axi_master \<Rightarrow> axi_to_ram" where
  "to_axi_ram p m =
     \<lparr>ir_awvalid = ch_valid (xw_aw (xm_write m)), ir_aw = burst_of (ch_word (xw_aw (xm_write m))),
      ir_wvalid = ch_valid (xw_w (xm_write m)), ir_w = ch_word (xw_w (xm_write m)),
      ir_bready = (xw_bready (xm_write m) \<and> \<not> p_b p),
      ir_arvalid = ch_valid (xr_ar (xm_read m)), ir_ar = burst_of (ch_word (xr_ar (xm_read m))),
      ir_rready = (xr_rready (xm_read m) \<and> \<not> p_r p)\<rparr>"

datatype axi_event =
    AxiWrite nat bytes "nat option" axi_attr
  | AxiRead nat nat "nat option" axi_attr
  | AxiEdge axil_pause axil_pause

fun axi_step :: "axi_cfg \<Rightarrow> axi_event \<Rightarrow> axi_master \<times> axi_ram \<Rightarrow> (axi_master \<times> axi_ram) result" where
  "axi_step cfg (AxiWrite addr data sz attr) (m, r) =
     bindR (axi_write_logic cfg (axi_init_write addr data sz attr m)) (\<lambda>m. Inr (m, r))"
| "axi_step cfg (AxiRead addr len sz attr) (m, r) =
     bindR (axi_read_logic cfg (axi_init_read addr len sz attr m)) (\<lambda>m. Inr (m, r))"
| "axi_step cfg (AxiEdge pm pr) (m, r) =
     bindR (axi_master_step cfg pm (to_axi_master pr r) m) (\<lambda>m'.
     bindR (axi_ram_step cfg pr (to_axi_ram pm m) r) (\<lambda>r'. Inr (m', r')))"

fun axi_run :: "axi_cfg \<Rightarrow> axi_event list \<Rightarrow> axi_master \<times> axi_ram \<Rightarrow> (axi_master \<times> axi_ram) result" where
  "axi_run cfg [] x = Inr x"
| "axi_run cfg (e # es) x = bindR (axi_step cfg e x) (axi_run cfg es)"

text \<open>\<open>wait\<close>, with the pauses of both ends at each edge\<close>

partial_function (option) axi_wait ::
    "axi_cfg \<Rightarrow> (nat \<Rightarrow> axil_pause \<times> axil_pause) \<Rightarrow> nat \<Rightarrow> axi_master \<times> axi_ram \<Rightarrow>
     (axi_master \<times> axi_ram) result option" where
  "axi_wait cfg sched t x =
     (if axi_master_idle (fst x) then Some (Inr x)
      else (case axi_step cfg (AxiEdge (fst (sched t)) (snd (sched t))) x of
              Inl e \<Rightarrow> Some (Inl e)
            | Inr x' \<Rightarrow> axi_wait cfg sched (t + 1) x'))"

end
