(* ===== verification/Axil_Memory.thy ===== *)
theory Axil_Memory
  imports Axil_Endpoint
begin

text \<open>
  What the AXI-Lite master and memory do together.  The specification is a memory with two operations, \<open>store\<close>
  and \<open>load\<close> of octets at any address, modulo the size.  The writes of a run are what the memory will hold
  when everything in flight has arrived; each clock edge keeps that future memory, and a measure that goes down at
  every edge without a pause bounds the time.
\<close>

section \<open>Addresses and cycles\<close>

lemma nat_bits_le: "n < 2 ^ k \<Longrightarrow> nat_bits n \<le> k"
proof (induction n arbitrary: k rule: nat_bits.induct)
  case (1 n)
  show ?case
  proof (cases "n = 0")
    case False
    then obtain k' where k: "k = Suc k'" using 1(2) by (cases k) auto
    then have "n div 2 < 2 ^ k'" using 1(2) by simp
    then show ?thesis using 1(1) [OF False, of k'] False k by (simp add: nat_bits.simps [of n])
  qed (simp add: nat_bits.simps)
qed

lemma int_div_exact: "a < 2 ^ 53 \<Longrightarrow> int_div a b = a div b"
  using nat_bits_le [of a 53] by (simp add: int_div_def round53_def)

lemma end_offset:
  assumes "0 < bw" "0 < addr + len"
  shows "end_offset_of bw addr len = (addr + len - 1) mod bw + 1"
proof -
  have "int addr + int len - 1 = int (addr + len - 1)" using assms(2) by (simp add: of_nat_diff Suc_le_eq)
  then show ?thesis by (simp only: end_offset_of_def of_nat_mod [symmetric] nat_int)
qed

text \<open>The last cycle: all before it are full, but for the start.\<close>

lemma last_cycle:
  assumes "0 < bw" "addr + len < 2 ^ 52" "bw \<le> 128" "0 < len + addr mod bw"
  defines "n \<equiv> command_cycles bw addr len" and "e \<equiv> end_offset_of bw addr len"
  shows "0 < n" "addr mod bw + len = (n - 1) * bw + e" "1 \<le> e" "e \<le> bw"
proof -
  let ?t = "len + addr mod bw"
  have small: "len + bw - 1 + addr mod bw < 2 ^ 53"
  proof -
    have "addr mod bw \<le> addr" by simp
    then have "len + bw - 1 + addr mod bw \<le> (addr + len) + 128" using assms(3) by linarith
    also have "\<dots> < 2 ^ 53" using assms(2) by simp
    finally show ?thesis .
  qed
  have eq: "len + bw - 1 + addr mod bw = (?t - 1) + bw" using assms(1,4) by linarith
  have "n = (len + bw - 1 + addr mod bw) div bw"
    by (simp only: n_def command_cycles_def int_div_exact [OF small])
  then have "n = ((?t - 1) + bw) div bw" by (simp only: eq)
  then have n: "n = (?t - 1) div bw + 1" using assms(1) by (metis div_add_self2 neq0_conv)
  have "addr = bw * (addr div bw) + addr mod bw" by simp
  then have sum: "addr + len - 1 = bw * (addr div bw) + (?t - 1)" using assms(4) by linarith
  have "0 < addr + len" using assms(4) by (auto intro: gr0I)
  then have "e = (addr + len - 1) mod bw + 1" unfolding e_def by (rule end_offset [OF assms(1)])
  then have e: "e = (?t - 1) mod bw + 1" by (simp only: sum mod_mult_self4)
  show "0 < n" "1 \<le> e" using n e by simp_all
  show "e \<le> bw" using assms(1) e by (simp add: Suc_leI)
  have "?t = Suc (?t - 1)" using assms(4) by simp
  also have "\<dots> = (?t - 1) div bw * bw + (?t - 1) mod bw + 1" by simp
  finally show "addr mod bw + len = (n - 1) * bw + e" using n e by simp
qed

lemma no_cycle:
  "0 < bw \<Longrightarrow> bw \<le> 128 \<Longrightarrow> len + addr mod bw = 0 \<Longrightarrow> command_cycles bw addr len = 0"
  using int_div_exact [of "bw - 1" bw] by (simp add: command_cycles_def)

section \<open>The octets and strobes of a cycle\<close>

lemma pack_octets_eq:
  assumes "list_all (in_lane 8) ps" "length ps = j" "offset + (stop - j) \<le> length data"
  shows "pack_octets data [j..<stop] offset (lanes_val 8 ps) =
    Inr (offset + (stop - j), lanes_val 8 (ps @ map uint (take (stop - j) (drop offset data))))"
  using assms
proof (induction "stop - j" arbitrary: ps j offset)
  case (Suc n)
  then have js: "[j..<stop] = j # [Suc j..<stop]" "offset < length data" "stop - j = Suc (stop - Suc j)"
    by (simp_all add: upt_conv_Cons)
  have "lanes_val 8 ps OR shl (uint (data ! offset)) (j * 8) = lanes_val 8 (ps @ [uint (data ! offset)])"
    using or_lanes [OF Suc.prems(1), of "uint (data ! offset)"] Suc.prems(2) by (simp add: mult.commute)
  then show ?case
    using Suc.hyps(1) [of "Suc j" "ps @ [uint (data ! offset)]" "Suc offset"] Suc.hyps(2) Suc.prems js
    by (simp add: Cons_nth_drop_Suc [symmetric] uint_in_lane)
qed simp

lemma strobe_bit:
  assumes "s < bw" "e \<le> bw" "i < bw"
  shows "bit (cycle_strb bw s e cycles k) i \<longleftrightarrow>
    cycle_start s k \<le> i \<and> i < cycle_stop bw e cycles k"
proof -
  have m: "(2 :: int) ^ n - 1 = mask n" for n by (simp add: mask_eq_exp_minus_1)
  show ?thesis
    using assms unfolding cycle_strb_def m
    by (auto simp: Let_def bit_simps cycle_start_def cycle_stop_def)
qed

lemma strobe_fits: "fits (Some bw) (cycle_strb bw s e cycles k)"
proof -
  have "x AND (2 ^ bw - 1) = x mod 2 ^ bw" for x :: int by (rule and_mask_int)
  then have r: "0 \<le> x AND (2 ^ bw - 1) \<and> x AND (2 ^ bw - 1) < (2 ^ bw :: int)" for x :: int by simp
  have a: "cycle_strb bw s e cycles k = cycle_strb bw s e cycles k AND (2 ^ bw - 1)"
    unfolding cycle_strb_def Let_def by (simp add: ac_simps and_mask_int del: and.right_idem)
  then show ?thesis using r by (metis fits_def option.simps(5))
qed

section \<open>The memory as a function of the writes\<close>

text \<open>The abstract memory: a write of octets from an address on, modulo the size.\<close>

fun store :: "nat \<Rightarrow> bytes \<Rightarrow> bytes \<Rightarrow> bytes" where
  "store addr [] mem = mem"
| "store addr (b # bs) mem = store (addr + 1) bs (mem[addr mod length mem := b])"

definition load :: "nat \<Rightarrow> nat \<Rightarrow> bytes \<Rightarrow> bytes" where
  "load addr len mem = map (\<lambda>j. mem ! ((addr + j) mod length mem)) [0..<len]"

lemma length_store [simp]: "length (store addr bs mem) = length mem"
  by (induction addr bs mem rule: store.induct) simp_all

lemma store_append: "store addr (xs @ ys) mem = store (addr + length xs) ys (store addr xs mem)"
  by (induction addr xs mem rule: store.induct) simp_all

lemma store_slice:
  "addr mod length mem + length bs \<le> length mem \<Longrightarrow> 0 < length mem \<Longrightarrow>
    store addr bs mem ! q =
    (if addr mod length mem \<le> q \<and> q < addr mod length mem + length bs then bs ! (q - addr mod length mem)
     else mem ! q)"
proof (induction addr bs mem rule: store.induct)
  case (2 addr b bs mem)
  let ?p = "addr mod length mem"
  have len: "?p + Suc (length bs) \<le> length mem" using 2(2) by simp
  show ?case
  proof (cases bs)
    case Nil
    then show ?thesis using len by (auto simp: nth_list_update)
  next
    case (Cons c cs)
    have "?p + 1 < length mem" using len Cons by simp
    then have p: "(addr + 1) mod length mem = ?p + 1"
      by (metis Suc_eq_plus1 mod_Suc nat_neq_iff)
    have "store (addr + 1) bs (mem[?p := b]) ! q =
        (if ?p + 1 \<le> q \<and> q < ?p + 1 + length bs then bs ! (q - (?p + 1)) else mem[?p := b] ! q)"
      using 2(1) 2(3) len p by simp
    then show ?thesis using len by (auto simp: nth_list_update nth_Cons' Suc_diff_le)
  qed
qed auto

text \<open>What one cycle writes: the octets of \<open>val\<close> whose strobe is set.\<close>

fun set_lanes :: "nat \<Rightarrow> int \<Rightarrow> int \<Rightarrow> nat list \<Rightarrow> bytes \<Rightarrow> bytes" where
  "set_lanes p val strb [] mem = mem"
| "set_lanes p val strb (i # is) mem =
     set_lanes p val strb is
       (if bit strb i then mem[p + i := word_of_int (shr val (8 * i) AND 0xff)] else mem)"

definition ram_store :: "nat \<Rightarrow> nat \<Rightarrow> int \<times> int \<Rightarrow> bytes \<Rightarrow> bytes" where
  "ram_store bw p d mem = set_lanes p (fst d) (snd d) [0..<bw] mem"

definition word_pos :: "nat \<Rightarrow> nat \<Rightarrow> nat \<Rightarrow> nat" where
  \<comment> \<open>where the memory puts the word that an address lies in\<close>
  "word_pos bw sz a = int_div a bw * bw mod sz"

fun store_cycles :: "nat \<Rightarrow> (nat \<times> int) list \<Rightarrow> (int \<times> int) list \<Rightarrow> bytes \<Rightarrow> bytes" where
  "store_cycles bw (a # as) (d # ds) mem =
     store_cycles bw as ds (ram_store bw (word_pos bw (length mem) (fst a)) d mem)"
| "store_cycles bw as ds mem = mem"

lemma length_set_lanes [simp]: "length (set_lanes p val strb is mem) = length mem"
  by (induction p val strb "is" mem rule: set_lanes.induct) auto

lemma length_ram_store [simp]: "length (ram_store bw p d mem) = length mem"
  by (simp add: ram_store_def)

lemma set_lanes_append: "set_lanes p val strb (is @ js) mem = set_lanes p val strb js (set_lanes p val strb is mem)"
  by (induction p val strb "is" mem rule: set_lanes.induct) auto

lemma set_lanes_nth:
  "p + n \<le> length mem \<Longrightarrow> set_lanes p val strb [0..<n] mem ! q =
    (if p \<le> q \<and> q < p + n \<and> bit strb (q - p) then word_of_int (shr val (8 * (q - p)) AND 0xff) else mem ! q)"
  by (induction n) (auto simp: set_lanes_append nth_list_update)

lemma store_cycles_append:
  "length as = length ds \<Longrightarrow>
    store_cycles bw (as @ as') (ds @ ds') mem = store_cycles bw as' ds' (store_cycles bw as ds mem)"
  by (induction bw as ds mem rule: store_cycles.induct) auto

lemma length_store_cycles [simp]: "length (store_cycles bw as ds mem) = length mem"
  by (induction bw as ds mem rule: store_cycles.induct) auto

text \<open>The loop of the memory computes it.\<close>

lemma write_lanes_eq:
  "mm_pos f = p + i \<Longrightarrow> p + i + n \<le> length (mm_mem f) \<Longrightarrow>
    write_lanes val strb [i..<i + n] f =
      Inr \<lparr>mm_mem = set_lanes p val strb [i..<i + n] (mm_mem f), mm_pos = p + i + n\<rparr>"
proof (induction n arbitrary: i f)
  case (Suc n)
  have up: "[i..<i + Suc n] = i # [Suc i..<Suc i + n]" by (simp add: upt_conv_Cons)
  let ?b = "word_of_int (shr val (8 * i) AND 0xff) :: byte"
  show ?case
  proof (cases "bit strb i")
    case True
    have "mm_write [?b] f = Inr \<lparr>mm_mem = (mm_mem f)[p + i := ?b], mm_pos = p + Suc i\<rparr>"
      using Suc.prems by (simp add: mm_write_def upd_conv_take_nth_drop)
    then show ?thesis
      using Suc.IH [of "\<lparr>mm_mem = (mm_mem f)[p + i := ?b], mm_pos = p + Suc i\<rparr>" "Suc i"] Suc.prems(2) True
      unfolding up by (simp add: and_exp_eq_0_iff_not_bit del: upt_Suc)
  next
    case False
    have "mm_seek (mm_pos f + 1) f = Inr \<lparr>mm_mem = mm_mem f, mm_pos = p + Suc i\<rparr>"
      using Suc.prems by (simp add: mm_seek_def)
    then show ?thesis
      using Suc.IH [of "\<lparr>mm_mem = mm_mem f, mm_pos = p + Suc i\<rparr>" "Suc i"] Suc.prems(2) False
      unfolding up by (simp add: and_exp_eq_0_iff_not_bit del: upt_Suc)
  qed
qed simp

section \<open>The cycles of a command store its octets\<close>

lemma cycle_store:
  assumes "bw dvd length mem" "0 < length mem" "0 < bw" "a mod bw = 0" "a + bw < 2 ^ 53"
    and "st \<le> stop" "st < bw" "stop \<le> bw" "length chunk = stop - st"
    and "\<And>i. i < bw \<Longrightarrow> bit strb i \<longleftrightarrow> st \<le> i \<and> i < stop"
  defines "val \<equiv> lanes_val 8 (replicate st 0 @ map uint chunk)"
  shows "ram_store bw (word_pos bw (length mem) (a + st)) (val, strb) mem = store (a + st) chunk mem"
proof -
  let ?N = "length mem" and ?p = "a mod length mem"
  obtain c where c: "a = bw * c" using assms(4) by (metis mod_0_imp_dvd dvdE)
  have "(a + st) div bw * bw = a"
    using assms(3,7) c by simp
  then have wp: "word_pos bw ?N (a + st) = ?p"
    using int_div_exact [of "a + st" bw] assms(5,7) by (simp add: word_pos_def)
  obtain k where k: "?N = bw * k" using assms(1) by blast
  have dv: "bw dvd ?p" using assms(1,4) by (metis dvd_mod mod_0_imp_dvd)
  have pN: "?p < ?N" using assms(2) by simp
  have fit: "?p + bw \<le> ?N"
  proof -
    obtain j where j: "?p = bw * j" using dv by blast
    then have "j < k" using pN k by simp
    then have "bw * (j + 1) \<le> bw * k" by (intro mult_le_mono) simp_all
    then show ?thesis using j k by simp
  qed
  have mod: "(a + st) mod ?N = ?p + st"
  proof -
    have "?p + st < ?N" using fit assms(7) by simp
    then have "(?p + st) mod ?N = ?p + st" by simp
    then show ?thesis using mod_add_left_eq [of a ?N st] by simp
  qed
  have byte: "word_of_int (shr val (8 * i) AND 0xff) = chunk ! (i - st)" if "st \<le> i" "i < stop" for i
  proof -
    have "list_all (in_lane 8) (replicate st 0 @ map uint chunk)"
      by (auto simp: list_all_iff)
    from lane_of_word [OF this, of i] show ?thesis
      using that assms(6,9) by (simp add: val_def nth_append)
  qed
  show ?thesis
  proof (rule nth_equalityI)
    fix q
    assume "q < length (ram_store bw (word_pos bw ?N (a + st)) (val, strb) mem)"
    have "store (a + st) chunk mem ! q = (if ?p + st \<le> q \<and> q < ?p + st + length chunk
        then chunk ! (q - (?p + st)) else mem ! q)"
      using store_slice [of "a + st" mem chunk q] fit assms(2,8,9,6) unfolding mod by simp
    moreover have "ram_store bw (word_pos bw ?N (a + st)) (val, strb) mem ! q =
        (if ?p \<le> q \<and> q < ?p + bw \<and> bit strb (q - ?p)
         then word_of_int (shr val (8 * (q - ?p)) AND 0xff) else mem ! q)"
      unfolding wp ram_store_def fst_conv snd_conv by (rule set_lanes_nth [OF fit])
    moreover have "?p + st \<le> q \<and> q < ?p + st + length chunk \<longleftrightarrow>
        ?p \<le> q \<and> q < ?p + bw \<and> bit strb (q - ?p)"
    proof (cases "?p \<le> q \<and> q < ?p + bw")
      case True
      then obtain i where "q = ?p + i" "i < bw" by (metis le_Suc_ex nat_add_left_cancel_less)
      then show ?thesis using assms(6,8,9) assms(10) [of i] by auto
    qed (use assms(6,8,9) in auto)
    moreover have "?p + st \<le> q \<Longrightarrow> q < ?p + st + length chunk \<Longrightarrow>
        word_of_int (shr val (8 * (q - ?p)) AND 0xff) = chunk ! (q - (?p + st))"
      using byte [of "q - ?p"] assms(6,9) by simp
    ultimately show "ram_store bw (word_pos bw ?N (a + st)) (val, strb) mem ! q = store (a + st) chunk mem ! q"
      by (simp cong: if_cong) metis
  qed simp
qed

text \<open>The widths the code accepts, and a memory of whole words.\<close>

definition axil_cfg_ok :: "axil_cfg \<Rightarrow> nat \<Rightarrow> bool" where
  "axil_cfg_ok cfg sz \<longleftrightarrow>
     al_bw cfg \<in> {1, 2, 4, 8, 16, 32, 64, 128} \<and> al_addr_bits cfg \<le> 52 \<and> 0 < sz \<and> al_bw cfg dvd sz"

lemma axil_cfg_okD:
  assumes "axil_cfg_ok cfg sz"
  shows "0 < al_bw cfg" "al_bw cfg \<le> 128" "0 < sz" "al_bw cfg dvd sz" "2 ^ al_addr_bits cfg \<le> (2 :: nat) ^ 52"
proof -
  show "2 ^ al_addr_bits cfg \<le> (2 :: nat) ^ 52"
    using assms by (intro power_increasing) (auto simp: axil_cfg_ok_def)
qed (use assms in \<open>auto simp: axil_cfg_ok_def\<close>)

definition command_fits :: "axil_cfg \<Rightarrow> nat \<Rightarrow> nat \<Rightarrow> int \<Rightarrow> bool" where
  "command_fits cfg addr len prot \<longleftrightarrow> addr + len < 2 ^ al_addr_bits cfg \<and> fits (Some 3) prot"

lemma chunk_fits:
  fixes chunk :: bytes
  assumes "length chunk = stop - st" "stop \<le> bw" "st \<le> stop"
  shows "fits (Some (8 * bw)) (lanes_val 8 (replicate st 0 @ map uint chunk))"
proof -
  let ?ls = "replicate st 0 @ map uint chunk :: int list"
  have ok: "list_all (in_lane 8) ?ls" by (auto simp: list_all_iff)
  have "lanes_val 8 ?ls < 2 ^ (8 * stop)" using lanes_val_bound [OF ok] assms(1,3) by simp
  also have "\<dots> \<le> 2 ^ (8 * bw)" using assms(2) by (intro power_increasing) simp_all
  finally show ?thesis using lanes_val_nonneg [OF ok] by (simp add: fits_def)
qed

lemma cycle_data_fits:
  fixes chunk :: bytes
  assumes "length chunk = stop - st" "stop \<le> bw" "bw = al_bw cfg" "st \<le> stop"
  shows "data_fits cfg (lanes_val 8 (replicate st 0 @ map uint chunk), cycle_strb bw s e cycles k)"
  using chunk_fits [OF assms(1,2,4)] strobe_fits [of bw s e cycles k] assms(3) by (simp add: data_fits_def)

lemma lanes_val_zeros: "lanes_val w (replicate n 0) = 0"
  by (induction n) simp_all

text \<open>
  \<open>k\<close> cycles have gone: the offset into the data is what they have taken.
\<close>

lemma write_cycles_store:
  assumes "axil_cfg_ok cfg (length mem)" "bw = al_bw cfg" "addr + length data < 2 ^ al_addr_bits cfg"
    and "s = addr mod bw" "w = addr div bw * bw" "fits (Some 3) prot"
    and "s + length data = (k + n - 1) * bw + e" "1 \<le> e" "e \<le> bw" "0 < n"
    and "offset + s = k * bw + cycle_start s k" "offset \<le> length data"
  shows "\<exists>as ds. write_cycles bw w s e data prot n k offset = Inr (as, ds) \<and> length as = n \<and> length ds = n
    \<and> list_all (addr_fits cfg) as \<and> list_all (data_fits cfg) ds
    \<and> store_cycles bw as ds mem = store (addr + offset) (drop offset data) mem"
  using assms
proof (induction n arbitrary: k offset mem)
  case (Suc n)
  note c = axil_cfg_okD [OF Suc.prems(1)]
  have bw: "0 < bw" "bw \<le> 128" "bw dvd length mem" using c Suc.prems(2) by simp_all
  have s: "s < bw" using Suc.prems(4) bw by simp
  have addr: "addr = w + s" using Suc.prems(4,5) by simp
  define st stop where "st = cycle_start s k" and "stop = cycle_stop bw e (k + Suc n) k"
  have st: "st < bw" using s bw by (simp add: st_def cycle_start_def)
  have off: "offset + s = k * bw + st" using Suc.prems(11) by (simp add: st_def)
  have total: "s + length data = k * bw + n * bw + e" using Suc.prems(7) by (simp add: algebra_simps)
  have range: "st \<le> stop" "stop \<le> bw" "offset + (stop - st) \<le> length data"
      "n = 0 \<Longrightarrow> offset + (stop - st) = length data"
      "n \<noteq> 0 \<Longrightarrow> offset + (stop - st) + s = (k + 1) * bw"
    using off total Suc.prems(8,9,12) st by (cases n; auto simp: stop_def cycle_stop_def)+
  define chunk where "chunk = take (stop - st) (drop offset data)"
  have chunk: "length chunk = stop - st" using range(3) by (simp add: chunk_def)
  have data: "drop offset data = chunk @ drop (offset + (stop - st)) data"
    by (simp only: chunk_def add.commute [of offset] drop_drop [symmetric] append_take_drop_id)
  let ?val = "lanes_val 8 (replicate st 0 @ map uint chunk)" and ?strb = "cycle_strb bw s e (k + Suc n) k"
  have pack: "pack_octets data [st..<stop] offset 0 = Inr (offset + (stop - st), ?val)"
    using pack_octets_eq [of "replicate st 0" st offset stop data] range(3)
    by (simp add: chunk_def list_all_iff in_lane_def lanes_val_zeros)
  have a: "w + st + k * bw = addr + offset" using addr off by simp
  have "addr + offset < 2 ^ al_addr_bits cfg" using Suc.prems(3,12) by simp
  then have fits: "addr_fits cfg (w + st + k * bw, prot)" "data_fits cfg (?val, ?strb)"
    using a Suc.prems(2,6) cycle_data_fits [OF chunk range(2)] range(1) by (simp_all add: addr_fits_def)
  have small: "(w + k * bw) + bw < 2 ^ 53"
  proof -
    have "w + k * bw \<le> addr + offset" using a by simp
    also have "\<dots> < 2 ^ 52" using \<open>addr + offset < _\<close> c(5) by (rule less_le_trans)
    finally show ?thesis using bw(2) by simp
  qed
  have step: "ram_store bw (word_pos bw (length mem) (w + st + k * bw)) (?val, ?strb) mem =
      store (addr + offset) chunk mem"
  proof -
    have "(w + k * bw) mod bw = 0" using Suc.prems(5) by simp
    from cycle_store [OF bw(3) c(3) bw(1) this small range(1) st range(2) chunk]
      strobe_bit [OF s Suc.prems(9)]
    show ?thesis using a by (simp add: ac_simps st_def stop_def)
  qed
  have unf: "write_cycles bw w s e data prot (Suc n) k offset =
      bindR (write_cycles bw w s e data prot n (k + 1) (offset + (stop - st))) (\<lambda>(as, ds).
        Inr ((w + st + k * bw, prot) # as, (?val, ?strb) # ds))"
    using pack by (simp add: st_def stop_def Let_def)
  show ?case
  proof (cases n)
    case 0
    have "write_cycles bw w s e data prot (Suc n) k offset = Inr ([(w + st + k * bw, prot)], [(?val, ?strb)])"
      unfolding unf using 0 by simp
    moreover have "chunk = drop offset data" using range(4) [OF 0] data by simp
    ultimately show ?thesis using fits step 0 by simp
  next
    case (Suc m)
    let ?off = "offset + (stop - st)"
    have "axil_cfg_ok cfg (length (store (addr + offset) chunk mem))" using Suc.prems(1) by simp
    moreover have "?off + s = (k + 1) * bw + cycle_start s (k + 1)"
      using range(5) Suc by (simp add: cycle_start_def)
    ultimately obtain as ds where "write_cycles bw w s e data prot n (k + 1) ?off = Inr (as, ds)"
        "length as = n" "length ds = n" "list_all (addr_fits cfg) as" "list_all (data_fits cfg) ds"
        "store_cycles bw as ds (store (addr + offset) chunk mem) =
          store (addr + ?off) (drop ?off data) (store (addr + offset) chunk mem)"
      using Suc.IH [of "store (addr + offset) chunk mem" "k + 1" ?off] Suc.prems Suc range(3) by auto
    moreover have "store (addr + offset) (drop offset data) mem =
        store (addr + ?off) (drop ?off data) (store (addr + offset) chunk mem)"
      unfolding data store_append chunk by (simp add: add.assoc)
    ultimately show ?thesis
      unfolding unf using fits step
      by (intro exI [of _ "(w + st + k * bw, prot) # as"] exI [of _ "(?val, ?strb) # ds"]) simp
  qed
qed simp

lemma command_store:
  assumes "axil_cfg_ok cfg (length mem)" "bw = al_bw cfg" "command_fits cfg addr (length data) prot"
  shows "\<exists>as ds. write_command bw (addr, data, prot) m = Inr (m\<lparr>am_in_flight := am_in_flight m + 1,
      am_int_write_resp_command_queue := am_int_write_resp_command_queue m
        @ [(addr, length data, command_cycles bw addr (length data), prot)],
      am_int_write_addr_queue := am_int_write_addr_queue m @ as,
      am_int_write_data_queue := am_int_write_data_queue m @ ds\<rparr>)
    \<and> length as = command_cycles bw addr (length data) \<and> length ds = length as
    \<and> list_all (addr_fits cfg) as \<and> list_all (data_fits cfg) ds \<and> store_cycles bw as ds mem = store addr data mem"
proof -
  let ?n = "command_cycles bw addr (length data)" and ?e = "end_offset_of bw addr (length data)"
  note c = axil_cfg_okD [OF assms(1)]
  have bw: "0 < bw" "bw \<le> 128" using c assms(2) by simp_all
  have fit: "addr + length data < 2 ^ al_addr_bits cfg" "fits (Some 3) prot"
    using assms(3) by (simp_all add: command_fits_def)
  then have small: "addr + length data < 2 ^ 52" using c(5) by (metis less_le_trans)
  have w: "int_div addr bw = addr div bw" using small by (intro int_div_exact) simp
  have "\<exists>as ds. write_cycles bw (addr div bw * bw) (addr mod bw) ?e data prot ?n 0 0 = Inr (as, ds)
    \<and> length as = ?n \<and> length ds = ?n \<and> list_all (addr_fits cfg) as \<and> list_all (data_fits cfg) ds
    \<and> store_cycles bw as ds mem = store addr data mem"
  proof (cases "length data + addr mod bw = 0")
    case True
    then show ?thesis using no_cycle [OF bw True] by simp
  next
    case False
    then have pos: "0 < length data + addr mod bw" by simp
    note l = last_cycle [OF bw(1) small bw(2) pos]
    have "0 + addr mod bw = 0 * bw + cycle_start (addr mod bw) 0" by (simp add: cycle_start_def)
    from write_cycles_store [OF assms(1,2) fit(1) refl refl fit(2) _ l(3,4,1) this] l(2)
    show ?thesis by simp
  qed
  then obtain as ds where
      "write_cycles bw (addr div bw * bw) (addr mod bw) ?e data prot ?n 0 0 = Inr (as, ds)"
      "length as = ?n" "length ds = ?n" "list_all (addr_fits cfg) as" "list_all (data_fits cfg) ds"
      "store_cycles bw as ds mem = store addr data mem" by blast
  then show ?thesis using w by (intro exI [of _ as] exI [of _ ds]) (simp add: write_command_def Let_def)
qed

end
