(* ===== verification/Axil_Write.thy ===== *)
theory Axil_Write
  imports Axil_Memory
begin

text \<open>
  Writes over AXI-Lite: the channels, the responses, and an invariant of a master and a memory whose
  test only writes, with the work that is left before both are at rest.
\<close>

section \<open>The channels\<close>

definition chan_words :: "'a chan \<Rightarrow> 'a list" where
  "chan_words c = (if ch_busy c then [ch_word c] else [])"

definition chan_ok :: "('a \<Rightarrow> bool) \<Rightarrow> 'a list \<Rightarrow> 'a chan \<Rightarrow> bool" where
  "chan_ok fit q c \<longleftrightarrow> list_all fit q \<and> (ch_busy c \<longrightarrow> fit (ch_word c)) \<and> (ch_valid c \<longrightarrow> ch_busy c)"

definition waits :: "'a list \<Rightarrow> 'a chan \<Rightarrow> nat" where
  \<comment> \<open>whether there is a word and the channel does not offer it yet\<close>
  "waits q c = (if chan_words c @ q \<noteq> [] \<and> \<not> ch_valid c then 1 else 0)"

lemma chan_take_ok:
  assumes "list_all fit q" "chan_words c = []" "\<not> ch_valid c"
  shows "\<exists>q' c'. chan_take pause fit q c = Inr (q', c') \<and> chan_ok fit q' c' \<and> chan_words c' @ q' = q
    \<and> (\<not> pause \<or> q = [] \<longrightarrow> waits q' c' = 0)"
proof (cases q)
  case Nil
  then show ?thesis using assms by (auto simp: chan_take_def chan_ok_def waits_def chan_words_def split: if_splits)
next
  case (Cons w q')
  then show ?thesis using assms(1) by (simp add: chan_take_def chan_ok_def waits_def chan_words_def)
qed

lemma waits_le: "waits q c \<le> 1"
  by (simp add: waits_def)

lemma chan_step_ok:
  assumes "chan_ok fit q c"
  shows "\<exists>q' c'. chan_step pause ready fit q c = Inr (q', c') \<and> chan_ok fit q' c'
    \<and> chan_words c @ q = (if ch_valid c \<and> ready then [ch_word c] else []) @ chan_words c' @ q'
    \<and> waits q' c' \<le> (if ch_valid c \<and> ready then 1 else waits q c) \<and> (\<not> pause \<longrightarrow> waits q' c' = 0)"
proof -
  consider (stay) "ch_busy c" "\<not> (ch_valid c \<and> ready)" | (taken) "ch_busy c" "ch_valid c" "ready"
    | (poll) "\<not> ch_busy c" "\<not> ch_valid c"
    using assms by (auto simp: chan_ok_def)
  then show ?thesis
  proof cases
    case stay
    then show ?thesis using assms
      by (auto simp: chan_step_def chan_ok_def chan_words_def waits_def)
  next
    case taken
    let ?c = "c\<lparr>ch_busy := False, ch_valid := False\<rparr>"
    obtain q' c' where "chan_take pause fit q ?c = Inr (q', c')" "chan_ok fit q' c'" "chan_words c' @ q' = q"
        "\<not> pause \<or> q = [] \<longrightarrow> waits q' c' = 0"
      using chan_take_ok [of fit q ?c pause] assms by (auto simp: chan_ok_def chan_words_def)
    then show ?thesis using taken waits_le [of q' c'] by (simp add: chan_step_def chan_words_def)
  next
    case poll
    obtain q' c' where t: "chan_take pause fit q c = Inr (q', c')" "chan_ok fit q' c'" "chan_words c' @ q' = q"
        "\<not> pause \<or> q = [] \<longrightarrow> waits q' c' = 0"
      using chan_take_ok [of fit q c pause] assms poll by (auto simp: chan_ok_def chan_words_def)
    have "waits q' c' \<le> waits q c" using t(4) waits_le [of q' c'] poll by (auto simp: waits_def)
    then show ?thesis using t poll by (simp add: chan_step_def chan_words_def)
  qed
qed

section \<open>The responses to writes\<close>

definition pending_writes :: "axil_master \<Rightarrow> ((nat \<times> nat \<times> int) \<times> nat) list" where
  \<comment> \<open>commands without a response yet, with the cycles whose response is still to be counted\<close>
  "pending_writes m =
     (case am_write_resp m of None \<Rightarrow> [] | Some f \<Rightarrow> [(wf_command f, wf_left f)])
     @ map (\<lambda>(a, l, c, p). ((a, l, p), c)) (am_int_write_resp_command_queue m)"

definition okay :: "nat \<times> nat \<times> int \<Rightarrow> nat \<times> nat \<times> int \<times> int" where
  "okay c = (case c of (a, l, p) \<Rightarrow> (a, l, p, 0))"

definition all_okay :: "axil_master \<Rightarrow> bool" where
  "all_okay m \<longleftrightarrow> (\<forall>r \<in> set (am_int_write_resp_queue m). r = 0)
     \<and> (\<forall>f. am_write_resp m = Some f \<longrightarrow> wf_resp f = 0)"

definition drained :: "axil_master \<Rightarrow> bool" where
  "drained m \<longleftrightarrow> (case am_write_resp m of None \<Rightarrow> am_int_write_resp_command_queue m = [] | Some f \<Rightarrow> 0 < wf_left f)"

definition write_results :: "axil_master \<Rightarrow> (nat \<times> nat \<times> int \<times> int) list" where
  "write_results m = am_write_resp_queue m @ map (okay \<circ> fst) (pending_writes m)"

text \<open>A rule for the loop: an invariant that the three kinds of steps keep holds when it stops.\<close>

definition write_stopped :: "axil_master \<Rightarrow> bool" where
  "write_stopped m \<longleftrightarrow>
     (case am_write_resp m of
        None \<Rightarrow> am_int_write_resp_command_queue m = []
      | Some f \<Rightarrow> 0 < wf_left f \<and> am_int_write_resp_queue m = [])"

lemma write_resp_rule:
  assumes "I m"
    and start: "\<And>m a l c p q. I m \<Longrightarrow> am_write_resp m = None \<Longrightarrow>
      am_int_write_resp_command_queue m = (a, l, c, p) # q \<Longrightarrow>
      I (m\<lparr>am_int_write_resp_command_queue := q,
           am_write_resp := Some \<lparr>wf_command = (a, l, p), wf_left = c, wf_resp = 0\<rparr>\<rparr>)"
    and finish: "\<And>m f a l p. I m \<Longrightarrow> am_write_resp m = Some f \<Longrightarrow> wf_left f = 0 \<Longrightarrow> wf_command f = (a, l, p) \<Longrightarrow>
      I (m\<lparr>am_write_resp_queue := am_write_resp_queue m @ [(a, l, p, wf_resp f)],
           am_in_flight := am_in_flight m - 1, am_write_resp := None\<rparr>)"
    and take: "\<And>m f r q. I m \<Longrightarrow> am_write_resp m = Some f \<Longrightarrow> 0 < wf_left f \<Longrightarrow> am_int_write_resp_queue m = r # q \<Longrightarrow>
      I (m\<lparr>am_int_write_resp_queue := q,
           am_write_resp := Some (f\<lparr>wf_left := wf_left f - 1, wf_resp := (if r \<noteq> 0 then r else wf_resp f)\<rparr>)\<rparr>)"
  shows "I (write_resp_logic m) \<and> write_stopped (write_resp_logic m)"
  using assms(1)
proof (induction "2 * length (am_int_write_resp_command_queue m) + length (am_int_write_resp_queue m)
    + (if am_write_resp m = None then 0 else 1)" arbitrary: m rule: less_induct)
  case less
  show ?case
  proof (cases "am_write_resp m")
    case None
    show ?thesis
    proof (cases "am_int_write_resp_command_queue m")
      case Nil
      then show ?thesis using None less.prems by (simp add: write_resp_logic.simps [of m] write_stopped_def)
    next
      case (Cons x q)
      obtain a l c p where x: "x = (a, l, c, p)" by (cases x)
      show ?thesis
        using less.hyps [OF _ start [OF less.prems None Cons [unfolded x]]] None Cons x
        by (simp add: write_resp_logic.simps [of m])
    qed
  next
    case (Some f)
    obtain a l p where c: "wf_command f = (a, l, p)" by (cases "wf_command f")
    consider (z) "wf_left f = 0" | (e) "0 < wf_left f" "am_int_write_resp_queue m = []"
      | (t) r q where "0 < wf_left f" "am_int_write_resp_queue m = r # q"
      by (cases "am_int_write_resp_queue m") auto
    then show ?thesis
    proof cases
      case z
      then show ?thesis
        using less.hyps [OF _ finish [OF less.prems Some z c]] Some c
        by (simp add: write_resp_logic.simps [of m])
    next
      case e
      then show ?thesis using Some less.prems by (simp add: write_resp_logic.simps [of m] write_stopped_def)
    next
      case t
      then show ?thesis
        using less.hyps [OF _ take [OF less.prems Some t]] Some
        by (simp add: write_resp_logic.simps [of m])
    qed
  qed
qed

definition write_frame :: "axil_master \<Rightarrow> axil_master" where
  \<comment> \<open>what the responses do not touch\<close>
  "write_frame m = m\<lparr>am_int_write_resp_command_queue := [], am_write_resp := None,
     am_int_write_resp_queue := [], am_write_resp_queue := [], am_in_flight := 0\<rparr>"

lemma write_resp_frame: "write_frame (write_resp_logic m) = write_frame m"
  by (rule conjunct1 [OF write_resp_rule [of "\<lambda>x. write_frame x = write_frame m"]]) (simp_all add: write_frame_def)

lemma write_frame_fields:
  assumes "write_frame m' = write_frame m"
  shows "am_write_command_queue m' = am_write_command_queue m" "am_read_command_queue m' = am_read_command_queue m"
    "am_read_data_queue m' = am_read_data_queue m" "am_int_write_addr_queue m' = am_int_write_addr_queue m"
    "am_int_write_data_queue m' = am_int_write_data_queue m" "am_int_read_addr_queue m' = am_int_read_addr_queue m"
    "am_int_read_resp_command_queue m' = am_int_read_resp_command_queue m"
    "am_int_read_resp_queue m' = am_int_read_resp_queue m" "am_read_resp m' = am_read_resp m"
    "am_aw m' = am_aw m" "am_w m' = am_w m" "am_ar m' = am_ar m" "am_bready m' = am_bready m"
    "am_rready m' = am_rready m"
  using assms by (cases m; cases m'; simp add: write_frame_def)+

lemmas write_resp_fields [simp] = write_frame_fields [OF write_resp_frame]

text \<open>The responses that arrived are counted off, and the commands answered in order.\<close>

definition responses_ok :: "axil_master \<Rightarrow> bool" where
  "responses_ok m \<longleftrightarrow> all_okay m \<and> int (length (pending_writes m)) = am_in_flight m
     \<and> length (am_int_write_resp_queue m) \<le> (\<Sum>p\<leftarrow>pending_writes m. snd p)"

lemma write_resp_logic_ok:
  assumes "responses_ok m"
  shows "responses_ok (write_resp_logic m) \<and> write_results (write_resp_logic m) = write_results m
    \<and> am_int_write_resp_queue (write_resp_logic m) = []
    \<and> (\<Sum>p\<leftarrow>pending_writes (write_resp_logic m). snd p) =
        (\<Sum>p\<leftarrow>pending_writes m. snd p) - length (am_int_write_resp_queue m)
    \<and> drained (write_resp_logic m)"
proof -
  let ?I = "\<lambda>x. responses_ok x \<and> write_results x = write_results m
    \<and> (\<Sum>p\<leftarrow>pending_writes x. snd p) - length (am_int_write_resp_queue x) =
      (\<Sum>p\<leftarrow>pending_writes m. snd p) - length (am_int_write_resp_queue m)"
  have I: "?I (write_resp_logic m) \<and> write_stopped (write_resp_logic m)"
    using assms
    by (intro write_resp_rule [of ?I])
      (auto simp: responses_ok_def all_okay_def pending_writes_def write_results_def okay_def)
  moreover have "am_int_write_resp_queue (write_resp_logic m) = []"
    using I by (auto simp: write_stopped_def responses_ok_def pending_writes_def split: option.splits)
  ultimately show ?thesis by (auto simp: drained_def write_stopped_def split: option.splits)
qed


section \<open>The state while writes are under way\<close>

definition pending_addrs :: "axil_master \<Rightarrow> (nat \<times> int) list" where
  "pending_addrs m = chan_words (am_aw m) @ am_int_write_addr_queue m"

definition pending_data :: "axil_master \<Rightarrow> (int \<times> int) list" where
  "pending_data m = chan_words (am_w m) @ am_int_write_data_queue m"

definition held :: "axil_ram \<Rightarrow> nat list" where
  \<comment> \<open>the position of a word whose address the memory has and whose data it has not\<close>
  "held r = (case ar_write r of WLatency n a \<Rightarrow> [a mod ar_size r] | WData \<Rightarrow> [mm_pos (ar_file r)] | _ \<Rightarrow> [])"

definition future :: "nat \<Rightarrow> axil_master \<times> axil_ram \<Rightarrow> bytes" where
  \<comment> \<open>the memory when all cycles have arrived\<close>
  "future bw x =
     (case x of (m, r) \<Rightarrow>
      case held r of
        [] \<Rightarrow> store_cycles bw (pending_addrs m) (pending_data m) (mm_mem (ar_file r))
      | p # ps \<Rightarrow> store_cycles bw (pending_addrs m) (tl (pending_data m))
                   (ram_store bw p (hd (pending_data m)) (mm_mem (ar_file r))))"

definition read_quiet :: "axil_master \<Rightarrow> axil_ram \<Rightarrow> bool" where
  "read_quiet m r \<longleftrightarrow>
     am_read_command_queue m = [] \<and> am_int_read_addr_queue m = [] \<and> am_int_read_resp_command_queue m = []
     \<and> am_int_read_resp_queue m = [] \<and> am_read_resp m = None \<and> \<not> ch_busy (am_ar m) \<and> \<not> ch_valid (am_ar m)
     \<and> am_rready m \<and> ar_read r = RAddr \<and> ar_arready r \<and> \<not> ar_rvalid r"

definition ram_write_ok :: "axil_cfg \<Rightarrow> axil_ram \<Rightarrow> bool" where
  "ram_write_ok cfg r \<longleftrightarrow>
     ar_size r = length (mm_mem (ar_file r)) \<and> axil_cfg_ok cfg (ar_size r)
     \<and> (\<forall>p \<in> set (held r). p + al_bw cfg \<le> ar_size r)
     \<and> (\<forall>n a. ar_write r = WLatency n a \<longrightarrow> 1 \<le> n \<and> n \<le> al_latency cfg)
     \<and> ar_awready r = (ar_write r = WAddr) \<and> ar_wready r = (ar_write r = WData)
     \<and> (ar_bvalid r \<longrightarrow> ar_write r = WResp) \<and> ar_bresp r = 0"

definition answers_due :: "axil_ram \<Rightarrow> nat" where
  "answers_due r = (if ar_write r = WAddr then 0 else 1)"

definition write_inv :: "axil_cfg \<Rightarrow> bytes \<Rightarrow> (nat \<times> nat \<times> int \<times> int) list \<Rightarrow> axil_master \<times> axil_ram \<Rightarrow> bool" where
  "write_inv cfg mem results x \<longleftrightarrow> (case x of (m, r) \<Rightarrow>
     read_quiet m r \<and> ram_write_ok cfg r
     \<and> am_write_command_queue m = [] \<and> am_bready m
     \<and> chan_ok (addr_fits cfg) (am_int_write_addr_queue m) (am_aw m)
     \<and> chan_ok (data_fits cfg) (am_int_write_data_queue m) (am_w m)
     \<and> length (pending_data m) = length (pending_addrs m) + length (held r)
     \<and> future (al_bw cfg) (m, r) = mem
     \<and> responses_ok m \<and> drained m \<and> write_results m = results
     \<and> (\<Sum>p\<leftarrow>pending_writes m. snd p) =
         length (pending_addrs m) + answers_due r + length (am_int_write_resp_queue m))"

definition write_phase :: "axil_ram \<Rightarrow> nat" where
  "write_phase r = (case ar_write r of
     WAddr \<Rightarrow> 0 | WLatency n a \<Rightarrow> n + 4 | WData \<Rightarrow> 4 | WResp \<Rightarrow> if ar_bvalid r then 2 else 3)"

definition write_work :: "axil_cfg \<Rightarrow> axil_master \<times> axil_ram \<Rightarrow> nat" where
  "write_work cfg x = (case x of (m, r) \<Rightarrow>
     (al_latency cfg + 6) * length (pending_addrs m) + write_phase r
     + waits (am_int_write_addr_queue m) (am_aw m) + waits (am_int_write_data_queue m) (am_w m)
     + length (am_int_write_resp_queue m))"

definition unpaused :: "axil_pause \<Rightarrow> bool" where
  "unpaused p \<longleftrightarrow> \<not> p_aw p \<and> \<not> p_w p \<and> \<not> p_b p \<and> \<not> p_ar p \<and> \<not> p_r p"

text \<open>The master and the memory at an edge, with the read side at rest.\<close>

lemma read_resp_stopped:
  "am_read_resp m = None \<Longrightarrow> am_int_read_resp_command_queue m = [] \<Longrightarrow> read_resp_logic bw m = m"
  by (simp add: read_resp_logic.simps [of bw m])

lemma master_write_edge:
  fixes pm pr :: axil_pause
  assumes "read_quiet m r" "responses_ok m" "am_bready m" "drained m"
    and "chan_ok (addr_fits cfg) (am_int_write_addr_queue m) (am_aw m)"
    and "chan_ok (data_fits cfg) (am_int_write_data_queue m) (am_w m)"
  defines "aw \<equiv> ch_valid (am_aw m) \<and> ar_awready r \<and> \<not> p_aw pr"
    and "wt \<equiv> ch_valid (am_w m) \<and> ar_wready r \<and> \<not> p_w pr"
    and "b \<equiv> ar_bvalid r \<and> \<not> p_b pm"
  shows "\<exists>m'. axil_master_step cfg pm (to_master pr r) m = Inr m'
    \<and> read_quiet m' r \<and> am_bready m' \<and> am_write_command_queue m' = am_write_command_queue m
    \<and> chan_ok (addr_fits cfg) (am_int_write_addr_queue m') (am_aw m')
    \<and> chan_ok (data_fits cfg) (am_int_write_data_queue m') (am_w m')
    \<and> pending_addrs m = (if aw then [ch_word (am_aw m)] else []) @ pending_addrs m'
    \<and> pending_data m = (if wt then [ch_word (am_w m)] else []) @ pending_data m'
    \<and> am_int_write_resp_queue m' = (if b then [ar_bresp r] else [])
    \<and> am_read_data_queue m' = am_read_data_queue m
    \<and> (ar_bresp r = 0 \<longrightarrow> all_okay m') \<and> int (length (pending_writes m')) = am_in_flight m'
    \<and> write_results m' = write_results m \<and> drained m'
    \<and> (\<Sum>p\<leftarrow>pending_writes m'. snd p) = (\<Sum>p\<leftarrow>pending_writes m. snd p) - length (am_int_write_resp_queue m)
    \<and> waits (am_int_write_addr_queue m') (am_aw m') \<le> (if aw then 1 else waits (am_int_write_addr_queue m) (am_aw m))
    \<and> waits (am_int_write_data_queue m') (am_w m') \<le> (if wt then 1 else waits (am_int_write_data_queue m) (am_w m))
    \<and> (unpaused pm \<longrightarrow> waits (am_int_write_addr_queue m') (am_aw m') = 0
         \<and> waits (am_int_write_data_queue m') (am_w m') = 0)"
proof -
  define m1 where "m1 = write_resp_logic m"
  note w = write_resp_logic_ok [OF assms(2), folded m1_def]
  have f: "am_int_write_addr_queue m1 = am_int_write_addr_queue m" "am_aw m1 = am_aw m"
      "am_int_write_data_queue m1 = am_int_write_data_queue m" "am_w m1 = am_w m"
    by (simp_all add: m1_def)
  obtain qa ca where a: "chan_step (p_aw pm) (ar_awready r \<and> \<not> p_aw pr) (addr_fits cfg) (am_int_write_addr_queue m) (am_aw m) = Inr (qa, ca)"
      "chan_ok (addr_fits cfg) qa ca"
      "pending_addrs m = (if aw then [ch_word (am_aw m)] else []) @ chan_words ca @ qa"
      "waits qa ca \<le> (if aw then 1 else waits (am_int_write_addr_queue m) (am_aw m))" "\<not> p_aw pm \<longrightarrow> waits qa ca = 0"
    using chan_step_ok [OF assms(5), of "p_aw pm" "ar_awready r \<and> \<not> p_aw pr"]
    unfolding aw_def pending_addrs_def by blast
  obtain qw cw where d: "chan_step (p_w pm) (ar_wready r \<and> \<not> p_w pr) (data_fits cfg) (am_int_write_data_queue m) (am_w m) = Inr (qw, cw)"
      "chan_ok (data_fits cfg) qw cw"
      "pending_data m = (if wt then [ch_word (am_w m)] else []) @ chan_words cw @ qw"
      "waits qw cw \<le> (if wt then 1 else waits (am_int_write_data_queue m) (am_w m))" "\<not> p_w pm \<longrightarrow> waits qw cw = 0"
    using chan_step_ok [OF assms(6), of "p_w pm" "ar_wready r \<and> \<not> p_w pr"]
    unfolding wt_def pending_data_def by blast
  define m' where "m' = m1\<lparr>am_int_write_addr_queue := qa, am_aw := ca, am_int_write_data_queue := qw, am_w := cw,
    am_int_write_resp_queue := (if b then [ar_bresp r] else [])\<rparr>"
  have rq: "am_read_resp m1 = None" "am_int_read_resp_command_queue m1 = []" "am_int_read_addr_queue m1 = []"
      "\<not> ch_busy (am_ar m1)" "am_rready m1" "\<not> ar_rvalid r" "am_bready m1"
    using assms(1,3) by (simp_all add: read_quiet_def m1_def)
  have "axil_master_step cfg pm (to_master pr r) m = Inr m'"
    using rq f a(1) d(1) w
    by (simp add: axil_master_step_def axil_aw_step_def axil_w_step_def axil_b_step_def axil_ar_step_def axil_r_step_def
        to_master_def m1_def [symmetric] chan_step_def [of _ _ _ "[]"] chan_take_def read_resp_stopped m'_def b_def)
  moreover have "read_quiet m' r" using assms(1) by (simp add: read_quiet_def m'_def m1_def)
  moreover have pw: "pending_writes m' = pending_writes m1"
    by (simp add: m'_def pending_writes_def split: option.split)
  moreover have "write_results m' = write_results m"
    using w unfolding write_results_def pw by (simp add: m'_def)
  moreover have "drained m' = drained m1" by (simp add: m'_def drained_def split: option.split)
  moreover have "am_in_flight m' = am_in_flight m1" "all_okay m1 \<Longrightarrow> ar_bresp r = 0 \<Longrightarrow> all_okay m'"
    by (simp_all add: m'_def all_okay_def)
  ultimately show ?thesis
    using a d w rq(7)
    by (intro exI [of _ m']) (simp add: m'_def pending_addrs_def pending_data_def responses_ok_def unpaused_def, simp add: m1_def)
qed


lemma aligned_fits:
  assumes "bw dvd n" "0 < n" "bw dvd a"
  shows "a mod n + bw \<le> (n :: nat)"
proof -
  obtain k where k: "n = bw * k" using assms(1) by blast
  obtain j where j: "a mod n = bw * j" using dvd_mod [OF assms(3,1)] by blast
  have "a mod n < n" using assms(2) by simp
  then have "j < k" using j k by simp
  then have "bw * (j + 1) \<le> bw * k" by (intro mult_le_mono) simp_all
  then show ?thesis using j k by simp
qed

lemma word_pos_fits: "axil_cfg_ok cfg sz \<Longrightarrow> word_pos (al_bw cfg) sz a + al_bw cfg \<le> sz"
  unfolding word_pos_def using axil_cfg_okD [of cfg sz] by (intro aligned_fits) simp_all

lemma ram_read_rest:
  assumes "read_quiet m r" "\<not> tr_arvalid i"
  shows "axil_ram_read_step cfg p i r = Inr r"
  using assms by (cases r) (simp add: axil_ram_read_step_def read_quiet_def)

lemma data_phase_ok:
  "0 < ar_size r \<Longrightarrow> ar_size r = length (mm_mem (ar_file r)) \<Longrightarrow>
    ram_data_phase a r = Inr (r\<lparr>ar_file := (ar_file r)\<lparr>mm_pos := a mod ar_size r\<rparr>, ar_wready := True, ar_write := WData\<rparr>)"
  by (simp add: ram_data_phase_def mm_seek_def less_imp_le)

lemma ram_write_edge:
  fixes pm pr :: axil_pause
  assumes "read_quiet m r" "ram_write_ok cfg r" "am_bready m"
    and "list_all (data_fits cfg) (pending_data m)"
  defines "aw \<equiv> ch_valid (am_aw m) \<and> ar_awready r \<and> \<not> p_aw pr"
    and "wt \<equiv> ch_valid (am_w m) \<and> ar_wready r \<and> \<not> p_w pr"
    and "b \<equiv> ar_bvalid r \<and> \<not> p_b pm"
  shows "\<exists>r'. axil_ram_step cfg pr (to_ram pm m) r = Inr r' \<and> read_quiet m r' \<and> ram_write_ok cfg r'
    \<and> (aw \<longrightarrow> ar_write r = WAddr \<and> ar_write r' \<noteq> WAddr \<and> held r' = [word_pos (al_bw cfg) (ar_size r) (fst (ch_word (am_aw m)))]
         \<and> mm_mem (ar_file r') = mm_mem (ar_file r) \<and> write_phase r' \<le> al_latency cfg + 4)
    \<and> (wt \<longrightarrow> ar_write r = WData \<and> ar_write r' = WResp
         \<and> mm_mem (ar_file r') = ram_store (al_bw cfg) (mm_pos (ar_file r)) (ch_word (am_w m)) (mm_mem (ar_file r))
         \<and> write_phase r' \<le> 3 \<and> (unpaused pr \<longrightarrow> write_phase r' = 2))
    \<and> (b \<longrightarrow> ar_write r = WResp \<and> ar_write r' = WAddr \<and> mm_mem (ar_file r') = mm_mem (ar_file r) \<and> write_phase r = 2)
    \<and> (\<not> aw \<and> \<not> wt \<and> \<not> b \<longrightarrow> held r' = held r \<and> mm_mem (ar_file r') = mm_mem (ar_file r)
         \<and> answers_due r' = answers_due r \<and> write_phase r' \<le> write_phase r
         \<and> (unpaused pm \<and> unpaused pr \<and> ar_write r \<noteq> WAddr \<and> ar_write r \<noteq> WData \<longrightarrow> write_phase r' < write_phase r))"
proof -
  note ok = assms(2) [unfolded ram_write_ok_def]
  have size: "0 < ar_size r" "ar_size r = length (mm_mem (ar_file r))"
    using ok axil_cfg_okD by blast+
  have rest: "axil_ram_step cfg pr (to_ram pm m) r = Inr r'"
    if "axil_ram_write_step cfg pr (to_ram pm m) r = Inr r'" "read_quiet m r'" for r'
    using that ram_read_rest [OF that(2), of "to_ram pm m" cfg pr]
    by (simp add: axil_ram_step_def to_ram_def read_quiet_def)
  note wp = word_pos_fits [OF conjunct1 [OF conjunct2 [OF ok]]]
  show ?thesis
  proof (cases "ar_write r")
    case WAddr
    let ?a = "int_div (fst (ch_word (am_aw m))) (al_bw cfg) * al_bw cfg"
    define r' where "r' = (if aw then
        (if al_latency cfg = 0 then r\<lparr>ar_awready := False, ar_file := (ar_file r)\<lparr>mm_pos := ?a mod ar_size r\<rparr>,
           ar_wready := True, ar_write := WData\<rparr>
         else r\<lparr>ar_awready := False, ar_write := WLatency (al_latency cfg) ?a\<rparr>) else r\<lparr>ar_awready := True\<rparr>)"
    have step: "axil_ram_write_step cfg pr (to_ram pm m) r = Inr r'"
      using WAddr size
      by (auto simp: axil_ram_write_step_def to_ram_def aw_def r'_def Let_def data_phase_ok)
    have q: "read_quiet m r'" using assms(1) by (auto simp: r'_def read_quiet_def)
    have "held r' = (if aw then [word_pos (al_bw cfg) (ar_size r) (fst (ch_word (am_aw m)))] else [])" "held r = []"
      using WAddr by (auto simp: r'_def held_def word_pos_def)
    moreover from this have "ram_write_ok cfg r'"
      using ok wp WAddr by (auto simp: r'_def ram_write_ok_def)
    ultimately show ?thesis
      using rest [OF step q] q WAddr ok
      by (intro exI [of _ r'])
         (auto simp: r'_def write_phase_def answers_due_def aw_def wt_def b_def)
  next
    case (WLatency n a)
    define r' where "r' = (if n \<le> 1 then r\<lparr>ar_file := (ar_file r)\<lparr>mm_pos := a mod ar_size r\<rparr>, ar_wready := True, ar_write := WData\<rparr>
        else r\<lparr>ar_write := WLatency (n - 1) a\<rparr>)"
    have step: "axil_ram_write_step cfg pr (to_ram pm m) r = Inr r'"
      using WLatency size by (auto simp: axil_ram_write_step_def r'_def data_phase_ok)
    have q: "read_quiet m r'" using assms(1) by (auto simp: r'_def read_quiet_def)
    have "held r' = held r" using WLatency by (auto simp: r'_def held_def)
    moreover from this have "ram_write_ok cfg r'"
      using ok WLatency by (auto simp: r'_def ram_write_ok_def)
    ultimately show ?thesis
      using rest [OF step q] q WLatency ok
      by (intro exI [of _ r'])
         (auto simp: r'_def write_phase_def answers_due_def aw_def wt_def b_def)
  next
    case WData
    let ?p = "mm_pos (ar_file r)"
    let ?f = "\<lparr>mm_mem = ram_store (al_bw cfg) ?p (ch_word (am_w m)) (mm_mem (ar_file r)), mm_pos = ?p + al_bw cfg\<rparr>"
    have p: "?p + al_bw cfg \<le> length (mm_mem (ar_file r))" using ok WData by (simp add: held_def)
    have wl: "write_lanes (fst (ch_word (am_w m))) (snd (ch_word (am_w m))) [0..<al_bw cfg] (ar_file r) = Inr ?f"
      using write_lanes_eq [of "ar_file r" ?p 0 "al_bw cfg"] p by (simp add: ram_store_def)
    define r' where "r' = (if wt then r\<lparr>ar_file := ?f, ar_wready := False, ar_bresp := 0, ar_bvalid := \<not> p_b pr, ar_write := WResp\<rparr>
        else r)"
    have step: "axil_ram_write_step cfg pr (to_ram pm m) r = Inr r'"
      using WData ok wl by (auto simp: axil_ram_write_step_def r'_def to_ram_def wt_def)
    have q: "read_quiet m r'" using assms(1) by (auto simp: r'_def read_quiet_def)
    have "held r' = (if wt then [] else held r)" using WData by (auto simp: r'_def held_def)
    moreover from this have "ram_write_ok cfg r'"
      using ok WData by (auto simp: r'_def ram_write_ok_def)
    ultimately show ?thesis
      using rest [OF step q] q WData ok
      by (intro exI [of _ r'])
         (auto simp: r'_def write_phase_def answers_due_def aw_def wt_def b_def unpaused_def)
  next
    case WResp
    define r' where "r' = (if b then r\<lparr>ar_bvalid := False, ar_awready := True, ar_write := WAddr\<rparr>
        else r\<lparr>ar_bvalid := ar_bvalid r \<or> \<not> p_b pr\<rparr>)"
    have step: "axil_ram_write_step cfg pr (to_ram pm m) r = Inr r'"
      using WResp assms(3) by (auto simp: axil_ram_write_step_def r'_def to_ram_def b_def)
    have q: "read_quiet m r'" using assms(1) by (auto simp: r'_def read_quiet_def)
    have "held r' = []" "held r = []" using WResp by (auto simp: r'_def held_def)
    moreover from this have "ram_write_ok cfg r'"
      using ok WResp by (auto simp: r'_def ram_write_ok_def)
    ultimately show ?thesis
      using rest [OF step q] q WResp ok
      by (intro exI [of _ r'])
         (auto simp: r'_def write_phase_def answers_due_def aw_def wt_def b_def unpaused_def)
  qed
qed


text \<open>An edge keeps what the memory will hold and the answers that are due.\<close>

lemma write_edge:
  assumes "write_inv cfg mem results (m, r)"
  shows "\<exists>m' r'. axil_step cfg (Edge pm pr) (m, r) = Inr (m', r') \<and> write_inv cfg mem results (m', r')
    \<and> am_read_data_queue m' = am_read_data_queue m
    \<and> write_work cfg (m', r') \<le> write_work cfg (m, r)
    \<and> (unpaused pm \<and> unpaused pr \<longrightarrow> write_work cfg (m', r') \<le> write_work cfg (m, r) - 1)"
proof -
  define aw wt b where "aw \<longleftrightarrow> ch_valid (am_aw m) \<and> ar_awready r \<and> \<not> p_aw pr"
    and "wt \<longleftrightarrow> ch_valid (am_w m) \<and> ar_wready r \<and> \<not> p_w pr" and "b \<longleftrightarrow> ar_bvalid r \<and> \<not> p_b pm"
  note inv = assms [unfolded write_inv_def prod.case]
  have df: "list_all (data_fits cfg) (pending_data m)"
    using inv by (auto simp: chan_ok_def pending_data_def chan_words_def)
  obtain m' where m': "axil_master_step cfg pm (to_master pr r) m = Inr m'"
      "read_quiet m' r" "am_bready m'" "am_write_command_queue m' = am_write_command_queue m"
      "chan_ok (addr_fits cfg) (am_int_write_addr_queue m') (am_aw m')"
      "chan_ok (data_fits cfg) (am_int_write_data_queue m') (am_w m')"
      "pending_addrs m = (if aw then [ch_word (am_aw m)] else []) @ pending_addrs m'"
      "pending_data m = (if wt then [ch_word (am_w m)] else []) @ pending_data m'"
      "am_int_write_resp_queue m' = (if b then [ar_bresp r] else [])"
      "am_read_data_queue m' = am_read_data_queue m"
      "ar_bresp r = 0 \<longrightarrow> all_okay m'" "int (length (pending_writes m')) = am_in_flight m'"
      "write_results m' = write_results m" "drained m'"
      "(\<Sum>p\<leftarrow>pending_writes m'. snd p) = (\<Sum>p\<leftarrow>pending_writes m. snd p) - length (am_int_write_resp_queue m)"
      "waits (am_int_write_addr_queue m') (am_aw m') \<le> (if aw then 1 else waits (am_int_write_addr_queue m) (am_aw m))"
      "waits (am_int_write_data_queue m') (am_w m') \<le> (if wt then 1 else waits (am_int_write_data_queue m) (am_w m))"
      "unpaused pm \<longrightarrow> waits (am_int_write_addr_queue m') (am_aw m') = 0 \<and> waits (am_int_write_data_queue m') (am_w m') = 0"
    using master_write_edge [where m = m and r = r and cfg = cfg and pm = pm and pr = pr] inv unfolding aw_def wt_def b_def by blast
  obtain r' where r': "axil_ram_step cfg pr (to_ram pm m) r = Inr r'" "read_quiet m r'" "ram_write_ok cfg r'"
      "aw \<longrightarrow> ar_write r = WAddr \<and> ar_write r' \<noteq> WAddr \<and> held r' = [word_pos (al_bw cfg) (ar_size r) (fst (ch_word (am_aw m)))]
         \<and> mm_mem (ar_file r') = mm_mem (ar_file r) \<and> write_phase r' \<le> al_latency cfg + 4"
      "wt \<longrightarrow> ar_write r = WData \<and> ar_write r' = WResp
         \<and> mm_mem (ar_file r') = ram_store (al_bw cfg) (mm_pos (ar_file r)) (ch_word (am_w m)) (mm_mem (ar_file r))
         \<and> write_phase r' \<le> 3 \<and> (unpaused pr \<longrightarrow> write_phase r' = 2)"
      "b \<longrightarrow> ar_write r = WResp \<and> ar_write r' = WAddr \<and> mm_mem (ar_file r') = mm_mem (ar_file r) \<and> write_phase r = 2"
      "\<not> aw \<and> \<not> wt \<and> \<not> b \<longrightarrow> held r' = held r \<and> mm_mem (ar_file r') = mm_mem (ar_file r)
         \<and> answers_due r' = answers_due r \<and> write_phase r' \<le> write_phase r
         \<and> (unpaused pm \<and> unpaused pr \<and> ar_write r \<noteq> WAddr \<and> ar_write r \<noteq> WData \<longrightarrow> write_phase r' < write_phase r)"
    using ram_write_edge [where m = m and r = r and cfg = cfg and pm = pm and pr = pr] inv df unfolding aw_def wt_def b_def by blast
  have "read_quiet m' r'" using m'(2) r'(2) by (simp add: read_quiet_def)
  have size: "ar_size r = length (mm_mem (ar_file r))" "0 < al_bw cfg"
    using inv axil_cfg_okD(1) by (auto simp: ram_write_ok_def)
  have step: "axil_step cfg (Edge pm pr) (m, r) = Inr (m', r')" using m'(1) r'(1) by simp
  have len: "length (pending_data m) = length (pending_addrs m) + length (held r)" using inv by blast
  have fut: "future (al_bw cfg) (m, r) = mem" using inv by blast
  have sum: "(\<Sum>p\<leftarrow>pending_writes m'. snd p) = length (pending_addrs m) + answers_due r" using inv m'(15) by simp
  have ex: "aw \<Longrightarrow> \<not> wt \<and> \<not> b" "wt \<Longrightarrow> \<not> aw \<and> \<not> b" "b \<Longrightarrow> \<not> aw \<and> \<not> wt" using r'(4-6) by auto
  have "length (pending_data m') = length (pending_addrs m') + length (held r')
      \<and> future (al_bw cfg) (m', r') = mem
      \<and> (\<Sum>p\<leftarrow>pending_writes m'. snd p) = length (pending_addrs m') + answers_due r' + length (am_int_write_resp_queue m')"
  proof -
    consider (aw) aw | (wt) wt | (b) b | (none) "\<not> aw" "\<not> wt" "\<not> b" by blast
    then show ?thesis
    proof cases
      case aw
      then show ?thesis
        using m'(7-9) r'(4) ex(1) len fut sum size
        by (cases "pending_data m'") (auto simp: future_def held_def answers_due_def split: ram_write_pc.splits)
    next
      case wt
      then show ?thesis
        using m'(7-9) r'(5) ex(2) len fut sum by (auto simp: future_def held_def answers_due_def)
    next
      case b
      then show ?thesis
        using m'(7-9) r'(6) ex(3) len fut sum by (auto simp: future_def held_def answers_due_def)
    next
      case none
      have h: "held r' = held r" "mm_mem (ar_file r') = mm_mem (ar_file r)" "answers_due r' = answers_due r"
          "pending_addrs m' = pending_addrs m" "pending_data m' = pending_data m" "am_int_write_resp_queue m' = []"
        using none r'(7) m'(7-9) by simp_all
      then have "future (al_bw cfg) (m', r') = future (al_bw cfg) (m, r)" by (simp only: future_def prod.case)
      then show ?thesis using h len fut sum by simp
    qed
  qed
  note mid = this
  have "ar_bresp r = 0" using inv by (simp add: ram_write_ok_def)
  then have "responses_ok m'" using m'(11,12) mid by (simp add: responses_ok_def)
  moreover have "am_write_command_queue m' = []" "write_results m' = results" using m'(4,13) inv by simp_all
  ultimately have "write_inv cfg mem results (m', r')"
    unfolding write_inv_def prod.case using \<open>read_quiet m' r'\<close> r'(3) m'(3,5,6,14) mid by (intro conjI) blast+
  moreover have "write_work cfg (m', r') \<le> write_work cfg (m, r)
      \<and> (unpaused pm \<and> unpaused pr \<longrightarrow> write_work cfg (m', r') \<le> write_work cfg (m, r) - 1)"
  proof -
    define A where "A = length (pending_addrs m')"
    have A: "length (pending_addrs m) = (if aw then 1 else 0) + A" using m'(7) by (simp add: A_def)
    have resp: "length (am_int_write_resp_queue m') = (if b then 1 else 0)" using m'(9) by simp
    note w = m'(16-18) waits_le [of "am_int_write_data_queue m'" "am_w m'"] waits_le [of "am_int_write_addr_queue m'" "am_aw m'"]
    consider (aw) aw | (wt) wt | (b) b | (none) "\<not> aw" "\<not> wt" "\<not> b" by blast
    then show ?thesis
    proof cases
      case aw
      then have "write_phase r = 0" "write_phase r' \<le> al_latency cfg + 4" using r'(4) by (simp_all add: write_phase_def)
      then show ?thesis using aw ex(1) w A resp by (simp add: write_work_def A_def [symmetric] add_mult_distrib)
    next
      case wt
      have "ar_write r = WData" "write_phase r' \<le> 3" "unpaused pr \<longrightarrow> write_phase r' = 2" using r'(5) wt by simp_all
      moreover from this(1) have "write_phase r = 4" by (simp add: write_phase_def)
      ultimately show ?thesis using wt ex(2) w A resp by (auto simp add: write_work_def A_def [symmetric])
    next
      case b
      have "write_phase r = 2" "ar_write r' = WAddr" using r'(6) b by simp_all
      moreover from this(2) have "write_phase r' = 0" by (simp add: write_phase_def)
      ultimately show ?thesis using b ex(3) w A resp by (auto simp add: write_work_def A_def [symmetric])
    next
      case none
      then have h: "write_phase r' \<le> write_phase r" "A = length (pending_addrs m)"
          "unpaused pm \<and> unpaused pr \<and> ar_write r \<noteq> WAddr \<and> ar_write r \<noteq> WData \<longrightarrow> write_phase r' < write_phase r"
        using r'(7) A by simp_all
      have data: "1 \<le> waits (am_int_write_data_queue m) (am_w m)" if "unpaused pr" "ar_write r = WData"
        using that none(2) len inv by (auto simp: ram_write_ok_def wt_def unpaused_def waits_def pending_data_def held_def)
      have addr: "1 \<le> waits (am_int_write_addr_queue m) (am_aw m)" if "unpaused pr" "ar_write r = WAddr" "A \<noteq> 0"
        using that none(1) h inv by (auto simp: ram_write_ok_def aw_def unpaused_def waits_def pending_addrs_def)
      have rest: "write_phase r = 0" "waits (am_int_write_data_queue m) (am_w m) = 0"
          "waits (am_int_write_addr_queue m) (am_aw m) = 0" if "ar_write r = WAddr" "A = 0"
        using that h(2) len by (auto simp: write_phase_def waits_def pending_addrs_def pending_data_def held_def)
      have work: "write_work cfg (m, r) = (al_latency cfg + 6) * A + write_phase r
          + waits (am_int_write_addr_queue m) (am_aw m) + waits (am_int_write_data_queue m) (am_w m)
          + length (am_int_write_resp_queue m)"
        "write_work cfg (m', r') = (al_latency cfg + 6) * A + write_phase r'
          + waits (am_int_write_addr_queue m') (am_aw m') + waits (am_int_write_data_queue m') (am_w m')"
        using resp none(3) h(2) by (simp_all add: write_work_def A_def)
      have le: "waits (am_int_write_addr_queue m') (am_aw m') \<le> waits (am_int_write_addr_queue m) (am_aw m)"
        "waits (am_int_write_data_queue m') (am_w m') \<le> waits (am_int_write_data_queue m) (am_w m)"
        using none w by simp_all
      have "write_work cfg (m', r') \<le> write_work cfg (m, r) - 1" if u: "unpaused pm" "unpaused pr"
      proof -
        have z: "waits (am_int_write_addr_queue m') (am_aw m') = 0" "waits (am_int_write_data_queue m') (am_w m') = 0"
          using w(3) u by simp_all
        consider "ar_write r = WData" | "ar_write r = WAddr" "A \<noteq> 0" | (rest) "ar_write r = WAddr" "A = 0"
          | "ar_write r \<noteq> WAddr" "ar_write r \<noteq> WData" by blast
        then show ?thesis
        proof cases
          case rest
          then show ?thesis using work z h(1) \<open>ar_write r = WAddr \<Longrightarrow> A = 0 \<Longrightarrow> write_phase r = 0\<close> by simp
        qed (use work z h u data addr in linarith)+
      qed
      moreover have "write_work cfg (m', r') \<le> write_work cfg (m, r)" using work h(1) le by simp
      ultimately show ?thesis by blast
    qed
  qed
  ultimately show ?thesis using step m'(10) by blast
qed

section \<open>Commands and runs\<close>

lemma future_append:
  assumes "length (pending_data m) = length (pending_addrs m) + length (held r)"
    and "pending_addrs m' = pending_addrs m @ as" "pending_data m' = pending_data m @ ds"
  shows "future bw (m', r) = store_cycles bw as ds (future bw (m, r))"
proof (cases "held r")
  case Nil
  then show ?thesis using assms by (simp add: future_def store_cycles_append)
next
  case (Cons p ps)
  then have ne: "pending_data m \<noteq> []" using assms(1) by auto
  have "length (pending_addrs m) = length (tl (pending_data m))"
    using Cons assms(1) by (simp add: held_def split: ram_write_pc.splits)
  then show ?thesis using Cons assms(2,3) ne by (simp add: future_def store_cycles_append)
qed

lemma write_command_inv:
  assumes "write_inv cfg mem results (m, r)" "command_fits cfg addr (length data) prot"
  defines "n \<equiv> command_cycles (al_bw cfg) addr (length data)"
  shows "\<exists>m'. axil_step cfg (Write addr data prot) (m, r) = Inr (m', r)
    \<and> write_inv cfg (store addr data mem) (results @ [(addr, length data, prot, 0)]) (m', r)
    \<and> am_read_data_queue m' = am_read_data_queue m
    \<and> write_work cfg (m', r) \<le> write_work cfg (m, r) + ((al_latency cfg + 6) * n + 2)"
proof -
  note inv = assms(1) [unfolded write_inv_def prod.case]
  have mem: "length mem = ar_size r" "future (al_bw cfg) (m, r) = mem"
    using inv by (auto simp: future_def ram_write_ok_def split: list.splits)
  have "axil_cfg_ok cfg (ar_size r)" using inv unfolding ram_write_ok_def by blast
  then have cfg: "axil_cfg_ok cfg (length mem)" by (simp only: mem(1))
  let ?c = "axil_init_write addr data prot m"
  obtain as ds where c: "write_command (al_bw cfg) (addr, data, prot) ?c = Inr (?c\<lparr>am_in_flight := am_in_flight ?c + 1,
      am_int_write_resp_command_queue := am_int_write_resp_command_queue ?c @ [(addr, length data, n, prot)],
      am_int_write_addr_queue := am_int_write_addr_queue ?c @ as,
      am_int_write_data_queue := am_int_write_data_queue ?c @ ds\<rparr>)"
    "length as = n" "length ds = n" "list_all (addr_fits cfg) as" "list_all (data_fits cfg) ds"
    "store_cycles (al_bw cfg) as ds mem = store addr data mem"
    using command_store [OF cfg refl assms(2), of ?c] unfolding n_def by auto
  define m1 where "m1 = m\<lparr>am_in_flight := am_in_flight m + 1,
      am_int_write_resp_command_queue := am_int_write_resp_command_queue m @ [(addr, length data, n, prot)],
      am_int_write_addr_queue := am_int_write_addr_queue m @ as,
      am_int_write_data_queue := am_int_write_data_queue m @ ds, am_write_command_queue := []\<rparr>"
  define m' where "m' = write_resp_logic m1"
  have step: "axil_step cfg (Write addr data prot) (m, r) = Inr (m', r)"
    using c(1) inv by (simp add: axil_write_logic_def axil_init_write_def m'_def m1_def)
  have pw: "pending_writes m1 = pending_writes m @ [((addr, length data, prot), n)]"
    by (simp add: m1_def pending_writes_def split: option.split)
  have "responses_ok m1" "am_int_write_resp_queue m1 = am_int_write_resp_queue m"
    "write_results m1 = results @ [(addr, length data, prot, 0)]"
    using inv by (auto simp: responses_ok_def all_okay_def write_results_def pw okay_def) (auto simp: m1_def)
  note w = write_resp_logic_ok [OF this(1), folded m'_def] this
  have p: "pending_addrs m' = pending_addrs m @ as" "pending_data m' = pending_data m @ ds"
    by (simp_all add: pending_addrs_def pending_data_def m'_def, simp_all add: m1_def)
  have "chan_ok (addr_fits cfg) (am_int_write_addr_queue m') (am_aw m')"
      "chan_ok (data_fits cfg) (am_int_write_data_queue m') (am_w m')"
    using inv c(4,5) by (simp_all add: chan_ok_def m'_def) (simp_all add: m1_def)
  moreover have "future (al_bw cfg) (m', r) = store addr data mem"
    using future_append [OF _ p, of r "al_bw cfg"] inv mem(2) c(6) by simp
  moreover have "read_quiet m' r" "am_write_command_queue m' = []" "am_bready m'"
      "am_read_data_queue m' = am_read_data_queue m"
    using inv by (simp_all add: read_quiet_def m'_def) (simp_all add: m1_def)
  moreover have "(\<Sum>p\<leftarrow>pending_writes m'. snd p) = length (pending_addrs m') + answers_due r + length (am_int_write_resp_queue m')"
    using w inv pw p(1) c(2) by simp
  moreover have "write_work cfg (m', r) \<le> write_work cfg (m, r) + ((al_latency cfg + 6) * n + 2)"
    using waits_le [of "am_int_write_addr_queue m'" "am_aw m'"] waits_le [of "am_int_write_data_queue m'" "am_w m'"] w p(1) c(2)
    by (simp add: write_work_def add_mult_distrib2)
  ultimately show ?thesis using step w inv p c(2,3) by (intro exI [of _ m']) (simp add: write_inv_def)
qed
lemma axil_run_append:
  "axil_run cfg (es @ es') x = bindR (axil_run cfg es x) (axil_run cfg es')"
proof (induction es arbitrary: x)
  case (Cons e es)
  show ?case by (cases "axil_step cfg e x") (simp_all add: Cons.IH)
qed simp

text \<open>A test that only writes, and a stretch of edges without a pause.\<close>

fun write_event :: "axil_cfg \<Rightarrow> axil_event \<Rightarrow> bool" where
  "write_event cfg (Write addr data prot) = command_fits cfg addr (length data) prot"
| "write_event cfg (Read addr len prot) = False"
| "write_event cfg (Edge pm pr) = True"

fun calm_edge :: "axil_event \<Rightarrow> bool" where
  "calm_edge (Edge pm pr) = (unpaused pm \<and> unpaused pr)"
| "calm_edge e = False"

fun stored :: "axil_event list \<Rightarrow> bytes \<Rightarrow> bytes" where
  \<comment> \<open>the memory after the writes of a test, in their order\<close>
  "stored [] mem = mem"
| "stored (Write addr data prot # es) mem = stored es (store addr data mem)"
| "stored (e # es) mem = stored es mem"

fun write_answers :: "axil_event list \<Rightarrow> (nat \<times> nat \<times> int \<times> int) list" where
  "write_answers [] = []"
| "write_answers (Write addr data prot # es) = (addr, length data, prot, RESP_OKAY) # write_answers es"
| "write_answers (e # es) = write_answers es"

fun write_time :: "axil_cfg \<Rightarrow> axil_event list \<Rightarrow> nat" where
  \<comment> \<open>edges without a pause that are enough for the writes of a test\<close>
  "write_time cfg [] = 0"
| "write_time cfg (Write addr data prot # es) =
     (al_latency cfg + 6) * command_cycles (al_bw cfg) addr (length data) + 2 + write_time cfg es"
| "write_time cfg (e # es) = write_time cfg es"

lemma write_run:
  assumes "write_inv cfg mem results x" "list_all (write_event cfg) es"
  shows "\<exists>x'. axil_run cfg es x = Inr x' \<and> write_inv cfg (stored es mem) (results @ write_answers es) x'
    \<and> am_read_data_queue (fst x') = am_read_data_queue (fst x)
    \<and> write_work cfg x' \<le> write_work cfg x + write_time cfg es"
  using assms
proof (induction es arbitrary: mem results x)
  case (Cons e es)
  obtain m r where x: "x = (m, r)" by (cases x)
  show ?case
  proof (cases e)
    case (Write addr data prot)
    have "command_fits cfg addr (length data) prot" using Cons.prems(2) Write by simp
    from write_command_inv [OF Cons.prems(1) [unfolded x] this] obtain m' where s:
      "axil_step cfg e (m, r) = Inr (m', r)"
      "write_inv cfg (store addr data mem) (results @ [(addr, length data, prot, 0)]) (m', r)"
      "am_read_data_queue m' = am_read_data_queue m"
      "write_work cfg (m', r) \<le> write_work cfg (m, r)
         + ((al_latency cfg + 6) * command_cycles (al_bw cfg) addr (length data) + 2)"
      unfolding Write by blast
    show ?thesis using Cons.IH [OF s(2)] Cons.prems(2) s(1,3,4) x Write by (fastforce simp: RESP_OKAY_def)
  next
    case (Edge pm pr)
    from write_edge [OF Cons.prems(1) [unfolded x], of pm pr] obtain m' r' where s:
      "axil_step cfg e (m, r) = Inr (m', r')" "write_inv cfg mem results (m', r')"
      "am_read_data_queue m' = am_read_data_queue m" "write_work cfg (m', r') \<le> write_work cfg (m, r)"
      unfolding Edge by blast
    show ?thesis using Cons.IH [OF s(2)] Cons.prems(2) s(1,3,4) x Edge by fastforce
  qed (use Cons.prems in simp)
qed simp

lemma calm_write_run:
  assumes "write_inv cfg mem results x" "list_all calm_edge es"
  shows "\<exists>x'. axil_run cfg es x = Inr x' \<and> write_inv cfg mem results x'
    \<and> am_read_data_queue (fst x') = am_read_data_queue (fst x)
    \<and> write_work cfg x' \<le> write_work cfg x - length es"
  using assms
proof (induction es arbitrary: x)
  case (Cons e es)
  obtain m r where x: "x = (m, r)" by (cases x)
  obtain pm pr where e: "e = Edge pm pr" "unpaused pm" "unpaused pr" using Cons.prems(2) by (cases e) auto
  from write_edge [OF Cons.prems(1) [unfolded x], of pm pr] obtain m' r' where s:
    "axil_step cfg e (m, r) = Inr (m', r')" "write_inv cfg mem results (m', r')"
    "am_read_data_queue m' = am_read_data_queue m" "write_work cfg (m', r') \<le> write_work cfg (m, r) - 1"
    using e by blast
  show ?case using Cons.IH [OF s(2)] Cons.prems(2) s(1,3,4) x by fastforce
qed simp

section \<open>At rest\<close>

definition axil_rest ::
    "axil_cfg \<Rightarrow> bytes \<Rightarrow> (nat \<times> nat \<times> int \<times> int) list \<Rightarrow> axil_master \<times> axil_ram \<Rightarrow> bool" where
  \<comment> \<open>nothing under way, with this memory and these answers to the writes\<close>
  "axil_rest cfg mem results x \<longleftrightarrow> write_inv cfg mem results x \<and> write_work cfg x = 0"

lemma sum_list_0: "(\<Sum>p\<leftarrow>ps. f p) = (0 :: nat) \<Longrightarrow> p \<in> set ps \<Longrightarrow> f p = 0"
  by auto

lemma axil_restD:
  assumes "axil_rest cfg mem results (m, r)"
  shows "axil_master_idle m" "mm_mem (ar_file r) = mem" "am_write_resp_queue m = results"
    "pending_addrs m = []" "pending_data m = []" "ar_write r = WAddr" "pending_writes m = []"
    "am_int_write_resp_queue m = []" "am_in_flight m = 0"
proof -
  note inv = conjunct1 [OF assms [unfolded axil_rest_def], unfolded write_inv_def prod.case]
  have "write_phase r = 0" using assms by (simp add: axil_rest_def write_work_def)
  then show w: "ar_write r = WAddr" by (auto simp: write_phase_def split: ram_write_pc.splits if_splits)
  show a: "pending_addrs m = []" and q: "am_int_write_resp_queue m = []"
    using assms by (simp_all add: axil_rest_def write_work_def)
  show d: "pending_data m = []" using inv a w by (simp add: held_def)
  have "(\<Sum>p\<leftarrow>pending_writes m. snd p) = 0" using inv a q w by (simp add: answers_due_def)
  moreover have "drained m" using inv by blast
  ultimately show p: "pending_writes m = []"
    by (cases "am_write_resp m") (simp_all add: drained_def pending_writes_def)
  show f: "am_in_flight m = 0" using p inv by (simp add: responses_ok_def)
  then show "axil_master_idle m" using inv by (simp add: axil_master_idle_def read_quiet_def)
  show "mm_mem (ar_file r) = mem" using inv a d w by (simp add: future_def held_def)
  show "am_write_resp_queue m = results" using inv p by (simp add: write_results_def)
qed

lemma axil_rest0:
  assumes "axil_cfg_ok cfg (length mem)"
  shows "axil_rest cfg mem [] (axil_master0, (axil_ram0 (length mem))\<lparr>ar_file := \<lparr>mm_mem = mem, mm_pos = pos\<rparr>\<rparr>)"
  using assms
  by (simp add: axil_rest_def write_inv_def write_work_def axil_master0_def axil_ram0_def read_quiet_def ram_write_ok_def
      held_def chan_ok_def pending_data_def pending_addrs_def chan_words_def future_def responses_ok_def all_okay_def
      pending_writes_def drained_def write_results_def answers_due_def write_phase_def waits_def)

lemma write_phase_run:
  assumes "axil_rest cfg mem results x" "list_all (write_event cfg) es"
    and "list_all calm_edge calm" "write_time cfg es \<le> length calm"
  shows "\<exists>x'. axil_run cfg (es @ calm) x = Inr x' \<and> axil_rest cfg (stored es mem) (results @ write_answers es) x'
    \<and> am_read_data_queue (fst x') = am_read_data_queue (fst x)"
proof -
  obtain x1 where 1: "axil_run cfg es x = Inr x1" "write_inv cfg (stored es mem) (results @ write_answers es) x1"
      "am_read_data_queue (fst x1) = am_read_data_queue (fst x)" "write_work cfg x1 \<le> write_time cfg es"
    using write_run [OF _ assms(2), of mem results x] assms(1) by (auto simp: axil_rest_def)
  obtain x2 where 2: "axil_run cfg calm x1 = Inr x2" "write_inv cfg (stored es mem) (results @ write_answers es) x2"
      "am_read_data_queue (fst x2) = am_read_data_queue (fst x1)" "write_work cfg x2 \<le> write_work cfg x1 - length calm"
    using calm_write_run [OF 1(2) assms(3)] by blast
  have "axil_run cfg (es @ calm) x = Inr x2"
    using 1(1) 2(1) by (simp add: axil_run_append)
  then show ?thesis using 1 2 assms(4) by (auto simp: axil_rest_def)
qed

end
