(* ===== verification/Axil_Read.thy ===== *)
theory Axil_Read
  imports Axil_Write
begin

text \<open>
  Reads over AXI-Lite: what the words of a memory make of the commands that are under way.  The loop
  over the responses can be resumed at any point, so the invariant of a run is that the loop, given the
  words that will still arrive, ends with the octets that the specification reads.
\<close>

section \<open>The responses to reads\<close>

definition read_more ::
    "(nat \<times> nat \<times> nat \<times> int) list \<Rightarrow> (int \<times> int) list \<Rightarrow> axil_master \<Rightarrow> axil_master" where
  \<comment> \<open>more commands and more words\<close>
  "read_more cs ws m = m\<lparr>am_int_read_resp_command_queue := am_int_read_resp_command_queue m @ cs,
     am_int_read_resp_queue := am_int_read_resp_queue m @ ws\<rparr>"

lemma read_more_updates:
  "read_more cs ws (m\<lparr>am_int_read_resp_command_queue := q, am_read_resp := f\<rparr>)
    = (read_more cs ws m)\<lparr>am_int_read_resp_command_queue := q @ cs, am_read_resp := f\<rparr>"
  "read_more cs ws (m\<lparr>am_read_data_queue := d, am_in_flight := n, am_read_resp := f\<rparr>)
    = (read_more cs ws m)\<lparr>am_read_data_queue := d, am_in_flight := n, am_read_resp := f\<rparr>"
  "read_more cs ws (m\<lparr>am_int_read_resp_queue := w, am_read_resp := f\<rparr>)
    = (read_more cs ws m)\<lparr>am_int_read_resp_queue := w @ ws, am_read_resp := f\<rparr>"
  by (cases m, simp add: read_more_def)+

lemma read_more_fields [simp]:
  "am_read_resp (read_more cs ws m) = am_read_resp m"
  "am_int_read_resp_command_queue (read_more cs ws m) = am_int_read_resp_command_queue m @ cs"
  "am_int_read_resp_queue (read_more cs ws m) = am_int_read_resp_queue m @ ws"
  "am_read_data_queue (read_more cs ws m) = am_read_data_queue m"
  "am_in_flight (read_more cs ws m) = am_in_flight m"
  by (simp_all add: read_more_def)

lemma read_step_start:
  "am_read_resp m = None \<Longrightarrow> am_int_read_resp_command_queue m = (a, l, c, p) # q \<Longrightarrow>
    read_resp_logic bw m = read_resp_logic bw (m\<lparr>am_int_read_resp_command_queue := q,
      am_read_resp := Some \<lparr>rf_command = (a, l, p), rf_cycles = c, rf_k = 0, rf_data = [], rf_resp = 0\<rparr>\<rparr>)"
  by (subst read_resp_logic.simps) simp

lemma read_step_finish:
  "am_read_resp m = Some f \<Longrightarrow> rf_command f = (a, l, p) \<Longrightarrow> rf_cycles f \<le> rf_k f \<Longrightarrow>
    read_resp_logic bw m = read_resp_logic bw (m\<lparr>
      am_read_data_queue := am_read_data_queue m @ [(a, rf_data f, p, rf_resp f)],
      am_in_flight := am_in_flight m - 1, am_read_resp := None\<rparr>)"
  by (subst read_resp_logic.simps) simp

lemma read_step_take:
  "am_read_resp m = Some f \<Longrightarrow> rf_command f = (a, l, p) \<Longrightarrow> \<not> rf_cycles f \<le> rf_k f \<Longrightarrow>
    am_int_read_resp_queue m = (d, s) # q \<Longrightarrow>
    read_resp_logic bw m = read_resp_logic bw (m\<lparr>am_int_read_resp_queue := q,
      am_read_resp := Some (f\<lparr>rf_k := rf_k f + 1,
        rf_data := rf_data f @ unpack_octets d (cycle_start (a mod bw) (rf_k f))
          (cycle_stop bw (end_offset_of bw a l) (rf_cycles f) (rf_k f)),
        rf_resp := (if s \<noteq> 0 then s else rf_resp f)\<rparr>)\<rparr>)"
  by (subst read_resp_logic.simps) simp

definition read_stopped :: "axil_master \<Rightarrow> bool" where
  "read_stopped m \<longleftrightarrow>
     (case am_read_resp m of
        None \<Rightarrow> am_int_read_resp_command_queue m = []
      | Some f \<Rightarrow> \<not> rf_cycles f \<le> rf_k f \<and> am_int_read_resp_queue m = [])"

lemma read_stopped_logic: "read_stopped m \<Longrightarrow> read_resp_logic bw m = m"
  by (subst read_resp_logic.simps) (simp add: read_stopped_def split: option.splits prod.split)

text \<open>The loop as an induction: the three kinds of steps, and the state in which it stops.\<close>

lemma read_resp_induct:
  assumes stop: "\<And>m. read_stopped m \<Longrightarrow> P m"
    and start: "\<And>m a l c p q. am_read_resp m = None \<Longrightarrow> am_int_read_resp_command_queue m = (a, l, c, p) # q \<Longrightarrow>
      P (m\<lparr>am_int_read_resp_command_queue := q,
        am_read_resp := Some \<lparr>rf_command = (a, l, p), rf_cycles = c, rf_k = 0, rf_data = [], rf_resp = 0\<rparr>\<rparr>) \<Longrightarrow> P m"
    and finish: "\<And>m f a l p. am_read_resp m = Some f \<Longrightarrow> rf_command f = (a, l, p) \<Longrightarrow> rf_cycles f \<le> rf_k f \<Longrightarrow>
      P (m\<lparr>am_read_data_queue := am_read_data_queue m @ [(a, rf_data f, p, rf_resp f)],
        am_in_flight := am_in_flight m - 1, am_read_resp := None\<rparr>) \<Longrightarrow> P m"
    and take: "\<And>m f a l p d s q. am_read_resp m = Some f \<Longrightarrow> rf_command f = (a, l, p) \<Longrightarrow>
      \<not> rf_cycles f \<le> rf_k f \<Longrightarrow> am_int_read_resp_queue m = (d, s) # q \<Longrightarrow>
      P (m\<lparr>am_int_read_resp_queue := q,
        am_read_resp := Some (f\<lparr>rf_k := rf_k f + 1,
          rf_data := rf_data f @ unpack_octets d (cycle_start (a mod bw) (rf_k f))
            (cycle_stop bw (end_offset_of bw a l) (rf_cycles f) (rf_k f)),
          rf_resp := (if s \<noteq> 0 then s else rf_resp f)\<rparr>)\<rparr>) \<Longrightarrow> P m"
  shows "P m"
proof (induction "2 * length (am_int_read_resp_command_queue m) + length (am_int_read_resp_queue m)
    + (if am_read_resp m = None then 0 else 1)" arbitrary: m rule: less_induct)
  case less
  consider (stop) "read_stopped m"
    | (start) a l c p q where "am_read_resp m = None" "am_int_read_resp_command_queue m = (a, l, c, p) # q"
    | (finish) f a l p where "am_read_resp m = Some f" "rf_command f = (a, l, p)" "rf_cycles f \<le> rf_k f"
    | (take) f a l p d s q where "am_read_resp m = Some f" "rf_command f = (a, l, p)" "\<not> rf_cycles f \<le> rf_k f"
        "am_int_read_resp_queue m = (d, s) # q"
    by (cases "am_read_resp m"; cases "am_int_read_resp_command_queue m"; cases "am_int_read_resp_queue m")
       (auto simp: read_stopped_def, (metis prod_cases3)+)
  then show ?case
  proof cases
    case stop then show ?thesis by (rule assms(1))
  next
    case start
    show ?thesis by (rule assms(2) [OF start]) (rule less, use start in simp)
  next
    case finish
    show ?thesis by (rule assms(3) [OF finish]) (rule less, use finish in simp)
  next
    case take
    show ?thesis by (rule assms(4) [OF take]) (rule less, use take in simp)
  qed
qed

lemma read_resume: "read_resp_logic bw (read_more cs ws m) = read_resp_logic bw (read_more cs ws (read_resp_logic bw m))"
proof (induction m rule: read_resp_induct [where bw = bw])
  case (1 m)
  then show ?case by (simp add: read_stopped_logic)
next
  case (2 m a l c p q)
  have "am_int_read_resp_command_queue (read_more cs ws m) = (a, l, c, p) # q @ cs" using 2(2) by simp
  note read_step_start [OF _ this, of bw]
  then show ?case using 2(1,3) by (simp only: read_more_fields read_more_updates read_step_start [OF 2(1,2)])
next
  case (3 m f a l p)
  show ?case using 3(4)
    by (simp only: read_more_updates read_step_finish [OF 3(1-3)]
        read_step_finish [of "read_more cs ws m", unfolded read_more_fields, OF 3(1-3)])
next
  case (4 m f a l p d s q)
  have "am_int_read_resp_queue (read_more cs ws m) = (d, s) # q @ ws" using 4(4) by simp
  note read_step_take [OF _ 4(2,3) this]
  then show ?case using 4(1,5) by (simp only: read_more_fields read_more_updates read_step_take [OF 4(1-4)])
qed

definition read_frame :: "axil_master \<Rightarrow> axil_master" where
  \<comment> \<open>what the responses do not touch\<close>
  "read_frame m = m\<lparr>am_int_read_resp_command_queue := [], am_read_resp := None,
     am_int_read_resp_queue := [], am_read_data_queue := [], am_in_flight := 0\<rparr>"

lemma read_resp_frame: "read_frame (read_resp_logic bw m) = read_frame m"
proof (induction m rule: read_resp_induct [where bw = bw])
  case (1 m)
  then show ?case by (simp add: read_stopped_logic)
qed (simp_all add: read_step_start read_step_finish read_step_take, simp_all add: read_frame_def)

lemma read_resp_stops: "read_stopped (read_resp_logic bw m)"
proof (induction m rule: read_resp_induct [where bw = bw])
  case (1 m)
  then show ?case by (simp add: read_stopped_logic)
qed (simp_all add: read_step_start read_step_finish read_step_take)

section \<open>The words of the memory and the octets of a read\<close>

definition word_at :: "nat \<Rightarrow> nat \<Rightarrow> bytes \<Rightarrow> int" where
  "word_at bw p mem = lanes_val 8 (map uint (take bw (drop p mem)))"

lemma octets_in_lane: "list_all (in_lane 8) (map uint (bs :: bytes))"
  by (auto simp: list_all_iff in_lane_def uint_lt2p [where 'a = 8, simplified])

lemma join_octets_eq:
  "n \<le> length data \<Longrightarrow> join_octets data (rev [0..<n]) v = Inr (2 ^ (8 * n) * v + lanes_val 8 (map uint (take n data)))"
proof (induction n arbitrary: v)
  case (Suc n)
  then show ?case
    by (simp add: take_Suc_conv_app_nth lanes_val_append shl_arith algebra_simps power_add)
qed simp

lemma word_at_fits: "fits (Some (8 * bw)) (word_at bw p mem)"
proof -
  let ?ls = "map uint (take bw (drop p mem))"
  have "lanes_val 8 ?ls < 2 ^ (8 * length ?ls)" by (intro lanes_val_bound octets_in_lane)
  also have "\<dots> \<le> (2 :: int) ^ (8 * bw)" by (intro power_increasing) auto
  finally show ?thesis using lanes_val_nonneg [OF octets_in_lane] by (simp add: fits_def word_at_def)
qed

lemma unpack_word:
  assumes "stop \<le> bw" "p + bw \<le> length mem"
  shows "unpack_octets (word_at bw p mem) st stop = map (\<lambda>i. mem ! (p + i)) [st..<stop]"
proof -
  let ?ls = "map uint (take bw (drop p mem))"
  have "word_of_int (shr (lanes_val 8 ?ls) (j * 8) AND 0xff) = mem ! (p + j)" if "j < stop" for j
  proof -
    have "shr (lanes_val 8 ?ls) (8 * j) AND (2 ^ 8 - 1) = ?ls ! j"
      using that assms by (intro lane_of_word octets_in_lane) simp
    then show ?thesis using that assms by (simp add: mult.commute)
  qed
  then show ?thesis by (simp add: unpack_octets_def word_at_def)
qed

lemma length_load [simp]: "length (load addr len mem) = len"
  by (simp add: load_def)

lemma load_append: "load addr (m + n) mem = load addr m mem @ load (addr + m) n mem"
proof -
  have "[0..<m + n] = [0..<m] @ map (\<lambda>i. i + m) [0..<n]" using upt_add_eq_append [of 0 m n] map_add_upt [of m n] by (simp add: add.commute [of n m])
  then show ?thesis by (simp add: load_def ac_simps del: map_add_upt upt_add_eq_append)
qed

lemma cycle_load:
  assumes "bw dvd length mem" "0 < length mem" "st \<le> stop" "stop \<le> bw" "a mod bw = 0"
  shows "unpack_octets (word_at bw (a mod length mem) mem) st stop = load (a + st) (stop - st) mem"
proof -
  have p: "a mod length mem + bw \<le> length mem" using assms by (intro aligned_fits) (auto simp: mod_eq_0_iff_dvd)
  have "mem ! (a mod length mem + (st + j)) = mem ! ((a + st + j) mod length mem)" if "j < stop - st" for j
  proof -
    have "(a + st + j) mod length mem = (a mod length mem + (st + j)) mod length mem" by (simp add: add.assoc mod_add_left_eq)
    then show ?thesis using that p assms(4) by simp
  qed
  then show ?thesis
    using unpack_word [OF assms(4) p, of st] assms(3)
    by (auto simp: load_def intro!: nth_equalityI)
qed

definition cycle_addrs :: "nat \<Rightarrow> nat \<Rightarrow> nat \<Rightarrow> nat list" where
  "cycle_addrs bw addr n = map (\<lambda>k. addr div bw * bw + (if k = 0 then addr mod bw else k * bw)) [0..<n]"

text \<open>From cycle \<open>k\<close> on: the words that are left complete the octets, and the command is answered.\<close>

lemma read_words:
  assumes "bw dvd length mem" "0 < length mem" "0 < bw" "s = addr mod bw" "w = addr div bw * bw"
    and "s + len = (n - 1) * bw + e" "1 \<le> e" "e \<le> bw" "e = end_offset_of bw addr len"
    and "am_read_resp m = Some f" "rf_command f = (addr, len, prot)" "rf_cycles f = n" "rf_k f = k" "rf_resp f = 0"
    and "rf_data f = load addr off mem" "k \<le> n" "k < n \<longrightarrow> off + s = k * bw + cycle_start s k" "k = n \<longrightarrow> off = len"
    and "am_int_read_resp_queue m = map (\<lambda>j. (word_at bw ((w + j * bw) mod length mem) mem, 0)) [k..<n]"
  shows "read_resp_logic bw m = read_resp_logic bw (m\<lparr>am_int_read_resp_queue := [],
    am_read_data_queue := am_read_data_queue m @ [(addr, load addr len mem, prot, 0)],
    am_in_flight := am_in_flight m - 1, am_read_resp := None\<rparr>)"
  using assms(10-)
proof (induction "n - k" arbitrary: m f k off)
  case 0
  then have "k = n" by simp
  then have upd: "m\<lparr>am_int_read_resp_queue := [], am_read_data_queue := d, am_in_flight := i, am_read_resp := r\<rparr>
      = m\<lparr>am_read_data_queue := d, am_in_flight := i, am_read_resp := r\<rparr>" for d i r
    using 0 by (cases m) simp
  show ?case unfolding upd using 0 \<open>k = n\<close> read_step_finish [of m f addr len prot bw] by simp
next
  case (Suc j)
  let ?st = "cycle_start s k" and ?stop = "cycle_stop bw e n k" and ?a = "w + k * bw"
  have k: "k < n" using Suc.hyps(2) by simp
  have st: "?st \<le> ?stop" "?stop \<le> bw" "off + s = k * bw + ?st"
    using Suc.prems(8) k assms(3,4,6,8) by (auto simp: cycle_start_def cycle_stop_def less_imp_le mod_less_divisor)
  have a: "?a mod bw = 0" using assms(5) by simp
  have "w + s = addr" using assms(4,5) by simp
  then have at: "?a + ?st = addr + off" using st(3) by simp
  have q: "am_int_read_resp_queue m = (word_at bw (?a mod length mem) mem, 0)
      # map (\<lambda>j. (word_at bw ((w + j * bw) mod length mem) mem, 0)) [Suc k..<n]"
    using Suc.prems(10) k by (simp add: upt_conv_Cons)
  define d where "d = ?stop - ?st"
  have oct: "unpack_octets (word_at bw (?a mod length mem) mem) ?st ?stop = load (addr + off) d mem"
    using cycle_load [OF assms(1,2) st(1,2) a] by (simp only: at d_def)
  have d: "d + ?st = ?stop" using st(1) by (simp add: d_def)
  have more: "k + 1 < n \<longrightarrow> off + d + s = (k + 1) * bw + cycle_start s (k + 1)" "k + 1 = n \<longrightarrow> off + d = len"
    using d st(3) assms(6,7) by (auto simp: cycle_stop_def cycle_start_def)
  let ?f = "f\<lparr>rf_k := k + 1, rf_data := load addr (off + d) mem, rf_resp := 0\<rparr>"
  let ?m = "m\<lparr>am_int_read_resp_queue := map (\<lambda>j. (word_at bw ((w + j * bw) mod length mem) mem, 0)) [Suc k..<n],
      am_read_resp := Some ?f\<rparr>"
  have "read_resp_logic bw m = read_resp_logic bw ?m"
    using read_step_take [OF Suc.prems(1,2) _ q, of bw] Suc.prems(3-6) k assms(9) oct
    by (simp add: load_append assms(4) [symmetric])
  also have "\<dots> = read_resp_logic bw (?m\<lparr>am_int_read_resp_queue := [],
    am_read_data_queue := am_read_data_queue ?m @ [(addr, load addr len mem, prot, 0)],
    am_in_flight := am_in_flight ?m - 1, am_read_resp := None\<rparr>)"
    by (rule Suc.hyps(1) [where f = ?f and k = "k + 1" and off = "off + d"])
       (use Suc.hyps(2) Suc.prems k more in simp_all)
  finally show ?case by simp
qed

section \<open>The state while reads are under way\<close>

lemma read_frame_fields:
  assumes "read_frame m' = read_frame m"
  shows "am_write_command_queue m' = am_write_command_queue m" "am_read_command_queue m' = am_read_command_queue m"
    "am_write_resp_queue m' = am_write_resp_queue m" "am_int_write_addr_queue m' = am_int_write_addr_queue m"
    "am_int_write_data_queue m' = am_int_write_data_queue m" "am_int_read_addr_queue m' = am_int_read_addr_queue m"
    "am_int_write_resp_command_queue m' = am_int_write_resp_command_queue m"
    "am_int_write_resp_queue m' = am_int_write_resp_queue m" "am_write_resp m' = am_write_resp m"
    "am_aw m' = am_aw m" "am_w m' = am_w m" "am_ar m' = am_ar m" "am_bready m' = am_bready m"
    "am_rready m' = am_rready m"
  using assms by (cases m; cases m'; simp add: read_frame_def)+

lemmas read_resp_fields [simp] = read_frame_fields [OF read_resp_frame]

definition write_quiet :: "axil_master \<Rightarrow> axil_ram \<Rightarrow> bool" where
  "write_quiet m r \<longleftrightarrow>
     am_write_command_queue m = [] \<and> am_int_write_addr_queue m = [] \<and> am_int_write_data_queue m = []
     \<and> am_int_write_resp_command_queue m = [] \<and> am_int_write_resp_queue m = [] \<and> am_write_resp m = None
     \<and> \<not> ch_busy (am_aw m) \<and> \<not> ch_valid (am_aw m) \<and> \<not> ch_busy (am_w m) \<and> \<not> ch_valid (am_w m)
     \<and> am_bready m \<and> ar_write r = WAddr \<and> ar_awready r \<and> \<not> ar_wready r \<and> \<not> ar_bvalid r \<and> ar_bresp r = 0"

definition read_addrs :: "(nat \<times> int) list \<Rightarrow> (nat \<times> int) chan \<Rightarrow> int \<Rightarrow> axil_master \<Rightarrow> axil_master" where
  \<comment> \<open>another state of the address channel, and more commands in flight\<close>
  "read_addrs q c k m = m\<lparr>am_int_read_addr_queue := q, am_ar := c, am_in_flight := am_in_flight m + k\<rparr>"

lemma read_addrs_fields [simp]:
  "am_read_resp (read_addrs q c k m) = am_read_resp m"
  "am_int_read_resp_command_queue (read_addrs q c k m) = am_int_read_resp_command_queue m"
  "am_int_read_resp_queue (read_addrs q c k m) = am_int_read_resp_queue m"
  "am_read_data_queue (read_addrs q c k m) = am_read_data_queue m"
  "am_in_flight (read_addrs q c k m) = am_in_flight m + k"
  "am_int_read_addr_queue (read_addrs q c k m) = q" "am_ar (read_addrs q c k m) = c"
  "am_write_command_queue (read_addrs q c k m) = am_write_command_queue m"
  "am_read_command_queue (read_addrs q c k m) = am_read_command_queue m"
  "am_write_resp_queue (read_addrs q c k m) = am_write_resp_queue m"
  "am_rready (read_addrs q c k m) = am_rready m"
  "read_stopped (read_addrs q c k m) = read_stopped m"
  "write_quiet (read_addrs q c k m) r = write_quiet m r"
  by (simp_all add: read_addrs_def read_stopped_def write_quiet_def split: option.split)

lemma read_addrs_updates:
  "read_addrs q c k (m\<lparr>am_int_read_resp_command_queue := q', am_read_resp := f\<rparr>)
    = (read_addrs q c k m)\<lparr>am_int_read_resp_command_queue := q', am_read_resp := f\<rparr>"
  "read_addrs q c k (m\<lparr>am_read_data_queue := d, am_in_flight := am_in_flight m - 1, am_read_resp := f\<rparr>)
    = (read_addrs q c k m)\<lparr>am_read_data_queue := d, am_in_flight := am_in_flight m + k - 1, am_read_resp := f\<rparr>"
  "read_addrs q c k (m\<lparr>am_int_read_resp_queue := w, am_read_resp := f\<rparr>)
    = (read_addrs q c k m)\<lparr>am_int_read_resp_queue := w, am_read_resp := f\<rparr>"
  "read_more cs ws (read_addrs q c k m) = read_addrs q c k (read_more cs ws m)"
  by (cases m, simp add: read_addrs_def read_more_def)+

lemma read_resp_addrs: "read_resp_logic bw (read_addrs q c k m) = read_addrs q c k (read_resp_logic bw m)"
proof (induction m rule: read_resp_induct [where bw = bw])
  case (1 m)
  then show ?case by (simp add: read_stopped_logic)
next
  case (2 m a l n p q')
  show ?case using 2(3)
    by (simp only: read_addrs_updates read_step_start [OF 2(1,2)]
        read_step_start [of "read_addrs q c k m", unfolded read_addrs_fields, OF 2(1,2)])
next
  case (3 m f a l p)
  show ?case using 3(4)
    by (simp only: read_addrs_updates read_step_finish [OF 3(1-3)]
        read_step_finish [of "read_addrs q c k m", unfolded read_addrs_fields, OF 3(1-3)])
next
  case (4 m f a l p d s q')
  show ?case using 4(5)
    by (simp only: read_addrs_updates read_step_take [OF 4(1-4)]
        read_step_take [of "read_addrs q c k m", unfolded read_addrs_fields, OF 4(1-4)])
qed

definition pending_reads :: "axil_master \<Rightarrow> (nat \<times> int) list" where
  "pending_reads m = chan_words (am_ar m) @ am_int_read_addr_queue m"

definition read_word :: "nat \<Rightarrow> bytes \<Rightarrow> nat \<Rightarrow> int \<times> int" where
  "read_word bw mem a = (word_at bw (word_pos bw (length mem) a) mem, 0)"

definition held_words :: "nat \<Rightarrow> axil_ram \<Rightarrow> (int \<times> int) list" where
  \<comment> \<open>the word whose address the memory has and that it has not handed over\<close>
  "held_words bw r =
     (case ar_read r of
        RAddr \<Rightarrow> []
      | RLatency n a \<Rightarrow> [(word_at bw (a mod ar_size r) (mm_mem (ar_file r)), 0)]
      | RResp \<Rightarrow> [(ar_rdata r, ar_rresp r)])"

definition due_words :: "nat \<Rightarrow> axil_master \<times> axil_ram \<Rightarrow> (int \<times> int) list" where
  \<comment> \<open>the words that will still arrive\<close>
  "due_words bw x =
     (case x of (m, r) \<Rightarrow> held_words bw r @ map (read_word bw (mm_mem (ar_file r)) \<circ> fst) (pending_reads m))"

definition read_done :: "(nat \<times> bytes \<times> int \<times> int) list \<Rightarrow> axil_master \<Rightarrow> bool" where
  "read_done results m \<longleftrightarrow>
     am_read_resp m = None \<and> am_int_read_resp_command_queue m = [] \<and> am_int_read_resp_queue m = []
     \<and> am_in_flight m = 0 \<and> am_read_data_queue m = results"

definition ram_read_ok :: "axil_cfg \<Rightarrow> axil_ram \<Rightarrow> bool" where
  "ram_read_ok cfg r \<longleftrightarrow>
     ar_size r = length (mm_mem (ar_file r)) \<and> axil_cfg_ok cfg (ar_size r)
     \<and> (\<forall>n a. ar_read r = RLatency n a \<longrightarrow> 1 \<le> n \<and> n \<le> al_latency cfg \<and> a mod al_bw cfg = 0)
     \<and> ar_arready r = (ar_read r = RAddr) \<and> (ar_rvalid r \<longrightarrow> ar_read r = RResp)"

definition read_inv ::
    "axil_cfg \<Rightarrow> bytes \<Rightarrow> (nat \<times> nat \<times> int \<times> int) list \<Rightarrow> (nat \<times> bytes \<times> int \<times> int) list \<Rightarrow>
     axil_master \<times> axil_ram \<Rightarrow> bool" where
  "read_inv cfg mem answers results x \<longleftrightarrow> (case x of (m, r) \<Rightarrow>
     write_quiet m r \<and> ram_read_ok cfg r \<and> mm_mem (ar_file r) = mem
     \<and> am_write_resp_queue m = answers \<and> am_read_command_queue m = [] \<and> am_rready m
     \<and> chan_ok (addr_fits cfg) (am_int_read_addr_queue m) (am_ar m)
     \<and> (am_int_read_resp_queue m = [] \<longrightarrow> read_stopped m)
     \<and> read_done results (read_resp_logic (al_bw cfg) (read_more [] (due_words (al_bw cfg) (m, r)) m)))"

definition read_phase :: "axil_ram \<Rightarrow> nat" where
  "read_phase r = (case ar_read r of RAddr \<Rightarrow> 0 | RLatency n a \<Rightarrow> n + 3 | RResp \<Rightarrow> if ar_rvalid r then 2 else 3)"

definition read_work :: "axil_cfg \<Rightarrow> axil_master \<times> axil_ram \<Rightarrow> nat" where
  "read_work cfg x = (case x of (m, r) \<Rightarrow>
     (al_latency cfg + 5) * length (pending_reads m) + read_phase r
     + waits (am_int_read_addr_queue m) (am_ar m) + length (am_int_read_resp_queue m))"

text \<open>The master and the memory at an edge, with the write side at rest.\<close>

lemma write_resp_stopped:
  "am_write_resp m = None \<Longrightarrow> am_int_write_resp_command_queue m = [] \<Longrightarrow> write_resp_logic m = m"
  by (simp add: write_resp_logic.simps [of m])

lemma master_read_edge:
  fixes pm pr :: axil_pause
  assumes "write_quiet m r" "am_rready m"
    and "chan_ok (addr_fits cfg) (am_int_read_addr_queue m) (am_ar m)"
  defines "ar \<equiv> ch_valid (am_ar m) \<and> ar_arready r \<and> \<not> p_ar pr"
    and "rv \<equiv> ar_rvalid r \<and> \<not> p_r pm"
  shows "\<exists>q c. axil_master_step cfg pm (to_master pr r) m =
      Inr (read_addrs q c 0 (read_more [] (if rv then [(ar_rdata r, ar_rresp r)] else []) (read_resp_logic (al_bw cfg) m)))
    \<and> chan_ok (addr_fits cfg) q c
    \<and> pending_reads m = (if ar then [ch_word (am_ar m)] else []) @ chan_words c @ q
    \<and> waits q c \<le> (if ar then 1 else waits (am_int_read_addr_queue m) (am_ar m))
    \<and> (unpaused pm \<longrightarrow> waits q c = 0)"
proof -
  define m1 where "m1 = read_resp_logic (al_bw cfg) m"
  obtain q c where a: "chan_step (p_ar pm) (ar_arready r \<and> \<not> p_ar pr) (addr_fits cfg) (am_int_read_addr_queue m) (am_ar m) = Inr (q, c)"
      "chan_ok (addr_fits cfg) q c"
      "pending_reads m = (if ar then [ch_word (am_ar m)] else []) @ chan_words c @ q"
      "waits q c \<le> (if ar then 1 else waits (am_int_read_addr_queue m) (am_ar m))" "\<not> p_ar pm \<longrightarrow> waits q c = 0"
    using chan_step_ok [OF assms(3), of "p_ar pm" "ar_arready r \<and> \<not> p_ar pr"]
    unfolding ar_def pending_reads_def by blast
  have f: "am_int_read_addr_queue m1 = am_int_read_addr_queue m" "am_ar m1 = am_ar m" "am_rready m1"
    using assms(2) by (simp_all add: m1_def)
  have upd: "m\<lparr>am_int_write_addr_queue := [], am_int_write_data_queue := [], am_bready := True\<rparr> = m"
    using assms(1) by (cases m) (simp add: write_quiet_def)
  have "m1\<lparr>am_int_read_addr_queue := q, am_ar := c, am_rready := True, am_int_read_resp_queue := x\<rparr>
      = m1\<lparr>am_int_read_resp_queue := x, am_int_read_addr_queue := q, am_ar := c\<rparr>"
    "m1\<lparr>am_int_read_addr_queue := q, am_ar := c, am_rready := True\<rparr> = m1\<lparr>am_int_read_addr_queue := q, am_ar := c\<rparr>" for x
    using f(3) by (cases m1, simp)+
  moreover have "read_more [] [] m1 = m1" by (simp add: read_more_def)
  ultimately have "axil_master_step cfg pm (to_master pr r) m =
      Inr ((read_more [] (if rv then [(ar_rdata r, ar_rresp r)] else []) m1)\<lparr>am_int_read_addr_queue := q, am_ar := c\<rparr>)"
    using assms(1,2) f a(1)
    by (simp add: axil_master_step_def axil_aw_step_def axil_w_step_def axil_b_step_def axil_ar_step_def axil_r_step_def
        write_resp_stopped write_quiet_def to_master_def chan_step_def [of _ _ _ "[]"] chan_take_def upd
        m1_def [symmetric] rv_def) (simp add: read_more_def)
  then show ?thesis using a by (intro exI [of _ q] exI [of _ c]) (simp add: m1_def unpaused_def read_addrs_def)
qed

lemma ram_fetch_ok:
  assumes "ar_size r = length (mm_mem (ar_file r))" "axil_cfg_ok cfg (ar_size r)" "a mod al_bw cfg = 0"
  defines "p \<equiv> a mod ar_size r"
  shows "ram_fetch cfg pr a r = Inr (r\<lparr>ar_file := (ar_file r)\<lparr>mm_pos := p + al_bw cfg\<rparr>,
    ar_rdata := word_at (al_bw cfg) p (mm_mem (ar_file r)), ar_rresp := 0, ar_rvalid := \<not> p_r pr, ar_read := RResp\<rparr>)"
proof -
  have "p + al_bw cfg \<le> ar_size r"
    unfolding p_def using axil_cfg_okD [OF assms(2)] assms(3) by (intro aligned_fits) auto
  then have p: "p \<le> length (mm_mem (ar_file r))" "p + al_bw cfg \<le> length (mm_mem (ar_file r))" using assms(1) by simp_all
  let ?d = "take (al_bw cfg) (drop p (mm_mem (ar_file r)))"
  have "join_octets ?d (rev [0..<al_bw cfg]) 0 = Inr (word_at (al_bw cfg) p (mm_mem (ar_file r)))"
    using join_octets_eq [of "al_bw cfg" ?d 0] p by (simp add: word_at_def)
  then show ?thesis
    unfolding ram_fetch_def p_def [symmetric]
    using p word_at_fits [of "al_bw cfg" p] by (simp add: mm_seek_def mm_read_def min_absorb2)
qed

lemma ram_write_rest:
  assumes "write_quiet m r" "\<not> tr_awvalid i"
  shows "axil_ram_write_step cfg p i r = Inr r"
  using assms by (cases r) (simp add: axil_ram_write_step_def write_quiet_def)

lemma word_pos_aligned: "word_pos bw sz a = (int_div a bw * bw) mod sz"
  by (simp add: word_pos_def)

lemma ram_read_edge:
  fixes pm pr :: axil_pause
  assumes "write_quiet m r" "ram_read_ok cfg r" "am_rready m"
  defines "ar \<equiv> ch_valid (am_ar m) \<and> ar_arready r \<and> \<not> p_ar pr"
    and "rv \<equiv> ar_rvalid r \<and> \<not> p_r pm"
  shows "\<exists>r'. axil_ram_step cfg pr (to_ram pm m) r = Inr r' \<and> write_quiet m r' \<and> ram_read_ok cfg r'
    \<and> mm_mem (ar_file r') = mm_mem (ar_file r)
    \<and> (if rv then [(ar_rdata r, ar_rresp r)] else []) @ held_words (al_bw cfg) r'
        = held_words (al_bw cfg) r @ (if ar then [read_word (al_bw cfg) (mm_mem (ar_file r)) (fst (ch_word (am_ar m)))] else [])
    \<and> (ar \<longrightarrow> \<not> rv \<and> read_phase r = 0 \<and> read_phase r' \<le> al_latency cfg + 3)
    \<and> (rv \<longrightarrow> read_phase r = 2 \<and> read_phase r' = 0)
    \<and> (\<not> ar \<and> \<not> rv \<longrightarrow> read_phase r' \<le> read_phase r
         \<and> (unpaused pm \<and> unpaused pr \<and> ar_read r \<noteq> RAddr \<longrightarrow> read_phase r' < read_phase r))"
proof -
  note ok = assms(2) [unfolded ram_read_ok_def]
  have size: "ar_size r = length (mm_mem (ar_file r))" "axil_cfg_ok cfg (ar_size r)" using ok by blast+
  let ?w = "\<lambda>a. word_at (al_bw cfg) (a mod ar_size r) (mm_mem (ar_file r))"
  let ?fetch = "\<lambda>a r. r\<lparr>ar_file := (ar_file r)\<lparr>mm_pos := a mod ar_size r + al_bw cfg\<rparr>,
    ar_rdata := ?w a, ar_rresp := 0, ar_rvalid := \<not> p_r pr, ar_read := RResp\<rparr>"
  have step: "axil_ram_step cfg pr (to_ram pm m) r = axil_ram_read_step cfg pr (to_ram pm m) r"
    using ram_write_rest [OF assms(1), of "to_ram pm m" cfg pr] assms(1)
    by (simp add: axil_ram_step_def to_ram_def write_quiet_def)
  show ?thesis
  proof (cases "ar_read r")
    case RAddr
    let ?a = "int_div (fst (ch_word (am_ar m))) (al_bw cfg) * al_bw cfg" and ?r = "r\<lparr>ar_arready := False\<rparr>"
    have fetch: "ram_fetch cfg pr ?a ?r = Inr (?fetch ?a ?r)"
      using ram_fetch_ok [of ?r cfg ?a pr] size by simp
    define r' where "r' = (if ar then (if al_latency cfg = 0 then ?fetch ?a ?r else ?r\<lparr>ar_read := RLatency (al_latency cfg) ?a\<rparr>)
      else r\<lparr>ar_arready := True\<rparr>)"
    have "axil_ram_read_step cfg pr (to_ram pm m) r = Inr r'"
      using RAddr fetch by (auto simp: axil_ram_read_step_def to_ram_def ar_def r'_def Let_def)
    moreover have "held_words (al_bw cfg) r' = (if ar then [(?w ?a, 0)] else [])" "held_words (al_bw cfg) r = []"
      using RAddr by (auto simp: r'_def held_words_def)
    moreover have "write_quiet m r'" "ram_read_ok cfg r'"
      using assms(1) ok RAddr by (auto simp: r'_def write_quiet_def ram_read_ok_def)
    moreover have "\<not> rv" using RAddr ok by (auto simp: rv_def)
    ultimately show ?thesis
      using RAddr ok size by (intro exI [of _ r']) (auto simp: step r'_def read_phase_def read_word_def word_pos_aligned)
  next
    case (RLatency n a)
    then have fetch: "ram_fetch cfg pr a r = Inr (?fetch a r)"
      using ram_fetch_ok [of r cfg a pr] size ok by simp
    define r' where "r' = (if n \<le> 1 then ?fetch a r else r\<lparr>ar_read := RLatency (n - 1) a\<rparr>)"
    have "axil_ram_read_step cfg pr (to_ram pm m) r = Inr r'"
      using RLatency fetch by (auto simp: axil_ram_read_step_def r'_def)
    moreover have "held_words (al_bw cfg) r' = held_words (al_bw cfg) r" using RLatency by (auto simp: r'_def held_words_def)
    moreover have "write_quiet m r'" "ram_read_ok cfg r'"
      using assms(1) ok RLatency by (auto simp: r'_def write_quiet_def ram_read_ok_def)
    moreover have "\<not> rv" "\<not> ar" using RLatency ok by (auto simp: rv_def ar_def)
    ultimately show ?thesis
      using RLatency ok by (intro exI [of _ r']) (auto simp: step r'_def read_phase_def)
  next
    case RResp
    define r' where "r' = (if rv then r\<lparr>ar_rvalid := False, ar_arready := True, ar_read := RAddr\<rparr>
      else r\<lparr>ar_rvalid := ar_rvalid r \<or> \<not> p_r pr\<rparr>)"
    have "axil_ram_read_step cfg pr (to_ram pm m) r = Inr r'"
      using RResp assms(3) by (auto simp: axil_ram_read_step_def r'_def to_ram_def rv_def)
    moreover have "(if rv then [(ar_rdata r, ar_rresp r)] else []) @ held_words (al_bw cfg) r' = held_words (al_bw cfg) r"
      using RResp by (auto simp: r'_def held_words_def)
    moreover have "write_quiet m r'" "ram_read_ok cfg r'"
      using assms(1) ok RResp by (auto simp: r'_def write_quiet_def ram_read_ok_def)
    moreover have "\<not> ar" using RResp ok by (auto simp: ar_def)
    ultimately show ?thesis
      using RResp ok by (intro exI [of _ r']) (auto simp: step r'_def read_phase_def rv_def unpaused_def)
  qed
qed

lemma read_more_more: "read_more [] vs (read_more [] ws m) = read_more [] (ws @ vs) m"
  by (cases m) (simp add: read_more_def)

lemma read_more_rest [simp]:
  "write_quiet (read_more cs ws m) r = write_quiet m r"
  "write_quiet (read_resp_logic bw m) r = write_quiet m r"
  "am_write_resp_queue (read_more cs ws m) = am_write_resp_queue m"
  "am_read_command_queue (read_more cs ws m) = am_read_command_queue m"
  "am_rready (read_more cs ws m) = am_rready m"
  "am_ar (read_more cs ws m) = am_ar m"
  "am_int_read_addr_queue (read_more cs ws m) = am_int_read_addr_queue m"
  by (simp_all add: write_quiet_def) (simp_all add: read_more_def)

text \<open>What is left in the queue when the loop stops is waited for by no command.\<close>

lemma read_resp_drains:
  assumes "read_done results (read_resp_logic bw (read_more [] ws m))"
  shows "am_int_read_resp_queue (read_resp_logic bw m) = []"
proof -
  let ?m = "read_resp_logic bw m"
  have "read_stopped ?m" by (rule read_resp_stops)
  moreover have "read_stopped (read_more [] ws ?m)" if "am_read_resp ?m = None"
    using that calculation by (simp add: read_stopped_def)
  then have "am_int_read_resp_queue ?m = []" if "am_read_resp ?m = None"
    using that assms by (simp add: read_resume [of bw "[]" ws m] read_stopped_logic read_done_def)
  ultimately show ?thesis by (cases "am_read_resp ?m") (simp_all add: read_stopped_def)
qed

lemma read_edge:
  assumes "read_inv cfg mem answers results (m, r)"
  shows "\<exists>m' r'. axil_step cfg (Edge pm pr) (m, r) = Inr (m', r') \<and> read_inv cfg mem answers results (m', r')
    \<and> read_work cfg (m', r') \<le> read_work cfg (m, r)
    \<and> (unpaused pm \<and> unpaused pr \<longrightarrow> read_work cfg (m', r') \<le> read_work cfg (m, r) - 1)"
proof -
  define bw where "bw = al_bw cfg"
  define ar rv where "ar \<longleftrightarrow> ch_valid (am_ar m) \<and> ar_arready r \<and> \<not> p_ar pr" and "rv \<longleftrightarrow> ar_rvalid r \<and> \<not> p_r pm"
  define taken where "taken = (if rv then [(ar_rdata r, ar_rresp r)] else [])"
  note inv = assms [unfolded read_inv_def prod.case]
  note d = bw_def [symmetric] ar_def [symmetric] rv_def [symmetric] taken_def [symmetric]
  define m1 where "m1 = read_resp_logic bw m"
  obtain q c where m': "axil_master_step cfg pm (to_master pr r) m = Inr (read_addrs q c 0 (read_more [] taken m1))"
      "chan_ok (addr_fits cfg) q c"
      "pending_reads m = (if ar then [ch_word (am_ar m)] else []) @ chan_words c @ q"
      "waits q c \<le> (if ar then 1 else waits (am_int_read_addr_queue m) (am_ar m))" "unpaused pm \<longrightarrow> waits q c = 0"
    using master_read_edge [where m = m and r = r and cfg = cfg and pm = pm and pr = pr] inv
    unfolding d m1_def by blast
  define m' where "m' = read_addrs q c 0 (read_more [] taken m1)"
  obtain r' where r': "axil_ram_step cfg pr (to_ram pm m) r = Inr r'" "write_quiet m r'" "ram_read_ok cfg r'"
      "mm_mem (ar_file r') = mm_mem (ar_file r)"
      "taken @ held_words bw r' = held_words bw r
         @ (if ar then [read_word bw (mm_mem (ar_file r)) (fst (ch_word (am_ar m)))] else [])"
      "ar \<longrightarrow> \<not> rv \<and> read_phase r = 0 \<and> read_phase r' \<le> al_latency cfg + 3" "rv \<longrightarrow> read_phase r = 2 \<and> read_phase r' = 0"
      "\<not> ar \<and> \<not> rv \<longrightarrow> read_phase r' \<le> read_phase r
         \<and> (unpaused pm \<and> unpaused pr \<and> ar_read r \<noteq> RAddr \<longrightarrow> read_phase r' < read_phase r)"
    using ram_read_edge [where m = m and r = r and cfg = cfg and pm = pm and pr = pr] inv unfolding d by blast
  have p: "pending_reads m' = chan_words c @ q" by (simp add: m'_def pending_reads_def)
  have "taken @ due_words bw (m', r') = due_words bw (m, r)"
    using r'(4,5) m'(3) p by (cases ar) (simp_all add: due_words_def)
  then have "read_resp_logic bw (read_more [] (due_words bw (m', r')) m')
      = read_addrs q c 0 (read_resp_logic bw (read_more [] (due_words bw (m, r)) m))"
    by (simp add: m'_def read_addrs_updates read_more_more read_resp_addrs m1_def read_resume [of bw "[]" _ m])
  moreover have q1: "am_int_read_resp_queue m1 = []"
    unfolding m1_def using read_resp_drains inv bw_def by blast
  moreover have "read_stopped m1" by (simp add: m1_def read_resp_stops)
  moreover have "read_stopped m' = read_stopped m1" if "taken = []"
    using that by (simp add: m'_def read_more_def)
  moreover have "write_quiet m' r'" using inv r'(2) by (simp add: m'_def m1_def)
  ultimately have "read_inv cfg mem answers results (m', r')"
    using inv m' r' by (simp add: read_inv_def bw_def [symmetric] m'_def read_done_def m1_def)
  moreover have "read_work cfg (m', r') \<le> read_work cfg (m, r)
      \<and> (unpaused pm \<and> unpaused pr \<longrightarrow> read_work cfg (m', r') \<le> read_work cfg (m, r) - 1)"
  proof -
    define A where "A = length (chan_words c @ q)"
    have A: "length (pending_reads m) = (if ar then 1 else 0) + A" using m'(3) by (simp add: A_def)
    have w': "read_work cfg (m', r') = (al_latency cfg + 5) * A + read_phase r' + waits q c + (if rv then 1 else 0)"
      using q1 by (simp add: read_work_def p) (simp add: m'_def taken_def A_def)
    note w = m'(4,5) waits_le [of q c]
    consider (ar) ar "\<not> rv" | (rv) "\<not> ar" rv | (none) "\<not> ar" "\<not> rv" using r'(6) by blast
    then show ?thesis
    proof cases
      case ar
      then show ?thesis using w' w A r'(6) by (simp add: read_work_def add_mult_distrib)
    next
      case rv
      then show ?thesis using w' w A r'(7) by (simp add: read_work_def)
    next
      case none
      then have h: "read_phase r' \<le> read_phase r" "A = length (pending_reads m)"
          "unpaused pm \<and> unpaused pr \<and> ar_read r \<noteq> RAddr \<longrightarrow> read_phase r' < read_phase r"
          "waits q c \<le> waits (am_int_read_addr_queue m) (am_ar m)"
        using r'(8) A w by simp_all
      have addr: "1 \<le> waits (am_int_read_addr_queue m) (am_ar m)" if "unpaused pr" "ar_read r = RAddr" "A \<noteq> 0"
        using that none(1) h inv by (auto simp: ram_read_ok_def ar_def unpaused_def waits_def pending_reads_def)
      have rest: "read_phase r = 0" if "ar_read r = RAddr" using that by (simp add: read_phase_def)
      have work: "read_work cfg (m, r) = (al_latency cfg + 5) * A + read_phase r
          + waits (am_int_read_addr_queue m) (am_ar m) + length (am_int_read_resp_queue m)"
        using h(2) by (simp add: read_work_def)
      have "read_work cfg (m', r') \<le> read_work cfg (m, r) - 1" if u: "unpaused pm" "unpaused pr"
      proof -
        have z: "waits q c = 0" using w(2) u by simp
        consider "ar_read r = RAddr" "A \<noteq> 0" | (rest) "ar_read r = RAddr" "A = 0" | "ar_read r \<noteq> RAddr" by blast
        then show ?thesis
        proof cases
          case rest
          then show ?thesis using work z h(1) \<open>ar_read r = RAddr \<Longrightarrow> read_phase r = 0\<close> w' none by simp
        qed (use work z h u addr w' none in simp)+
      qed
      moreover have "read_work cfg (m', r') \<le> read_work cfg (m, r)" using work h w' none by simp
      ultimately show ?thesis by blast
    qed
  qed
  ultimately show ?thesis using m'(1) r'(1) by (intro exI [of _ m'] exI [of _ r']) (simp add: m'_def)
qed

section \<open>Commands and runs that read\<close>

text \<open>The words of the cycles of one command, given to a loop that waits for nothing.\<close>

lemma read_command_words:
  assumes "axil_cfg_ok cfg (length mem)" "command_fits cfg addr len prot" "0 < len + addr mod al_bw cfg"
  defines "bw \<equiv> al_bw cfg" and "n \<equiv> command_cycles (al_bw cfg) addr len"
  defines "as \<equiv> (int_div addr bw * bw + addr mod bw, prot) # map (\<lambda>k. (int_div addr bw * bw + k * bw, prot)) [1..<n]"
  assumes "read_done results m"
  shows "list_all (addr_fits cfg) as" "length as = n"
    "read_done (results @ [(addr, load addr len mem, prot, 0)])
       (read_resp_logic bw (read_more [(addr, len, n, prot)] (map (read_word bw mem \<circ> fst) as) (read_addrs q c 1 m)))"
proof -
  note cfg = axil_cfg_okD [OF assms(1), folded bw_def]
  let ?w = "addr div bw * bw"
  have fit: "addr + len < 2 ^ al_addr_bits cfg" "fits (Some 3) prot" using assms(2) by (simp_all add: command_fits_def)
  then have small: "addr + len < 2 ^ 52" using cfg(5) by (metis less_le_trans)
  have w: "int_div addr bw = addr div bw" using small by (intro int_div_exact) simp
  note l = last_cycle [OF cfg(1) small cfg(2) assms(3) [folded bw_def], folded n_def [folded bw_def]]
  have k: "?w + k * bw < addr + len" if "0 < k" "k < n" for k
  proof -
    have "k * bw \<le> (n - 1) * bw" using that by (intro mult_right_mono) auto
    then have "?w + k * bw < ?w + (addr mod bw + len)" using l(2,3) by linarith
    also have "\<dots> = addr + len" by simp
    finally show ?thesis .
  qed
  show "length as = n" using l(1) by (simp add: as_def)
  have "addr_fits cfg (?w + k * bw, prot)" if "0 < k" "k < n" for k
    using less_trans [OF k [OF that] fit(1)] fit(2) by (simp add: addr_fits_def)
  moreover have "addr_fits cfg (?w + addr mod bw, prot)" using fit by (simp add: addr_fits_def)
  ultimately show "list_all (addr_fits cfg) as" by (auto simp: as_def w list_all_iff)
  have "word_pos bw (length mem) (?w + k * bw) = (?w + k * bw) mod length mem" if "0 < k" "k < n" for k
  proof -
    have "int_div (?w + k * bw) bw = (?w + k * bw) div bw" using k [OF that] small by (intro int_div_exact) simp
    moreover have "bw dvd ?w + k * bw" by (intro dvd_add dvd_triv_right)
    ultimately show ?thesis by (simp only: word_pos_def dvd_div_mult_self)
  qed
  moreover have "word_pos bw (length mem) addr = ?w mod length mem" by (simp only: word_pos_def w)
  moreover have "[0..<n] = 0 # [1..<n]" using l(1) by (simp add: upt_conv_Cons)
  ultimately have words: "map (read_word bw mem \<circ> fst) as
      = map (\<lambda>j. (word_at bw ((?w + j * bw) mod length mem) mem, 0)) [0..<n]"
    by (simp add: as_def w read_word_def)
  define g where "g = read_more [(addr, len, n, prot)] (map (read_word bw mem \<circ> fst) as) (read_addrs q c 1 m)"
  define f where "f = \<lparr>rf_command = (addr, len, prot), rf_cycles = n, rf_k = 0, rf_data = [], rf_resp = 0\<rparr>"
  have g: "am_read_resp g = None" "am_int_read_resp_command_queue g = [(addr, len, n, prot)]"
      "am_int_read_resp_queue g = map (read_word bw mem \<circ> fst) as" "am_in_flight g = 1" "am_read_data_queue g = results"
    using assms(7) by (simp_all add: g_def read_done_def)
  define g1 where "g1 = g\<lparr>am_int_read_resp_command_queue := [], am_read_resp := Some f\<rparr>"
  define g2 where "g2 = g1\<lparr>am_int_read_resp_queue := [],
    am_read_data_queue := am_read_data_queue g1 @ [(addr, load addr len mem, prot, 0)],
    am_in_flight := am_in_flight g1 - 1, am_read_resp := None\<rparr>"
  have "read_resp_logic bw g = read_resp_logic bw g1"
    using read_step_start [OF g(1,2)] by (simp add: g1_def f_def)
  also have "\<dots> = read_resp_logic bw g2"
    unfolding g2_def
    by (rule read_words [where s = "addr mod bw" and w = ?w and n = n and f = f and k = 0 and off = 0, OF cfg(4,3,1) refl refl _ l(3,4)])
       (use l(1,2) g(3) words in \<open>simp_all add: g1_def f_def load_def cycle_start_def\<close>)
  also have "\<dots> = g2" by (intro read_stopped_logic) (simp add: read_stopped_def g2_def g1_def)
  finally show "read_done (results @ [(addr, load addr len mem, prot, 0)])
       (read_resp_logic bw (read_more [(addr, len, n, prot)] (map (read_word bw mem \<circ> fst) as) (read_addrs q c 1 m)))"
    using g by (simp add: g_def [symmetric] read_done_def g2_def g1_def)
qed

lemma read_command_inv:
  assumes "read_inv cfg mem answers results (m, r)" "command_fits cfg addr len prot" "0 < len + addr mod al_bw cfg"
  defines "n \<equiv> command_cycles (al_bw cfg) addr len"
  shows "\<exists>m'. axil_step cfg (Read addr len prot) (m, r) = Inr (m', r)
    \<and> read_inv cfg mem answers (results @ [(addr, load addr len mem, prot, 0)]) (m', r)
    \<and> read_work cfg (m', r) \<le> read_work cfg (m, r) + ((al_latency cfg + 5) * n + 1)"
proof -
  define bw where "bw = al_bw cfg"
  note inv = assms(1) [unfolded read_inv_def prod.case, folded bw_def]
  have mem: "mm_mem (ar_file r) = mem" "ar_size r = length mem" and cfg: "axil_cfg_ok cfg (length mem)"
    using inv unfolding ram_read_ok_def by auto
  define as where "as = (int_div addr bw * bw + addr mod bw, prot) # map (\<lambda>k. (int_div addr bw * bw + k * bw, prot)) [1..<n]"
  define m1 where "m1 = read_addrs (am_int_read_addr_queue m @ as) (am_ar m) 1 (read_more [(addr, len, n, prot)] [] m)"
  define m' where "m' = read_resp_logic bw m1"
  let ?F = "read_resp_logic bw (read_more [] (due_words bw (m, r)) m)"
  have step: "axil_step cfg (Read addr len prot) (m, r) = Inr (m', r)"
    using inv by (cases m) (simp add: axil_read_logic_def axil_init_read_def read_command_def Let_def
      bw_def [symmetric] m'_def m1_def read_addrs_def read_more_def as_def n_def)
  have F: "read_done results ?F" using inv by blast
  note c = read_command_words [OF cfg assms(2,3) F, folded n_def bw_def, folded as_def]
  let ?W = "map (read_word bw mem \<circ> fst) as"
  have p: "pending_reads m' = pending_reads m @ as" by (simp add: m'_def m1_def pending_reads_def)
  then have "due_words bw (m', r) = due_words bw (m, r) @ ?W" by (simp add: due_words_def mem)
  then have due: "read_resp_logic bw (read_more [] (due_words bw (m', r)) m')
      = read_resp_logic bw (read_more [] (due_words bw (m, r) @ ?W) m1)"
    by (simp only: m'_def read_resume [of bw "[]" _ m1, symmetric])
  have "read_more [] (due_words bw (m, r) @ ?W) m1
      = read_more [(addr, len, n, prot)] ?W (read_addrs (am_int_read_addr_queue m @ as) (am_ar m) 1 (read_more [] (due_words bw (m, r)) m))"
    by (cases m) (simp add: m1_def read_more_def read_addrs_def)
  also have "read_resp_logic bw \<dots> = read_resp_logic bw (read_more [(addr, len, n, prot)] ?W
      (read_addrs (am_int_read_addr_queue m @ as) (am_ar m) 1 ?F))"
    by (subst read_resume) (simp only: read_resp_addrs)
  finally have answer: "read_done (results @ [(addr, load addr len mem, prot, 0)])
      (read_resp_logic bw (read_more [] (due_words bw (m, r) @ ?W) m1))"
    by (simp only: c(3))
  then have "read_done (results @ [(addr, load addr len mem, prot, 0)])
      (read_resp_logic bw (read_more [] (due_words bw (m', r)) m'))" by (simp only: due)
  moreover have "chan_ok (addr_fits cfg) (am_int_read_addr_queue m') (am_ar m')"
    using inv c(1) by (simp add: chan_ok_def m'_def m1_def)
  ultimately have "read_inv cfg mem answers (results @ [(addr, load addr len mem, prot, 0)]) (m', r)"
    using inv by (simp add: read_inv_def bw_def [symmetric]) (simp add: m'_def m1_def read_resp_stops)
  moreover have "am_int_read_resp_queue m' = []"
    unfolding m'_def by (rule read_resp_drains [OF answer])
  then have "read_work cfg (m', r) \<le> read_work cfg (m, r) + ((al_latency cfg + 5) * n + 1)"
    using waits_le [of "am_int_read_addr_queue m'" "am_ar m'"] p c(2)
    by (simp add: read_work_def add_mult_distrib2)
  ultimately show ?thesis using step by blast
qed
text \<open>A test that only reads.\<close>

fun read_event :: "axil_cfg \<Rightarrow> axil_event \<Rightarrow> bool" where
  "read_event cfg (Read addr len prot) = (command_fits cfg addr len prot \<and> 0 < len + addr mod al_bw cfg)"
| "read_event cfg (Write addr data prot) = False"
| "read_event cfg (Edge pm pr) = True"

fun read_results :: "bytes \<Rightarrow> axil_event list \<Rightarrow> (nat \<times> bytes \<times> int \<times> int) list" where
  "read_results mem [] = []"
| "read_results mem (Read addr len prot # es) = (addr, load addr len mem, prot, RESP_OKAY) # read_results mem es"
| "read_results mem (e # es) = read_results mem es"

fun read_time :: "axil_cfg \<Rightarrow> axil_event list \<Rightarrow> nat" where
  \<comment> \<open>edges without a pause that are enough for the reads of a test\<close>
  "read_time cfg [] = 0"
| "read_time cfg (Read addr len prot # es) =
     (al_latency cfg + 5) * command_cycles (al_bw cfg) addr len + 1 + read_time cfg es"
| "read_time cfg (e # es) = read_time cfg es"

lemma read_run:
  assumes "read_inv cfg mem answers results x" "list_all (read_event cfg) es"
  shows "\<exists>x'. axil_run cfg es x = Inr x' \<and> read_inv cfg mem answers (results @ read_results mem es) x'
    \<and> read_work cfg x' \<le> read_work cfg x + read_time cfg es"
  using assms
proof (induction es arbitrary: results x)
  case (Cons e es)
  obtain m r where x: "x = (m, r)" by (cases x)
  show ?case
  proof (cases e)
    case (Read addr len prot)
    have "command_fits cfg addr len prot" "0 < len + addr mod al_bw cfg" using Cons.prems(2) Read by simp_all
    from read_command_inv [OF Cons.prems(1) [unfolded x] this] obtain m' where s:
      "axil_step cfg e (m, r) = Inr (m', r)"
      "read_inv cfg mem answers (results @ [(addr, load addr len mem, prot, 0)]) (m', r)"
      "read_work cfg (m', r) \<le> read_work cfg (m, r)
         + ((al_latency cfg + 5) * command_cycles (al_bw cfg) addr len + 1)"
      unfolding Read by blast
    show ?thesis using Cons.IH [OF s(2)] Cons.prems(2) s(1,3) x Read by (fastforce simp: RESP_OKAY_def)
  next
    case (Edge pm pr)
    from read_edge [OF Cons.prems(1) [unfolded x], of pm pr] obtain m' r' where s:
      "axil_step cfg e (m, r) = Inr (m', r')" "read_inv cfg mem answers results (m', r')"
      "read_work cfg (m', r') \<le> read_work cfg (m, r)"
      unfolding Edge by blast
    show ?thesis using Cons.IH [OF s(2)] Cons.prems(2) s(1,3) x Edge by fastforce
  qed (use Cons.prems in simp)
qed simp

lemma calm_read_run:
  assumes "read_inv cfg mem answers results x" "list_all calm_edge es"
  shows "\<exists>x'. axil_run cfg es x = Inr x' \<and> read_inv cfg mem answers results x'
    \<and> read_work cfg x' \<le> read_work cfg x - length es"
  using assms
proof (induction es arbitrary: x)
  case (Cons e es)
  obtain m r where x: "x = (m, r)" by (cases x)
  obtain pm pr where e: "e = Edge pm pr" "unpaused pm" "unpaused pr" using Cons.prems(2) by (cases e) auto
  from read_edge [OF Cons.prems(1) [unfolded x], of pm pr] obtain m' r' where s:
    "axil_step cfg e (m, r) = Inr (m', r')" "read_inv cfg mem answers results (m', r')"
    "read_work cfg (m', r') \<le> read_work cfg (m, r) - 1"
    using e by blast
  show ?case using Cons.IH [OF s(2)] Cons.prems(2) s(1,3) x by fastforce
qed simp

section \<open>The two sides at rest\<close>

definition axil_still ::
    "axil_cfg \<Rightarrow> bytes \<Rightarrow> (nat \<times> nat \<times> int \<times> int) list \<Rightarrow> (nat \<times> bytes \<times> int \<times> int) list \<Rightarrow>
     axil_master \<times> axil_ram \<Rightarrow> bool" where
  "axil_still cfg mem answers results x \<longleftrightarrow> axil_rest cfg mem answers x \<and> am_read_data_queue (fst x) = results"

lemma still_read_inv:
  assumes "axil_still cfg mem answers results (m, r)"
  shows "read_inv cfg mem answers results (m, r) \<and> read_work cfg (m, r) = 0"
proof -
  have rest: "axil_rest cfg mem answers (m, r)" "am_read_data_queue m = results"
    using assms by (simp_all add: axil_still_def)
  note d = axil_restD [OF rest(1)]
  note inv = conjunct1 [OF rest(1) [unfolded axil_rest_def], unfolded write_inv_def prod.case]
  have q: "pending_reads m = []" "read_phase r = 0" "held_words (al_bw cfg) r = []"
    using inv by (simp_all add: pending_reads_def chan_words_def read_phase_def held_words_def read_quiet_def)
  have resp: "am_write_resp m = None" "am_int_write_resp_command_queue m = []"
    using d(7) by (auto simp: pending_writes_def split: option.splits)
  have "write_quiet m r"
    using inv d resp by (auto simp: write_quiet_def ram_write_ok_def pending_addrs_def pending_data_def chan_words_def
        chan_ok_def split: if_splits)
  moreover have "ram_read_ok cfg r" using inv by (auto simp: ram_read_ok_def ram_write_ok_def read_quiet_def)
  moreover have "read_stopped m" using inv by (simp add: read_quiet_def read_stopped_def)
  moreover from this have "read_done results (read_resp_logic (al_bw cfg) m)"
    using inv d(9) rest(2) by (simp add: read_stopped_logic read_done_def read_quiet_def)
  moreover have "read_more [] [] m = m" by (simp add: read_more_def)
  ultimately show ?thesis
    using inv d q by (simp add: read_inv_def due_words_def read_quiet_def chan_ok_def read_work_def waits_def pending_reads_def)
qed

lemma read_inv_still:
  assumes "read_inv cfg mem answers results (m, r)" "read_work cfg (m, r) = 0"
  shows "axil_still cfg mem answers results (m, r)"
proof -
  note inv = assms(1) [unfolded read_inv_def prod.case]
  have q: "pending_reads m = []" "read_phase r = 0" "am_int_read_resp_queue m = []"
    using assms(2) by (simp_all add: read_work_def)
  then have ra: "ar_read r = RAddr" by (auto simp: read_phase_def split: ram_read_pc.splits if_splits)
  then have "due_words (al_bw cfg) (m, r) = []" using q by (simp add: due_words_def held_words_def)
  moreover have "read_more [] [] m = m" by (simp add: read_more_def)
  ultimately have d: "read_done results m" using inv q(3) read_stopped_logic [of m "al_bw cfg"] by simp
  have "read_quiet m r"
    using inv d q ra by (auto simp: read_quiet_def read_done_def ram_read_ok_def pending_reads_def chan_words_def chan_ok_def
        split: if_splits)
  moreover have "axil_cfg_ok cfg (length mem)" using inv unfolding ram_read_ok_def by metis
  ultimately show ?thesis
    using inv d ra
    by (simp add: axil_still_def axil_rest_def write_inv_def write_work_def write_quiet_def ram_write_ok_def ram_read_ok_def
        held_def chan_ok_def pending_data_def pending_addrs_def chan_words_def future_def responses_ok_def all_okay_def
        pending_writes_def drained_def write_results_def answers_due_def write_phase_def waits_def read_done_def)
qed

lemma read_phase_run:
  assumes "axil_still cfg mem answers results x" "list_all (read_event cfg) es"
    and "list_all calm_edge calm" "read_time cfg es \<le> length calm"
  shows "\<exists>x'. axil_run cfg (es @ calm) x = Inr x' \<and> axil_still cfg mem answers (results @ read_results mem es) x'"
proof -
  obtain m r where x: "x = (m, r)" by (cases x)
  note s = still_read_inv [OF assms(1) [unfolded x], folded x]
  obtain x1 where 1: "axil_run cfg es x = Inr x1" "read_inv cfg mem answers (results @ read_results mem es) x1"
      "read_work cfg x1 \<le> read_time cfg es"
    using read_run [OF _ assms(2), of mem answers results x] s by auto
  obtain x2 where 2: "axil_run cfg calm x1 = Inr x2" "read_inv cfg mem answers (results @ read_results mem es) x2"
      "read_work cfg x2 \<le> read_work cfg x1 - length calm"
    using calm_read_run [OF 1(2) assms(3)] by blast
  obtain m2 r2 where x2: "x2 = (m2, r2)" by (cases x2)
  have "read_work cfg x2 = 0" using 1(3) 2(3) assms(4) by simp
  then show ?thesis
    using 1(1) 2(1) read_inv_still [OF 2(2) [unfolded x2]] x2 by (simp add: axil_run_append)
qed

section \<open>The memory that a test sees\<close>

text \<open>
  The specification: commands act on the memory at once and in their order, a read gives the octets that
  are there, and every response is \<open>RESP_OKAY\<close>.
\<close>

fun axil_spec ::
    "axil_event list \<Rightarrow> bytes \<times> (nat \<times> nat \<times> int \<times> int) list \<times> (nat \<times> bytes \<times> int \<times> int) list \<Rightarrow>
     bytes \<times> (nat \<times> nat \<times> int \<times> int) list \<times> (nat \<times> bytes \<times> int \<times> int) list" where
  "axil_spec [] s = s"
| "axil_spec (Write addr data prot # es) (mem, ws, rs) =
     axil_spec es (store addr data mem, ws @ [(addr, length data, prot, RESP_OKAY)], rs)"
| "axil_spec (Read addr len prot # es) (mem, ws, rs) =
     axil_spec es (mem, ws, rs @ [(addr, load addr len mem, prot, RESP_OKAY)])"
| "axil_spec (Edge pm pr # es) s = axil_spec es s"

text \<open>
  A phase of a test: writes, or reads, with any pauses in between, and then enough edges without a pause
  for all of them.
\<close>

definition axil_phase :: "axil_cfg \<Rightarrow> axil_event list \<times> axil_event list \<Rightarrow> bool" where
  "axil_phase cfg ph = (case ph of (es, calm) \<Rightarrow> list_all calm_edge calm
     \<and> (list_all (write_event cfg) es \<and> write_time cfg es \<le> length calm
        \<or> list_all (read_event cfg) es \<and> read_time cfg es \<le> length calm))"

lemma axil_spec_append: "axil_spec (es @ es') s = axil_spec es' (axil_spec es s)"
  by (induction es s rule: axil_spec.induct) simp_all

lemma axil_spec_writes:
  "list_all (write_event cfg) es \<Longrightarrow> axil_spec es (mem, ws, rs) = (stored es mem, ws @ write_answers es, rs)"
proof (induction es arbitrary: mem ws)
  case (Cons e es)
  then show ?case by (cases e) simp_all
qed simp

lemma axil_spec_reads:
  "list_all (read_event cfg) es \<Longrightarrow> axil_spec es (mem, ws, rs) = (mem, ws, rs @ read_results mem es)"
proof (induction es arbitrary: rs)
  case (Cons e es)
  then show ?case by (cases e) simp_all
qed simp

lemma phase_run:
  assumes "axil_still cfg mem ws rs x" "axil_phase cfg (es, calm)" "axil_spec es (mem, ws, rs) = (mem', ws', rs')"
  shows "\<exists>x'. axil_run cfg (es @ calm) x = Inr x' \<and> axil_still cfg mem' ws' rs' x'"
proof -
  have calm: "list_all calm_edge calm" using assms(2) by (simp add: axil_phase_def)
  consider (writes) "list_all (write_event cfg) es" "write_time cfg es \<le> length calm"
    | (reads) "list_all (read_event cfg) es" "read_time cfg es \<le> length calm"
    using assms(2) by (auto simp: axil_phase_def)
  then show ?thesis
  proof cases
    case writes
    then show ?thesis using write_phase_run [of cfg mem ws x es calm] axil_spec_writes [OF writes(1), of mem ws rs] assms(1,3) calm
      by (fastforce simp: axil_still_def)
  next
    case reads
    then show ?thesis using read_phase_run [OF assms(1) reads(1) calm reads(2)] axil_spec_reads [OF reads(1), of mem ws rs] assms(3)
      by simp
  qed
qed

lemma phases_run:
  assumes "axil_still cfg mem ws rs x" "list_all (axil_phase cfg) phases"
    and "axil_spec (concat (map fst phases)) (mem, ws, rs) = (mem', ws', rs')"
  shows "\<exists>x'. axil_run cfg (concat (map (\<lambda>(es, calm). es @ calm) phases)) x = Inr x' \<and> axil_still cfg mem' ws' rs' x'"
  using assms
proof (induction phases arbitrary: mem ws rs x)
  case (Cons ph phases)
  obtain es calm where ph: "ph = (es, calm)" by (cases ph)
  obtain mem1 ws1 rs1 where s: "axil_spec es (mem, ws, rs) = (mem1, ws1, rs1)" by (cases "axil_spec es (mem, ws, rs)") auto
  have "axil_phase cfg (es, calm)" using Cons.prems(2) ph by simp
  from phase_run [OF Cons.prems(1) this s] obtain x1 where
    "axil_run cfg (es @ calm) x = Inr x1" "axil_still cfg mem1 ws1 rs1 x1" by blast
  then show ?case
    using Cons.IH [of mem1 ws1 rs1 x1] Cons.prems(2,3) s
    by (simp add: ph axil_spec_append axil_run_append [of cfg "es @ calm"] del: append_assoc)
qed simp

lemma still0:
  assumes "axil_cfg_ok cfg (length mem)"
  shows "axil_still cfg mem [] [] (axil_master0, (axil_ram0 (length mem))\<lparr>ar_file := \<lparr>mm_mem = mem, mm_pos = pos\<rparr>\<rparr>)"
  using axil_rest0 [OF assms] by (simp add: axil_still_def axil_master0_def)

text \<open>
C13:
  The master and the memory implement an octet-addressed memory.  From any contents of a memory of whole
  words, for any word size of the code, up to 52 address bits and any latency, a test runs without an error when it comes in phases, each all writes or all reads,
  with any pauses of both ends between the commands and then enough edges without a pause to finish.  The
  commands may have any address and length within the address space, except that a read has at least one
  octet or starts inside a word: for a read of nothing at the start of a word the code issues an address
  whose response the next read takes.  At the end the master is idle, the memory holds what storing the
  octets of the writes in order gives (modulo its size), and both queues hold one result per command, in
  order, with the octets that were in the memory when they were read.
\<close>

theorem axil_memory_refines:
  assumes "axil_cfg_ok cfg (length mem)" "list_all (axil_phase cfg) phases"
    and "axil_spec (concat (map fst phases)) (mem, [], []) = (mem', ws, rs)"
  shows "\<exists>m r. axil_run cfg (concat (map (\<lambda>(es, calm). es @ calm) phases))
      (axil_master0, (axil_ram0 (length mem))\<lparr>ar_file := \<lparr>mm_mem = mem, mm_pos = pos\<rparr>\<rparr>) = Inr (m, r)
    \<and> axil_master_idle m \<and> mm_mem (ar_file r) = mem' \<and> am_write_resp_queue m = ws \<and> am_read_data_queue m = rs"
  using phases_run [OF still0 [OF assms(1), of pos] assms(2,3)]
  by (auto simp: axil_still_def dest: axil_restD(1) axil_restD(2) axil_restD(3))

lemma store_other:
  "\<forall>i < length bs. (addr + i) mod length mem \<noteq> q \<Longrightarrow> store addr bs mem ! q = mem ! q"
proof (induction addr bs mem rule: store.induct)
  case (2 addr b bs mem)
  have "\<forall>i < length bs. (addr + 1 + i) mod length mem \<noteq> q"
  proof (intro allI impI)
    fix i assume "i < length bs"
    then show "(addr + 1 + i) mod length mem \<noteq> q" using 2(2) by (auto dest: spec [of _ "Suc i"])
  qed
  moreover have "addr mod length mem \<noteq> q" using 2(2) by (auto dest: spec [of _ 0])
  ultimately show ?case using 2(1) by simp
qed simp

lemma axil_spec_length:
  "axil_spec es (mem, ws, rs) = (mem', ws', rs') \<Longrightarrow> length mem' = length mem"
proof (induction es arbitrary: mem ws rs)
  case (Cons e es)
  then show ?case by (cases e) fastforce+
qed simp

lemma load_store:
  "length bs \<le> length mem \<Longrightarrow> load addr (length bs) (store addr bs mem) = bs"
proof (induction addr bs mem rule: store.induct)
  case (2 addr b bs mem)
  let ?m = "mem[addr mod length mem := b]"
  have apart: "(addr + 1 + i) mod length mem \<noteq> addr mod length mem" if "i < length bs" for i
  proof
    assume "(addr + 1 + i) mod length mem = addr mod length mem"
    then have "length mem dvd i + 1" by (simp add: mod_eq_dvd_iff_nat)
    then show False using that 2(2) by (auto dest: dvd_imp_le)
  qed
  have "addr mod length mem < length mem" using 2(2) by (intro mod_less_divisor) auto
  then have "store (addr + 1) bs ?m ! (addr mod length mem) = b"
    using store_other [of bs "addr + 1" ?m "addr mod length mem"] apart by simp
  moreover have "load addr (length (b # bs)) M = M ! (addr mod length M) # load (addr + 1) (length bs) M" for M
    using load_append [of addr 1 "length bs" M] by (simp add: load_def)
  ultimately show ?case using 2 by simp
qed (simp add: load_def)

definition axil_calm :: "nat \<Rightarrow> axil_event list" where
  \<comment> \<open>edges without a pause\<close>
  "axil_calm n = (let p = \<lparr>p_aw = False, p_w = False, p_b = False, p_ar = False, p_r = False\<rparr> in replicate n (Edge p p))"

lemma axil_calm: "list_all calm_edge (axil_calm n)" "length (axil_calm n) = n"
  by (simp_all add: axil_calm_def list_all_iff unpaused_def Let_def)

text \<open>
What is written is read back.  After any phases, octets written at an address, also across words and over the
  end of the memory, are what a read of the same length at that address returns, if they fit into the memory.
\<close>

theorem axil_read_back:
  assumes "axil_cfg_ok cfg (length mem)" "list_all (axil_phase cfg) phases"
    and "command_fits cfg addr (length data) prot" "data \<noteq> []" "length data \<le> length mem" "fits (Some 3) prot'"
    and "write_time cfg [Write addr data prot] \<le> n1" "read_time cfg [Read addr (length data) prot'] \<le> n2"
  shows "\<exists>m r. axil_run cfg (concat (map (\<lambda>(es, calm). es @ calm) phases)
        @ Write addr data prot # axil_calm n1 @ Read addr (length data) prot' # axil_calm n2)
      (axil_master0, (axil_ram0 (length mem))\<lparr>ar_file := \<lparr>mm_mem = mem, mm_pos = pos\<rparr>\<rparr>) = Inr (m, r)
    \<and> last (am_read_data_queue m) = (addr, data, prot', RESP_OKAY)"
proof -
  let ?phases = "phases @ [([Write addr data prot], axil_calm n1), ([Read addr (length data) prot'], axil_calm n2)]"
  obtain mem' ws rs where s: "axil_spec (concat (map fst phases)) (mem, [], []) = (mem', ws, rs)"
    by (cases "axil_spec (concat (map fst phases)) (mem, [], [])") auto
  have "length data \<le> length mem'" using assms(5) axil_spec_length [OF s] by simp
  then have spec: "axil_spec (concat (map fst ?phases)) (mem, [], []) =
      (store addr data mem', ws @ [(addr, length data, prot, RESP_OKAY)], rs @ [(addr, data, prot', RESP_OKAY)])"
    by (simp add: axil_spec_append s load_store)
  have "list_all (axil_phase cfg) ?phases"
    using assms(2-4,6-8) by (simp add: axil_phase_def axil_calm command_fits_def)
  from phases_run [OF still0 [OF assms(1), of pos] this spec] show ?thesis
    by (auto simp: axil_still_def)
qed
theorem axil_memory_refines_witness:
  "\<exists>m r. axil_run \<lparr>al_bw = 4, al_addr_bits = 8, al_latency = 1\<rparr>
      ([Write 2 [1, 2, 3] 0, Write 15 [7] 1] @ axil_calm 25 @ [Read 14 2 0] @ axil_calm 13)
      (axil_master0, (axil_ram0 (length [9 :: 8 word, 9, 9, 9, 9, 9, 9, 9]))\<lparr>ar_file := \<lparr>mm_mem = [9, 9, 9, 9, 9, 9, 9, 9], mm_pos = 0\<rparr>\<rparr>) = Inr (m, r)
    \<and> axil_master_idle m \<and> mm_mem (ar_file r) = [9, 9, 1, 2, 3, 9, 9, 7]
    \<and> am_write_resp_queue m = [(2, 3, 0, RESP_OKAY), (15, 1, 1, RESP_OKAY)]
    \<and> am_read_data_queue m = [(14, [9, 7], 0, RESP_OKAY)]"
proof -
  let ?cfg = "\<lparr>al_bw = 4, al_addr_bits = 8, al_latency = 1\<rparr>"
  let ?phases = "[([Write 2 [1, 2, 3] 0, Write 15 [7] 1], axil_calm 25), ([Read 14 2 0], axil_calm 13)]"
  have "list_all (axil_phase ?cfg) ?phases" by code_simp
  moreover have "axil_cfg_ok ?cfg (length [9 :: 8 word, 9, 9, 9, 9, 9, 9, 9])" by code_simp
  moreover have "axil_spec (concat (map fst ?phases)) ([9, 9, 9, 9, 9, 9, 9, 9], [], []) =
      ([9, 9, 1, 2, 3, 9, 9, 7], [(2, 3, 0, RESP_OKAY), (15, 1, 1, RESP_OKAY)], [(14, [9, 7], 0, RESP_OKAY)])"
    by code_simp
  ultimately show ?thesis
    using axil_memory_refines [of ?cfg "[9, 9, 9, 9, 9, 9, 9, 9]" ?phases _ _ _ 0]
    by (simp del: axil_run.simps axil_spec.simps One_nat_def)
qed

theorem axil_read_back_witness:
  "\<exists>m r. axil_run \<lparr>al_bw = 4, al_addr_bits = 8, al_latency = 1\<rparr>
      (Write 6 [1, 2, 3] 0 # axil_calm 16 @ Read 6 (length [1 :: 8 word, 2, 3]) 0 # axil_calm 13)
      (axil_master0, (axil_ram0 (length [9 :: 8 word, 9, 9, 9, 9, 9, 9, 9]))\<lparr>ar_file := \<lparr>mm_mem = [9, 9, 9, 9, 9, 9, 9, 9], mm_pos = 0\<rparr>\<rparr>) = Inr (m, r)
    \<and> last (am_read_data_queue m) = (6, [1, 2, 3], 0, RESP_OKAY)"
proof -
  let ?cfg = "\<lparr>al_bw = 4, al_addr_bits = 8, al_latency = 1\<rparr>"
  have "axil_cfg_ok ?cfg (length [9 :: 8 word, 9, 9, 9, 9, 9, 9, 9])" "list_all (axil_phase ?cfg) []"
    "command_fits ?cfg 6 (length [1 :: 8 word, 2, 3]) 0" "[1 :: 8 word, 2, 3] \<noteq> []"
    "length [1 :: 8 word, 2, 3] \<le> length [9 :: 8 word, 9, 9, 9, 9, 9, 9, 9]" "fits (Some 3) 0"
    "write_time ?cfg [Write 6 [1, 2, 3] 0] \<le> 16" "read_time ?cfg [Read 6 (length [1 :: 8 word, 2, 3]) 0] \<le> 13"
    by code_simp+
  from axil_read_back [OF this, of 0] show ?thesis by (simp del: axil_run.simps)
qed

end
