(* ===== verification/Axi_Cut.thy ===== *)
theory Axi_Cut
  imports Axi_Endpoint Axil_Read
begin

text \<open>
  How the AXI master cuts a command: both loops make the bursts of a direct recursion, every burst stays within
  4 KiB, the beats of the bursts are the command's, one after the other, and the words of a write store
  its octets.
\<close>

section \<open>The length of a burst\<close>

text \<open>A beat has a power of two of octets, at most as many as the bus.\<close>

definition beat_octets :: "nat \<Rightarrow> bool" where
  "beat_octets nb \<longleftrightarrow> nb \<in> {1, 2, 4, 8, 16, 32, 64, 128}"

lemma beat_octetsD:
  assumes "beat_octets nb"
  shows "0 < nb" "nb \<le> 128" "nb dvd 0x1000" "nb dvd 128"
  using assms by (auto simp: beat_octets_def)

lemma burst_length:
  fixes mbl :: int
  assumes "beat_octets nb" "cur mod nb = 0" "0 < left"
  defines "n \<equiv> axi_burst_length mbl left nb cur"
  shows "1 \<le> n" "n \<le> left" "n \<le> 256" "nb * n \<le> 0x1000 - cur mod 0x1000"
proof -
  note nb = beat_octetsD [OF assms(1)]
  define b where "b = min left (nat (min (max mbl 1) 256))"
  define room where "room = 0x1000 - cur mod (0x1000 :: nat)"
  have b: "1 \<le> b" "b \<le> left" "b \<le> 256" using assms(3) by (auto simp: b_def)
  have "nb dvd cur mod 0x1000" using nb(3) assms(2) by (simp add: dvd_mod mod_eq_0_iff_dvd)
  then have "nb dvd room" unfolding room_def using nb(3) by (intro dvd_diff_nat) simp_all
  then obtain k where k: "room = nb * k" by blast
  have "0 < room" by (simp add: room_def)
  then have "1 \<le> k" using k by (cases k) simp_all
  have m: "min (b * nb) room = nb * min b k" by (simp only: k nat_mult_min_right mult.commute [of b nb])
  have "nb * min b k \<le> 128 * 256" using nb(2) b(3) by (intro mult_le_mono) auto
  then have "int_div (nb * min b k + nb - 1) nb = (nb * min b k + nb - 1) div nb" using nb(1,2) by (intro int_div_exact) simp
  also have "\<dots> = min b k"
  proof -
    have "nb * min b k + nb - 1 = (nb - 1) + min b k * nb" using nb(1) by (simp add: mult.commute)
    then show ?thesis using nb(1) by (simp only: div_mult_self1) simp
  qed
  finally have n: "n = min b k" unfolding n_def axi_burst_length_def Let_def b_def [symmetric] room_def [symmetric] m .
  then show "1 \<le> n" "n \<le> left" "n \<le> 256" using b \<open>1 \<le> k\<close> by auto
  have "nb * n \<le> nb * k" using n by simp
  then show "nb * n \<le> 0x1000 - cur mod 0x1000" by (simp only: k [symmetric] room_def)
qed

section \<open>The bursts of a command\<close>

text \<open>The reference: burst after burst, each as long as it may be.\<close>

function axi_bursts ::
    "axi_cfg \<Rightarrow> int \<Rightarrow> nat \<Rightarrow> nat \<Rightarrow> axi_attr \<Rightarrow> nat \<Rightarrow> nat \<Rightarrow> nat \<Rightarrow> axi_addr list" where
  "axi_bursts cfg mbl sz nb attr left cur i =
     (if left = 0 \<or> axi_burst_length mbl left nb cur = 0 then []
      else (let n = axi_burst_length mbl left nb cur
            in \<lparr>ad_addr = cur, ad_id = i, ad_len = n - 1, ad_size = sz, ad_attr = attr\<rparr>
               # axi_bursts cfg mbl sz nb attr (left - n) (cur + n * nb) ((i + 1) mod 2 ^ ax_id_bits cfg)))"
  by pat_completeness auto
termination
  by (relation "measure (\<lambda>(cfg, mbl, sz, nb, attr, left, cur, i). left)") auto

declare axi_bursts.simps [simp del]

lemma bursts_0 [simp]: "axi_bursts cfg mbl sz nb attr 0 cur i = []"
  by (simp add: axi_bursts.simps)

lemma bursts_size: "list_all (\<lambda>a. ad_size a = sz) (axi_bursts cfg mbl sz nb attr left cur i)"
proof (induction left arbitrary: cur i rule: less_induct)
  case (less left)
  then show ?case by (subst axi_bursts.simps) (simp add: Let_def)
qed

lemma bursts_new:
  fixes mbl :: int
  assumes "beat_octets nb" "cur mod nb = 0" "0 < left"
  defines "n \<equiv> axi_burst_length mbl left nb cur"
  shows "axi_bursts cfg mbl sz nb attr left cur i =
    \<lparr>ad_addr = cur, ad_id = i, ad_len = n - 1, ad_size = sz, ad_attr = attr\<rparr>
    # axi_bursts cfg mbl sz nb attr (left - n) (cur + n * nb) ((i + 1) mod 2 ^ ax_id_bits cfg)"
  using burst_length(1) [OF assms(1-3), where mbl = mbl] assms(3)
  by (subst axi_bursts.simps) (simp add: n_def Let_def)

lemma read_cycles_bursts:
  assumes "beat_octets nb" "cur mod nb = 0" "m = burst_length - (n + 1)" "m \<le> left"
  shows "\<exists>i'. axi_read_cycles cfg mbl sz nb attr left cur n burst_length i =
    (axi_bursts cfg mbl sz nb attr (left - m) (cur + m * nb) i,
     map (\<lambda>a. (ad_id a, ad_len a + 1)) (axi_bursts cfg mbl sz nb attr (left - m) (cur + m * nb) i), i')"
  using assms(2-)
proof (induction left arbitrary: cur n burst_length i m)
  case (Suc left)
  have step: "(cur + nb) mod nb = 0" using Suc.prems(1) by simp
  show ?case
  proof (cases "burst_length \<le> n + 1")
    case True
    define len where "len = axi_burst_length mbl (Suc left) nb cur"
    note l = burst_length [OF assms(1) Suc.prems(1), where left = "Suc left" and mbl = mbl, folded len_def]
    let ?i = "(i + 1) mod 2 ^ ax_id_bits cfg"
    have eqs: "left - (len - 1) = Suc left - len" "cur + nb + (len - 1) * nb = cur + len * nb"
      using l by (simp_all add: algebra_simps diff_mult_distrib)
    have "\<exists>i'. axi_read_cycles cfg mbl sz nb attr left (cur + nb) 0 len ?i =
      (axi_bursts cfg mbl sz nb attr (left - (len - 1)) (cur + nb + (len - 1) * nb) ?i,
       map (\<lambda>a. (ad_id a, ad_len a + 1)) (axi_bursts cfg mbl sz nb attr (left - (len - 1)) (cur + nb + (len - 1) * nb) ?i), i')"
      by (rule Suc.IH [OF step]) (use l in simp_all)
    then obtain i' where "axi_read_cycles cfg mbl sz nb attr left (cur + nb) 0 len ?i =
      (axi_bursts cfg mbl sz nb attr (Suc left - len) (cur + len * nb) ?i,
       map (\<lambda>a. (ad_id a, ad_len a + 1)) (axi_bursts cfg mbl sz nb attr (Suc left - len) (cur + len * nb) ?i), i')"
      unfolding eqs by blast
    then show ?thesis
      using True Suc.prems bursts_new [OF assms(1) Suc.prems(1), where left = "Suc left" and cfg = cfg and mbl = mbl and sz = sz and attr = attr and i = i] l
      by (simp add: len_def [symmetric] Let_def)
  next
    case False
    then have m: "m = Suc (burst_length - (n + 1 + 1))" using Suc.prems(2) by simp
    have eqs: "left - (m - 1) = Suc left - m" "cur + nb + (m - 1) * nb = cur + m * nb"
      using m by (simp_all add: algebra_simps)
    have "\<exists>i'. axi_read_cycles cfg mbl sz nb attr left (cur + nb) (n + 1) burst_length i =
      (axi_bursts cfg mbl sz nb attr (left - (m - 1)) (cur + nb + (m - 1) * nb) i,
       map (\<lambda>a. (ad_id a, ad_len a + 1)) (axi_bursts cfg mbl sz nb attr (left - (m - 1)) (cur + nb + (m - 1) * nb) i), i')"
      by (rule Suc.IH [OF step]) (use m Suc.prems(3) in simp_all)
    then have "\<exists>i'. axi_read_cycles cfg mbl sz nb attr left (cur + nb) (n + 1) burst_length i =
      (axi_bursts cfg mbl sz nb attr (Suc left - m) (cur + m * nb) i,
       map (\<lambda>a. (ad_id a, ad_len a + 1)) (axi_bursts cfg mbl sz nb attr (Suc left - m) (cur + m * nb) i), i')"
      unfolding eqs .
    then show ?thesis using False by simp
  qed
qed simp


definition beat_flags :: "nat \<Rightarrow> bool list" where
  \<comment> \<open>\<open>last\<close> for the beats of a burst that are left\<close>
  "beat_flags n = map (\<lambda>j. j + 1 = n) [0..<n]"

lemma beat_flags_0 [simp]: "beat_flags 0 = []"
  by (simp add: beat_flags_def)

lemma beat_flags_Suc: "beat_flags (Suc n) = (n = 0) # beat_flags n"
  by (simp add: beat_flags_def upt_conv_Cons map_Suc_upt [symmetric] comp_def del: upt_Suc map_Suc_upt)

definition burst_flags :: "axi_addr list \<Rightarrow> bool list" where
  "burst_flags as = concat (map (\<lambda>a. beat_flags (ad_len a + 1)) as)"

lemma write_cycles_bursts:
  assumes "beat_octets nb"
    and "axi_write_cycles cfg mbl sz nb attr data st en left k c = Inr (as, ds, c')"
    and "cu_addr c mod nb = 0" "m = cu_burst_length c - cu_n c" "m \<le> left"
  shows "as = axi_bursts cfg mbl sz nb attr (left - m) (cu_addr c + m * nb) (cu_id c)
    \<and> map (\<lambda>d. snd (snd d)) ds = beat_flags m @ burst_flags as
    \<and> cu_transfers c' = cu_transfers c + length as"
  using assms(2-)
proof (induction left arbitrary: k c as ds c' m)
  case 0
  then show ?case by (simp add: burst_flags_def)
next
  case (Suc left)
  from Suc.prems(1) obtain as1 d1 c1 as2 ds2 where r:
    "axi_write_cycle cfg mbl sz nb attr data st en (Suc left) k c = Inr (as1, d1, c1)"
    "axi_write_cycles cfg mbl sz nb attr data st en left (k + 1) c1 = Inr (as2, ds2, c')"
    "as = as1 @ as2" "ds = d1 # ds2"
    by (auto simp: bindR_eq_Inr)
  have addr: "cu_addr c1 = cu_addr c + nb" using r(1) by (auto simp: axi_write_cycle_def bindR_eq_Inr Let_def)
  then have step: "cu_addr c1 mod nb = 0" using Suc.prems(2) by simp
  show ?case
  proof (cases m)
    case 0
    define len where "len = axi_burst_length mbl (Suc left) nb (cu_addr c)"
    note l = burst_length [OF assms(1) Suc.prems(2), where left = "Suc left" and mbl = mbl, folded len_def]
    have c1: "as1 = [\<lparr>ad_addr = cu_addr c, ad_id = cu_id c, ad_len = len - 1, ad_size = sz, ad_attr = attr\<rparr>]"
      "snd (snd d1) = (len \<le> 1)" "cu_n c1 = 1" "cu_burst_length c1 = len" "cu_transfers c1 = cu_transfers c + 1"
      "cu_id c1 = (cu_id c + 1) mod 2 ^ ax_id_bits cfg"
      using r(1) Suc.prems(3) 0 by (auto simp: axi_write_cycle_def bindR_eq_Inr Let_def len_def)
    have "nb + (len - 1) * nb = len * nb" using l(1) by (cases len) simp_all
    then have eqs: "left - (len - 1) = Suc left - len" "cu_addr c1 + (len - 1) * nb = cu_addr c + len * nb"
      using l addr by simp_all
    have "as2 = axi_bursts cfg mbl sz nb attr (left - (len - 1)) (cu_addr c1 + (len - 1) * nb) (cu_id c1)
      \<and> map (\<lambda>d. snd (snd d)) ds2 = beat_flags (len - 1) @ burst_flags as2 \<and> cu_transfers c' = cu_transfers c1 + length as2"
      by (rule Suc.IH [OF r(2) step]) (use l c1 in simp_all)
    moreover have "beat_flags len = (len \<le> 1) # beat_flags (len - 1)"
      using l(1) by (cases len) (simp_all add: beat_flags_Suc)
    moreover have "len - 1 + 1 = len" using l(1) by simp
    ultimately show ?thesis
      using bursts_new [OF assms(1) Suc.prems(2), where left = "Suc left" and cfg = cfg and mbl = mbl and sz = sz
          and attr = attr and i = "cu_id c"] 0 c1 r(3,4) eqs
      by (simp add: len_def [symmetric] burst_flags_def)
  next
    case (Suc m')
    then have old: "\<not> cu_burst_length c \<le> cu_n c" "cu_burst_length c = cu_n c + Suc m'" using Suc.prems(3) by simp_all
    then have c1: "as1 = []" "snd (snd d1) = (m' = 0)" "cu_n c1 = cu_n c + 1" "cu_burst_length c1 = cu_burst_length c"
      "cu_transfers c1 = cu_transfers c" "cu_id c1 = cu_id c"
      using r(1) by (auto simp: axi_write_cycle_def bindR_eq_Inr Let_def)
    have eqs: "left - m' = Suc left - Suc m'" "cu_addr c1 + m' * nb = cu_addr c + Suc m' * nb"
      using addr by simp_all
    have "as2 = axi_bursts cfg mbl sz nb attr (left - m') (cu_addr c1 + m' * nb) (cu_id c1)
      \<and> map (\<lambda>d. snd (snd d)) ds2 = beat_flags m' @ burst_flags as2 \<and> cu_transfers c' = cu_transfers c1 + length as2"
      by (rule Suc.IH [OF r(2) step]) (use c1 Suc Suc.prems(3,4) in simp_all)
    then show ?thesis unfolding eqs c1(1,5,6) r(3,4) append_Nil list.map c1(2) beat_flags_Suc Suc by simp
  qed
qed


section \<open>The data of a command\<close>

lemma same_word:
  fixes a bw nb x :: nat
  assumes "nb dvd bw" "0 < bw" "a mod nb = 0" "x < nb"
  shows "a mod bw + nb \<le> bw" "(a + x) mod bw = a mod bw + x" "(a + x) div bw = a div bw"
proof -
  show m: "a mod bw + nb \<le> bw" by (rule aligned_fits) (use assms in \<open>simp_all add: mod_eq_0_iff_dvd\<close>)
  have "(a + x) mod bw = (a mod bw + x) mod bw" by (simp add: mod_add_left_eq)
  also have "\<dots> = a mod bw + x" using m assms(4) by simp
  finally show r: "(a + x) mod bw = a mod bw + x" .
  have "a + x = (a mod bw + x) + a div bw * bw" using div_mult_mod_eq [of a bw] by linarith
  moreover have "(a mod bw + x) div bw = 0" using m assms(4) by simp
  ultimately show "(a + x) div bw = a div bw" using assms(2) by (simp only: div_mult_self1)
qed

definition axi_cfg_ok :: "axi_cfg \<Rightarrow> nat \<Rightarrow> bool" where
  "axi_cfg_ok cfg sz \<longleftrightarrow>
     ax_bw cfg \<in> {1, 2, 4, 8, 16, 32, 64, 128} \<and> ax_addr_bits cfg \<le> 52 \<and> 0 < sz \<and> ax_bw cfg dvd sz"

definition next_address :: "nat \<Rightarrow> nat \<Rightarrow> axi_cut \<Rightarrow> nat" where
  \<comment> \<open>where the octets of cycle \<open>k\<close> begin\<close>
  "next_address addr k c = (if k = 0 then addr else cu_addr c)"

definition end_address :: "nat \<Rightarrow> nat \<Rightarrow> nat \<Rightarrow> nat \<Rightarrow> axi_cut \<Rightarrow> nat" where
  "end_address nb addr len left c = (if left = 1 then addr + len else cu_addr c + nb)"

definition cut_ok :: "nat \<Rightarrow> nat \<Rightarrow> nat \<Rightarrow> nat \<Rightarrow> nat \<Rightarrow> nat \<Rightarrow> axi_cut \<Rightarrow> bool" where
  "cut_ok bw nb addr len k left c \<longleftrightarrow>
     cu_addr c mod nb = 0 \<and> cu_cycle_offset c = cu_addr c mod bw
     \<and> (if left = 0 then cu_offset c = len
        else cu_addr c \<le> next_address addr k c \<and> next_address addr k c < cu_addr c + nb
          \<and> addr + cu_offset c = next_address addr k c \<and> next_address addr k c < addr + len
          \<and> cu_addr c + (left - 1) * nb < addr + len \<and> addr + len \<le> cu_addr c + left * nb)"

lemma axi_strb_bit:
  assumes "start < bw" "stop \<le> bw" "i < bw"
  shows "bit (axi_strb bw start stop) i \<longleftrightarrow> start \<le> i \<and> i < stop"
proof -
  have m: "(2 :: int) ^ n - 1 = mask n" for n by (simp add: mask_eq_exp_minus_1)
  show ?thesis
    using assms unfolding axi_strb_def m by (auto simp: bit_and_iff bit_push_bit_iff bit_drop_bit_eq bit_mask_iff)
qed

lemma axi_strb_fits: "fits (Some bw) (axi_strb bw start stop)"
proof -
  have a: "axi_strb bw start stop = (shr (2 ^ bw - 1) (bw - stop) AND shl (2 ^ bw - 1) start) mod 2 ^ bw"
    by (simp add: axi_strb_def and_mask_int [symmetric] ac_simps)
  show ?thesis by (simp add: a fits_def)
qed

lemma write_cycle_data:
  assumes "bw = ax_bw cfg" "beat_octets bw" "beat_octets nb" "nb \<le> bw" "addr + length data < 2 ^ 52"
    and c: "cut_ok bw nb addr (length data) k (Suc left) c"
  defines "lo \<equiv> next_address addr k c" and "hi \<equiv> end_address nb addr (length data) (Suc left) c"
  defines "chunk \<equiv> take (hi - lo) (drop (cu_offset c) data)"
  shows "\<exists>as val c'. axi_write_cycle cfg mbl sz nb attr data (addr mod bw) (end_offset_of bw addr (length data)) (Suc left) k c
      = Inr (as, (val, axi_strb bw (lo mod bw) (lo mod bw + (hi - lo)),
                 (if cu_burst_length c \<le> cu_n c then axi_burst_length mbl (Suc left) nb (cu_addr c) else cu_burst_length c)
                   \<le> (if cu_burst_length c \<le> cu_n c then 0 else cu_n c) + 1), c')
    \<and> cut_ok bw nb addr (length data) (k + 1) left c' \<and> cu_addr c' = cu_addr c + nb \<and> cu_offset c' = cu_offset c + (hi - lo)
    \<and> lo < hi \<and> hi \<le> addr + length data \<and> lo mod bw + (hi - lo) \<le> bw \<and> lo div bw = cu_addr c div bw
    \<and> val = lanes_val 8 (replicate (lo mod bw) 0 @ map uint chunk) \<and> length chunk = hi - lo"
proof -
  define a where "a = cu_addr c"
  have nb: "0 < nb" "nb dvd bw" "0 < bw" using assms(2-4) by (auto simp: beat_octets_def)
  note c = assms(6) [unfolded cut_ok_def, folded a_def lo_def]
  have lo: "a mod nb = 0" "a \<le> lo" "lo < a + nb" "addr + cu_offset c = lo" "lo < addr + length data" using c by simp_all
  have hi: "lo < hi" "hi \<le> a + nb" "hi \<le> addr + length data" "left = 0 \<Longrightarrow> hi = addr + length data" "left \<noteq> 0 \<Longrightarrow> hi = a + nb"
    using c by (cases left; auto simp: hi_def end_address_def a_def)+
  have word: "a mod bw + nb \<le> bw" "lo mod bw = a mod bw + (lo - a)" "lo div bw = a div bw"
    using same_word [OF nb(2,3) lo(1), of "lo - a"] lo(2,3) by simp_all
  have start: "axi_start (addr mod bw) (cu_cycle_offset c) k = lo mod bw"
    using c word(2) by (auto simp: axi_start_def lo_def next_address_def a_def)
  have stop: "axi_stop nb (end_offset_of bw addr (length data)) (cu_cycle_offset c) (Suc left) = lo mod bw + (hi - lo)"
  proof (cases "left = 0")
    case True
    have "addr + length data - 1 = a + (hi - 1 - a)" using hi lo True by simp
    moreover have "hi - 1 - a < nb" using hi lo nb(1) by simp
    ultimately have "(addr + length data - 1) mod bw = a mod bw + (hi - 1 - a)"
      using same_word(2) [OF nb(2,3) lo(1)] by metis
    moreover have "0 < addr + length data" using lo(5) by (rule le_less_trans [OF le0])
    ultimately have "end_offset_of bw addr (length data) = a mod bw + (hi - 1 - a) + 1" using end_offset [OF nb(3)] by simp
    then show ?thesis using True hi lo(2) word(2) by (simp add: axi_stop_def)
  next
    case False
    then show ?thesis using c hi lo word(2) by (simp add: axi_stop_def)
  qed
  have len: "length chunk = hi - lo" using hi lo by (simp add: chunk_def)
  have pack: "pack_octets data [lo mod bw..<lo mod bw + (hi - lo)] (cu_offset c) 0 =
      Inr (cu_offset c + (hi - lo), lanes_val 8 (replicate (lo mod bw) 0 @ map uint chunk))"
    using pack_octets_eq [of "replicate (lo mod bw) 0" "lo mod bw" "cu_offset c" "lo mod bw + (hi - lo)" data] hi lo
    by (simp add: lanes_val_zeros chunk_def list_all_iff in_lane_def)
  define c' where "c' = \<lparr>cu_addr = a + nb, cu_offset = cu_offset c + (hi - lo),
    cu_cycle_offset = (cu_cycle_offset c + nb) mod bw,
    cu_n = (if cu_burst_length c \<le> cu_n c then 0 else cu_n c) + 1,
    cu_transfers = (if cu_burst_length c \<le> cu_n c then cu_transfers c + 1 else cu_transfers c),
    cu_burst_length = (if cu_burst_length c \<le> cu_n c then axi_burst_length mbl (Suc left) nb (cu_addr c) else cu_burst_length c),
    cu_id = (if cu_burst_length c \<le> cu_n c then (cu_id c + 1) mod 2 ^ ax_id_bits cfg else cu_id c)\<rparr>"
  have "cut_ok bw nb addr (length data) (k + 1) left c'"
  proof -
    have "(cu_cycle_offset c + nb) mod bw = (a + nb) mod bw" using c by (simp add: mod_add_left_eq)
    moreover have "addr + (cu_offset c + (hi - lo)) = hi" using hi lo by simp
    moreover have "(a + nb) mod nb = 0" using lo(1) by simp
    ultimately show ?thesis using c hi lo nb(1)
      by (cases left) (auto simp: cut_ok_def c'_def next_address_def)
  qed
  moreover have "axi_write_cycle cfg mbl sz nb attr data (addr mod bw) (end_offset_of bw addr (length data)) (Suc left) k c
      = Inr ((if cu_burst_length c \<le> cu_n c then [\<lparr>ad_addr = a, ad_id = cu_id c,
               ad_len = axi_burst_length mbl (Suc left) nb (cu_addr c) - 1, ad_size = sz, ad_attr = attr\<rparr>] else []),
             (lanes_val 8 (replicate (lo mod bw) 0 @ map uint chunk), axi_strb bw (lo mod bw) (lo mod bw + (hi - lo)),
              (if cu_burst_length c \<le> cu_n c then axi_burst_length mbl (Suc left) nb (cu_addr c) else cu_burst_length c)
                \<le> (if cu_burst_length c \<le> cu_n c then 0 else cu_n c) + 1), c')"
    using pack by (simp add: axi_write_cycle_def assms(1) [symmetric] start stop Let_def c'_def a_def)
  moreover have "lo mod bw + (hi - lo) \<le> bw" using word(1,2) hi lo by simp
  ultimately show ?thesis using hi word(3) len by (simp add: a_def c'_def)
qed


fun store_beats :: "nat \<Rightarrow> nat list \<Rightarrow> axi_data list \<Rightarrow> bytes \<Rightarrow> bytes" where
  \<comment> \<open>the memory after the beats at these addresses\<close>
  "store_beats bw (a # as) ((v, s, l) # ds) mem =
     store_beats bw as ds (ram_store bw (word_pos bw (length mem) a) (v, s) mem)"
| "store_beats bw as ds mem = mem"

lemma length_store_beats [simp]: "length (store_beats bw as ds mem) = length mem"
  by (induction bw as ds mem rule: store_beats.induct) simp_all

lemma store_beats_append:
  "length as = length ds \<Longrightarrow>
    store_beats bw (as @ as') (ds @ ds') mem = store_beats bw as' ds' (store_beats bw as ds mem)"
  by (induction bw as ds mem rule: store_beats.induct) simp_all

definition footprint :: "nat \<Rightarrow> nat \<Rightarrow> nat \<Rightarrow> nat set" where
  \<comment> \<open>the positions of the octets of a command in a memory\<close>
  "footprint sz addr len = set (map (\<lambda>i. (addr + i) mod sz) [0..<len])"

definition beat_avoids :: "nat set \<Rightarrow> nat \<Rightarrow> nat \<Rightarrow> nat \<Rightarrow> axi_data \<Rightarrow> bool" where
  "beat_avoids D bw sz a d \<longleftrightarrow> (\<forall>i < bw. bit (fst (snd d)) i \<longrightarrow> word_pos bw sz a + i \<notin> D)"

lemma axi_cfg_okD:
  fixes x :: nat
  assumes "axi_cfg_ok cfg sz"
  shows "beat_octets (ax_bw cfg)" "0 < ax_bw cfg" "ax_bw cfg \<le> 128" "0 < sz" "ax_bw cfg dvd sz"
    "x < 2 ^ ax_addr_bits cfg \<Longrightarrow> x < 2 ^ 52"
proof -
  have "2 ^ ax_addr_bits cfg \<le> (2 :: nat) ^ 52"
    using assms by (intro power_increasing) (auto simp: axi_cfg_ok_def)
  then show "x < 2 ^ ax_addr_bits cfg \<Longrightarrow> x < 2 ^ 52" using less_le_trans by blast
qed (use assms in \<open>auto simp: axi_cfg_ok_def beat_octets_def\<close>)

lemma write_cycles_data:
  assumes "axi_cfg_ok cfg sz" "bw = ax_bw cfg" "beat_octets nb" "nb \<le> bw" "addr + length data < 2 ^ 52"
    and "cut_ok bw nb addr (length data) k left c"
    and "D \<inter> footprint sz addr (length data) = {}"
  shows "\<exists>as ds c'. axi_write_cycles cfg mbl s nb attr data (addr mod bw) (end_offset_of bw addr (length data)) left k c
      = Inr (as, ds, c') \<and> length ds = left \<and> list_all (axi_data_fits cfg) ds
    \<and> list_all2 (beat_avoids D bw sz) (map (\<lambda>j. cu_addr c + j * nb) [0..<left]) ds
    \<and> (\<forall>mem. length mem = sz \<longrightarrow> store_beats bw (map (\<lambda>j. cu_addr c + j * nb) [0..<left]) ds mem
         = store (addr + cu_offset c) (drop (cu_offset c) data) mem)"
  using assms(6)
proof (induction left arbitrary: k c)
  case 0
  then show ?case by (simp add: cut_ok_def)
next
  case (Suc left)
  note cfg = axi_cfg_okD [OF assms(1), folded assms(2)]
  let ?lo = "next_address addr k c" and ?hi = "end_address nb addr (length data) (Suc left) c" and ?a = "cu_addr c"
  let ?chunk = "take (?hi - ?lo) (drop (cu_offset c) data)" and ?strb = "axi_strb bw (?lo mod bw) (?lo mod bw + (?hi - ?lo))"
  obtain as1 val l c1 where s:
    "axi_write_cycle cfg mbl s nb attr data (addr mod bw) (end_offset_of bw addr (length data)) (Suc left) k c
      = Inr (as1, (val, ?strb, l), c1)"
    "cut_ok bw nb addr (length data) (k + 1) left c1" "cu_addr c1 = ?a + nb" "cu_offset c1 = cu_offset c + (?hi - ?lo)"
    "?lo < ?hi" "?hi \<le> addr + length data" "?lo mod bw + (?hi - ?lo) \<le> bw" "?lo div bw = ?a div bw"
    "val = lanes_val 8 (replicate (?lo mod bw) 0 @ map uint ?chunk)" "length ?chunk = ?hi - ?lo"
    using write_cycle_data [OF assms(2) cfg(1) assms(3-5) Suc.prems, of mbl s attr] by blast
  obtain as2 ds c2 where r:
    "axi_write_cycles cfg mbl s nb attr data (addr mod bw) (end_offset_of bw addr (length data)) left (k + 1) c1
      = Inr (as2, ds, c2)" "length ds = left" "list_all (axi_data_fits cfg) ds"
    "list_all2 (beat_avoids D bw sz) (map (\<lambda>j. cu_addr c1 + j * nb) [0..<left]) ds"
    "\<And>mem. length mem = sz \<Longrightarrow> store_beats bw (map (\<lambda>j. cu_addr c1 + j * nb) [0..<left]) ds mem
         = store (addr + cu_offset c1) (drop (cu_offset c1) data) mem"
    using Suc.IH [OF s(2)] by blast
  have lo: "addr + cu_offset c = ?lo" "?lo < 2 ^ 52" "?a \<le> ?lo"
    using Suc.prems s(5,6) assms(5) by (simp_all add: cut_ok_def)
  have addrs: "map (\<lambda>j. ?a + j * nb) [0..<Suc left] = ?a # map (\<lambda>j. cu_addr c1 + j * nb) [0..<left]"
    by (simp add: upt_conv_Cons map_Suc_upt [symmetric] comp_def s(3) ac_simps del: upt_Suc map_Suc_upt)
  let ?w = "?lo div bw * bw"
  have w: "?w + ?lo mod bw = ?lo" by simp
  have "int_div ?a bw = ?lo div bw" "int_div ?lo bw = ?lo div bw"
    using lo(2,3) s(8) by (simp_all add: int_div_exact)
  then have pos: "word_pos bw sz ?a = ?w mod sz" "word_pos bw sz ?lo = ?w mod sz" by (simp_all only: word_pos_def)
  have bits: "bit ?strb i \<longleftrightarrow> ?lo mod bw \<le> i \<and> i < ?lo mod bw + (?hi - ?lo)" if "i < bw" for i
    using axi_strb_bit [OF _ s(7) that] cfg(2) by simp
  have "?w \<le> ?lo" by simp
  then have "?w + bw \<le> ?lo + 128" using cfg(3) by (rule add_mono)
  also have "\<dots> < 2 ^ 53" using lo(2) by simp
  finally have fits: "?w + bw < 2 ^ 53" .
  have first: "ram_store bw (word_pos bw (length mem) ?a) (val, ?strb) mem = store ?lo ?chunk mem" if "length mem = sz" for mem
    using cycle_store [of bw mem ?w "?lo mod bw" "?lo mod bw + (?hi - ?lo)" ?chunk ?strb] cfg(2-5) s(7,9,10) lo(2) bits pos that fits
    unfolding w by simp
  have "beat_avoids D bw sz ?a (val, ?strb, l)"
    unfolding beat_avoids_def
  proof (intro allI impI)
    fix i assume i: "i < bw" "bit (fst (snd (val, ?strb, l))) i"
    then have i2: "?lo mod bw \<le> i" "i < ?lo mod bw + (?hi - ?lo)" using bits by simp_all
    have "?w mod sz + bw \<le> sz" using cfg(4,5) by (intro aligned_fits) simp_all
    then have "?w mod sz + i = (?w + i) mod sz" using i(1) mod_less [of "?w mod sz + i" sz] mod_add_left_eq [of ?w sz i] by simp
    also have "?w + i = addr + (cu_offset c + (i - ?lo mod bw))" using lo(1) i2(1) div_mult_mod_eq [of ?lo bw] by linarith
    finally have "word_pos bw sz ?a + i = (addr + (cu_offset c + (i - ?lo mod bw))) mod sz" using pos(1) by simp
    moreover have "cu_offset c + (i - ?lo mod bw) < length data" using i2 lo(1) s(6) by simp
    ultimately have "word_pos bw sz ?a + i \<in> footprint sz addr (length data)" by (auto simp: footprint_def)
    then show "word_pos bw sz ?a + i \<notin> D" using assms(7) by blast
  qed
  moreover have "axi_data_fits cfg (val, ?strb, l)"
    using chunk_fits [OF _ s(7), of ?chunk "?lo mod bw"] s(9,10) axi_strb_fits [of bw] assms(2) by (simp add: axi_data_fits_def)
  moreover have "store_beats bw (map (\<lambda>j. ?a + j * nb) [0..<Suc left]) ((val, ?strb, l) # ds) mem
      = store (addr + cu_offset c) (drop (cu_offset c) data) mem" if "length mem = sz" for mem
  proof -
    have "drop (cu_offset c) data = ?chunk @ drop (cu_offset c1) data" by (simp add: s(4) add.commute [of "cu_offset c"] flip: drop_drop)
    moreover have "?lo + length ?chunk = addr + cu_offset c1" using lo(1) s(4,10) by simp
    ultimately have "store (addr + cu_offset c) (drop (cu_offset c) data) mem
        = store (addr + cu_offset c1) (drop (cu_offset c1) data) (store ?lo ?chunk mem)"
      using store_append [of ?lo ?chunk "drop (cu_offset c1) data" mem] by (simp only: lo(1))
    then show ?thesis using first [OF that] r(5) [of "store ?lo ?chunk mem"] that by (simp only: addrs store_beats.simps) simp
  qed
  ultimately show ?case
    using s(1) r(1-4) by (simp add: addrs del: upt_Suc)
qed


section \<open>The bursts on the bus\<close>

definition burst_addrs :: "axi_addr list \<Rightarrow> nat list" where
  \<comment> \<open>the addresses of the beats\<close>
  "burst_addrs as = concat (map (\<lambda>a. map (\<lambda>j. ad_addr a + j * 2 ^ ad_size a) [0..<ad_len a + 1]) as)"

definition burst_ok :: "nat \<Rightarrow> axi_burst \<Rightarrow> bool" where
  "burst_ok bw b \<longleftrightarrow>
     bu_burst b = BURST_INCR \<and> 2 ^ bu_size b \<le> bw \<and> bu_addr b mod 2 ^ bu_size b = 0
     \<and> 2 ^ bu_size b * (bu_len b + 1) \<le> 0x1000 - bu_addr b mod 0x1000 \<and> bu_addr b < 2 ^ 52"

definition attr_fits :: "axi_attr \<Rightarrow> bool" where
  "attr_fits at \<longleftrightarrow> at_burst at = BURST_INCR \<and> fits (Some 1) (at_lock at) \<and> fits (Some 4) (at_cache at)
     \<and> fits (Some 3) (at_prot at) \<and> fits (Some 4) (at_qos at) \<and> fits (Some 4) (at_region at)"

lemma bursts_ok:
  fixes cfg :: axi_cfg
  assumes "beat_octets nb" "nb = 2 ^ s" "nb \<le> ax_bw cfg" "s < 8" "attr_fits attr"
    and "limit < 2 ^ ax_addr_bits cfg" "limit < 2 ^ 52"
    and "cur mod nb = 0" "left = 0 \<or> cur + (left - 1) * nb \<le> limit" "i < 2 ^ ax_id_bits cfg"
  shows "burst_addrs (axi_bursts cfg mbl s nb attr left cur i) = map (\<lambda>j. cur + j * nb) [0..<left]
    \<and> list_all (axi_addr_fits cfg) (axi_bursts cfg mbl s nb attr left cur i)
    \<and> list_all (\<lambda>a. burst_ok (ax_bw cfg) (burst_of a)) (axi_bursts cfg mbl s nb attr left cur i)
    \<and> length (axi_bursts cfg mbl s nb attr left cur i) \<le> left"
  using assms(8-)
proof (induction left arbitrary: cur i rule: less_induct)
  case (less left)
  show ?case
  proof (cases "left = 0")
    case True
    then show ?thesis by (simp add: burst_addrs_def)
  next
    case False
    then have "0 < left" by simp
    define n where "n = axi_burst_length mbl left nb cur"
    note l = burst_length [OF assms(1) less.prems(1) \<open>0 < left\<close>, where mbl = mbl, folded n_def]
    note new = bursts_new [OF assms(1) less.prems(1) \<open>0 < left\<close>, where cfg = cfg and mbl = mbl and sz = s and attr = attr and i = i,
        folded n_def]
    define as where "as = axi_bursts cfg mbl s nb attr (left - n) (cur + n * nb) ((i + 1) mod 2 ^ ax_id_bits cfg)"
    have limit: "cur + (left - 1) * nb \<le> limit" using less.prems(2) False by simp
    have "left - n = 0 \<or> cur + n * nb + (left - n - 1) * nb \<le> limit"
    proof (cases "left - n = 0")
      case False
      then have "n + (left - n - 1) = left - 1" using l by simp
      then have "cur + n * nb + (left - n - 1) * nb = cur + (left - 1) * nb" by (metis add.assoc add_mult_distrib)
      then show ?thesis using limit by simp
    qed simp
    moreover have "(cur + n * nb) mod nb = 0" using less.prems(1) by simp
    ultimately have IH: "burst_addrs as = map (\<lambda>j. cur + n * nb + j * nb) [0..<left - n]"
        "list_all (axi_addr_fits cfg) as" "list_all (\<lambda>a. burst_ok (ax_bw cfg) (burst_of a)) as" "length as \<le> left - n"
      using less.IH [of "left - n" "cur + n * nb" "(i + 1) mod 2 ^ ax_id_bits cfg"] l \<open>0 < left\<close> unfolding as_def by auto
    have n1: "Suc (n - Suc 0) = n" using l(1) by simp
    have "[0..<left] = [0..<n] @ map (\<lambda>j. j + n) [0..<left - n]"
      using upt_add_eq_append [of 0 n "left - n"] map_add_upt [of n "left - n"] l(2) by simp
    then have "map (\<lambda>j. cur + j * nb) [0..<left] = map (\<lambda>j. cur + j * nb) [0..<n] @ map (\<lambda>j. cur + n * nb + j * nb) [0..<left - n]"
      by (simp add: comp_def algebra_simps)
    moreover have "cur \<le> limit" using limit by simp
    then have "cur < 2 ^ ax_addr_bits cfg" "cur < 2 ^ 52" using assms(6,7) by (blast intro: le_less_trans)+
    moreover have "n - 1 < 256" "nb * n \<le> 4096 - cur mod 4096" using l by simp_all
    let ?b = "\<lparr>ad_addr = cur, ad_id = i, ad_len = n - 1, ad_size = s, ad_attr = attr\<rparr>"
    have "axi_addr_fits cfg ?b"
      using \<open>cur < 2 ^ ax_addr_bits cfg\<close> \<open>n - 1 < 256\<close> assms(4,5) less.prems(3)
      by (simp add: axi_addr_fits_def attr_fits_def BURST_INCR_def fits_def)
    moreover have "burst_ok (ax_bw cfg) (burst_of ?b)"
      using \<open>cur < 2 ^ 52\<close> l(4) n1 assms(2,3,5) less.prems(1)
      by (simp add: burst_ok_def burst_of_def attr_fits_def)
    moreover have "burst_addrs (?b # as) = map (\<lambda>j. cur + j * nb) [0..<n] @ burst_addrs as"
      by (simp add: burst_addrs_def n1 assms(2) del: upt_Suc)
    moreover have "axi_bursts cfg mbl s nb attr left cur i = ?b # as" by (simp only: new as_def)
    ultimately show ?thesis using IH l(1,2) by simp
  qed
qed


section \<open>Commands\<close>

definition num_bytes_of :: "nat \<Rightarrow> nat option \<Rightarrow> nat" where
  "num_bytes_of bw sz = (case sz of None \<Rightarrow> bw | Some s \<Rightarrow> 2 ^ s)"

definition axi_command_fits :: "axi_cfg \<Rightarrow> nat \<Rightarrow> nat \<Rightarrow> nat option \<Rightarrow> axi_attr \<Rightarrow> bool" where
  \<comment> \<open>an incrementing burst in the address range, beats no wider than the bus, and something to do\<close>
  "axi_command_fits cfg addr len sz attr \<longleftrightarrow>
     addr + len < 2 ^ ax_addr_bits cfg \<and> num_bytes_of (ax_bw cfg) sz \<le> ax_bw cfg \<and> attr_fits attr
     \<and> (0 < len \<or> addr mod num_bytes_of (ax_bw cfg) sz = 0)"

lemma log2_values:
  "log2 1 = 0" "log2 2 = 1" "log2 4 = 2" "log2 8 = 3" "log2 16 = 4" "log2 32 = 5" "log2 64 = 6" "log2 128 = 7"
  by code_simp+

lemma log2_power: "beat_octets bw \<Longrightarrow> 2 ^ log2 bw = bw \<and> log2 bw < 8"
  using log2_values by (auto simp: beat_octets_def)

lemma axi_size_ok:
  assumes "beat_octets bw" "num_bytes_of bw sz \<le> bw"
  shows "\<exists>s. axi_size bw sz = Inr (s, num_bytes_of bw sz) \<and> num_bytes_of bw sz = 2 ^ s \<and> s < 8 \<and> s \<le> log2 bw
    \<and> beat_octets (num_bytes_of bw sz)"
proof (cases sz)
  case None
  then show ?thesis using assms log2_power [OF assms(1)] by (simp add: axi_size_def num_bytes_of_def)
next
  case (Some s)
  then have "2 ^ s \<le> (2 :: nat) ^ log2 bw" using assms log2_power [OF assms(1)] by (simp add: num_bytes_of_def)
  then have s: "s \<le> log2 bw" by (rule power_le_imp_le_exp [rotated]) simp
  then have "s < 8" using log2_power [OF assms(1)] by simp
  then have "s \<in> {0, 1, 2, 3, 4, 5, 6, 7}" by auto
  then have "beat_octets (2 ^ s)" by (auto simp: beat_octets_def)
  then show ?thesis using Some s \<open>s < 8\<close> assms(2) by (simp add: axi_size_def num_bytes_of_def)
qed

lemma write_cycles_id:
  "axi_write_cycles cfg mbl sz nb attr data st en left k c = Inr (as, ds, c') \<Longrightarrow> cu_id c < 2 ^ ax_id_bits cfg \<Longrightarrow>
    cu_id c' < 2 ^ ax_id_bits cfg"
proof (induction left arbitrary: k c as ds)
  case (Suc left)
  from Suc.prems(1) obtain as1 d1 c1 as2 ds2 where r:
    "axi_write_cycle cfg mbl sz nb attr data st en (Suc left) k c = Inr (as1, d1, c1)"
    "axi_write_cycles cfg mbl sz nb attr data st en left (k + 1) c1 = Inr (as2, ds2, c')"
    by (auto simp: bindR_eq_Inr)
  have "cu_id c1 < 2 ^ ax_id_bits cfg" using r(1) Suc.prems(2) by (auto simp: axi_write_cycle_def bindR_eq_Inr Let_def)
  then show ?case using Suc.IH [OF r(2)] by simp
qed simp

text \<open>The octets of a command in beats: the first address, and how many.\<close>

lemma command_beats:
  assumes "axi_cfg_ok cfg sz" "bw = ax_bw cfg" "beat_octets nb" "nb \<le> bw" "addr + len < 2 ^ 52" "0 < len \<or> addr mod nb = 0"
  defines "a \<equiv> addr div nb * nb" and "n \<equiv> axi_cycles nb addr len"
  shows "int_div addr nb * nb = a" "a - int_div addr bw * bw = a mod bw" "n = 0 \<longleftrightarrow> len = 0"
    "n \<noteq> 0 \<Longrightarrow> a + (n - 1) * nb < addr + len \<and> addr + len \<le> a + n * nb" "a \<le> addr" "addr < a + nb" "a mod nb = 0"
    "a div bw = addr div bw"
proof -
  note cfg = axi_cfg_okD [OF assms(1), folded assms(2)] and nb = beat_octetsD [OF assms(3)]
  have dvd: "nb dvd bw" using assms(3,4) cfg(1) by (auto simp: beat_octets_def)
  show "int_div addr nb * nb = a" using assms(5) by (simp add: a_def int_div_exact)
  show a: "a \<le> addr" "addr < a + nb" "a mod nb = 0"
    using nb(1) div_mult_mod_eq [of addr nb] mod_less_divisor [of nb addr] unfolding a_def by (simp_all, linarith)
  have "addr - a < nb" "a + (addr - a) = addr" using a by simp_all
  then show div: "a div bw = addr div bw" using same_word(3) [OF dvd cfg(2) a(3)] by metis
  then show "a - int_div addr bw * bw = a mod bw" using assms(5) by (simp add: int_div_exact flip: minus_div_mult_eq_mod)
  have n: "n = command_cycles nb addr len" by (simp add: n_def axi_cycles_def command_cycles_def)
  have pos: "0 < n \<and> addr mod nb + len = (n - 1) * nb + end_offset_of nb addr len \<and> 1 \<le> end_offset_of nb addr len
      \<and> end_offset_of nb addr len \<le> nb" if "0 < len"
    using last_cycle [OF nb(1) assms(5) nb(2), folded n] that by simp
  show "n = 0 \<longleftrightarrow> len = 0"
  proof
    assume "len = 0"
    then show "n = 0" using no_cycle [OF nb(1,2), of len addr] assms(6) n by simp
  qed (use pos in force)
  show "a + (n - 1) * nb < addr + len \<and> addr + len \<le> a + n * nb" if "n \<noteq> 0"
  proof -
    have "0 < len" using that \<open>n = 0 \<longleftrightarrow> len = 0\<close> by simp
    then have p: "addr mod nb + len = (n - 1) * nb + end_offset_of nb addr len" "1 \<le> end_offset_of nb addr len"
        "end_offset_of nb addr len \<le> nb" using pos by blast+
    have "addr = a + addr mod nb" by (simp add: a_def)
    moreover have "n * nb = (n - 1) * nb + nb" using that by (cases n) simp_all
    ultimately show ?thesis using p by linarith
  qed
qed

lemma axi_write_command_ok:
  fixes m :: axi_master
  assumes "axi_cfg_ok cfg sz" "axi_command_fits cfg addr (length data) s attr" "xw_cur_id (xm_write m) < 2 ^ ax_id_bits cfg"
    and "D \<inter> footprint sz addr (length data) = {}"
  defines "n \<equiv> axi_cycles (num_bytes_of (ax_bw cfg) s) addr (length data)" and "w \<equiv> xm_write m"
  shows "\<exists>as ds i. axi_write_command cfg (addr, data, s, attr) m = Inr (m\<lparr>xm_in_flight := xm_in_flight m + 1,
      xm_write := w\<lparr>xw_cur_id := i, xw_addr_queue := xw_addr_queue w @ as, xw_data_queue := xw_data_queue w @ ds,
        xw_resp_command_queue := xw_resp_command_queue w @ [(addr, length data, length as, at_prot attr)]\<rparr>\<rparr>)
    \<and> i < 2 ^ ax_id_bits cfg \<and> length ds = n \<and> length as \<le> n
    \<and> list_all (axi_addr_fits cfg) as \<and> list_all (\<lambda>a. burst_ok (ax_bw cfg) (burst_of a)) as
    \<and> list_all (axi_data_fits cfg) ds \<and> map (\<lambda>d. snd (snd d)) ds = burst_flags as
    \<and> list_all2 (beat_avoids D (ax_bw cfg) sz) (burst_addrs as) ds
    \<and> (\<forall>mem. length mem = sz \<longrightarrow> store_beats (ax_bw cfg) (burst_addrs as) ds mem = store addr data mem)
    \<and> (\<exists>sz' nb. axi_size (ax_bw cfg) s = Inr (sz', nb)
         \<and> as = axi_bursts cfg (xm_max_burst_len m) sz' nb attr n (addr div nb * nb) (xw_cur_id w))"
proof -
  define bw where "bw = ax_bw cfg"
  define nb where "nb = num_bytes_of bw s"
  define a where "a = addr div nb * nb"
  note cfg = axi_cfg_okD [OF assms(1), folded bw_def]
  note fit = assms(2) [unfolded axi_command_fits_def, folded bw_def, folded nb_def]
  obtain sz' where s: "axi_size bw s = Inr (sz', nb)" "nb = 2 ^ sz'" "sz' < 8" "beat_octets nb"
    using axi_size_ok [OF cfg(1), of s] fit unfolding nb_def by blast
  have small: "addr + length data < 2 ^ 52" using fit cfg(6) by blast
  note b = command_beats [OF assms(1) bw_def s(4) _ small, folded a_def, folded n_def [folded bw_def, folded nb_def]]
  have nb: "nb \<le> bw" "0 < length data \<or> addr mod nb = 0" using fit by simp_all
  note b = b [OF nb]
  let ?c = "\<lparr>cu_addr = a, cu_offset = 0, cu_cycle_offset = a mod bw, cu_n = 0, cu_transfers = 0, cu_burst_length = 0,
    cu_id = xw_cur_id w\<rparr>"
  have "cut_ok bw nb addr (length data) 0 n ?c"
    using b(3-7) by (auto simp: cut_ok_def next_address_def)
  from write_cycles_data [OF assms(1) bw_def s(4) nb(1) small this assms(4), where mbl = "xm_max_burst_len m" and s = sz' and attr = attr]
  obtain as ds c' where r:
    "axi_write_cycles cfg (xm_max_burst_len m) sz' nb attr data (addr mod bw) (end_offset_of bw addr (length data)) n 0 ?c
      = Inr (as, ds, c')" "length ds = n" "list_all (axi_data_fits cfg) ds"
    "list_all2 (beat_avoids D bw sz) (map (\<lambda>j. a + j * nb) [0..<n]) ds"
    "\<And>mem. length mem = sz \<Longrightarrow> store_beats bw (map (\<lambda>j. a + j * nb) [0..<n]) ds mem = store addr data mem"
    by auto
  have w: "as = axi_bursts cfg (xm_max_burst_len m) sz' nb attr n a (xw_cur_id w)"
      "map (\<lambda>d. snd (snd d)) ds = burst_flags as" "cu_transfers c' = length as"
    using write_cycles_bursts [OF s(4) r(1) _ refl] b(7) by simp_all
  have "n = 0 \<or> a + (n - 1) * nb \<le> addr + length data" using b(4) by (cases "n = 0") simp_all
  from bursts_ok [OF s(4,2) nb(1) [unfolded bw_def] s(3) _ _ small b(7) this assms(3) [folded w_def], of attr "xm_max_burst_len m"] fit
  have bursts: "burst_addrs as = map (\<lambda>j. a + j * nb) [0..<n]" "list_all (axi_addr_fits cfg) as"
      "list_all (\<lambda>a. burst_ok bw (burst_of a)) as" "length as \<le> n"
    unfolding w(1) bw_def by blast+
  have "cu_id c' < 2 ^ ax_id_bits cfg" using write_cycles_id [OF r(1)] assms(3) by (simp add: w_def)
  moreover have "axi_write_command cfg (addr, data, s, attr) m = Inr (m\<lparr>xm_in_flight := xm_in_flight m + 1,
      xm_write := w\<lparr>xw_cur_id := cu_id c', xw_addr_queue := xw_addr_queue w @ as, xw_data_queue := xw_data_queue w @ ds,
        xw_resp_command_queue := xw_resp_command_queue w @ [(addr, length data, length as, at_prot attr)]\<rparr>\<rparr>)"
    using r(1) w(3) s(1) b(1,2) n_def [folded bw_def, folded nb_def]
    by (simp add: axi_write_command_def bw_def [symmetric] w_def [symmetric] Let_def)
  moreover have cut: "\<exists>sz' nb. axi_size (ax_bw cfg) s = Inr (sz', nb)
      \<and> as = axi_bursts cfg (xm_max_burst_len m) sz' nb attr n (addr div nb * nb) (xw_cur_id w)"
    using w(1) s(1) unfolding a_def bw_def by blast
  ultimately show ?thesis
    using r(2-5) bursts w(2) unfolding bw_def
    by (intro exI [of _ as] exI [of _ ds] exI [of _ "cu_id c'"] conjI cut) simp_all
qed


lemma read_cycles_id:
  "axi_read_cycles cfg mbl sz nb attr left cur n bl i = (as, bs, i') \<Longrightarrow> i < 2 ^ ax_id_bits cfg \<Longrightarrow> i' < 2 ^ ax_id_bits cfg"
  by (induction left arbitrary: cur n bl i as bs) (fastforce simp: Let_def split: if_splits prod.splits)+

lemma axi_read_command_ok:
  fixes m :: axi_master
  assumes "axi_cfg_ok cfg sz" "axi_command_fits cfg addr len s attr" "xr_cur_id (xm_read m) < 2 ^ ax_id_bits cfg"
  defines "nb \<equiv> num_bytes_of (ax_bw cfg) s"
  defines "n \<equiv> axi_cycles nb addr len" and "r \<equiv> xm_read m"
  shows "\<exists>as i sz'. axi_read_command cfg (addr, len, s, attr) m = Inr (m\<lparr>xm_in_flight := xm_in_flight m + 1,
      xm_read := r\<lparr>xr_cur_id := i, xr_addr_queue := xr_addr_queue r @ as,
        xr_resp_command_queue := xr_resp_command_queue r
          @ [(addr, len, sz', n, at_prot attr, map (\<lambda>a. (ad_id a, ad_len a + 1)) as)]\<rparr>\<rparr>)
    \<and> i < 2 ^ ax_id_bits cfg \<and> length as \<le> n \<and> sz' \<le> log2 (ax_bw cfg) \<and> nb = 2 ^ sz'
    \<and> list_all (axi_addr_fits cfg) as \<and> list_all (\<lambda>a. burst_ok (ax_bw cfg) (burst_of a)) as
    \<and> burst_addrs as = map (\<lambda>j. addr div nb * nb + j * nb) [0..<n]
    \<and> axi_size (ax_bw cfg) s = Inr (sz', nb)
    \<and> as = axi_bursts cfg (xm_max_burst_len m) sz' nb attr n (addr div nb * nb) (xr_cur_id r)"
proof -
  define bw where "bw = ax_bw cfg"
  define a where "a = addr div nb * nb"
  note cfg = axi_cfg_okD [OF assms(1), folded bw_def]
  note fit = assms(2) [unfolded axi_command_fits_def, folded nb_def, folded bw_def]
  obtain sz' where s: "axi_size bw s = Inr (sz', nb)" "nb = 2 ^ sz'" "sz' < 8" "sz' \<le> log2 bw" "beat_octets nb"
    using axi_size_ok [OF cfg(1), of s] fit unfolding nb_def bw_def [symmetric] by blast
  have small: "addr + len < 2 ^ 52" using fit cfg(6) by blast
  have nb: "nb \<le> bw" "0 < len \<or> addr mod nb = 0" using fit by simp_all
  note b = command_beats [OF assms(1) bw_def s(5) nb(1) small nb(2), folded a_def, folded n_def]
  define as where "as = axi_bursts cfg (xm_max_burst_len m) sz' nb attr n a (xr_cur_id r)"
  obtain i where c: "axi_read_cycles cfg (xm_max_burst_len m) sz' nb attr n a 0 0 (xr_cur_id r)
      = (as, map (\<lambda>a. (ad_id a, ad_len a + 1)) as, i)"
    using read_cycles_bursts [OF s(5) b(7), where m = 0 and burst_length = 0 and n = 0 and left = n and
        cfg = cfg and mbl = "xm_max_burst_len m" and sz = sz' and attr = attr and i = "xr_cur_id r"]
    unfolding as_def by auto
  have "n = 0 \<or> a + (n - 1) * nb \<le> addr + len" using b(4) by (cases "n = 0") simp_all
  from bursts_ok [OF s(5,2) nb(1) [unfolded bw_def] s(3) _ _ small b(7) this assms(3) [folded r_def], of attr "xm_max_burst_len m"] fit
  have bursts: "burst_addrs as = map (\<lambda>j. a + j * nb) [0..<n]" "list_all (axi_addr_fits cfg) as"
      "list_all (\<lambda>a. burst_ok bw (burst_of a)) as" "length as \<le> n"
    unfolding as_def bw_def by blast+
  have "i < 2 ^ ax_id_bits cfg" using read_cycles_id [OF c] assms(3) by (simp add: r_def)
  moreover have "axi_read_command cfg (addr, len, s, attr) m = Inr (m\<lparr>xm_in_flight := xm_in_flight m + 1,
      xm_read := r\<lparr>xr_cur_id := i, xr_addr_queue := xr_addr_queue r @ as,
        xr_resp_command_queue := xr_resp_command_queue r
          @ [(addr, len, sz', n, at_prot attr, map (\<lambda>a. (ad_id a, ad_len a + 1)) as)]\<rparr>\<rparr>)"
    using c s(1) b(1) n_def by (simp add: axi_read_command_def bw_def [symmetric] r_def [symmetric] Let_def)
  ultimately show ?thesis
    using bursts s(1,2,4) unfolding bw_def a_def
    by (intro exI [of _ as] exI [of _ i] exI [of _ sz']) (simp add: as_def a_def)
qed

end
