(* ===== verification/Axi_Write.thy ===== *)
theory Axi_Write
  imports Axi_Cut
begin

text \<open>
  Writes over AXI: the responses, the beats of the bursts that are under way and the data for them, the write
  process of the memory, and an invariant of the write sides of a master and a memory.  The state says what the
  memory will hold once everything under way has arrived (\<open>target\<close>) and which positions it leaves
  alone meanwhile (\<open>D\<close>).
\<close>

section \<open>The responses to writes\<close>

interpretation wresp: process_loop axi_write_resp_round axi_write_resp_logic write_resp_rounds
proof
  fix s s' :: "int \<times> axi_master_write"
  show "axi_write_resp_logic s = (case axi_write_resp_round s of None \<Rightarrow> Inr s
      | Some r \<Rightarrow> (case r of Inl e \<Rightarrow> Inl e | Inr s' \<Rightarrow> axi_write_resp_logic s'))"
    by (rule axi_write_resp_logic.simps)
  assume "axi_write_resp_round s = Some (Inr s')"
  then show "write_resp_rounds s' < write_resp_rounds s" by (rule write_resp_round_decreases)
qed

definition unanswered :: "axi_master_write \<Rightarrow> ((nat \<times> nat \<times> int) \<times> nat) list" where
  \<comment> \<open>commands without a response yet, with the bursts whose response is still to be counted\<close>
  "unanswered w =
     (case xw_resp w of None \<Rightarrow> [] | Some f \<Rightarrow> [(wf_command f, wf_left f)])
     @ map (\<lambda>(a, l, c, p). ((a, l, p), c)) (xw_resp_command_queue w)"

definition axi_answers :: "axi_master_write \<Rightarrow> (nat \<times> nat \<times> int \<times> int) list" where
  "axi_answers w = xw_resp_queue w @ map (okay \<circ> fst) (unanswered w)"

definition resp_ok :: "axi_master_write \<Rightarrow> bool" where
  "resp_ok w \<longleftrightarrow> (\<forall>r \<in> set (xw_int_resp_queue w). snd r = 0) \<and> (\<forall>f. xw_resp w = Some f \<longrightarrow> wf_resp f = 0)
     \<and> length (xw_int_resp_queue w) \<le> (\<Sum>p\<leftarrow>unanswered w. snd p)"

definition resp_frame :: "axi_master_write \<Rightarrow> axi_master_write" where
  \<comment> \<open>what the responses do not touch\<close>
  "resp_frame w = w\<lparr>xw_resp_command_queue := [], xw_resp := None, xw_int_resp_queue := [], xw_resp_queue := []\<rparr>"

lemma write_resp_round_ok:
  assumes "resp_ok w" "axi_write_resp_round (n, w) = Some r"
  shows "\<exists>n' w'. r = Inr (n', w') \<and> resp_ok w' \<and> axi_answers w' = axi_answers w \<and> resp_frame w' = resp_frame w
    \<and> n' - int (length (unanswered w')) = n - int (length (unanswered w))
    \<and> (\<Sum>p\<leftarrow>unanswered w'. snd p) - length (xw_int_resp_queue w') = (\<Sum>p\<leftarrow>unanswered w. snd p) - length (xw_int_resp_queue w)"
proof (cases "xw_resp w")
  case None
  then show ?thesis using assms
    by (cases "xw_resp_command_queue w")
       (auto simp: axi_write_resp_round_def resp_ok_def axi_answers_def resp_frame_def unanswered_def okay_def)
next
  case (Some f)
  obtain a l p where c: "wf_command f = (a, l, p)" by (cases "wf_command f")
  show ?thesis
  proof (cases "wf_left f = 0")
    case True
    then show ?thesis using assms Some c
      by (auto simp: axi_write_resp_round_def resp_ok_def axi_answers_def resp_frame_def unanswered_def okay_def)
  next
    case False
    then show ?thesis using assms Some
      by (cases "xw_int_resp_queue w")
         (auto simp: axi_write_resp_round_def resp_ok_def axi_answers_def resp_frame_def unanswered_def okay_def)
  qed
qed

lemma axi_write_resp_stopped:
  assumes "resp_ok w" "axi_write_resp_round (n, w) = None"
  shows "xw_int_resp_queue w = [] \<and> (unanswered w = [] \<or> (\<Sum>p\<leftarrow>unanswered w. snd p) \<noteq> 0)"
proof (cases "xw_resp w")
  case None
  then show ?thesis using assms
    by (auto simp: axi_write_resp_round_def unanswered_def resp_ok_def split: list.splits)
next
  case (Some f)
  then have "wf_left f \<noteq> 0" "xw_int_resp_queue w = []"
    using assms(2) by (auto simp: axi_write_resp_round_def split: prod.splits if_splits list.splits)
  then show ?thesis using Some by (simp add: unanswered_def)
qed

text \<open>The responses that arrived are counted off, and the commands answered in order.\<close>

lemma write_resp_loop_ok:
  assumes "resp_ok w"
  shows "\<exists>n' w'. axi_write_resp_logic (n, w) = Inr (n', w') \<and> resp_ok w' \<and> axi_answers w' = axi_answers w
    \<and> xw_int_resp_queue w' = [] \<and> resp_frame w' = resp_frame w
    \<and> n' - int (length (unanswered w')) = n - int (length (unanswered w))
    \<and> (\<Sum>p\<leftarrow>unanswered w'. snd p) = (\<Sum>p\<leftarrow>unanswered w. snd p) - length (xw_int_resp_queue w)
    \<and> (unanswered w' = [] \<or> (\<Sum>p\<leftarrow>unanswered w'. snd p) \<noteq> 0)"
proof -
  let ?sum = "\<lambda>w. (\<Sum>p\<leftarrow>unanswered w. snd p)"
  let ?I = "\<lambda>s. resp_ok (snd s) \<and> axi_answers (snd s) = axi_answers w \<and> resp_frame (snd s) = resp_frame w
    \<and> fst s - int (length (unanswered (snd s))) = n - int (length (unanswered w))
    \<and> ?sum (snd s) - length (xw_int_resp_queue (snd s)) = ?sum w - length (xw_int_resp_queue w)"
  have "\<exists>s. axi_write_resp_logic (n, w) = Inr s \<and> ?I s \<and> axi_write_resp_round s = None"
  proof (rule wresp.loop_rule)
    show "?I (n, w)" using assms by simp
    show "\<exists>s'. r = Inr s' \<and> ?I s'" if "?I s" "axi_write_resp_round s = Some r" for s r
      using write_resp_round_ok [of "snd s" "fst s" r] that by fastforce
  qed
  then obtain n' w' where r: "axi_write_resp_logic (n, w) = Inr (n', w')" "?I (n', w')" "axi_write_resp_round (n', w') = None"
    by auto
  then show ?thesis using axi_write_resp_stopped [of w' n'] by simp
qed


section \<open>The beats on the bus\<close>

type_synonym axi_beat = "nat \<times> nat \<times> nat \<times> bool" \<comment> \<open>identifier, address, size, last\<close>

abbreviation beat_addr :: "axi_beat \<Rightarrow> nat" where "beat_addr b \<equiv> fst (snd b)"
abbreviation beat_last :: "axi_beat \<Rightarrow> bool" where "beat_last b \<equiv> snd (snd (snd b))"

definition beats_from :: "nat \<Rightarrow> nat \<Rightarrow> nat \<Rightarrow> nat \<Rightarrow> axi_beat list" where
  \<comment> \<open>the beats of a burst that are left\<close>
  "beats_from i a s n = map (\<lambda>j. (i, a + j * 2 ^ s, s, j + 1 = n)) [0..<n]"

lemma beats_from_0 [simp]: "beats_from i a s 0 = []"
  by (simp add: beats_from_def)

lemma beats_from_Suc: "beats_from i a s (Suc n) = (i, a, s, n = 0) # beats_from i (a + 2 ^ s) s n"
  by (simp add: beats_from_def upt_conv_Cons map_Suc_upt [symmetric] comp_def ac_simps del: upt_Suc map_Suc_upt)

lemma length_beats_from [simp]: "length (beats_from i a s n) = n"
  by (simp add: beats_from_def)

definition burst_beats :: "axi_burst \<Rightarrow> axi_beat list" where
  "burst_beats b = beats_from (bu_id b) (bu_addr b) (bu_size b) (bu_len b + 1)"

definition bus_beats :: "axi_addr list \<Rightarrow> axi_beat list" where
  "bus_beats as = concat (map (burst_beats \<circ> burst_of) as)"

lemma bus_beats_simps [simp]:
  "bus_beats [] = []" "bus_beats (as @ as') = bus_beats as @ bus_beats as'"
  "bus_beats (a # as) = burst_beats (burst_of a) @ bus_beats as"
  by (simp_all add: bus_beats_def)

lemma bus_beats_addrs: "map beat_addr (bus_beats as) = burst_addrs as"
  by (simp add: bus_beats_def burst_addrs_def map_concat comp_def burst_beats_def beats_from_def burst_of_def del: upt_Suc)

lemma bus_beats_flags: "map beat_last (bus_beats as) = burst_flags as"
  by (simp add: bus_beats_def burst_flags_def map_concat comp_def burst_beats_def beats_from_def burst_of_def beat_flags_def
      del: upt_Suc)

definition bursts_left :: "axi_beat list \<Rightarrow> nat" where
  \<comment> \<open>the bursts whose last beat is still to come\<close>
  "bursts_left bs = length (filter beat_last bs)"

lemma bursts_left_simps [simp]:
  "bursts_left [] = 0" "bursts_left (b # bs) = (if beat_last b then 1 else 0) + bursts_left bs"
  "bursts_left (bs @ bs') = bursts_left bs + bursts_left bs'"
  by (simp_all add: bursts_left_def)

lemma bursts_left_beats [simp]: "bursts_left (beats_from i a s n) = (if n = 0 then 0 else 1)"
  by (induction n arbitrary: a) (auto simp: beats_from_Suc)

lemma bursts_left_bus: "bursts_left (bus_beats as) = length as"
  by (induction as) (simp_all add: burst_beats_def)

section \<open>Data for the beats\<close>

definition beat_match :: "nat set \<Rightarrow> nat \<Rightarrow> nat \<Rightarrow> axi_beat \<Rightarrow> axi_data \<Rightarrow> bool" where
  "beat_match D bw sz b d \<longleftrightarrow> snd (snd d) = beat_last b \<and> beat_avoids D bw sz (beat_addr b) d"

definition agree :: "nat set \<Rightarrow> bytes \<Rightarrow> bytes \<Rightarrow> bool" where
  "agree D mem mem' \<longleftrightarrow> length mem = length mem' \<and> (\<forall>q \<in> D. mem ! q = mem' ! q)"

definition write_data ::
    "nat set \<Rightarrow> nat \<Rightarrow> bytes \<Rightarrow> bytes \<Rightarrow> axi_beat list \<Rightarrow> axi_data list \<Rightarrow> bytes \<Rightarrow> bool" where
  \<comment> \<open>the beats and words under way leave the positions \<open>D\<close> alone and turn the memory into \<open>target\<close>\<close>
  "write_data D bw mem0 target bs ds mem \<longleftrightarrow>
     agree D mem mem0 \<and> list_all2 (beat_match D bw (length mem)) bs ds \<and> store_beats bw (map beat_addr bs) ds mem = target"

lemma write_data_length: "write_data D bw mem0 target bs ds mem \<Longrightarrow> length bs = length ds"
  by (auto simp: write_data_def dest: list_all2_lengthD)

lemma write_data_step:
  assumes "write_data D bw mem0 target ((i, a, s, l) # bs) ((v, strb, l') # ds) mem" "0 < length mem" "bw dvd length mem"
  shows "l' = l" "write_data D bw mem0 target bs ds (ram_store bw (word_pos bw (length mem) a) (v, strb) mem)"
proof -
  let ?p = "word_pos bw (length mem) a"
  note d = assms(1) [unfolded write_data_def]
  show "l' = l" using d by (simp add: beat_match_def)
  have p: "?p + bw \<le> length mem" unfolding word_pos_def using assms(2,3) by (intro aligned_fits) simp_all
  have "ram_store bw ?p (v, strb) mem ! q = mem ! q" if "q \<in> D" for q
  proof -
    have "\<not> (?p \<le> q \<and> q < ?p + bw \<and> bit strb (q - ?p))"
    proof
      assume q: "?p \<le> q \<and> q < ?p + bw \<and> bit strb (q - ?p)"
      then have "q - ?p < bw" by linarith
      moreover have "\<forall>i < bw. bit strb i \<longrightarrow> ?p + i \<notin> D" using d by (simp add: beat_match_def beat_avoids_def)
      ultimately have "?p + (q - ?p) \<notin> D" using q by blast
      then show False using q that by simp
    qed
    then show ?thesis by (simp only: ram_store_def fst_conv snd_conv set_lanes_nth [OF p] if_False)
  qed
  then show "write_data D bw mem0 target bs ds (ram_store bw ?p (v, strb) mem)"
    using d by (auto simp: write_data_def agree_def)
qed

lemma store_beats_agree_append:
  assumes "write_data D bw mem0 target bs ds mem" "list_all2 (beat_match D bw (length mem)) bs' ds'"
  shows "write_data D bw mem0 (store_beats bw (map beat_addr bs') ds' target) (bs @ bs') (ds @ ds') mem"
  using assms write_data_length [OF assms(1)]
  by (auto simp: write_data_def store_beats_append intro: list_all2_appendI)

section \<open>The write process of the memory\<close>

definition hand_beats :: "axi_ram_write \<Rightarrow> axi_beat list" where
  "hand_beats rw = (case rw_burst rw of None \<Rightarrow> []
     | Some (b, n, cur) \<Rightarrow> beats_from (bu_id b) cur (bu_size b) (bu_len b + 1 - n))"

definition ram_beats :: "axi_ram_write \<Rightarrow> axi_beat list" where
  "ram_beats rw = hand_beats rw @ concat (map burst_beats (rw_addr_queue rw))"

definition ram_bursts_ok :: "axi_cfg \<Rightarrow> axi_ram_write \<Rightarrow> bool" where
  "ram_bursts_ok cfg rw \<longleftrightarrow> list_all (\<lambda>b. burst_ok (ax_bw cfg) b \<and> bu_id b < 2 ^ ax_id_bits cfg) (rw_addr_queue rw)
     \<and> (\<forall>b n cur. rw_burst rw = Some (b, n, cur) \<longrightarrow> bu_burst b = BURST_INCR \<and> bu_id b < 2 ^ ax_id_bits cfg)
     \<and> list_all (\<lambda>r. axi_b_fits cfg r \<and> snd r = 0) (rw_resp_queue rw)"

lemma burst_start_ok: "burst_ok bw b \<Longrightarrow> burst_start bw b = Inr (bu_addr b)"
proof -
  assume b: "burst_ok bw b"
  then have a: "int_div (bu_addr b) (2 ^ bu_size b) * 2 ^ bu_size b = bu_addr b"
    by (simp add: burst_ok_def int_div_exact) (metis div_mult_mod_eq add.right_neutral)
  show ?thesis using b unfolding burst_start_def Let_def a by (simp add: burst_ok_def)
qed

lemma burst_next_incr: "bu_burst b = BURST_INCR \<Longrightarrow> burst_next b cur = cur + 2 ^ bu_size b"
  by (simp add: burst_next_def Let_def BURST_INCR_def BURST_FIXED_def BURST_WRAP_def)

interpretation ramw: process_loop "axi_ram_write_round bw sz" "axi_ram_write_logic bw sz" ram_write_rounds for bw sz
proof
  fix s s' :: "mmap_file \<times> axi_ram_write"
  show "axi_ram_write_logic bw sz s = (case axi_ram_write_round bw sz s of None \<Rightarrow> Inr s
      | Some r \<Rightarrow> (case r of Inl e \<Rightarrow> Inl e | Inr s' \<Rightarrow> axi_ram_write_logic bw sz s'))"
    by (rule axi_ram_write_logic.simps)
  assume "axi_ram_write_round bw sz s = Some (Inr s')"
  then show "ram_write_rounds s' < ram_write_rounds s" by (rule ram_write_round_decreases)
qed

definition ram_write_inv ::
    "axi_cfg \<Rightarrow> nat set \<Rightarrow> bytes \<Rightarrow> bytes \<Rightarrow> axi_beat list \<Rightarrow> axi_data list \<Rightarrow> nat \<Rightarrow> mmap_file \<times> axi_ram_write \<Rightarrow> bool" where
  \<comment> \<open>with beats and words that the master still has, and the responses to come\<close>
  "ram_write_inv cfg D mem0 target bs ds resps s \<longleftrightarrow> (case s of (f, rw) \<Rightarrow>
     axi_cfg_ok cfg (length (mm_mem f)) \<and> ram_bursts_ok cfg rw
     \<and> write_data D (ax_bw cfg) mem0 target (ram_beats rw @ bs) (rw_data_queue rw @ ds) (mm_mem f)
     \<and> length (rw_resp_queue rw) + bursts_left (ram_beats rw) = resps)"

definition ram_write_frame :: "axi_ram_write \<Rightarrow> axi_ram_write" where
  \<comment> \<open>what the process does not touch\<close>
  "ram_write_frame rw = rw\<lparr>rw_addr_queue := [], rw_burst := None, rw_data_queue := [], rw_resp_queue := []\<rparr>"

lemma ram_beat_ok:
  assumes "ram_write_inv cfg D mem0 target bs ds resps (f, rw\<lparr>rw_data_queue := d # q\<rparr>)"
    and "rw_burst rw = Some (b, n, cur)" "n \<le> bu_len b" "sz = length (mm_mem f)"
  shows "\<exists>f' rw'. ram_beat (ax_bw cfg) sz b n cur d (f, rw\<lparr>rw_data_queue := q\<rparr>) = Inr (f', rw')
    \<and> ram_write_inv cfg D mem0 target bs ds resps (f', rw') \<and> length (mm_mem f') = sz
    \<and> ram_write_frame rw' = ram_write_frame rw \<and> length (rw_resp_queue rw) \<le> length (rw_resp_queue rw')"
proof -
  define bw where "bw = ax_bw cfg"
  obtain v strb l where d: "d = (v, strb, l)" by (cases d)
  note inv = assms(1) [unfolded ram_write_inv_def prod.case d, folded bw_def]
  have cfg: "0 < bw" "0 < sz" "bw dvd sz" using axi_cfg_okD inv assms(4) unfolding bw_def by blast+
  let ?rest = "beats_from (bu_id b) (cur + 2 ^ bu_size b) (bu_size b) (bu_len b - n)"
  have beats: "ram_beats (rw\<lparr>rw_data_queue := x\<rparr>) = (bu_id b, cur, bu_size b, n = bu_len b) # ?rest
      @ concat (map burst_beats (rw_addr_queue rw))" for x
    using assms(2,3) by (auto simp: ram_beats_def hand_beats_def Suc_diff_le beats_from_Suc)
  have wd: "write_data D bw mem0 target ((bu_id b, cur, bu_size b, n = bu_len b) # ?rest
      @ concat (map burst_beats (rw_addr_queue rw)) @ bs) ((v, strb, l) # q @ ds) (mm_mem f)"
    using inv by (simp add: beats)
  note step = write_data_step [OF this, folded assms(4), OF cfg(2,3)]
  let ?p = "word_pos bw sz cur"
  let ?f = "\<lparr>mm_mem = ram_store bw ?p (v, strb) (mm_mem f), mm_pos = ?p + bw\<rparr>"
  let ?rw = "rw\<lparr>rw_data_queue := q, rw_burst := Some (b, n + 1, cur + 2 ^ bu_size b),
    rw_resp_queue := rw_resp_queue rw @ (if n = bu_len b then [(bu_id b, 0)] else [])\<rparr>"
  have p: "?p + bw \<le> sz" unfolding word_pos_def using cfg by (intro aligned_fits) simp_all
  then have "write_lanes v strb [0..<0 + bw] \<lparr>mm_mem = mm_mem f, mm_pos = ?p\<rparr> = Inr ?f"
    using write_lanes_eq [of "\<lparr>mm_mem = mm_mem f, mm_pos = ?p\<rparr>" ?p 0 bw v strb] assms(4) by (simp add: ram_store_def)
  moreover have "mm_seek (int_div cur bw * bw mod sz) f = Inr \<lparr>mm_mem = mm_mem f, mm_pos = ?p\<rparr>"
    using p assms(4) by (simp add: mm_seek_def word_pos_def)
  moreover have b: "bu_burst b = BURST_INCR" "bu_id b < 2 ^ ax_id_bits cfg" using inv assms(2) by (simp_all add: ram_bursts_ok_def)
  ultimately have "ram_beat bw sz b n cur d (f, rw\<lparr>rw_data_queue := q\<rparr>) = Inr (?f, ?rw)"
    using step(1) by (cases rw) (simp add: ram_beat_def d Let_def burst_next_incr)
  moreover have "ram_beats ?rw = ?rest @ concat (map burst_beats (rw_addr_queue rw))"
    using assms(3) by (simp add: ram_beats_def hand_beats_def)
  then have "ram_write_inv cfg D mem0 target bs ds resps (?f, ?rw)"
    using inv step(2) b assms(2-4)
    by (auto simp: ram_write_inv_def beats bw_def ram_bursts_ok_def axi_b_fits_def fits_def)
  ultimately show ?thesis using assms(4) unfolding bw_def by (auto simp: ram_write_frame_def)
qed


lemma ram_write_round_ok:
  assumes "ram_write_inv cfg D mem0 target bs ds resps s" "axi_ram_write_round (ax_bw cfg) (length (mm_mem (fst s))) s = Some r"
  shows "\<exists>s'. r = Inr s' \<and> ram_write_inv cfg D mem0 target bs ds resps s' \<and> length (mm_mem (fst s')) = length (mm_mem (fst s))
    \<and> ram_write_frame (snd s') = ram_write_frame (snd s) \<and> length (rw_resp_queue (snd s)) \<le> length (rw_resp_queue (snd s'))"
proof -
  obtain f rw where s: "s = (f, rw)" by (cases s)
  note inv = assms(1) [unfolded ram_write_inv_def s prod.case]
  show ?thesis
  proof (cases "rw_burst rw")
    case None
    then obtain b q where q: "rw_addr_queue rw = b # q"
      using assms(2) s by (cases "rw_addr_queue rw") (simp_all add: axi_ram_write_round_def)
    then have b: "burst_ok (ax_bw cfg) b" "bu_id b < 2 ^ ax_id_bits cfg" using inv by (simp_all add: ram_bursts_ok_def)
    let ?rw = "rw\<lparr>rw_addr_queue := q, rw_burst := Some (b, 0, bu_addr b)\<rparr>"
    have "r = Inr (f, ?rw)" using assms(2) None q b(1) s by (simp add: axi_ram_write_round_def burst_start_ok)
    moreover have "ram_beats ?rw = ram_beats rw" using None q by (simp add: ram_beats_def hand_beats_def burst_beats_def)
    ultimately show ?thesis
      using inv q b s by (simp add: ram_write_inv_def ram_bursts_ok_def burst_ok_def ram_write_frame_def)
  next
    case (Some x)
    then obtain b n cur where x: "rw_burst rw = Some (b, n, cur)" by (metis prod_cases3)
    show ?thesis
    proof (cases "bu_len b + 1 \<le> n")
      case True
      let ?rw = "rw\<lparr>rw_burst := None\<rparr>"
      have "r = Inr (f, ?rw)" using assms(2) True x s by (simp add: axi_ram_write_round_def)
      moreover have "ram_beats ?rw = ram_beats rw" using True x by (simp add: ram_beats_def hand_beats_def)
      ultimately show ?thesis
        using inv s by (simp add: ram_write_inv_def ram_bursts_ok_def ram_write_frame_def)
    next
      case False
      then obtain d q where q: "rw_data_queue rw = d # q"
        using assms(2) x s by (cases "rw_data_queue rw") (simp_all add: axi_ram_write_round_def)
      have "ram_write_inv cfg D mem0 target bs ds resps (f, rw\<lparr>rw_data_queue := d # q\<rparr>)"
        using assms(1) q s by (cases rw) simp
      from ram_beat_ok [OF this x _ refl] False obtain f' rw' where
        "ram_beat (ax_bw cfg) (length (mm_mem f)) b n cur d (f, rw\<lparr>rw_data_queue := q\<rparr>) = Inr (f', rw')"
        "ram_write_inv cfg D mem0 target bs ds resps (f', rw')" "length (mm_mem f') = length (mm_mem f)"
        "ram_write_frame rw' = ram_write_frame rw" "length (rw_resp_queue rw) \<le> length (rw_resp_queue rw')" by auto
      then show ?thesis using assms(2) False x q s
        by (intro exI [of _ "(f', rw')"]) (simp add: axi_ram_write_round_def)
    qed
  qed
qed

text \<open>The process ends, and then it waits for a burst, or for data.\<close>

definition ram_write_stopped :: "axi_ram_write \<Rightarrow> bool" where
  "ram_write_stopped rw \<longleftrightarrow> (case rw_burst rw of None \<Rightarrow> rw_addr_queue rw = []
     | Some (b, n, cur) \<Rightarrow> n \<le> bu_len b \<and> rw_data_queue rw = [])"

lemma ram_write_stoppedI: "axi_ram_write_round bw sz (f, rw) = None \<Longrightarrow> ram_write_stopped rw"
  by (auto simp: axi_ram_write_round_def ram_write_stopped_def split: option.splits list.splits if_splits)

lemma ram_write_stopped_beats:
  assumes "ram_write_stopped rw" "list_all2 P (ram_beats rw @ bs) (rw_data_queue rw @ ds)" "bs = []" "ds = []"
  shows "ram_beats rw = [] \<and> rw_data_queue rw = []"
proof (cases "rw_burst rw")
  case None
  then show ?thesis using assms by (simp add: ram_write_stopped_def ram_beats_def hand_beats_def)
next
  case (Some x)
  then show ?thesis using assms
    by (cases x) (auto simp: ram_write_stopped_def ram_beats_def hand_beats_def dest: arg_cong [of _ _ length])
qed

lemma ram_write_loop_ok:
  assumes "ram_write_inv cfg D mem0 target bs ds resps (f, rw)" "sz = length (mm_mem f)"
  shows "\<exists>f' rw'. axi_ram_write_logic (ax_bw cfg) sz (f, rw) = Inr (f', rw')
    \<and> ram_write_inv cfg D mem0 target bs ds resps (f', rw') \<and> ram_write_stopped rw' \<and> length (mm_mem f') = sz
    \<and> ram_write_frame rw' = ram_write_frame rw \<and> length (rw_resp_queue rw) \<le> length (rw_resp_queue rw')"
proof -
  let ?I = "\<lambda>s. ram_write_inv cfg D mem0 target bs ds resps s \<and> length (mm_mem (fst s)) = sz
    \<and> ram_write_frame (snd s) = ram_write_frame rw \<and> length (rw_resp_queue rw) \<le> length (rw_resp_queue (snd s))"
  have "\<exists>s. axi_ram_write_logic (ax_bw cfg) sz (f, rw) = Inr s \<and> ?I s \<and> axi_ram_write_round (ax_bw cfg) sz s = None"
  proof (rule ramw.loop_rule)
    show "?I (f, rw)" using assms by simp
    show "\<exists>s'. r = Inr s' \<and> ?I s'" if "?I s" "axi_ram_write_round (ax_bw cfg) sz s = Some r" for s r
      using ram_write_round_ok [of cfg D mem0 target bs ds resps s r] that by auto
  qed
  then show ?thesis using ram_write_stoppedI by (auto simp: fst_def snd_def split: prod.splits)
qed


section \<open>The state while writes are under way\<close>

definition sent_addrs :: "axi_master_write \<Rightarrow> axi_addr list" where
  "sent_addrs w = chan_words (xw_aw w) @ xw_addr_queue w"

definition sent_data :: "axi_master_write \<Rightarrow> axi_data list" where
  "sent_data w = chan_words (xw_w w) @ xw_data_queue w"

definition ram_resps :: "axi_ram_write \<Rightarrow> (nat \<times> int) list" where
  "ram_resps rw = chan_words (rw_b rw) @ rw_resp_queue rw"

definition all_beats :: "axi_master_write \<Rightarrow> axi_ram_write \<Rightarrow> axi_beat list" where
  "all_beats w rw = ram_beats rw @ bus_beats (sent_addrs w)"

definition axi_write_inv ::
    "axi_cfg \<Rightarrow> nat set \<Rightarrow> bytes \<Rightarrow> bytes \<Rightarrow> (nat \<times> nat \<times> int \<times> int) list \<Rightarrow>
     axi_master_write \<Rightarrow> axi_ram_write \<Rightarrow> bytes \<Rightarrow> bool" where
  "axi_write_inv cfg D mem0 target answers w rw mem \<longleftrightarrow>
     axi_cfg_ok cfg (length mem) \<and> xw_command_queue w = [] \<and> xw_bready w \<and> xw_cur_id w < 2 ^ ax_id_bits cfg
     \<and> resp_ok w \<and> axi_answers w = answers \<and> (unanswered w = [] \<or> (\<Sum>p\<leftarrow>unanswered w. snd p) \<noteq> 0)
     \<and> chan_ok (axi_addr_fits cfg) (xw_addr_queue w) (xw_aw w) \<and> chan_ok (axi_data_fits cfg) (xw_data_queue w) (xw_w w)
     \<and> list_all (\<lambda>a. burst_ok (ax_bw cfg) (burst_of a)) (sent_addrs w)
     \<and> rw_awready rw \<and> rw_wready rw \<and> ram_write_stopped rw \<and> ram_bursts_ok cfg rw
     \<and> chan_ok (axi_b_fits cfg) (rw_resp_queue rw) (rw_b rw) \<and> list_all (\<lambda>r. snd r = 0) (ram_resps rw)
     \<and> write_data D (ax_bw cfg) mem0 target (all_beats w rw) (rw_data_queue rw @ sent_data w) mem
     \<and> (\<Sum>p\<leftarrow>unanswered w. snd p) = length (xw_int_resp_queue w) + length (ram_resps rw) + bursts_left (all_beats w rw)"

definition axi_write_work :: "axi_master_write \<Rightarrow> axi_ram_write \<Rightarrow> nat" where
  "axi_write_work w rw =
     2 * length (sent_addrs w) + waits (xw_addr_queue w) (xw_aw w) + 2 * length (sent_data w) + waits (xw_data_queue w) (xw_w w)
     + 4 * bursts_left (all_beats w rw) + 3 * length (ram_resps rw) + waits (rw_resp_queue rw) (rw_b rw)
     + length (xw_int_resp_queue w)"

lemma write_inv_beats:
  assumes "axi_write_inv cfg D mem0 target answers w rw mem" "sent_addrs w = []" "sent_data w = []"
  shows "all_beats w rw = []" "rw_data_queue rw = []" "target = mem"
proof -
  note inv = assms(1) [unfolded axi_write_inv_def]
  have "list_all2 (beat_match D (ax_bw cfg) (length mem)) (ram_beats rw @ []) (rw_data_queue rw @ [])"
    using inv assms(2,3) by (simp add: write_data_def all_beats_def)
  from ram_write_stopped_beats [OF _ this refl refl] inv
  show "all_beats w rw = []" "rw_data_queue rw = []" using assms(2) by (simp_all add: all_beats_def)
  then show "target = mem" using inv assms(3) by (auto simp: write_data_def)
qed

text \<open>The master at an edge.\<close>

lemma resp_frame_fields:
  assumes "resp_frame w' = resp_frame w"
  shows "xw_command_queue w' = xw_command_queue w" "xw_cur_id w' = xw_cur_id w" "xw_addr_queue w' = xw_addr_queue w"
    "xw_data_queue w' = xw_data_queue w" "xw_aw w' = xw_aw w" "xw_w w' = xw_w w" "xw_bready w' = xw_bready w"
  using assms by (cases w; cases w'; simp add: resp_frame_def)+

lemma master_write_step_ok:
  fixes pm pr :: axil_pause
  assumes "axi_write_inv cfg D mem0 target answers w rw mem" "xa_write r = rw"
  defines "aw \<equiv> ch_valid (xw_aw w) \<and> \<not> p_aw pr" and "wt \<equiv> ch_valid (xw_w w) \<and> \<not> p_w pr"
    and "b \<equiv> ch_valid (rw_b rw) \<and> \<not> p_b pm"
  shows "\<exists>n' w'. axi_master_write_step cfg pm (to_axi_master pr r) (n, w) = Inr (n', w')
    \<and> xw_command_queue w' = [] \<and> xw_bready w' \<and> xw_cur_id w' = xw_cur_id w
    \<and> n' - int (length (unanswered w')) = n - int (length (unanswered w))
    \<and> (\<forall>r \<in> set (xw_int_resp_queue w'). snd r = 0) \<and> (\<forall>f. xw_resp w' = Some f \<longrightarrow> wf_resp f = 0)
    \<and> axi_answers w' = answers \<and> (unanswered w' = [] \<or> (\<Sum>p\<leftarrow>unanswered w'. snd p) \<noteq> 0)
    \<and> (\<Sum>p\<leftarrow>unanswered w'. snd p) = length (ram_resps rw) + bursts_left (all_beats w rw)
    \<and> length (xw_int_resp_queue w') = (if b then 1 else 0)
    \<and> chan_ok (axi_addr_fits cfg) (xw_addr_queue w') (xw_aw w') \<and> chan_ok (axi_data_fits cfg) (xw_data_queue w') (xw_w w')
    \<and> sent_addrs w = (if aw then [ch_word (xw_aw w)] else []) @ sent_addrs w'
    \<and> sent_data w = (if wt then [ch_word (xw_w w)] else []) @ sent_data w'
    \<and> waits (xw_addr_queue w') (xw_aw w') \<le> (if aw then 1 else waits (xw_addr_queue w) (xw_aw w))
    \<and> waits (xw_data_queue w') (xw_w w') \<le> (if wt then 1 else waits (xw_data_queue w) (xw_w w))
    \<and> (unpaused pm \<longrightarrow> waits (xw_addr_queue w') (xw_aw w') = 0 \<and> waits (xw_data_queue w') (xw_w w') = 0)"
proof -
  note inv = assms(1) [unfolded axi_write_inv_def]
  obtain n' w1 where l: "axi_write_resp_logic (n, w) = Inr (n', w1)" "resp_ok w1" "axi_answers w1 = axi_answers w"
      "xw_int_resp_queue w1 = []" "resp_frame w1 = resp_frame w"
      "n' - int (length (unanswered w1)) = n - int (length (unanswered w))"
      "(\<Sum>p\<leftarrow>unanswered w1. snd p) = (\<Sum>p\<leftarrow>unanswered w. snd p) - length (xw_int_resp_queue w)"
      "unanswered w1 = [] \<or> (\<Sum>p\<leftarrow>unanswered w1. snd p) \<noteq> 0"
    using write_resp_loop_ok [of w n] inv by blast
  note f = resp_frame_fields [OF l(5)]
  obtain qa ca where a: "chan_step (p_aw pm) (rw_awready rw \<and> \<not> p_aw pr) (axi_addr_fits cfg) (xw_addr_queue w) (xw_aw w) = Inr (qa, ca)"
      "chan_ok (axi_addr_fits cfg) qa ca" "sent_addrs w = (if aw then [ch_word (xw_aw w)] else []) @ chan_words ca @ qa"
      "waits qa ca \<le> (if aw then 1 else waits (xw_addr_queue w) (xw_aw w))" "\<not> p_aw pm \<longrightarrow> waits qa ca = 0"
    using chan_step_ok [of "axi_addr_fits cfg" "xw_addr_queue w" "xw_aw w" "p_aw pm" "rw_awready rw \<and> \<not> p_aw pr"] inv
    unfolding sent_addrs_def aw_def by auto
  obtain qd cd where d: "chan_step (p_w pm) (rw_wready rw \<and> \<not> p_w pr) (axi_data_fits cfg) (xw_data_queue w) (xw_w w) = Inr (qd, cd)"
      "chan_ok (axi_data_fits cfg) qd cd" "sent_data w = (if wt then [ch_word (xw_w w)] else []) @ chan_words cd @ qd"
      "waits qd cd \<le> (if wt then 1 else waits (xw_data_queue w) (xw_w w))" "\<not> p_w pm \<longrightarrow> waits qd cd = 0"
    using chan_step_ok [of "axi_data_fits cfg" "xw_data_queue w" "xw_w w" "p_w pm" "rw_wready rw \<and> \<not> p_w pr"] inv
    unfolding sent_data_def wt_def by auto
  define w' where "w' = w1\<lparr>xw_addr_queue := qa, xw_aw := ca, xw_data_queue := qd, xw_w := cd,
    xw_int_resp_queue := (if b then [ch_word (rw_b rw)] else [])\<rparr>"
  have "axi_master_write_step cfg pm (to_axi_master pr r) (n, w) = Inr (n', w')"
    using l(1,4) f a(1) d(1) inv assms(2)
    by (cases w1) (simp add: axi_master_write_step_def to_axi_master_def axi_b_step_def w'_def b_def)
  moreover have "unanswered w' = unanswered w1" "axi_answers w' = axi_answers w1"
    by (simp_all add: w'_def unanswered_def axi_answers_def split: option.split)
  moreover have "ch_word (rw_b rw) \<in> set (ram_resps rw)" if b
    using that inv by (simp add: ram_resps_def chan_words_def chan_ok_def b_def)
  then have "snd (ch_word (rw_b rw)) = 0" if b using that inv by (auto simp: list_all_iff)
  ultimately show ?thesis
    using l(2,3,6-8) f a(2-) d(2-) inv
    by (intro exI [of _ n'] exI [of _ w'])
       (simp add: w'_def sent_addrs_def sent_data_def resp_ok_def unpaused_def)
qed

text \<open>The memory at an edge.\<close>

lemma waits_grow: "waits q' c \<le> waits q c + (length q' - length q)"
  by (cases q; cases q') (auto simp: waits_def)

lemma ram_write_frame_fields:
  assumes "ram_write_frame rw' = ram_write_frame rw"
  shows "rw_awready rw' = rw_awready rw" "rw_wready rw' = rw_wready rw" "rw_b rw' = rw_b rw"
  using assms by (cases rw; cases rw'; simp add: ram_write_frame_def)+

lemma ram_write_step_ok:
  fixes pm pr :: axil_pause
  assumes "axi_write_inv cfg D mem0 target answers w rw mem" "xm_write m = w" "mm_mem f = mem"
  defines "aw \<equiv> ch_valid (xw_aw w) \<and> \<not> p_aw pr" and "wt \<equiv> ch_valid (xw_w w) \<and> \<not> p_w pr"
    and "b \<equiv> ch_valid (rw_b rw) \<and> \<not> p_b pm"
  assumes "sent_addrs w = (if aw then [ch_word (xw_aw w)] else []) @ as"
    and "sent_data w = (if wt then [ch_word (xw_w w)] else []) @ ds"
  shows "\<exists>f' rw'. axi_ram_write_step cfg pr (to_axi_ram pm m) (length mem) (f, rw) = Inr (f', rw')
    \<and> length (mm_mem f') = length mem \<and> rw_awready rw' \<and> rw_wready rw' \<and> ram_write_stopped rw' \<and> ram_bursts_ok cfg rw'
    \<and> chan_ok (axi_b_fits cfg) (rw_resp_queue rw') (rw_b rw') \<and> list_all (\<lambda>r. snd r = 0) (ram_resps rw')
    \<and> write_data D (ax_bw cfg) mem0 target (ram_beats rw' @ bus_beats as) (rw_data_queue rw' @ ds) (mm_mem f')
    \<and> (if b then 1 else 0) + length (ram_resps rw') + bursts_left (ram_beats rw' @ bus_beats as)
        = length (ram_resps rw) + bursts_left (all_beats w rw)
    \<and> waits (rw_resp_queue rw') (rw_b rw') + bursts_left (ram_beats rw' @ bus_beats as)
        \<le> (if b then 1 else waits (rw_resp_queue rw) (rw_b rw)) + bursts_left (all_beats w rw)
    \<and> (unpaused pr \<longrightarrow> waits (rw_resp_queue rw') (rw_b rw') + bursts_left (ram_beats rw' @ bus_beats as)
        \<le> bursts_left (all_beats w rw))"
proof -
  note inv = assms(1) [unfolded axi_write_inv_def]
  obtain q c where b: "chan_step (p_b pr) (xw_bready w \<and> \<not> p_b pm) (axi_b_fits cfg) (rw_resp_queue rw) (rw_b rw) = Inr (q, c)"
      "chan_ok (axi_b_fits cfg) q c" "ram_resps rw = (if b then [ch_word (rw_b rw)] else []) @ chan_words c @ q"
      "waits q c \<le> (if b then 1 else waits (rw_resp_queue rw) (rw_b rw))" "\<not> p_b pr \<longrightarrow> waits q c = 0"
    using chan_step_ok [of "axi_b_fits cfg" "rw_resp_queue rw" "rw_b rw" "p_b pr" "xw_bready w \<and> \<not> p_b pm"] inv
    unfolding ram_resps_def b_def by auto
  have "list_all (\<lambda>r. snd r = 0) (ram_resps rw)" using inv by blast
  then have zero: "list_all (\<lambda>r. snd r = 0) (chan_words c @ q)" unfolding b(3) by simp
  define a1 where "a1 = (if aw then [burst_of (ch_word (xw_aw w))] else [])"
  define d1 where "d1 = (if wt then [ch_word (xw_w w)] else [])"
  define rw1 where "rw1 = rw\<lparr>rw_resp_queue := q, rw_b := c, rw_addr_queue := rw_addr_queue rw @ a1, rw_data_queue := rw_data_queue rw @ d1\<rparr>"
  have step: "axi_ram_write_step cfg pr (to_axi_ram pm m) (length mem) (f, rw) = axi_ram_write_logic (ax_bw cfg) (length mem) (f, rw1)"
    using b(1) inv assms(2)
    by (cases rw) (simp add: axi_ram_write_step_def to_axi_ram_def axi_w_if_def axi_aw_if_def rw1_def a1_def d1_def aw_def wt_def)
  have beats: "ram_beats rw1 @ bus_beats as = all_beats w rw" "rw_data_queue rw1 @ ds = rw_data_queue rw @ sent_data w"
    using assms(7,8) by (simp_all add: rw1_def ram_beats_def hand_beats_def all_beats_def a1_def d1_def)
  have "aw \<Longrightarrow> ch_busy (xw_aw w)" using inv by (simp add: aw_def chan_ok_def)
  then have "list_all (\<lambda>b. burst_ok (ax_bw cfg) b \<and> bu_id b < 2 ^ ax_id_bits cfg) a1"
    using inv assms(7) by (auto simp: a1_def chan_ok_def axi_addr_fits_def burst_of_def)
  moreover have "ram_bursts_ok cfg rw" using inv by blast
  ultimately have "ram_bursts_ok cfg rw1"
    using b(2) zero by (auto simp: ram_bursts_ok_def rw1_def list_all_iff chan_ok_def)
  then have "ram_write_inv cfg D mem0 target (bus_beats as) ds (length q + bursts_left (ram_beats rw1)) (f, rw1)"
    using inv beats assms(3) by (simp add: ram_write_inv_def) (simp add: rw1_def)
  from ram_write_loop_ok [OF this, of "length mem"] assms(3) obtain f' rw' where l:
      "axi_ram_write_logic (ax_bw cfg) (length mem) (f, rw1) = Inr (f', rw')"
      "ram_write_inv cfg D mem0 target (bus_beats as) ds (length q + bursts_left (ram_beats rw1)) (f', rw')"
      "ram_write_stopped rw'" "length (mm_mem f') = length mem" "ram_write_frame rw' = ram_write_frame rw1"
      "length q \<le> length (rw_resp_queue rw')" by (auto simp: rw1_def)
  note fr = ram_write_frame_fields [OF l(5)]
  have r: "rw_awready rw'" "rw_wready rw'" "rw_b rw' = c" using fr inv by (simp_all add: rw1_def)
  note li = l(2) [unfolded ram_write_inv_def prod.case]
  have "list_all (\<lambda>r. axi_b_fits cfg r \<and> snd r = 0) (rw_resp_queue rw')" using li by (simp add: ram_bursts_ok_def)
  then have z: "chan_ok (axi_b_fits cfg) (rw_resp_queue rw') c" "list_all (\<lambda>r. snd r = 0) (ram_resps rw')"
    using b(2) zero r(3) by (auto simp: chan_ok_def list_all_iff ram_resps_def)
  have B: "bursts_left (all_beats w rw) = bursts_left (ram_beats rw1) + bursts_left (bus_beats as)"
    using arg_cong [OF beats(1), of bursts_left] by simp
  have cnt: "length (rw_resp_queue rw') + bursts_left (ram_beats rw') = length q + bursts_left (ram_beats rw1)" using li by blast
  have R: "length (ram_resps rw) = (if b then 1 else 0) + length (chan_words c) + length q"
    "length (ram_resps rw') = length (chan_words c) + length (rw_resp_queue rw')"
    using b(3) r(3) by (simp_all add: ram_resps_def)
  have W: "waits (rw_resp_queue rw') c \<le> waits q c + (length (rw_resp_queue rw') - length q)" by (rule waits_grow)
  have "(if b then 1 else 0) + length (ram_resps rw') + bursts_left (ram_beats rw' @ bus_beats as)
      = length (ram_resps rw) + bursts_left (all_beats w rw)" using cnt R B by simp
  moreover have "waits (rw_resp_queue rw') (rw_b rw') + bursts_left (ram_beats rw' @ bus_beats as)
      \<le> waits q c + bursts_left (all_beats w rw)" using W cnt B l(6) r(3) by simp
  moreover from this have "waits (rw_resp_queue rw') (rw_b rw') + bursts_left (ram_beats rw' @ bus_beats as)
        \<le> (if b then 1 else waits (rw_resp_queue rw) (rw_b rw)) + bursts_left (all_beats w rw)" using b(4) by linarith
  moreover have "unpaused pr \<longrightarrow> waits (rw_resp_queue rw') (rw_b rw') + bursts_left (ram_beats rw' @ bus_beats as)
      \<le> bursts_left (all_beats w rw)" using calculation(2) b(5) by (auto simp: unpaused_def)
  moreover have "write_data D (ax_bw cfg) mem0 target (ram_beats rw' @ bus_beats as) (rw_data_queue rw' @ ds) (mm_mem f')"
    "ram_bursts_ok cfg rw'" using li by blast+
  ultimately show ?thesis
    using l(1,3,4) r z step by (intro exI [of _ f'] exI [of _ rw']) simp
qed

text \<open>An edge keeps what the memory will hold and the responses that are due.\<close>

lemma axi_write_edge:
  fixes m :: axi_master and r :: axi_ram
  assumes "axi_write_inv cfg D mem0 target answers (xm_write m) (xa_write r) (mm_mem f)"
  defines "w \<equiv> xm_write m" and "rw \<equiv> xa_write r"
  shows "\<exists>n' w' f' rw'. axi_master_write_step cfg pm (to_axi_master pr r) (n, w) = Inr (n', w')
    \<and> axi_ram_write_step cfg pr (to_axi_ram pm m) (length (mm_mem f)) (f, rw) = Inr (f', rw')
    \<and> axi_write_inv cfg D mem0 target answers w' rw' (mm_mem f') \<and> length (mm_mem f') = length (mm_mem f)
    \<and> n' - int (length (unanswered w')) = n - int (length (unanswered w))
    \<and> axi_write_work w' rw' \<le> axi_write_work w rw
    \<and> (unpaused pm \<and> unpaused pr \<longrightarrow> axi_write_work w' rw' \<le> axi_write_work w rw - 1)"
proof -
  define aw wt b where "aw \<longleftrightarrow> ch_valid (xw_aw w) \<and> \<not> p_aw pr" and "wt \<longleftrightarrow> ch_valid (xw_w w) \<and> \<not> p_w pr"
    and "b \<longleftrightarrow> ch_valid (rw_b rw) \<and> \<not> p_b pm"
  note inv = assms(1) [folded w_def rw_def, unfolded axi_write_inv_def]
  obtain n' w' where m': "axi_master_write_step cfg pm (to_axi_master pr r) (n, w) = Inr (n', w')"
    "xw_command_queue w' = []" "xw_bready w'" "xw_cur_id w' = xw_cur_id w"
    "n' - int (length (unanswered w')) = n - int (length (unanswered w))"
    "\<forall>r \<in> set (xw_int_resp_queue w'). snd r = 0" "\<forall>f. xw_resp w' = Some f \<longrightarrow> wf_resp f = 0"
    "axi_answers w' = answers" "unanswered w' = [] \<or> (\<Sum>p\<leftarrow>unanswered w'. snd p) \<noteq> 0"
    "(\<Sum>p\<leftarrow>unanswered w'. snd p) = length (ram_resps rw) + bursts_left (all_beats w rw)"
    "length (xw_int_resp_queue w') = (if b then 1 else 0)"
    "chan_ok (axi_addr_fits cfg) (xw_addr_queue w') (xw_aw w')" "chan_ok (axi_data_fits cfg) (xw_data_queue w') (xw_w w')"
    "sent_addrs w = (if aw then [ch_word (xw_aw w)] else []) @ sent_addrs w'"
    "sent_data w = (if wt then [ch_word (xw_w w)] else []) @ sent_data w'"
    "waits (xw_addr_queue w') (xw_aw w') \<le> (if aw then 1 else waits (xw_addr_queue w) (xw_aw w))"
    "waits (xw_data_queue w') (xw_w w') \<le> (if wt then 1 else waits (xw_data_queue w) (xw_w w))"
    "unpaused pm \<longrightarrow> waits (xw_addr_queue w') (xw_aw w') = 0 \<and> waits (xw_data_queue w') (xw_w w') = 0"
    using master_write_step_ok [OF assms(1) refl, of pm pr n] unfolding aw_def wt_def b_def w_def rw_def by blast
  obtain f' rw' where r': "axi_ram_write_step cfg pr (to_axi_ram pm m) (length (mm_mem f)) (f, rw) = Inr (f', rw')"
    "length (mm_mem f') = length (mm_mem f)" "rw_awready rw'" "rw_wready rw'" "ram_write_stopped rw'" "ram_bursts_ok cfg rw'"
    "chan_ok (axi_b_fits cfg) (rw_resp_queue rw') (rw_b rw')" "list_all (\<lambda>r. snd r = 0) (ram_resps rw')"
    "write_data D (ax_bw cfg) mem0 target (all_beats w' rw') (rw_data_queue rw' @ sent_data w') (mm_mem f')"
    "(if b then 1 else 0) + length (ram_resps rw') + bursts_left (all_beats w' rw')
      = length (ram_resps rw) + bursts_left (all_beats w rw)"
    "waits (rw_resp_queue rw') (rw_b rw') + bursts_left (all_beats w' rw')
      \<le> (if b then 1 else waits (rw_resp_queue rw) (rw_b rw)) + bursts_left (all_beats w rw)"
    "unpaused pr \<longrightarrow> waits (rw_resp_queue rw') (rw_b rw') + bursts_left (all_beats w' rw') \<le> bursts_left (all_beats w rw)"
    using ram_write_step_ok [OF assms(1) refl refl m'(14) [unfolded aw_def w_def rw_def] m'(15) [unfolded wt_def w_def rw_def]]
    unfolding all_beats_def aw_def wt_def b_def w_def rw_def by blast
  have cnt: "(\<Sum>p\<leftarrow>unanswered w'. snd p) = length (xw_int_resp_queue w') + length (ram_resps rw') + bursts_left (all_beats w' rw')"
    using m'(10,11) r'(10) by simp
  have "list_all (\<lambda>a. burst_ok (ax_bw cfg) (burst_of a)) (sent_addrs w)" using inv by blast
  then have "list_all (\<lambda>a. burst_ok (ax_bw cfg) (burst_of a)) (sent_addrs w')" using m'(14) by simp
  moreover have "resp_ok w'" using m'(6,7) cnt by (simp add: resp_ok_def)
  moreover have "axi_cfg_ok cfg (length (mm_mem f'))" "xw_cur_id w' < 2 ^ ax_id_bits cfg" using inv r'(2) m'(4) by simp_all
  ultimately have "axi_write_inv cfg D mem0 target answers w' rw' (mm_mem f')"
    unfolding axi_write_inv_def using m'(2,3,8,9,12,13) r'(3-9) cnt by (intro conjI) blast+
  moreover have "axi_write_work w' rw' \<le> axi_write_work w rw
    \<and> (unpaused pm \<and> unpaused pr \<longrightarrow> axi_write_work w' rw' \<le> axi_write_work w rw - 1)"
  proof -
    have A: "length (sent_addrs w) = (if aw then 1 else 0) + length (sent_addrs w')"
      and W: "length (sent_data w) = (if wt then 1 else 0) + length (sent_data w')"
      using m'(14,15) by simp_all
    have le: "axi_write_work w' rw' + (if aw then 1 else 0) + (if wt then 1 else 0) + (if b then 1 else 0)
        + length (xw_int_resp_queue w) \<le> axi_write_work w rw"
      using A W m'(11,16,17) r'(10,11) by (cases aw; cases wt; cases b; simp add: axi_write_work_def)
    have "axi_write_work w' rw' < axi_write_work w rw"
      if u: "unpaused pm" "unpaused pr" and none: "\<not> aw" "\<not> wt" "\<not> b" "xw_int_resp_queue w = []" "axi_write_work w rw \<noteq> 0"
    proof -
      have z: "waits (xw_addr_queue w') (xw_aw w') = 0" "waits (xw_data_queue w') (xw_w w') = 0"
          "waits (rw_resp_queue rw') (rw_b rw') + bursts_left (all_beats w' rw') \<le> bursts_left (all_beats w rw)"
        using m'(18) r'(12) u by simp_all
      have "\<not> ch_valid (xw_aw w)" "\<not> ch_valid (xw_w w)" "\<not> ch_valid (rw_b rw)"
        using none u by (auto simp: aw_def wt_def b_def unpaused_def)
      then have pos: "sent_addrs w \<noteq> [] \<Longrightarrow> waits (xw_addr_queue w) (xw_aw w) = 1"
          "sent_data w \<noteq> [] \<Longrightarrow> waits (xw_data_queue w) (xw_w w) = 1"
          "ram_resps rw \<noteq> [] \<Longrightarrow> waits (rw_resp_queue rw) (rw_b rw) = 1"
        by (simp_all add: sent_addrs_def sent_data_def ram_resps_def waits_def)
      have "sent_addrs w \<noteq> [] \<or> sent_data w \<noteq> [] \<or> ram_resps rw \<noteq> []"
      proof (rule ccontr)
        assume "\<not> ?thesis"
        then have e: "sent_addrs w = []" "sent_data w = []" "ram_resps rw = []" by simp_all
        then have "all_beats w rw = []" using write_inv_beats(1) [OF assms(1)] by (simp add: w_def rw_def)
        then show False using e none(4,5) by (simp add: axi_write_work_def waits_def sent_addrs_def sent_data_def ram_resps_def)
      qed
      then show ?thesis
        using A W m'(11,16,17) r'(10) z pos none by (auto simp: axi_write_work_def)
    qed
    then show ?thesis using le by (cases aw; cases wt; cases b; cases "xw_int_resp_queue w"; cases "axi_write_work w rw = 0") auto
  qed
  ultimately show ?thesis using m'(1,5) r'(1,2) by blast
qed


section \<open>Commands that write\<close>

lemma match_beats:
  assumes "map beat_last bs = map (\<lambda>d. snd (snd d)) ds" "list_all2 (beat_avoids D bw sz) (map beat_addr bs) ds"
  shows "list_all2 (beat_match D bw sz) bs ds"
proof -
  have len: "length bs = length ds" using assms(1) by (rule map_eq_imp_length_eq)
  have "beat_last (bs ! i) = snd (snd (ds ! i))" if "i < length bs" for i
    using arg_cong [OF assms(1), of "\<lambda>xs. xs ! i"] that len by simp
  then show ?thesis using assms(2) by (auto simp: list_all2_conv_all_nth beat_match_def)
qed

lemma write_data_target: "write_data D bw mem0 target bs ds mem \<Longrightarrow> length target = length mem"
  by (auto simp: write_data_def)

lemma axi_write_command_inv:
  fixes m :: axi_master
  assumes "axi_write_inv cfg D mem0 target answers (xm_write m) rw mem"
    and "axi_command_fits cfg addr (length data) s attr" "D \<inter> footprint (length mem) addr (length data) = {}"
  shows "\<exists>n' w'. axi_write_logic cfg (axi_init_write addr data s attr m) = Inr (m\<lparr>xm_in_flight := n', xm_write := w'\<rparr>)
    \<and> axi_write_inv cfg D mem0 (store addr data target) (answers @ [(addr, length data, at_prot attr, RESP_OKAY)]) w' rw mem
    \<and> n' - int (length (unanswered w')) = xm_in_flight m - int (length (unanswered (xm_write m)))"
proof -
  define w where "w = xm_write m"
  note inv = assms(1) [folded w_def, unfolded axi_write_inv_def]
  have cfg: "axi_cfg_ok cfg (length mem)" using inv by blast
  let ?m = "axi_init_write addr data s attr m"
  have id: "xw_cur_id (xm_write ?m) < 2 ^ ax_id_bits cfg" using inv by (simp add: axi_init_write_def w_def)
  from axi_write_command_ok [OF cfg assms(2) id assms(3)]
  obtain as ds i where c: "axi_write_command cfg (addr, data, s, attr) ?m = Inr (?m\<lparr>xm_in_flight := xm_in_flight ?m + 1,
      xm_write := (xm_write ?m)\<lparr>xw_cur_id := i, xw_addr_queue := xw_addr_queue (xm_write ?m) @ as,
        xw_data_queue := xw_data_queue (xm_write ?m) @ ds,
        xw_resp_command_queue := xw_resp_command_queue (xm_write ?m) @ [(addr, length data, length as, at_prot attr)]\<rparr>\<rparr>)"
    "i < 2 ^ ax_id_bits cfg" "list_all (axi_addr_fits cfg) as" "list_all (\<lambda>a. burst_ok (ax_bw cfg) (burst_of a)) as"
    "list_all (axi_data_fits cfg) ds" "map (\<lambda>d. snd (snd d)) ds = burst_flags as"
    "list_all2 (beat_avoids D (ax_bw cfg) (length mem)) (burst_addrs as) ds"
    "\<And>mem'. length mem' = length mem \<Longrightarrow> store_beats (ax_bw cfg) (burst_addrs as) ds mem' = store addr data mem'"
    by blast
  define w1 where "w1 = w\<lparr>xw_cur_id := i, xw_addr_queue := xw_addr_queue w @ as, xw_data_queue := xw_data_queue w @ ds,
        xw_resp_command_queue := xw_resp_command_queue w @ [(addr, length data, length as, at_prot attr)]\<rparr>"
  have un: "unanswered w1 = unanswered w @ [((addr, length data, at_prot attr), length as)]"
    by (simp add: w1_def unanswered_def split: option.split)
  have "resp_ok w" "axi_answers w = answers" using inv by blast+
  then have "resp_ok w1" and ans: "axi_answers w1 = answers @ [(addr, length data, at_prot attr, 0)]"
    by (auto simp: resp_ok_def axi_answers_def un okay_def) (auto simp: w1_def)
  from write_resp_loop_ok [OF this(1), of "xm_in_flight m + 1"] obtain n' w' where l:
    "axi_write_resp_logic (xm_in_flight m + 1, w1) = Inr (n', w')" "resp_ok w'" "axi_answers w' = axi_answers w1"
    "xw_int_resp_queue w' = []" "resp_frame w' = resp_frame w1"
    "n' - int (length (unanswered w')) = xm_in_flight m + 1 - int (length (unanswered w1))"
    "(\<Sum>p\<leftarrow>unanswered w'. snd p) = (\<Sum>p\<leftarrow>unanswered w1. snd p) - length (xw_int_resp_queue w1)"
    "unanswered w' = [] \<or> (\<Sum>p\<leftarrow>unanswered w'. snd p) \<noteq> 0" by blast
  note f = resp_frame_fields [OF l(5)]
  have "xm_write m = w" "xw_command_queue w = []" using inv by (simp_all add: w_def)
  then have step: "axi_write_logic cfg ?m = Inr (m\<lparr>xm_in_flight := n', xm_write := w'\<rparr>)"
    using c(1) l(1) by (cases m; cases w) (simp add: axi_write_logic_def axi_init_write_def w1_def)
  have sent: "sent_addrs w' = sent_addrs w @ as" "sent_data w' = sent_data w @ ds"
    using f by (simp_all add: sent_addrs_def sent_data_def w1_def)
  have "write_data D (ax_bw cfg) mem0 target (all_beats w rw) (rw_data_queue rw @ sent_data w) mem" using inv by blast
  from store_beats_agree_append [OF this match_beats, of "bus_beats as" ds]
  have data: "write_data D (ax_bw cfg) mem0 (store addr data target) (all_beats w' rw) (rw_data_queue rw @ sent_data w') mem"
    using c(6-8) write_data_target [OF \<open>write_data D _ mem0 target _ _ mem\<close>]
    by (simp add: bus_beats_flags bus_beats_addrs all_beats_def sent)
  have "chan_ok (axi_addr_fits cfg) (xw_addr_queue w) (xw_aw w)" "chan_ok (axi_data_fits cfg) (xw_data_queue w) (xw_w w)"
    "list_all (\<lambda>a. burst_ok (ax_bw cfg) (burst_of a)) (sent_addrs w)" using inv by blast+
  then have ok: "chan_ok (axi_addr_fits cfg) (xw_addr_queue w') (xw_aw w')" "chan_ok (axi_data_fits cfg) (xw_data_queue w') (xw_w w')"
    "list_all (\<lambda>a. burst_ok (ax_bw cfg) (burst_of a)) (sent_addrs w')"
    using c(3-5) f sent by (simp_all add: chan_ok_def w1_def)
  have "(\<Sum>p\<leftarrow>unanswered w. snd p) = length (xw_int_resp_queue w) + length (ram_resps rw) + bursts_left (all_beats w rw)"
    using inv by blast
  then have "(\<Sum>p\<leftarrow>unanswered w'. snd p) = length (xw_int_resp_queue w') + length (ram_resps rw) + bursts_left (all_beats w' rw)"
    using l(4,7) un by (simp add: all_beats_def sent bursts_left_bus) (simp add: w1_def)
  moreover have "xw_command_queue w' = []" "xw_bready w'" "xw_cur_id w' < 2 ^ ax_id_bits cfg"
    using f inv c(2) by (simp_all add: w1_def)
  ultimately have "axi_write_inv cfg D mem0 (store addr data target) (answers @ [(addr, length data, at_prot attr, RESP_OKAY)]) w' rw mem"
    unfolding axi_write_inv_def RESP_OKAY_def using inv l(2,3,8) ans data ok by (intro conjI; (blast | simp only: ans))
  then show ?thesis using step l(6) un by (auto simp: w_def)
qed

text \<open>Nothing under way.\<close>

lemma write_work_0:
  assumes "axi_write_inv cfg D mem0 target answers w rw mem" "axi_write_work w rw = 0"
  shows "unanswered w = []"
proof -
  note inv = assms(1) [unfolded axi_write_inv_def]
  have "(\<Sum>p\<leftarrow>unanswered w. snd p) = length (xw_int_resp_queue w) + length (ram_resps rw) + bursts_left (all_beats w rw)"
    using inv by blast
  then have "(\<Sum>p\<leftarrow>unanswered w. snd p) = 0" using assms(2) by (simp add: axi_write_work_def)
  then show ?thesis using inv by blast
qed

lemma bursts_left_queue [simp]: "bursts_left (concat (map burst_beats bs)) = length bs"
  by (induction bs) (simp_all add: burst_beats_def)

lemma write_idle:
  assumes "axi_write_inv cfg D mem0 target answers w rw mem" "unanswered w = []"
  shows "target = mem" "xw_resp_queue w = answers" "axi_write_inv cfg D' mem mem answers w rw mem"
proof -
  note inv = assms(1) [unfolded axi_write_inv_def]
  have "0 = length (xw_int_resp_queue w) + length (ram_resps rw) + bursts_left (all_beats w rw)"
    using inv assms(2) by (metis list.simps(8) sum_list.Nil)
  then have z: "bursts_left (hand_beats rw) = 0" "rw_addr_queue rw = []" "sent_addrs w = []"
    by (simp_all add: all_beats_def ram_beats_def bursts_left_bus)
  have "hand_beats rw = []"
    using z(1) by (auto simp: hand_beats_def split: option.splits if_splits)
  then have b: "all_beats w rw = []" using z by (simp add: all_beats_def ram_beats_def)
  have data: "write_data D (ax_bw cfg) mem0 target [] (rw_data_queue rw @ sent_data w) mem" using inv b by simp
  then have d: "rw_data_queue rw @ sent_data w = []" using write_data_length by fastforce
  then show t: "target = mem" using data by (simp add: write_data_def)
  show "xw_resp_queue w = answers" using inv assms(2) by (simp add: axi_answers_def)
  have "write_data D' (ax_bw cfg) mem mem (all_beats w rw) (rw_data_queue rw @ sent_data w) mem"
    unfolding b d by (simp add: write_data_def agree_def)
  then show "axi_write_inv cfg D' mem mem answers w rw mem"
    unfolding axi_write_inv_def using inv by (intro conjI) blast+
qed

end
