(* ===== verification/Axi_Read.thy ===== *)
theory Axi_Read
  imports Axi_Write
begin

text \<open>
  Reads over AXI: the beats that the master waits for, in the order of the bursts of its commands, the words that
  the memory has served for the first of them, and the process that sorts the words by identifier and puts
  the octets together.  All that is required of the memory is that it agrees with \<open>mem0\<close> on the positions
  \<open>D\<close> that are read, so the writes that go on meanwhile do not matter.
\<close>

section \<open>The beats of a list of bursts\<close>

fun list_beats :: "nat \<Rightarrow> nat \<Rightarrow> (nat \<times> nat) list \<Rightarrow> axi_beat list" where
  \<comment> \<open>bursts, by identifier and length, one after the other\<close>
  "list_beats s a [] = []"
| "list_beats s a ((i, n) # bs) = beats_from i a s n @ list_beats s (a + n * 2 ^ s) bs"

lemma length_list_beats: "length (list_beats s a bs) = (\<Sum>b\<leftarrow>bs. snd b)"
  by (induction s a bs rule: list_beats.induct) simp_all

lemma bursts_beats:
  assumes "beat_octets nb" "nb = 2 ^ s" "cur mod nb = 0"
  shows "bus_beats (axi_bursts cfg mbl s nb attr left cur i)
    = list_beats s cur (map (\<lambda>a. (ad_id a, ad_len a + 1)) (axi_bursts cfg mbl s nb attr left cur i))"
  using assms(3)
proof (induction left arbitrary: cur i rule: less_induct)
  case (less left)
  show ?case
  proof (cases "left = 0")
    case False
    then have pos: "0 < left" by simp
    define n where "n = axi_burst_length mbl left nb cur"
    note l = burst_length [OF assms(1) less.prems pos, where mbl = mbl, folded n_def]
    note new = bursts_new [OF assms(1) less.prems pos, where cfg = cfg and mbl = mbl and sz = s and attr = attr and i = i,
        folded n_def]
    have "(cur + n * nb) mod nb = 0" using less.prems by simp
    from less.IH [OF _ this] show ?thesis using l pos unfolding new
      by (simp add: burst_beats_def burst_of_def assms(2))
  qed simp
qed

section \<open>The words of the memory\<close>

text \<open>The octets of a word that the beat asks for are those of \<open>mem0\<close> at the positions \<open>D\<close>.\<close>

definition beat_data :: "nat \<Rightarrow> axi_beat \<Rightarrow> axi_rword \<Rightarrow> bytes" where
  "beat_data bw b w = (case b of (i, a, s, l) \<Rightarrow> unpack_octets (fst (snd w)) (a mod bw) (a mod bw + 2 ^ s))"

definition good_word :: "nat set \<Rightarrow> nat \<Rightarrow> bytes \<Rightarrow> axi_beat \<Rightarrow> axi_rword \<Rightarrow> bool" where
  "good_word D bw mem0 b w \<longleftrightarrow> (case b of (i, a, s, l) \<Rightarrow> case w of (i', d, r, l') \<Rightarrow>
     i' = i \<and> r = 0 \<and> l' = l
     \<and> (\<forall>x < 2 ^ s. (a + x) mod length mem0 \<in> D \<longrightarrow> beat_data bw b w ! x = mem0 ! ((a + x) mod length mem0)))"

lemma good_wordI:
  assumes "axi_cfg_ok cfg (length mem)" "bw = ax_bw cfg" "agree D mem mem0" "2 ^ s \<le> bw" "a mod 2 ^ s = 0" "a < 2 ^ 53"
  shows "good_word D bw mem0 (i, a, s, l) (i, word_at bw (word_pos bw (length mem) a) mem, 0, l)"
proof -
  note cfg = axi_cfg_okD [OF assms(1), folded assms(2)]
  let ?p = "word_pos bw (length mem) a"
  have p: "?p + bw \<le> length mem" unfolding word_pos_def using cfg(4,5) by (intro aligned_fits) simp_all
  have "2 ^ s dvd bw"
  proof -
    have "2 ^ s \<le> (2 :: nat) ^ log2 bw" using assms(4) log2_power [OF cfg(1)] by simp
    then have "s \<le> log2 bw" by (rule power_le_imp_le_exp [rotated]) simp
    then have "2 ^ s dvd (2 :: nat) ^ log2 bw" by (rule le_imp_power_dvd)
    then show ?thesis using log2_power [OF cfg(1)] by simp
  qed
  note w = same_word [OF this cfg(2) assms(5)]
  have pos: "?p = (a div bw * bw) mod length mem" using assms(6) by (simp add: word_pos_def int_div_exact)
  have "unpack_octets (word_at bw ?p mem) (a mod bw) (a mod bw + 2 ^ s) ! x = mem ! ((a + x) mod length mem)" if "x < 2 ^ s" for x
  proof -
    have "a mod bw + x < bw" using w(1) [of 0] that by simp
    then have "?p + (a mod bw + x) < length mem" using p by linarith
    then have "?p + (a mod bw + x) = (?p + (a mod bw + x)) mod length mem" by simp
    also have "\<dots> = (a div bw * bw + (a mod bw + x)) mod length mem" unfolding pos by (rule mod_add_left_eq)
    also have "a div bw * bw + (a mod bw + x) = a + x" by simp
    finally have "?p + (a mod bw + x) = (a + x) mod length mem" .
    moreover have "unpack_octets (word_at bw ?p mem) (a mod bw) (a mod bw + 2 ^ s) = map (\<lambda>i. mem ! (?p + i)) [a mod bw..<a mod bw + 2 ^ s]"
      by (rule unpack_word [OF _ p]) (use w(1) [of 0] in simp)
    ultimately show ?thesis using that by (simp add: add.assoc)
  qed
  then show ?thesis using assms(3) by (simp add: good_word_def beat_data_def agree_def)
qed

lemma read_beats_ok:
  assumes "axi_cfg_ok cfg sz" "bw = ax_bw cfg" "bu_burst b = BURST_INCR" "2 ^ bu_size b \<le> bw" "bu_id b < 2 ^ ax_id_bits cfg"
    and "length (mm_mem f) = sz" "agree D (mm_mem f) mem0" "left + n = bu_len b + 1"
    and "cur mod 2 ^ bu_size b = 0" "left = 0 \<or> cur + (left - 1) * 2 ^ bu_size b < 2 ^ 53"
  shows "\<exists>ws f'. axi_read_beats bw sz b left n cur f = Inr (ws, f') \<and> mm_mem f' = mm_mem f
    \<and> list_all2 (good_word D bw mem0) (beats_from (bu_id b) cur (bu_size b) left) ws \<and> list_all (axi_r_fits cfg) ws"
  using assms(6-)
proof (induction left arbitrary: n cur f)
  case (Suc left)
  note cfg = axi_cfg_okD [OF assms(1), folded assms(2)]
  let ?p = "word_pos bw sz cur" and ?nb = "2 ^ bu_size b :: nat"
  have p: "?p + bw \<le> length (mm_mem f)" unfolding word_pos_def using cfg(4,5) Suc.prems(1) by (simp, intro aligned_fits) simp_all
  let ?f = "\<lparr>mm_mem = mm_mem f, mm_pos = ?p + bw\<rparr>" and ?d = "take bw (drop ?p (mm_mem f))"
  have "mm_seek (int_div cur bw * bw mod sz) f = Inr \<lparr>mm_mem = mm_mem f, mm_pos = ?p\<rparr>"
    using p by (simp add: mm_seek_def word_pos_def)
  moreover have "mm_read bw \<lparr>mm_mem = mm_mem f, mm_pos = ?p\<rparr> = (?d, ?f)" using p by (simp add: mm_read_def min_absorb2)
  moreover have "join_octets ?d (rev [0..<bw]) 0 = Inr (word_at bw ?p (mm_mem f))"
    using join_octets_eq [of bw ?d 0] p by (simp add: word_at_def)
  moreover have "burst_next b cur = cur + ?nb" using assms(3) by (rule burst_next_incr)
  moreover have "left = 0 \<or> cur + ?nb + (left - 1) * ?nb < 2 ^ 53" using Suc.prems(5) by (cases left) simp_all
  then obtain ws f' where ws: "axi_read_beats bw sz b left (n + 1) (cur + ?nb) ?f = Inr (ws, f')" "mm_mem f' = mm_mem f"
      "list_all2 (good_word D bw mem0) (beats_from (bu_id b) (cur + ?nb) (bu_size b) left) ws" "list_all (axi_r_fits cfg) ws"
    using Suc.IH [of ?f "n + 1" "cur + ?nb"] Suc.prems by auto
  moreover have "n = bu_len b \<longleftrightarrow> left = 0" using Suc.prems(3) by auto
  then have "good_word D bw mem0 (bu_id b, cur, bu_size b, left = 0) (bu_id b, word_at bw ?p (mm_mem f), 0, n = bu_len b)"
    using good_wordI [of cfg "mm_mem f" bw D mem0 "bu_size b" cur "bu_id b" "left = 0"] assms(1-4) Suc.prems by simp
  moreover have "axi_r_fits cfg (bu_id b, word_at bw ?p (mm_mem f), 0, n = bu_len b)"
    using assms(2,5) word_at_fits [of bw] by (simp add: axi_r_fits_def fits_def)
  ultimately show ?case by (simp add: beats_from_Suc)
qed simp

lemma ram_read_logic_ok:
  assumes "axi_cfg_ok cfg sz" "bw = ax_bw cfg" "length (mm_mem f) = sz" "agree D (mm_mem f) mem0"
    and "list_all (\<lambda>b. burst_ok bw b \<and> bu_id b < 2 ^ ax_id_bits cfg) bs"
  shows "\<exists>ws f'. axi_ram_read_logic bw sz bs f = Inr (ws, f') \<and> mm_mem f' = mm_mem f
    \<and> list_all2 (good_word D bw mem0) (concat (map burst_beats bs)) ws \<and> list_all (axi_r_fits cfg) ws"
  using assms(3-)
proof (induction bs arbitrary: f)
  case (Cons b bs)
  then have b: "burst_ok bw b" "bu_id b < 2 ^ ax_id_bits cfg" by simp_all
  have "2 ^ bu_size b * (bu_len b + 1) \<le> 0x1000 - bu_addr b mod 0x1000" "bu_addr b < 2 ^ 52" using b(1) by (simp_all add: burst_ok_def)
  then have "2 ^ bu_size b * bu_len b \<le> 0x1000" by simp
  moreover have "(2 :: nat) ^ 52 + 0x1000 \<le> 2 ^ 53" by simp
  ultimately have bound: "bu_addr b + (bu_len b + 1 - 1) * 2 ^ bu_size b < 2 ^ 53"
    using \<open>bu_addr b < 2 ^ 52\<close> by (simp only: mult.commute [of _ "2 ^ bu_size b"] add_diff_cancel_right')
  obtain ws f1 where 1: "axi_read_beats bw sz b (bu_len b + 1) 0 (bu_addr b) f = Inr (ws, f1)" "mm_mem f1 = mm_mem f"
      "list_all2 (good_word D bw mem0) (burst_beats b) ws" "list_all (axi_r_fits cfg) ws"
    using read_beats_ok [OF assms(1,2) _ _ b(2) Cons.prems(1,2), of "bu_len b + 1" 0 "bu_addr b"] b(1) bound
    unfolding burst_beats_def by (auto simp: burst_ok_def)
  obtain ws' f2 where 2: "axi_ram_read_logic bw sz bs f1 = Inr (ws', f2)" "mm_mem f2 = mm_mem f1"
      "list_all2 (good_word D bw mem0) (concat (map burst_beats bs)) ws'" "list_all (axi_r_fits cfg) ws'"
    using Cons.IH [of f1] Cons.prems 1(2) by auto
  show ?case using 1 2 b(1) by (simp add: burst_start_ok list_all2_appendI)
qed simp


section \<open>The responses to reads\<close>

interpretation rresp: process_loop "axi_read_resp_round bw" "axi_read_resp_logic bw" read_resp_rounds for bw
proof
  fix s s' :: "int \<times> axi_master_read"
  show "axi_read_resp_logic bw s = (case axi_read_resp_round bw s of None \<Rightarrow> Inr s
      | Some r \<Rightarrow> (case r of Inl e \<Rightarrow> Inl e | Inr s' \<Rightarrow> axi_read_resp_logic bw s'))"
    by (rule axi_read_resp_logic.simps)
  assume "axi_read_resp_round bw s = Some (Inr s')"
  then show "read_resp_rounds s' < read_resp_rounds s" by (rule read_resp_round_decreases)
qed

definition frame_next :: "axi_read_frame \<Rightarrow> nat" where
  \<comment> \<open>the address of the next beat\<close>
  "frame_next f = (case xf_command f of (addr, len, s, prot) \<Rightarrow>
     if xf_first f then addr div 2 ^ s * 2 ^ s else addr + length (xf_data f))"

definition frame_bursts :: "axi_read_frame \<Rightarrow> (nat \<times> nat) list" where
  "frame_bursts f = (case xf_burst f of None \<Rightarrow> [] | Some (i, n, k) \<Rightarrow> [(i, n - k)]) @ xf_bursts f"

definition expected_beats :: "axi_read_frame \<Rightarrow> axi_beat list" where
  "expected_beats f = (case xf_command f of (addr, len, s, prot) \<Rightarrow> list_beats s (frame_next f) (frame_bursts f))"

definition command_beat_list :: "nat \<times> nat \<times> nat \<times> nat \<times> int \<times> (nat \<times> nat) list \<Rightarrow> axi_beat list" where
  "command_beat_list c = (case c of (addr, len, s, cycles, prot, bs) \<Rightarrow> list_beats s (addr div 2 ^ s * 2 ^ s) bs)"

definition read_beats :: "axi_master_read \<Rightarrow> axi_beat list" where
  \<comment> \<open>the beats that the master still waits for\<close>
  "read_beats r = (case xr_resp r of None \<Rightarrow> [] | Some f \<Rightarrow> expected_beats f)
     @ concat (map command_beat_list (xr_resp_command_queue r))"

definition unread :: "axi_master_read \<Rightarrow> (nat \<times> nat \<times> int) list" where
  "unread r = (case xr_resp r of None \<Rightarrow> [] | Some f \<Rightarrow> (case xf_command f of (addr, len, s, prot) \<Rightarrow> [(addr, len, prot)]))
     @ map (\<lambda>(addr, len, s, cycles, prot, bs). (addr, len, prot)) (xr_resp_command_queue r)"

definition axi_results :: "bytes \<Rightarrow> axi_master_read \<Rightarrow> (nat \<times> bytes \<times> int \<times> int) list" where
  "axi_results mem0 r = xr_data_queue r @ map (\<lambda>(addr, len, prot). (addr, load addr len mem0, prot, RESP_OKAY)) (unread r)"

definition read_fits :: "nat set \<Rightarrow> nat \<Rightarrow> bytes \<Rightarrow> nat \<Rightarrow> nat \<Rightarrow> nat \<Rightarrow> nat \<Rightarrow> (nat \<times> nat) list \<Rightarrow> bool" where
  \<comment> \<open>the bursts from address \<open>a\<close> on cover a read of positions in \<open>D\<close>\<close>
  "read_fits D bw mem0 addr len s a bs \<longleftrightarrow>
     s \<le> log2 bw \<and> a mod 2 ^ s = 0 \<and> addr + len \<le> a + (\<Sum>b\<leftarrow>bs. snd b) * 2 ^ s \<and> addr + len < 2 ^ 52
     \<and> footprint (length mem0) addr len \<subseteq> D"

definition frame_ok :: "nat set \<Rightarrow> nat \<Rightarrow> bytes \<Rightarrow> axi_read_frame \<Rightarrow> bool" where
  "frame_ok D bw mem0 f \<longleftrightarrow> (case xf_command f of (addr, len, s, prot) \<Rightarrow>
     read_fits D bw mem0 addr len s (frame_next f) (frame_bursts f)
     \<and> xf_offset f = frame_next f mod bw \<and> xf_resp f = 0 \<and> (xf_first f \<longrightarrow> xf_data f = [])
     \<and> (\<forall>j < length (xf_data f). (addr + j) mod length mem0 \<in> D \<longrightarrow> xf_data f ! j = mem0 ! ((addr + j) mod length mem0)))"

definition reads_ok :: "nat set \<Rightarrow> nat \<Rightarrow> bytes \<Rightarrow> axi_master_read \<Rightarrow> bool" where
  "reads_ok D bw mem0 r \<longleftrightarrow> (\<forall>f. xr_resp r = Some f \<longrightarrow> frame_ok D bw mem0 f)
     \<and> list_all (\<lambda>(addr, len, s, cycles, prot, bs). read_fits D bw mem0 addr len s (addr div 2 ^ s * 2 ^ s) bs) (xr_resp_command_queue r)"

definition arrived :: "axi_rword list \<Rightarrow> axi_master_read \<Rightarrow> bool" where
  \<comment> \<open>these words, sorted by identifier, are in the dictionary\<close>
  "arrived ws r \<longleftrightarrow> (\<forall>i. xr_resp_queue_list r i = filter (\<lambda>w. fst w = i) ws)"

definition reads_due :: "nat set \<Rightarrow> nat \<Rightarrow> bytes \<Rightarrow> axi_beat list \<Rightarrow> axi_rword list \<Rightarrow> axi_beat list \<Rightarrow> bool" where
  \<comment> \<open>of the beats that the master waits for, the first have these words, the memory has yet to serve the others\<close>
  "reads_due D bw mem0 bs ws later \<longleftrightarrow> (\<exists>bs'. bs = bs' @ later \<and> list_all2 (good_word D bw mem0) bs' ws)"

lemma reads_due_Cons:
  assumes "reads_due D bw mem0 (b # bs) (w # ws) later"
  shows "good_word D bw mem0 b w \<and> reads_due D bw mem0 bs ws later"
  using assms by (auto simp: reads_due_def append_eq_Cons_conv list_all2_Cons2)

definition read_resp_inv ::
    "nat set \<Rightarrow> nat \<Rightarrow> bytes \<Rightarrow> (nat \<times> bytes \<times> int \<times> int) list \<Rightarrow> axi_rword list \<Rightarrow> axi_beat list \<Rightarrow> int \<Rightarrow>
     int \<times> axi_master_read \<Rightarrow> bool" where
  "read_resp_inv D bw mem0 results ws later n s \<longleftrightarrow> (case s of (n', r) \<Rightarrow>
     reads_ok D bw mem0 r \<and> axi_results mem0 r = results \<and> n' - int (length (unread r)) = n
     \<and> (\<exists>vs. arrived vs r \<and> reads_due D bw mem0 (read_beats r) (vs @ ws) later))"

definition read_side_frame :: "axi_master_read \<Rightarrow> axi_master_read" where
  \<comment> \<open>what the responses do not touch\<close>
  "read_side_frame r = r\<lparr>xr_data_queue := [], xr_resp_command_queue := [], xr_resp_queue_list := (\<lambda>_. []), xr_resp := None\<rparr>"

text \<open>A word for the beat at hand.\<close>

lemma take_beat_ok:
  assumes "frame_ok D bw mem0 f" "xf_burst f = Some (i, n, k)" "k < n" "beat_octets bw" "bw dvd length mem0"
    and "xf_command f = (addr, len, s, prot)" "good_word D bw mem0 (i, frame_next f, s, k + 1 = n) w"
  shows "\<exists>f'. take_beat bw w (i, n, k) f = Inr f' \<and> frame_ok D bw mem0 f' \<and> xf_command f' = xf_command f
    \<and> expected_beats f = (i, frame_next f, s, k + 1 = n) # expected_beats f'"
proof -
  obtain i' d r l where w: "w = (i', d, r, l)" by (cases w)
  define a where "a = frame_next f"
  define nb where "nb = (2 :: nat) ^ s"
  note ok = assms(1) [unfolded frame_ok_def assms(6) prod.case read_fits_def, folded a_def nb_def]
  note good = assms(7) [unfolded good_word_def w prod.case, folded a_def nb_def]
  have bw: "0 < bw" using assms(4) by (auto simp: beat_octets_def)
  have "nb dvd 2 ^ log2 bw" unfolding nb_def using ok by (intro le_imp_power_dvd) blast
  then have nb: "nb dvd bw" "0 < nb" using log2_power [OF assms(4)] by (simp_all add: nb_def)
  have fits: "a mod bw + nb \<le> bw" using same_word(1) [OF nb(1) bw _ nb(2), of a] ok by simp
  define skip where "skip = (if xf_first f then addr - a else 0)"
  have at: "addr + length (xf_data f) = a + skip" "skip < nb" "a \<le> addr" if "xf_first f"
  proof -
    have a: "a = addr div nb * nb" "xf_data f = []" using that ok by (simp_all add: a_def frame_next_def assms(6) nb_def)
    then have "a + addr mod nb = addr" by simp
    moreover from this show "a \<le> addr" by linarith
    moreover have "addr mod nb < nb" using nb(2) by (rule mod_less_divisor)
    moreover have "skip = addr - a" using that by (simp add: skip_def)
    ultimately show "addr + length (xf_data f) = a + skip" "skip < nb" using a(2) by simp_all
  qed
  have pos: "addr + length (xf_data f) = a + skip" "skip < nb"
  proof -
    have "\<not> xf_first f \<Longrightarrow> frame_next f = addr + length (xf_data f)" by (simp add: frame_next_def assms(6))
    then have "\<not> xf_first f \<Longrightarrow> a = addr + length (xf_data f) \<and> skip = 0" by (simp add: a_def skip_def)
    then show "addr + length (xf_data f) = a + skip" "skip < nb" using at nb(2) by (metis add_0_right)+
  qed
  have start: "(if xf_first f then addr mod bw else xf_offset f) = a mod bw + skip"
  proof (cases "xf_first f")
    case True
    then have "xf_data f = []" using ok by blast
    then have "addr = a + skip" using pos(1) by (simp only: list.size add_0_right)
    then show ?thesis using True same_word(2) [OF nb(1) bw _ pos(2), of a] ok by simp
  qed (use ok in \<open>simp add: skip_def a_def\<close>)
  let ?U = "unpack_octets d (a mod bw) (a mod bw + nb)"
  have U: "length ?U = nb" by (simp add: unpack_octets_def)
  have drop: "unpack_octets d (a mod bw + skip) (a mod bw + nb) = drop skip ?U"
    by (simp add: unpack_octets_def drop_map)
  define f' where "f' = f\<lparr>xf_burst := Some (i, n, k + 1), xf_resp := 0, xf_data := xf_data f @ drop skip ?U,
    xf_offset := (xf_offset f + nb) mod bw, xf_first := False\<rparr>"
  have "xf_offset f = a mod bw" using ok by (simp add: a_def)
  then have "take_beat bw w (i, n, k) f = Inr f'"
    using good ok start drop by (simp add: take_beat_def assms(6) w Let_def nb_def [symmetric] f'_def)
  moreover have nx: "frame_next f' = a + nb"
    using pos U by (simp add: frame_next_def f'_def assms(6))
  have bursts: "frame_bursts f = (i, n - k) # xf_bursts f" "frame_bursts f' = (i, n - k - 1) # xf_bursts f"
    using assms(2) by (simp_all add: frame_bursts_def f'_def)
  have "n - k = Suc (n - k - 1)" "n - k - 1 = 0 \<longleftrightarrow> k + 1 = n" using assms(3) by auto
  then have "expected_beats f = (i, a, s, k + 1 = n) # expected_beats f'"
    using bursts nx beats_from_Suc [of i a s "n - k - 1"]
    by (simp add: expected_beats_def assms(6) f'_def a_def [symmetric] nb_def [symmetric] add.assoc mult_Suc)
  moreover have "frame_ok D bw mem0 f'"
  proof -
    have "(xf_offset f + nb) mod bw = (a + nb) mod bw" using ok by (simp add: mod_add_left_eq a_def)
    moreover have "addr + len \<le> a + nb + (\<Sum>b\<leftarrow>frame_bursts f'. snd b) * nb"
    proof -
      have "addr + len \<le> a + (\<Sum>b\<leftarrow>frame_bursts f. snd b) * nb" using ok by blast
      then show ?thesis using assms(3) by (simp add: bursts add_mult_distrib diff_mult_distrib)
    qed
    moreover have "(xf_data f @ drop skip ?U) ! j = mem0 ! ((addr + j) mod length mem0)"
      if "j < length (xf_data f @ drop skip ?U)" "(addr + j) mod length mem0 \<in> D" for j
    proof (cases "j < length (xf_data f)")
      case True
      then show ?thesis using ok that(2) by (simp add: nth_append)
    next
      case False
      define x where "x = skip + (j - length (xf_data f))"
      have x: "x < nb" "a + x = addr + j" using that(1) False U pos by (auto simp: x_def)
      then have "?U ! x = mem0 ! ((addr + j) mod length mem0)"
        using good that(2) by (simp add: beat_data_def nb_def [symmetric])
      then show ?thesis using False that(1) U by (simp add: nth_append x_def)
    qed
    moreover have "(a + nb) mod nb = 0" using ok by simp
    ultimately show ?thesis
      using ok unfolding frame_ok_def read_fits_def nx by (simp add: f'_def assms(6) nb_def [symmetric])
  qed
  ultimately show ?thesis by (simp add: f'_def a_def)
qed


text \<open>The rounds: a command is begun, a burst is begun or left, a word is taken, a command is answered.\<close>

lemma frame_cong:
  assumes "xf_command f' = xf_command f" "xf_first f' = xf_first f" "xf_data f' = xf_data f" "xf_offset f' = xf_offset f"
    "xf_resp f' = xf_resp f"
    and "list_beats s a (frame_bursts f') = list_beats s a (frame_bursts f)" "(\<Sum>b\<leftarrow>frame_bursts f'. snd b) = (\<Sum>b\<leftarrow>frame_bursts f. snd b)"
    and "xf_command f = (addr, len, s, prot)" "a = frame_next f"
  shows "frame_ok D bw mem0 f' = frame_ok D bw mem0 f" "expected_beats f' = expected_beats f"
proof -
  have n: "frame_next f' = a" unfolding assms(9) frame_next_def assms(1-3) ..
  show "frame_ok D bw mem0 f' = frame_ok D bw mem0 f"
    using assms n by (simp add: frame_ok_def read_fits_def)
  show "expected_beats f' = expected_beats f" using assms n by (simp add: expected_beats_def)
qed

lemma frame_done:
  assumes "frame_ok D bw mem0 f" "xf_command f = (addr, len, s, prot)" "frame_bursts f = []"
  shows "take len (xf_data f) = load addr len mem0"
proof -
  note ok = assms(1) [unfolded frame_ok_def assms(2) prod.case read_fits_def assms(3)]
  have len: "len \<le> length (xf_data f)"
  proof (cases "xf_first f")
    case True
    then have "addr + len \<le> addr div 2 ^ s * 2 ^ s" using ok by (simp add: frame_next_def assms(2))
    also have "\<dots> \<le> addr" by simp
    finally show ?thesis by simp
  next
    case False
    then show ?thesis using ok by (simp add: frame_next_def assms(2))
  qed
  show ?thesis
  proof (rule nth_equalityI)
    show "length (take len (xf_data f)) = length (load addr len mem0)" using len by simp
    fix j assume "j < length (take len (xf_data f))"
    then have j: "j < len" by simp
    then have "(addr + j) mod length mem0 \<in> footprint (length mem0) addr len" by (auto simp: footprint_def)
    then have "(addr + j) mod length mem0 \<in> D" using ok by blast
    then show "take len (xf_data f) ! j = load addr len mem0 ! j" using ok j len by (simp add: load_def)
  qed
qed

lemma frame_begin:
  fixes prot :: int
  assumes "read_fits D bw mem0 addr len s (addr div 2 ^ s * 2 ^ s) bs" "beat_octets bw"
  defines "f \<equiv> \<lparr>xf_command = (addr, len, s, prot), xf_bursts = bs, xf_burst = None,
    xf_offset = int_div addr (2 ^ s) * 2 ^ s - int_div addr bw * bw, xf_data = [], xf_resp = 0, xf_first = True\<rparr>"
  shows "frame_ok D bw mem0 f" "expected_beats f = command_beat_list (addr, len, s, cycles, prot, bs)"
proof -
  define nb where "nb = (2 :: nat) ^ s"
  define a where "a = addr div nb * nb"
  have fit: "s \<le> log2 bw" "addr < 2 ^ 53" using assms(1) by (simp_all add: read_fits_def)
  have bw: "0 < bw" using assms(2) by (auto simp: beat_octets_def)
  have "nb dvd 2 ^ log2 bw" unfolding nb_def by (intro le_imp_power_dvd fit)
  then have nb: "nb dvd bw" "0 < nb" using log2_power [OF assms(2)] by (simp_all add: nb_def)
  have "a + addr mod nb = addr" "a mod nb = 0" "addr mod nb < nb" using nb(2) by (simp_all add: a_def)
  then have "a div bw = addr div bw" using same_word(3) [OF nb(1) bw] by metis
  then have "int_div addr nb * nb - int_div addr bw * bw = a mod bw"
    using fit(2) by (simp add: int_div_exact a_def [symmetric] flip: minus_div_mult_eq_mod)
  then show "frame_ok D bw mem0 f"
    using assms(1) by (simp add: frame_ok_def f_def frame_next_def frame_bursts_def nb_def a_def)
  show "expected_beats f = command_beat_list (addr, len, s, cycles, prot, bs)"
    by (simp add: expected_beats_def f_def frame_next_def frame_bursts_def command_beat_list_def)
qed

lemma arrived_frame:
  "xr_resp_queue_list r' = xr_resp_queue_list r \<Longrightarrow> arrived vs r' = arrived vs r"
  by (simp add: arrived_def)

lemma arrived_take:
  assumes "arrived (w # vs) r" "fst w = i"
  shows "xr_resp_queue_list r i = w # filter (\<lambda>w. fst w = i) vs"
    "arrived vs (r\<lparr>xr_resp_queue_list := (xr_resp_queue_list r)(i := filter (\<lambda>w. fst w = i) vs), xr_resp := x\<rparr>)"
  using assms by (auto simp: arrived_def)

lemma read_beats_head:
  assumes "xr_resp r = Some f" "xf_burst f = Some (i, l, k)" "k < l" "xf_command f = (addr, len, s, prot)"
  shows "read_beats r = (i, frame_next f, s, k + 1 = l) # tl (read_beats r)"
proof -
  have "l - k = Suc (l - k - 1)" "l - k - 1 = 0 \<longleftrightarrow> k + 1 = l" using assms(3) by auto
  then show ?thesis
    using assms(1,2,4) beats_from_Suc [of i "frame_next f" s "l - k - 1"]
    by (simp add: read_beats_def expected_beats_def frame_bursts_def)
qed

lemma read_resp_round_ok:
  assumes "read_resp_inv D bw mem0 results ws later m (n, r)" "axi_read_resp_round bw (n, r) = Some x"
    and "beat_octets bw" "bw dvd length mem0"
  shows "\<exists>n' r'. x = Inr (n', r') \<and> read_resp_inv D bw mem0 results ws later m (n', r')
    \<and> read_side_frame r' = read_side_frame r"
proof -
  note inv = assms(1) [unfolded read_resp_inv_def prod.case]
  obtain vs where vs: "arrived vs r" "reads_due D bw mem0 (read_beats r) (vs @ ws) later" using inv by blast
  show ?thesis
  proof (cases "xr_resp r")
    case None
    then obtain addr len s cycles prot bs q where q: "xr_resp_command_queue r = (addr, len, s, cycles, prot, bs) # q"
      using assms(2) by (auto simp: axi_read_resp_round_def split: list.splits)
    have fit: "read_fits D bw mem0 addr len s (addr div 2 ^ s * 2 ^ s) bs" using inv q by (simp add: reads_ok_def)
    note b = frame_begin [OF this assms(3)]
    let ?f = "\<lparr>xf_command = (addr, len, s, prot), xf_bursts = bs, xf_burst = None,
      xf_offset = int_div addr (2 ^ s) * 2 ^ s - int_div addr bw * bw, xf_data = [], xf_resp = 0, xf_first = True\<rparr>"
    let ?r = "r\<lparr>xr_resp_command_queue := q, xr_resp := Some ?f\<rparr>"
    have "x = Inr (n, ?r)" using assms(2) None q fit by (simp add: axi_read_resp_round_def read_fits_def)
    moreover have "read_beats ?r = read_beats r" using None q by (simp add: read_beats_def b(2) [where cycles = cycles])
    ultimately show ?thesis using inv q None b(1) vs
      by (auto simp: read_resp_inv_def reads_ok_def axi_results_def unread_def read_side_frame_def arrived_frame [of ?r r])
  next
    case (Some f)
    obtain addr len s prot where c: "xf_command f = (addr, len, s, prot)" by (cases "xf_command f")
    have ok: "frame_ok D bw mem0 f" using inv Some by (simp add: reads_ok_def)
    have same: ?thesis if "x = Inr (n, r\<lparr>xr_resp := Some f'\<rparr>)" "frame_ok D bw mem0 f'" "expected_beats f' = expected_beats f"
        "xf_command f' = xf_command f" for f'
      using that inv Some vs by (auto simp: read_resp_inv_def reads_ok_def axi_results_def unread_def read_side_frame_def
          read_beats_def arrived_def)
    show ?thesis
    proof (cases "xf_burst f")
      case None
      show ?thesis
      proof (cases "xf_bursts f")
        case Nil
        let ?r = "r\<lparr>xr_data_queue := xr_data_queue r @ [(addr, take len (xf_data f), prot, xf_resp f)], xr_resp := None\<rparr>"
        have e: "frame_bursts f = []" using None Nil by (simp add: frame_bursts_def)
        have "take len (xf_data f) = load addr len mem0" "xf_resp f = 0"
          using frame_done [OF ok c e] ok c by (simp_all add: frame_ok_def)
        then have "x = Inr (n - 1, ?r)" "axi_results mem0 ?r = axi_results mem0 r"
          using assms(2) None Some Nil c by (simp_all add: axi_read_resp_round_def axi_results_def unread_def RESP_OKAY_def)
        moreover have "read_beats ?r = read_beats r" using Some e c by (simp add: read_beats_def expected_beats_def)
        ultimately show ?thesis using inv Some vs c
          by (auto simp: read_resp_inv_def reads_ok_def unread_def read_side_frame_def arrived_frame [of ?r r])
      next
        case (Cons b bs)
        obtain i l where b: "b = (i, l)" by (cases b)
        let ?f = "f\<lparr>xf_bursts := bs, xf_burst := Some (i, l, 0)\<rparr>"
        have "frame_bursts ?f = frame_bursts f" using None Cons b by (simp add: frame_bursts_def)
        moreover have "x = Inr (n, r\<lparr>xr_resp := Some ?f\<rparr>)" using assms(2) None Some Cons b by (simp add: axi_read_resp_round_def)
        ultimately show ?thesis using same [of ?f] frame_cong [where f' = ?f and f = f] c ok by simp
      qed
    next
      case (Some b)
      then obtain i l k where b: "xf_burst f = Some (i, l, k)" by (metis prod_cases3)
      show ?thesis
      proof (cases "l \<le> k")
        case True
        let ?f = "f\<lparr>xf_burst := None\<rparr>"
        have "frame_bursts f = (i, 0) # frame_bursts ?f" using True b by (simp add: frame_bursts_def)
        moreover have "x = Inr (n, r\<lparr>xr_resp := Some ?f\<rparr>)"
          using assms(2) b \<open>xr_resp r = Some f\<close> True by (simp add: axi_read_resp_round_def)
        ultimately show ?thesis using same [of ?f] frame_cong [where f' = ?f and f = f] c ok by simp
      next
        case False
        then have k: "k < l" by simp
        note beats = read_beats_head [OF \<open>xr_resp r = Some f\<close> b k c]
        obtain w q where q: "xr_resp_queue_list r i = w # q"
          using assms(2) b \<open>xr_resp r = Some f\<close> k by (auto simp: axi_read_resp_round_def split: list.splits)
        have "filter (\<lambda>w. fst w = i) vs \<noteq> []" using vs(1) q by (metis arrived_def list.discI)
        then obtain v vs' where v: "vs = v # vs'" by (cases vs) auto
        have good: "good_word D bw mem0 (i, frame_next f, s, k + 1 = l) v"
          and due: "reads_due D bw mem0 (tl (read_beats r)) (vs' @ ws) later"
          using reads_due_Cons [of D bw mem0 _ "tl (read_beats r)" v "vs' @ ws" later] vs(2) v beats by (metis append_Cons)+
        from good have "fst v = i" by (auto simp: good_word_def split: prod.splits)
        note take = arrived_take [OF vs(1) [unfolded v] this]
        have w: "w = v" "q = filter (\<lambda>w. fst w = i) vs'" using take(1) q by simp_all
        from take_beat_ok [OF ok b k assms(3,4) c good] obtain f' where f':
          "take_beat bw v (i, l, k) f = Inr f'" "frame_ok D bw mem0 f'" "xf_command f' = xf_command f"
          "expected_beats f = (i, frame_next f, s, k + 1 = l) # expected_beats f'" by blast
        let ?r = "r\<lparr>xr_resp_queue_list := (xr_resp_queue_list r)(i := q), xr_resp := Some f'\<rparr>"
        have "x = Inr (n, ?r)"
          using assms(2) b \<open>xr_resp r = Some f\<close> k q w f'(1) by (simp add: axi_read_resp_round_def)
        moreover have "read_beats ?r = tl (read_beats r)" using \<open>xr_resp r = Some f\<close> f'(4) by (simp add: read_beats_def)
        moreover have "arrived vs' ?r" using take(2) w by blast
        ultimately show ?thesis
          using inv \<open>xr_resp r = Some f\<close> f'(2,3) due
          by (auto simp: read_resp_inv_def reads_ok_def axi_results_def unread_def read_side_frame_def)
      qed
    qed
  qed
qed

text \<open>The process ends, and waits for a command, or for a beat that has not arrived: no word is left over.\<close>

definition reads_stopped :: "axi_master_read \<Rightarrow> bool" where
  "reads_stopped r \<longleftrightarrow> (case xr_resp r of None \<Rightarrow> xr_resp_command_queue r = []
     | Some f \<Rightarrow> (case xf_burst f of None \<Rightarrow> False | Some (i, n, k) \<Rightarrow> k < n))"

lemma reads_stopped_beats: "reads_stopped r \<Longrightarrow> read_beats r = [] \<Longrightarrow> unread r = []"
proof (cases "xr_resp r")
  case (Some f)
  obtain addr len s prot where c: "xf_command f = (addr, len, s, prot)" by (cases "xf_command f")
  assume "reads_stopped r" "read_beats r = []"
  then show ?thesis using Some c
    by (auto simp: reads_stopped_def read_beats_def expected_beats_def frame_bursts_def beats_from_def split: option.splits)
qed (simp add: reads_stopped_def unread_def)

lemma axi_read_resp_stopped:
  assumes "read_resp_inv D bw mem0 results ws later m (n, r)" "axi_read_resp_round bw (n, r) = None"
  shows "reads_stopped r \<and> xr_resp_queue_list r = (\<lambda>_. []) \<and> reads_due D bw mem0 (read_beats r) ws later"
proof -
  note inv = assms(1) [unfolded read_resp_inv_def prod.case]
  obtain vs where vs: "arrived vs r" "reads_due D bw mem0 (read_beats r) (vs @ ws) later" using inv by blast
  have s: "reads_stopped r"
    using assms(2) by (auto simp: axi_read_resp_round_def reads_stopped_def split: option.splits list.splits if_splits prod.splits)
  have "vs = []"
  proof (rule ccontr)
    assume "vs \<noteq> []"
    then obtain v vs' where v: "vs = v # vs'" by (cases vs) auto
    show False
    proof (cases "xr_resp r")
      case None
      then have "read_beats r = []" using s by (simp add: reads_stopped_def read_beats_def)
      then show False using vs(2) v by (auto simp: reads_due_def)
    next
      case (Some f)
      then obtain i l k where b: "xf_burst f = Some (i, l, k)" "k < l" using s by (auto simp: reads_stopped_def split: option.splits)
      obtain addr len sz prot where c: "xf_command f = (addr, len, sz, prot)" by (cases "xf_command f")
      note read_beats_head [OF Some b c]
      then have "good_word D bw mem0 (i, frame_next f, sz, k + 1 = l) v"
        using reads_due_Cons [of D bw mem0 _ "tl (read_beats r)" v "vs' @ ws" later] vs(2) v by (metis append_Cons)
      then have "fst v = i" by (auto simp: good_word_def split: prod.splits)
      then have "xr_resp_queue_list r i \<noteq> []" using vs(1) v by (simp add: arrived_def)
      then show False using assms(2) Some b by (auto simp: axi_read_resp_round_def split: list.splits)
    qed
  qed
  then show ?thesis using s vs by (auto simp: arrived_def)
qed

lemma read_resp_loop_ok:
  assumes "read_resp_inv D bw mem0 results ws later m (n, r)" "beat_octets bw" "bw dvd length mem0"
  shows "\<exists>n' r'. axi_read_resp_logic bw (n, r) = Inr (n', r') \<and> reads_ok D bw mem0 r' \<and> axi_results mem0 r' = results
    \<and> n' - int (length (unread r')) = m \<and> reads_stopped r' \<and> xr_resp_queue_list r' = (\<lambda>_. [])
    \<and> reads_due D bw mem0 (read_beats r') ws later \<and> read_side_frame r' = read_side_frame r"
proof -
  let ?I = "\<lambda>s. read_resp_inv D bw mem0 results ws later m s \<and> read_side_frame (snd s) = read_side_frame r"
  have "\<exists>s. axi_read_resp_logic bw (n, r) = Inr s \<and> ?I s \<and> axi_read_resp_round bw s = None"
  proof (rule rresp.loop_rule)
    show "?I (n, r)" using assms by simp
    show "\<exists>s'. x = Inr s' \<and> ?I s'" if "?I s" "axi_read_resp_round bw s = Some x" for s x
      using read_resp_round_ok [of D bw mem0 results ws later m "fst s" "snd s" x] that assms(2,3) by fastforce
  qed
  then obtain n' r' where l: "axi_read_resp_logic bw (n, r) = Inr (n', r')" "?I (n', r')" "axi_read_resp_round bw (n', r') = None"
    by auto
  then show ?thesis using axi_read_resp_stopped [of D bw mem0 results ws later m n' r'] by (auto simp: read_resp_inv_def)
qed


section \<open>The state while reads are under way\<close>

definition asked :: "axi_master_read \<Rightarrow> axi_addr list" where
  "asked r = chan_words (xr_ar r) @ xr_addr_queue r"

definition ram_words :: "axi_ram_read \<Rightarrow> axi_rword list" where
  "ram_words rr = chan_words (rr_r rr) @ rr_resp_queue rr"

definition axi_read_inv ::
    "axi_cfg \<Rightarrow> nat set \<Rightarrow> bytes \<Rightarrow> (nat \<times> bytes \<times> int \<times> int) list \<Rightarrow> axi_master_read \<Rightarrow> axi_ram_read \<Rightarrow> bool" where
  "axi_read_inv cfg D mem0 results r rr \<longleftrightarrow>
     axi_cfg_ok cfg (length mem0) \<and> xr_command_queue r = [] \<and> xr_rready r \<and> xr_cur_id r < 2 ^ ax_id_bits cfg
     \<and> chan_ok (axi_addr_fits cfg) (xr_addr_queue r) (xr_ar r)
     \<and> list_all (\<lambda>a. burst_ok (ax_bw cfg) (burst_of a)) (asked r)
     \<and> rr_arready rr \<and> rr_addr_queue rr = [] \<and> chan_ok (axi_r_fits cfg) (rr_resp_queue rr) (rr_r rr)
     \<and> reads_ok D (ax_bw cfg) mem0 r \<and> axi_results mem0 r = results \<and> reads_stopped r \<and> xr_resp_queue_list r = (\<lambda>_. [])
     \<and> reads_due D (ax_bw cfg) mem0 (read_beats r) (ram_words rr) (bus_beats (asked r))"

definition axi_read_work :: "axi_master_read \<Rightarrow> axi_ram_read \<Rightarrow> nat" where
  "axi_read_work r rr = 3 * length (asked r) + 2 * length (bus_beats (asked r)) + waits (xr_addr_queue r) (xr_ar r)
     + 2 * length (ram_words rr) + waits (rr_resp_queue rr) (rr_r rr)"

lemma reads_due_serve:
  "reads_due D bw mem0 bs ws (bs1 @ later) \<Longrightarrow> list_all2 (good_word D bw mem0) bs1 ws1 \<Longrightarrow>
    reads_due D bw mem0 bs (ws @ ws1) later"
  unfolding reads_due_def by (metis append.assoc list_all2_appendI)

lemma reads_due_ask: "reads_due D bw mem0 bs ws later \<Longrightarrow> reads_due D bw mem0 (bs @ bs1) ws (later @ bs1)"
  by (auto simp: reads_due_def)

lemma read_side_frame_fields:
  assumes "read_side_frame r' = read_side_frame r"
  shows "xr_command_queue r' = xr_command_queue r" "xr_cur_id r' = xr_cur_id r" "xr_addr_queue r' = xr_addr_queue r"
    "xr_ar r' = xr_ar r" "xr_rready r' = xr_rready r"
  using assms by (cases r; cases r'; simp add: read_side_frame_def)+

lemma axi_r_step_arrived:
  assumes "xr_resp_queue_list r = (\<lambda>_. [])" "xr_rready r"
  shows "\<exists>r'. axi_r_step pause valid w r = r' \<and> arrived (if valid \<and> \<not> pause then [w] else []) r'
    \<and> r' = r\<lparr>xr_resp_queue_list := xr_resp_queue_list r'\<rparr>"
  using assms by (cases r) (simp add: axi_r_step_def arrived_def)

lemma master_read_step_ok:
  fixes pm pr :: axil_pause
  assumes "axi_read_inv cfg D mem0 results r rr" "xa_read ra = rr"
  defines "ar \<equiv> ch_valid (xr_ar r) \<and> \<not> p_ar pr" and "rv \<equiv> ch_valid (rr_r rr) \<and> \<not> p_r pm"
  assumes "ram_words rr = (if rv then [ch_word (rr_r rr)] else []) @ ws"
  shows "\<exists>n' r'. axi_master_read_step cfg pm (to_axi_master pr ra) (n, r) = Inr (n', r')
    \<and> xr_command_queue r' = [] \<and> xr_rready r' \<and> xr_cur_id r' = xr_cur_id r
    \<and> n' - int (length (unread r')) = n - int (length (unread r))
    \<and> reads_ok D (ax_bw cfg) mem0 r' \<and> axi_results mem0 r' = results \<and> reads_stopped r' \<and> xr_resp_queue_list r' = (\<lambda>_. [])
    \<and> reads_due D (ax_bw cfg) mem0 (read_beats r') ws (bus_beats (asked r))
    \<and> chan_ok (axi_addr_fits cfg) (xr_addr_queue r') (xr_ar r')
    \<and> asked r = (if ar then [ch_word (xr_ar r)] else []) @ asked r'
    \<and> waits (xr_addr_queue r') (xr_ar r') \<le> (if ar then 1 else waits (xr_addr_queue r) (xr_ar r))
    \<and> (unpaused pm \<longrightarrow> waits (xr_addr_queue r') (xr_ar r') = 0)"
proof -
  note inv = assms(1) [unfolded axi_read_inv_def]
  have cfg: "axi_cfg_ok cfg (length mem0)" using inv by blast
  note cfg = axi_cfg_okD [OF this]
  obtain q c where a: "chan_step (p_ar pm) (rr_arready rr \<and> \<not> p_ar pr) (axi_addr_fits cfg) (xr_addr_queue r) (xr_ar r) = Inr (q, c)"
      "chan_ok (axi_addr_fits cfg) q c" "asked r = (if ar then [ch_word (xr_ar r)] else []) @ chan_words c @ q"
      "waits q c \<le> (if ar then 1 else waits (xr_addr_queue r) (xr_ar r))" "\<not> p_ar pm \<longrightarrow> waits q c = 0"
    using chan_step_ok [of "axi_addr_fits cfg" "xr_addr_queue r" "xr_ar r" "p_ar pm" "rr_arready rr \<and> \<not> p_ar pr"] inv
    unfolding asked_def ar_def by auto
  define r1 where "r1 = r\<lparr>xr_addr_queue := q, xr_ar := c\<rparr>"
  obtain r2 where r2: "axi_r_step (p_r pm) (ch_valid (rr_r rr)) (ch_word (rr_r rr)) r1 = r2"
      "arrived (if rv then [ch_word (rr_r rr)] else []) r2" "r2 = r1\<lparr>xr_resp_queue_list := xr_resp_queue_list r2\<rparr>"
    using axi_r_step_arrived [of r1 "p_r pm" "ch_valid (rr_r rr)" "ch_word (rr_r rr)"] inv unfolding rv_def
    by (auto simp: r1_def)
  have f2: "xr_resp r2 = xr_resp r" "xr_resp_command_queue r2 = xr_resp_command_queue r" "xr_data_queue r2 = xr_data_queue r"
      "xr_command_queue r2 = []" "xr_cur_id r2 = xr_cur_id r" "xr_rready r2" "xr_addr_queue r2 = q" "xr_ar r2 = c"
    using inv by (subst r2(3); simp add: r1_def)+
  have same: "reads_ok D (ax_bw cfg) mem0 r2 = reads_ok D (ax_bw cfg) mem0 r" "axi_results mem0 r2 = axi_results mem0 r"
      "unread r2 = unread r" "read_beats r2 = read_beats r"
    by (simp_all only: reads_ok_def axi_results_def unread_def read_beats_def f2)
  have due: "reads_due D (ax_bw cfg) mem0 (read_beats r) ((if rv then [ch_word (rr_r rr)] else []) @ ws) (bus_beats (asked r))"
    using inv assms(5) by simp
  have "read_resp_inv D (ax_bw cfg) mem0 results ws (bus_beats (asked r)) (n - int (length (unread r))) (n, r2)"
    unfolding read_resp_inv_def prod.case same using inv r2(2) due by blast
  from read_resp_loop_ok [OF this cfg(1,5)] obtain n' r' where l:
    "axi_read_resp_logic (ax_bw cfg) (n, r2) = Inr (n', r')" "reads_ok D (ax_bw cfg) mem0 r'" "axi_results mem0 r' = results"
    "n' - int (length (unread r')) = n - int (length (unread r))" "reads_stopped r'" "xr_resp_queue_list r' = (\<lambda>_. [])"
    "reads_due D (ax_bw cfg) mem0 (read_beats r') ws (bus_beats (asked r))" "read_side_frame r' = read_side_frame r2" by blast
  note f = read_side_frame_fields [OF l(8)]
  have "axi_master_read_step cfg pm (to_axi_master pr ra) (n, r) = Inr (n', r')"
    using a(1) r2(1) l(1) assms(2) by (simp add: axi_master_read_step_def to_axi_master_def r1_def)
  moreover have r': "xr_command_queue r' = []" "xr_rready r'" "xr_cur_id r' = xr_cur_id r" "xr_addr_queue r' = q" "xr_ar r' = c"
    using f f2 by simp_all
  moreover have "unpaused pm \<longrightarrow> waits q c = 0" using a(5) by (simp add: unpaused_def)
  moreover have "asked r' = chan_words c @ q" by (simp add: asked_def r')
  ultimately show ?thesis
    using l(2-7) a(2-4) by (intro exI [of _ n'] exI [of _ r']) metis
qed

lemma ram_read_step_ok:
  fixes pm pr :: axil_pause
  assumes "axi_read_inv cfg D mem0 results r rr" "xm_read m = r" "agree D (mm_mem f) mem0"
  defines "ar \<equiv> ch_valid (xr_ar r) \<and> \<not> p_ar pr" and "rv \<equiv> ch_valid (rr_r rr) \<and> \<not> p_r pm"
  shows "\<exists>f' rr' ws ws'. axi_ram_read_step cfg pr (to_axi_ram pm m) (length mem0) (f, rr) = Inr (f', rr') \<and> mm_mem f' = mm_mem f
    \<and> rr_arready rr' \<and> rr_addr_queue rr' = [] \<and> chan_ok (axi_r_fits cfg) (rr_resp_queue rr') (rr_r rr')
    \<and> ram_words rr = (if rv then [ch_word (rr_r rr)] else []) @ ws \<and> ram_words rr' = ws @ ws'
    \<and> list_all2 (good_word D (ax_bw cfg) mem0) (bus_beats (if ar then [ch_word (xr_ar r)] else [])) ws'
    \<and> waits (rr_resp_queue rr') (rr_r rr') \<le> (if rv then 1 else waits (rr_resp_queue rr) (rr_r rr)) + (if ar then 1 else 0)
    \<and> (unpaused pr \<longrightarrow> waits (rr_resp_queue rr') (rr_r rr') \<le> (if ar then 1 else 0))"
proof -
  note inv = assms(1) [unfolded axi_read_inv_def]
  have cfg: "axi_cfg_ok cfg (length mem0)" using inv by blast
  obtain q c where b: "chan_step (p_r pr) (xr_rready r \<and> \<not> p_r pm) (axi_r_fits cfg) (rr_resp_queue rr) (rr_r rr) = Inr (q, c)"
      "chan_ok (axi_r_fits cfg) q c" "ram_words rr = (if rv then [ch_word (rr_r rr)] else []) @ chan_words c @ q"
      "waits q c \<le> (if rv then 1 else waits (rr_resp_queue rr) (rr_r rr))" "\<not> p_r pr \<longrightarrow> waits q c = 0"
    using chan_step_ok [of "axi_r_fits cfg" "rr_resp_queue rr" "rr_r rr" "p_r pr" "xr_rready r \<and> \<not> p_r pm"] inv
    unfolding ram_words_def rv_def by auto
  let ?as = "if ar then [ch_word (xr_ar r)] else []"
  have "ar \<Longrightarrow> ch_busy (xr_ar r)" using inv by (simp add: ar_def chan_ok_def)
  then have "ar \<Longrightarrow> ch_word (xr_ar r) \<in> set (asked r) \<and> axi_addr_fits cfg (ch_word (xr_ar r))"
    using inv by (simp add: asked_def chan_words_def chan_ok_def)
  then have ok: "list_all (\<lambda>b. burst_ok (ax_bw cfg) b \<and> bu_id b < 2 ^ ax_id_bits cfg) (map burst_of ?as)"
    using inv by (auto simp: list_all_iff axi_addr_fits_def burst_of_def)
  from ram_read_logic_ok [OF cfg refl _ assms(3) ok] assms(3) obtain ws' f' where l:
    "axi_ram_read_logic (ax_bw cfg) (length mem0) (map burst_of ?as) f = Inr (ws', f')" "mm_mem f' = mm_mem f"
    "list_all2 (good_word D (ax_bw cfg) mem0) (bus_beats ?as) ws'" "list_all (axi_r_fits cfg) ws'"
    by (auto simp: agree_def bus_beats_def)
  define rr' where "rr' = rr\<lparr>rr_resp_queue := q @ ws', rr_r := c, rr_addr_queue := []\<rparr>"
  have step: "axi_ram_read_step cfg pr (to_axi_ram pm m) (length mem0) (f, rr) = Inr (f', rr')"
    using b(1) l(1) inv assms(2)
    by (cases rr) (auto simp: axi_ram_read_step_def to_axi_ram_def axi_ar_if_def Let_def rr'_def ar_def)
  have W: "waits (q @ ws') c \<le> waits q c + (if ar then 1 else 0)"
    using l(3) by (cases ar) (simp_all add: waits_def)
  have rr': "rr_arready rr'" "rr_addr_queue rr' = []" "rr_resp_queue rr' = q @ ws'" "rr_r rr' = c" using inv by (simp_all add: rr'_def)
  then have "ram_words rr' = (chan_words c @ q) @ ws'" "chan_ok (axi_r_fits cfg) (rr_resp_queue rr') (rr_r rr')"
    using b(2) l(4) by (simp_all add: ram_words_def chan_ok_def)
  moreover have "waits (rr_resp_queue rr') (rr_r rr') \<le> (if rv then 1 else waits (rr_resp_queue rr) (rr_r rr)) + (if ar then 1 else 0)"
    using W b(4) unfolding rr' by linarith
  moreover have "unpaused pr \<longrightarrow> waits (rr_resp_queue rr') (rr_r rr') \<le> (if ar then 1 else 0)"
    using W b(5) unfolding rr' by (auto simp: unpaused_def)
  ultimately show ?thesis using step l(2,3) b(3) rr'(1,2) by blast
qed

text \<open>An edge keeps the results, whatever the writes of that edge do outside \<open>D\<close>.\<close>

lemma axi_read_edge:
  fixes m :: axi_master and ra :: axi_ram
  assumes "axi_read_inv cfg D mem0 results (xm_read m) (xa_read ra)" "agree D (mm_mem f) mem0"
  defines "r \<equiv> xm_read m" and "rr \<equiv> xa_read ra"
  shows "\<exists>n' r' f' rr'. axi_master_read_step cfg pm (to_axi_master pr ra) (n, r) = Inr (n', r')
    \<and> axi_ram_read_step cfg pr (to_axi_ram pm m) (length mem0) (f, rr) = Inr (f', rr') \<and> mm_mem f' = mm_mem f
    \<and> axi_read_inv cfg D mem0 results r' rr'
    \<and> n' - int (length (unread r')) = n - int (length (unread r))
    \<and> axi_read_work r' rr' \<le> axi_read_work r rr
    \<and> (unpaused pm \<and> unpaused pr \<longrightarrow> axi_read_work r' rr' \<le> axi_read_work r rr - 1)"
proof -
  define ar rv where "ar \<longleftrightarrow> ch_valid (xr_ar r) \<and> \<not> p_ar pr" and "rv \<longleftrightarrow> ch_valid (rr_r rr) \<and> \<not> p_r pm"
  note inv = assms(1) [folded r_def rr_def, unfolded axi_read_inv_def]
  obtain f' rr' ws ws' where R: "axi_ram_read_step cfg pr (to_axi_ram pm m) (length mem0) (f, rr) = Inr (f', rr')" "mm_mem f' = mm_mem f"
    "rr_arready rr'" "rr_addr_queue rr' = []" "chan_ok (axi_r_fits cfg) (rr_resp_queue rr') (rr_r rr')"
    "ram_words rr = (if rv then [ch_word (rr_r rr)] else []) @ ws" "ram_words rr' = ws @ ws'"
    "list_all2 (good_word D (ax_bw cfg) mem0) (bus_beats (if ar then [ch_word (xr_ar r)] else [])) ws'"
    "waits (rr_resp_queue rr') (rr_r rr') \<le> (if rv then 1 else waits (rr_resp_queue rr) (rr_r rr)) + (if ar then 1 else 0)"
    "unpaused pr \<longrightarrow> waits (rr_resp_queue rr') (rr_r rr') \<le> (if ar then 1 else 0)"
    using ram_read_step_ok [OF assms(1) refl assms(2), of pr pm] unfolding ar_def rv_def r_def rr_def by blast
  from master_read_step_ok [OF assms(1) refl R(6) [unfolded rv_def rr_def], of pr n]
  obtain n' r' where M: "axi_master_read_step cfg pm (to_axi_master pr ra) (n, r) = Inr (n', r')"
    "xr_command_queue r' = []" "xr_rready r'" "xr_cur_id r' = xr_cur_id r"
    "n' - int (length (unread r')) = n - int (length (unread r))"
    "reads_ok D (ax_bw cfg) mem0 r'" "axi_results mem0 r' = results" "reads_stopped r'" "xr_resp_queue_list r' = (\<lambda>_. [])"
    "reads_due D (ax_bw cfg) mem0 (read_beats r') ws (bus_beats (asked r))"
    "chan_ok (axi_addr_fits cfg) (xr_addr_queue r') (xr_ar r')"
    "asked r = (if ar then [ch_word (xr_ar r)] else []) @ asked r'"
    "waits (xr_addr_queue r') (xr_ar r') \<le> (if ar then 1 else waits (xr_addr_queue r) (xr_ar r))"
    "unpaused pm \<longrightarrow> waits (xr_addr_queue r') (xr_ar r') = 0"
    unfolding ar_def r_def by blast
  have beats: "bus_beats (asked r) = bus_beats (if ar then [ch_word (xr_ar r)] else []) @ bus_beats (asked r')"
    using arg_cong [OF M(12), of bus_beats] by (simp only: bus_beats_simps)
  have "reads_due D (ax_bw cfg) mem0 (read_beats r') (ram_words rr') (bus_beats (asked r'))"
    using reads_due_serve [OF _ R(8)] M(10) R(7) beats by metis
  moreover have "list_all (\<lambda>a. burst_ok (ax_bw cfg) (burst_of a)) (asked r)" using inv by blast
  then have "list_all (\<lambda>a. burst_ok (ax_bw cfg) (burst_of a)) (asked r')" using M(12) by simp
  moreover have "axi_cfg_ok cfg (length mem0)" "xr_cur_id r' < 2 ^ ax_id_bits cfg" using inv M(4) by simp_all
  ultimately have "axi_read_inv cfg D mem0 results r' rr'"
    unfolding axi_read_inv_def using M(2,3,6-9,11) R(3-5) by (intro conjI) blast+
  moreover have "axi_read_work r' rr' \<le> axi_read_work r rr
    \<and> (unpaused pm \<and> unpaused pr \<longrightarrow> axi_read_work r' rr' \<le> axi_read_work r rr - 1)"
  proof -
    have A: "length (asked r) = (if ar then 1 else 0) + length (asked r')" using M(12) by simp
    have B: "length (bus_beats (asked r)) = length ws' + length (bus_beats (asked r'))"
      using beats list_all2_lengthD [OF R(8)] by simp
    have W: "length (ram_words rr) = (if rv then 1 else 0) + length ws" "length (ram_words rr') = length ws + length ws'"
      using R(6,7) by simp_all
    have le: "axi_read_work r' rr' + (if ar then 1 else 0) + (if rv then 1 else 0) \<le> axi_read_work r rr"
      using A B W M(13) R(9) by (cases ar; cases rv; simp add: axi_read_work_def)
    have "axi_read_work r' rr' < axi_read_work r rr"
      if u: "unpaused pm" "unpaused pr" and none: "\<not> ar" "\<not> rv" "axi_read_work r rr \<noteq> 0"
    proof -
      have z: "waits (xr_addr_queue r') (xr_ar r') = 0" "waits (rr_resp_queue rr') (rr_r rr') = 0" using M(14) R(10) u none by simp_all
      have "\<not> ch_valid (xr_ar r)" "\<not> ch_valid (rr_r rr)" using none u by (auto simp: ar_def rv_def unpaused_def)
      then have "asked r \<noteq> [] \<Longrightarrow> waits (xr_addr_queue r) (xr_ar r) = 1" "ram_words rr \<noteq> [] \<Longrightarrow> waits (rr_resp_queue rr) (rr_r rr) = 1"
        by (simp_all add: asked_def ram_words_def waits_def)
      moreover have "asked r \<noteq> [] \<or> ram_words rr \<noteq> []"
        using none(3) by (auto simp: axi_read_work_def waits_def asked_def ram_words_def)
      ultimately show ?thesis using A B W z none by (auto simp: axi_read_work_def)
    qed
    then show ?thesis using le by (cases ar; cases rv; cases "axi_read_work r rr = 0") auto
  qed
  ultimately show ?thesis using M(1,5) R(1,2) by blast
qed

section \<open>Commands that read\<close>

lemma axi_read_command_inv:
  fixes m :: axi_master
  assumes "axi_read_inv cfg D mem0 results (xm_read m) rr"
    and "axi_command_fits cfg addr len s attr" "footprint (length mem0) addr len \<subseteq> D"
  shows "\<exists>n' r'. axi_read_logic cfg (axi_init_read addr len s attr m) = Inr (m\<lparr>xm_in_flight := n', xm_read := r'\<rparr>)
    \<and> axi_read_inv cfg D mem0 (results @ [(addr, load addr len mem0, at_prot attr, RESP_OKAY)]) r' rr
    \<and> n' - int (length (unread r')) = xm_in_flight m - int (length (unread (xm_read m)))"
proof -
  define r where "r = xm_read m"
  define bw where "bw = ax_bw cfg"
  note inv = assms(1) [folded r_def, unfolded axi_read_inv_def, folded bw_def]
  have cfg: "axi_cfg_ok cfg (length mem0)" using inv by blast
  note c = axi_cfg_okD [OF cfg, folded bw_def]
  let ?m = "axi_init_read addr len s attr m" and ?nb = "num_bytes_of bw s"
  define k where "k = axi_cycles ?nb addr len"
  have id: "xr_cur_id (xm_read ?m) < 2 ^ ax_id_bits cfg" using inv by (simp add: axi_init_read_def r_def)
  from axi_read_command_ok [OF cfg assms(2) id, folded bw_def, folded k_def]
  obtain as i sz where a: "axi_read_command cfg (addr, len, s, attr) ?m = Inr (?m\<lparr>xm_in_flight := xm_in_flight ?m + 1,
      xm_read := (xm_read ?m)\<lparr>xr_cur_id := i, xr_addr_queue := xr_addr_queue (xm_read ?m) @ as,
        xr_resp_command_queue := xr_resp_command_queue (xm_read ?m)
          @ [(addr, len, sz, k, at_prot attr, map (\<lambda>a. (ad_id a, ad_len a + 1)) as)]\<rparr>\<rparr>)"
    "i < 2 ^ ax_id_bits cfg" "sz \<le> log2 bw" "?nb = 2 ^ sz" "list_all (axi_addr_fits cfg) as"
    "list_all (\<lambda>a. burst_ok bw (burst_of a)) as" "burst_addrs as = map (\<lambda>j. addr div ?nb * ?nb + j * ?nb) [0..<k]"
    "as = axi_bursts cfg (xm_max_burst_len ?m) sz ?nb attr k (addr div ?nb * ?nb) (xr_cur_id (xm_read ?m))" by blast
  let ?a = "addr div 2 ^ sz * 2 ^ sz" and ?bs = "map (\<lambda>a. (ad_id a, ad_len a + 1)) as"
  have fit: "addr + len < 2 ^ 52" "?nb \<le> bw" "0 < len \<or> addr mod ?nb = 0"
    using assms(2) c(6) by (simp_all add: axi_command_fits_def bw_def)
  have nb: "beat_octets ?nb" using axi_size_ok [OF c(1) fit(2)] by blast
  have beats: "bus_beats as = list_beats sz ?a ?bs"
    using bursts_beats [OF nb a(4), of "addr div ?nb * ?nb" cfg "xm_max_burst_len ?m" attr k "xr_cur_id (xm_read ?m)"]
    unfolding a(8) [symmetric] by (simp add: a(4))
  have total: "(\<Sum>b\<leftarrow>?bs. snd b) = k"
    using length_list_beats [of sz ?a ?bs] arg_cong [OF bus_beats_addrs [of as], of length] a(7) beats by simp
  note cb = command_beats [OF cfg bw_def nb fit(2,1,3), folded k_def]
  have cover: "addr + len \<le> ?a + k * 2 ^ sz"
  proof (cases "k = 0")
    case True
    then have "len = 0" using cb(3) by simp
    then have "addr mod 2 ^ sz = 0" using fit(3) a(4) by simp
    then show ?thesis using \<open>len = 0\<close> by (simp add: mod_eq_0_iff_dvd)
  qed (use cb(4) a(4) in simp)
  have rf: "read_fits D bw mem0 addr len sz ?a ?bs"
    using a(3) cover fit(1) assms(3) unfolding read_fits_def total by simp
  define r1 where "r1 = r\<lparr>xr_cur_id := i, xr_addr_queue := xr_addr_queue r @ as,
        xr_resp_command_queue := xr_resp_command_queue r @ [(addr, len, sz, k, at_prot attr, ?bs)]\<rparr>"
  let ?res = "results @ [(addr, load addr len mem0, at_prot attr, RESP_OKAY)]"
  have un: "unread r1 = unread r @ [(addr, len, at_prot attr)]" by (simp add: r1_def unread_def)
  have rb: "read_beats r1 = read_beats r @ bus_beats as" by (simp add: r1_def read_beats_def command_beat_list_def beats)
  have ask: "asked r1 = asked r @ as" by (simp add: r1_def asked_def)
  have "reads_due D bw mem0 (read_beats r) (ram_words rr) (bus_beats (asked r))" using inv by blast
  from reads_due_ask [OF this, of "bus_beats as"]
  have due: "reads_due D bw mem0 (read_beats r1) (ram_words rr) (bus_beats (asked r1))" by (simp add: rb ask)
  have "reads_ok D bw mem0 r" "axi_results mem0 r = results" "xr_resp_queue_list r = (\<lambda>_. [])" using inv by blast+
  then have "reads_ok D bw mem0 r1" "axi_results mem0 r1 = ?res" "arrived [] r1"
    using rf by (simp_all add: reads_ok_def axi_results_def un arrived_def) (simp_all add: r1_def)
  with due have "read_resp_inv D bw mem0 ?res (ram_words rr) (bus_beats (asked r1)) (xm_in_flight m - int (length (unread r)))
      (xm_in_flight m + 1, r1)"
    unfolding read_resp_inv_def prod.case un by (intro conjI exI [of _ "[]"]) simp_all
  from read_resp_loop_ok [OF this c(1,5)] obtain n' r' where l:
    "axi_read_resp_logic bw (xm_in_flight m + 1, r1) = Inr (n', r')" "reads_ok D bw mem0 r'" "axi_results mem0 r' = ?res"
    "n' - int (length (unread r')) = xm_in_flight m - int (length (unread r))" "reads_stopped r'" "xr_resp_queue_list r' = (\<lambda>_. [])"
    "reads_due D bw mem0 (read_beats r') (ram_words rr) (bus_beats (asked r1))" "read_side_frame r' = read_side_frame r1" by blast
  note f = read_side_frame_fields [OF l(8)]
  have "xm_read m = r" "xr_command_queue r = []" using inv by (simp_all add: r_def)
  then have step: "axi_read_logic cfg ?m = Inr (m\<lparr>xm_in_flight := n', xm_read := r'\<rparr>)"
    using a(1) l(1) by (cases m; cases r) (simp add: axi_read_logic_def axi_init_read_def r1_def bw_def)
  have ask': "asked r' = asked r1" using f by (simp add: asked_def)
  have "chan_ok (axi_addr_fits cfg) (xr_addr_queue r) (xr_ar r)" "list_all (\<lambda>a. burst_ok bw (burst_of a)) (asked r)"
    using inv by blast+
  then have ok: "chan_ok (axi_addr_fits cfg) (xr_addr_queue r') (xr_ar r')" "list_all (\<lambda>a. burst_ok bw (burst_of a)) (asked r')"
    using a(5,6) f ask' ask by (simp_all add: chan_ok_def r1_def)
  have "xr_command_queue r' = []" "xr_rready r'" "xr_cur_id r' < 2 ^ ax_id_bits cfg" using f inv a(2) by (simp_all add: r1_def)
  then have "axi_read_inv cfg D mem0 ?res r' rr"
    unfolding axi_read_inv_def bw_def [symmetric] using inv l(2,3,5-7) ok ask' by (intro conjI) (blast | simp)+
  then show ?thesis using step l(4) by (auto simp: r_def)
qed

text \<open>Nothing under way.\<close>

lemma unread_Nil: "unread r = [] \<Longrightarrow> xr_resp r = None \<and> xr_resp_command_queue r = []"
  by (auto simp: unread_def split: option.splits prod.splits)

lemma read_work_0:
  assumes "axi_read_inv cfg D mem0 results r rr" "axi_read_work r rr = 0"
  shows "unread r = []"
proof -
  note inv = assms(1) [unfolded axi_read_inv_def]
  have "ram_words rr = []" "asked r = []" using assms(2) by (simp_all add: axi_read_work_def)
  moreover have "reads_due D (ax_bw cfg) mem0 (read_beats r) (ram_words rr) (bus_beats (asked r))" using inv by blast
  ultimately have "read_beats r = []" by (simp add: reads_due_def)
  moreover have "reads_stopped r" using inv by blast
  ultimately show ?thesis by (rule reads_stopped_beats [rotated])
qed

lemma read_idle:
  assumes "axi_read_inv cfg D mem0 results r rr" "unread r = []" "length mem = length mem0"
  shows "xr_data_queue r = results" "axi_read_inv cfg D' mem results r rr"
proof -
  note inv = assms(1) [unfolded axi_read_inv_def]
  note e = unread_Nil [OF assms(2)]
  have "axi_results mem0 r = results" using inv by blast
  then show res: "xr_data_queue r = results" using assms(2) by (simp add: axi_results_def)
  have b: "read_beats r = []" using e by (simp add: read_beats_def)
  have "reads_due D (ax_bw cfg) mem0 (read_beats r) (ram_words rr) (bus_beats (asked r))" using inv by blast
  then have "reads_due D' (ax_bw cfg) mem (read_beats r) (ram_words rr) (bus_beats (asked r))"
    by (auto simp: reads_due_def b)
  moreover have "reads_ok D' (ax_bw cfg) mem r" "axi_results mem r = results" using e res assms(2)
    by (simp_all add: reads_ok_def axi_results_def)
  ultimately show "axi_read_inv cfg D' mem results r rr"
    unfolding axi_read_inv_def assms(3) using inv by (intro conjI) blast+
qed

end
