(* ===== verification/Axil_Wait.thy ===== *)
theory Axil_Wait
  imports Axil_Read Process_Loop
begin

text \<open>
  Waiting for the AXI-Lite master: an idle master has nothing under way, on either side, and a test that
  waits for it is not held up for ever.
\<close>

section \<open>An idle master has nothing under way\<close>

lemma idle_writes:
  assumes "write_inv cfg mem answers (m, r)" "axil_master_idle m"
  shows "axil_rest cfg mem answers (m, r)"
proof -
  note inv = assms(1) [unfolded write_inv_def prod.case]
  have "am_in_flight m = 0" using assms(2) by (simp add: axil_master_idle_def)
  then have "pending_writes m = []" using inv by (simp add: responses_ok_def)
  then have q: "pending_addrs m = []" "answers_due r = 0" "am_int_write_resp_queue m = []" using inv by simp_all
  then have w: "ar_write r = WAddr" by (simp add: answers_due_def split: if_splits)
  then have "pending_data m = []" using inv q(1) by (simp add: held_def)
  then show ?thesis using assms(1) q w
    by (simp add: axil_rest_def write_work_def write_phase_def waits_def pending_addrs_def pending_data_def)
qed

definition pending_reads_count :: "axil_master \<Rightarrow> int" where
  "pending_reads_count m =
     int (length (am_int_read_resp_command_queue m)) + (case am_read_resp m of None \<Rightarrow> 0 | Some f \<Rightarrow> 1)"

lemma read_resp_counts:
  "am_in_flight (read_resp_logic bw m) - pending_reads_count (read_resp_logic bw m)
    = am_in_flight m - pending_reads_count m"
proof (induction m rule: read_resp_induct [where bw = bw])
  case (1 m)
  then show ?case by (simp add: read_stopped_logic)
qed (simp_all add: read_step_start read_step_finish read_step_take, simp_all add: pending_reads_count_def)

lemma idle_reads:
  assumes "read_inv cfg mem answers results (m, r)" "axil_master_idle m"
  shows "axil_still cfg mem answers results (m, r)"
proof -
  note inv = assms(1) [unfolded read_inv_def prod.case]
  let ?due = "due_words (al_bw cfg) (m, r)"
  let ?m = "read_more [] ?due m"
  have "am_in_flight ?m = 0" using assms(2) by (simp add: axil_master_idle_def)
  moreover have "read_done results (read_resp_logic (al_bw cfg) ?m)" using inv by blast
  ultimately have "pending_reads_count ?m = 0"
    using read_resp_counts [of "al_bw cfg" ?m] by (simp add: read_done_def pending_reads_count_def)
  then have "read_stopped ?m" by (simp add: pending_reads_count_def read_stopped_def split: option.splits)
  then have "read_done results ?m" using inv read_stopped_logic [of ?m "al_bw cfg"] by simp
  then have q: "am_int_read_resp_queue m = []" "held_words (al_bw cfg) r = []" "pending_reads m = []"
    by (simp_all add: read_done_def due_words_def)
  then have "read_phase r = 0" by (simp add: held_words_def read_phase_def split: ram_read_pc.splits)
  then have "read_work cfg (m, r) = 0" using q by (simp add: read_work_def waits_def pending_reads_def)
  then show ?thesis using read_inv_still [OF assms(1)] by blast
qed

section \<open>Waiting\<close>

text \<open>
  A rule for \<open>wait\<close>: with an invariant that edges keep, under which no edge raises the work and each
  unpaused one lowers it, the wait returns if pauses do not hold both ends for ever.
\<close>

definition axil_fair :: "(nat \<Rightarrow> axil_pause \<times> axil_pause) \<Rightarrow> bool" where
  "axil_fair sched \<longleftrightarrow> (\<forall>t. \<exists>t' \<ge> t. unpaused (fst (sched t')) \<and> unpaused (snd (sched t')))"

interpretation axil: edge_wait "\<lambda>t. axil_step cfg (Edge (fst (sched t)) (snd (sched t)))" "\<lambda>x. axil_master_idle (fst x)"
    "axil_wait cfg sched" "\<lambda>t. unpaused (fst (sched t)) \<and> unpaused (snd (sched t))" for cfg sched
  by unfold_locales (rule axil_wait.simps)

lemma wait_writes:
  assumes "write_inv cfg mem answers x" "axil_fair sched"
  shows "\<exists>m r. axil_wait cfg sched t x = Some (Inr (m, r)) \<and> axil_still cfg mem answers (am_read_data_queue (fst x)) (m, r)"
proof -
  let ?I = "\<lambda>y. write_inv cfg mem answers y \<and> am_read_data_queue (fst y) = am_read_data_queue (fst x)"
  have "\<exists>y. axil_wait cfg sched t x = Some (Inr y) \<and> ?I y \<and> axil_master_idle (fst y)"
  proof (rule axil.wait_rule [where work = "write_work cfg"])
    show "\<exists>y'. axil_step cfg (Edge (fst (sched t)) (snd (sched t))) y = Inr y' \<and> ?I y' \<and> write_work cfg y' \<le> write_work cfg y
        \<and> (unpaused (fst (sched t)) \<and> unpaused (snd (sched t)) \<longrightarrow> write_work cfg y' \<le> write_work cfg y - 1)"
      if "?I y" for t y
      using write_edge [of cfg mem answers "fst y" "snd y" "fst (sched t)" "snd (sched t)"] that by fastforce
    show "axil_master_idle (fst y)" if "?I y" "write_work cfg y = 0" for y
      using that axil_restD(1) [of cfg mem answers "fst y" "snd y"] by (simp add: axil_rest_def)
  qed (use assms in \<open>auto simp: axil_fair_def\<close>)
  then show ?thesis using idle_writes by (fastforce simp: axil_still_def)
qed

lemma wait_reads:
  assumes "read_inv cfg mem answers results x" "axil_fair sched"
  shows "\<exists>m r. axil_wait cfg sched t x = Some (Inr (m, r)) \<and> axil_still cfg mem answers results (m, r)"
proof -
  have "\<exists>y. axil_wait cfg sched t x = Some (Inr y) \<and> read_inv cfg mem answers results y \<and> axil_master_idle (fst y)"
  proof (rule axil.wait_rule [where work = "read_work cfg"])
    show "\<exists>y'. axil_step cfg (Edge (fst (sched t)) (snd (sched t))) y = Inr y' \<and> read_inv cfg mem answers results y'
        \<and> read_work cfg y' \<le> read_work cfg y
        \<and> (unpaused (fst (sched t)) \<and> unpaused (snd (sched t)) \<longrightarrow> read_work cfg y' \<le> read_work cfg y - 1)"
      if "read_inv cfg mem answers results y" for t y
      using read_edge [of cfg mem answers results "fst y" "snd y" "fst (sched t)" "snd (sched t)"] that by fastforce
    show "axil_master_idle (fst y)" if "read_inv cfg mem answers results y" "read_work cfg y = 0" for y
      using that read_inv_still [of cfg mem answers results "fst y" "snd y"] axil_restD(1) [of cfg mem answers "fst y" "snd y"]
      by (simp add: axil_still_def)
  qed (use assms in \<open>auto simp: axil_fair_def\<close>)
  then show ?thesis using idle_reads by fastforce
qed

text \<open>
C14:
  \<open>wait\<close> returns.  After any phases, each all writes or all reads, and then writes only, or reads only, with
  any pauses in between, waiting for the master ends if pauses do not hold the two ends for ever (infinitely
  many edges without a pause are enough); then the memory and both result queues are those of the
  specification.  As for the refinement, commands stay within the address space, and a read has at least one
  octet or starts inside a word.
\<close>

theorem axil_wait_returns:
  assumes "axil_cfg_ok cfg (length mem)" "list_all (axil_phase cfg) phases"
    and "list_all (write_event cfg) es \<or> list_all (read_event cfg) es" "axil_fair sched"
    and "axil_spec (concat (map fst phases) @ es) (mem, [], []) = (mem', ws, rs)"
  shows "\<exists>x m r. axil_run cfg (concat (map (\<lambda>(es, calm). es @ calm) phases) @ es)
      (axil_master0, (axil_ram0 (length mem))\<lparr>ar_file := \<lparr>mm_mem = mem, mm_pos = pos\<rparr>\<rparr>) = Inr x
    \<and> axil_wait cfg sched t x = Some (Inr (m, r))
    \<and> axil_master_idle m \<and> mm_mem (ar_file r) = mem' \<and> am_write_resp_queue m = ws \<and> am_read_data_queue m = rs"
proof -
  obtain mem1 ws1 rs1 where s: "axil_spec (concat (map fst phases)) (mem, [], []) = (mem1, ws1, rs1)"
    by (cases "axil_spec (concat (map fst phases)) (mem, [], [])") auto
  let ?x0 = "(axil_master0, (axil_ram0 (length mem))\<lparr>ar_file := \<lparr>mm_mem = mem, mm_pos = pos\<rparr>\<rparr>)"
  obtain x1 where x1: "axil_run cfg (concat (map (\<lambda>(es, calm). es @ calm) phases)) ?x0 = Inr x1"
      "axil_still cfg mem1 ws1 rs1 x1"
    using phases_run [OF still0 [OF assms(1)] assms(2) s] by blast
  have spec: "axil_spec es (mem1, ws1, rs1) = (mem', ws, rs)" using assms(5) s by (simp add: axil_spec_append)
  have "\<exists>x m r. axil_run cfg es x1 = Inr x \<and> axil_wait cfg sched t x = Some (Inr (m, r)) \<and> axil_still cfg mem' ws rs (m, r)"
    using assms(3)
  proof
    assume es: "list_all (write_event cfg) es"
    have "write_inv cfg mem1 ws1 x1" "am_read_data_queue (fst x1) = rs1" using x1(2) by (simp_all add: axil_still_def axil_rest_def)
    from write_run [OF this(1) es] this(2) obtain x2 where "axil_run cfg es x1 = Inr x2"
      "write_inv cfg (stored es mem1) (ws1 @ write_answers es) x2" "am_read_data_queue (fst x2) = rs1" by auto
    then show ?thesis using wait_writes [OF _ assms(4)] axil_spec_writes [OF es, of mem1 ws1 rs1] spec by fastforce
  next
    assume es: "list_all (read_event cfg) es"
    have "read_inv cfg mem1 ws1 rs1 x1" using still_read_inv x1(2) by (cases x1) blast
    from read_run [OF this es] obtain x2 where "axil_run cfg es x1 = Inr x2"
      "read_inv cfg mem1 ws1 (rs1 @ read_results mem1 es) x2" by blast
    then show ?thesis using wait_reads [OF _ assms(4)] axil_spec_reads [OF es, of mem1 ws1 rs1] spec by fastforce
  qed
  then obtain x m r where r: "axil_run cfg es x1 = Inr x" "axil_wait cfg sched t x = Some (Inr (m, r))"
      "axil_still cfg mem' ws rs (m, r)" by blast
  then have "axil_rest cfg mem' ws (m, r)" "am_read_data_queue m = rs" by (simp_all add: axil_still_def)
  with axil_restD [OF this(1)] r(1,2) x1(1) show ?thesis
    by (intro exI [of _ x] exI [of _ m] exI [of _ r]) (simp add: axil_run_append)
qed

theorem axil_wait_returns_witness:
  "\<exists>x m r. axil_run \<lparr>al_bw = 4, al_addr_bits = 8, al_latency = 1\<rparr> [Write 2 [1, 2, 3] 0, Write 15 [7] 1]
      (axil_master0, (axil_ram0 (length [9 :: 8 word, 9, 9, 9, 9, 9, 9, 9]))\<lparr>ar_file := \<lparr>mm_mem = [9, 9, 9, 9, 9, 9, 9, 9], mm_pos = 0\<rparr>\<rparr>) = Inr x
    \<and> axil_wait \<lparr>al_bw = 4, al_addr_bits = 8, al_latency = 1\<rparr>
        (\<lambda>t. (\<lparr>p_aw = odd t, p_w = odd t, p_b = odd t, p_ar = odd t, p_r = odd t\<rparr>,
              \<lparr>p_aw = False, p_w = 3 dvd t, p_b = False, p_ar = False, p_r = False\<rparr>)) 0 x = Some (Inr (m, r))
    \<and> axil_master_idle m \<and> mm_mem (ar_file r) = [9, 9, 1, 2, 3, 9, 9, 7]
    \<and> am_write_resp_queue m = [(2, 3, 0, RESP_OKAY), (15, 1, 1, RESP_OKAY)] \<and> am_read_data_queue m = []"
proof -
  let ?cfg = "\<lparr>al_bw = 4, al_addr_bits = 8, al_latency = 1\<rparr>" and ?es = "[Write 2 [1, 2, 3] 0, Write 15 [7] 1]"
  let ?sched = "\<lambda>t. (\<lparr>p_aw = odd t, p_w = odd t, p_b = odd t, p_ar = odd t, p_r = odd t\<rparr>,
      \<lparr>p_aw = False, p_w = 3 dvd (t :: nat), p_b = False, p_ar = False, p_r = False\<rparr>)"
  have "\<exists>t' \<ge> t. even t' \<and> \<not> 3 dvd t'" for t :: nat
    by (intro exI [of _ "6 * t + 2"]) (simp, presburger)
  then have "axil_fair ?sched" by (simp add: axil_fair_def unpaused_def)
  moreover have "axil_cfg_ok ?cfg (length [9 :: 8 word, 9, 9, 9, 9, 9, 9, 9])" "list_all (axil_phase ?cfg) []"
    "list_all (write_event ?cfg) ?es \<or> list_all (read_event ?cfg) ?es"
    "axil_spec (concat (map fst []) @ ?es) ([9, 9, 9, 9, 9, 9, 9, 9], [], []) =
      ([9, 9, 1, 2, 3, 9, 9, 7], [(2, 3, 0, RESP_OKAY), (15, 1, 1, RESP_OKAY)], [])"
    by code_simp+
  ultimately show ?thesis
    using axil_wait_returns [where cfg = ?cfg and phases = "[]" and es = ?es and sched = ?sched and t = 0 and pos = 0
        and mem = "[9, 9, 9, 9, 9, 9, 9, 9]"]
    by (simp del: axil_run.simps axil_spec.simps One_nat_def)
qed

end
