(* ===== verification/Axi_Link.thy ===== *)
theory Axi_Link
  imports Axi_Read Axil_Wait
begin

text \<open>
  An AXI master and a memory together.  Within a batch, commands that read and commands that write may be under
  way at the same time, in any order and with any pauses, as long as no position is both read and written; then the
  test waits.  The batches implement an octet-addressed memory.
\<close>

section \<open>The state while commands are under way\<close>

definition axi_inv ::
    "axi_cfg \<Rightarrow> nat set \<Rightarrow> bytes \<Rightarrow> bytes \<Rightarrow> (nat \<times> nat \<times> int \<times> int) list \<Rightarrow> (nat \<times> bytes \<times> int \<times> int) list \<Rightarrow>
     axi_master \<times> axi_ram \<Rightarrow> bool" where
  "axi_inv cfg D mem0 target answers results x \<longleftrightarrow> (case x of (m, ra) \<Rightarrow>
     axi_write_inv cfg D mem0 target answers (xm_write m) (xa_write ra) (mm_mem (xa_file ra))
     \<and> axi_read_inv cfg D mem0 results (xm_read m) (xa_read ra) \<and> xa_size ra = length mem0
     \<and> xm_in_flight m = int (length (unanswered (xm_write m))) + int (length (unread (xm_read m))))"

definition axi_work :: "axi_master \<times> axi_ram \<Rightarrow> nat" where
  "axi_work x = axi_write_work (xm_write (fst x)) (xa_write (snd x)) + axi_read_work (xm_read (fst x)) (xa_read (snd x))"

lemma write_inv_agree: "axi_write_inv cfg D mem0 target answers w rw mem \<Longrightarrow> agree D mem mem0"
  by (simp add: axi_write_inv_def write_data_def)

lemma agree_length: "agree D mem mem' \<Longrightarrow> length mem = length mem'"
  by (simp add: agree_def)

lemma axi_edge:
  assumes "axi_inv cfg D mem0 target answers results x"
  shows "\<exists>x'. axi_step cfg (AxiEdge pm pr) x = Inr x' \<and> axi_inv cfg D mem0 target answers results x'
    \<and> axi_work x' \<le> axi_work x \<and> (unpaused pm \<and> unpaused pr \<longrightarrow> axi_work x' \<le> axi_work x - 1)"
proof -
  obtain m ra where x: "x = (m, ra)" by (cases x)
  note inv = assms [unfolded axi_inv_def x prod.case]
  have len: "length (mm_mem (xa_file ra)) = length mem0" using inv write_inv_agree agree_length by blast
  have winv: "axi_write_inv cfg D mem0 target answers (xm_write m) (xa_write ra) (mm_mem (xa_file ra))"
    and rinv: "axi_read_inv cfg D mem0 results (xm_read m) (xa_read ra)" using inv by blast+
  from axi_write_edge [OF winv, of pm pr "xm_in_flight m"] obtain n1 w1 f1 rw1 where W:
    "axi_master_write_step cfg pm (to_axi_master pr ra) (xm_in_flight m, xm_write m) = Inr (n1, w1)"
    "axi_ram_write_step cfg pr (to_axi_ram pm m) (length mem0) (xa_file ra, xa_write ra) = Inr (f1, rw1)"
    "axi_write_inv cfg D mem0 target answers w1 rw1 (mm_mem f1)"
    "n1 - int (length (unanswered w1)) = xm_in_flight m - int (length (unanswered (xm_write m)))"
    "axi_write_work w1 rw1 \<le> axi_write_work (xm_write m) (xa_write ra)"
    "unpaused pm \<and> unpaused pr \<longrightarrow> axi_write_work w1 rw1 \<le> axi_write_work (xm_write m) (xa_write ra) - 1"
    unfolding len by blast
  from axi_read_edge [OF rinv write_inv_agree [OF W(3)], of pm pr n1] obtain n2 r1 f2 rr1 where R:
    "axi_master_read_step cfg pm (to_axi_master pr ra) (n1, xm_read m) = Inr (n2, r1)"
    "axi_ram_read_step cfg pr (to_axi_ram pm m) (length mem0) (f1, xa_read ra) = Inr (f2, rr1)" "mm_mem f2 = mm_mem f1"
    "axi_read_inv cfg D mem0 results r1 rr1"
    "n2 - int (length (unread r1)) = n1 - int (length (unread (xm_read m)))"
    "axi_read_work r1 rr1 \<le> axi_read_work (xm_read m) (xa_read ra)"
    "unpaused pm \<and> unpaused pr \<longrightarrow> axi_read_work r1 rr1 \<le> axi_read_work (xm_read m) (xa_read ra) - 1" by blast
  let ?x = "(m\<lparr>xm_in_flight := n2, xm_write := w1, xm_read := r1\<rparr>, ra\<lparr>xa_file := f2, xa_write := rw1, xa_read := rr1\<rparr>)"
  have "axi_step cfg (AxiEdge pm pr) x = Inr ?x"
    using W(1,2) R(1,2) inv by (simp add: x axi_master_step_def axi_ram_step_def)
  moreover have "axi_inv cfg D mem0 target answers results ?x"
    using W(3,4) R(3-5) inv by (simp add: axi_inv_def)
  moreover have "axi_work ?x \<le> axi_work x" using W(5) R(6) by (simp add: axi_work_def x)
  moreover have "unpaused pm \<and> unpaused pr \<longrightarrow> axi_work ?x \<le> axi_work x - 1"
    using W(6) R(7) by (auto simp: axi_work_def x)
  ultimately show ?thesis by blast
qed

lemma axi_work_0:
  assumes "axi_inv cfg D mem0 target answers results (m, ra)" "axi_work (m, ra) = 0"
  shows "axi_master_idle m"
proof -
  note inv = assms(1) [unfolded axi_inv_def prod.case]
  have "unanswered (xm_write m) = []" "unread (xm_read m) = []"
    using inv assms(2) write_work_0 [of cfg D mem0 target answers "xm_write m" "xa_write ra"]
      read_work_0 [of cfg D mem0 results "xm_read m" "xa_read ra"] by (auto simp: axi_work_def)
  moreover have "xw_command_queue (xm_write m) = []" "xr_command_queue (xm_read m) = []"
    using inv by (simp_all add: axi_write_inv_def axi_read_inv_def)
  ultimately show ?thesis using inv by (simp add: axi_master_idle_def)
qed

lemma axi_idle:
  assumes "axi_inv cfg D mem0 target answers results (m, ra)" "axi_master_idle m"
  shows "mm_mem (xa_file ra) = target" "xw_resp_queue (xm_write m) = answers" "xr_data_queue (xm_read m) = results"
    "axi_inv cfg D' target target answers results (m, ra)"
proof -
  note inv = assms(1) [unfolded axi_inv_def prod.case]
  have n: "unanswered (xm_write m) = []" "unread (xm_read m) = []"
  proof -
    have "int (length (unanswered (xm_write m))) + int (length (unread (xm_read m))) = 0"
      using inv assms(2) by (simp add: axi_master_idle_def)
    then have "length (unanswered (xm_write m)) = 0" "length (unread (xm_read m)) = 0" by linarith+
    then show "unanswered (xm_write m) = []" "unread (xm_read m) = []" by simp_all
  qed
  note w = write_idle [OF conjunct1 [OF inv] n(1)]
  have len: "length target = length mem0" using w(1) inv write_inv_agree agree_length by blast
  note r = read_idle [OF conjunct1 [OF conjunct2 [OF inv]] n(2) len]
  show "mm_mem (xa_file ra) = target" "xw_resp_queue (xm_write m) = answers" "xr_data_queue (xm_read m) = results"
    using w r by simp_all
  show "axi_inv cfg D' target target answers results (m, ra)"
    using w r inv len by (simp add: axi_inv_def)
qed

interpretation axi: edge_wait "\<lambda>t. axi_step cfg (AxiEdge (fst (sched t)) (snd (sched t)))" "\<lambda>x. axi_master_idle (fst x)"
    "axi_wait cfg sched" "\<lambda>t. unpaused (fst (sched t)) \<and> unpaused (snd (sched t))" for cfg sched
  by unfold_locales (rule axi_wait.simps)

lemma axi_waits:
  assumes "axi_inv cfg D mem0 target answers results x" "axil_fair sched"
  shows "\<exists>m ra. axi_wait cfg sched t x = Some (Inr (m, ra)) \<and> axi_inv cfg D mem0 target answers results (m, ra) \<and> axi_master_idle m"
proof -
  have "\<exists>y. axi_wait cfg sched t x = Some (Inr y) \<and> axi_inv cfg D mem0 target answers results y \<and> axi_master_idle (fst y)"
  proof (rule axi.wait_rule [where work = axi_work])
    show "axi_master_idle (fst y)" if "axi_inv cfg D mem0 target answers results y" "axi_work y = 0" for y
      using axi_work_0 [of cfg D mem0 target answers results "fst y" "snd y"] that by simp
  qed (use assms axi_edge in \<open>auto simp: axil_fair_def\<close>)
  then show ?thesis by auto
qed

section \<open>Batches of commands\<close>

text \<open>The specification: commands act at once and in their order.\<close>

fun axi_spec ::
    "axi_event list \<Rightarrow> bytes \<times> (nat \<times> nat \<times> int \<times> int) list \<times> (nat \<times> bytes \<times> int \<times> int) list \<Rightarrow>
     bytes \<times> (nat \<times> nat \<times> int \<times> int) list \<times> (nat \<times> bytes \<times> int \<times> int) list" where
  "axi_spec [] s = s"
| "axi_spec (AxiWrite addr data sz attr # es) (mem, ws, rs) =
     axi_spec es (store addr data mem, ws @ [(addr, length data, at_prot attr, RESP_OKAY)], rs)"
| "axi_spec (AxiRead addr len sz attr # es) (mem, ws, rs) =
     axi_spec es (mem, ws, rs @ [(addr, load addr len mem, at_prot attr, RESP_OKAY)])"
| "axi_spec (AxiEdge pm pr # es) s = axi_spec es s"

fun axi_event_fits :: "axi_cfg \<Rightarrow> axi_event \<Rightarrow> bool" where
  "axi_event_fits cfg (AxiWrite addr data sz attr) = axi_command_fits cfg addr (length data) sz attr"
| "axi_event_fits cfg (AxiRead addr len sz attr) = axi_command_fits cfg addr len sz attr"
| "axi_event_fits cfg (AxiEdge pm pr) = True"

fun written :: "nat \<Rightarrow> axi_event list \<Rightarrow> nat set" where
  \<comment> \<open>the positions that a batch writes\<close>
  "written n [] = {}"
| "written n (AxiWrite addr data sz attr # es) = footprint n addr (length data) \<union> written n es"
| "written n (e # es) = written n es"

fun fetched :: "nat \<Rightarrow> axi_event list \<Rightarrow> nat set" where
  "fetched n [] = {}"
| "fetched n (AxiRead addr len sz attr # es) = footprint n addr len \<union> fetched n es"
| "fetched n (e # es) = fetched n es"

definition axi_batch :: "axi_cfg \<Rightarrow> nat \<Rightarrow> axi_event list \<Rightarrow> bool" where
  "axi_batch cfg n es \<longleftrightarrow> list_all (axi_event_fits cfg) es \<and> fetched n es \<inter> written n es = {}"

lemma axi_spec_append: "axi_spec (es @ es') s = axi_spec es' (axi_spec es s)"
  by (induction es s rule: axi_spec.induct) simp_all

lemma axi_spec_length: "axi_spec es (mem, ws, rs) = (mem', ws', rs') \<Longrightarrow> length mem' = length mem"
proof (induction es arbitrary: mem ws rs)
  case (Cons e es)
  then show ?case by (cases e) fastforce+
qed simp

lemma store_agree:
  assumes "D \<inter> footprint (length mem) addr (length data) = {}" "agree D mem mem0"
  shows "agree D (store addr data mem) mem0"
proof -
  have "store addr data mem ! q = mem ! q" if "q \<in> D" for q
    using assms(1) that by (intro store_other) (auto simp: footprint_def)
  then show ?thesis using assms(2) by (simp add: agree_def)
qed

lemma load_agree:
  assumes "footprint (length mem0) addr len \<subseteq> D" "agree D mem mem0"
  shows "load addr len mem = load addr len mem0"
  using assms by (auto simp: load_def agree_def footprint_def)

lemma batch_run:
  assumes "axi_inv cfg D mem0 mem ws rs x" "agree D mem mem0" "list_all (axi_event_fits cfg) es"
    and "fetched (length mem0) es \<subseteq> D" "D \<inter> written (length mem0) es = {}"
    and "axi_spec es (mem, ws, rs) = (mem', ws', rs')"
  shows "\<exists>x'. axi_run cfg es x = Inr x' \<and> axi_inv cfg D mem0 mem' ws' rs' x'"
  using assms
proof (induction es arbitrary: mem ws rs x)
  case (Cons e es)
  obtain m ra where x: "x = (m, ra)" by (cases x)
  note inv = Cons.prems(1) [unfolded axi_inv_def x prod.case]
  have winv: "axi_write_inv cfg D mem0 mem ws (xm_write m) (xa_write ra) (mm_mem (xa_file ra))"
    and rinv: "axi_read_inv cfg D mem0 rs (xm_read m) (xa_read ra)" using inv by blast+
  show ?case
  proof (cases e)
    case (AxiWrite addr data s attr)
    have len: "length (mm_mem (xa_file ra)) = length mem0" "length mem = length mem0"
      using agree_length [OF write_inv_agree [OF winv]] agree_length [OF Cons.prems(2)] .
    have fit: "axi_command_fits cfg addr (length data) s attr" "D \<inter> footprint (length mem0) addr (length data) = {}"
      using Cons.prems(3,5) AxiWrite by auto
    from axi_write_command_inv [OF winv fit(1)] fit(2) len obtain n' w' where s:
      "axi_write_logic cfg (axi_init_write addr data s attr m) = Inr (m\<lparr>xm_in_flight := n', xm_write := w'\<rparr>)"
      "axi_write_inv cfg D mem0 (store addr data mem) (ws @ [(addr, length data, at_prot attr, RESP_OKAY)]) w' (xa_write ra)
         (mm_mem (xa_file ra))"
      "n' - int (length (unanswered w')) = xm_in_flight m - int (length (unanswered (xm_write m)))" by auto
    have "axi_inv cfg D mem0 (store addr data mem) (ws @ [(addr, length data, at_prot attr, RESP_OKAY)]) rs
        (m\<lparr>xm_in_flight := n', xm_write := w'\<rparr>, ra)"
      using inv s by (simp add: axi_inv_def)
    from Cons.IH [OF this store_agree [of D mem addr data mem0]] show ?thesis
      using Cons.prems fit(2) len s(1) by (simp add: AxiWrite x Int_Un_distrib)
  next
    case (AxiRead addr len s attr)
    have fit: "axi_command_fits cfg addr len s attr" "footprint (length mem0) addr len \<subseteq> D"
      using Cons.prems(3,4) AxiRead by auto
    from axi_read_command_inv [OF rinv fit] obtain n' r' where s:
      "axi_read_logic cfg (axi_init_read addr len s attr m) = Inr (m\<lparr>xm_in_flight := n', xm_read := r'\<rparr>)"
      "axi_read_inv cfg D mem0 (rs @ [(addr, load addr len mem0, at_prot attr, RESP_OKAY)]) r' (xa_read ra)"
      "n' - int (length (unread r')) = xm_in_flight m - int (length (unread (xm_read m)))" by blast
    have "axi_inv cfg D mem0 mem ws (rs @ [(addr, load addr len mem0, at_prot attr, RESP_OKAY)])
        (m\<lparr>xm_in_flight := n', xm_read := r'\<rparr>, ra)"
      using inv s by (simp add: axi_inv_def)
    from Cons.IH [OF this Cons.prems(2)] show ?thesis
      using Cons.prems(3-) s(1) load_agree [OF fit(2) Cons.prems(2)] by (simp add: AxiRead x)
  next
    case (AxiEdge pm pr)
    from axi_edge [OF Cons.prems(1), of pm pr] obtain x' where s:
      "axi_step cfg e x = Inr x'" "axi_inv cfg D mem0 mem ws rs x'" unfolding AxiEdge by blast
    show ?thesis using Cons.IH [OF s(2) Cons.prems(2)] Cons.prems(3-) s(1) AxiEdge by simp
  qed
qed simp

fun axi_test ::
    "axi_cfg \<Rightarrow> (axi_event list \<times> (nat \<Rightarrow> axil_pause \<times> axil_pause)) list \<Rightarrow> axi_master \<times> axi_ram \<Rightarrow>
     (axi_master \<times> axi_ram) result option" where
  \<comment> \<open>batches, with a wait after each\<close>
  "axi_test cfg [] x = Some (Inr x)"
| "axi_test cfg ((es, sched) # bs) x =
     (case axi_run cfg es x of
        Inl e \<Rightarrow> Some (Inl e)
      | Inr x \<Rightarrow>
          (case axi_wait cfg sched 0 x of
             None \<Rightarrow> None
           | Some r \<Rightarrow> (case r of Inl e \<Rightarrow> Some (Inl e) | Inr x \<Rightarrow> axi_test cfg bs x)))"

lemma axi_test_ok:
  assumes "axi_inv cfg {} mem mem ws rs (m, ra)" "axi_master_idle m"
    and "list_all (\<lambda>(es, sched). axi_batch cfg (length mem) es \<and> axil_fair sched) batches"
    and "axi_spec (concat (map fst batches)) (mem, ws, rs) = (mem', ws', rs')"
  shows "\<exists>m' ra'. axi_test cfg batches (m, ra) = Some (Inr (m', ra')) \<and> axi_inv cfg {} mem' mem' ws' rs' (m', ra') \<and> axi_master_idle m'"
  using assms
proof (induction batches arbitrary: mem ws rs m ra)
  case (Cons b batches)
  obtain es sched where b: "b = (es, sched)" by (cases b)
  have ok: "list_all (axi_event_fits cfg) es" "fetched (length mem) es \<inter> written (length mem) es = {}" "axil_fair sched"
    using Cons.prems(3) by (auto simp: b axi_batch_def)
  let ?D = "fetched (length mem) es"
  obtain mem1 ws1 rs1 where s: "axi_spec es (mem, ws, rs) = (mem1, ws1, rs1)" by (cases "axi_spec es (mem, ws, rs)") auto
  have "agree ?D mem mem" by (simp add: agree_def)
  from batch_run [OF axi_idle(4) [OF Cons.prems(1,2)] this ok(1) order_refl ok(2) s] obtain x1 where x1:
    "axi_run cfg es (m, ra) = Inr x1" "axi_inv cfg ?D mem mem1 ws1 rs1 x1" by blast
  from axi_waits [OF x1(2) ok(3), of 0] obtain m2 ra2 where x2:
    "axi_wait cfg sched 0 x1 = Some (Inr (m2, ra2))" "axi_inv cfg ?D mem mem1 ws1 rs1 (m2, ra2)" "axi_master_idle m2" by blast
  have "length mem1 = length mem" by (rule axi_spec_length [OF s])
  then show ?case
    using Cons.IH [OF axi_idle(4) [OF x2(2,3)] x2(3)] Cons.prems(3,4) x1(1) x2(1) s by (simp add: b axi_spec_append)
qed simp

definition axi_fresh :: "int \<Rightarrow> bytes \<Rightarrow> nat \<Rightarrow> axi_master \<times> axi_ram" where
  \<comment> \<open>a fresh master, with any \<open>max_burst_len\<close>, and a memory with these contents\<close>
  "axi_fresh mbl mem pos = (axi_master0\<lparr>xm_max_burst_len := mbl\<rparr>, (axi_ram0 (length mem))\<lparr>xa_file := \<lparr>mm_mem = mem, mm_pos = pos\<rparr>\<rparr>)"

lemma axi_inv0:
  assumes "axi_cfg_ok cfg (length mem)"
  shows "axi_inv cfg D mem mem [] [] (axi_fresh mbl mem pos)" "axi_master_idle (fst (axi_fresh mbl mem pos))"
  using assms
  by (simp_all add: axi_fresh_def axi_inv_def axi_write_inv_def axi_read_inv_def axi_master0_def axi_ram0_def resp_ok_def
      axi_answers_def unanswered_def chan_ok_def sent_addrs_def sent_data_def chan_words_def ram_write_stopped_def
      ram_bursts_ok_def ram_resps_def all_beats_def ram_beats_def hand_beats_def write_data_def agree_def asked_def ram_words_def
      reads_ok_def axi_results_def unread_def reads_stopped_def reads_due_def read_beats_def axi_master_idle_def)
text \<open>
C2:
  The AXI master and the memory implement an octet-addressed memory.  From any contents, for every word size of the code,
  any number of identifier bits and any \<open>max_burst_len\<close>, a test of batches runs to its end without an error: in
  a batch, writes and reads of any length at any address, with beats as wide as the bus or narrower, are issued in any order
  and overlap in time with any pauses of both ends, as long as no position of the memory is both read and written,
  and then the test waits for the master under pauses that do not last for ever.  At the end the memory holds what storing
  the octets of the writes in order gives (modulo its size), and both queues hold one result per command, in order, with
  the octets that a memory that acts at once would have returned.
\<close>

theorem axi_memory_refines:
  assumes "axi_cfg_ok cfg (length mem)"
    and "list_all (\<lambda>(es, sched). axi_batch cfg (length mem) es \<and> axil_fair sched) batches"
    and "axi_spec (concat (map fst batches)) (mem, [], []) = (mem', ws, rs)"
  shows "\<exists>m ra. axi_test cfg batches (axi_fresh mbl mem pos) = Some (Inr (m, ra))
    \<and> axi_master_idle m \<and> mm_mem (xa_file ra) = mem' \<and> xw_resp_queue (xm_write m) = ws \<and> xr_data_queue (xm_read m) = rs"
proof -
  obtain m ra where x: "axi_fresh mbl mem pos = (m, ra)" by (cases "axi_fresh mbl mem pos")
  note init = axi_inv0 [OF assms(1), where mbl = mbl and pos = pos, unfolded x fst_conv]
  from axi_test_ok [OF init assms(2,3)] obtain m' ra' where r: "axi_test cfg batches (m, ra) = Some (Inr (m', ra'))"
    "axi_inv cfg {} mem' mem' ws rs (m', ra')" "axi_master_idle m'" by blast
  with axi_idle(1-3) [OF r(2,3)] show ?thesis unfolding x by blast
qed

text \<open>What the signals and queues of the bus hold fits the ports, and every burst is one the protocol allows.\<close>

definition axi_typed :: "axi_cfg \<Rightarrow> axi_master \<times> axi_ram \<Rightarrow> bool" where
  "axi_typed cfg x \<longleftrightarrow> (case x of (m, ra) \<Rightarrow>
     list_all (axi_addr_fits cfg) (sent_addrs (xm_write m) @ asked (xm_read m))
     \<and> list_all (\<lambda>a. burst_ok (ax_bw cfg) (burst_of a)) (sent_addrs (xm_write m) @ asked (xm_read m))
     \<and> list_all (axi_data_fits cfg) (sent_data (xm_write m))
     \<and> list_all (axi_b_fits cfg) (ram_resps (xa_write ra)) \<and> list_all (axi_r_fits cfg) (ram_words (xa_read ra)))"

lemma chan_ok_words: "chan_ok fit q c \<Longrightarrow> list_all fit (chan_words c @ q)"
  by (simp add: chan_ok_def chan_words_def)

lemma axi_inv_typed:
  assumes "axi_inv cfg D mem0 target answers results x"
  shows "axi_typed cfg x"
proof -
  obtain m ra where x: "x = (m, ra)" by (cases x)
  have "axi_write_inv cfg D mem0 target answers (xm_write m) (xa_write ra) (mm_mem (xa_file ra))"
    "axi_read_inv cfg D mem0 results (xm_read m) (xa_read ra)" using assms by (simp_all add: axi_inv_def x)
  note w = this(1) [unfolded axi_write_inv_def] and r = this(2) [unfolded axi_read_inv_def]
  have "list_all (axi_addr_fits cfg) (sent_addrs (xm_write m))" "list_all (axi_data_fits cfg) (sent_data (xm_write m))"
    "list_all (axi_b_fits cfg) (ram_resps (xa_write ra))" "list_all (axi_addr_fits cfg) (asked (xm_read m))"
    "list_all (axi_r_fits cfg) (ram_words (xa_read ra))"
    unfolding sent_addrs_def sent_data_def ram_resps_def asked_def ram_words_def using w r chan_ok_words by blast+
  moreover have "list_all (\<lambda>a. burst_ok (ax_bw cfg) (burst_of a)) (sent_addrs (xm_write m))"
    "list_all (\<lambda>a. burst_ok (ax_bw cfg) (burst_of a)) (asked (xm_read m))" using w r by blast+
  ultimately show ?thesis by (simp add: axi_typed_def x)
qed

text \<open>
C12:
  At every moment of a batch the bus is well-typed: no event raises, every identifier, address, length, size, attribute,
  word, strobe and response in the queues and on the channels fits its port, and every burst is incrementing and aligned, has
  beats no wider than the bus and stays within 4 KiB.
\<close>

theorem axi_bus_well_typed:
  assumes "axi_cfg_ok cfg (length mem)" "axi_batch cfg (length mem) es"
  shows "\<exists>x. axi_run cfg es (axi_fresh mbl mem pos) = Inr x \<and> axi_typed cfg x"
proof -
  let ?D = "fetched (length mem) es"
  obtain mem' ws rs where s: "axi_spec es (mem, [], []) = (mem', ws, rs)" by (cases "axi_spec es (mem, [], [])") auto
  have "agree ?D mem mem" by (simp add: agree_def)
  from batch_run [OF axi_inv0(1) [OF assms(1)] this _ order_refl _ s] assms(2) axi_inv_typed show ?thesis
    by (fastforce simp: axi_batch_def)
qed

text \<open>
C11:
  The two loops that cut commands agree.  For the same address, length and beat size, and the same identifier
  to begin with, \<open>write_logic\<close> and \<open>read_logic\<close> issue the same bursts, although one counts the beats of a burst up and
  the other ahead; they are those of the recursion that makes each burst as long as \<open>max_burst_len\<close>, 256 and
  the 4 KiB boundary allow, their beats are consecutive from the aligned address on, and the list of bursts that
  the read side keeps for the responses has their identifiers and lengths.
\<close>

theorem axi_cuts_agree:
  assumes "axi_cfg_ok cfg n" "axi_command_fits cfg addr (length data) s attr"
    and "xw_cur_id (xm_write m) = i" "xr_cur_id (xm_read m) = i" "i < 2 ^ ax_id_bits cfg"
  shows "\<exists>as mw mr sz' nb k. axi_write_command cfg (addr, data, s, attr) m = Inr mw
    \<and> axi_read_command cfg (addr, length data, s, attr) m = Inr mr
    \<and> xw_addr_queue (xm_write mw) = xw_addr_queue (xm_write m) @ as \<and> xr_addr_queue (xm_read mr) = xr_addr_queue (xm_read m) @ as
    \<and> xr_resp_command_queue (xm_read mr) = xr_resp_command_queue (xm_read m)
        @ [(addr, length data, sz', k, at_prot attr, map (\<lambda>a. (ad_id a, ad_len a + 1)) as)]
    \<and> as = axi_bursts cfg (xm_max_burst_len m) sz' nb attr k (addr div nb * nb) i
    \<and> burst_addrs as = map (\<lambda>j. addr div nb * nb + j * nb) [0..<k]
    \<and> list_all (\<lambda>a. ad_len a < 256 \<and> ad_addr a mod 0x1000 + (ad_len a + 1) * nb \<le> 0x1000) as"
proof -
  let ?nb = "num_bytes_of (ax_bw cfg) s" and ?k = "axi_cycles (num_bytes_of (ax_bw cfg) s) addr (length data)"
  from axi_write_command_ok [OF assms(1,2), of m "{}"] assms(3,5) obtain as ds i' sz1 nb1 where w:
    "axi_write_command cfg (addr, data, s, attr) m = Inr (m\<lparr>xm_in_flight := xm_in_flight m + 1,
      xm_write := (xm_write m)\<lparr>xw_cur_id := i', xw_addr_queue := xw_addr_queue (xm_write m) @ as,
        xw_data_queue := xw_data_queue (xm_write m) @ ds,
        xw_resp_command_queue := xw_resp_command_queue (xm_write m) @ [(addr, length data, length as, at_prot attr)]\<rparr>\<rparr>)"
    "axi_size (ax_bw cfg) s = Inr (sz1, nb1)"
    "as = axi_bursts cfg (xm_max_burst_len m) sz1 nb1 attr ?k (addr div nb1 * nb1) i" by blast
  from axi_read_command_ok [OF assms(1,2), of m] assms(4,5) obtain as' j sz' where r:
    "axi_read_command cfg (addr, length data, s, attr) m = Inr (m\<lparr>xm_in_flight := xm_in_flight m + 1,
      xm_read := (xm_read m)\<lparr>xr_cur_id := j, xr_addr_queue := xr_addr_queue (xm_read m) @ as',
        xr_resp_command_queue := xr_resp_command_queue (xm_read m)
          @ [(addr, length data, sz', ?k, at_prot attr, map (\<lambda>a. (ad_id a, ad_len a + 1)) as')]\<rparr>\<rparr>)"
    "list_all (axi_addr_fits cfg) as'" "list_all (\<lambda>a. burst_ok (ax_bw cfg) (burst_of a)) as'" "?nb = 2 ^ sz'"
    "burst_addrs as' = map (\<lambda>j. addr div ?nb * ?nb + j * ?nb) [0..<?k]" "axi_size (ax_bw cfg) s = Inr (sz', ?nb)"
    "as' = axi_bursts cfg (xm_max_burst_len m) sz' ?nb attr ?k (addr div ?nb * ?nb) i" by blast
  have "sz1 = sz'" "nb1 = ?nb" using w(2) r(6) by simp_all
  then have same: "as = as'" using w(3) r(7) by simp
  have "ad_len a < 256 \<and> ad_addr a mod 0x1000 + (ad_len a + 1) * ?nb \<le> 0x1000" if "a \<in> set as'" for a
  proof -
    have "list_all (\<lambda>a. ad_size a = sz') as'" by (subst r(7)) (rule bursts_size)
    then have "ad_size a = sz'" using that by (simp add: list_all_iff)
    moreover have "burst_ok (ax_bw cfg) (burst_of a)" "axi_addr_fits cfg a" using r(2,3) that by (simp_all add: list_all_iff)
    ultimately show ?thesis
      using r(4) by (simp add: burst_ok_def burst_of_def axi_addr_fits_def mult.commute le_diff_conv2 add.commute)
  qed
  then have legal: "list_all (\<lambda>a. ad_len a < 256 \<and> ad_addr a mod 0x1000 + (ad_len a + 1) * ?nb \<le> 0x1000) as'"
    by (simp add: list_all_iff)
  obtain mw where "axi_write_command cfg (addr, data, s, attr) m = Inr mw"
    "xw_addr_queue (xm_write mw) = xw_addr_queue (xm_write m) @ as'" using w(1) same by simp
  moreover obtain mr where "axi_read_command cfg (addr, length data, s, attr) m = Inr mr"
    "xr_addr_queue (xm_read mr) = xr_addr_queue (xm_read m) @ as'"
    "xr_resp_command_queue (xm_read mr) = xr_resp_command_queue (xm_read m)
        @ [(addr, length data, sz', ?k, at_prot attr, map (\<lambda>a. (ad_id a, ad_len a + 1)) as')]"
    using r(1) by simp
  ultimately show ?thesis using r(5,7) legal by blast
qed

theorem axi_memory_refines_witness:
  "\<exists>m ra. axi_test \<lparr>ax_bw = 4, ax_addr_bits = 8, ax_id_bits = 2\<rparr>
      [([AxiWrite 2 [1, 2, 3] (Some 0) axi_attr0, AxiRead 6 2 None axi_attr0],
        \<lambda>t. (\<lparr>p_aw = odd t, p_w = odd t, p_b = odd t, p_ar = odd t, p_r = odd t\<rparr>,
              \<lparr>p_aw = False, p_w = 3 dvd t, p_b = False, p_ar = False, p_r = False\<rparr>)),
       ([AxiRead 1 4 (Some 1) axi_attr0],
        \<lambda>t. (\<lparr>p_aw = odd t, p_w = odd t, p_b = odd t, p_ar = odd t, p_r = odd t\<rparr>,
              \<lparr>p_aw = False, p_w = 3 dvd t, p_b = False, p_ar = False, p_r = False\<rparr>))]
      (axi_fresh 2 [9, 9, 9, 9, 9, 9, 8, 7] 0) = Some (Inr (m, ra))
    \<and> axi_master_idle m \<and> mm_mem (xa_file ra) = [9, 9, 1, 2, 3, 9, 8, 7]
    \<and> xw_resp_queue (xm_write m) = [(2, 3, 2, RESP_OKAY)]
    \<and> xr_data_queue (xm_read m) = [(6, [8, 7], 2, RESP_OKAY), (1, [9, 1, 2, 3], 2, RESP_OKAY)]"
proof -
  let ?cfg = "\<lparr>ax_bw = 4, ax_addr_bits = 8, ax_id_bits = 2\<rparr>" and ?mem = "[9, 9, 9, 9, 9, 9, 8, 7] :: bytes"
  let ?sched = "\<lambda>t. (\<lparr>p_aw = odd t, p_w = odd t, p_b = odd t, p_ar = odd t, p_r = odd t\<rparr>,
      \<lparr>p_aw = False, p_w = 3 dvd (t :: nat), p_b = False, p_ar = False, p_r = False\<rparr>)"
  let ?es1 = "[AxiWrite 2 [1, 2, 3] (Some 0) axi_attr0, AxiRead 6 2 None axi_attr0]" and ?es2 = "[AxiRead 1 4 (Some 1) axi_attr0]"
  have "\<exists>t' \<ge> t. even t' \<and> \<not> 3 dvd t'" for t :: nat
    by (intro exI [of _ "6 * t + 2"]) (simp, presburger)
  then have "axil_fair ?sched" by (simp add: axil_fair_def unpaused_def)
  moreover have "axi_cfg_ok ?cfg (length ?mem)" "axi_batch ?cfg (length ?mem) ?es1" "axi_batch ?cfg (length ?mem) ?es2"
    "axi_spec (?es1 @ ?es2) (?mem, [], []) =
      ([9, 9, 1, 2, 3, 9, 8, 7], [(2, 3, 2, RESP_OKAY)], [(6, [8, 7], 2, RESP_OKAY), (1, [9, 1, 2, 3], 2, RESP_OKAY)])"
    by code_simp+
  ultimately show ?thesis
    using axi_memory_refines [where cfg = ?cfg and mem = ?mem and batches = "[(?es1, ?sched), (?es2, ?sched)]" and mbl = 2 and pos = 0]
    by (simp del: axi_test.simps axi_spec.simps One_nat_def)
qed

theorem axi_bus_well_typed_witness:
  "\<exists>x. axi_run \<lparr>ax_bw = 4, ax_addr_bits = 8, ax_id_bits = 2\<rparr> [AxiWrite 2 [1, 2, 3] (Some 0) axi_attr0, AxiRead 6 2 None axi_attr0]
      (axi_fresh 2 [9, 9, 9, 9, 9, 9, 8, 7] 0) = Inr x \<and> axi_typed \<lparr>ax_bw = 4, ax_addr_bits = 8, ax_id_bits = 2\<rparr> x"
proof -
  let ?cfg = "\<lparr>ax_bw = 4, ax_addr_bits = 8, ax_id_bits = 2\<rparr>" and ?mem = "[9, 9, 9, 9, 9, 9, 8, 7] :: bytes"
  have "axi_cfg_ok ?cfg (length ?mem)"
    "axi_batch ?cfg (length ?mem) [AxiWrite 2 [1, 2, 3] (Some 0) axi_attr0, AxiRead 6 2 None axi_attr0]" by code_simp+
  from axi_bus_well_typed [OF this] show ?thesis .
qed

theorem axi_cuts_agree_witness:
  "\<exists>as mw mr sz' nb k. axi_write_command \<lparr>ax_bw = 4, ax_addr_bits = 16, ax_id_bits = 2\<rparr> (0xFFE, [1, 2, 3, 4, 5], None, axi_attr0) axi_master0 = Inr mw
    \<and> axi_read_command \<lparr>ax_bw = 4, ax_addr_bits = 16, ax_id_bits = 2\<rparr> (0xFFE, length [1 :: byte, 2, 3, 4, 5], None, axi_attr0) axi_master0 = Inr mr
    \<and> xw_addr_queue (xm_write mw) = xw_addr_queue (xm_write axi_master0) @ as
    \<and> xr_addr_queue (xm_read mr) = xr_addr_queue (xm_read axi_master0) @ as
    \<and> xr_resp_command_queue (xm_read mr) = xr_resp_command_queue (xm_read axi_master0)
        @ [(0xFFE, length [1 :: byte, 2, 3, 4, 5], sz', k, at_prot axi_attr0, map (\<lambda>a. (ad_id a, ad_len a + 1)) as)]
    \<and> as = axi_bursts \<lparr>ax_bw = 4, ax_addr_bits = 16, ax_id_bits = 2\<rparr> (xm_max_burst_len axi_master0) sz' nb axi_attr0 k (0xFFE div nb * nb) 0
    \<and> burst_addrs as = map (\<lambda>j. 0xFFE div nb * nb + j * nb) [0..<k]
    \<and> list_all (\<lambda>a. ad_len a < 256 \<and> ad_addr a mod 0x1000 + (ad_len a + 1) * nb \<le> 0x1000) as"
proof -
  let ?cfg = "\<lparr>ax_bw = 4, ax_addr_bits = 16, ax_id_bits = 2\<rparr>"
  have "axi_cfg_ok ?cfg 8" "axi_command_fits ?cfg 0xFFE (length [1 :: byte, 2, 3, 4, 5]) None axi_attr0"
    "xw_cur_id (xm_write axi_master0) = 0" "xr_cur_id (xm_read axi_master0) = 0" "0 < (2 :: nat) ^ ax_id_bits ?cfg"
    by (simp_all add: axi_cfg_ok_def axi_command_fits_def num_bytes_of_def attr_fits_def axi_attr0_def fits_def axi_master0_def
        BURST_INCR_def)
  from axi_cuts_agree [OF this] show ?thesis .
qed

end
