(* ===== verification/Ll_Endpoint.thy ===== *)
theory Ll_Endpoint
  imports Stream_Link
begin

text \<open>
  \<open>lib/eth/lib/axis/tb/ll_ep.py\<close>: a source and a sink of LocalLink frames.  All control signals are active low;
  a beat carries an octet and the marks of start and end of frame, and is transferred on an edge where both
  ready signals are low.  A pause raises the ready signal of its side by combinational logic, so that on the bus the
  pause of either side looks the same to both.  The link of the two is an instance of the handshake interface of
  \<open>Stream_Link\<close> under that translation of pauses.  Octets fit the data signal, which is 8 bits wide in the test
  benches.
\<close>

section \<open>The source\<close>

text \<open>A beat: octet, \<open>sof_n\<close>, \<open>eof_n\<close>.\<close>

type_synonym ll_beat = "byte \<times> bool \<times> bool"

record ll_source =
  ls_queue :: "bytes list"
  ls_frame :: bytes
  ls_data_out :: byte
  ls_sof_out_n :: bool
  ls_eof_out_n :: bool
  ls_src_rdy_out_n_int :: bool

definition ll_source0 :: ll_source where
  "ll_source0 = \<lparr>ls_queue = [], ls_frame = [], ls_data_out = 0, ls_sof_out_n = True, ls_eof_out_n = True,
     ls_src_rdy_out_n_int = True\<rparr>"

definition ll_source_send :: "bytes \<Rightarrow> ll_source \<Rightarrow> ll_source" where
  "ll_source_send frame self = self\<lparr>ls_queue := ls_queue self @ [frame]\<rparr>"

definition ll_source_count :: "ll_source \<Rightarrow> nat" where
  "ll_source_count self = length (ls_queue self)"

definition ll_source_empty :: "ll_source \<Rightarrow> bool" where
  "ll_source_empty self \<longleftrightarrow> ll_source_count self = 0"

definition ll_src_rdy_out_n :: "bool \<Rightarrow> ll_source \<Rightarrow> bool" where
  "ll_src_rdy_out_n pause self \<longleftrightarrow> ls_src_rdy_out_n_int self \<or> pause"

definition ll_source_next_octet :: "ll_source \<Rightarrow> ll_source" where
  \<comment> \<open>the beat offered is taken\<close>
  "ll_source_next_octet self =
     (case ls_frame self of
        b # frame \<Rightarrow> self\<lparr>ls_frame := frame, ls_data_out := b, ls_src_rdy_out_n_int := False, ls_sof_out_n := True,
                       ls_eof_out_n := (frame \<noteq> [])\<rparr>
      | [] \<Rightarrow> self\<lparr>ls_src_rdy_out_n_int := True, ls_eof_out_n := True\<rparr>)"

definition ll_source_next_frame :: "ll_source \<Rightarrow> ll_source result" where
  "ll_source_next_frame self =
     (case ls_queue self of
        [] \<Rightarrow> Inr self
      | f # queue \<Rightarrow>
          bindR (pop0 f) (\<lambda>(b, frame).
          Inr (self\<lparr>ls_queue := queue, ls_frame := frame, ls_data_out := b, ls_src_rdy_out_n_int := False,
                    ls_sof_out_n := False, ls_eof_out_n := (frame \<noteq> [])\<rparr>)))"

definition ll_source_step :: "bool \<Rightarrow> bool \<Rightarrow> bool \<Rightarrow> ll_source \<Rightarrow> ll_source result" where
  \<comment> \<open>the conditions read the signals as they were before the edge\<close>
  "ll_source_step rst pause dst_rdy_in_n self =
     (if rst
      then Inr (self\<lparr>ls_data_out := 0, ls_src_rdy_out_n_int := True, ls_sof_out_n := True, ls_eof_out_n := True\<rparr>)
      else
        let dst_rdy_in_n_int = (dst_rdy_in_n \<or> pause);
            taken = (\<not> dst_rdy_in_n_int \<and> \<not> ll_src_rdy_out_n pause self);
            start = (\<not> ls_eof_out_n self \<and> taken \<or> ls_src_rdy_out_n_int self);
            self = (if taken then ll_source_next_octet self else self)
        in if start then ll_source_next_frame self else Inr self)"

section \<open>The sink\<close>

record ll_sink =
  lk_queue :: "byte list list"
  lk_frame :: "byte list"
  lk_dst_rdy_out_n_int :: bool

definition ll_sink0 :: ll_sink where
  "ll_sink0 = \<lparr>lk_queue = [], lk_frame = [], lk_dst_rdy_out_n_int = True\<rparr>"

definition ll_sink_recv :: "ll_sink \<Rightarrow> bytes option \<times> ll_sink" where
  "ll_sink_recv self =
     (case lk_queue self of [] \<Rightarrow> (None, self) | f # queue \<Rightarrow> (Some f, self\<lparr>lk_queue := queue\<rparr>))"

definition ll_sink_count :: "ll_sink \<Rightarrow> nat" where
  "ll_sink_count self = length (lk_queue self)"

definition ll_sink_empty :: "ll_sink \<Rightarrow> bool" where
  "ll_sink_empty self \<longleftrightarrow> lk_queue self = []"

definition ll_dst_rdy_out_n :: "bool \<Rightarrow> ll_sink \<Rightarrow> bool" where
  "ll_dst_rdy_out_n pause self \<longleftrightarrow> lk_dst_rdy_out_n_int self \<or> pause"

definition ll_take :: "ll_beat \<Rightarrow> ll_sink \<Rightarrow> ll_sink" where
  "ll_take b self =
     (case b of (data_in, sof_in_n, eof_in_n) \<Rightarrow>
        let frame = (if \<not> sof_in_n then [] else lk_frame self) @ [data_in]
        in if \<not> eof_in_n then self\<lparr>lk_queue := lk_queue self @ [frame], lk_frame := []\<rparr>
           else self\<lparr>lk_frame := frame\<rparr>)"

definition ll_sink_step :: "bool \<Rightarrow> bool \<Rightarrow> bool \<Rightarrow> ll_beat \<Rightarrow> ll_sink \<Rightarrow> ll_sink" where
  "ll_sink_step rst pause src_rdy_in_n b self =
     (if rst then self\<lparr>lk_dst_rdy_out_n_int := True, lk_frame := []\<rparr>
      else
        let src_rdy_in_n_int = (src_rdy_in_n \<or> pause);
            self = self\<lparr>lk_dst_rdy_out_n_int := False\<rparr>
        in if \<not> src_rdy_in_n_int then ll_take b self else self)"

section \<open>The two on one bus\<close>

definition ll_beat_out :: "ll_source \<Rightarrow> ll_beat" where
  "ll_beat_out s = (ls_data_out s, ls_sof_out_n s, ls_eof_out_n s)"

fun ll_link_run :: "bytes link_event list \<Rightarrow> ll_source \<times> ll_sink \<Rightarrow> (ll_source \<times> ll_sink) result" where
  "ll_link_run [] x = Inr x"
| "ll_link_run (Send f # es) (s, k) = ll_link_run es (ll_source_send f s, k)"
| "ll_link_run (Tick p q # es) (s, k) =
     bindR (ll_source_step False p (ll_dst_rdy_out_n q k) s) (\<lambda>s'.
     ll_link_run es (s', ll_sink_step False q (ll_src_rdy_out_n p s) (ll_beat_out s) k))"

text \<open>The pause of a side is a signal of the other side that is not ready.\<close>

lemma ll_source_step_pause: "ll_source_step False p d s = ll_source_step False False (d \<or> p) s"
  by (cases p) (simp_all add: ll_source_step_def ll_src_rdy_out_n_def Let_def)

lemma ll_sink_step_pause: "ll_sink_step False q r b k = ll_sink_step False False (r \<or> q) b k"
  by (simp add: ll_sink_step_def)

text \<open>The two in terms of the handshake interface.\<close>

definition ll_src :: "bool \<Rightarrow> bool \<Rightarrow> ll_source \<Rightarrow> ll_source result" where
  "ll_src p r s = ll_source_step False False (\<not> r) s"

definition ll_offered :: "ll_source \<Rightarrow> ll_beat option" where
  "ll_offered s = (if ls_src_rdy_out_n_int s then None else Some (ll_beat_out s))"

definition ll_snk :: "bool \<Rightarrow> ll_beat option \<Rightarrow> ll_sink \<Rightarrow> ll_sink result" where
  "ll_snk q b k = Inr (case b of None \<Rightarrow> ll_sink_step False q True (0, True, True) k | Some b \<Rightarrow> ll_sink_step False q False b k)"

definition ll_ready :: "bool \<Rightarrow> ll_sink \<Rightarrow> bool" where
  "ll_ready q k \<longleftrightarrow> \<not> ll_dst_rdy_out_n q k"

fun ll_either :: "bytes link_event \<Rightarrow> bytes link_event" where
  "ll_either (Send f) = Send f"
| "ll_either (Tick p q) = Tick (p \<or> q) (p \<or> q)"

definition ll_link :: "(ll_source, ll_sink, ll_beat, bytes) link" where
  "ll_link = \<lparr>l_src = ll_src, l_offered = ll_offered, l_send = ll_source_send, l_snk = ll_snk, l_ready = ll_ready\<rparr>"

lemma ll_run_link: "ll_link_run es x = link_run ll_link (map ll_either es) x"
proof (induction es x rule: ll_link_run.induct)
  case (3 p q es s k)
  have "ll_source_step False p (ll_dst_rdy_out_n q k) s = ll_src (p \<or> q) (ll_ready (p \<or> q) k) s"
    unfolding ll_source_step_pause [of p] by (simp add: ll_src_def ll_ready_def ll_dst_rdy_out_n_def disj.commute disj.left_commute)
  moreover have "Inr (ll_sink_step False q (ll_src_rdy_out_n p s) (ll_beat_out s) k) = ll_snk (p \<or> q) (ll_offered s) k"
    by (simp add: ll_snk_def ll_offered_def ll_sink_step_def ll_src_rdy_out_n_def)
  moreover have "link_run ll_link (map ll_either (Tick p q # es)) (s, k) =
      bindR (ll_src (p \<or> q) (ll_ready (p \<or> q) k) s) (\<lambda>s'. bindR (ll_snk (p \<or> q) (ll_offered s) k) (\<lambda>k'.
        link_run ll_link (map ll_either es) (s', k')))"
    by (simp add: ll_link_def bindR_assoc)
  ultimately show ?case using 3 by (simp flip: \<open>Inr _ = _\<close>)
qed (simp_all add: ll_link_def)

lemma ll_either_simps [simp]: "sent (map ll_either es) = sent es" "free_ticks (map ll_either es) = free_ticks es"
  by (induction es rule: sent.induct) auto

section \<open>Frames as beats\<close>

fun ll_rest :: "bytes \<Rightarrow> ll_beat list" where
  "ll_rest [] = []"
| "ll_rest (b # bs) = (b, True, bs \<noteq> []) # ll_rest bs"

fun ll_beats :: "bytes \<Rightarrow> ll_beat list" where
  "ll_beats [] = []"
| "ll_beats (b # bs) = (b, False, bs \<noteq> []) # ll_rest bs"

definition ll_src_inv :: "ll_source \<Rightarrow> bool" where
  "ll_src_inv s \<longleftrightarrow> [] \<notin> set (ls_queue s)
     \<and> (if ls_src_rdy_out_n_int s then ls_frame s = [] else ls_eof_out_n s = (ls_frame s \<noteq> []))"

definition ll_pending :: "ll_source \<Rightarrow> ll_beat list" where
  "ll_pending s = (if ls_src_rdy_out_n_int s then [] else ll_beat_out s # ll_rest (ls_frame s)) @ concat (map ll_beats (ls_queue s))"

definition ll_absorbed :: "ll_sink \<Rightarrow> ll_beat list \<Rightarrow> bool" where
  "ll_absorbed k bs \<longleftrightarrow> lk_frame k = lk_frame (fold ll_take bs ll_sink0) \<and> lk_queue k = lk_queue (fold ll_take bs ll_sink0)"

lemma ll_take_absorbed: "ll_absorbed k bs \<Longrightarrow> ll_absorbed (ll_take b k) (bs @ [b])"
  by (simp add: ll_absorbed_def ll_take_def Let_def split: prod.split)

lemma fold_ll_rest: "bs \<noteq> [] \<Longrightarrow>
    lk_queue (fold ll_take (ll_rest bs) k) = lk_queue k @ [lk_frame k @ bs] \<and> lk_frame (fold ll_take (ll_rest bs) k) = []"
proof (induction bs arbitrary: k)
  case (Cons b bs)
  then show ?case by (cases "bs = []") (simp_all add: ll_take_def)
qed simp

lemma fold_ll_beats: "f \<noteq> [] \<Longrightarrow>
    lk_queue (fold ll_take (ll_beats f) k) = lk_queue k @ [f] \<and> lk_frame (fold ll_take (ll_beats f) k) = []"
proof (cases f)
  case (Cons b bs)
  then show ?thesis using fold_ll_rest [of bs] by (cases "bs = []") (simp_all add: ll_take_def)
qed simp

lemma fold_ll_frames: "list_all (\<lambda>f. f \<noteq> []) fs \<Longrightarrow> lk_queue (fold ll_take (concat (map ll_beats fs)) k) = lk_queue k @ fs"
  by (induction fs arbitrary: k) (simp_all add: fold_ll_beats)

lemma ll_step_cases:
  "ll_source_step False False d s =
     (let taken = (\<not> d \<and> \<not> ls_src_rdy_out_n_int s);
          s' = (if taken then ll_source_next_octet s else s)
      in if \<not> ls_eof_out_n s \<and> taken \<or> ls_src_rdy_out_n_int s then ll_source_next_frame s' else Inr s')"
  by (simp add: ll_source_step_def ll_src_rdy_out_n_def Let_def)

text \<open>What an edge does to a source that keeps the invariant.\<close>

lemma ll_src_edge:
  assumes "ll_src_inv s"
  shows "\<exists>s'. ll_src p r s = Inr s' \<and> ll_src_inv s'
    \<and> ll_pending s' = (if r \<and> ll_offered s \<noteq> None then tl (ll_pending s) else ll_pending s)
    \<and> (ll_pending s' \<noteq> [] \<longrightarrow> ll_offered s' \<noteq> None)
    \<and> (\<not> r \<longrightarrow> ll_offered s \<noteq> None \<longrightarrow> s' = s)"
proof -
  note unfold = ll_src_def ll_step_cases Let_def ll_pending_def ll_offered_def ll_beat_out_def ll_src_inv_def
    ll_source_next_frame_def ll_source_next_octet_def
  have q: "[] \<notin> set (ls_queue s)" using assms by (simp add: ll_src_inv_def)
  have queue: "ls_queue s = [] \<or> (\<exists>b bs fs. ls_queue s = (b # bs) # fs)"
  proof (cases "ls_queue s")
    case (Cons f fs)
    then show ?thesis using q by (cases f) auto
  qed simp
  show ?thesis
  proof (cases "ls_src_rdy_out_n_int s")
    case True
    then show ?thesis using assms queue by (elim disjE exE) (simp_all add: unfold ex_bool_eq, blast)
  next
    case offer: False
    then have eof: "ls_eof_out_n s = (ls_frame s \<noteq> [])" using assms by (simp add: ll_src_inv_def)
    show ?thesis
    proof (cases "r \<and> ls_frame s = []")
      case True
      then show ?thesis using assms queue offer eof by (elim disjE exE) (simp_all add: unfold ex_bool_eq, blast)
    next
      case False
      then show ?thesis using assms offer eof by (cases "ls_frame s"; cases r) (simp_all add: unfold ex_bool_eq, blast+)
    qed
  qed
qed

interpretation ll: stream_link ll_src ll_offered ll_source_send ll_src_inv ll_pending "\<lambda>f. f \<noteq> []" ll_beats
  ll_snk ll_ready ll_absorbed lk_queue "\<lambda>f. f"
proof unfold_locales
  fix s p r s'
  assume s: "ll_src_inv s"
  then show "\<exists>s'. ll_src p r s = Inr s' \<and> ll_src_inv s'" using ll_src_edge by blast
  assume "ll_src p r s = Inr s'"
  then show "ll_pending s' = (if r \<and> ll_offered s \<noteq> None then tl (ll_pending s) else ll_pending s)"
    using ll_src_edge [OF s, of p r] by simp
next
  fix s r s'
  assume "ll_src_inv s" "ll_src False r s = Inr s'" "ll_pending s' \<noteq> []"
  then show "ll_offered s' \<noteq> None" using ll_src_edge [of s False r] by simp
next
  fix s b p s'
  assume "ll_src_inv s" "ll_offered s = Some b" "ll_src p False s = Inr s'"
  then show "ll_offered s' = Some b" using ll_src_edge [of s p False] by simp
next
  fix k bs q
  assume "ll_absorbed k bs"
  then show "\<exists>k'. ll_snk q None k = Inr k' \<and> ll_ready False k' \<and> ll_absorbed k' bs"
    by (simp add: ll_snk_def ll_sink_step_def ll_ready_def ll_dst_rdy_out_n_def ll_absorbed_def)
next
  fix k bs b
  assume "ll_absorbed k bs"
  then show "\<exists>k'. ll_snk True (Some b) k = Inr k' \<and> ll_ready False k' \<and> ll_absorbed k' bs"
    by (simp add: ll_snk_def ll_sink_step_def ll_ready_def ll_dst_rdy_out_n_def ll_absorbed_def)
next
  fix k bs b fs
  assume "ll_ready False k" "ll_absorbed k bs"
  then have "ll_absorbed (ll_take b (k\<lparr>lk_dst_rdy_out_n_int := False\<rparr>)) (bs @ [b])"
    by (intro ll_take_absorbed) (simp add: ll_absorbed_def)
  moreover have "\<not> lk_dst_rdy_out_n_int (ll_take b (k\<lparr>lk_dst_rdy_out_n_int := False\<rparr>))"
    by (simp add: ll_take_def Let_def split: prod.split)
  ultimately show "\<exists>k'. ll_snk False (Some b) k = Inr k' \<and> ll_ready False k' \<and> ll_absorbed k' (bs @ [b])"
    by (simp add: ll_snk_def ll_sink_step_def ll_ready_def ll_dst_rdy_out_n_def)
next
  fix fs k
  assume "list_all (\<lambda>f. f \<noteq> []) fs" "ll_absorbed k (concat (map ll_beats fs))"
  then show "lk_queue k = map (\<lambda>f. f) fs" by (simp add: ll_absorbed_def fold_ll_frames ll_sink0_def)
qed (auto simp: ll_src_inv_def ll_source_send_def ll_pending_def ll_offered_def ll_beat_out_def ll_ready_def ll_dst_rdy_out_n_def
  split: if_splits)

text \<open>
  C29: LocalLink. Frames that are not empty, handed to the source at any time, arrive at the sink each exactly once, in order
  and unchanged, under every pattern of pauses on either side, once there have been two edges without a pause per octet; and
  no exception is raised. Both pause inputs act on the same condition, that both ready signals are low.
\<close>
theorem ll_link_delivers_frames:
  assumes "list_all (\<lambda>f. f \<noteq> []) (sent es)" "sent es' = []"
    and "2 * sum_list (map length (sent es)) \<le> free_ticks es'"
  shows "\<exists>s k. ll_link_run (es @ es') (ll_source0, ll_sink0) = Inr (s, k) \<and> ls_queue s = [] \<and> ls_frame s = []
    \<and> lk_queue k = sent es"
proof -
  have len: "length (concat (map ll_beats fs)) = sum_list (map length fs)" for fs
  proof (induction fs)
    case (Cons f fs)
    have "length (ll_rest bs) = length bs" for bs by (induction bs) simp_all
    then have "length (ll_beats f) = length f" by (cases f) simp_all
    then show ?case using Cons by simp
  qed simp
  have "ll.link_inv [] (ll_source0, ll_sink0)"
    by (rule ll.link_inv_init) (simp_all add: ll_src_inv_def ll_source0_def ll_pending_def ll_absorbed_def)
  from ll.link_delivers [OF this, of "map ll_either es" "map ll_either es'"]
  obtain s k where run: "link_run ll_link (map ll_either es @ map ll_either es') (ll_source0, ll_sink0) = Inr (s, k)"
      "ll_pending s = []" "lk_queue k = sent es"
    using assms len unfolding ll_link_def by auto
  have "ls_queue s = [] \<and> ls_frame s = []"
  proof -
    from ll.link_run_inv [OF \<open>ll.link_inv [] (ll_source0, ll_sink0)\<close>, of "map ll_either (es @ es')"]
    have "ll_src_inv s" using run(1) assms(1,2) unfolding ll_link_def by (auto simp: ll.link_inv_def)
    moreover have "concat (map ll_beats (ls_queue s)) = []" "ls_src_rdy_out_n_int s"
      using run(2) by (auto simp: ll_pending_def split: if_splits)
    ultimately show ?thesis by (cases "ls_queue s"; cases "hd (ls_queue s)") (auto simp: ll_src_inv_def)
  qed
  then show ?thesis using run(1,3) by (simp add: ll_run_link)
qed

lemma ll_link_delivers_frames_witness:
  "\<exists>s k. ll_link_run ([Send [1, 2, 3], Tick True False, Send [4]] @ replicate 8 (Tick False False)) (ll_source0, ll_sink0) = Inr (s, k)
    \<and> lk_queue k = [[1, 2, 3], [4]]"
proof -
  have "sent (replicate n (Tick False False)) = []" "free_ticks (replicate n (Tick False False)) = n" for n
    by (induction n) simp_all
  note n = this [of 8]
  have "\<exists>s k. ll_link_run ([Send [1, 2, 3], Tick True False, Send [4]] @ replicate 8 (Tick False False)) (ll_source0, ll_sink0) = Inr (s, k)
      \<and> ls_queue s = [] \<and> ls_frame s = [] \<and> lk_queue k = sent [Send [1, 2, 3], Tick True False, Send [4]]"
    by (rule ll_link_delivers_frames) (unfold n, simp_all)
  then show ?thesis by (simp del: ll_link_run.simps append.simps) blast
qed

text \<open>An empty frame raises an exception when its turn comes.\<close>

lemma ll_source_empty_frame: "ll_source_step False p d (ll_source_send [] ll_source0) = Inl IndexError"
  by (simp add: ll_source_step_def ll_source_send_def ll_source0_def ll_source_next_frame_def ll_src_rdy_out_n_def Let_def)

end
