(* ===== verification/Ptp_Clock.thy ===== *)
theory Ptp_Clock
  imports Prelude
begin

text \<open>
  \<open>lib/eth/tb/ptp.py\<close>: the PTP clock of the test benches.  \<open>PtpClock\<close> keeps two timestamps, one of seconds,
  nanoseconds and fractions of \<open>2^-16\<close> nanoseconds in 96 bits, and one of nanoseconds and fractions in 64 bits.
  Every clock edge adds the period to both, and a correction for drift on some edges; a timestamp handed to
  \<open>set_96\<close> or \<open>set_64\<close> replaces the value on the next edge.  The signals have the widths of the defaults of
  \<open>create_logic\<close>: a value that does not fit is a \<open>ValueError\<close>.
\<close>

section \<open>State and operations\<close>

record ptp_clock =
  pc_period_ns :: int
  pc_period_fns :: int
  pc_drift_ns :: int
  pc_drift_fns :: int
  pc_drift_rate :: int
  pc_set_96_l :: "int list"
  pc_set_64_l :: "int list"
  pc_96_s :: int
  pc_96_ns :: int
  pc_96_fns :: int
  pc_64_ns :: int
  pc_64_fns :: int
  pc_drift_cnt :: int
  sig_ts_96 :: int
  sig_ts_64 :: int
  sig_ts_step :: bool

definition PtpClock :: "int \<Rightarrow> int \<Rightarrow> int \<Rightarrow> int \<Rightarrow> int \<Rightarrow> ptp_clock" where
  "PtpClock period_ns period_fns drift_ns drift_fns drift_rate =
     \<lparr>pc_period_ns = period_ns, pc_period_fns = period_fns, pc_drift_ns = drift_ns,
      pc_drift_fns = drift_fns, pc_drift_rate = drift_rate, pc_set_96_l = [], pc_set_64_l = [],
      pc_96_s = 0, pc_96_ns = 0, pc_96_fns = 0, pc_64_ns = 0, pc_64_fns = 0, pc_drift_cnt = 0,
      sig_ts_96 = 0, sig_ts_64 = 0, sig_ts_step = False\<rparr>"

definition ptp_set_96 :: "int \<Rightarrow> ptp_clock \<Rightarrow> ptp_clock" where
  "ptp_set_96 ts c = c\<lparr>pc_set_96_l := pc_set_96_l c @ [ts]\<rparr>"

definition ptp_set_64 :: "int \<Rightarrow> ptp_clock \<Rightarrow> ptp_clock" where
  "ptp_set_64 ts c = c\<lparr>pc_set_64_l := pc_set_64_l c @ [ts]\<rparr>"

definition ptp_reset :: "ptp_clock \<Rightarrow> ptp_clock" where
  \<comment> \<open>\<open>if rst\<close>: the queues and \<open>ts_step\<close> are left alone\<close>
  "ptp_reset c = c\<lparr>pc_96_s := 0, pc_96_ns := 0, pc_96_fns := 0, pc_64_ns := 0, pc_64_fns := 0,
     pc_drift_cnt := 0, sig_ts_96 := 0, sig_ts_64 := 0\<rparr>"

definition ptp_add_period :: "ptp_clock \<Rightarrow> int \<Rightarrow> int" where
  "ptp_add_period c t =
     (let t = t + (shl (pc_period_ns c) 16 + pc_period_fns c)
      in if 0 < pc_drift_cnt c then t + (shl (pc_drift_ns c) 16 + pc_drift_fns c) else t)"

definition ptp_signal :: "nat \<Rightarrow> int \<Rightarrow> int result" where
  \<comment> \<open>an assignment to the next value of an \<open>intbv\<close> of that many bits\<close>
  "ptp_signal bits v = (if 0 \<le> v \<and> v < 2 ^ bits then Inr v else Inl ValueError)"

definition ptp_step_96 :: "ptp_clock \<Rightarrow> ptp_clock result" where
  "ptp_step_96 c =
     (let t = ptp_add_period c (shl (pc_96_ns c) 16 + pc_96_fns c);
          step = (0 < pc_drift_cnt c);
          (s, t) = (if shl 1000000000 16 < t then (pc_96_s c + 1, t - shl 1000000000 16) else (pc_96_s c, t));
          fns = t AND 0xffff;
          ns = shr t 16;
          (s, ns, fns, step, l) =
            (case pc_set_96_l c of
               [] \<Rightarrow> (s, ns, fns, step, [])
             | ts # l \<Rightarrow> (shr ts 48, shr ts 16 AND 0x3fffffff, ts AND 0xffff, True, l))
      in bindR (ptp_signal 96 (shl s 48 OR shl ns 16 OR fns)) (\<lambda>v.
         Inr (c\<lparr>pc_96_s := s, pc_96_ns := ns, pc_96_fns := fns, pc_set_96_l := l,
                sig_ts_96 := v, sig_ts_step := step\<rparr>)))"

definition ptp_step_64 :: "ptp_clock \<Rightarrow> ptp_clock result" where
  "ptp_step_64 c =
     (let t = ptp_add_period c (shl (pc_64_ns c) 16 + pc_64_fns c);
          step = (0 < pc_drift_cnt c \<or> sig_ts_step c);
          fns = t AND 0xffff;
          ns = shr t 16;
          (ns, fns, step, l) =
            (case pc_set_64_l c of
               [] \<Rightarrow> (ns, fns, step, [])
             | ts # l \<Rightarrow> (shr ts 16, ts AND 0xffff, True, l))
      in bindR (ptp_signal 64 (shl ns 16 OR fns)) (\<lambda>v.
         Inr (c\<lparr>pc_64_ns := ns, pc_64_fns := fns, pc_set_64_l := l, sig_ts_64 := v, sig_ts_step := step\<rparr>)))"

definition ptp_drift :: "ptp_clock \<Rightarrow> ptp_clock" where
  "ptp_drift c = c\<lparr>pc_drift_cnt := (if 0 < pc_drift_cnt c then pc_drift_cnt c - 1 else pc_drift_rate c - 1)\<rparr>"

definition ptp_clock_edge :: "bool \<Rightarrow> ptp_clock \<Rightarrow> ptp_clock result" where
  "ptp_clock_edge rst c =
     (if rst then Inr (ptp_reset c)
      else bindR (ptp_step_96 c) (\<lambda>c. bindR (ptp_step_64 c) (\<lambda>c. Inr (ptp_drift c))))"

fun ptp_clock_run :: "nat \<Rightarrow> ptp_clock \<Rightarrow> ptp_clock result" where
  "ptp_clock_run 0 c = Inr c"
| "ptp_clock_run (Suc n) c = bindR (ptp_clock_run n c) (ptp_clock_edge False)"

section \<open>How fast the clock runs\<close>

text \<open>The two times as numbers of fractions, the increments and the number of edges with a correction.\<close>

definition ptp_second :: int where
  "ptp_second = 1000000000 * 65536"

definition ptp_time_96 :: "ptp_clock \<Rightarrow> int" where
  "ptp_time_96 c = pc_96_s c * ptp_second + pc_96_ns c * 65536 + pc_96_fns c"

definition ptp_time_64 :: "ptp_clock \<Rightarrow> int" where
  "ptp_time_64 c = pc_64_ns c * 65536 + pc_64_fns c"

definition ptp_period :: "ptp_clock \<Rightarrow> int" where
  "ptp_period c = pc_period_ns c * 65536 + pc_period_fns c"

definition ptp_correction :: "ptp_clock \<Rightarrow> int" where
  "ptp_correction c = pc_drift_ns c * 65536 + pc_drift_fns c"

definition ptp_elapsed :: "ptp_clock \<Rightarrow> nat \<Rightarrow> int" where
  "ptp_elapsed c n =
     int n * ptp_period c + ptp_correction c * (int n - (int n + pc_drift_rate c - 1) div pc_drift_rate c)"

lemma ptp_elapsed_Suc:
  assumes "0 < pc_drift_rate c"
  shows "ptp_elapsed c (Suc n) = ptp_elapsed c n + ptp_period c
    + (if int n mod pc_drift_rate c = 0 then 0 else ptp_correction c)"
proof -
  define r where "r = pc_drift_rate c"
  have r: "0 < r" using assms by (simp add: r_def)
  have up: "(int (Suc n) + r - 1) div r = int n div r + 1" using r by (simp add: div_add_self2)
  have lo: "(int n + r - 1) div r = int n div r + (if int n mod r = 0 then 0 else 1)"
  proof -
    define q m where "q = int n div r" and "m = int n mod r"
    have split: "int n = r * q + m" and m: "0 \<le> m" "m < r" using r by (simp_all add: q_def m_def)
    have "(int n + r - 1) div r = q + (m + r - 1) div r"
    proof -
      have "int n + r - 1 = (m + r - 1) + q * r" using split by (simp add: algebra_simps)
      moreover have "(m + r - 1 + q * r) div r = q + (m + r - 1) div r" by (rule div_mult_self1) (use r in simp)
      ultimately show ?thesis by (simp only:)
    qed
    moreover have "(m + r - 1) div r = (if m = 0 then 0 else 1)"
    proof (cases "m = 0")
      case False
      then have low: "(m - 1) div r = 0" using m by (simp add: div_pos_pos_trivial)
      have "m + r - 1 = (m - 1) + r" by simp
      then have "(m + r - 1) div r = ((m - 1) + r) div r" by (simp only:)
      also have "\<dots> = (m - 1) div r + 1" by (rule div_add_self2) (use r in simp)
      finally show ?thesis using False low by simp
    qed (use r in \<open>simp add: div_pos_pos_trivial\<close>)
    ultimately show ?thesis by (simp only: q_def m_def)
  qed
  show ?thesis
    unfolding ptp_elapsed_def r_def [symmetric] up lo by (simp add: algebra_simps)
qed

lemma ptp_elapsed_mono:
  assumes "0 < pc_drift_rate c" "0 \<le> ptp_period c" "0 \<le> ptp_correction c"
  shows "0 \<le> ptp_elapsed c n" and "ptp_elapsed c n \<le> ptp_elapsed c (n + m)"
proof -
  show "ptp_elapsed c n \<le> ptp_elapsed c (n + m)" for n
    by (induction m) (use assms in \<open>simp_all add: ptp_elapsed_Suc\<close>)
  show "0 \<le> ptp_elapsed c n"
    by (induction n) (use assms in \<open>simp_all add: ptp_elapsed_Suc, simp add: ptp_elapsed_def div_pos_pos_trivial\<close>)
qed

text \<open>The state after \<open>n\<close> edges without a reset or a new timestamp.\<close>

definition ptp_runs :: "ptp_clock \<Rightarrow> nat \<Rightarrow> ptp_clock \<Rightarrow> bool" where
  "ptp_runs c0 n c \<longleftrightarrow>
     pc_period_ns c = pc_period_ns c0 \<and> pc_period_fns c = pc_period_fns c0
     \<and> pc_drift_ns c = pc_drift_ns c0 \<and> pc_drift_fns c = pc_drift_fns c0 \<and> pc_drift_rate c = pc_drift_rate c0
     \<and> pc_set_96_l c = [] \<and> pc_set_64_l c = []
     \<and> 0 \<le> pc_96_s c \<and> 0 \<le> pc_96_ns c \<and> 0 \<le> pc_96_fns c \<and> pc_96_fns c < 65536
     \<and> pc_96_ns c * 65536 + pc_96_fns c \<le> ptp_second
     \<and> ptp_time_96 c = ptp_elapsed c0 n
     \<and> 0 \<le> pc_64_ns c \<and> 0 \<le> pc_64_fns c \<and> pc_64_fns c < 65536 \<and> ptp_time_64 c = ptp_elapsed c0 n
     \<and> pc_drift_cnt c = (if int n mod pc_drift_rate c0 = 0 then 0 else pc_drift_rate c0 - int n mod pc_drift_rate c0)
     \<and> sig_ts_96 c = pc_96_s c * 2 ^ 48 + pc_96_ns c * 65536 + pc_96_fns c
     \<and> sig_ts_64 c = pc_64_ns c * 65536 + pc_64_fns c"


lemma ptp_add_period_run:
  assumes "ptp_runs c0 n c" "0 < pc_drift_rate c0"
  shows "ptp_add_period c t = t + ptp_period c0 + (if int n mod pc_drift_rate c0 = 0 then 0 else ptp_correction c0)"
proof -
  have "0 < pc_drift_cnt c \<longleftrightarrow> int n mod pc_drift_rate c0 \<noteq> 0"
    using assms pos_mod_bound [OF assms(2), of "int n"] by (auto simp: ptp_runs_def)
  then show ?thesis
    using assms(1) by (simp add: ptp_runs_def ptp_add_period_def ptp_period_def ptp_correction_def Let_def shl_arith)
qed

lemma ptp_drift_run:
  assumes "ptp_runs c0 n c" "0 < pc_drift_rate c0"
  shows "pc_drift_cnt (ptp_drift c) =
    (if int (Suc n) mod pc_drift_rate c0 = 0 then 0 else pc_drift_rate c0 - int (Suc n) mod pc_drift_rate c0)"
proof -
  define r m where "r = pc_drift_rate c0" and "m = int n mod r"
  have m: "0 \<le> m" "m < r" using assms(2) by (simp_all add: r_def m_def)
  have step: "int (Suc n) mod r = (if m = r - 1 then 0 else m + 1)"
  proof -
    have "int (Suc n) mod r = (m + 1) mod r" by (simp add: m_def mod_simps add.commute)
    then show ?thesis using m by (auto simp: mod_pos_pos_trivial)
  qed
  have "pc_drift_cnt c = (if m = 0 then 0 else r - m)" "pc_drift_rate c = r"
    using assms(1) by (simp_all add: ptp_runs_def r_def m_def)
  then show ?thesis
    unfolding r_def [symmetric] step using m by (simp add: ptp_drift_def)
qed

lemma split_fraction:
  fixes t :: int
  assumes "0 \<le> t"
  shows "shr t 16 * 65536 + (t AND 0xffff) = t" "0 \<le> shr t 16" "0 \<le> t AND 0xffff" "t AND 0xffff < 65536"
  using assms by (simp_all add: bits_arith pos_imp_zdiv_nonneg_iff)

lemma pack_fields:
  fixes s ns fns :: int
  assumes "0 \<le> ns" "ns < 2 ^ 30" "0 \<le> fns" "fns < 65536"
  shows "shl s 48 OR shl ns 16 OR fns = s * 2 ^ 48 + ns * 65536 + fns"
    and "shl ns 16 OR fns = ns * 65536 + fns"
proof -
  show low: "shl ns 16 OR fns = ns * 65536 + fns" using or_field [of fns 16 ns] assms by simp
  have "shl s 48 OR (ns * 65536 + fns) = s * 2 ^ 48 + (ns * 65536 + fns)"
    using or_field [of "ns * 65536 + fns" 48 s] assms by simp
  then show "shl s 48 OR shl ns 16 OR fns = s * 2 ^ 48 + ns * 65536 + fns"
    by (simp add: low or.assoc)
qed


lemma ptp_step_96_run:
  assumes "ptp_runs c0 n c" "0 < pc_drift_rate c0" "0 \<le> ptp_period c0" "0 \<le> ptp_correction c0"
    and "ptp_period c0 + ptp_correction c0 \<le> ptp_second"
    and "ptp_elapsed c0 (Suc n) < 2 ^ 48 * ptp_second"
  shows "\<exists>s ns fns step. ptp_step_96 c = Inr (c\<lparr>pc_96_s := s, pc_96_ns := ns, pc_96_fns := fns,
        pc_set_96_l := [], sig_ts_96 := s * 2 ^ 48 + ns * 65536 + fns, sig_ts_step := step\<rparr>)
      \<and> 0 \<le> s \<and> 0 \<le> ns \<and> 0 \<le> fns \<and> fns < 65536 \<and> ns * 65536 + fns \<le> ptp_second
      \<and> s * ptp_second + ns * 65536 + fns = ptp_elapsed c0 (Suc n)"
proof -
  define i where "i = ptp_period c0 + (if int n mod pc_drift_rate c0 = 0 then 0 else ptp_correction c0)"
  have i: "0 \<le> i" "i \<le> ptp_second" using assms(3-5) by (simp_all add: i_def)
  define t0 where "t0 = pc_96_ns c * 65536 + pc_96_fns c + i"
  have c: "pc_set_96_l c = []" "0 \<le> pc_96_s c" "pc_96_ns c * 65536 + pc_96_fns c \<le> ptp_second"
    "0 \<le> pc_96_ns c" "0 \<le> pc_96_fns c"
    "pc_96_s c * ptp_second + pc_96_ns c * 65536 + pc_96_fns c = ptp_elapsed c0 n"
    using assms(1) by (simp_all add: ptp_runs_def ptp_time_96_def)
  have t0: "ptp_add_period c (shl (pc_96_ns c) 16 + pc_96_fns c) = t0" "0 \<le> t0" "t0 \<le> 2 * ptp_second"
    using c(3-5) i ptp_add_period_run [OF assms(1,2)] by (simp_all add: t0_def i_def shl_arith)
  define s t where "s = (if ptp_second < t0 then pc_96_s c + 1 else pc_96_s c)"
    and "t = (if ptp_second < t0 then t0 - ptp_second else t0)"
  have t: "0 \<le> t" "t \<le> ptp_second" using t0(2,3) by (simp_all add: t_def)
  have s: "0 \<le> s" using c(2) by (simp add: s_def)
  define ns fns where "ns = shr t 16" and "fns = t AND 0xffff"
  note sp = split_fraction [OF t(1), folded ns_def fns_def]
  have ns: "ns < 2 ^ 30" using t sp by (simp add: ptp_second_def)
  have tot: "s * ptp_second + t = ptp_elapsed c0 (Suc n)"
    using c(6) ptp_elapsed_Suc [OF assms(2), of n]
    by (simp add: s_def t_def t0_def i_def algebra_simps)
  have "s < 2 ^ 48"
  proof (rule ccontr)
    assume "\<not> s < 2 ^ 48"
    then have "2 ^ 48 * ptp_second \<le> s * ptp_second" by (simp add: ptp_second_def)
    then show False using tot t(1) assms(6) by simp
  qed
  then have "s * 2 ^ 48 + ns * 65536 + fns < 2 ^ 96" "0 \<le> s * 2 ^ 48 + ns * 65536 + fns"
    using ns s sp by simp_all
  then have sig: "ptp_signal 96 (shl s 48 OR shl ns 16 OR fns) = Inr (s * 2 ^ 48 + ns * 65536 + fns)"
    using pack_fields(1) [OF sp(2) ns sp(3,4), of s] by (simp add: ptp_signal_def)
  have sec: "shl 1000000000 16 = ptp_second" by (simp add: shl_arith ptp_second_def)
  have "ptp_step_96 c = Inr (c\<lparr>pc_96_s := s, pc_96_ns := ns, pc_96_fns := fns,
        pc_set_96_l := [], sig_ts_96 := s * 2 ^ 48 + ns * 65536 + fns, sig_ts_step := 0 < pc_drift_cnt c\<rparr>)"
    using sig unfolding ptp_step_96_def Let_def t0(1) sec c(1)
    by (simp add: s_def t_def ns_def fns_def split: if_splits)
  then show ?thesis using sp s t(2) tot
    by (intro exI [of _ s] exI [of _ ns] exI [of _ fns] exI [of _ "0 < pc_drift_cnt c"]) simp
qed

lemma ptp_step_64_run:
  assumes "ptp_runs c0 n c" "0 < pc_drift_rate c0" "0 \<le> ptp_period c0" "0 \<le> ptp_correction c0"
    and "ptp_elapsed c0 (Suc n) < 2 ^ 64"
    and c': "c' = c\<lparr>pc_96_s := s, pc_96_ns := ns, pc_96_fns := fns, pc_set_96_l := [], sig_ts_96 := v, sig_ts_step := b\<rparr>"
  shows "\<exists>ns fns step. ptp_step_64 c' = Inr (c'\<lparr>pc_64_ns := ns, pc_64_fns := fns,
        pc_set_64_l := [], sig_ts_64 := ns * 65536 + fns, sig_ts_step := step\<rparr>)
      \<and> 0 \<le> ns \<and> 0 \<le> fns \<and> fns < 65536 \<and> ns * 65536 + fns = ptp_elapsed c0 (Suc n)"
proof -
  define t where "t = ptp_elapsed c0 (Suc n)"
  have t: "0 \<le> t" using ptp_elapsed_mono(1) assms(2-4) by (simp add: t_def)
  have c: "pc_set_64_l c' = []" "pc_64_ns c' * 65536 + pc_64_fns c' = ptp_elapsed c0 n"
    using assms(1) by (simp_all add: c' ptp_runs_def ptp_time_64_def)
  have "ptp_add_period c' x = ptp_add_period c x" for x by (simp add: c' ptp_add_period_def Let_def)
  then have add: "ptp_add_period c' (shl (pc_64_ns c') 16 + pc_64_fns c') = t"
    using c(2) ptp_add_period_run [OF assms(1,2)] ptp_elapsed_Suc [OF assms(2), of n]
    by (simp add: t_def shl_arith)
  define ns fns where "ns = shr t 16" and "fns = t AND 0xffff"
  note sp = split_fraction [OF t, folded ns_def fns_def]
  have "shl ns 16 OR fns = t" using or_field [of fns 16 ns] sp by simp
  then have sig: "ptp_signal 64 (shl ns 16 OR fns) = Inr (ns * 65536 + fns)"
    using assms(5) t sp(1) by (simp add: ptp_signal_def t_def)
  have "ptp_step_64 c' = Inr (c'\<lparr>pc_64_ns := ns, pc_64_fns := fns, pc_set_64_l := [],
      sig_ts_64 := ns * 65536 + fns, sig_ts_step := (0 < pc_drift_cnt c' \<or> sig_ts_step c')\<rparr>)"
    using sig unfolding ptp_step_64_def Let_def add c(1) by (simp add: ns_def fns_def)
  then show ?thesis using sp
    by (intro exI [of _ ns] exI [of _ fns] exI [of _ "0 < pc_drift_cnt c' \<or> sig_ts_step c'"]) (simp add: t_def)
qed

lemma ptp_edge_run:
  assumes "ptp_runs c0 n c" "0 < pc_drift_rate c0" "0 \<le> ptp_period c0" "0 \<le> ptp_correction c0"
    and "ptp_period c0 + ptp_correction c0 \<le> ptp_second"
    and "ptp_elapsed c0 (Suc n) < 2 ^ 64"
  shows "\<exists>c'. ptp_clock_edge False c = Inr c' \<and> ptp_runs c0 (Suc n) c'"
proof -
  have "ptp_elapsed c0 (Suc n) < 2 ^ 48 * ptp_second" using assms(6) by (simp add: ptp_second_def)
  from ptp_step_96_run [OF assms(1-5) this]
  obtain s ns fns b where s96: "ptp_step_96 c = Inr (c\<lparr>pc_96_s := s, pc_96_ns := ns, pc_96_fns := fns,
        pc_set_96_l := [], sig_ts_96 := s * 2 ^ 48 + ns * 65536 + fns, sig_ts_step := b\<rparr>)" (is "_ = Inr ?c")
    and r96: "0 \<le> s" "0 \<le> ns" "0 \<le> fns" "fns < 65536" "ns * 65536 + fns \<le> ptp_second"
      "s * ptp_second + ns * 65536 + fns = ptp_elapsed c0 (Suc n)" by blast
  from ptp_step_64_run [OF assms(1-4,6) refl, where s = s and ns = ns and fns = fns and b = b and v = "s * 2 ^ 48 + ns * 65536 + fns"]
  obtain ns' fns' b' where s64: "ptp_step_64 ?c = Inr (?c\<lparr>pc_64_ns := ns', pc_64_fns := fns',
        pc_set_64_l := [], sig_ts_64 := ns' * 65536 + fns', sig_ts_step := b'\<rparr>)" (is "_ = Inr ?d")
    and r64: "0 \<le> ns'" "0 \<le> fns'" "fns' < 65536" "ns' * 65536 + fns' = ptp_elapsed c0 (Suc n)" by blast
  have cnt: "pc_drift_cnt (ptp_drift ?d) = pc_drift_cnt (ptp_drift c)" by (simp add: ptp_drift_def)
  have "ptp_runs c0 (Suc n) (ptp_drift ?d)"
    using r96 r64 assms(1) unfolding ptp_runs_def cnt ptp_drift_run [OF assms(1,2)]
    by (simp add: ptp_time_96_def ptp_time_64_def ptp_drift_def)
  then show ?thesis using s96 s64 by (simp add: ptp_clock_edge_def)
qed

text \<open>
  C30: how fast the clock runs. After a reset and any number of edges without a new timestamp, as long as the time
  fits 64 bits, both timestamps have advanced by one period per edge and one correction per edge that is not the
  first of a group of \<open>drift_rate\<close>: \<open>n\<close> edges bring \<open>n - ceil(n / drift_rate)\<close> corrections. The signals
  carry the fields, and the nanoseconds stay at most \<open>10^9\<close>.
\<close>
theorem ptp_clock_elapsed:
  assumes "pc_set_96_l c = []" "pc_set_64_l c = []" "0 < pc_drift_rate c"
    and "0 \<le> ptp_period c" "0 \<le> ptp_correction c" "ptp_period c + ptp_correction c \<le> ptp_second"
    and "ptp_elapsed c n < 2 ^ 64"
  shows "\<exists>c'. bindR (ptp_clock_edge True c) (ptp_clock_run n) = Inr c'
    \<and> ptp_time_96 c' = ptp_elapsed c n \<and> ptp_time_64 c' = ptp_elapsed c n
    \<and> 0 \<le> pc_96_fns c' \<and> pc_96_fns c' < 65536 \<and> 0 \<le> pc_96_ns c' \<and> pc_96_ns c' \<le> 1000000000
    \<and> sig_ts_96 c' = pc_96_s c' * 2 ^ 48 + pc_96_ns c' * 65536 + pc_96_fns c'
    \<and> sig_ts_64 c' = ptp_elapsed c n"
proof -
  let ?c = "ptp_reset c"
  have eq: "ptp_elapsed ?c m = ptp_elapsed c m" for m
    by (simp add: ptp_elapsed_def ptp_reset_def ptp_period_def ptp_correction_def)
  have cfg: "0 < pc_drift_rate ?c" "0 \<le> ptp_period ?c" "0 \<le> ptp_correction ?c"
    "ptp_period ?c + ptp_correction ?c \<le> ptp_second"
    using assms(3-6) by (simp_all add: ptp_reset_def ptp_period_def ptp_correction_def)
  have "\<exists>c'. ptp_clock_run m ?c = Inr c' \<and> ptp_runs ?c m c'" if "m \<le> n" for m
    using that
  proof (induction m)
    case 0
    have "ptp_elapsed c 0 = 0" using assms(3) by (simp add: ptp_elapsed_def div_pos_pos_trivial)
    then have "ptp_elapsed ?c 0 = 0" using eq by simp
    then have "ptp_runs ?c 0 ?c"
      unfolding ptp_runs_def using assms(1,2) by (simp add: ptp_reset_def ptp_time_96_def ptp_time_64_def ptp_second_def)
    then show ?case by simp
  next
    case (Suc m)
    then obtain c' where c': "ptp_clock_run m ?c = Inr c'" "ptp_runs ?c m c'" by auto
    have "ptp_elapsed ?c (Suc m) \<le> ptp_elapsed ?c n"
      using ptp_elapsed_mono(2) [OF cfg(1-3), of "Suc m" "n - Suc m"] Suc.prems by simp
    then have "ptp_elapsed ?c (Suc m) < 2 ^ 64" using assms(7) eq by simp
    from ptp_edge_run [OF c'(2) cfg this] show ?case using c'(1) by simp
  qed
  from this [of n] obtain c' where c': "ptp_clock_run n ?c = Inr c'" "ptp_runs ?c n c'" by auto
  then have "pc_96_ns c' \<le> 1000000000" by (simp add: ptp_runs_def ptp_second_def)
  then show ?thesis using c' unfolding ptp_runs_def eq by (simp add: ptp_clock_edge_def ptp_time_64_def)
qed


lemma ptp_clock_elapsed_witness:
  "\<exists>c'. bindR (ptp_clock_edge True (PtpClock 6 0x6666 0 2 5)) (ptp_clock_run 5) = Inr c'
     \<and> ptp_time_96 c' = 5 * (6 * 65536 + 0x6666) + 4 * 2"
proof -
  let ?c = "PtpClock 6 0x6666 0 2 5"
  have e: "ptp_elapsed ?c 5 = 5 * (6 * 65536 + 0x6666) + 4 * 2"
    by (simp add: ptp_elapsed_def PtpClock_def ptp_period_def ptp_correction_def)
  have "\<exists>c'. bindR (ptp_clock_edge True ?c) (ptp_clock_run 5) = Inr c'
    \<and> ptp_time_96 c' = ptp_elapsed ?c 5 \<and> ptp_time_64 c' = ptp_elapsed ?c 5
    \<and> 0 \<le> pc_96_fns c' \<and> pc_96_fns c' < 65536 \<and> 0 \<le> pc_96_ns c' \<and> pc_96_ns c' \<le> 1000000000
    \<and> sig_ts_96 c' = pc_96_s c' * 2 ^ 48 + pc_96_ns c' * 65536 + pc_96_fns c'
    \<and> sig_ts_64 c' = ptp_elapsed ?c 5"
    by (rule ptp_clock_elapsed) (simp_all add: e, simp_all add: PtpClock_def ptp_period_def ptp_correction_def ptp_second_def)
  then show ?thesis unfolding e by blast
qed

text \<open>The test \<open>t > 10^9 << 16\<close> is strict: an edge that ends on a full second leaves \<open>10^9\<close> in the nanoseconds.\<close>

lemma ptp_clock_full_second:
  "\<exists>c'. bindR (ptp_clock_edge False (ptp_set_96 (999999994 * 2 ^ 16) (PtpClock 6 0 0 0 5))) (ptp_clock_edge False) = Inr c'
     \<and> pc_96_s c' = 0 \<and> pc_96_ns c' = 1000000000"
  by (simp add: ptp_clock_edge_def ptp_set_96_def PtpClock_def ptp_step_96_def ptp_step_64_def ptp_drift_def
    ptp_add_period_def ptp_signal_def Let_def)

text \<open>A timestamp handed over is on the signal after the next edge, without the two bits between its fields.\<close>

lemma ptp_clock_set:
  assumes "pc_set_96_l c = []" "0 \<le> s" "s < 2 ^ 48" "0 \<le> ns" "ns < 2 ^ 30" "0 \<le> fns" "fns < 65536"
  shows "\<exists>c'. ptp_step_96 (ptp_set_96 (s * 2 ^ 48 + ns * 65536 + fns) c) = Inr c'
    \<and> sig_ts_96 c' = s * 2 ^ 48 + ns * 65536 + fns \<and> sig_ts_step c'"
proof -
  define ts where "ts = s * 2 ^ 48 + ns * 65536 + fns"
  have split: "ts = (s * 2 ^ 32 + ns) * 65536 + fns" by (simp add: ts_def)
  have "(a * 65536 + fns) div 65536 = a \<and> (a * 65536 + fns) mod 65536 = fns" for a :: int using assms(6,7) by simp
  from this [of "s * 2 ^ 32 + ns", folded split] have hi: "ts div 65536 = s * 2 ^ 32 + ns" "ts mod 65536 = fns" by blast+
  have "(s * 2 ^ 32 + ns) mod 2 ^ 30 = (s * 4 * 2 ^ 30 + ns) mod 2 ^ 30" by (simp add: mult.commute)
  also have "\<dots> = ns" using assms(4,5) by (subst mod_mult_self3) (simp add: mod_pos_pos_trivial)
  finally have "shr ts 16 AND 0x3fffffff = ns" using and_mask_int [of "shr ts 16" 30] hi by (simp add: shr_arith)
  moreover have "shr ts 48 = s" "ts AND 0xffff = fns"
    using assms(4-7) hi(2) by (simp_all add: ts_def bits_arith)
  moreover have "ptp_signal 96 (shl s 48 OR shl ns 16 OR fns) = Inr ts"
    using pack_fields(1) [OF assms(4-7), of s] assms(2-7) by (simp add: ptp_signal_def ts_def)
  ultimately show ?thesis
    using assms(1) by (simp add: ptp_step_96_def ptp_set_96_def Let_def ts_def split: prod.split)
qed

end
