(* ===== verification/Ptp_Td.thy ===== *)
theory Ptp_Td
  imports Prelude
begin

text \<open>
  \<open>lib/eth/tb/ptp_td.py\<close>: PTP time distribution over one wire.  \<open>PtpTdSource\<close> keeps a time of day and a
  relative time in nanoseconds that share a fraction of \<open>2^-32\<close> ns, and every 256 clock edges starts a message of 14 words
  of 16 bits with the time of that edge; each word is a start bit 0 and its bits, lowest first, and the idle line is 1.  Three
  kinds of message take turns.  \<open>PtpTdSink\<close> runs a time of its own, collects the words, and takes over a message
  \<open>td_delay\<close> edges after the line went idle.

  An object is a record; the local variables of its process \<open>_run\<close> are a record inside it that is there while the task
  runs.  Both \<open>None\<close> and \<open>[]\<close> as a message are the empty list, since the code only tests for truth.  An
  exception in a task ends the test.  The settings in decimal fractions of seconds or nanoseconds are not
  modelled; each of them ends in one of the operations on integers below.
\<close>

section \<open>The time both ends keep\<close>

record ptp_time =
  td_period_ns :: int
  td_period_fns :: int
  td_drift_num :: int
  td_drift_denom :: int
  td_drift_cnt :: int
  td_fns :: int
  td_rel_ns :: int
  td_tod_s :: int
  td_tod_ns :: int

section \<open>The source\<close>

record td_source_vars =
  sr_msg_index :: int
  sr_msg :: "int list"
  sr_msg_delay :: int
  sr_word :: "int option"
  sr_bit_index :: nat

record td_source =
  ts_time :: ptp_time
  ts_rel_updated :: bool
  ts_tod_updated :: bool
  ts_offset_ns :: int
  ts_alt_s :: int
  ts_alt_offset_ns :: int
  ts_td_delay :: nat
  ts_delayed :: "(int \<times> int \<times> int \<times> int) list"
  ts_data :: bool
  ts_pps :: bool
  ts_run :: "td_source_vars option"

definition td_source_vars0 :: td_source_vars where
  "td_source_vars0 = \<lparr>sr_msg_index = 0, sr_msg = [], sr_msg_delay = 0, sr_word = None, sr_bit_index = 0\<rparr>"

definition PtpTdSource_set_period :: "int \<Rightarrow> int \<Rightarrow> td_source \<Rightarrow> td_source" where
  "PtpTdSource_set_period ns fns self =
     self\<lparr>ts_time := (ts_time self)\<lparr>td_period_ns := ns, td_period_fns := fns AND 0xffffffff\<rparr>\<rparr>"

definition PtpTdSource_set_drift :: "int \<Rightarrow> int \<Rightarrow> td_source \<Rightarrow> td_source" where
  "PtpTdSource_set_drift num denom self =
     self\<lparr>ts_time := (ts_time self)\<lparr>td_drift_num := num, td_drift_denom := denom\<rparr>\<rparr>"

definition PtpTdSource :: "int \<Rightarrow> int \<Rightarrow> int \<Rightarrow> int \<Rightarrow> nat \<Rightarrow> td_source" where
  \<comment> \<open>the constructor, given the period and drift that \<open>set_period_ns\<close> computes\<close>
  "PtpTdSource ns fns num denom td_delay =
     PtpTdSource_set_drift num denom (PtpTdSource_set_period ns fns
       \<lparr>ts_time = \<lparr>td_period_ns = 0, td_period_fns = 0, td_drift_num = 0, td_drift_denom = 0, td_drift_cnt = 0,
          td_fns = 0, td_rel_ns = 0, td_tod_s = 0, td_tod_ns = 0\<rparr>,
        ts_rel_updated = False, ts_tod_updated = False, ts_offset_ns = 0, ts_alt_s = 0, ts_alt_offset_ns = 0,
        ts_td_delay = td_delay, ts_delayed = [(0, 0, 0, 0)], ts_data = True, ts_pps = False, ts_run = None\<rparr>)"

definition PtpTdSource_set_ts_tod :: "int \<Rightarrow> int \<Rightarrow> int \<Rightarrow> td_source \<Rightarrow> td_source" where
  "PtpTdSource_set_ts_tod ts_s ts_ns ts_fns self =
     self\<lparr>ts_time := (ts_time self)\<lparr>td_tod_s := ts_s, td_tod_ns := ts_ns, td_fns := ts_fns\<rparr>, ts_tod_updated := True\<rparr>"

definition PtpTdSource_set_ts_tod_64 :: "int \<Rightarrow> td_source \<Rightarrow> td_source" where
  "PtpTdSource_set_ts_tod_64 ts =
     PtpTdSource_set_ts_tod (shr ts 48) (shr ts 32 AND 0x3fffffff) (shl (ts AND 0xffff) 16)"

definition PtpTdSource_set_ts_rel :: "int \<Rightarrow> int \<Rightarrow> td_source \<Rightarrow> td_source" where
  "PtpTdSource_set_ts_rel ts_ns ts_fns self =
     self\<lparr>ts_time := (ts_time self)\<lparr>td_rel_ns := ts_ns, td_fns := ts_fns\<rparr>, ts_rel_updated := True\<rparr>"

definition PtpTdSource_set_ts_rel_64 :: "int \<Rightarrow> td_source \<Rightarrow> td_source" where
  "PtpTdSource_set_ts_rel_64 ts = PtpTdSource_set_ts_rel (shr ts 16) (shl (ts AND 0xffff) 16)"

definition PtpTdSource_get_ts_tod :: "td_source \<Rightarrow> (int \<times> int \<times> int) result" where
  "PtpTdSource_get_ts_tod self =
     bindR (nthR (ts_delayed self) 0) (\<lambda>(tod_s, tod_ns, rel_ns, fns). Inr (tod_s, tod_ns, fns))"

definition PtpTdSource_get_ts_tod_96 :: "td_source \<Rightarrow> int result" where
  "PtpTdSource_get_ts_tod_96 self =
     bindR (PtpTdSource_get_ts_tod self) (\<lambda>(tod_s, tod_ns, fns). Inr (shl tod_s 48 OR shl tod_ns 16 OR shr fns 16))"

definition PtpTdSource_get_ts_rel :: "td_source \<Rightarrow> (int \<times> int) result" where
  "PtpTdSource_get_ts_rel self =
     bindR (nthR (ts_delayed self) 0) (\<lambda>(tod_s, tod_ns, rel_ns, fns). Inr (rel_ns, fns))"

definition PtpTdSource_get_ts_rel_64 :: "td_source \<Rightarrow> int result" where
  "PtpTdSource_get_ts_rel_64 self =
     bindR (PtpTdSource_get_ts_rel self) (\<lambda>(rel_ns, fns). Inr (shl rel_ns 16 OR shr fns 16))"

definition PtpTdSource_handle_reset :: "bool \<Rightarrow> td_source \<Rightarrow> td_source" where
  "PtpTdSource_handle_reset state self =
     (if state
      then self\<lparr>ts_run := None,
             ts_time := (ts_time self)\<lparr>td_tod_s := 0, td_tod_ns := 0, td_rel_ns := 0, td_fns := 0, td_drift_cnt := 0\<rparr>,
             ts_data := True\<rparr>
      else case ts_run self of
             None \<Rightarrow> self\<lparr>ts_run := Some td_source_vars0\<rparr>
           | Some r \<Rightarrow> self)"

text \<open>One clock edge, in the order of the code.\<close>

definition td_source_delay :: "td_source \<Rightarrow> td_source" where
  \<comment> \<open>append, then pop while the list is too long\<close>
  "td_source_delay self =
     (let t = ts_time self;
          l = ts_delayed self @ [(td_tod_s t, td_tod_ns t, td_rel_ns t, td_fns t)]
      in self\<lparr>ts_delayed := drop (length l - (14 * 17 + ts_td_delay self)) l\<rparr>)"

definition td_source_advance :: "ptp_time \<Rightarrow> ptp_time \<times> bool" where
  \<comment> \<open>the time one edge later, and whether a second is over\<close>
  "td_source_advance t =
     (let fns = td_fns t + (shl (td_period_ns t) 32 + td_period_fns t);
          (cnt, fns) =
            (if td_drift_denom t \<noteq> 0
             then if 0 < td_drift_cnt t then (td_drift_cnt t - 1, fns)
                  else (td_drift_denom t - 1, fns + td_drift_num t)
             else (td_drift_cnt t, fns));
          ns_inc = shr fns 32;
          rel_ns = (td_rel_ns t + ns_inc) AND 0xffffffffffff;
          tod_ns = td_tod_ns t + ns_inc;
          t = t\<lparr>td_drift_cnt := cnt, td_fns := fns AND 0xffffffff, td_rel_ns := rel_ns\<rparr>
      in if 1000000000 \<le> tod_ns
         then (t\<lparr>td_tod_s := td_tod_s t + 1, td_tod_ns := tod_ns - 1000000000\<rparr>, True)
         else (t\<lparr>td_tod_ns := tod_ns\<rparr>, False))"

definition td_source_time :: "td_source \<Rightarrow> td_source" where
  "td_source_time self =
     (let (t, pps) = td_source_advance (ts_time self)
      in self\<lparr>ts_time := t, ts_pps := (ts_pps self \<or> pps)\<rparr>)"

definition td_source_offsets :: "td_source \<Rightarrow> td_source" where
  "td_source_offsets self =
     (let t = ts_time self;
          offset = (td_tod_ns t - td_rel_ns t) AND 0xffffffff;
          self = self\<lparr>ts_offset_ns := offset\<rparr>
      in if shr (td_tod_ns t) 27 = 7
         then self\<lparr>ts_alt_s := td_tod_s t + 1, ts_alt_offset_ns := (offset - 1000000000) AND 0xffffffff\<rparr>
         else self\<lparr>ts_alt_s := td_tod_s t - 1, ts_alt_offset_ns := (offset + 1000000000) AND 0xffffffff\<rparr>)"

definition td_ctrl_word :: "int \<Rightarrow> td_source \<Rightarrow> int" where
  "td_ctrl_word msg_index self =
     (msg_index AND 0xf) OR shl (of_bool (ts_rel_updated self)) 8
       OR shl (of_bool (td_tod_s (ts_time self) AND 1 \<noteq> 0)) 9"

definition td_common_words :: "ptp_time \<Rightarrow> int list" where
  \<comment> \<open>words 6 to 13\<close>
  "td_common_words t =
     [td_fns t AND 0xffff, shr (td_fns t) 16 AND 0xffff,
      td_rel_ns t AND 0xffff, shr (td_rel_ns t) 16 AND 0xffff, shr (td_rel_ns t) 32 AND 0xffff,
      td_period_fns t AND 0xffff, shr (td_period_fns t) 16 AND 0xffff,
      td_period_ns t AND 0xff]"

definition td_index_words :: "int \<Rightarrow> td_source \<Rightarrow> int list" where
  \<comment> \<open>words 1 to 5\<close>
  "td_index_words msg_index self =
     (let t = ts_time self
      in if msg_index = 0 then
           [td_tod_ns t AND 0xffff,
            (shr (td_tod_ns t) 16 AND 0x3fff) OR (if ts_tod_updated self then 0x8000 else 0),
            td_tod_s t AND 0xffff, shr (td_tod_s t) 16 AND 0xffff, shr (td_tod_s t) 32 AND 0xffff]
         else if msg_index = 1 then
           [ts_offset_ns self AND 0xffff, shr (ts_offset_ns self) 16 AND 0xffff,
            td_drift_num t, td_drift_denom t, td_drift_cnt t]
         else if msg_index = 2 then
           [ts_alt_offset_ns self AND 0xffff, shr (ts_alt_offset_ns self) 16 AND 0xffff,
            ts_alt_s self AND 0xffff, shr (ts_alt_s self) 16 AND 0xffff, shr (ts_alt_s self) 32 AND 0xffff]
         else [])"

definition td_message :: "int \<Rightarrow> td_source \<Rightarrow> int list" where
  "td_message msg_index self =
     td_ctrl_word msg_index self # td_index_words msg_index self @ td_common_words (ts_time self)"

definition td_next_index :: "int \<Rightarrow> int" where
  "td_next_index msg_index =
     (if msg_index = 0 then 1 else if msg_index = 1 then 2 else if msg_index = 2 then 0 else msg_index)"

definition td_source_build :: "td_source_vars \<Rightarrow> td_source \<Rightarrow> td_source_vars \<times> td_source" where
  "td_source_build r self =
     (if sr_msg_delay r \<le> 0
      then (r\<lparr>sr_msg := td_message (sr_msg_index r) self, sr_msg_index := td_next_index (sr_msg_index r),
              sr_msg_delay := 255\<rparr>,
            self\<lparr>ts_rel_updated := False,
                 ts_tod_updated := (ts_tod_updated self \<and> sr_msg_index r \<noteq> 0)\<rparr>)
      else (r\<lparr>sr_msg_delay := sr_msg_delay r - 1\<rparr>, self))"

definition td_serialize :: "td_source_vars \<Rightarrow> td_source_vars \<times> bool" where
  "td_serialize r =
     (case sr_word r of
        None \<Rightarrow>
          (case sr_msg r of
             w # ws \<Rightarrow> (r\<lparr>sr_msg := ws, sr_word := Some w, sr_bit_index := 0\<rparr>, False)
           | [] \<Rightarrow> (r, True))
      | Some w \<Rightarrow>
          (let i = sr_bit_index r + 1
           in (r\<lparr>sr_bit_index := i, sr_word := (if i = 16 then None else Some w)\<rparr>,
               shr w (sr_bit_index r) AND 1 \<noteq> 0)))"

definition PtpTdSource_edge :: "td_source \<Rightarrow> td_source" where
  "PtpTdSource_edge self =
     (case ts_run self of
        None \<Rightarrow> self
      | Some r \<Rightarrow>
          (let self = td_source_offsets (td_source_time (td_source_delay self));
               (r, self) = td_source_build r self;
               (r, data) = td_serialize r
           in self\<lparr>ts_run := Some r, ts_data := data\<rparr>))"

section \<open>The sink\<close>

record td_sink_vars =
  kr_msg :: "int list"
  kr_msg_delay :: nat
  kr_cur_msg :: "int list"
  kr_word :: "int option"
  kr_bit_index :: nat

record td_sink =
  tk_time :: ptp_time
  tk_offset_ns :: int
  tk_alt_s :: int
  tk_alt_offset_ns :: int
  tk_td_delay :: nat
  tk_pps :: bool
  tk_run :: "td_sink_vars option"

definition td_sink_vars0 :: td_sink_vars where
  "td_sink_vars0 = \<lparr>kr_msg = [], kr_msg_delay = 0, kr_cur_msg = [], kr_word = None, kr_bit_index = 0\<rparr>"

definition PtpTdSink :: "nat \<Rightarrow> td_sink" where
  "PtpTdSink td_delay =
     \<lparr>tk_time = \<lparr>td_period_ns = 0, td_period_fns = 0, td_drift_num = 0, td_drift_denom = 0, td_drift_cnt = 0,
        td_fns = 0, td_rel_ns = 0, td_tod_s = 0, td_tod_ns = 0\<rparr>,
      tk_offset_ns = 0, tk_alt_s = 0, tk_alt_offset_ns = 0, tk_td_delay = td_delay, tk_pps = False, tk_run = None\<rparr>"

definition PtpTdSink_get_ts_tod :: "td_sink \<Rightarrow> int \<times> int \<times> int" where
  "PtpTdSink_get_ts_tod self = (td_tod_s (tk_time self), td_tod_ns (tk_time self), td_fns (tk_time self))"

definition PtpTdSink_get_ts_tod_96 :: "td_sink \<Rightarrow> int" where
  "PtpTdSink_get_ts_tod_96 self =
     (let (tod_s, tod_ns, fns) = PtpTdSink_get_ts_tod self in shl tod_s 48 OR shl tod_ns 16 OR shr fns 16)"

definition PtpTdSink_get_ts_rel :: "td_sink \<Rightarrow> int \<times> int" where
  "PtpTdSink_get_ts_rel self = (td_rel_ns (tk_time self), td_fns (tk_time self))"

definition PtpTdSink_get_ts_rel_64 :: "td_sink \<Rightarrow> int" where
  "PtpTdSink_get_ts_rel_64 self =
     (let (rel_ns, fns) = PtpTdSink_get_ts_rel self in shl rel_ns 16 OR shr fns 16)"

definition PtpTdSink_handle_reset :: "bool \<Rightarrow> td_sink \<Rightarrow> td_sink \<times> bool option" where
  \<comment> \<open>with the value it writes to the line\<close>
  "PtpTdSink_handle_reset state self =
     (if state
      then (self\<lparr>tk_run := None,
              tk_time := (tk_time self)\<lparr>td_tod_s := 0, td_tod_ns := 0, td_rel_ns := 0, td_fns := 0, td_drift_cnt := 0\<rparr>\<rparr>,
            Some True)
      else (case tk_run self of
              None \<Rightarrow> self\<lparr>tk_run := Some td_sink_vars0\<rparr>
            | Some r \<Rightarrow> self, None))"

definition td_sink_advance :: "ptp_time \<Rightarrow> ptp_time \<times> bool" where
  "td_sink_advance t =
     (let fns = td_fns t + (shl (td_period_ns t) 32 + td_period_fns t);
          (cnt, fns) =
            (if td_drift_denom t \<noteq> 0
             then if 0 < td_drift_cnt t then (td_drift_cnt t - 1, fns)
                  else (td_drift_denom t - 1, fns + td_drift_num t)
             else (td_drift_cnt t, fns));
          ns_inc = shr fns 32;
          rel_ns = (td_rel_ns t + ns_inc) AND 0xffffffffffff;
          tod_ns = td_tod_ns t + ns_inc;
          t = t\<lparr>td_drift_cnt := cnt, td_fns := fns AND 0xffffffff, td_rel_ns := rel_ns\<rparr>
      in if 1000000000 \<le> tod_ns
         then (t\<lparr>td_tod_s := td_tod_s t + 1, td_tod_ns := tod_ns - 1000000000\<rparr>, True)
         else (t\<lparr>td_tod_ns := tod_ns\<rparr>, False))"

definition td_sink_time :: "td_sink \<Rightarrow> td_sink" where
  "td_sink_time self =
     (let (t, pps) = td_sink_advance (tk_time self)
      in self\<lparr>tk_time := t, tk_pps := (tk_pps self \<or> pps)\<rparr>)"

definition td_take_tod :: "int list \<Rightarrow> td_sink \<Rightarrow> td_sink result" where
  \<comment> \<open>a message of kind 0; an attribute that has the new value already is assigned to all the same\<close>
  "td_take_tod msg self =
     bindR (nthR msg 2) (\<lambda>w2. bindR (nthR msg 1) (\<lambda>w1.
     bindR (nthR msg 5) (\<lambda>w5. bindR (nthR msg 4) (\<lambda>w4. bindR (nthR msg 3) (\<lambda>w3.
     Inr (self\<lparr>tk_time := (tk_time self)\<lparr>td_tod_ns := shl (w2 AND 0x3fff) 16 OR w1,
                                          td_tod_s := shl w5 32 OR shl w4 16 OR w3\<rparr>\<rparr>))))))"

definition td_take_drift :: "int list \<Rightarrow> td_sink \<Rightarrow> td_sink result" where
  "td_take_drift msg self =
     bindR (nthR msg 2) (\<lambda>w2. bindR (nthR msg 1) (\<lambda>w1.
     bindR (nthR msg 3) (\<lambda>w3. bindR (nthR msg 4) (\<lambda>w4. bindR (nthR msg 5) (\<lambda>w5.
     Inr (self\<lparr>tk_offset_ns := shl w2 16 OR w1,
               tk_time := (tk_time self)\<lparr>td_drift_num := w3, td_drift_denom := w4, td_drift_cnt := w5\<rparr>\<rparr>))))))"

definition td_take_alt :: "int list \<Rightarrow> td_sink \<Rightarrow> td_sink result" where
  "td_take_alt msg self =
     bindR (nthR msg 2) (\<lambda>w2. bindR (nthR msg 1) (\<lambda>w1.
     bindR (nthR msg 5) (\<lambda>w5. bindR (nthR msg 4) (\<lambda>w4. bindR (nthR msg 3) (\<lambda>w3.
     Inr (self\<lparr>tk_alt_offset_ns := shl w2 16 OR w1, tk_alt_s := shl w5 32 OR shl w4 16 OR w3\<rparr>))))))"

definition td_take_common :: "int list \<Rightarrow> td_sink \<Rightarrow> td_sink result" where
  "td_take_common msg self =
     bindR (nthR msg 7) (\<lambda>w7. bindR (nthR msg 6) (\<lambda>w6.
     bindR (nthR msg 10) (\<lambda>w10. bindR (nthR msg 9) (\<lambda>w9. bindR (nthR msg 8) (\<lambda>w8.
     bindR (nthR msg 12) (\<lambda>w12. bindR (nthR msg 11) (\<lambda>w11. bindR (nthR msg 13) (\<lambda>w13.
     Inr (self\<lparr>tk_time := (tk_time self)\<lparr>td_fns := shl w7 16 OR w6,
            td_rel_ns := shl w10 32 OR shl w9 16 OR w8,
            td_period_fns := shl w12 16 OR w11, td_period_ns := w13 AND 0xff\<rparr>\<rparr>)))))))))"

definition td_take_message :: "int list \<Rightarrow> td_sink \<Rightarrow> td_sink result" where
  "td_take_message msg self =
     bindR (nthR msg 0) (\<lambda>w0.
     let msg_index = w0 AND 0xf
     in bindR (if msg_index = 0 then td_take_tod msg self
               else if msg_index = 1 then td_take_drift msg self
               else if msg_index = 2 then td_take_alt msg self
               else Inr self) (td_take_common msg))"

definition td_sink_process :: "td_sink_vars \<Rightarrow> td_sink \<Rightarrow> (td_sink_vars \<times> td_sink) result" where
  "td_sink_process r self =
     (let delay = (if 0 < kr_msg_delay r then kr_msg_delay r - 1 else kr_msg_delay r);
          r = r\<lparr>kr_msg_delay := delay\<rparr>
      in if delay = 0 \<and> kr_msg r \<noteq> []
         then bindR (td_take_message (kr_msg r) self) (\<lambda>self. Inr (r\<lparr>kr_msg := []\<rparr>, self))
         else Inr (r, self))"

definition td_deserialize :: "nat \<Rightarrow> bool \<Rightarrow> td_sink_vars \<Rightarrow> td_sink_vars" where
  "td_deserialize td_delay sdi r =
     (case kr_word r of
        Some w \<Rightarrow>
          (let w = w OR shl (of_bool sdi) (kr_bit_index r);
               i = kr_bit_index r + 1
           in if i = 16 then r\<lparr>kr_bit_index := i, kr_cur_msg := kr_cur_msg r @ [w], kr_word := None\<rparr>
              else r\<lparr>kr_bit_index := i, kr_word := Some w\<rparr>)
      | None \<Rightarrow>
          if \<not> sdi then r\<lparr>kr_word := Some 0, kr_bit_index := 0\<rparr>
          else if kr_cur_msg r \<noteq> []
          then r\<lparr>kr_msg := kr_cur_msg r, kr_msg_delay := td_delay, kr_cur_msg := []\<rparr>
          else r)"

definition PtpTdSink_edge :: "bool \<Rightarrow> td_sink \<Rightarrow> td_sink result" where
  "PtpTdSink_edge data self =
     (case tk_run self of
        None \<Rightarrow> Inr self
      | Some r \<Rightarrow>
          bindR (td_sink_process r (td_sink_time self)) (\<lambda>(r, self).
          Inr (self\<lparr>tk_run := Some (td_deserialize (tk_td_delay self) data r)\<rparr>)))"

end
