(* ===== verification/Ptp_Td_Link.thy ===== *)
theory Ptp_Td_Link
  imports Ptp_Td
begin

text \<open>
  A \<open>PtpTdSource\<close> and a \<open>PtpTdSink\<close> on one wire and one clock.  The serialiser is a queue of bits and the
  deserialiser collects bits, so that framing is a statement on lists of bits.  The invariant of the link follows the
  position in the 256 edges of a message; it holds under all calls of the setters at any moment.  Once the setters
  rest, the sink takes over all attributes of the time within five messages, and stays in step for ever.
\<close>

section \<open>The two ends on one wire\<close>

datatype td_call =
    SetPeriod int int
  | SetDrift int int
  | SetTod int int int
  | SetTod64 int
  | SetRel int int
  | SetRel64 int

datatype td_event = Call td_call | Source_Reset bool | Edge

fun td_do_call :: "td_call \<Rightarrow> td_source \<Rightarrow> td_source" where
  "td_do_call (SetPeriod ns fns) = PtpTdSource_set_period ns fns"
| "td_do_call (SetDrift num denom) = PtpTdSource_set_drift num denom"
| "td_do_call (SetTod s ns fns) = PtpTdSource_set_ts_tod s ns fns"
| "td_do_call (SetTod64 ts) = PtpTdSource_set_ts_tod_64 ts"
| "td_do_call (SetRel ns fns) = PtpTdSource_set_ts_rel ns fns"
| "td_do_call (SetRel64 ts) = PtpTdSource_set_ts_rel_64 ts"

fun td_source_event :: "td_event \<Rightarrow> td_source \<Rightarrow> td_source" where
  "td_source_event (Call c) s = td_do_call c s"
| "td_source_event (Source_Reset b) s = PtpTdSource_handle_reset b s"
| "td_source_event Edge s = PtpTdSource_edge s"

fun td_sink_event :: "td_event \<Rightarrow> bool \<Rightarrow> td_sink \<Rightarrow> td_sink result" where
  "td_sink_event Edge data k = PtpTdSink_edge data k"
| "td_sink_event _ data k = Inr k"

fun td_source_run :: "td_event list \<Rightarrow> td_source \<Rightarrow> td_source" where
  "td_source_run [] s = s"
| "td_source_run (e # es) s = td_source_run es (td_source_event e s)"

fun ptp_td_run :: "td_event list \<Rightarrow> td_source \<times> td_sink \<Rightarrow> (td_source \<times> td_sink) result" where
  "ptp_td_run [] x = Inr x"
| "ptp_td_run (e # es) (s, k) =
     bindR (td_sink_event e (ts_data s) k) (\<lambda>k'. ptp_td_run es (td_source_event e s, k'))"

lemma ptp_td_run_append: "ptp_td_run (es @ es') x = bindR (ptp_td_run es x) (ptp_td_run es')"
  by (induction es x rule: ptp_td_run.induct) (auto simp: bindR_assoc intro!: bindR_eqI)

lemma td_source_run_append: "td_source_run (es @ es') s = td_source_run es' (td_source_run es s)"
  by (induction es arbitrary: s) simp_all

lemma ptp_td_run_source: "ptp_td_run es (s, k) = Inr (s', k') \<Longrightarrow> s' = td_source_run es s"
  by (induction es arbitrary: s k) (auto simp: bindR_eq_Inr)

section \<open>Words and bits\<close>

definition td_frame :: "int \<Rightarrow> bool list" where
  "td_frame w = False # map (bit w) [0..<16]"

definition td_frames :: "int list \<Rightarrow> bool list" where
  "td_frames ws = concat (map td_frame ws)"

lemma td_frames_simps [simp]: "td_frames [] = []" "td_frames (w # ws) = td_frame w @ td_frames ws"
    "td_frames (ws @ ws') = td_frames ws @ td_frames ws'"
  by (simp_all add: td_frames_def)

lemma length_td_frame [simp]: "length (td_frame w) = 17"
  by (simp add: td_frame_def)

lemma length_td_frames [simp]: "length (td_frames ws) = 17 * length ws"
  by (induction ws) simp_all

lemma td_frame_eq: "td_frame v = td_frame w \<longleftrightarrow> take_bit 16 v = take_bit 16 w"
proof -
  have "td_frame v = td_frame w \<longleftrightarrow> (\<forall>n < 16. bit v n = bit w n)"
    unfolding td_frame_def list.inject map_eq_conv by auto
  moreover have "take_bit 16 v = take_bit 16 w \<longleftrightarrow> (\<forall>n < 16. bit v n = bit w n)"
  proof
    assume eq: "take_bit 16 v = take_bit 16 w"
    have "bit x n \<longleftrightarrow> bit (take_bit 16 x) n" if "n < 16" for x :: int and n
      using that by (simp only: bit_take_bit_iff simp_thms)
    then show "\<forall>n < 16. bit v n = bit w n" using eq by metis
  next
    assume "\<forall>n < 16. bit v n = bit w n"
    then show "take_bit 16 v = take_bit 16 w" by (intro bit_eqI) (simp only: bit_take_bit_iff, blast)
  qed
  ultimately show ?thesis by blast
qed

lemma td_frames_eq: "td_frames vs = td_frames ws \<longleftrightarrow> map (take_bit 16) vs = map (take_bit 16) ws"
proof (induction vs arbitrary: ws)
  case Nil
  then show ?case by (metis length_0_conv length_td_frames list.simps(8) map_is_Nil_conv mult_eq_0_iff td_frames_simps(1) zero_neq_numeral)
next
  case (Cons v vs)
  then show ?case by (cases ws) (simp_all add: td_frame_eq, simp add: td_frame_def)
qed

text \<open>The serialiser holds a queue of bits.\<close>

definition tx_bits :: "td_source_vars \<Rightarrow> bool list" where
  "tx_bits q = (case sr_word q of None \<Rightarrow> [] | Some w \<Rightarrow> map (bit w) [sr_bit_index q..<16]) @ td_frames (sr_msg q)"

definition tx_ok :: "td_source_vars \<Rightarrow> bool" where
  "tx_ok q \<longleftrightarrow> sr_word q = None \<or> sr_bit_index q < 16"

lemma bit_test: "(shr w n AND 1 \<noteq> 0) = bit w n"
  by (simp add: bit_iff_odd_drop_bit and_one_eq odd_iff_mod_2_eq_one)

lemma td_serialize_bits:
  assumes "tx_ok q" "td_serialize q = (q', b)"
  shows "tx_ok q'" "tx_bits q' = tl (tx_bits q)" "b = (if tx_bits q = [] then True else hd (tx_bits q))"
    "sr_msg_delay q' = sr_msg_delay q" "sr_msg_index q' = sr_msg_index q"
proof -
  have step: "map (bit w) [i..<16] = bit w i # map (bit w) [Suc i..<16]" if "i < 16" for w :: int and i
    using that by (simp add: upt_conv_Cons)
  show "tx_ok q'" "tx_bits q' = tl (tx_bits q)" "b = (if tx_bits q = [] then True else hd (tx_bits q))"
    "sr_msg_delay q' = sr_msg_delay q" "sr_msg_index q' = sr_msg_index q"
    using assms unfolding td_serialize_def bit_test
    by (auto simp: tx_ok_def tx_bits_def Let_def step td_frame_def split: option.splits list.splits if_splits)
qed

text \<open>The deserialiser collects them.\<close>

definition rx_bits :: "td_sink_vars \<Rightarrow> bool list" where
  "rx_bits q = td_frames (kr_cur_msg q)
     @ (case kr_word q of None \<Rightarrow> [] | Some w \<Rightarrow> False # map (bit w) [0..<kr_bit_index q])"

definition rx_ok :: "td_sink_vars \<Rightarrow> bool" where
  "rx_ok q \<longleftrightarrow> map (take_bit 16) (kr_cur_msg q) = kr_cur_msg q
     \<and> (case kr_word q of None \<Rightarrow> True
        | Some w \<Rightarrow> kr_bit_index q < 16 \<and> take_bit (kr_bit_index q) w = w)"

lemma add_bit:
  fixes w :: int
  assumes "take_bit i w = w"
  shows "map (bit (w OR shl (of_bool b) i)) [0..<Suc i] = map (bit w) [0..<i] @ [b]"
    and "take_bit (Suc i) (w OR shl (of_bool b) i) = w OR shl (of_bool b) i"
proof -
  have w: "\<not> bit w j" if "i \<le> j" for j using that assms by (metis bit_take_bit_iff not_le)
  have bits: "bit (w OR shl (of_bool b) i) j \<longleftrightarrow> (if j = i then b else bit w j)" for j
    using w by (auto simp: bit_or_iff bit_push_bit_iff bit_of_bool_iff)
  show "map (bit (w OR shl (of_bool b) i)) [0..<Suc i] = map (bit w) [0..<i] @ [b]"
    by (auto simp: bits)
  show "take_bit (Suc i) (w OR shl (of_bool b) i) = w OR shl (of_bool b) i"
    using w by (intro bit_eqI) (simp only: bit_take_bit_iff bits, metis lessI less_SucI not_le)
qed

lemma td_deserialize_bits:
  assumes "rx_ok q" "kr_word q \<noteq> None \<or> \<not> b"
  shows "rx_ok (td_deserialize td b q)" "rx_bits (td_deserialize td b q) = rx_bits q @ [b]"
    "kr_msg (td_deserialize td b q) = kr_msg q" "kr_msg_delay (td_deserialize td b q) = kr_msg_delay q"
proof -
  have full: "take_bit 16 w = w \<Longrightarrow> Suc i = 16 \<Longrightarrow> td_frame w = False # map (bit w) [0..<Suc i]" for w :: int and i
    by (simp add: td_frame_def)
  let ?q = "td_deserialize td b q" and ?i = "kr_bit_index q"
  have "rx_ok ?q \<and> rx_bits ?q = rx_bits q @ [b] \<and> kr_msg ?q = kr_msg q \<and> kr_msg_delay ?q = kr_msg_delay q"
  proof (cases "kr_word q")
    case None
    then show ?thesis using assms by (simp add: td_deserialize_def rx_ok_def rx_bits_def)
  next
    case (Some w)
    have i: "?i < 16" "take_bit ?i w = w" "map (take_bit 16) (kr_cur_msg q) = kr_cur_msg q"
      using assms(1) Some by (simp_all add: rx_ok_def)
    show ?thesis
    proof (cases "Suc ?i = 16")
      case True
      then show ?thesis
        using Some i(3) add_bit [OF i(2), of b] full [OF _ True, of "w OR shl (of_bool b) ?i"]
        by (simp del: upt_Suc add: td_deserialize_def rx_ok_def rx_bits_def Let_def)
    next
      case False
      then show ?thesis
        using Some i(1,3) add_bit [OF i(2), of b]
        by (simp del: upt_Suc add: td_deserialize_def rx_ok_def rx_bits_def Let_def)
    qed
  qed
  then show "rx_ok ?q" "rx_bits ?q = rx_bits q @ [b]" "kr_msg ?q = kr_msg q" "kr_msg_delay ?q = kr_msg_delay q"
    by blast+
qed

text \<open>Complete words have been received only between two words.\<close>

lemma rx_complete:
  assumes "rx_ok q" "rx_bits q = td_frames ws"
  shows "kr_word q = None" "kr_cur_msg q = map (take_bit 16) ws"
proof -
  have "length (rx_bits q) = 17 * length ws" using assms(2) by simp
  then show word: "kr_word q = None"
    using assms(1) by (cases "kr_word q") (auto simp: rx_bits_def rx_ok_def, presburger)
  have "td_frames (kr_cur_msg q) = td_frames ws" using assms(2) word by (simp add: rx_bits_def)
  then show "kr_cur_msg q = map (take_bit 16) ws"
    using assms(1) by (simp add: td_frames_eq rx_ok_def)
qed


section \<open>The source sends a message every 256 edges\<close>

lemma td_source_event_delay [simp]: "ts_td_delay (td_source_event e s) = ts_td_delay s"
proof (cases e)
  case (Call c)
  then show ?thesis
    by (cases c) (simp_all add: PtpTdSource_set_period_def PtpTdSource_set_drift_def PtpTdSource_set_ts_tod_def
        PtpTdSource_set_ts_tod_64_def PtpTdSource_set_ts_rel_def PtpTdSource_set_ts_rel_64_def)
qed (auto simp: PtpTdSource_handle_reset_def PtpTdSource_edge_def td_source_offsets_def td_source_time_def
  td_source_delay_def td_source_build_def Let_def split: option.splits prod.splits if_splits)

text \<open>The attributes when a message is built on the coming edge.\<close>

definition td_built :: "td_source \<Rightarrow> td_source" where
  "td_built s = td_source_offsets (td_source_time (td_source_delay s))"

lemma td_built_simps [simp]:
  "ts_time (td_built s) = fst (td_source_advance (ts_time s))"
  "ts_delayed (td_built s) = ts_delayed (td_source_delay s)"
  by (simp_all add: td_built_def td_source_offsets_def td_source_time_def td_source_delay_def Let_def split: prod.splits)

definition td_sending :: "nat \<Rightarrow> int list \<Rightarrow> int \<Rightarrow> td_source \<Rightarrow> bool" where
  \<comment> \<open>\<open>r\<close> edges after message \<open>W\<close> was built, with message number \<open>i\<close> to follow\<close>
  "td_sending r W i s \<longleftrightarrow>
     (\<exists>q. ts_run s = Some q \<and> tx_ok q \<and> r \<le> 255 \<and> sr_msg_delay q = 255 - int r \<and> sr_msg_index q = i
        \<and> tx_bits q = drop (Suc r) (td_frames W)
        \<and> ts_data s = (if r < length (td_frames W) then td_frames W ! r else True)
        \<and> (length W = 14 \<or> W = [] \<and> r = 255))"

lemma td_sending_call: "td_sending r W i (td_source_event (Call c) s) = td_sending r W i s"
  by (cases c) (simp_all add: td_sending_def PtpTdSource_set_period_def PtpTdSource_set_drift_def PtpTdSource_set_ts_tod_def
        PtpTdSource_set_ts_tod_64_def PtpTdSource_set_ts_rel_def PtpTdSource_set_ts_rel_64_def)

lemma length_td_message:
  "i \<in> {0, 1, 2} \<Longrightarrow> length (td_message i s) = 14"
  by (auto simp: td_message_def td_index_words_def td_common_words_def Let_def)

lemma hd_tl_drop: "n < length xs \<Longrightarrow> hd (drop n xs) = xs ! n" "tl (drop n xs) = drop (Suc n) xs"
  by (simp_all add: hd_drop_conv_nth drop_Suc tl_drop)

lemma td_edge_serialize:
  assumes "ts_run s = Some q" "td_source_build q (td_built s) = (q1, s1)" "td_serialize q1 = (q2, b)"
  shows "PtpTdSource_edge s = s1\<lparr>ts_run := Some q2, ts_data := b\<rparr>"
  using assms by (simp add: PtpTdSource_edge_def td_built_def Let_def)

lemma td_sending_edge:
  assumes "td_sending r W i s" "r < 255"
  shows "td_sending (Suc r) W i (PtpTdSource_edge s)"
    and "ts_time (PtpTdSource_edge s) = fst (td_source_advance (ts_time s))"
    and "ts_delayed (PtpTdSource_edge s) = ts_delayed (td_source_delay s)"
proof -
  obtain q where q: "ts_run s = Some q" "tx_ok q" "sr_msg_delay q = 255 - int r" "sr_msg_index q = i"
      "tx_bits q = drop (Suc r) (td_frames W)" and W: "length W = 14"
    using assms by (auto simp: td_sending_def)
  define q1 where "q1 = q\<lparr>sr_msg_delay := sr_msg_delay q - 1\<rparr>"
  have build: "td_source_build q (td_built s) = (q1, td_built s)"
    using q(3) assms(2) by (simp add: td_source_build_def q1_def)
  have q1: "tx_ok q1" "tx_bits q1 = drop (Suc r) (td_frames W)" using q by (simp_all add: q1_def tx_ok_def tx_bits_def split: option.splits)
  obtain q2 b where ser: "td_serialize q1 = (q2, b)" by fastforce
  note s = td_serialize_bits [OF q1(1) ser]
  note edge = td_edge_serialize [OF q(1) build ser]
  have "b = (if Suc r < length (td_frames W) then td_frames W ! Suc r else True)"
    using s(3) q1(2) hd_tl_drop(1) [of "Suc r" "td_frames W"] by simp
  moreover have "tx_bits q2 = drop (Suc (Suc r)) (td_frames W)" using s(2) q1(2) hd_tl_drop(2) by simp
  ultimately show "td_sending (Suc r) W i (PtpTdSource_edge s)"
    using s(1,4,5) q(3,4) assms(2) W by (simp add: edge td_sending_def q1_def)
  show "ts_time (PtpTdSource_edge s) = fst (td_source_advance (ts_time s))"
    and "ts_delayed (PtpTdSource_edge s) = ts_delayed (td_source_delay s)" by (simp_all add: edge)
qed

lemma td_sending_build:
  assumes "td_sending 255 W i s" "i \<in> {0, 1, 2}"
  shows "td_sending 0 (td_message i (td_built s)) (td_next_index i) (PtpTdSource_edge s)"
    and "ts_time (PtpTdSource_edge s) = fst (td_source_advance (ts_time s))"
    and "ts_delayed (PtpTdSource_edge s) = ts_delayed (td_source_delay s)"
proof -
  obtain q where q: "ts_run s = Some q" "tx_ok q" "sr_msg_delay q = 0" "sr_msg_index q = i" "tx_bits q = []"
    using assms(1) by (auto simp: td_sending_def)
  have idle: "sr_word q = None" "sr_msg q = []"
    using q(2,5) by (auto simp: tx_bits_def tx_ok_def td_frames_def td_frame_def split: option.splits)
  let ?W = "td_message i (td_built s)"
  have W: "length ?W = 14" by (rule length_td_message [OF assms(2)])
  define q1 where "q1 = q\<lparr>sr_msg := ?W, sr_msg_index := td_next_index i, sr_msg_delay := 255\<rparr>"
  obtain s1 where build: "td_source_build q (td_built s) = (q1, s1)" and s1: "ts_time s1 = ts_time (td_built s)"
    "ts_delayed s1 = ts_delayed (td_built s)"
    using q(3,4) by (simp add: td_source_build_def q1_def)
  have q1: "tx_ok q1" "tx_bits q1 = td_frames ?W" using idle by (simp_all add: q1_def tx_ok_def tx_bits_def)
  obtain q2 b where ser: "td_serialize q1 = (q2, b)" by fastforce
  note s = td_serialize_bits [OF q1(1) ser]
  note edge = td_edge_serialize [OF q(1) build ser]
  have ne: "td_frames ?W \<noteq> []" using W by (metis length_0_conv length_td_frames mult_eq_0_iff zero_neq_numeral)
  then have "b = td_frames ?W ! 0" using s(3) q1(2) by (simp add: hd_conv_nth)
  moreover have "tx_bits q2 = drop 1 (td_frames ?W)" using s(2) q1(2) by (simp add: drop_Suc)
  ultimately show "td_sending 0 ?W (td_next_index i) (PtpTdSource_edge s)"
    using s(1,4,5) W by (simp add: edge td_sending_def q1_def)
  show "ts_time (PtpTdSource_edge s) = fst (td_source_advance (ts_time s))"
    and "ts_delayed (PtpTdSource_edge s) = ts_delayed (td_source_delay s)" using s1 by (simp_all add: edge)
qed


section \<open>The sink takes over a message \<open>td_delay\<close> edges after its last bit\<close>

text \<open>What a complete message does to the attributes.\<close>

definition td_taken :: "int list \<Rightarrow> ptp_time \<Rightarrow> ptp_time" where
  "td_taken msg t =
     (let i = msg ! 0 AND 0xf;
          t = (if i = 0 then t\<lparr>td_tod_ns := shl (msg ! 2 AND 0x3fff) 16 OR msg ! 1,
                               td_tod_s := shl (msg ! 5) 32 OR shl (msg ! 4) 16 OR msg ! 3\<rparr>
               else if i = 1 then t\<lparr>td_drift_num := msg ! 3, td_drift_denom := msg ! 4, td_drift_cnt := msg ! 5\<rparr>
               else t)
      in t\<lparr>td_fns := shl (msg ! 7) 16 OR msg ! 6, td_rel_ns := shl (msg ! 10) 32 OR shl (msg ! 9) 16 OR msg ! 8,
           td_period_fns := shl (msg ! 12) 16 OR msg ! 11, td_period_ns := msg ! 13 AND 0xff\<rparr>)"

lemma td_take_message_complete:
  assumes "14 \<le> length msg"
  shows "\<exists>k'. td_take_message msg k = Inr k' \<and> tk_time k' = td_taken msg (tk_time k)
    \<and> tk_td_delay k' = tk_td_delay k \<and> tk_run k' = tk_run k"
proof -
  have n: "nthR msg i = Inr (msg ! i)" if "i < 14" for i using assms that by (simp add: nthR_def)
  show ?thesis
    by (simp add: n td_take_message_def td_taken_def td_take_tod_def td_take_drift_def td_take_alt_def
      td_take_common_def Let_def)
qed

lemma td_take_common_short: "length msg < 14 \<Longrightarrow> td_take_common msg k = Inl IndexError"
  by (cases "7 < length msg"; cases "10 < length msg"; cases "12 < length msg")
    (simp_all add: td_take_common_def nthR_def)

lemma td_take_message_short:
  assumes "length msg < 14"
  shows "td_take_message msg k = Inl IndexError"
proof -
  have part: "td_take_tod msg k = Inl IndexError \<or> (\<exists>k'. td_take_tod msg k = Inr k')"
    "td_take_drift msg k = Inl IndexError \<or> (\<exists>k'. td_take_drift msg k = Inr k')"
    "td_take_alt msg k = Inl IndexError \<or> (\<exists>k'. td_take_alt msg k = Inr k')"
    by (simp_all add: td_take_tod_def td_take_drift_def td_take_alt_def nthR_def bindR_def)
  show ?thesis
    unfolding td_take_message_def using part td_take_common_short [OF assms]
    by (auto simp: nthR_def Let_def)
qed

text \<open>The message the sink waits with, \<open>r\<close> edges after message \<open>W\<close> was built when \<open>P\<close> was the one before.\<close>

definition td_heard :: "nat \<Rightarrow> int list \<Rightarrow> int list \<Rightarrow> int list" where
  "td_heard r W P = (if r < 239 then P else W)"

definition td_age :: "nat \<Rightarrow> nat" where
  "td_age r = (if r < 239 then r + 17 else r - 239)"

definition td_waiting :: "nat \<Rightarrow> nat \<Rightarrow> int list \<Rightarrow> td_sink_vars \<Rightarrow> bool" where
  "td_waiting td age M q \<longleftrightarrow>
     (if M \<noteq> [] \<and> age < td then kr_msg q = map (take_bit 16) M \<and> kr_msg_delay q = td - age else kr_msg q = [])"

definition td_receiving :: "nat \<Rightarrow> int list \<Rightarrow> int list \<Rightarrow> td_sink \<Rightarrow> bool" where
  "td_receiving r W P k \<longleftrightarrow>
     (\<exists>q. tk_run k = Some q \<and> rx_ok q
        \<and> rx_bits q = (if r \<le> length (td_frames W) then take r (td_frames W) else [])
        \<and> td_waiting (tk_td_delay k) (td_age r) (td_heard r W P) q
        \<and> (length W = 14 \<or> W = [] \<and> r = 255) \<and> (length P = 14 \<or> P = []))"

lemma td_sink_process_waiting:
  assumes "td_waiting td age M q" "length M = 14 \<or> M = []"
  shows "\<exists>q' k'. td_sink_process q k = Inr (q', k')
    \<and> tk_time k' = (if M \<noteq> [] \<and> Suc age = td then td_taken (map (take_bit 16) M) (tk_time k) else tk_time k)
    \<and> tk_td_delay k' = tk_td_delay k
    \<and> kr_cur_msg q' = kr_cur_msg q \<and> kr_word q' = kr_word q \<and> kr_bit_index q' = kr_bit_index q
    \<and> td_waiting td (Suc age) M q'"
proof (cases "M \<noteq> [] \<and> age < td")
  case True
  then have q: "kr_msg q = map (take_bit 16) M" "kr_msg_delay q = td - age" "length M = 14"
    using assms by (auto simp: td_waiting_def)
  show ?thesis
  proof (cases "Suc age = td")
    case now: True
    obtain k' where "td_take_message (map (take_bit 16) M) k = Inr k'"
      "tk_time k' = td_taken (map (take_bit 16) M) (tk_time k)" "tk_td_delay k' = tk_td_delay k"
      using td_take_message_complete [of "map (take_bit 16) M" k] q(3) by auto
    then show ?thesis using True q now by (auto simp: td_sink_process_def td_waiting_def Let_def)
  next
    case False
    then have "Suc age < td" using True by simp
    then show ?thesis using True q by (auto simp: td_sink_process_def td_waiting_def Let_def)
  qed
next
  case False
  then have "kr_msg q = []" using assms(1) unfolding td_waiting_def by presburger
  then show ?thesis using False by (auto simp: td_sink_process_def td_waiting_def Let_def)
qed


lemma td_frames_start: "j < length ws \<Longrightarrow> \<not> td_frames ws ! (17 * j)"
proof (induction ws arbitrary: j)
  case (Cons w ws)
  then show ?case
    by (cases j) (simp_all add: nth_append, simp add: td_frame_def)
qed simp

lemma rx_next:
  assumes "rx_ok q" "rx_bits q = take r (td_frames W)" "r < length (td_frames W)"
  shows "kr_word q \<noteq> None \<or> \<not> td_frames W ! r"
proof (cases "kr_word q")
  case None
  then have "length (take r (td_frames W)) = 17 * length (kr_cur_msg q)"
    using assms(2) by (metis append.right_neutral length_td_frames option.simps(4) rx_bits_def)
  then have "r = 17 * length (kr_cur_msg q)" using assms(3) by simp
  then show ?thesis using td_frames_start [of "length (kr_cur_msg q)" W] assms(3) by simp
qed simp

lemma rx_bits_cong:
  "kr_cur_msg q' = kr_cur_msg q \<Longrightarrow> kr_word q' = kr_word q \<Longrightarrow> kr_bit_index q' = kr_bit_index q \<Longrightarrow>
    rx_bits q' = rx_bits q \<and> rx_ok q' = rx_ok q"
  by (cases "kr_word q") (simp_all add: rx_bits_def rx_ok_def)

lemma rx_empty: "rx_bits q = [] \<Longrightarrow> kr_word q = None \<and> kr_cur_msg q = []"
  by (auto simp: rx_bits_def td_frames_def td_frame_def split: option.splits)

text \<open>One step of the deserialiser along a message.\<close>

lemma td_deserialize_step:
  assumes "rx_ok q" "rx_bits q = (if r \<le> length (td_frames W) then take r (td_frames W) else [])"
    and "length W = 14 \<or> W = [] \<and> r = 255" "r \<le> 255" "0 < td"
    and "td_waiting td (Suc (td_age r)) (td_heard r W P) q"
    and b: "b = (if r < length (td_frames W) then td_frames W ! r else True)"
  shows "rx_ok (td_deserialize td b q)"
    and "r < 255 \<Longrightarrow> rx_bits (td_deserialize td b q) = (if Suc r \<le> length (td_frames W) then take (Suc r) (td_frames W) else [])
      \<and> td_waiting td (td_age (Suc r)) (td_heard (Suc r) W P) (td_deserialize td b q)"
    and "r = 255 \<Longrightarrow> rx_bits (td_deserialize td b q) = [] \<and> td_waiting td 17 W (td_deserialize td b q)"
proof -
  let ?q = "td_deserialize td b q"
  consider (bit) "r < length (td_frames W)" | (stop) "r = length (td_frames W)" "length W = 14" | (idle) "length (td_frames W) < r"
    using assms(3) by force
  then have "rx_ok ?q \<and> (r < 255 \<longrightarrow> rx_bits ?q = (if Suc r \<le> length (td_frames W) then take (Suc r) (td_frames W) else [])
      \<and> td_waiting td (td_age (Suc r)) (td_heard (Suc r) W P) ?q)
    \<and> (r = 255 \<longrightarrow> rx_bits ?q = [] \<and> td_waiting td 17 W ?q)"
  proof cases
    case bit
    then have W: "length W = 14" "r < 238" using assms(3) by auto
    have rx: "rx_bits q = take r (td_frames W)" using assms(2) bit by simp
    have "kr_word q \<noteq> None \<or> \<not> b" using rx_next [OF assms(1) rx bit] bit b by simp
    from td_deserialize_bits [OF assms(1) this, of td]
    show ?thesis using W assms(6) rx b bit
      by (simp add: take_Suc_conv_app_nth td_waiting_def td_age_def td_heard_def)
  next
    case stop
    have "rx_bits q = td_frames W" using assms(2) stop by simp
    from rx_complete [OF assms(1) this] have "kr_word q = None" "kr_cur_msg q = map (take_bit 16) W" .
    moreover have "b" "r = 238" "W \<noteq> []" "length W = 14" using stop b by auto
    ultimately show ?thesis using assms(5)
      by (simp add: td_deserialize_def rx_ok_def rx_bits_def td_waiting_def td_age_def td_heard_def)
  next
    case idle
    then have "rx_bits q = []" "b" using assms(2) b by simp_all
    then have "?q = q" using rx_empty [of q] by (simp add: td_deserialize_def)
    moreover have "239 \<le> r" using idle assms(3) by auto
    moreover have "Suc (r - 239) = r - 238" using calculation(2) by simp
    ultimately show ?thesis using assms(1,4,6) \<open>rx_bits q = []\<close> idle
      by (auto simp: td_age_def td_heard_def Suc_diff_le)
  qed
  then show "rx_ok ?q" "r < 255 \<Longrightarrow> rx_bits ?q = (if Suc r \<le> length (td_frames W) then take (Suc r) (td_frames W) else [])
      \<and> td_waiting td (td_age (Suc r)) (td_heard (Suc r) W P) ?q"
    "r = 255 \<Longrightarrow> rx_bits ?q = [] \<and> td_waiting td 17 W ?q" by blast+
qed

text \<open>The time of the sink after an edge: one edge later, or what a message says.\<close>

definition td_sink_next :: "nat \<Rightarrow> nat \<Rightarrow> int list \<Rightarrow> int list \<Rightarrow> ptp_time \<Rightarrow> ptp_time" where
  "td_sink_next td r W P t =
     (let t = fst (td_sink_advance t)
      in if td_heard r W P \<noteq> [] \<and> Suc (td_age r) = td then td_taken (map (take_bit 16) (td_heard r W P)) t else t)"

lemma td_receiving_edge:
  assumes "td_receiving r W P k" "r \<le> 255" "0 < tk_td_delay k"
    and b: "b = (if r < length (td_frames W) then td_frames W ! r else True)"
  shows "\<exists>k'. PtpTdSink_edge b k = Inr k' \<and> tk_td_delay k' = tk_td_delay k
    \<and> tk_time k' = td_sink_next (tk_td_delay k) r W P (tk_time k)
    \<and> (r < 255 \<longrightarrow> td_receiving (Suc r) W P k')
    \<and> (r = 255 \<longrightarrow> length W' = 14 \<longrightarrow> td_receiving 0 W' W k')"
proof -
  define td where "td = tk_td_delay k"
  obtain q where q: "tk_run k = Some q" "rx_ok q"
      "rx_bits q = (if r \<le> length (td_frames W) then take r (td_frames W) else [])"
      "td_waiting td (td_age r) (td_heard r W P) q"
    and W: "length W = 14 \<or> W = [] \<and> r = 255" and P: "length P = 14 \<or> P = []"
    using assms(1) by (auto simp: td_receiving_def td_def)
  have M: "length (td_heard r W P) = 14 \<or> td_heard r W P = []" using W P by (auto simp: td_heard_def)
  have t: "tk_time (td_sink_time k) = fst (td_sink_advance (tk_time k))" "tk_td_delay (td_sink_time k) = td"
    by (simp_all add: td_sink_time_def td_def split: prod.split)
  from td_sink_process_waiting [OF q(4) M, of "td_sink_time k"]
  obtain q' k' where p: "td_sink_process q (td_sink_time k) = Inr (q', k')"
      "tk_time k' = td_sink_next td r W P (tk_time k)" "tk_td_delay k' = td"
      "kr_cur_msg q' = kr_cur_msg q" "kr_word q' = kr_word q" "kr_bit_index q' = kr_bit_index q"
      "td_waiting td (Suc (td_age r)) (td_heard r W P) q'"
    unfolding t td_sink_next_def Let_def by blast
  note rx = rx_bits_cong [OF p(4-6)]
  have ok: "rx_ok q'" "rx_bits q' = (if r \<le> length (td_frames W) then take r (td_frames W) else [])" "0 < td"
    using rx q(2,3) assms(3) by (simp_all add: td_def)
  note d = td_deserialize_step [OF ok(1,2) W assms(2) ok(3) p(7) b]
  let ?k = "k'\<lparr>tk_run := Some (td_deserialize td b q')\<rparr>"
  have "PtpTdSink_edge b k = Inr ?k" using q(1) p(1,3) by (simp add: PtpTdSink_edge_def)
  moreover have "tk_td_delay ?k = td" "tk_time ?k = td_sink_next td r W P (tk_time k)" using p by simp_all
  moreover have "td_receiving (Suc r) W P ?k" if "r < 255"
    unfolding td_receiving_def using d(1) d(2) [OF that] W P that p(3) by simp
  moreover have "td_receiving 0 W' W ?k" if "r = 255" "length W' = 14"
    unfolding td_receiving_def using d(1) d(3) [OF that(1)] W P that p(3) by (auto simp: td_age_def td_heard_def)
  ultimately show ?thesis unfolding td_def by blast
qed

end
