(* ===== verification/Ptp_Td_Lock.thy ===== *)
theory Ptp_Td_Lock
  imports Ptp_Td_Link
begin

text \<open>
  The times of a \<open>PtpTdSource\<close> and a \<open>PtpTdSink\<close>: how fast they run, what a message carries, and that the sink
  takes over the time of the source within five messages after the last call of a setter.
\<close>

section \<open>How fast a time runs\<close>

abbreviation td_adv :: "ptp_time \<Rightarrow> ptp_time" where
  "td_adv t \<equiv> fst (td_source_advance t)"

lemma td_sink_advance_eq: "td_sink_advance = td_source_advance"
  by (rule ext) (simp add: td_sink_advance_def td_source_advance_def)

text \<open>The sum of time and period in fractions, and the edge on which the drift is added.\<close>

definition td_fraction :: "ptp_time \<Rightarrow> int" where
  "td_fraction t =
     td_fns t + (td_period_ns t * 2 ^ 32 + td_period_fns t)
       + (if td_drift_denom t \<noteq> 0 \<and> td_drift_cnt t \<le> 0 then td_drift_num t else 0)"

lemma and_48: "(x :: int) AND 0xffffffffffff = x mod 2 ^ 48"
  using and_mask_int [of x 48] by simp

lemma td_adv_simps:
  "td_fns (td_adv t) = td_fraction t mod 2 ^ 32"
  "td_rel_ns (td_adv t) = (td_rel_ns t + td_fraction t div 2 ^ 32) mod 2 ^ 48"
  "td_tod_ns (td_adv t) =
     (let ns = td_tod_ns t + td_fraction t div 2 ^ 32 in if 1000000000 \<le> ns then ns - 1000000000 else ns)"
  "td_tod_s (td_adv t) =
     (if 1000000000 \<le> td_tod_ns t + td_fraction t div 2 ^ 32 then td_tod_s t + 1 else td_tod_s t)"
  "td_drift_cnt (td_adv t) =
     (if td_drift_denom t = 0 then td_drift_cnt t
      else if 0 < td_drift_cnt t then td_drift_cnt t - 1 else td_drift_denom t - 1)"
  "td_period_ns (td_adv t) = td_period_ns t" "td_period_fns (td_adv t) = td_period_fns t"
  "td_drift_num (td_adv t) = td_drift_num t" "td_drift_denom (td_adv t) = td_drift_denom t"
  by (simp_all add: td_source_advance_def td_fraction_def Let_def bits_arith and_48 split: prod.splits)

text \<open>The ranges the attributes are sent in.\<close>

definition td_time_ok :: "ptp_time \<Rightarrow> bool" where
  "td_time_ok t \<longleftrightarrow>
     0 \<le> td_fns t \<and> td_fns t < 2 ^ 32 \<and> 0 \<le> td_rel_ns t \<and> td_rel_ns t < 2 ^ 48
     \<and> 0 \<le> td_tod_ns t \<and> td_tod_ns t < 1000000000 \<and> 0 \<le> td_tod_s t
     \<and> 0 \<le> td_period_ns t \<and> td_period_ns t < 2 ^ 8 \<and> 0 \<le> td_period_fns t \<and> td_period_fns t < 2 ^ 32
     \<and> 0 \<le> td_drift_num t \<and> td_drift_num t < 2 ^ 16 \<and> 0 \<le> td_drift_denom t \<and> td_drift_denom t < 2 ^ 16
     \<and> 0 \<le> td_drift_cnt t \<and> td_drift_cnt t < 2 ^ 16"

lemma td_fraction_bounds:
  assumes "td_time_ok t"
  shows "0 \<le> td_fraction t" "td_fraction t div 2 ^ 32 \<le> 257"
proof -
  show "0 \<le> td_fraction t" using assms by (simp add: td_time_ok_def td_fraction_def)
  have "td_fraction t < 258 * 2 ^ 32" using assms by (simp add: td_time_ok_def td_fraction_def split: if_splits)
  then show "td_fraction t div 2 ^ 32 \<le> 257" by simp
qed

lemma td_adv_ok:
  assumes "td_time_ok t"
  shows "td_time_ok (td_adv t)" "td_tod_s t \<le> td_tod_s (td_adv t)" "td_tod_s (td_adv t) \<le> td_tod_s t + 1"
proof -
  have f: "0 \<le> td_fraction t div 2 ^ 32" "td_fraction t div 2 ^ 32 \<le> 257"
    using td_fraction_bounds [OF assms] by (simp_all add: pos_imp_zdiv_nonneg_iff)
  show "td_time_ok (td_adv t)"
    using assms f unfolding td_time_ok_def td_adv_simps Let_def by auto
  show "td_tod_s t \<le> td_tod_s (td_adv t)" "td_tod_s (td_adv t) \<le> td_tod_s t + 1"
    by (simp_all add: td_adv_simps)
qed

definition td_total :: "ptp_time \<Rightarrow> int" where
  "td_total t = (td_tod_s t * 1000000000 + td_tod_ns t) * 2 ^ 32 + td_fns t"

lemma td_adv_total: "td_total (td_adv t) = td_total t + (td_fraction t - td_fns t)"
proof -
  have "td_fraction t = td_fraction t div 2 ^ 32 * 2 ^ 32 + td_fraction t mod 2 ^ 32" by simp
  then show ?thesis by (simp add: td_total_def td_adv_simps Let_def algebra_simps)
qed

section \<open>What a message carries\<close>

text \<open>The part of the time that does not depend on the time of day, and what a message of each kind sets.\<close>

definition td_core :: "ptp_time \<Rightarrow> int \<times> int \<times> int \<times> int \<times> int \<times> int \<times> int" where
  "td_core t = (td_period_ns t, td_period_fns t, td_drift_num t, td_drift_denom t, td_drift_cnt t, td_fns t, td_rel_ns t)"

definition td_merge :: "int \<Rightarrow> ptp_time \<Rightarrow> ptp_time \<Rightarrow> ptp_time" where
  "td_merge i u t =
     (if i = 0 then t\<lparr>td_tod_ns := td_tod_ns u, td_tod_s := td_tod_s u\<rparr>
      else if i = 1 then t\<lparr>td_drift_num := td_drift_num u, td_drift_denom := td_drift_denom u, td_drift_cnt := td_drift_cnt u\<rparr>
      else t)
     \<lparr>td_fns := td_fns u, td_rel_ns := td_rel_ns u, td_period_fns := td_period_fns u, td_period_ns := td_period_ns u\<rparr>"

lemma td_core_adv: "td_core t = td_core u \<Longrightarrow> td_core (td_adv t) = td_core (td_adv u)"
  by (simp add: td_core_def td_adv_simps td_fraction_def)

lemma td_core_merge: "i = 1 \<or> td_core t = td_core u \<Longrightarrow> td_core (td_merge i u t) = td_core u"
  by (auto simp: td_core_def td_merge_def)

lemma td_merge_tod: "td_core t = td_core u \<Longrightarrow> td_merge 0 u t = u"
  by (cases t; cases u) (simp add: td_core_def td_merge_def)

lemma td_merge_same: "td_merge i u u = u"
  by (cases u) (simp add: td_merge_def)

lemma take_low: "take_bit 16 (x AND 0xffff :: int) = x mod 65536"
  by (simp add: bits_arith take_bit_eq_mod)

lemma join_words:
  fixes x :: int
  assumes "0 \<le> x"
  shows "x < 2 ^ 32 \<Longrightarrow> shl (x div 65536 mod 65536) 16 OR x mod 65536 = x"
    and "x < 2 ^ 48 \<Longrightarrow> shl (x div 4294967296 mod 65536) 32 OR shl (x div 65536 mod 65536) 16 OR x mod 65536 = x"
    and "x < 2 ^ 30 \<Longrightarrow> shl (x div 65536 mod 16384) 16 OR x mod 65536 = x"
proof -
  have low: "shl a 16 OR x mod 65536 = a * 65536 + x mod 65536" for a
    using or_field [of "x mod 65536" 16 a] by simp
  show "x < 2 ^ 32 \<Longrightarrow> shl (x div 65536 mod 65536) 16 OR x mod 65536 = x"
    and "x < 2 ^ 30 \<Longrightarrow> shl (x div 65536 mod 16384) 16 OR x mod 65536 = x"
    using assms unfolding low by (simp_all add: mod_pos_pos_trivial div_less_iff_less_mult pos_imp_zdiv_nonneg_iff)
  assume "x < 2 ^ 48"
  have mid: "x div 65536 mod 65536 * 65536 + x mod 65536 = x mod 4294967296"
    using zmod_zmult2_eq [of 65536 x 65536] by (simp add: mult.commute)
  have "shl a 32 OR x mod 4294967296 = a * 4294967296 + x mod 4294967296" for a
    using or_field [of "x mod 4294967296" 32 a] by simp
  then show "shl (x div 4294967296 mod 65536) 32 OR shl (x div 65536 mod 65536) 16 OR x mod 65536 = x"
    using assms \<open>x < 2 ^ 48\<close> unfolding low mid
    by (simp add: mod_pos_pos_trivial div_less_iff_less_mult pos_imp_zdiv_nonneg_iff)
qed


lemma ctrl_low:
  assumes "i \<in> {0, 1, 2}"
  shows "take_bit 16 (td_ctrl_word i s) AND 0xf = i"
  using assms by (cases "ts_rel_updated s"; cases "td_tod_s (ts_time s) AND 1 \<noteq> 0") (auto simp: td_ctrl_word_def)

lemma flag_word:
  "take_bit 16 ((x AND 0x3fff) OR (if b then 0x8000 else 0)) AND 0x3fff = (x :: int) mod 16384"
proof -
  have "(x AND 0x3fff) OR 0x8000 = 32768 + x mod 16384"
    using or_field [of "x mod 16384" 15 1] by (simp add: bits_arith or.commute)
  moreover have "y mod 65536 mod 16384 = y mod 16384" for y :: int by (rule mod_mod_cancel) simp
  moreover have "(32768 + x mod 16384) mod 16384 = x mod 16384"
    using mod_mult_self3 [of 2 16384 "x mod 16384"] by simp
  ultimately show ?thesis by (simp add: take_bit_eq_mod bits_arith)
qed

lemma td_taken_words:
  "td_taken [w0, w1, w2, w3, w4, w5, w6, w7, w8, w9, w10, w11, w12, w13] t =
     (let t = (if w0 AND 0xf = 0 then t\<lparr>td_tod_ns := shl (w2 AND 0x3fff) 16 OR w1, td_tod_s := shl w5 32 OR shl w4 16 OR w3\<rparr>
               else if w0 AND 0xf = 1 then t\<lparr>td_drift_num := w3, td_drift_denom := w4, td_drift_cnt := w5\<rparr> else t)
      in t\<lparr>td_fns := shl w7 16 OR w6, td_rel_ns := shl w10 32 OR shl w9 16 OR w8,
           td_period_fns := shl w12 16 OR w11, td_period_ns := w13 AND 0xff\<rparr>)"
  by (simp add: td_taken_def Let_def)

lemma td_taken_message:
  assumes i: "i \<in> {0, 1, 2}" and ok: "td_time_ok (ts_time s)" and "td_tod_s (ts_time s) < 2 ^ 48"
  shows "td_taken (map (take_bit 16) (td_message i s)) t = td_merge i (ts_time s) t"
proof -
  define u where "u = ts_time s"
  have u: "0 \<le> td_fns u" "td_fns u < 2 ^ 32" "0 \<le> td_rel_ns u" "td_rel_ns u < 2 ^ 48" "0 \<le> td_tod_ns u" "td_tod_ns u < 2 ^ 30"
      "0 \<le> td_tod_s u" "td_tod_s u < 2 ^ 48" "0 \<le> td_period_fns u" "td_period_fns u < 2 ^ 32"
    using ok assms(3) by (simp_all add: td_time_ok_def u_def)
  have small: "td_period_ns u mod 256 = td_period_ns u" "take_bit 16 (td_drift_num u) = td_drift_num u"
      "take_bit 16 (td_drift_denom u) = td_drift_denom u" "take_bit 16 (td_drift_cnt u) = td_drift_cnt u"
    using ok by (simp_all add: td_time_ok_def u_def mod_pos_pos_trivial take_bit_int_eq_self)
  have ns: "take_bit 16 (td_period_ns u AND 0xff) AND 0xff = td_period_ns u"
    using small(1) ok by (simp add: bits_arith take_bit_eq_mod td_time_ok_def u_def)
  have ctrl: "take_bit 16 (td_ctrl_word i s) AND 0xf = i" by (rule ctrl_low [OF i])
  have pow: "2 ^ 16 = (65536 :: int)" "2 ^ 32 = (4294967296 :: int)" by simp_all
  have join: "shl (td_fns u div 2 ^ 16 mod 65536) 16 OR td_fns u mod 65536 = td_fns u"
      "shl (td_rel_ns u div 2 ^ 32 mod 65536) 32 OR shl (td_rel_ns u div 2 ^ 16 mod 65536) 16 OR td_rel_ns u mod 65536 = td_rel_ns u"
      "shl (td_tod_s u div 2 ^ 32 mod 65536) 32 OR shl (td_tod_s u div 2 ^ 16 mod 65536) 16 OR td_tod_s u mod 65536 = td_tod_s u"
      "shl (td_tod_ns u div 2 ^ 16 mod 16384) 16 OR td_tod_ns u mod 65536 = td_tod_ns u"
      "shl (td_period_fns u div 2 ^ 16 mod 65536) 16 OR td_period_fns u mod 65536 = td_period_fns u"
    unfolding pow using join_words u by blast+
  note words = td_message_def td_index_words_def td_common_words_def Let_def u_def [symmetric] list.map append.simps
    td_taken_words take_low shr_arith join small ns ctrl flag_word td_merge_def
  have "td_taken (map (take_bit 16) (td_message i s)) t = td_merge i u t"
  proof -
    consider "i = 0" | "i = 1" | "i = 2" using i by blast
    then show ?thesis
    proof cases
      case 1
      with ctrl have c: "take_bit 16 (td_ctrl_word 0 s) AND 0xf = 0" by simp
      show ?thesis unfolding 1 by (simp only: words c simp_thms if_True)
    next
      case 2
      with ctrl have c: "take_bit 16 (td_ctrl_word 1 s) AND 0xf = 1" by simp
      show ?thesis unfolding 2 by (simp only: words c simp_thms if_True if_False one_neq_zero)
    next
      case 3
      with ctrl have c: "take_bit 16 (td_ctrl_word 2 s) AND 0xf = 2" by simp
      have n: "(2 :: int) \<noteq> 0" "(2 :: int) \<noteq> 1" by simp_all
      show ?thesis unfolding 3 by (simp only: words c n simp_thms if_True if_False)
    qed
  qed
  then show ?thesis by (simp add: u_def)
qed


section \<open>The link at rest\<close>

text \<open>\<open>n\<close> edges after the last call, which found the link \<open>r0\<close> edges into message \<open>W0\<close>.\<close>

definition td_after :: "td_source \<Rightarrow> nat \<Rightarrow> td_source" where
  "td_after s n = td_source_run (replicate n Edge) s"

definition td_index_at :: "int \<Rightarrow> nat \<Rightarrow> int" where
  "td_index_at i b = (td_next_index ^^ b) i"

definition td_sent :: "td_source \<Rightarrow> nat \<Rightarrow> int \<Rightarrow> int list \<Rightarrow> int list \<Rightarrow> nat \<Rightarrow> int list" where
  "td_sent s r0 i W0 P0 b =
     (if b = 0 then P0 else if b = 1 then W0
      else td_message (td_index_at i (b - 2)) (td_built (td_after s (256 * (b - 1) - r0 - 1))))"

lemma td_after_simps [simp]: "td_after s 0 = s" "td_after s (Suc n) = PtpTdSource_edge (td_after s n)"
proof -
  have "replicate (Suc n) Edge = replicate n Edge @ [Edge]" by (simp add: replicate_append_same)
  then show "td_after s (Suc n) = PtpTdSource_edge (td_after s n)"
    unfolding td_after_def by (simp only: td_source_run_append td_source_run.simps td_source_event.simps)
qed (simp add: td_after_def)

lemma td_index_at_range: "i \<in> {0, 1, 2} \<Longrightarrow> td_index_at i b \<in> {0, 1, 2}"
  by (induction b) (auto simp: td_index_at_def td_next_index_def)

lemma td_index_at_Suc: "td_index_at i (Suc b) = td_next_index (td_index_at i b)"
  by (simp add: td_index_at_def)

text \<open>The invariant of the link, and the time of the sink edge by edge.\<close>

definition td_linked :: "nat \<Rightarrow> int \<Rightarrow> int list \<Rightarrow> int list \<Rightarrow> td_source \<Rightarrow> nat \<Rightarrow> td_source \<times> td_sink \<Rightarrow> bool" where
  "td_linked r0 i W0 P0 s n x \<longleftrightarrow>
     (let a = r0 + n; W = td_sent s r0 i W0 P0
      in fst x = td_after s n
       \<and> td_sending (a mod 256) (W (a div 256 + 1)) (td_index_at i (a div 256)) (fst x)
       \<and> td_receiving (a mod 256) (W (a div 256 + 1)) (W (a div 256)) (snd x))"

lemma block_position: "a = 256 * b + r \<Longrightarrow> r < 256 \<Longrightarrow> a mod 256 = r \<and> a div 256 = (b :: nat)"
  by simp

lemma td_linked_edge:
  assumes "td_linked r0 i W0 P0 s n (s1, k)" "r0 \<le> 255" "i \<in> {0, 1, 2}" "0 < tk_td_delay k"
  shows "\<exists>k'. PtpTdSink_edge (ts_data s1) k = Inr k' \<and> td_linked r0 i W0 P0 s (Suc n) (PtpTdSource_edge s1, k')
    \<and> tk_td_delay k' = tk_td_delay k
    \<and> tk_time k' = td_sink_next (tk_td_delay k) ((r0 + n) mod 256) (td_sent s r0 i W0 P0 ((r0 + n) div 256 + 1))
        (td_sent s r0 i W0 P0 ((r0 + n) div 256)) (tk_time k)
    \<and> ts_time (PtpTdSource_edge s1) = td_adv (ts_time s1)
    \<and> ts_delayed (PtpTdSource_edge s1) = ts_delayed (td_source_delay s1)"
proof -
  define r b W where "r = (r0 + n) mod 256" and "b = (r0 + n) div 256" and "W = td_sent s r0 i W0 P0"
  have s1: "s1 = td_after s n" and send: "td_sending r (W (b + 1)) (td_index_at i b) s1"
    and recv: "td_receiving r (W (b + 1)) (W b) k"
    using assms(1) unfolding td_linked_def Let_def fst_conv snd_conv r_def b_def W_def by blast+
  have r: "r \<le> 255" and split: "r0 + n = 256 * b + r" by (simp_all add: r_def b_def)
  have data: "ts_data s1 = (if r < length (td_frames (W (b + 1))) then td_frames (W (b + 1)) ! r else True)"
    using send by (auto simp: td_sending_def)
  note edge = td_receiving_edge [OF recv r assms(4) data]
  have "\<exists>k'. PtpTdSink_edge (ts_data s1) k = Inr k' \<and> td_linked r0 i W0 P0 s (Suc n) (PtpTdSource_edge s1, k')
    \<and> tk_td_delay k' = tk_td_delay k \<and> tk_time k' = td_sink_next (tk_td_delay k) r (W (b + 1)) (W b) (tk_time k)
    \<and> ts_time (PtpTdSource_edge s1) = td_adv (ts_time s1)
    \<and> ts_delayed (PtpTdSource_edge s1) = ts_delayed (td_source_delay s1)"
  proof (cases "r < 255")
    case True
    have new: "(r0 + Suc n) mod 256 = Suc r" "(r0 + Suc n) div 256 = b"
      using block_position [of "r0 + Suc n" b "Suc r"] split True by simp_all
    from edge [of "[]"] True obtain k' where k': "PtpTdSink_edge (ts_data s1) k = Inr k'" "tk_td_delay k' = tk_td_delay k"
        "tk_time k' = td_sink_next (tk_td_delay k) r (W (b + 1)) (W b) (tk_time k)" "td_receiving (Suc r) (W (b + 1)) (W b) k'"
      by blast
    have "td_linked r0 i W0 P0 s (Suc n) (PtpTdSource_edge s1, k')"
      unfolding td_linked_def Let_def new W_def [symmetric] using td_sending_edge(1) [OF send True] k'(4) s1 by simp
    then show ?thesis using k' td_sending_edge(2,3) [OF send True] by blast
  next
    case False
    then have end_r: "r = 255" using r by simp
    have new: "(r0 + Suc n) mod 256 = 0" "(r0 + Suc n) div 256 = b + 1"
      using block_position [of "r0 + Suc n" "b + 1" 0] split end_r by simp_all
    have idx: "td_index_at i b \<in> {0, 1, 2}" by (rule td_index_at_range [OF assms(3)])
    have "256 * Suc b - r0 - 1 = n" using split end_r by simp
    then have W: "W (b + 2) = td_message (td_index_at i b) (td_built s1)" by (simp add: W_def td_sent_def s1)
    note build = td_sending_build [OF send [unfolded end_r] idx, folded W]
    have "length (W (b + 2)) = 14" using W length_td_message [OF idx] by simp
    with edge [of "W (b + 2)"] end_r obtain k' where "PtpTdSink_edge (ts_data s1) k = Inr k'" "tk_td_delay k' = tk_td_delay k"
        "tk_time k' = td_sink_next (tk_td_delay k) r (W (b + 1)) (W b) (tk_time k)" "td_receiving 0 (W (b + 2)) (W (b + 1)) k'"
      by blast
    moreover have "td_linked r0 i W0 P0 s (Suc n) (PtpTdSource_edge s1, k')"
      unfolding td_linked_def Let_def new W_def [symmetric] using build(1) calculation(4) s1
      by (simp add: td_index_at_Suc)
    ultimately show ?thesis using build(2,3) by blast
  qed
  then show ?thesis unfolding r_def b_def W_def .
qed

lemma td_linked_run:
  assumes "td_linked r0 i W0 P0 s 0 (s, k0)" "r0 \<le> 255" "i \<in> {0, 1, 2}" "0 < tk_td_delay k0"
  obtains k where "\<And>n. ptp_td_run (replicate n Edge) (s, k0) = Inr (td_after s n, k n)"
    and "\<And>n. tk_time (k (Suc n)) = td_sink_next (tk_td_delay k0) ((r0 + n) mod 256) (td_sent s r0 i W0 P0 ((r0 + n) div 256 + 1))
        (td_sent s r0 i W0 P0 ((r0 + n) div 256)) (tk_time (k n))"
    and "\<And>n. ts_time (td_after s n) = (td_adv ^^ n) (ts_time s)"
    and "\<And>n. ts_delayed (td_after s (Suc n)) = ts_delayed (td_source_delay (td_after s n))"
proof -
  have run: "\<exists>k. ptp_td_run (replicate n Edge) (s, k0) = Inr (td_after s n, k)
    \<and> td_linked r0 i W0 P0 s n (td_after s n, k) \<and> tk_td_delay k = tk_td_delay k0" for n
  proof (induction n)
    case 0
    then show ?case using assms(1) by (simp add: td_linked_def)
  next
    case (Suc n)
    then obtain k where k: "ptp_td_run (replicate n Edge) (s, k0) = Inr (td_after s n, k)"
      "td_linked r0 i W0 P0 s n (td_after s n, k)" "tk_td_delay k = tk_td_delay k0" by blast
    from td_linked_edge [OF k(2) assms(2,3)] obtain k' where k': "PtpTdSink_edge (ts_data (td_after s n)) k = Inr k'"
      "td_linked r0 i W0 P0 s (Suc n) (PtpTdSource_edge (td_after s n), k')" "tk_td_delay k' = tk_td_delay k"
      using k(3) assms(4) by auto
    have "replicate (Suc n) Edge = replicate n Edge @ [Edge]" by (simp add: replicate_append_same)
    then have "ptp_td_run (replicate (Suc n) Edge) (s, k0) = Inr (PtpTdSource_edge (td_after s n), k')"
      using k(1) k'(1) by (simp only: ptp_td_run_append) simp
    then show ?case using k' k(3) by auto
  qed
  define k where "k n = (SOME k. ptp_td_run (replicate n Edge) (s, k0) = Inr (td_after s n, k)
    \<and> td_linked r0 i W0 P0 s n (td_after s n, k) \<and> tk_td_delay k = tk_td_delay k0)" for n
  have k: "ptp_td_run (replicate n Edge) (s, k0) = Inr (td_after s n, k n)"
    "td_linked r0 i W0 P0 s n (td_after s n, k n)" "tk_td_delay (k n) = tk_td_delay k0" for n
    using someI_ex [OF run [of n]] by (simp_all add: k_def)
  have edge: "PtpTdSink_edge (ts_data (td_after s n)) (k n) = Inr (k (Suc n))" for n
  proof -
    obtain k' where k': "PtpTdSink_edge (ts_data (td_after s n)) (k n) = Inr k'"
      using td_linked_edge [OF k(2) assms(2,3)] k(3) assms(4) by fastforce
    have "replicate (Suc n) Edge = replicate n Edge @ [Edge]" by (simp add: replicate_append_same)
    then have "ptp_td_run (replicate (Suc n) Edge) (s, k0) = Inr (PtpTdSource_edge (td_after s n), k')"
      using k(1) k' by (simp only: ptp_td_run_append) simp
    then show ?thesis using k(1) [of "Suc n"] k' by simp
  qed
  note step = td_linked_edge [OF k(2) assms(2,3), unfolded k(3), OF assms(4)]
  have "tk_time (k (Suc n)) = td_sink_next (tk_td_delay k0) ((r0 + n) mod 256) (td_sent s r0 i W0 P0 ((r0 + n) div 256 + 1))
        (td_sent s r0 i W0 P0 ((r0 + n) div 256)) (tk_time (k n))"
    and "ts_delayed (td_after s (Suc n)) = ts_delayed (td_source_delay (td_after s n))"
    and adv: "ts_time (td_after s (Suc n)) = td_adv (ts_time (td_after s n))" for n
    using step [of n] edge [of n] by auto
  moreover have "ts_time (td_after s n) = (td_adv ^^ n) (ts_time s)" for n
    by (induction n) (use adv in simp_all)
  ultimately show ?thesis using that k(1) by blast
qed


text \<open>The edges on which the sink takes a message over.\<close>

lemma td_sink_next_taken:
  assumes "Suc a = 256 * (b + 1) + 239 + td" "0 < td" "td \<le> 256" "W (b + 2) \<noteq> []"
  shows "td_sink_next td (a mod 256) (W (a div 256 + 1)) (W (a div 256)) t
    = td_taken (map (take_bit 16) (W (b + 2))) (td_adv t)"
proof (cases "td \<le> 17")
  case True
  have a: "a = 256 * (b + 1) + (238 + td)" "238 + td < 256" using assms(1) True by simp_all
  have pos: "a mod 256 = 238 + td" "a div 256 = b + 1" using block_position [OF a] by simp_all
  have "\<not> 238 + td < 239" "Suc (238 + td - 239) = td" using assms(2) by simp_all
  then show ?thesis using assms(4)
    by (simp add: pos td_sink_next_def td_heard_def td_age_def td_sink_advance_eq Let_def)
next
  case False
  then have a: "a = 256 * (b + 2) + (td - 18)" "td - 18 < 256" using assms(1,3) by simp_all
  have pos: "a mod 256 = td - 18" "a div 256 = b + 2" using block_position [OF a] by simp_all
  have "td - 18 < 239" "Suc (td - 18 + 17) = td" using False assms(3) by simp_all
  then show ?thesis using assms(4)
    by (simp add: pos td_sink_next_def td_heard_def td_age_def td_sink_advance_eq Let_def)
qed

lemma td_sink_next_adv:
  assumes "256 + 239 + td \<le> Suc a" "\<And>b. Suc a \<noteq> 256 * (b + 1) + 239 + td"
  shows "td_sink_next td (a mod 256) (W (a div 256 + 1)) (W (a div 256)) t = td_adv t"
proof -
  define r q where "r = a mod 256" and "q = a div 256"
  have a: "a = 256 * q + r" "r < 256" by (simp_all add: r_def q_def)
  have "Suc (td_age r) \<noteq> td"
  proof
    assume age: "Suc (td_age r) = td"
    show False
    proof (cases "r < 239")
      case True
      then have "td = r + 18" using age by (simp add: td_age_def)
      then have "2 \<le> q" using assms(1) a by linarith
      then show False using assms(2) [of "q - 2"] a \<open>td = r + 18\<close> by simp
    next
      case False
      then have td: "r = 238 + td" using age by (simp add: td_age_def)
      then have "1 \<le> q" using assms(1) a by linarith
      then show False using assms(2) [of "q - 1"] a td by simp
    qed
  qed
  then show ?thesis by (simp add: td_sink_next_def td_sink_advance_eq Let_def r_def)
qed

text \<open>A time that goes on by itself and takes over another one, some edges old, by and by.\<close>

lemma td_times_lock:
  assumes take_at: "\<And>m b. Suc m = N b \<Longrightarrow> Suc m \<le> n \<Longrightarrow> K (Suc m) = td_merge (idx b) (T (Suc m - L)) (td_adv (K m))"
    and off: "\<And>m. N 0 \<le> Suc m \<Longrightarrow> (\<And>b. Suc m \<noteq> N b) \<Longrightarrow> K (Suc m) = td_adv (K m)"
    and lag: "\<And>m. L \<le> m \<Longrightarrow> T (Suc m - L) = td_adv (T (m - L))"
    and kinds: "idx b = 1" "idx (b + 2) = 0"
    and N_mono: "N 0 \<le> N b" "N b < N (b + 2)" "N (b + 2) \<le> n" "L \<le> N b" "\<And>b. 0 < N b"
  shows "K n = T (n - L)"
proof -
  have step: "P (K (Suc m)) (T (Suc m - L))"
    if "N 0 \<le> m" "Suc m \<le> n" and adv: "P (td_adv (K m)) (T (Suc m - L))"
      and merge: "\<And>j t u. P t u \<Longrightarrow> P (td_merge j u t) u" for m and P :: "ptp_time \<Rightarrow> ptp_time \<Rightarrow> bool"
  proof (cases "\<exists>b. Suc m = N b")
    case True
    then obtain b where b: "Suc m = N b" by blast
    from merge [OF adv] show ?thesis unfolding take_at [OF b that(2)] .
  next
    case False
    then show ?thesis using off [of m] that by simp
  qed
  have N_Suc: "\<exists>m. N b' = Suc m" for b' using N_mono(5) [of b'] by (simp add: gr0_conv_Suc)
  have core: "td_core (K m) = td_core (T (m - L))" if "N b \<le> m" "m \<le> n" for m
    using that
  proof (induction m rule: nat_induct_at_least)
    case base
    obtain m where "N b = Suc m" using N_Suc by blast
    then show ?case using take_at [of m b] kinds(1) base td_core_merge [of 1] by simp
  next
    case (Suc m)
    show ?case
    proof (rule step [where P = "\<lambda>t u. td_core t = td_core u"])
      have "td_core (K m) = td_core (T (m - L))" using Suc by simp
      from td_core_adv [OF this] show "td_core (td_adv (K m)) = td_core (T (Suc m - L))"
        using lag [of m] Suc.hyps N_mono(4) by simp
      show "td_core (td_merge j u t) = td_core u" if "td_core t = td_core u" for j t u using td_core_merge that by blast
    qed (use Suc.hyps Suc.prems N_mono(1) in simp_all)
  qed
  have "K m = T (m - L)" if "N (b + 2) \<le> m" "m \<le> n" for m
    using that
  proof (induction m rule: nat_induct_at_least)
    case base
    obtain m where m: "N (b + 2) = Suc m" using N_Suc by blast
    have "N b \<le> m" "m \<le> n" "L \<le> m" using m N_mono(2,4) base by simp_all
    then have "td_core (K m) = td_core (T (m - L))" using core by blast
    from td_core_adv [OF this] have "td_core (td_adv (K m)) = td_core (T (Suc m - L))"
      using lag [OF \<open>L \<le> m\<close>] by simp
    from td_merge_tod [OF this] show ?case using take_at [of m "b + 2"] kinds(2) m base by simp
  next
    case (Suc m)
    show ?case
    proof (rule step [where P = "\<lambda>t u. t = u"])
      show "td_adv (K m) = T (Suc m - L)" using Suc lag [of m] N_mono(2,4) by simp
      show "td_merge j u t = u" if "t = u" for j t u using td_merge_same that by blast
    qed (use Suc.hyps Suc.prems N_mono(1,2) in simp_all)
  qed
  from this [of n] show ?thesis using N_mono(3) by simp
qed

lemma td_locks:
  fixes k :: "nat \<Rightarrow> td_sink"
  assumes nxt: "\<And>n. tk_time (k (Suc n)) = td_sink_next td ((r0 + n) mod 256) (td_sent s r0 i W0 P0 ((r0 + n) div 256 + 1))
        (td_sent s r0 i W0 P0 ((r0 + n) div 256)) (tk_time (k n))"
    and time: "\<And>n. ts_time (td_after s n) = (td_adv ^^ n) (ts_time s)"
    and r0: "r0 \<le> 255" and i: "i \<in> {0, 1, 2}" and td: "0 < td" "td \<le> 256"
    and ok: "td_time_ok (ts_time s)" "td_tod_s (ts_time s) + int n < 2 ^ 48"
    and n: "1519 + td \<le> n"
  shows "tk_time (k n) = ts_time (td_after s (n - (239 + td)))"
proof -
  define L T N W where "L = 239 + td" and "T m = ts_time (td_after s m)"
    and "N b = 256 * (b + 1) + L - r0" and "W = td_sent s r0 i W0 P0" for m b
  have T_Suc: "T (Suc m) = td_adv (T m)" for m by (simp only: T_def time funpow.simps o_apply)
  have T_ok: "td_time_ok (T m) \<and> td_tod_s (T m) \<le> td_tod_s (ts_time s) + int m" for m
  proof (induction m)
    case (Suc m)
    then show ?case using td_adv_ok [of "T m"] by (simp add: T_Suc)
  qed (use ok(1) in \<open>simp add: T_def\<close>)
  have N: "r0 + N b = 256 * (b + 1) + L" "L \<le> N b" "0 < N b - L" for b using r0 td(1) by (simp_all add: N_def L_def)
  have W: "W (b + 2) \<noteq> []" "N b \<le> n \<Longrightarrow> td_taken (map (take_bit 16) (W (b + 2))) t = td_merge (td_index_at i b) (T (N b - L)) t" for b t
  proof -
    have idx: "td_index_at i b \<in> {0, 1, 2}" by (rule td_index_at_range [OF i])
    define s1 where "s1 = td_built (td_after s (N b - L - 1))"
    have "256 * (b + 1) - r0 - 1 = N b - L - 1" by (simp add: N_def)
    then have eq: "W (b + 2) = td_message (td_index_at i b) s1" by (simp add: W_def td_sent_def s1_def)
    show "W (b + 2) \<noteq> []" using length_td_message [OF idx, of s1] eq by auto
    assume "N b \<le> n"
    have s1: "ts_time s1 = T (N b - L)"
    proof -
      have "Suc (N b - L - 1) = N b - L" using N(3) [of b] by simp
      then have "T (N b - L) = td_adv (T (N b - L - 1))" using T_Suc [of "N b - L - 1"] by (simp only:)
      then show ?thesis by (simp add: s1_def T_def)
    qed
    have "int (N b - L) \<le> int n" using \<open>N b \<le> n\<close> by simp
    then have "td_tod_s (T (N b - L)) < 2 ^ 48" using T_ok [of "N b - L"] ok(2) by linarith
    then show "td_taken (map (take_bit 16) (W (b + 2))) t = td_merge (td_index_at i b) (T (N b - L)) t"
      using td_taken_message [OF idx, of s1 t] T_ok [of "N b - L"] unfolding eq s1 by simp
  qed
  have take_at: "tk_time (k (Suc m)) = td_merge (td_index_at i b) (T (Suc m - L)) (td_adv (tk_time (k m)))"
    if "Suc m = N b" "Suc m \<le> n" for m b
  proof -
    have "Suc (r0 + m) = 256 * (b + 1) + 239 + td" using N(1) [of b] that(1) by (simp add: L_def)
    note taken = td_sink_next_taken [OF this td, where W = W and t = "tk_time (k m)", OF W(1)]
    have "tk_time (k (Suc m)) = td_taken (map (take_bit 16) (W (b + 2))) (td_adv (tk_time (k m)))"
      unfolding nxt using taken unfolding W_def .
    also have "\<dots> = td_merge (td_index_at i b) (T (N b - L)) (td_adv (tk_time (k m)))"
      by (rule W(2)) (use that in simp)
    finally show ?thesis using that(1) by simp
  qed
  have off: "tk_time (k (Suc m)) = td_adv (tk_time (k m))" if "N 0 \<le> Suc m" "\<And>b. Suc m \<noteq> N b" for m
  proof -
    have "256 + 239 + td \<le> Suc (r0 + m)" using that(1) N(1) [of 0] by (simp add: L_def)
    moreover have "Suc (r0 + m) \<noteq> 256 * (b + 1) + 239 + td" for b
      using that(2) [of b] N(1) [of b] by (simp add: L_def)
    ultimately show ?thesis unfolding nxt by (rule td_sink_next_adv)
  qed
  have lag: "T (Suc m - L) = td_adv (T (m - L))" if "L \<le> m" for m using T_Suc [of "m - L"] that by (simp add: Suc_diff_le)
  obtain b where b: "td_index_at i b = 1" "td_index_at i (b + 2) = 0" "b \<le> 2"
  proof -
    from i consider "i = 0" | "i = 1" | "i = 2" by blast
    then show ?thesis
      by cases (rule that [of 1], simp_all add: td_index_at_def td_next_index_def eval_nat_numeral,
        rule that [of 0], simp_all add: td_index_at_def td_next_index_def eval_nat_numeral,
        rule that [of 2], simp_all add: td_index_at_def td_next_index_def eval_nat_numeral)
  qed
  have N_mono: "N 0 \<le> N b" "N b < N (b + 2)" "N (b + 2) \<le> n" "L \<le> N b" "0 < N b'" for b'
    using b(3) n r0 N(2) by (simp_all add: N_def L_def)
  have "tk_time (k n) = T (n - L)"
    by (rule td_times_lock [where N = N and idx = "td_index_at i" and b = b])
      (use take_at off lag b N_mono in simp_all)
  then show ?thesis by (simp add: T_def L_def)
qed


section \<open>From the start\<close>

definition td_source_start :: "int \<Rightarrow> int \<Rightarrow> int \<Rightarrow> int \<Rightarrow> nat \<Rightarrow> td_source" where
  "td_source_start ns fns num denom td = PtpTdSource_handle_reset False (PtpTdSource ns fns num denom td)"

definition td_sink_start :: "nat \<Rightarrow> td_sink" where
  "td_sink_start td = fst (PtpTdSink_handle_reset False (PtpTdSink td))"

definition is_reset :: "td_event \<Rightarrow> bool" where
  "is_reset e = (case e of Source_Reset b \<Rightarrow> True | _ \<Rightarrow> False)"

lemma td_linked_any:
  assumes "td_sending r W i s" "td_receiving r W P k"
  shows "td_linked r i W P s 0 (s, k)"
proof -
  have "r < 256" using assms(1) by (auto simp: td_sending_def)
  then show ?thesis using assms by (simp add: td_linked_def Let_def td_sent_def td_index_at_def)
qed

text \<open>Whatever the setters did, the framing of the messages is intact.\<close>

lemma td_run_linked:
  assumes "td_sending r W i s" "td_receiving r W P k" "r \<le> 255" "i \<in> {0, 1, 2}" "0 < tk_td_delay k" "\<not> list_ex is_reset es"
  shows "\<exists>k' r' W' P' i'. ptp_td_run es (s, k) = Inr (td_source_run es s, k') \<and> td_sending r' W' i' (td_source_run es s)
    \<and> td_receiving r' W' P' k' \<and> r' = (r + count_list es Edge) mod 256 \<and> i' \<in> {0, 1, 2} \<and> tk_td_delay k' = tk_td_delay k"
  using assms
proof (induction es arbitrary: r W P i s k)
  case (Cons e es)
  show ?case
  proof (cases e)
    case (Call c)
    then have "td_sending r W i (td_source_event e s)" using Cons.prems(1) td_sending_call by simp
    from Cons.IH [OF this Cons.prems(2-5)] show ?thesis using Cons.prems(6) Call by simp
  next
    case (Source_Reset b)
    then show ?thesis using Cons.prems(6) by (simp add: is_reset_def)
  next
    case Edge
    have link: "td_linked r i W P s 0 (s, k)" by (rule td_linked_any [OF Cons.prems(1,2)])
    from td_linked_edge [OF link Cons.prems(3-5)] obtain k' where k': "PtpTdSink_edge (ts_data s) k = Inr k'"
      "td_linked r i W P s (Suc 0) (PtpTdSource_edge s, k')" "tk_td_delay k' = tk_td_delay k" by blast
    define r' b where "r' = (r + Suc 0) mod 256" and "b = (r + Suc 0) div 256"
    have "td_sending r' (td_sent s r i W P (b + 1)) (td_index_at i b) (PtpTdSource_edge s)"
      "td_receiving r' (td_sent s r i W P (b + 1)) (td_sent s r i W P b) k'"
      using k'(2) unfolding td_linked_def Let_def fst_conv snd_conv r'_def b_def by blast+
    from Cons.IH [OF this] have "\<exists>k'' r' W' P' i'. ptp_td_run es (PtpTdSource_edge s, k') = Inr (td_source_run es (PtpTdSource_edge s), k'')
      \<and> td_sending r' W' i' (td_source_run es (PtpTdSource_edge s)) \<and> td_receiving r' W' P' k'' \<and> r' = ((r + Suc 0) mod 256 + count_list es Edge) mod 256
      \<and> i' \<in> {0, 1, 2} \<and> tk_td_delay k'' = tk_td_delay k'"
      using Cons.prems(5,6) k'(3) td_index_at_range [OF Cons.prems(4)] by (simp add: r'_def)
    moreover have "((r + Suc 0) mod 256 + count_list es Edge) mod 256 = (r + count_list (e # es) Edge) mod 256"
      using Edge by (simp add: mod_simps)
    ultimately show ?thesis using Edge k'(1,3) by simp
  qed
qed auto

lemma td_start_linked:
  "td_sending 255 [] 0 (td_source_start ns fns num denom td)" "td_receiving 255 [] [] (td_sink_start td)"
  by (simp_all add: td_source_start_def td_sink_start_def PtpTdSource_handle_reset_def PtpTdSink_handle_reset_def
      PtpTdSource_def PtpTdSink_def PtpTdSource_set_drift_def PtpTdSource_set_period_def td_source_vars0_def td_sink_vars0_def
      td_sending_def td_receiving_def tx_ok_def tx_bits_def rx_ok_def rx_bits_def td_waiting_def td_heard_def)

lemma td_source_run_delay: "ts_td_delay (td_source_run es s) = ts_td_delay s"
  by (induction es arbitrary: s) simp_all

lemma td_start_delay [simp]: "ts_td_delay (td_source_start ns fns num denom td) = td" "tk_td_delay (td_sink_start td) = td"
  by (simp_all add: td_source_start_def td_sink_start_def PtpTdSource_handle_reset_def PtpTdSink_handle_reset_def
      PtpTdSource_def PtpTdSink_def PtpTdSource_set_drift_def PtpTdSource_set_period_def)

text \<open>The list of delayed timestamps begins with the one \<open>14 * 17 + td_delay\<close> edges ago.\<close>

definition td_snap :: "ptp_time \<Rightarrow> int \<times> int \<times> int \<times> int" where
  "td_snap t = (td_tod_s t, td_tod_ns t, td_rel_ns t, td_fns t)"

lemma td_source_delay_delayed:
  "ts_delayed (td_source_delay s) =
    drop (length (ts_delayed s @ [td_snap (ts_time s)]) - (14 * 17 + ts_td_delay s)) (ts_delayed s @ [td_snap (ts_time s)])"
  by (simp add: td_source_delay_def td_snap_def Let_def)

lemma keep_newest:
  "drop (length (drop (length l - d) l @ [x]) - d) (drop (length l - d) l @ [x]) = drop (length (l @ [x]) - d) (l @ [x])"
  by (cases "length l \<le> d") (simp_all add: Suc_diff_le)

lemma td_delayed:
  assumes "\<And>n. ts_delayed (td_after s (Suc n)) = ts_delayed (td_source_delay (td_after s n))"
  shows "ts_delayed (td_after s (Suc n)) =
    (let l = ts_delayed s @ map (\<lambda>m. td_snap (ts_time (td_after s m))) [0..<Suc n]
     in drop (length l - (14 * 17 + ts_td_delay s)) l)"
proof (induction n)
  case 0
  then show ?case unfolding assms by (simp add: td_source_delay_def td_snap_def Let_def)
next
  case (Suc n)
  have delay: "ts_td_delay (td_after s (Suc n)) = ts_td_delay s" unfolding td_after_def by (rule td_source_run_delay)
  define x where "x = td_snap (ts_time (td_after s (Suc n)))"
  define l where "l = ts_delayed s @ map (\<lambda>m. td_snap (ts_time (td_after s m))) [0..<Suc n]"
  define d where "d = 14 * 17 + ts_td_delay s"
  have "ts_delayed s @ map (\<lambda>m. td_snap (ts_time (td_after s m))) [0..<Suc (Suc n)] = l @ [x]"
    by (simp only: l_def x_def upt_Suc le0 if_True map_append list.map append_assoc)
  moreover have "ts_delayed (td_after s (Suc (Suc n))) =
      drop (length (drop (length l - d) l @ [x]) - d) (drop (length l - d) l @ [x])"
  proof -
    have old: "ts_delayed (td_after s (Suc n)) = drop (length l - d) l" using Suc unfolding Let_def l_def d_def .
    show ?thesis unfolding assms [of "Suc n"] td_source_delay_delayed old delay d_def [symmetric] x_def ..
  qed
  ultimately show ?case unfolding Let_def d_def [symmetric] using keep_newest by metis
qed


lemma td_delayed_hd:
  assumes "\<And>n. ts_delayed (td_after s (Suc n)) = ts_delayed (td_source_delay (td_after s n))"
    and "238 + ts_td_delay s \<le> Suc n"
  shows "nthR (ts_delayed (td_after s (Suc n))) 0 = Inr (td_snap (ts_time (td_after s (Suc n - (238 + ts_td_delay s)))))"
proof -
  define f m d where "f j = td_snap (ts_time (td_after s j))" and "m = Suc n" and "d = 238 + ts_td_delay s" for j
  have "d \<le> m" "0 < d" using assms(2) by (simp_all add: m_def d_def)
  then have "drop (length (ts_delayed s @ map f [0..<m]) - d) (ts_delayed s @ map f [0..<m]) = map f [m - d..<m]"
    by (simp add: drop_map)
  then have "ts_delayed (td_after s m) = map f [m - d..<m]"
    using td_delayed [OF assms(1), of n] unfolding Let_def f_def m_def d_def by simp
  moreover have "[m - d..<m] = (m - d) # [Suc (m - d)..<m]" using \<open>d \<le> m\<close> \<open>0 < d\<close> by (simp add: upt_conv_Cons)
  ultimately have "nthR (ts_delayed (td_after s m)) 0 = Inr (f (m - d))" by (simp add: nthR_def)
  then show ?thesis by (simp only: f_def m_def d_def)
qed

text \<open>
  C4: the sink locks. Whatever was set and however many edges passed, if from some moment on no setter is called, all
  attributes of the source are in the ranges of their fields and \<open>1 <= td_delay <= 256\<close>, then at every edge from
  \<open>1519 + td_delay\<close> edges later on, no exception was raised and the whole time of the sink - time of day, relative time,
  fraction, period and drift with its counter - is the one the source had \<open>14 * 17 + 1 + td_delay\<close> edges before. The sink
  then shows exactly the timestamp that \<open>get_ts_tod\<close> of the source showed one edge before.
\<close>
theorem ptp_td_sink_locks:
  assumes "\<not> list_ex is_reset es" "1 \<le> td" "td \<le> 256"
    and "td_time_ok (ts_time (td_source_run es (td_source_start ns fns num denom td)))"
    and "td_tod_s (ts_time (td_source_run es (td_source_start ns fns num denom td))) + int n < 2 ^ 48"
    and "1519 + td \<le> n"
  shows "\<exists>s k. ptp_td_run (es @ replicate n Edge) (td_source_start ns fns num denom td, td_sink_start td) = Inr (s, k)
    \<and> tk_time k = ts_time (td_source_run (es @ replicate (n - (14 * 17 + 1 + td)) Edge) (td_source_start ns fns num denom td))
    \<and> PtpTdSource_get_ts_tod (td_source_run (es @ replicate (n - 1) Edge) (td_source_start ns fns num denom td))
      = Inr (PtpTdSink_get_ts_tod k)"
proof -
  define s0 s where "s0 = td_source_start ns fns num denom td" and "s = td_source_run es s0"
  have "0 < tk_td_delay (td_sink_start td)" "(255 :: nat) \<le> 255" "(0 :: int) \<in> {0, 1, 2}" using assms(2) by simp_all
  from td_run_linked [OF td_start_linked(1) [of ns fns num denom td] td_start_linked(2) [of td] this(2,3,1) assms(1),
      folded s0_def, folded s_def]
  obtain k r W P i where es: "ptp_td_run es (s0, td_sink_start td) = Inr (s, k)"
    and link: "td_sending r W i s" "td_receiving r W P k" and "r = (255 + count_list es Edge) mod 256"
      and i: "i \<in> {0, 1, 2}" and "tk_td_delay k = tk_td_delay (td_sink_start td)"
    by blast
  then have td: "tk_td_delay k = td" and r: "r \<le> 255" by simp_all
  have "0 < tk_td_delay k" using td assms(2) by simp
  from td_linked_run [OF td_linked_any [OF link] r i this] obtain kk
    where run: "\<And>n. ptp_td_run (replicate n Edge) (s, k) = Inr (td_after s n, kk n)"
    and nxt: "\<And>n. tk_time (kk (Suc n)) = td_sink_next td ((r + n) mod 256) (td_sent s r i W P ((r + n) div 256 + 1))
        (td_sent s r i W P ((r + n) div 256)) (tk_time (kk n))"
    and time: "\<And>n. ts_time (td_after s n) = (td_adv ^^ n) (ts_time s)"
    and delayed: "\<And>n. ts_delayed (td_after s (Suc n)) = ts_delayed (td_source_delay (td_after s n))"
    unfolding td by blast
  have "0 < td" using assms(2) by simp
  from td_locks [of kk, OF nxt time r i this assms(3)] have lock: "tk_time (kk n) = ts_time (td_after s (n - (239 + td)))"
    using assms(4-6) by (simp add: s_def s0_def)
  have after: "td_source_run (es @ replicate m Edge) s0 = td_after s m" for m
    by (simp add: td_source_run_append td_after_def s_def)
  have delay: "ts_td_delay s = td" by (simp add: s_def s0_def td_source_run_delay)
  define n' where "n' = n - 2"
  then have n': "n = Suc (Suc n')" using assms(6) by simp
  have "nthR (ts_delayed (td_after s (Suc n'))) 0 = Inr (td_snap (ts_time (td_after s (Suc n' - (238 + td)))))"
    using td_delayed_hd [of s n', OF delayed] assms(6) unfolding delay n' by simp
  then have "PtpTdSource_get_ts_tod (td_after s (n - 1)) = Inr (PtpTdSink_get_ts_tod (kk n))"
    using lock unfolding n' PtpTdSource_get_ts_tod_def PtpTdSink_get_ts_tod_def by (simp add: td_snap_def)
  moreover have "ptp_td_run (es @ replicate n Edge) (s0, td_sink_start td) = Inr (td_after s n, kk n)"
    using es run [of n] by (simp add: ptp_td_run_append)
  ultimately show ?thesis using lock unfolding s0_def [symmetric] after by simp
qed


lemma ptp_td_sink_locks_witness:
  "\<exists>s k. ptp_td_run ([Call (SetTod 5 999999999 0), Edge, Call (SetDrift 2 5)] @ replicate 1551 Edge)
      (td_source_start 6 0x66666666 0 0 32, td_sink_start 32) = Inr (s, k)
    \<and> tk_time k = ts_time (td_source_run ([Call (SetTod 5 999999999 0), Edge, Call (SetDrift 2 5)] @ replicate (1551 - (14 * 17 + 1 + 32)) Edge)
        (td_source_start 6 0x66666666 0 0 32))"
proof -
  let ?es = "[Call (SetTod 5 999999999 0), Edge, Call (SetDrift 2 5)]" and ?s = "td_source_start 6 0x66666666 0 0 32"
  have t: "ts_time (td_source_run ?es ?s) = \<lparr>td_period_ns = 6, td_period_fns = 0x66666666, td_drift_num = 2, td_drift_denom = 5,
      td_drift_cnt = 0, td_fns = 0x66666666, td_rel_ns = 6, td_tod_s = 6, td_tod_ns = 5\<rparr>"
    by code_simp
  have "\<exists>s k. ptp_td_run (?es @ replicate 1551 Edge) (?s, td_sink_start 32) = Inr (s, k)
    \<and> tk_time k = ts_time (td_source_run (?es @ replicate (1551 - (14 * 17 + 1 + 32)) Edge) ?s)
    \<and> PtpTdSource_get_ts_tod (td_source_run (?es @ replicate (1551 - 1) Edge) ?s) = Inr (PtpTdSink_get_ts_tod k)"
    by (rule ptp_td_sink_locks) (unfold t, simp_all add: is_reset_def td_time_ok_def)
  then show ?thesis by blast
qed

section \<open>The rate of the source\<close>

lemma td_edge_time:
  assumes "ts_run s = Some q"
  shows "ts_time (PtpTdSource_edge s) = td_adv (ts_time s)" "ts_run (PtpTdSource_edge s) \<noteq> None"
proof -
  obtain q1 s1 where b: "td_source_build q (td_built s) = (q1, s1)" by fastforce
  obtain q2 d where ser: "td_serialize q1 = (q2, d)" by fastforce
  have "ts_time s1 = ts_time (td_built s)" using b by (auto simp: td_source_build_def split: if_splits)
  then show "ts_time (PtpTdSource_edge s) = td_adv (ts_time s)" "ts_run (PtpTdSource_edge s) \<noteq> None"
    using td_edge_serialize [OF assms b ser] by simp_all
qed

definition td_gained :: "ptp_time \<Rightarrow> nat \<Rightarrow> int" where
  "td_gained t n =
     int n * (td_period_ns t * 2 ^ 32 + td_period_fns t)
     + td_drift_num t * ((int n + td_drift_denom t - 1 - td_drift_cnt t) div td_drift_denom t)"

lemma td_gained_Suc:
  assumes "0 < td_drift_denom t" "0 \<le> td_drift_cnt t" "td_drift_cnt t < td_drift_denom t"
  shows "td_gained t (Suc n) = td_fraction t - td_fns t + td_gained (td_adv t) n"
proof (cases "td_drift_cnt t = 0")
  case True
  have "(int (Suc n) + td_drift_denom t - 1) div td_drift_denom t = int n div td_drift_denom t + 1"
    using assms(1) by (simp add: div_add_self2)
  then show ?thesis using True assms(1) by (simp add: td_gained_def td_adv_simps td_fraction_def algebra_simps)
next
  case False
  then show ?thesis using assms by (simp add: td_gained_def td_adv_simps td_fraction_def algebra_simps)
qed

lemma td_adv_rel:
  "td_rel_ns (td_adv t) * 2 ^ 32 + td_fns (td_adv t) = (td_rel_ns t * 2 ^ 32 + td_fraction t) mod 2 ^ 80"
proof -
  define x where "x = td_rel_ns t * 2 ^ 32 + td_fraction t"
  have "x div 2 ^ 32 = td_rel_ns t + td_fraction t div 2 ^ 32" "x mod 2 ^ 32 = td_fraction t mod 2 ^ 32"
    by (simp_all add: x_def)
  moreover have "x mod 2 ^ 80 = 2 ^ 32 * (x div 2 ^ 32 mod 2 ^ 48) + x mod 2 ^ 32"
    using zmod_zmult2_eq [of "2 ^ 48" x "2 ^ 32"] by simp
  ultimately show ?thesis unfolding td_adv_simps x_def [symmetric] by (simp add: mult.commute)
qed

text \<open>
  C31: the average rate of the source is its period plus \<open>drift_num / drift_denom\<close> fractions. While no setter is called,
  \<open>n\<close> edges add \<open>n\<close> periods and \<open>drift_num\<close> once for every \<open>drift_denom\<close> edges, exactly, to the time of day with
  seconds, nanoseconds and fraction taken together, and, modulo \<open>2^80\<close> fractions, to the relative time; the
  nanoseconds of the time of day stay below one second.
\<close>
theorem ptp_td_source_rate:
  assumes "ts_run s \<noteq> None" "td_time_ok (ts_time s)" "0 < td_drift_denom (ts_time s)"
    and "td_drift_cnt (ts_time s) < td_drift_denom (ts_time s)"
  shows "td_total (ts_time (td_source_run (replicate n Edge) s)) = td_total (ts_time s) + td_gained (ts_time s) n
    \<and> td_rel_ns (ts_time (td_source_run (replicate n Edge) s)) * 2 ^ 32 + td_fns (ts_time (td_source_run (replicate n Edge) s))
      = (td_rel_ns (ts_time s) * 2 ^ 32 + td_fns (ts_time s) + td_gained (ts_time s) n) mod 2 ^ 80
    \<and> td_tod_ns (ts_time (td_source_run (replicate n Edge) s)) < 1000000000"
  using assms
proof (induction n arbitrary: s)
  case 0
  then show ?case
    by (simp add: td_gained_def td_time_ok_def div_pos_pos_trivial mod_pos_pos_trivial)
next
  case (Suc n)
  define t where "t = ts_time s"
  have t: "td_time_ok t" "0 < td_drift_denom t" "0 \<le> td_drift_cnt t" "td_drift_cnt t < td_drift_denom t"
    using Suc.prems by (simp_all add: t_def td_time_ok_def)
  obtain q where "ts_run s = Some q" using Suc.prems(1) by blast
  note edge = td_edge_time [OF this, folded t_def]
  have gain: "td_gained t (Suc n) = td_fraction t - td_fns t + td_gained (td_adv t) n" by (rule td_gained_Suc [OF t(2-4)])
  have adv: "td_time_ok (td_adv t)" "0 < td_drift_denom (td_adv t)" "td_drift_cnt (td_adv t) < td_drift_denom (td_adv t)"
    using td_adv_ok(1) [OF t(1)] t by (simp_all add: td_adv_simps)
  define u where "u = ts_time (td_source_run (replicate n Edge) (PtpTdSource_edge s))"
  from Suc.IH [of "PtpTdSource_edge s"] edge adv
  have ih: "td_total u = td_total (td_adv t) + td_gained (td_adv t) n"
    "td_rel_ns u * 2 ^ 32 + td_fns u = (td_rel_ns (td_adv t) * 2 ^ 32 + td_fns (td_adv t) + td_gained (td_adv t) n) mod 2 ^ 80"
    "td_tod_ns u < 1000000000"
    by (simp_all add: u_def)
  have "td_rel_ns u * 2 ^ 32 + td_fns u = (td_rel_ns t * 2 ^ 32 + td_fns t + td_gained t (Suc n)) mod 2 ^ 80"
    unfolding ih(2) td_adv_rel gain by (simp add: mod_simps algebra_simps)
  moreover have "td_total u = td_total t + td_gained t (Suc n)" unfolding ih(1) td_adv_total gain by simp
  moreover have "td_source_run (replicate (Suc n) Edge) s = td_source_run (replicate n Edge) (PtpTdSource_edge s)" by simp
  ultimately show ?case using ih(3) unfolding t_def [symmetric] u_def by simp
qed

lemma ptp_td_source_rate_witness:
  "td_total (ts_time (td_source_run (replicate 1000 Edge) (td_source_start 6 0x66666666 2 5 32)))
    = 1000 * (6 * 2 ^ 32 + 0x66666666) + 2 * 200"
proof -
  let ?s = "td_source_start 6 0x66666666 2 5 32"
  have t: "ts_time ?s = \<lparr>td_period_ns = 6, td_period_fns = 0x66666666, td_drift_num = 2, td_drift_denom = 5,
      td_drift_cnt = 0, td_fns = 0, td_rel_ns = 0, td_tod_s = 0, td_tod_ns = 0\<rparr>" by code_simp
  have r: "ts_run ?s \<noteq> None" by code_simp
  have "td_time_ok (ts_time ?s)" "0 < td_drift_denom (ts_time ?s)" "td_drift_cnt (ts_time ?s) < td_drift_denom (ts_time ?s)"
    by (simp_all add: t td_time_ok_def)
  from ptp_td_source_rate [OF r this, of 1000] show ?thesis by (simp add: t td_gained_def td_total_def)
qed

end
