(* ===== verification/Ptp_Td_Reset.thy ===== *)
theory Ptp_Td_Reset
  imports Ptp_Td_Lock
begin

text \<open>
  A reset of a \<open>PtpTdSource\<close> in the middle of a message: the line goes idle, the sink takes the words it has for a
  message and raises \<open>IndexError\<close> when it reads them.  And the two 64 bit setters: one of them reads its argument
  in a layout that no getter writes.
\<close>

section \<open>A sink on an idle line\<close>

definition td_pending_ok :: "td_sink_vars \<Rightarrow> bool" where
  "td_pending_ok q \<longleftrightarrow> kr_msg q = [] \<or> 14 \<le> length (kr_msg q)"

lemma td_process_ok:
  assumes "td_pending_ok q"
  shows "\<exists>q' k'. td_sink_process q k = Inr (q', k') \<and> td_pending_ok q' \<and> tk_td_delay k' = tk_td_delay k
    \<and> kr_cur_msg q' = kr_cur_msg q \<and> kr_word q' = kr_word q \<and> kr_bit_index q' = kr_bit_index q"
proof (cases "kr_msg q = []")
  case True
  then show ?thesis by (auto simp: td_sink_process_def td_pending_ok_def Let_def)
next
  case False
  then have "14 \<le> length (kr_msg q)" using assms by (simp add: td_pending_ok_def)
  then obtain k' where "td_take_message (kr_msg q) k = Inr k'" "tk_td_delay k' = tk_td_delay k"
    using td_take_message_complete by blast
  then show ?thesis using assms by (auto simp: td_sink_process_def td_pending_ok_def Let_def)
qed

lemma td_sink_time_simps [simp]: "tk_td_delay (td_sink_time k) = tk_td_delay k" "tk_run (td_sink_time k) = tk_run k"
  by (simp_all add: td_sink_time_def split: prod.splits)

text \<open>The number of words the sink has seen a bit of, and the number of edges until it takes them for a message.\<close>

definition td_begun :: "td_sink_vars \<Rightarrow> nat" where
  "td_begun q = length (kr_cur_msg q) + (if kr_word q = None then 0 else 1)"

definition td_until_idle :: "td_sink_vars \<Rightarrow> nat" where
  "td_until_idle q = (if kr_word q = None then 0 else 16 - kr_bit_index q)"

lemma td_idle_edge:
  assumes "tk_run k = Some q" "td_pending_ok q" "rx_ok q" "kr_word q \<noteq> None"
  shows "\<exists>k' q'. PtpTdSink_edge True k = Inr k' \<and> tk_run k' = Some q' \<and> td_pending_ok q' \<and> rx_ok q'
    \<and> tk_td_delay k' = tk_td_delay k \<and> td_begun q' = td_begun q \<and> Suc (td_until_idle q') = td_until_idle q"
proof -
  obtain q1 k1 where p: "td_sink_process q (td_sink_time k) = Inr (q1, k1)" "td_pending_ok q1" "tk_td_delay k1 = tk_td_delay k"
      "kr_cur_msg q1 = kr_cur_msg q" "kr_word q1 = kr_word q" "kr_bit_index q1 = kr_bit_index q"
    using td_process_ok [OF assms(2), of "td_sink_time k"] by auto
  have ok: "rx_ok q1" using rx_bits_cong [OF p(4-6)] assms(3) by simp
  let ?q = "td_deserialize (tk_td_delay k1) True q1"
  have "kr_word q1 \<noteq> None \<or> \<not> True" using p(5) assms(4) by simp
  note d = td_deserialize_bits [OF ok this, of "tk_td_delay k1"]
  obtain w where w: "kr_word q = Some w" "kr_bit_index q < 16" using assms(3,4) by (auto simp: rx_ok_def)
  have "td_begun ?q = td_begun q" "Suc (td_until_idle ?q) = td_until_idle q"
    using w p(4-6) by (auto simp: td_deserialize_def td_begun_def td_until_idle_def Let_def)
  moreover have "td_pending_ok ?q" using p(2) d(3) by (simp add: td_pending_ok_def)
  moreover have "PtpTdSink_edge True k = Inr (k1\<lparr>tk_run := Some ?q\<rparr>)" using assms(1) p(1) by (simp add: PtpTdSink_edge_def)
  ultimately show ?thesis using d(1) p(3) by (intro exI [of _ "k1\<lparr>tk_run := Some ?q\<rparr>"] exI [of _ ?q]) simp
qed

fun td_sink_idle :: "nat \<Rightarrow> td_sink \<Rightarrow> td_sink result" where
  \<comment> \<open>\<open>n\<close> edges on a line that stays 1\<close>
  "td_sink_idle 0 k = Inr k"
| "td_sink_idle (Suc n) k = bindR (PtpTdSink_edge True k) (td_sink_idle n)"

lemma td_sink_idle_add: "td_sink_idle (m + n) k = bindR (td_sink_idle m k) (td_sink_idle n)"
  by (induction m arbitrary: k) (auto simp: bindR_assoc intro!: bindR_eqI)

lemma td_idle_words:
  assumes "tk_run k = Some q" "td_pending_ok q" "rx_ok q"
  shows "\<exists>k' q'. td_sink_idle (td_until_idle q) k = Inr k' \<and> tk_run k' = Some q' \<and> td_pending_ok q'
    \<and> tk_td_delay k' = tk_td_delay k \<and> length (kr_cur_msg q') = td_begun q \<and> kr_word q' = None"
  using assms
proof (induction "td_until_idle q" arbitrary: k q)
  case 0
  then have "kr_word q = None" by (auto simp: td_until_idle_def rx_ok_def split: if_splits)
  then show ?case using 0 by (simp add: td_begun_def)
next
  case (Suc n)
  then have "kr_word q \<noteq> None" using Suc.hyps(2) unfolding td_until_idle_def by (metis nat.distinct(1))
  from td_idle_edge [OF Suc.prems this] obtain k' q' where e: "PtpTdSink_edge True k = Inr k'" "tk_run k' = Some q'"
    "td_pending_ok q'" "rx_ok q'" "tk_td_delay k' = tk_td_delay k" "td_begun q' = td_begun q"
    "Suc (td_until_idle q') = td_until_idle q" by blast
  then have "n = td_until_idle q'" using Suc.hyps(2) by simp
  from Suc.hyps(1) [OF this e(2-4)] show ?case using e(1,5,6) Suc.hyps(2) [symmetric] \<open>n = td_until_idle q'\<close> by simp
qed

text \<open>A short message is taken over, and read, \<open>td_delay\<close> edges later.\<close>

lemma td_idle_short:
  assumes "tk_run k = Some q" "kr_word q = None" "kr_cur_msg q = []" "kr_msg q \<noteq> []" "length (kr_msg q) < 14" "kr_msg_delay q = Suc d"
  shows "td_sink_idle (Suc d) k = Inl IndexError"
  using assms
proof (induction d arbitrary: k q)
  case 0
  then show ?case
    by (simp add: PtpTdSink_edge_def td_sink_process_def td_take_message_short Let_def)
next
  case (Suc d)
  define q' k' where "q' = q\<lparr>kr_msg_delay := Suc d\<rparr>" and "k' = (td_sink_time k)\<lparr>tk_run := Some q'\<rparr>"
  have "PtpTdSink_edge True k = Inr k'"
    using Suc.prems by (simp add: PtpTdSink_edge_def td_sink_process_def td_deserialize_def Let_def k'_def q'_def)
  moreover have "td_sink_idle (Suc d) k' = Inl IndexError"
    by (rule Suc.IH [of _ q']) (use Suc.prems in \<open>simp_all add: k'_def q'_def\<close>)
  ultimately show ?case by (simp del: td_sink_idle.simps(2) add: td_sink_idle.simps(2) [of "Suc d"])
qed

lemma td_idle_raises:
  assumes "tk_run k = Some q" "td_pending_ok q" "rx_ok q" "0 < tk_td_delay k" "0 < td_begun q" "td_begun q < 14"
    and "17 + tk_td_delay k \<le> n"
  shows "td_sink_idle n k = Inl IndexError"
proof -
  obtain k1 q1 where w: "td_sink_idle (td_until_idle q) k = Inr k1" "tk_run k1 = Some q1" "td_pending_ok q1"
      "tk_td_delay k1 = tk_td_delay k" "length (kr_cur_msg q1) = td_begun q" "kr_word q1 = None"
    using td_idle_words [OF assms(1-3)] by blast
  obtain q2 k2 where p: "td_sink_process q1 (td_sink_time k1) = Inr (q2, k2)" "tk_td_delay k2 = tk_td_delay k"
      "kr_cur_msg q2 = kr_cur_msg q1" "kr_word q2 = None"
    using td_process_ok [OF w(3), of "td_sink_time k1"] w(4,6) by auto
  define q3 k3 where "q3 = q2\<lparr>kr_msg := kr_cur_msg q1, kr_msg_delay := tk_td_delay k, kr_cur_msg := []\<rparr>"
    and "k3 = k2\<lparr>tk_run := Some q3\<rparr>"
  have "kr_cur_msg q1 \<noteq> []" using w(5) assms(5) by auto
  then have e: "PtpTdSink_edge True k1 = Inr k3"
    using w(2) p by (simp add: PtpTdSink_edge_def td_deserialize_def q3_def k3_def)
  obtain d where d: "tk_td_delay k = Suc d" using assms(4) by (metis gr0_conv_Suc)
  have r: "td_sink_idle (Suc d) k3 = Inl IndexError"
    by (rule td_idle_short [of _ q3]) (use \<open>kr_cur_msg q1 \<noteq> []\<close> w(5) assms(6) p(4) d in \<open>simp_all add: q3_def k3_def\<close>)
  have "td_until_idle q \<le> 16" by (simp add: td_until_idle_def)
  then have n: "n = td_until_idle q + (1 + (Suc d + (n - (td_until_idle q + (1 + Suc d)))))" using assms(7) d by simp
  have "td_sink_idle 1 k1 = Inr k3" using e by simp
  then show ?thesis by (subst n) (simp only: td_sink_idle_add w(1) r bindR_Inr bindR_Inl)
qed


section \<open>The reset\<close>

text \<open>A source in reset does not drive the line any more, which stays 1.\<close>

lemma td_run_in_reset:
  assumes "ts_run s = None" "ts_data s"
  shows "ptp_td_run (replicate n Edge) (s, k) = bindR (td_sink_idle n k) (\<lambda>k'. Inr (s, k'))"
proof (induction n arbitrary: k)
  case (Suc n)
  have "PtpTdSource_edge s = s" using assms(1) by (simp add: PtpTdSource_edge_def)
  then show ?case using Suc assms(2) by (auto simp: bindR_assoc intro!: bindR_eqI)
qed simp

lemma rx_begun:
  assumes "rx_bits q = take r F" "r \<le> length F" "0 < r" "r \<le> 221" "rx_ok q"
  shows "0 < td_begun q" "td_begun q < 14"
proof -
  have "length (rx_bits q) = r" using assms(1,2) by simp
  then have "17 * length (kr_cur_msg q) + (case kr_word q of None \<Rightarrow> 0 | Some w \<Rightarrow> Suc (kr_bit_index q)) = r"
    by (simp add: rx_bits_def split: option.splits)
  then show "0 < td_begun q" "td_begun q < 14"
    using assms(3,4) by (auto simp: td_begun_def split: option.splits)
qed

lemma td_waiting_ok: "td_waiting td age M q \<Longrightarrow> length M = 14 \<or> M = [] \<Longrightarrow> td_pending_ok q"
  by (auto simp: td_waiting_def td_pending_ok_def split: if_splits)

text \<open>
  C32: a source that is reset in the middle of a message ends the test of its sink. From the start, after any calls
  and edges, if the last message was started 1 to 221 edges before (the phase of the edge count is in that range)
  and the source is reset for \<open>17 + td_delay\<close> edges or more, the sink raises \<open>IndexError\<close>: the bits it has make fewer
  than 14 words, and it takes the words for a message when the line goes idle.
\<close>
theorem ptp_td_reset_raises:
  assumes "\<not> list_ex is_reset es" "1 \<le> td"
    and "1 \<le> (255 + count_list es Edge) mod 256" "(255 + count_list es Edge) mod 256 \<le> 221"
    and "17 + td \<le> n"
  shows "ptp_td_run (es @ Source_Reset True # replicate n Edge) (td_source_start ns fns num denom td, td_sink_start td) = Inl IndexError"
proof -
  define s0 s where "s0 = td_source_start ns fns num denom td" and "s = td_source_run es s0"
  have "0 < tk_td_delay (td_sink_start td)" "(255 :: nat) \<le> 255" "(0 :: int) \<in> {0, 1, 2}" using assms(2) by simp_all
  from td_run_linked [OF td_start_linked(1) [of ns fns num denom td] td_start_linked(2) [of td] this(2,3,1) assms(1),
      folded s0_def, folded s_def]
  obtain k r W P i where es: "ptp_td_run es (s0, td_sink_start td) = Inr (s, k)"
    and recv: "td_receiving r W P k" and r: "r = (255 + count_list es Edge) mod 256" and "tk_td_delay k = tk_td_delay (td_sink_start td)"
    by blast
  then have td: "tk_td_delay k = td" and r: "0 < r" "r \<le> 221" using assms(3,4) by simp_all
  obtain q where q: "tk_run k = Some q" "rx_ok q" "td_waiting td (td_age r) (td_heard r W P) q" "length W = 14"
      "length P = 14 \<or> P = []" "rx_bits q = take r (td_frames W)"
    using recv r td by (auto simp: td_receiving_def)
  have "td_pending_ok q" by (rule td_waiting_ok [OF q(3)]) (use q(4,5) in \<open>auto simp: td_heard_def\<close>)
  moreover have "0 < td_begun q" "td_begun q < 14" using rx_begun [OF q(6) _ r q(2)] q(4) r(2) by simp_all
  ultimately have idle: "td_sink_idle n k = Inl IndexError"
    using td_idle_raises [OF q(1) _ q(2)] td assms(2,5) by simp
  let ?s = "PtpTdSource_handle_reset True s"
  have "ptp_td_run (Source_Reset True # replicate n Edge) (s, k) = Inl IndexError"
    using td_run_in_reset [of ?s n k] idle by (simp add: PtpTdSource_handle_reset_def)
  then show ?thesis using es by (simp add: ptp_td_run_append s0_def)
qed

lemma ptp_td_reset_raises_witness:
  "ptp_td_run (replicate 41 Edge @ Source_Reset True # replicate 49 Edge) (td_source_start 6 0x66666666 2 5 32, td_sink_start 32)
    = Inl IndexError"
proof (rule ptp_td_reset_raises)
  have "count_list (replicate 41 Edge) Edge = 41" by (simp add: eval_nat_numeral)
  then show "1 \<le> (255 + count_list (replicate 41 Edge) Edge) mod 256" "(255 + count_list (replicate 41 Edge) Edge) mod 256 \<le> 221"
    by simp_all
qed (simp_all add: is_reset_def list_ex_iff)

section \<open>Setters and getters with one integer\<close>

text \<open>The relative time can be read and set again; the time of day cannot: \<open>set_ts_tod_64\<close> takes its nanoseconds
  from 16 bits higher than \<open>get_ts_tod_96\<close> puts them.\<close>

lemma ptp_td_set_rel_64:
  assumes "0 \<le> f" "f < 65536"
  shows "td_rel_ns (ts_time (PtpTdSource_set_ts_rel_64 (ns * 65536 + f) s)) = ns"
    and "td_fns (ts_time (PtpTdSource_set_ts_rel_64 (ns * 65536 + f) s)) = f * 65536"
  using assms by (simp_all add: PtpTdSource_set_ts_rel_64_def PtpTdSource_set_ts_rel_def bits_arith)

lemma ptp_td_set_tod_64_misreads:
  "ts_time (PtpTdSource_set_ts_tod_64 (1 * 2 ^ 48 + 5 * 2 ^ 16) s) = (ts_time s)\<lparr>td_tod_s := 1, td_tod_ns := 65536, td_fns := 0\<rparr>"
  by (simp add: PtpTdSource_set_ts_tod_64_def PtpTdSource_set_ts_tod_def)

end
