(* ===== verification/Baser_Cocotb_Codec.thy ===== *)
theory Baser_Cocotb_Codec
  imports Baser_Codec
begin

text \<open>
  The block code of \<open>lib/eth/tb/baser.py\<close>, the version of the BASE-R serdes endpoints for cocotb.  Its
  constants and the tables of control codes come from the package \<open>cocotbext.eth\<close>, which is not part of
  the repository: they are the fields of a record, an argument of every definition.  What is
  proved about the code needs the values of IEEE 802.3 clause 49 in that record, which are those
  that \<open>baser_serdes_ep.py\<close> writes out; with them, the two encoders agree on every block the code has
  a type for, and the two decoders on every word.
\<close>

section \<open>The constants of the package\<close>

record eth_codes =
  k_PRE :: int \<comment> \<open>\<open>EthPre\<close>\<close>
  k_IDLE :: int \<comment> \<open>\<open>XgmiiCtrl\<close>\<close>
  k_START :: int
  k_TERM :: int
  k_ERROR :: int
  k_SEQ_OS :: int
  k_SIG_OS :: int
  k_CTRL_ERROR :: int \<comment> \<open>\<open>BaseRCtrl\<close>\<close>
  k_O_SEQ_OS :: int \<comment> \<open>\<open>BaseRO\<close>\<close>
  k_O_SIG_OS :: int
  k_SYNC_DATA :: int \<comment> \<open>\<open>BaseRSync\<close>\<close>
  k_SYNC_CTRL :: int
  k_BT_CTRL :: int \<comment> \<open>\<open>BaseRBlockType\<close>\<close>
  k_BT_OS_4 :: int
  k_BT_START_4 :: int
  k_BT_OS_START :: int
  k_BT_OS_04 :: int
  k_BT_START_0 :: int
  k_BT_OS_0 :: int
  k_BT_TERM :: "nat \<Rightarrow> int" \<comment> \<open>\<open>TERM_0\<close> to \<open>TERM_7\<close>\<close>
  k_to_baser :: "int \<Rightarrow> int option" \<comment> \<open>\<open>xgmii_ctrl_to_baser_mapping\<close>\<close>
  k_to_xgmii :: "int \<Rightarrow> int option" \<comment> \<open>\<open>baser_ctrl_to_xgmii_mapping\<close>\<close>
  k_term_lane :: "int \<Rightarrow> nat option" \<comment> \<open>\<open>block_type_term_lane_mapping\<close>\<close>

section \<open>Encoding\<close>

definition bx_ctrl :: "eth_codes \<Rightarrow> lane list \<Rightarrow> int" where
  \<comment> \<open>\<open>sum(xgmii_ctrl_to_baser_mapping.get(d, BaseRCtrl.ERROR) << i*7 for i, d in enumerate(dl))\<close>\<close>
  "bx_ctrl K ls =
     (\<Sum>(i, l)\<leftarrow>enumerate 0 ls.
       shl (case k_to_baser K (fst l) of Some c \<Rightarrow> c | None \<Rightarrow> k_CTRL_ERROR K) (i * 7))"

definition bx_ordered_set :: "eth_codes \<Rightarrow> lane \<Rightarrow> bool" where
  "bx_ordered_set K l \<longleftrightarrow> snd l \<noteq> 0 \<and> (fst l = k_SEQ_OS K \<or> fst l = k_SIG_OS K)"

definition bx_term_at :: "eth_codes \<Rightarrow> nat \<Rightarrow> lane list \<Rightarrow> bool" where
  "bx_term_at K k ls \<longleftrightarrow> snd (ls ! k) \<noteq> 0 \<and> fst (ls ! k) = k_TERM K \<and> \<not> any_ctrl (take k ls)"

definition bx_block :: "eth_codes \<Rightarrow> int \<Rightarrow> lane list \<Rightarrow> int \<times> int" where
  "bx_block K ctrl ls =
     (let sig = (\<lambda>k n d. if fst (ls ! k) = k_SIG_OS K then d OR shl (k_O_SIG_OS K) n else d)
      in
      if \<not> any_ctrl ls then (k_SYNC_DATA K, lanes_val 8 (map fst ls))
      else (k_SYNC_CTRL K,
        if snd (ls ! 0) \<noteq> 0 \<and> fst (ls ! 0) = k_START K \<and> \<not> any_ctrl (drop 1 ls) then
          octet_loop (drop 1 ls) 1 (k_BT_START_0 K)
        else if snd (ls ! 4) \<noteq> 0 \<and> fst (ls ! 4) = k_START K \<and> \<not> any_ctrl (drop 5 ls) then
          octet_loop (drop 5 ls) 5
            (if bx_ordered_set K (ls ! 0) \<and> \<not> any_ctrl (take 3 (drop 1 ls)) then
               sig 0 32 (octet_loop (take 3 (drop 1 ls)) 1 (k_BT_OS_START K))
             else k_BT_START_4 K OR shl (ctrl AND 0xfffffff) 8)
        else if bx_ordered_set K (ls ! 0) \<and> \<not> any_ctrl (take 3 (drop 1 ls)) then
          sig 0 32 (octet_loop (take 3 (drop 1 ls)) 1
            (if bx_ordered_set K (ls ! 4) \<and> \<not> any_ctrl (drop 5 ls) then
               sig 4 36 (octet_loop (drop 5 ls) 5 (k_BT_OS_04 K))
             else k_BT_OS_0 K OR shl (ctrl AND 0xfffffff) 40))
        else if bx_ordered_set K (ls ! 4) \<and> \<not> any_ctrl (drop 5 ls) then
          sig 4 36 (octet_loop (drop 5 ls) 5 (k_BT_OS_4 K OR shl (ctrl AND 0xfffffff) 8))
        else if bx_term_at K 0 ls then k_BT_TERM K 0 OR shl (ctrl AND 0xffffffffffff80) 8
        else if bx_term_at K 1 ls then
          k_BT_TERM K 1 OR shl (ctrl AND 0xffffffffffc000) 8 OR shl (fst (ls ! 0)) 8
        else if bx_term_at K 2 ls then
          octet_loop (take 2 ls) 1 (k_BT_TERM K 2 OR shl (ctrl AND 0xffffffffe00000) 8)
        else if bx_term_at K 3 ls then
          octet_loop (take 3 ls) 1 (k_BT_TERM K 3 OR shl (ctrl AND 0xfffffff0000000) 8)
        else if bx_term_at K 4 ls then
          octet_loop (take 4 ls) 1 (k_BT_TERM K 4 OR shl (ctrl AND 0xfffff800000000) 8)
        else if bx_term_at K 5 ls then
          octet_loop (take 5 ls) 1 (k_BT_TERM K 5 OR shl (ctrl AND 0xfffc0000000000) 8)
        else if bx_term_at K 6 ls then
          octet_loop (take 6 ls) 1 (k_BT_TERM K 6 OR shl (ctrl AND 0xfe000000000000) 8)
        else if bx_term_at K 7 ls then octet_loop (take 7 ls) 1 (k_BT_TERM K 7)
        else k_BT_CTRL K OR shl ctrl 8))"

definition bx_encode :: "eth_codes \<Rightarrow> lane list \<Rightarrow> int \<times> int" where
  "bx_encode K ls = bx_block K (bx_ctrl K ls) ls"

section \<open>Decoding\<close>

definition bx_ctrl_lanes :: "eth_codes \<Rightarrow> int \<Rightarrow> lane list" where
  \<comment> \<open>\<open>ctrl\<close>, with control bits\<close>
  "bx_ctrl_lanes K data =
     map (\<lambda>i. (case k_to_xgmii K (shr data (i * 7 + 8) AND 0x7f) of Some c \<Rightarrow> c | None \<Rightarrow> k_ERROR K, 1)) [0..<8]"

definition bx_octet_lanes :: "int \<Rightarrow> lane list" where
  \<comment> \<open>\<open>data.to_bytes(8, 'little')\<close> of the 64 bits of the signal, with control bits 0\<close>
  "bx_octet_lanes data = map (\<lambda>k. (shr data (k * 8) AND 0xff, 0)) [0..<8]"

definition bx_os_lane :: "eth_codes \<Rightarrow> int \<Rightarrow> lane" where
  "bx_os_lane K code =
     (if code = k_O_SEQ_OS K then k_SEQ_OS K
      else if code = k_O_SIG_OS K then k_SIG_OS K
      else k_ERROR K, 1)"

definition bx_os_lane_0 :: "eth_codes \<Rightarrow> int \<Rightarrow> lane" where
  \<comment> \<open>the same in the branch of \<open>OS_0\<close>, where both codes give \<open>SEQ_OS\<close>\<close>
  "bx_os_lane_0 K code =
     (if code = k_O_SEQ_OS K then k_SEQ_OS K
      else if code = k_O_SIG_OS K then k_SEQ_OS K
      else k_ERROR K, 1)"

definition bx_decode :: "eth_codes \<Rightarrow> int \<times> int \<Rightarrow> lane list result" where
  "bx_decode K w =
     (case w of (header, data) \<Rightarrow>
      let ctrl = bx_ctrl_lanes K data; bs = bx_octet_lanes data; bt = fst (bs ! 0);
          o0 = fst (bs ! 4) AND 0xf; o4 = shr (fst (bs ! 4)) 4 AND 0xf; start = (k_START K, 1);
          errors = replicate 8 (k_ERROR K, 1)
      in
      if header = k_SYNC_DATA K then Inr bs
      else if header = k_SYNC_CTRL K then
        (if bt = k_BT_CTRL K then Inr ctrl
         else if bt = k_BT_OS_4 K then Inr (take 4 ctrl @ bx_os_lane K o4 # drop 5 bs)
         else if bt = k_BT_START_4 K then Inr (take 4 ctrl @ start # drop 5 bs)
         else if bt = k_BT_OS_START K then
           Inr (bx_os_lane K o0 # take 3 (drop 1 bs) @ start # drop 5 bs)
         else if bt = k_BT_OS_04 K then
           Inr (bx_os_lane K o0 # take 3 (drop 1 bs) @ bx_os_lane K o4 # drop 5 bs)
         else if bt = k_BT_START_0 K then Inr (start # drop 1 bs)
         else if bt = k_BT_OS_0 K then Inr (bx_os_lane_0 K o0 # take 3 (drop 1 bs) @ drop 4 ctrl)
         else if bt \<in> k_BT_TERM K ` {0..<8} then
           (case k_term_lane K bt of
              Some k \<Rightarrow> Inr (take k (drop 1 bs) @ (k_TERM K, 1) # drop (k + 1) ctrl)
            | None \<Rightarrow> Inl KeyError)
         else Inr errors)
      else Inr errors)"

section \<open>The values of the standard\<close>

definition std_to_baser :: "int \<Rightarrow> int option" where
  "std_to_baser = map_of
     [(XGMII_IDLE, CTRL_IDLE), (XGMII_LPI, CTRL_LPI), (XGMII_ERROR, CTRL_ERROR), (XGMII_RES0, CTRL_RES_0),
      (XGMII_RES1, CTRL_RES_1), (XGMII_RES2, CTRL_RES_2), (XGMII_RES3, CTRL_RES_3), (XGMII_RES4, CTRL_RES_4),
      (XGMII_RES5, CTRL_RES_5)]"

definition std_to_xgmii :: "int \<Rightarrow> int option" where
  "std_to_xgmii = map_of
     [(CTRL_IDLE, XGMII_IDLE), (CTRL_LPI, XGMII_LPI), (CTRL_ERROR, XGMII_ERROR), (CTRL_RES_0, XGMII_RES0),
      (CTRL_RES_1, XGMII_RES1), (CTRL_RES_2, XGMII_RES2), (CTRL_RES_3, XGMII_RES3), (CTRL_RES_4, XGMII_RES4),
      (CTRL_RES_5, XGMII_RES5)]"

definition std_codes :: eth_codes where
  "std_codes =
     \<lparr>k_PRE = ETH_PRE, k_IDLE = XGMII_IDLE, k_START = XGMII_START, k_TERM = XGMII_TERM, k_ERROR = XGMII_ERROR,
      k_SEQ_OS = XGMII_SEQ_OS, k_SIG_OS = XGMII_SIG_OS, k_CTRL_ERROR = CTRL_ERROR,
      k_O_SEQ_OS = O_SEQ_OS, k_O_SIG_OS = O_SIG_OS, k_SYNC_DATA = SYNC_DATA, k_SYNC_CTRL = SYNC_CTRL,
      k_BT_CTRL = BLOCK_TYPE_CTRL, k_BT_OS_4 = BLOCK_TYPE_OS_4, k_BT_START_4 = BLOCK_TYPE_START_4,
      k_BT_OS_START = BLOCK_TYPE_OS_START, k_BT_OS_04 = BLOCK_TYPE_OS_04, k_BT_START_0 = BLOCK_TYPE_START_0,
      k_BT_OS_0 = BLOCK_TYPE_OS_0, k_BT_TERM = term_type,
      k_to_baser = std_to_baser, k_to_xgmii = std_to_xgmii, k_term_lane = block_type_term_lane\<rparr>"

definition std_values :: "eth_codes \<Rightarrow> bool" where
  \<comment> \<open>of the tables, only what they say about the codes in use\<close>
  "std_values K \<longleftrightarrow>
     (k_PRE K, k_IDLE K, k_START K, k_TERM K, k_ERROR K, k_SEQ_OS K, k_SIG_OS K) =
       (ETH_PRE, XGMII_IDLE, XGMII_START, XGMII_TERM, XGMII_ERROR, XGMII_SEQ_OS, XGMII_SIG_OS)
     \<and> (k_CTRL_ERROR K, k_O_SEQ_OS K, k_O_SIG_OS K) = (CTRL_ERROR, O_SEQ_OS, O_SIG_OS)
     \<and> (k_SYNC_DATA K, k_SYNC_CTRL K) = (SYNC_DATA, SYNC_CTRL)
     \<and> (k_BT_CTRL K, k_BT_OS_4 K, k_BT_START_4 K, k_BT_OS_START K, k_BT_OS_04 K, k_BT_START_0 K, k_BT_OS_0 K) =
       (BLOCK_TYPE_CTRL, BLOCK_TYPE_OS_4, BLOCK_TYPE_START_4, BLOCK_TYPE_OS_START, BLOCK_TYPE_OS_04,
        BLOCK_TYPE_START_0, BLOCK_TYPE_OS_0)
     \<and> (\<forall>k < 8. k_BT_TERM K k = term_type k \<and> k_term_lane K (term_type k) = Some k)
     \<and> (\<forall>d. (case k_to_baser K d of Some c \<Rightarrow> c | None \<Rightarrow> k_CTRL_ERROR K) = ctrl_code (d, 1))
     \<and> (\<forall>c. (case k_to_xgmii K c of Some d \<Rightarrow> d | None \<Rightarrow> k_ERROR K) = ctrl_char c)"

lemma std_values_simps:
  assumes "std_values K"
  shows "k_PRE K = ETH_PRE" "k_IDLE K = XGMII_IDLE" "k_START K = XGMII_START" "k_TERM K = XGMII_TERM"
    "k_ERROR K = XGMII_ERROR" "k_SEQ_OS K = XGMII_SEQ_OS" "k_SIG_OS K = XGMII_SIG_OS"
    "k_CTRL_ERROR K = CTRL_ERROR" "k_O_SEQ_OS K = O_SEQ_OS" "k_O_SIG_OS K = O_SIG_OS"
    "k_SYNC_DATA K = SYNC_DATA" "k_SYNC_CTRL K = SYNC_CTRL" "k_BT_CTRL K = BLOCK_TYPE_CTRL"
    "k_BT_OS_4 K = BLOCK_TYPE_OS_4" "k_BT_START_4 K = BLOCK_TYPE_START_4" "k_BT_OS_START K = BLOCK_TYPE_OS_START"
    "k_BT_OS_04 K = BLOCK_TYPE_OS_04" "k_BT_START_0 K = BLOCK_TYPE_START_0" "k_BT_OS_0 K = BLOCK_TYPE_OS_0"
  using assms by (simp_all add: std_values_def)

lemma std_tables:
  assumes "std_values K"
  shows "k < 8 \<Longrightarrow> k_BT_TERM K k = term_type k" "k < 8 \<Longrightarrow> k_term_lane K (term_type k) = Some k"
    "(case k_to_baser K d of Some c \<Rightarrow> c | None \<Rightarrow> k_CTRL_ERROR K) = ctrl_code (d, 1)"
    "(case k_to_xgmii K c of Some d \<Rightarrow> d | None \<Rightarrow> k_ERROR K) = ctrl_char c"
  using assms by (simp_all only: std_values_def)

lemma std_values_std: "std_values std_codes"
proof -
  have "term_type k \<in> set (map term_type [0..<8]) \<and> block_type_term_lane (term_type k) = Some k" if "k < 8" for k
    using that by (auto simp: term_type_def block_type_term_lane_def block_types less_Suc_eq numeral_eq_Suc)
  then show ?thesis
    by (simp add: std_values_def std_codes_def std_to_baser_def std_to_xgmii_def ctrl_code_def ctrl_char_def)
qed

section \<open>The two encoders\<close>

text \<open>
  With the values of the standard, the encoder of \<open>baser_serdes_ep.py\<close> is \<open>bx_block\<close> on other control codes: it gives the
  code of an error to every data octet, where \<open>baser.py\<close> looks the octet up as if it were a control
  character.  On a block with a type of its own, these codes are masked out.
\<close>

lemma std_terms:
  assumes "std_values K"
  shows "k_BT_TERM K 0 = BLOCK_TYPE_TERM_0" "k_BT_TERM K 1 = BLOCK_TYPE_TERM_1" "k_BT_TERM K (Suc 0) = BLOCK_TYPE_TERM_1"
    "k_BT_TERM K 2 = BLOCK_TYPE_TERM_2" "k_BT_TERM K 3 = BLOCK_TYPE_TERM_3" "k_BT_TERM K 4 = BLOCK_TYPE_TERM_4"
    "k_BT_TERM K 5 = BLOCK_TYPE_TERM_5" "k_BT_TERM K 6 = BLOCK_TYPE_TERM_6" "k_BT_TERM K 7 = BLOCK_TYPE_TERM_7"
  by (simp_all add: std_tables(1) [OF assms] term_type_simps)

lemma std_os: "std_values K \<Longrightarrow> bx_ordered_set K l = ordered_set l"
  by (simp add: bx_ordered_set_def ordered_set_def std_values_simps)

lemma std_term_at: "std_values K \<Longrightarrow> bx_term_at K k ls = term_at k ls"
  by (simp add: bx_term_at_def term_at_def std_values_simps)

lemma std_block:
  assumes "std_values K"
  shows "bx_block K ctrl ls = bx_block std_codes ctrl ls"
  by (simp only: bx_block_def Let_def std_values_simps [OF assms] std_terms [OF assms] std_os [OF assms]
      std_term_at [OF assms] std_values_simps [OF std_values_std] std_terms [OF std_values_std]
      std_os [OF std_values_std] std_term_at [OF std_values_std])

lemma baser_encode_block:
  assumes "list_all data_lane ls \<or> any_ctrl ls"
  shows "baser_encode ls = bx_block std_codes (codes_val ls) ls"
proof (cases "any_ctrl ls")
  case True
  then show ?thesis
    by (simp only: baser_encode_def bx_block_def Let_def std_values_simps [OF std_values_std] ctrl_loop_all
      std_terms [OF std_values_std] std_os [OF std_values_std] std_term_at [OF std_values_std]
      not_True_eq_False if_False)
next
  case False
  then show ?thesis
    using assms by (simp add: baser_encode_def bx_block_def std_values_simps [OF std_values_std]
      octet_loop_shift octets_val_def)
qed

definition as_ctrl :: "lane list \<Rightarrow> lane list" where
  "as_ctrl ls = map (\<lambda>l. (fst l, 1)) ls"

lemma as_ctrl_code: "list_all code_lane cs \<Longrightarrow> as_ctrl cs = cs"
  by (induction cs) (auto simp: as_ctrl_def code_lane_def prod_eq_iff)

lemma bx_ctrl_std:
  assumes "std_values K"
  shows "bx_ctrl K ls = codes_val (as_ctrl ls)"
proof -
  have "(\<Sum>(i, l)\<leftarrow>enumerate n ls. shl (ctrl_code (fst l, 1)) (i * 7)) = shl (codes_val (as_ctrl ls)) (n * 7)" for n
    by (induction ls arbitrary: n)
      (simp_all add: as_ctrl_def codes_val_def push_bit_eq_mult power_add algebra_simps)
  from this [of 0] show ?thesis by (simp add: bx_ctrl_def std_tables(3) [OF assms])
qed

lemma low_codes:
  assumes "length cs = 4" "list_all code_lane cs"
  shows "codes_val (as_ctrl (cs @ ls)) AND 0xfffffff = codes_val (cs @ ls) AND 0xfffffff"
proof -
  have "as_ctrl (cs @ ls) = cs @ as_ctrl ls" using as_ctrl_code [OF assms(2)] by (simp add: as_ctrl_def)
  then show ?thesis by (simp only: codes_low4 [OF assms(1)])
qed

lemma high_codes:
  assumes "length ls = 8" "k < 8" "list_all code_lane (drop (k + 1) ls)"
  shows "codes_val (as_ctrl ls) AND term_mask k = codes_val ls AND term_mask k"
proof -
  have m: "codes_val (xs @ drop (k + 1) ls) AND term_mask k = shl (codes_val (drop (k + 1) ls)) (7 * (k + 1))"
    if "length xs = k + 1" for xs
    using codes_high [of xs "drop (k + 1) ls"] that assms(1) by (simp add: term_mask_def)
  have "as_ctrl ls = as_ctrl (take (k + 1) ls) @ drop (k + 1) ls"
    using as_ctrl_code [OF assms(3)] by (metis append_take_drop_id as_ctrl_def map_append)
  then show ?thesis
    using m [of "as_ctrl (take (k + 1) ls)"] m [of "take (k + 1) ls"] assms(1,2)
    by (simp add: as_ctrl_def)
qed

lemma no_ordered_set:
  "code_lane l \<Longrightarrow> \<not> ordered_set l" "data_lane l \<Longrightarrow> \<not> ordered_set l"
  "\<not> ordered_set (XGMII_START, c)" "\<not> ordered_set (XGMII_TERM, c)"
  by (auto simp: ordered_set_def dest: code_laneD data_laneD) (simp_all add: xgmii_chars)

lemmas block_simps =
  bx_block_def std_values_simps [OF std_values_std] std_terms [OF std_values_std] std_os [OF std_values_std]
  std_term_at [OF std_values_std] any_ctrl_def no_ordered_set term_at_def data_laneD code_laneD char_neq Let_def

text \<open>Which part of the control codes the block of each kind contains.\<close>

lemma block_term_cong:
  assumes "length ls = 8" "k < 8" "term_lanes ls k" "c AND term_mask k = c' AND term_mask k"
  shows "bx_block std_codes c ls = bx_block std_codes c' ls"
proof -
  have sel: "bx_block std_codes x ls = (SYNC_CTRL, octet_loop (take k ls) 1 (term_type k OR shl (x AND term_mask k) 8))"
    for x
  proof -
    obtain l0 l1 l2 l3 l4 l5 l6 l7 where ls: "ls = [l0, l1, l2, l3, l4, l5, l6, l7]" by (rule list8 [OF assms(1)])
    have "k = 0 \<or> k = 1 \<or> k = 2 \<or> k = 3 \<or> k = 4 \<or> k = 5 \<or> k = 6 \<or> k = 7" using assms(2) by auto
    then show ?thesis
      using assms(3) unfolding term_lanes_def
      by (elim disjE) (simp_all add: ls block_simps term_type_simps term_mask_simps or.assoc)
  qed
  show ?thesis by (simp only: sel assms(4))
qed

lemma block_half_cong:
  assumes "length ls = 8" "start_lanes8 (drop 4 ls) \<or> os_lanes (drop 4 ls)"
    "list_all code_lane (take 4 ls) \<and> c AND 0xfffffff = c' AND 0xfffffff \<or> os_lanes (take 4 ls)"
  shows "bx_block std_codes c ls = bx_block std_codes c' ls"
proof -
  obtain l0 l1 l2 l3 l4 l5 l6 l7 where ls: "ls = [l0, l1, l2, l3, l4, l5, l6, l7]" by (rule list8 [OF assms(1)])
  have es: "data_lane l5" "data_lane l6" "data_lane l7"
    using assms(2) by (auto simp: ls start_lanes8_def os_lanes_def)
  consider (start) "l4 = (XGMII_START, 1)" | (os) "os_ok l4"
    using assms(2) by (auto simp: ls start_lanes8_def os_lanes_def)
  note second = this
  consider (code) "list_all code_lane [l0, l1, l2, l3]" "shl (c AND 0xfffffff) 8 = shl (c' AND 0xfffffff) 8"
    | (os0) "os_ok l0" "list_all data_lane [l1, l2, l3]"
    using assms(3) by (fastforce simp: ls os_lanes_def)
  then show ?thesis
  proof cases
    case code
    from second show ?thesis
    proof cases
      case start
      show ?thesis using code es by (simp add: ls start block_simps del: octet_loop.simps)
    next
      case os
      show ?thesis using code es os_okD [OF os] by (simp add: ls block_simps del: octet_loop.simps)
    qed
  next
    case os0
    from second show ?thesis
    proof cases
      case start
      show ?thesis using os0(2) es os_okD [OF os0(1)] by (simp add: ls start block_simps del: octet_loop.simps)
    next
      case os
      show ?thesis
        using os0(2) es os_okD [OF os0(1)] os_okD [OF os] by (simp add: ls block_simps del: octet_loop.simps)
    qed
  qed
qed

lemma block_start_cong:
  assumes "length ls = 8" "start_lanes8 ls"
  shows "bx_block std_codes c ls = bx_block std_codes c' ls"
proof -
  obtain l0 l1 l2 l3 l4 l5 l6 l7 where ls: "ls = [l0, l1, l2, l3, l4, l5, l6, l7]" by (rule list8 [OF assms(1)])
  show ?thesis using assms(2) by (simp add: ls block_simps start_lanes8_def)
qed

lemma block_some_ctrl:
  assumes "baser_block ls"
  shows "list_all data_lane ls \<or> any_ctrl ls"
proof -
  obtain l0 l1 l2 l3 l4 l5 l6 l7 where ls: "ls = [l0, l1, l2, l3, l4, l5, l6, l7]"
    using assms by (auto simp: baser_block_def intro: list8)
  show ?thesis
  proof (rule ccontr)
    assume "\<not> ?thesis"
    then have "\<not> list_all data_lane ls" "\<forall>l \<in> set ls. snd l = 0" by (auto simp: any_ctrl_def list_ex_iff)
    then show False
      using assms
      by (auto simp: ls baser_block_def code_lane_def start_lanes8_def os_lanes_def os_ok_def term_lanes_def
        less_Suc_eq numeral_eq_Suc)
  qed
qed

lemma bx_encode_std:
  assumes "std_values K" "baser_block ls"
  shows "bx_encode K ls = baser_encode ls"
proof -
  have n: "length ls = 8" using assms(2) by (simp add: baser_block_def)
  let ?c = "codes_val (as_ctrl ls)" and ?d = "codes_val ls"
  have e: "bx_encode K ls = bx_block std_codes ?c ls"
    by (simp add: bx_encode_def bx_ctrl_std [OF assms(1)] std_block [OF assms(1)])
  have d: "baser_encode ls = bx_block std_codes ?d ls"
    by (rule baser_encode_block) (rule block_some_ctrl [OF assms(2)])
  consider "list_all data_lane ls" | "list_all code_lane ls" | "start_lanes8 ls"
    | "list_all code_lane (take 4 ls) \<or> os_lanes (take 4 ls)" "start_lanes8 (drop 4 ls) \<or> os_lanes (drop 4 ls)"
    | k where "k < 8" "term_lanes ls k"
    using assms(2) by (auto simp: baser_block_def list_ex_iff)
  then have "bx_block std_codes ?c ls = bx_block std_codes ?d ls"
  proof cases
    case 1
    then have "\<not> any_ctrl ls" by (auto simp: any_ctrl_def list_all_iff list_ex_iff data_lane_def)
    then show ?thesis by (simp add: bx_block_def)
  next
    case 2
    then show ?thesis by (simp add: as_ctrl_code)
  next
    case 3
    then show ?thesis by (rule block_start_cong [OF n])
  next
    case 4
    have "?c AND 0xfffffff = ?d AND 0xfffffff" if "list_all code_lane (take 4 ls)"
      using low_codes [OF _ that, of "drop 4 ls"] n by simp
    then show ?thesis using 4 by (intro block_half_cong [OF n 4(2)]) blast
  next
    case 5
    show ?thesis
      using high_codes [OF n 5(1)] 5(2) by (intro block_term_cong [OF n 5]) (simp add: term_lanes_def)
  qed
  then show ?thesis using e d by simp
qed

section \<open>The two decoders\<close>

lemma bx_slices:
  assumes "std_values K"
  shows "bx_ctrl_lanes K x = ctrl_lanes x 0 8" "take 4 (bx_ctrl_lanes K x) = ctrl_lanes x 0 4"
    "drop k (bx_ctrl_lanes K x) = ctrl_lanes x k 8"
    "drop 5 (bx_octet_lanes x) = octet_lanes x 4 7" "take 3 (drop 1 (bx_octet_lanes x)) = octet_lanes x 0 3"
    "drop 1 (bx_octet_lanes x) = octet_lanes x 0 7" "k < 8 \<Longrightarrow> take k (drop 1 (bx_octet_lanes x)) = octet_lanes x 0 k"
proof -
  show "bx_ctrl_lanes K x = ctrl_lanes x 0 8" "take 4 (bx_ctrl_lanes K x) = ctrl_lanes x 0 4"
    "drop k (bx_ctrl_lanes K x) = ctrl_lanes x k 8"
    by (simp_all add: bx_ctrl_lanes_def ctrl_lanes_def std_tables(4) [OF assms] take_map drop_map)
  have d: "drop n (bx_octet_lanes x) = map (\<lambda>k. (shr x ((k + 1) * 8) AND 0xff, 0)) [n - 1..<7]" if "0 < n" for n
    using that by (cases n) (auto simp: bx_octet_lanes_def add.commute intro!: nth_equalityI)
  show "drop 5 (bx_octet_lanes x) = octet_lanes x 4 7" "take 3 (drop 1 (bx_octet_lanes x)) = octet_lanes x 0 3"
    "drop 1 (bx_octet_lanes x) = octet_lanes x 0 7" "k < 8 \<Longrightarrow> take k (drop 1 (bx_octet_lanes x)) = octet_lanes x 0 k"
    by (simp_all only: d octet_lanes_def take_map) (simp_all add: take_upt)
qed

lemma term_lane_type: "block_type_term_lane bt = Some k \<Longrightarrow> k < 8 \<and> bt = term_type k"
  by (auto simp: block_type_term_lane_def term_type_def split: if_splits)

lemma type_term_lane: "k < 8 \<Longrightarrow> block_type_term_lane (term_type k) = Some k"
  by (auto simp: term_type_def block_type_term_lane_def block_types less_Suc_eq numeral_eq_Suc)

lemma bx_decode_std:
  assumes "std_values K"
  shows "bx_decode K w = Inr (baser_decode w)"
proof -
  obtain h x where w: "w = (h, x)" by (cases w)
  have bs: "bx_octet_lanes x = map (\<lambda>k. (shr x (k * 8) AND 0xff, 0)) [0..<8]" by (simp add: bx_octet_lanes_def)
  have bt: "fst (bx_octet_lanes x ! 0) = x AND 0xff" by (simp add: bs)
  have o4: "fst (bx_octet_lanes x ! 4) AND 0xf = shr x 32 AND 0xf"
    "shr (fst (bx_octet_lanes x ! 4)) 4 AND 0xf = shr x 36 AND 0xf"
    by (simp_all add: bs and.assoc drop_bit_and)
  have os: "bx_os_lane K = os_lane" "bx_os_lane_0 K = os_lane_0"
    by (simp_all add: fun_eq_iff bx_os_lane_def os_lane_def bx_os_lane_0_def os_lane_0_def std_values_simps [OF assms])
  have tl: "b \<in> k_BT_TERM K ` {0..<8} \<longleftrightarrow> block_type_term_lane b \<noteq> None" for b
    using std_tables(1) [OF assms] type_term_lane by (auto dest: term_lane_type intro: rev_image_eqI)
  let ?t = "(if x AND 0xff \<in> k_BT_TERM K ` {0..<8} then
         (case k_term_lane K (x AND 0xff) of
            Some k \<Rightarrow> Inr (take k (drop 1 (bx_octet_lanes x)) @ (XGMII_TERM, 1) # drop (k + 1) (bx_ctrl_lanes K x))
          | None \<Rightarrow> Inl KeyError)
       else Inr (replicate 8 (XGMII_ERROR, 1)))"
  have t: "?t = Inr (case block_type_term_lane (x AND 0xff) of
          Some k \<Rightarrow> octet_lanes x 0 k @ (XGMII_TERM, 1) # ctrl_lanes x (k + 1) 8
        | None \<Rightarrow> replicate 8 (XGMII_ERROR, 1))"
  proof (cases "block_type_term_lane (x AND 0xff)")
    case None
    then show ?thesis by (simp only: tl if_False option.case not_True_eq_False simp_thms)
  next
    case (Some k)
    have "k_term_lane K (x AND 0xff) = Some k"
      using term_lane_type [OF Some] std_tables(2) [OF assms, of k] by simp
    moreover have "k < 8" using term_lane_type [OF Some] by simp
    ultimately show ?thesis
      using Some by (simp only: tl if_True option.case option.distinct not_False_eq_True simp_thms
        bx_slices(3) [OF assms] bx_slices(7) [OF assms])
  qed
  show ?thesis
    unfolding w bx_decode_def baser_decode_def prod.case Let_def bt o4 os std_values_simps [OF assms]
      bs [symmetric] if_distrib [of Inr]
    unfolding t bx_slices(2,4,5) [OF assms] bx_slices(3) [OF assms, of 4]
    unfolding bx_slices(1,6) [OF assms]
    by (rule refl)
qed



end
