(* ===== verification/Baser_Cocotb.thy ===== *)
theory Baser_Cocotb
  imports Baser_Endpoint Baser_Cocotb_Codec
begin

text \<open>
  \<open>BaseRSerdesSource\<close> and \<open>BaseRSerdesSink\<close> of \<open>lib/eth/tb/baser.py\<close>.  In each clock cycle the source takes eight lanes off
  its frame, encodes them, scrambles the block, shifts the stream by the bits it has slipped and reverses it; the gap between
  frames is kept by two counters, the idles still due and a deficit.  The sink undoes reversal and scrambler, decodes
  the block and goes through its lanes one by one.

  Frames are objects of the class \<open>XgmiiFrame\<close> of the package \<open>cocotbext.eth\<close>; the attributes the code reads and writes
  are a record, and the constructors and methods it calls are a parameter.  Simulation time, with the time stamps of a frame,
  and the completion handler of a frame are left out.  An event is a flag that is set or not; \<open>wait\<close> and the waiting in \<open>send\<close> and \<open>recv\<close>
  only suspend a test.  Every other effect of the two classes is modelled.
\<close>

section \<open>The frame class of the package\<close>

record bx_frame =
  bf_data :: "int list"
  bf_ctrl :: "int list option"
  bf_start_lane :: "nat option"

record 'a frame_class =
  fc_new :: "'a \<Rightarrow> bx_frame" \<comment> \<open>\<open>XgmiiFrame(frame)\<close>\<close>
  fc_pair :: "int list \<Rightarrow> int list \<Rightarrow> bx_frame" \<comment> \<open>\<open>XgmiiFrame(data, ctrl)\<close>\<close>
  fc_normalize :: "bx_frame \<Rightarrow> bx_frame"
  fc_compact :: "bx_frame \<Rightarrow> bx_frame"
  fc_len :: "bx_frame \<Rightarrow> int"

section \<open>BaseRSerdesSource\<close>

text \<open>The attributes a test sets, then those of the queue with the local variables of the process that go with them.\<close>

record bx_cfg =
  bc_enable_dic :: bool
  bc_ifg :: int
  bc_force_offset_start :: bool
  bc_limit_bytes :: int
  bc_limit_frames :: int

record bx_core =
  bx_queue :: "bx_frame list"
  bx_occupancy_bytes :: int
  bx_occupancy_frames :: int
  bx_idle_event :: bool
  bx_dequeue_event :: bool
  bx_active :: bool
  bx_cur :: "bx_frame option" \<comment> \<open>the local variable \<open>frame\<close>, and \<open>current_frame\<close>\<close>
  bx_frame_offset :: nat
  bx_ifg_cnt :: int
  bx_deficit :: int

text \<open>What drives the line.\<close>

record bx_driver =
  bd_scrambler :: int
  bd_last_d :: int
  bd_bit_offset :: int
  bd_data :: int
  bd_header :: int

definition bx_width :: "nat \<Rightarrow> unit result" where
  \<comment> \<open>\<open>assert self.width == self.byte_lanes * self.byte_size\<close>\<close>
  "bx_width width = assertR (width = 8 * 8)"

definition bx_core0 :: bx_core where
  "bx_core0 =
     \<lparr>bx_queue = [], bx_occupancy_bytes = 0, bx_occupancy_frames = 0, bx_idle_event = True, bx_dequeue_event = False,
      bx_active = False, bx_cur = None, bx_frame_offset = 0, bx_ifg_cnt = 0, bx_deficit = 0\<rparr>"

definition bx_driver0 :: bx_driver where
  "bx_driver0 = \<lparr>bd_scrambler = 0, bd_last_d = 0, bd_bit_offset = 0, bd_data = 0, bd_header = 0\<rparr>"

subsection \<open>The queue\<close>

definition bx_full :: "bx_cfg \<Rightarrow> bx_core \<Rightarrow> bool" where
  "bx_full cfg self =
     (if bc_limit_bytes cfg > 0 \<and> bx_occupancy_bytes self > bc_limit_bytes cfg then True
      else if bc_limit_frames cfg > 0 \<and> bx_occupancy_frames self > bc_limit_frames cfg then True
      else False)"

definition bx_put :: "'a frame_class \<Rightarrow> bx_frame \<Rightarrow> bx_core \<Rightarrow> bx_core" where
  \<comment> \<open>what \<open>send\<close> and \<open>send_nowait\<close> do with the frame they have made\<close>
  "bx_put C frame self =
     self\<lparr>bx_queue := bx_queue self @ [frame], bx_idle_event := False,
          bx_occupancy_bytes := bx_occupancy_bytes self + fc_len C frame,
          bx_occupancy_frames := bx_occupancy_frames self + 1\<rparr>"

definition bx_send :: "'a frame_class \<Rightarrow> bx_cfg \<Rightarrow> 'a \<Rightarrow> bx_core \<Rightarrow> bool \<times> bx_core" where
  \<comment> \<open>one round of the loop: \<open>False\<close> when it waits for \<open>dequeue_event\<close>\<close>
  "bx_send C cfg frame self =
     (if bx_full cfg self then (False, self\<lparr>bx_dequeue_event := False\<rparr>)
      else (True, bx_put C (fc_new C frame) self))"

definition bx_send_nowait :: "'a frame_class \<Rightarrow> bx_cfg \<Rightarrow> 'a \<Rightarrow> bx_core \<Rightarrow> bx_core result" where
  "bx_send_nowait C cfg frame self =
     (if bx_full cfg self then Inl QueueFull else Inr (bx_put C (fc_new C frame) self))"

definition bx_source_count :: "bx_core \<Rightarrow> nat" where
  "bx_source_count self = length (bx_queue self)"

definition bx_source_empty :: "bx_core \<Rightarrow> bool" where
  "bx_source_empty self \<longleftrightarrow> bx_queue self = []"

definition bx_source_idle :: "bx_core \<Rightarrow> bool" where
  "bx_source_idle self \<longleftrightarrow> bx_source_empty self \<and> \<not> bx_active self"

definition bx_source_clear :: "bx_core \<Rightarrow> bx_core" where
  "bx_source_clear self =
     self\<lparr>bx_queue := [], bx_dequeue_event := True, bx_idle_event := True,
          bx_occupancy_bytes := 0, bx_occupancy_frames := 0\<rparr>"

subsection \<open>The process\<close>

definition bx_in_gap :: "bx_cfg \<Rightarrow> bx_core \<Rightarrow> bool" where
  "bx_in_gap cfg self \<longleftrightarrow>
     bx_ifg_cnt self + bx_deficit self > 8 - 1 \<or> \<not> bc_enable_dic cfg \<and> bx_ifg_cnt self > 4"

definition bx_pass_gap :: "bx_cfg \<Rightarrow> bx_core \<Rightarrow> bx_core" where
  "bx_pass_gap cfg self =
     (let ifg_cnt = bx_ifg_cnt self - 8
      in if ifg_cnt < 0 then
           self\<lparr>bx_deficit := (if bc_enable_dic cfg then max (bx_deficit self + ifg_cnt) 0 else bx_deficit self),
                bx_ifg_cnt := 0\<rparr>
         else self\<lparr>bx_ifg_cnt := ifg_cnt\<rparr>)"

definition bx_offset_start :: "bx_cfg \<Rightarrow> bx_core \<Rightarrow> bool" where
  "bx_offset_start cfg self \<longleftrightarrow>
     bx_ifg_cnt self > (if bc_enable_dic cfg then 3 - bx_deficit self else 0) \<or> bc_force_offset_start cfg"

definition bx_load :: "bx_cfg \<Rightarrow> bx_frame \<Rightarrow> bx_core \<Rightarrow> bx_core" where
  \<comment> \<open>the counters and the frame, once it has its start and its terminate character\<close>
  "bx_load cfg frame self =
     (let off = bx_offset_start cfg self;
          ifg_cnt = (if off then bx_ifg_cnt self - 4 else bx_ifg_cnt self)
      in self\<lparr>bx_cur := Some frame,
              bx_deficit := (if bc_enable_dic cfg then max (bx_deficit self + ifg_cnt) 0 else bx_deficit self),
              bx_ifg_cnt := 0, bx_active := True, bx_frame_offset := 0\<rparr>)"

definition bx_start :: "eth_codes \<Rightarrow> 'a frame_class \<Rightarrow> bx_cfg \<Rightarrow> bx_core \<Rightarrow> bx_core result" where
  "bx_start K C cfg self =
     bindR (pop0 (bx_queue self)) (\<lambda>(frame, q).
       let self = self\<lparr>bx_queue := q, bx_dequeue_event := True,
                       bx_occupancy_bytes := bx_occupancy_bytes self - fc_len C frame,
                       bx_occupancy_frames := bx_occupancy_frames self - 1\<rparr>;
           frame = fc_normalize C frame;
           off = bx_offset_start cfg self
       in bindR (nthR (bf_data frame) 0) (\<lambda>d. bindR (assertR (d = k_PRE K)) (\<lambda>_.
          case bf_ctrl frame of
            None \<Rightarrow> Inl TypeError
          | Some ctrl \<Rightarrow> bindR (nthR ctrl 0) (\<lambda>c. bindR (assertR (c = 0)) (\<lambda>_.
              let data = (bf_data frame)[0 := k_START K] @ [k_TERM K];
                  ctrl = ctrl[0 := 1] @ [1]
              in Inr (bx_load cfg
                   (frame\<lparr>bf_start_lane := Some (if off then 4 else 0),
                          bf_data := (if off then replicate 4 (k_IDLE K) @ data else data),
                          bf_ctrl := Some (if off then replicate 4 1 @ ctrl else ctrl)\<rparr>) self))))))"

definition bx_advance :: "eth_codes \<Rightarrow> 'a frame_class \<Rightarrow> bx_cfg \<Rightarrow> bx_core \<Rightarrow> bx_core result" where
  "bx_advance K C cfg self =
     (if bx_in_gap cfg self then Inr (bx_pass_gap cfg self)
      else if bx_cur self = None then
        (if bx_queue self \<noteq> [] then bx_start K C cfg self
         else Inr (self\<lparr>bx_deficit := 0, bx_ifg_cnt := 0\<rparr>))
      else Inr self)"

fun bx_lanes :: "eth_codes \<Rightarrow> bx_cfg \<Rightarrow> nat \<Rightarrow> nat \<Rightarrow> bx_core \<Rightarrow> (lane list \<times> bx_core) result" where
  \<comment> \<open>\<open>n\<close> lanes, from lane \<open>k\<close> on\<close>
  "bx_lanes K cfg 0 k self = Inr ([], self)"
| "bx_lanes K cfg (Suc n) k self =
     bindR
       (case bx_cur self of
          None \<Rightarrow> Inr ((k_IDLE K, 1), self)
        | Some frame \<Rightarrow>
            bindR (nthR (bf_data frame) (bx_frame_offset self)) (\<lambda>d.
            case bf_ctrl frame of
              None \<Rightarrow> Inl TypeError
            | Some ctrl \<Rightarrow>
                bindR (nthR ctrl (bx_frame_offset self)) (\<lambda>c.
                  let self = self\<lparr>bx_frame_offset := bx_frame_offset self + 1\<rparr>
                  in Inr ((d, c),
                    if bx_frame_offset self \<ge> length (bf_data frame)
                    then self\<lparr>bx_ifg_cnt := max (bc_ifg cfg - (8 - int k)) 0, bx_cur := None\<rparr>
                    else self))))
       (\<lambda>(l, self). bindR (bx_lanes K cfg n (k + 1) self) (\<lambda>(ls, self). Inr (l # ls, self)))"

definition bx_next :: "eth_codes \<Rightarrow> 'a frame_class \<Rightarrow> bx_cfg \<Rightarrow> bx_core \<Rightarrow> ((int \<times> int) \<times> bx_core) result" where
  \<comment> \<open>header and data of the block, before the scrambler\<close>
  "bx_next K C cfg self =
     bindR (bx_advance K C cfg self) (\<lambda>self.
       if bx_cur self \<noteq> None then
         bindR (bx_lanes K cfg 8 0 self) (\<lambda>(ls, self). Inr (bx_encode K ls, self))
       else Inr ((k_SYNC_CTRL K, k_BT_CTRL K), self\<lparr>bx_active := False, bx_idle_event := True\<rparr>))"

definition bx_slip :: "int \<Rightarrow> int \<Rightarrow> int \<times> int \<Rightarrow> int \<times> (int \<times> int)" where
  \<comment> \<open>the stream shifted by \<open>bit_offset\<close>: the new \<open>last_d\<close>, and the block\<close>
  "bx_slip off last_d w =
     (case w of (header, data) \<Rightarrow>
      if off \<noteq> 0 then
        (let d = shl data 2 OR header;
             out_d = shr (last_d OR shl d 66) (nat (66 - off)) AND 0x3ffffffffffffffff
         in (d, (out_d AND 3, shr out_d 2)))
      else (last_d, w))"

definition bx_drive :: "baser_line \<Rightarrow> bool \<Rightarrow> int \<times> int \<Rightarrow> bx_driver \<Rightarrow> bx_driver result" where
  "bx_drive line slip w self =
     (case w of (header, data) \<Rightarrow>
      let (st, data) = (if bl_scramble line then baser_scramble (bd_scrambler self) data
                        else (bd_scrambler self, data));
          bit_offset = (if slip then bd_bit_offset self + 1 else bd_bit_offset self);
          bit_offset = max 0 bit_offset mod 66;
          (last_d, (header, data)) = bx_slip bit_offset (bd_last_d self) (header, data);
          data = (if bl_reverse line then reverse_bits 64 data else data);
          header = (if bl_reverse line then reverse_bits 2 header else header)
      in if fits (Some 64) data \<and> fits (Some 2) header
         then Inr \<lparr>bd_scrambler = st, bd_last_d = last_d, bd_bit_offset = bit_offset,
                   bd_data = data, bd_header = header\<rparr>
         else Inl OverflowError)"

type_synonym bx_source = "bx_core \<times> bx_driver"

definition bx_source_step ::
  "eth_codes \<Rightarrow> 'a frame_class \<Rightarrow> bx_cfg \<Rightarrow> baser_line \<Rightarrow> bool \<Rightarrow> bool \<Rightarrow> bx_source \<Rightarrow> bx_source result" where
  "bx_source_step K C cfg line slip enable self =
     (if \<not> enable then Inr self
      else bindR (bx_next K C cfg (fst self)) (\<lambda>(w, core).
           bindR (bx_drive line slip w (snd self)) (\<lambda>driver. Inr (core, driver))))"

section \<open>BaseRSerdesSink\<close>

record bx_sink =
  bk_queue :: "bx_frame list"
  bk_occupancy_bytes :: int
  bk_occupancy_frames :: int
  bk_active :: bool
  bk_active_event :: bool
  bk_cur :: "bx_frame option"
  bk_state :: int \<comment> \<open>\<open>scrambler_state\<close>\<close>

definition bx_sink0 :: bx_sink where
  "bx_sink0 =
     \<lparr>bk_queue = [], bk_occupancy_bytes = 0, bk_occupancy_frames = 0, bk_active = False, bk_active_event = False,
      bk_cur = None, bk_state = 0\<rparr>"

definition bx_recv_frame :: "'a frame_class \<Rightarrow> bool \<Rightarrow> bx_frame \<Rightarrow> bx_sink \<Rightarrow> bx_frame \<times> bx_sink" where
  \<comment> \<open>\<open>_recv\<close>\<close>
  "bx_recv_frame C compact frame self =
     (if compact then fc_compact C frame else frame,
      self\<lparr>bk_active_event := (if bk_queue self = [] then False else bk_active_event self),
           bk_occupancy_bytes := bk_occupancy_bytes self - fc_len C frame,
           bk_occupancy_frames := bk_occupancy_frames self - 1\<rparr>)"

definition bx_recv_nowait :: "'a frame_class \<Rightarrow> bool \<Rightarrow> bx_sink \<Rightarrow> (bx_frame \<times> bx_sink) result" where
  "bx_recv_nowait C compact self =
     (case bk_queue self of
        [] \<Rightarrow> Inl QueueEmpty
      | frame # q \<Rightarrow> Inr (bx_recv_frame C compact frame (self\<lparr>bk_queue := q\<rparr>)))"

definition bx_sink_count :: "bx_sink \<Rightarrow> nat" where
  "bx_sink_count self = length (bk_queue self)"

definition bx_sink_empty :: "bx_sink \<Rightarrow> bool" where
  "bx_sink_empty self \<longleftrightarrow> bk_queue self = []"

definition bx_sink_idle :: "bx_sink \<Rightarrow> bool" where
  "bx_sink_idle self \<longleftrightarrow> \<not> bk_active self"

definition bx_sink_clear :: "bx_sink \<Rightarrow> bx_sink" where
  "bx_sink_clear self =
     self\<lparr>bk_queue := [], bk_active_event := False, bk_occupancy_bytes := 0, bk_occupancy_frames := 0\<rparr>"

definition bx_line_in :: "baser_line \<Rightarrow> int \<Rightarrow> int \<times> int \<Rightarrow> int \<times> (int \<times> int)" where
  \<comment> \<open>bit reversal and descrambler: the new register, and the block\<close>
  "bx_line_in line st w =
     (case w of (header, data) \<Rightarrow>
      let data = (if bl_reverse line then reverse_bits 64 data else data);
          header = (if bl_reverse line then reverse_bits 2 header else header);
          (st, data) = (if bl_scramble line then baser_descramble st data else (st, data))
      in (st, (header, data)))"

definition bx_append :: "lane \<Rightarrow> bx_frame \<Rightarrow> bx_frame result" where
  \<comment> \<open>\<open>frame.data.append(d_val)\<close>, \<open>frame.ctrl.append(c_val)\<close>\<close>
  "bx_append l frame =
     (case bf_ctrl frame of
        None \<Rightarrow> Inl AttributeError
      | Some ctrl \<Rightarrow> Inr (frame\<lparr>bf_data := bf_data frame @ [fst l], bf_ctrl := Some (ctrl @ [snd l])\<rparr>))"

definition bx_take_lane :: "eth_codes \<Rightarrow> 'a frame_class \<Rightarrow> nat \<Rightarrow> lane \<Rightarrow> bx_sink \<Rightarrow> bx_sink result" where
  "bx_take_lane K C offset l self =
     (case bk_cur self of
        None \<Rightarrow>
          if snd l \<noteq> 0 \<and> fst l = k_START K then
            Inr (self\<lparr>bk_cur := Some ((fc_pair C [k_PRE K] [0])\<lparr>bf_start_lane := Some offset\<rparr>)\<rparr>)
          else Inr self
      | Some frame \<Rightarrow>
          if snd l \<noteq> 0 then
            bindR (if fst l \<noteq> k_TERM K then bx_append l frame else Inr frame) (\<lambda>frame.
              let frame = fc_compact C frame
              in Inr (self\<lparr>bk_occupancy_bytes := bk_occupancy_bytes self + fc_len C frame,
                           bk_occupancy_frames := bk_occupancy_frames self + 1,
                           bk_queue := bk_queue self @ [frame], bk_active_event := True, bk_cur := None\<rparr>))
          else bindR (bx_append l frame) (\<lambda>frame. Inr (self\<lparr>bk_cur := Some frame\<rparr>)))"

fun bx_collect :: "eth_codes \<Rightarrow> 'a frame_class \<Rightarrow> nat \<Rightarrow> lane list \<Rightarrow> bx_sink \<Rightarrow> bx_sink result" where
  "bx_collect K C offset [] self = Inr self"
| "bx_collect K C offset (l # ls) self =
     bindR (bx_take_lane K C offset l self) (bx_collect K C (offset + 1) ls)"

definition bx_take_block :: "eth_codes \<Rightarrow> 'a frame_class \<Rightarrow> int \<times> int \<Rightarrow> bx_sink \<Rightarrow> bx_sink result" where
  "bx_take_block K C w self = bindR (bx_decode K w) (\<lambda>ls. bx_collect K C 0 ls self)"

definition bx_sink_step ::
  "eth_codes \<Rightarrow> 'a frame_class \<Rightarrow> baser_line \<Rightarrow> bool \<Rightarrow> int \<times> int \<Rightarrow> bx_sink \<Rightarrow> bx_sink result" where
  "bx_sink_step K C line enable w self =
     (if \<not> enable then Inr self
      else case bx_line_in line (bk_state self) w of (st, b) \<Rightarrow>
        bx_take_block K C b (self\<lparr>bk_state := st\<rparr>))"

end
