(* ===== verification/Baser_Cocotb_Link.thy ===== *)
theory Baser_Cocotb_Link
  imports Baser_Cocotb
begin

text \<open>
  The link of \<open>BaseRSerdesSource\<close> and \<open>BaseRSerdesSink\<close> of \<open>baser.py\<close>: without scrambler, slip and reversal it is an instance
  of the locale \<open>wire_link\<close>; with the first and the last, a run refines the run without.
\<close>

section \<open>What the link needs of the frame class\<close>

definition frame_laws :: "'a frame_class \<Rightarrow> bool" where
  \<comment> \<open>the two-argument constructor keeps its arguments; \<open>compact\<close> keeps the data and drops the control bits when all are 0\<close>
  "frame_laws C \<longleftrightarrow>
     (\<forall>d c. bf_data (fc_pair C d c) = d \<and> bf_ctrl (fc_pair C d c) = Some c)
     \<and> (\<forall>f. bf_data (fc_compact C f) = bf_data f)
     \<and> (\<forall>f n. bf_ctrl f = Some (replicate n 0) \<longrightarrow> bf_ctrl (fc_compact C f) = None)"

definition bx_octets :: "'a frame_class \<Rightarrow> bx_frame \<Rightarrow> int list" where
  "bx_octets C f = bf_data (fc_normalize C f)"

definition bx_sendable :: "'a frame_class \<Rightarrow> bx_frame \<Rightarrow> bool" where
  \<comment> \<open>octets without control characters that start with a preamble octet and fill a block\<close>
  "bx_sendable C f \<longleftrightarrow>
     bf_ctrl (fc_normalize C f) = Some (replicate (length (bx_octets C f)) 0)
     \<and> list_all (in_lane 8) (bx_octets C f) \<and> 8 \<le> length (bx_octets C f) \<and> hd (bx_octets C f) = ETH_PRE"

definition bx_image :: "'a frame_class \<Rightarrow> bx_frame \<Rightarrow> int list \<times> int list option" where
  "bx_image C f = (bx_octets C f, None)"

definition data_lanes :: "int list \<Rightarrow> lane list" where
  "data_lanes ds = map (\<lambda>d. (d, 0)) ds"

lemma data_lanes_simps [simp]:
  "data_lanes (ds @ es) = data_lanes ds @ data_lanes es" "data_lanes (d # ds) = (d, 0) # data_lanes ds"
  "data_lanes [] = []" "length (data_lanes ds) = length ds"
  "take n (data_lanes ds) = data_lanes (take n ds)" "drop n (data_lanes ds) = data_lanes (drop n ds)"
  by (simp_all add: data_lanes_def take_map drop_map)

lemma data_lanes_data [simp]: "list_all (in_lane 8) ds \<Longrightarrow> list_all data_lane (data_lanes ds)"
  by (auto simp: data_lanes_def data_lane_def list_all_iff)

definition bx_code :: "'a frame_class \<Rightarrow> bx_frame \<Rightarrow> (int \<times> int) list \<Rightarrow> bool" where
  "bx_code C f ws \<longleftrightarrow> bx_sendable C f
     \<and> ws \<in> {frame_code (frame_lanes (data_lanes (bx_octets C f))),
             frame_code (replicate 4 idle_lane @ frame_lanes (data_lanes (bx_octets C f)))}"

section \<open>The lanes of a block\<close>

definition cur_lanes :: "bx_core \<Rightarrow> lane list" where
  \<comment> \<open>the lanes left of the frame under way\<close>
  "cur_lanes s =
     (case bx_cur s of
        None \<Rightarrow> []
      | Some f \<Rightarrow> drop (bx_frame_offset s) (zip (bf_data f) (case bf_ctrl f of Some c \<Rightarrow> c | None \<Rightarrow> [])))"

definition cur_ok :: "bx_core \<Rightarrow> bool" where
  "cur_ok s \<longleftrightarrow> (\<forall>f. bx_cur s = Some f \<longrightarrow>
     (\<exists>c. bf_ctrl f = Some c \<and> length c = length (bf_data f) \<and> bx_frame_offset s < length c))"

definition after_lanes :: "bx_cfg \<Rightarrow> nat \<Rightarrow> nat \<Rightarrow> bx_core \<Rightarrow> bx_core" where
  \<comment> \<open>\<open>n\<close> lanes from lane \<open>k\<close> on\<close>
  "after_lanes cfg n k s =
     (let r = length (cur_lanes s)
      in if r = 0 then s
         else if r \<le> n then s\<lparr>bx_frame_offset := bx_frame_offset s + r,
             bx_ifg_cnt := max (bc_ifg cfg - (8 - int (k + r - 1))) 0, bx_cur := None\<rparr>
         else s\<lparr>bx_frame_offset := bx_frame_offset s + n\<rparr>)"

lemma cur_lanes_None: "bx_cur s = None \<Longrightarrow> cur_lanes s = []"
  by (simp add: cur_lanes_def)

lemma cur_lanes_Some: "cur_ok s \<Longrightarrow> bx_cur s = Some f \<Longrightarrow> cur_lanes s \<noteq> []"
  by (auto simp: cur_ok_def cur_lanes_def)

lemma bx_lanes_idle: "bx_cur s = None \<Longrightarrow> bx_lanes K cfg n k s = Inr (replicate n (k_IDLE K, 1), s)"
  by (induction n arbitrary: k) simp_all

lemma bx_lanes_spec:
  "cur_ok s \<Longrightarrow> bx_lanes K cfg n k s =
    Inr (take n (cur_lanes s) @ replicate (n - length (cur_lanes s)) (k_IDLE K, 1), after_lanes cfg n k s)"
proof (induction n arbitrary: k s)
  case 0
  then show ?case by (cases "bx_cur s") (auto simp: after_lanes_def cur_lanes_None Let_def)
next
  case (Suc n)
  show ?case
  proof (cases "bx_cur s")
    case None
    then show ?thesis by (simp add: bx_lanes_idle cur_lanes_None after_lanes_def)
  next
    case (Some f)
    obtain c where c: "bf_ctrl f = Some c" "length c = length (bf_data f)" "bx_frame_offset s < length c"
      using Suc.prems Some by (auto simp: cur_ok_def)
    let ?o = "bx_frame_offset s" and ?d = "bf_data f"
    have r: "cur_lanes s = (?d ! ?o, c ! ?o) # drop (?o + 1) (zip ?d c)"
      using c Some by (simp add: cur_lanes_def Cons_nth_drop_Suc [symmetric])
    have len: "length (cur_lanes s) = length ?d - ?o" using Some c by (simp add: cur_lanes_def)
    show ?thesis
    proof (cases "length ?d \<le> ?o + 1")
      case True
      then have "length ?d = ?o + 1" using c by simp
      then show ?thesis using Some c r len by (simp add: after_lanes_def Let_def bx_lanes_idle nthR_def)
    next
      case False
      define s1 where "s1 = s\<lparr>bx_frame_offset := Suc ?o\<rparr>"
      have o1: "bx_frame_offset s1 = Suc ?o" by (simp add: s1_def)
      have ok: "cur_ok s1" using False c Some by (simp add: cur_ok_def s1_def)
      have r1: "cur_lanes s1 = drop (?o + 1) (zip ?d c)" using Some c by (simp add: cur_lanes_def s1_def)
      have "after_lanes cfg n (k + 1) s1 = after_lanes cfg (Suc n) k s"
        using False c len r1 by (auto simp: after_lanes_def Let_def s1_def)
      then show ?thesis
        using Some c False r r1 Suc.IH [OF ok, of "k + 1"] o1 by (simp add: nthR_def s1_def [symmetric] Let_def)
    qed
  qed
qed

lemma bx_lanes_block:
  assumes "cur_ok s" "std_values K"
  shows "bx_lanes K cfg 8 0 s = Inr (pad 8 (take 8 (cur_lanes s)), after_lanes cfg 8 0 s)"
  using bx_lanes_spec [OF assms(1), of K cfg 8 0]
  by (simp add: pad_def idle_lane_def std_values_simps [OF assms(2)] min_def)

section \<open>The source as a wire source\<close>

text \<open>
  The state is that of the queue and the process, with the block that the driver is given.  As on the line, the block has to fit
  the two signals.
\<close>

type_synonym bx_plain = "bx_core \<times> int \<times> int"

definition bx_plain_step :: "eth_codes \<Rightarrow> 'a frame_class \<Rightarrow> bx_cfg \<Rightarrow> bx_plain \<Rightarrow> bx_plain result" where
  "bx_plain_step K C cfg s = bindR (bx_next K C cfg (fst s)) (\<lambda>(w, core).
     if block_fits w then Inr (core, w) else Inl OverflowError)"

definition bx_plain_send :: "'a frame_class \<Rightarrow> bx_frame \<Rightarrow> bx_plain \<Rightarrow> bx_plain" where
  "bx_plain_send C f s = (bx_put C f (fst s), snd s)"

definition cur_code :: "bx_core \<Rightarrow> (int \<times> int) list" where
  "cur_code s = frame_code (cur_lanes s)"

definition bx_coming :: "bx_plain \<Rightarrow> (int \<times> int) list" where
  "bx_coming s = (if bx_cur (fst s) = None \<and> baser_idle (snd s) then [] else snd s # cur_code (fst s))"

definition bx_gap :: "bx_cfg \<Rightarrow> bx_plain \<Rightarrow> nat" where
  "bx_gap cfg s = (if bx_in_gap cfg (fst s) then nat (bx_ifg_cnt (fst s) + bx_deficit (fst s)) else 0)"

definition bx_inv :: "bx_cfg \<Rightarrow> bx_plain \<Rightarrow> bool" where
  "bx_inv cfg s \<longleftrightarrow> (case s of (core, w) \<Rightarrow>
     cur_ok core \<and> 0 \<le> bx_deficit core \<and> bx_deficit core \<le> 3
     \<and> 0 \<le> bx_ifg_cnt core \<and> bx_ifg_cnt core \<le> max 0 (bc_ifg cfg)
     \<and> (bx_cur core \<noteq> None \<longrightarrow> bx_ifg_cnt core = 0
         \<and> list_all baser_block (map (pad 8) (chunks 8 (cur_lanes core))) \<and> term_block (List.last (cur_code core))))"

lemma cur_code_Nil [simp]: "bx_cur s = None \<Longrightarrow> cur_code s = []"
  by (simp add: cur_code_def cur_lanes_None frame_code_def)

lemma frame_code_Cons: "ls \<noteq> [] \<Longrightarrow> frame_code ls = baser_encode (pad 8 (take 8 ls)) # frame_code (drop 8 ls)"
  by (simp add: frame_code_def chunks_Cons)

text \<open>One block of the frame under way.\<close>

lemma after_lanes_keep [simp]:
  "bx_queue (after_lanes cfg n k s) = bx_queue s" "bx_deficit (after_lanes cfg n k s) = bx_deficit s"
  by (simp_all add: after_lanes_def Let_def)

lemma after_lanes_cur:
  assumes "cur_ok s" "bx_cur s \<noteq> None"
  shows "cur_ok (after_lanes cfg 8 0 s)" "cur_lanes (after_lanes cfg 8 0 s) = drop 8 (cur_lanes s)"
    "bx_cur (after_lanes cfg 8 0 s) = None \<longleftrightarrow> length (cur_lanes s) \<le> 8"
    "bx_ifg_cnt (after_lanes cfg 8 0 s) =
      (if length (cur_lanes s) \<le> 8 then max (bc_ifg cfg - (9 - int (length (cur_lanes s)))) 0 else bx_ifg_cnt s)"
proof -
  obtain f c where f: "bx_cur s = Some f" "bf_ctrl f = Some c" "length c = length (bf_data f)" "bx_frame_offset s < length c"
    using assms by (auto simp: cur_ok_def)
  have len: "length (cur_lanes s) = length c - bx_frame_offset s" using f by (simp add: cur_lanes_def)
  show "cur_ok (after_lanes cfg 8 0 s)"
    using f len by (auto simp: after_lanes_def cur_ok_def Let_def)
  show "cur_lanes (after_lanes cfg 8 0 s) = drop 8 (cur_lanes s)"
  proof (cases "length (cur_lanes s) \<le> 8")
    case True
    then show ?thesis using f len by (simp add: after_lanes_def Let_def cur_lanes_None)
  next
    case False
    then show ?thesis using f len by (simp add: after_lanes_def Let_def cur_lanes_def add.commute)
  qed
  show "bx_cur (after_lanes cfg 8 0 s) = None \<longleftrightarrow> length (cur_lanes s) \<le> 8"
    using f len by (auto simp: after_lanes_def Let_def)
  show "bx_ifg_cnt (after_lanes cfg 8 0 s) =
      (if length (cur_lanes s) \<le> 8 then max (bc_ifg cfg - (9 - int (length (cur_lanes s)))) 0 else bx_ifg_cnt s)"
    using f len by (auto simp: after_lanes_def Let_def of_nat_diff)
qed

lemma bx_emit:
  fixes cfg :: bx_cfg
  assumes K: "std_values K" and s: "cur_ok s" "bx_cur s \<noteq> None" "0 \<le> bx_deficit s" "bx_deficit s \<le> 3" "bx_ifg_cnt s = 0"
    and b: "list_all baser_block (map (pad 8) (chunks 8 (cur_lanes s)))" "term_block (List.last (cur_code s))"
  defines "s' \<equiv> after_lanes cfg 8 0 s" and "w \<equiv> baser_encode (pad 8 (take 8 (cur_lanes s)))"
  shows "bindR (bx_lanes K cfg 8 0 s) (\<lambda>(ls, s). Inr (bx_encode K ls, s)) = Inr (w, s')"
    "bx_inv cfg (s', w)" "bx_coming (s', w) = cur_code s" "bx_queue s' = bx_queue s" "block_fits w \<and> bx_deficit s' = bx_deficit s"
proof -
  have ne: "cur_lanes s \<noteq> []" using s(1,2) cur_lanes_Some by auto
  then have ch: "chunks 8 (cur_lanes s) = take 8 (cur_lanes s) # chunks 8 (drop 8 (cur_lanes s))"
    by (simp add: chunks_Cons)
  have blk: "baser_block (pad 8 (take 8 (cur_lanes s)))" using b(1) ch by simp
  show "bindR (bx_lanes K cfg 8 0 s) (\<lambda>(ls, s). Inr (bx_encode K ls, s)) = Inr (w, s')"
    by (simp add: bx_lanes_block [OF s(1) K] bx_encode_std [OF K blk] w_def s'_def)
  have code: "cur_code s = w # cur_code s'"
    using frame_code_Cons [OF ne] by (simp add: cur_code_def w_def s'_def after_lanes_cur(2) [OF s(1,2)])
  note cur = after_lanes_cur [OF s(1,2), of cfg, folded s'_def]
  have rest: "list_all baser_block (map (pad 8) (chunks 8 (cur_lanes s')))" using b(1) ch cur(2) by simp
  have fin: "bx_cur s' = None \<Longrightarrow> cur_code s' = []" by simp
  have more: "cur_code s' \<noteq> []" if "bx_cur s' \<noteq> None"
    using that cur by (simp add: cur_code_def frame_code_def)
  show "bx_inv cfg (s', w)"
    using s cur(1,4) rest b(2) more cur(3) by (auto simp: bx_inv_def s'_def [symmetric] code) (auto simp: s'_def)
  show "bx_coming (s', w) = cur_code s"
    using code b(2) term_not_idle_block [of w] by (auto simp: bx_coming_def)
  show "bx_queue s' = bx_queue s" by (simp add: s'_def)
  show "block_fits w \<and> bx_deficit s' = bx_deficit s" using encode_fits [OF blk] by (simp add: w_def s'_def)
qed

text \<open>The start of a frame.\<close>

lemma bx_start_spec:
  fixes cfg :: bx_cfg
  assumes K: "std_values K" and f: "bx_sendable C f" and q: "bx_queue s = f # fs"
  defines "ls \<equiv> frame_lanes (data_lanes (bx_octets C f))" and "off \<equiv> bx_offset_start cfg s"
  shows "\<exists>s1. bx_start K C cfg s = Inr s1 \<and> bx_queue s1 = fs \<and> cur_ok s1 \<and> bx_cur s1 \<noteq> None
    \<and> cur_lanes s1 = (if off then replicate 4 idle_lane @ ls else ls) \<and> bx_ifg_cnt s1 = 0
    \<and> bx_deficit s1 = (if bc_enable_dic cfg
        then max (bx_deficit s + (if off then bx_ifg_cnt s - 4 else bx_ifg_cnt s)) 0 else bx_deficit s)"
proof -
  obtain d ds where ds: "bx_octets C f = d # ds" "d = ETH_PRE"
    using f by (cases "bx_octets C f") (auto simp: bx_sendable_def)
  have n: "bf_data (fc_normalize C f) = d # ds" "bf_ctrl (fc_normalize C f) = Some (0 # replicate (length ds) 0)"
    using f ds by (simp_all add: bx_sendable_def bx_octets_def)
  define s0 where "s0 = s\<lparr>bx_queue := fs, bx_dequeue_event := True,
    bx_occupancy_bytes := bx_occupancy_bytes s - fc_len C f, bx_occupancy_frames := bx_occupancy_frames s - 1\<rparr>"
  define dat ctl where "dat = XGMII_START # ds @ [XGMII_TERM]" and "ctl = 1 # replicate (length ds) (0 :: int) @ [1]"
  have off: "bx_offset_start cfg s0 = off" by (simp add: s0_def off_def bx_offset_start_def)
  define fr where "fr = (fc_normalize C f)\<lparr>bf_start_lane := Some (if off then 4 else 0),
      bf_data := (if off then replicate 4 XGMII_IDLE @ dat else dat),
      bf_ctrl := Some (if off then replicate 4 1 @ ctl else ctl)\<rparr>"
  have run: "bx_start K C cfg s = Inr (bx_load cfg fr s0)"
    using q n ds(2) off by (simp add: bx_start_def s0_def [symmetric] nthR_def std_values_simps [OF K] Let_def fr_def dat_def ctl_def)
  have z: "zip dat ctl = ls"
  proof -
    have "zip (ds @ [XGMII_TERM]) (replicate (length ds) 0 @ [1]) = data_lanes ds @ [(XGMII_TERM, 1)]"
      by (simp add: zip_replicate2 data_lanes_def)
    then show ?thesis using ds by (simp add: dat_def ctl_def ls_def frame_lanes_def)
  qed
  have len: "length dat = length ctl" by (simp add: dat_def ctl_def)
  have "zip (replicate 4 XGMII_IDLE @ dat) (replicate 4 1 @ ctl) = replicate 4 idle_lane @ ls"
    using z by (simp add: idle_lane_def zip_replicate1 map_replicate_const)
  then have "cur_lanes (bx_load cfg fr s0) = (if off then replicate 4 idle_lane @ ls else ls)"
    using z by (simp add: bx_load_def cur_lanes_def fr_def Let_def)
  moreover have "cur_ok (bx_load cfg fr s0)"
    using len by (auto simp: bx_load_def cur_ok_def fr_def Let_def ctl_def)
  moreover have "bx_queue (bx_load cfg fr s0) = fs" "bx_cur (bx_load cfg fr s0) \<noteq> None" "bx_ifg_cnt (bx_load cfg fr s0) = 0"
    "bx_deficit (bx_load cfg fr s0) = (if bc_enable_dic cfg
        then max (bx_deficit s + (if off then bx_ifg_cnt s - 4 else bx_ifg_cnt s)) 0 else bx_deficit s)"
    using off by (simp_all add: bx_load_def Let_def s0_def)
  ultimately show ?thesis using run by blast
qed

lemma octet_frame_blocks:
  assumes "bx_sendable C f"
    "fl = frame_lanes (data_lanes (bx_octets C f)) \<or> fl = replicate 4 idle_lane @ frame_lanes (data_lanes (bx_octets C f))"
  shows "list_all baser_block (map (pad 8) (chunks 8 fl))" "term_block (List.last (frame_code fl))"
    "frame_code fl \<noteq> []" "length (frame_code fl) \<le> (length (bx_octets C f) + 12) div 8"
proof -
  have l: "list_all data_lane (data_lanes (bx_octets C f))" "8 \<le> length (data_lanes (bx_octets C f))"
    using assms(1) by (simp_all add: bx_sendable_def)
  show "list_all baser_block (map (pad 8) (chunks 8 fl))" "term_block (List.last (frame_code fl))"
    using frame_blocks [OF l assms(2)] by (simp_all add: frame_code_def)
  have "fl \<noteq> []" using assms(2) by (auto simp: frame_lanes_def)
  then show "frame_code fl \<noteq> []" by (simp add: frame_code_def)
  have "length fl \<le> length (bx_octets C f) + 5"
    using assms(2) l(2) by (auto simp: frame_lanes_def)
  then show "length (frame_code fl) \<le> (length (bx_octets C f) + 12) div 8"
    by (auto simp: frame_code_def chunks_count intro!: div_le_mono)
qed

lemma bx_step_start:
  assumes K: "std_values K" and i: "bx_inv cfg s" "bx_cur (fst s) = None" "bx_queue (fst s) = f # fs" "bx_gap cfg s = 0"
    and f: "bx_sendable C f"
  shows "\<exists>s'. bx_plain_step K C cfg s = Inr s' \<and> bx_inv cfg s' \<and> bx_code C f (bx_coming s') \<and> bx_queue (fst s') = fs"
proof -
  obtain c w where s: "s = (c, w)" by (cases s)
  have inv: "0 \<le> bx_deficit c" "bx_deficit c \<le> 3" "0 \<le> bx_ifg_cnt c" using i(1) s by (simp_all add: bx_inv_def)
  have ng: "\<not> bx_in_gap cfg c"
    using i(4) inv s by (auto simp: bx_gap_def bx_in_gap_def split: if_splits)
  let ?ls = "frame_lanes (data_lanes (bx_octets C f))"
  obtain c1 where c1: "bx_start K C cfg c = Inr c1" "bx_queue c1 = fs" "cur_ok c1" "bx_cur c1 \<noteq> None"
      "cur_lanes c1 = (if bx_offset_start cfg c then replicate 4 idle_lane @ ?ls else ?ls)" "bx_ifg_cnt c1 = 0"
      "bx_deficit c1 = (if bc_enable_dic cfg
        then max (bx_deficit c + (if bx_offset_start cfg c then bx_ifg_cnt c - 4 else bx_ifg_cnt c)) 0 else bx_deficit c)"
    using bx_start_spec [OF K f, of c fs cfg] i(3) s by auto
  have d: "0 \<le> bx_deficit c1" "bx_deficit c1 \<le> 3"
    using inv ng c1(7) by (auto simp: bx_in_gap_def bx_offset_start_def)
  note fb = octet_frame_blocks [OF f, of "cur_lanes c1"]
  have fl: "cur_lanes c1 = ?ls \<or> cur_lanes c1 = replicate 4 idle_lane @ ?ls" using c1(5) by simp
  note em = bx_emit [OF K c1(3,4) d c1(6) fb(1) [OF fl] fb(2) [OF fl, folded cur_code_def], of cfg]
  have "bx_advance K C cfg c = Inr c1" using ng i(2,3) s c1(1) by (simp add: bx_advance_def)
  then have "bx_plain_step K C cfg s =
      Inr (after_lanes cfg 8 0 c1, baser_encode (pad 8 (take 8 (cur_lanes c1))))"
    using em(1,5) c1(4) s by (auto simp: bx_plain_step_def bx_next_def)
  moreover have "bx_code C f (cur_code c1)" using f fl by (auto simp: bx_code_def cur_code_def)
  ultimately show ?thesis using em(2,3) c1(2) by auto
qed

lemma bx_step_idle:
  assumes K: "std_values K" and i: "bx_inv cfg s" "bx_cur (fst s) = None" "bx_queue (fst s) = [] \<or> bx_gap cfg s \<noteq> 0"
  shows "\<exists>s'. bx_plain_step K C cfg s = Inr s' \<and> bx_inv cfg s' \<and> bx_coming s' = []
    \<and> bx_queue (fst s') = bx_queue (fst s) \<and> bx_gap cfg s' \<le> bx_gap cfg s - 1"
proof -
  obtain c w where s: "s = (c, w)" by (cases s)
  define c1 where "c1 = (if bx_in_gap cfg c then bx_pass_gap cfg c else c\<lparr>bx_deficit := 0, bx_ifg_cnt := 0\<rparr>)"
  define c2 where "c2 = c1\<lparr>bx_active := False, bx_idle_event := True\<rparr>"
  have inv: "0 \<le> bx_deficit c" "bx_deficit c \<le> 3" "0 \<le> bx_ifg_cnt c" "bx_ifg_cnt c \<le> max 0 (bc_ifg cfg)"
    using i(1) s by (simp_all add: bx_inv_def)
  have keep: "bx_cur c1 = None" "bx_queue c1 = bx_queue c"
    using i(2) s by (simp_all add: c1_def bx_pass_gap_def Let_def)
  have "bx_queue c = [] \<or> bx_in_gap cfg c" using i(3) s by (auto simp: bx_gap_def split: if_splits)
  then have "bx_advance K C cfg c = Inr c1" using i(2) s by (auto simp: bx_advance_def c1_def)
  moreover have "block_fits idle_block" by (simp add: block_fits_def idle_block_def fits_def)
  ultimately have "bx_plain_step K C cfg s = Inr (c2, idle_block)"
    using keep s by (simp add: bx_plain_step_def bx_next_def c2_def idle_block_def std_values_simps [OF K] block_types)
  moreover have "bx_inv cfg (c2, idle_block)"
    using inv keep by (auto simp: bx_inv_def c2_def c1_def cur_ok_def bx_pass_gap_def Let_def)
  moreover have "bx_coming (c2, idle_block) = []" using keep by (simp add: bx_coming_def c2_def baser_idle_def)
  moreover have "bx_gap cfg (c2, idle_block) \<le> bx_gap cfg s - 1"
    using inv s by (auto simp: bx_gap_def c2_def c1_def bx_in_gap_def bx_pass_gap_def Let_def)
  ultimately show ?thesis using keep s by (auto simp: c2_def)
qed

lemma bx_step_coming:
  assumes K: "std_values K" and i: "bx_inv cfg s" "bx_coming s = w # v # ws"
  shows "\<exists>s'. bx_plain_step K C cfg s = Inr s' \<and> bx_inv cfg s' \<and> bx_coming s' = v # ws
    \<and> bx_queue (fst s') = bx_queue (fst s)"
proof -
  obtain c b where s: "s = (c, b)" by (cases s)
  have code: "cur_code c = v # ws" using i(2) s by (auto simp: bx_coming_def split: if_splits)
  then have cur: "bx_cur c \<noteq> None" "cur_code c = v # ws" using cur_code_Nil [of c] by auto
  have inv: "cur_ok c" "0 \<le> bx_deficit c" "bx_deficit c \<le> 3" "bx_ifg_cnt c = 0"
      "list_all baser_block (map (pad 8) (chunks 8 (cur_lanes c)))" "term_block (List.last (cur_code c))"
    using i(1) s cur by (simp_all add: bx_inv_def)
  note em = bx_emit [OF K inv(1) cur(1) inv(2-6), of cfg]
  have "bx_advance K C cfg c = Inr c" using cur(1) inv(2-4) by (auto simp: bx_advance_def bx_in_gap_def)
  then show ?thesis using em cur s by (auto simp: bx_plain_step_def bx_next_def)
qed

definition bx_span :: "'a frame_class \<Rightarrow> bx_frame \<Rightarrow> nat" where
  "bx_span C f = (length (bx_octets C f) + 12) div 8"

lemma bx_code_laws:
  assumes "bx_code C f ws"
  shows "ws \<noteq> []" "length ws \<le> bx_span C f"
proof -
  obtain fl where "bx_sendable C f" "ws = frame_code fl"
      "fl = frame_lanes (data_lanes (bx_octets C f)) \<or> fl = replicate 4 idle_lane @ frame_lanes (data_lanes (bx_octets C f))"
    using assms unfolding bx_code_def by blast
  then show "ws \<noteq> []" "length ws \<le> bx_span C f"
    using octet_frame_blocks(3,4) [of C f fl] by (simp_all add: bx_span_def)
qed

lemma bx_put_keeps [simp]:
  "bx_cur (bx_put C f c) = bx_cur c" "bx_ifg_cnt (bx_put C f c) = bx_ifg_cnt c" "bx_deficit (bx_put C f c) = bx_deficit c"
  "bx_frame_offset (bx_put C f c) = bx_frame_offset c" "bx_queue (bx_put C f c) = bx_queue c @ [f]"
  by (simp_all add: bx_put_def)

lemma bx_put_lanes [simp]:
  "cur_lanes (bx_put C f c) = cur_lanes c" "cur_ok (bx_put C f c) = cur_ok c" "bx_in_gap cfg (bx_put C f c) = bx_in_gap cfg c"
  "cur_code (bx_put C f c) = cur_code c"
  by (simp_all add: cur_lanes_def cur_ok_def bx_in_gap_def cur_code_def cong: option.case_cong)

lemma bx_send_laws:
  "bx_inv cfg s \<Longrightarrow> bx_inv cfg (bx_plain_send C f s)"
  "bx_queue (fst (bx_plain_send C f s)) = bx_queue (fst s) @ [f]"
  "bx_coming (bx_plain_send C f s) = bx_coming s"
  "bx_gap cfg (bx_plain_send C f s) = bx_gap cfg s"
  by (simp_all add: bx_plain_send_def bx_coming_def bx_gap_def bx_inv_def split_beta)

lemma bx_max_gap: "bx_inv cfg s \<Longrightarrow> bx_gap cfg s \<le> nat (max 0 (bc_ifg cfg) + 3)"
  by (auto simp: bx_gap_def bx_inv_def split: prod.splits)

lemma coming_no_cur:
  assumes "bx_inv cfg s" "bx_coming s = [] \<or> bx_coming s = [w]"
  shows "bx_cur (fst s) = None"
proof (rule ccontr)
  obtain c b where s: "s = (c, b)" by (cases s)
  assume cur: "bx_cur (fst s) \<noteq> None"
  then have "cur_lanes c \<noteq> []" using assms(1) s cur_lanes_Some [of c] by (auto simp: bx_inv_def)
  then show False using assms(2) cur s by (auto simp: bx_coming_def cur_code_def frame_code_def)
qed

section \<open>The sink as a wire sink\<close>

definition bx_view :: "bx_sink \<Rightarrow> (int list \<times> int list option) list" where
  "bx_view k = map (\<lambda>f. (bf_data f, bf_ctrl f)) (bk_queue k)"

definition bx_quiet :: "bx_sink \<Rightarrow> bool" where
  "bx_quiet k \<longleftrightarrow> bk_cur k = None"

definition holding :: "int list \<Rightarrow> bx_sink \<Rightarrow> bool" where
  "holding ds k \<longleftrightarrow> (\<exists>f. bk_cur k = Some f \<and> bf_data f = ds \<and> bf_ctrl f = Some (replicate (length ds) 0))"

lemma bx_collect_append:
  "bx_collect K C i (xs @ ys) k = bindR (bx_collect K C i xs k) (bx_collect K C (i + length xs) ys)"
  by (induction xs arbitrary: i k) (auto simp: bindR_assoc intro!: bindR_eqI)

lemma bx_collect_idle:
  "bx_quiet k \<Longrightarrow> list_all (\<lambda>l. snd l = 0 \<or> fst l \<noteq> k_START K) ls \<Longrightarrow> bx_collect K C i ls k = Inr k"
  by (induction ls arbitrary: i) (auto simp: bx_quiet_def bx_take_lane_def)

lemma bx_collect_data:
  "holding ds k \<Longrightarrow> \<exists>k'. bx_collect K C i (data_lanes es) k = Inr k' \<and> holding (ds @ es) k' \<and> bx_view k' = bx_view k"
proof (induction es arbitrary: ds k i)
  case (Cons e es)
  obtain f where f: "bk_cur k = Some f" "bf_data f = ds" "bf_ctrl f = Some (replicate (length ds) 0)"
    using Cons.prems by (auto simp: holding_def)
  define k1 where "k1 = k\<lparr>bk_cur := Some (f\<lparr>bf_data := ds @ [e], bf_ctrl := Some (replicate (length ds) 0 @ [0])\<rparr>)\<rparr>"
  have "holding (ds @ [e]) k1" by (simp add: holding_def k1_def replicate_append_same)
  moreover have "bx_take_lane K C i (e, 0) k = Inr k1" using f by (simp add: bx_take_lane_def bx_append_def k1_def)
  moreover have "bx_view k1 = bx_view k" by (simp add: bx_view_def k1_def)
  ultimately show ?case using Cons.IH [of "ds @ [e]" k1 "i + 1"] by simp
qed simp

lemma bx_collect_term:
  assumes C: "frame_laws C" and K: "std_values K" and h: "holding ds k"
  shows "\<exists>k'. bx_collect K C i ((XGMII_TERM, 1) # replicate n idle_lane) k = Inr k' \<and> bx_quiet k'
    \<and> bx_view k' = bx_view k @ [(ds, None)]"
proof -
  obtain f where f: "bk_cur k = Some f" "bf_data f = ds" "bf_ctrl f = Some (replicate (length ds) 0)"
    using h by (auto simp: holding_def)
  define k1 where "k1 = k\<lparr>bk_occupancy_bytes := bk_occupancy_bytes k + fc_len C (fc_compact C f),
    bk_occupancy_frames := bk_occupancy_frames k + 1, bk_queue := bk_queue k @ [fc_compact C f],
    bk_active_event := True, bk_cur := None\<rparr>"
  have "bx_take_lane K C i (XGMII_TERM, 1) k = Inr k1"
    using f by (simp add: bx_take_lane_def std_values_simps [OF K] k1_def Let_def)
  moreover have "bx_quiet k1" by (simp add: bx_quiet_def k1_def)
  moreover have "list_all (\<lambda>l. snd l = 0 \<or> fst l \<noteq> k_START K) (replicate n idle_lane)"
    by (rule list_all_replicate) (simp add: idle_lane_def std_values_simps [OF K] xgmii_chars)
  moreover have "bf_data (fc_compact C f) = ds" "bf_ctrl (fc_compact C f) = None"
    using C f by (auto simp: frame_laws_def)
  then have "bx_view k1 = bx_view k @ [(ds, None)]" by (simp add: bx_view_def k1_def)
  ultimately show ?thesis by (simp add: bx_collect_idle)
qed

lemma bx_take_encoded:
  assumes "std_values K" "baser_block b"
  shows "bx_take_block K C (baser_encode b) k = bx_collect K C 0 b k"
  using baser_block_back [OF assms(2)] by (simp add: bx_take_block_def bx_decode_std [OF assms(1)] block_back_def)

lemma bx_take_rest:
  assumes C: "frame_laws C" and K: "std_values K"
  shows "holding ds k \<Longrightarrow> list_all (in_lane 8) es \<Longrightarrow>
    \<exists>k'. take_words (bx_take_block K C) (frame_code (data_lanes es @ [(XGMII_TERM, 1)])) k = Inr k' \<and> bx_quiet k'
      \<and> bx_view k' = bx_view k @ [(ds @ es, None)]"
proof (induction es arbitrary: ds k rule: length_induct)
  case (1 es)
  let ?T = "[(XGMII_TERM, 1)] :: lane list"
  have dl: "list_all data_lane (data_lanes es)" using 1(3) by simp
  show ?case
  proof (cases "8 \<le> length es")
    case True
    have b: "baser_block (data_lanes (take 8 es))"
      using True dl 1(3) by (simp add: baser_block_def list_all_iff [of "in_lane 8"] list_all_iff [of data_lane] data_lanes_def data_lane_def)
        (auto dest: in_set_takeD)
    have c: "frame_code (data_lanes es @ ?T) = baser_encode (data_lanes (take 8 es)) # frame_code (data_lanes (drop 8 es) @ ?T)"
      using True frame_code_Cons [of "data_lanes es @ ?T"] by (simp add: pad_full)
    obtain k1 where k1: "bx_collect K C 0 (data_lanes (take 8 es)) k = Inr k1" "holding (ds @ take 8 es) k1" "bx_view k1 = bx_view k"
      using bx_collect_data [OF 1(2)] by blast
    have "list_all (in_lane 8) (drop 8 es)" "length (drop 8 es) < length es"
      using 1(3) True by (auto simp: list_all_iff dest: in_set_dropD)
    then obtain k2 where "take_words (bx_take_block K C) (frame_code (data_lanes (drop 8 es) @ ?T)) k1 = Inr k2" "bx_quiet k2"
        "bx_view k2 = bx_view k1 @ [((ds @ take 8 es) @ drop 8 es, None)]"
      using 1(1) k1(2) by blast
    then show ?thesis using k1 by (simp add: c bx_take_encoded [OF K b])
  next
    case False
    have p: "pad 8 (data_lanes es @ ?T) = data_lanes es @ (XGMII_TERM, 1) # replicate (7 - length es) idle_lane"
      by (simp add: pad_def)
    have b: "baser_block (pad 8 (data_lanes es @ ?T))" using encode_term_block(1) [OF dl] False by simp
    have c: "frame_code (data_lanes es @ ?T) = [baser_encode (pad 8 (data_lanes es @ ?T))]"
      using False frame_code_Cons [of "data_lanes es @ ?T"] by (simp add: frame_code_def)
    obtain k1 where k1: "bx_collect K C 0 (data_lanes es) k = Inr k1" "holding (ds @ es) k1" "bx_view k1 = bx_view k"
      using bx_collect_data [OF 1(2)] by blast
    obtain k2 where "bx_collect K C (length es) ((XGMII_TERM, 1) # replicate (7 - length es) idle_lane) k1 = Inr k2"
        "bx_quiet k2" "bx_view k2 = bx_view k1 @ [(ds @ es, None)]"
      using bx_collect_term [OF C K k1(2)] by blast
    then show ?thesis using k1 by (simp add: c bx_take_encoded [OF K b]) (simp add: p bx_collect_append)
  qed
qed

lemma bx_take_frame:
  assumes C: "frame_laws C" and K: "std_values K" and q: "bx_quiet k" and f: "bx_sendable C f"
    and fl: "fl = frame_lanes (data_lanes (bx_octets C f)) \<or> fl = replicate 4 idle_lane @ frame_lanes (data_lanes (bx_octets C f))"
  shows "\<exists>k'. take_words (bx_take_block K C) (frame_code fl) k = Inr k' \<and> bx_quiet k'
    \<and> bx_view k' = bx_view k @ [bx_image C f]"
proof -
  obtain es where es: "bx_octets C f = ETH_PRE # es"
    using f by (cases "bx_octets C f") (auto simp: bx_sendable_def)
  have oct: "list_all (in_lane 8) (bx_octets C f)" "8 \<le> length (bx_octets C f)" using f by (simp_all add: bx_sendable_def)
  define j :: nat where "j = (if fl = frame_lanes (data_lanes (bx_octets C f)) then 0 else 4)"
  have j: "j \<le> 4" and fl': "fl = replicate j idle_lane @ (XGMII_START, 1) # data_lanes es @ [(XGMII_TERM, 1)]"
    using fl es by (auto simp: j_def frame_lanes_def)
  have t: "take 8 fl = replicate j idle_lane @ (XGMII_START, 1) # data_lanes (take (7 - j) es)"
    and d: "drop 8 fl = data_lanes (drop (7 - j) es) @ [(XGMII_TERM, 1)]"
    using j oct(2) by (simp_all add: fl' es take_Cons' drop_Cons')
  have len: "length (take 8 fl) = 8" using oct(2) j by (simp add: fl' es)
  have ne: "fl \<noteq> []" by (simp add: fl')
  have c: "frame_code fl = baser_encode (take 8 fl) # frame_code (drop 8 fl)"
    using frame_code_Cons [OF ne] by (simp add: pad_full [OF len])
  have b: "baser_block (take 8 fl)"
    using octet_frame_blocks(1) [OF f fl] ne by (simp add: chunks_Cons pad_full [OF len])
  define f1 where "f1 = (fc_pair C [ETH_PRE] [0])\<lparr>bf_start_lane := Some j\<rparr>"
  define k1 where "k1 = k\<lparr>bk_cur := Some f1\<rparr>"
  have "list_all (\<lambda>l. snd l = 0 \<or> fst l \<noteq> k_START K) (replicate j idle_lane)"
    by (rule list_all_replicate) (simp add: idle_lane_def std_values_simps [OF K] xgmii_chars)
  then have start: "bx_collect K C 0 (take 8 fl) k = bx_collect K C (j + 1) (data_lanes (take (7 - j) es)) k1"
    using q by (simp add: t bx_collect_append bx_collect_idle bx_take_lane_def bx_quiet_def k1_def f1_def
      std_values_simps [OF K])
  have "holding [ETH_PRE] k1" using C by (simp add: holding_def k1_def f1_def frame_laws_def)
  then obtain k2 where k2: "bx_collect K C (j + 1) (data_lanes (take (7 - j) es)) k1 = Inr k2"
      "holding ([ETH_PRE] @ take (7 - j) es) k2" "bx_view k2 = bx_view k1"
    using bx_collect_data by blast
  have "list_all (in_lane 8) (drop (7 - j) es)" using oct(1) es by (auto simp: list_all_iff dest: in_set_dropD)
  then obtain k3 where "take_words (bx_take_block K C) (frame_code (drop 8 fl)) k2 = Inr k3" "bx_quiet k3"
      "bx_view k3 = bx_view k2 @ [(([ETH_PRE] @ take (7 - j) es) @ drop (7 - j) es, None)]"
    using bx_take_rest [OF C K k2(2), of "drop (7 - j) es"] unfolding d by blast
  moreover have "bx_view k1 = bx_view k" by (simp add: bx_view_def k1_def)
  ultimately show ?thesis using k2 start by (simp add: c bx_take_encoded [OF K b] bx_image_def es)
qed

lemma bx_take_idle:
  assumes K: "std_values K" and "bx_quiet k" "baser_idle w"
  shows "bx_take_block K C w k = Inr k"
proof -
  have "list_all (\<lambda>l. snd l = 0 \<or> fst l \<noteq> k_START K) (baser_decode w)"
    using assms(3) by (auto simp: baser_idle_def idle_block_lanes start_block_lanes std_values_simps [OF K] idle_lane_def
      xgmii_chars intro!: list_all_replicate)
  then show ?thesis using assms(2) by (simp add: bx_take_block_def bx_decode_std [OF K] bx_collect_idle)
qed

section \<open>The link without scrambler, slip and reversal\<close>

text \<open>What is assumed of the package is part of the two invariants.\<close>

definition bx_source_inv :: "eth_codes \<Rightarrow> bx_cfg \<Rightarrow> bx_plain \<Rightarrow> bool" where
  "bx_source_inv K cfg s \<longleftrightarrow> std_values K \<and> bx_inv cfg s"

definition bx_sink_quiet :: "eth_codes \<Rightarrow> 'a frame_class \<Rightarrow> bx_sink \<Rightarrow> bool" where
  "bx_sink_quiet K C k \<longleftrightarrow> std_values K \<and> frame_laws C \<and> bx_quiet k"

interpretation bx_src: wire_source
  "bx_plain_step K C cfg" snd "bx_plain_send C" "bx_source_inv K cfg" "\<lambda>s. bx_queue (fst s)" bx_coming "bx_gap cfg"
  "bx_sendable C" baser_idle "bx_code C" "bx_span C" "nat (max 0 (bc_ifg cfg) + 3)"
  for K C cfg
proof
  fix s w ws assume "bx_source_inv K cfg s" "bx_coming s = w # ws"
  then show "snd s = w" by (auto simp: bx_coming_def split: if_splits)
next
  fix s assume "bx_source_inv K cfg s" "bx_coming s = []"
  then show "baser_idle (snd s)" by (auto simp: bx_coming_def split: if_splits)
next
  fix s w assume a: "bx_source_inv K cfg s" "bx_coming s = [] \<or> bx_coming s = [w]"
    and q: "bx_queue (fst s) = [] \<or> bx_gap cfg s \<noteq> 0"
  show "\<exists>s'. bx_plain_step K C cfg s = Inr s' \<and> bx_source_inv K cfg s' \<and> bx_coming s' = []
      \<and> bx_queue (fst s') = bx_queue (fst s) \<and> bx_gap cfg s' \<le> bx_gap cfg s - 1"
    using bx_step_idle [of K cfg s C] coming_no_cur [of cfg s w] a q by (auto simp: bx_source_inv_def)
next
  fix s w f fs assume a: "bx_source_inv K cfg s" "bx_coming s = [] \<or> bx_coming s = [w]"
    and q: "bx_queue (fst s) = f # fs" "bx_gap cfg s = 0" "bx_sendable C f"
  show "\<exists>s'. bx_plain_step K C cfg s = Inr s' \<and> bx_source_inv K cfg s' \<and> bx_code C f (bx_coming s')
      \<and> bx_queue (fst s') = fs"
    using bx_step_start [of K cfg s f fs C] coming_no_cur [of cfg s w] a q by (auto simp: bx_source_inv_def)
next
  fix s w v ws assume "bx_source_inv K cfg s" "bx_coming s = w # v # ws"
  then show "\<exists>s'. bx_plain_step K C cfg s = Inr s' \<and> bx_source_inv K cfg s' \<and> bx_coming s' = v # ws
      \<and> bx_queue (fst s') = bx_queue (fst s)"
    using bx_step_coming [of K cfg s w v ws C] by (auto simp: bx_source_inv_def)
qed (simp_all add: bx_source_inv_def bx_send_laws bx_max_gap bx_code_laws)

interpretation bx_snk: wire_sink
  "bx_take_block K C" "bx_sink_quiet K C" bx_view "bx_sendable C" baser_idle "bx_code C" "bx_image C"
  for K C
proof
  fix k w assume "bx_sink_quiet K C k" "baser_idle w"
  then show "\<exists>k'. bx_take_block K C w k = Inr k' \<and> bx_sink_quiet K C k' \<and> bx_view k' = bx_view k"
    using bx_take_idle [of K k w C] by (auto simp: bx_sink_quiet_def)
next
  fix k f ws assume q: "bx_sink_quiet K C k" and f: "bx_sendable C f" and c: "bx_code C f ws"
  obtain fl where "ws = frame_code fl"
      "fl = frame_lanes (data_lanes (bx_octets C f)) \<or> fl = replicate 4 idle_lane @ frame_lanes (data_lanes (bx_octets C f))"
    using c unfolding bx_code_def by blast
  then show "\<exists>k'. take_words (bx_take_block K C) ws k = Inr k' \<and> bx_sink_quiet K C k'
      \<and> bx_view k' = bx_view k @ [bx_image C f]"
    using bx_take_frame [of C K k f fl] q f by (auto simp: bx_sink_quiet_def)
qed

interpretation bx: wire_link
  "bx_plain_step K C cfg" snd "bx_plain_send C" "bx_source_inv K cfg" "\<lambda>s. bx_queue (fst s)" bx_coming "bx_gap cfg"
  "bx_sendable C" baser_idle "bx_code C" "bx_span C" "nat (max 0 (bc_ifg cfg) + 3)"
  "bx_take_block K C" "bx_sink_quiet K C" bx_view "bx_image C"
  for K C cfg ..

definition bx_plain_wire ::
  "eth_codes \<Rightarrow> 'a frame_class \<Rightarrow> bx_cfg \<Rightarrow> (bx_plain, bx_sink, int \<times> int, bx_frame) wire" where
  "bx_plain_wire K C cfg =
     \<lparr>w_src = (\<lambda>en s. if en then bx_plain_step K C cfg s else Inr s), w_out = snd, w_send = bx_plain_send C,
      w_snk = (\<lambda>en w k. if en then bx_take_block K C w k else Inr k)\<rparr>"

lemma bx_plain_run:
  assumes "std_values K" "frame_laws C" "list_all (bx_sendable C) (put es)" "put es' = []"
    and "(\<Sum>f\<leftarrow>put es. bx_span C f + nat (max 0 (bc_ifg cfg) + 3) + 1) + nat (max 0 (bc_ifg cfg) + 3) \<le> ticks es'"
  shows "\<exists>s k. wire_run (bx_plain_wire K C cfg) (es @ es') ((bx_core0, (0, 0)), bx_sink0) = Inr (s, k)
    \<and> bx_queue (fst s) = [] \<and> bx_coming s = [] \<and> bx_view k = map (bx_image C) (put es)"
proof -
  have "bx_source_inv K cfg (bx_core0, (0, 0))" "bx_coming (bx_core0, (0, 0)) = []" "bx_queue (fst (bx_core0, (0, 0))) = []"
    "bx_sink_quiet K C bx_sink0" "bx_view bx_sink0 = []"
    using assms(1,2)
    by (simp_all add: bx_core0_def bx_sink0_def bx_source_inv_def bx_inv_def cur_ok_def bx_coming_def baser_idle_def
      bx_sink_quiet_def bx_quiet_def bx_view_def)
  from bx.link_delivers [OF bx.link_inv_init [OF this] assms(3-5)]
  show ?thesis by (simp only: bx_plain_wire_def)
qed

section \<open>Scrambler and reversal\<close>

text \<open>
  The link of the two classes, with the slip signal low or not connected.  A run follows the run of the link above: the state of the queue
  and the process is the same, and the values on the line, read with the register of the sink, are the block.
\<close>

definition bx_out :: "bx_source \<Rightarrow> int \<times> int" where
  "bx_out s = (bd_header (snd s), bd_data (snd s))"

definition bx_wire ::
  "eth_codes \<Rightarrow> 'a frame_class \<Rightarrow> bx_cfg \<Rightarrow> baser_line \<Rightarrow> (bx_source, bx_sink, int \<times> int, bx_frame) wire" where
  "bx_wire K C cfg line =
     \<lparr>w_src = bx_source_step K C cfg line False, w_out = bx_out, w_send = (\<lambda>f s. (bx_put C f (fst s), snd s)),
      w_snk = bx_sink_step K C line\<rparr>"

definition follows :: "baser_line \<Rightarrow> bx_source \<times> bx_sink \<Rightarrow> bx_plain \<times> bx_sink \<Rightarrow> bool" where
  "follows line x y \<longleftrightarrow> (case (x, y) of (((core, d), k), ((core', w), k')) \<Rightarrow>
     core' = core \<and> k' = k\<lparr>bk_state := 0\<rparr> \<and> bd_bit_offset d = 0
     \<and> bx_line_in line (bk_state k) (bx_out (core, d)) = (bd_scrambler d, w))"

lemma bx_line_in_eq: "bx_line_in line st w = line_in line st w"
  by (simp add: bx_line_in_def line_in_def Let_def)

lemma bx_drive_put:
  assumes "bd_bit_offset d = 0" "put_block line w s = Inr s'" "bs_scrambler s = bd_scrambler d"
  shows "bx_drive line False w d = Inr \<lparr>bd_scrambler = bs_scrambler s', bd_last_d = bd_last_d d, bd_bit_offset = 0,
    bd_data = bs_tx_data s', bd_header = bs_tx_header s'\<rparr>"
  using assms by (cases w; cases "bl_scramble line"; cases "bl_reverse line")
    (auto simp: bx_drive_def put_block_def bx_slip_def Let_def split_beta split: if_splits)

lemma bx_drive_line:
  assumes "block_fits w" "bd_bit_offset d = 0"
  shows "\<exists>d'. bx_drive line False w d = Inr d' \<and> bd_bit_offset d' = 0
    \<and> bx_line_in line (bd_scrambler d) (bx_out (c, d')) = (bd_scrambler d', w)"
proof -
  let ?s = "baser_source0\<lparr>bs_scrambler := bd_scrambler d\<rparr>"
  obtain s' where "put_block line w ?s = Inr s'" "line_in line (bd_scrambler d) (baser_out s') = (bs_scrambler s', w)"
    using put_block_line [OF assms(1), of line ?s] by auto
  then show ?thesis
    using bx_drive_put [OF assms(2), of line w ?s s'] by (simp add: bx_line_in_eq bx_out_def baser_out_def)
qed

lemma bx_take_lane_state:
  "bx_take_lane K C i l (k\<lparr>bk_state := st\<rparr>) = bindR (bx_take_lane K C i l k) (\<lambda>k. Inr (k\<lparr>bk_state := st\<rparr>))"
  by (auto simp: bx_take_lane_def bindR_assoc Let_def intro!: bindR_eqI split: option.split)

lemma bx_collect_state:
  "bx_collect K C i ls (k\<lparr>bk_state := st\<rparr>) = bindR (bx_collect K C i ls k) (\<lambda>k. Inr (k\<lparr>bk_state := st\<rparr>))"
  by (induction ls arbitrary: i k) (auto simp: bx_take_lane_state bindR_assoc intro!: bindR_eqI)

lemma bx_take_block_state:
  "bx_take_block K C w (k\<lparr>bk_state := st\<rparr>) = bindR (bx_take_block K C w k) (\<lambda>k. Inr (k\<lparr>bk_state := st\<rparr>))"
  by (auto simp: bx_take_block_def bx_collect_state bindR_assoc intro!: bindR_eqI)

lemma bx_take_lane_keeps: "bx_take_lane K C i l k = Inr k' \<Longrightarrow> bk_state k' = bk_state k"
  by (auto simp: bx_take_lane_def bindR_eq_Inr Let_def split: option.splits if_splits)

lemma follows_step:
  assumes "follows line x y" "wire_step (bx_plain_wire K C cfg) e y = Inr y'"
  shows "\<exists>x'. wire_step (bx_wire K C cfg line) e x = Inr x' \<and> follows line x' y'"
proof -
  obtain core d k where x: "x = ((core, d), k)" by (metis prod.exhaust)
  obtain w where y: "y = ((core, w), k\<lparr>bk_state := 0\<rparr>)" and d0: "bd_bit_offset d = 0"
    and b: "bx_line_in line (bk_state k) (bx_out (core, d)) = (bd_scrambler d, w)"
    using assms(1) x by (cases y) (auto simp: follows_def)
  consider (put) f where "e = Put f" | (off) "e = Clk False" | (tick) "e = Clk True"
    by (metis wire_event.exhaust)
  then show ?thesis
  proof cases
    case put
    then show ?thesis using assms x y d0 b
      by (auto simp: bx_plain_wire_def bx_wire_def follows_def bx_plain_send_def bx_out_def)
  next
    case off
    then show ?thesis using assms x y
      by (auto simp: bx_plain_wire_def bx_wire_def bx_source_step_def bx_sink_step_def)
  next
    case tick
    obtain w1 core1 k1 where n: "bx_next K C cfg core = Inr (w1, core1)" "block_fits w1"
        "bx_take_block K C w (k\<lparr>bk_state := 0\<rparr>) = Inr k1" "y' = ((core1, w1), k1)"
      using assms(2) tick y by (auto simp: bx_plain_wire_def bx_plain_step_def bindR_eq_Inr split: if_splits)
    obtain d1 where d1: "bx_drive line False w1 d = Inr d1" "bd_bit_offset d1 = 0"
        "bx_line_in line (bd_scrambler d) (bx_out (core1, d1)) = (bd_scrambler d1, w1)"
      using bx_drive_line [OF n(2) d0] by blast
    obtain k2 where k2: "bx_take_block K C w k = Inr k2" "k1 = k2\<lparr>bk_state := 0\<rparr>"
      using n(3) by (auto simp: bx_take_block_state bindR_eq_Inr)
    have "bx_sink_step K C line True (bx_out (core, d)) k = Inr (k2\<lparr>bk_state := bd_scrambler d\<rparr>)"
      using b k2(1) by (simp add: bx_sink_step_def bx_take_block_state)
    moreover have "bx_source_step K C cfg line False True (core, d) = Inr (core1, d1)"
      using n(1) d1(1) by (simp add: bx_source_step_def)
    ultimately show ?thesis using tick x n(4) d1 k2(2) by (simp add: bx_wire_def follows_def)
  qed
qed

lemma follows_run:
  "follows line x y \<Longrightarrow> wire_run (bx_plain_wire K C cfg) es y = Inr y' \<Longrightarrow>
    \<exists>x'. wire_run (bx_wire K C cfg line) es x = Inr x' \<and> follows line x' y'"
proof (induction es arbitrary: x y)
  case (Cons e es)
  obtain z where z: "wire_step (bx_plain_wire K C cfg) e y = Inr z" "wire_run (bx_plain_wire K C cfg) es z = Inr y'"
    using Cons.prems(2) by (auto simp: bindR_eq_Inr)
  obtain x1 where "wire_step (bx_wire K C cfg line) e x = Inr x1" "follows line x1 z"
    using follows_step [OF Cons.prems(1) z(1)] by blast
  then show ?case using Cons.IH z(2) by fastforce
qed auto

lemma follows_init: "follows line ((bx_core0, bx_driver0), bx_sink0) ((bx_core0, (0, 0)), bx_sink0)"
proof -
  have "line_in line 0 (0, 0) = (0, 0, 0)"
    using refine_init(1) [of line] refine_init(2) [of line]
    by (cases "line_in line 0 (0, 0)")
      (auto simp: in_sync_def descrambled_def unscrambled_def wire_block_def baser_source0_def baser_sink0_def baser_out_def)
  then show ?thesis by (simp add: follows_def bx_line_in_eq bx_driver0_def bx_sink0_def bx_out_def)
qed

section \<open>Delivery\<close>

text \<open>A frame class that keeps the laws, on plain lists of octets.\<close>

definition list_class :: "int list frame_class" where
  "list_class =
     \<lparr>fc_new = (\<lambda>ds. \<lparr>bf_data = ds, bf_ctrl = None, bf_start_lane = None\<rparr>),
      fc_pair = (\<lambda>ds cs. \<lparr>bf_data = ds, bf_ctrl = Some cs, bf_start_lane = None\<rparr>),
      fc_normalize = (\<lambda>f. case bf_ctrl f of None \<Rightarrow> f\<lparr>bf_ctrl := Some (replicate (length (bf_data f)) 0)\<rparr> | Some cs \<Rightarrow> f),
      fc_compact = (\<lambda>f. case bf_ctrl f of
        None \<Rightarrow> f | Some cs \<Rightarrow> if list_all (\<lambda>c. c = 0) cs then f\<lparr>bf_ctrl := None\<rparr> else f),
      fc_len = (\<lambda>f. int (length (bf_data f)))\<rparr>"

lemma list_class_laws: "frame_laws list_class"
  by (auto simp: frame_laws_def list_class_def list_all_iff split: option.split)

text \<open>
C19: The source and the sink of \<open>baser.py\<close> deliver every frame.  When the constants of the package have the
values of the standard and its frame class keeps what it documents, every frame of octets that starts with a preamble octet
and fills a block arrives exactly once and in order, with its octets unchanged and no control characters, with and without scrambler
and bit reversal, with the deficit idle count on or off and the start offset forced or not, whenever frames are queued and
however the clock enable is driven, and within a number of enabled cycles computed from the lengths and the gap.
\<close>
theorem bx_link_delivers_frames:
  assumes "std_values K" "frame_laws C" "put es = map (fc_new C) frames"
    and "list_all (\<lambda>a. bx_sendable C (fc_new C a)) frames" "put es' = []"
    and "(\<Sum>a\<leftarrow>frames. (length (bx_octets C (fc_new C a)) + 12) div 8 + nat (max 0 (bc_ifg cfg) + 3) + 1)
      + nat (max 0 (bc_ifg cfg) + 3) \<le> ticks es'"
  shows "\<exists>core d k. wire_run (bx_wire K C cfg line) (es @ es') ((bx_core0, bx_driver0), bx_sink0) = Inr ((core, d), k)
    \<and> bx_queue core = [] \<and> bx_cur core = None \<and> map bf_data (bk_queue k) = map (\<lambda>a. bx_octets C (fc_new C a)) frames
    \<and> list_all (\<lambda>f. bf_ctrl f = None) (bk_queue k)"
proof -
  have "list_all (bx_sendable C) (put es)" using assms(3,4) by (simp add: list_all_iff)
  moreover have "(\<Sum>f\<leftarrow>put es. bx_span C f + nat (max 0 (bc_ifg cfg) + 3) + 1) + nat (max 0 (bc_ifg cfg) + 3) \<le> ticks es'"
    using assms(3,6) by (simp add: bx_span_def comp_def)
  ultimately obtain s k1 where run: "wire_run (bx_plain_wire K C cfg) (es @ es') ((bx_core0, (0, 0)), bx_sink0) = Inr (s, k1)"
      "bx_queue (fst s) = []" "bx_coming s = []" "bx_view k1 = map (bx_image C) (put es)"
    using bx_plain_run [OF assms(1,2) _ assms(5)] by blast
  obtain core d k where x: "wire_run (bx_wire K C cfg line) (es @ es') ((bx_core0, bx_driver0), bx_sink0) = Inr ((core, d), k)"
      "follows line ((core, d), k) (s, k1)"
    using follows_run [OF follows_init run(1), of line] by (metis prod.exhaust)
  have y: "fst s = core" "bk_queue k1 = bk_queue k" using x(2) by (cases s; auto simp: follows_def)+
  have v: "map (\<lambda>f. (bf_data f, bf_ctrl f)) (bk_queue k) = map (\<lambda>a. (bx_octets C (fc_new C a), None)) frames"
    using run(4) y(2) assms(3) by (simp add: bx_view_def bx_image_def comp_def)
  have "map bf_data (bk_queue k) = map (\<lambda>a. bx_octets C (fc_new C a)) frames"
    using arg_cong [OF v, of "map fst"] by (simp add: comp_def)
  moreover have "\<forall>p \<in> set (map (\<lambda>f. (bf_data f, bf_ctrl f)) (bk_queue k)). snd p = None" unfolding v by simp
  then have "list_all (\<lambda>f. bf_ctrl f = None) (bk_queue k)" by (simp add: list_all_iff)
  moreover have "bx_cur core = None" using run(3) y(1) by (auto simp: bx_coming_def split: if_splits)
  ultimately show ?thesis using x(1) run(2) y(1) by blast
qed

theorem bx_link_delivers_frames_witness:
  "let frames = [replicate 7 0x55 @ [0xD5, 1, 2, 3], replicate 7 0x55 @ [0xD5, 7]] :: int list list
   in \<exists>core d k. wire_run (bx_wire std_codes list_class
          \<lparr>bc_enable_dic = True, bc_ifg = 12, bc_force_offset_start = False, bc_limit_bytes = -1, bc_limit_frames = -1\<rparr>
          \<lparr>bl_scramble = True, bl_reverse = True\<rparr>)
        (map (\<lambda>ds. Put (fc_new list_class ds)) frames @ replicate 60 (Clk True)) ((bx_core0, bx_driver0), bx_sink0) = Inr ((core, d), k)
      \<and> map bf_data (bk_queue k) = frames"
proof -
  let ?frames = "[replicate 7 0x55 @ [0xD5, 1, 2, 3], replicate 7 0x55 @ [0xD5, 7]] :: int list list"
  let ?cfg = "\<lparr>bc_enable_dic = True, bc_ifg = 12, bc_force_offset_start = False, bc_limit_bytes = -1, bc_limit_frames = -1\<rparr>"
  have p: "put (map (\<lambda>ds. Put (fc_new list_class ds)) ?frames) = map (fc_new list_class) ?frames"
    by (simp add: comp_def)
  have oct: "bx_octets list_class (fc_new list_class ds) = ds" for ds by (simp add: bx_octets_def list_class_def)
  have "bx_sendable list_class (fc_new list_class ds)" if "list_all (in_lane 8) ds" "8 \<le> length ds" "hd ds = 0x55" for ds
    unfolding bx_sendable_def oct using that by (simp add: list_class_def ETH_PRE_def)
  then have "list_all (\<lambda>a. bx_sendable list_class (fc_new list_class a)) ?frames"
    by (simp add: in_lane_def list_all_replicate)
  from bx_link_delivers_frames [OF std_values_std list_class_laws p this, of "replicate 60 (Clk True)" ?cfg
      "\<lparr>bl_scramble = True, bl_reverse = True\<rparr>"]
  show ?thesis
    by (simp add: oct Let_def del: wire_run.simps) (elim exE conjE, intro exI conjI, assumption+)
qed

end
