(* ===== verification/Baser_Cocotb_Gap.thy ===== *)
theory Baser_Cocotb_Gap
  imports Baser_Cocotb_Link
begin

text \<open>
  More about the source of \<open>baser.py\<close>: the gaps between frames sent back to back under the deficit idle count, the
  bit slip, the occupancy counts of the two queues, and the event that \<open>wait\<close> waits for.
\<close>

section \<open>The deficit idle count\<close>

fun bx_blocks :: "eth_codes \<Rightarrow> 'a frame_class \<Rightarrow> bx_cfg \<Rightarrow> nat \<Rightarrow> bx_core \<Rightarrow> ((int \<times> int) list \<times> bx_core) result" where
  \<comment> \<open>the blocks of \<open>n\<close> enabled cycles\<close>
  "bx_blocks K C cfg 0 s = Inr ([], s)"
| "bx_blocks K C cfg (Suc n) s =
     bindR (bx_next K C cfg s) (\<lambda>(w, s). bindR (bx_blocks K C cfg n s) (\<lambda>(ws, s). Inr (w # ws, s)))"

lemma bx_blocks_append:
  assumes "bx_blocks K C cfg m s = Inr (ws, s1)" "bx_blocks K C cfg n s1 = Inr (vs, s2)"
  shows "bx_blocks K C cfg (m + n) s = Inr (ws @ vs, s2)"
  using assms(1)
proof (induction m arbitrary: s ws)
  case 0
  then show ?case using assms(2) by simp
next
  case (Suc m)
  obtain w s' us where "bx_next K C cfg s = Inr (w, s')" "bx_blocks K C cfg m s' = Inr (us, s1)" "ws = w # us"
    using Suc.prems by (auto simp: bindR_eq_Inr)
  then show ?case using Suc.IH by simp
qed

definition block_lanes :: "(int \<times> int) list \<Rightarrow> lane list" where
  "block_lanes ws = concat (map baser_decode ws)"

lemma block_lanes_simps [simp]:
  "block_lanes [] = []" "block_lanes (ws @ vs) = block_lanes ws @ block_lanes vs"
  "block_lanes (replicate n idle_block) = replicate (8 * n) idle_lane"
  by (induction n) (simp_all add: block_lanes_def idle_block_lanes flip: replicate_add)

definition padding :: "lane list \<Rightarrow> nat" where
  "padding ls = (if length ls mod 8 = 0 then 0 else 8 - length ls mod 8)"

lemma padding_less: "padding ls < 8"
  by (simp add: padding_def)

lemma frame_code_lanes:
  assumes "list_all baser_block (map (pad 8) (chunks 8 fl))"
  shows "block_lanes (frame_code fl) = fl @ replicate (padding fl) idle_lane"
proof -
  have "map baser_decode (frame_code fl) = map (pad 8) (chunks 8 fl)"
    using assms baser_block_back by (auto simp: frame_code_def list_all_iff block_back_def)
  then have "block_lanes (frame_code fl) = concat (chunks 8 (pad_block fl))"
    by (simp only: block_lanes_def chunks_pad_block)
  then have "block_lanes (frame_code fl) = pad_block fl" by (simp only: concat_chunks)
  then show ?thesis by (simp add: pad_block_def padding_def idle_lane_def)
qed

text \<open>All blocks of a frame, from the one it starts with.\<close>

lemma bx_blocks_frame:
  assumes K: "std_values K"
  shows "bx_advance K C cfg s = Inr c \<Longrightarrow> cur_ok c \<Longrightarrow> bx_cur c \<noteq> None \<Longrightarrow> 0 \<le> bx_deficit c \<Longrightarrow> bx_deficit c \<le> 3
    \<Longrightarrow> bx_ifg_cnt c = 0 \<Longrightarrow> list_all baser_block (map (pad 8) (chunks 8 (cur_lanes c)))
    \<Longrightarrow> term_block (List.last (cur_code c)) \<Longrightarrow>
    \<exists>s'. bx_blocks K C cfg (length (cur_code c)) s = Inr (cur_code c, s') \<and> bx_cur s' = None \<and> bx_queue s' = bx_queue c
      \<and> bx_deficit s' = bx_deficit c \<and> bx_ifg_cnt s' = max (bc_ifg cfg - 1 - int (padding (cur_lanes c))) 0"
proof (induction "length (cur_lanes c)" arbitrary: s c rule: less_induct)
  case less
  note em = bx_emit [OF K less(3-8) less(9), of cfg]
  let ?s = "after_lanes cfg 8 0 c" and ?w = "baser_encode (pad 8 (take 8 (cur_lanes c)))"
  have nxt: "bx_next K C cfg s = Inr (?w, ?s)"
    using less(2,4) em(1) by (auto simp: bx_next_def)
  note cur = after_lanes_cur [OF less(3,4), of cfg]
  have ne: "cur_lanes c \<noteq> []" using less(3,4) cur_lanes_Some by auto
  have code: "cur_code c = ?w # cur_code ?s"
    using frame_code_Cons [OF ne] by (simp add: cur_code_def cur(2))
  show ?case
  proof (cases "length (cur_lanes c) \<le> 8")
    case True
    then have none: "bx_cur ?s = None" using cur(3) by simp
    have "int (padding (cur_lanes c)) = 8 - int (length (cur_lanes c))"
      using True ne by (cases "length (cur_lanes c) = 8") (auto simp: padding_def of_nat_diff)
    then have "bx_ifg_cnt ?s = max (bc_ifg cfg - 1 - int (padding (cur_lanes c))) 0" using True cur(4) by simp
    moreover have "bx_queue ?s = bx_queue c" "bx_deficit ?s = bx_deficit c" by simp_all
    ultimately show ?thesis using none nxt by (simp add: code)
  next
    case False
    have adv: "bx_advance K C cfg ?s = Inr ?s"
      using False cur(3,4) less(5-7) by (auto simp: bx_advance_def bx_in_gap_def)
    have pad: "padding (cur_lanes ?s) = padding (cur_lanes c)"
      using False by (simp add: cur(2) padding_def le_mod_geq)
    have some: "bx_cur ?s \<noteq> None" "bx_ifg_cnt ?s = 0" using False cur(3,4) less(7) by simp_all
    have "list_all baser_block (map (pad 8) (chunks 8 (cur_lanes ?s)))"
      using less(8) ne by (simp add: cur(2) chunks_Cons)
    moreover have "cur_code ?s \<noteq> []" using False by (simp add: cur_code_def frame_code_def cur(2))
    then have "term_block (List.last (cur_code ?s))" using less(9) by (simp add: code)
    moreover have "length (cur_lanes ?s) < length (cur_lanes c)" using False ne by (simp add: cur(2))
    ultimately obtain s' where "bx_blocks K C cfg (length (cur_code ?s)) ?s = Inr (cur_code ?s, s')" "bx_cur s' = None"
        "bx_queue s' = bx_queue ?s" "bx_deficit s' = bx_deficit ?s"
        "bx_ifg_cnt s' = max (bc_ifg cfg - 1 - int (padding (cur_lanes ?s))) 0"
      using less(1) [of ?s ?s, OF _ adv cur(1) some(1) _ _ some(2)] less(5,6) by auto
    then show ?thesis using nxt pad by (simp add: code)
  qed
qed

text \<open>The idle blocks of a gap, while the counters of idles due and of the deficit have eight or more.\<close>

lemma bx_blocks_gap:
  assumes K: "std_values K" and dic: "bc_enable_dic cfg"
  shows "bx_cur s = None \<Longrightarrow> 0 \<le> bx_ifg_cnt s \<Longrightarrow> 0 \<le> bx_deficit s \<Longrightarrow> bx_deficit s \<le> 3 \<Longrightarrow>
    \<exists>n s'. bx_blocks K C cfg n s = Inr (replicate n idle_block, s') \<and> bx_cur s' = None \<and> bx_queue s' = bx_queue s
      \<and> 0 \<le> bx_ifg_cnt s' \<and> 0 \<le> bx_deficit s' \<and> bx_deficit s' \<le> 3
      \<and> bx_ifg_cnt s' + bx_deficit s' = bx_ifg_cnt s + bx_deficit s - 8 * int n \<and> bx_ifg_cnt s' + bx_deficit s' < 8"
proof (induction "nat (bx_ifg_cnt s + bx_deficit s)" arbitrary: s rule: less_induct)
  case less
  show ?case
  proof (cases "bx_in_gap cfg s")
    case True
    then have S: "8 \<le> bx_ifg_cnt s + bx_deficit s" using dic by (simp add: bx_in_gap_def)
    define s1 where "s1 = (bx_pass_gap cfg s)\<lparr>bx_active := False, bx_idle_event := True\<rparr>"
    have s1: "bx_cur s1 = None" "bx_queue s1 = bx_queue s" "0 \<le> bx_ifg_cnt s1" "0 \<le> bx_deficit s1" "bx_deficit s1 \<le> 3"
        "bx_ifg_cnt s1 + bx_deficit s1 = bx_ifg_cnt s + bx_deficit s - 8"
      using S dic less(2-5) by (auto simp: s1_def bx_pass_gap_def Let_def)
    have nxt: "bx_next K C cfg s = Inr (idle_block, s1)"
      using True less(2) by (simp add: bx_next_def bx_advance_def s1_def bx_pass_gap_def Let_def idle_block_def
        std_values_simps [OF K] block_types)
    have "nat (bx_ifg_cnt s1 + bx_deficit s1) < nat (bx_ifg_cnt s + bx_deficit s)" using S s1(6) by simp
    then obtain n s' where n: "bx_blocks K C cfg n s1 = Inr (replicate n idle_block, s')" "bx_cur s' = None"
        "bx_queue s' = bx_queue s1" "0 \<le> bx_ifg_cnt s'" "0 \<le> bx_deficit s'" "bx_deficit s' \<le> 3"
        "bx_ifg_cnt s' + bx_deficit s' = bx_ifg_cnt s1 + bx_deficit s1 - 8 * int n" "bx_ifg_cnt s' + bx_deficit s' < 8"
      using less(1) [of s1] s1(1,3-5) by blast
    have "bx_blocks K C cfg (Suc n) s = Inr (replicate (Suc n) idle_block, s')" using nxt n(1) by simp
    then show ?thesis using n s1(2,6) by (intro exI [of _ "Suc n"] exI [of _ s']) simp
  next
    case False
    then have "bx_ifg_cnt s + bx_deficit s < 8" by (simp add: bx_in_gap_def)
    then show ?thesis using less(2-5) by (intro exI [of _ 0] exI [of _ s]) simp
  qed
qed

text \<open>
  The gaps between frames: \<open>e\<close> idle lanes and the change of the deficit for the first one, \<open>c\<close> for those that follow.
\<close>

fun gaps_ok :: "int \<Rightarrow> int \<Rightarrow> int \<Rightarrow> nat list \<Rightarrow> bool" where
  "gaps_ok e c d [] \<longleftrightarrow> True"
| "gaps_ok e c d (g # gs) \<longleftrightarrow> (\<exists>d'. 0 \<le> d' \<and> d' \<le> 3 \<and> int g = e + d - d' \<and> gaps_ok c c d' gs)"

lemma gaps_ok_sum:
  assumes "gaps_ok c c d gs" "0 \<le> d" "d \<le> 3"
  shows "\<exists>d'. 0 \<le> d' \<and> d' \<le> 3 \<and> (\<Sum>g\<leftarrow>take n gs. int g) = c * int (length (take n gs)) + d - d'"
  using assms
proof (induction gs arbitrary: d n)
  case (Cons g gs)
  obtain d1 where d1: "0 \<le> d1" "d1 \<le> 3" "int g = c + d - d1" "gaps_ok c c d1 gs" using Cons.prems(1) by auto
  show ?case
  proof (cases n)
    case (Suc m)
    obtain d2 where "0 \<le> d2" "d2 \<le> 3" "(\<Sum>g\<leftarrow>take m gs. int g) = c * int (length (take m gs)) + d1 - d2"
      using Cons.IH [OF d1(4,1,2)] by blast
    then show ?thesis using Suc d1(3) by (intro exI [of _ d2]) (simp add: algebra_simps)
  qed (use Cons.prems in auto)
qed (auto intro: exI [of _ d])

lemma gaps_ok_each: "gaps_ok c c d gs \<Longrightarrow> 0 \<le> d \<Longrightarrow> d \<le> 3 \<Longrightarrow> list_all (\<lambda>g. \<bar>int g - c\<bar> \<le> 3) gs"
  by (induction gs arbitrary: d) auto

definition sent_lanes :: "'a frame_class \<Rightarrow> bx_frame \<Rightarrow> lane list" where
  "sent_lanes C f = frame_lanes (data_lanes (bx_octets C f))"

definition spaced :: "'a frame_class \<Rightarrow> nat list \<Rightarrow> bx_frame list \<Rightarrow> lane list" where
  "spaced C gs fs = concat (map2 (\<lambda>g f. replicate g idle_lane @ sent_lanes C f) gs fs)"

lemma padding_offset: "padding (replicate 4 idle_lane @ ls) < 8"
  by (rule padding_less)

text \<open>One gap and the frame after it.\<close>

lemma bx_blocks_gap_frame:
  assumes K: "std_values K" and dic: "bc_enable_dic cfg" and nof: "\<not> bc_force_offset_start cfg" and ifg: "8 \<le> bc_ifg cfg"
    and s: "bx_cur s = None" "bx_queue s = f # fs" "0 \<le> bx_ifg_cnt s" "0 \<le> bx_deficit s" "bx_deficit s \<le> 3"
    and f: "bx_sendable C f"
  shows "\<exists>n ws s' g p. bx_blocks K C cfg n s = Inr (ws, s') \<and> bx_cur s' = None \<and> bx_queue s' = fs
    \<and> 0 \<le> bx_deficit s' \<and> bx_deficit s' \<le> 3 \<and> 0 \<le> bx_ifg_cnt s' \<and> bx_ifg_cnt s' = bc_ifg cfg - 1 - int p
    \<and> block_lanes ws = replicate g idle_lane @ sent_lanes C f @ replicate p idle_lane
    \<and> int g = bx_ifg_cnt s + bx_deficit s - bx_deficit s'"
proof -
  obtain n s1 where g: "bx_blocks K C cfg n s = Inr (replicate n idle_block, s1)" "bx_cur s1 = None" "bx_queue s1 = f # fs"
      "0 \<le> bx_ifg_cnt s1" "0 \<le> bx_deficit s1" "bx_deficit s1 \<le> 3"
      "bx_ifg_cnt s1 + bx_deficit s1 = bx_ifg_cnt s + bx_deficit s - 8 * int n" "bx_ifg_cnt s1 + bx_deficit s1 < 8"
    using bx_blocks_gap [OF K dic s(1,3-5), of C] s(2) by auto
  define off where "off = bx_offset_start cfg s1"
  obtain c where c: "bx_start K C cfg s1 = Inr c" "bx_queue c = fs" "cur_ok c" "bx_cur c \<noteq> None"
      "cur_lanes c = (if off then replicate 4 idle_lane @ sent_lanes C f else sent_lanes C f)" "bx_ifg_cnt c = 0"
      "bx_deficit c = max (bx_deficit s1 + (if off then bx_ifg_cnt s1 - 4 else bx_ifg_cnt s1)) 0"
    using bx_start_spec [OF K f g(3), of cfg] dic by (auto simp: off_def sent_lanes_def)
  have off: "off \<longleftrightarrow> 3 < bx_ifg_cnt s1 + bx_deficit s1"
    using dic nof by (auto simp: off_def bx_offset_start_def)
  then have d: "bx_deficit c = bx_ifg_cnt s1 + bx_deficit s1 - (if off then 4 else 0)" "0 \<le> bx_deficit c" "bx_deficit c \<le> 3"
    using c(7) g(4-8) by auto
  have adv: "bx_advance K C cfg s1 = Inr c"
    using g(2-4,8) dic c(1) by (simp add: bx_advance_def bx_in_gap_def)
  note fb = octet_frame_blocks [OF f, folded sent_lanes_def, of "cur_lanes c"]
  have fl: "cur_lanes c = sent_lanes C f \<or> cur_lanes c = replicate 4 idle_lane @ sent_lanes C f" using c(5) by simp
  define p where "p = padding (cur_lanes c)"
  obtain s' where s': "bx_blocks K C cfg (length (cur_code c)) s1 = Inr (cur_code c, s')" "bx_cur s' = None"
      "bx_queue s' = fs" "bx_deficit s' = bx_deficit c" "bx_ifg_cnt s' = max (bc_ifg cfg - 1 - int p) 0"
    using bx_blocks_frame [OF K adv c(3,4) d(2,3) c(6) fb(1) [OF fl] fb(2) [OF fl, folded cur_code_def]] c(2)
    unfolding p_def by auto
  have p: "p < 8" unfolding p_def by (rule padding_less)
  have lanes: "block_lanes (replicate n idle_block @ cur_code c) =
      replicate (8 * n + (if off then 4 else 0)) idle_lane @ sent_lanes C f @ replicate p idle_lane"
    using frame_code_lanes [OF fb(1) [OF fl]] c(5) by (simp add: cur_code_def p_def replicate_add)
  show ?thesis
  proof (intro exI conjI)
    show "bx_blocks K C cfg (n + length (cur_code c)) s = Inr (replicate n idle_block @ cur_code c, s')"
      by (rule bx_blocks_append [OF g(1) s'(1)])
    show "block_lanes (replicate n idle_block @ cur_code c) =
      replicate (8 * n + (if off then 4 else 0)) idle_lane @ sent_lanes C f @ replicate p idle_lane" by (rule lanes)
    show "int (8 * n + (if off then 4 else 0)) = bx_ifg_cnt s + bx_deficit s - bx_deficit s'"
      using g(7) d(1) s'(4) by simp
  qed (use s' d p ifg in simp_all)
qed

lemma bx_blocks_chain:
  assumes K: "std_values K" and dic: "bc_enable_dic cfg" and nof: "\<not> bc_force_offset_start cfg" and ifg: "8 \<le> bc_ifg cfg"
  shows "bx_cur s = None \<Longrightarrow> bx_queue s = fs \<Longrightarrow> 0 \<le> bx_ifg_cnt s \<Longrightarrow> bx_ifg_cnt s = e - int q \<Longrightarrow> 0 \<le> bx_deficit s
    \<Longrightarrow> bx_deficit s \<le> 3 \<Longrightarrow> list_all (bx_sendable C) fs \<Longrightarrow>
    \<exists>n ws s' gs p. bx_blocks K C cfg n s = Inr (ws, s') \<and> bx_cur s' = None \<and> bx_queue s' = []
      \<and> replicate q idle_lane @ block_lanes ws = spaced C gs fs @ replicate p idle_lane
      \<and> length gs = length fs \<and> gaps_ok e (bc_ifg cfg - 1) (bx_deficit s) gs"
proof (induction fs arbitrary: s e q)
  case Nil
  then show ?case
    by (intro exI [of _ 0] exI [of _ "[]"] exI [of _ s] exI [of _ "[] :: nat list"] exI [of _ q]) (simp add: spaced_def)
next
  case (Cons f fs)
  have f: "bx_sendable C f" "list_all (bx_sendable C) fs" using Cons.prems(7) by simp_all
  obtain n ws s1 g p where a: "bx_blocks K C cfg n s = Inr (ws, s1)" "bx_cur s1 = None" "bx_queue s1 = fs"
      "0 \<le> bx_deficit s1" "bx_deficit s1 \<le> 3" "0 \<le> bx_ifg_cnt s1" "bx_ifg_cnt s1 = (bc_ifg cfg - 1) - int p"
      "block_lanes ws = replicate g idle_lane @ sent_lanes C f @ replicate p idle_lane"
      "int g = bx_ifg_cnt s + bx_deficit s - bx_deficit s1"
    using bx_blocks_gap_frame [OF K dic nof ifg Cons.prems(1,2,3,5,6) f(1)] by blast
  obtain m vs s' gs r where b: "bx_blocks K C cfg m s1 = Inr (vs, s')" "bx_cur s' = None" "bx_queue s' = []"
      "replicate p idle_lane @ block_lanes vs = spaced C gs fs @ replicate r idle_lane"
      "length gs = length fs" "gaps_ok (bc_ifg cfg - 1) (bc_ifg cfg - 1) (bx_deficit s1) gs"
    using Cons.IH [OF a(2,3,6,7,4,5) f(2)] by blast
  have "replicate q idle_lane @ block_lanes (ws @ vs) = spaced C ((q + g) # gs) (f # fs) @ replicate r idle_lane"
    using a(8) b(4) by (simp add: spaced_def replicate_add)
  moreover have "gaps_ok e (bc_ifg cfg - 1) (bx_deficit s) ((q + g) # gs)"
    using a(4,5,9) b(6) Cons.prems(4) by (auto intro!: exI [of _ "bx_deficit s1"])
  moreover have "length ((q + g) # gs) = length (f # fs)" using b(5) by simp
  ultimately show ?case using bx_blocks_append [OF a(1) b(1)] b(2,3) by blast
qed

definition bx_queued :: "'a frame_class \<Rightarrow> bx_frame list \<Rightarrow> bx_core" where
  \<comment> \<open>frames sent to a source that has not started yet\<close>
  "bx_queued C fs = foldl (\<lambda>s f. bx_put C f s) bx_core0 fs"

lemma bx_queued_fields:
  "bx_cur (bx_queued C fs) = None \<and> bx_queue (bx_queued C fs) = fs \<and> bx_ifg_cnt (bx_queued C fs) = 0 \<and> bx_deficit (bx_queued C fs) = 0"
proof (induction fs rule: rev_induct)
  case Nil
  then show ?case by (simp add: bx_queued_def bx_core0_def)
next
  case (snoc f fs)
  have "bx_queued C (fs @ [f]) = bx_put C f (bx_queued C fs)" by (simp add: bx_queued_def)
  then show ?case using snoc by simp
qed

text \<open>
C20: The deficit idle count of \<open>baser.py\<close>, with \<open>enable_dic\<close> set, the start offset not forced and an \<open>ifg\<close> of
8 at least (below it the rest of the block of a terminate character alone can be longer than \<open>ifg + 3\<close>).  Of
frames that are queued back to back the first starts at once, and
between a terminate character and the next start character, the terminate character included, there are at least \<open>ifg - 3\<close>
and at most \<open>ifg + 3\<close> lanes; over the first \<open>n\<close> gaps, for every \<open>n\<close>, the sum differs from \<open>n\<close> times \<open>ifg\<close> by
three at most.  The lanes in the gaps are idle.
\<close>
theorem bx_deficit_idle_count:
  assumes "std_values K" "bc_enable_dic cfg" "\<not> bc_force_offset_start cfg" "8 \<le> bc_ifg cfg"
    and "list_all (bx_sendable C) (f # fs)"
  shows "\<exists>n ws s gs p. bx_blocks K C cfg n (bx_queued C (f # fs)) = Inr (ws, s) \<and> bx_queue s = [] \<and> bx_cur s = None
    \<and> block_lanes ws = sent_lanes C f @ spaced C gs fs @ replicate p idle_lane \<and> length gs = length fs
    \<and> list_all (\<lambda>g. \<bar>int g + 1 - bc_ifg cfg\<bar> \<le> 3) gs
    \<and> (\<forall>n \<le> length gs. \<bar>(\<Sum>g\<leftarrow>take n gs. int g + 1) - int n * bc_ifg cfg\<bar> \<le> 3)"
proof -
  let ?s = "bx_queued C (f # fs)"
  note q = bx_queued_fields [of C "f # fs"]
  obtain n ws s' gs p where r: "bx_blocks K C cfg n ?s = Inr (ws, s')" "bx_cur s' = None" "bx_queue s' = []"
      "replicate 0 idle_lane @ block_lanes ws = spaced C gs (f # fs) @ replicate p idle_lane"
      "length gs = length (f # fs)" "gaps_ok 0 (bc_ifg cfg - 1) (bx_deficit ?s) gs"
    using bx_blocks_chain [OF assms(1-4), of ?s "f # fs" 0 0 C] q assms(5) by auto
  obtain g gs' where gs: "gs = g # gs'" "length gs' = length fs" using r(5) by (cases gs) auto
  then obtain d where d: "0 \<le> d" "int g = - d" "gaps_ok (bc_ifg cfg - 1) (bc_ifg cfg - 1) d gs'" using r(6) q by auto
  then have d0: "d = 0" using of_nat_0_le_iff [of g] by linarith
  have g: "g = 0" "gaps_ok (bc_ifg cfg - 1) (bc_ifg cfg - 1) 0 gs'" using d(2,3) unfolding d0 by simp_all
  have "\<bar>(\<Sum>g\<leftarrow>take n gs'. int g + 1) - int n * bc_ifg cfg\<bar> \<le> 3" if le: "n \<le> length gs'" for n
  proof -
    obtain d' where "0 \<le> d'" "d' \<le> 3" "(\<Sum>g\<leftarrow>take n gs'. int g) = (bc_ifg cfg - 1) * int n - d'"
      using gaps_ok_sum [OF g(2), of n] le by (auto simp: min_absorb2)
    moreover have "(\<Sum>g\<leftarrow>take n gs'. int g + 1) = (\<Sum>g\<leftarrow>take n gs'. int g) + int n"
      using le by (simp add: sum_list_addf sum_list_triv)
    ultimately show ?thesis by (simp add: algebra_simps)
  qed
  moreover have "list_all (\<lambda>g. \<bar>int g + 1 - bc_ifg cfg\<bar> \<le> 3) gs'"
    using gaps_ok_each [OF g(2)] by (simp add: list_all_iff algebra_simps)
  moreover have "block_lanes ws = sent_lanes C f @ spaced C gs' fs @ replicate p idle_lane"
    using r(4) gs(1) g(1) by (simp add: spaced_def)
  ultimately show ?thesis using r(1-3) gs(2) by blast
qed

theorem bx_deficit_idle_count_witness:
  "\<exists>n ws s gs p. bx_blocks std_codes list_class
        \<lparr>bc_enable_dic = True, bc_ifg = 12, bc_force_offset_start = False, bc_limit_bytes = -1, bc_limit_frames = -1\<rparr> n
        (bx_queued list_class (replicate 3 (fc_new list_class (replicate 9 0x55)))) = Inr (ws, s)
      \<and> block_lanes ws = sent_lanes list_class (fc_new list_class (replicate 9 0x55))
          @ spaced list_class gs (replicate 2 (fc_new list_class (replicate 9 0x55))) @ replicate p idle_lane
      \<and> length gs = 2 \<and> \<bar>(\<Sum>g\<leftarrow>gs. int g + 1) - 24\<bar> \<le> 3"
proof -
  let ?cfg = "\<lparr>bc_enable_dic = True, bc_ifg = 12, bc_force_offset_start = False, bc_limit_bytes = -1, bc_limit_frames = -1\<rparr>"
  let ?f = "fc_new list_class (replicate 9 0x55)"
  have "bx_sendable list_class ?f"
    by (simp add: bx_sendable_def bx_octets_def list_class_def ETH_PRE_def list_all_replicate in_lane_def)
  then have "list_all (bx_sendable list_class) (?f # replicate 2 ?f)" by (simp add: numeral_eq_Suc)
  from bx_deficit_idle_count [OF std_values_std _ _ _ this, of ?cfg]
  obtain n ws s gs p where r: "bx_blocks std_codes list_class ?cfg n (bx_queued list_class (?f # replicate 2 ?f)) = Inr (ws, s)"
      "block_lanes ws = sent_lanes list_class ?f @ spaced list_class gs (replicate 2 ?f) @ replicate p idle_lane"
      "length gs = length (replicate 2 ?f)"
      "\<forall>n \<le> length gs. \<bar>(\<Sum>g\<leftarrow>take n gs. int g + 1) - int n * 12\<bar> \<le> 3"
    by auto
  have "replicate 3 ?f = ?f # replicate 2 ?f" by (simp add: numeral_eq_Suc)
  moreover have "\<bar>(\<Sum>g\<leftarrow>gs. int g + 1) - 24\<bar> \<le> 3" using r(4) [rule_format, of 2] r(3) by simp
  ultimately show ?thesis using r(1-3) by auto
qed

section \<open>The bit slip\<close>

text \<open>The stream of 66 bits per block, lowest bit first, the sync header before the data.\<close>

definition slip_word :: "int \<times> int \<Rightarrow> int" where
  "slip_word w = shl (snd w) 2 OR fst w"

fun bx_slips :: "int \<Rightarrow> int \<Rightarrow> (int \<times> int) list \<Rightarrow> int \<times> (int \<times> int) list" where
  \<comment> \<open>a run of blocks at a fixed \<open>bit_offset\<close>\<close>
  "bx_slips off last_d [] = (last_d, [])"
| "bx_slips off last_d (w # ws) =
     (case bx_slip off last_d w of (d, v) \<Rightarrow> case bx_slips off d ws of (d, vs) \<Rightarrow> (d, v # vs))"

definition bit_stream :: "(int \<times> int) list \<Rightarrow> bool list" where
  "bit_stream ws = concat (map (\<lambda>w. word_bits 66 (slip_word w)) ws)"

lemma slip_word_split: "slip_word (x AND 3, shr x 2) = x"
proof -
  have "x AND 3 = take_bit 2 x" using and_mask_int [of x 2] by (simp add: take_bit_eq_mod)
  then show ?thesis
    by (auto intro!: bit_eqI simp: slip_word_def bit_or_iff bit_push_bit_iff bit_drop_bit_eq bit_take_bit_iff not_le
      le_add_diff_inverse simp flip: add_2_eq_Suc)
qed

lemma no_high_bit: "0 \<le> (x :: int) \<Longrightarrow> x < 2 ^ n \<Longrightarrow> n \<le> i \<Longrightarrow> \<not> bit x i"
  by (metis bit_take_bit_iff not_le take_bit_int_eq_self)

lemma bx_slip_bits:
  assumes "0 < off" "off < 66" "0 \<le> last_d" "last_d < 2 ^ 66"
  shows "fst (bx_slip (int off) last_d w) = slip_word w"
    "word_bits 66 (slip_word (snd (bx_slip (int off) last_d w))) =
      drop (66 - off) (word_bits 66 last_d) @ take (66 - off) (word_bits 66 (slip_word w))"
proof -
  show "fst (bx_slip (int off) last_d w) = slip_word w"
    using assms(1) by (cases w) (simp add: bx_slip_def slip_word_def Let_def)
  define r where "r = take_bit 66 (shr (last_d OR shl (slip_word w) 66) (66 - off))"
  have m: "x AND 0x3ffffffffffffffff = take_bit 66 x" for x :: int
    using and_mask_int [of x 66] by (simp add: take_bit_eq_mod)
  have n: "nat (66 - int off) = 66 - off" by simp
  have "snd (bx_slip (int off) last_d w) = (r AND 3, shr r 2)"
    using assms(1) by (cases w) (simp add: bx_slip_def slip_word_def Let_def r_def m n)
  then have "slip_word (snd (bx_slip (int off) last_d w)) = r" by (simp only: slip_word_split)
  moreover have "word_bits 66 r = drop (66 - off) (word_bits 66 last_d) @ take (66 - off) (word_bits 66 (slip_word w))"
  proof (rule nth_equalityI)
    show "length (word_bits 66 r) =
        length (drop (66 - off) (word_bits 66 last_d) @ take (66 - off) (word_bits 66 (slip_word w)))"
      using assms(2) by simp
    fix i assume "i < length (word_bits 66 r)"
    then have i: "i < 66" by simp
    have "bit r i = bit (last_d OR shl (slip_word w) 66) (66 - off + i)"
      using i by (simp add: r_def bit_take_bit_iff bit_drop_bit_eq del: drop_bit_or take_bit_or)
    also have "\<dots> = (if i < off then bit last_d (66 - off + i) else bit (slip_word w) (i - off))"
      using i assms(1,2) no_high_bit [OF assms(3,4), of "66 - off + i"]
      by (auto simp: bit_or_iff bit_push_bit_iff)
    finally show "word_bits 66 r ! i =
        (drop (66 - off) (word_bits 66 last_d) @ take (66 - off) (word_bits 66 (slip_word w))) ! i"
      using i assms(1,2) by (auto simp: word_bits_def nth_append)
  qed
  ultimately show "word_bits 66 (slip_word (snd (bx_slip (int off) last_d w))) =
      drop (66 - off) (word_bits 66 last_d) @ take (66 - off) (word_bits 66 (slip_word w))" by simp
qed

lemma slip_word_range:
  assumes "block_fits w"
  shows "0 \<le> slip_word w" "slip_word w < 2 ^ 66"
proof -
  obtain h d where w: "w = (h, d)" "0 \<le> h" "h < 2 ^ 2" "0 \<le> d" "d < 2 ^ 64"
    using assms by (cases w) (auto simp: block_fits_def fits_def)
  have "slip_word w = d * 2 ^ 2 + h" unfolding slip_word_def w(1) snd_conv fst_conv by (rule or_field [OF w(2,3)])
  then show "0 \<le> slip_word w" "slip_word w < 2 ^ 66" using w(2-5) by simp_all
qed

text \<open>
C21: At a bit offset between 1 and 65 that stays the same, the source of \<open>baser.py\<close> sends the stream of bits of its blocks delayed by
that many bits: what it sends, followed by the bits it still holds, is the bits it held before, followed by all blocks, so no
bit is lost, repeated or moved.
\<close>
theorem bx_slip_delays:
  assumes "0 < off" "off < 66" "list_all block_fits ws" "0 \<le> last_d" "last_d < 2 ^ 66"
  shows "bit_stream (snd (bx_slips (int off) last_d ws))
      @ drop (66 - off) (word_bits 66 (fst (bx_slips (int off) last_d ws))) =
    drop (66 - off) (word_bits 66 last_d) @ bit_stream ws"
  using assms(3-5)
proof (induction ws arbitrary: last_d)
  case (Cons w ws)
  let ?k = "66 - off" and ?w = "word_bits 66 (slip_word w)"
  note b = bx_slip_bits [OF assms(1,2) Cons.prems(2,3), of w]
  have w: "0 \<le> slip_word w" "slip_word w < 2 ^ 66" using Cons.prems(1) slip_word_range by simp_all
  have IH: "bit_stream (snd (bx_slips (int off) (slip_word w) ws))
        @ drop ?k (word_bits 66 (fst (bx_slips (int off) (slip_word w) ws))) = drop ?k ?w @ bit_stream ws"
    using Cons.IH [OF _ w] Cons.prems(1) by simp
  have "bit_stream (snd (bx_slips (int off) last_d (w # ws)))
        @ drop ?k (word_bits 66 (fst (bx_slips (int off) last_d (w # ws)))) =
      drop ?k (word_bits 66 last_d) @ take ?k ?w @ drop ?k ?w @ bit_stream ws"
    using b IH by (simp add: bit_stream_def split_beta)
  also have "\<dots> = drop ?k (word_bits 66 last_d) @ bit_stream (w # ws)"
    unfolding append.assoc [symmetric] append_take_drop_id by (simp add: bit_stream_def)
  finally show ?case .
qed (simp add: bit_stream_def)

theorem bx_slip_delays_witness:
  "bit_stream (snd (bx_slips 3 0 [(1, 0x1e), (2, 0x0123456789abcdef)]))
      @ drop 63 (word_bits 66 (fst (bx_slips 3 0 [(1, 0x1e), (2, 0x0123456789abcdef)]))) =
    [False, False, False] @ bit_stream [(1, 0x1e), (2, 0x0123456789abcdef)]"
  using bx_slip_delays [of 3 "[(1, 0x1e), (2, 0x0123456789abcdef)]" 0]
  by (simp add: block_fits_def fits_def word_bits_def upt_conv_Cons del: bx_slips.simps)

section \<open>The occupancy of the queues\<close>

definition source_occupancy :: "'a frame_class \<Rightarrow> bx_core \<Rightarrow> bool" where
  "source_occupancy C s \<longleftrightarrow> bx_occupancy_frames s = int (length (bx_queue s))
     \<and> bx_occupancy_bytes s = (\<Sum>f\<leftarrow>bx_queue s. fc_len C f)"

definition sink_occupancy :: "'a frame_class \<Rightarrow> bx_sink \<Rightarrow> bool" where
  "sink_occupancy C k \<longleftrightarrow> bk_occupancy_frames k = int (length (bk_queue k))
     \<and> bk_occupancy_bytes k = (\<Sum>f\<leftarrow>bk_queue k. fc_len C f)"

lemma bx_lanes_queue:
  "bx_lanes K cfg n k s = Inr (ls, s') \<Longrightarrow> bx_queue s' = bx_queue s \<and> bx_occupancy_bytes s' = bx_occupancy_bytes s
    \<and> bx_occupancy_frames s' = bx_occupancy_frames s"
proof (induction n arbitrary: k s ls)
  case (Suc n)
  then show ?case
    by (fastforce simp: bindR_eq_Inr Let_def split: option.splits if_splits)
qed simp

lemma bx_start_occupancy:
  "source_occupancy C s \<Longrightarrow> bx_start K C cfg s = Inr s' \<Longrightarrow> source_occupancy C s'"
  by (cases "bx_queue s")
    (auto simp: source_occupancy_def bx_start_def bx_load_def bindR_eq_Inr Let_def split: option.splits)

lemma bx_advance_occupancy:
  "source_occupancy C s \<Longrightarrow> bx_advance K C cfg s = Inr s' \<Longrightarrow> source_occupancy C s'"
  using bx_start_occupancy [of C s K cfg s']
  by (auto simp: bx_advance_def bx_pass_gap_def source_occupancy_def Let_def split: if_splits)

lemma bx_next_occupancy:
  assumes "source_occupancy C s" "bx_next K C cfg s = Inr (w, s')"
  shows "source_occupancy C s'"
proof -
  obtain c where c: "bx_advance K C cfg s = Inr c" using assms(2) by (auto simp: bx_next_def bindR_eq_Inr)
  note o = bx_advance_occupancy [OF assms(1) c]
  show ?thesis
    using assms(2) c o
    by (cases "bx_cur c") (auto simp: bx_next_def bindR_eq_Inr source_occupancy_def dest!: bx_lanes_queue)
qed

lemma bx_collect_occupancy:
  "sink_occupancy C k \<Longrightarrow> bx_collect K C i ls k = Inr k' \<Longrightarrow> sink_occupancy C k'"
proof (induction ls arbitrary: i k)
  case (Cons l ls)
  obtain k1 where k1: "bx_take_lane K C i l k = Inr k1" "bx_collect K C (i + 1) ls k1 = Inr k'"
    using Cons.prems(2) by (auto simp: bindR_eq_Inr)
  have "sink_occupancy C k1"
    using Cons.prems(1) k1(1)
    by (auto simp: bx_take_lane_def bindR_eq_Inr sink_occupancy_def Let_def split: option.splits if_splits)
  then show ?case using Cons.IH k1(2) by blast
qed simp

text \<open>
The occupancy counts of the two queues are right.  Every operation of \<open>baser.py\<close> that changes a queue keeps the counts of the source and
the sink equal to the number of frames waiting and the sum of their lengths: sending, with and without waiting, every clock
cycle of the source and of the sink at any setting of the line, clearing, and receiving.  So \<open>full\<close> compares what is really in the queue with the limits.
\<close>
lemma bx_occupancy_counts:
  shows "source_occupancy C bx_core0 \<and> sink_occupancy C bx_sink0
    \<and> (source_occupancy C core \<longrightarrow>
        source_occupancy C (snd (bx_send C cfg a core)) \<and> source_occupancy C (bx_source_clear core)
        \<and> (\<forall>core'. bx_send_nowait C cfg a core = Inr core' \<longrightarrow> source_occupancy C core')
        \<and> (\<forall>core' d'. bx_source_step K C cfg line slip en (core, d) = Inr (core', d') \<longrightarrow> source_occupancy C core'))
    \<and> (sink_occupancy C k \<longrightarrow>
        sink_occupancy C (bx_sink_clear k)
        \<and> (\<forall>f k'. bx_recv_nowait C compact k = Inr (f, k') \<longrightarrow> sink_occupancy C k')
        \<and> (\<forall>k'. bx_sink_step K C line en w k = Inr k' \<longrightarrow> sink_occupancy C k'))"
proof (intro conjI impI allI)
  assume s: "source_occupancy C core"
  show "source_occupancy C (snd (bx_send C cfg a core))" "source_occupancy C (bx_source_clear core)"
    using s by (simp_all add: bx_send_def bx_put_def bx_source_clear_def source_occupancy_def)
  show "source_occupancy C core'" if "bx_send_nowait C cfg a core = Inr core'" for core'
    using that s by (auto simp: bx_send_nowait_def bx_put_def source_occupancy_def split: if_splits)
  show "source_occupancy C core'" if "bx_source_step K C cfg line slip en (core, d) = Inr (core', d')" for core' d'
    using that s bx_next_occupancy [OF s, of K cfg]
    by (auto simp: bx_source_step_def bindR_eq_Inr split: if_splits)
next
  assume k: "sink_occupancy C k"
  show "sink_occupancy C (bx_sink_clear k)" by (simp add: bx_sink_clear_def sink_occupancy_def)
  show "sink_occupancy C k'" if "bx_recv_nowait C compact k = Inr (f, k')" for f k'
    using that k by (auto simp: bx_recv_nowait_def bx_recv_frame_def sink_occupancy_def split: list.splits)
  show "sink_occupancy C k'" if r: "bx_sink_step K C line en w k = Inr k'" for k'
  proof (cases en)
    case True
    have "sink_occupancy C (k\<lparr>bk_state := st\<rparr>)" for st using k by (simp add: sink_occupancy_def)
    then show ?thesis
      using r True by (auto simp: bx_sink_step_def bx_take_block_def bindR_eq_Inr split: prod.splits intro: bx_collect_occupancy)
  qed (use r k in \<open>simp add: bx_sink_step_def\<close>)
qed (simp_all add: source_occupancy_def sink_occupancy_def bx_core0_def bx_sink0_def)

section \<open>The idle event\<close>

text \<open>
  The event that \<open>wait\<close> waits for is set in every cycle of a gap, also while frames are queued: a test that sends two frames and
  waits goes on when the first one is out, although \<open>idle\<close> is false.
\<close>

lemma bx_wait_early:
  assumes "bx_in_gap cfg core" "bx_cur core = None" "bx_queue core \<noteq> []"
  shows "\<exists>w core'. bx_next K C cfg core = Inr (w, core') \<and> bx_idle_event core' \<and> \<not> bx_source_idle core'"
  using assms
  by (auto simp: bx_next_def bx_advance_def bx_pass_gap_def Let_def bx_source_idle_def bx_source_empty_def)

end
