(* ===== verification/Axil_Race.thy ===== *)
theory Axil_Race
  imports Axil_Read
begin

text \<open>
  A read and a write of \<open>AXILiteRam\<close> (\<open>axil.py\<close>) that overlap in time.  The two processes of a port share
  the position of one \<open>mmap\<close>: the write process seeks when it has the address, and writes when the data come;
  a read that is served in between leaves the position behind the word it read.
\<close>

section \<open>The memory under given inputs\<close>

fun axil_ram_run :: "axil_cfg \<Rightarrow> (axil_pause \<times> axil_to_ram) list \<Rightarrow> axil_ram \<Rightarrow> axil_ram result" where
  "axil_ram_run cfg [] r = Inr r"
| "axil_ram_run cfg (x # xs) r = bindR (axil_ram_step cfg (fst x) (snd x) r) (axil_ram_run cfg xs)"

lemma axil_ram_run_append: "axil_ram_run cfg (xs @ ys) r = bindR (axil_ram_run cfg xs r) (axil_ram_run cfg ys)"
proof (induction xs arbitrary: r)
  case (Cons x xs)
  show ?case by (cases "axil_ram_step cfg (fst x) (snd x) r") (simp_all add: Cons.IH)
qed simp

text \<open>An edge at which the memory takes neither data nor a read address.\<close>

definition no_data :: "axil_pause \<times> axil_to_ram \<Rightarrow> bool" where
  "no_data x \<longleftrightarrow> \<not> (tr_wvalid (snd x) \<and> \<not> p_w (fst x))"

definition no_read :: "axil_pause \<times> axil_to_ram \<Rightarrow> bool" where
  "no_read x \<longleftrightarrow> \<not> tr_arvalid (snd x)"

definition ram_waits :: "axil_pause \<times> axil_to_ram \<Rightarrow> bool" where
  "ram_waits x \<longleftrightarrow> no_data x \<and> no_read x"

lemma read_rest: "ar_read r = RAddr \<Longrightarrow> ar_arready r \<Longrightarrow> no_read x \<Longrightarrow> axil_ram_read_step cfg (fst x) (snd x) r = Inr r"
  by (cases r) (simp add: axil_ram_read_step_def no_read_def)

lemma write_rest: "ar_write r = WData \<Longrightarrow> no_data x \<Longrightarrow> axil_ram_write_step cfg (fst x) (snd x) r = Inr r"
  by (auto simp: axil_ram_write_step_def no_data_def)

text \<open>The write process reaches its data, with the position at its word, and stays there.\<close>

lemma wait_data:
  "ar_write r = WData \<Longrightarrow> ar_read r = RAddr \<Longrightarrow> ar_arready r \<Longrightarrow> list_all ram_waits xs \<Longrightarrow> axil_ram_run cfg xs r = Inr r"
  by (induction xs) (simp_all add: axil_ram_step_def read_rest write_rest ram_waits_def)

lemma wait_latency:
  assumes "ar_write r = WLatency n addr" "1 \<le> n" "n \<le> length xs" "ar_read r = RAddr" "ar_arready r"
    and "list_all ram_waits xs" "ar_size r = length (mm_mem (ar_file r))" "0 < ar_size r"
  shows "axil_ram_run cfg xs r = Inr (r\<lparr>ar_file := (ar_file r)\<lparr>mm_pos := addr mod ar_size r\<rparr>,
    ar_wready := True, ar_write := WData\<rparr>)"
  using assms
proof (induction xs arbitrary: n r)
  case (Cons x xs)
  let ?d = "r\<lparr>ar_file := (ar_file r)\<lparr>mm_pos := addr mod ar_size r\<rparr>, ar_wready := True, ar_write := WData\<rparr>"
  have x: "no_read x" "no_data x" "list_all ram_waits xs" using Cons.prems(6) by (simp_all add: ram_waits_def list_all_iff)
  show ?case
  proof (cases "n = 1")
    case True
    then have "axil_ram_step cfg (fst x) (snd x) r = Inr ?d"
      using Cons.prems x data_phase_ok [of r addr] read_rest [of ?d x]
      by (simp add: axil_ram_step_def axil_ram_write_step_def)
    then show ?thesis using wait_data [of ?d xs] Cons.prems x by simp
  next
    case False
    let ?r = "r\<lparr>ar_write := WLatency (n - 1) addr\<rparr>"
    have "axil_ram_step cfg (fst x) (snd x) r = Inr ?r"
      using Cons.prems x False read_rest [of ?r x]
      by (simp add: axil_ram_step_def axil_ram_write_step_def)
    then show ?thesis using Cons.IH [of ?r "n - 1"] Cons.prems x False by simp
  qed
qed simp

section \<open>A read while the write process waits for its data\<close>

text \<open>From the read address on: the position is, or after the latency will be, behind the word at \<open>b\<close>.\<close>

definition raced :: "axil_cfg \<Rightarrow> nat \<Rightarrow> bytes \<Rightarrow> axil_ram \<Rightarrow> bool" where
  "raced cfg b mem r \<longleftrightarrow> ar_write r = WData \<and> ar_size r = length mem \<and> mm_mem (ar_file r) = mem
     \<and> (case ar_read r of
          RLatency n addr \<Rightarrow> 1 \<le> n \<and> addr mod al_bw cfg = 0 \<and> addr mod length mem = b
        | _ \<Rightarrow> mm_pos (ar_file r) = b + al_bw cfg)"

definition edges_to_go :: "axil_ram \<Rightarrow> nat" where
  "edges_to_go r = (case ar_read r of RLatency n addr \<Rightarrow> n | _ \<Rightarrow> 0)"

lemma raced_step:
  assumes "axil_cfg_ok cfg (length mem)" "raced cfg b mem r" "ram_waits x"
  shows "\<exists>r'. axil_ram_step cfg (fst x) (snd x) r = Inr r' \<and> raced cfg b mem r'
    \<and> edges_to_go r' \<le> edges_to_go r - 1"
proof -
  have step: "axil_ram_step cfg (fst x) (snd x) r = axil_ram_read_step cfg (fst x) (snd x) r"
    using assms(2,3) write_rest [of r x] by (simp add: axil_ram_step_def raced_def ram_waits_def)
  have "ram_fetch cfg (fst x) addr r = Inr (r\<lparr>ar_file := (ar_file r)\<lparr>mm_pos := addr mod ar_size r + al_bw cfg\<rparr>,
      ar_rdata := word_at (al_bw cfg) (addr mod ar_size r) (mm_mem (ar_file r)), ar_rresp := 0,
      ar_rvalid := \<not> p_r (fst x), ar_read := RResp\<rparr>)" if "ar_read r = RLatency n addr" for n addr
    using assms(1,2) that by (intro ram_fetch_ok) (simp_all add: raced_def)
  then show ?thesis
    using assms(2,3) unfolding step
    by (cases "ar_read r")
      (auto simp: axil_ram_read_step_def raced_def edges_to_go_def ram_waits_def no_read_def)
qed

lemma raced_run:
  assumes "axil_cfg_ok cfg (length mem)" "raced cfg b mem r" "list_all ram_waits xs" "edges_to_go r \<le> length xs"
  shows "\<exists>r'. axil_ram_run cfg xs r = Inr r' \<and> raced cfg b mem r' \<and> edges_to_go r' = 0"
  using assms(2-)
proof (induction xs arbitrary: r)
  case (Cons x xs)
  obtain r1 where r1: "axil_ram_step cfg (fst x) (snd x) r = Inr r1" "raced cfg b mem r1"
    "edges_to_go r1 \<le> edges_to_go r - 1"
    using raced_step [OF assms(1) Cons.prems(1), of x] Cons.prems(2) by auto
  then have "\<exists>r'. axil_ram_run cfg xs r1 = Inr r' \<and> raced cfg b mem r' \<and> edges_to_go r' = 0"
    using Cons.prems by (intro Cons.IH) simp_all
  then show ?case using r1(1) by simp
qed auto

lemma raced_start:
  assumes "axil_cfg_ok cfg (length mem)" "ar_write r = WData" "ar_read r = RAddr" "ar_arready r"
    and "ar_size r = length mem" "mm_mem (ar_file r) = mem"
    and "tr_arvalid (snd x)" "\<not> p_ar (fst x)" "no_data x"
  shows "\<exists>r'. axil_ram_step cfg (fst x) (snd x) r = Inr r'
    \<and> raced cfg (word_pos (al_bw cfg) (length mem) (tr_araddr (snd x))) mem r' \<and> edges_to_go r' \<le> al_latency cfg"
proof -
  let ?a = "int_div (tr_araddr (snd x)) (al_bw cfg) * al_bw cfg" and ?r = "r\<lparr>ar_arready := False\<rparr>"
  have step: "axil_ram_step cfg (fst x) (snd x) r = axil_ram_read_step cfg (fst x) (snd x) r"
    using assms(2,9) write_rest [of r x] by (simp add: axil_ram_step_def)
  show ?thesis
    using assms(2-8) ram_fetch_ok [of ?r cfg ?a "fst x"] assms(1) unfolding step
    by (auto simp: axil_ram_read_step_def raced_def edges_to_go_def word_pos_def Let_def)
qed

lemma raced_data:
  assumes "raced cfg b mem r" "edges_to_go r = 0" "0 < al_bw cfg"
    and "tr_wvalid (snd x)" "\<not> p_w (fst x)" "no_read x"
  defines "p \<equiv> b + al_bw cfg" and "d \<equiv> (tr_wdata (snd x), tr_wstrb (snd x))"
  shows "if length mem < p + al_bw cfg
    then p = length mem \<longrightarrow> axil_ram_step cfg (fst x) (snd x) r = Inl ValueError
    else \<exists>r'. axil_ram_step cfg (fst x) (snd x) r = Inr r' \<and> ar_write r' = WResp \<and> ar_bresp r' = 0
      \<and> mm_mem (ar_file r') = ram_store (al_bw cfg) p d mem"
proof -
  let ?f = "ar_file r"
  have r: "ar_write r = WData" "mm_mem ?f = mem" "mm_pos ?f = p" "ar_read r \<in> {RAddr, RResp}"
    using assms(1,2) by (auto simp: raced_def edges_to_go_def p_def split: ram_read_pc.splits)
  have "write_lanes (fst d) (snd d) [0..<al_bw cfg] ?f = Inl ValueError" if "p = length mem"
    using r that assms(3) by (simp add: upt_conv_Cons mm_write_def mm_seek_def)
  moreover have "write_lanes (fst d) (snd d) [0..<al_bw cfg] ?f =
      Inr \<lparr>mm_mem = ram_store (al_bw cfg) p d mem, mm_pos = p + al_bw cfg\<rparr>" if "p + al_bw cfg \<le> length mem"
    using r that write_lanes_eq [of ?f p 0 "al_bw cfg"] by (simp add: ram_store_def)
  ultimately show ?thesis
    using assms(4-6) r
    by (auto simp: axil_ram_step_def axil_ram_write_step_def axil_ram_read_step_def no_read_def d_def)
qed

section \<open>Properties\<close>

lemma word_pos_dvd: "axil_cfg_ok cfg sz \<Longrightarrow> al_bw cfg dvd word_pos (al_bw cfg) sz a"
  by (auto simp: word_pos_def axil_cfg_ok_def dvd_mod)

lemma multiples_apart:
  fixes bw :: nat
  assumes "bw dvd p" "bw dvd a" "p < a"
  shows "p + bw \<le> a"
  using dvd_imp_le [of bw "a - p"] assms by (simp add: dvd_diff_nat)

lemma ram_store_apart:
  assumes "bw dvd p" "bw dvd a" "p \<noteq> a" "p + bw \<le> length mem"
  shows "take bw (drop a (ram_store bw p d mem)) = take bw (drop a mem)"
proof -
  have "a + bw \<le> p \<or> p + bw \<le> a" using assms(1-3) multiples_apart [of bw a p] multiples_apart [of bw p a] by linarith
  then show ?thesis
    using assms(4) by (intro nth_equalityI) (auto simp: ram_store_def set_lanes_nth)
qed

text \<open>
C15:
  A read that is served while a write waits for its data redirects the write.  Let an idle memory of whole
  words, of any contents, word size and latency, take a write address, then after the latency a read address, and then
  after the latency the data of the write; in between any number of edges may pass, with any pauses and signals
  except that no other data are taken and no other read address is offered.  The octets of the data then land in the word behind the one that was read, and not at the address
  of the write: the word there keeps its value (unless it is that word), while the response is \<open>RESP_OKAY\<close>.
  If the last word of the memory was read, the write process ends with \<open>ValueError\<close> instead.
\<close>

theorem axil_read_moves_write:
  assumes "axil_cfg_ok cfg (length mem)"
    and "ar_size r = length mem" "mm_mem (ar_file r) = mem" "ar_write r = WAddr" "ar_awready r" "ar_read r = RAddr" "ar_arready r"
    and "tr_awvalid (snd aw)" "\<not> p_aw (fst aw)" "no_read aw"
    and "list_all ram_waits xs" "al_latency cfg \<le> length xs"
    and "tr_arvalid (snd ar)" "\<not> p_ar (fst ar)" "no_data ar"
    and "list_all ram_waits ys" "al_latency cfg \<le> length ys"
    and "tr_wvalid (snd w)" "\<not> p_w (fst w)" "no_read w"
  defines "a \<equiv> word_pos (al_bw cfg) (length mem) (tr_awaddr (snd aw))"
    and "p \<equiv> word_pos (al_bw cfg) (length mem) (tr_araddr (snd ar)) + al_bw cfg"
  shows "if p = length mem then axil_ram_run cfg (aw # xs @ ar # ys @ [w]) r = Inl ValueError
    else \<exists>r'. axil_ram_run cfg (aw # xs @ ar # ys @ [w]) r = Inr r' \<and> ar_write r' = WResp \<and> ar_bresp r' = RESP_OKAY
      \<and> mm_mem (ar_file r') = ram_store (al_bw cfg) p (tr_wdata (snd w), tr_wstrb (snd w)) mem
      \<and> (p \<noteq> a \<longrightarrow> take (al_bw cfg) (drop a (mm_mem (ar_file r'))) = take (al_bw cfg) (drop a mem))"
proof -
  let ?a = "int_div (tr_awaddr (snd aw)) (al_bw cfg) * al_bw cfg" and ?b = "word_pos (al_bw cfg) (length mem) (tr_araddr (snd ar))"
  note ok = axil_cfg_okD [OF assms(1)]
  let ?d = "r\<lparr>ar_awready := False, ar_file := (ar_file r)\<lparr>mm_pos := a\<rparr>, ar_wready := True, ar_write := WData\<rparr>"
  have d: "axil_ram_run cfg (aw # xs) r = Inr ?d"
  proof (cases "al_latency cfg = 0")
    case True
    then have "axil_ram_step cfg (fst aw) (snd aw) r = Inr ?d"
      using assms(2-10) ok data_phase_ok [of "r\<lparr>ar_awready := False\<rparr>" ?a] read_rest [of ?d aw]
      by (simp add: axil_ram_step_def axil_ram_write_step_def a_def word_pos_def)
    then show ?thesis using wait_data [of ?d xs] assms(6,7,11) by simp
  next
    case False
    let ?r = "r\<lparr>ar_awready := False, ar_write := WLatency (al_latency cfg) ?a\<rparr>"
    have "axil_ram_step cfg (fst aw) (snd aw) r = Inr ?r"
      using assms(4-10) False read_rest [of ?r aw] by (simp add: axil_ram_step_def axil_ram_write_step_def)
    then show ?thesis
      using wait_latency [of ?r "al_latency cfg" ?a xs] assms(2,3,6,7,11,12) ok False
      by (simp add: a_def word_pos_def)
  qed
  obtain r1 where r1: "axil_ram_step cfg (fst ar) (snd ar) ?d = Inr r1" "raced cfg ?b mem r1" "edges_to_go r1 \<le> al_latency cfg"
    using raced_start [of cfg mem ?d ar] assms(1-7,13-15) by auto
  obtain r2 where r2: "axil_ram_run cfg ys r1 = Inr r2" "raced cfg ?b mem r2" "edges_to_go r2 = 0"
    using raced_run [OF assms(1) r1(2) assms(16)] r1(3) assms(17) by auto
  have "axil_ram_run cfg [w] x = axil_ram_step cfg (fst w) (snd w) x" for x
    by (cases "axil_ram_step cfg (fst w) (snd w) x") simp_all
  then have run: "axil_ram_run cfg (aw # xs @ ar # ys @ [w]) r = axil_ram_step cfg (fst w) (snd w) r2"
    using axil_ram_run_append [of cfg "aw # xs" "ar # ys @ [w]" r] axil_ram_run_append [of cfg ys "[w]" r1]
    by (simp add: d r1(1) r2(1) del: axil_ram_run.simps(2))
      (simp add: r1(1) r2(1))
  have al: "al_bw cfg dvd p" "al_bw cfg dvd a" "p \<le> length mem"
    using word_pos_dvd [OF assms(1)] word_pos_fits [OF assms(1)] by (simp_all add: p_def a_def)
  show ?thesis
  proof (cases "p = length mem")
    case True
    then show ?thesis
      using raced_data [OF r2(2,3) ok(1) assms(18-20)] ok(1) by (simp add: run p_def del: axil_ram_run.simps)
  next
    case False
    then have "p + al_bw cfg \<le> length mem" using multiples_apart [OF al(1) ok(4)] al(3) by simp
    then show ?thesis
      using raced_data [OF r2(2,3) ok(1) assms(18-20)] False ram_store_apart [OF al(1,2)]
      by (auto simp: run RESP_OKAY_def simp flip: p_def simp del: axil_ram_run.simps)
  qed
qed

text \<open>The same in a run of the master and the memory: a write of address 0 and a read of address 2.\<close>

definition late_edge :: "bool \<Rightarrow> axil_pause" where
  "late_edge w = \<lparr>p_aw = False, p_w = w, p_b = False, p_ar = False, p_r = False\<rparr>"

definition late_data :: "nat \<Rightarrow> axil_event list" where
  \<comment> \<open>edges at which only the write data channel of the memory is paused\<close>
  "late_data n = replicate n (Edge (late_edge False) (late_edge True))"

lemma read_moves_write_run:
  "case axil_run \<lparr>al_bw = 1, al_addr_bits = 8, al_latency = 1\<rparr>
      (Write 0 [0xAA] 0 # late_data 1 @ Read 2 1 0 # late_data 5 @ axil_calm 6) (axil_master0, axil_ram0 4) of
    Inl e \<Rightarrow> False
  | Inr (m, r) \<Rightarrow> axil_master_idle m \<and> mm_mem (ar_file r) = [0, 0, 0, 0xAA]
      \<and> am_write_resp_queue m = [(0, 1, 0, RESP_OKAY)] \<and> am_read_data_queue m = [(2, [0], 0, RESP_OKAY)]"
  by code_simp

theorem axil_read_moves_write_witness:
  "\<exists>r'. axil_ram_run \<lparr>al_bw = 1, al_addr_bits = 8, al_latency = 1\<rparr>
      (let i = \<lparr>tr_awaddr = 0, tr_awvalid = False, tr_wdata = 0, tr_wstrb = 0, tr_wvalid = False, tr_bready = True,
                tr_araddr = 0, tr_arvalid = False, tr_rready = True\<rparr>; e = late_edge False
       in (e, i\<lparr>tr_awvalid := True\<rparr>) # [(e, i)] @ (e, i\<lparr>tr_araddr := 2, tr_arvalid := True\<rparr>) # [(e, i), (e, i)]
          @ [(e, i\<lparr>tr_wdata := 0xAA, tr_wstrb := 1, tr_wvalid := True\<rparr>)])
      ((axil_ram0 4)\<lparr>ar_file := \<lparr>mm_mem = [1, 2, 3, 4], mm_pos = 0\<rparr>\<rparr>) = Inr r'
    \<and> mm_mem (ar_file r') = [1, 2, 3, 0xAA]"
proof -
  let ?i = "\<lparr>tr_awaddr = 0, tr_awvalid = False, tr_wdata = 0, tr_wstrb = 0, tr_wvalid = False, tr_bready = True,
                tr_araddr = 0, tr_arvalid = False, tr_rready = True\<rparr>"
  let ?e = "late_edge False" and ?cfg = "\<lparr>al_bw = 1, al_addr_bits = 8, al_latency = 1\<rparr>"
  let ?r = "(axil_ram0 4)\<lparr>ar_file := \<lparr>mm_mem = [1, 2, 3, 4 :: 8 word], mm_pos = 0\<rparr>\<rparr>"
  have pos: "word_pos (Suc 0) (Suc (Suc (Suc (Suc 0)))) 2 = 2"
    "ram_store (Suc 0) 3 (0xAA, 1) [1, 2, 3, 4] = [1, 2, 3, 0xAA]"
    by code_simp+
  show ?thesis
    using axil_read_moves_write [of ?cfg "[1, 2, 3, 4]" ?r "(?e, ?i\<lparr>tr_awvalid := True\<rparr>)" "[(?e, ?i)]"
        "(?e, ?i\<lparr>tr_araddr := 2, tr_arvalid := True\<rparr>)" "[(?e, ?i), (?e, ?i)]"
        "(?e, ?i\<lparr>tr_wdata := 0xAA, tr_wstrb := 1, tr_wvalid := True\<rparr>)"] pos
    by (simp add: axil_cfg_ok_def axil_ram0_def late_edge_def no_read_def no_data_def ram_waits_def Let_def
        del: axil_ram_run.simps) blast
qed

end
