(* ===== verification/Spec2Isabelle.thy ===== *)
theory Spec2Isabelle
  imports Roce_Stream Connection_Manager Pause_Frame Arp_Endpoint Framed_Endpoint Gmii_Endpoint Baser_Endpoint
    Axi_Link Ll_Endpoint Ptp_Clock Ptp_Td_Reset Baser_Cocotb_Gap Axil_Race Axil_Wait
begin

text \<open>
  A verification library for the Python part of the RoCEv2 end-point: the scripts that talk to the
  hardware and check what it sends, and the bus functional models that the test benches of the Ethernet
  library drive it with.

  \<^bold>\<open>The program.\<close>  The hardware is written in Verilog.  Five groups of Python programs belong to it.
  \<^item> The host scripts under \<open>Scripts\<close>: the client of the connection manager builds UDP datagrams that open,
    modify and close queue pairs and start transfers, and decodes the replies; the TAP decoder captures the
    RoCE packets of a transfer, parses them layer by layer, recomputes the invariant CRC and
    counts lost packets and wrong lengths; the pause script builds an Ethernet pause frame with its
    check sequence.
  \<^item> The stream end-points under \<open>lib/eth/lib/axis/tb\<close> and \<open>lib/eth/tb\<close>: sources and sinks of AXI
    stream frames, and, on top of them, of Ethernet, ARP, IP and UDP frames, which they build and parse.
  \<^item> The media end-points under \<open>lib/eth/tb\<close>: sources and sinks of Ethernet frames on MII,
    GMII, RGMII, XGMII and on the 64b/66b interface of a serialiser.
  \<^item> The clocks under \<open>lib/eth/tb\<close>: a PTP clock, and the two ends of the distribution of its time over one wire.
  \<^item> The memory-mapped end-points under \<open>lib/eth/lib/axi/tb\<close>: a master and a memory each for AXI-Lite and AXI.

  \<^bold>\<open>How the code is modelled.\<close>  Every function is a HOL function on the code's data: an object is a record
  with one field per attribute, Python's integers are \<open>int\<close>, bytes are \<open>8 word list\<close>, and a raised exception
  is \<open>Inl\<close> of a value of \<open>py_error\<close>.  A process of a test bench, a generator that runs from one clock
  edge to the next, is a step function from its state and the signals it reads to its state with the signals it
  drives; an assignment to a signal that does not fit its width is a \<open>ValueError\<close>.  Assignments take effect
  after the edge, so a sink reads the values of the source before the step.  The clock enable, pauses and resets are
  arguments of the step, and a run is a list of events in any order.

  \<^bold>\<open>The theories.\<close>
  \<^item> \<open>Prelude\<close>: the result type, \<open>bindR\<close>, Python's slices and list operations, shifts and masks as arithmetic.
    \<open>Struct_Codec\<close>: the formats of \<open>struct.pack\<close> and \<open>struct.unpack\<close> the code uses, and
    their round trips.  \<open>Lanes\<close>: words made of lanes of equal width, chunks of a list, the octets and
    error marks of MII frames.
  \<^item> \<open>Crc32\<close>: \<open>compute_crc\<close> and \<open>reverse_poly_bits\<close> of the TAP decoder, and that its bit loop
    computes the table CRC of \<open>zlib\<close>.  \<open>Tap_Decoder\<close>: the frame classes of
    \<open>Scripts/Decode_tap_data.py\<close>, the masking of the variant fields and the invariant CRC.
    \<open>Roce_Stream\<close>: the class that follows a stream of packets, with the counts of a whole write message.
  \<^item> \<open>Connection_Manager\<close>: \<open>Scripts/send_connection_info.py\<close>.  \<open>Pause_Frame\<close>:
    \<open>Scripts/Send_pause_frame.py\<close>.
  \<^item> \<open>Stream_Link\<close>: the interface of a stream with handshake as a locale, with delivery and conservation
    proved once.  \<open>Axis_Frame\<close>, \<open>Axis_Endpoint\<close>: \<open>lib/eth/lib/axis/tb/axis_ep.py\<close>.
    \<open>Arp_Endpoint\<close>: \<open>arp_ep.py\<close>.  \<open>Ll_Endpoint\<close>: \<open>ll_ep.py\<close>, the end-points of LocalLink.  The three interpret the
    locale on the code's model.
  \<^item> \<open>Eth_Frame\<close>, \<open>Ip_Frame\<close>, \<open>Udp_Frame\<close>: the frame classes of \<open>eth_ep.py\<close>, \<open>ip_ep.py\<close> and
    \<open>udp_ep.py\<close>, with checksums and check sequence.  \<open>Framed_Endpoint\<close>: the sources and sinks of the three,
    which pair a header with an AXI stream of the payload.
  \<^item> \<open>Wire_Link\<close>: the interface of a link without handshake as three locales, source, sink and the two
    together.  \<open>Gmii_Endpoint\<close>: \<open>gmii_ep.py\<close>, \<open>mii_ep.py\<close>, \<open>rgmii_ep.py\<close>; \<open>Xgmii_Endpoint\<close>:
    \<open>xgmii_ep.py\<close>; \<open>Baser_Codec\<close> and \<open>Baser_Endpoint\<close>: \<open>baser_serdes_ep.py\<close>.  All four links
    interpret the locales on the code's model, and so does a fifth, \<open>baser.py\<close>, the version of the last for cocotb.
    \<open>Baser_Cocotb_Codec\<close>: its block code, over the constants and tables of the package \<open>cocotbext.eth\<close>, and that it is the
    code of \<open>baser_serdes_ep.py\<close>.  \<open>Baser_Cocotb\<close>: its queues and processes, over the package's frame class.
    \<open>Baser_Cocotb_Link\<close>: delivery.  \<open>Baser_Cocotb_Gap\<close>: gaps, bit slip, occupancy counts.
  \<^item> \<open>Process_Loop\<close>: two interfaces as locales, a process that works off queues between two clock
    edges, and a test that waits for its end-points.  Both are interpreted for AXI, the second for AXI-Lite too.
  \<^item> \<open>Axil_Endpoint\<close>: \<open>axil.py\<close>, every process of \<open>AXILiteMaster\<close> and \<open>AXILiteRam\<close>, with the memory map they
    share and the division of floats.  \<open>Axil_Memory\<close>: addresses, strobes and octets of a command against
    \<open>store\<close> and \<open>load\<close> on a list of octets.  \<open>Axil_Write\<close>, \<open>Axil_Read\<close>: invariants of a
    master and a memory while writes, or reads, are under way, with the work that is left.  \<open>Axil_Wait\<close>: \<open>wait\<close> returns.
    \<open>Axil_Race\<close>: a read while a write waits for its data.
  \<^item> \<open>Axi_Endpoint\<close>: \<open>axi.py\<close>, every process of \<open>AXIMaster\<close> and \<open>AXIRam\<close>.  \<open>Axi_Cut\<close>: how commands become
    bursts.  \<open>Axi_Write\<close>, \<open>Axi_Read\<close>: the two sides of the bus, each with an invariant that tolerates the other; \<open>Axi_Link\<close>: both
    together, batches of overlapping commands, and the memory they implement.

  \<^item> \<open>Ptp_Clock\<close>: \<open>ptp.py\<close>.  \<open>Ptp_Td\<close>: \<open>ptp_td.py\<close>, \<open>PtpTdSource\<close> and \<open>PtpTdSink\<close>.  \<open>Ptp_Td_Link\<close>: the bits on
    the wire, and an invariant that follows the position in the 256 edges of a message.  \<open>Ptp_Td_Lock\<close>: the arithmetic of the
    two times, and that the sink takes over the time of the source.  \<open>Ptp_Td_Reset\<close>: a reset of the source in mid-message.

  \<^bold>\<open>What is proved.\<close>
  \<^item> Links deliver: every frame sent arrives once, in order and unchanged, under every schedule of pauses,
    ready signals and clock enables (RGMII with the enable always high), and within a bounded number of cycles (AXI stream, LocalLink, ARP, MII, GMII, RGMII,
    XGMII, BASE-R).  Between the ends nothing is lost or duplicated at any moment, and a word offered with
    \<open>tvalid\<close> stays until it is taken.
  \<^item> Codecs: build and parse are inverse for AXI stream, Ethernet, ARP, IP and UDP frames, with the checksum
    and check sequence valid on the wire; every 64b/66b block decodes to the lanes it encodes; requests of
    the connection manager decode to the fields they were built from.
  \<^item> Arithmetic: the invariant CRC computed in software is the CRC-32 of the masked packet, ignores the variant
    fields and the last four octets and detects every change of one other octet; the IP checksum accepts a changed header exactly
    if the sums of the words agree modulo \<open>0xffff\<close>; the scrambler synchronises itself.
  \<^item> Refinement: the scrambled and reversed BASE-R link refines the plain one; RGMII's double data
    rate stage gives every word back three cycles later; AXI-Lite and AXI masters with their memories refine a memory of octets that acts at once.  Over AXI
    reads and writes of disjoint positions may overlap in time; over AXI-Lite they go in phases, since its
    memory shares one file position between the two processes, and a theorem shows where a write lands when a read is served
    before its data come.  Waiting for either master returns; the AXI bus is well-typed at every moment, and no burst crosses 4 KiB.
  \<^item> Time: how fast the clocks run, to the fraction; the sink of the time distribution is in step with its source from five
    messages after the last setting on.
  \<^item> Errors and limits: error marks cut a frame off, the deficit idle count stays within three octets of the gap, frame by frame and in sum, what each
    request of the connection manager refuses, what becomes of queue pair and sequence numbers of more than 24 bits, and inputs on which the code raises or counts wrongly.

  \<^bold>\<open>Bounds.\<close>  There is no fuel: the recursions are structural or have a measure, and the time bounds of the delivery
  theorems are numbers of enabled clock cycles computed from the lengths of the frames and the gap; for AXI-Lite, \<open>latency + 6\<close> edges
  without a pause per word written and \<open>latency + 5\<close> per word read.  \<open>wait\<close> may run for ever and is a partial function; it
  is proved to return when infinitely many edges have no pause.

  \<^bold>\<open>Not modelled.\<close>  Sockets, captures, printing and logging; the generators that only suspend a test until
  something arrives; \<open>zlib.crc32\<close> is the documented CRC-32 as a HOL function.  The capture loop at the end of
  the TAP decoder draws random parameters and waits on a socket.  Of \<open>baser.py\<close>, the
  package outside the repository it rests on is a parameter, constants, tables and frame class; simulation time and completion handlers are left out.  The user ports of AXI are not connected, and a memory has one
  port.  The settings of the PTP time distribution in decimal fractions of a nanosecond, which \<open>decimal\<close> rounds to 60 or 28 digits,
  are outside; they end in the settings on integers.  The set-up scripts of the clock generator of the example boards and the
  generators of Verilog wrappers write text and are not modelled.
\<close>

end
